(* ===== verification/Prelude.thy ===== *)
theory Prelude
  imports Main "HOL-Library.Word" "HOL-Library.Multiset" "HOL-Library.Monad_Syntax"
begin

text \<open>
  Shared vocabulary of the development: the machine integers of the C sources,
  memory cells that may be read out of range, result codes as values, and the
  generic facts about lists that the component theories use.
\<close>

unbundle bit_operations_syntax

subsection \<open>Machine integers\<close>

type_synonym u8 = "8 word"
type_synonym u16 = "16 word"
type_synonym u32 = "32 word"
type_synonym u64 = "64 word"

text \<open>Page numbers and transaction ids of libmdbx (\<open>pgno_t\<close>, \<open>txnid_t\<close>).\<close>

type_synonym pgno_t = u32
type_synonym txnid_t = u64

text \<open>
  Facts that rewrite the code's arithmetic on words and list cells, collected for
  \<^theory_text>\<open>simp add:\<close> in the component theories.
\<close>

named_theorems cell_simps "reading back list cells after an update"
named_theorems arith_simps "the code's word arithmetic read as natural numbers"

subsection \<open>Reading a cell that may lie outside its array\<close>

definition rd :: "'a list \<Rightarrow> nat \<Rightarrow> 'a option" where
  "rd xs i = (if i < length xs then Some (xs ! i) else None)"

lemma rd_in [cell_simps]: "i < length xs \<Longrightarrow> rd xs i = Some (xs ! i)"
  by (simp add: rd_def)

lemma rd_out [cell_simps]: "length xs \<le> i \<Longrightarrow> rd xs i = None"
  by (simp add: rd_def)

lemma rd_Some_iff: "rd xs i = Some x \<longleftrightarrow> i < length xs \<and> xs ! i = x"
  by (auto simp: rd_def)

text \<open>Writing a cell: a store outside the array is undefined behaviour, \<^const>\<open>None\<close>.\<close>

definition wr :: "'a list \<Rightarrow> nat \<Rightarrow> 'a \<Rightarrow> 'a list option" where
  "wr xs i v = (if i < length xs then Some (xs[i := v]) else None)"

lemma wr_in [cell_simps]: "i < length xs \<Longrightarrow> wr xs i v = Some (xs[i := v])"
  by (simp add: wr_def)

lemma wr_out [cell_simps]: "length xs \<le> i \<Longrightarrow> wr xs i v = None"
  by (simp add: wr_def)

lemma wr_Some_iff: "wr xs i v = Some ys \<longleftrightarrow> i < length xs \<and> ys = xs[i := v]"
  by (auto simp: wr_def)

subsection \<open>Lists ordered by a strict comparison\<close>

definition sorted_by :: "('a \<Rightarrow> 'a \<Rightarrow> bool) \<Rightarrow> 'a list \<Rightarrow> bool" where
  "sorted_by cmp xs \<longleftrightarrow> sorted_wrt (\<lambda>x y. \<not> cmp y x) xs"

lemma sorted_by_nth:
  "sorted_by cmp xs \<longleftrightarrow> (\<forall>i j. i < j \<longrightarrow> j < length xs \<longrightarrow> \<not> cmp (xs ! j) (xs ! i))"
  by (simp add: sorted_by_def sorted_wrt_iff_nth_less)

lemma sorted_by_nthD:
  "\<lbrakk>sorted_by cmp xs; i < j; j < length xs\<rbrakk> \<Longrightarrow> \<not> cmp (xs ! j) (xs ! i)"
  by (simp add: sorted_by_nth)

lemma sorted_by_Nil [simp]: "sorted_by cmp []"
  by (simp add: sorted_by_def)

lemma sorted_by_single [simp]: "sorted_by cmp [x]"
  by (simp add: sorted_by_def)

lemma sorted_by_short: "length xs \<le> 1 \<Longrightarrow> sorted_by cmp xs"
  by (cases xs) auto

text \<open>
  The contract of every comparison macro the sorting and searching code is
  instantiated with: a strict weak order.
\<close>

locale strict_weak_cmp =
  fixes cmp :: "'a \<Rightarrow> 'a \<Rightarrow> bool"
  assumes cmp_irrefl: "\<not> cmp x x"
    and cmp_trans: "cmp x y \<Longrightarrow> cmp y z \<Longrightarrow> cmp x z"
    and cmp_negtrans: "cmp x y \<Longrightarrow> cmp x z \<or> cmp z y"
begin

lemma cmp_asym: "cmp x y \<Longrightarrow> \<not> cmp y x"
  using cmp_irrefl cmp_trans by blast

lemma not_cmp_trans: "\<not> cmp y x \<Longrightarrow> \<not> cmp z y \<Longrightarrow> \<not> cmp z x"
  using cmp_negtrans by blast

lemma cmp_not_cmp_trans: "cmp x y \<Longrightarrow> \<not> cmp z y \<Longrightarrow> cmp x z"
  using cmp_negtrans by blast

lemma sorted_by_Cons:
  "sorted_by cmp (x # xs) \<longleftrightarrow> (\<forall>y \<in> set xs. \<not> cmp y x) \<and> sorted_by cmp xs"
  by (simp add: sorted_by_def)

lemma sorted_by_append:
  "sorted_by cmp (xs @ ys) \<longleftrightarrow>
     sorted_by cmp xs \<and> sorted_by cmp ys \<and> (\<forall>x \<in> set xs. \<forall>y \<in> set ys. \<not> cmp y x)"
  by (auto simp: sorted_by_def sorted_wrt_append)

end

subsection \<open>Segments of an array\<close>

definition seg :: "nat \<Rightarrow> nat \<Rightarrow> 'a list \<Rightarrow> 'a list" where
  "seg lo len xs = take len (drop lo xs)"

lemma length_seg [simp]: "lo + len \<le> length xs \<Longrightarrow> length (seg lo len xs) = len"
  by (simp add: seg_def)

lemma seg_nth [simp]: "i < len \<Longrightarrow> lo + len \<le> length xs \<Longrightarrow> seg lo len xs ! i = xs ! (lo + i)"
  by (simp add: seg_def)

lemma split_seg:
  assumes "lo + len \<le> length xs"
  shows "xs = take lo xs @ seg lo len xs @ drop (lo + len) xs"
  unfolding seg_def by (metis add.commute append_take_drop_id drop_drop)

lemma mset_swap_cells:
  "i < length xs \<Longrightarrow> j < length xs \<Longrightarrow> mset (xs[i := xs ! j, j := xs ! i]) = mset xs"
  by (rule mset_swap)

end
