(* ===== verification/Sort_Network.thy ===== *)
theory Sort_Network
  imports Prelude
begin

text \<open>
  The sorting networks of \<open>mdbx.c\<close> (\<open>SORT_CMP_SWAP\<close>, \<open>SORT_NETWORK_3\<close> to
  \<open>SORT_NETWORK_16\<close>, \<open>SORT_INNER\<close>): the base case of the quicksort. A network is the
  list of its comparators in program order; running it on an array cell by cell is
  the C macro. Every network is proved to sort, for every strict weak order, by the
  zero-one principle: a comparator commutes with monotone thresholds, and on the
  finitely many bit vectors that can reach each comparator the network is evaluated.
\<close>

subsection \<open>Comparators and networks\<close>

definition sort_cmp_swap :: "('a \<Rightarrow> 'a \<Rightarrow> bool) \<Rightarrow> nat \<Rightarrow> nat \<Rightarrow> 'a list \<Rightarrow> 'a list" where
  "sort_cmp_swap cmp a b xs =
     (let swap_tmp = xs ! a;
          swap_cmp = cmp swap_tmp (xs ! b);
          xs1 = xs[a := (if swap_cmp then swap_tmp else xs ! b)]
      in xs1[b := (if swap_cmp then xs1 ! b else swap_tmp)])"

fun run_network :: "('a \<Rightarrow> 'a \<Rightarrow> bool) \<Rightarrow> nat \<Rightarrow> (nat \<times> nat) list \<Rightarrow> 'a list \<Rightarrow> 'a list" where
  "run_network cmp base [] xs = xs"
| "run_network cmp base ((a, b) # net) xs =
     run_network cmp base net (sort_cmp_swap cmp (base + a) (base + b) xs)"

definition sort_network_3 :: "(nat \<times> nat) list" where
  "sort_network_3 =
    [(1, 2), (0, 2), (0, 1)]"

definition sort_network_4 :: "(nat \<times> nat) list" where
  "sort_network_4 =
    [(0, 1), (2, 3), (0, 2), (1, 3), (1, 2)]"

definition sort_network_5 :: "(nat \<times> nat) list" where
  "sort_network_5 =
    [(0, 4), (1, 3), (0, 2), (2, 4), (0, 1), (2, 3), (1, 4), (1, 2), (3, 4)]"

definition sort_network_6 :: "(nat \<times> nat) list" where
  "sort_network_6 =
    [(1, 2), (4, 5), (0, 2), (3, 5), (0, 1), (3, 4), (2, 5), (0, 3), (1, 4), (2, 4),
     (1, 3), (2, 3)]"

definition sort_network_7 :: "(nat \<times> nat) list" where
  "sort_network_7 =
    [(0, 4), (1, 5), (2, 6), (0, 2), (1, 3), (4, 6), (2, 4), (3, 5), (0, 1), (2, 3),
     (4, 5), (1, 4), (3, 6), (1, 2), (3, 4), (5, 6)]"

definition sort_network_8 :: "(nat \<times> nat) list" where
  "sort_network_8 =
    [(0, 4), (1, 5), (2, 6), (3, 7), (0, 2), (1, 3), (4, 6), (5, 7), (2, 4), (3, 5),
     (0, 1), (6, 7), (2, 3), (4, 5), (1, 4), (3, 6), (1, 2), (3, 4), (5, 6)]"

definition sort_network_9 :: "(nat \<times> nat) list" where
  "sort_network_9 =
    [(0, 1), (3, 4), (6, 7), (1, 2), (4, 5), (7, 8), (0, 1), (3, 4), (6, 7), (2, 5),
     (0, 3), (1, 4), (5, 8), (3, 6), (4, 7), (2, 5), (0, 3), (1, 4), (5, 7), (2, 6),
     (1, 3), (4, 6), (2, 4), (5, 6), (2, 3)]"

definition sort_network_10 :: "(nat \<times> nat) list" where
  "sort_network_10 =
    [(4, 9), (3, 8), (2, 7), (1, 6), (0, 5), (1, 4), (6, 9), (0, 3), (5, 8), (0, 2),
     (3, 6), (7, 9), (0, 1), (2, 4), (5, 7), (8, 9), (1, 2), (4, 6), (7, 8), (3, 5),
     (2, 5), (6, 8), (1, 3), (4, 7), (2, 3), (6, 7), (3, 4), (5, 6), (4, 5)]"

definition sort_network_11 :: "(nat \<times> nat) list" where
  "sort_network_11 =
    [(0, 1), (2, 3), (4, 5), (6, 7), (8, 9), (1, 3), (5, 7), (0, 2), (4, 6), (8, 10),
     (1, 2), (5, 6), (9, 10), (0, 4), (3, 7), (1, 5), (6, 10), (4, 8), (5, 9), (2, 6),
     (0, 4), (3, 8), (1, 5), (6, 10), (2, 3), (8, 9), (1, 4), (7, 10), (3, 5), (6, 8),
     (2, 4), (7, 9), (5, 6), (3, 4), (7, 8)]"

definition sort_network_12 :: "(nat \<times> nat) list" where
  "sort_network_12 =
    [(0, 1), (2, 3), (4, 5), (6, 7), (8, 9), (10, 11), (1, 3), (5, 7), (9, 11), (0, 2),
     (4, 6), (8, 10), (1, 2), (5, 6), (9, 10), (0, 4), (7, 11), (1, 5), (6, 10), (3, 7),
     (4, 8), (5, 9), (2, 6), (0, 4), (7, 11), (3, 8), (1, 5), (6, 10), (2, 3), (8, 9),
     (1, 4), (7, 10), (3, 5), (6, 8), (2, 4), (7, 9), (5, 6), (3, 4), (7, 8)]"

definition sort_network_13 :: "(nat \<times> nat) list" where
  "sort_network_13 =
    [(1, 7), (9, 11), (3, 4), (5, 8), (0, 12), (2, 6), (0, 1), (2, 3), (4, 6), (8, 11),
     (7, 12), (5, 9), (0, 2), (3, 7), (10, 11), (1, 4), (6, 12), (7, 8), (11, 12),
     (4, 9), (6, 10), (3, 4), (5, 6), (8, 9), (10, 11), (1, 7), (2, 6), (9, 11), (1, 3),
     (4, 7), (8, 10), (0, 5), (2, 5), (6, 8), (9, 10), (1, 2), (3, 5), (7, 8), (4, 6),
     (2, 3), (4, 5), (6, 7), (8, 9), (3, 4), (5, 6)]"

definition sort_network_14 :: "(nat \<times> nat) list" where
  "sort_network_14 =
    [(0, 1), (2, 3), (4, 5), (6, 7), (8, 9), (10, 11), (12, 13), (0, 2), (4, 6),
     (8, 10), (1, 3), (5, 7), (9, 11), (0, 4), (8, 12), (1, 5), (9, 13), (2, 6), (3, 7),
     (0, 8), (1, 9), (2, 10), (3, 11), (4, 12), (5, 13), (5, 10), (6, 9), (3, 12),
     (7, 11), (1, 2), (4, 8), (1, 4), (7, 13), (2, 8), (5, 6), (9, 10), (2, 4),
     (11, 13), (3, 8), (7, 12), (6, 8), (10, 12), (3, 5), (7, 9), (3, 4), (5, 6),
     (7, 8), (9, 10), (11, 12), (6, 7), (8, 9)]"

definition sort_network_15 :: "(nat \<times> nat) list" where
  "sort_network_15 =
    [(0, 1), (2, 3), (4, 5), (6, 7), (8, 9), (10, 11), (12, 13), (0, 2), (4, 6),
     (8, 10), (12, 14), (1, 3), (5, 7), (9, 11), (0, 4), (8, 12), (1, 5), (9, 13),
     (2, 6), (10, 14), (3, 7), (0, 8), (1, 9), (2, 10), (3, 11), (4, 12), (5, 13),
     (6, 14), (5, 10), (6, 9), (3, 12), (13, 14), (7, 11), (1, 2), (4, 8), (1, 4),
     (7, 13), (2, 8), (11, 14), (5, 6), (9, 10), (2, 4), (11, 13), (3, 8), (7, 12),
     (6, 8), (10, 12), (3, 5), (7, 9), (3, 4), (5, 6), (7, 8), (9, 10), (11, 12),
     (6, 7), (8, 9)]"

definition sort_network_16 :: "(nat \<times> nat) list" where
  "sort_network_16 =
    [(0, 1), (2, 3), (4, 5), (6, 7), (8, 9), (10, 11), (12, 13), (14, 15), (0, 2),
     (4, 6), (8, 10), (12, 14), (1, 3), (5, 7), (9, 11), (13, 15), (0, 4), (8, 12),
     (1, 5), (9, 13), (2, 6), (10, 14), (3, 7), (11, 15), (0, 8), (1, 9), (2, 10),
     (3, 11), (4, 12), (5, 13), (6, 14), (7, 15), (5, 10), (6, 9), (3, 12), (13, 14),
     (7, 11), (1, 2), (4, 8), (1, 4), (7, 13), (2, 8), (11, 14), (5, 6), (9, 10),
     (2, 4), (11, 13), (3, 8), (7, 12), (6, 8), (10, 12), (3, 5), (7, 9), (3, 4),
     (5, 6), (7, 8), (9, 10), (11, 12), (6, 7), (8, 9)]"

text \<open>
  \<open>SORT_INNER\<close>: the switch on the length of the chunk that starts at \<open>base\<close>. The
  default case is \<open>__unreachable()\<close>, modelled as \<open>None\<close>.
\<close>

definition sort_inner :: "('a \<Rightarrow> 'a \<Rightarrow> bool) \<Rightarrow> nat \<Rightarrow> nat \<Rightarrow> 'a list \<Rightarrow> 'a list option" where
  "sort_inner cmp base len xs =
     (if len = 0 \<or> len = 1 then Some xs
      else if len = 2 then Some (sort_cmp_swap cmp base (base + 1) xs)
      else if len = 3 then Some (run_network cmp base sort_network_3 xs)
      else if len = 4 then Some (run_network cmp base sort_network_4 xs)
      else if len = 5 then Some (run_network cmp base sort_network_5 xs)
      else if len = 6 then Some (run_network cmp base sort_network_6 xs)
      else if len = 7 then Some (run_network cmp base sort_network_7 xs)
      else if len = 8 then Some (run_network cmp base sort_network_8 xs)
      else if len = 9 then Some (run_network cmp base sort_network_9 xs)
      else if len = 10 then Some (run_network cmp base sort_network_10 xs)
      else if len = 11 then Some (run_network cmp base sort_network_11 xs)
      else if len = 12 then Some (run_network cmp base sort_network_12 xs)
      else if len = 13 then Some (run_network cmp base sort_network_13 xs)
      else if len = 14 then Some (run_network cmp base sort_network_14 xs)
      else if len = 15 then Some (run_network cmp base sort_network_15 xs)
      else if len = 16 then Some (run_network cmp base sort_network_16 xs)
      else None)"

subsection \<open>Comparators permute and stay inside their chunk\<close>

lemma length_sort_cmp_swap [simp]: "length (sort_cmp_swap cmp a b xs) = length xs"
  by (simp add: sort_cmp_swap_def Let_def)

lemma length_run_network [simp]: "length (run_network cmp base net xs) = length xs"
  by (induction cmp base net xs rule: run_network.induct) simp_all

lemma sort_cmp_swap_eq:
  "a < length xs \<Longrightarrow> b < length xs \<Longrightarrow> a \<noteq> b \<Longrightarrow>
     sort_cmp_swap cmp a b xs = (if cmp (xs ! a) (xs ! b) then xs else xs[a := xs ! b, b := xs ! a])"
  by (simp add: sort_cmp_swap_def Let_def)

lemma mset_sort_cmp_swap:
  "a < length xs \<Longrightarrow> b < length xs \<Longrightarrow> a \<noteq> b \<Longrightarrow> mset (sort_cmp_swap cmp a b xs) = mset xs"
  by (simp add: sort_cmp_swap_eq mset_swap_cells)

text \<open>A network on \<open>n\<close> wires: every comparator joins two different wires below \<open>n\<close>.\<close>

definition on_wires :: "nat \<Rightarrow> (nat \<times> nat) list \<Rightarrow> bool" where
  "on_wires n net \<longleftrightarrow> list_all (\<lambda>(a, b). a < n \<and> b < n \<and> a \<noteq> b) net"

lemma on_wires_Cons [simp]:
  "on_wires n ((a, b) # net) \<longleftrightarrow> a < n \<and> b < n \<and> a \<noteq> b \<and> on_wires n net"
  by (auto simp: on_wires_def)

lemma sort_cmp_swap_append:
  assumes "a < length ys" "b < length ys" "a \<noteq> b"
  shows "sort_cmp_swap cmp (length xs + a) (length xs + b) (xs @ ys @ zs) =
         xs @ sort_cmp_swap cmp a b ys @ zs"
  using assms by (simp add: sort_cmp_swap_eq nth_append list_update_append)

lemma run_network_append:
  "on_wires n net \<Longrightarrow> length ys = n \<Longrightarrow>
     run_network cmp (length xs) net (xs @ ys @ zs) = xs @ run_network cmp 0 net ys @ zs"
proof (induction net arbitrary: ys)
  case (Cons ab net)
  then show ?case by (cases ab) (auto simp: sort_cmp_swap_append)
qed simp

lemma mset_run_network:
  "on_wires (length xs) net \<Longrightarrow> mset (run_network cmp 0 net xs) = mset xs"
proof (induction net arbitrary: xs)
  case (Cons ab net)
  then show ?case by (cases ab) (auto simp: mset_sort_cmp_swap)
qed simp

subsection \<open>The zero-one principle\<close>

definition bit_lt :: "bool \<Rightarrow> bool \<Rightarrow> bool" where
  "bit_lt p q \<longleftrightarrow> \<not> p \<and> q"

definition monotone_threshold :: "('a \<Rightarrow> 'a \<Rightarrow> bool) \<Rightarrow> ('a \<Rightarrow> bool) \<Rightarrow> bool" where
  "monotone_threshold cmp f \<longleftrightarrow> (\<forall>x y. \<not> cmp y x \<longrightarrow> f x \<longrightarrow> f y)"

lemma map_sort_cmp_swap:
  assumes "a < length xs" "b < length xs" "a \<noteq> b" and f: "monotone_threshold cmp f"
    and asym: "\<And>x y. cmp x y \<Longrightarrow> \<not> cmp y x"
  shows "map f (sort_cmp_swap cmp a b xs) = sort_cmp_swap bit_lt a b (map f xs)"
proof -
  have same: "(map f xs)[a := f (xs ! b), b := f (xs ! a)] = map f xs"
    if "f (xs ! a) = f (xs ! b)"
  proof -
    have "f (xs ! b) = map f xs ! a" "f (xs ! a) = map f xs ! b"
      using that assms(1,2) by simp_all
    then show ?thesis by (simp only: list_update_id)
  qed
  have up: "cmp (xs ! a) (xs ! b) \<Longrightarrow> f (xs ! a) \<Longrightarrow> f (xs ! b)"
    and down: "\<not> cmp (xs ! a) (xs ! b) \<Longrightarrow> f (xs ! b) \<Longrightarrow> f (xs ! a)"
    using f asym unfolding monotone_threshold_def by blast+
  have net: "sort_cmp_swap bit_lt a b (map f xs) =
      (if \<not> f (xs ! a) \<and> f (xs ! b) then map f xs
       else (map f xs)[a := f (xs ! b), b := f (xs ! a)])"
    using assms(1-3) by (simp add: sort_cmp_swap_eq bit_lt_def)
  show ?thesis
  proof (cases "f (xs ! a) = f (xs ! b)")
    case True
    then show ?thesis unfolding net using same [OF True] assms(1-3)
      by (auto simp: sort_cmp_swap_eq map_update)
  next
    case False
    then have "cmp (xs ! a) (xs ! b) \<longleftrightarrow> \<not> f (xs ! a)" using up down by blast
    then show ?thesis unfolding net using False assms(1-3)
      by (auto simp: sort_cmp_swap_eq map_update)
  qed
qed

lemma map_run_network:
  assumes f: "monotone_threshold cmp f" and asym: "\<And>x y. cmp x y \<Longrightarrow> \<not> cmp y x"
  shows "on_wires (length xs) net \<Longrightarrow>
    map f (run_network cmp 0 net xs) = run_network bit_lt 0 net (map f xs)"
proof (induction net arbitrary: xs)
  case (Cons ab net)
  then show ?case by (cases ab) (auto simp: map_sort_cmp_swap [OF _ _ _ f asym])
qed simp

definition sorts_bits :: "nat \<Rightarrow> (nat \<times> nat) list \<Rightarrow> bool" where
  "sorts_bits n net \<longleftrightarrow> on_wires n net \<and>
     (\<forall>v :: bool list. length v = n \<longrightarrow> sorted (run_network bit_lt 0 net v))"

context strict_weak_cmp
begin

lemma zero_one_principle:
  assumes "sorts_bits (length xs) net"
  shows "sorted_by cmp (run_network cmp 0 net xs)"
proof -
  let ?r = "run_network cmp 0 net xs"
  have "\<not> cmp (?r ! j) (?r ! i)" if ij: "i < j" "j < length xs" for i j
  proof
    assume bad: "cmp (?r ! j) (?r ! i)"
    define f where "f = (\<lambda>x. cmp (?r ! j) x)"
    have mono: "monotone_threshold cmp f"
      unfolding monotone_threshold_def f_def using cmp_not_cmp_trans by blast
    have "map f ?r = run_network bit_lt 0 net (map f xs)"
      using assms by (intro map_run_network [OF mono cmp_asym]) (auto simp: sorts_bits_def)
    moreover have "sorted (run_network bit_lt 0 net (map f xs))"
      using assms by (simp add: sorts_bits_def)
    ultimately have "sorted (map f ?r)" by simp
    then have "map f ?r ! i \<le> map f ?r ! j"
      using ij by (intro sorted_nth_mono) auto
    with ij have "f (?r ! i) \<le> f (?r ! j)" by simp
    then show False using bad cmp_irrefl by (simp add: f_def)
  qed
  then show ?thesis by (simp add: sorted_by_nth)
qed

end

subsection \<open>Evaluating a network on the bit vectors that can reach it\<close>

text \<open>
  The wires are grouped into blocks that no comparator has joined so far; a block
  carries the list of bit vectors its wires can hold. A comparator inside a block
  acts on the block's vectors, a comparator between two blocks merges them first.
  \<open>holds\<close> says that the blocks describe a vector; \<open>net_check\<close> runs the network on
  the blocks and tests that every final vector is sorted.
\<close>

type_synonym block = "nat list \<times> bool list list"

definition holds :: "block list \<Rightarrow> bool list \<Rightarrow> bool" where
  "holds bs v \<longleftrightarrow> (\<forall>(ws, vs) \<in> set bs. map ((!) v) ws \<in> set vs)"

fun wire_pos :: "nat list \<Rightarrow> nat \<Rightarrow> nat" where
  "wire_pos [] k = 0"
| "wire_pos (w # ws) k = (if w = k then 0 else Suc (wire_pos ws k))"

fun take_block :: "nat \<Rightarrow> block list \<Rightarrow> (block \<times> block list) option" where
  "take_block k [] = None"
| "take_block k (b # bs) =
     (if k \<in> set (fst b) then Some (b, bs)
      else case take_block k bs of None \<Rightarrow> None | Some (c, cs) \<Rightarrow> Some (c, b # cs))"

definition dedup :: "bool list list \<Rightarrow> bool list list" where
  "dedup vs = (if length vs \<le> 120 then remdups vs else vs)"

definition block_swap :: "nat \<Rightarrow> nat \<Rightarrow> block \<Rightarrow> block" where
  "block_swap i j b = (fst b, dedup (map (sort_cmp_swap bit_lt (wire_pos (fst b) i) (wire_pos (fst b) j)) (snd b)))"

definition block_join :: "block \<Rightarrow> block \<Rightarrow> block" where
  "block_join b c = (fst b @ fst c, concat (map (\<lambda>u. map (\<lambda>w. u @ w) (snd c)) (snd b)))"

definition untouched :: "nat \<Rightarrow> nat \<Rightarrow> block list \<Rightarrow> bool" where
  "untouched i j bs \<longleftrightarrow> list_all (\<lambda>b. i \<notin> set (fst b) \<and> j \<notin> set (fst b)) bs"

fun net_check :: "nat \<Rightarrow> (nat \<times> nat) list \<Rightarrow> block list \<Rightarrow> bool" where
  "net_check n [] bs =
     (case bs of [(ws, vs)] \<Rightarrow>
        list_all (\<lambda>k. k \<in> set ws) [0..<n] \<and>
        list_all (\<lambda>u. sorted (map (\<lambda>k. u ! wire_pos ws k) [0..<n])) vs
      | _ \<Rightarrow> False)"
| "net_check n ((i, j) # net) bs =
     (i < n \<and> j < n \<and> i \<noteq> j \<and>
      (case take_block i bs of None \<Rightarrow> False
       | Some (b, rest) \<Rightarrow>
           (if j \<in> set (fst b)
            then distinct (fst b) \<and> untouched i j rest \<and> net_check n net (block_swap i j b # rest)
            else case take_block j rest of None \<Rightarrow> False
                 | Some (c, rest') \<Rightarrow>
                     distinct (fst b @ fst c) \<and> untouched i j rest' \<and>
                     net_check n net (block_swap i j (block_join b c) # rest'))))"

definition single_blocks :: "nat \<Rightarrow> block list" where
  "single_blocks n = map (\<lambda>k. ([k], [[False], [True]])) [0..<n]"

lemma set_dedup [simp]: "set (dedup vs) = set vs"
  by (simp add: dedup_def)

lemma wire_pos_less: "k \<in> set ws \<Longrightarrow> wire_pos ws k < length ws"
  by (induction ws) auto

lemma wire_pos_nth: "k \<in> set ws \<Longrightarrow> ws ! wire_pos ws k = k"
  by (induction ws) auto

lemma take_block_set:
  "take_block k bs = Some (b, rest) \<Longrightarrow> set bs = insert b (set rest) \<and> k \<in> set (fst b)"
  by (induction bs arbitrary: rest) (auto split: if_splits option.splits)

lemma holds_Cons: "holds (b # bs) v \<longleftrightarrow> map ((!) v) (fst b) \<in> set (snd b) \<and> holds bs v"
  by (cases b) (simp add: holds_def)

lemma holds_take_block:
  "take_block k bs = Some (b, rest) \<Longrightarrow> holds bs v \<longleftrightarrow> holds (b # rest) v"
  using take_block_set [of k bs b rest] by (auto simp: holds_def)

lemma holds_block_join: "holds (b # c # bs) v \<Longrightarrow> holds (block_join b c # bs) v"
  by (force simp: holds_Cons block_join_def)

lemma swap_nth_eq_pos:
  assumes "distinct ws" "k \<in> set ws" "w \<in> set ws"
  shows "(wire_pos ws k = wire_pos ws w) = (k = w)"
  using assms by (metis wire_pos_nth)

lemma map_nth_update:
  assumes "distinct ws" "i \<in> set ws" "\<forall>w \<in> set ws. w < length v"
  shows "map ((!) (v[i := x])) ws = (map ((!) v) ws)[wire_pos ws i := x]"
proof (rule nth_equalityI)
  fix m assume m: "m < length (map ((!) (v[i := x])) ws)"
  then have "(ws ! m = i) = (m = wire_pos ws i)"
    using assms(1,2) wire_pos_nth [OF assms(2)] wire_pos_less [OF assms(2)]
    by (metis length_map nth_eq_iff_index_eq)
  with m assms(3) wire_pos_less [OF assms(2)]
  show "map ((!) (v[i := x])) ws ! m = (map ((!) v) ws)[wire_pos ws i := x] ! m"
    by (auto simp: nth_list_update)
qed simp

lemma map_nth_swap:
  assumes "distinct ws" "i \<in> set ws" "j \<in> set ws" "i \<noteq> j" "\<forall>w \<in> set ws. w < length v"
  shows "map ((!) (sort_cmp_swap bit_lt i j v)) ws =
         sort_cmp_swap bit_lt (wire_pos ws i) (wire_pos ws j) (map ((!) v) ws)"
proof -
  have "wire_pos ws i \<noteq> wire_pos ws j"
    using assms(1-4) by (simp add: swap_nth_eq_pos)
  then show ?thesis
    using assms wire_pos_less [of i ws] wire_pos_less [of j ws]
    by (simp add: sort_cmp_swap_eq map_nth_update wire_pos_nth)
qed

lemma map_nth_untouched:
  assumes "i \<notin> set ws" "j \<notin> set ws"
  shows "map ((!) (sort_cmp_swap cmp i j v)) ws = map ((!) v) ws"
proof (rule map_cong [OF refl])
  fix k assume "k \<in> set ws"
  with assms have "k \<noteq> i" "k \<noteq> j" by auto
  then show "sort_cmp_swap cmp i j v ! k = v ! k"
    by (simp add: sort_cmp_swap_def Let_def)
qed

lemma holds_untouched:
  "untouched i j bs \<Longrightarrow> holds bs (sort_cmp_swap bit_lt i j v) = holds bs v"
  by (induction bs) (auto simp: untouched_def holds_def map_nth_untouched)

lemma holds_block_swap:
  assumes "holds (b # rest) v" "distinct (fst b)" "untouched i j rest" "i \<noteq> j"
    and "i \<in> set (fst b)" "j \<in> set (fst b)" "\<forall>w \<in> set (fst b). w < length v"
  shows "holds (block_swap i j b # rest) (sort_cmp_swap bit_lt i j v)"
  using assms by (auto simp: holds_Cons holds_untouched block_swap_def map_nth_swap)

definition wires_below :: "nat \<Rightarrow> block list \<Rightarrow> bool" where
  "wires_below n bs \<longleftrightarrow> (\<forall>b \<in> set bs. \<forall>w \<in> set (fst b). w < n)"

lemma net_check_sound:
  "net_check n net bs \<Longrightarrow> wires_below n bs \<Longrightarrow> holds bs v \<Longrightarrow> length v = n \<Longrightarrow>
     on_wires n net \<and> sorted (run_network bit_lt 0 net v)"
proof (induction n net bs arbitrary: v rule: net_check.induct)
  case (1 n bs)
  then obtain ws vs where bs: "bs = [(ws, vs)]"
    by (cases bs; cases "tl bs"; auto)
  have v: "map (\<lambda>k. map ((!) v) ws ! wire_pos ws k) [0..<n] = v"
    using 1 bs by (intro nth_equalityI) (auto simp: list_all_iff wire_pos_less wire_pos_nth)
  have "map ((!) v) ws \<in> set vs" using 1 bs by (simp add: holds_def)
  moreover have "\<forall>u \<in> set vs. sorted (map (\<lambda>k. u ! wire_pos ws k) [0..<n])"
    using 1 bs by (simp add: list_all_iff)
  ultimately have "sorted v" using v by metis
  then show ?case by (simp only: on_wires_def run_network.simps list.pred_inject simp_thms)
next
  case (2 n i j net bs)
  then obtain b rest where b: "take_block i bs = Some (b, rest)"
    by (auto split: option.splits)
  note sb = take_block_set [OF b]
  have hb: "holds (b # rest) v" using "2.prems" holds_take_block [OF b] by blast
  have wb: "\<forall>w \<in> set (fst b). w < n" "wires_below n rest"
    using "2.prems"(2) sb by (auto simp: wires_below_def)
  show ?case
  proof (cases "j \<in> set (fst b)")
    case True
    then have "holds (block_swap i j b # rest) (sort_cmp_swap bit_lt i j v)"
      using "2.prems" b hb sb wb by (intro holds_block_swap) auto
    moreover have "wires_below n (block_swap i j b # rest)"
      using wb by (simp add: wires_below_def block_swap_def)
    ultimately show ?thesis
      using "2.IH"(1) [OF b] "2.prems" True b by auto
  next
    case False
    then obtain c rest' where c: "take_block j rest = Some (c, rest')"
      using "2.prems" b by (auto split: option.splits)
    note sc = take_block_set [OF c]
    have hc: "holds (b # c # rest') v"
      using hb holds_take_block [OF c] by (simp add: holds_Cons)
    have wc: "\<forall>w \<in> set (fst b @ fst c). w < n" "wires_below n rest'"
      using wb sc by (auto simp: wires_below_def)
    have "holds (block_swap i j (block_join b c) # rest') (sort_cmp_swap bit_lt i j v)"
      using "2.prems" b c False holds_block_join [OF hc] sb sc wc
      by (intro holds_block_swap) (auto simp: block_join_def)
    moreover have "wires_below n (block_swap i j (block_join b c) # rest')"
      using wc by (simp add: wires_below_def block_swap_def block_join_def)
    ultimately show ?thesis
      using "2.IH"(2) [OF b _ _ c] "2.prems" False b c by auto
  qed
qed

lemma net_check_sorts_bits:
  assumes "net_check n net (single_blocks n)"
  shows "sorts_bits n net"
proof -
  have wb: "wires_below n (single_blocks n)"
    by (auto simp: wires_below_def single_blocks_def)
  have "on_wires n net \<and> sorted (run_network bit_lt 0 net v)" if "length v = n" for v
    by (rule net_check_sound [OF assms wb _ that]) (auto simp: holds_def single_blocks_def)
  then show ?thesis
    unfolding sorts_bits_def using Ex_list_of_length [of n] by blast
qed

lemma sort_network_3_sorts_bits: "sorts_bits 3 sort_network_3"
  by (rule net_check_sorts_bits) code_simp

lemma sort_network_4_sorts_bits: "sorts_bits 4 sort_network_4"
  by (rule net_check_sorts_bits) code_simp

lemma sort_network_5_sorts_bits: "sorts_bits 5 sort_network_5"
  by (rule net_check_sorts_bits) code_simp

lemma sort_network_6_sorts_bits: "sorts_bits 6 sort_network_6"
  by (rule net_check_sorts_bits) code_simp

lemma sort_network_7_sorts_bits: "sorts_bits 7 sort_network_7"
  by (rule net_check_sorts_bits) code_simp

lemma sort_network_8_sorts_bits: "sorts_bits 8 sort_network_8"
  by (rule net_check_sorts_bits) code_simp

lemma sort_network_9_sorts_bits: "sorts_bits 9 sort_network_9"
  by (rule net_check_sorts_bits) code_simp

lemma sort_network_10_sorts_bits: "sorts_bits 10 sort_network_10"
  by (rule net_check_sorts_bits) code_simp

lemma sort_network_11_sorts_bits: "sorts_bits 11 sort_network_11"
  by (rule net_check_sorts_bits) code_simp

lemma sort_network_12_sorts_bits: "sorts_bits 12 sort_network_12"
  by (rule net_check_sorts_bits) code_simp

lemma sort_network_13_sorts_bits: "sorts_bits 13 sort_network_13"
  by (rule net_check_sorts_bits) code_simp

lemma sort_network_14_sorts_bits: "sorts_bits 14 sort_network_14"
  by (rule net_check_sorts_bits) code_simp

lemma sort_network_15_sorts_bits: "sorts_bits 15 sort_network_15"
  by (rule net_check_sorts_bits) code_simp

lemma sort_network_16_sorts_bits: "sorts_bits 16 sort_network_16"
  by (rule net_check_sorts_bits) code_simp

subsection \<open>Every network sorts\<close>

context strict_weak_cmp
begin

lemma run_network_sorts:
  assumes "sorts_bits n net" "lo + n \<le> length xs"
  shows "\<exists>ys. run_network cmp lo net xs = take lo xs @ ys @ drop (lo + n) xs \<and>
              mset ys = mset (seg lo n xs) \<and> sorted_by cmp ys"
proof (intro exI conjI)
  let ?ys = "run_network cmp 0 net (seg lo n xs)"
  have len: "length (take lo xs) = lo" using assms(2) by simp
  have net: "on_wires n net" using assms(1) by (simp add: sorts_bits_def)
  show "run_network cmp lo net xs = take lo xs @ ?ys @ drop (lo + n) xs"
    using run_network_append [OF net, of "seg lo n xs" cmp "take lo xs" "drop (lo + n) xs"]
      split_seg [OF assms(2)] len assms(2) by simp
  show "mset ?ys = mset (seg lo n xs)"
    using net assms(2) by (intro mset_run_network) simp
  show "sorted_by cmp ?ys"
    using assms by (intro zero_one_principle) simp
qed

lemma sort_inner_correct:
  assumes "len \<le> 16" "lo + len \<le> length xs"
  shows "\<exists>ys. sort_inner cmp lo len xs = Some (take lo xs @ ys @ drop (lo + len) xs) \<and>
              mset ys = mset (seg lo len xs) \<and> sorted_by cmp ys"
proof -
  have two: "sorts_bits 2 [(0, 1)]"
    by (rule net_check_sorts_bits) code_simp
  have net2: "sort_cmp_swap cmp lo (lo + 1) xs = run_network cmp lo [(0, 1)] xs" by simp
  have small: "\<exists>ys. Some xs = Some (take lo xs @ ys @ drop (lo + len) xs) \<and>
              mset ys = mset (seg lo len xs) \<and> sorted_by cmp ys" if "len \<le> 1"
    using split_seg [OF assms(2)] that assms(2)
    by (intro exI [of _ "seg lo len xs"]) (auto intro!: sorted_by_short)
  note nets = two sort_network_3_sorts_bits sort_network_4_sorts_bits sort_network_5_sorts_bits
    sort_network_6_sorts_bits sort_network_7_sorts_bits sort_network_8_sorts_bits
    sort_network_9_sorts_bits sort_network_10_sorts_bits sort_network_11_sorts_bits
    sort_network_12_sorts_bits sort_network_13_sorts_bits sort_network_14_sorts_bits
    sort_network_15_sorts_bits sort_network_16_sorts_bits
  from assms(1) consider "len \<le> 1" | "len \<in> {2..16}" by force
  then show ?thesis
  proof cases
    case 1
    then show ?thesis using small [OF 1] by (auto simp: sort_inner_def)
  next
    case 2
    then obtain net where "sorts_bits len net"
      "sort_inner cmp lo len xs = Some (run_network cmp lo net xs)"
      using nets unfolding sort_inner_def net2 by (auto simp: atLeastAtMost_iff le_Suc_eq numeral_eq_Suc)
    then show ?thesis using run_network_sorts [OF _ assms(2)] by auto
  qed
qed

end

end
