(* ===== verification/Quicksort.thy ===== *)
theory Quicksort
  imports Sort_Network
begin

text \<open>
  \<open>SORT_IMPL\<close> of \<open>mdbx.c\<close>: the quicksort with an explicit stack of 32 pending
  segments that sorts page-number lists, transaction-id lists and dirty-page lists.
  Every instance in the code passes \<open>false\<close> for
  \<open>EXPECT_LOW_CARDINALITY_OR_PRESORTED\<close>, so that branch is not present. An
  inclusive pointer \<open>hi\<close> of the code is the exclusive index \<open>hi + 1\<close> here. A read
  outside the array, or a push on a full stack, is \<open>None\<close>; the theorems show that
  neither happens, that the loop ends and that the segment is sorted.
\<close>

subsection \<open>The two scans and the partition loop\<close>

function qs_scan_left :: "('a \<Rightarrow> 'a \<Rightarrow> bool) \<Rightarrow> 'a list \<Rightarrow> nat \<Rightarrow> nat \<Rightarrow> nat option" where
  "qs_scan_left cmp xs mid left =
     (case rd xs left of None \<Rightarrow> None
      | Some l \<Rightarrow> (case rd xs mid of None \<Rightarrow> None
          | Some m \<Rightarrow> if cmp l m then qs_scan_left cmp xs mid (Suc left) else Some left))"
  by pat_completeness auto
termination
  by (relation "measure (\<lambda>(cmp, xs, mid, left). length xs - left)") (auto simp: rd_Some_iff)

fun qs_scan_right :: "('a \<Rightarrow> 'a \<Rightarrow> bool) \<Rightarrow> 'a list \<Rightarrow> nat \<Rightarrow> nat \<Rightarrow> nat option" where
  "qs_scan_right cmp xs mid right =
     (case rd xs right of None \<Rightarrow> None
      | Some r \<Rightarrow> (case rd xs mid of None \<Rightarrow> None
          | Some m \<Rightarrow> if cmp m r
                      then (case right of 0 \<Rightarrow> None | Suc r' \<Rightarrow> qs_scan_right cmp xs mid r')
                      else Some right))"

declare qs_scan_left.simps [simp del] qs_scan_right.simps [simp del]

lemma qs_scan_right_le: "qs_scan_right cmp xs mid right = Some r \<Longrightarrow> r \<le> right"
  by (induction cmp xs mid right rule: qs_scan_right.induct)
    (force simp: qs_scan_right.simps [of _ _ _ right] split: option.splits if_splits nat.splits
      elim: qs_scan_right.elims)

text \<open>
  The inner \<open>while (1)\<close>: \<open>left\<close> and \<open>right\<close> move towards each other, an element that
  the pivot pointer \<open>mid\<close> designates is followed when it is swapped.
\<close>

function qs_partition ::
  "('a \<Rightarrow> 'a \<Rightarrow> bool) \<Rightarrow> 'a list \<Rightarrow> nat \<Rightarrow> nat \<Rightarrow> nat \<Rightarrow> ('a list \<times> nat \<times> nat) option" where
  "qs_partition cmp xs mid left right =
     (case qs_scan_left cmp xs mid left of None \<Rightarrow> None
      | Some l \<Rightarrow> (case qs_scan_right cmp xs mid right of None \<Rightarrow> None
          | Some r \<Rightarrow>
              if r < l then Some (xs, l, r)
              else if r = 0 then None
              else qs_partition cmp (xs[l := xs ! r, r := xs ! l])
                     (if mid = l then r else if mid = r then l else mid) (Suc l) (r - 1)))"
  by pat_completeness auto
termination
  by (relation "measure (\<lambda>(cmp, xs, mid, left, right). right)") (auto dest: qs_scan_right_le)

declare qs_partition.simps [simp del]

subsection \<open>The main loop\<close>

partial_function (option) qs_loop ::
  "('a \<Rightarrow> 'a \<Rightarrow> bool) \<Rightarrow> 'a list \<Rightarrow> nat \<Rightarrow> nat \<Rightarrow> (nat \<times> nat) list \<Rightarrow> 'a list option" where
  "qs_loop cmp xs lo e stack =
     (if e - lo \<le> 16
      then (case sort_inner cmp lo (e - lo) xs of None \<Rightarrow> None
            | Some ys \<Rightarrow> (case stack of [] \<Rightarrow> Some ys
                | tp # rest \<Rightarrow> qs_loop cmp ys (fst tp) (snd tp) rest))
      else let hi = e - 1;
               mid = lo + (hi - lo) div 2;
               xs1 = sort_cmp_swap cmp lo mid xs;
               xs2 = sort_cmp_swap cmp mid hi xs1;
               xs3 = sort_cmp_swap cmp lo mid xs2
           in (case qs_partition cmp xs3 mid (lo + 1) (hi - 1) of None \<Rightarrow> None
               | Some plr \<Rightarrow>
                   if 32 \<le> length stack then None
                   else if int (snd (snd plr)) - int lo > int hi - int (fst (snd plr))
                   then qs_loop cmp (fst plr) (fst (snd plr)) e ((lo, Suc (snd (snd plr))) # stack)
                   else qs_loop cmp (fst plr) lo (Suc (snd (snd plr))) ((fst (snd plr), e) # stack)))"

definition qs_sort :: "('a \<Rightarrow> 'a \<Rightarrow> bool) \<Rightarrow> nat \<Rightarrow> nat \<Rightarrow> 'a list \<Rightarrow> 'a list option" where
  "qs_sort cmp base e xs = qs_loop cmp xs base e []"

subsection \<open>Rearranging one segment\<close>

definition perm_seg :: "nat \<Rightarrow> nat \<Rightarrow> 'a list \<Rightarrow> 'a list \<Rightarrow> bool" where
  "perm_seg lo e xs ys \<longleftrightarrow>
     mset ys = mset xs \<and> (\<forall>i. i < lo \<or> e \<le> i \<longrightarrow> i < length xs \<longrightarrow> ys ! i = xs ! i)"

lemma perm_seg_refl [simp]: "perm_seg lo e xs xs"
  by (simp add: perm_seg_def)

lemma perm_seg_length: "perm_seg lo e xs ys \<Longrightarrow> length ys = length xs"
  unfolding perm_seg_def by (metis size_mset)

lemma perm_seg_trans:
  "perm_seg lo e xs ys \<Longrightarrow> perm_seg lo e ys zs \<Longrightarrow> perm_seg lo e xs zs"
  using perm_seg_length [of lo e xs ys] by (simp add: perm_seg_def)

lemma perm_seg_mono: "perm_seg lo e xs ys \<Longrightarrow> lo' \<le> lo \<Longrightarrow> e \<le> e' \<Longrightarrow> perm_seg lo' e' xs ys"
  by (auto simp: perm_seg_def)

lemma perm_seg_swap:
  "i < length xs \<Longrightarrow> j < length xs \<Longrightarrow> lo \<le> i \<Longrightarrow> i < e \<Longrightarrow> lo \<le> j \<Longrightarrow> j < e \<Longrightarrow>
     perm_seg lo e xs (xs[i := xs ! j, j := xs ! i])"
  by (auto simp: perm_seg_def mset_swap_cells nth_list_update)

lemma perm_seg_outside:
  assumes "perm_seg lo e xs ys" "lo \<le> e" "e \<le> length xs"
  shows "take lo ys = take lo xs" "drop e ys = drop e xs"
  using assms perm_seg_length [OF assms(1)]
  by (auto simp: perm_seg_def intro!: nth_equalityI)

lemma perm_seg_mset:
  assumes "perm_seg lo e xs ys" "lo \<le> e" "e \<le> length xs"
  shows "mset (seg lo (e - lo) ys) = mset (seg lo (e - lo) xs)"
proof -
  note out = perm_seg_outside [OF assms] and len = perm_seg_length [OF assms(1)]
  have "mset xs = mset (take lo xs) + mset (seg lo (e - lo) xs) + mset (drop e xs)"
    using split_seg [of lo "e - lo" xs] assms(2,3) by (metis le_add_diff_inverse mset_append union_assoc)
  moreover have "mset ys = mset (take lo ys) + mset (seg lo (e - lo) ys) + mset (drop e ys)"
    using split_seg [of lo "e - lo" ys] assms(2,3) len by (metis le_add_diff_inverse mset_append union_assoc)
  ultimately show ?thesis
    using assms(1) out by (simp add: perm_seg_def)
qed

lemma perm_seg_source:
  assumes "perm_seg lo e xs ys" "e \<le> length xs" "lo \<le> i" "i < e"
  shows "\<exists>i'. lo \<le> i' \<and> i' < e \<and> ys ! i = xs ! i'"
proof -
  have len: "length ys = length xs" and le: "lo \<le> e"
    using perm_seg_length [OF assms(1)] assms(3,4) by auto
  have "ys ! i = seg lo (e - lo) ys ! (i - lo)" using assms le len by simp
  then have "ys ! i \<in> set (seg lo (e - lo) ys)"
    using assms le len by (metis diff_less_mono le_add_diff_inverse length_seg nth_mem)
  then have "ys ! i \<in> set (seg lo (e - lo) xs)"
    using perm_seg_mset [OF assms(1) le assms(2)] by (metis set_mset_mset)
  then obtain k where "k < e - lo" "seg lo (e - lo) xs ! k = ys ! i"
    using le assms(2) by (auto simp: in_set_conv_nth)
  then show ?thesis using le assms(2) by (intro exI [of _ "lo + k"]) auto
qed

lemma perm_segI:
  assumes "mset zs = mset (seg lo (e - lo) xs)" "lo \<le> e" "e \<le> length xs"
  shows "perm_seg lo e xs (take lo xs @ zs @ drop e xs)"
proof -
  have len: "length zs = e - lo" using assms by (metis size_mset length_seg le_add_diff_inverse)
  have "mset (take lo xs @ zs @ drop e xs) = mset xs"
    using split_seg [of lo "e - lo" xs] assms by (metis le_add_diff_inverse mset_append)
  then show ?thesis using len assms(2,3)
    by (auto simp: perm_seg_def nth_append min_def)
qed

subsection \<open>The scans stop at a sentinel, the partition splits\<close>

lemma qs_scan_left_stops:
  assumes "mid < length xs" "left \<le> k" "k < length xs" "\<not> cmp (xs ! k) (xs ! mid)"
  shows "\<exists>l. qs_scan_left cmp xs mid left = Some l \<and> left \<le> l \<and> l \<le> k \<and>
             \<not> cmp (xs ! l) (xs ! mid) \<and> (\<forall>i. left \<le> i \<longrightarrow> i < l \<longrightarrow> cmp (xs ! i) (xs ! mid))"
  using assms
proof (induction "k - left" arbitrary: left)
  case 0
  then have "k = left" by simp
  with 0 show ?case by (simp add: qs_scan_left.simps [of _ _ _ left] cell_simps)
next
  case (Suc n)
  show ?case
  proof (cases "cmp (xs ! left) (xs ! mid)")
    case True
    with Suc.prems have "Suc left \<le> k" by (metis Suc_leI le_neq_implies_less)
    with Suc obtain l where l: "qs_scan_left cmp xs mid (Suc left) = Some l"
      "Suc left \<le> l" "l \<le> k" "\<not> cmp (xs ! l) (xs ! mid)"
      "\<forall>i. Suc left \<le> i \<longrightarrow> i < l \<longrightarrow> cmp (xs ! i) (xs ! mid)"
      using Suc.hyps(1) [of "Suc left"] Suc.hyps(2) by (metis Suc_diff_Suc Suc_inject Suc_le_lessD)
    moreover have "qs_scan_left cmp xs mid left = Some l"
      using Suc.prems True l(1) by (simp add: qs_scan_left.simps [of _ _ _ left] cell_simps)
    moreover have "\<forall>i. left \<le> i \<longrightarrow> i < l \<longrightarrow> cmp (xs ! i) (xs ! mid)"
      using l(5) True by (metis Suc_leI le_neq_implies_less)
    ultimately show ?thesis by (metis Suc_leD)
  next
    case False
    with Suc.prems show ?thesis
      by (simp add: qs_scan_left.simps [of _ _ _ left] cell_simps)
  qed
qed

lemma qs_scan_right_stops:
  assumes "mid < length xs" "k \<le> right" "right < length xs" "\<not> cmp (xs ! mid) (xs ! k)"
  shows "\<exists>r. qs_scan_right cmp xs mid right = Some r \<and> k \<le> r \<and> r \<le> right \<and>
             \<not> cmp (xs ! mid) (xs ! r) \<and> (\<forall>i. r < i \<longrightarrow> i \<le> right \<longrightarrow> cmp (xs ! mid) (xs ! i))"
  using assms
proof (induction right)
  case 0
  then show ?case by (simp add: qs_scan_right.simps [of _ _ _ 0] cell_simps)
next
  case (Suc right)
  show ?case
  proof (cases "cmp (xs ! mid) (xs ! Suc right)")
    case True
    with Suc.prems have "k \<le> right" by (metis le_SucE)
    with Suc obtain r where r: "qs_scan_right cmp xs mid right = Some r" "k \<le> r" "r \<le> right"
      "\<not> cmp (xs ! mid) (xs ! r)" "\<forall>i. r < i \<longrightarrow> i \<le> right \<longrightarrow> cmp (xs ! mid) (xs ! i)"
      by auto
    moreover have "qs_scan_right cmp xs mid (Suc right) = Some r"
      using Suc.prems True r(1) by (simp add: qs_scan_right.simps [of _ _ _ "Suc right"] cell_simps)
    moreover have "\<forall>i. r < i \<longrightarrow> i \<le> Suc right \<longrightarrow> cmp (xs ! mid) (xs ! i)"
      using r(5) True by (metis le_SucE)
    ultimately show ?thesis by (metis le_SucI)
  next
    case False
    with Suc.prems show ?thesis
      by (simp add: qs_scan_right.simps [of _ _ _ "Suc right"] cell_simps)
  qed
qed

text \<open>What holds between the scans: everything left of \<open>left\<close> is not above the pivot,
  everything right of \<open>right\<close> is not below it, and the ends of the segment are sentinels.\<close>

definition part_inv ::
  "('a \<Rightarrow> 'a \<Rightarrow> bool) \<Rightarrow> nat \<Rightarrow> nat \<Rightarrow> 'a \<Rightarrow> 'a list \<Rightarrow> nat \<Rightarrow> nat \<Rightarrow> nat \<Rightarrow> bool" where
  "part_inv cmp lo hi p xs mid left right \<longleftrightarrow>
     hi < length xs \<and> lo \<le> mid \<and> mid \<le> hi \<and> xs ! mid = p \<and>
     lo < left \<and> left \<le> hi \<and> lo \<le> right \<and> right < hi \<and>
     (\<forall>i. lo \<le> i \<longrightarrow> i < left \<longrightarrow> \<not> cmp p (xs ! i)) \<and>
     (\<forall>i. right < i \<longrightarrow> i \<le> hi \<longrightarrow> \<not> cmp (xs ! i) p)"

context strict_weak_cmp
begin

lemma qs_partition_splits:
  assumes "part_inv cmp lo hi p xs mid left right"
  shows "\<exists>ys l r. qs_partition cmp xs mid left right = Some (ys, l, r) \<and>
     perm_seg lo (Suc hi) xs ys \<and> lo < l \<and> l \<le> hi \<and> lo \<le> r \<and> r < hi \<and> r < l \<and>
     (\<forall>i. lo \<le> i \<longrightarrow> i < l \<longrightarrow> \<not> cmp p (ys ! i)) \<and> (\<forall>i. r < i \<longrightarrow> i \<le> hi \<longrightarrow> \<not> cmp (ys ! i) p)"
  using assms
proof (induction right arbitrary: xs mid left rule: less_induct)
  case (less right)
  note inv = less.prems [unfolded part_inv_def]
  obtain l where l: "qs_scan_left cmp xs mid left = Some l" "left \<le> l" "l \<le> hi"
    "\<not> cmp (xs ! l) p" "\<forall>i. left \<le> i \<longrightarrow> i < l \<longrightarrow> cmp (xs ! i) p"
    using qs_scan_left_stops [of mid xs left hi cmp] inv by auto
  obtain r where r: "qs_scan_right cmp xs mid right = Some r" "lo \<le> r" "r \<le> right"
    "\<not> cmp p (xs ! r)" "\<forall>i. r < i \<longrightarrow> i \<le> right \<longrightarrow> cmp p (xs ! i)"
    using qs_scan_right_stops [of mid xs lo right cmp] inv by auto
  have below: "\<forall>i. lo \<le> i \<longrightarrow> i < l \<longrightarrow> \<not> cmp p (xs ! i)"
    using inv l(5) cmp_asym by (metis not_le)
  have above: "\<forall>i. r < i \<longrightarrow> i \<le> hi \<longrightarrow> \<not> cmp (xs ! i) p"
    using inv r(5) cmp_asym by (metis not_le)
  show ?case
  proof (cases "r < l")
    case True
    then show ?thesis
      using l r below above inv by (auto simp: qs_partition.simps [of _ xs])
  next
    case False
    let ?xs = "xs[l := xs ! r, r := xs ! l]"
    let ?mid = "if mid = l then r else if mid = r then l else mid"
    have "r \<noteq> 0" using False inv l by simp
    have len: "l < length xs" "r < length xs" using inv l r by auto
    have nth: "?xs ! l = xs ! r" "?xs ! r = xs ! l" "\<And>i. i \<noteq> l \<Longrightarrow> i \<noteq> r \<Longrightarrow> ?xs ! i = xs ! i"
      using len by (auto simp: nth_list_update)
    have inv': "part_inv cmp lo hi p ?xs ?mid (Suc l) (r - 1)"
      unfolding part_inv_def
    proof (intro conjI allI impI)
      fix i assume "lo \<le> i" "i < Suc l"
      then show "\<not> cmp p (?xs ! i)"
        using below r(4) l(4) False inv l(3)
        by (cases "i = l") (auto simp: nth(1) nth(3))
    next
      fix i assume "r - 1 < i" "i \<le> hi"
      then show "\<not> cmp (?xs ! i) p"
        using above l(4) r(4) False inv l(3) \<open>r \<noteq> 0\<close>
        by (cases "i = r") (auto simp: nth(2) nth(3))
    qed (use inv l r False in \<open>auto simp: nth_list_update\<close>)
    have perm: "perm_seg lo (Suc hi) xs ?xs"
      using inv l r by (intro perm_seg_swap) auto
    have eq: "qs_partition cmp xs mid left right = qs_partition cmp ?xs ?mid (Suc l) (r - 1)"
      using l(1) r(1) False \<open>r \<noteq> 0\<close> by (subst qs_partition.simps) simp
    have "r - 1 < right" using r(3) \<open>r \<noteq> 0\<close> by simp
    from less.IH [OF this inv'] obtain ys l' r' where
      "qs_partition cmp ?xs ?mid (Suc l) (r - 1) = Some (ys, l', r')"
      "perm_seg lo (Suc hi) ?xs ys" "lo < l' \<and> l' \<le> hi \<and> lo \<le> r' \<and> r' < hi \<and> r' < l'"
      "\<forall>i. lo \<le> i \<longrightarrow> i < l' \<longrightarrow> \<not> cmp p (ys ! i)" "\<forall>i. r' < i \<longrightarrow> i \<le> hi \<longrightarrow> \<not> cmp (ys ! i) p"
      by blast
    then show ?thesis using perm_seg_trans [OF perm] unfolding eq by blast
  qed
qed

text \<open>Median of three: after the three swaps the pivot is not above \<open>hi\<close> and not below \<open>lo\<close>.\<close>

lemma sort_cmp_swap_ordered:
  "a < length xs \<Longrightarrow> b < length xs \<Longrightarrow> a \<noteq> b \<Longrightarrow>
     \<not> cmp (sort_cmp_swap cmp a b xs ! b) (sort_cmp_swap cmp a b xs ! a)"
  using cmp_asym by (auto simp: sort_cmp_swap_eq)

lemma perm_seg_sort_cmp_swap:
  "a < length xs \<Longrightarrow> b < length xs \<Longrightarrow> a \<noteq> b \<Longrightarrow> lo \<le> a \<Longrightarrow> a < e \<Longrightarrow> lo \<le> b \<Longrightarrow> b < e \<Longrightarrow>
     perm_seg lo e xs (sort_cmp_swap cmp a b xs)"
  by (auto simp: sort_cmp_swap_eq intro: perm_seg_swap)

lemma median_of_three:
  fixes xs lo mid hi
  defines "ys \<equiv> sort_cmp_swap cmp lo mid (sort_cmp_swap cmp mid hi (sort_cmp_swap cmp lo mid xs))"
  assumes "lo < mid" "mid < hi" "hi < length xs"
  shows "perm_seg lo (Suc hi) xs ys" "\<not> cmp (ys ! mid) (ys ! lo)" "\<not> cmp (ys ! hi) (ys ! mid)"
proof -
  let ?x1 = "sort_cmp_swap cmp lo mid xs"
  let ?x2 = "sort_cmp_swap cmp mid hi ?x1"
  have "perm_seg lo (Suc hi) xs ?x1" "perm_seg lo (Suc hi) ?x1 ?x2" "perm_seg lo (Suc hi) ?x2 ys"
    using assms(2-4) unfolding ys_def by (auto intro!: perm_seg_sort_cmp_swap)
  then show "perm_seg lo (Suc hi) xs ys" using perm_seg_trans by blast
  show "\<not> cmp (ys ! mid) (ys ! lo)"
    using assms(2-4) unfolding ys_def by (intro sort_cmp_swap_ordered) auto
  have "\<not> cmp (?x1 ! mid) (?x1 ! lo)" "\<not> cmp (?x2 ! hi) (?x2 ! mid)"
    using assms(2-4) sort_cmp_swap_ordered [of lo xs mid] sort_cmp_swap_ordered [of mid ?x1 hi]
    by auto
  moreover have "?x2 ! lo = ?x1 ! lo" "?x2 ! mid = ?x1 ! mid \<and> ?x2 ! hi = ?x1 ! hi \<or>
      ?x2 ! mid = ?x1 ! hi \<and> ?x2 ! hi = ?x1 ! mid"
    using assms(2-4) by (auto simp: sort_cmp_swap_eq)
  moreover have "ys ! hi = ?x2 ! hi" "ys ! mid = ?x2 ! lo \<or> ys ! mid = ?x2 ! mid"
    using assms(2-4) unfolding ys_def by (auto simp: sort_cmp_swap_eq)
  ultimately show "\<not> cmp (ys ! hi) (ys ! mid)"
    using not_cmp_trans cmp_irrefl by metis
qed

lemma qs_split_segment:
  fixes xs lo e
  defines "hi \<equiv> e - 1" and "mid \<equiv> lo + (e - 1 - lo) div 2"
  assumes "16 < e - lo" "e \<le> length xs"
  shows "\<exists>ys l r. qs_partition cmp
       (sort_cmp_swap cmp lo mid (sort_cmp_swap cmp mid hi (sort_cmp_swap cmp lo mid xs)))
       mid (lo + 1) (hi - 1) = Some (ys, l, r) \<and>
     perm_seg lo e xs ys \<and> lo < l \<and> l < e \<and> lo \<le> r \<and> Suc r < e \<and> r < l \<and>
     (\<forall>i j. lo \<le> i \<longrightarrow> i < j \<longrightarrow> j < e \<longrightarrow> \<not> j < Suc r \<longrightarrow> \<not> l \<le> i \<longrightarrow> \<not> cmp (ys ! j) (ys ! i))"
proof -
  let ?zs = "sort_cmp_swap cmp lo mid (sort_cmp_swap cmp mid hi (sort_cmp_swap cmp lo mid xs))"
  have idx: "lo < mid" "mid < hi" "hi < length xs" "Suc hi = e"
    using assms(3,4) unfolding hi_def mid_def by linarith+
  note med = median_of_three [OF idx(1-3)]
  note len = perm_seg_length [OF med(1)]
  have "part_inv cmp lo hi (?zs ! mid) ?zs mid (lo + 1) (hi - 1)"
    unfolding part_inv_def
  proof (intro conjI allI impI)
    fix i assume "lo \<le> i" "i < lo + 1"
    then show "\<not> cmp (?zs ! mid) (?zs ! i)" using med(2) by (metis Suc_eq_plus1 le_antisym less_Suc_eq_le)
  next
    fix i assume "hi - 1 < i" "i \<le> hi"
    then have "i = hi" by simp
    then show "\<not> cmp (?zs ! i) (?zs ! mid)" using med(3) by simp
  qed (use idx len assms(3) in \<open>auto simp: hi_def\<close>)
  from qs_partition_splits [OF this] obtain ys l r where
    r: "qs_partition cmp ?zs mid (lo + 1) (hi - 1) = Some (ys, l, r)" and
    p: "perm_seg lo (Suc hi) ?zs ys" and
    b: "lo < l" "l \<le> hi" "lo \<le> r" "r < hi" "r < l" and
    lower: "\<forall>i. lo \<le> i \<longrightarrow> i < l \<longrightarrow> \<not> cmp (?zs ! mid) (ys ! i)" and
    upper: "\<forall>i. r < i \<longrightarrow> i \<le> hi \<longrightarrow> \<not> cmp (ys ! i) (?zs ! mid)"
    by blast
  have "\<forall>i j. lo \<le> i \<longrightarrow> i < j \<longrightarrow> j < e \<longrightarrow> \<not> j < Suc r \<longrightarrow> \<not> l \<le> i \<longrightarrow> \<not> cmp (ys ! j) (ys ! i)"
    using lower upper not_cmp_trans idx(4) by (metis less_Suc_eq_le not_le not_less_eq)
  moreover have "perm_seg lo e xs ys" using perm_seg_trans [OF med(1) p] idx(4) by simp
  ultimately show ?thesis using r b idx(4) by (metis Suc_leI Suc_mono less_Suc_eq_le)
qed

end

subsection \<open>Pending segments, order outside them, stack depth\<close>

definition ord_out :: "('a \<Rightarrow> 'a \<Rightarrow> bool) \<Rightarrow> nat \<Rightarrow> nat \<Rightarrow> (nat \<times> nat) set \<Rightarrow> 'a list \<Rightarrow> bool" where
  "ord_out cmp b e S xs \<longleftrightarrow>
     (\<forall>i j. b \<le> i \<longrightarrow> i < j \<longrightarrow> j < e \<longrightarrow> (\<forall>s \<in> S. \<not> (fst s \<le> i \<and> j < snd s)) \<longrightarrow> \<not> cmp (xs ! j) (xs ! i))"

fun segs_ok :: "nat \<Rightarrow> nat \<Rightarrow> (nat \<times> nat) list \<Rightarrow> bool" where
  "segs_ok b e [] = True"
| "segs_ok b e (s # ss) =
     (b \<le> fst s \<and> fst s < snd s \<and> snd s \<le> e \<and>
      (\<forall>t \<in> set ss. snd t \<le> fst s \<or> snd s \<le> fst t) \<and> segs_ok b e ss)"

fun stack_ok :: "nat \<Rightarrow> (nat \<times> nat) list \<Rightarrow> bool" where
  "stack_ok n [] = True"
| "stack_ok n (s # ss) = ((snd s - fst s) * 2 ^ length ss \<le> n \<and> stack_ok n ss)"

fun pending_work :: "(nat \<times> nat) list \<Rightarrow> nat" where
  "pending_work [] = 0"
| "pending_work (s # ss) = (2 * (snd s - fst s) - 1) + pending_work ss"

lemma ord_out_perm:
  assumes ord: "ord_out cmp b e0 (insert (lo, e) S) xs" and perm: "perm_seg lo e xs ys"
    and e: "e0 \<le> length xs" "e \<le> e0" "b \<le> lo"
    and disj: "\<forall>t \<in> S. snd t \<le> lo \<or> e \<le> fst t"
  shows "ord_out cmp b e0 (insert (lo, e) S) ys"
  unfolding ord_out_def
proof (intro allI impI)
  fix i j assume ij: "b \<le> i" "i < j" "j < e0"
    and out: "\<forall>s \<in> insert (lo, e) S. \<not> (fst s \<le> i \<and> j < snd s)"
  have keep: "ys ! k = xs ! k" if "k < lo \<or> e \<le> k" "k < e0" for k
    using perm that e unfolding perm_seg_def by auto
  have src: "\<exists>k'. lo \<le> k' \<and> k' < e \<and> ys ! k = xs ! k'" if "lo \<le> k" "k < e" for k
    using perm_seg_source [OF perm _ that] e by simp
  have pair: "\<not> cmp (xs ! j') (xs ! i')" if "b \<le> i'" "i' < j'" "j' < e0"
    "\<forall>s \<in> insert (lo, e) S. \<not> (fst s \<le> i' \<and> j' < snd s)" for i' j'
    using ord that unfolding ord_out_def by blast
  show "\<not> cmp (ys ! j) (ys ! i)"
  proof (cases "lo \<le> i \<and> i < e")
    case True
    then obtain i' where i': "lo \<le> i'" "i' < e" "ys ! i = xs ! i'" using src by blast
    from True out have "e \<le> j" by auto
    have "\<not> cmp (xs ! j) (xs ! i')"
      by (rule pair) (use ij e i' disj \<open>e \<le> j\<close> in force)+
    then show ?thesis using keep [of j] ij i' \<open>e \<le> j\<close> by simp
  next
    case i: False
    show ?thesis
    proof (cases "lo \<le> j \<and> j < e")
      case True
      then obtain j' where j': "lo \<le> j'" "j' < e" "ys ! j = xs ! j'" using src by blast
      from True i ij have "i < lo" by auto
      have "\<not> cmp (xs ! j') (xs ! i)"
        by (rule pair) (use ij e j' disj \<open>i < lo\<close> in force)+
      then show ?thesis using keep [of i] ij e j' \<open>i < lo\<close> by simp
    next
      case False
      with i ij have "ys ! i = xs ! i" "ys ! j = xs ! j" by (auto intro!: keep)
      then show ?thesis using pair [OF ij out] by simp
    qed
  qed
qed

lemma ord_out_refine:
  assumes "ord_out cmp b e0 (insert (lo, e) S) xs"
    and "\<forall>i j. lo \<le> i \<longrightarrow> i < j \<longrightarrow> j < e \<longrightarrow> (\<forall>s \<in> T. \<not> (fst s \<le> i \<and> j < snd s)) \<longrightarrow> \<not> cmp (xs ! j) (xs ! i)"
  shows "ord_out cmp b e0 (T \<union> S) xs"
  using assms unfolding ord_out_def by (simp add: ball_Un) blast

lemma pending_work_pos: "lo < e \<Longrightarrow> pending_work stack < pending_work ((lo, e) # stack)"
  by simp

subsection \<open>The loop ends within its stack and sorts\<close>

context strict_weak_cmp
begin

lemma qs_loop_sorts:
  assumes "segs_ok b e0 ((lo, e) # stack)" "stack_ok n ((lo, e) # stack)" "n < 2 ^ 32"
    and "e0 \<le> length xs" "ord_out cmp b e0 (set ((lo, e) # stack)) xs"
  shows "\<exists>ys. qs_loop cmp xs lo e stack = Some ys \<and> perm_seg b e0 xs ys \<and> ord_out cmp b e0 {} ys"
  using assms
proof (induction "pending_work ((lo, e) # stack)" arbitrary: xs lo e stack rule: less_induct)
  case less
  note ok = less.prems(1) and st = less.prems(2) and e0 = less.prems(4)
  have seg: "b \<le> lo" "lo < e" "e \<le> e0" "\<forall>t \<in> set stack. snd t \<le> lo \<or> e \<le> fst t" "segs_ok b e0 stack"
    using ok by auto
  have ord: "ord_out cmp b e0 (insert (lo, e) (set stack)) xs" using less.prems(5) by simp
  show ?case
  proof (cases "e - lo \<le> 16")
    case True
    have "lo + (e - lo) \<le> length xs" using seg e0 by simp
    from sort_inner_correct [OF True this] obtain zs where
      z: "sort_inner cmp lo (e - lo) xs = Some (take lo xs @ zs @ drop e xs)"
      "mset zs = mset (seg lo (e - lo) xs)" "sorted_by cmp zs"
      using seg by auto
    let ?ys = "take lo xs @ zs @ drop e xs"
    have perm: "perm_seg lo e xs ?ys" using z(2) seg e0 by (intro perm_segI) auto
    have lz: "length zs = e - lo" using z(2) seg e0 by (metis size_mset length_seg \<open>lo + (e - lo) \<le> length xs\<close>)
    have "\<not> cmp (?ys ! j) (?ys ! i)" if "lo \<le> i" "i < j" "j < e" for i j
    proof -
      have "\<not> cmp (zs ! (j - lo)) (zs ! (i - lo))"
        using z(3) that lz by (simp add: sorted_by_nth)
      then show ?thesis
        using that lz seg e0 diff_less_mono [of i e lo] diff_less_mono [of j e lo]
        by (simp add: nth_append min_def)
    qed
    then have ord': "ord_out cmp b e0 (set stack) ?ys"
      using ord_out_refine [OF ord_out_perm [OF ord perm e0 seg(3,1,4)], of "{}"] by auto
    show ?thesis
    proof (cases stack)
      case Nil
      then show ?thesis using True z(1) ord' perm_seg_mono [OF perm seg(1,3)]
        by (simp add: qs_loop.simps [of _ xs])
    next
      case (Cons s rest)
      have "\<exists>ys. qs_loop cmp ?ys (fst s) (snd s) rest = Some ys \<and> perm_seg b e0 ?ys ys \<and> ord_out cmp b e0 {} ys"
        using less.hyps [of "fst s" "snd s" rest ?ys] pending_work_pos [OF seg(2), of stack]
          less.prems perm_seg_length [OF perm] ord' Cons by simp
      then show ?thesis using True z(1) Cons perm_seg_trans [OF perm_seg_mono [OF perm seg(1,3)]]
        by (auto simp: qs_loop.simps [of _ xs])
    qed
  next
    case False
    then have big: "16 < e - lo" "e \<le> length xs" using seg e0 by auto
    from qs_split_segment [OF big] obtain ys l r where
      p: "qs_partition cmp (sort_cmp_swap cmp lo (lo + (e - 1 - lo) div 2)
             (sort_cmp_swap cmp (lo + (e - 1 - lo) div 2) (e - 1)
               (sort_cmp_swap cmp lo (lo + (e - 1 - lo) div 2) xs)))
           (lo + (e - 1 - lo) div 2) (lo + 1) (e - 1 - 1) = Some (ys, l, r)"
      and perm: "perm_seg lo e xs ys"
      and lr: "lo < l" "l < e" "lo \<le> r" "Suc r < e" "r < l"
      and split: "\<forall>i j. lo \<le> i \<longrightarrow> i < j \<longrightarrow> j < e \<longrightarrow> \<not> j < Suc r \<longrightarrow> \<not> l \<le> i \<longrightarrow> \<not> cmp (ys ! j) (ys ! i)"
      by blast
    have depth: "length stack < 32"
    proof (rule ccontr)
      assume "\<not> length stack < 32"
      then have "(2::nat) ^ 32 \<le> 2 ^ length stack" by (intro power_increasing) auto
      also have "\<dots> \<le> (e - lo) * 2 ^ length stack" using big by simp
      finally show False using st less.prems(3) by simp
    qed
    have half: "\<And>s. s * 2 \<le> e - lo \<Longrightarrow> s * 2 ^ Suc (length stack) \<le> n"
    proof -
      fix s assume "s * 2 \<le> e - lo"
      then have "s * 2 * 2 ^ length stack \<le> (e - lo) * 2 ^ length stack" by (rule mult_le_mono1)
      also have "\<dots> \<le> n" using st by simp
      finally show "s * 2 ^ Suc (length stack) \<le> n" by (simp add: mult.assoc)
    qed
    have whole: "\<And>s. s \<le> e - lo \<Longrightarrow> s * 2 ^ length stack \<le> n"
    proof -
      fix s assume "s \<le> e - lo"
      then have "s * 2 ^ length stack \<le> (e - lo) * 2 ^ length stack" by (rule mult_le_mono1)
      also have "\<dots> \<le> n" using st by simp
      finally show "s * 2 ^ length stack \<le> n" .
    qed
    have ordP: "ord_out cmp b e0 (insert (lo, e) (set stack)) ys"
      by (rule ord_out_perm [OF ord perm e0 seg(3,1,4)])
    have ordT: "ord_out cmp b e0 ({(lo, Suc r), (l, e)} \<union> set stack) ys"
      using split by (intro ord_out_refine [OF ordP]) auto
    have lys: "e0 \<le> length ys" using perm_seg_length [OF perm] e0 by simp
    let ?next = "if int r - int lo > int (e - 1) - int l then (l, e, (lo, Suc r)) else (lo, Suc r, (l, e))"
    have goal: "\<exists>zs. qs_loop cmp ys lo' e' (s # stack) = Some zs \<and> perm_seg b e0 ys zs \<and> ord_out cmp b e0 {} zs"
      if "(lo', e', s) = ?next" for lo' e' s
    proof -
      have "segs_ok b e0 ((lo', e') # s # stack)"
        using that lr seg by (auto split: if_splits)
      moreover have "stack_ok n ((lo', e') # s # stack)"
        using that lr st by (auto split: if_splits intro!: half whole simp del: power_Suc)
      moreover have "ord_out cmp b e0 (set ((lo', e') # s # stack)) ys"
        using that ordT by (auto split: if_splits simp: insert_commute)
      moreover have "pending_work ((lo', e') # s # stack) < pending_work ((lo, e) # stack)"
        using that lr by (auto split: if_splits)
      ultimately show ?thesis
        using less.hyps [of lo' e' "s # stack" ys] less.prems(3) lys by blast
    qed
    have "qs_loop cmp xs lo e stack = (case ?next of (lo', e', s) \<Rightarrow> qs_loop cmp ys lo' e' (s # stack))"
      using False p depth by (subst qs_loop.simps) (simp add: Let_def)
    then show ?thesis
      using goal perm_seg_trans [OF perm_seg_mono [OF perm seg(1,3)]] by (cases ?next) fastforce
  qed
qed

theorem qs_sort_correct:
  assumes "base \<le> e" "e \<le> length xs" "e - base < 2 ^ 32"
  shows "\<exists>ys. qs_sort cmp base e xs = Some (take base xs @ ys @ drop e xs) \<and>
              mset ys = mset (seg base (e - base) xs) \<and> sorted_by cmp ys"
proof (cases "base = e")
  case True
  then show ?thesis
    by (intro exI [of _ "[]"]) (simp add: qs_sort_def qs_loop.simps [of _ xs] sort_inner_def seg_def)
next
  case False
  then have "\<exists>ys. qs_loop cmp xs base e [] = Some ys \<and> perm_seg base e xs ys \<and> ord_out cmp base e {} ys"
    using assms by (intro qs_loop_sorts [where n = "e - base"]) (auto simp: ord_out_def)
  then obtain ys where ys: "qs_sort cmp base e xs = Some ys" "perm_seg base e xs ys" "ord_out cmp base e {} ys"
    by (auto simp: qs_sort_def)
  note len = perm_seg_length [OF ys(2)]
  have "ys = take base xs @ seg base (e - base) ys @ drop e xs"
    using split_seg [of base "e - base" ys] perm_seg_outside [OF ys(2)] assms len by simp
  moreover have "sorted_by cmp (seg base (e - base) ys)"
    using ys(3) assms len by (simp add: sorted_by_nth ord_out_def)
  ultimately show ?thesis using ys perm_seg_mset [OF ys(2)] assms by metis
qed

end

subsection \<open>Properties\<close>

text \<open>
  C21: for every comparison that is a strict weak order, the sort returns, its stack of 32
  pending segments is enough for any array a 32-bit length can describe, no cell outside the
  segment is touched, and the segment ends up a sorted permutation of itself.
\<close>

theorem qs_sort_sorts_segment:
  assumes "strict_weak_cmp cmp" "base \<le> e" "e \<le> length xs" "e - base < 2 ^ 32"
  shows "\<exists>ys. qs_sort cmp base e xs = Some (take base xs @ ys @ drop e xs) \<and>
              mset ys = mset (seg base (e - base) xs) \<and> sorted_by cmp ys"
  using strict_weak_cmp.qs_sort_correct [OF assms] .

theorem qs_sort_sorts_segment_witness:
  "\<exists>ys. qs_sort (\<lambda>x y. x > (y::nat)) 1 6 [0, 7, 9, 8, 7, 3, 1] = Some ([0] @ ys @ [1]) \<and>
        mset ys = {#7, 9, 8, 7, 3#} \<and> sorted_by (\<lambda>x y. x > y) ys"
proof -
  have "strict_weak_cmp (\<lambda>x y. x > (y::nat))" by unfold_locales auto
  from qs_sort_sorts_segment [OF this, of 1 6 "[0, 7, 9, 8, 7, 3, 1]"] show ?thesis
    by (simp add: seg_def)
qed

end
