(* ===== verification/Radix_Sort.thy ===== *)
theory Radix_Sort
  imports Prelude
begin

text \<open>
  \<open>RADIXSORT_IMPL\<close> of \<open>mdbx.c\<close>: the byte-wise radix sort used for large page-number
  and dirty-page lists. One round counts two key bytes at once, turns the counters
  into start positions and distributes the items into the buffer and back; rounds
  follow until the remaining key bits of all items agree. The buffer is the
  preallocated second half of the list (the code's default build); a write outside
  it, a run over an empty array or a shift by 32 is \<open>None\<close>. The result is proved to
  be the stable sort.
\<close>

subsection \<open>One round\<close>

definition radix_key :: "('a \<Rightarrow> u32) \<Rightarrow> nat \<Rightarrow> 'a \<Rightarrow> u32" where
  "radix_key key key_shift r = drop_bit key_shift (key r)"

definition low_digit :: "u32 \<Rightarrow> nat" where
  "low_digit k = unat (k AND 255)"

definition high_digit :: "u32 \<Rightarrow> nat" where
  "high_digit k = unat (drop_bit 8 k AND 255)"

text \<open>The counting loop: both histograms, and every bit in which neighbours differ.\<close>

fun radix_scan ::
  "('a \<Rightarrow> u32) \<Rightarrow> nat list \<Rightarrow> nat list \<Rightarrow> u32 \<Rightarrow> u32 \<Rightarrow> 'a list \<Rightarrow> nat list \<times> nat list \<times> u32" where
  "radix_scan k a b diff prev [] = (a, b, diff)"
| "radix_scan k a b diff prev (r # rs) =
     (let cur = k r; ia = low_digit cur; ib = high_digit cur
      in radix_scan k (a[ia := a ! ia + 1]) (b[ib := b ! ib + 1]) (diff OR (prev XOR cur)) cur rs)"

text \<open>The loop over the 256 counters: each becomes the start position of its digit.\<close>

fun prefix_sums :: "nat \<Rightarrow> nat list \<Rightarrow> nat list" where
  "prefix_sums t [] = []"
| "prefix_sums t (i # is) = t # prefix_sums (t + i) is"

text \<open>The distribution loop.\<close>

fun radix_place :: "('a \<Rightarrow> nat) \<Rightarrow> nat list \<Rightarrow> 'a list \<Rightarrow> 'a list \<Rightarrow> 'a list option" where
  "radix_place digit cnt dst [] = Some dst"
| "radix_place digit cnt dst (r # rs) =
     (let d = digit r; p = cnt ! d
      in if p < length dst then radix_place digit (cnt[d := p + 1]) (dst[p := r]) rs else None)"

function radix_loop ::
  "('a \<Rightarrow> u32) \<Rightarrow> nat \<Rightarrow> 'a list \<Rightarrow> 'a list \<Rightarrow> ('a list \<times> 'a list) option" where
  "radix_loop key key_shift xs tmp =
     (if 32 \<le> key_shift then None
      else case xs of [] \<Rightarrow> None
      | x # _ \<Rightarrow>
        (let k = radix_key key key_shift;
             scan = radix_scan k (replicate 256 0) (replicate 256 0) 0 (k x) xs;
             a = prefix_sums 0 (fst scan);
             b = prefix_sums 0 (fst (snd scan));
             key_diff_mask = snd (snd scan)
         in case radix_place (\<lambda>r. low_digit (k r)) a tmp xs of None \<Rightarrow> None
            | Some tmp' \<Rightarrow>
                if key_diff_mask < 256 then Some (take (length xs) tmp', tmp')
                else (case radix_place (\<lambda>r. high_digit (k r)) b xs (take (length xs) tmp') of None \<Rightarrow> None
                      | Some xs' \<Rightarrow>
                          if drop_bit 16 key_diff_mask \<noteq> 0
                          then radix_loop key (key_shift + 16) xs' tmp'
                          else Some (xs', tmp'))))"
  by pat_completeness auto
termination
  by (relation "measure (\<lambda>(key, key_shift, xs, tmp). 32 - key_shift)") auto

declare radix_loop.simps [simp del]

text \<open>
  The entry: \<open>tmp\<close> is the buffer, \<open>None\<close> when it had to be allocated and was not;
  then the sort gives up and returns false.
\<close>

definition radixsort ::
  "('a \<Rightarrow> u32) \<Rightarrow> 'a list \<Rightarrow> 'a list option \<Rightarrow> (bool \<times> 'a list \<times> 'a list) option" where
  "radixsort key xs buf =
     (case buf of None \<Rightarrow> Some (False, xs, [])
      | Some tmp \<Rightarrow> map_option (\<lambda>r. (True, fst r, snd r)) (radix_loop key 0 xs tmp))"

subsection \<open>Histograms and start positions\<close>

lemma low_digit_less: "low_digit k < 256"
proof -
  have "k AND 255 \<le> 255" by (rule word_and_le1)
  then have "unat (k AND 255) \<le> unat (255 :: u32)" by (simp only: word_le_nat_alt)
  then show ?thesis by (simp add: low_digit_def)
qed

lemma high_digit_less: "high_digit k < 256"
  using low_digit_less [of "drop_bit 8 k"] by (simp add: low_digit_def high_digit_def)

definition histogram :: "('a \<Rightarrow> nat) \<Rightarrow> 'a list \<Rightarrow> nat list" where
  "histogram digit xs = map (\<lambda>d. length (filter (\<lambda>x. digit x = d) xs)) [0..<256]"

lemma radix_scan_counts:
  assumes "length a = 256" "length b = 256"
  shows "fst (radix_scan k a b diff prev xs) =
           map2 (+) a (histogram (\<lambda>r. low_digit (k r)) xs) \<and>
         fst (snd (radix_scan k a b diff prev xs)) =
           map2 (+) b (histogram (\<lambda>r. high_digit (k r)) xs)"
  using assms
proof (induction xs arbitrary: a b diff prev)
  case Nil
  then show ?case by (auto simp: histogram_def intro!: nth_equalityI)
next
  case (Cons r rs)
  have "map2 (+) (a[d r := a ! d r + 1]) (histogram d rs) = map2 (+) a (histogram d (r # rs))"
    if "length a = 256" "d r < 256" for a and d :: "'a \<Rightarrow> nat"
    using that by (auto simp: histogram_def nth_list_update intro!: nth_equalityI)
  note upd = this [of _ "\<lambda>r. low_digit (k r)"] this [of _ "\<lambda>r. high_digit (k r)"]
  show ?case using Cons.prems by (simp add: Let_def Cons.IH upd [simplified] low_digit_less high_digit_less)
qed

lemma radix_scan_histograms:
  "fst (radix_scan k (replicate 256 0) (replicate 256 0) diff prev xs) = histogram (\<lambda>r. low_digit (k r)) xs"
  "fst (snd (radix_scan k (replicate 256 0) (replicate 256 0) diff prev xs)) = histogram (\<lambda>r. high_digit (k r)) xs"
proof -
  have "map2 (+) (replicate 256 0) (histogram d xs) = histogram d xs" for d :: "'a \<Rightarrow> nat"
    by (auto simp: histogram_def intro!: nth_equalityI)
  then show "fst (radix_scan k (replicate 256 0) (replicate 256 0) diff prev xs) = histogram (\<lambda>r. low_digit (k r)) xs"
    "fst (snd (radix_scan k (replicate 256 0) (replicate 256 0) diff prev xs)) = histogram (\<lambda>r. high_digit (k r)) xs"
    using radix_scan_counts [of "replicate 256 0" "replicate 256 0" k diff prev xs] by simp_all
qed

lemma length_prefix_sums [simp]: "length (prefix_sums t xs) = length xs"
  by (induction t xs rule: prefix_sums.induct) auto

lemma prefix_sums_nth: "i < length xs \<Longrightarrow> prefix_sums t xs ! i = t + sum_list (take i xs)"
  by (induction t xs arbitrary: i rule: prefix_sums.induct) (auto simp: nth_Cons split: nat.splits)

subsection \<open>Distribution is a stable bucket sort\<close>

definition buckets :: "('a \<Rightarrow> nat) \<Rightarrow> 'a list \<Rightarrow> 'a list" where
  "buckets digit xs = concat (map (\<lambda>d. filter (\<lambda>x. digit x = d) xs) [0..<256])"

lemma upt_split: "d < n \<Longrightarrow> [0..<n] = [0..<d] @ d # [Suc d..<n]"
  by (metis le_add1 less_imp_le_nat upt_add_eq_append upt_conv_Cons add_0 le_add_diff_inverse)

lemma sum_length_filter_digits:
  "\<forall>r \<in> set xs. digit r < n \<Longrightarrow>
     sum_list (map (\<lambda>d. length (filter (\<lambda>x. digit x = d) xs)) [0..<n]) = length xs"
proof (induction xs)
  case (Cons x xs)
  have "(\<Sum>d \<leftarrow> [0..<n]. length (filter (\<lambda>y. digit y = d) (x # xs))) =
      (\<Sum>d \<leftarrow> [0..<n]. (if d = digit x then 1 else 0) + length (filter (\<lambda>y. digit y = d) xs))"
    by (intro arg_cong [where f = sum_list] map_cong) auto
  also have "\<dots> = (\<Sum>d \<leftarrow> [0..<n]. if d = digit x then 1 else 0) + length xs"
    using Cons by (simp add: sum_list_addf)
  also have "(\<Sum>d \<leftarrow> [0..<n]. if d = digit x then 1 else 0) = (1::nat)"
    using Cons.prems by (simp add: interv_sum_list_conv_sum_set_nat sum.delta)
  finally show ?case by simp
qed (simp add: sum_list_0)

lemma radix_place_fills:
  assumes "\<forall>r \<in> set rs. digit r < N"
    and "dst = concat (map (\<lambda>d. F d @ U d) [0..<N]) @ R"
    and "\<forall>d < N. length (U d) = length (filter (\<lambda>x. digit x = d) rs)"
    and "length cnt = N"
    and "\<forall>d < N. cnt ! d = length (concat (map (\<lambda>d. F d @ U d) [0..<d])) + length (F d)"
  shows "radix_place digit cnt dst rs =
     Some (concat (map (\<lambda>d. F d @ filter (\<lambda>x. digit x = d) rs) [0..<N]) @ R)"
  using assms
proof (induction rs arbitrary: dst F U cnt)
  case Nil
  then have "map (\<lambda>d. F d @ U d) [0..<N] = map F [0..<N]" by auto
  with Nil show ?case by simp
next
  case (Cons r rs)
  let ?d = "digit r"
  have d: "?d < N" using Cons.prems(1) by simp
  have "length (U ?d) = Suc (length (filter (\<lambda>x. digit x = ?d) rs))"
    using Cons.prems(3) d by simp
  then obtain u us where U: "U ?d = u # us" "length us = length (filter (\<lambda>x. digit x = ?d) rs)"
    by (cases "U ?d") auto
  let ?F = "F(?d := F ?d @ [r])" and ?U = "U(?d := us)"
  let ?A = "concat (map (\<lambda>d. F d @ U d) [0..<?d])" and ?B = "concat (map (\<lambda>d. F d @ U d) [Suc ?d..<N])"
  have dst: "dst = ?A @ F ?d @ (u # us) @ ?B @ R"
    unfolding Cons.prems(2) upt_split [OF d] by (simp add: U(1))
  have pos: "cnt ! ?d = length ?A + length (F ?d)" using Cons.prems(5) d by blast
  have A: "map (\<lambda>d. ?F d @ ?U d) [0..<?d] = map (\<lambda>d. F d @ U d) [0..<?d]" by simp
  have B: "map (\<lambda>d. ?F d @ ?U d) [Suc ?d..<N] = map (\<lambda>d. F d @ U d) [Suc ?d..<N]" by simp
  have upd: "dst[cnt ! ?d := r] = concat (map (\<lambda>d. ?F d @ ?U d) [0..<N]) @ R"
    unfolding dst pos upt_split [OF d] map_append list.map concat_append concat.simps A B
    by (simp add: list_update_append)
  have cnt: "\<forall>d < N. (cnt[?d := cnt ! ?d + 1]) ! d =
      length (concat (map (\<lambda>d. ?F d @ ?U d) [0..<d])) + length (?F d)"
  proof (intro allI impI)
    fix e assume e: "e < N"
    have "length (?F c @ ?U c) = length (F c @ U c)" for c using U by auto
    then have "length (concat (map (\<lambda>d. ?F d @ ?U d) [0..<e])) = length (concat (map (\<lambda>d. F d @ U d) [0..<e]))"
      by (simp only: length_concat map_map comp_def)
    then show "(cnt[?d := cnt ! ?d + 1]) ! e =
        length (concat (map (\<lambda>d. ?F d @ ?U d) [0..<e])) + length (?F e)"
      using Cons.prems(4,5) e d by (auto simp: nth_list_update)
  qed
  have "radix_place digit (cnt[?d := cnt ! ?d + 1]) (dst[cnt ! ?d := r]) rs =
      Some (concat (map (\<lambda>d. ?F d @ filter (\<lambda>x. digit x = d) rs) [0..<N]) @ R)"
    using Cons.prems U upd cnt by (intro Cons.IH [where U = ?U]) auto
  moreover have "map (\<lambda>d. ?F d @ filter (\<lambda>x. digit x = d) rs) [0..<N] =
      map (\<lambda>d. F d @ filter (\<lambda>x. digit x = d) (r # rs)) [0..<N]"
    by auto
  moreover have "cnt ! ?d < length dst" unfolding pos dst by simp
  ultimately show ?case by (simp only: radix_place.simps Let_def if_True)
qed

lemma radix_place_gen:
  assumes "\<forall>r \<in> set xs. digit r < N" "length xs \<le> length dst"
  defines "cnt \<equiv> (\<lambda>d. length (filter (\<lambda>x. digit x = d) xs))"
  shows "radix_place digit (prefix_sums 0 (map cnt [0..<N])) dst xs =
     Some (concat (map (\<lambda>d. filter (\<lambda>x. digit x = d) xs) [0..<N]) @ drop (length xs) dst)"
proof -
  define pos where "pos = (\<lambda>d. sum_list (map cnt [0..<d]))"
  let ?U = "\<lambda>d. take (cnt d) (drop (pos d) dst)"
  have split: "concat (map ?U [0..<n]) = take (pos n) dst" for n
    by (induction n) (simp_all add: take_add pos_def)
  have total: "pos N = length xs"
    using assms(1) sum_length_filter_digits [of xs digit N] by (simp add: pos_def cnt_def)
  have bound: "pos d + cnt d \<le> length dst" if "d < N" for d
  proof -
    have "pos N = pos d + cnt d + sum_list (map cnt [Suc d..<N])"
      unfolding pos_def upt_split [OF that] by simp
    then show ?thesis using total assms(2) by simp
  qed
  have "radix_place digit (prefix_sums 0 (map cnt [0..<N])) dst xs =
      Some (concat (map (\<lambda>d. [] @ filter (\<lambda>x. digit x = d) xs) [0..<N]) @ drop (length xs) dst)"
  proof (rule radix_place_fills [where U = ?U])
    show "dst = concat (map (\<lambda>d. [] @ ?U d) [0..<N]) @ drop (length xs) dst"
      using split [of N] total by simp
    show "\<forall>d < N. length (?U d) = length (filter (\<lambda>x. digit x = d) xs)"
      using bound by (auto simp: cnt_def min_def) (metis add_le_imp_le_diff add.commute le_antisym)
    show "\<forall>d < N. prefix_sums 0 (map cnt [0..<N]) ! d =
        length (concat (map (\<lambda>d. [] @ ?U d) [0..<d])) + length ([] :: 'a list)"
    proof (intro allI impI)
      fix d assume d: "d < N"
      have "prefix_sums 0 (map cnt [0..<N]) ! d = pos d"
        using d by (simp add: prefix_sums_nth pos_def take_map)
      moreover have "length (concat (map (\<lambda>d. [] @ ?U d) [0..<d])) = pos d"
        using split [of d] bound [OF d] by simp
      ultimately show "prefix_sums 0 (map cnt [0..<N]) ! d =
        length (concat (map (\<lambda>d. [] @ ?U d) [0..<d])) + length ([] :: 'a list)" by simp
    qed
  qed (use assms(1) in auto)
  then show ?thesis by simp
qed

lemma radix_place_buckets:
  assumes "\<forall>r \<in> set xs. digit r < 256" "length xs \<le> length dst"
  shows "radix_place digit (prefix_sums 0 (histogram digit xs)) dst xs =
     Some (buckets digit xs @ drop (length xs) dst)"
  unfolding histogram_def buckets_def by (rule radix_place_gen [OF assms])

subsection \<open>Two stable passes sort by both digits\<close>

lemma filter_concat_buckets:
  "filter P (concat (map (\<lambda>d. filter (\<lambda>x. digit x = d) xs) ds)) =
   concat (map (\<lambda>d. filter (\<lambda>x. digit x = d) (filter P xs)) ds)"
  by (induction ds) (simp_all add: conj_commute)

lemma concat_single_bucket:
  "distinct ds \<Longrightarrow> d \<in> set ds \<Longrightarrow> \<forall>x \<in> set xs. digit x = d \<Longrightarrow>
     concat (map (\<lambda>e. filter (\<lambda>x. digit x = e) xs) ds) = xs"
proof (induction ds)
  case (Cons e ds)
  show ?case
  proof (cases "e = d")
    case True
    have "concat (map (\<lambda>e. filter (\<lambda>x. digit x = e) xs) ds) = []"
      using Cons.prems True by (auto simp: filter_empty_conv)
    with True Cons.prems show ?thesis by simp
  next
    case False
    then have "filter (\<lambda>x. digit x = e) xs = []" using Cons.prems(3) by (auto simp: filter_empty_conv)
    with False Cons show ?thesis by simp
  qed
qed simp

lemma sorted_concat_buckets:
  "sorted ds \<Longrightarrow> sorted (map digit (concat (map (\<lambda>d. filter (\<lambda>x. digit x = d) xs) ds)))"
proof (induction ds)
  case (Cons d ds)
  have "sorted (map digit (filter (\<lambda>x. digit x = d) xs))"
    by (induction xs) auto
  with Cons show ?case by (auto simp: sorted_append)
qed simp

lemma buckets_gen_sort_key:
  fixes digit :: "'a \<Rightarrow> nat"
  assumes "\<forall>r \<in> set xs. digit r < N"
  shows "concat (map (\<lambda>d. filter (\<lambda>x. digit x = d) xs) [0..<N]) = sort_key digit xs"
proof (rule properties_for_sort_key [symmetric])
  let ?ys = "concat (map (\<lambda>d. filter (\<lambda>x. digit x = d) xs) [0..<N])"
  have cls: "filter (\<lambda>x. digit k = digit x) ?ys = filter (\<lambda>x. digit k = digit x) xs"
    if "k \<in> set xs" for k
    unfolding filter_concat_buckets
    using that assms by (intro concat_single_bucket [where d = "digit k"]) auto
  show "filter (\<lambda>x. digit k = digit x) ?ys = filter (\<lambda>x. digit k = digit x) xs" if "k \<in> set ?ys" for k
    using that cls by auto
  show "mset ?ys = mset xs"
  proof (rule multiset_eqI)
    fix x
    have "count (mset zs) x = count (mset (filter (\<lambda>y. digit x = digit y) zs)) x" for zs
      by simp
    then show "count (mset ?ys) x = count (mset xs) x"
      using cls [of x] by (cases "x \<in> set xs") (metis, auto simp: count_mset count_list_0_iff)
  qed
  show "sorted (map digit ?ys)" by (rule sorted_concat_buckets) simp
qed

lemma buckets_sort_key:
  "\<forall>r \<in> set xs. digit r < 256 \<Longrightarrow> buckets digit xs = sort_key digit xs"
  unfolding buckets_def by (rule buckets_gen_sort_key)

lemma sorted_within_classes:
  "\<forall>c \<in> f ` set ys. sorted_wrt Q (filter (\<lambda>x. f x = c) ys) \<Longrightarrow> sorted_wrt (\<lambda>x y. f x = f y \<longrightarrow> Q x y) ys"
proof (induction ys)
  case (Cons y ys)
  have "\<forall>c \<in> f ` set ys. sorted_wrt Q (filter (\<lambda>x. f x = c) ys)"
    using Cons.prems by (fastforce split: if_splits)
  moreover have "\<forall>z \<in> set ys. f y = f z \<longrightarrow> Q y z"
    using Cons.prems by auto
  ultimately show ?case using Cons.IH by simp
qed simp

lemma sort_key_const_on:
  "\<forall>x \<in> set xs. f x = c \<Longrightarrow> sort_key f xs = xs"
  by (rule sort_key_id_if_sorted) (simp add: sorted_map sorted_wrt_iff_nth_less)

lemma sort_key_cong_on:
  assumes "\<forall>x \<in> set xs. f x = g x"
  shows "sort_key f xs = sort_key g xs"
proof (rule properties_for_sort_key)
  show "filter (\<lambda>x. f k = f x) (sort_key g xs) = filter (\<lambda>x. f k = f x) xs" if "k \<in> set (sort_key g xs)" for k
  proof -
    have "filter (\<lambda>x. f k = f x) zs = filter (\<lambda>x. g x = g k) zs" if "set zs = set xs" for zs
      using assms \<open>k \<in> set (sort_key g xs)\<close> that by (auto intro!: filter_cong)
    then show ?thesis by (simp add: sort_key_stable)
  qed
  have "map f (sort_key g xs) = map g (sort_key g xs)" using assms by simp
  then show "sorted (map f (sort_key g xs))" by (simp only: sorted_sort_key)
qed simp

lemma sort_key_two_passes:
  fixes f g :: "'a \<Rightarrow> nat"
  assumes g: "\<forall>x \<in> set xs. g x < B"
  shows "sort_key f (sort_key g xs) = sort_key (\<lambda>x. f x * B + g x) xs"
proof (rule properties_for_sort_key [symmetric])
  let ?h = "\<lambda>x. f x * B + g x" and ?ys = "sort_key f (sort_key g xs)"
  have h: "?h x = ?h y \<longleftrightarrow> f x = f y \<and> g x = g y" if "x \<in> set xs" "y \<in> set xs" for x y
    using g that by (metis div_mult_self3 mod_mult_self3 add.commute div_less mod_less less_nat_zero_code
        add.right_neutral)
  show "mset ?ys = mset xs" by (simp only: mset_sort)
  fix k assume k: "k \<in> set ?ys"
  let ?zs = "filter (\<lambda>x. ?h k = ?h x) xs"
  have "\<forall>x \<in> set ?zs. f x = f k \<and> g x = g k" using h k by auto
  then have "sort_key f (sort_key g ?zs) = ?zs" by (simp add: sort_key_const_on [where c = "f k"] sort_key_const_on [where c = "g k"])
  then show "filter (\<lambda>x. ?h k = ?h x) ?ys = ?zs" by (simp only: filter_sort)
next
  let ?ys = "sort_key f (sort_key g xs)"
  have "sorted_wrt (\<lambda>x y. g x \<le> g y) (filter (\<lambda>x. f x = c) ?ys)" for c
    unfolding sort_key_stable by (metis sorted_filter sorted_map sorted_sort_key)
  then have "sorted_wrt (\<lambda>x y. f x = f y \<longrightarrow> g x \<le> g y) ?ys"
    by (intro sorted_within_classes) blast
  moreover have "sorted_wrt (\<lambda>x y. f x \<le> f y) ?ys"
    by (metis sorted_map sorted_sort_key)
  ultimately have "sorted_wrt (\<lambda>x y. (f x = f y \<longrightarrow> g x \<le> g y) \<and> f x \<le> f y) ?ys"
    by (simp add: sorted_wrt_iff_nth_less)
  then have "sorted_wrt (\<lambda>x y. f x * B + g x \<le> f y * B + g y) ?ys"
  proof (rule sorted_wrt_mono_rel [rotated])
    fix x y assume "x \<in> set ?ys" and le: "(f x = f y \<longrightarrow> g x \<le> g y) \<and> f x \<le> f y"
    then have "g x < B" using g by simp
    show "f x * B + g x \<le> f y * B + g y"
    proof (cases "f x = f y")
      case False
      then have "Suc (f x) * B \<le> f y * B" using le by (intro mult_le_mono1) simp
      with \<open>g x < B\<close> show ?thesis by simp
    qed (use le in simp)
  qed
  then show "sorted (map (\<lambda>x. f x * B + g x) ?ys)" by (simp add: sorted_map)
qed

subsection \<open>The round as a sort, the mask as a test that the rest agrees\<close>

lemma low_digit_mod: "low_digit k = unat k mod 256"
proof -
  have "k AND 255 = take_bit 8 k" by (simp add: take_bit_eq_mask mask_eq_exp_minus_1)
  then have "low_digit k = take_bit 8 (unat k)"
    by (simp only: low_digit_def unsigned_take_bit_eq)
  then show ?thesis by (simp add: take_bit_eq_mod)
qed

lemma unat_drop_bit: "unat (drop_bit m (w :: u32)) = unat w div 2 ^ m"
  unfolding unat_drop_bit_eq by (simp only: drop_bit_eq_div)

lemma high_digit_div_mod: "high_digit k = unat k div 256 mod 256"
proof -
  have "high_digit k = low_digit (drop_bit 8 k)" by (simp only: low_digit_def high_digit_def)
  then show ?thesis by (simp only: low_digit_mod unat_drop_bit) simp
qed

lemma drop_bit_or_xor_zero:
  fixes d p c :: u32
  assumes "drop_bit m (d OR (p XOR c)) = 0"
  shows "drop_bit m d = 0" "drop_bit m p = drop_bit m c"
  using assms by (auto simp: bit_eq_iff bit_simps)

lemma radix_scan_agree:
  assumes "drop_bit m (snd (snd (radix_scan k a b diff prev xs))) = 0"
  shows "drop_bit m diff = 0 \<and> (\<forall>x \<in> set xs. drop_bit m (k x) = drop_bit m prev)"
  using assms
proof (induction xs arbitrary: a b diff prev)
  case (Cons r rs)
  from Cons.IH [OF Cons.prems [unfolded radix_scan.simps Let_def]]
  have *: "drop_bit m (diff OR (prev XOR k r)) = 0"
    "\<forall>x \<in> set rs. drop_bit m (k x) = drop_bit m (k r)"
    by blast+
  show ?case using drop_bit_or_xor_zero [OF *(1)] *(2) by simp
qed simp

lemma radix_scan_zero:
  "drop_bit m diff = 0 \<Longrightarrow> drop_bit m prev = 0 \<Longrightarrow> \<forall>x \<in> set xs. drop_bit m (k x) = 0 \<Longrightarrow>
     drop_bit m (snd (snd (radix_scan k a b diff prev xs))) = 0"
proof (induction xs arbitrary: a b diff prev)
  case (Cons r rs)
  have "drop_bit m (diff OR (prev XOR k r)) = 0"
    using Cons.prems by (auto simp: bit_eq_iff bit_simps)
  with Cons show ?case by (simp add: Let_def)
qed simp

text \<open>When the bits above \<open>m\<close> agree, ordering by the low \<open>m\<close> bits is ordering by the whole key.\<close>

lemma sort_key_agree:
  assumes "\<forall>x \<in> set xs. drop_bit m (k x :: u32) = c"
  shows "sort_key (\<lambda>x. unat (k x) mod 2 ^ m) xs = sort_key (\<lambda>x. unat (k x)) xs"
proof -
  have "unat (k x) = unat c * 2 ^ m + unat (k x) mod 2 ^ m" if "x \<in> set xs" for x
  proof -
    have "unat (k x) div 2 ^ m = unat c" using assms that unat_drop_bit by metis
    then show ?thesis by (metis div_mult_mod_eq)
  qed
  then have "sort_key (\<lambda>x. unat (k x)) xs = sort_key (\<lambda>x. unat c * 2 ^ m + unat (k x) mod 2 ^ m) xs"
    by (intro sort_key_cong_on) auto
  also have "\<dots> = sort_key (\<lambda>x. unat c) (sort_key (\<lambda>x. unat (k x) mod 2 ^ m) xs)"
    by (rule sort_key_two_passes [symmetric]) simp
  also have "\<dots> = sort_key (\<lambda>x. unat (k x) mod 2 ^ m) xs" by (rule sort_key_const)
  finally show ?thesis by simp
qed

lemma sort_two_digits:
  "sort_key (\<lambda>r. high_digit (k r)) (sort_key (\<lambda>r. low_digit (k r)) xs) =
   sort_key (\<lambda>x. unat (k x) mod 2 ^ 16) xs"
proof -
  have "n div 256 mod 256 * 256 + n mod 256 = n mod 2 ^ 16" for n :: nat
    using mod_mult2_eq [of n 256 256] by simp
  then show ?thesis
    by (subst sort_key_two_passes [where B = 256]) (simp_all add: low_digit_mod high_digit_div_mod)
qed

text \<open>
  One round with \<open>key_shift\<close> 0 or 16: either the result is sorted by the shifted key,
  or the items are sorted by 16 bits of it and the loop goes on.
\<close>

lemma radix_round:
  fixes key :: "'a \<Rightarrow> u32"
  assumes "key_shift < 32" "xs \<noteq> []" "length xs \<le> length tmp"
  defines "k \<equiv> radix_key key key_shift"
  obtains (Done) tmp' where
      "radix_loop key key_shift xs tmp = Some (sort_key (\<lambda>x. unat (k x)) xs, tmp')" "length tmp' = length tmp"
  | (More) tmp' where
      "radix_loop key key_shift xs tmp = radix_loop key (key_shift + 16) (sort_key (\<lambda>x. unat (k x) mod 2 ^ 16) xs) tmp'"
      "length tmp' = length tmp" "\<exists>x \<in> set xs. 2 ^ 16 \<le> unat (k x)"
proof -
  obtain x ys where xs: "xs = x # ys" using assms(2) by (cases xs) auto
  define scan where "scan = radix_scan k (replicate 256 0) (replicate 256 0) 0 (k x) xs"
  define diff where "diff = snd (snd scan)"
  define lo where "lo = sort_key (\<lambda>r. low_digit (k r)) xs"
  define tmp' where "tmp' = lo @ drop (length xs) tmp"
  have a: "fst scan = histogram (\<lambda>r. low_digit (k r)) xs" "fst (snd scan) = histogram (\<lambda>r. high_digit (k r)) xs"
    unfolding scan_def by (rule radix_scan_histograms)+
  have p1: "radix_place (\<lambda>r. low_digit (k r)) (prefix_sums 0 (fst scan)) tmp xs = Some tmp'"
    unfolding a tmp'_def lo_def using assms(3)
    by (simp add: radix_place_buckets buckets_sort_key low_digit_less)
  have t: "take (length xs) tmp' = lo" by (simp add: tmp'_def lo_def)
  have "histogram (\<lambda>r. high_digit (k r)) xs = histogram (\<lambda>r. high_digit (k r)) lo"
    unfolding histogram_def lo_def
    by (intro map_cong refl) (metis mset_filter mset_sort size_mset)
  then have p2: "radix_place (\<lambda>r. high_digit (k r)) (prefix_sums 0 (fst (snd scan))) xs lo =
      Some (sort_key (\<lambda>x. unat (k x) mod 2 ^ 16) xs)"
    unfolding a sort_two_digits [symmetric] using radix_place_buckets [of lo "\<lambda>r. high_digit (k r)" xs]
    by (simp add: lo_def buckets_sort_key high_digit_less)
  have case_xs: "(case xs of [] \<Rightarrow> None | y # zs \<Rightarrow> G y) = G x" for G :: "'a \<Rightarrow> ('a list \<times> 'a list) option"
    by (simp add: xs)
  have loop: "radix_loop key key_shift xs tmp =
      (if diff < 256 then Some (lo, tmp')
       else if drop_bit 16 diff \<noteq> 0 then radix_loop key (key_shift + 16) (sort_key (\<lambda>x. unat (k x) mod 2 ^ 16) xs) tmp'
       else Some (sort_key (\<lambda>x. unat (k x) mod 2 ^ 16) xs, tmp'))"
    using assms(1) p1 p2 t
    unfolding radix_loop.simps [of key key_shift xs tmp] case_xs Let_def k_def [symmetric]
      scan_def [symmetric] diff_def [symmetric]
    by simp
  have agree: "drop_bit m diff = 0 \<Longrightarrow> \<forall>y \<in> set xs. drop_bit m (k y) = drop_bit m (k x)" for m
    using radix_scan_agree unfolding diff_def scan_def by blast
  have len: "length tmp' = length tmp" using assms(3) by (simp add: tmp'_def lo_def)
  consider "diff < 256" | "\<not> diff < 256" "drop_bit 16 diff = 0" | "\<not> diff < 256" "drop_bit 16 diff \<noteq> 0" by blast
  then show thesis
  proof cases
    case 1
    then have "unat diff < 256" by (simp add: word_less_nat_alt)
    then have "drop_bit 8 diff = 0" by (simp add: unat_drop_bit unat_eq_zero [symmetric])
    then have "lo = sort_key (\<lambda>x. unat (k x)) xs"
      unfolding lo_def low_digit_mod using sort_key_agree [of xs 8 k "drop_bit 8 (k x)"] agree [of 8] by simp
    with loop 1 len show thesis by (intro Done [of tmp']) auto
  next
    case 2
    then have "sort_key (\<lambda>x. unat (k x) mod 2 ^ 16) xs = sort_key (\<lambda>x. unat (k x)) xs"
      using sort_key_agree [of xs 16 k "drop_bit 16 (k x)"] agree [of 16] by simp
    with loop 2 len show thesis by (intro Done [of tmp']) auto
  next
    case 3
    have "\<exists>x \<in> set xs. 2 ^ 16 \<le> unat (k x)"
    proof (rule ccontr)
      assume "\<not> ?thesis"
      then have "\<forall>y \<in> set xs. drop_bit 16 (k y) = 0"
        by (auto simp: unat_drop_bit unat_eq_zero [symmetric] not_le)
      then have "drop_bit 16 diff = 0"
        unfolding diff_def scan_def using xs by (intro radix_scan_zero) auto
      then show False using 3 by simp
    qed
    with loop 3 len show thesis by (intro More [of tmp']) auto
  qed
qed

subsection \<open>The radix sort is the stable sort by key\<close>

lemma sort_key_unat: "sort_key (\<lambda>x. unat (key x)) xs = sort_key (key :: 'a \<Rightarrow> u32) xs"
proof (rule properties_for_sort_key)
  show "filter (\<lambda>x. unat (key k) = unat (key x)) (sort_key key xs) = filter (\<lambda>x. unat (key k) = unat (key x)) xs"
    if "k \<in> set (sort_key key xs)" for k
    using sort_key_stable [of key "key k" xs]
    unfolding word_unat_eq_iff [symmetric] by (simp add: eq_commute)
  have "sorted (map key (sort_key key xs))" by simp
  then show "sorted (map (\<lambda>x. unat (key x)) (sort_key key xs))"
    by (simp add: sorted_map word_le_nat_alt)
qed simp

lemma radix_loop_correct:
  assumes "xs \<noteq> []" "length xs \<le> length tmp"
  shows "\<exists>tmp'. radix_loop key 0 xs tmp = Some (sort_key key xs, tmp') \<and> length tmp' = length tmp"
proof -
  let ?ys = "sort_key (\<lambda>x. unat (key x) mod 2 ^ 16) xs"
  have k0: "radix_key key 0 = key" by (rule ext) (simp add: radix_key_def)
  have k16: "unat (radix_key key 16 x) = unat (key x) div 2 ^ 16" for x
    unfolding radix_key_def by (rule unat_drop_bit)
  have small: "unat (key x) div 2 ^ 16 < 2 ^ 16" for x
  proof -
    have "unat (key x) < 2 ^ LENGTH(32)" by (rule unsigned_less)
    then show ?thesis by (simp add: less_mult_imp_div_less)
  qed
  have last: "\<exists>tmp''. radix_loop key 16 ?ys tmp' = Some (sort_key key xs, tmp'') \<and> length tmp'' = length tmp"
    if tmp': "length tmp' = length tmp" for tmp'
  proof (rule radix_round [of 16 ?ys tmp' key])
    fix tmp'' assume "radix_loop key 16 ?ys tmp' = Some (sort_key (\<lambda>x. unat (radix_key key 16 x)) ?ys, tmp'')"
      and "length tmp'' = length tmp'"
    moreover have "sort_key (\<lambda>x. unat (radix_key key 16 x)) ?ys = sort_key key xs"
      unfolding k16 sort_key_unat [symmetric]
      by (subst sort_key_two_passes [where B = "2 ^ 16"]) (auto intro!: sort_key_cong_on)
    ultimately show ?thesis using tmp' by simp
  next
    assume "\<exists>x \<in> set ?ys. 2 ^ 16 \<le> unat (radix_key key 16 x)"
    then show ?thesis unfolding k16 using small by (metis not_le)
  next
    show "?ys \<noteq> []" using assms(1) by (metis length_0_conv length_sort)
  qed (use assms tmp' in simp_all)
  show ?thesis
  proof (rule radix_round [of 0 xs tmp key])
    fix tmp' assume "radix_loop key 0 xs tmp = Some (sort_key (\<lambda>x. unat (radix_key key 0 x)) xs, tmp')"
      "length tmp' = length tmp"
    then show ?thesis by (simp add: k0 sort_key_unat)
  next
    fix tmp' assume "length tmp' = length tmp" and
      "radix_loop key 0 xs tmp = radix_loop key (0 + 16) (sort_key (\<lambda>x. unat (radix_key key 0 x) mod 2 ^ 16) xs) tmp'"
    then show ?thesis using last [of tmp'] by (simp add: k0)
  qed (use assms in simp_all)
qed

lemma radixsort_correct:
  assumes "xs \<noteq> []" "length xs \<le> length tmp"
  shows "\<exists>tmp'. radixsort key xs (Some tmp) = Some (True, sort_key key xs, tmp') \<and> length tmp' = length tmp"
  using radix_loop_correct [OF assms, of key] by (auto simp: radixsort_def)

subsection \<open>Properties\<close>

text \<open>
  C22: the radix sort of a non-empty array with a buffer of its length succeeds, terminates
  without a shift by the key width, stays inside array and buffer, and its result is the
  stable sort by the key.
\<close>

theorem radixsort_is_stable_sort:
  assumes "xs \<noteq> []" "length xs \<le> length tmp"
  shows "\<exists>tmp'. radixsort key xs (Some tmp) = Some (True, sort_key key xs, tmp') \<and> length tmp' = length tmp"
  by (rule radixsort_correct [OF assms])

theorem radixsort_is_stable_sort_witness:
  "\<exists>tmp'. radixsort (\<lambda>p. fst p) [(0x30001 :: u32, 1 :: nat), (5, 2), (0x30001, 3), (0, 4)] (Some (replicate 5 (0, 0))) =
     Some (True, sort_key fst [(0x30001, 1), (5, 2), (0x30001, 3), (0, 4)], tmp') \<and> length tmp' = 5"
  using radixsort_is_stable_sort [of "[(0x30001 :: u32, 1 :: nat), (5, 2), (0x30001, 3), (0, 4)]" "replicate 5 (0, 0)" fst]
  by simp

end
