(* ===== verification/Bin_Search.thy ===== *)
theory Bin_Search
  imports Prelude
begin

text \<open>
  The binary search that \<open>mdbx.c\<close> instantiates for page numbers, transaction
  ids and dirty-page entries (macro \<open>SEARCH_IMPL\<close>).  The list is an array of cells;
  a read outside it yields \<^const>\<open>None\<close>.  The branch-free narrowing loop runs
  while more than three cells remain; the fall-through switch scans the rest.
\<close>

subsection \<open>The code\<close>

function search_narrow ::
  "('a \<Rightarrow> 'b \<Rightarrow> bool) \<Rightarrow> 'a list \<Rightarrow> 'b \<Rightarrow> nat \<Rightarrow> nat \<Rightarrow> (nat \<times> nat) option" where
  "search_narrow cmp xs item first len =
     (if len > 3
      then let half = len div 2;
               middle = first + half;
               left = len - half - 1
           in case rd xs middle of
                None \<Rightarrow> None
              | Some x \<Rightarrow> if cmp x item then search_narrow cmp xs item (middle + 1) left
                          else search_narrow cmp xs item first half
      else Some (first, len))"
  by pat_completeness auto
termination by (relation "measure (\<lambda>(_, _, _, _, len). len)") auto

declare search_narrow.simps [simp del]

fun search_switch :: "('a \<Rightarrow> 'b \<Rightarrow> bool) \<Rightarrow> 'a list \<Rightarrow> 'b \<Rightarrow> nat \<Rightarrow> nat \<Rightarrow> nat option" where
  "search_switch cmp xs item first 0 = Some first"
| "search_switch cmp xs item first (Suc n) =
     (case rd xs first of
        None \<Rightarrow> None
      | Some x \<Rightarrow> if \<not> cmp x item then Some first
                  else search_switch cmp xs item (first + 1) n)"

definition bsearch :: "('a \<Rightarrow> 'b \<Rightarrow> bool) \<Rightarrow> 'a list \<Rightarrow> nat \<Rightarrow> nat \<Rightarrow> 'b \<Rightarrow> nat option" where
  "bsearch cmp xs first len item =
     (case search_narrow cmp xs item first len of
        None \<Rightarrow> None
      | Some (f, n) \<Rightarrow> search_switch cmp xs item f n)"

subsection \<open>The search returns the partition point\<close>

text \<open>
  What the caller guarantees: the items that compare below the argument form a
  prefix of the searched cells.
\<close>

definition partitioned :: "('a \<Rightarrow> 'b \<Rightarrow> bool) \<Rightarrow> 'a list \<Rightarrow> nat \<Rightarrow> nat \<Rightarrow> 'b \<Rightarrow> bool" where
  "partitioned cmp xs first len item \<longleftrightarrow>
     (\<forall>i j. first \<le> i \<longrightarrow> i < j \<longrightarrow> j < first + len \<longrightarrow> cmp (xs ! j) item \<longrightarrow> cmp (xs ! i) item)"

definition partition_point ::
  "('a \<Rightarrow> 'b \<Rightarrow> bool) \<Rightarrow> 'a list \<Rightarrow> nat \<Rightarrow> nat \<Rightarrow> 'b \<Rightarrow> nat \<Rightarrow> bool" where
  "partition_point cmp xs first len item r \<longleftrightarrow>
     first \<le> r \<and> r \<le> first + len \<and>
     (\<forall>i. first \<le> i \<longrightarrow> i < r \<longrightarrow> cmp (xs ! i) item) \<and>
     (\<forall>i. r \<le> i \<longrightarrow> i < first + len \<longrightarrow> \<not> cmp (xs ! i) item)"

lemma partition_point_not_less:
  assumes "partition_point cmp xs first len item r" "partition_point cmp xs first len item s"
  shows "\<not> r < s"
proof
  assume less: "r < s"
  then have "cmp (xs ! r) item" using assms unfolding partition_point_def by blast
  moreover have "\<not> cmp (xs ! r) item"
    using assms less unfolding partition_point_def by (meson le_refl less_le_trans)
  ultimately show False by simp
qed

lemma partition_point_unique:
  assumes "partition_point cmp xs first len item r" "partition_point cmp xs first len item s"
  shows "r = s"
  using partition_point_not_less [OF assms] partition_point_not_less [OF assms(2,1)] by simp

lemma partitioned_sub:
  "\<lbrakk>partitioned cmp xs first len item; first \<le> f; f + n \<le> first + len\<rbrakk>
   \<Longrightarrow> partitioned cmp xs f n item"
  by (auto simp: partitioned_def)

lemma partition_point_upper:
  assumes "partitioned cmp xs first len item" "first \<le> m" "m < first + len" "cmp (xs ! m) item"
    and "partition_point cmp xs (m + 1) (first + len - (m + 1)) item r"
  shows "partition_point cmp xs first len item r"
proof -
  have "cmp (xs ! i) item" if "first \<le> i" "i \<le> m" for i
    using assms(1-4) that unfolding partitioned_def by (cases "i = m") (blast intro: le_neq_implies_less)+
  then show ?thesis
    using assms(2,3,5) unfolding partition_point_def
    by (auto simp: not_le) (metis Suc_leI not_le)
qed

lemma partition_point_lower:
  assumes "partitioned cmp xs first len item" "first \<le> m" "m < first + len" "\<not> cmp (xs ! m) item"
    and "partition_point cmp xs first (m - first) item r"
  shows "partition_point cmp xs first len item r"
proof -
  have "\<not> cmp (xs ! i) item" if "m \<le> i" "i < first + len" for i
    using assms(1-4) that unfolding partitioned_def by (cases "i = m") auto
  then show ?thesis
    using assms(2,3,5) unfolding partition_point_def by (auto simp: not_le)
qed

lemma search_narrow_correct:
  assumes "partitioned cmp xs first len item" "first + len \<le> length xs"
  shows "\<exists>f n. search_narrow cmp xs item first len = Some (f, n) \<and> n \<le> 3 \<and>
           f + n \<le> length xs \<and> partitioned cmp xs f n item \<and>
           (\<forall>r. partition_point cmp xs f n item r \<longrightarrow> partition_point cmp xs first len item r)"
  using assms
proof (induction cmp xs item first len rule: search_narrow.induct)
  case (1 cmp xs item first len)
  show ?case
  proof (cases "len > 3")
    case False
    then show ?thesis using 1 by (subst search_narrow.simps) auto
  next
    case True
    define half where "half = len div 2"
    have half: "first + half < first + len" "first + half < length xs"
      using True 1 by (auto simp: half_def)
    have rd: "rd xs (first + half) = Some (xs ! (first + half))"
      using half by (simp add: cell_simps)
    show ?thesis
    proof (cases "cmp (xs ! (first + half)) item")
      case less: True
      have eq: "search_narrow cmp xs item first len =
                search_narrow cmp xs item (first + half + 1) (len - half - 1)"
        using True rd less by (subst search_narrow.simps) (simp add: half_def Let_def)
      have "partitioned cmp xs (first + half + 1) (len - half - 1) item"
        using "1.prems"(1) half by (rule_tac partitioned_sub) auto
      moreover have "first + half + 1 + (len - half - 1) \<le> length xs"
        using half "1.prems"(2) by simp
      ultimately obtain f n where fn:
        "search_narrow cmp xs item (first + half + 1) (len - half - 1) = Some (f, n)" "n \<le> 3"
        "f + n \<le> length xs" "partitioned cmp xs f n item"
        "\<And>r. partition_point cmp xs f n item r \<Longrightarrow>
               partition_point cmp xs (first + half + 1) (len - half - 1) item r"
        using "1.IH"(1) [OF True half_def refl refl] rd less by (auto simp: half_def)
      have "partition_point cmp xs first len item r" if "partition_point cmp xs f n item r" for r
        using partition_point_upper [OF "1.prems"(1) _ half(1) less] fn(5) [OF that] half(1)
        by (simp add: diff_diff_left)
      then show ?thesis using eq fn by auto
    next
      case geq: False
      have eq: "search_narrow cmp xs item first len = search_narrow cmp xs item first half"
        using True rd geq by (subst search_narrow.simps) (simp add: half_def Let_def)
      have "partitioned cmp xs first half item"
        using "1.prems"(1) half by (rule_tac partitioned_sub) auto
      moreover have "first + half \<le> length xs"
        using half "1.prems"(2) by simp
      ultimately obtain f n where fn:
        "search_narrow cmp xs item first half = Some (f, n)" "n \<le> 3"
        "f + n \<le> length xs" "partitioned cmp xs f n item"
        "\<And>r. partition_point cmp xs f n item r \<Longrightarrow> partition_point cmp xs first half item r"
        using "1.IH"(2) [OF True half_def refl refl] rd geq by (auto simp: half_def)
      have "partition_point cmp xs first len item r" if "partition_point cmp xs f n item r" for r
        using partition_point_lower [OF "1.prems"(1) _ half(1) geq] fn(5) [OF that] by simp
      then show ?thesis using eq fn by auto
    qed
  qed
qed

lemma search_switch_correct:
  assumes "partitioned cmp xs first n item" "first + n \<le> length xs"
  shows "\<exists>r. search_switch cmp xs item first n = Some r \<and> partition_point cmp xs first n item r"
  using assms
proof (induction n arbitrary: first)
  case 0
  then show ?case by (simp add: partition_point_def)
next
  case (Suc n)
  have rd: "rd xs first = Some (xs ! first)" using Suc.prems by (simp add: cell_simps)
  show ?case
  proof (cases "cmp (xs ! first) item")
    case False
    then have "partition_point cmp xs first (Suc n) item first"
      using Suc.prems(1) unfolding partitioned_def partition_point_def
      by (metis le_add1 le_refl le_neq_implies_less not_less)
    then show ?thesis using rd False by simp
  next
    case True
    have "partitioned cmp xs (first + 1) n item"
      using Suc.prems(1) by (rule partitioned_sub) auto
    then obtain r where "search_switch cmp xs item (first + 1) n = Some r"
      "partition_point cmp xs (first + 1) n item r"
      using Suc.IH [of "first + 1"] Suc.prems(2) by auto
    then show ?thesis
      using rd True partition_point_upper [OF Suc.prems(1), of first r] by simp
  qed
qed

lemma bsearch_correct:
  assumes "partitioned cmp xs first len item" "first + len \<le> length xs"
  obtains r where "bsearch cmp xs first len item = Some r" "partition_point cmp xs first len item r"
proof -
  obtain f n where fn: "search_narrow cmp xs item first len = Some (f, n)"
    "f + n \<le> length xs" "partitioned cmp xs f n item"
    "\<And>r. partition_point cmp xs f n item r \<Longrightarrow> partition_point cmp xs first len item r"
    using search_narrow_correct [OF assms] by auto
  obtain r where "search_switch cmp xs item f n = Some r" "partition_point cmp xs f n item r"
    using search_switch_correct [OF fn(3,2)] by auto
  then show ?thesis using fn that [of r] by (simp add: bsearch_def)
qed


text \<open>A sorted array is partitioned at every item of the comparison's own type.\<close>

context strict_weak_cmp
begin

lemma sorted_partitioned:
  assumes "sorted_by cmp (seg first len xs)" "first + len \<le> length xs"
  shows "partitioned cmp xs first len item"
  unfolding partitioned_def
proof (intro allI impI)
  fix i j assume ij: "first \<le> i" "i < j" "j < first + len" and c: "cmp (xs ! j) item"
  have "\<not> cmp (seg first len xs ! (j - first)) (seg first len xs ! (i - first))"
    using assms ij unfolding sorted_by_nth by (auto simp del: seg_nth)
  then have "\<not> cmp (xs ! j) (xs ! i)" using assms ij by simp
  then show "cmp (xs ! i) item" using c cmp_negtrans by blast
qed

end

subsection \<open>Properties\<close>

text \<open>
  C23: on an array partitioned at the item, the branch-free binary search returns, reads no
  cell outside the array, and yields the unique partition point: everything before it
  compares below the item, nothing from it on does.
\<close>

theorem bsearch_finds_partition_point:
  assumes "partitioned cmp xs first len item" "first + len \<le> length xs"
  shows "\<exists>!r. bsearch cmp xs first len item = Some r \<and> partition_point cmp xs first len item r"
  using bsearch_correct [OF assms] by (metis option.inject)

theorem bsearch_finds_partition_point_witness:
  "\<exists>!r. bsearch (\<lambda>x y. x < (y::nat)) [1, 3, 5, 7, 9, 11] 1 5 8 = Some r \<and>
        partition_point (\<lambda>x y. x < (y::nat)) [1, 3, 5, 7, 9, 11] 1 5 8 r"
proof -
  have sorted: "sorted [1, 3, 5, 7, 9, 11 :: nat]" by simp
  have "partitioned (\<lambda>x y. x < (y::nat)) [1, 3, 5, 7, 9, 11] 1 5 8"
    unfolding partitioned_def
  proof (intro allI impI)
    fix i j :: nat
    assume "i < j" "j < 1 + 5" "[1, 3, 5, 7, 9, 11] ! j < (8 :: nat)"
    moreover have "[1, 3, 5, 7, 9, 11] ! i \<le> ([1, 3, 5, 7, 9, 11] ! j :: nat)"
      using sorted_nth_mono [OF sorted, of i j] calculation by simp
    ultimately show "[1, 3, 5, 7, 9, 11] ! i < (8 :: nat)" by simp
  qed
  then show ?thesis
    by (rule bsearch_finds_partition_point) simp
qed

end
