(* ===== verification/Int_Utils.thy ===== *)
theory Int_Utils
  imports Prelude
begin

text \<open>
  The integer helpers at the top of \<open>mdbx.c\<close>: saturating page-number arithmetic,
  power-of-two rounding, three-way comparison, and the packed 16-bit encoding of the
  database's grow step and shrink threshold.
\<close>

subsection \<open>Reading word arithmetic as natural numbers\<close>

lemma unat_add_lt [arith_simps]:
  "unat x + unat y < 2 ^ LENGTH('a) \<Longrightarrow> unat (x + y :: 'a::len word) = unat x + unat y"
  by (rule unat_add_lem [THEN iffD1])

lemma unat_sub_le [arith_simps]:
  "y \<le> x \<Longrightarrow> unat (x - y :: 'a::len word) = unat x - unat y"
  by (rule unat_sub)

lemma unat_mult_lt [arith_simps]:
  "unat x * unat y < 2 ^ LENGTH('a) \<Longrightarrow> unat (x * y :: 'a::len word) = unat x * unat y"
  by (rule unat_mult_lem [THEN iffD1])

lemma unat_push_bit_lt [arith_simps]:
  "unat x * 2 ^ n < 2 ^ LENGTH('a) \<Longrightarrow> unat (push_bit n x :: 'a::len word) = unat x * 2 ^ n"
  unfolding unsigned_push_bit_eq by (simp only: push_bit_eq_mult take_bit_eq_mod mod_less)

lemma unat_drop_bit_div [arith_simps]:
  "unat (drop_bit n x :: 'a::len word) = unat x div 2 ^ n"
  unfolding unat_drop_bit_eq by (rule drop_bit_eq_div)

lemma unat_ucast_mod: "unat (ucast (x :: 'a::len word) :: 'b::len word) = unat x mod 2 ^ LENGTH('b)"
  by (simp add: unsigned_ucast_eq take_bit_eq_mod)

lemma unat_ucast_lt [arith_simps]:
  "unat x < 2 ^ LENGTH('b) \<Longrightarrow> unat (ucast (x :: 'a::len word) :: 'b::len word) = unat x"
  by (simp add: unat_ucast_mod)

lemma unat_of_nat_lt [arith_simps]:
  "n < 2 ^ LENGTH('a) \<Longrightarrow> unat (of_nat n :: 'a::len word) = n"
  by (simp add: unat_of_nat)

lemma and_mask_mod: "unat (x AND of_nat (2 ^ n - 1) :: 'a::len word) = unat x mod 2 ^ n"
  if "n < LENGTH('a)"
proof -
  have "(of_nat (2 ^ n - 1) :: 'a word) = mask n"
    by (simp add: mask_eq_exp_minus_1 of_nat_diff)
  then show ?thesis
    by (simp add: take_bit_eq_mask [symmetric] unsigned_take_bit_eq take_bit_eq_mod [where 'a = nat])
qed

subsection \<open>The code\<close>

definition cmp2int :: "'a::linorder \<Rightarrow> 'a \<Rightarrow> int" where
  "cmp2int a b = (if b > a then -1 else if a > b then 1 else 0)"

definition MAX_PAGENO :: u32 where "MAX_PAGENO = 0x7FFFFFFF"
definition MIN_PAGENO :: u32 where "MIN_PAGENO = 3"
definition P_INVALID :: u32 where "P_INVALID = NOT 0"

definition pgno_add :: "pgno_t \<Rightarrow> pgno_t \<Rightarrow> pgno_t" where
  "pgno_add base augend = (if augend < MAX_PAGENO - base then base + augend else MAX_PAGENO)"

definition pgno_sub :: "pgno_t \<Rightarrow> pgno_t \<Rightarrow> pgno_t" where
  "pgno_sub base subtrahend =
     (if subtrahend < base - MIN_PAGENO then base - subtrahend else MIN_PAGENO)"

definition is_powerof2 :: "u64 \<Rightarrow> bool" where
  "is_powerof2 x = (x AND (x - 1) = 0)"

definition floor_powerof2 :: "u64 \<Rightarrow> u64 \<Rightarrow> u64" where
  "floor_powerof2 v granularity = v AND NOT (granularity - 1)"

definition ceil_powerof2 :: "u64 \<Rightarrow> u64 \<Rightarrow> u64" where
  "ceil_powerof2 v granularity = floor_powerof2 (v + granularity - 1) granularity"

definition debruijn_ctz32 :: "u32 list" where
  "debruijn_ctz32 =
     [0,  1,  28, 2,  29, 14, 24, 3, 30, 22, 20, 15, 25, 17, 4,  8,
      31, 27, 13, 23, 21, 19, 16, 7, 26, 12, 18, 6,  11, 5,  10, 9]"

definition log2n_powerof2 :: "u64 \<Rightarrow> u32" where
  "log2n_powerof2 v = debruijn_ctz32 ! unat (drop_bit 27 (ucast (v * 0x077CB531) :: u32))"

definition branchless_abs :: "32 word \<Rightarrow> u32" where
  "branchless_abs v = (let expanded_sign = signed_drop_bit 31 v in (v + expanded_sign) XOR expanded_sign)"

definition me2v :: "u32 \<Rightarrow> nat \<Rightarrow> pgno_t" where
  "me2v m e = 32768 + push_bit (e + 8) (m + 1)"

definition v2me :: "u64 \<Rightarrow> nat \<Rightarrow> u16" where
  "v2me v e =
     (let m0 = drop_bit (e + 8) (v - 32768 + push_bit (e + 8) 1 - 1);
          m = m0 - (if m0 > 0 then 1 else 0)
      in ucast (0x8001 + push_bit 12 (of_nat e) + push_bit 1 m))"

definition pv2pages :: "u16 \<Rightarrow> pgno_t" where
  "pv2pages pv =
     (if pv AND 0x8001 \<noteq> 0x8001 then ucast pv
      else if pv = 65535 then 65536
      else me2v (ucast (drop_bit 1 pv AND 2047)) (unat (drop_bit 12 pv AND 7)))"

definition pages2pv :: "u64 \<Rightarrow> u16" where
  "pages2pv pages =
     (if pages < 32769 \<or> pages < 65536 \<and> pages AND 1 = 0 then ucast pages
      else if pages \<le> ucast (me2v 2047 0) then v2me pages 0
      else if pages \<le> ucast (me2v 2047 1) then v2me pages 1
      else if pages \<le> ucast (me2v 2047 2) then v2me pages 2
      else if pages \<le> ucast (me2v 2047 3) then v2me pages 3
      else if pages \<le> ucast (me2v 2047 4) then v2me pages 4
      else if pages \<le> ucast (me2v 2047 5) then v2me pages 5
      else if pages \<le> ucast (me2v 2047 6) then v2me pages 6
      else if pages < ucast (me2v 2046 7) then v2me pages 7 else 65533)"

subsection \<open>Rounding to a power of two\<close>

lemma unat_mask_lt: "n < LENGTH('a) \<Longrightarrow> unat (mask n :: 'a::len word) = 2 ^ n - 1"
  by (metis less_imp_le mask_eq_exp_minus_1 of_nat_mask_eq take_bit_nat_eq_self_iff unat_of_nat unsigned_of_nat take_bit_eq_mask min.absorb2 mask_mod_exp)

lemma and_not_mask: "v AND NOT (mask n) = push_bit n (drop_bit n (v :: 'a::len word))"
  by (rule bit_eqI) (auto simp: bit_simps)

lemma floor_powerof2_unat:
  assumes "n < 64"
  shows "unat (floor_powerof2 v (2 ^ n)) = unat v div 2 ^ n * 2 ^ n"
proof -
  have "floor_powerof2 v (2 ^ n) = push_bit n (drop_bit n v)"
    by (simp add: floor_powerof2_def mask_eq_exp_minus_1 [symmetric] and_not_mask)
  moreover have "unat (drop_bit n v) * 2 ^ n < 2 ^ LENGTH(64)"
    unfolding unat_drop_bit_div
    by (rule le_less_trans [OF div_times_less_eq_dividend]) (rule unsigned_less)
  ultimately show ?thesis
    by (simp only: unat_push_bit_lt unat_drop_bit_div)
qed

lemma ceil_powerof2_unat:
  assumes "n < 64" "unat v + 2 ^ n \<le> 2 ^ 64"
  shows "unat (ceil_powerof2 v (2 ^ n)) = (unat v + 2 ^ n - 1) div 2 ^ n * 2 ^ n"
proof -
  have "v + 2 ^ n - 1 = v + mask n" by (simp add: mask_eq_exp_minus_1)
  moreover have "unat (v + mask n) = unat v + 2 ^ n - 1"
  proof -
    have m: "unat (mask n :: u64) = 2 ^ n - 1" using assms(1) by (simp add: unat_mask_lt)
    have "(1::nat) \<le> 2 ^ n" by simp
    then have "unat v + unat (mask n :: u64) < 2 ^ LENGTH(64)" "unat v + (2 ^ n - 1) = unat v + 2 ^ n - 1"
      unfolding m using assms(2) by simp_all
    then show ?thesis using m by (simp only: unat_add_lt)
  qed
  ultimately show ?thesis
    using assms(1) by (simp only: ceil_powerof2_def floor_powerof2_unat)
qed

lemma floor_powerof2_bounds:
  assumes "n < 64"
  shows "unat (floor_powerof2 v (2 ^ n)) \<le> unat v"
    and "unat v < unat (floor_powerof2 v (2 ^ n)) + 2 ^ n"
    and "2 ^ n dvd unat (floor_powerof2 v (2 ^ n))"
proof -
  have "unat v div 2 ^ n * 2 ^ n + unat v mod 2 ^ n = unat v" by (rule div_mult_mod_eq)
  moreover have "unat v mod 2 ^ n < 2 ^ n" by simp
  ultimately show "unat v < unat (floor_powerof2 v (2 ^ n)) + 2 ^ n"
    unfolding floor_powerof2_unat [OF assms] by linarith
qed (simp_all add: floor_powerof2_unat [OF assms])

lemma nat_ceil_bounds:
  fixes v g :: nat
  assumes "0 < g"
  shows "v \<le> (v + g - 1) div g * g" "(v + g - 1) div g * g < v + g"
proof -
  have "(v + g - 1) div g * g + (v + g - 1) mod g = v + g - 1" by (rule div_mult_mod_eq)
  moreover have "(v + g - 1) mod g < g" using assms by simp
  ultimately show "v \<le> (v + g - 1) div g * g" "(v + g - 1) div g * g < v + g"
    using assms by linarith+
qed

lemma nat_ceil_exact:
  fixes g :: nat
  assumes "0 < g"
  shows "(k * g + g - 1) div g = k"
  using assms by (intro div_nat_eqI) (simp_all add: algebra_simps)

subsection \<open>Packed page counts\<close>

lemma me2v_unat:
  assumes "unat m < 2048" "e < 8"
  shows "unat (me2v m e) = 32768 + (unat m + 1) * 2 ^ (e + 8)"
proof -
  have p: "(2::nat) ^ (e + 8) \<le> 2 ^ 15" using assms(2) by (intro power_increasing) auto
  have m1: "unat (m + 1) = unat m + 1" using assms(1) by (subst unat_add_lt) auto
  have "(unat m + 1) * 2 ^ (e + 8) \<le> 2048 * 2 ^ 15"
    using assms(1) p by (intro mult_le_mono) auto
  then have "(unat m + 1) * 2 ^ (e + 8) + 32768 < 2 ^ LENGTH(32)" by simp
  then show ?thesis
    unfolding me2v_def by (subst unat_add_lt; subst unat_push_bit_lt) (auto simp: m1)
qed

lemma odd_unat_iff: "odd (unat w) \<longleftrightarrow> bit w 0"
  unfolding bit_0 [symmetric] by (simp only: bit_unsigned_iff possible_bit_nat simp_thms)

lemma pv_packed_iff: "pv AND 0x8001 = (0x8001 :: u16) \<longleftrightarrow> odd (unat pv) \<and> 32768 \<le> unat pv"
proof -
  have c: "(0x8001 :: u16) = 1 OR push_bit 15 1" by simp
  have b: "bit (0x8001 :: u16) n \<longleftrightarrow> n = 0 \<or> n = 15" for n
    unfolding c bit_or_iff bit_push_bit_iff bit_1_iff by auto
  have "pv AND 0x8001 = (0x8001 :: u16) \<longleftrightarrow> bit pv 0 \<and> bit pv 15"
  proof
    assume *: "pv AND 0x8001 = (0x8001 :: u16)"
    have "bit (pv AND 0x8001) 0" "bit (pv AND 0x8001) 15" unfolding * b by simp_all
    then show "bit pv 0 \<and> bit pv 15" unfolding bit_and_iff by blast
  next
    assume "bit pv 0 \<and> bit pv 15"
    then show "pv AND 0x8001 = (0x8001 :: u16)"
      by (intro bit_eqI) (auto simp only: bit_and_iff b)
  qed
  also have "bit pv 0 \<longleftrightarrow> odd (unat pv)"
    by (rule odd_unat_iff [symmetric])
  also have "bit pv 15 \<longleftrightarrow> 32768 \<le> unat pv"
  proof -
    have "bit pv 15 \<longleftrightarrow> bit (unat pv) 15" by (simp add: bit_unsigned_iff)
    also have "\<dots> \<longleftrightarrow> odd (unat pv div 32768)" by (simp add: bit_iff_odd)
    also have "\<dots> \<longleftrightarrow> 0 < unat pv div 32768"
    proof -
      have "unat pv < 2 ^ LENGTH(16)" by (rule unsigned_less)
      then have "unat pv div 32768 < 2" by (simp add: less_mult_imp_div_less)
      then show ?thesis by (auto simp: less_Suc_eq numeral_2_eq_2)
    qed
    also have "\<dots> \<longleftrightarrow> 32768 \<le> unat pv" by (simp add: div_greater_zero_iff)
    finally show ?thesis .
  qed
  finally show ?thesis .
qed

lemma pv2pages_packed:
  assumes "unat pv = 0x8001 + e * 4096 + 2 * m" "e < 8" "m < 2048" "unat pv \<noteq> 65535"
  shows "unat (pv2pages pv) = 32768 + (m + 1) * 2 ^ (e + 8)"
proof -
  have flag: "pv AND 0x8001 = 0x8001" unfolding pv_packed_iff using assms(1) by simp
  have ne: "pv \<noteq> 65535" using assms(4) by auto
  have "unat pv div 2 = m + (8 + e) * 2048" using assms(1) by presburger
  moreover have "(m + (8 + e) * 2048) mod 2048 = m" using assms(3) by (simp only: mod_mult_self1 mod_less)
  ultimately have m: "unat (drop_bit 1 pv AND 2047) = m"
    using and_mask_mod [of 11 "drop_bit 1 pv"] unat_drop_bit_div [of 1 pv]
    by (simp del: distrib_right_numeral)
  have "unat pv div 4096 = 8 + e" using assms(1,3) by (intro div_nat_eqI) auto
  moreover have "(8 + e) mod 8 = e" using assms(2) by simp
  ultimately have e: "unat (drop_bit 12 pv AND 7) = e"
    using and_mask_mod [of 3 "drop_bit 12 pv"] unat_drop_bit_div [of 12 pv] by simp
  have "unat (ucast (drop_bit 1 pv AND 2047) :: u32) = m"
    using m assms(3) by (subst unat_ucast_lt) auto
  then show ?thesis using flag ne e assms(2,3) by (simp add: pv2pages_def me2v_unat)
qed

text \<open>
  The number of pages a packed value stands for is the page count rounded up to
  the granularity \<open>2 ^ (e + 8)\<close> of its exponent.
\<close>

lemma v2me_pv2pages:
  assumes e: "e < 8" and lo: "32768 < unat v" and hi: "unat v \<le> 32768 + 2048 * 2 ^ (e + 8)"
    and top: "unat v \<le> 32768 + 2047 * 2 ^ (e + 8) \<or> e < 7"
  shows "unat (pv2pages (v2me v e)) =
         32768 + (unat v - 32768 + 2 ^ (e + 8) - 1) div 2 ^ (e + 8) * 2 ^ (e + 8)"
proof -
  define g where "g = (2::nat) ^ (e + 8)"
  define q where "q = (unat v - 32768 + g - 1) div g"
  have g: "0 < g" "g \<le> 2 ^ 15"
    using e power_increasing [of "e + 8" 15 "2 :: nat"] by (auto simp: g_def)
  have q: "1 \<le> q" "q \<le> 2048"
  proof -
    have "g div g \<le> q" unfolding q_def using lo by (intro div_le_mono) auto
    then show "1 \<le> q" using g by simp
    have "q \<le> (2048 * g + g - 1) div g" unfolding q_def using hi by (intro div_le_mono) (simp add: g_def)
    also have "\<dots> = 2048" using g by (simp add: div_nat_eqI)
    finally show "q \<le> 2048" .
  qed
  have qtop: "q \<le> 2047" if "e = 7"
  proof -
    have "q \<le> (2047 * g + g - 1) div g"
      unfolding q_def using top that by (intro div_le_mono) (simp add: g_def)
    also have "\<dots> = 2047" using g by (simp add: div_nat_eqI)
    finally show ?thesis .
  qed
  have hi': "unat v < 2 ^ 27"
  proof -
    have "2048 * 2 ^ (e + 8) \<le> 2048 * (2 ^ 15 :: nat)" using g by (simp add: g_def)
    then show ?thesis using hi by simp
  qed
  define p where "p = (push_bit (e + 8) 1 :: u64)"
  have p: "unat p = g" unfolding p_def g_def using g(2) by (subst unat_push_bit_lt) (auto simp: g_def)
  have p1: "unat (p - 1) = g - 1" using p g by (subst unat_sub_le) (auto simp: word_le_nat_alt)
  have v1: "unat (v - 32768) = unat v - 32768" using lo by (subst unat_sub_le) (auto simp: word_le_nat_alt)
  have "unat ((v - 32768) + (p - 1)) = unat v - 32768 + (g - 1)"
    using hi' g unfolding v1 [symmetric] p1 [symmetric] by (intro unat_add_lt) (simp add: v1 p1)
  moreover have "v - 32768 + p - 1 = (v - 32768) + (p - 1)" by simp
  ultimately have "unat (v - 32768 + p - 1) = unat v - 32768 + (g - 1)" by (simp only:)
  then have m0: "unat (drop_bit (e + 8) (v - 32768 + p - 1)) = q"
    using g unfolding unat_drop_bit_div q_def g_def by simp
  define m where "m = (drop_bit (e + 8) (v - 32768 + p - 1)) - (if drop_bit (e + 8) (v - 32768 + p - 1) > 0 then 1 else 0)"
  have "drop_bit (e + 8) (v - 32768 + p - 1) > 0" using m0 q by (simp add: word_less_nat_alt)
  then have m: "unat m = q - 1"
    unfolding m_def using m0 q by (simp add: unat_sub_le word_le_nat_alt)
  have "unat (0x8001 + push_bit 12 (of_nat e) + push_bit 1 m :: u64) = 0x8001 + e * 4096 + 2 * (q - 1)"
  proof -
    have a: "unat (push_bit 12 (of_nat e) :: u64) = e * 4096"
      using e by (subst unat_push_bit_lt) (auto simp: unat_of_nat_lt)
    have b: "unat (push_bit 1 m) = 2 * (q - 1)"
      using m q by (subst unat_push_bit_lt) auto
    have "unat (0x8001 + push_bit 12 (of_nat e) :: u64) = 0x8001 + e * 4096"
      using a e by (subst unat_add_lt) auto
    then show ?thesis using b q e by (subst unat_add_lt) auto
  qed
  then have pv: "unat (v2me v e) = 0x8001 + e * 4096 + 2 * (q - 1)"
    unfolding v2me_def Let_def p_def [symmetric] m_def [symmetric]
    using e q by (subst unat_ucast_lt) auto
  have "unat (v2me v e) \<noteq> 65535"
    using pv e q qtop by (cases "e = 7") auto
  then have "unat (pv2pages (v2me v e)) = 32768 + (q - 1 + 1) * 2 ^ (e + 8)"
    using pv e q by (intro pv2pages_packed) auto
  moreover have "q - 1 + 1 = q" using q by simp
  ultimately show ?thesis by (simp only: q_def g_def)
qed

text \<open>
  The specification of the packed encoding: what the page count \<open>n\<close> becomes after
  packing and unpacking.
\<close>

definition pv_exponent :: "nat \<Rightarrow> nat" where
  "pv_exponent n =
     (if n \<le> 32768 + 2048 * 2 ^ 8 then 0 else if n \<le> 32768 + 2048 * 2 ^ 9 then 1
      else if n \<le> 32768 + 2048 * 2 ^ 10 then 2 else if n \<le> 32768 + 2048 * 2 ^ 11 then 3
      else if n \<le> 32768 + 2048 * 2 ^ 12 then 4 else if n \<le> 32768 + 2048 * 2 ^ 13 then 5
      else if n \<le> 32768 + 2048 * 2 ^ 14 then 6 else 7)"

definition pv_limit :: nat where
  "pv_limit = 32768 + 2047 * 2 ^ 15"

definition pv_round :: "nat \<Rightarrow> nat" where
  "pv_round n =
     (if n \<le> 32768 \<or> n < 65536 \<and> even n then n
      else if n \<ge> pv_limit then pv_limit
      else 32768 + (n - 32768 + 2 ^ (pv_exponent n + 8) - 1) div 2 ^ (pv_exponent n + 8) * 2 ^ (pv_exponent n + 8))"

lemma me2v_2047 [simp]:
  "me2v 2047 0 = 557056" "me2v 2047 (Suc 0) = 1081344" "me2v 2047 2 = 2129920" "me2v 2047 3 = 4227072"
  "me2v 2047 4 = 8421376" "me2v 2047 5 = 16809984" "me2v 2047 6 = 33587200" "me2v 2046 7 = 67108864"
  by (simp_all add: me2v_def)

lemma even_word_iff: "(w :: u64) AND 1 = 0 \<longleftrightarrow> even (unat w)"
  using odd_unat_iff [of w] by (simp add: and_one_eq bit_0 mod_2_eq_odd)

lemma pv2pages_pages2pv:
  "unat (pv2pages (pages2pv pages)) = pv_round (unat pages)"
proof -
  let ?n = "unat pages"
  have cmp: "pages \<le> w \<longleftrightarrow> ?n \<le> unat w" "pages < w \<longleftrightarrow> ?n < unat w" for w
    by (simp_all add: word_le_nat_alt word_less_nat_alt)
  consider (same) "?n \<le> 32768 \<or> ?n < 65536 \<and> even ?n" | (big) "?n \<ge> pv_limit"
    | (mid) "\<not> (?n \<le> 32768 \<or> ?n < 65536 \<and> even ?n)" "?n < pv_limit" by linarith
  then show ?thesis
  proof cases
    case same
    then have "pages2pv pages = ucast pages"
      by (auto simp: pages2pv_def cmp even_word_iff)
    moreover have u: "unat (ucast pages :: u16) = ?n" using same by (subst unat_ucast_lt) auto
    moreover have "\<not> (odd ?n \<and> 32768 \<le> ?n)" using same by presburger
    ultimately have "pv2pages (pages2pv pages) = ucast (ucast pages :: u16)"
      by (simp add: pv2pages_def pv_packed_iff)
    moreover have "unat (ucast (ucast pages :: u16) :: u32) = ?n" using same u by (subst unat_ucast_lt) auto
    ultimately show ?thesis using same by (simp only: pv_round_def if_True)
  next
    case big
    then have "pages2pv pages = 65533"
      by (simp add: pages2pv_def cmp pv_limit_def)
    moreover have "pv2pages 65533 = 67108864" by (simp add: pv2pages_def me2v_def)
    ultimately show ?thesis using big by (simp add: pv_round_def pv_limit_def)
  next
    case mid
    let ?e = "pv_exponent ?n"
    have "pages2pv pages = v2me pages ?e"
      using mid by (auto simp add: pages2pv_def cmp even_word_iff pv_limit_def pv_exponent_def)
    moreover have "?e < 8" "?n \<le> 32768 + 2048 * 2 ^ (?e + 8)"
        "?n \<le> 32768 + 2047 * 2 ^ (?e + 8) \<or> ?e < 7"
      using mid(2) by (simp_all add: pv_exponent_def pv_limit_def)
    ultimately show ?thesis using mid v2me_pv2pages [of ?e pages] by (auto simp add: pv_round_def)
  qed
qed

lemma pv_exponent_le:
  assumes "n \<le> 32768 + 2048 * 2 ^ (e + 8)" "e < 8"
  shows "pv_exponent n \<le> e"
proof -
  have "e = 0 \<or> e = 1 \<or> e = 2 \<or> e = 3 \<or> e = 4 \<or> e = 5 \<or> e = 6 \<or> e = 7"
    using assms(2) by arith
  then show ?thesis using assms(1) by (elim disjE) (simp_all add: pv_exponent_def)
qed

lemma pv_exponent_range:
  "pv_exponent n < 8"
  "n \<le> pv_limit \<Longrightarrow> n \<le> 32768 + 2048 * 2 ^ (pv_exponent n + 8)"
  "32768 < n \<Longrightarrow> 128 * (2 ^ (pv_exponent n + 8) - 1) \<le> n"
  by (simp_all add: pv_exponent_def pv_limit_def)

lemma pv_round_mid:
  assumes "32768 < n" "n < pv_limit"
  defines "g \<equiv> 2 ^ (pv_exponent n + 8)"
  defines "r \<equiv> 32768 + (n - 32768 + g - 1) div g * g"
  shows "n \<le> r" "r < n + g" "r \<le> pv_limit" "r \<le> 32768 + 2048 * g" "g dvd r - 32768"
proof -
  have g: "0 < g" by (simp add: g_def)
  show "n \<le> r" "r < n + g" using nat_ceil_bounds [OF g, of "n - 32768"] assms(1) by (auto simp: r_def)
  show "g dvd r - 32768" by (simp add: r_def)
  have up: "r \<le> 32768 + k * g" if "n \<le> 32768 + k * g" for k
  proof -
    have "(n - 32768 + g - 1) div g \<le> (k * g + g - 1) div g" using that by (intro div_le_mono) auto
    also have "\<dots> = k" using g by (rule nat_ceil_exact)
    finally have "(n - 32768 + g - 1) div g * g \<le> k * g" by (rule mult_le_mono1)
    then show ?thesis by (simp add: r_def)
  qed
  show "r \<le> 32768 + 2048 * g" using up pv_exponent_range(2) [of n] assms(2) by (simp add: g_def)
  have "r \<le> 32768 + (2047 * 2 ^ (7 - pv_exponent n)) * g"
  proof (rule up)
    have "2 ^ (7 - pv_exponent n) * g = (2::nat) ^ 15"
      using pv_exponent_range(1) [of n] by (simp add: g_def flip: power_add)
    then show "n \<le> 32768 + (2047 * 2 ^ (7 - pv_exponent n)) * g"
      using assms(2) by (simp add: pv_limit_def mult.assoc)
  qed
  moreover have "2 ^ (7 - pv_exponent n) * g = (2::nat) ^ 15"
    using pv_exponent_range(1) [of n] by (simp add: g_def flip: power_add)
  ultimately show "r \<le> pv_limit" by (simp add: pv_limit_def mult.assoc)
qed

lemma pv_round_bounds:
  assumes "n \<le> pv_limit"
  shows "n \<le> pv_round n" "pv_round n \<le> n + n div 128"
proof -
  have mid: "n \<le> 32768 + (n - 32768 + g - 1) div g * g \<and>
             32768 + (n - 32768 + g - 1) div g * g \<le> n + n div 128"
    if "32768 < n" "n < pv_limit" "g = 2 ^ (pv_exponent n + 8)" for g
  proof -
    have "g - 1 \<le> n div 128"
      using pv_exponent_range(3) [OF that(1)] that(3) by (simp add: less_eq_div_iff_mult_less_eq mult.commute)
    then show ?thesis
      using pv_round_mid(1,2) [OF that(1,2)] that(3) by auto
  qed
  show "n \<le> pv_round n" "pv_round n \<le> n + n div 128"
    using assms mid by (auto simp: pv_round_def)
qed

lemma pv_round_idem:
  "pv_round (pv_round n) = pv_round n"
proof (cases "32768 < n \<and> n < pv_limit \<and> \<not> (n < 65536 \<and> even n)")
  case False
  then show ?thesis by (auto simp: pv_round_def pv_limit_def)
next
  case True
  define g :: nat where "g = 2 ^ (pv_exponent n + 8)"
  define r where "r = 32768 + (n - 32768 + g - 1) div g * g"
  have r: "pv_round n = r" using True by (auto simp add: pv_round_def r_def g_def)
  have b: "n \<le> r" "r \<le> pv_limit" "r \<le> 32768 + 2048 * g" "g dvd r - 32768"
    using pv_round_mid [of n] True by (simp_all add: r_def g_def)
  define h :: nat where "h = 2 ^ (pv_exponent r + 8)"
  have "pv_exponent r \<le> pv_exponent n"
    using b(3) pv_exponent_range(1) unfolding g_def by (intro pv_exponent_le) auto
  then have "h dvd g" unfolding h_def g_def by (intro le_imp_power_dvd) simp
  then obtain k where k: "r - 32768 = k * h" using b(4) by (metis dvd_def dvd_trans mult.commute)
  have "0 < h" by (simp add: h_def)
  then have "(k * h + h - 1) div h = k" by (rule nat_ceil_exact)
  moreover have "32768 + k * h = r" unfolding k [symmetric] using b(1) True by simp
  ultimately have "32768 + (r - 32768 + h - 1) div h * h = r" using k by simp
  then have "pv_round r = r" using b True by (auto simp: pv_round_def h_def)
  then show ?thesis using r by simp
qed

subsection \<open>Page numbers, logarithms and absolute values\<close>

lemma pgno_add_unat:
  assumes "base \<le> MAX_PAGENO"
  shows "unat (pgno_add base augend) = min (unat base + unat augend) (unat MAX_PAGENO)"
proof (cases "augend < MAX_PAGENO - base")
  case True
  then have *: "unat augend < unat MAX_PAGENO - unat base"
    using assms by (simp add: word_less_nat_alt unat_sub_le)
  then have "unat (base + augend) = unat base + unat augend"
    by (intro unat_add_lt) (simp add: MAX_PAGENO_def)
  then show ?thesis using True * by (simp add: pgno_add_def)
next
  case False
  then have "unat MAX_PAGENO - unat base \<le> unat augend"
    using assms by (simp add: word_less_nat_alt unat_sub_le not_less)
  then show ?thesis using False by (simp add: pgno_add_def)
qed

lemma pgno_sub_unat:
  assumes "MIN_PAGENO \<le> base"
  shows "unat (pgno_sub base subtrahend) = max (unat base - unat subtrahend) (unat MIN_PAGENO)"
proof (cases "subtrahend < base - MIN_PAGENO")
  case True
  then have *: "unat subtrahend < unat base - unat MIN_PAGENO"
    using assms by (simp add: word_less_nat_alt unat_sub_le)
  then have "unat (base - subtrahend) = unat base - unat subtrahend"
    by (intro unat_sub_le) (simp add: word_le_nat_alt)
  then show ?thesis using True * by (simp add: pgno_sub_def)
next
  case False
  then have "unat base - unat MIN_PAGENO \<le> unat subtrahend"
    using assms by (simp add: word_less_nat_alt unat_sub_le not_less)
  then show ?thesis using False by (simp add: pgno_sub_def)
qed

lemma log2n_powerof2_table:
  "list_all (\<lambda>n. log2n_powerof2 (push_bit n 1) = of_nat n) [0..<31]"
  by code_simp

lemma log2n_powerof2_exp: "n < 31 \<Longrightarrow> log2n_powerof2 (2 ^ n) = of_nat n"
  using log2n_powerof2_table by (simp add: list_all_iff push_bit_eq_mult)

lemma is_powerof2_exp: "n < 64 \<Longrightarrow> is_powerof2 (2 ^ n)"
  unfolding is_powerof2_def mask_eq_exp_minus_1 [symmetric]
  by (rule bit_eqI) (auto simp: bit_and_iff bit_mask_iff bit_exp_iff)

subsection \<open>Properties\<close>

lemma pv_round_big: "pv_limit \<le> n \<Longrightarrow> pv_round n = pv_limit"
  by (simp add: pv_round_def pv_limit_def)

text \<open>
  C29: packing a page count into 16 bits and unpacking it again loses no pages up to 67108864, the
  largest count that the code has: the result is at least the count and at most 1/128 larger.
  From there on the encoding saturates and gives 67108864 pages, so that every count above it is
  cut down to that.  Whatever the count, one that was unpacked once is packed exactly.
\<close>

theorem packed_page_count_rounds_up:
  "(unat pages \<le> 67108864 \<longrightarrow>
      unat pages \<le> unat (pv2pages (pages2pv pages)) \<and>
      unat (pv2pages (pages2pv pages)) \<le> unat pages + unat pages div 128) \<and>
   (67108864 \<le> unat pages \<longrightarrow> unat (pv2pages (pages2pv pages)) = 67108864) \<and>
   pv2pages (pages2pv (ucast (pv2pages (pages2pv pages)))) = pv2pages (pages2pv pages)"
proof -
  let ?r = "pv2pages (pages2pv pages)"
  have "unat (ucast ?r :: u64) = unat ?r"
    using unsigned_less [of ?r, where 'a = nat] by (intro unat_ucast_lt) simp
  then have "unat (pv2pages (pages2pv (ucast ?r))) = unat ?r"
    by (simp add: pv2pages_pages2pv pv_round_idem)
  moreover have "pv_limit = 67108864" by (simp add: pv_limit_def)
  ultimately show ?thesis
    using pv_round_bounds [of "unat pages"] pv_round_big [of "unat pages"]
    by (simp add: pv2pages_pages2pv word_unat_eq_iff)
qed

theorem packed_page_count_rounds_up_witness:
  "unat (100000 :: u64) \<le> unat (pv2pages (pages2pv 100000)) \<and>
   unat (pv2pages (pages2pv 100000)) \<le> unat (100000 :: u64) + unat (100000 :: u64) div 128 \<and>
   unat (pv2pages (pages2pv 1000000000)) = 67108864"
  using packed_page_count_rounds_up [of 100000] packed_page_count_rounds_up [of 1000000000] by simp

text \<open>
  Page arithmetic saturates: adding never leaves the range of page numbers and
  subtracting never goes below the first data page, whatever the second operand.
\<close>

lemma page_arithmetic_saturates:
  assumes "MIN_PAGENO \<le> base" "base \<le> MAX_PAGENO"
  shows "unat (pgno_add base n) = min (unat base + unat n) (unat MAX_PAGENO) \<and>
         unat (pgno_sub base n) = max (unat base - unat n) (unat MIN_PAGENO)"
  using assms by (simp add: pgno_add_unat pgno_sub_unat)

lemma page_arithmetic_saturates_witness:
  "unat (pgno_add 0x7FFFFFF0 0xFFFFFFFF) = min (unat (0x7FFFFFF0 :: u32) + unat (0xFFFFFFFF :: u32)) (unat MAX_PAGENO) \<and>
   unat (pgno_sub 0x7FFFFFF0 0xFFFFFFFF) = max (unat (0x7FFFFFF0 :: u32) - unat (0xFFFFFFFF :: u32)) (unat MIN_PAGENO)"
  by (rule page_arithmetic_saturates) (simp_all add: MIN_PAGENO_def MAX_PAGENO_def)

end
