(* ===== verification/Result_Codes.thy ===== *)
theory Result_Codes
  imports Prelude "HOL-Library.Sublist"
begin

text \<open>
  The result codes of libmdbx (\<open>enum MDBX_error_t\<close> of \<open>mdbx.h\<close>) and the
  functions that turn them into messages.  The C library's \<open>strerror\<close> is a
  parameter; every other string is the one of the source.
\<close>

subsection \<open>The codes\<close>

datatype mdbx_error =
    MDBX_SUCCESS
  | MDBX_RESULT_TRUE
  | MDBX_KEYEXIST
  | MDBX_NOTFOUND
  | MDBX_PAGE_NOTFOUND
  | MDBX_CORRUPTED
  | MDBX_PANIC
  | MDBX_VERSION_MISMATCH
  | MDBX_INVALID
  | MDBX_MAP_FULL
  | MDBX_DBS_FULL
  | MDBX_READERS_FULL
  | MDBX_TXN_FULL
  | MDBX_CURSOR_FULL
  | MDBX_PAGE_FULL
  | MDBX_UNABLE_EXTEND_MAPSIZE
  | MDBX_INCOMPATIBLE
  | MDBX_BAD_RSLOT
  | MDBX_BAD_TXN
  | MDBX_BAD_VALSIZE
  | MDBX_BAD_DBI
  | MDBX_PROBLEM
  | MDBX_BUSY
  | MDBX_EMULTIVAL
  | MDBX_EBADSIGN
  | MDBX_WANNA_RECOVERY
  | MDBX_EKEYMISMATCH
  | MDBX_TOO_LARGE
  | MDBX_THREAD_MISMATCH
  | MDBX_TXN_OVERLAPPING
  | MDBX_ENODATA
  | MDBX_EINVAL
  | MDBX_EACCESS
  | MDBX_ENOMEM
  | MDBX_EROFS
  | MDBX_ENOSYS
  | MDBX_EIO
  | MDBX_EPERM
  | MDBX_EINTR
  | MDBX_ENOFILE
  | MDBX_EREMOTE

text \<open>
  The numbers of the enumeration; those of the operating system are the Linux ones.
\<close>

fun error_code :: "mdbx_error \<Rightarrow> int" where
  "error_code MDBX_SUCCESS = 0"
| "error_code MDBX_RESULT_TRUE = -1"
| "error_code MDBX_KEYEXIST = -30799"
| "error_code MDBX_NOTFOUND = -30798"
| "error_code MDBX_PAGE_NOTFOUND = -30797"
| "error_code MDBX_CORRUPTED = -30796"
| "error_code MDBX_PANIC = -30795"
| "error_code MDBX_VERSION_MISMATCH = -30794"
| "error_code MDBX_INVALID = -30793"
| "error_code MDBX_MAP_FULL = -30792"
| "error_code MDBX_DBS_FULL = -30791"
| "error_code MDBX_READERS_FULL = -30790"
| "error_code MDBX_TXN_FULL = -30788"
| "error_code MDBX_CURSOR_FULL = -30787"
| "error_code MDBX_PAGE_FULL = -30786"
| "error_code MDBX_UNABLE_EXTEND_MAPSIZE = -30785"
| "error_code MDBX_INCOMPATIBLE = -30784"
| "error_code MDBX_BAD_RSLOT = -30783"
| "error_code MDBX_BAD_TXN = -30782"
| "error_code MDBX_BAD_VALSIZE = -30781"
| "error_code MDBX_BAD_DBI = -30780"
| "error_code MDBX_PROBLEM = -30779"
| "error_code MDBX_BUSY = -30778"
| "error_code MDBX_EMULTIVAL = -30421"
| "error_code MDBX_EBADSIGN = -30420"
| "error_code MDBX_WANNA_RECOVERY = -30419"
| "error_code MDBX_EKEYMISMATCH = -30418"
| "error_code MDBX_TOO_LARGE = -30417"
| "error_code MDBX_THREAD_MISMATCH = -30416"
| "error_code MDBX_TXN_OVERLAPPING = -30415"
| "error_code MDBX_ENODATA = 61"
| "error_code MDBX_EINVAL = 22"
| "error_code MDBX_EACCESS = 13"
| "error_code MDBX_ENOMEM = 12"
| "error_code MDBX_EROFS = 30"
| "error_code MDBX_ENOSYS = 38"
| "error_code MDBX_EIO = 5"
| "error_code MDBX_EPERM = 1"
| "error_code MDBX_EINTR = 4"
| "error_code MDBX_ENOFILE = 2"
| "error_code MDBX_EREMOTE = 15"

subsection \<open>Messages\<close>

definition liberr_tbl :: "string option list" where
  "liberr_tbl = [
     Some (''MDBX_KEYEXIST: Key/data pair already exists''),
     Some (''MDBX_NOTFOUND: No matching key/data pair found''),
     Some (''MDBX_PAGE_NOTFOUND: Requested page not found''),
     Some (''MDBX_CORRUPTED: Database is corrupted''),
     Some (''MDBX_PANIC: Environment had fatal error''),
     Some (''MDBX_VERSION_MISMATCH: DB version mismatch libmdbx''),
     Some (''MDBX_INVALID: File is not an MDBX file''),
     Some (''MDBX_MAP_FULL: Environment mapsize limit reached''),
     Some (''MDBX_DBS_FULL: Too many DBI-handles (maxdbs reached)''),
     Some (''MDBX_READERS_FULL: Too many readers (maxreaders reached)''),
     None,
     Some (''MDBX_TXN_FULL: Transaction has too many dirty pages, i.e transaction is too''
       @ '' big''),
     Some (''MDBX_CURSOR_FULL: Cursor stack limit reachedn - this usually indicates''
       @ '' corruption, i.e branch-pages loop''),
     Some (''MDBX_PAGE_FULL: Internal error - Page has no more space''),
     Some (''MDBX_UNABLE_EXTEND_MAPSIZE: Database engine was unable to extend mapping,''
       @ '' e.g. since address space is unavailable or busy, or Operation system not''
       @ '' supported such operations''),
     Some (''MDBX_INCOMPATIBLE: Environment or database is not compatible with the''
       @ '' requested operation or the specified flags''),
     Some (''MDBX_BAD_RSLOT: Invalid reuse of reader locktable slot, e.g. read-transaction''
       @ '' already run for current thread''),
     Some (''MDBX_BAD_TXN: Transaction is not valid for requested operation, e.g. had''
       @ '' errored and be must aborted, has a child, or is invalid''),
     Some (''MDBX_BAD_VALSIZE: Invalid size or alignment of key or data for target''
       @ '' database, either invalid subDB name''),
     Some (''MDBX_BAD_DBI: The specified DBI-handle is invalid or changed by another''
       @ '' thread/transaction''),
     Some (''MDBX_PROBLEM: Unexpected internal error, transaction should be aborted''),
     Some (''MDBX_BUSY: Another write transaction is running, or environment is already''
       @ '' used while opening with MDBX_EXCLUSIVE flag'')]"

definition mdbx_liberr2str :: "int \<Rightarrow> string option" where
  "mdbx_liberr2str errnum =
     (if errnum \<ge> error_code MDBX_KEYEXIST \<and> errnum \<le> error_code MDBX_BUSY
      then liberr_tbl ! nat (errnum - error_code MDBX_KEYEXIST)
      else if errnum = error_code MDBX_SUCCESS
      then Some (''MDBX_SUCCESS: Successful'')
      else if errnum = error_code MDBX_EMULTIVAL
      then Some (''MDBX_EMULTIVAL: The specified key has more than one associated value'')
      else if errnum = error_code MDBX_EBADSIGN
      then Some (''MDBX_EBADSIGN: Wrong signature of a runtime object(s), e.g. memory corruption''
         @ '' or double-free'')
      else if errnum = error_code MDBX_WANNA_RECOVERY
      then Some (''MDBX_WANNA_RECOVERY: Database should be recovered, but this could NOT be done''
         @ '' automatically for now since it opened in read-only mode'')
      else if errnum = error_code MDBX_EKEYMISMATCH
      then Some (''MDBX_EKEYMISMATCH: The given key value is mismatched to the current cursor''
         @ '' position'')
      else if errnum = error_code MDBX_TOO_LARGE
      then Some (''MDBX_TOO_LARGE: Database is too large for current system, e.g. could NOT be''
         @ '' mapped into RAM'')
      else if errnum = error_code MDBX_THREAD_MISMATCH
      then Some (''MDBX_THREAD_MISMATCH: A thread has attempted to use a not owned object, e.g.''
         @ '' a transaction that started by another thread'')
      else if errnum = error_code MDBX_TXN_OVERLAPPING
      then Some (''MDBX_TXN_OVERLAPPING: Overlapping read and write transactions for the current''
         @ '' thread'')
      else None)"

text \<open>Decimal printing, as \<open>snprintf\<close> does for \<open>%d\<close> and \<open>%zu\<close>.\<close>

fun show_nat :: "nat \<Rightarrow> string" where
  "show_nat n = (if n < 10 then [char_of (48 + n)] else show_nat (n div 10) @ [char_of (48 + n mod 10)])"

declare show_nat.simps [simp del]

definition show_int :: "int \<Rightarrow> string" where
  "show_int i = (if i < 0 then ''-'' @ show_nat (nat (- i)) else show_nat (nat i))"

definition mdbx_strerror_r :: "(int \<Rightarrow> nat \<Rightarrow> string option) \<Rightarrow> int \<Rightarrow> nat \<Rightarrow> string option" where
  "mdbx_strerror_r strerror_r errnum buflen =
     (let msg = mdbx_liberr2str errnum
      in if msg = None \<and> buflen > 0 \<and> buflen < 2147483647
         then (let msg = (if errnum > 0 then strerror_r errnum buflen else msg)
               in case msg of
                    None \<Rightarrow> Some (take (buflen - 1) (''error '' @ show_int errnum))
                  | Some m \<Rightarrow> Some m)
         else msg)"

definition mdbx_strerror :: "(int \<Rightarrow> string option) \<Rightarrow> int \<Rightarrow> string" where
  "mdbx_strerror strerror errnum =
     (let msg = mdbx_liberr2str errnum
      in case msg of
           Some m \<Rightarrow> m
         | None \<Rightarrow> (let msg = (if errnum > 0 then strerror errnum else None)
                    in case msg of
                         Some m \<Rightarrow> m
                       | None \<Rightarrow> take 30 (''error '' @ show_int errnum)))"

subsection \<open>The table is aligned with the enumeration\<close>

definition library_errors :: "(mdbx_error \<times> string) list" where
  "library_errors = [
     (MDBX_SUCCESS, ''MDBX_SUCCESS''),
     (MDBX_KEYEXIST, ''MDBX_KEYEXIST''),
     (MDBX_NOTFOUND, ''MDBX_NOTFOUND''),
     (MDBX_PAGE_NOTFOUND, ''MDBX_PAGE_NOTFOUND''),
     (MDBX_CORRUPTED, ''MDBX_CORRUPTED''),
     (MDBX_PANIC, ''MDBX_PANIC''),
     (MDBX_VERSION_MISMATCH, ''MDBX_VERSION_MISMATCH''),
     (MDBX_INVALID, ''MDBX_INVALID''),
     (MDBX_MAP_FULL, ''MDBX_MAP_FULL''),
     (MDBX_DBS_FULL, ''MDBX_DBS_FULL''),
     (MDBX_READERS_FULL, ''MDBX_READERS_FULL''),
     (MDBX_TXN_FULL, ''MDBX_TXN_FULL''),
     (MDBX_CURSOR_FULL, ''MDBX_CURSOR_FULL''),
     (MDBX_PAGE_FULL, ''MDBX_PAGE_FULL''),
     (MDBX_UNABLE_EXTEND_MAPSIZE, ''MDBX_UNABLE_EXTEND_MAPSIZE''),
     (MDBX_INCOMPATIBLE, ''MDBX_INCOMPATIBLE''),
     (MDBX_BAD_RSLOT, ''MDBX_BAD_RSLOT''),
     (MDBX_BAD_TXN, ''MDBX_BAD_TXN''),
     (MDBX_BAD_VALSIZE, ''MDBX_BAD_VALSIZE''),
     (MDBX_BAD_DBI, ''MDBX_BAD_DBI''),
     (MDBX_PROBLEM, ''MDBX_PROBLEM''),
     (MDBX_BUSY, ''MDBX_BUSY''),
     (MDBX_EMULTIVAL, ''MDBX_EMULTIVAL''),
     (MDBX_EBADSIGN, ''MDBX_EBADSIGN''),
     (MDBX_WANNA_RECOVERY, ''MDBX_WANNA_RECOVERY''),
     (MDBX_EKEYMISMATCH, ''MDBX_EKEYMISMATCH''),
     (MDBX_TOO_LARGE, ''MDBX_TOO_LARGE''),
     (MDBX_THREAD_MISMATCH, ''MDBX_THREAD_MISMATCH''),
     (MDBX_TXN_OVERLAPPING, ''MDBX_TXN_OVERLAPPING'')]"

lemma library_errors_described:
  "list_all (\<lambda>(e, name). case mdbx_liberr2str (error_code e) of
                            None \<Rightarrow> False | Some s \<Rightarrow> prefix (name @ '': '') s) library_errors"
  by code_simp

lemma error_code_library:
  "error_code e < -1 \<or> e = MDBX_SUCCESS \<Longrightarrow> e \<in> fst ` set library_errors"
  by (cases e) (simp_all add: library_errors_def)

text \<open>The codes of the enumeration are distinct numbers.\<close>

lemma error_code_inject: "error_code a = error_code b \<longleftrightarrow> a = b"
  by (cases a; cases b; simp)

lemma error_code_not_success [simp]: "error_code e = 0 \<longleftrightarrow> e = MDBX_SUCCESS"
  by (cases e) auto

subsection \<open>Properties\<close>

lemma library_error_message:
  "(e, name) \<in> set library_errors \<Longrightarrow>
   \<exists>s. mdbx_liberr2str (error_code e) = Some s \<and> prefix (name @ '': '') s"
  using library_errors_described by (force simp: list_all_iff split: option.splits)



end
