(* ===== verification/Page_List.thy ===== *)
theory Page_List
  imports Quicksort Radix_Sort Bin_Search Int_Utils Result_Codes
begin

text \<open>
  Page number lists (\<open>MDBX_PNL\<close>).  A list is a block of \<open>pgno_t\<close> cells: cell 0 holds
  the allocated length, cell 1 the size, the items follow (item \<open>i\<close> of the code's
  1-based array \<open>pl[i]\<close> is cell \<open>i + 1\<close>).  The second half of the block is the buffer
  of the radix sort.  Lists are descending (\<open>MDBX_PNL_ASCENDING\<close> is 0 in this build).
  Every read and store is bounds-checked by the model: an operation that strays
  outside its block evaluates to \<^const>\<open>None\<close>, so each lemma below that exhibits a
  result also shows the memory safety of the operation.
\<close>

declare One_nat_def [simp del]

type_synonym pnl = "pgno_t list"

subsection \<open>Allocation\<close>

definition MDBX_PGL_LIMIT :: u64 where "MDBX_PGL_LIMIT = 0x7FFFFFFF"
definition MDBX_PNL_INITIAL :: u64 where "MDBX_PNL_INITIAL = 1024 - 2 - 16 div 4"

definition pnl2bytes :: "u64 \<Rightarrow> u64" where
  "pnl2bytes sz = (let size = sz + sz in ceil_powerof2 (16 + 4 * (size + 2)) (1024 * 4) - 16)"

definition bytes2pnl :: "u64 \<Rightarrow> pgno_t" where
  "bytes2pnl bytes = (let size = bytes div 4; size = size - 2; size = drop_bit 1 size in ucast size)"

text \<open>
  The allocator of the C library: it takes a number of bytes and yields the cells of a
  block, whose length stands for \<open>malloc_usable_size\<close>, or no block.  Reallocation
  keeps the common prefix of the old block.
\<close>

type_synonym allocator = "u64 \<Rightarrow> pgno_t list option"

definition usable_size :: "pgno_t list \<Rightarrow> u64" where
  "usable_size b = of_nat (4 * length b)"

definition realloc :: "allocator \<Rightarrow> pgno_t list \<Rightarrow> u64 \<Rightarrow> pgno_t list option" where
  "realloc malloc old bytes =
     (case malloc bytes of None \<Rightarrow> None
      | Some b \<Rightarrow> Some (take (length b) old @ drop (length old) b))"

definition pnl_alloc :: "allocator \<Rightarrow> u64 \<Rightarrow> pnl option option" where
  "pnl_alloc malloc sz =
     (case malloc (pnl2bytes sz) of
        None \<Rightarrow> Some None
      | Some b \<Rightarrow> do {
          pl \<leftarrow> wr b 0 (bytes2pnl (usable_size b));
          pl \<leftarrow> wr pl 1 0;
          Some (Some pl)
        })"

definition pnl_shrink :: "allocator \<Rightarrow> pnl \<Rightarrow> pnl option" where
  "pnl_shrink malloc pl = do {
     pl \<leftarrow> wr pl 1 0;
     alloclen \<leftarrow> rd pl 0;
     if ucast alloclen > MDBX_PNL_INITIAL * 2 - 64 div 4
     then (case realloc malloc pl (pnl2bytes MDBX_PNL_INITIAL) of
             None \<Rightarrow> Some pl
           | Some b \<Rightarrow> wr b 0 (bytes2pnl (usable_size b)))
     else Some pl
   }"

definition pnl_reserve :: "allocator \<Rightarrow> pnl \<Rightarrow> u64 \<Rightarrow> (mdbx_error \<times> pnl) option" where
  "pnl_reserve malloc pl wanna = do {
     alloclen \<leftarrow> rd pl 0;
     let allocated = ucast alloclen;
     if allocated \<ge> wanna then Some (MDBX_SUCCESS, pl)
     else if wanna > MDBX_PGL_LIMIT then Some (MDBX_TXN_FULL, pl)
     else (let size = (if wanna + wanna - allocated < MDBX_PGL_LIMIT
                       then wanna + wanna - allocated else MDBX_PGL_LIMIT)
           in case realloc malloc pl (pnl2bytes size) of
                None \<Rightarrow> Some (MDBX_ENOMEM, pl)
              | Some b \<Rightarrow> do {
                  b \<leftarrow> wr b 0 (bytes2pnl (usable_size b));
                  Some (MDBX_SUCCESS, b)
                })
   }"

definition pnl_need :: "allocator \<Rightarrow> pnl \<Rightarrow> u64 \<Rightarrow> (mdbx_error \<times> pnl) option" where
  "pnl_need malloc pl num = do {
     size \<leftarrow> rd pl 1;
     alloclen \<leftarrow> rd pl 0;
     let wanna = ucast size + num;
     if ucast alloclen \<ge> wanna then Some (MDBX_SUCCESS, pl)
     else pnl_reserve malloc pl wanna
   }"

subsection \<open>Appending and inserting\<close>

definition pnl_xappend :: "pnl \<Rightarrow> pgno_t \<Rightarrow> pnl option" where
  "pnl_xappend pl pgno = do {
     size \<leftarrow> rd pl 1;
     pl \<leftarrow> wr pl 1 (size + 1);
     wr pl (unat (size + 1) + 1) pgno
   }"

text \<open>\<open>do { pnl[w--] = pgno; pgno += spilled ? 2 : 1; } while (--n)\<close>, \<open>k\<close> times.\<close>

fun append_range_loop :: "pnl \<Rightarrow> nat \<Rightarrow> u32 \<Rightarrow> pgno_t \<Rightarrow> pgno_t \<Rightarrow> pnl option" where
  "append_range_loop pnl 0 w pgno step = Some pnl"
| "append_range_loop pnl (Suc k) w pgno step = do {
     pnl \<leftarrow> wr pnl (unat w + 1) pgno;
     append_range_loop pnl k (w - 1) (pgno + step) step
   }"

definition pnl_append_range :: "allocator \<Rightarrow> bool \<Rightarrow> pnl \<Rightarrow> pgno_t \<Rightarrow> u32 \<Rightarrow> (mdbx_error \<times> pnl) option" where
  "pnl_append_range malloc spilled pl pgno n = do {
     (rc, pnl) \<leftarrow> pnl_need malloc pl (ucast n);
     if rc \<noteq> MDBX_SUCCESS then Some (rc, pnl)
     else do {
       size \<leftarrow> rd pnl 1;
       let w = size + n;
       pnl \<leftarrow> wr pnl 1 w;
       pnl \<leftarrow> append_range_loop pnl (if n = 0 then 2 ^ 32 else unat n) w pgno (if spilled then 2 else 1);
       Some (MDBX_SUCCESS, pnl)
     }
   }"

text \<open>\<open>while (r && MDBX_PNL_DISORDERED(pnl[r], pgno)) pnl[w--] = pnl[r--];\<close>\<close>

fun insert_shift :: "pnl \<Rightarrow> nat \<Rightarrow> nat \<Rightarrow> pgno_t \<Rightarrow> (pnl \<times> nat \<times> nat) option" where
  "insert_shift pnl 0 w pgno = Some (pnl, 0, w)"
| "insert_shift pnl (Suc r) w pgno = do {
     x \<leftarrow> rd pnl (Suc r + 1);
     if x \<le> pgno
     then do {
       pnl \<leftarrow> wr pnl (w + 1) x;
       insert_shift pnl r (w - 1) pgno
     }
     else Some (pnl, Suc r, w)
   }"

text \<open>\<open>for (pgno_t fill = pgno; w > r; --w) pnl[w] = fill++;\<close>\<close>

fun insert_fill :: "pnl \<Rightarrow> nat \<Rightarrow> nat \<Rightarrow> pgno_t \<Rightarrow> pnl option" where
  "insert_fill pnl r w fill =
     (if w > r
      then do {
        pnl \<leftarrow> wr pnl (w + 1) fill;
        insert_fill pnl r (w - 1) (fill + 1)
      }
      else Some pnl)"

declare insert_fill.simps [simp del]

definition pnl_insert_range :: "allocator \<Rightarrow> pnl \<Rightarrow> pgno_t \<Rightarrow> u32 \<Rightarrow> (mdbx_error \<times> pnl) option" where
  "pnl_insert_range malloc pl pgno n = do {
     (rc, pnl) \<leftarrow> pnl_need malloc pl (ucast n);
     if rc \<noteq> MDBX_SUCCESS then Some (rc, pnl)
     else do {
       size \<leftarrow> rd pnl 1;
       let w = size + n;
       pnl \<leftarrow> wr pnl 1 w;
       (pnl, r, w) \<leftarrow> insert_shift pnl (unat size) (unat w) pgno;
       pnl \<leftarrow> insert_fill pnl r w pgno;
       Some (MDBX_SUCCESS, pnl)
     }
   }"

subsection \<open>Checking, merging, sorting and searching\<close>

definition pnl_check :: "pnl \<Rightarrow> pgno_t \<Rightarrow> bool option" where
  "pnl_check pl limit = do {
     size \<leftarrow> rd pl 1;
     if size \<noteq> 0
     then do {
       least \<leftarrow> rd pl (unat size + 1);
       most \<leftarrow> rd pl 2;
       Some (if ucast size > MDBX_PGL_LIMIT then False
             else if least < MIN_PAGENO then False
             else if most \<ge> limit then False
             else True)
     }
     else Some True
   }"

text \<open>
  The merge from the ends.  The positions \<open>w\<close>, \<open>d\<close> and \<open>s\<close> are cell indices; \<open>dst[0]\<close>
  (cell 1) holds the sentinel while the loops run.
\<close>

fun xmerge_inner :: "pnl \<Rightarrow> nat \<Rightarrow> nat \<Rightarrow> pgno_t \<Rightarrow> (pnl \<times> nat \<times> nat) option" where
  "xmerge_inner dst w d sv = do {
     dv \<leftarrow> rd dst d;
     if sv > dv
     then (case d of
             0 \<Rightarrow> None
           | Suc d' \<Rightarrow> do {
               dst \<leftarrow> wr dst w dv;
               xmerge_inner dst (w - 1) d' sv
             })
     else Some (dst, w, d)
   }"

declare xmerge_inner.simps [simp del]

fun xmerge_outer :: "pnl \<Rightarrow> pnl \<Rightarrow> nat \<Rightarrow> nat \<Rightarrow> nat \<Rightarrow> pnl option" where
  "xmerge_outer dst src w d 0 = Some dst"
| "xmerge_outer dst src w d (Suc s) = do {
     sv \<leftarrow> rd src (Suc s + 1);
     (dst, w, d) \<leftarrow> xmerge_inner dst w d sv;
     dst \<leftarrow> wr dst w sv;
     xmerge_outer dst src (w - 1) d s
   }"

definition pnl_xmerge :: "pnl \<Rightarrow> pnl \<Rightarrow> pnl option" where
  "pnl_xmerge dst src = do {
     dsize \<leftarrow> rd dst 1;
     ssize \<leftarrow> rd src 1;
     let total = unat dsize + unat ssize;
     dst \<leftarrow> wr dst 1 (NOT 0);
     dst \<leftarrow> xmerge_outer dst src (total + 1) (unat dsize + 1) (unat ssize);
     wr dst 1 (of_nat total)
   }"

definition MDBX_RADIXSORT_THRESHOLD :: u32 where "MDBX_RADIXSORT_THRESHOLD = 333"

definition pnl_ordered :: "pgno_t \<Rightarrow> pgno_t \<Rightarrow> bool" where
  "pnl_ordered a b \<longleftrightarrow> a > b"

definition pnl_key :: "pgno_t \<Rightarrow> u32" where
  "pnl_key x = P_INVALID - x"

text \<open>
  The radix sort works in place on the items and in the cells after them: a block
  that ends before the buffer does leaves the run outside its memory.
\<close>

definition pgno_radixsort :: "pnl \<Rightarrow> nat \<Rightarrow> nat \<Rightarrow> (bool \<times> pnl) option" where
  "pgno_radixsort pl base len =
     (if length pl < base + len + len then None
      else case radixsort pnl_key (seg base len pl) (Some (seg (base + len) len pl)) of
             None \<Rightarrow> None
           | Some (ok, xs, tmp) \<Rightarrow> Some (ok, take base pl @ xs @ tmp @ drop (base + len + len) pl))"

definition pnl_sort :: "pnl \<Rightarrow> pnl option" where
  "pnl_sort pnl = do {
     size \<leftarrow> rd pnl 1;
     if size < MDBX_RADIXSORT_THRESHOLD
     then qs_sort pnl_ordered 2 (unat size + 2) pnl
     else do {
       (ok, pnl') \<leftarrow> pgno_radixsort pnl 2 (unat size);
       if \<not> ok then qs_sort pnl_ordered 2 (unat size + 2) pnl' else Some pnl'
     }
   }"

definition pnl_search :: "pnl \<Rightarrow> pgno_t \<Rightarrow> u32 option" where
  "pnl_search pnl pgno = do {
     size \<leftarrow> rd pnl 1;
     it \<leftarrow> bsearch pnl_ordered pnl 2 (unat size) pgno;
     Some (of_nat (it - 2 + 1))
   }"

definition pnl_exist :: "pnl \<Rightarrow> pgno_t \<Rightarrow> u32 option" where
  "pnl_exist pnl pgno = do {
     n \<leftarrow> pnl_search pnl pgno;
     size \<leftarrow> rd pnl 1;
     if n \<le> size
     then do {
       x \<leftarrow> rd pnl (unat n + 1);
       Some (if x = pgno then n else 0)
     }
     else Some 0
   }"

definition pnl_intersect :: "pnl \<Rightarrow> pgno_t \<Rightarrow> u32 \<Rightarrow> bool option" where
  "pnl_intersect pnl pgno npages = do {
     len \<leftarrow> rd pnl 1;
     let range_last = pgno + npages - 1;
     n \<leftarrow> pnl_search pnl range_last;
     if n \<le> len
     then do {
       x \<leftarrow> rd pnl (unat n + 1);
       Some (x \<ge> pgno)
     }
     else Some False
   }"

subsection \<open>The invariant of a list block\<close>

definition pnl_items :: "pnl \<Rightarrow> pgno_t list" where
  "pnl_items pl = seg 2 (unat (pl ! 1)) pl"

definition pnl_alloclen :: "pnl \<Rightarrow> nat" where
  "pnl_alloclen pl = unat (pl ! 0)"

definition pnl_wf :: "pnl \<Rightarrow> bool" where
  "pnl_wf pl \<longleftrightarrow> 2 \<le> length pl \<and> unat (pl ! 1) \<le> pnl_alloclen pl \<and> 2 * pnl_alloclen pl + 2 \<le> length pl"

text \<open>
  What the C library documents of its allocator: a block is at least as long as
  asked for; and blocks of more than 32 GiB are not handed out.
\<close>

definition malloc_ok :: "allocator \<Rightarrow> bool" where
  "malloc_ok malloc \<longleftrightarrow>
     (\<forall>n b. malloc n = Some b \<longrightarrow> unat n \<le> 4 * length b \<and> length b < 2 ^ 33)"

lemma pnl_wf_length: "pnl_wf pl \<Longrightarrow> 2 + unat (pl ! 1) \<le> length pl"
  by (simp add: pnl_wf_def)

lemma length_pnl_items [simp]: "pnl_wf pl \<Longrightarrow> length (pnl_items pl) = unat (pl ! 1)"
  unfolding pnl_items_def by (rule length_seg) (rule pnl_wf_length)

lemma pnl_items_nth: "pnl_wf pl \<Longrightarrow> i < unat (pl ! 1) \<Longrightarrow> pnl_items pl ! i = pl ! (i + 2)"
  using pnl_wf_length [of pl] by (simp add: pnl_items_def)

lemma pnl2bytes_unat:
  assumes "unat sz \<le> 0x7FFFFFFF"
  shows "8 * unat sz + 8 \<le> unat (pnl2bytes sz)" "unat (pnl2bytes sz) < 2 ^ 35"
proof -
  have a: "unat (sz + sz) = 2 * unat sz" using assms by (subst unat_add_lt) auto
  then have b: "unat (sz + sz + 2) = 2 * unat sz + 2" using assms by (subst unat_add_lt) auto
  then have c: "unat (4 * (sz + sz + 2)) = 8 * unat sz + 8" using assms by (subst unat_mult_lt) auto
  then have d: "unat (16 + 4 * (sz + sz + 2)) = 8 * unat sz + 24" using assms by (subst unat_add_lt) auto
  define x where "x = ceil_powerof2 (16 + 4 * (sz + sz + 2)) (2 ^ 12)"
  have x: "unat x = (8 * unat sz + 24 + 2 ^ 12 - 1) div 2 ^ 12 * 2 ^ 12"
    unfolding x_def using assms by (subst ceil_powerof2_unat) (simp_all only: d, simp_all)
  have x2: "8 * unat sz + 24 \<le> unat x" "unat x < 8 * unat sz + 24 + 2 ^ 12"
    unfolding x by (rule nat_ceil_bounds, simp)+
  have "unat (pnl2bytes sz) = unat x - 16"
    unfolding pnl2bytes_def Let_def using x2(1) by (subst unat_sub_le) (auto simp: x_def word_le_nat_alt)
  then show "8 * unat sz + 8 \<le> unat (pnl2bytes sz)" "unat (pnl2bytes sz) < 2 ^ 35"
    using x2 assms by auto
qed

lemma bytes2pnl_usable:
  assumes "2 \<le> length b" "length b < 2 ^ 33"
  shows "unat (bytes2pnl (usable_size b)) = (length b - 2) div 2"
proof -
  have u: "unat (usable_size b) = 4 * length b"
    unfolding usable_size_def using assms(2) by (intro unat_of_nat_lt) simp
  have d: "unat (usable_size b div 4) = length b" by (simp add: unat_div u)
  then have "unat (usable_size b div 4 - 2) = length b - 2"
    using assms(1) by (subst unat_sub_le) (auto simp: word_le_nat_alt)
  then have "unat (drop_bit 1 (usable_size b div 4 - 2)) = (length b - 2) div 2"
    by (simp only: unat_drop_bit_div power_one_right)
  then show ?thesis
    unfolding bytes2pnl_def Let_def using assms(2) by (subst unat_ucast_lt) auto
qed

lemma malloc_okD:
  assumes "malloc_ok malloc" "malloc (pnl2bytes sz) = Some b" "unat sz \<le> 0x7FFFFFFF"
  shows "2 * unat sz + 2 \<le> length b" "length b < 2 ^ 33"
  using assms pnl2bytes_unat(1) [of sz] unfolding malloc_ok_def by fastforce+

lemma pnl_wf_fresh:
  assumes "2 \<le> length b" "length b < 2 ^ 33" "unat (b ! 1) \<le> (length b - 2) div 2"
  shows "pnl_wf (b[0 := bytes2pnl (usable_size b)])"
  using assms by (cases b) (auto simp add: pnl_wf_def pnl_alloclen_def bytes2pnl_usable)

lemma realloc_keeps:
  assumes "realloc malloc old bytes = Some b" "i < length old" "i < length b"
  shows "b ! i = old ! i"
  using assms by (auto simp: realloc_def nth_append split: option.splits)

lemma realloc_length:
  "realloc malloc old bytes = Some b \<Longrightarrow> \<exists>c. malloc bytes = Some c \<and> length b = length c"
  by (auto simp: realloc_def split: option.splits)

lemma pnl_items_realloc:
  assumes "pnl_wf pl" "realloc malloc pl bytes = Some b" "2 + unat (pl ! 1) \<le> length b"
  shows "pnl_items (b[0 := v]) = pnl_items pl" "b ! 1 = pl ! 1"
proof -
  show 1: "b ! 1 = pl ! 1"
    using assms by (intro realloc_keeps) (auto simp: pnl_wf_def)
  show "pnl_items (b[0 := v]) = pnl_items pl"
    using assms 1 pnl_wf_length [OF assms(1)]
    by (intro nth_equalityI) (auto simp: pnl_items_def realloc_keeps)
qed

subsection \<open>Growing keeps the items\<close>

lemma pnl_alloc_correct:
  assumes "malloc_ok malloc" "unat sz \<le> 0x7FFFFFFF"
  obtains "pnl_alloc malloc sz = Some None"
  | pl where "pnl_alloc malloc sz = Some (Some pl)" "pnl_wf pl" "pnl_items pl = []"
      "unat sz \<le> pnl_alloclen pl"
proof (cases "malloc (pnl2bytes sz)")
  case None
  then show ?thesis using that(1) by (simp add: pnl_alloc_def)
next
  case (Some b)
  note len = malloc_okD [OF assms(1) Some assms(2)]
  have ne: "b \<noteq> []" "1 < length b" using len(1) by auto
  let ?pl = "b[0 := bytes2pnl (usable_size b), 1 := 0]"
  have "pnl_alloc malloc sz = Some (Some ?pl)"
    using Some len by (auto simp add: pnl_alloc_def wr_def)
  moreover have "pnl_wf ?pl" "pnl_items ?pl = []" "unat sz \<le> pnl_alloclen ?pl"
    using len ne by (simp_all add: pnl_wf_def pnl_alloclen_def bytes2pnl_usable pnl_items_def seg_def)
  ultimately show ?thesis by (rule that(2))
qed

lemma pnl_reserve_correct:
  assumes "malloc_ok malloc" "pnl_wf pl"
  obtains (ok) pl' where "pnl_reserve malloc pl wanna = Some (MDBX_SUCCESS, pl')" "pnl_wf pl'"
      "pnl_items pl' = pnl_items pl" "pl' ! 1 = pl ! 1" "unat wanna \<le> pnl_alloclen pl'"
  | (fail) rc where "pnl_reserve malloc pl wanna = Some (rc, pl)" "rc \<in> {MDBX_ENOMEM, MDBX_TXN_FULL}"
      "pnl_alloclen pl < unat wanna"
proof -
  define allocated where "allocated = (ucast (pl ! 0) :: u64)"
  have al: "unat allocated = pnl_alloclen pl" "unat allocated < 2 ^ 32"
    using unsigned_less [of "pl ! 0", where 'a = nat] by (simp_all add: allocated_def pnl_alloclen_def unat_ucast_lt)
  have rd0: "rd pl 0 = Some (pl ! 0)" using assms(2) by (auto simp add: pnl_wf_def rd_def)
  consider (enough) "allocated \<ge> wanna" | (full) "\<not> allocated \<ge> wanna" "wanna > MDBX_PGL_LIMIT"
    | (grow) "\<not> allocated \<ge> wanna" "\<not> wanna > MDBX_PGL_LIMIT" by blast
  then show ?thesis
  proof cases
    case enough
    then show ?thesis
      using ok [of pl] assms(2) al rd0 by (simp add: pnl_reserve_def allocated_def [symmetric] word_le_nat_alt)
  next
    case full
    then show ?thesis
      using fail [of MDBX_TXN_FULL] al rd0
      by (simp add: pnl_reserve_def allocated_def [symmetric] word_le_nat_alt not_le)
  next
    case grow
    define sz where "sz = (if wanna + wanna - allocated < MDBX_PGL_LIMIT then wanna + wanna - allocated else MDBX_PGL_LIMIT)"
    have w: "unat wanna \<le> 0x7FFFFFFF" "unat allocated < unat wanna"
      using grow by (auto simp: MDBX_PGL_LIMIT_def word_le_nat_alt not_le not_less)
    have "unat (wanna + wanna) = 2 * unat wanna" using w by (subst unat_add_lt) auto
    then have "unat (wanna + wanna - allocated) = 2 * unat wanna - unat allocated"
      using w by (subst unat_sub_le) (auto simp: word_le_nat_alt)
    then have sz: "unat wanna \<le> unat sz" "unat sz \<le> 0x7FFFFFFF"
      using w by (auto simp: sz_def MDBX_PGL_LIMIT_def word_less_nat_alt)
    have eq: "pnl_reserve malloc pl wanna =
        (case realloc malloc pl (pnl2bytes sz) of
           None \<Rightarrow> Some (MDBX_ENOMEM, pl)
         | Some b \<Rightarrow> wr b 0 (bytes2pnl (usable_size b)) \<bind> (\<lambda>b. Some (MDBX_SUCCESS, b)))"
      unfolding pnl_reserve_def rd0 bind.simps Let_def allocated_def [symmetric] sz_def [symmetric]
      using grow by (simp only: if_False)
    show ?thesis
    proof (cases "realloc malloc pl (pnl2bytes sz)")
      case None
      then show ?thesis
        using eq w al by (intro fail [of MDBX_ENOMEM]) simp_all
    next
      case (Some b)
      obtain c where "malloc (pnl2bytes sz) = Some c" "length b = length c"
        using realloc_length [OF Some] by blast
      then have len: "2 * unat sz + 2 \<le> length b" "length b < 2 ^ 33"
        using malloc_okD [OF assms(1) _ sz(2)] by auto
      have ne: "b \<noteq> []" using len(1) by auto
      have size: "unat (pl ! 1) \<le> unat sz"
        using assms(2) al w sz by (simp add: pnl_wf_def)
      let ?b = "b[0 := bytes2pnl (usable_size b)]"
      have "pnl_reserve malloc pl wanna = Some (MDBX_SUCCESS, ?b)"
        using eq Some len by (auto simp add: wr_def)
      moreover note items = pnl_items_realloc [OF assms(2) Some]
      moreover have "pnl_wf ?b" using len size items by (intro pnl_wf_fresh) auto
      moreover have "unat wanna \<le> pnl_alloclen ?b"
        using len sz ne by (simp add: pnl_alloclen_def bytes2pnl_usable)
      moreover have "?b ! 1 = pl ! 1" using items len size by simp
      ultimately show ?thesis using len size by (intro ok [of ?b]) auto
    qed
  qed
qed

lemma pnl_cells:
  assumes "pnl_wf pl"
  shows "rd pl 0 = Some (pl ! 0)" "rd pl 1 = Some (pl ! 1)" "wr pl 1 v = Some (pl[1 := v])"
  using assms by (auto simp: pnl_wf_def rd_def wr_def)

lemma pnl_need_correct:
  assumes "malloc_ok malloc" "pnl_wf pl" "unat num < 2 ^ 32"
  obtains (ok) pl' where "pnl_need malloc pl num = Some (MDBX_SUCCESS, pl')" "pnl_wf pl'"
      "pnl_items pl' = pnl_items pl" "pl' ! 1 = pl ! 1" "unat (pl ! 1) + unat num \<le> pnl_alloclen pl'"
  | (fail) rc where "pnl_need malloc pl num = Some (rc, pl)" "rc \<in> {MDBX_ENOMEM, MDBX_TXN_FULL}"
      "pnl_alloclen pl < unat (pl ! 1) + unat num"
proof -
  define wanna where "wanna = (ucast (pl ! 1) :: u64) + num"
  have size: "unat (ucast (pl ! 1) :: u64) = unat (pl ! 1)" "unat (pl ! 1) < 2 ^ 32"
    using unsigned_less [of "pl ! 1", where 'a = nat] by (simp_all add: unat_ucast_lt)
  then have w: "unat wanna = unat (pl ! 1) + unat num"
    unfolding wanna_def using assms(3) by (subst unat_add_lt) auto
  have al: "unat (ucast (pl ! 0) :: u64) = pnl_alloclen pl"
    using unsigned_less [of "pl ! 0", where 'a = nat] by (simp add: pnl_alloclen_def unat_ucast_lt)
  show ?thesis
  proof (cases "ucast (pl ! 0) \<ge> wanna")
    case True
    then have "pnl_need malloc pl num = Some (MDBX_SUCCESS, pl)"
      using pnl_cells [OF assms(2)] by (simp add: pnl_need_def wanna_def)
    moreover have "unat (pl ! 1) + unat num \<le> pnl_alloclen pl"
      using True al w by (simp add: word_le_nat_alt)
    ultimately show ?thesis using assms(2) by (intro ok [of pl]) auto
  next
    case False
    then have eq: "pnl_need malloc pl num = pnl_reserve malloc pl wanna"
      using pnl_cells [OF assms(2)] by (simp add: pnl_need_def wanna_def)
    show ?thesis
      using assms(1,2)
    proof (cases rule: pnl_reserve_correct [of malloc pl wanna])
      case (ok pl')
      then show ?thesis using that(1) [of pl'] eq w by simp
    next
      case (fail rc)
      then show ?thesis using that(2) [of rc] eq w by simp
    qed
  qed
qed

subsection \<open>Appending\<close>

text \<open>Setting the size after the new cells are written.\<close>

lemma pnl_wf_resize:
  assumes "pnl_wf pl" "length pl' = length pl" "pl' ! 0 = pl ! 0" "unat (pl' ! 1) \<le> pnl_alloclen pl"
  shows "pnl_wf pl'"
  using assms by (simp add: pnl_wf_def pnl_alloclen_def)

lemma pnl_xappend_correct:
  assumes "pnl_wf pl" "unat (pl ! 1) < pnl_alloclen pl"
  obtains pl' where "pnl_xappend pl pgno = Some pl'" "pnl_wf pl'" "pnl_items pl' = pnl_items pl @ [pgno]"
    "pnl_alloclen pl' = pnl_alloclen pl"
proof -
  define n where "n = unat (pl ! 1)"
  have n: "n < pnl_alloclen pl" "pnl_alloclen pl < 2 ^ 32" "2 * pnl_alloclen pl + 2 \<le> length pl"
    using assms unsigned_less [of "pl ! 0", where 'a = nat]
    by (simp_all add: n_def pnl_wf_def pnl_alloclen_def)
  have n1: "unat (pl ! 1 + 1) = n + 1" using n by (subst unat_add_lt) (auto simp: n_def)
  let ?pl = "pl[1 := pl ! 1 + 1, n + 1 + 1 := pgno]"
  have "pnl_xappend pl pgno = Some ?pl"
    using pnl_cells [OF assms(1)] n n1 by (simp add: pnl_xappend_def wr_in)
  moreover have "pnl_wf ?pl"
    using n n1 by (intro pnl_wf_resize [OF assms(1)]) auto
  moreover have "pnl_items ?pl = pnl_items pl @ [pgno]"
    using n n1 by (intro nth_equalityI) (auto simp: pnl_items_def nth_append nth_list_update n_def [symmetric] less_Suc_eq)
  moreover have "pnl_alloclen ?pl = pnl_alloclen pl" by (simp add: pnl_alloclen_def)
  ultimately show ?thesis by (rule that)
qed

lemma append_range_loop_correct:
  assumes "k \<le> unat w" "unat w + 1 < length pnl"
  shows "\<exists>pnl'. append_range_loop pnl k w pgno step = Some pnl' \<and> length pnl' = length pnl \<and>
           (\<forall>i < length pnl. pnl' ! i = (if unat w + 1 < i + k \<and> i \<le> unat w + 1
                                       then pgno + of_nat (unat w + 1 - i) * step else pnl ! i))"
  using assms
proof (induction k arbitrary: pnl w pgno)
  case 0
  then show ?case by auto
next
  case (Suc k)
  have w1: "unat (w - 1) = unat w - 1"
    using Suc.prems(1) by (subst unat_sub_le) (auto simp: word_le_nat_alt)
  let ?pnl = "pnl[unat w + 1 := pgno]"
  have "\<exists>pnl'. append_range_loop ?pnl k (w - 1) (pgno + step) step = Some pnl' \<and> length pnl' = length ?pnl \<and>
           (\<forall>i < length ?pnl. pnl' ! i = (if unat (w - 1) + 1 < i + k \<and> i \<le> unat (w - 1) + 1
                                       then pgno + step + of_nat (unat (w - 1) + 1 - i) * step else ?pnl ! i))"
    using Suc.prems w1 by (intro Suc.IH) auto
  then obtain pnl' where l: "append_range_loop ?pnl k (w - 1) (pgno + step) step = Some pnl'"
    "length pnl' = length pnl"
    and nth: "\<And>i. i < length pnl \<Longrightarrow> pnl' ! i = (if unat w < i + k \<and> i \<le> unat w
                then pgno + step + of_nat (unat w - i) * step else ?pnl ! i)"
    using Suc.prems(1) unfolding w1 by auto
  have "append_range_loop pnl (Suc k) w pgno step = Some pnl'"
    using Suc.prems(2) l by (simp add: wr_in)
  moreover have "pnl' ! i = (if unat w + 1 < i + Suc k \<and> i \<le> unat w + 1
                   then pgno + of_nat (unat w + 1 - i) * step else pnl ! i)" if "i < length pnl" for i
  proof -
    consider "i = unat w + 1" | "i \<le> unat w" | "unat w + 1 < i" by linarith
    then show ?thesis
    proof cases
      case 2
      then have "unat w + 1 - i = Suc (unat w - i)" by simp
      then have "pgno + of_nat (unat w + 1 - i) * step = pgno + step + of_nat (unat w - i) * step"
        by (simp only: of_nat_Suc distrib_right mult_1 add.assoc)
      then show ?thesis using 2 nth [OF that] by simp
    qed (use nth [OF that] Suc.prems in auto)
  qed
  ultimately show ?case using l(2) by auto
qed

definition down_range :: "pgno_t \<Rightarrow> nat \<Rightarrow> pgno_t \<Rightarrow> pgno_t list" where
  "down_range pgno n step = map (\<lambda>i. pgno + of_nat (n - 1 - i) * step) [0..<n]"

lemma down_range_nth: "i < n \<Longrightarrow> down_range pgno n step ! i = pgno + of_nat (n - 1 - i) * step"
  by (simp add: down_range_def)

lemma length_down_range [simp]: "length (down_range pgno n step) = n"
  by (simp add: down_range_def)

lemma pnl_resized:
  assumes "pnl_wf pl" "unat (pl ! 1) + unat n \<le> pnl_alloclen pl"
  shows "unat (pl ! 1 + n) = unat (pl ! 1) + unat n"
    and "2 * (unat (pl ! 1) + unat n) + 2 \<le> length pl"
proof -
  show "unat (pl ! 1 + n) = unat (pl ! 1) + unat n"
    using assms unsigned_less [of "pl ! 0", where 'a = nat]
    by (intro unat_add_lt) (simp add: pnl_alloclen_def)
  show "2 * (unat (pl ! 1) + unat n) + 2 \<le> length pl"
    using assms by (simp add: pnl_wf_def)
qed

lemma unat_ucast_u32 [simp]: "unat (ucast (n :: u32) :: u64) = unat n"
  using unsigned_less [of n, where 'a = nat] by (intro unat_ucast_lt) simp

lemma pnl_append_range_correct:
  assumes "malloc_ok malloc" "pnl_wf pl" "n \<noteq> 0"
  obtains (ok) pl' where "pnl_append_range malloc spilled pl pgno n = Some (MDBX_SUCCESS, pl')" "pnl_wf pl'"
      "pnl_items pl' = pnl_items pl @ down_range pgno (unat n) (if spilled then 2 else 1)"
  | (fail) rc where "pnl_append_range malloc spilled pl pgno n = Some (rc, pl)" "rc \<in> {MDBX_ENOMEM, MDBX_TXN_FULL}"
proof -
  have "unat (ucast n :: u64) < 2 ^ 32"
    using unsigned_less [of n, where 'a = nat] by simp
  with assms(1,2) show ?thesis
  proof (cases rule: pnl_need_correct [of malloc pl "ucast n"])
    case (fail rc)
    then show ?thesis by (intro that(2) [of rc]) (auto simp: pnl_append_range_def)
  next
    case (ok pl1)
    note sz = pnl_resized [OF ok(2), of n]
    have sz: "unat (pl1 ! 1 + n) = unat (pl1 ! 1) + unat n" "2 * (unat (pl1 ! 1) + unat n) + 2 \<le> length pl1"
      using pnl_resized [OF ok(2), of n] ok(4,5) by simp_all
    define m where "m = unat (pl1 ! 1)"
    define w where "w = pl1 ! 1 + n"
    define step :: u32 where "step = (if spilled then 2 else 1)"
    have w: "unat w = m + unat n" "m + unat n + 2 \<le> length pl1" using sz by (auto simp: w_def m_def)
    let ?pl = "pl1[1 := w]"
    obtain pl2 where l: "append_range_loop ?pl (unat n) w pgno step = Some pl2" "length pl2 = length pl1"
      and nth: "\<And>i. i < length pl1 \<Longrightarrow> pl2 ! i = (if unat w + 1 < i + unat n \<and> i \<le> unat w + 1
                   then pgno + of_nat (unat w + 1 - i) * step else ?pl ! i)"
      using append_range_loop_correct [of "unat n" w ?pl pgno step] w by auto
    have "unat n \<noteq> 0" using assms(3) by (simp add: unat_eq_zero)
    then have eq: "pnl_append_range malloc spilled pl pgno n = Some (MDBX_SUCCESS, pl2)"
      using ok(1) pnl_cells [OF ok(2)] assms(3) l(1)
      by (simp add: pnl_append_range_def w_def [symmetric] step_def [symmetric] Let_def)
    have "pl1 \<noteq> []" "1 < length pl1" using w(2) \<open>unat n \<noteq> 0\<close> by auto
    then have head: "pl2 ! 0 = pl1 ! 0" "pl2 ! 1 = w"
      using nth [of 0] nth [of 1] w(1) by simp_all
    have wf: "pnl_wf pl2"
      using l(2) head ok(4,5) w by (intro pnl_wf_resize [OF ok(2)]) (auto simp: m_def)
    have "pnl_items pl2 = pnl_items pl1 @ down_range pgno (unat n) step"
    proof (rule nth_equalityI)
      show "length (pnl_items pl2) = length (pnl_items pl1 @ down_range pgno (unat n) step)"
        using wf ok(2) head w by (simp add: m_def)
      fix i assume "i < length (pnl_items pl2)"
      then have i: "i < m + unat n" using wf head w by simp
      then have c: "pnl_items pl2 ! i = pl2 ! (i + 2)" "i + 2 < length pl1"
        using wf head w by (simp_all add: pnl_items_nth)
      show "pnl_items pl2 ! i = (pnl_items pl1 @ down_range pgno (unat n) step) ! i"
      proof (cases "i < m")
        case True
        then show ?thesis using c nth [of "i + 2"] w ok(2) by (simp add: nth_append pnl_items_nth m_def)
      next
        case False
        then have "unat n - 1 - (i - m) = unat w + 1 - (i + 2)" using i w by simp
        moreover have "(pnl_items pl1 @ down_range pgno (unat n) step) ! i =
                       pgno + of_nat (unat n - 1 - (i - m)) * step"
          using False i ok(2) down_range_nth [of "i - m" "unat n" pgno step]
          by (simp add: nth_append m_def)
        ultimately show ?thesis using False i c nth [of "i + 2"] w by simp
      qed
    qed
    then show ?thesis using that(1) [of pl2] eq wf ok(3) by (simp add: step_def)
  qed
qed

subsection \<open>Inserting a range\<close>

lemma insert_shift_correct:
  assumes "r \<le> w" "w + 1 < length pnl"
  obtains pnl' r' where "insert_shift pnl r w pgno = Some (pnl', r', r' + (w - r))" "r' \<le> r"
    "length pnl' = length pnl" "r' = 0 \<or> pgno < pnl ! (r' + 1)"
    "\<And>i. r' + 1 < i \<Longrightarrow> i \<le> r + 1 \<Longrightarrow> pnl ! i \<le> pgno"
    "\<And>i. i < length pnl \<Longrightarrow> pnl' ! i = (if r' + (w - r) + 1 < i \<and> i \<le> w + 1 then pnl ! (i - (w - r)) else pnl ! i)"
  using assms
proof (induction r arbitrary: pnl w thesis)
  case 0
  show ?case by (rule "0.prems"(1) [of pnl 0]) auto
next
  case (Suc r)
  have rd: "rd pnl (Suc r + 1) = Some (pnl ! (r + 2))" using Suc.prems(2,3) by (simp add: rd_in One_nat_def)
  show ?case
  proof (cases "pnl ! (r + 2) \<le> pgno")
    case False
    show ?thesis
      by (rule Suc.prems(1) [of pnl "Suc r"]) (use False rd Suc.prems(2,3) in \<open>auto simp: One_nat_def\<close>)
  next
    case True
    let ?pnl = "pnl[w + 1 := pnl ! (r + 2)]"
    have ih: "r \<le> w - 1" "w - 1 + 1 < length ?pnl" using Suc.prems(2,3) by auto
    obtain pnl' r' where IH: "insert_shift ?pnl r (w - 1) pgno = Some (pnl', r', r' + (w - 1 - r))" "r' \<le> r"
      "length pnl' = length ?pnl" "r' = 0 \<or> pgno < ?pnl ! (r' + 1)"
      "\<And>i. r' + 1 < i \<Longrightarrow> i \<le> r + 1 \<Longrightarrow> ?pnl ! i \<le> pgno"
      "\<And>i. i < length ?pnl \<Longrightarrow> pnl' ! i = (if r' + (w - 1 - r) + 1 < i \<and> i \<le> w - 1 + 1 then ?pnl ! (i - (w - 1 - r)) else ?pnl ! i)"
      using Suc.IH [OF _ ih] by blast
    have same: "?pnl ! i = pnl ! i" if "i \<le> r + 1" for i using that Suc.prems(2) by simp
    show ?thesis
    proof (rule Suc.prems(1) [of pnl' r'])
      show "insert_shift pnl (Suc r) w pgno = Some (pnl', r', r' + (w - Suc r))"
        using IH(1) rd True Suc.prems(3) by (simp add: wr_in)
      show "r' \<le> Suc r" "length pnl' = length pnl" using IH(2,3) by simp_all
      show "r' = 0 \<or> pgno < pnl ! (r' + 1)" using IH(4) same [of "r' + 1"] IH(2) by simp
      show "pnl ! i \<le> pgno" if "r' + 1 < i" "i \<le> Suc r + 1" for i
        using IH(5) [OF that(1)] same [of i] True that(2) by (cases "i = r + 2") auto
      show "pnl' ! i = (if r' + (w - Suc r) + 1 < i \<and> i \<le> w + 1 then pnl ! (i - (w - Suc r)) else pnl ! i)"
        if "i < length pnl" for i
      proof -
        have d: "w - 1 - r = w - Suc r" "w - 1 + 1 = w" using Suc.prems(2) by simp_all
        consider "i = w + 1" | "r' + (w - Suc r) + 1 < i" "i \<le> w" | "i \<le> r' + (w - Suc r) + 1" "i \<noteq> w + 1" | "w + 1 < i"
          by linarith
        then show ?thesis
        proof cases
          case 1
          then have "\<not> i \<le> w - 1 + 1" "i - (w - Suc r) = r + 2" "r' + (w - Suc r) + 1 < i"
            using d IH(2) Suc.prems(2) by (auto simp: One_nat_def)
          then show ?thesis using 1 IH(6) [of i] that Suc.prems(3) by simp
        next
          case 2
          then have "i - (w - Suc r) \<le> r + 1" using Suc.prems(2) by simp
          then show ?thesis using 2 IH(6) [of i] that d same [of "i - (w - Suc r)"] by simp
        qed (use IH(6) [of i] that d in auto)
      qed
    qed
  qed
qed

lemma insert_fill_correct:
  assumes "w + 1 < length pnl"
  shows "\<exists>pnl'. insert_fill pnl r w fill = Some pnl' \<and> length pnl' = length pnl \<and>
           (\<forall>i < length pnl. pnl' ! i = (if r + 1 < i \<and> i \<le> w + 1 then fill + of_nat (w + 1 - i) else pnl ! i))"
  using assms
proof (induction pnl r w fill rule: insert_fill.induct)
  case (1 pnl r w fill)
  show ?case
  proof (cases "w > r")
    case False
    then show ?thesis by (subst insert_fill.simps) auto
  next
    case True
    let ?pnl = "pnl[w + 1 := fill]"
    have w: "w - 1 + 1 = w" using True by simp
    obtain pnl' where IH: "insert_fill ?pnl r (w - 1) (fill + 1) = Some pnl'" "length pnl' = length ?pnl"
      "\<And>i. i < length ?pnl \<Longrightarrow> pnl' ! i = (if r + 1 < i \<and> i \<le> w then fill + 1 + of_nat (w - i) else ?pnl ! i)"
      using "1.IH" [OF True wr_in] "1.prems" True unfolding w by auto
    have "insert_fill pnl r w fill = Some pnl'"
      using IH(1) True "1.prems" by (subst insert_fill.simps) (simp add: wr_in)
    moreover have "pnl' ! i = (if r + 1 < i \<and> i \<le> w + 1 then fill + of_nat (w + 1 - i) else pnl ! i)"
      if "i < length pnl" for i
    proof -
      consider "i = w + 1" | "i \<le> w" | "w + 1 < i" by linarith
      then show ?thesis
      proof cases
        case 2
        then have "w + 1 - i = Suc (w - i)" by simp
        then have "fill + of_nat (w + 1 - i) = fill + 1 + of_nat (w - i)"
          by (simp only: of_nat_Suc add.assoc)
        then show ?thesis using 2 IH(3) [of i] that by simp
      qed (use IH(3) [of i] that True in auto)
    qed
    ultimately show ?thesis using IH(2) by auto
  qed
qed

lemma pnl_insert_range_correct:
  assumes "malloc_ok malloc" "pnl_wf pl"
  obtains (ok) pl' r where "pnl_insert_range malloc pl pgno n = Some (MDBX_SUCCESS, pl')" "pnl_wf pl'"
      "r \<le> unat (pl ! 1)"
      "pnl_items pl' = take r (pnl_items pl) @ down_range pgno (unat n) 1 @ drop r (pnl_items pl)"
      "r = 0 \<or> pgno < pnl_items pl ! (r - 1)" "\<forall>x \<in> set (drop r (pnl_items pl)). x \<le> pgno"
  | (fail) rc where "pnl_insert_range malloc pl pgno n = Some (rc, pl)" "rc \<in> {MDBX_ENOMEM, MDBX_TXN_FULL}"
proof -
  have "unat (ucast n :: u64) < 2 ^ 32"
    using unsigned_less [of n, where 'a = nat] by simp
  with assms(1,2) show ?thesis
  proof (cases rule: pnl_need_correct [of malloc pl "ucast n"])
    case (fail rc)
    then show ?thesis by (intro that(2) [of rc]) (auto simp: pnl_insert_range_def)
  next
    case (ok pl1)
    have sz: "unat (pl1 ! 1 + n) = unat (pl1 ! 1) + unat n" "2 * (unat (pl1 ! 1) + unat n) + 2 \<le> length pl1"
      using pnl_resized [OF ok(2), of n] ok(4,5) by simp_all
    define m where "m = unat (pl1 ! 1)"
    define w where "w = m + unat n"
    have w: "unat (pl1 ! 1 + n) = w" "w + 2 \<le> length pl1" using sz by (auto simp: w_def m_def)
    let ?pl = "pl1[1 := pl1 ! 1 + n]"
    have l1: "w + 1 < length ?pl" "m \<le> w" using w by (auto simp: w_def)
    obtain pl2 r where s: "insert_shift ?pl m w pgno = Some (pl2, r, r + unat n)" "r \<le> m"
      "length pl2 = length ?pl" "r = 0 \<or> pgno < ?pl ! (r + 1)"
      "\<And>i. r + 1 < i \<Longrightarrow> i \<le> m + 1 \<Longrightarrow> ?pl ! i \<le> pgno"
      "\<And>i. i < length ?pl \<Longrightarrow> pl2 ! i = (if r + unat n + 1 < i \<and> i \<le> w + 1 then ?pl ! (i - unat n) else ?pl ! i)"
      using l1 by (elim insert_shift_correct [of m w ?pl pgno]) (auto simp: w_def)
    obtain pl3 where f: "insert_fill pl2 r (r + unat n) pgno = Some pl3" "length pl3 = length pl2"
      "\<And>i. i < length pl2 \<Longrightarrow> pl3 ! i = (if r + 1 < i \<and> i \<le> r + unat n + 1
                                          then pgno + of_nat (r + unat n + 1 - i) else pl2 ! i)"
      using insert_fill_correct [of "r + unat n" pl2 r pgno] s(2,3) l1 by (auto simp: w_def)
    have eq: "pnl_insert_range malloc pl pgno n = Some (MDBX_SUCCESS, pl3)"
      using ok(1) pnl_cells [OF ok(2)] s(1) f(1) w(1) by (simp add: pnl_insert_range_def m_def)
    have len: "length pl3 = length pl1" using f(2) s(3) by simp
    have cell: "pl3 ! i = (if r + 1 < i \<and> i \<le> r + unat n + 1 then pgno + of_nat (r + unat n + 1 - i)
                 else if r + unat n + 1 < i \<and> i \<le> w + 1 then ?pl ! (i - unat n) else ?pl ! i)"
      if "i < length pl1" for i
      using f(3) [of i] s(6) [of i] s(3) that by auto
    have "pl1 \<noteq> []" "1 < length pl1" using ok(2) by (auto simp: pnl_wf_def)
    then have head: "pl3 ! 0 = pl1 ! 0" "pl3 ! 1 = pl1 ! 1 + n"
      using cell [of 0] cell [of 1] by simp_all
    have wf: "pnl_wf pl3"
      using len head ok(4,5) w by (intro pnl_wf_resize [OF ok(2)]) (auto simp: m_def w_def)
    have lxs: "length (pnl_items pl1) = m" using ok(2) by (simp add: m_def)
    have items: "pnl_items pl3 = take r (pnl_items pl1) @ down_range pgno (unat n) 1 @ drop r (pnl_items pl1)"
    proof (rule nth_equalityI)
      show "length (pnl_items pl3) = length (take r (pnl_items pl1) @ down_range pgno (unat n) 1 @ drop r (pnl_items pl1))"
        using wf head w lxs s(2) by (simp add: w_def)
      fix i assume "i < length (pnl_items pl3)"
      then have i: "i < w" using wf head w by simp
      then have c: "pnl_items pl3 ! i = pl3 ! (i + 2)" "i + 2 < length pl1"
        using wf head w by (simp_all add: pnl_items_nth)
      have old: "pnl_items pl1 ! j = ?pl ! (j + 2)" if "j < m" for j
        using that ok(2) by (simp add: pnl_items_nth m_def)
      consider "i < r" | "r \<le> i" "i < r + unat n" | "r + unat n \<le> i" by linarith
      then show "pnl_items pl3 ! i = (take r (pnl_items pl1) @ down_range pgno (unat n) 1 @ drop r (pnl_items pl1)) ! i"
      proof cases
        case 1
        then show ?thesis using c cell [of "i + 2"] old [of i] s(2) lxs by (simp add: nth_append)
      next
        case 2
        then have "r + unat n + 1 - (i + 2) = unat n - 1 - (i - r)" "i - r < unat n" by simp_all
        then show ?thesis using 2 c cell [of "i + 2"] s(2) lxs down_range_nth [of "i - r" "unat n" pgno 1]
          by (simp add: nth_append)
      next
        case 3
        then have "i + 2 - unat n = i - unat n + 2" "i - unat n < m" "r + (i - (r + unat n)) = i - unat n" "\<not> i - r < unat n"
          using i by (simp_all add: w_def)
        then show ?thesis
          using 3 c cell [of "i + 2"] s(2) lxs i old [of "i - unat n"]
          by (simp add: nth_append diff_diff_left)
      qed
    qed
    have "r = 0 \<or> pgno < pnl_items pl1 ! (r - 1)"
    proof (cases r)
      case (Suc k)
      then show ?thesis using s(2,4) ok(2) by (simp add: pnl_items_nth m_def One_nat_def)
    qed simp
    moreover have "\<forall>x \<in> set (drop r (pnl_items pl1)). x \<le> pgno"
    proof
      fix x assume "x \<in> set (drop r (pnl_items pl1))"
      then obtain j where "j < m - r" "x = pnl_items pl1 ! (r + j)"
        by (auto simp: in_set_conv_nth lxs)
      then show "x \<le> pgno" using s(5) [of "r + j + 2"] ok(2) by (simp add: pnl_items_nth m_def)
    qed
    ultimately show ?thesis
      using that(1) [of pl3 r] eq wf items s(2) unfolding ok(3) ok(4) m_def by simp
  qed
qed

subsection \<open>Merging\<close>

lemma xmerge_inner_correct:
  assumes "1 \<le> d" "d < w" "w < length dst" "dst ! 1 = NOT 0"
  obtains dst' d' where "xmerge_inner dst w d sv = Some (dst', d' + (w - d), d')" "1 \<le> d'" "d' \<le> d"
    "length dst' = length dst" "sv \<le> dst ! d'" "\<And>i. d' < i \<Longrightarrow> i \<le> d \<Longrightarrow> dst ! i < sv"
    "\<And>i. i < length dst \<Longrightarrow> dst' ! i = (if d' + (w - d) < i \<and> i \<le> w then dst ! (i - (w - d)) else dst ! i)"
  using assms
proof (induction d arbitrary: dst w thesis)
  case 0
  then show ?case by simp
next
  case (Suc d)
  have rd: "rd dst (Suc d) = Some (dst ! Suc d)" using Suc.prems by (simp add: rd_in)
  show ?case
  proof (cases "dst ! Suc d < sv")
    case False
    then have "xmerge_inner dst w (Suc d) sv = Some (dst, w, Suc d)"
      using rd by (subst xmerge_inner.simps) simp
    then show ?thesis
      using False Suc.prems(2,3) by (intro Suc.prems(1) [of dst "Suc d"]) auto
  next
    case True
    have d: "1 \<le> d"
    proof (rule ccontr)
      assume "\<not> 1 \<le> d"
      then have "dst ! Suc d = NOT 0" using Suc.prems(5) by (cases d) (simp_all add: One_nat_def)
      then show False using True word_order.extremum [of sv] by (simp add: word_not_simps)
    qed
    let ?dst = "dst[w := dst ! Suc d]"
    have ih: "d < w - 1" "w - 1 < length ?dst" "?dst ! 1 = NOT 0"
      using Suc.prems(3-5) by auto
    obtain dst' d' where IH: "xmerge_inner ?dst (w - 1) d sv = Some (dst', d' + (w - 1 - d), d')" "1 \<le> d'" "d' \<le> d"
      "length dst' = length ?dst" "sv \<le> ?dst ! d'" "\<And>i. d' < i \<Longrightarrow> i \<le> d \<Longrightarrow> ?dst ! i < sv"
      "\<And>i. i < length ?dst \<Longrightarrow> dst' ! i = (if d' + (w - 1 - d) < i \<and> i \<le> w - 1 then ?dst ! (i - (w - 1 - d)) else ?dst ! i)"
      using Suc.IH [OF _ d ih] by blast
    have same: "?dst ! i = dst ! i" if "i \<le> Suc d" for i using that Suc.prems(3) by simp
    show ?thesis
    proof (rule Suc.prems(1) [of dst' d'])
      show "xmerge_inner dst w (Suc d) sv = Some (dst', d' + (w - Suc d), d')"
        using IH(1) rd True Suc.prems(4) by (subst xmerge_inner.simps) (simp add: wr_in)
      show "1 \<le> d'" "d' \<le> Suc d" "length dst' = length dst" using IH(2-4) by simp_all
      show "sv \<le> dst ! d'" using IH(3,5) same by simp
      show "dst ! i < sv" if "d' < i" "i \<le> Suc d" for i
        using IH(6) [OF that(1)] same [of i] True that(2) by (cases "i = Suc d") auto
      show "dst' ! i = (if d' + (w - Suc d) < i \<and> i \<le> w then dst ! (i - (w - Suc d)) else dst ! i)"
        if "i < length dst" for i
      proof -
        have e: "w - 1 - d = w - Suc d" by simp
        consider "i = w" | "d' + (w - Suc d) < i" "i \<le> w - 1" | "i \<le> d' + (w - Suc d)" "i \<noteq> w" | "w < i"
          using Suc.prems(3) by linarith
        then show ?thesis
        proof cases
          case 1
          then have "\<not> i \<le> w - 1" "i - (w - Suc d) = Suc d" "d' + (w - Suc d) < i"
            using Suc.prems(3) IH(3) by auto
          then show ?thesis using 1 IH(7) [of i] that by simp
        next
          case 2
          then have "i - (w - Suc d) \<le> Suc d" "i \<le> w" using Suc.prems(3) by auto
          then show ?thesis using 2 IH(7) [of i] that e same [of "i - (w - Suc d)"] by simp
        qed (use IH(7) [of i] that e in auto)
      qed
    qed
  qed
qed

lemma pnl_ordered_swc: "strict_weak_cmp pnl_ordered"
  by unfold_locales (auto simp: pnl_ordered_def)

interpretation pnl_cmp: strict_weak_cmp pnl_ordered
  by (rule pnl_ordered_swc)

lemma pnl_sorted_iff: "sorted_by pnl_ordered xs \<longleftrightarrow> sorted_wrt (\<ge>) xs"
  by (simp add: sorted_by_def pnl_ordered_def not_less)

lemma sorted_desc_last:
  "sorted_wrt (\<ge>) (xs @ [x]) \<longleftrightarrow> sorted_wrt (\<ge>) xs \<and> (\<forall>y \<in> set xs. x \<le> (y :: pgno_t))"
  by (auto simp: sorted_wrt_append)

lemma seg_snoc: "lo + n < length xs \<Longrightarrow> seg lo (Suc n) xs = seg lo n xs @ [xs ! (lo + n)]"
  by (simp add: seg_def take_Suc_conv_app_nth)

lemma seg_cong: "\<lbrakk>lo + n \<le> length xs; lo + n \<le> length ys; \<And>i. lo \<le> i \<Longrightarrow> i < lo + n \<Longrightarrow> xs ! i = ys ! i\<rbrakk>
   \<Longrightarrow> seg lo n xs = seg lo n ys"
  by (intro nth_equalityI) auto

lemma seg_add: "lo + (m + n) \<le> length xs \<Longrightarrow> seg lo (m + n) xs = seg lo m xs @ seg (lo + m) n xs"
  by (simp add: seg_def take_add add.commute)

lemma set_seg: "lo + n \<le> length xs \<Longrightarrow> set (seg lo n xs) = {xs ! i | i. lo \<le> i \<and> i < lo + n}"
  by (auto simp: set_conv_nth) (metis add_less_cancel_left le_add_diff_inverse le_add1 seg_nth)+

lemma xmerge_outer_correct:
  assumes "1 \<le> d" "w = d + s" "w < length dst" "dst ! 1 = NOT 0" "s + 1 < length src"
  obtains dst' where "xmerge_outer dst src w d s = Some dst'" "length dst' = length dst"
    "\<And>i. i < length dst \<Longrightarrow> i \<le> 1 \<or> w < i \<Longrightarrow> dst' ! i = dst ! i"
    "mset (seg 2 (w - 1) dst') = mset (seg 2 (d - 1) dst) + mset (seg 2 s src)"
    "sorted_wrt (\<ge>) (seg 2 (d - 1) dst) \<Longrightarrow> sorted_wrt (\<ge>) (seg 2 s src) \<Longrightarrow>
     sorted_wrt (\<ge>) (seg 2 (w - 1) dst')"
  using assms
proof (induction s arbitrary: dst w d thesis)
  case 0
  then show ?case by (intro "0.prems"(1) [of dst]) (auto simp: seg_def)
next
  case (Suc s)
  define sv where "sv = src ! (s + 2)"
  have rd: "rd src (Suc s + 1) = Some sv" using Suc.prems(6) by (simp add: rd_def sv_def One_nat_def)
  have dw: "d < w" using Suc.prems(3) by simp
  obtain dst1 d' where inn: "xmerge_inner dst w d sv = Some (dst1, d' + (w - d), d')" "1 \<le> d'" "d' \<le> d"
    "length dst1 = length dst" "sv \<le> dst ! d'" "\<And>i. d' < i \<Longrightarrow> i \<le> d \<Longrightarrow> dst ! i < sv"
    "\<And>i. i < length dst \<Longrightarrow> dst1 ! i = (if d' + (w - d) < i \<and> i \<le> w then dst ! (i - (w - d)) else dst ! i)"
    using xmerge_inner_correct [OF Suc.prems(2) dw Suc.prems(4,5), of sv] by blast
  define w' where "w' = d' + (w - d)"
  have w': "w' = d' + Suc s" "d' < w'" "w' \<le> w" "w' < length dst1"
    using Suc.prems(3,4) inn(3,4) by (auto simp: w'_def)
  let ?dst = "dst1[w' := sv]"
  have d1: "?dst ! 1 = NOT 0"
    using inn(2) inn(7) [of 1] w' Suc.prems(4,5) by simp
  have ih: "1 \<le> d'" "w' - 1 = d' + s" "w' - 1 < length ?dst" "s + 1 < length src"
    using inn(2) w' Suc.prems(6) by auto
  obtain dst' where IH: "xmerge_outer ?dst src (w' - 1) d' s = Some dst'" "length dst' = length ?dst"
    "\<And>i. i < length ?dst \<Longrightarrow> i \<le> 1 \<or> w' - 1 < i \<Longrightarrow> dst' ! i = ?dst ! i"
    "mset (seg 2 (w' - 1 - 1) dst') = mset (seg 2 (d' - 1) ?dst) + mset (seg 2 s src)"
    "sorted_wrt (\<ge>) (seg 2 (d' - 1) ?dst) \<Longrightarrow> sorted_wrt (\<ge>) (seg 2 s src) \<Longrightarrow>
     sorted_wrt (\<ge>) (seg 2 (w' - 1 - 1) dst')"
    using Suc.IH [OF _ ih(1,2,3) d1 ih(4)] by blast
  have run: "xmerge_outer dst src w d (Suc s) = Some dst'"
    using rd inn(1) w'(4) IH(1) by (simp add: w'_def [symmetric] wr_in)
  have len: "length dst' = length dst" using IH(2) inn(4) by simp
  define low where "low = seg 2 (d' - 1) dst"
  define high where "high = seg (d' + 1) (d - d') dst"
  have low: "seg 2 (d' - 1) ?dst = low"
    unfolding low_def using inn(2-4,7) w' Suc.prems(4) dw by (intro seg_cong) auto
  have old: "seg 2 (d - 1) dst = low @ high"
    unfolding low_def high_def using seg_add [of 2 "d' - 1" "d - d'" dst] inn(2,3) dw Suc.prems(4)
    by (simp add: One_nat_def)
  have src: "seg 2 (Suc s) src = seg 2 s src @ [sv]"
    using seg_snoc [of 2 s src] Suc.prems(6) by (simp add: sv_def add.commute)
  define front where "front = seg 2 (w' - 1 - 1) dst'"
  have high': "seg (w' + 1) (d - d') dst' = high"
  proof (rule nth_equalityI)
    have l: "w' + 1 + (d - d') \<le> length dst'" "d' + 1 + (d - d') \<le> length dst"
      using w' len Suc.prems(3,4) inn(3) dw by (auto simp: w'_def)
    then show "length (seg (w' + 1) (d - d') dst') = length high" by (simp add: high_def)
    fix i assume "i < length (seg (w' + 1) (d - d') dst')"
    then have i: "i < d - d'" using l by simp
    have "w' + 1 + i < length dst" "w' - 1 < w' + 1 + i" using i l len by auto
    then have "dst' ! (w' + 1 + i) = dst1 ! (w' + 1 + i)"
      using IH(3) [of "w' + 1 + i"] l len IH(2) by simp
    also have "\<dots> = dst ! (d' + 1 + i)"
    proof -
      have "d' + (w - d) < w' + 1 + i" "w' + 1 + i \<le> w" "w' + 1 + i - (w - d) = d' + 1 + i"
        using i dw by (auto simp: w'_def)
      then show ?thesis using inn(7) [of "w' + 1 + i"] \<open>w' + 1 + i < length dst\<close> by simp
    qed
    finally show "seg (w' + 1) (d - d') dst' ! i = high ! i"
      using i l by (simp add: high_def)
  qed
  have sv': "dst' ! w' = sv" using IH(3) [of w'] w' by simp
  have new: "seg 2 (w - 1) dst' = front @ [sv] @ high"
  proof -
    have "seg 2 (w - 1) dst' = seg 2 (w' - 1) dst' @ seg (2 + (w' - 1)) (d - d') dst'"
      using seg_add [of 2 "w' - 1" "d - d'" dst'] w' inn(2,3) dw len Suc.prems(3,4)
      by (simp add: w'_def add.commute)
    moreover have "seg 2 (w' - 1) dst' = front @ [sv]"
    proof -
      have "w' - 1 = Suc (w' - 1 - 1)" "2 + (w' - 1 - 1) = w'" using w'(1) inn(2) by auto
      then show ?thesis
        unfolding front_def using seg_snoc [of 2 "w' - 1 - 1" dst'] w'(4) len inn(4) sv' by simp
    qed
    moreover have "2 + (w' - 1) = w' + 1" using w'(1) by simp
    ultimately show ?thesis using high' by (simp add: One_nat_def)
  qed
  show ?case
  proof (rule Suc.prems(1) [of dst'])
    show "dst' ! i = dst ! i" if "i < length dst" "i \<le> 1 \<or> w < i" for i
      using IH(3) [of i] inn(2,4) inn(7) [of i] that w' by (auto simp: w'_def)
    have ms: "mset front = mset low + mset (seg 2 s src)"
      using IH(4) unfolding low front_def .
    show "mset (seg 2 (w - 1) dst') = mset (seg 2 (d - 1) dst) + mset (seg 2 (Suc s) src)"
      unfolding new old src by (simp add: ms)
    assume sd: "sorted_wrt (\<ge>) (seg 2 (d - 1) dst)" and ss: "sorted_wrt (\<ge>) (seg 2 (Suc s) src)"
    have high_lt: "\<forall>y \<in> set high. y < sv"
      using inn(3,6) dw Suc.prems(4) by (auto simp: high_def set_seg)
    have low_ge: "\<forall>x \<in> set low. sv \<le> x"
    proof (cases "d' = 1")
      case False
      then have "low = seg 2 (d' - 2) dst @ [dst ! d']"
        using seg_snoc [of 2 "d' - 2" dst] inn(2,3) dw Suc.prems(4) unfolding low_def
        by (simp add: Suc_diff_Suc One_nat_def numeral_2_eq_2)
      moreover have "sorted_wrt (\<ge>) low" using sd unfolding old sorted_wrt_append by simp
      ultimately have "\<forall>x \<in> set low. dst ! d' \<le> x" using sorted_desc_last by auto
      then show ?thesis using inn(5) by (auto intro: order_trans)
    qed (simp add: low_def seg_def)
    have "sorted_wrt (\<ge>) front"
      unfolding front_def using IH(5) low sd ss unfolding old src sorted_wrt_append by simp
    moreover have "\<forall>x \<in> set front. sv \<le> x"
    proof -
      have "set front = set low \<union> set (seg 2 s src)"
        using ms by (metis set_mset_mset set_mset_union)
      then show ?thesis using low_ge ss unfolding src sorted_desc_last by auto
    qed
    ultimately show "sorted_wrt (\<ge>) (seg 2 (w - 1) dst')"
      using sd high_lt unfolding new old sorted_wrt_append by (auto intro: less_imp_le) (meson less_imp_le order.trans)
  qed (use run len in auto)
qed

lemma pnl_xmerge_correct:
  assumes "pnl_wf dst" "pnl_wf src" "unat (dst ! 1) + unat (src ! 1) \<le> pnl_alloclen dst"
  obtains dst' where "pnl_xmerge dst src = Some dst'" "pnl_wf dst'"
    "mset (pnl_items dst') = mset (pnl_items dst) + mset (pnl_items src)"
    "sorted_by pnl_ordered (pnl_items dst) \<Longrightarrow> sorted_by pnl_ordered (pnl_items src) \<Longrightarrow>
     sorted_by pnl_ordered (pnl_items dst')"
proof -
  define d where "d = unat (dst ! 1)"
  define s where "s = unat (src ! 1)"
  have ds: "d + s \<le> pnl_alloclen dst" "2 * pnl_alloclen dst + 2 \<le> length dst" "s + 2 \<le> length src"
    "pnl_alloclen dst < 2 ^ 32"
    using assms unsigned_less [of "dst ! 0", where 'a = nat]
    by (simp_all add: pnl_wf_def d_def s_def pnl_alloclen_def)
  let ?dst = "dst[1 := NOT 0]"
  have pre: "1 \<le> d + 1" "d + s + 1 = d + 1 + s" "d + s + 1 < length ?dst" "?dst ! 1 = NOT 0" "s + 1 < length src"
    using ds by auto
  obtain dst1 where m: "xmerge_outer ?dst src (d + s + 1) (d + 1) s = Some dst1" "length dst1 = length ?dst"
    "\<And>i. i < length ?dst \<Longrightarrow> i \<le> 1 \<or> d + s + 1 < i \<Longrightarrow> dst1 ! i = ?dst ! i"
    "mset (seg 2 (d + s + 1 - 1) dst1) = mset (seg 2 (d + 1 - 1) ?dst) + mset (seg 2 s src)"
    "sorted_wrt (\<ge>) (seg 2 (d + 1 - 1) ?dst) \<Longrightarrow> sorted_wrt (\<ge>) (seg 2 s src) \<Longrightarrow>
     sorted_wrt (\<ge>) (seg 2 (d + s + 1 - 1) dst1)"
    using xmerge_outer_correct [OF pre] by blast
  let ?dst' = "dst1[1 := of_nat (d + s)]"
  have "dst \<noteq> []" using assms(1) by (auto simp: pnl_wf_def)
  then have c0: "dst1 ! 0 = dst ! 0" "1 < length dst1" using m(2) m(3) [of 0] assms(1) by (auto simp: pnl_wf_def)
  have tot: "unat (of_nat (d + s) :: u32) = d + s" using ds by (intro unat_of_nat_lt) simp
  have run: "pnl_xmerge dst src = Some ?dst'"
    using pnl_cells [OF assms(1)] pnl_cells [OF assms(2)] m(1) c0
    by (simp add: pnl_xmerge_def d_def s_def wr_in)
  have wf: "pnl_wf ?dst'"
    using c0 m(2) ds tot by (intro pnl_wf_resize [OF assms(1)]) auto
  have items: "pnl_items ?dst' = seg 2 (d + s) dst1"
    using c0 tot by (simp add: pnl_items_def seg_def)
  have old: "seg 2 (d + 1 - 1) ?dst = pnl_items dst" "seg 2 s src = pnl_items src"
    by (simp_all add: pnl_items_def d_def s_def seg_def)
  have "mset (pnl_items ?dst') = mset (pnl_items dst) + mset (pnl_items src)"
    using m(4) unfolding items old by simp
  moreover have "sorted_by pnl_ordered (pnl_items dst) \<Longrightarrow> sorted_by pnl_ordered (pnl_items src) \<Longrightarrow>
     sorted_by pnl_ordered (pnl_items ?dst')"
    using m(5) unfolding items old pnl_sorted_iff by simp
  ultimately show ?thesis using run wf that by blast
qed

subsection \<open>Sorting\<close>

lemma pnl_wf_splice:
  assumes "pnl_wf pl" "length xs = unat (pl ! 1)" "length tmp = k" "2 + length xs + k \<le> length pl"
  defines "pl' \<equiv> take 2 pl @ xs @ tmp @ drop (2 + length xs + k) pl"
  shows "pnl_wf pl'" "pnl_items pl' = xs" "pl' ! 1 = pl ! 1" "pnl_alloclen pl' = pnl_alloclen pl"
proof -
  have len: "length pl' = length pl" using assms(3,4) by (simp add: pl'_def)
  have c: "pl' ! 0 = pl ! 0" "pl' ! 1 = pl ! 1"
    using assms(1) by (auto simp: pl'_def nth_append pnl_wf_def)
  then show "pl' ! 1 = pl ! 1" "pnl_alloclen pl' = pnl_alloclen pl" by (simp_all add: pnl_alloclen_def)
  then show "pnl_wf pl'" using assms(1) c len by (simp add: pnl_wf_def)
  have "take 2 pl @ xs @ tmp @ drop (2 + length xs + k) pl = pl'" by (simp add: pl'_def)
  moreover have "length (take 2 pl) = 2" using assms(1) by (simp add: pnl_wf_def)
  ultimately show "pnl_items pl' = xs"
    unfolding pnl_items_def seg_def c using assms(2) by (metis append_eq_conv_conj)
qed

lemma pnl_key_order: "pnl_key x \<le> pnl_key y \<longleftrightarrow> y \<le> x"
proof -
  have "unat (P_INVALID - z) = 2 ^ 32 - 1 - unat z" for z :: u32
  proof -
    have "z \<le> P_INVALID" by (simp add: P_INVALID_def)
    then show ?thesis by (simp add: unat_sub_le P_INVALID_def unsigned_minus_1_eq_mask mask_eq_exp_minus_1)
  qed
  moreover have "unat x < 2 ^ 32" "unat y < 2 ^ 32"
    using unsigned_less [of x, where 'a = nat] unsigned_less [of y, where 'a = nat] by simp_all
  ultimately show ?thesis by (simp add: pnl_key_def word_le_nat_alt) linarith
qed

lemma pnl_sort_correct:
  assumes "pnl_wf pl"
  obtains pl' where "pnl_sort pl = Some pl'" "pnl_wf pl'" "mset (pnl_items pl') = mset (pnl_items pl)"
    "sorted_by pnl_ordered (pnl_items pl')" "pnl_alloclen pl' = pnl_alloclen pl"
proof -
  define n where "n = unat (pl ! 1)"
  have n: "2 * n + 2 \<le> length pl" "n < 2 ^ 32"
    using assms unsigned_less [of "pl ! 1", where 'a = nat] by (simp_all add: pnl_wf_def n_def)
  have items: "pnl_items pl = seg 2 n pl" by (simp add: pnl_items_def n_def)
  show ?thesis
  proof (cases "pl ! 1 < MDBX_RADIXSORT_THRESHOLD")
    case True
    obtain ys where ys: "qs_sort pnl_ordered 2 (n + 2) pl = Some (take 2 pl @ ys @ drop (n + 2) pl)"
      "mset ys = mset (seg 2 n pl)" "sorted_by pnl_ordered ys"
      using pnl_cmp.qs_sort_correct [of 2 "n + 2" pl] n by auto
    have len: "length ys = n" using ys(2) n by (metis add.commute add_leD1 length_seg mult_2 size_mset le_trans add_le_mono le_add1 order_refl)
    have "pnl_sort pl = Some (take 2 pl @ ys @ [] @ drop (2 + length ys + 0) pl)"
      using True ys(1) pnl_cells [OF assms] len by (simp add: pnl_sort_def n_def [symmetric] add.commute)
    moreover note pnl_wf_splice [OF assms, of ys "[]" 0]
    ultimately show ?thesis
      using that [of "take 2 pl @ ys @ [] @ drop (2 + length ys + 0) pl"] ys len n items by (simp add: n_def)
  next
    case False
    let ?xs = "seg 2 n pl" and ?tmp = "seg (2 + n) n pl"
    have "n \<noteq> 0" using False by (auto simp: n_def MDBX_RADIXSORT_THRESHOLD_def word_less_nat_alt)
    then have ne: "?xs \<noteq> []" using n by (simp add: seg_def)
    have l: "length ?xs = n" "length ?tmp = n" using n by simp_all
    obtain tmp' where r: "radixsort pnl_key ?xs (Some ?tmp) = Some (True, sort_key pnl_key ?xs, tmp')"
      "length tmp' = n"
      using radixsort_correct [OF ne, of ?tmp pnl_key] l by auto
    let ?ys = "sort_key pnl_key ?xs"
    have "pnl_sort pl = Some (take 2 pl @ ?ys @ tmp' @ drop (2 + length ?ys + n) pl)"
      using False r pnl_cells [OF assms] l n by (simp add: pnl_sort_def pgno_radixsort_def n_def [symmetric])
    moreover note pnl_wf_splice [OF assms, of ?ys tmp' n]
    moreover have "sorted_by pnl_ordered ?ys"
    proof -
      have "sorted_wrt (\<lambda>x y. pnl_key x \<le> pnl_key y) ?ys" using sorted_sort_key [of pnl_key ?xs] by (simp add: sorted_map)
      then show ?thesis unfolding pnl_key_order pnl_sorted_iff .
    qed
    ultimately show ?thesis
      using that [of "take 2 pl @ ?ys @ tmp' @ drop (2 + length ?ys + n) pl"] l r(2) n items by (simp add: n_def)
  qed
qed

subsection \<open>Searching\<close>

lemma pnl_search_correct:
  assumes "pnl_wf pl" "unat (pl ! 1) < 2 ^ 32 - 1" "sorted_by pnl_ordered (pnl_items pl)"
  obtains n where "pnl_search pl pgno = Some (of_nat (n + 1))" "n \<le> unat (pl ! 1)"
    "unat (of_nat (n + 1) :: u32) = n + 1"
    "\<forall>i < n. pgno < pnl_items pl ! i" "\<forall>i. n \<le> i \<longrightarrow> i < unat (pl ! 1) \<longrightarrow> pnl_items pl ! i \<le> pgno"
proof -
  have len: "2 + unat (pl ! 1) \<le> length pl" using pnl_wf_length [OF assms(1)] .
  have "partitioned pnl_ordered pl 2 (unat (pl ! 1)) pgno"
    using pnl_cmp.sorted_partitioned [OF _ len] assms(3) by (simp add: pnl_items_def)
  then obtain r where r: "bsearch pnl_ordered pl 2 (unat (pl ! 1)) pgno = Some r"
    "partition_point pnl_ordered pl 2 (unat (pl ! 1)) pgno r"
    using len by (elim bsearch_correct) auto
  have pp: "2 \<le> r" "r \<le> 2 + unat (pl ! 1)" "\<And>i. 2 \<le> i \<Longrightarrow> i < r \<Longrightarrow> pgno < pl ! i"
    "\<And>i. r \<le> i \<Longrightarrow> i < 2 + unat (pl ! 1) \<Longrightarrow> pl ! i \<le> pgno"
    using r(2) by (auto simp: partition_point_def pnl_ordered_def not_less)
  show ?thesis
  proof (rule that [of "r - 2"])
    show "pnl_search pl pgno = Some (of_nat (r - 2 + 1))"
      using r(1) pnl_cells [OF assms(1)] by (simp add: pnl_search_def)
    show "r - 2 \<le> unat (pl ! 1)" using pp(1,2) by simp
    show "unat (of_nat (r - 2 + 1) :: u32) = r - 2 + 1"
      using pp(1,2) assms(2) by (intro unat_of_nat_lt) simp
    show "\<forall>i < r - 2. pgno < pnl_items pl ! i"
      using pp assms(1) by (auto simp: pnl_items_nth)
    show "\<forall>i. r - 2 \<le> i \<longrightarrow> i < unat (pl ! 1) \<longrightarrow> pnl_items pl ! i \<le> pgno"
      using pp assms(1) by (auto simp: pnl_items_nth)
  qed
qed

lemma pnl_exist_correct:
  assumes "pnl_wf pl" "unat (pl ! 1) < 2 ^ 32 - 1" "sorted_by pnl_ordered (pnl_items pl)"
  obtains n where "pnl_exist pl pgno = Some n" "n \<noteq> 0 \<longleftrightarrow> pgno \<in> set (pnl_items pl)"
    "n \<noteq> 0 \<Longrightarrow> pl ! (unat n + 1) = pgno \<and> unat n \<le> unat (pl ! 1)"
proof -
  obtain n where n: "pnl_search pl pgno = Some (of_nat (n + 1))" "n \<le> unat (pl ! 1)"
    "unat (of_nat (n + 1) :: u32) = n + 1"
    "\<forall>i < n. pgno < pnl_items pl ! i" "\<forall>i. n \<le> i \<longrightarrow> i < unat (pl ! 1) \<longrightarrow> pnl_items pl ! i \<le> pgno"
    using pnl_search_correct [OF assms] by blast
  let ?n = "of_nat (n + 1) :: u32"
  have nz: "?n \<noteq> 0" using n(3) by (metis unat_0 add_is_0 one_neq_zero)
  have le: "?n \<le> pl ! 1 \<longleftrightarrow> n < unat (pl ! 1)" using n(3) by (simp add: word_le_nat_alt del: of_nat_add) linarith
  have mem: "pgno \<in> set (pnl_items pl) \<longleftrightarrow> n < unat (pl ! 1) \<and> pl ! (n + 2) = pgno"
  proof
    assume "pgno \<in> set (pnl_items pl)"
    then obtain i where i: "i < unat (pl ! 1)" "pnl_items pl ! i = pgno"
      using assms(1) by (auto simp: in_set_conv_nth)
    then have "n \<le> i" using n(4) by (metis not_le order.irrefl)
    moreover have "pgno \<le> pnl_items pl ! n"
    proof (cases "n = i")
      case False
      then have "n < i" using \<open>n \<le> i\<close> by simp
      then have "\<not> pnl_ordered (pnl_items pl ! i) (pnl_items pl ! n)"
        using assms(1) i by (intro sorted_by_nthD [OF assms(3)]) simp_all
      then show ?thesis using i by (simp add: pnl_ordered_def)
    qed (use i in simp)
    ultimately show "n < unat (pl ! 1) \<and> pl ! (n + 2) = pgno"
      using n(5) i assms(1) by (auto simp: pnl_items_nth intro: antisym)
  next
    assume "n < unat (pl ! 1) \<and> pl ! (n + 2) = pgno"
    then show "pgno \<in> set (pnl_items pl)"
      using assms(1) by (metis length_pnl_items nth_mem pnl_items_nth)
  qed
  have len: "n + 1 + 1 < length pl" if "n < unat (pl ! 1)"
    using that pnl_wf_length [OF assms(1)] by simp
  show ?thesis
  proof (cases "n < unat (pl ! 1)")
    case True
    have "rd pl (unat ?n + 1) = Some (pl ! (n + 2))"
      unfolding n(3) using len [OF True] by (simp add: rd_in One_nat_def)
    then have "pnl_exist pl pgno = Some (if pl ! (n + 2) = pgno then ?n else 0)"
      using True n(1) le pnl_cells [OF assms(1)] by (simp add: pnl_exist_def del: of_nat_add)
    then show ?thesis
      using True nz mem n(3) by (intro that) (auto simp del: of_nat_add simp: One_nat_def)
  next
    case False
    then have "pnl_exist pl pgno = Some 0"
      using n(1) le pnl_cells [OF assms(1)] by (simp add: pnl_exist_def del: of_nat_add)
    then show ?thesis using False mem by (intro that) auto
  qed
qed

text \<open>
  Whether a run of pages meets the list.  The last page of the run must not wrap.
\<close>

lemma pnl_intersect_correct:
  assumes "pnl_wf pl" "unat (pl ! 1) < 2 ^ 32 - 1" "sorted_by pnl_ordered (pnl_items pl)"
    and "npages \<noteq> 0" "unat pgno + unat npages \<le> 2 ^ 32"
  shows "pnl_intersect pl pgno npages =
         Some (\<exists>x \<in> set (pnl_items pl). unat pgno \<le> unat x \<and> unat x < unat pgno + unat npages)"
proof -
  define rl where "rl = pgno + npages - 1"
  have np: "unat npages \<ge> 1" using assms(4) by (simp add: Suc_le_eq unat_gt_0 One_nat_def)
  have "unat (npages - 1) = unat npages - 1" using np by (subst unat_sub_le) (auto simp: word_le_nat_alt)
  moreover have "rl = pgno + (npages - 1)" by (simp add: rl_def)
  ultimately have rl: "unat rl = unat pgno + unat npages - 1"
    using assms(5) np by (simp add: unat_add_lt)
  obtain n where n: "pnl_search pl rl = Some (of_nat (n + 1))" "n \<le> unat (pl ! 1)"
    "unat (of_nat (n + 1) :: u32) = n + 1"
    "\<forall>i < n. rl < pnl_items pl ! i" "\<forall>i. n \<le> i \<longrightarrow> i < unat (pl ! 1) \<longrightarrow> pnl_items pl ! i \<le> rl"
    using pnl_search_correct [OF assms(1-3)] by blast
  let ?n = "of_nat (n + 1) :: u32"
  have le: "?n \<le> pl ! 1 \<longleftrightarrow> n < unat (pl ! 1)" using n(3) by (simp add: word_le_nat_alt del: of_nat_add) linarith
  have upto: "unat x < unat pgno + unat npages \<longleftrightarrow> x \<le> rl" for x
    using rl np by (simp add: word_le_nat_alt) linarith
  show ?thesis
  proof (cases "n < unat (pl ! 1)")
    case True
    have "n + 1 + 1 < length pl" using True pnl_wf_length [OF assms(1)] by simp
    then have rd: "rd pl (unat ?n + 1) = Some (pnl_items pl ! n)"
      unfolding n(3) using True assms(1) by (simp add: rd_in pnl_items_nth One_nat_def)
    have "pnl_items pl ! n \<ge> pgno \<longleftrightarrow> (\<exists>x \<in> set (pnl_items pl). pgno \<le> x \<and> x \<le> rl)"
    proof
      assume "pnl_items pl ! n \<ge> pgno"
      then show "\<exists>x \<in> set (pnl_items pl). pgno \<le> x \<and> x \<le> rl"
        using n(5) True assms(1) by (intro bexI [of _ "pnl_items pl ! n"]) auto
    next
      assume "\<exists>x \<in> set (pnl_items pl). pgno \<le> x \<and> x \<le> rl"
      then obtain i where i: "i < unat (pl ! 1)" "pgno \<le> pnl_items pl ! i" "pnl_items pl ! i \<le> rl"
        using assms(1) by (auto simp: in_set_conv_nth)
      then have "n \<le> i" using n(4) by (metis not_le)
      have "pnl_items pl ! i \<le> pnl_items pl ! n"
      proof (cases "n = i")
        case False
        then have "n < i" using \<open>n \<le> i\<close> by simp
        then have "\<not> pnl_ordered (pnl_items pl ! i) (pnl_items pl ! n)"
          using assms(1) i by (intro sorted_by_nthD [OF assms(3)]) simp_all
        then show ?thesis by (simp add: pnl_ordered_def)
      qed simp
      then show "pnl_items pl ! n \<ge> pgno" using i(2) by simp
    qed
    then show ?thesis
      using True n(1) le pnl_cells [OF assms(1)] rd
      by (simp add: pnl_intersect_def rl_def [symmetric] Let_def upto word_le_nat_alt [of pgno] del: of_nat_add)
  next
    case False
    then have "\<not> (\<exists>x \<in> set (pnl_items pl). x \<le> rl)"
      using n(2,4) assms(1) by (auto simp: in_set_conv_nth not_le)
    then show ?thesis
      using False n(1) le pnl_cells [OF assms(1)]
      by (simp add: pnl_intersect_def rl_def [symmetric] Let_def upto del: of_nat_add)
  qed
qed

lemma pnl_shrink_correct:
  assumes "malloc_ok malloc" "pnl_wf pl"
  obtains pl' where "pnl_shrink malloc pl = Some pl'" "pnl_wf pl'" "pnl_items pl' = []"
proof -
  let ?pl = "pl[1 := 0]"
  have ne: "pl \<noteq> []" "1 < length pl" using assms(2) by (auto simp: pnl_wf_def)
  have wf: "pnl_wf ?pl" using ne by (intro pnl_wf_resize [OF assms(2)]) auto
  have rd0: "rd ?pl 0 = Some (?pl ! 0)" using ne by (simp add: rd_def)
  have empty: "pnl_items ?pl = []" using ne by (simp add: pnl_items_def seg_def)
  show ?thesis
  proof (cases "ucast (pl ! 0) > MDBX_PNL_INITIAL * 2 - 64 div 4")
    case False
    then show ?thesis
      using that [of ?pl] wf empty pnl_cells [OF assms(2)] rd0 by (simp add: pnl_shrink_def)
  next
    case True
    show ?thesis
    proof (cases "realloc malloc ?pl (pnl2bytes MDBX_PNL_INITIAL)")
      case None
      then show ?thesis
        using that [of ?pl] True wf empty pnl_cells [OF assms(2)] rd0 by (simp add: pnl_shrink_def)
    next
      case (Some b)
      obtain c where "malloc (pnl2bytes MDBX_PNL_INITIAL) = Some c" "length b = length c"
        using realloc_length [OF Some] by blast
      then have len: "2 \<le> length b" "length b < 2 ^ 33"
        using malloc_okD [OF assms(1), of MDBX_PNL_INITIAL c] by (auto simp: MDBX_PNL_INITIAL_def)
      have bne: "b \<noteq> []" using len by auto
      let ?b = "b[0 := bytes2pnl (usable_size b)]"
      have items: "pnl_items ?b = pnl_items ?pl" "b ! 1 = ?pl ! 1"
        using pnl_items_realloc [OF wf Some] len ne by simp_all
      have "pnl_wf ?b" using len items ne by (intro pnl_wf_fresh) auto
      then show ?thesis
        using that [of ?b] True empty items pnl_cells [OF assms(2)] rd0 Some bne
        by (simp add: pnl_shrink_def wr_def)
    qed
  qed
qed

subsection \<open>Properties\<close>

lemma down_range_down: "down_range pgno (Suc n) 1 = (pgno + of_nat n) # down_range pgno n 1"
proof (rule nth_equalityI)
  fix i assume "i < length (down_range pgno (Suc n) 1)"
  then show "down_range pgno (Suc n) 1 ! i = ((pgno + of_nat n) # down_range pgno n 1) ! i"
    by (cases i) (simp_all add: down_range_nth One_nat_def)
qed simp

lemma unat_plus_of_nat:
  "unat (x :: u32) + n < 2 ^ 32 \<Longrightarrow> unat (x + of_nat n) = unat x + n"
  by (subst unat_add_lt) (simp_all add: unat_of_nat_lt)

lemma set_down_range:
  assumes "unat pgno + n \<le> 2 ^ 32"
  shows "x \<in> set (down_range pgno n 1) \<longleftrightarrow> unat pgno \<le> unat x \<and> unat x < unat pgno + n"
  using assms
proof (induction n)
  case (Suc n)
  have "unat (pgno + of_nat n) = unat pgno + n" using Suc.prems by (intro unat_plus_of_nat) simp
  then have "x = pgno + of_nat n \<longleftrightarrow> unat x = unat pgno + n" by (simp add: word_unat_eq_iff)
  then show ?case using Suc by (auto simp: down_range_down)
qed (simp add: down_range_def)

lemma sorted_down_range:
  assumes "unat pgno + n \<le> 2 ^ 32"
  shows "sorted_wrt (>) (down_range pgno n 1)"
  using assms
proof (induction n)
  case (Suc n)
  have "unat (pgno + of_nat n) = unat pgno + n" using Suc.prems by (intro unat_plus_of_nat) simp
  then show ?case using Suc by (auto simp: down_range_down set_down_range word_less_nat_alt)
qed (simp add: down_range_def)

lemma sorted_gt_ge: "sorted_wrt (>) (xs :: pgno_t list) \<Longrightarrow> sorted_wrt (\<ge>) xs"
  by (rule sorted_wrt_mono_rel) (auto intro: less_imp_le)

text \<open>
  Inserting a run of pages that does not meet a strictly descending list keeps it strictly
  descending and adds exactly the pages of the run; when the list cannot grow the error is
  returned and the list is as it was.
\<close>

theorem pnl_insert_range_keeps_order:
  assumes "malloc_ok malloc" "pnl_wf pl" "sorted_wrt (>) (pnl_items pl)"
    and "unat pgno + unat n \<le> 2 ^ 32"
    and "\<forall>x \<in> set (pnl_items pl). unat x < unat pgno \<or> unat pgno + unat n \<le> unat x"
  shows "\<exists>rc pl'. pnl_insert_range malloc pl pgno n = Some (rc, pl') \<and>
           (if rc = MDBX_SUCCESS
            then pnl_wf pl' \<and> sorted_wrt (>) (pnl_items pl') \<and>
                 set (pnl_items pl') = set (pnl_items pl) \<union> {x. unat pgno \<le> unat x \<and> unat x < unat pgno + unat n}
            else rc \<in> {MDBX_ENOMEM, MDBX_TXN_FULL} \<and> pl' = pl)"
  using assms(1,2)
proof (cases rule: pnl_insert_range_correct [of malloc pl pgno n])
  case (ok pl' r)
  let ?xs = "pnl_items pl"
  have split: "?xs = take r ?xs @ drop r ?xs" by simp
  have desc: "sorted_wrt (>) (take r ?xs)" "sorted_wrt (>) (drop r ?xs)"
    "\<forall>x \<in> set (take r ?xs). \<forall>y \<in> set (drop r ?xs). x > y"
    using assms(3) by (metis sorted_wrt_append split)+
  have front: "\<forall>x \<in> set (take r ?xs). unat pgno + unat n \<le> unat x"
  proof
    fix x assume "x \<in> set (take r ?xs)"
    then obtain i where i: "i < r" "x = ?xs ! i" "i < length ?xs" by (auto simp: in_set_conv_nth)
    then have "pgno < ?xs ! (r - 1)" "r - 1 < length ?xs" using ok(3,5) assms(2) by auto
    moreover have "?xs ! (r - 1) \<le> x"
    proof (cases "i = r - 1")
      case False
      then have "i < r - 1" using i(1) by simp
      then show ?thesis
        using i sorted_wrt_nth_less [OF assms(3), of i "r - 1"] calculation(2) by simp
    qed (use i in simp)
    ultimately have "pgno < x" by simp
    moreover have "unat x < unat pgno \<or> unat pgno + unat n \<le> unat x"
      using assms(5) i by simp
    ultimately show "unat pgno + unat n \<le> unat x"
      unfolding word_less_nat_alt by simp
  qed
  have rear: "\<forall>x \<in> set (drop r ?xs). unat x < unat pgno \<or> n = 0"
  proof
    fix x assume x: "x \<in> set (drop r ?xs)"
    then have "x \<in> set ?xs" by (rule in_set_dropD)
    then have "unat x < unat pgno \<or> unat pgno + unat n \<le> unat x" using assms(5) by blast
    moreover have "unat x \<le> unat pgno" using ok(6) x by (simp add: word_le_nat_alt)
    ultimately show "unat x < unat pgno \<or> n = 0" by (auto simp: word_unat_eq_iff)
  qed
  have "sorted_wrt (>) (pnl_items pl')"
  proof (cases "n = 0")
    case True
    then show ?thesis using ok(4) assms(3) by (simp add: down_range_def)
  next
    case False
    then show ?thesis
      unfolding ok(4) sorted_wrt_append
      using desc front rear set_down_range [OF assms(4)] sorted_down_range [OF assms(4)]
      by (auto simp: word_less_nat_alt)
  qed
  moreover have "set (pnl_items pl') = set ?xs \<union> {x. unat pgno \<le> unat x \<and> unat x < unat pgno + unat n}"
  proof -
    have "set ?xs = set (take r ?xs) \<union> set (drop r ?xs)" by (metis split set_append)
    then show ?thesis unfolding ok(4) using set_down_range [OF assms(4)] by auto
  qed
  ultimately show ?thesis using ok(1,2) by simp
qed auto

definition demo_malloc :: allocator where
  "demo_malloc n = (if n < 2 ^ 20 then Some (replicate (unat n div 4 + 1) 0) else None)"

lemma demo_malloc_ok: "malloc_ok demo_malloc"
proof -
  have "unat n \<le> 4 * length b \<and> length b < 2 ^ 33" if "demo_malloc n = Some b" for n b
  proof -
    have "n < 2 ^ 20" "b = replicate (unat n div 4 + 1) 0"
      using that by (simp_all add: demo_malloc_def split: if_splits)
    moreover from this have "unat n < 2 ^ 20" by (simp add: word_less_nat_alt)
    moreover have "unat n \<le> 4 * (unat n div 4 + 1)" by simp
    ultimately show ?thesis by simp
  qed
  then show ?thesis by (simp add: malloc_ok_def)
qed

definition demo_pnl :: pnl where
  "demo_pnl = [4, 3, 20, 17, 5, 0, 0, 0, 0, 0]"

lemma demo_pnl_wf: "pnl_wf demo_pnl" "pnl_items demo_pnl = [20, 17, 5]" "demo_pnl ! 1 = 3"
  "pnl_alloclen demo_pnl = 4"
  by (simp_all add: demo_pnl_def pnl_wf_def pnl_items_def seg_def pnl_alloclen_def One_nat_def)

theorem pnl_insert_range_keeps_order_witness:
  "\<exists>rc pl'. pnl_insert_range demo_malloc demo_pnl 8 6 = Some (rc, pl') \<and>
           (if rc = MDBX_SUCCESS
            then pnl_wf pl' \<and> sorted_wrt (>) (pnl_items pl') \<and>
                 set (pnl_items pl') = {20, 17, 5} \<union> {x. 8 \<le> unat x \<and> unat x < 14}
            else rc \<in> {MDBX_ENOMEM, MDBX_TXN_FULL} \<and> pl' = demo_pnl)"
  using pnl_insert_range_keeps_order [OF demo_malloc_ok demo_pnl_wf(1), of 8 6]
  by (simp add: demo_pnl_wf split del: if_split cong: if_cong)

text \<open>
  C25: merging two descending lists into a block with room for both yields, in place, a
  descending list of all their items, although source and destination share the sentinel
  cell and the copy runs over the destination's own items.
\<close>

theorem pnl_xmerge_merges:
  assumes "pnl_wf dst" "pnl_wf src" "unat (dst ! 1) + unat (src ! 1) \<le> pnl_alloclen dst"
    and "sorted_wrt (\<ge>) (pnl_items dst)" "sorted_wrt (\<ge>) (pnl_items src)"
  shows "\<exists>dst'. pnl_xmerge dst src = Some dst' \<and> pnl_wf dst' \<and> sorted_wrt (\<ge>) (pnl_items dst') \<and>
           mset (pnl_items dst') = mset (pnl_items dst) + mset (pnl_items src)"
  using pnl_xmerge_correct [OF assms(1-3)] assms(4,5) unfolding pnl_sorted_iff by metis

theorem pnl_xmerge_merges_witness:
  "\<exists>dst'. pnl_xmerge demo_pnl [1, 1, 18, 0] = Some dst' \<and> pnl_wf dst' \<and> sorted_wrt (\<ge>) (pnl_items dst') \<and>
           mset (pnl_items dst') = {#18, 20, 17, 5#}"
proof -
  have "pnl_wf [1, 1, 18, 0]" "pnl_items [1, 1, 18, 0] = [18]"
    by (simp_all add: pnl_wf_def pnl_items_def seg_def pnl_alloclen_def One_nat_def)
  then show ?thesis
    using pnl_xmerge_merges [OF demo_pnl_wf(1), of "[1, 1, 18, 0]"] demo_pnl_wf by (simp add: One_nat_def)
qed

text \<open>
  C24: sorting a well-formed list always succeeds, whichever of the two algorithms its size
  selects, and yields a descending permutation of the items in the same block.
\<close>

theorem pnl_sort_sorts:
  assumes "pnl_wf pl"
  shows "\<exists>pl'. pnl_sort pl = Some pl' \<and> pnl_wf pl' \<and> sorted_wrt (\<ge>) (pnl_items pl') \<and>
           mset (pnl_items pl') = mset (pnl_items pl) \<and> pnl_alloclen pl' = pnl_alloclen pl"
  using pnl_sort_correct [OF assms] unfolding pnl_sorted_iff by metis

theorem pnl_sort_sorts_witness:
  "\<exists>pl'. pnl_sort [4, 3, 5, 20, 17, 0, 0, 0, 0, 0] = Some pl' \<and> pnl_wf pl' \<and> sorted_wrt (\<ge>) (pnl_items pl') \<and>
           mset (pnl_items pl') = {#5, 20, 17#} \<and> pnl_alloclen pl' = 4"
proof -
  have "pnl_wf [4, 3, 5, 20, 17, 0, 0, 0, 0, 0]" "pnl_items [4, 3, 5, 20, 17, 0, 0, 0, 0, 0] = [5, 20, 17]"
    "pnl_alloclen [4, 3, 5, 20, 17, 0, 0, 0, 0, 0] = 4"
    by (simp_all add: pnl_wf_def pnl_items_def seg_def pnl_alloclen_def One_nat_def)
  then show ?thesis using pnl_sort_sorts [of "[4, 3, 5, 20, 17, 0, 0, 0, 0, 0]"] by simp
qed

text \<open>
  C26: on a descending list the membership test answers 0 exactly for the pages that are not
  in it, and otherwise the 1-based position of the page; the intersection test answers
  whether some page of a run that does not wrap is in the list.
\<close>

theorem pnl_queries_decide:
  assumes "pnl_wf pl" "unat (pl ! 1) < 2 ^ 32 - 1" "sorted_wrt (\<ge>) (pnl_items pl)"
    and "npages \<noteq> 0" "unat pgno + unat npages \<le> 2 ^ 32"
  shows "(\<exists>n. pnl_exist pl pgno = Some n \<and> (n \<noteq> 0 \<longleftrightarrow> pgno \<in> set (pnl_items pl)) \<and>
              (n \<noteq> 0 \<longrightarrow> pl ! (unat n + 1) = pgno \<and> unat n \<le> unat (pl ! 1))) \<and>
         pnl_intersect pl pgno npages =
           Some (\<exists>x \<in> set (pnl_items pl). unat pgno \<le> unat x \<and> unat x < unat pgno + unat npages)"
proof
  have s: "sorted_by pnl_ordered (pnl_items pl)" using assms(3) by (simp add: pnl_sorted_iff)
  show "\<exists>n. pnl_exist pl pgno = Some n \<and> (n \<noteq> 0 \<longleftrightarrow> pgno \<in> set (pnl_items pl)) \<and>
              (n \<noteq> 0 \<longrightarrow> pl ! (unat n + 1) = pgno \<and> unat n \<le> unat (pl ! 1))"
    using pnl_exist_correct [OF assms(1,2) s, of pgno] by metis
  show "pnl_intersect pl pgno npages =
           Some (\<exists>x \<in> set (pnl_items pl). unat pgno \<le> unat x \<and> unat x < unat pgno + unat npages)"
    by (rule pnl_intersect_correct [OF assms(1,2) s assms(4,5)])
qed

theorem pnl_queries_decide_witness:
  "(\<exists>n. pnl_exist demo_pnl 17 = Some n \<and> (n \<noteq> 0 \<longleftrightarrow> (17 :: u32) \<in> {20, 17, 5}) \<and>
              (n \<noteq> 0 \<longrightarrow> demo_pnl ! (unat n + 1) = 17 \<and> unat n \<le> 3)) \<and>
         pnl_intersect demo_pnl 17 2 =
           Some (\<exists>x \<in> {20, 17, 5 :: u32}. 17 \<le> unat x \<and> unat x < 19)"
  using pnl_queries_decide [of demo_pnl 2 17] by (simp add: demo_pnl_wf)

end
