(* ===== verification/Byte_Memory.thy ===== *)
theory Byte_Memory
  imports Prelude Int_Utils
begin

text \<open>
  Byte-addressed memory and the little-endian loads and stores of the C code on it,
  with the helpers of \<open>mdbx.c\<close> that split an access into the widths the alignment of
  the address allows.
\<close>

subsection \<open>Little-endian values\<close>

type_synonym mem = "nat \<Rightarrow> u8"

fun le_val :: "u8 list \<Rightarrow> nat" where
  "le_val [] = 0"
| "le_val (b # bs) = unat b + 256 * le_val bs"

fun le_bytes :: "nat \<Rightarrow> nat \<Rightarrow> u8 list" where
  "le_bytes 0 v = []"
| "le_bytes (Suc n) v = of_nat v # le_bytes n (v div 256)"

lemma length_le_bytes [simp]: "length (le_bytes n v) = n"
  by (induction n arbitrary: v) simp_all

lemma unat_u8_less: "unat (b :: u8) < 256"
  using unsigned_less [of b, where 'a = nat] by simp

lemma le_val_less: "le_val bs < 256 ^ length bs"
proof (induction bs)
  case (Cons b bs)
  have "unat b + 256 * le_val bs < 256 + 256 * le_val bs" using unat_u8_less [of b] by simp
  also have "\<dots> = 256 * (le_val bs + 1)" by simp
  also have "\<dots> \<le> 256 * 256 ^ length bs" using Cons by simp
  finally show ?case by simp
qed simp

lemma le_val_bytes [simp]: "le_val (le_bytes n v) = v mod 256 ^ n"
proof (induction n arbitrary: v)
  case (Suc n)
  have "v mod (256 * 256 ^ n) = 256 * (v div 256 mod 256 ^ n) + v mod 256"
    by (rule mod_mult2_eq)
  then show ?case using Suc by (simp add: unat_of_nat)
qed simp

lemma le_bytes_val [simp]: "le_bytes (length bs) (le_val bs) = bs"
proof (induction bs)
  case (Cons b bs)
  have "unat (of_nat (unat b + 256 * le_val bs) :: u8) = unat b"
    unfolding unat_of_nat using unat_u8_less [of b] by simp
  then have "of_nat (unat b + 256 * le_val bs) = b" by (simp only: word_unat_eq_iff)
  moreover have "(unat b + 256 * le_val bs) div 256 = le_val bs"
    using unat_u8_less [of b] by simp
  ultimately show ?case using Cons by simp
qed simp

lemma le_val_append: "le_val (xs @ ys) = le_val xs + 256 ^ length xs * le_val ys"
  by (induction xs) (simp_all add: algebra_simps)

lemma le_val_inject: "length xs = length ys \<Longrightarrow> le_val xs = le_val ys \<longleftrightarrow> xs = ys"
  by (metis le_bytes_val)

subsection \<open>Reading and writing runs of bytes\<close>

definition rd_bytes :: "mem \<Rightarrow> nat \<Rightarrow> nat \<Rightarrow> u8 list" where
  "rd_bytes m a n = map (\<lambda>i. m (a + i)) [0..<n]"

definition wr_bytes :: "mem \<Rightarrow> nat \<Rightarrow> u8 list \<Rightarrow> mem" where
  "wr_bytes m a bs = (\<lambda>x. if a \<le> x \<and> x < a + length bs then bs ! (x - a) else m x)"

lemma length_rd_bytes [simp]: "length (rd_bytes m a n) = n"
  by (simp add: rd_bytes_def)

lemma rd_bytes_nth [simp]: "i < n \<Longrightarrow> rd_bytes m a n ! i = m (a + i)"
  by (simp add: rd_bytes_def)

lemma rd_bytes_0 [simp]: "rd_bytes m a 0 = []"
  by (simp add: rd_bytes_def)

lemma rd_wr_same [simp]: "rd_bytes (wr_bytes m a bs) a (length bs) = bs"
  by (rule nth_equalityI) (simp_all add: wr_bytes_def)

lemma rd_wr_same_len: "n = length bs \<Longrightarrow> rd_bytes (wr_bytes m a bs) a n = bs"
  by simp

lemma rd_wr_disjoint:
  "b + n \<le> a \<or> a + length bs \<le> b \<Longrightarrow> rd_bytes (wr_bytes m a bs) b n = rd_bytes m b n"
  by (rule nth_equalityI) (auto simp: wr_bytes_def)

lemma wr_bytes_other: "x < a \<or> a + length bs \<le> x \<Longrightarrow> wr_bytes m a bs x = m x"
  by (auto simp: wr_bytes_def)

lemma rd_bytes_add: "rd_bytes m a (n + k) = rd_bytes m a n @ rd_bytes m (a + n) k"
  by (rule nth_equalityI) (auto simp: nth_append)

lemma rd_bytes_Suc: "rd_bytes m a (Suc n) = m a # rd_bytes m (a + 1) n"
  by (rule nth_equalityI) (auto simp: nth_Cons split: nat.splits)

lemma rd_bytes_cong: "(\<And>i. a \<le> i \<Longrightarrow> i < a + n \<Longrightarrow> m i = m' i) \<Longrightarrow> rd_bytes m a n = rd_bytes m' a n"
  by (rule nth_equalityI) auto

lemma wr_bytes_append:
  "wr_bytes m a (xs @ ys) = wr_bytes (wr_bytes m a xs) (a + length xs) ys"
  by (rule ext) (auto simp: wr_bytes_def nth_append)

lemma wr_rd_bytes [simp]: "wr_bytes m a (rd_bytes m a n) = m"
  by (rule ext) (auto simp: wr_bytes_def)

text \<open>Words of 16, 32 and 64 bits.\<close>

definition ld8 :: "mem \<Rightarrow> nat \<Rightarrow> u8" where "ld8 m a = m a"
definition ld16 :: "mem \<Rightarrow> nat \<Rightarrow> u16" where "ld16 m a = of_nat (le_val (rd_bytes m a 2))"
definition ld32 :: "mem \<Rightarrow> nat \<Rightarrow> u32" where "ld32 m a = of_nat (le_val (rd_bytes m a 4))"
definition ld64 :: "mem \<Rightarrow> nat \<Rightarrow> u64" where "ld64 m a = of_nat (le_val (rd_bytes m a 8))"

definition st8 :: "mem \<Rightarrow> nat \<Rightarrow> u8 \<Rightarrow> mem" where "st8 m a v = wr_bytes m a [v]"
definition st16 :: "mem \<Rightarrow> nat \<Rightarrow> u16 \<Rightarrow> mem" where "st16 m a v = wr_bytes m a (le_bytes 2 (unat v))"
definition st32 :: "mem \<Rightarrow> nat \<Rightarrow> u32 \<Rightarrow> mem" where "st32 m a v = wr_bytes m a (le_bytes 4 (unat v))"
definition st64 :: "mem \<Rightarrow> nat \<Rightarrow> u64 \<Rightarrow> mem" where "st64 m a v = wr_bytes m a (le_bytes 8 (unat v))"

lemma le_val_rd_less: "le_val (rd_bytes m a n) < 256 ^ n"
  using le_val_less [of "rd_bytes m a n"] by simp

lemma unat_ld:
  "unat (ld16 m a) = le_val (rd_bytes m a 2)"
  "unat (ld32 m a) = le_val (rd_bytes m a 4)"
  "unat (ld64 m a) = le_val (rd_bytes m a 8)"
  using le_val_rd_less [of m a 2] le_val_rd_less [of m a 4] le_val_rd_less [of m a 8]
  by (simp_all add: ld16_def ld32_def ld64_def unat_of_nat_lt)

named_theorems mem_simps "loads after stores"

lemma ld_st_same [mem_simps]:
  "ld8 (st8 m a b) a = b"
  "ld16 (st16 m a v) a = v"
  "ld32 (st32 m a w) a = w"
  "ld64 (st64 m a x) a = x"
proof -
  show "ld8 (st8 m a b) a = b" by (simp add: ld8_def st8_def wr_bytes_def)
  have "unat v mod 65536 = unat v" using unsigned_less [of v, where 'a = nat] by simp
  then show "ld16 (st16 m a v) a = v" by (simp add: ld16_def st16_def rd_wr_same_len)
  have "unat w mod 4294967296 = unat w" using unsigned_less [of w, where 'a = nat] by simp
  then show "ld32 (st32 m a w) a = w" by (simp add: ld32_def st32_def rd_wr_same_len)
  have "unat x mod 18446744073709551616 = unat x" using unsigned_less [of x, where 'a = nat] by simp
  then show "ld64 (st64 m a x) a = x" by (simp add: ld64_def st64_def rd_wr_same_len)
qed

lemma ld_wr_disjoint [mem_simps]:
  "b + 1 \<le> a \<or> a + length bs \<le> b \<Longrightarrow> ld8 (wr_bytes m a bs) b = ld8 m b"
  "b + 2 \<le> a \<or> a + length bs \<le> b \<Longrightarrow> ld16 (wr_bytes m a bs) b = ld16 m b"
  "b + 4 \<le> a \<or> a + length bs \<le> b \<Longrightarrow> ld32 (wr_bytes m a bs) b = ld32 m b"
  "b + 8 \<le> a \<or> a + length bs \<le> b \<Longrightarrow> ld64 (wr_bytes m a bs) b = ld64 m b"
  by (auto simp: ld8_def ld16_def ld32_def ld64_def rd_wr_disjoint wr_bytes_other)

subsection \<open>Alignment-aware accesses\<close>

text \<open>
  \<open>ok\<close> stands for the build option \<open>MDBX_UNALIGNED_OK\<close>.  The target is little-endian,
  so the half at index \<open>__BYTE_ORDER__ != __ORDER_LITTLE_ENDIAN__\<close> is the first.
\<close>

definition field_alignment :: "u32 \<Rightarrow> u64 \<Rightarrow> u32" where
  "field_alignment alignment_baseline field_offset =
     (let merge = alignment_baseline OR ucast field_offset in merge AND - merge)"

definition unaligned_peek_u16 :: "bool \<Rightarrow> nat \<Rightarrow> mem \<Rightarrow> nat \<Rightarrow> u16" where
  "unaligned_peek_u16 ok expected_alignment m ptr =
     (if ok \<or> expected_alignment mod 2 = 0 then ld16 m ptr
      else of_nat (le_val (rd_bytes m ptr 2)))"

definition unaligned_poke_u16 :: "bool \<Rightarrow> nat \<Rightarrow> mem \<Rightarrow> nat \<Rightarrow> u16 \<Rightarrow> mem" where
  "unaligned_poke_u16 ok expected_alignment m ptr v =
     (if ok \<or> expected_alignment mod 2 = 0 then st16 m ptr v
      else wr_bytes m ptr (le_bytes 2 (unat v)))"

definition unaligned_peek_u32 :: "bool \<Rightarrow> nat \<Rightarrow> mem \<Rightarrow> nat \<Rightarrow> u32" where
  "unaligned_peek_u32 ok expected_alignment m ptr =
     (if ok \<or> expected_alignment mod 4 = 0 then ld32 m ptr
      else if expected_alignment mod 2 = 0
      then (let lo = ld16 m ptr; hi = ld16 m (ptr + 2) in ucast lo OR push_bit 16 (ucast hi))
      else of_nat (le_val (rd_bytes m ptr 4)))"

definition unaligned_poke_u32 :: "bool \<Rightarrow> nat \<Rightarrow> mem \<Rightarrow> nat \<Rightarrow> u32 \<Rightarrow> mem" where
  "unaligned_poke_u32 ok expected_alignment m ptr v =
     (if ok \<or> expected_alignment mod 4 = 0 then st32 m ptr v
      else if expected_alignment mod 2 = 0
      then (let m = st16 m ptr (ucast v) in st16 m (ptr + 2) (ucast (drop_bit 16 v)))
      else wr_bytes m ptr (le_bytes 4 (unat v)))"

definition unaligned_peek_u64 :: "bool \<Rightarrow> nat \<Rightarrow> mem \<Rightarrow> nat \<Rightarrow> u64" where
  "unaligned_peek_u64 ok expected_alignment m ptr =
     (if ok \<or> expected_alignment mod 8 = 0 then ld64 m ptr
      else if expected_alignment mod 4 = 0
      then (let lo = ld32 m ptr; hi = ld32 m (ptr + 4) in ucast lo OR push_bit 32 (ucast hi))
      else of_nat (le_val (rd_bytes m ptr 8)))"

definition unaligned_poke_u64 :: "bool \<Rightarrow> nat \<Rightarrow> mem \<Rightarrow> nat \<Rightarrow> u64 \<Rightarrow> mem" where
  "unaligned_poke_u64 ok expected_alignment m ptr v =
     (if ok \<or> expected_alignment mod 8 = 0 then st64 m ptr v
      else if expected_alignment mod 4 = 0
      then (let m = st32 m ptr (ucast v) in st32 m (ptr + 4) (ucast (drop_bit 32 v)))
      else wr_bytes m ptr (le_bytes 8 (unat v)))"

lemma unat_or_push:
  assumes "unat (x :: 'a::len word) < 2 ^ n" "unat y * 2 ^ n < 2 ^ LENGTH('a)" "n < LENGTH('a)"
  shows "unat (x OR push_bit n y) = unat x + unat y * 2 ^ n"
proof -
  have "x AND push_bit n y = 0"
  proof (rule bit_eqI)
    fix k
    have "\<not> bit x k" if "n \<le> k"
    proof -
      have "unat x < 2 ^ k" using assms(1) that by (meson less_le_trans one_le_numeral power_increasing)
      then have "\<not> bit (unat x) k" by (simp add: bit_iff_odd)
      then show ?thesis by (simp add: bit_unsigned_iff)
    qed
    then show "bit (x AND push_bit n y) k = bit (0 :: 'a word) k" by (auto simp: bit_simps)
  qed
  then have "x OR push_bit n y = x + push_bit n y" by (simp add: disjunctive_add_eq_or)
  moreover have "unat (push_bit n y) = unat y * 2 ^ n" using assms(2) by (rule unat_push_bit_lt)
  moreover have "unat x + unat y * 2 ^ n < 2 ^ LENGTH('a)"
  proof -
    obtain k where k: "LENGTH('a) = n + k" using assms(3) by (metis less_imp_le le_Suc_ex)
    then have "unat y < 2 ^ k" using assms(2) by (simp add: power_add)
    then have "(unat y + 1) * 2 ^ n \<le> 2 ^ k * 2 ^ n" by (intro mult_le_mono1) simp
    then show ?thesis using assms(1) k by (simp add: power_add mult.commute)
  qed
  ultimately show ?thesis by (simp add: unat_add_lt)
qed

lemma unaligned_peek_eq [mem_simps]:
  "unaligned_peek_u16 ok ea m ptr = ld16 m ptr"
  "unaligned_peek_u32 ok ea m ptr = ld32 m ptr"
  "unaligned_peek_u64 ok ea m ptr = ld64 m ptr"
proof -
  show "unaligned_peek_u16 ok ea m ptr = ld16 m ptr" by (simp add: unaligned_peek_u16_def ld16_def)
  have "ucast (ld16 m ptr) OR push_bit 16 (ucast (ld16 m (ptr + 2))) = ld32 m ptr"
  proof -
    have "unat (ucast (ld16 m ptr) OR push_bit 16 (ucast (ld16 m (ptr + 2))) :: u32) =
          le_val (rd_bytes m ptr 2) + 2 ^ 16 * le_val (rd_bytes m (ptr + 2) 2)"
      using le_val_rd_less [of m ptr 2] le_val_rd_less [of m "ptr + 2" 2]
      by (subst unat_or_push) (simp_all add: unat_ucast_lt unat_ld mult.commute)
    also have "\<dots> = unat (ld32 m ptr)"
      using rd_bytes_add [of m ptr 2 2] by (simp add: unat_ld le_val_append)
    finally show ?thesis by (simp only: word_unat_eq_iff)
  qed
  then show "unaligned_peek_u32 ok ea m ptr = ld32 m ptr"
    by (simp add: unaligned_peek_u32_def Let_def ld32_def [symmetric])
  have "ucast (ld32 m ptr) OR push_bit 32 (ucast (ld32 m (ptr + 4))) = ld64 m ptr"
  proof -
    have "unat (ucast (ld32 m ptr) OR push_bit 32 (ucast (ld32 m (ptr + 4))) :: u64) =
          le_val (rd_bytes m ptr 4) + 2 ^ 32 * le_val (rd_bytes m (ptr + 4) 4)"
      using le_val_rd_less [of m ptr 4] le_val_rd_less [of m "ptr + 4" 4]
      by (subst unat_or_push) (simp_all add: unat_ucast_lt unat_ld mult.commute)
    also have "\<dots> = unat (ld64 m ptr)"
      using rd_bytes_add [of m ptr 4 4] by (simp add: unat_ld le_val_append)
    finally show ?thesis by (simp only: word_unat_eq_iff)
  qed
  then show "unaligned_peek_u64 ok ea m ptr = ld64 m ptr"
    by (simp add: unaligned_peek_u64_def Let_def ld64_def [symmetric])
qed

lemma le_bytes_add: "le_bytes (n + k) v = le_bytes n v @ le_bytes k (v div 256 ^ n)"
  by (induction n arbitrary: v) (simp_all add: div_mult2_eq)

lemma le_bytes_mod: "le_bytes n (v mod 256 ^ n) = le_bytes n v"
  using le_bytes_val [of "le_bytes n v"] by simp

lemma unaligned_poke_eq [mem_simps]:
  "unaligned_poke_u16 ok ea m ptr v = st16 m ptr v"
  "unaligned_poke_u32 ok ea m ptr w = st32 m ptr w"
  "unaligned_poke_u64 ok ea m ptr x = st64 m ptr x"
proof -
  show "unaligned_poke_u16 ok ea m ptr v = st16 m ptr v" by (simp add: unaligned_poke_u16_def st16_def)
  have "st16 (st16 m ptr (ucast w)) (ptr + 2) (ucast (drop_bit 16 w)) = st32 m ptr w"
  proof -
    have "unat (drop_bit 16 w) < 2 ^ LENGTH(16)"
      unfolding unat_drop_bit_div using unsigned_less [of w, where 'a = nat] by (simp add: less_mult_imp_div_less)
    then have "unat (ucast (drop_bit 16 w) :: u16) = unat w div 256 ^ 2"
      by (subst unat_ucast_lt) (simp_all add: unat_drop_bit_div)
    moreover have "le_bytes 2 (unat (ucast w :: u16)) = le_bytes 2 (unat w)"
      using le_bytes_mod [of 2 "unat w"] by (simp add: unat_ucast_mod)
    ultimately show ?thesis
      using le_bytes_add [of 2 2 "unat w"]
      by (simp add: st16_def st32_def wr_bytes_append)
  qed
  then show "unaligned_poke_u32 ok ea m ptr w = st32 m ptr w"
    by (simp add: unaligned_poke_u32_def Let_def st32_def [symmetric])
  have "st32 (st32 m ptr (ucast x)) (ptr + 4) (ucast (drop_bit 32 x)) = st64 m ptr x"
  proof -
    have "unat (drop_bit 32 x) < 2 ^ LENGTH(32)"
      unfolding unat_drop_bit_div using unsigned_less [of x, where 'a = nat] by (simp add: less_mult_imp_div_less)
    then have "unat (ucast (drop_bit 32 x) :: u32) = unat x div 256 ^ 4"
      by (subst unat_ucast_lt) (simp_all add: unat_drop_bit_div)
    moreover have "le_bytes 4 (unat (ucast x :: u32)) = le_bytes 4 (unat x)"
      using le_bytes_mod [of 4 "unat x"] by (simp add: unat_ucast_mod)
    ultimately show ?thesis
      using le_bytes_add [of 4 4 "unat x"]
      by (simp add: st32_def st64_def wr_bytes_append)
  qed
  then show "unaligned_poke_u64 ok ea m ptr x = st64 m ptr x"
    by (simp add: unaligned_poke_u64_def Let_def st64_def [symmetric])
qed

subsection \<open>Key and value descriptors\<close>

record mdbx_val =
  iov_base :: nat
  iov_len :: u64

definition val_bytes :: "mem \<Rightarrow> mdbx_val \<Rightarrow> u8 list" where
  "val_bytes m v = rd_bytes m (iov_base v) (unat (iov_len v))"

lemma length_val_bytes [simp]: "length (val_bytes m v) = unat (iov_len v)"
  by (simp add: val_bytes_def)

subsection \<open>Properties\<close>

text \<open>
  However an access is split for the alignment of its address, a value written is the
  value read back at any alignment, and the three paths of a load agree.
\<close>

theorem unaligned_access_round_trip:
  "unaligned_peek_u16 ok ea (unaligned_poke_u16 ok' ea' m ptr v) ptr = v \<and>
   unaligned_peek_u32 ok ea (unaligned_poke_u32 ok' ea' m ptr w) ptr = w \<and>
   unaligned_peek_u64 ok ea (unaligned_poke_u64 ok' ea' m ptr x) ptr = x"
  by (simp add: mem_simps)

end
