(* ===== verification/Ordered_Binary.thy ===== *)
theory Ordered_Binary
  imports Byte_Memory
begin

text \<open>
  \<open>src/ordered-binary.cpp\<close>: the key comparison that reads both keys as big-endian 32-bit
  words.  The key given by the user (\<open>a\<close>) is padded with zero bytes; the stored key (\<open>b\<close>)
  is not, so its last word is masked.
\<close>

subsection \<open>The code\<close>

definition ntohl :: "u32 \<Rightarrow> u32" where
  "ntohl x = of_nat (le_val (rev (le_bytes 4 (unat x))))"

definition tail_mask :: "nat \<Rightarrow> u32" where
  "tail_mask remaining = (if remaining = 2 then 0x0000ffff else if remaining = 1 then 0x000000ff else 0x00ffffff)"

definition len_difference :: "u64 \<Rightarrow> u64 \<Rightarrow> int" where
  "len_difference a_len b_len = sint (ucast (a_len - b_len) :: 32 word)"

fun compare_words :: "mem \<Rightarrow> nat \<Rightarrow> nat \<Rightarrow> nat \<Rightarrow> int \<Rightarrow> int" where
  "compare_words m dataA dataB remaining len_diff =
     (if remaining \<ge> 4
      then (let aVal = ntohl (ld32 m dataA); bVal = ntohl (ld32 m dataB)
            in if aVal > bVal then 1
               else if aVal < bVal then -1
               else compare_words m (dataA + 4) (dataB + 4) (remaining - 4) len_diff)
      else if remaining \<noteq> 0
      then (let aVal = ntohl (ld32 m dataA); bVal = ntohl (ld32 m dataB AND tail_mask remaining)
            in if aVal > bVal then 1 else if aVal < bVal then -1 else len_diff)
      else len_diff)"

declare compare_words.simps [simp del]

definition compareFast :: "mem \<Rightarrow> nat \<Rightarrow> u64 \<Rightarrow> nat \<Rightarrow> u64 \<Rightarrow> int" where
  "compareFast m a_base a_len b_base b_len =
     compare_words m a_base b_base (unat b_len) (len_difference a_len b_len)"

subsection \<open>The order of byte strings\<close>

fun lex_cmp :: "u8 list \<Rightarrow> u8 list \<Rightarrow> int" where
  "lex_cmp [] [] = 0"
| "lex_cmp [] (y # ys) = -1"
| "lex_cmp (x # xs) [] = 1"
| "lex_cmp (x # xs) (y # ys) = (if x < y then -1 else if y < x then 1 else lex_cmp xs ys)"

lemma lex_cmp_refl [simp]: "lex_cmp xs xs = 0"
  by (induction xs) auto

lemma lex_cmp_eq_0 [simp]: "lex_cmp xs ys = 0 \<longleftrightarrow> xs = ys"
  by (induction xs ys rule: lex_cmp.induct) auto

lemma lex_cmp_range: "lex_cmp xs ys \<in> {-1, 0, 1}"
  by (induction xs ys rule: lex_cmp.induct) auto

lemma lex_cmp_antisym: "lex_cmp ys xs = - lex_cmp xs ys"
  by (induction xs ys rule: lex_cmp.induct) auto

lemma lex_cmp_append:
  "length xs = length ys \<Longrightarrow>
   lex_cmp (xs @ us) (ys @ vs) = (if xs = ys then lex_cmp us vs else lex_cmp xs ys)"
  by (induction xs ys rule: lex_cmp.induct) auto

lemma lex_cmp_longer: "length ys \<le> length xs \<Longrightarrow> lex_cmp (xs @ us) ys = (if xs = ys then lex_cmp us [] else lex_cmp xs ys)"
  by (induction xs ys rule: lex_cmp.induct) auto

lemma lex_cmp_Nil_zeros:
  "lex_cmp (replicate (length ys + k) 0) (ys @ replicate k 0) =
   (if ys = replicate (length ys) 0 then 0 else -1)"
  by (induction ys) (auto simp: word_neq_0_conv)

lemma lex_cmp_zero_padded:
  assumes "length xs + j = length ys + k"
  shows "lex_cmp (xs @ replicate j 0) (ys @ replicate k 0) \<noteq> 0 \<Longrightarrow>
           lex_cmp (xs @ replicate j 0) (ys @ replicate k 0) = lex_cmp xs ys"
    and "lex_cmp (xs @ replicate j 0) (ys @ replicate k 0) = 0 \<Longrightarrow>
           lex_cmp xs ys = sgn (int (length xs) - int (length ys))"
proof -
  have "(lex_cmp (xs @ replicate j 0) (ys @ replicate k 0) \<noteq> 0 \<longrightarrow>
           lex_cmp (xs @ replicate j 0) (ys @ replicate k 0) = lex_cmp xs ys) \<and>
        (lex_cmp (xs @ replicate j 0) (ys @ replicate k 0) = 0 \<longrightarrow>
           lex_cmp xs ys = sgn (int (length xs) - int (length ys)))"
    using assms
  proof (induction xs ys rule: lex_cmp.induct)
    case (2 y ys)
    then have "j = length (y # ys) + k" by simp
    then show ?case using lex_cmp_Nil_zeros [of "y # ys" k] by (auto simp: sgn_if simp del: replicate_Suc)
  next
    case (3 x xs)
    then have "k = length (x # xs) + j" by simp
    then show ?case
      using lex_cmp_Nil_zeros [of "x # xs" j] lex_cmp_antisym [of "replicate k 0" "(x # xs) @ replicate j 0"]
      by (auto simp: sgn_if simp del: replicate_Suc split: if_splits)
  qed auto
  then show "lex_cmp (xs @ replicate j 0) (ys @ replicate k 0) \<noteq> 0 \<Longrightarrow>
           lex_cmp (xs @ replicate j 0) (ys @ replicate k 0) = lex_cmp xs ys"
    and "lex_cmp (xs @ replicate j 0) (ys @ replicate k 0) = 0 \<Longrightarrow>
           lex_cmp xs ys = sgn (int (length xs) - int (length ys))"
    by blast+
qed

subsection \<open>Big-endian words compare like their bytes\<close>

lemma be_val_less:
  assumes "length xs = length ys"
  shows "le_val (rev xs) < le_val (rev ys) \<longleftrightarrow> lex_cmp xs ys = -1"
  using assms
proof (induction xs ys rule: lex_cmp.induct)
  case (4 x xs y ys)
  let ?p = "(256::nat) ^ length ys"
  have len: "length xs = length ys" using 4(2) by simp
  have b: "le_val (rev xs) < ?p" "le_val (rev ys) < ?p"
    using le_val_less [of "rev xs"] le_val_less [of "rev ys"] len by simp_all
  have lt: "u + ?p * unat a < v + ?p * unat b" if "a < b" "u < ?p" for a b :: u8 and u v :: nat
  proof -
    have "unat a + 1 \<le> unat b" using that(1) by (simp add: word_less_nat_alt)
    then have "?p * (unat a + 1) \<le> ?p * unat b" by (rule mult_le_mono2)
    then show ?thesis using that(2) by simp
  qed
  show ?case
    using lt [of x y "le_val (rev xs)" "le_val (rev ys)"] lt [of y x "le_val (rev ys)" "le_val (rev xs)"] b 4(1) len
    by (auto simp: le_val_append)
qed auto

lemma be_val_eq: "length xs = length ys \<Longrightarrow> le_val (rev xs) = le_val (rev ys) \<longleftrightarrow> xs = ys"
  using le_val_inject [of "rev xs" "rev ys"] by simp

lemma unat_ntohl: "unat (ntohl (ld32 m p)) = le_val (rev (rd_bytes m p 4))"
proof -
  have "le_bytes 4 (unat (ld32 m p)) = rd_bytes m p 4"
    using le_bytes_val [of "rd_bytes m p 4"] by (simp add: unat_ld)
  then show ?thesis
    using le_val_less [of "rev (rd_bytes m p 4)"] by (simp add: ntohl_def unat_of_nat_lt)
qed

lemma tail_mask_bytes:
  assumes "0 < r" "r < 4"
  shows "unat (ntohl (ld32 m p AND tail_mask r)) = le_val (rev (rd_bytes m p r @ replicate (4 - r) 0))"
proof -
  have "tail_mask r = of_nat (2 ^ (8 * r) - 1)"
    using assms by (auto simp: tail_mask_def numeral_eq_Suc less_Suc_eq)
  then have "unat (ld32 m p AND tail_mask r) = le_val (rd_bytes m p 4) mod 2 ^ (8 * r)"
    using and_mask_mod [of "8 * r" "ld32 m p"] assms by (simp add: unat_ld)
  also have "\<dots> = le_val (rd_bytes m p r)"
  proof -
    have "rd_bytes m p 4 = rd_bytes m p r @ rd_bytes m (p + r) (4 - r)"
      using rd_bytes_add [of m p r "4 - r"] assms by simp
    then have "le_val (rd_bytes m p 4) = le_val (rd_bytes m p r) + 256 ^ r * le_val (rd_bytes m (p + r) (4 - r))"
      by (simp add: le_val_append)
    moreover have "(2::nat) ^ (8 * r) = 256 ^ r" by (simp add: power_mult)
    ultimately show ?thesis using le_val_rd_less [of m p r] by simp
  qed
  finally have u: "unat (ld32 m p AND tail_mask r) = le_val (rd_bytes m p r)" .
  have "le_bytes 4 (le_val (rd_bytes m p r)) = rd_bytes m p r @ replicate (4 - r) 0"
  proof -
    have "le_val (rd_bytes m p r @ replicate (4 - r) 0) = le_val (rd_bytes m p r)"
    proof -
      have "le_val (replicate k 0) = 0" for k by (induction k) simp_all
      then show ?thesis by (simp add: le_val_append)
    qed
    then show ?thesis using le_bytes_val [of "rd_bytes m p r @ replicate (4 - r) 0"] assms by simp
  qed
  then show ?thesis
    using le_val_less [of "rev (rd_bytes m p r @ replicate (4 - r) 0)"] assms u
    by (simp add: ntohl_def unat_of_nat_lt)
qed

text \<open>The number of words the loop reads, in bytes, and the padded stored key.\<close>

definition word_span :: "nat \<Rightarrow> nat" where
  "word_span n = (n + 3) div 4 * 4"

lemma word_span_step: "4 \<le> n \<Longrightarrow> word_span n = word_span (n - 4) + 4"
proof -
  assume "4 \<le> n"
  then obtain k where "n = k + 4" by (metis le_add_diff_inverse2)
  moreover have "(k + 3 + 4) div 4 = (k + 3) div 4 + 1" by simp
  ultimately show ?thesis by (simp add: word_span_def add.commute add.left_commute)
qed

lemma word_span_bounds: "n \<le> word_span n" "word_span n < n + 4"
  using nat_ceil_bounds [of 4 n] by (simp_all add: word_span_def add.commute)

lemma compare_words_lex:
  "compare_words m pa pb n d =
     (let c = lex_cmp (rd_bytes m pa (word_span n)) (rd_bytes m pb n @ replicate (word_span n - n) 0)
      in if c \<noteq> 0 then c else d)"
proof (induction m pa pb n d rule: compare_words.induct)
  case (1 m pa pb n d)
  consider "4 \<le> n" | "n = 0" | "0 < n" "n < 4" by linarith
  then show ?case
  proof cases
    case 1
    define A where "A = rd_bytes m pa 4"
    define B where "B = rd_bytes m pb 4"
    have sp: "word_span n - n = word_span (n - 4) - (n - 4)" using word_span_step [OF 1] 1 by simp
    have rdA: "rd_bytes m pa (word_span n) = A @ rd_bytes m (pa + 4) (word_span (n - 4))"
      using rd_bytes_add [of m pa 4 "word_span (n - 4)"] word_span_step [OF 1] by (simp add: A_def add.commute)
    have rdB: "rd_bytes m pb n = B @ rd_bytes m (pb + 4) (n - 4)"
      using rd_bytes_add [of m pb 4 "n - 4"] 1 by (simp add: B_def)
    have cmp: "ntohl (ld32 m pa) < ntohl (ld32 m pb) \<longleftrightarrow> lex_cmp A B = -1"
      "ntohl (ld32 m pb) < ntohl (ld32 m pa) \<longleftrightarrow> lex_cmp B A = -1"
      "ntohl (ld32 m pa) = ntohl (ld32 m pb) \<longleftrightarrow> A = B"
      using be_val_less [of A B] be_val_less [of B A] be_val_eq [of A B]
      by (simp_all add: word_less_nat_alt word_unat_eq_iff unat_ntohl A_def B_def)
    show ?thesis
    proof (cases "A = B")
      case True
      then have eq: "compare_words m pa pb n d = compare_words m (pa + 4) (pb + 4) (n - 4) d"
        using 1 cmp by (subst compare_words.simps) (simp add: Let_def)
      show ?thesis
        using 1 True cmp(3) "1.IH" [OF 1 refl refl] unfolding eq rdA rdB sp
        by (simp add: lex_cmp_append Let_def)
    next
      case False
      have "compare_words m pa pb n d = lex_cmp A B"
        using 1 cmp False lex_cmp_range [of A B] lex_cmp_antisym [of A B]
        by (subst compare_words.simps) (auto simp: Let_def)
      moreover have "length A = length B" by (simp add: A_def B_def)
      ultimately show ?thesis using False unfolding rdA rdB by (simp add: lex_cmp_append Let_def)
    qed
  next
    case 2
    then show ?thesis by (subst compare_words.simps) (simp add: word_span_def)
  next
    case 3
    have sp: "word_span n = 4" using 3 by (auto simp: word_span_def)
    define A where "A = rd_bytes m pa 4"
    define B where "B = rd_bytes m pb n @ replicate (4 - n) 0"
    have len: "length A = length B" using 3 by (simp add: A_def B_def)
    have cmp: "ntohl (ld32 m pa) < ntohl (ld32 m pb AND tail_mask n) \<longleftrightarrow> lex_cmp A B = -1"
      "ntohl (ld32 m pb AND tail_mask n) < ntohl (ld32 m pa) \<longleftrightarrow> lex_cmp B A = -1"
      using be_val_less [OF len] be_val_less [OF len [symmetric]] 3
      by (simp_all add: word_less_nat_alt unat_ntohl tail_mask_bytes A_def B_def)
    have "compare_words m pa pb n d = (if lex_cmp A B \<noteq> 0 then lex_cmp A B else d)"
      using 3 cmp lex_cmp_range [of A B] lex_cmp_antisym [of A B]
      by (subst compare_words.simps) (auto simp: Let_def)
    then show ?thesis by (simp add: sp A_def B_def Let_def)
  qed
qed

lemma len_difference_sgn:
  assumes "unat a < 2 ^ 31" "unat b < 2 ^ 31"
  shows "sgn (len_difference a b) = sgn (int (unat a) - int (unat b))"
proof -
  have "uint a = int (unat a)" "uint b = int (unat b)" by (rule uint_nat)+
  moreover have "len_difference a b = signed_take_bit 31 (uint (a - b))"
    unfolding len_difference_def signed_ucast_eq by simp
  moreover have "signed_take_bit 31 (uint (a - b)) = signed_take_bit 31 (uint a - uint b)"
  proof -
    have "uint (a - b) = take_bit 64 (uint a - uint b)"
      using uint_word_arith_bintrs(2) [of a b] by simp
    then show ?thesis by (simp only: signed_take_bit_take_bit) simp
  qed
  moreover have "signed_take_bit 31 (uint a - uint b) = uint a - uint b"
  proof -
    have "unat a < 2147483648" "unat b < 2147483648" using assms by simp_all
    then have "- 2147483648 \<le> uint a - uint b" "uint a - uint b < 2147483648"
      using uint_nat [of a] uint_nat [of b] by linarith+
    then show ?thesis by (intro signed_take_bit_int_eq_self) simp_all
  qed
  ultimately show ?thesis by (simp only:)
qed

subsection \<open>Properties\<close>

text \<open>
  C28: comparing by padded 32-bit words gives the sign of the byte-wise lexicographic order
  with shorter prefixes first, when the user's key is followed by zero bytes up to the last
  word compared and both keys are shorter than 2 GiB.
\<close>

theorem compareFast_is_lexicographic:
  assumes pad: "\<forall>i. unat a_len \<le> i \<longrightarrow> i < word_span (unat b_len) \<longrightarrow> m (a_base + i) = 0"
    and len: "unat a_len < 2 ^ 31" "unat b_len < 2 ^ 31"
  shows "sgn (compareFast m a_base a_len b_base b_len) =
         lex_cmp (rd_bytes m a_base (unat a_len)) (rd_bytes m b_base (unat b_len))"
proof -
  define al where "al = unat a_len"
  define bl where "bl = unat b_len"
  define N where "N = word_span bl"
  define A where "A = rd_bytes m a_base (min al N)"
  define R where "R = rd_bytes m (a_base + N) (al - N)"
  define B where "B = rd_bytes m b_base bl"
  have N: "bl \<le> N" using word_span_bounds by (simp add: N_def)
  have pa: "rd_bytes m a_base N = A @ replicate (N - length A) 0"
  proof (rule nth_equalityI)
    fix i assume "i < length (rd_bytes m a_base N)"
    then have "i < N" by simp
    then show "rd_bytes m a_base N ! i = (A @ replicate (N - length A) 0) ! i"
      using pad by (auto simp: A_def nth_append al_def N_def bl_def)
  qed (simp add: A_def)
  have whole: "rd_bytes m a_base al = A @ R"
    using rd_bytes_add [of m a_base N "al - N"] by (cases "al \<le> N") (simp_all add: A_def R_def min_def)
  define c where "c = lex_cmp (A @ replicate (N - length A) 0) (B @ replicate (N - bl) 0)"
  have run: "compareFast m a_base a_len b_base b_len = (if c \<noteq> 0 then c else len_difference a_len b_len)"
    unfolding compareFast_def compare_words_lex Let_def bl_def [symmetric] N_def [symmetric] pa B_def [symmetric] c_def ..
  have bal: "length A + (N - length A) = length B + (N - bl)"
    using N by (simp add: A_def B_def)
  note z = lex_cmp_zero_padded [OF bal, folded c_def]
  have sg: "sgn (len_difference a_len b_len) = sgn (int al - int bl)"
    unfolding al_def bl_def using len by (rule len_difference_sgn)
  have sc: "sgn c = c"
    using lex_cmp_range [of "A @ replicate (N - length A) 0" "B @ replicate (N - bl) 0"]
    unfolding c_def [symmetric] by (elim insertE) simp_all
  have lB: "length B = bl" by (simp add: B_def)
  show ?thesis
  proof (cases "al \<le> N")
    case True
    then have "R = []" "length A = al" by (simp_all add: R_def A_def)
    then show ?thesis
      unfolding run al_def [symmetric] bl_def [symmetric] whole B_def [symmetric]
      using z sg sc lB by auto
  next
    case False
    then have lA: "length A = N" "R \<noteq> []" by (auto simp: A_def R_def rd_bytes_def)
    have big: "lex_cmp (A @ R) B = (if A = B then 1 else lex_cmp A B)"
      using lex_cmp_longer [of B A R] lA N lB by (cases R) auto
    show ?thesis
    proof (cases "c = 0")
      case True
      then have "lex_cmp A B = sgn (int N - int bl)" using z(2) lA lB by simp
      then have "lex_cmp (A @ R) B = 1" using big N lA lB by (auto simp: sgn_if split: if_splits)
      then show ?thesis
        unfolding run al_def [symmetric] bl_def [symmetric] whole B_def [symmetric]
        using True sg N False by (simp add: sgn_if)
    next
      case nz: False
      then have "c = lex_cmp A B" using z(1) by simp
      then show ?thesis
        unfolding run al_def [symmetric] bl_def [symmetric] whole B_def [symmetric]
        using nz big sc by auto
    qed
  qed
qed

definition demo_keys :: mem where
  "demo_keys = wr_bytes (wr_bytes (\<lambda>_. 0) 0 [107, 101, 121]) 16 [107, 101, 121, 0, 1]"

theorem compareFast_is_lexicographic_witness:
  "sgn (compareFast demo_keys 0 3 16 5) = lex_cmp [107, 101, 121] [107, 101, 121, 0, 1]"
proof -
  have "\<forall>i. unat (3 :: u64) \<le> i \<longrightarrow> i < word_span (unat (5 :: u64)) \<longrightarrow> demo_keys (0 + i) = 0"
    by (auto simp: demo_keys_def wr_bytes_def word_span_def)
  moreover have "rd_bytes demo_keys 0 3 = [107, 101, 121]" "rd_bytes demo_keys 16 5 = [107, 101, 121, 0, 1]"
    by (simp_all add: rd_bytes_def demo_keys_def wr_bytes_def upt_rec)
  ultimately show ?thesis
    using compareFast_is_lexicographic [of 3 5 demo_keys 0 16] by simp
qed

end
