(* ===== verification/Ieee_Double.thy ===== *)
theory Ieee_Double
  imports Byte_Memory "HOL-Library.Log_Nat"
begin

text \<open>
  IEEE 754 doubles as 64-bit patterns: equality, the integer a double stands for and the
  double JavaScript stores for an integer.  Addresses, versions and keys reach the C code
  this way.
\<close>

subsection \<open>Doubles\<close>

definition dbl_exponent :: "u64 \<Rightarrow> nat" where
  "dbl_exponent d = unat d div 2 ^ 52 mod 2 ^ 11"

definition dbl_fraction :: "u64 \<Rightarrow> nat" where
  "dbl_fraction d = unat d mod 2 ^ 52"

definition dbl_is_nan :: "u64 \<Rightarrow> bool" where
  "dbl_is_nan d \<longleftrightarrow> dbl_exponent d = 2047 \<and> dbl_fraction d \<noteq> 0"

definition dbl_is_zero :: "u64 \<Rightarrow> bool" where
  "dbl_is_zero d \<longleftrightarrow> dbl_exponent d = 0 \<and> dbl_fraction d = 0"

text \<open>The C operator \<open>==\<close> on doubles, over their bit patterns.\<close>

definition dbl_eq :: "u64 \<Rightarrow> u64 \<Rightarrow> bool" where
  "dbl_eq a b \<longleftrightarrow> \<not> dbl_is_nan a \<and> \<not> dbl_is_nan b \<and> (a = b \<or> dbl_is_zero a \<and> dbl_is_zero b)"

text \<open>The cast \<open>(size_t)\<close> of a double that is not negative.\<close>

definition size_t_of_double :: "u64 \<Rightarrow> nat" where
  "size_t_of_double d =
     (let e = dbl_exponent d; m = 2 ^ 52 + dbl_fraction d
      in if e < 1023 then 0
         else if e < 1075 then m div 2 ^ (1075 - e)
         else m * 2 ^ (e - 1075))"

text \<open>The double JavaScript stores for an integer below \<open>2 ^ 53\<close>.\<close>

definition double_of_nat :: "nat \<Rightarrow> u64" where
  "double_of_nat n =
     (if n = 0 then 0
      else let e = floorlog 2 n - 1
           in of_nat ((1023 + e) * 2 ^ 52 + (n * 2 ^ (52 - e) - 2 ^ 52)))"

lemma floorlog2_range:
  assumes "0 < n" "n < 2 ^ k"
  shows "floorlog 2 n - 1 < k" "2 ^ (floorlog 2 n - 1) \<le> n" "n < 2 * 2 ^ (floorlog 2 n - 1)"
proof -
  have b: "2 ^ (floorlog 2 n - 1) \<le> n" "n < 2 ^ floorlog 2 n"
    using floorlog_bounds [of n 2] assms(1) by simp_all
  then have "(2::nat) ^ (floorlog 2 n - 1) < 2 ^ k" using assms(2) by linarith
  then show "floorlog 2 n - 1 < k" by simp
  show "2 ^ (floorlog 2 n - 1) \<le> n" by (rule b)
  have "floorlog 2 n \<noteq> 0" using assms(1) by (simp add: floorlog_eq_zero_iff)
  then have "2 ^ floorlog 2 n = (2::nat) * 2 ^ (floorlog 2 n - 1)" by (cases "floorlog 2 n") simp_all
  then show "n < 2 * 2 ^ (floorlog 2 n - 1)" using b(2) by simp
qed

lemma double_of_nat_parts:
  assumes "0 < n" "n < 2 ^ 53"
  defines "e \<equiv> floorlog 2 n - 1"
  shows "e < 53" "2 ^ 52 \<le> n * 2 ^ (52 - e)" "n * 2 ^ (52 - e) < 2 * 2 ^ 52"
    and "unat (double_of_nat n) = (1023 + e) * 2 ^ 52 + (n * 2 ^ (52 - e) - 2 ^ 52)"
proof -
  note r = floorlog2_range [OF assms(1,2), folded e_def]
  show e: "e < 53" by (rule r)
  have p: "2 ^ e * 2 ^ (52 - e) = (2::nat) ^ 52" using e by (simp flip: power_add)
  have "2 ^ e * 2 ^ (52 - e) \<le> n * 2 ^ (52 - e)" using r(2) by simp
  then show lo: "2 ^ 52 \<le> n * 2 ^ (52 - e)" using p by simp
  have "n * 2 ^ (52 - e) < 2 * 2 ^ e * 2 ^ (52 - e)" using r(3) by simp
  then show hi: "n * 2 ^ (52 - e) < 2 * 2 ^ 52" using p by (simp add: mult.assoc)
  have "double_of_nat n = of_nat ((1023 + e) * 2 ^ 52 + (n * 2 ^ (52 - e) - 2 ^ 52))"
    using assms(1) by (simp only: double_of_nat_def Let_def e_def if_False neq0_conv [symmetric])
  moreover have "(1023 + e) * 2 ^ 52 + (n * 2 ^ (52 - e) - 2 ^ 52) < 2 ^ LENGTH(64)"
    using e lo hi by simp
  ultimately show "unat (double_of_nat n) = (1023 + e) * 2 ^ 52 + (n * 2 ^ (52 - e) - 2 ^ 52)"
    by (simp only: unat_of_nat_lt)
qed

lemma div_mod_parts: "f < b \<Longrightarrow> (a * b + f) div b = (a::nat) \<and> (a * b + f) mod b = f"
  by (simp add: div_mult_self3)

lemma double_of_nat_fields:
  assumes "0 < n" "n < 2 ^ 53"
  shows "dbl_exponent (double_of_nat n) = 1023 + (floorlog 2 n - 1)"
    and "dbl_fraction (double_of_nat n) = n * 2 ^ (52 - (floorlog 2 n - 1)) - 2 ^ 52"
proof -
  note p = double_of_nat_parts [OF assms]
  have "n * 2 ^ (52 - (floorlog 2 n - 1)) - 2 ^ 52 < 2 ^ 52" using p(2,3) by linarith
  note dm = div_mod_parts [OF this, of "1023 + (floorlog 2 n - 1)"]
  show "dbl_exponent (double_of_nat n) = 1023 + (floorlog 2 n - 1)"
    unfolding dbl_exponent_def p(4) using dm p(1) by simp
  show "dbl_fraction (double_of_nat n) = n * 2 ^ (52 - (floorlog 2 n - 1)) - 2 ^ 52"
    unfolding dbl_fraction_def p(4) using dm by simp
qed

lemma size_t_of_double_of_nat:
  assumes "n < 2 ^ 53"
  shows "size_t_of_double (double_of_nat n) = n"
proof (cases "n = 0")
  case True
  then show ?thesis by (simp add: double_of_nat_def size_t_of_double_def dbl_exponent_def)
next
  case False
  then have "0 < n" by simp
  define e where "e = floorlog 2 n - 1"
  note f = double_of_nat_fields [OF \<open>0 < n\<close> assms, folded e_def]
    and p = double_of_nat_parts [OF \<open>0 < n\<close> assms, folded e_def]
  have m: "2 ^ 52 + dbl_fraction (double_of_nat n) = n * 2 ^ (52 - e)"
    using f(2) p(2) by simp
  have "e < 53" by (rule p(1))
  then have "e < 52 \<or> e = 52" by linarith
  then show ?thesis
  proof
    assume "e < 52"
    then have "1075 - (1023 + e) = 52 - e" by simp
    then show ?thesis using m f(1) \<open>e < 52\<close> by (simp add: size_t_of_double_def)
  next
    assume "e = 52"
    then show ?thesis using m f(1) by (simp add: size_t_of_double_def)
  qed
qed

lemma dbl_eq_refl: "\<not> dbl_is_nan d \<Longrightarrow> dbl_eq d d"
  by (simp add: dbl_eq_def)

text \<open>
  How the writer tells a double from the integer that replaces it: the high word of an
  address stored as a double is above \<open>0x40000000\<close>, that of the integer is not.
\<close>

lemma address_double_high_word:
  assumes "4 \<le> n" "n < 2 ^ 53"
  shows "0x40000000 < unat (double_of_nat n) div 2 ^ 32"
proof -
  have n: "0 < n" using assms by simp
  note p = double_of_nat_parts [OF n assms(2)]
  have "2 \<le> floorlog 2 n - 1"
  proof (rule ccontr)
    assume "\<not> 2 \<le> floorlog 2 n - 1"
    then have "(2::nat) ^ (floorlog 2 n - 1) \<le> 2 ^ 1" by (intro power_increasing) simp_all
    then show False using floorlog2_range(3) [OF n assms(2)] assms(1) by simp
  qed
  then have "1025 * 2 ^ 52 \<le> (1023 + (floorlog 2 n - 1)) * 2 ^ 52" by (intro mult_le_mono1) simp
  then have "1025 * 2 ^ 52 \<le> unat (double_of_nat n)" unfolding p(4) by linarith
  then have "1025 * 2 ^ 52 div 2 ^ 32 \<le> unat (double_of_nat n) div 2 ^ 32" by (rule div_le_mono)
  then show ?thesis by simp
qed

lemma address_high_word: "n < 2 ^ 48 \<Longrightarrow> n div 2 ^ 32 < 0x40000000" for n :: nat
  by (simp add: less_mult_imp_div_less)

end
