(* ===== verification/Binding_Types.thy ===== *)
theory Binding_Types
  imports Ieee_Double
begin

text \<open>
  The data of the native binding (\<open>src/lmdbx-js.h\<close>): the compression settings and the
  part of a database wrapper that the value code reads.
\<close>

subsection \<open>Settings and wrappers\<close>

record compression =
  dictionary :: nat
  decompressTarget :: nat
  decompressSize :: u32
  compressionThreshold :: u32
  acceleration :: int

text \<open>What becomes of the memory a value pointed to: \<open>argtokey_callback_t\<close>.\<close>

datatype argtokey_callback = NullCallback | FreeValue | DeleteCompressed

record dbi_wrap =
  dw_dbi :: u32
  dw_flags :: u32
  dw_isOpen :: bool
  compression_of :: "compression option"
  hasVersions :: bool
  getFast :: bool

end
