(* ===== verification/Compression.thy ===== *)
theory Compression
  imports Binding_Types
begin

text \<open>
  Value compression (\<open>src/compression.cpp\<close>) and the reading side of it in
  \<open>src/misc.cpp\<close>: the header that marks a compressed value, the decision to compress,
  and the version prefix and decompression of a value read from the database.  The LZ4
  functions are parameters; what the code relies on is \<open>codec_ok\<close>.
\<close>

subsection \<open>The codec\<close>

text \<open>
  \<open>lz4_compress\<close> is \<open>LZ4_loadDict\<close> followed by \<open>LZ4_compress_fast_continue\<close>: dictionary and
  its size, source, destination, source size, capacity, acceleration.  \<open>lz4_decompress\<close> is
  \<open>LZ4_decompress_safe_usingDict\<close>: source, destination, compressed size, capacity,
  dictionary and its size.
\<close>

record lz4 =
  lz4_compress :: "mem \<Rightarrow> nat \<Rightarrow> int \<Rightarrow> nat \<Rightarrow> nat \<Rightarrow> int \<Rightarrow> int \<Rightarrow> int \<Rightarrow> int \<times> mem"
  lz4_decompress :: "mem \<Rightarrow> nat \<Rightarrow> nat \<Rightarrow> int \<Rightarrow> int \<Rightarrow> nat \<Rightarrow> int \<Rightarrow> int \<times> mem"

definition apart :: "nat \<Rightarrow> nat \<Rightarrow> nat \<Rightarrow> nat \<Rightarrow> bool" where
  "apart a n b k \<longleftrightarrow> a + n \<le> b \<or> b + k \<le> a"

lemma apart_sym: "apart a n b k \<longleftrightarrow> apart b k a n"
  by (auto simp: apart_def)

definition same_outside :: "nat \<Rightarrow> nat \<Rightarrow> mem \<Rightarrow> mem \<Rightarrow> bool" where
  "same_outside a n m m' \<longleftrightarrow> (\<forall>x. x < a \<or> a + n \<le> x \<longrightarrow> m' x = m x)"

lemma same_outside_refl [simp]: "same_outside a n m m"
  by (simp add: same_outside_def)

lemma rd_bytes_same_outside:
  "same_outside a n m m' \<Longrightarrow> apart b k a n \<Longrightarrow> rd_bytes m' b k = rd_bytes m b k"
  by (rule rd_bytes_cong) (auto simp: same_outside_def apart_def)

text \<open>The compressed bytes \<open>enc\<close> decompress to \<open>bs\<close> in any memory that holds the dictionary.\<close>

definition recovers :: "lz4 \<Rightarrow> u8 list \<Rightarrow> int \<Rightarrow> u8 list \<Rightarrow> u8 list \<Rightarrow> bool" where
  "recovers z dict dlen enc bs \<longleftrightarrow>
     (\<forall>m dictp src dst.
        rd_bytes m dictp (nat dlen) = dict \<longrightarrow> rd_bytes m src (length enc) = enc \<longrightarrow>
        dictp + nat dlen = dst \<longrightarrow> apart src (length enc) dst (length bs) \<longrightarrow>
        (\<exists>m'. lz4_decompress z m src dst (int (length enc)) (int (length bs)) dictp dlen = (int (length bs), m') \<and>
              rd_bytes m' dst (length bs) = bs \<and> same_outside dst (length bs) m m'))"

text \<open>
  Whatever was compressed with a dictionary is recovered from the same bytes with the same
  dictionary, placed immediately before the destination as the code has it.
\<close>

definition codec_ok :: "lz4 \<Rightarrow> bool" where
  "codec_ok z \<longleftrightarrow>
     (\<forall>m dict dlen src dst n cap acc k m1.
        lz4_compress z m dict dlen src dst n cap acc = (k, m1) \<longrightarrow> 0 < k \<longrightarrow> 0 \<le> dlen \<longrightarrow>
        apart src (nat n) dst (nat cap) \<longrightarrow>
        0 \<le> n \<and> k \<le> cap \<and> same_outside dst (nat cap) m m1 \<and>
        recovers z (rd_bytes m dict (nat dlen)) dlen (rd_bytes m1 dst (nat k)) (rd_bytes m src (nat n)))"

subsection \<open>The code\<close>

text \<open>
  \<open>Compression::ctor\<close>.  The options are those of the JavaScript object: the dictionary is
  \<open>None\<close> when undefined, \<open>Some None\<close> when it is not a buffer, else its address and length.
\<close>

definition compression_ctor :: "(nat \<times> nat) option option \<Rightarrow> int option \<Rightarrow> string + compression" where
  "compression_ctor dictionaryOption thresholdOption =
     (let compressionThreshold = (case thresholdOption of None \<Rightarrow> 1000 | Some t \<Rightarrow> word_of_int t)
      in case dictionaryOption of
           None \<Rightarrow> Inr \<lparr>dictionary = 0, decompressTarget = 0, decompressSize = 0,
                        compressionThreshold = compressionThreshold, acceleration = 1\<rparr>
         | Some None \<Rightarrow> Inl ''Dictionary must be a buffer''
         | Some (Some (data, len)) \<Rightarrow>
             (let dictSize = push_bit 3 (drop_bit 3 (of_nat len :: u32))
              in Inr \<lparr>dictionary = data, decompressTarget = data + unat dictSize, decompressSize = 0,
                      compressionThreshold = compressionThreshold, acceleration = 1\<rparr>))"

definition setBuffer :: "compression \<Rightarrow> nat \<Rightarrow> nat \<Rightarrow> u32 \<Rightarrow> compression" where
  "setBuffer c data len dictSize =
     c\<lparr>dictionary := data, decompressTarget := data + unat dictSize,
       decompressSize := of_nat len - dictSize\<rparr>"

definition dictionary_size :: "compression \<Rightarrow> int" where
  "dictionary_size c = int (decompressTarget c) - int (dictionary c)"

definition read_header :: "mem \<Rightarrow> nat \<Rightarrow> (u32 \<times> nat) option" where
  "read_header m charData =
     (if m charData = 254
      then Some (push_bit 16 (ucast (m (charData + 1))) OR push_bit 8 (ucast (m (charData + 2)))
                 OR ucast (m (charData + 3)), 4)
      else if m charData = 255
      then Some (push_bit 24 (ucast (m (charData + 4))) OR push_bit 16 (ucast (m (charData + 5)))
                 OR push_bit 8 (ucast (m (charData + 6))) OR ucast (m (charData + 7)), 8)
      else None)"

definition decompress ::
    "lz4 \<Rightarrow> compression \<Rightarrow> bool \<Rightarrow> mem \<Rightarrow> mdbx_val \<Rightarrow> mem \<times> mdbx_val \<times> bool \<times> string option" where
  "decompress z c canAllocate m data =
     (let compressedLength = (ucast (iov_len data) :: u32)
      in case read_header m (iov_base data) of
           None \<Rightarrow> (m, data, False, if canAllocate then Some ''Unknown status byte'' else None)
         | Some (uncompressedLength, compressionHeaderSize) \<Rightarrow>
             (let data' = \<lparr>iov_base = decompressTarget c, iov_len = ucast uncompressedLength\<rparr>
              in if uncompressedLength > decompressSize c then (m, data', False, None)
                 else (let (written, m') = lz4_decompress z m (iov_base data + compressionHeaderSize)
                             (decompressTarget c) (sint (compressedLength - of_nat compressionHeaderSize))
                             (sint uncompressedLength) (dictionary c) (dictionary_size c)
                       in if written < 0
                          then (m', data', False, if canAllocate then Some ''Failed to decompress data'' else None)
                          else (m', data', True, None))))"

definition LZ4_MAX_INPUT_SIZE :: u32 where "LZ4_MAX_INPUT_SIZE = 0x7E000000"

definition LZ4_COMPRESSBOUND :: "u64 \<Rightarrow> u64" where
  "LZ4_COMPRESSBOUND isize =
     (if ucast isize > LZ4_MAX_INPUT_SIZE then 0 else isize + isize div 255 + 16)"

definition write_header :: "mem \<Rightarrow> nat \<Rightarrow> u64 \<Rightarrow> mem" where
  "write_header m p dataLength =
     (if dataLength \<ge> 0x1000000
      then m(p := 255, p + 2 := ucast (drop_bit 40 dataLength), p + 3 := ucast (drop_bit 32 dataLength),
             p + 4 := ucast (drop_bit 24 dataLength), p + 5 := ucast (drop_bit 16 dataLength),
             p + 6 := ucast (drop_bit 8 dataLength), p + 7 := ucast dataLength)
      else m(p := 254, p + 1 := ucast (drop_bit 16 dataLength), p + 2 := ucast (drop_bit 8 dataLength),
             p + 3 := ucast dataLength))"

text \<open>
  \<open>Compression::compress\<close>; \<open>compressed\<close> is the address that \<open>new char[]\<close> returns.  The
  second component of the result is \<open>freeValue\<close>'s argument when it is called.
\<close>

definition compress ::
    "lz4 \<Rightarrow> compression \<Rightarrow> nat \<Rightarrow> mem \<Rightarrow> mdbx_val \<Rightarrow> argtokey_callback \<Rightarrow>
     mem \<times> mdbx_val option \<times> mdbx_val \<times> argtokey_callback" where
  "compress z c compressed m value freeValue =
     (let dataLength = iov_len value; data = iov_base value
      in if iov_len value < ucast (compressionThreshold c) \<and> \<not> (iov_len value > 0 \<and> m data \<ge> 250)
         then (m, None, value, freeValue)
         else (let longSize = dataLength \<ge> 0x1000000;
                   prefixSize = (if longSize then 8 else 4);
                   maxCompressedSize = sint (ucast (LZ4_COMPRESSBOUND dataLength) :: 32 word);
                   (compressedSize, m) = lz4_compress z m (dictionary c) (dictionary_size c) data
                     (compressed + prefixSize) (sint (ucast dataLength :: 32 word)) maxCompressedSize (acceleration c)
               in if compressedSize > 0
                  then (write_header m compressed dataLength,
                        (if freeValue \<noteq> NullCallback then Some value else None),
                        \<lparr>iov_base = compressed, iov_len = word_of_int (compressedSize + int prefixSize)\<rparr>,
                        DeleteCompressed)
                  else (m, None, value, NullCallback)))"

text \<open>
  \<open>Compression::compressInstruction\<close> on the words of a write instruction: the value size
  12 bytes before the status word, the value address before it, and the status word itself.
  The result is the return code and whether the writer is signalled.
\<close>

definition compressInstruction ::
    "lz4 \<Rightarrow> compression \<Rightarrow> nat \<Rightarrow> bool \<Rightarrow> mem \<Rightarrow> nat \<Rightarrow> mem \<times> int \<times> bool" where
  "compressInstruction z c compressed env m compressionAddress =
     (let value = \<lparr>iov_base = size_t_of_double (ld64 m (compressionAddress - 8)),
                   iov_len = ucast (ld32 m (compressionAddress - 12))\<rparr>;
          (m, freed, value, compressedData) = compress z c compressed m value NullCallback
      in if compressedData \<noteq> NullCallback
         then (let m = st32 m (compressionAddress - 12) (ucast (iov_len value));
                   m = st64 m (compressionAddress - 8) (of_nat (iov_base value));
                   status = ld64 m compressionAddress;
                   m = st64 m compressionAddress 0
               in (m, 0, status = 1 \<and> env))
         else (m, 1, False))"

text \<open>\<open>getVersionAndUncompress\<close> of \<open>misc.cpp\<close>; \<open>keyBuffer\<close> is that of the environment.\<close>

definition getVersionAndUncompress ::
    "lz4 \<Rightarrow> nat \<Rightarrow> dbi_wrap \<Rightarrow> mem \<Rightarrow> mdbx_val \<Rightarrow> mem \<times> mdbx_val \<times> bool \<times> string option" where
  "getVersionAndUncompress z keyBuffer dw m data =
     (let (m, data) =
        (if hasVersions dw
         then (st64 m (keyBuffer + 16) (ld64 m (iov_base data)),
               \<lparr>iov_base = iov_base data + 8, iov_len = iov_len data - 8\<rparr>)
         else (m, data))
      in if iov_len data = 0 then (m, data, True, None)
         else (case compression_of dw of
                 None \<Rightarrow> (m, data, True, None)
               | Some c \<Rightarrow>
                   (if m (iov_base data) \<ge> 250
                    then decompress z c (\<not> getFast dw) m data
                    else (m, data, True, None))))"

text \<open>
  \<open>valToBinaryFast\<close>: copies a value into the decompression buffer, or into the global
  buffer when the database is not compressed.
\<close>

definition valToBinaryFast :: "nat \<Rightarrow> u64 \<Rightarrow> dbi_wrap \<Rightarrow> mem \<Rightarrow> mdbx_val \<Rightarrow> mem \<times> bool" where
  "valToBinaryFast globalUnsafePtr globalUnsafeSize dw m data =
     (case compression_of dw of
        Some c \<Rightarrow>
          (if iov_base data = decompressTarget c then (m, True)
           else if iov_len data > ucast (decompressSize c) then (m, False)
           else (wr_bytes m (decompressTarget c) (val_bytes m data), True))
      | None \<Rightarrow>
          (if iov_len data > globalUnsafeSize then (m, False)
           else (wr_bytes m globalUnsafePtr (val_bytes m data), True)))"

subsection \<open>The header\<close>

lemma header_bytes_recombine:
  fixes n :: u64
  shows "unat n < 2 ^ 24 \<Longrightarrow>
     push_bit 16 (ucast (ucast (drop_bit 16 n) :: u8)) OR push_bit 8 (ucast (ucast (drop_bit 8 n) :: u8))
       OR ucast (ucast n :: u8) = (ucast n :: u32)"
    and "push_bit 24 (ucast (ucast (drop_bit 24 n) :: u8)) OR push_bit 16 (ucast (ucast (drop_bit 16 n) :: u8))
       OR push_bit 8 (ucast (ucast (drop_bit 8 n) :: u8)) OR ucast (ucast n :: u8) = (ucast n :: u32)"
proof -
  have hi: "\<not> bit n k" if "unat n < 2 ^ 24" "24 \<le> k" for k
  proof -
    have "unat n < 2 ^ k" using that by (meson less_le_trans one_le_numeral power_increasing)
    then have "\<not> bit (unat n) k" by (simp add: bit_iff_odd)
    then show ?thesis by (simp add: bit_unsigned_iff)
  qed
  show "push_bit 24 (ucast (ucast (drop_bit 24 n) :: u8)) OR push_bit 16 (ucast (ucast (drop_bit 16 n) :: u8))
       OR push_bit 8 (ucast (ucast (drop_bit 8 n) :: u8)) OR ucast (ucast n :: u8) = (ucast n :: u32)"
  proof (rule bit_word_eqI)
    fix k :: nat
    consider "k < 8" | "8 \<le> k" "k < 16" | "16 \<le> k" "k < 24" | "24 \<le> k" by linarith
    then show "bit (push_bit 24 (ucast (ucast (drop_bit 24 n) :: u8)) OR push_bit 16 (ucast (ucast (drop_bit 16 n) :: u8))
       OR push_bit 8 (ucast (ucast (drop_bit 8 n) :: u8)) OR ucast (ucast n :: u8) :: u32) k = bit (ucast n :: u32) k"
      by cases (auto simp: bit_simps)
  qed
  show "push_bit 16 (ucast (ucast (drop_bit 16 n) :: u8)) OR push_bit 8 (ucast (ucast (drop_bit 8 n) :: u8))
       OR ucast (ucast n :: u8) = (ucast n :: u32)" if "unat n < 2 ^ 24"
  proof (rule bit_word_eqI)
    fix k :: nat
    consider "k < 8" | "8 \<le> k" "k < 16" | "16 \<le> k" "k < 24" | "24 \<le> k" by linarith
    then show "bit (push_bit 16 (ucast (ucast (drop_bit 16 n) :: u8)) OR push_bit 8 (ucast (ucast (drop_bit 8 n) :: u8))
       OR ucast (ucast n :: u8) :: u32) k = bit (ucast n :: u32) k"
      using hi [OF that, of k] by cases (auto simp: bit_simps)
  qed
qed

lemma read_write_header:
  assumes "unat n < 2 ^ 32"
  shows "read_header (write_header m p n) p = Some (ucast n, if n \<ge> 0x1000000 then 8 else 4)"
  using header_bytes_recombine [of n]
  by (auto simp: read_header_def write_header_def word_le_nat_alt)

lemma write_header_outside: "same_outside p (if n \<ge> 0x1000000 then 8 else 4) m (write_header m p n)"
  by (auto simp: same_outside_def write_header_def)

lemma write_header_first: "write_header m p n p \<ge> 250"
  by (simp add: write_header_def)

subsection \<open>Compressing\<close>

lemma sint32_small: "unat (w :: 32 word) < 2 ^ 31 \<Longrightarrow> sint w = int (unat w)"
proof -
  assume "unat w < 2 ^ 31"
  then have "unat w < 2147483648" by simp
  then have "- 2147483648 \<le> uint w" "uint w < 2147483648" using uint_nat [of w] by linarith+
  then have "sint w = uint w" unfolding sint_uint by (simp add: signed_take_bit_int_eq_self)
  then show ?thesis using uint_nat [of w] by (rule trans)
qed

lemma compressbound_int:
  assumes "unat n \<le> unat LZ4_MAX_INPUT_SIZE"
  shows "sint (ucast (LZ4_COMPRESSBOUND n) :: 32 word) = int (unat n + unat n div 255 + 16)"
proof -
  have n: "unat n \<le> 2113929216" using assms by (simp add: LZ4_MAX_INPUT_SIZE_def)
  have "unat n div 255 \<le> 2113929216 div 255" using n by (rule div_le_mono)
  then have d: "unat n + unat n div 255 + 16 < 2 ^ 31" using n by simp
  have "unat (n div 255) = unat n div 255" by (simp add: unat_div)
  then have "unat (n + n div 255) = unat n + unat n div 255"
    using d by (subst unat_add_lt) simp_all
  then have u: "unat (n + n div 255 + 16) = unat n + unat n div 255 + 16"
    using d by (subst unat_add_lt) simp_all
  have "unat (ucast n :: u32) = unat n" using n by (subst unat_ucast_lt) simp_all
  then have "\<not> LZ4_MAX_INPUT_SIZE < ucast n" using assms by (simp add: word_less_nat_alt)
  then have b: "LZ4_COMPRESSBOUND n = n + n div 255 + 16" by (simp add: LZ4_COMPRESSBOUND_def)
  have v: "unat (ucast (n + n div 255 + 16) :: 32 word) = unat n + unat n div 255 + 16"
    using d u by (subst unat_ucast_lt) simp_all
  show ?thesis unfolding b using sint32_small [OF d [folded v]] v by simp
qed

lemma read_header_copy:
  assumes "read_header m p = Some (u, h)" "\<And>i. i < h \<Longrightarrow> m' (q + i) = m (p + i)"
  shows "read_header m' q = Some (u, h)"
proof -
  have h: "m p = 254 \<and> h = 4 \<or> m p = 255 \<and> h = 8"
    using assms(1) by (auto simp: read_header_def split: if_splits)
  then have "m' q = m p" using assms(2) [of 0] by auto
  moreover have "m' (q + 1) = m (p + 1)" "m' (q + 2) = m (p + 2)" "m' (q + 3) = m (p + 3)"
    using assms(2) [of 1] assms(2) [of 2] assms(2) [of 3] h by auto
  moreover have "h = 8 \<Longrightarrow> m' (q + 4) = m (p + 4) \<and> m' (q + 5) = m (p + 5) \<and> m' (q + 6) = m (p + 6) \<and> m' (q + 7) = m (p + 7)"
    using assms(2) [of 4] assms(2) [of 5] assms(2) [of 6] assms(2) [of 7] by simp
  ultimately show ?thesis using assms(1) h by (auto simp: read_header_def)
qed

text \<open>What \<open>compress\<close> leaves when it does not fail.\<close>

lemma compress_raw:
  assumes "compress z c new m v fv = (m1, freed, v1, ret)"
    "iov_len v < ucast (compressionThreshold c)" "\<not> (iov_len v > 0 \<and> m (iov_base v) \<ge> 250)"
  shows "m1 = m" "v1 = v" "ret = fv" "freed = None"
  using assms by (simp_all add: compress_def Let_def)

lemma compress_encoded:
  assumes codec: "codec_ok z" and dict: "dictionary c \<le> decompressTarget c"
    and run: "compress z c new m v fv = (m1, freed, v1, ret)" "ret \<noteq> NullCallback"
    and enc: "\<not> (iov_len v < ucast (compressionThreshold c) \<and> \<not> (iov_len v > 0 \<and> m (iov_base v) \<ge> 250))"
    and size: "unat (iov_len v) \<le> unat LZ4_MAX_INPUT_SIZE"
    and fresh: "apart (iov_base v) (unat (iov_len v)) new (unat (iov_len v) + unat (iov_len v) div 255 + 24)"
  defines "n \<equiv> unat (iov_len v)"
  obtains k h where "0 < k" "k \<le> n + n div 255 + 16" "h = (if iov_len v \<ge> 0x1000000 then 8 else 4)"
    "iov_base v1 = new" "unat (iov_len v1) = k + h" "ret = DeleteCompressed"
    "freed = (if fv \<noteq> NullCallback then Some v else None)"
    "same_outside new (h + n + n div 255 + 16) m m1"
    "read_header m1 new = Some (ucast (iov_len v), h)" "m1 new \<ge> 250"
    "recovers z (rd_bytes m (dictionary c) (nat (dictionary_size c))) (dictionary_size c)
       (rd_bytes m1 (new + h) k) (val_bytes m v)"
proof -
  define h :: nat where "h = (if iov_len v \<ge> 0x1000000 then 8 else 4)"
  define B where "B = n + n div 255 + 16"
  have n31: "n \<le> 2113929216" using size by (simp add: n_def LZ4_MAX_INPUT_SIZE_def)
  then have "n div 255 \<le> 2113929216 div 255" by (rule div_le_mono)
  then have B: "B < 2 ^ 31 - 8" using n31 by (simp add: B_def)
  have max: "sint (ucast (LZ4_COMPRESSBOUND (iov_len v)) :: 32 word) = int B"
    using compressbound_int [OF size] by (simp add: B_def n_def)
  have "unat (ucast (iov_len v) :: u32) = n" using n31 by (subst unat_ucast_lt) (simp_all add: n_def)
  then have len: "sint (ucast (iov_len v) :: 32 word) = int n"
    using n31 by (subst sint32_small) simp_all
  obtain K mz where z: "lz4_compress z m (dictionary c) (dictionary_size c) (iov_base v) (new + h) (int n) (int B)
      (acceleration c) = (K, mz)" by (metis surj_pair)
  have hh: "(if 0x1000000 \<le> iov_len v then 8 else 4) = h" by (simp add: h_def)
  have "compress z c new m v fv =
     (if K > 0 then (write_header mz new (iov_len v), if fv \<noteq> NullCallback then Some v else None,
        \<lparr>iov_base = new, iov_len = word_of_int (K + int h)\<rparr>, DeleteCompressed) else (mz, None, v, NullCallback))"
    unfolding compress_def Let_def if_not_P [OF enc] max len hh z by simp
  then have K: "0 < K" and m1: "m1 = write_header mz new (iov_len v)"
    and v1: "v1 = \<lparr>iov_base = new, iov_len = word_of_int (K + int h)\<rparr>" "ret = DeleteCompressed"
    and fr: "freed = (if fv \<noteq> NullCallback then Some v else None)"
    using run by (auto split: if_splits)
  have dl: "0 \<le> dictionary_size c" using dict by (simp add: dictionary_size_def)
  have h8: "h \<le> 8" by (simp add: h_def)
  have "apart (iov_base v) n (new + h) B"
    using fresh h8 unfolding apart_def B_def n_def by auto
  then have "apart (iov_base v) (nat (int n)) (new + h) (nat (int B))" by (simp only: nat_int)
  note law = codec [unfolded codec_ok_def, rule_format, OF z K dl this]
  have KB: "K \<le> int B" and frame: "same_outside (new + h) B m mz" using law by simp_all
  have wh: "same_outside new h mz m1" unfolding m1 h_def by (rule write_header_outside)
  have body: "rd_bytes m1 (new + h) k = rd_bytes mz (new + h) k" for k
    using wh by (rule rd_bytes_same_outside) (simp add: apart_def)
  show ?thesis
  proof (rule that [of "nat K" h])
    show "0 < nat K" using K by simp
    show "nat K \<le> n + n div 255 + 16" using KB by (simp add: B_def)
    show "h = (if iov_len v \<ge> 0x1000000 then 8 else 4)" by (simp add: h_def)
    show "iov_base v1 = new" "ret = DeleteCompressed" by (simp_all add: v1)
    have "word_of_int (K + int h) = (of_nat (nat K + h) :: u64)" using K by simp
    moreover have "nat K + h < 2 ^ LENGTH(64)" using KB B h8 by simp
    ultimately show "unat (iov_len v1) = nat K + h"
      using v1 by (simp only: mdbx_val.simps unat_of_nat_lt)
    show "freed = (if fv \<noteq> NullCallback then Some v else None)" by (rule fr)
    show "same_outside new (h + n + n div 255 + 16) m m1"
      using wh frame by (auto simp: same_outside_def B_def)
    have "unat (iov_len v) < 2 ^ 32" using n31 by (simp add: n_def)
    then show "read_header m1 new = Some (ucast (iov_len v), h)"
      unfolding m1 h_def by (rule read_write_header)
    show "m1 new \<ge> 250" unfolding m1 by (rule write_header_first)
    show "recovers z (rd_bytes m (dictionary c) (nat (dictionary_size c))) (dictionary_size c)
       (rd_bytes m1 (new + h) (nat K)) (val_bytes m v)"
      using law unfolding body val_bytes_def n_def [symmetric] nat_int by simp
  qed
qed

text \<open>Reading back without a version.\<close>

lemma decompress_encoded:
  assumes hdr: "read_header m (iov_base d) = Some (of_nat n, h)" "h \<le> 8"
    and n: "n < 2 ^ 31" "n \<le> unat (decompressSize c)"
    and k: "unat (iov_len d) = k + h" "k < 2 ^ 31"
    and dec: "\<exists>m3. lz4_decompress z m (iov_base d + h) (decompressTarget c) (int k) (int n) (dictionary c)
                (dictionary_size c) = (int n, m3) \<and> rd_bytes m3 (decompressTarget c) n = bs \<and>
              same_outside (decompressTarget c) n m m3"
  shows "\<exists>m3. decompress z c canAllocate m d =
             (m3, \<lparr>iov_base = decompressTarget c, iov_len = of_nat n\<rparr>, True, None) \<and>
           rd_bytes m3 (decompressTarget c) n = bs \<and> same_outside (decompressTarget c) n m m3"
proof -
  have n32: "unat (of_nat n :: u32) = n" using n by (subst unat_of_nat_lt) simp_all
  have "\<not> decompressSize c < of_nat n" using n n32 by (simp add: word_less_nat_alt)
  moreover have "sint (of_nat n :: u32) = int n" using n n32 by (subst sint32_small) simp_all
  moreover have "sint (ucast (iov_len d) - of_nat h :: u32) = int k"
  proof -
    have "unat (ucast (iov_len d) :: u32) = k + h" using k hdr(2) by (subst unat_ucast_lt) simp_all
    moreover have "unat (of_nat h :: u32) = h" using hdr(2) by (subst unat_of_nat_lt) simp_all
    ultimately have "unat (ucast (iov_len d) - of_nat h :: u32) = k"
      by (subst unat_sub_le) (simp_all add: word_le_nat_alt)
    then show ?thesis using k(2) by (subst sint32_small) simp_all
  qed
  moreover have "ucast (of_nat n :: u32) = (of_nat n :: u64)"
    using n n32 by (simp add: word_unat_eq_iff unat_ucast_mod unat_of_nat)
  ultimately show ?thesis
    using dec unfolding decompress_def hdr(1) by (auto simp: Let_def)
qed

text \<open>The version prefix.\<close>

lemma read_version_prefix:
  assumes "val_bytes m d = version @ bs" "length version = 8" "apart (kb + 16) 8 (iov_base d) (unat (iov_len d))"
  defines "m' \<equiv> st64 m (kb + 16) (ld64 m (iov_base d))"
    and "d' \<equiv> \<lparr>iov_base = iov_base d + 8, iov_len = iov_len d - 8\<rparr>"
  shows "val_bytes m' d' = bs" "rd_bytes m' (kb + 16) 8 = version" "unat (iov_len d') = length bs"
proof -
  have len: "unat (iov_len d) = 8 + length bs"
    using arg_cong [OF assms(1), of length] assms(2) by simp
  then show len': "unat (iov_len d') = length bs"
    unfolding d'_def by (simp add: unat_sub_le word_le_nat_alt)
  have split: "rd_bytes m (iov_base d) 8 = version" "rd_bytes m (iov_base d + 8) (length bs) = bs"
    using assms(1,2) rd_bytes_add [of m "iov_base d" 8 "length bs"] by (simp_all add: val_bytes_def len)
  have "le_bytes 8 (unat (ld64 m (iov_base d))) = version"
    using le_bytes_val [of version] assms(2) by (simp add: unat_ld split)
  then show "rd_bytes m' (kb + 16) 8 = version"
    unfolding m'_def st64_def using assms(2) by (simp add: rd_wr_same_len)
  have "rd_bytes m' (iov_base d + 8) (length bs) = rd_bytes m (iov_base d + 8) (length bs)"
    unfolding m'_def st64_def using assms(3) len by (intro rd_wr_disjoint) (auto simp: apart_def)
  then show "val_bytes m' d' = bs"
    unfolding val_bytes_def len' by (simp add: d'_def split)
qed

text \<open>A value as \<open>compress\<close> leaves it, read back in another memory.\<close>

lemma plain_value_reads_back:
  assumes codec: "codec_ok z" and dw: "compression_of dw = Some c" "\<not> hasVersions dw"
    and dict: "dictionary c \<le> decompressTarget c"
    and run: "compress z c new m v fv = (m1, freed, v1, ret)" "ret \<noteq> NullCallback"
    and size: "unat (iov_len v) \<le> unat LZ4_MAX_INPUT_SIZE" "unat (iov_len v) \<le> unat (decompressSize c)"
    and fresh: "apart (iov_base v) (unat (iov_len v)) new (unat (iov_len v) + unat (iov_len v) div 255 + 24)"
    and db: "val_bytes m2 d = val_bytes m1 v1"
    and same: "rd_bytes m2 (dictionary c) (nat (dictionary_size c)) = rd_bytes m (dictionary c) (nat (dictionary_size c))"
    and away: "apart (iov_base d) (unat (iov_len d)) (decompressTarget c) (unat (iov_len v))"
  shows "\<exists>m3 d3. getVersionAndUncompress z kb dw m2 d = (m3, d3, True, None) \<and>
            val_bytes m3 d3 = val_bytes m v \<and> same_outside (decompressTarget c) (unat (iov_len v)) m2 m3"
proof (cases "iov_len v < ucast (compressionThreshold c) \<and> \<not> (iov_len v > 0 \<and> m (iov_base v) \<ge> 250)")
  case True
  note raw = compress_raw [OF run(1) conjunct1 [OF True] conjunct2 [OF True]]
  have eq: "val_bytes m2 d = val_bytes m v" using db raw by simp
  then have len: "unat (iov_len d) = unat (iov_len v)" by (metis length_val_bytes)
  have "iov_len d \<noteq> 0 \<Longrightarrow> \<not> m2 (iov_base d) \<ge> 250"
  proof -
    assume "iov_len d \<noteq> 0"
    then have "0 < unat (iov_len d)" by (simp add: word_neq_0_conv unat_gt_0)
    then have "m2 (iov_base d) = m (iov_base v)"
      using arg_cong [OF eq, of "\<lambda>bs. bs ! 0"] len by (simp add: val_bytes_def)
    moreover have "iov_len v > 0" using \<open>0 < unat (iov_len d)\<close> len by (simp add: word_less_nat_alt)
    ultimately show ?thesis using True by simp
  qed
  then have "getVersionAndUncompress z kb dw m2 d = (m2, d, True, None)"
    using dw by (simp add: getVersionAndUncompress_def)
  then show ?thesis using eq by (auto simp: same_outside_def)
next
  case False
  obtain k h where e: "0 < k" "k \<le> unat (iov_len v) + unat (iov_len v) div 255 + 16"
    "h = (if iov_len v \<ge> 0x1000000 then 8 else 4)"
    "iov_base v1 = new" "unat (iov_len v1) = k + h" "ret = DeleteCompressed"
    "freed = (if fv \<noteq> NullCallback then Some v else None)"
    "same_outside new (h + unat (iov_len v) + unat (iov_len v) div 255 + 16) m m1"
    "read_header m1 new = Some (ucast (iov_len v), h)" "m1 new \<ge> 250"
    "recovers z (rd_bytes m (dictionary c) (nat (dictionary_size c))) (dictionary_size c)
       (rd_bytes m1 (new + h) k) (val_bytes m v)"
    by (rule compress_encoded [OF codec dict run False size(1) fresh])
  let ?n = "unat (iov_len v)"
  have len: "unat (iov_len d) = k + h" using db e(5) by (metis length_val_bytes)
  have cell: "m2 (iov_base d + i) = m1 (new + i)" if "i < k + h" for i
    using arg_cong [OF db, of "\<lambda>bs. bs ! i"] that len e(4,5) by (simp add: val_bytes_def)
  have h8: "h \<le> 8" "0 < h" using e(3) by auto
  have n: "?n \<le> 2113929216" using size(1) by (simp add: LZ4_MAX_INPUT_SIZE_def)
  then have "?n div 255 \<le> 2113929216 div 255" by (rule div_le_mono)
  then have k31: "k < 2 ^ 31" using e(2) n by simp
  have "(ucast (iov_len v) :: u32) = of_nat ?n"
    using n by (simp add: word_unat_eq_iff unat_ucast_mod unat_of_nat)
  moreover have "read_header m2 (iov_base d) = Some (ucast (iov_len v), h)"
    using e(9) cell by (rule read_header_copy) simp
  ultimately have hdr: "read_header m2 (iov_base d) = Some (of_nat ?n, h)" by simp
  have src: "rd_bytes m2 (iov_base d + h) k = rd_bytes m1 (new + h) k"
    using cell [of "h + _"] by (intro nth_equalityI) (simp_all add: add.assoc)
  have ds: "dictionary c + nat (dictionary_size c) = decompressTarget c"
    using dict by (simp add: dictionary_size_def)
  have ap: "apart (iov_base d + h) k (decompressTarget c) ?n" using away len by (auto simp: apart_def)
  have dec: "\<exists>m3. lz4_decompress z m2 (iov_base d + h) (decompressTarget c) (int k) (int ?n) (dictionary c)
                (dictionary_size c) = (int ?n, m3) \<and> rd_bytes m3 (decompressTarget c) ?n = val_bytes m v \<and>
              same_outside (decompressTarget c) ?n m2 m3"
    using e(11) [unfolded recovers_def, rule_format, of m2 "dictionary c" "iov_base d + h" "decompressTarget c"]
      same src ds ap by simp
  obtain m3 where m3: "decompress z c (\<not> getFast dw) m2 d = (m3, \<lparr>iov_base = decompressTarget c, iov_len = of_nat ?n\<rparr>, True, None)"
    "rd_bytes m3 (decompressTarget c) ?n = val_bytes m v" "same_outside (decompressTarget c) ?n m2 m3"
    using decompress_encoded [OF hdr h8(1) _ size(2) len k31 dec] n by auto
  have "iov_len d \<noteq> 0" using len h8 by auto
  moreover have "m2 (iov_base d) \<ge> 250" using cell [of 0] e(1,10) by simp
  ultimately have "getVersionAndUncompress z kb dw m2 d = (m3, \<lparr>iov_base = decompressTarget c, iov_len = of_nat ?n\<rparr>, True, None)"
    using dw m3(1) by (simp add: getVersionAndUncompress_def)
  moreover have "val_bytes m3 \<lparr>iov_base = decompressTarget c, iov_len = of_nat ?n\<rparr> = val_bytes m v"
    using m3(2) by (simp add: val_bytes_def)
  ultimately show ?thesis using m3(3) by auto
qed

lemma getVersion_step:
  assumes "hasVersions dw"
  shows "getVersionAndUncompress z kb dw m d =
         getVersionAndUncompress z kb (dw\<lparr>hasVersions := False\<rparr>) (st64 m (kb + 16) (ld64 m (iov_base d)))
           \<lparr>iov_base = iov_base d + 8, iov_len = iov_len d - 8\<rparr>"
  using assms by (simp add: getVersionAndUncompress_def split: option.split)

text \<open>A codec that stores the bytes as they are satisfies what the code relies on.\<close>

definition store_codec :: lz4 where
  "store_codec = \<lparr>
     lz4_compress = (\<lambda>m dict dlen src dst n cap acc.
       if 0 < n \<and> n \<le> cap then (n, wr_bytes m dst (rd_bytes m src (nat n))) else (0, m)),
     lz4_decompress = (\<lambda>m src dst k cap dict dlen.
       if 0 \<le> k \<and> k \<le> cap then (k, wr_bytes m dst (rd_bytes m src (nat k))) else (-1, m))\<rparr>"

lemma same_outside_wr: "length bs \<le> n \<Longrightarrow> same_outside a n m (wr_bytes m a bs)"
  by (auto simp: same_outside_def wr_bytes_def)

lemma store_codec_ok: "codec_ok store_codec"
  unfolding codec_ok_def
proof (intro allI impI)
  fix m m1 :: mem and dict src dst :: nat and dlen n cap acc k :: int
  assume run: "lz4_compress store_codec m dict dlen src dst n cap acc = (k, m1)" and k: "0 < k"
  then have n: "0 < n" "n \<le> cap" "k = n" "m1 = wr_bytes m dst (rd_bytes m src (nat n))"
    by (auto simp: store_codec_def split: if_splits)
  have "rd_bytes m1 dst (nat k) = rd_bytes m src (nat n)"
    unfolding n by (rule rd_wr_same_len) simp
  moreover have "recovers store_codec dic dlen bs bs" for dic bs
    unfolding recovers_def by (auto simp: store_codec_def same_outside_wr)
  ultimately show "0 \<le> n \<and> k \<le> cap \<and> same_outside dst (nat cap) m m1 \<and>
        recovers store_codec (rd_bytes m dict (nat dlen)) dlen (rd_bytes m1 dst (nat k)) (rd_bytes m src (nat n))"
    using n by (simp add: same_outside_wr)
qed

subsection \<open>Properties\<close>

text \<open>
  C20: a value written to a compressed database is read back unchanged, with its version:
  whatever \<open>compress\<close> stores (the value itself or an encoded copy), once it is placed in the
  database behind the version prefix the database uses, \<open>getVersionAndUncompress\<close> recovers
  the bytes and the version.  In particular a plain value is never mistaken for an encoded one.
\<close>

theorem stored_value_reads_back:
  assumes codec: "codec_ok z" and dw: "compression_of dw = Some c"
    and dict: "dictionary c \<le> decompressTarget c"
    and run: "compress z c new m v fv = (m1, freed, v1, ret)" "ret \<noteq> NullCallback"
    and size: "unat (iov_len v) \<le> unat LZ4_MAX_INPUT_SIZE" "unat (iov_len v) \<le> unat (decompressSize c)"
    and fresh: "apart (iov_base v) (unat (iov_len v)) new (unat (iov_len v) + unat (iov_len v) div 255 + 24)"
    and db: "val_bytes m2 d = version @ val_bytes m1 v1" "length version = (if hasVersions dw then 8 else 0)"
    and same: "rd_bytes m2 (dictionary c) (nat (dictionary_size c)) = rd_bytes m (dictionary c) (nat (dictionary_size c))"
    and away: "apart (iov_base d) (unat (iov_len d)) (decompressTarget c) (unat (iov_len v))"
      "apart (kb + 16) 8 (iov_base d) (unat (iov_len d))"
      "apart (kb + 16) 8 (dictionary c) (nat (dictionary_size c) + unat (iov_len v))"
  shows "\<exists>m3 d3. getVersionAndUncompress z kb dw m2 d = (m3, d3, True, None) \<and>
            val_bytes m3 d3 = val_bytes m v \<and> (hasVersions dw \<longrightarrow> rd_bytes m3 (kb + 16) 8 = version)"
proof (cases "hasVersions dw")
  case False
  then have "val_bytes m2 d = val_bytes m1 v1" using db by simp
  from plain_value_reads_back [OF codec dw False dict run size fresh this same away(1)] False
  show ?thesis by blast
next
  case True
  define m' where "m' = st64 m2 (kb + 16) (ld64 m2 (iov_base d))"
  define d' where "d' = \<lparr>iov_base = iov_base d + 8, iov_len = iov_len d - 8\<rparr>"
  have v8: "length version = 8" using db(2) True by simp
  note pre = read_version_prefix [OF db(1) v8 away(2), folded m'_def d'_def]
  have len: "unat (iov_len d) = 8 + unat (iov_len v1)"
    using arg_cong [OF db(1), of length] v8 by simp
  have so: "same_outside (kb + 16) 8 m2 m'" unfolding m'_def st64_def by (rule same_outside_wr) simp
  have "rd_bytes m' (dictionary c) (nat (dictionary_size c)) = rd_bytes m (dictionary c) (nat (dictionary_size c))"
    unfolding same [symmetric] using so away(3) by (intro rd_bytes_same_outside) (auto simp: apart_def)
  moreover have "apart (iov_base d') (unat (iov_len d')) (decompressTarget c) (unat (iov_len v))"
    using away(1) pre(3) len by (auto simp: apart_def d'_def)
  ultimately obtain m3 d3 where r: "getVersionAndUncompress z kb (dw\<lparr>hasVersions := False\<rparr>) m' d' = (m3, d3, True, None)"
    "val_bytes m3 d3 = val_bytes m v" "same_outside (decompressTarget c) (unat (iov_len v)) m' m3"
    using plain_value_reads_back [OF codec _ _ dict run size fresh pre(1), of "dw\<lparr>hasVersions := False\<rparr>" kb] dw by auto
  have "decompressTarget c = dictionary c + nat (dictionary_size c)"
    using dict by (simp add: dictionary_size_def)
  then have "rd_bytes m3 (kb + 16) 8 = version"
    using rd_bytes_same_outside [OF r(3), of "kb + 16" 8] away(3) pre(2) by (auto simp: apart_def)
  then show ?thesis
    using r(1,2) getVersion_step [OF True, of z kb m2 d] by (simp add: m'_def d'_def)
qed

definition demo_compression :: compression where
  "demo_compression = \<lparr>dictionary = 0, decompressTarget = 8, decompressSize = 64,
     compressionThreshold = 1000, acceleration = 1\<rparr>"

definition demo_dw :: dbi_wrap where
  "demo_dw = \<lparr>dw_dbi = 2, dw_flags = 0, dw_isOpen = True, compression_of = Some demo_compression,
     hasVersions = True, getFast = True\<rparr>"

definition demo_value_mem :: mem where
  "demo_value_mem = wr_bytes (\<lambda>_. 0) 100 [254, 7, 7]"

definition demo_stored_mem :: mem where
  "demo_stored_mem = wr_bytes (\<lambda>_. 0) 300 ([1, 2, 3, 4, 5, 6, 7, 8] @ [254, 0, 0, 3] @ [254, 7, 7])"

theorem stored_value_reads_back_witness:
  "\<exists>m3 d3. getVersionAndUncompress store_codec 400 demo_dw demo_stored_mem \<lparr>iov_base = 300, iov_len = 15\<rparr> =
             (m3, d3, True, None) \<and>
           val_bytes m3 d3 = val_bytes demo_value_mem \<lparr>iov_base = 100, iov_len = 3\<rparr> \<and>
           (hasVersions demo_dw \<longrightarrow> rd_bytes m3 (400 + 16) 8 = [1, 2, 3, 4, 5, 6, 7, 8])"
proof -
  define m1 where "m1 = write_header (wr_bytes demo_value_mem 204 (rd_bytes demo_value_mem 100 3)) 200 3"
  have run: "compress store_codec demo_compression 200 demo_value_mem \<lparr>iov_base = 100, iov_len = 3\<rparr> FreeValue =
        (m1, Some \<lparr>iov_base = 100, iov_len = 3\<rparr>, \<lparr>iov_base = 200, iov_len = 7\<rparr>, DeleteCompressed)"
    by (simp add: compress_def demo_compression_def demo_value_mem_def store_codec_def m1_def Let_def
        LZ4_COMPRESSBOUND_def LZ4_MAX_INPUT_SIZE_def wr_bytes_def)
  have stored: "val_bytes demo_stored_mem \<lparr>iov_base = 300, iov_len = 15\<rparr> =
        [1, 2, 3, 4, 5, 6, 7, 8] @ val_bytes m1 \<lparr>iov_base = 200, iov_len = 7\<rparr>"
    by (simp add: val_bytes_def rd_bytes_def demo_stored_mem_def demo_value_mem_def m1_def write_header_def
        wr_bytes_def upt_rec)
  show ?thesis
    by (rule stored_value_reads_back [OF store_codec_ok _ _ run _ _ _ _ stored])
      (simp_all add: demo_dw_def demo_compression_def LZ4_MAX_INPUT_SIZE_def apart_def dictionary_size_def
        rd_bytes_def demo_stored_mem_def demo_value_mem_def wr_bytes_def)
qed

text \<open>
  The length that a stored value announces: behind the byte 254 a number of three bytes, behind 255
  and three more bytes one of four, the most significant byte first.
\<close>

definition big_endian :: "u8 list \<Rightarrow> nat" where
  "big_endian bs = foldl (\<lambda>n b. n * 256 + unat b) 0 bs"

definition announced_length :: "mem \<Rightarrow> nat \<Rightarrow> nat option" where
  "announced_length m a =
     (if m a = 254 then Some (big_endian (rd_bytes m (a + 1) 3))
      else if m a = 255 then Some (big_endian (rd_bytes m (a + 4) 4)) else None)"

lemma or_byte:
  fixes n :: u32 and b :: u8
  assumes "unat n < 2 ^ 24"
  shows "unat (push_bit 8 n OR ucast b) = unat n * 256 + unat b"
proof -
  have "push_bit 8 n AND ucast b = 0" by (rule bit_word_eqI) (auto simp: bit_simps dest: bit_imp_le_length)
  then have "push_bit 8 n OR ucast b = push_bit 8 n + ucast b" by (simp add: disjunctive_add_eq_or)
  moreover have "unat (push_bit 8 n) = unat n * 256"
    using assms by (simp add: push_bit_eq_mult unat_word_ariths)
  moreover have "unat (ucast b :: u32) = unat b"
    using unsigned_less [of b, where 'a = nat] by (intro unat_ucast_lt) simp
  ultimately show ?thesis
    using assms unsigned_less [of b, where 'a = nat] by (simp add: unat_add_lt)
qed

lemma announced_length_header:
  "announced_length m a = map_option (\<lambda>(u, h). unat u) (read_header m a)"
proof -
  have byte: "unat (ucast (x :: u8) :: u32) = unat x" "unat x < 256" for x
    using unsigned_less [of x, where 'a = nat] by (simp_all add: unat_ucast_lt)
  have two: "unat (push_bit 8 (ucast x) OR ucast y :: u32) = unat x * 256 + unat y" for x y :: u8
    using or_byte [of "ucast x" y] byte [of x] by simp
  have b3: "push_bit 16 (ucast x) OR push_bit 8 (ucast y) OR ucast z =
      push_bit 8 (push_bit 8 (ucast x) OR ucast y) OR (ucast z :: u32)" for x y z :: u8
    by (rule bit_word_eqI) (auto simp: bit_simps)
  have three: "unat (push_bit 16 (ucast x) OR push_bit 8 (ucast y) OR ucast z :: u32) =
      (unat x * 256 + unat y) * 256 + unat z" for x y z :: u8
    unfolding b3 using or_byte [of "push_bit 8 (ucast x) OR ucast y" z] two [of x y] byte [of x] byte [of y] by simp
  have b4: "push_bit 24 (ucast w) OR push_bit 16 (ucast x) OR push_bit 8 (ucast y) OR ucast z =
      push_bit 8 (push_bit 16 (ucast w) OR push_bit 8 (ucast x) OR ucast y) OR (ucast z :: u32)" for w x y z :: u8
    by (rule bit_word_eqI) (auto simp: bit_simps)
  have four: "unat (push_bit 24 (ucast w) OR push_bit 16 (ucast x) OR push_bit 8 (ucast y) OR ucast z :: u32) =
      ((unat w * 256 + unat x) * 256 + unat y) * 256 + unat z" for w x y z :: u8
    unfolding b4 using or_byte [of "push_bit 16 (ucast w) OR push_bit 8 (ucast x) OR ucast y" z] three [of w x y]
      byte [of w] byte [of x] byte [of y] by simp
  have upt: "[0..<3] = [0, 1, 2 :: nat]" "[0..<4] = [0, 1, 2, 3 :: nat]" by (simp_all add: upt_rec)
  have a: "a + 1 + 1 = a + 2" "a + 1 + 2 = a + 3" "a + 4 + 1 = a + 5" "a + 4 + 2 = a + 6" "a + 4 + 3 = a + 7"
    by simp_all
  show ?thesis
    unfolding announced_length_def read_header_def big_endian_def rd_bytes_def upt list.map foldl.simps a
    by (simp add: three four)
qed

text \<open>The decoder never writes outside the destination, whatever the compressed bytes are.\<close>

definition decoder_safe :: "lz4 \<Rightarrow> bool" where
  "decoder_safe z \<longleftrightarrow>
     (\<forall>m src dst k cap dict dlen w m'. lz4_decompress z m src dst k cap dict dlen = (w, m') \<longrightarrow>
        same_outside dst (nat cap) m m')"

lemma store_codec_safe: "decoder_safe store_codec"
  unfolding decoder_safe_def store_codec_def
  by (auto simp: nat_mono split: if_splits intro!: same_outside_wr)

lemma nat_sint32_le: "nat (sint (w :: 32 word)) \<le> unat w"
proof -
  have "sint w \<le> uint w"
  proof (cases "unat w < 2 ^ 31")
    case True
    then show ?thesis using sint32_small [of w] uint_nat [of w] by linarith
  next
    case False
    then have "2147483648 \<le> unat w" by simp
    moreover have "sint w < 2147483648" using sint_lt [of w] by simp
    ultimately show ?thesis using uint_nat [of w] by linarith
  qed
  then show ?thesis by (metis nat_mono unat_eq_nat_uint)
qed

lemma decompress_safe:
  assumes "decoder_safe z" "decompress z c canAllocate m d = (m', d', valid, err)"
  shows "same_outside (decompressTarget c) (unat (decompressSize c)) m m'"
    and "valid \<Longrightarrow> iov_base d' = decompressTarget c \<and> unat (iov_len d') \<le> unat (decompressSize c) \<and> err = None"
    and "\<not> valid \<Longrightarrow> err = None \<Longrightarrow> \<not> canAllocate \<or>
           iov_base d' = decompressTarget c \<and> unat (decompressSize c) < unat (iov_len d')"
    and "err \<noteq> None \<Longrightarrow> canAllocate"
    and "\<not> valid \<Longrightarrow> err = None \<Longrightarrow> canAllocate \<Longrightarrow> announced_length m' (iov_base d) = Some (unat (iov_len d'))"
proof -
  have so: "same_outside (decompressTarget c) (unat (decompressSize c)) m mz"
    if "u \<le> decompressSize c" "lz4_decompress z m src (decompressTarget c) k (sint u) dic dl = (w, mz)"
    for u :: u32 and src k dic dl w mz
  proof -
    have "same_outside (decompressTarget c) (nat (sint u)) m mz"
      using assms(1) that(2) unfolding decoder_safe_def by blast
    moreover have "nat (sint u) \<le> unat (decompressSize c)"
      using nat_sint32_le [of u] that(1) by (simp add: word_le_nat_alt)
    ultimately show ?thesis by (auto simp: same_outside_def)
  qed
  have u64: "unat (ucast (u :: u32) :: u64) = unat u" for u
    using unsigned_less [of u, where 'a = nat] by (intro unat_ucast_lt) simp
  note run = assms(2) [unfolded decompress_def Let_def]
  show "same_outside (decompressTarget c) (unat (decompressSize c)) m m'"
    using run by (auto simp: not_less intro: so split: option.splits if_splits prod.splits)
  show "valid \<Longrightarrow> iov_base d' = decompressTarget c \<and> unat (iov_len d') \<le> unat (decompressSize c) \<and> err = None"
    using run by (auto simp: u64 not_less word_le_nat_alt split: option.splits if_splits prod.splits)
  show "\<not> valid \<Longrightarrow> err = None \<Longrightarrow> \<not> canAllocate \<or>
           iov_base d' = decompressTarget c \<and> unat (decompressSize c) < unat (iov_len d')"
    using run by (auto simp: u64 word_less_nat_alt split: option.splits if_splits prod.splits)
  show "err \<noteq> None \<Longrightarrow> canAllocate"
    using run by (auto split: option.splits if_splits prod.splits)
  show "\<not> valid \<Longrightarrow> err = None \<Longrightarrow> canAllocate \<Longrightarrow> announced_length m' (iov_base d) = Some (unat (iov_len d'))"
    using run by (auto simp: announced_length_header u64 split: option.splits if_splits prod.splits)
qed

text \<open>
  C27: reading any stored bytes, corrupt ones included, writes nothing but the version slot of
  the key buffer and the decompression buffer; a value reported as decompressed lies inside
  that buffer; and when a read fails without an exception on the slow path, the reported
  length is the one that the header of the stored value announces, which the buffer is too small for.
\<close>

theorem reading_a_value_is_contained:
  assumes safe: "decoder_safe z" and dw: "compression_of dw = Some c"
    and run: "getVersionAndUncompress z kb dw m d = (m', d', valid, err)"
  shows "(\<forall>x. \<not> (kb + 16 \<le> x \<and> x < kb + 24) \<longrightarrow>
              \<not> (decompressTarget c \<le> x \<and> x < decompressTarget c + unat (decompressSize c)) \<longrightarrow> m' x = m x) \<and>
         (valid \<longrightarrow> iov_base d' \<in> {iov_base d, iov_base d + 8} \<or>
              iov_base d' = decompressTarget c \<and> unat (iov_len d') \<le> unat (decompressSize c)) \<and>
         (\<not> valid \<longrightarrow> err \<noteq> None \<or> getFast dw \<or>
              iov_base d' = decompressTarget c \<and> unat (decompressSize c) < unat (iov_len d') \<and>
              announced_length m' (iov_base d + (if hasVersions dw then 8 else 0)) = Some (unat (iov_len d'))) \<and>
         (err \<noteq> None \<longrightarrow> \<not> valid \<and> \<not> getFast dw)"
proof -
  define m1 where "m1 = (if hasVersions dw then st64 m (kb + 16) (ld64 m (iov_base d)) else m)"
  define d1 where "d1 = (if hasVersions dw then \<lparr>iov_base = iov_base d + 8, iov_len = iov_len d - 8\<rparr> else d)"
  have d1: "iov_base d + (if hasVersions dw then 8 else 0) = iov_base d1" by (simp add: d1_def)
  have m1: "same_outside (kb + 16) 8 m m1"
    by (simp add: m1_def st64_def same_outside_wr)
  have b1: "iov_base d1 \<in> {iov_base d, iov_base d + 8}" by (simp add: d1_def)
  have split: "(m', d', valid, err) = (m1, d1, True, None) \<or>
      decompress z c (\<not> getFast dw) m1 d1 = (m', d', valid, err)"
    using run dw unfolding getVersionAndUncompress_def m1_def d1_def by (auto simp: Let_def split: if_splits)
  have out: "same_outside (decompressTarget c) (unat (decompressSize c)) m1 m'"
    using split decompress_safe(1) [OF safe] by (auto simp: same_outside_def)
  show ?thesis
  proof (intro conjI)
    show "\<forall>x. \<not> (kb + 16 \<le> x \<and> x < kb + 24) \<longrightarrow>
        \<not> (decompressTarget c \<le> x \<and> x < decompressTarget c + unat (decompressSize c)) \<longrightarrow> m' x = m x"
      using out m1 by (auto simp: same_outside_def not_le not_less)
    show "err \<noteq> None \<longrightarrow> \<not> valid \<and> \<not> getFast dw"
      using split by (auto dest: decompress_safe(2,4) [OF safe])
    show "\<not> valid \<longrightarrow> err \<noteq> None \<or> getFast dw \<or>
        iov_base d' = decompressTarget c \<and> unat (decompressSize c) < unat (iov_len d') \<and>
        announced_length m' (iov_base d + (if hasVersions dw then 8 else 0)) = Some (unat (iov_len d'))"
      unfolding d1 using split decompress_safe(3,5) [OF safe] by blast
  qed (use split b1 decompress_safe(2) [OF safe] in blast)+
qed

text \<open>A value that announces 256 bytes, more than the buffer has.\<close>

definition demo_long_mem :: mem where
  "demo_long_mem = wr_bytes (\<lambda>_. 0) 300 ([1, 2, 3, 4, 5, 6, 7, 8] @ [254, 0, 1, 0] @ [254, 7, 7])"

theorem reading_a_value_is_contained_witness:
  "fst (getVersionAndUncompress store_codec 400 demo_dw demo_stored_mem \<lparr>iov_base = 300, iov_len = 15\<rparr>) 300 =
     demo_stored_mem 300 \<and>
   (\<exists>m' d'. getVersionAndUncompress store_codec 400 (demo_dw\<lparr>getFast := False\<rparr>) demo_long_mem
        \<lparr>iov_base = 300, iov_len = 15\<rparr> = (m', d', False, None) \<and>
      iov_base d' = 8 \<and> announced_length m' 308 = Some (unat (iov_len d')) \<and> unat (iov_len d') = 256)"
proof -
  have c: "compression_of demo_dw = Some demo_compression" "compression_of (demo_dw\<lparr>getFast := False\<rparr>) = Some demo_compression"
    by (simp_all add: demo_dw_def)
  obtain m' d' valid err where r: "getVersionAndUncompress store_codec 400 demo_dw demo_stored_mem
      \<lparr>iov_base = 300, iov_len = 15\<rparr> = (m', d', valid, err)" by (metis prod_cases4)
  have "m' 300 = demo_stored_mem 300"
    using reading_a_value_is_contained [OF store_codec_safe c(1) r] by (simp add: demo_compression_def)
  moreover obtain m2 d2 where r2: "getVersionAndUncompress store_codec 400 (demo_dw\<lparr>getFast := False\<rparr>) demo_long_mem
      \<lparr>iov_base = 300, iov_len = 15\<rparr> = (m2, d2, False, None)" and l: "unat (iov_len d2) = 256"
    by (simp add: getVersionAndUncompress_def decompress_def read_header_def demo_dw_def demo_compression_def
        demo_long_mem_def st64_def wr_bytes_def Let_def)
  moreover from reading_a_value_is_contained [OF store_codec_safe c(2) r2]
  have "iov_base d2 = 8" "announced_length m2 308 = Some (unat (iov_len d2))"
    by (simp_all add: demo_dw_def demo_compression_def)
  ultimately show ?thesis using r by simp
qed

end
