(* ===== verification/Key_Conversion.thy ===== *)
theory Key_Conversion
  imports Ieee_Double
begin

text \<open>
  The key-making functions of \<open>mdbx.c\<close>: doubles, floats, integers and JSON integers are
  turned into unsigned keys whose native order is the order of the numbers, and back.
\<close>

subsection \<open>The code\<close>

definition key2double :: "u64 \<Rightarrow> u64" where
  "key2double key = (if sint key < 0 then key + 0x8000000000000000 else 0xffffFFFFffffFFFF - key)"

definition double2key :: "u64 \<Rightarrow> u64" where
  "double2key i = (if sint i < 0 then 0xffffFFFFffffFFFF - i else i + 0x8000000000000000)"

definition key2float :: "u32 \<Rightarrow> u32" where
  "key2float key = (if sint key < 0 then key + 0x80000000 else 0xffffFFFF - key)"

definition float2key :: "u32 \<Rightarrow> u32" where
  "float2key i = (if sint i < 0 then 0xffffFFFF - i else i + 0x80000000)"

definition mdbx_key_from_double :: "u64 \<Rightarrow> u64" where
  "mdbx_key_from_double ieee754_64bit = double2key ieee754_64bit"

definition mdbx_key_from_ptrdouble :: "mem \<Rightarrow> nat \<Rightarrow> u64" where
  "mdbx_key_from_ptrdouble m ieee754_64bit = double2key (ld64 m ieee754_64bit)"

definition mdbx_key_from_float :: "u32 \<Rightarrow> u32" where
  "mdbx_key_from_float ieee754_32bit = float2key ieee754_32bit"

definition mdbx_key_from_ptrfloat :: "mem \<Rightarrow> nat \<Rightarrow> u32" where
  "mdbx_key_from_ptrfloat m ieee754_32bit = float2key (ld32 m ieee754_32bit)"

definition mdbx_key_from_int64 :: "u64 \<Rightarrow> u64" where
  "mdbx_key_from_int64 i64 = 0x8000000000000000 + i64"

definition mdbx_key_from_int32 :: "u32 \<Rightarrow> u32" where
  "mdbx_key_from_int32 i32 = 0x80000000 + i32"

definition IEEE754_DOUBLE_MANTISSA_SIZE :: nat where "IEEE754_DOUBLE_MANTISSA_SIZE = 52"
definition IEEE754_DOUBLE_EXPONENTA_BIAS :: int where "IEEE754_DOUBLE_EXPONENTA_BIAS = 0x3FF"
definition IEEE754_DOUBLE_EXPONENTA_MAX :: int where "IEEE754_DOUBLE_EXPONENTA_MAX = 0x7FF"
definition IEEE754_DOUBLE_IMPLICIT_LEAD :: u64 where "IEEE754_DOUBLE_IMPLICIT_LEAD = 0x0010000000000000"
definition IEEE754_DOUBLE_MANTISSA_MASK :: u64 where "IEEE754_DOUBLE_MANTISSA_MASK = 0x000FFFFFFFFFFFFF"
definition IEEE754_DOUBLE_MANTISSA_AMAX :: u64 where "IEEE754_DOUBLE_MANTISSA_AMAX = 0x001FFFFFFFFFFFFF"

lemmas ieee754_defs = IEEE754_DOUBLE_MANTISSA_SIZE_def IEEE754_DOUBLE_EXPONENTA_BIAS_def
  IEEE754_DOUBLE_EXPONENTA_MAX_def IEEE754_DOUBLE_IMPLICIT_LEAD_def
  IEEE754_DOUBLE_MANTISSA_MASK_def IEEE754_DOUBLE_MANTISSA_AMAX_def

text \<open>The compiler's builtin, and the portable path that replaces it.\<close>

definition clz64 :: "u64 \<Rightarrow> int" where
  "clz64 x = 64 - int (floorlog 2 (unat x))"

definition debruijn_clz64 :: "nat list" where
  "debruijn_clz64 =
     [63, 16, 62, 7,  15, 36, 61, 3,  6,  14, 22, 26, 35, 47, 60, 2,
      9,  5,  28, 11, 13, 21, 42, 19, 25, 31, 34, 40, 46, 52, 59, 1,
      17, 8,  37, 4,  23, 27, 48, 10, 29, 12, 43, 20, 32, 41, 53, 18,
      38, 24, 49, 30, 44, 33, 54, 39, 50, 45, 55, 51, 56, 57, 58, 0]"

definition smear64 :: "u64 \<Rightarrow> u64" where
  "smear64 x =
     (let x = x OR drop_bit 1 x; x = x OR drop_bit 2 x; x = x OR drop_bit 4 x;
          x = x OR drop_bit 8 x; x = x OR drop_bit 16 x; x = x OR drop_bit 32 x in x)"

definition clz64_portable :: "u64 \<Rightarrow> int" where
  "clz64_portable x = int (debruijn_clz64 ! unat (drop_bit 58 (smear64 x * 0x03F79D71B4CB0A89)))"

definition round_mantissa :: "u64 \<Rightarrow> int \<Rightarrow> u64" where
  "round_mantissa u shift =
     (let shift = nat (- shift);
          half = (push_bit (shift - 1) 1 :: u32);
          lsb = 1 AND (ucast (drop_bit shift u) :: u32);
          tie2even = 1 XOR lsb
      in drop_bit shift (u + ucast half - ucast tie2even))"

text \<open>The part common to both signs: the exponent field and the mantissa.\<close>

definition json_mantissa :: "u64 \<Rightarrow> u64 \<times> int" where
  "json_mantissa u =
     (let shift = clz64 u - (64 - int IEEE754_DOUBLE_MANTISSA_SIZE - 1)
      in if shift < 0
         then (let mantissa = round_mantissa u shift
               in if mantissa > IEEE754_DOUBLE_MANTISSA_AMAX
                  then (round_mantissa u (shift - 1), shift - 1) else (mantissa, shift))
         else (push_bit (nat shift) u, shift))"

definition mdbx_key_from_jsonInteger :: "u64 \<Rightarrow> u64" where
  "mdbx_key_from_jsonInteger json_integer =
     (let bias = 0x8000000000000000
      in if sint json_integer > 0
         then (let (mantissa, shift) = json_mantissa json_integer;
                   exponent = (word_of_int (IEEE754_DOUBLE_EXPONENTA_BIAS + int IEEE754_DOUBLE_MANTISSA_SIZE - shift) :: u64)
               in bias + push_bit IEEE754_DOUBLE_MANTISSA_SIZE exponent + (mantissa - IEEE754_DOUBLE_IMPLICIT_LEAD))
         else if sint json_integer < 0
         then (let (mantissa, shift) = json_mantissa (- json_integer);
                   exponent = (word_of_int (IEEE754_DOUBLE_EXPONENTA_BIAS + int IEEE754_DOUBLE_MANTISSA_SIZE - shift) :: u64)
               in bias - 1 - push_bit IEEE754_DOUBLE_MANTISSA_SIZE exponent - (mantissa - IEEE754_DOUBLE_IMPLICIT_LEAD))
         else bias)"

definition INT64_MAX :: u64 where "INT64_MAX = 0x7fffffffffffffff"
definition INT64_MIN :: u64 where "INT64_MIN = 0x8000000000000000"

definition jsonInteger_of_key :: "u64 \<Rightarrow> u64" where
  "jsonInteger_of_key key =
     (let bias = 0x8000000000000000;
          covalent = (if key > bias then key - bias else bias - key - 1);
          shift = IEEE754_DOUBLE_EXPONENTA_BIAS + 63 -
                  (IEEE754_DOUBLE_EXPONENTA_MAX AND int (unat (drop_bit IEEE754_DOUBLE_MANTISSA_SIZE covalent)))
      in if shift < 1 then (if key < bias then INT64_MIN else INT64_MAX)
         else if shift > 63 then 0
         else (let unscaled = push_bit (63 - IEEE754_DOUBLE_MANTISSA_SIZE) (covalent AND IEEE754_DOUBLE_MANTISSA_MASK) + bias;
                   absolute = drop_bit (nat shift) unscaled
               in if key < bias then - absolute else absolute))"

definition mdbx_jsonInteger_from_key :: "bool \<Rightarrow> mem \<Rightarrow> mdbx_val \<Rightarrow> u64" where
  "mdbx_jsonInteger_from_key ok m v = jsonInteger_of_key (unaligned_peek_u64 ok 2 m (iov_base v))"

definition mdbx_double_from_key :: "bool \<Rightarrow> mem \<Rightarrow> mdbx_val \<Rightarrow> u64" where
  "mdbx_double_from_key ok m v = key2double (unaligned_peek_u64 ok 2 m (iov_base v))"

definition mdbx_float_from_key :: "bool \<Rightarrow> mem \<Rightarrow> mdbx_val \<Rightarrow> u32" where
  "mdbx_float_from_key ok m v = key2float (unaligned_peek_u32 ok 2 m (iov_base v))"

definition mdbx_int32_from_key :: "bool \<Rightarrow> mem \<Rightarrow> mdbx_val \<Rightarrow> u32" where
  "mdbx_int32_from_key ok m v = unaligned_peek_u32 ok 2 m (iov_base v) - 0x80000000"

definition mdbx_int64_from_key :: "bool \<Rightarrow> mem \<Rightarrow> mdbx_val \<Rightarrow> u64" where
  "mdbx_int64_from_key ok m v = unaligned_peek_u64 ok 2 m (iov_base v) - 0x8000000000000000"

subsection \<open>The numbers the patterns stand for\<close>

text \<open>
  The magnitude of a pattern with \<open>p\<close> fraction bits, in units of the smallest positive
  number of the format, so that it is an integer.
\<close>

definition fp_magnitude :: "nat \<Rightarrow> nat \<Rightarrow> nat" where
  "fp_magnitude p low =
     (let e = low div 2 ^ p; f = low mod 2 ^ p
      in if e = 0 then f else (2 ^ p + f) * 2 ^ (e - 1))"

definition fp_units :: "nat \<Rightarrow> nat \<Rightarrow> nat \<Rightarrow> int" where
  "fp_units p N bits = (if bits < N then int (fp_magnitude p bits) else - int (fp_magnitude p (bits - N)))"

definition double_units :: "u64 \<Rightarrow> int" where
  "double_units d = fp_units 52 (2 ^ 63) (unat d)"

definition float_units :: "u32 \<Rightarrow> int" where
  "float_units d = fp_units 23 (2 ^ 31) (unat d)"

lemma fp_magnitude_strict:
  assumes "a < b"
  shows "fp_magnitude p a < fp_magnitude p b"
proof -
  define q :: nat where "q = 2 ^ p"
  have q: "0 < q" by (simp add: q_def)
  have ab: "a = a div q * q + a mod q" "b = b div q * q + b mod q" by simp_all
  have m: "a mod q < q" "b mod q < q" using q by simp_all
  show ?thesis
  proof (cases "a div q = b div q")
    case True
    have "a mod q < b mod q" using ab assms True by (metis nat_add_left_cancel_less)
    then show ?thesis using True by (simp add: fp_magnitude_def Let_def flip: q_def)
  next
    case False
    then have lt: "a div q < b div q" using assms by (simp add: div_le_mono le_neq_implies_less)
    have hi: "q * 2 ^ (b div q - 1) \<le> fp_magnitude p b"
      using lt by (simp add: fp_magnitude_def Let_def flip: q_def)
    show ?thesis
    proof (cases "a div q = 0")
      case True
      have "q * 1 \<le> q * 2 ^ (b div q - 1)" by (intro mult_le_mono2) simp
      moreover have "fp_magnitude p a = a mod q" using True by (simp add: fp_magnitude_def Let_def flip: q_def)
      ultimately show ?thesis using hi m by linarith
    next
      case nz: False
      have "fp_magnitude p a < (2 * q) * 2 ^ (a div q - 1)"
        using nz m by (simp add: fp_magnitude_def Let_def flip: q_def)
      also have "\<dots> = q * 2 ^ (a div q)" using nz by (cases "a div q") simp_all
      also have "\<dots> \<le> q * 2 ^ (b div q - 1)" using lt by (intro mult_le_mono2 power_increasing) auto
      finally show ?thesis using hi by linarith
    qed
  qed
qed

lemma fp_magnitude_less_iff: "fp_magnitude p a < fp_magnitude p b \<longleftrightarrow> a < b"
  using fp_magnitude_strict [of a b p] fp_magnitude_strict [of b a p] by (cases a b rule: linorder_cases) auto

lemma fp_magnitude_0 [simp]: "fp_magnitude p 0 = 0"
  by (simp add: fp_magnitude_def)

lemma fp_magnitude_pos: "fp_magnitude p a = 0 \<longleftrightarrow> a = 0"
  using fp_magnitude_less_iff [of p 0 a] by auto

text \<open>The map from patterns to keys, on natural numbers.\<close>

definition key_of_bits :: "nat \<Rightarrow> nat \<Rightarrow> nat" where
  "key_of_bits N bits = (if N \<le> bits then 2 * N - 1 - bits else bits + N)"

lemma key_of_bits_order:
  assumes "a < 2 * N" "b < 2 * N"
  shows "key_of_bits N a < key_of_bits N b \<longleftrightarrow>
         fp_units p N a < fp_units p N b \<or> a = N \<and> b = 0"
proof -
  consider "a < N" "b < N" | "a < N" "N \<le> b" | "N \<le> a" "b < N" | "N \<le> a" "N \<le> b" by linarith
  then show ?thesis
  proof cases
    case 1
    then show ?thesis using fp_magnitude_less_iff [of p a b] by (auto simp: key_of_bits_def fp_units_def)
  next
    case 2
    then have "\<not> fp_units p N a < fp_units p N b" by (simp add: fp_units_def)
    then show ?thesis using 2 assms by (auto simp: key_of_bits_def)
  next
    case 3
    then have "fp_units p N a < fp_units p N b \<longleftrightarrow> \<not> (fp_magnitude p (a - N) = 0 \<and> fp_magnitude p b = 0)"
      by (auto simp: fp_units_def)
    also have "\<dots> \<longleftrightarrow> \<not> (a = N \<and> b = 0)" using 3 by (auto simp: fp_magnitude_pos)
    finally show ?thesis using 3 assms by (auto simp: key_of_bits_def)
  next
    case 4
    then have "fp_units p N a < fp_units p N b \<longleftrightarrow> b - N < a - N"
      using fp_magnitude_less_iff [of p "b - N" "a - N"] by (auto simp: fp_units_def)
    then show ?thesis using 4 assms by (auto simp: key_of_bits_def)
  qed
qed

lemma sint_negative_iff:
  "sint (w :: u64) < 0 \<longleftrightarrow> 2 ^ 63 \<le> unat w"
  "sint (v :: u32) < 0 \<longleftrightarrow> 2 ^ 31 \<le> unat v"
proof -
  have top_bit: "odd (n div b) \<longleftrightarrow> b \<le> n" if "n < 2 * b" for n b :: nat
  proof -
    show ?thesis
    proof (cases "n < b")
      case False
      then have "n div b = 1" using that by (intro div_nat_eqI) simp_all
      then show ?thesis using False by simp
    qed simp
  qed
  have "sint w < 0 \<longleftrightarrow> bit (unat w) 63"
    by (simp add: sint_uint signed_take_bit_negative_iff bit_uint_iff bit_unsigned_iff)
  then show "sint w < 0 \<longleftrightarrow> 2 ^ 63 \<le> unat w"
    using top_bit [of "unat w" "2 ^ 63"] unsigned_less [of w, where 'a = nat] by (simp add: bit_iff_odd)
  have "sint v < 0 \<longleftrightarrow> bit (unat v) 31"
    by (simp add: sint_uint signed_take_bit_negative_iff bit_uint_iff bit_unsigned_iff)
  then show "sint v < 0 \<longleftrightarrow> 2 ^ 31 \<le> unat v"
    using top_bit [of "unat v" "2 ^ 31"] unsigned_less [of v, where 'a = nat] by (simp add: bit_iff_odd)
qed

lemma unat_u64_less: "unat (w :: u64) < 18446744073709551616"
  using unsigned_less [of w, where 'a = nat] by simp

lemma unat_u32_less: "unat (w :: u32) < 4294967296"
  using unsigned_less [of w, where 'a = nat] by simp

lemma unat_double2key: "unat (double2key i) = key_of_bits (2 ^ 63) (unat i)"
proof (cases "sint i < 0")
  case True
  then have "unat (0xffffFFFFffffFFFF - i) = 18446744073709551615 - unat i"
    using unat_u64_less [of i] by (subst unat_sub_le) (simp_all add: word_le_nat_alt)
  then show ?thesis using True sint_negative_iff(1) [of i] by (simp add: double2key_def key_of_bits_def)
next
  case False
  then have "unat (i + 0x8000000000000000) = unat i + 9223372036854775808"
    using sint_negative_iff(1) [of i] by (subst unat_add_lt) simp_all
  then show ?thesis using False sint_negative_iff(1) [of i] by (simp add: double2key_def key_of_bits_def)
qed

lemma unat_float2key: "unat (float2key i) = key_of_bits (2 ^ 31) (unat i)"
proof (cases "sint i < 0")
  case True
  then have "unat (0xffffFFFF - i) = 4294967295 - unat i"
    using unat_u32_less [of i] by (subst unat_sub_le) (simp_all add: word_le_nat_alt)
  then show ?thesis using True sint_negative_iff(2) [of i] by (simp add: float2key_def key_of_bits_def)
next
  case False
  then have "unat (i + 0x80000000) = unat i + 2147483648"
    using sint_negative_iff(2) [of i] by (subst unat_add_lt) simp_all
  then show ?thesis using False sint_negative_iff(2) [of i] by (simp add: float2key_def key_of_bits_def)
qed

lemma key2double_double2key: "key2double (double2key i) = i"
proof -
  have "sint (double2key i) < 0 \<longleftrightarrow> \<not> sint i < 0"
    using unat_u64_less [of i] unfolding sint_negative_iff unat_double2key key_of_bits_def by auto
  then show ?thesis
    by (auto simp: key2double_def double2key_def)
qed

lemma key2float_float2key: "key2float (float2key i) = i"
proof -
  have "sint (float2key i) < 0 \<longleftrightarrow> \<not> sint i < 0"
    using unat_u32_less [of i] unfolding sint_negative_iff unat_float2key key_of_bits_def by auto
  then show ?thesis
    by (auto simp: key2float_def float2key_def)
qed

subsection \<open>Counting leading zeros\<close>

lemma bit_or_shift: "bit (x OR drop_bit k x) n \<longleftrightarrow> bit x n \<or> bit x (n + k)" for x :: u64
  by (auto simp: bit_simps add.commute)

lemma bit_smear64: "bit (smear64 x) n \<longleftrightarrow> (\<exists>j. n \<le> j \<and> bit x j)"
proof -
  have step: "k' = 2 * k \<Longrightarrow> (\<And>n. bit y n \<longleftrightarrow> (\<exists>j. n \<le> j \<and> j < n + k \<and> bit x j)) \<Longrightarrow>
      bit (y OR drop_bit k y) n \<longleftrightarrow> (\<exists>j. n \<le> j \<and> j < n + k' \<and> bit x j)" for y :: u64 and k k' n
  proof -
    assume k: "k' = 2 * k" and y: "\<And>n. bit y n \<longleftrightarrow> (\<exists>j. n \<le> j \<and> j < n + k \<and> bit x j)"
    have "(n \<le> j \<and> j < n + k) \<or> (n + k \<le> j \<and> j < n + k + k) \<longleftrightarrow> n \<le> j \<and> j < n + 2 * k" for j by auto
    then have "(\<exists>j. n \<le> j \<and> j < n + 2 * k \<and> bit x j) \<longleftrightarrow>
        (\<exists>j. ((n \<le> j \<and> j < n + k) \<or> (n + k \<le> j \<and> j < n + k + k)) \<and> bit x j)" by blast
    also have "\<dots> \<longleftrightarrow> bit (y OR drop_bit k y) n" unfolding bit_or_shift y by blast
    finally show "bit (y OR drop_bit k y) n \<longleftrightarrow> (\<exists>j. n \<le> j \<and> j < n + k' \<and> bit x j)"
      unfolding k by simp
  qed
  have 1: "bit x n \<longleftrightarrow> (\<exists>j. n \<le> j \<and> j < n + 1 \<and> bit x j)" for n
    by (metis le_antisym less_add_one less_Suc_eq_le Suc_eq_plus1 order_refl)
  note 2 = step [where k' = 2, OF _ 1]
  note 4 = step [where k' = 4, OF _ 2]
  note 8 = step [where k' = 8, OF _ 4]
  note 16 = step [where k' = 16, OF _ 8]
  note 32 = step [where k' = 32, OF _ 16]
  note 64 = step [where k' = 64, OF _ 32]
  have "bit (smear64 x) n \<longleftrightarrow> (\<exists>j. n \<le> j \<and> j < n + 64 \<and> bit x j)"
    unfolding smear64_def Let_def by (rule 64) simp_all
  also have "\<dots> \<longleftrightarrow> (\<exists>j. n \<le> j \<and> bit x j)"
    using bit_imp_le_length [of x] by fastforce
  finally show ?thesis .
qed

lemma ex_bit_above: "(\<exists>j. n \<le> j \<and> bit k j) \<longleftrightarrow> 2 ^ n \<le> k" for k :: nat
proof -
  have "(\<exists>j. n \<le> j \<and> bit k j) \<longleftrightarrow> (\<exists>i. bit (drop_bit n k) i)"
    by (simp add: bit_drop_bit_eq) (metis le_Suc_ex le_add1)
  also have "\<dots> \<longleftrightarrow> drop_bit n k \<noteq> 0" by (metis bit_0_eq bot_apply bot_bool_def bit_eq_iff)
  also have "\<dots> \<longleftrightarrow> 2 ^ n \<le> k" by (simp add: drop_bit_eq_div div_eq_0_iff not_less)
  finally show ?thesis .
qed

lemma floorlog2_gt_iff: "0 < k \<Longrightarrow> n < floorlog 2 k \<longleftrightarrow> 2 ^ n \<le> k" for k :: nat
proof -
  assume k: "0 < k"
  have b: "2 ^ (floorlog 2 k - 1) \<le> k" "k < 2 ^ floorlog 2 k" using floorlog_bounds [of k 2] k by simp_all
  show ?thesis
  proof
    assume "n < floorlog 2 k"
    then have "(2::nat) ^ n \<le> 2 ^ (floorlog 2 k - 1)" by (intro power_increasing) auto
    then show "2 ^ n \<le> k" using b by linarith
  next
    assume "2 ^ n \<le> k"
    then have "(2::nat) ^ n < 2 ^ floorlog 2 k" using b by linarith
    then show "n < floorlog 2 k" by simp
  qed
qed

lemma smear64_mask: "x \<noteq> 0 \<Longrightarrow> smear64 x = mask (floorlog 2 (unat x))"
proof (rule bit_word_eqI)
  fix n
  assume x: "x \<noteq> 0" and n: "n < LENGTH(64)"
  have "bit (smear64 x) n \<longleftrightarrow> (\<exists>j. n \<le> j \<and> bit (unat x) j)"
    using bit_imp_le_length [of x] by (auto simp: bit_smear64 bit_unsigned_iff)
  also have "\<dots> \<longleftrightarrow> n < floorlog 2 (unat x)"
    using x by (simp add: ex_bit_above floorlog2_gt_iff unat_gt_0)
  finally show "bit (smear64 x) n = bit (mask (floorlog 2 (unat x)) :: u64) n"
    using n by (simp add: bit_mask_iff)
qed

lemma debruijn_clz64_table:
  "list_all (\<lambda>n. debruijn_clz64 ! unat (drop_bit 58 ((push_bit n 1 - 1) * 0x03F79D71B4CB0A89 :: u64)) = 64 - n) [1..<65]"
  by code_simp

lemma floorlog2_u64: "x \<noteq> 0 \<Longrightarrow> 1 \<le> floorlog 2 (unat (x :: u64)) \<and> floorlog 2 (unat x) \<le> 64"
proof -
  assume "x \<noteq> 0"
  then have x: "0 < unat x" by (simp add: unat_gt_0)
  show ?thesis
    using floorlog2_gt_iff [OF x, of 64] floorlog2_gt_iff [OF x, of 0] x unat_u64_less [of x] by auto
qed

lemma clz64_portable_eq:
  assumes "x \<noteq> 0"
  shows "clz64_portable x = clz64 x"
proof -
  let ?L = "floorlog 2 (unat x)"
  have L: "?L \<in> set [1..<65]" using floorlog2_u64 [OF assms] by auto
  have "smear64 x = push_bit ?L 1 - 1"
    using smear64_mask [OF assms] by (simp add: mask_eq_exp_minus_1 push_bit_eq_mult)
  then have "clz64_portable x = int (64 - ?L)"
    using debruijn_clz64_table [unfolded list_all_iff, rule_format, OF L] by (simp only: clz64_portable_def)
  then show ?thesis using floorlog2_u64 [OF assms] by (simp add: clz64_def)
qed

subsection \<open>JSON integers\<close>

lemma json_mantissa_exact:
  assumes "0 < n" "n < 2 ^ 53"
  defines "e \<equiv> floorlog 2 n - 1"
  shows "json_mantissa (of_nat n) = (of_nat (n * 2 ^ (52 - e)), int (52 - e))"
proof -
  note p = double_of_nat_parts [OF assms(1,2), folded e_def]
  have u: "unat (of_nat n :: u64) = n" using assms(2) by (intro unat_of_nat_lt) simp
  have "floorlog 2 n \<noteq> 0" using assms(1) by (simp add: floorlog_eq_zero_iff)
  then have "int (floorlog 2 n) = int e + 1" by (simp add: e_def)
  then have c: "clz64 (of_nat n) = 63 - int e" by (simp add: clz64_def u)
  have "unat (push_bit (52 - e) (of_nat n) :: u64) = n * 2 ^ (52 - e)"
    using p(3) u by (subst unat_push_bit_lt) simp_all
  then have "push_bit (52 - e) (of_nat n) = (of_nat (n * 2 ^ (52 - e)) :: u64)"
    using word_of_nat_eq_iff by (metis of_nat_unat ucast_id)
  then show ?thesis
    using p(1) c by (simp add: json_mantissa_def Let_def ieee754_defs of_nat_diff nat_diff_distrib' flip: of_nat_mult)
qed

lemma word_eq_of_unat: "unat w = n \<Longrightarrow> w = of_nat n" for w :: "'a::len word"
  by (metis of_nat_unat ucast_id)

text \<open>Exponent and mantissa fields added up are the double of the integer.\<close>

lemma json_fields:
  assumes "0 < n" "n < 2 ^ 53"
  defines "e \<equiv> floorlog 2 n - 1"
  shows "push_bit 52 (word_of_int (0x3FF + 52 - int (52 - e)) :: u64) + (of_nat (n * 2 ^ (52 - e)) - 0x0010000000000000) =
         double_of_nat n"
    and "unat (double_of_nat n) < 2 ^ 63" "0 < unat (double_of_nat n)"
proof -
  note p = double_of_nat_parts [OF assms(1,2), folded e_def]
  have "word_of_int (0x3FF + 52 - int (52 - e)) = (of_nat (1023 + e) :: u64)"
    using p(1) by (simp add: of_nat_diff)
  moreover have "unat (of_nat (1023 + e) :: u64) = 1023 + e" using p(1) by (intro unat_of_nat_lt) simp
  ultimately have x: "unat (word_of_int (0x3FF + 52 - int (52 - e)) :: u64) = 1023 + e" by (simp only:)
  then have "unat (push_bit 52 (word_of_int (0x3FF + 52 - int (52 - e)) :: u64)) = (1023 + e) * 2 ^ 52"
    using p(1) unat_push_bit_lt [of "word_of_int (0x3FF + 52 - int (52 - e)) :: u64" 52] unfolding x by simp
  moreover have "unat (of_nat (n * 2 ^ (52 - e)) :: u64) = n * 2 ^ (52 - e)"
    using p(3) by (intro unat_of_nat_lt) simp
  then have "unat (of_nat (n * 2 ^ (52 - e)) - 0x0010000000000000 :: u64) = n * 2 ^ (52 - e) - 2 ^ 52"
    using p(2) by (subst unat_sub_le) (simp_all only: word_le_nat_alt, simp_all)
  ultimately have "unat (push_bit 52 (word_of_int (0x3FF + 52 - int (52 - e)) :: u64) +
       (of_nat (n * 2 ^ (52 - e)) - 0x0010000000000000)) = unat (double_of_nat n)"
    using p by (subst unat_add_lt) simp_all
  then show "push_bit 52 (word_of_int (0x3FF + 52 - int (52 - e)) :: u64) +
       (of_nat (n * 2 ^ (52 - e)) - 0x0010000000000000) = double_of_nat n" by (simp only: word_unat_eq_iff)
  show "unat (double_of_nat n) < 2 ^ 63" "0 < unat (double_of_nat n)" using p by simp_all
qed

lemma json_decode:
  assumes "0 < n" "n < 2 ^ 53"
  defines "d \<equiv> double_of_nat n" and "e \<equiv> floorlog 2 n - 1"
  shows "0x3FF + 63 - (0x7FF AND int (unat (drop_bit 52 d))) = int (63 - e)"
    and "drop_bit (63 - e) (push_bit 11 (d AND 0x000FFFFFFFFFFFFF) + 0x8000000000000000) = of_nat n"
    and "e < 53"
proof -
  note p = double_of_nat_parts [OF assms(1,2), folded e_def d_def]
    and f = double_of_nat_fields [OF assms(1,2), folded e_def d_def]
  show e: "e < 53" by (rule p(1))
  have fr: "n * 2 ^ (52 - e) - 2 ^ 52 < 2 ^ 52" using p(2,3) by linarith
  have "unat (drop_bit 52 d) = 1023 + e"
    unfolding unat_drop_bit_div p(4) using div_mod_parts [OF fr, of "1023 + e"] by simp
  moreover have masked: "0x7FF AND int k = int (k mod 2048)" for k
    using take_bit_eq_mask [of 11 "int k"] by (simp add: and.commute take_bit_eq_mod zmod_int mask_eq_exp_minus_1)
  ultimately have "0x7FF AND int (unat (drop_bit 52 d)) = int (1023 + e)" using e by (simp only: masked) simp
  then show "0x3FF + 63 - (0x7FF AND int (unat (drop_bit 52 d))) = int (63 - e)"
    using e by (simp add: of_nat_diff)
  have "unat (d AND 0x000FFFFFFFFFFFFF) = n * 2 ^ (52 - e) - 2 ^ 52"
    using and_mask_mod [of 52 d] f(2) by (simp add: dbl_fraction_def)
  then have "unat (push_bit 11 (d AND 0x000FFFFFFFFFFFFF)) = (n * 2 ^ (52 - e) - 2 ^ 52) * 2 ^ 11"
    using fr by (subst unat_push_bit_lt) simp_all
  then have "unat (push_bit 11 (d AND 0x000FFFFFFFFFFFFF) + 0x8000000000000000) =
      (n * 2 ^ (52 - e) - 2 ^ 52) * 2 ^ 11 + 2 ^ 63"
    using fr by (subst unat_add_lt) simp_all
  also have "\<dots> = n * 2 ^ (52 - e) * 2 ^ 11" using p(2) by (simp add: diff_mult_distrib)
  also have "\<dots> = n * 2 ^ (63 - e)"
  proof -
    have "52 - e + 11 = 63 - e" using e by simp
    then have "2 ^ (52 - e) * 2 ^ 11 = (2::nat) ^ (63 - e)" by (metis power_add)
    then show ?thesis by (simp only: mult.assoc)
  qed
  finally have "unat (drop_bit (63 - e) (push_bit 11 (d AND 0x000FFFFFFFFFFFFF) + 0x8000000000000000)) = n"
    by (simp add: unat_drop_bit_div)
  then show "drop_bit (63 - e) (push_bit 11 (d AND 0x000FFFFFFFFFFFFF) + 0x8000000000000000) = of_nat n"
    by (rule word_eq_of_unat)
qed

lemma json_value:
  assumes "0 < n" "n < 2 ^ 53"
  shows "jsonInteger_of_key (0x8000000000000000 + double_of_nat n) = of_nat n"
    and "jsonInteger_of_key (0x8000000000000000 - 1 - double_of_nat n) = - of_nat n"
proof -
  note f = json_fields [OF assms] and d = json_decode [OF assms]
  let ?e = "floorlog 2 n - 1"
  have eleven: "(63::nat) - 52 = 11" by simp
  have sh: "\<not> int (63 - ?e) < 1" "\<not> 63 < int (63 - ?e)" using d(3) by auto
  have gt: "0x8000000000000000 + double_of_nat n > 0x8000000000000000"
    using f(2,3) by (simp add: word_less_nat_alt unat_add_lt)
  then have "\<not> 0x8000000000000000 + double_of_nat n < 0x8000000000000000" by simp
  then show "jsonInteger_of_key (0x8000000000000000 + double_of_nat n) = of_nat n"
    unfolding jsonInteger_of_key_def Let_def ieee754_defs if_P [OF gt] add_diff_cancel_left' d(1) nat_int
    by (simp only: sh if_False d(2) eleven)
  have "unat (0x8000000000000000 - 1 - double_of_nat n) = 2 ^ 63 - 1 - unat (double_of_nat n)"
    using f(2) by (subst unat_sub_le) (simp_all add: word_le_nat_alt)
  then have lt: "0x8000000000000000 - 1 - double_of_nat n < 0x8000000000000000"
    by (simp add: word_less_nat_alt)
  then have "\<not> 0x8000000000000000 < 0x8000000000000000 - 1 - double_of_nat n" by simp
  note not_above = this
  have cov: "0x8000000000000000 - (0x8000000000000000 - 1 - double_of_nat n) - 1 = double_of_nat n" by simp
  show "jsonInteger_of_key (0x8000000000000000 - 1 - double_of_nat n) = - of_nat n"
    unfolding jsonInteger_of_key_def Let_def ieee754_defs if_not_P [OF not_above] cov d(1) nat_int
    by (simp only: sh lt if_False if_True d(2) eleven)
qed

lemma key_of_jsonInteger:
  assumes "0 < n" "n < 2 ^ 53"
  shows "mdbx_key_from_jsonInteger (of_nat n) = 0x8000000000000000 + double_of_nat n"
    and "mdbx_key_from_jsonInteger (- of_nat n) = 0x8000000000000000 - 1 - double_of_nat n"
proof -
  have u: "unat (of_nat n :: u64) = n" using assms(2) by (intro unat_of_nat_lt) simp
  have "\<not> sint (of_nat n :: u64) < 0" using sint_negative_iff(1) [of "of_nat n"] assms u by simp
  moreover have "(of_nat n :: u64) \<noteq> 0" using u assms(1) by (metis less_irrefl unsigned_0)
  then have "sint (of_nat n :: u64) \<noteq> 0" by (metis signed_eq_0_iff)
  ultimately have pos: "0 < sint (of_nat n :: u64)" by linarith
  have "(- of_nat n :: u64) = of_nat (18446744073709551616 - n)"
    using assms(2) by (simp add: of_nat_diff)
  moreover have "unat (of_nat (18446744073709551616 - n) :: u64) = 18446744073709551616 - n"
    using assms by (intro unat_of_nat_lt) simp
  ultimately have "unat (- of_nat n :: u64) = 18446744073709551616 - n" by (simp only:)
  then have neg: "sint (- of_nat n :: u64) < 0" using sint_negative_iff(1) [of "- of_nat n"] assms(2) by simp
  then have npos: "\<not> 0 < sint (- of_nat n :: u64)" by simp
  note j = json_mantissa_exact [OF assms] and f = json_fields(1) [OF assms]
  show "mdbx_key_from_jsonInteger (of_nat n) = 0x8000000000000000 + double_of_nat n"
    unfolding mdbx_key_from_jsonInteger_def Let_def if_P [OF pos] j split ieee754_defs
    by (simp only: add.assoc f [unfolded ieee754_defs] of_nat_numeral)
  show "mdbx_key_from_jsonInteger (- of_nat n) = 0x8000000000000000 - 1 - double_of_nat n"
    unfolding mdbx_key_from_jsonInteger_def Let_def if_not_P [OF npos] if_P [OF neg] minus_minus j split ieee754_defs
    by (simp only: diff_diff_eq [of "0x8000000000000000 - 1"] f [unfolded ieee754_defs] of_nat_numeral)
qed

lemma double2key_of_nat:
  assumes "0 < n" "n < 2 ^ 53"
  shows "double2key (double_of_nat n) = 0x8000000000000000 + double_of_nat n"
    and "double2key (0x8000000000000000 + double_of_nat n) = 0x8000000000000000 - 1 - double_of_nat n"
proof -
  note f = json_fields(2,3) [OF assms]
  have "\<not> sint (double_of_nat n) < 0" using sint_negative_iff(1) [of "double_of_nat n"] f by simp
  then show "double2key (double_of_nat n) = 0x8000000000000000 + double_of_nat n"
    by (simp add: double2key_def add.commute)
  have "unat (0x8000000000000000 + double_of_nat n) = 2 ^ 63 + unat (double_of_nat n)"
    using f by (subst unat_add_lt) simp_all
  then have "sint (0x8000000000000000 + double_of_nat n) < 0"
    using sint_negative_iff(1) [of "0x8000000000000000 + double_of_nat n"] by simp
  then show "double2key (0x8000000000000000 + double_of_nat n) = 0x8000000000000000 - 1 - double_of_nat n"
    by (simp add: double2key_def)
qed

lemma signed_reading:
  "s = u - K * of_bool b \<Longrightarrow> b \<longleftrightarrow> s < 0 \<Longrightarrow> s < 0 \<longleftrightarrow> H \<le> n \<Longrightarrow> u = int n \<Longrightarrow>
   s = int n - (if H \<le> n then K else 0)" for H n :: nat
  by auto

lemma sint_as_unat:
  "sint (w :: u64) = int (unat w) - (if 9223372036854775808 \<le> unat w then 18446744073709551616 else 0)"
  "sint (v :: u32) = int (unat v) - (if 2147483648 \<le> unat v then 4294967296 else 0)"
proof -
  have "take_bit 64 (uint w) = uint w"
    using unsigned_less [of w, where 'a = int] by (intro take_bit_int_eq_self) simp_all
  then have "sint w = uint w - 18446744073709551616 * of_bool (bit (uint w) 63)"
    unfolding sint_uint signed_take_bit_eq_take_bit_minus by simp
  moreover have "bit (uint w) 63 \<longleftrightarrow> sint w < 0" by (simp add: sint_uint signed_take_bit_negative_iff)
  moreover have "sint w < 0 \<longleftrightarrow> 9223372036854775808 \<le> unat w" using sint_negative_iff(1) [of w] by simp
  ultimately show "sint w = int (unat w) - (if 9223372036854775808 \<le> unat w then 18446744073709551616 else 0)"
    using uint_nat [of w] by (rule signed_reading)
  have "take_bit 32 (uint v) = uint v"
    using unsigned_less [of v, where 'a = int] by (intro take_bit_int_eq_self) simp_all
  then have "sint v = uint v - 4294967296 * of_bool (bit (uint v) 31)"
    unfolding sint_uint signed_take_bit_eq_take_bit_minus by simp
  moreover have "bit (uint v) 31 \<longleftrightarrow> sint v < 0" by (simp add: sint_uint signed_take_bit_negative_iff)
  moreover have "sint v < 0 \<longleftrightarrow> 2147483648 \<le> unat v" using sint_negative_iff(2) [of v] by simp
  ultimately show "sint v = int (unat v) - (if 2147483648 \<le> unat v then 4294967296 else 0)"
    using uint_nat [of v] by (rule signed_reading)
qed

lemma biased_order:
  "int (unat (0x8000000000000000 + x :: u64)) = sint x + 9223372036854775808"
  "int (unat (0x80000000 + y :: u32)) = sint y + 2147483648"
proof -
  have m: "(9223372036854775808 + k) mod 18446744073709551616 =
      (if 9223372036854775808 \<le> k then k - 9223372036854775808 else k + 9223372036854775808)"
    if "k < 18446744073709551616" for k :: nat
    using that by (auto simp: mod_if)
  have "unat (0x8000000000000000 + x) = (9223372036854775808 + unat x) mod 18446744073709551616"
    by (simp add: unat_word_ariths)
  then have u: "unat (0x8000000000000000 + x) =
      (if 9223372036854775808 \<le> unat x then unat x - 9223372036854775808 else unat x + 9223372036854775808)"
    using m [OF unat_u64_less] by simp
  show "int (unat (0x8000000000000000 + x)) = sint x + 9223372036854775808"
    unfolding u sint_as_unat(1) [of x] by auto
  have m: "(2147483648 + k) mod 4294967296 = (if 2147483648 \<le> k then k - 2147483648 else k + 2147483648)"
    if "k < 4294967296" for k :: nat
    using that by (auto simp: mod_if)
  have "unat (0x80000000 + y) = (2147483648 + unat y) mod 4294967296"
    by (simp add: unat_word_ariths)
  then have u: "unat (0x80000000 + y) = (if 2147483648 \<le> unat y then unat y - 2147483648 else unat y + 2147483648)"
    using m [OF unat_u32_less] by simp
  show "int (unat (0x80000000 + y)) = sint y + 2147483648"
    unfolding u sint_as_unat(2) [of y] by auto
qed

subsection \<open>Properties\<close>

text \<open>
  C31: keys made from doubles and floats sort as the numbers do (only the two zeros, equal as
  numbers, get neighbouring keys), and the number is recovered from its key.
\<close>

theorem floating_keys_keep_order:
  "(mdbx_key_from_double a < mdbx_key_from_double b \<longleftrightarrow>
      double_units a < double_units b \<or> a = 0x8000000000000000 \<and> b = 0) \<and>
   (mdbx_key_from_float u < mdbx_key_from_float v \<longleftrightarrow>
      float_units u < float_units v \<or> u = 0x80000000 \<and> v = 0) \<and>
   mdbx_double_from_key ok (st64 m p (mdbx_key_from_double a)) \<lparr>iov_base = p, iov_len = 8\<rparr> = a \<and>
   mdbx_float_from_key ok (st32 m p (mdbx_key_from_float u)) \<lparr>iov_base = p, iov_len = 4\<rparr> = u"
proof (intro conjI)
  have "a = 0x8000000000000000 \<and> b = 0 \<longleftrightarrow> unat a = 2 ^ 63 \<and> unat b = 0"
    by (simp add: word_unat_eq_iff)
  then show "mdbx_key_from_double a < mdbx_key_from_double b \<longleftrightarrow>
      double_units a < double_units b \<or> a = 0x8000000000000000 \<and> b = 0"
    using key_of_bits_order [of "unat a" "2 ^ 63" "unat b" 52] unat_u64_less [of a] unat_u64_less [of b]
    by (simp add: mdbx_key_from_double_def word_less_nat_alt unat_double2key double_units_def)
  have "u = 0x80000000 \<and> v = 0 \<longleftrightarrow> unat u = 2 ^ 31 \<and> unat v = 0"
    by (simp add: word_unat_eq_iff)
  then show "mdbx_key_from_float u < mdbx_key_from_float v \<longleftrightarrow>
      float_units u < float_units v \<or> u = 0x80000000 \<and> v = 0"
    using key_of_bits_order [of "unat u" "2 ^ 31" "unat v" 23] unat_u32_less [of u] unat_u32_less [of v]
    by (simp add: mdbx_key_from_float_def word_less_nat_alt unat_float2key float_units_def)
  show "mdbx_double_from_key ok (st64 m p (mdbx_key_from_double a)) \<lparr>iov_base = p, iov_len = 8\<rparr> = a"
    by (simp add: mdbx_double_from_key_def mdbx_key_from_double_def mem_simps key2double_double2key)
  show "mdbx_float_from_key ok (st32 m p (mdbx_key_from_float u)) \<lparr>iov_base = p, iov_len = 4\<rparr> = u"
    by (simp add: mdbx_float_from_key_def mdbx_key_from_float_def mem_simps key2float_float2key)
qed

text \<open>
  C32: a JSON integer that a double represents exactly gets the key of that double and is read
  back from it, except zero: its key is the key of the double zero, but reading it back gives
  the largest 64-bit integer.
\<close>

theorem json_integer_keys:
  assumes "0 < n" "n < 2 ^ 53"
  shows "mdbx_key_from_jsonInteger (of_nat n) = mdbx_key_from_double (double_of_nat n) \<and>
         mdbx_key_from_jsonInteger (- of_nat n) = mdbx_key_from_double (0x8000000000000000 + double_of_nat n) \<and>
         mdbx_jsonInteger_from_key ok (st64 m p (mdbx_key_from_jsonInteger (of_nat n))) \<lparr>iov_base = p, iov_len = 8\<rparr> = of_nat n \<and>
         mdbx_jsonInteger_from_key ok (st64 m p (mdbx_key_from_jsonInteger (- of_nat n))) \<lparr>iov_base = p, iov_len = 8\<rparr> = - of_nat n \<and>
         mdbx_key_from_jsonInteger 0 = mdbx_key_from_double (double_of_nat 0) \<and>
         mdbx_jsonInteger_from_key ok (st64 m p (mdbx_key_from_jsonInteger 0)) \<lparr>iov_base = p, iov_len = 8\<rparr> = INT64_MAX"
proof -
  have zero: "mdbx_key_from_jsonInteger 0 = 0x8000000000000000" by (simp add: mdbx_key_from_jsonInteger_def)
  moreover have "double2key (double_of_nat 0) = 0x8000000000000000"
    by (simp add: double2key_def double_of_nat_def)
  moreover have "jsonInteger_of_key 0x8000000000000000 = INT64_MAX" by code_simp
  ultimately show ?thesis
    unfolding mdbx_key_from_double_def double2key_of_nat [OF assms] mdbx_jsonInteger_from_key_def
    by (simp only: mem_simps mdbx_val.simps key_of_jsonInteger [OF assms] json_value [OF assms] simp_thms)
qed

theorem json_integer_keys_witness:
  "mdbx_key_from_jsonInteger (of_nat 42) = mdbx_key_from_double (double_of_nat 42) \<and>
   mdbx_jsonInteger_from_key True (st64 (\<lambda>_. 0) 8 (mdbx_key_from_jsonInteger (- of_nat 42)))
     \<lparr>iov_base = 8, iov_len = 8\<rparr> = - of_nat 42"
proof -
  have "(0::nat) < 42" "(42::nat) < 2 ^ 53" by simp_all
  from json_integer_keys [OF this, of True "\<lambda>_. 0" 8] show ?thesis by blast
qed

text \<open>
  The keys of signed integers sort as the integers and give them back.
\<close>

lemma integer_keys_keep_order:
  "(mdbx_key_from_int64 a < mdbx_key_from_int64 b \<longleftrightarrow> sint a < sint b) \<and>
   (mdbx_key_from_int32 u < mdbx_key_from_int32 v \<longleftrightarrow> sint u < sint v) \<and>
   mdbx_int64_from_key ok (st64 m p (mdbx_key_from_int64 a)) \<lparr>iov_base = p, iov_len = 8\<rparr> = a \<and>
   mdbx_int32_from_key ok (st32 m p (mdbx_key_from_int32 u)) \<lparr>iov_base = p, iov_len = 4\<rparr> = u"
proof (intro conjI)
  show "mdbx_key_from_int64 a < mdbx_key_from_int64 b \<longleftrightarrow> sint a < sint b"
    using biased_order(1) [of a] biased_order(1) [of b]
    unfolding mdbx_key_from_int64_def word_less_nat_alt by linarith
  show "mdbx_key_from_int32 u < mdbx_key_from_int32 v \<longleftrightarrow> sint u < sint v"
    using biased_order(2) [of u] biased_order(2) [of v]
    unfolding mdbx_key_from_int32_def word_less_nat_alt by linarith
qed (simp_all add: mdbx_int64_from_key_def mdbx_int32_from_key_def mdbx_key_from_int64_def
  mdbx_key_from_int32_def mem_simps)

text \<open>
  The portable leading-zero count (smearing and a De Bruijn table) is the builtin's.
\<close>

lemma clz64_portable_agrees:
  assumes "x \<noteq> 0"
  shows "clz64_portable x = clz64 x"
  using assms by (rule clz64_portable_eq)

lemma clz64_portable_agrees_witness: "clz64_portable 0x00F0 = clz64 0x00F0"
  by (rule clz64_portable_agrees) simp

end
