(* ===== verification/Environment.thy ===== *)
theory Environment
  imports Byte_Memory Result_Codes
begin

text \<open>
  The environment object of \<open>mdbx.c\<close> as far as its limits and options go: page-size
  dependent limits of keys, values, databases and transactions, creation with its
  defaults, and the option interface.  The build is the 64-bit one for Linux; what the
  operating system answers is a parameter.
\<close>

subsection \<open>Constants\<close>

definition MDBX_REVERSEKEY :: u32 where "MDBX_REVERSEKEY = 0x02"
definition MDBX_DUPSORT :: u32 where "MDBX_DUPSORT = 0x04"
definition MDBX_INTEGERKEY :: u32 where "MDBX_INTEGERKEY = 0x08"
definition MDBX_DUPFIXED :: u32 where "MDBX_DUPFIXED = 0x10"
definition MDBX_INTEGERDUP :: u32 where "MDBX_INTEGERDUP = 0x20"
definition MDBX_REVERSEDUP :: u32 where "MDBX_REVERSEDUP = 0x40"

definition MIN_PAGESIZE :: nat where "MIN_PAGESIZE = 256"
definition MAX_PAGESIZE :: nat where "MAX_PAGESIZE = 65536"
definition MAX_MAPSIZE :: nat where "MAX_MAPSIZE = 2147483647 * 65536"
definition MAX_MAPSIZE32 :: nat where "MAX_MAPSIZE32 = 0x7f000000"
definition MDBX_PGL_LIMIT :: nat where "MDBX_PGL_LIMIT = 2147483647"
definition MDBX_READERS_LIMIT :: u64 where "MDBX_READERS_LIMIT = 32767"
definition MDBX_MAX_DBI :: u64 where "MDBX_MAX_DBI = 32765"
definition CORE_DBS :: u32 where "CORE_DBS = 2"
definition CURSOR_STACK :: nat where "CURSOR_STACK = 32"
definition NUM_METAS :: u32 where "NUM_METAS = 3"
definition PAGEHDRSZ :: nat where "PAGEHDRSZ = 20"
definition NODESIZE :: nat where "NODESIZE = 8"
definition sizeof_indx :: nat where "sizeof_indx = 2"
definition sizeof_pgno :: nat where "sizeof_pgno = 4"
definition sizeof_db :: nat where "sizeof_db = 48"

lemmas size_defs = MIN_PAGESIZE_def MAX_PAGESIZE_def PAGEHDRSZ_def NODESIZE_def sizeof_indx_def
  sizeof_pgno_def sizeof_db_def MAX_MAPSIZE_def MDBX_PGL_LIMIT_def

lemmas db_flag_defs = MDBX_REVERSEKEY_def MDBX_DUPSORT_def MDBX_INTEGERKEY_def MDBX_DUPFIXED_def
  MDBX_INTEGERDUP_def MDBX_REVERSEDUP_def

subsection \<open>Lengths of nodes, keys and values\<close>

definition even_ceil :: "nat \<Rightarrow> nat" where "even_ceil n = (n + 1) div 2 * 2"
definition EVEN_FLOOR :: "nat \<Rightarrow> nat" where "EVEN_FLOOR n = n div 2 * 2"
definition PAGEROOM :: "nat \<Rightarrow> nat" where "PAGEROOM pagesize = pagesize - PAGEHDRSZ"

definition BRANCH_NODE_MAX :: "nat \<Rightarrow> nat" where
  "BRANCH_NODE_MAX pagesize =
     EVEN_FLOOR ((PAGEROOM pagesize - sizeof_indx - NODESIZE) div (3 - 1) - sizeof_indx)"

definition LEAF_NODE_MAX :: "nat \<Rightarrow> nat" where
  "LEAF_NODE_MAX pagesize = EVEN_FLOOR (PAGEROOM pagesize div 2) - sizeof_indx"

definition MAX_GC1OVPAGE :: "nat \<Rightarrow> nat" where
  "MAX_GC1OVPAGE pagesize = PAGEROOM pagesize div sizeof_pgno - 1"

definition keysize_max :: "nat \<Rightarrow> u32 \<Rightarrow> nat" where
  "keysize_max pagesize flags =
     (if flags AND MDBX_INTEGERKEY \<noteq> 0 then 8
      else let max_branch_key = BRANCH_NODE_MAX pagesize - NODESIZE
           in if flags AND (MDBX_DUPSORT OR MDBX_DUPFIXED OR MDBX_REVERSEDUP OR MDBX_INTEGERDUP) \<noteq> 0
              then (let max_dupsort_leaf_key = LEAF_NODE_MAX pagesize - NODESIZE - sizeof_db
                    in if max_branch_key < max_dupsort_leaf_key then max_branch_key else max_dupsort_leaf_key)
              else max_branch_key)"

definition valsize_max :: "nat \<Rightarrow> u32 \<Rightarrow> nat" where
  "valsize_max pagesize flags =
     (if flags AND MDBX_INTEGERDUP \<noteq> 0 then 8
      else if flags AND (MDBX_DUPSORT OR MDBX_DUPFIXED OR MDBX_REVERSEDUP) \<noteq> 0 then keysize_max pagesize 0
      else let page_ln2 = unat (log2n_powerof2 (of_nat pagesize));
               hard = 0x7FF00000;
               hard_pages = hard div 2 ^ page_ln2;
               pages_limit = MDBX_PGL_LIMIT div 4;
               limit = (if hard_pages < pages_limit then hard else pages_limit * 2 ^ page_ln2)
           in if limit < MAX_MAPSIZE div 2 then limit else MAX_MAPSIZE div 2)"

text \<open>\<open>syspagesize\<close> is the page size of the system; it must be a power of two.\<close>

definition mdbx_default_pagesize :: "nat \<Rightarrow> nat" where
  "mdbx_default_pagesize syspagesize =
     (let pagesize = (if syspagesize \<ge> MIN_PAGESIZE then syspagesize else MIN_PAGESIZE)
      in if pagesize \<le> MAX_PAGESIZE then pagesize else MAX_PAGESIZE)"

definition mdbx_limits_pgsize_min :: int where "mdbx_limits_pgsize_min = int MIN_PAGESIZE"
definition mdbx_limits_pgsize_max :: int where "mdbx_limits_pgsize_max = int MAX_PAGESIZE"

definition bad_pagesize :: "int \<Rightarrow> bool" where
  "bad_pagesize pagesize \<longleftrightarrow>
     pagesize < int MIN_PAGESIZE \<or> pagesize > int MAX_PAGESIZE \<or> \<not> is_powerof2 (word_of_int pagesize)"

definition mdbx_limits_keysize_max :: "nat \<Rightarrow> int \<Rightarrow> u32 \<Rightarrow> int" where
  "mdbx_limits_keysize_max syspagesize pagesize flags =
     (let pagesize = (if pagesize < 1 then int (mdbx_default_pagesize syspagesize) else pagesize)
      in if bad_pagesize pagesize then -1 else int (keysize_max (nat pagesize) flags))"

definition mdbx_limits_valsize_max :: "nat \<Rightarrow> int \<Rightarrow> u32 \<Rightarrow> int" where
  "mdbx_limits_valsize_max syspagesize pagesize flags =
     (let pagesize = (if pagesize < 1 then int (mdbx_default_pagesize syspagesize) else pagesize)
      in if bad_pagesize pagesize then -1 else int (valsize_max (nat pagesize) flags))"

definition mdbx_limits_dbsize_min :: "nat \<Rightarrow> int \<Rightarrow> int" where
  "mdbx_limits_dbsize_min syspagesize pagesize =
     (if pagesize < 1 then 3 * int (mdbx_default_pagesize syspagesize)
      else if bad_pagesize pagesize then -1
      else 3 * pagesize)"

definition mdbx_limits_dbsize_max :: "nat \<Rightarrow> int \<Rightarrow> int" where
  "mdbx_limits_dbsize_max syspagesize pagesize =
     (if 1 \<le> pagesize \<and> bad_pagesize pagesize then -1
      else let pagesize = (if pagesize < 1 then int (mdbx_default_pagesize syspagesize) else pagesize);
               limit = (1 + 0x7FFFFFFF) * pagesize
           in if limit < int MAX_MAPSIZE then limit else int MAX_MAPSIZE)"

text \<open>The quotients of the page and map limits by the golden ratio, as the compiler folds them.\<close>

definition mdbx_limits_txnsize_max :: "nat \<Rightarrow> int \<Rightarrow> int" where
  "mdbx_limits_txnsize_max syspagesize pagesize =
     (if 1 \<le> pagesize \<and> bad_pagesize pagesize then -1
      else let pagesize = (if pagesize < 1 then int (mdbx_default_pagesize syspagesize) else pagesize);
               pgl_limit = pagesize * 1327217884;
               map_limit = 86980551254381
           in if pgl_limit < map_limit then pgl_limit else map_limit)"

definition flags_db2sub :: "u16 \<Rightarrow> u16" where
  "flags_db2sub db_flags =
     (let sub_flags = db_flags AND 0x10;
          sub_flags = sub_flags OR drop_bit 2 (db_flags AND 0x20);
          sub_flags = sub_flags OR drop_bit 5 (db_flags AND 0x40)
      in sub_flags)"

subsection \<open>The environment\<close>

record env_options =
  dp_reserve_limit :: u32
  rp_augment_limit :: u32
  dp_limit :: u32
  dp_initial :: u32
  dp_loose_limit :: u8
  spill_max_denominator :: u8
  spill_min_denominator :: u8
  spill_parent4child_denominator :: u8
  merge_threshold_16dot16_percent :: u32
  non_auto_dp_limit :: bool

text \<open>
  \<open>me_map\<close> and \<open>me_txn\<close> tell whether the pointers are set, \<open>me_foreign_owner\<close> that the
  write transaction slot exists and is owned by another thread; \<open>me_dp_reserve\<close> is the list
  of reserved pages; the last two fields are those of the lock file.
\<close>

record menv =
  me_signature :: u32
  me_flags :: u32
  me_pid :: u32
  me_map :: bool
  me_txn :: bool
  me_foreign_owner :: bool
  me_psize :: u32
  me_os_psize :: u32
  me_psize2log :: nat
  me_leaf_nodemax :: u32
  me_maxgc_ov1page :: u32
  me_merge_threshold :: u16
  me_merge_threshold_gc :: u16
  me_maxdbs :: u32
  me_maxreaders :: u32
  me_dp_reserve :: "nat list"
  me_dp_reserve_len :: u32
  me_options :: env_options
  mti_autosync_threshold :: u32
  mti_autosync_period :: u64

definition MDBX_ME_SIGNATURE :: u32 where "MDBX_ME_SIGNATURE = 0x9A899641"
definition MDBX_FATAL_ERROR :: u32 where "MDBX_FATAL_ERROR = 0x80000000"
definition MDBX_ENV_ACTIVE :: u32 where "MDBX_ENV_ACTIVE = 0x20000000"
definition MDBX_RDONLY :: u32 where "MDBX_RDONLY = 0x20000"

text \<open>\<open>check_env\<close>; a null pointer is \<open>None\<close>.  It may mark the environment broken.\<close>

definition check_env :: "u32 \<Rightarrow> bool \<Rightarrow> menv option \<Rightarrow> mdbx_error \<times> menv option" where
  "check_env getpid wanna_active env =
     (case env of
        None \<Rightarrow> (MDBX_EINVAL, None)
      | Some e \<Rightarrow>
          (if me_signature e \<noteq> MDBX_ME_SIGNATURE then (MDBX_EBADSIGN, env)
           else if me_pid e \<noteq> getpid
           then (MDBX_PANIC, Some (e\<lparr>me_flags := me_flags e OR MDBX_FATAL_ERROR\<rparr>))
           else if me_flags e AND MDBX_FATAL_ERROR \<noteq> 0 then (MDBX_PANIC, env)
           else if wanna_active \<and> me_flags e AND MDBX_ENV_ACTIVE = 0 then (MDBX_EPERM, env)
           else (MDBX_SUCCESS, env)))"

definition mdbx_env_get_maxkeysize_ex :: "nat \<Rightarrow> menv option \<Rightarrow> u32 \<Rightarrow> int" where
  "mdbx_env_get_maxkeysize_ex syspagesize env flags =
     (case env of
        None \<Rightarrow> -1
      | Some e \<Rightarrow> if me_signature e \<noteq> MDBX_ME_SIGNATURE then -1
                 else mdbx_limits_keysize_max syspagesize (int (unat (me_psize e))) flags)"

definition mdbx_env_get_maxkeysize :: "nat \<Rightarrow> menv option \<Rightarrow> int" where
  "mdbx_env_get_maxkeysize syspagesize env = mdbx_env_get_maxkeysize_ex syspagesize env MDBX_DUPSORT"

definition mdbx_env_get_maxvalsize_ex :: "nat \<Rightarrow> menv option \<Rightarrow> u32 \<Rightarrow> int" where
  "mdbx_env_get_maxvalsize_ex syspagesize env flags =
     (case env of
        None \<Rightarrow> -1
      | Some e \<Rightarrow> if me_signature e \<noteq> MDBX_ME_SIGNATURE then -1
                 else mdbx_limits_valsize_max syspagesize (int (unat (me_psize e))) flags)"

subsection \<open>Sizes in an environment\<close>

definition node_size_len :: "nat \<Rightarrow> nat \<Rightarrow> nat" where
  "node_size_len key_len value_len = NODESIZE + even_ceil (key_len + value_len)"

definition node_size :: "mdbx_val option \<Rightarrow> mdbx_val option \<Rightarrow> nat" where
  "node_size key v =
     node_size_len (case key of Some k \<Rightarrow> unat (iov_len k) | None \<Rightarrow> 0)
       (case v of Some d \<Rightarrow> unat (iov_len d) | None \<Rightarrow> 0)"

definition leaf_size :: "menv \<Rightarrow> mdbx_val \<Rightarrow> mdbx_val \<Rightarrow> nat" where
  "leaf_size env key data =
     (let node_bytes = node_size (Some key) (Some data);
          node_bytes = (if node_bytes > unat (me_leaf_nodemax env)
                        then node_size_len (unat (iov_len key)) 0 + sizeof_pgno else node_bytes)
      in node_bytes + sizeof_indx)"

text \<open>A branch node beyond the limit fails an assertion: \<open>None\<close>.\<close>

definition branch_size :: "menv \<Rightarrow> mdbx_val option \<Rightarrow> nat option" where
  "branch_size env key =
     (let node_bytes = node_size key None
      in if node_bytes > unat (me_leaf_nodemax env) then None else Some (node_bytes + sizeof_indx))"

definition pgno2bytes :: "menv \<Rightarrow> u32 \<Rightarrow> u64" where
  "pgno2bytes env pgno = push_bit (me_psize2log env) (ucast pgno)"

definition pgno2page :: "menv \<Rightarrow> nat \<Rightarrow> u32 \<Rightarrow> nat" where
  "pgno2page env map_base pgno = map_base + unat (pgno2bytes env pgno)"

definition bytes2pgno :: "menv \<Rightarrow> u64 \<Rightarrow> u32" where
  "bytes2pgno env bytes = ucast (drop_bit (me_psize2log env) bytes)"

definition pgno_align2os_bytes :: "menv \<Rightarrow> u32 \<Rightarrow> u64" where
  "pgno_align2os_bytes env pgno = ceil_powerof2 (pgno2bytes env pgno) (ucast (me_os_psize env))"

definition pgno_align2os_pgno :: "menv \<Rightarrow> u32 \<Rightarrow> u32" where
  "pgno_align2os_pgno env pgno = bytes2pgno env (pgno_align2os_bytes env pgno)"

definition bytes_align2os_bytes :: "menv \<Rightarrow> u64 \<Rightarrow> u64" where
  "bytes_align2os_bytes env bytes =
     ceil_powerof2 (ceil_powerof2 bytes (ucast (me_psize env))) (ucast (me_os_psize env))"

definition page_space :: "menv \<Rightarrow> u32" where
  "page_space env = me_psize env - of_nat PAGEHDRSZ"

definition number_of_ovpages :: "menv \<Rightarrow> u64 \<Rightarrow> u32" where
  "number_of_ovpages env bytes = bytes2pgno env (of_nat (PAGEHDRSZ - 1) + bytes) + 1"

subsection \<open>Valid page sizes\<close>

lemma is_powerof2_exp_of_unat:
  assumes "is_powerof2 (x :: u64)" "x \<noteq> 0"
  shows "\<exists>k < 64. unat x = 2 ^ k"
proof (rule ccontr)
  assume no: "\<not> ?thesis"
  have x: "0 < unat x" using assms(2) by (simp add: unat_gt_0)
  obtain k where k: "2 ^ k \<le> unat x" "unat x < 2 ^ Suc k" using ex_power_ivl1 [of 2 "unat x"] x by auto
  have "(2::nat) ^ k < 2 ^ 64" using k(1) unsigned_less [of x, where 'a = nat] by simp
  then have k64: "k < 64" by (rule power_less_imp_less_exp [rotated]) simp
  then have "unat x \<noteq> 2 ^ k" using no by auto
  then have lt: "2 ^ k < unat x" using k(1) by simp
  have top_bit: "bit n k" if "2 ^ k \<le> n" "n < 2 ^ Suc k" for n :: nat
  proof -
    have "n div 2 ^ k = 1" using that by (intro div_nat_eqI) simp_all
    then show ?thesis by (simp add: bit_iff_odd)
  qed
  have "unat (x - 1) = unat x - 1" using x by (subst unat_sub_le) (simp_all add: word_le_nat_alt)
  then have "bit (unat (x - 1)) k" using lt k(2) by (simp add: top_bit)
  moreover have "bit (unat x) k" using k by (rule top_bit)
  ultimately have "bit (x AND (x - 1)) k" by (simp add: bit_and_iff bit_unsigned_iff)
  then show False using assms(1) by (simp add: is_powerof2_def)
qed

definition page_sizes :: "nat list" where
  "page_sizes = [256, 512, 1024, 2048, 4096, 8192, 16384, 32768, 65536]"

lemma valid_pagesize:
  assumes "MIN_PAGESIZE \<le> ps" "ps \<le> MAX_PAGESIZE" "is_powerof2 (of_nat ps)"
  shows "ps \<in> set page_sizes"
proof -
  have u: "unat (of_nat ps :: u64) = ps" using assms(2) by (intro unat_of_nat_lt) (simp add: size_defs)
  have "(of_nat ps :: u64) \<noteq> 0"
  proof
    assume "(of_nat ps :: u64) = 0"
    then have "ps = 0" using u by simp
    then show False using assms(1) by (simp add: size_defs)
  qed
  then obtain k where k: "ps = 2 ^ k" using is_powerof2_exp_of_unat [OF assms(3)] u by auto
  have "(2::nat) ^ 8 \<le> 2 ^ k" "(2::nat) ^ k \<le> 2 ^ 16" using assms(1,2) k by (simp_all add: size_defs)
  then have "8 \<le> k" "k \<le> 16" by (simp_all only: power_increasing_iff one_less_numeral_iff semiring_norm)
  then have "k \<in> {8, 9, 10, 11, 12, 13, 14, 15, 16}" by auto
  then show ?thesis unfolding k by (auto simp: page_sizes_def)
qed

lemma page_sizes_valid:
  "list_all (\<lambda>ps. is_powerof2 (of_nat ps) \<and> MIN_PAGESIZE \<le> ps \<and> ps \<le> MAX_PAGESIZE) page_sizes"
  by (simp add: page_sizes_def is_powerof2_def size_defs)

lemma even_ceil_bounds: "n \<le> even_ceil n" "even_ceil n \<le> n + 1" "even_ceil n mod 2 = 0"
  by (simp_all add: even_ceil_def)

lemma even_ceil_mono: "n \<le> k \<Longrightarrow> even_ceil n \<le> even_ceil k"
  by (simp add: even_ceil_def div_le_mono)

text \<open>The layout facts behind the limits, checked for every page size.\<close>

lemma page_layout_facts:
  "list_all (\<lambda>ps. NODESIZE + even_ceil (BRANCH_NODE_MAX ps - NODESIZE) \<le> BRANCH_NODE_MAX ps \<and>
     (NODESIZE + sizeof_indx) + 2 * (BRANCH_NODE_MAX ps + sizeof_indx) \<le> PAGEROOM ps \<and>
     2 * (LEAF_NODE_MAX ps + sizeof_indx) \<le> PAGEROOM ps \<and> BRANCH_NODE_MAX ps \<le> LEAF_NODE_MAX ps \<and>
     NODESIZE + even_ceil 8 \<le> BRANCH_NODE_MAX ps \<and>
     node_size_len (LEAF_NODE_MAX ps - NODESIZE - sizeof_db) sizeof_db \<le> LEAF_NODE_MAX ps \<and>
     node_size_len 8 sizeof_db \<le> LEAF_NODE_MAX ps) page_sizes"
  by (simp add: page_sizes_def size_defs even_ceil_def BRANCH_NODE_MAX_def LEAF_NODE_MAX_def EVEN_FLOOR_def
      PAGEROOM_def node_size_len_def)

subsection \<open>Properties\<close>

text \<open>
  C33: the key and node limits keep the page invariants for every page size: three branch
  nodes (the first without key) and two leaf nodes always fit in a page, every key within the
  limit fits in a branch node, and in a multi-value database it fits in a leaf node together
  with the record of a nested tree.
\<close>

theorem node_limits_fit_pages:
  assumes "MIN_PAGESIZE \<le> ps" "ps \<le> MAX_PAGESIZE" "is_powerof2 (of_nat ps)"
    and "key_len \<le> keysize_max ps flags"
  shows "node_size_len key_len 0 \<le> BRANCH_NODE_MAX ps \<and>
         (node_size_len 0 0 + sizeof_indx) + 2 * (BRANCH_NODE_MAX ps + sizeof_indx) \<le> PAGEROOM ps \<and>
         2 * (LEAF_NODE_MAX ps + sizeof_indx) \<le> PAGEROOM ps \<and>
         (flags AND MDBX_DUPSORT \<noteq> 0 \<longrightarrow> node_size_len key_len sizeof_db \<le> LEAF_NODE_MAX ps)"
proof -
  have ps: "ps \<in> set page_sizes" using assms(1-3) by (rule valid_pagesize)
  note f = page_layout_facts [unfolded list_all_iff, rule_format, OF ps]
  have dup: "flags AND (MDBX_DUPSORT OR MDBX_DUPFIXED OR MDBX_REVERSEDUP OR MDBX_INTEGERDUP) \<noteq> 0"
    if "flags AND MDBX_DUPSORT \<noteq> 0"
    using that by (simp add: bit.conj_disj_distrib) (metis or_eq_0_iff)
  have k1: "key_len \<le> 8 \<or> key_len \<le> BRANCH_NODE_MAX ps - NODESIZE"
    using assms(4) by (auto simp: keysize_max_def Let_def split: if_splits)
  have "NODESIZE + even_ceil key_len \<le> BRANCH_NODE_MAX ps"
    using k1 f even_ceil_mono [of key_len 8] even_ceil_mono [of key_len "BRANCH_NODE_MAX ps - NODESIZE"] by linarith
  moreover have "node_size_len key_len sizeof_db \<le> LEAF_NODE_MAX ps" if "flags AND MDBX_DUPSORT \<noteq> 0"
  proof -
    have "key_len \<le> 8 \<or> key_len \<le> LEAF_NODE_MAX ps - NODESIZE - sizeof_db"
      using assms(4) dup [OF that] by (auto simp: keysize_max_def Let_def split: if_splits)
    moreover have "node_size_len a sizeof_db \<le> node_size_len b sizeof_db" if "a \<le> b" for a b
      using even_ceil_mono [of "a + sizeof_db" "b + sizeof_db"] that by (simp add: node_size_len_def)
    ultimately show ?thesis using f by (meson le_trans)
  qed
  moreover have "even_ceil 0 = 0" by (simp add: even_ceil_def)
  ultimately show ?thesis using f by (simp add: node_size_len_def)
qed

theorem node_limits_fit_pages_witness:
  "node_size_len 1000 0 \<le> BRANCH_NODE_MAX 4096 \<and>
   (node_size_len 0 0 + sizeof_indx) + 2 * (BRANCH_NODE_MAX 4096 + sizeof_indx) \<le> PAGEROOM 4096 \<and>
   2 * (LEAF_NODE_MAX 4096 + sizeof_indx) \<le> PAGEROOM 4096"
proof -
  have "MIN_PAGESIZE \<le> 4096" "4096 \<le> MAX_PAGESIZE" "is_powerof2 (of_nat 4096)" "1000 \<le> keysize_max 4096 0"
    by (simp_all add: is_powerof2_def size_defs keysize_max_def db_flag_defs BRANCH_NODE_MAX_def EVEN_FLOOR_def
        PAGEROOM_def)
  from node_limits_fit_pages [OF this] show ?thesis by simp
qed

text \<open>
  The number of large pages for a value is enough for the page header and the value and
  no page too many, for every value within the limit.
\<close>

theorem overflow_pages_sufficient_and_minimal:
  assumes "unat (me_psize env) = 2 ^ me_psize2log env" "8 \<le> me_psize2log env" "unat bytes \<le> 0x7FF00000"
  shows "PAGEHDRSZ + unat bytes \<le> unat (number_of_ovpages env bytes) * unat (me_psize env) \<and>
         (unat (number_of_ovpages env bytes) - 1) * unat (me_psize env) < PAGEHDRSZ + unat bytes"
proof -
  define ps where "ps = unat (me_psize env)"
  have ps: "0 < ps" "256 \<le> ps"
    using assms(1) power_increasing [OF assms(2), of "2::nat"] by (simp_all add: ps_def)
  define n where "n = (19 + unat bytes) div ps"
  have "unat (of_nat (PAGEHDRSZ - 1) + bytes) = 19 + unat bytes"
    using assms(3) by (subst unat_add_lt) (simp_all add: PAGEHDRSZ_def)
  then have "unat (drop_bit (me_psize2log env) (of_nat (PAGEHDRSZ - 1) + bytes)) = n"
    using assms(1) by (simp add: unat_drop_bit_div n_def ps_def)
  moreover have n: "n \<le> 2146435091" 
  proof -
    have "n \<le> 19 + unat bytes" by (simp add: n_def)
    then show ?thesis using assms(3) by simp
  qed
  ultimately have "unat (bytes2pgno env (of_nat (PAGEHDRSZ - 1) + bytes)) = n"
    unfolding bytes2pgno_def by (subst unat_ucast_lt) simp_all
  then have "unat (number_of_ovpages env bytes) = n + 1"
    using n unfolding number_of_ovpages_def by (subst unat_add_lt) simp_all
  moreover have "19 + unat bytes = n * ps + (19 + unat bytes) mod ps" by (simp add: n_def)
  moreover have "(19 + unat bytes) mod ps < ps" using ps by simp
  moreover have "(n + 1) * ps = n * ps + ps" by simp
  ultimately show ?thesis by (simp add: PAGEHDRSZ_def flip: ps_def)
qed

definition demo_env :: menv where
  "demo_env = \<lparr>me_signature = MDBX_ME_SIGNATURE, me_flags = 0, me_pid = 7, me_map = False, me_txn = False,
      me_foreign_owner = False, me_psize = 4096, me_os_psize = 4096, me_psize2log = 12, me_leaf_nodemax = 2036,
      me_maxgc_ov1page = 1018, me_merge_threshold = 3057, me_merge_threshold_gc = 3057, me_maxdbs = 2,
      me_maxreaders = 61, me_dp_reserve = [], me_dp_reserve_len = 0,
      me_options = \<lparr>dp_reserve_limit = 1024, rp_augment_limit = 262144, dp_limit = 65536, dp_initial = 1018,
        dp_loose_limit = 64, spill_max_denominator = 8, spill_min_denominator = 8,
        spill_parent4child_denominator = 0, merge_threshold_16dot16_percent = 16384, non_auto_dp_limit = False\<rparr>,
      mti_autosync_threshold = 0, mti_autosync_period = 0\<rparr>"

theorem overflow_pages_sufficient_and_minimal_witness:
  "PAGEHDRSZ + unat (10000 :: u64) \<le> unat (number_of_ovpages demo_env 10000) * unat (me_psize demo_env)"
  using overflow_pages_sufficient_and_minimal [of demo_env 10000] by (simp add: demo_env_def)

end
