(* ===== verification/Env_Options.thy ===== *)
theory Env_Options
  imports Environment
begin

text \<open>
  Creation of an environment and its options (\<open>mdbx_env_create\<close>, \<open>mdbx_setup_pagesize\<close>,
  \<open>mdbx_env_set_option\<close>, \<open>mdbx_env_get_option\<close>) with the conversion of the time options.
\<close>

subsection \<open>Time in 16.16 fixed point\<close>

definition mdbx_osal_16dot16_to_monotime :: "u32 \<Rightarrow> u64" where
  "mdbx_osal_16dot16_to_monotime seconds_16dot16 =
     (let ratio = 1000000000;
          ret = drop_bit 16 (ratio * ucast seconds_16dot16 + 32768)
      in if ret \<noteq> 0 \<or> seconds_16dot16 = 0 then ret else 1)"

text \<open>The static variable \<open>limit\<close> is an argument and part of the result.\<close>

definition mdbx_osal_monotime_to_16dot16 :: "u64 \<Rightarrow> u64 \<Rightarrow> u32 \<times> u64" where
  "mdbx_osal_monotime_to_16dot16 limit monotime =
     (if monotime > limit \<and> limit \<noteq> 0 then (- 1, limit)
      else let limit = (if monotime > limit then mdbx_osal_16dot16_to_monotime (- 1 - 1) else limit)
           in if monotime > limit then (- 1, limit)
              else let ret = (ucast (monotime * 128 div 1953125) :: u32)
                   in (if ret \<noteq> 0 \<or> monotime = 0 then ret else 1, limit))"

subsection \<open>Page size set-up\<close>

definition recalculate_merge_threshold :: "menv \<Rightarrow> menv" where
  "recalculate_merge_threshold env =
     (let bytes = page_space env;
          percent = merge_threshold_16dot16_percent (me_options env)
      in env\<lparr>me_merge_threshold := ucast (bytes - drop_bit 16 (bytes * percent)),
             me_merge_threshold_gc := ucast (bytes - (if percent > 19005 then bytes div 3 else bytes div 4))\<rparr>)"

text \<open>
  \<open>sysram\<close> is the number of all and of available memory pages, \<open>None\<close> when it cannot be
  found.  A violated \<open>mdbx_ensure\<close> stops the program: \<open>None\<close>.
\<close>

definition reasonable_dpl_limit :: "u64 \<Rightarrow> u64 \<Rightarrow> int \<times> int \<Rightarrow> u64" where
  "reasonable_dpl_limit pagesize os_psize ram =
     (let (total_ram_pages, avail_ram_pages) = ram;
          limit = word_of_int (total_ram_pages + avail_ram_pages) div 42;
          limit = (if pagesize > os_psize then limit div (pagesize div os_psize)
                   else if pagesize < os_psize then limit * (os_psize div pagesize) else limit);
          limit = (if limit < of_nat MDBX_PGL_LIMIT then limit else of_nat MDBX_PGL_LIMIT)
      in if limit > of_nat (CURSOR_STACK * 4) then limit else of_nat (CURSOR_STACK * 4))"

definition mdbx_setup_pagesize :: "(int \<times> int) option \<Rightarrow> menv \<Rightarrow> nat \<Rightarrow> menv option" where
  "mdbx_setup_pagesize sysram env pagesize =
     (if \<not> is_powerof2 (of_nat pagesize) \<or> pagesize < MIN_PAGESIZE \<or> pagesize > MAX_PAGESIZE then None
      else let maxgc_ov1page = (pagesize - PAGEHDRSZ) div sizeof_pgno - 1;
               branch_nodemax = BRANCH_NODE_MAX pagesize;
               leaf_nodemax = LEAF_NODE_MAX pagesize
      in if \<not> (maxgc_ov1page > 42 \<and> maxgc_ov1page < MDBX_PGL_LIMIT div 4) then None
      else if \<not> (branch_nodemax > NODESIZE + 42 \<and> branch_nodemax mod 2 = 0 \<and>
                 leaf_nodemax > sizeof_db + NODESIZE + 42 \<and> leaf_nodemax \<ge> branch_nodemax \<and>
                 leaf_nodemax < 65535 \<and> leaf_nodemax mod 2 = 0) then None
      else let env = env\<lparr>me_psize := of_nat pagesize, me_maxgc_ov1page := of_nat maxgc_ov1page,
                         me_leaf_nodemax := of_nat leaf_nodemax,
                         me_psize2log := unat (ucast (log2n_powerof2 (of_nat pagesize)) :: u8)\<rparr>;
               env = recalculate_merge_threshold env;
               max_pgno = bytes2pgno env (of_nat MAX_MAPSIZE);
               opts = me_options env;
               opts = (if non_auto_dp_limit opts then opts
                       else case sysram of
                              None \<Rightarrow> opts
                            | Some ram \<Rightarrow> opts\<lparr>dp_limit :=
                                ucast (reasonable_dpl_limit (of_nat pagesize) (ucast (me_os_psize env)) ram)\<rparr>);
               opts = (if dp_limit opts > max_pgno - NUM_METAS
                       then opts\<lparr>dp_limit := max_pgno - NUM_METAS\<rparr> else opts);
               opts = (if dp_initial opts > dp_limit opts then opts\<lparr>dp_initial := dp_limit opts\<rparr> else opts)
      in Some (env\<lparr>me_options := opts\<rparr>))"

text \<open>
  \<open>mdbx_env_create\<close> for an allocation that succeeds or not, with the result codes of the
  two mutexes and of the lock stub.  The result is the environment or the error code;
  \<open>None\<close> when an ensured condition fails.
\<close>

definition DEFAULT_READERS :: u32 where "DEFAULT_READERS = 61"
definition MDBX_PNL_INITIAL :: u32 where "MDBX_PNL_INITIAL = 1024 - 2 - 16 div 4"

definition fresh_env :: "u32 \<Rightarrow> menv" where
  "fresh_env getpid =
     (let limit = (if 64 * 1024 > MAX_PAGENO - NUM_METAS then MAX_PAGENO - NUM_METAS else 64 * 1024) in
     \<lparr>me_signature = 0, me_flags = 0, me_pid = getpid, me_map = False, me_txn = False, me_foreign_owner = False,
      me_psize = 0, me_os_psize = 0, me_psize2log = 0, me_leaf_nodemax = 0, me_maxgc_ov1page = 0,
      me_merge_threshold = 0, me_merge_threshold_gc = 0, me_maxdbs = CORE_DBS, me_maxreaders = DEFAULT_READERS,
      me_dp_reserve = [], me_dp_reserve_len = 0,
      me_options = \<lparr>dp_reserve_limit = 1024, rp_augment_limit = 256 * 1024,
        dp_limit = limit,
        dp_initial = (if MDBX_PNL_INITIAL > limit then limit else MDBX_PNL_INITIAL), dp_loose_limit = 64,
        spill_max_denominator = 8,
        spill_min_denominator = 8, spill_parent4child_denominator = 0,
        merge_threshold_16dot16_percent = 65536 div 4, non_auto_dp_limit = False\<rparr>,
      mti_autosync_threshold = 0, mti_autosync_period = 0\<rparr>)"

definition mdbx_env_create ::
    "bool \<Rightarrow> u32 \<Rightarrow> nat \<Rightarrow> (int \<times> int) option \<Rightarrow> int \<Rightarrow> int \<Rightarrow> int \<Rightarrow> (int + menv) option" where
  "mdbx_env_create allocated getpid syspagesize sysram dbi_lock_rc remap_guard_rc stub_rc =
     (if \<not> allocated then Some (Inl (error_code MDBX_ENOMEM))
      else let env = fresh_env getpid
      in if \<not> is_powerof2 (of_nat syspagesize) \<or> syspagesize < MIN_PAGESIZE
         then Some (Inl (error_code MDBX_INCOMPATIBLE))
         else let env = env\<lparr>me_os_psize := of_nat syspagesize\<rparr>
              in case mdbx_setup_pagesize sysram env
                        (if unat (me_os_psize env) < MAX_PAGESIZE then unat (me_os_psize env) else MAX_PAGESIZE) of
                   None \<Rightarrow> None
                 | Some env \<Rightarrow>
                     (if dbi_lock_rc \<noteq> 0 then Some (Inl dbi_lock_rc)
                      else if remap_guard_rc \<noteq> 0 then Some (Inl remap_guard_rc)
                      else if stub_rc \<noteq> 0 then Some (Inl stub_rc)
                      else Some (Inr (env\<lparr>me_signature := MDBX_ME_SIGNATURE\<rparr>))))"

subsection \<open>Options\<close>

datatype mdbx_option =
    MDBX_opt_max_db
  | MDBX_opt_max_readers
  | MDBX_opt_sync_bytes
  | MDBX_opt_sync_period
  | MDBX_opt_rp_augment_limit
  | MDBX_opt_loose_limit
  | MDBX_opt_dp_reserve_limit
  | MDBX_opt_txn_dp_limit
  | MDBX_opt_txn_dp_initial
  | MDBX_opt_spill_max_denominator
  | MDBX_opt_spill_min_denominator
  | MDBX_opt_spill_parent4child_denominator
  | MDBX_opt_merge_threshold
  | MDBX_opt_unknown

definition MDBX_IS_ERROR :: "int \<Rightarrow> bool" where
  "MDBX_IS_ERROR rc \<longleftrightarrow> rc \<noteq> error_code MDBX_RESULT_TRUE \<and> rc \<noteq> error_code MDBX_SUCCESS"

text \<open>
  What the functions ask of the rest of the system: the process id, the result of polling
  for a sync (which may change the environment) and of taking the write lock.
\<close>

record env_os =
  os_getpid :: u32
  os_sync_poll :: "menv \<Rightarrow> int \<times> menv"
  os_txn_lock :: int

text \<open>The loop that gives reserved pages back.\<close>

fun trim_reserve :: "u32 \<Rightarrow> nat list \<Rightarrow> u32 \<Rightarrow> nat list \<times> u32" where
  "trim_reserve limit [] len = ([], len)"
| "trim_reserve limit (dp # dps) len =
     (if len > limit then trim_reserve limit dps (len - 1) else (dp # dps, len))"

definition lock_needed :: "menv \<Rightarrow> bool" where
  "lock_needed env \<longleftrightarrow> me_flags env AND MDBX_ENV_ACTIVE \<noteq> 0 \<and> me_foreign_owner env"

abbreviation rc_of :: "mdbx_error \<Rightarrow> int" where "rc_of \<equiv> error_code"

text \<open>The cases of the \<open>switch\<close> that are more than a check and an assignment.\<close>

definition set_sync_bytes :: "env_os \<Rightarrow> menv \<Rightarrow> u64 \<Rightarrow> int \<times> menv" where
  "set_sync_bytes os env v =
     (if me_flags env AND MDBX_RDONLY \<noteq> 0 then (rc_of MDBX_EACCESS, env)
      else if me_flags env AND MDBX_ENV_ACTIVE = 0 then (rc_of MDBX_EPERM, env)
      else let threshold = bytes2pgno env (v + ucast (me_psize env) - 1);
               env = env\<lparr>mti_autosync_threshold := threshold\<rparr>
           in if threshold \<noteq> 0 \<and> me_flags env AND MDBX_ENV_ACTIVE \<noteq> 0
              then os_sync_poll os env else (0, env))"

definition set_sync_period :: "env_os \<Rightarrow> menv \<Rightarrow> u64 \<Rightarrow> int \<times> menv" where
  "set_sync_period os env v =
     (if me_flags env AND MDBX_RDONLY \<noteq> 0 then (rc_of MDBX_EACCESS, env)
      else if me_flags env AND MDBX_ENV_ACTIVE = 0 then (rc_of MDBX_EPERM, env)
      else if v > 0xFFFFFFFF then (rc_of MDBX_TOO_LARGE, env)
      else let period = mdbx_osal_16dot16_to_monotime (ucast v);
               env = env\<lparr>mti_autosync_period := period\<rparr>
           in if period \<noteq> 0 \<and> me_flags env AND MDBX_ENV_ACTIVE \<noteq> 0
              then os_sync_poll os env else (0, env))"

definition set_dp_reserve_limit :: "env_os \<Rightarrow> menv \<Rightarrow> u64 \<Rightarrow> int \<times> menv" where
  "set_dp_reserve_limit os env v =
     (if v > 0x7FFFFFFF then (rc_of MDBX_EINVAL, env)
      else if dp_reserve_limit (me_options env) = ucast v then (0, env)
      else if lock_needed env \<and> os_txn_lock os \<noteq> 0 then (os_txn_lock os, env)
      else let (dps, len) = trim_reserve (ucast v) (me_dp_reserve env) (me_dp_reserve_len env)
           in (0, env\<lparr>me_options := (me_options env)\<lparr>dp_reserve_limit := ucast v\<rparr>,
                      me_dp_reserve := dps, me_dp_reserve_len := len\<rparr>))"

definition set_dp_options :: "bool \<Rightarrow> u32 \<Rightarrow> env_options \<Rightarrow> env_options" where
  "set_dp_options initial value32 opts =
     (if initial \<and> dp_initial opts \<noteq> value32
      then (let opts = opts\<lparr>dp_initial := value32\<rparr>
            in if dp_limit opts < value32 then opts\<lparr>dp_limit := value32, non_auto_dp_limit := True\<rparr> else opts)
      else if \<not> initial \<and> dp_limit opts \<noteq> value32
      then (let opts = opts\<lparr>dp_limit := value32, non_auto_dp_limit := True\<rparr>
            in if dp_initial opts > value32 then opts\<lparr>dp_initial := value32\<rparr> else opts)
      else opts)"

definition set_txn_dp :: "env_os \<Rightarrow> menv \<Rightarrow> bool \<Rightarrow> u64 \<Rightarrow> int \<times> menv" where
  "set_txn_dp os env initial v =
     (if v > of_nat MDBX_PGL_LIMIT \<or> v < of_nat (CURSOR_STACK * 4) then (rc_of MDBX_EINVAL, env)
      else if me_flags env AND MDBX_RDONLY \<noteq> 0 then (rc_of MDBX_EACCESS, env)
      else if lock_needed env \<and> os_txn_lock os \<noteq> 0 then (os_txn_lock os, env)
      else if me_txn env then (rc_of MDBX_EPERM, env)
      else (0, env\<lparr>me_options := set_dp_options initial (ucast v) (me_options env)\<rparr>))"

definition mdbx_env_set_option ::
    "env_os \<Rightarrow> menv option \<Rightarrow> mdbx_option \<Rightarrow> u64 \<Rightarrow> int \<times> menv option" where
  "mdbx_env_set_option os env opt v =
     (case check_env (os_getpid os) False env of
        (err, None) \<Rightarrow> (rc_of err, None)
      | (err, Some e) \<Rightarrow>
          if err \<noteq> MDBX_SUCCESS then (rc_of err, Some e)
          else (let (rc, e) = (case opt of
              MDBX_opt_sync_bytes \<Rightarrow> set_sync_bytes os e v
            | MDBX_opt_sync_period \<Rightarrow> set_sync_period os e v
            | MDBX_opt_max_db \<Rightarrow>
                (if v > MDBX_MAX_DBI then (rc_of MDBX_EINVAL, e)
                 else if me_map e then (rc_of MDBX_EPERM, e)
                 else (0, e\<lparr>me_maxdbs := ucast v + CORE_DBS\<rparr>))
            | MDBX_opt_max_readers \<Rightarrow>
                (if v < 1 \<or> v > MDBX_READERS_LIMIT then (rc_of MDBX_EINVAL, e)
                 else if me_map e then (rc_of MDBX_EPERM, e)
                 else (0, e\<lparr>me_maxreaders := ucast v\<rparr>))
            | MDBX_opt_dp_reserve_limit \<Rightarrow> set_dp_reserve_limit os e v
            | MDBX_opt_rp_augment_limit \<Rightarrow>
                (if v > of_nat MDBX_PGL_LIMIT then (rc_of MDBX_EINVAL, e)
                 else (0, e\<lparr>me_options := (me_options e)\<lparr>rp_augment_limit := ucast v\<rparr>\<rparr>))
            | MDBX_opt_txn_dp_limit \<Rightarrow> set_txn_dp os e False v
            | MDBX_opt_txn_dp_initial \<Rightarrow> set_txn_dp os e True v
            | MDBX_opt_spill_max_denominator \<Rightarrow>
                (if v > 255 then (rc_of MDBX_EINVAL, e)
                 else (0, e\<lparr>me_options := (me_options e)\<lparr>spill_max_denominator := ucast v\<rparr>\<rparr>))
            | MDBX_opt_spill_min_denominator \<Rightarrow>
                (if v > 255 then (rc_of MDBX_EINVAL, e)
                 else (0, e\<lparr>me_options := (me_options e)\<lparr>spill_min_denominator := ucast v\<rparr>\<rparr>))
            | MDBX_opt_spill_parent4child_denominator \<Rightarrow>
                (if v > 255 then (rc_of MDBX_EINVAL, e)
                 else (0, e\<lparr>me_options := (me_options e)\<lparr>spill_parent4child_denominator := ucast v\<rparr>\<rparr>))
            | MDBX_opt_loose_limit \<Rightarrow>
                (if v > 255 then (rc_of MDBX_EINVAL, e)
                 else (0, e\<lparr>me_options := (me_options e)\<lparr>dp_loose_limit := ucast v\<rparr>\<rparr>))
            | MDBX_opt_merge_threshold \<Rightarrow>
                (if v < 8192 \<or> v > 32768 then (rc_of MDBX_EINVAL, e)
                 else (0, recalculate_merge_threshold
                            (e\<lparr>me_options := (me_options e)\<lparr>merge_threshold_16dot16_percent := ucast v\<rparr>\<rparr>)))
            | MDBX_opt_unknown \<Rightarrow> (rc_of MDBX_EINVAL, e))
          in (rc, Some e)))"

text \<open>\<open>mdbx_env_get_option\<close> with the stored value, unless the pointer for it is null.\<close>

definition get_option_value :: "u64 \<Rightarrow> menv \<Rightarrow> mdbx_option \<Rightarrow> mdbx_error + u64" where
  "get_option_value time_limit e opt =
     (let opts = me_options e in
      case opt of
        MDBX_opt_sync_bytes \<Rightarrow>
          (if me_flags e AND MDBX_ENV_ACTIVE = 0 then Inl MDBX_EPERM
           else Inr (pgno2bytes e (mti_autosync_threshold e)))
      | MDBX_opt_sync_period \<Rightarrow>
          (if me_flags e AND MDBX_ENV_ACTIVE = 0 then Inl MDBX_EPERM
           else Inr (ucast (fst (mdbx_osal_monotime_to_16dot16 time_limit (mti_autosync_period e)))))
      | MDBX_opt_max_db \<Rightarrow> Inr (ucast (me_maxdbs e - CORE_DBS))
      | MDBX_opt_max_readers \<Rightarrow> Inr (ucast (me_maxreaders e))
      | MDBX_opt_dp_reserve_limit \<Rightarrow> Inr (ucast (dp_reserve_limit opts))
      | MDBX_opt_rp_augment_limit \<Rightarrow> Inr (ucast (rp_augment_limit opts))
      | MDBX_opt_txn_dp_limit \<Rightarrow> Inr (ucast (dp_limit opts))
      | MDBX_opt_txn_dp_initial \<Rightarrow> Inr (ucast (dp_initial opts))
      | MDBX_opt_spill_max_denominator \<Rightarrow> Inr (ucast (spill_max_denominator opts))
      | MDBX_opt_spill_min_denominator \<Rightarrow> Inr (ucast (spill_min_denominator opts))
      | MDBX_opt_spill_parent4child_denominator \<Rightarrow> Inr (ucast (spill_parent4child_denominator opts))
      | MDBX_opt_loose_limit \<Rightarrow> Inr (ucast (dp_loose_limit opts))
      | MDBX_opt_merge_threshold \<Rightarrow> Inr (ucast (merge_threshold_16dot16_percent opts))
      | MDBX_opt_unknown \<Rightarrow> Inl MDBX_EINVAL)"

definition mdbx_env_get_option ::
    "u64 \<Rightarrow> u32 \<Rightarrow> menv option \<Rightarrow> mdbx_option \<Rightarrow> bool \<Rightarrow> (mdbx_error + u64) \<times> menv option" where
  "mdbx_env_get_option time_limit getpid env opt has_pvalue =
     (case check_env getpid False env of
        (err, None) \<Rightarrow> (Inl err, None)
      | (err, Some e) \<Rightarrow>
          (if err \<noteq> MDBX_SUCCESS then Inl err
           else if \<not> has_pvalue then Inl MDBX_EINVAL
           else get_option_value time_limit e opt, Some e))"

subsection \<open>Time\<close>

lemma unat_monotime:
  "unat (mdbx_osal_16dot16_to_monotime s) = (1000000000 * unat s + 32768) div 65536"
  "mdbx_osal_16dot16_to_monotime s = 0 \<longleftrightarrow> s = 0"
proof -
  have s: "unat s < 4294967296" using unsigned_less [of s, where 'a = nat] by simp
  then have u: "unat (ucast s :: u64) = unat s" by (subst unat_ucast_lt) simp_all
  have "unat (1000000000 * ucast s :: u64) = 1000000000 * unat s"
    using s u by (subst unat_mult_lt) simp_all
  then have "unat (1000000000 * ucast s + 32768 :: u64) = 1000000000 * unat s + 32768"
    using s by (subst unat_add_lt) simp_all
  then have d: "unat (drop_bit 16 (1000000000 * ucast s + 32768 :: u64)) = (1000000000 * unat s + 32768) div 65536"
    by (simp add: unat_drop_bit_div)
  have z: "(1000000000 * unat s + 32768) div 65536 = 0 \<longleftrightarrow> s = 0"
  proof
    assume "(1000000000 * unat s + 32768) div 65536 = 0"
    then have "unat s = 0" by simp
    then show "s = 0" using unsigned_eq_0_iff by blast
  qed simp
  have nz: "drop_bit 16 (1000000000 * ucast s + 32768 :: u64) = 0 \<longleftrightarrow> s = 0"
    using d z by (simp add: word_unat_eq_iff)
  then have eq: "mdbx_osal_16dot16_to_monotime s = drop_bit 16 (1000000000 * ucast s + 32768)"
    by (auto simp: mdbx_osal_16dot16_to_monotime_def Let_def)
  show "unat (mdbx_osal_16dot16_to_monotime s) = (1000000000 * unat s + 32768) div 65536" unfolding eq by (rule d)
  show "mdbx_osal_16dot16_to_monotime s = 0 \<longleftrightarrow> s = 0" unfolding eq by (rule nz)
qed

lemma time_quotients:
  fixes s :: nat
  defines "t \<equiv> (1000000000 * s + 32768) div 65536 * 128 div 1953125"
  shows "t \<le> s" "s \<le> t + 1"
proof -
  define m where "m = (1000000000 * s + 32768) div 65536"
  have m: "m * 65536 \<le> 1000000000 * s + 32768" "1000000000 * s + 32768 < m * 65536 + 65536"
    using div_mult_mod_eq [of "1000000000 * s + 32768" 65536]
      mod_less_divisor [of 65536 "1000000000 * s + 32768"] unfolding m_def by linarith+
  have t: "t * 1953125 \<le> m * 128" "m * 128 < t * 1953125 + 1953125"
    using div_mult_mod_eq [of "m * 128" 1953125] mod_less_divisor [of 1953125 "m * 128"]
    unfolding t_def m_def by linarith+
  show "t \<le> s" "s \<le> t + 1" using m t by linarith+
qed

text \<open>The limit is computed on the first call and kept.\<close>

definition time_limit_value :: u64 where
  "time_limit_value = mdbx_osal_16dot16_to_monotime (- 1 - 1)"

lemma unat_time_limit: "unat time_limit_value = 65535999969482"
  unfolding time_limit_value_def unat_monotime by simp

lemma monotime_within_limit:
  assumes "limit = 0 \<or> limit = time_limit_value"
  shows "fst (mdbx_osal_monotime_to_16dot16 limit x) =
           (if x > time_limit_value then - 1
            else let ret = (ucast (x * 128 div 1953125) :: u32) in if ret \<noteq> 0 \<or> x = 0 then ret else 1)"
proof (cases "x = 0")
  case True
  then show ?thesis using assms by (auto simp: mdbx_osal_monotime_to_16dot16_def)
next
  case False
  then have "0 < x" by (simp add: word_neq_0_conv)
  then show ?thesis
    using assms unat_time_limit
    by (auto simp: mdbx_osal_monotime_to_16dot16_def time_limit_value_def Let_def)
qed

lemma one_below: "t \<le> s \<Longrightarrow> s \<le> t + 1 \<Longrightarrow> t \<in> {s - 1, s}" for t s :: nat
  by auto

lemma time_round_trip:
  assumes "limit = 0 \<or> limit = time_limit_value"
  shows "unat (fst (mdbx_osal_monotime_to_16dot16 limit (mdbx_osal_16dot16_to_monotime s))) \<in> {unat s - 1, unat s}"
    and "fst (mdbx_osal_monotime_to_16dot16 limit (mdbx_osal_16dot16_to_monotime s)) = 0 \<longleftrightarrow> s = 0"
proof -
  let ?m = "mdbx_osal_16dot16_to_monotime s"
  let ?t = "(1000000000 * unat s + 32768) div 65536 * 128 div 1953125"
  have s: "unat s < 4294967296" using unsigned_less [of s, where 'a = nat] by simp
  note tq = time_quotients [of "unat s"]
  have "unat ?m * 128 < 2 ^ 64"
  proof -
    have "(1000000000 * unat s + 32768) div 65536 \<le> (1000000000 * 4294967296 + 32768) div 65536"
      using s by (intro div_le_mono) simp
    then show ?thesis by (simp add: unat_monotime)
  qed
  then have "unat (?m * 128) = unat ?m * 128" by (subst unat_mult_lt) simp_all
  then have "unat (?m * 128 div 1953125) = ?t" by (simp add: unat_div unat_monotime)
  moreover have "?t < 4294967296" using tq(1) s by linarith
  ultimately have r: "unat (ucast (?m * 128 div 1953125) :: u32) = ?t" by (subst unat_ucast_lt) simp_all
  have "unat (fst (mdbx_osal_monotime_to_16dot16 limit ?m)) \<in> {unat s - 1, unat s} \<and>
      (fst (mdbx_osal_monotime_to_16dot16 limit ?m) = 0 \<longleftrightarrow> s = 0)"
  proof (cases "?m > time_limit_value")
    case True
    then have "65535999969482 < (1000000000 * unat s + 32768) div 65536"
      by (simp add: word_less_nat_alt unat_time_limit unat_monotime)
    then have "unat s = 4294967295"
      using s div_mult_mod_eq [of "1000000000 * unat s + 32768" 65536] by linarith
    then have "s = - 1" by (simp add: word_unat_eq_iff unsigned_minus_1_eq_mask mask_eq_exp_minus_1)
    then show ?thesis using True by (simp add: monotime_within_limit [OF assms])
  next
    case False
    then have f: "fst (mdbx_osal_monotime_to_16dot16 limit ?m) =
        (if (ucast (?m * 128 div 1953125) :: u32) \<noteq> 0 \<or> s = 0 then ucast (?m * 128 div 1953125) else 1)"
      by (simp add: monotime_within_limit [OF assms] Let_def unat_monotime(2))
    show ?thesis
    proof (cases "s = 0")
      case True
      then show ?thesis unfolding f using r by (auto simp: word_unat_eq_iff)
    next
      case nz: False
      then have "1 \<le> unat s" by (simp add: unat_gt_0 Suc_le_eq)
      show ?thesis
      proof (cases "?t = 0")
        case True
        then have "(ucast (?m * 128 div 1953125) :: u32) = 0" using r by (simp add: word_unat_eq_iff)
        then show ?thesis unfolding f using nz True tq \<open>1 \<le> unat s\<close> by auto
      next
        case False
        then have "(ucast (?m * 128 div 1953125) :: u32) \<noteq> 0" using r by (metis unsigned_0)
        then show ?thesis unfolding f using nz r one_below [OF tq] by simp
      qed
    qed
  qed
  then show "unat (fst (mdbx_osal_monotime_to_16dot16 limit ?m)) \<in> {unat s - 1, unat s}"
    and "fst (mdbx_osal_monotime_to_16dot16 limit ?m) = 0 \<longleftrightarrow> s = 0" by blast+
qed

subsection \<open>The invariant of an environment\<close>

definition merge_threshold_of :: "u32 \<Rightarrow> u32 \<Rightarrow> u16" where
  "merge_threshold_of psize percent =
     ucast (psize - of_nat PAGEHDRSZ - drop_bit 16 ((psize - of_nat PAGEHDRSZ) * percent))"

definition merge_threshold_gc_of :: "u32 \<Rightarrow> u32 \<Rightarrow> u16" where
  "merge_threshold_gc_of psize percent =
     ucast (psize - of_nat PAGEHDRSZ - (if percent > 19005 then (psize - of_nat PAGEHDRSZ) div 3
                                        else (psize - of_nat PAGEHDRSZ) div 4))"

definition env_ok :: "menv \<Rightarrow> bool" where
  "env_ok e \<longleftrightarrow>
     2 ^ me_psize2log e \<in> set page_sizes \<and> unat (me_psize e) = 2 ^ me_psize2log e \<and>
     unat (me_leaf_nodemax e) = LEAF_NODE_MAX (2 ^ me_psize2log e) \<and>
     me_merge_threshold e = merge_threshold_of (me_psize e) (merge_threshold_16dot16_percent (me_options e)) \<and>
     me_merge_threshold_gc e = merge_threshold_gc_of (me_psize e) (merge_threshold_16dot16_percent (me_options e)) \<and>
     8192 \<le> merge_threshold_16dot16_percent (me_options e) \<and>
     merge_threshold_16dot16_percent (me_options e) \<le> 32768 \<and>
     dp_initial (me_options e) \<le> dp_limit (me_options e) \<and>
     1 \<le> me_maxreaders e \<and> me_maxreaders e \<le> 32767 \<and>
     2 \<le> me_maxdbs e \<and> me_maxdbs e \<le> 32767 \<and>
     length (me_dp_reserve e) = unat (me_dp_reserve_len e) \<and>
     me_dp_reserve_len e \<le> dp_reserve_limit (me_options e)"

lemma recalculate_fields [simp]:
  "me_psize (recalculate_merge_threshold e) = me_psize e"
  "me_psize2log (recalculate_merge_threshold e) = me_psize2log e"
  "me_leaf_nodemax (recalculate_merge_threshold e) = me_leaf_nodemax e"
  "me_options (recalculate_merge_threshold e) = me_options e"
  "me_maxreaders (recalculate_merge_threshold e) = me_maxreaders e"
  "me_maxdbs (recalculate_merge_threshold e) = me_maxdbs e"
  "me_dp_reserve (recalculate_merge_threshold e) = me_dp_reserve e"
  "me_dp_reserve_len (recalculate_merge_threshold e) = me_dp_reserve_len e"
  "me_os_psize (recalculate_merge_threshold e) = me_os_psize e"
  "me_merge_threshold (recalculate_merge_threshold e) =
     merge_threshold_of (me_psize e) (merge_threshold_16dot16_percent (me_options e))"
  "me_merge_threshold_gc (recalculate_merge_threshold e) =
     merge_threshold_gc_of (me_psize e) (merge_threshold_16dot16_percent (me_options e))"
  by (simp_all add: recalculate_merge_threshold_def Let_def page_space_def merge_threshold_of_def
      merge_threshold_gc_of_def)

lemma trim_reserve_spec:
  assumes "length dps = unat len" "trim_reserve limit dps len = (dps', len')"
  shows "length dps' = unat len'" "len' \<le> limit" "len' \<le> len" "dps' = drop (unat len - unat len') dps"
proof -
  have "length dps' = unat len' \<and> len' \<le> limit \<and> len' \<le> len \<and> dps' = drop (unat len - unat len') dps"
    using assms
  proof (induction limit dps len rule: trim_reserve.induct)
    case (1 limit len)
    then show ?case by (auto simp: word_le_nat_alt)
  next
    case (2 limit dp dps len)
    show ?case
    proof (cases "len > limit")
      case True
      then have u: "unat (len - 1) = unat len - 1" "0 < unat len"
        by (simp_all add: word_less_nat_alt unat_sub_le word_le_nat_alt)
      then have "length dps = unat (len - 1)" using "2.prems"(1) by simp
      moreover have "trim_reserve limit dps (len - 1) = (dps', len')" using "2.prems"(2) True by simp
      ultimately have ih: "length dps' = unat len'" "len' \<le> limit" "len' \<le> len - 1" "dps' = drop (unat (len - 1) - unat len') dps"
        using "2.IH" [OF True] by blast+
      have "unat len' \<le> unat len - 1" using ih(3) u by (simp add: word_le_nat_alt)
      then have "unat len - unat len' = Suc (unat (len - 1) - unat len')" using u by simp
      then show ?thesis using ih u \<open>unat len' \<le> unat len - 1\<close> by (simp add: word_le_nat_alt)
    next
      case False
      then show ?thesis using "2.prems" by auto
    qed
  qed
  then show "length dps' = unat len'" "len' \<le> limit" "len' \<le> len" "dps' = drop (unat len - unat len') dps" by blast+
qed

lemma set_option_active:
  "mdbx_env_set_option os (Some e) opt v = (rc, r) \<Longrightarrow>
   check_env (os_getpid os) False (Some e) = (err, Some e0) \<Longrightarrow> err \<noteq> MDBX_SUCCESS \<Longrightarrow> r = Some e0"
  by (simp add: mdbx_env_set_option_def)

lemma check_env_keeps:
  "check_env getpid wanna_active (Some e) = (err, e') \<Longrightarrow>
   e' = Some e \<or> err = MDBX_PANIC \<and> e' = Some (e\<lparr>me_flags := me_flags e OR MDBX_FATAL_ERROR\<rparr>)"
  by (auto simp: check_env_def split: if_splits)

lemma env_ok_flags [simp]: "env_ok (e\<lparr>me_flags := f\<rparr>) \<longleftrightarrow> env_ok e"
  by (simp add: env_ok_def)

lemma unat_ucast32: "v \<le> (w :: u64) \<Longrightarrow> unat w < 2 ^ 32 \<Longrightarrow> unat (ucast v :: u32) = unat v"
  by (subst unat_ucast_lt) (simp_all add: word_le_nat_alt)

lemma set_dp_options_ok:
  "dp_initial opts \<le> dp_limit opts \<Longrightarrow>
   dp_initial (set_dp_options initial w opts) \<le> dp_limit (set_dp_options initial w opts) \<and>
   merge_threshold_16dot16_percent (set_dp_options initial w opts) = merge_threshold_16dot16_percent opts \<and>
   dp_reserve_limit (set_dp_options initial w opts) = dp_reserve_limit opts"
  by (auto simp: set_dp_options_def Let_def not_less)

lemma env_ok_options:
  assumes "env_ok e"
    "merge_threshold_16dot16_percent opts = merge_threshold_16dot16_percent (me_options e)"
    "dp_initial opts \<le> dp_limit opts" "dp_reserve_limit opts = dp_reserve_limit (me_options e)"
  shows "env_ok (e\<lparr>me_options := opts\<rparr>)"
  using assms by (simp add: env_ok_def)

lemma env_ok_lck:
  assumes "env_ok e"
  shows "env_ok (e\<lparr>mti_autosync_threshold := a\<rparr>)" "env_ok (e\<lparr>mti_autosync_period := p\<rparr>)"
    "1 \<le> r \<Longrightarrow> r \<le> 32767 \<Longrightarrow> env_ok (e\<lparr>me_maxreaders := r\<rparr>)"
    "2 \<le> d \<Longrightarrow> d \<le> 32767 \<Longrightarrow> env_ok (e\<lparr>me_maxdbs := d\<rparr>)"
  using assms by (simp_all add: env_ok_def)

lemma env_ok_reserve:
  assumes "env_ok e" "trim_reserve w (me_dp_reserve e) (me_dp_reserve_len e) = (dps, len)"
  shows "env_ok (e\<lparr>me_options := (me_options e)\<lparr>dp_reserve_limit := w\<rparr>, me_dp_reserve := dps, me_dp_reserve_len := len\<rparr>)"
  using assms(1) trim_reserve_spec [OF _ assms(2)] by (simp add: env_ok_def)

lemma env_ok_merge:
  assumes "env_ok e" "8192 \<le> w" "w \<le> 32768"
  shows "env_ok (recalculate_merge_threshold (e\<lparr>me_options := (me_options e)\<lparr>merge_threshold_16dot16_percent := w\<rparr>\<rparr>))"
  using assms by (simp add: env_ok_def)

definition sync_keeps :: "env_os \<Rightarrow> bool" where
  "sync_keeps os \<longleftrightarrow> (\<forall>e rc e'. env_ok e \<longrightarrow> os_sync_poll os e = (rc, e') \<longrightarrow> env_ok e')"

lemma setup_facts:
  "list_all (\<lambda>ps. (ps - PAGEHDRSZ) div sizeof_pgno - 1 > 42 \<and>
     (ps - PAGEHDRSZ) div sizeof_pgno - 1 < MDBX_PGL_LIMIT div 4 \<and>
     BRANCH_NODE_MAX ps > NODESIZE + 42 \<and> BRANCH_NODE_MAX ps mod 2 = 0 \<and>
     LEAF_NODE_MAX ps > sizeof_db + NODESIZE + 42 \<and> LEAF_NODE_MAX ps \<ge> BRANCH_NODE_MAX ps \<and>
     LEAF_NODE_MAX ps < 65535 \<and> LEAF_NODE_MAX ps mod 2 = 0) page_sizes"
  by (simp add: page_sizes_def size_defs BRANCH_NODE_MAX_def LEAF_NODE_MAX_def EVEN_FLOOR_def PAGEROOM_def)

lemma page_size_log:
  assumes "ps \<in> set page_sizes"
  shows "2 ^ unat (ucast (log2n_powerof2 (of_nat ps)) :: u8) = ps"
proof -
  have "list_all (\<lambda>ps. \<exists>k \<in> {8, 9, 10, 11, 12, 13, 14, 15, 16}. ps = 2 ^ k) page_sizes"
    by (simp add: page_sizes_def)
  then have "\<exists>k \<in> {8, 9, 10, 11, 12, 13, 14, 15, 16}. ps = 2 ^ k" using assms unfolding list_all_iff by (rule bspec)
  then obtain k where k0: "k \<in> {8, 9, 10, 11, 12, 13, 14, 15, 16}" and k1: "ps = 2 ^ k" by (rule bexE)
  from k0 have "k < 31" by auto
  note k = k1 this
  have "(of_nat ps :: u64) = 2 ^ k" by (simp add: k)
  then have "log2n_powerof2 (of_nat ps) = of_nat k" using k(2) by (simp add: log2n_powerof2_exp)
  moreover have "unat (of_nat k :: u32) = k" using k(2) by (intro unat_of_nat_lt) simp
  ultimately have "unat (ucast (log2n_powerof2 (of_nat ps)) :: u8) = k"
    using k(2) by (subst unat_ucast_lt) simp_all
  then show ?thesis using k(1) by simp
qed

lemma recalculate_identity [simp]:
  "me_pid (recalculate_merge_threshold e) = me_pid e"
  "me_flags (recalculate_merge_threshold e) = me_flags e"
  by (simp_all add: recalculate_merge_threshold_def Let_def)

lemma if_None_elim: "(if g then None else x) = Some y \<Longrightarrow> (x = Some y \<Longrightarrow> P) \<Longrightarrow> P"
  by (simp split: if_splits)

lemma options_update_keeps:
  "Some (e\<lparr>me_options := opts\<rparr>) = Some e' \<Longrightarrow> me_pid e' = me_pid e \<and> me_flags e' = me_flags e"
  by auto

lemma setup_pagesize_keeps:
  assumes "mdbx_setup_pagesize sysram e ps = Some e'"
  shows "me_pid e' = me_pid e \<and> me_flags e' = me_flags e"
  using assms unfolding mdbx_setup_pagesize_def Let_def
  by (elim if_None_elim) (drule options_update_keeps, simp)

lemma setup_pagesize_ok:
  assumes "ps \<in> set page_sizes"
    and "me_dp_reserve e = []" "me_dp_reserve_len e = 0" "me_maxdbs e = CORE_DBS" "me_maxreaders e = DEFAULT_READERS"
    "merge_threshold_16dot16_percent (me_options e) = 16384"
  obtains e' where "mdbx_setup_pagesize sysram e ps = Some e'" "env_ok e'"
proof -
  note f = setup_facts [unfolded list_all_iff, rule_format, OF assms(1)]
  note v = page_sizes_valid [unfolded list_all_iff, rule_format, OF assms(1)]
  have ps: "ps \<le> 65536" using v by (simp add: MAX_PAGESIZE_def)
  have u: "unat (of_nat ps :: u32) = ps" using ps by (intro unat_of_nat_lt) simp
  have ul: "unat (of_nat (LEAF_NODE_MAX ps) :: u32) = LEAF_NODE_MAX ps"
    using f by (intro unat_of_nat_lt) simp
  note guards = v f
  have "\<exists>e'. mdbx_setup_pagesize sysram e ps = Some e' \<and> env_ok e'"
    unfolding mdbx_setup_pagesize_def Let_def using v f
    by (simp add: env_ok_def assms page_size_log [OF assms(1)] u ul CORE_DBS_def DEFAULT_READERS_def not_less
        split: option.split)
  then show ?thesis using that by blast
qed

subsection \<open>Properties\<close>

text \<open>
  C34: creating an environment on a system with any usable page size never trips one of the
  checks of the page-size set-up, and the environment it returns satisfies the invariant: a
  valid page size with its node limit and merge thresholds, consistent dirty-page limits,
  readers and databases in range.
\<close>

theorem env_create_establishes_invariant:
  assumes "mdbx_env_create allocated getpid syspagesize sysram rc1 rc2 rc3 = r" "syspagesize < 2 ^ 32"
  shows "r \<noteq> None \<and> (\<forall>e. r = Some (Inr e) \<longrightarrow> env_ok e \<and> fst (check_env getpid False (Some e)) = MDBX_SUCCESS)"
proof (cases "allocated \<and> is_powerof2 (of_nat syspagesize) \<and> MIN_PAGESIZE \<le> syspagesize")
  case False
  show ?thesis
  proof (cases allocated)
    case True
    with False have g: "(\<not> is_powerof2 (of_nat syspagesize) \<or> syspagesize < MIN_PAGESIZE) = True" by (simp add: not_le)
    then have "r = Some (Inl (rc_of MDBX_INCOMPATIBLE))"
      unfolding assms(1) [symmetric] mdbx_env_create_def Let_def
      by (simp only: True g if_True not_True_eq_False if_False)
    then show ?thesis by simp
  next
    case False
    then have "r = Some (Inl (rc_of MDBX_ENOMEM))" using assms(1) by (simp add: mdbx_env_create_def)
    then show ?thesis by simp
  qed
next
  case True
  define e0 where "e0 = (fresh_env getpid)\<lparr>me_os_psize := of_nat syspagesize\<rparr>"
  define ps where "ps = (if unat (me_os_psize e0) < MAX_PAGESIZE then unat (me_os_psize e0) else MAX_PAGESIZE)"
  have "unat (of_nat syspagesize :: u32) = syspagesize" using assms(2) by (intro unat_of_nat_lt) simp
  then have "ps = (if syspagesize < MAX_PAGESIZE then syspagesize else MAX_PAGESIZE)" by (simp add: ps_def e0_def)
  moreover have "is_powerof2 (of_nat MAX_PAGESIZE)" by (simp add: MAX_PAGESIZE_def is_powerof2_def)
  ultimately have "ps \<in> set page_sizes"
    using True by (intro valid_pagesize) (auto simp: size_defs)
  then obtain e1 where e1: "mdbx_setup_pagesize sysram e0 ps = Some e1" "env_ok e1"
    by (rule setup_pagesize_ok [where sysram = sysram and e = e0]) (simp_all add: e0_def fresh_env_def Let_def)
  have pid: "me_pid e1 = getpid \<and> me_flags e1 = 0"
    using setup_pagesize_keeps [OF e1(1)] by (simp add: e0_def fresh_env_def Let_def)
  have ok: "env_ok (e1\<lparr>me_signature := MDBX_ME_SIGNATURE\<rparr>)" using e1(2) by (simp add: env_ok_def)
  have "r = (if rc1 \<noteq> 0 then Some (Inl rc1) else if rc2 \<noteq> 0 then Some (Inl rc2) else if rc3 \<noteq> 0 then Some (Inl rc3)
             else Some (Inr (e1\<lparr>me_signature := MDBX_ME_SIGNATURE\<rparr>)))"
    using True e1(1) assms(1) unfolding mdbx_env_create_def Let_def e0_def [symmetric] ps_def [symmetric] by auto
  then show ?thesis using ok pid by (auto simp: check_env_def split: if_splits)
qed

theorem env_create_establishes_invariant_witness:
  "mdbx_env_create True 7 4096 (Some (1000000, 500000)) 0 0 0 \<noteq> None"
proof -
  have "(4096::nat) < 2 ^ 32" by simp
  from env_create_establishes_invariant [OF refl this] show ?thesis by blast
qed

lemma set_dp_reserve_limit_cases:
  assumes "set_dp_reserve_limit os e v = (rc, e')"
  shows "e' = e \<and> rc \<noteq> 0 \<or> e' = e \<and> rc = 0 \<and> dp_reserve_limit (me_options e) = ucast v \<and> \<not> v > 0x7FFFFFFF \<or>
    (\<exists>dps len. rc = 0 \<and> \<not> v > 0x7FFFFFFF \<and> trim_reserve (ucast v) (me_dp_reserve e) (me_dp_reserve_len e) = (dps, len) \<and>
      e' = e\<lparr>me_options := (me_options e)\<lparr>dp_reserve_limit := ucast v\<rparr>, me_dp_reserve := dps, me_dp_reserve_len := len\<rparr>)"
  using assms by (simp add: set_dp_reserve_limit_def split: if_splits prod.splits)

lemma set_txn_dp_cases:
  assumes "set_txn_dp os e initial v = (rc, e')"
  shows "e' = e \<and> rc \<noteq> 0 \<or>
    rc = 0 \<and> \<not> v > of_nat MDBX_PGL_LIMIT \<and> e' = e\<lparr>me_options := set_dp_options initial (ucast v) (me_options e)\<rparr>"
  using assms by (simp add: set_txn_dp_def split: if_splits)

lemma set_option_cases:
  assumes "mdbx_env_set_option os (Some e) opt v = (rc, r)"
  obtains "r = Some (e\<lparr>me_flags := me_flags e OR MDBX_FATAL_ERROR\<rparr>)" "rc \<noteq> 0"
  | "r = Some e" "rc \<noteq> 0"
  | "rc = 0" "opt = MDBX_opt_dp_reserve_limit" "dp_reserve_limit (me_options e) = ucast v" "\<not> v > 0x7FFFFFFF" "r = Some e"
  | e' where "opt = MDBX_opt_sync_bytes \<or> opt = MDBX_opt_sync_period" "r = Some e'"
      "set_sync_bytes os e v = (rc, e') \<or> set_sync_period os e v = (rc, e')"
  | "rc = 0" "opt = MDBX_opt_max_db" "\<not> v > MDBX_MAX_DBI" "r = Some (e\<lparr>me_maxdbs := ucast v + CORE_DBS\<rparr>)"
  | "rc = 0" "opt = MDBX_opt_max_readers" "\<not> (v < 1 \<or> v > MDBX_READERS_LIMIT)" "r = Some (e\<lparr>me_maxreaders := ucast v\<rparr>)"
  | dps len where "rc = 0" "opt = MDBX_opt_dp_reserve_limit" "\<not> v > 0x7FFFFFFF"
      "trim_reserve (ucast v) (me_dp_reserve e) (me_dp_reserve_len e) = (dps, len)"
      "r = Some (e\<lparr>me_options := (me_options e)\<lparr>dp_reserve_limit := ucast v\<rparr>, me_dp_reserve := dps, me_dp_reserve_len := len\<rparr>)"
  | opts where "rc = 0" "opt = MDBX_opt_txn_dp_limit \<or> opt = MDBX_opt_txn_dp_initial"
      "\<not> v > of_nat MDBX_PGL_LIMIT" "opts = set_dp_options (opt = MDBX_opt_txn_dp_initial) (ucast v) (me_options e)"
      "r = Some (e\<lparr>me_options := opts\<rparr>)"
  | "rc = 0" "opt = MDBX_opt_rp_augment_limit" "\<not> v > of_nat MDBX_PGL_LIMIT"
      "r = Some (e\<lparr>me_options := (me_options e)\<lparr>rp_augment_limit := ucast v\<rparr>\<rparr>)"
  | "rc = 0" "\<not> v > 255" "opt = MDBX_opt_spill_max_denominator"
      "r = Some (e\<lparr>me_options := (me_options e)\<lparr>spill_max_denominator := ucast v\<rparr>\<rparr>)"
  | "rc = 0" "\<not> v > 255" "opt = MDBX_opt_spill_min_denominator"
      "r = Some (e\<lparr>me_options := (me_options e)\<lparr>spill_min_denominator := ucast v\<rparr>\<rparr>)"
  | "rc = 0" "\<not> v > 255" "opt = MDBX_opt_spill_parent4child_denominator"
      "r = Some (e\<lparr>me_options := (me_options e)\<lparr>spill_parent4child_denominator := ucast v\<rparr>\<rparr>)"
  | "rc = 0" "\<not> v > 255" "opt = MDBX_opt_loose_limit"
      "r = Some (e\<lparr>me_options := (me_options e)\<lparr>dp_loose_limit := ucast v\<rparr>\<rparr>)"
  | "rc = 0" "opt = MDBX_opt_merge_threshold" "\<not> (v < 8192 \<or> v > 32768)"
      "r = Some (recalculate_merge_threshold
         (e\<lparr>me_options := (me_options e)\<lparr>merge_threshold_16dot16_percent := ucast v\<rparr>\<rparr>))"
proof (cases "check_env (os_getpid os) False (Some e)")
  case (Pair err e0)
  show ?thesis
  proof (cases "err = MDBX_SUCCESS")
    case False
    then have "rc = rc_of err" "r = e0"
      using assms Pair check_env_keeps [OF Pair] by (auto simp: mdbx_env_set_option_def)
    then show ?thesis
      using that(1,2) check_env_keeps [OF Pair] False by auto
  next
    case True
    then have e0: "e0 = Some e" using check_env_keeps [OF Pair] by auto
    note run = assms [unfolded mdbx_env_set_option_def Pair True e0]
    show ?thesis
    proof (cases opt)
      case MDBX_opt_max_db
      then have "r = Some e \<and> rc \<noteq> 0 \<or> rc = 0 \<and> \<not> v > MDBX_MAX_DBI \<and> r = Some (e\<lparr>me_maxdbs := ucast v + CORE_DBS\<rparr>)"
        using run by (simp split: if_splits)
      then show ?thesis using MDBX_opt_max_db that(2,5) by blast
    next
      case MDBX_opt_max_readers
      then have "r = Some e \<and> rc \<noteq> 0 \<or> rc = 0 \<and> \<not> (v < 1 \<or> v > MDBX_READERS_LIMIT) \<and> r = Some (e\<lparr>me_maxreaders := ucast v\<rparr>)"
        using run by (simp split: if_splits)
      then show ?thesis using MDBX_opt_max_readers that(2,6) by blast
    next
      case MDBX_opt_sync_bytes
      then have "\<exists>e'. set_sync_bytes os e v = (rc, e') \<and> r = Some e'" using run by (simp split: prod.splits)
      then show ?thesis using MDBX_opt_sync_bytes that(4) by blast
    next
      case MDBX_opt_sync_period
      then have "\<exists>e'. set_sync_period os e v = (rc, e') \<and> r = Some e'" using run by (simp split: prod.splits)
      then show ?thesis using MDBX_opt_sync_period that(4) by blast
    next
      case MDBX_opt_rp_augment_limit
      then have "r = Some e \<and> rc \<noteq> 0 \<or> rc = 0 \<and> \<not> v > of_nat MDBX_PGL_LIMIT \<and> r = Some (e\<lparr>me_options := (me_options e)\<lparr>rp_augment_limit := ucast v\<rparr>\<rparr>)"
        using run by (simp split: if_splits)
      then show ?thesis using MDBX_opt_rp_augment_limit that(2,9) by blast
    next
      case MDBX_opt_loose_limit
      then have "r = Some e \<and> rc \<noteq> 0 \<or> rc = 0 \<and> \<not> v > 255 \<and> r = Some (e\<lparr>me_options := (me_options e)\<lparr>dp_loose_limit := ucast v\<rparr>\<rparr>)"
        using run by (simp split: if_splits)
      then show ?thesis using MDBX_opt_loose_limit that(2,13) by blast
    next
      case MDBX_opt_dp_reserve_limit
      then have "\<exists>e'. set_dp_reserve_limit os e v = (rc, e') \<and> r = Some e'" using run by (simp split: prod.splits)
      then obtain e' where e': "set_dp_reserve_limit os e v = (rc, e')" "r = Some e'" by blast
      from set_dp_reserve_limit_cases [OF e'(1)] show ?thesis
        using e'(2) MDBX_opt_dp_reserve_limit by (elim disjE exE conjE) (rule that(2) that(3) that(7); simp)+
    next
      case MDBX_opt_txn_dp_limit
      then obtain e' where e': "set_txn_dp os e False v = (rc, e')" "r = Some e'" using run by (simp split: prod.splits)
      from set_txn_dp_cases [OF e'(1)] show ?thesis
        using e'(2) MDBX_opt_txn_dp_limit by (elim disjE conjE) (rule that(2) that(8); simp)+
    next
      case MDBX_opt_txn_dp_initial
      then obtain e' where e': "set_txn_dp os e True v = (rc, e')" "r = Some e'" using run by (simp split: prod.splits)
      from set_txn_dp_cases [OF e'(1)] show ?thesis
        using e'(2) MDBX_opt_txn_dp_initial by (elim disjE conjE) (rule that(2) that(8); simp)+
    next
      case MDBX_opt_spill_max_denominator
      then have "r = Some e \<and> rc \<noteq> 0 \<or> rc = 0 \<and> \<not> v > 255 \<and> r = Some (e\<lparr>me_options := (me_options e)\<lparr>spill_max_denominator := ucast v\<rparr>\<rparr>)"
        using run by (simp split: if_splits)
      then show ?thesis using MDBX_opt_spill_max_denominator that(2,10) by blast
    next
      case MDBX_opt_spill_min_denominator
      then have "r = Some e \<and> rc \<noteq> 0 \<or> rc = 0 \<and> \<not> v > 255 \<and> r = Some (e\<lparr>me_options := (me_options e)\<lparr>spill_min_denominator := ucast v\<rparr>\<rparr>)"
        using run by (simp split: if_splits)
      then show ?thesis using MDBX_opt_spill_min_denominator that(2,11) by blast
    next
      case MDBX_opt_spill_parent4child_denominator
      then have "r = Some e \<and> rc \<noteq> 0 \<or> rc = 0 \<and> \<not> v > 255 \<and> r = Some (e\<lparr>me_options := (me_options e)\<lparr>spill_parent4child_denominator := ucast v\<rparr>\<rparr>)"
        using run by (simp split: if_splits)
      then show ?thesis using MDBX_opt_spill_parent4child_denominator that(2,12) by blast
    next
      case MDBX_opt_merge_threshold
      then have "r = Some e \<and> rc \<noteq> 0 \<or> rc = 0 \<and> \<not> (v < 8192 \<or> v > 32768) \<and> r = Some (recalculate_merge_threshold (e\<lparr>me_options := (me_options e)\<lparr>merge_threshold_16dot16_percent := ucast v\<rparr>\<rparr>))"
        using run by (simp split: if_splits)
      then show ?thesis using MDBX_opt_merge_threshold that(2,14) by blast
    next
      case MDBX_opt_unknown
      then show ?thesis using run that(2) by simp
    qed
  qed
qed

lemma sync_options_keep:
  assumes "env_ok e" "sync_keeps os" "set_sync_bytes os e v = (rc, e') \<or> set_sync_period os e v = (rc, e')"
  shows "env_ok e'"
  using assms(3)
proof
  assume "set_sync_bytes os e v = (rc, e')"
  then show ?thesis using assms(1,2) env_ok_lck(1) [OF assms(1)]
    by (auto simp: set_sync_bytes_def sync_keeps_def Let_def split: if_splits)
next
  assume "set_sync_period os e v = (rc, e')"
  then show ?thesis using assms(1,2) env_ok_lck(2) [OF assms(1)]
    by (auto simp: set_sync_period_def sync_keeps_def Let_def split: if_splits)
qed

lemma unat_ucast_small: "unat (w :: u64) < 4294967296 \<Longrightarrow> unat (ucast w :: u32) = unat w"
  by (subst unat_ucast_lt) simp_all

lemma unat_ucast_small8: "unat (w :: u64) \<le> 255 \<Longrightarrow> unat (ucast w :: u8) = unat w"
  by (subst unat_ucast_lt) simp_all

lemma ucast_back:
  "unat (w :: u64) < 4294967296 \<Longrightarrow> ucast (ucast w :: u32) = w"
  "unat (w :: u64) \<le> 255 \<Longrightarrow> ucast (ucast w :: u8) = w"
proof -
  assume w: "unat w < 4294967296"
  have "unat (ucast (ucast w :: u32) :: u64) = unat (ucast w :: u32)"
    by (rule unat_ucast_lt) (use w in \<open>simp add: unat_ucast_small\<close>)
  then show "ucast (ucast w :: u32) = w" by (simp only: unat_ucast_small [OF w] word_unat_eq_iff)
next
  assume w: "unat w \<le> 255"
  have "unat (ucast (ucast w :: u8) :: u64) = unat (ucast w :: u8)"
    by (rule unat_ucast_lt) (use w in \<open>simp add: unat_ucast_small8\<close>)
  then show "ucast (ucast w :: u8) = w" by (simp only: unat_ucast_small8 [OF w] word_unat_eq_iff)
qed

text \<open>
  C35: setting an option, successfully or not, keeps the invariant of the environment, and a
  refused option other than the two sync options leaves the environment as it was (but for
  the mark a foreign process leaves).
\<close>

theorem set_option_keeps_invariant:
  assumes "env_ok e" "sync_keeps os" "mdbx_env_set_option os (Some e) opt v = (rc, r)"
  shows "\<exists>e'. r = Some e' \<and> env_ok e' \<and>
    (rc = 0 \<or> opt = MDBX_opt_sync_bytes \<or> opt = MDBX_opt_sync_period \<or>
     e' = e \<or> e' = e\<lparr>me_flags := me_flags e OR MDBX_FATAL_ERROR\<rparr>)"
proof -
  have lim: "unat (of_nat MDBX_PGL_LIMIT :: u64) = 2147483647" by (simp add: MDBX_PGL_LIMIT_def)
  have ini: "dp_initial (me_options e) \<le> dp_limit (me_options e)" using assms(1) by (simp add: env_ok_def)
  show ?thesis
    using assms(3)
  proof (cases rule: set_option_cases)
    case (4 e')
    then show ?thesis using sync_options_keep [OF assms(1,2) 4(3)] by auto
  next
    case 5
    then have u: "unat v \<le> 32765" by (simp add: word_less_nat_alt MDBX_MAX_DBI_def)
    then have "unat (ucast v + CORE_DBS :: u32) = unat v + 2"
      by (subst unat_add_lt) (simp_all add: unat_ucast_small CORE_DBS_def)
    then have "env_ok (e\<lparr>me_maxdbs := ucast v + CORE_DBS\<rparr>)"
      using u by (intro env_ok_lck(4) [OF assms(1)]) (simp_all add: word_le_nat_alt)
    then show ?thesis using 5 by simp
  next
    case 6
    then have u: "1 \<le> unat v" "unat v \<le> 32767"
      by (simp_all add: word_less_nat_alt MDBX_READERS_LIMIT_def not_less del: unat_eq_zero)
    then have "env_ok (e\<lparr>me_maxreaders := ucast v\<rparr>)"
      by (intro env_ok_lck(3) [OF assms(1)]) (simp_all add: word_le_nat_alt unat_ucast_small)
    then show ?thesis using 6 by simp
  next
    case (7 dps len)
    then show ?thesis using env_ok_reserve [OF assms(1) 7(4)] by simp
  next
    case (8 opts)
    then show ?thesis using env_ok_options [OF assms(1)] set_dp_options_ok [OF ini] by simp
  next
    case 9
    then show ?thesis using env_ok_options [OF assms(1)] ini by simp
  next
    case 10
    then show ?thesis using env_ok_options [OF assms(1)] ini by simp
  next
    case 11
    then show ?thesis using env_ok_options [OF assms(1)] ini by simp
  next
    case 12
    then show ?thesis using env_ok_options [OF assms(1)] ini by simp
  next
    case 13
    then show ?thesis using env_ok_options [OF assms(1)] ini by simp
  next
    case 14
    then have u: "8192 \<le> unat v" "unat v \<le> 32768" by (simp_all add: word_less_nat_alt not_less)
    then have "8192 \<le> (ucast v :: u32)" "(ucast v :: u32) \<le> 32768"
      by (simp_all add: word_le_nat_alt unat_ucast_small)
    then show ?thesis using env_ok_merge [OF assms(1)] 14 by simp
  qed (use assms(1) in simp_all)
qed

definition quiet_os :: env_os where
  "quiet_os = \<lparr>os_getpid = 7, os_sync_poll = (\<lambda>e. (0, e)), os_txn_lock = 0\<rparr>"

lemma quiet_os_keeps: "sync_keeps quiet_os"
  by (simp add: sync_keeps_def quiet_os_def)

lemma demo_env_ok: "env_ok demo_env"
  by (simp add: env_ok_def demo_env_def page_sizes_def LEAF_NODE_MAX_def EVEN_FLOOR_def PAGEROOM_def size_defs
      merge_threshold_of_def merge_threshold_gc_of_def drop_bit_eq_div)

theorem set_option_keeps_invariant_witness:
  "\<exists>e'. snd (mdbx_env_set_option quiet_os (Some demo_env) MDBX_opt_txn_dp_limit 500) = Some e' \<and> env_ok e'"
  using set_option_keeps_invariant
    [OF demo_env_ok quiet_os_keeps prod.collapse [symmetric], of MDBX_opt_txn_dp_limit 500] by blast

lemma recalculate_more [simp]: "me_signature (recalculate_merge_threshold e) = me_signature e"
  by (simp add: recalculate_merge_threshold_def Let_def)

lemma check_env_alike:
  assumes "check_env pid False (Some e) = (MDBX_SUCCESS, r)"
    and "me_signature e' = me_signature e" "me_pid e' = me_pid e" "me_flags e' = me_flags e"
  shows "check_env pid False (Some e') = (MDBX_SUCCESS, Some e')"
  using assms by (auto simp: check_env_def split: if_splits)

lemma set_option_succeeds:
  assumes "mdbx_env_set_option os (Some e) opt v = (0, r)"
  shows "check_env (os_getpid os) False (Some e) = (MDBX_SUCCESS, Some e)"
proof (cases "check_env (os_getpid os) False (Some e)")
  case (Pair err e0)
  have "err = MDBX_SUCCESS"
  proof (rule ccontr)
    assume no: "err \<noteq> MDBX_SUCCESS"
    then have "rc_of err = 0" using assms Pair check_env_keeps [OF Pair] by (auto simp: mdbx_env_set_option_def)
    moreover have "err \<in> {MDBX_EINVAL, MDBX_EBADSIGN, MDBX_PANIC, MDBX_EPERM, MDBX_SUCCESS}"
      using Pair by (auto simp: check_env_def split: if_splits)
    ultimately show False using no by auto
  qed
  then show ?thesis using Pair check_env_keeps [OF Pair] by auto
qed

text \<open>
  Every option except the two sync options reads back exactly as it was set: after a
  successful \<open>mdbx_env_set_option\<close> the getter returns the value given to it.
\<close>

theorem options_read_back:
  assumes "mdbx_env_set_option os (Some e) opt v = (0, Some e')"
    and "opt \<noteq> MDBX_opt_sync_bytes" "opt \<noteq> MDBX_opt_sync_period"
  shows "mdbx_env_get_option limit (os_getpid os) (Some e') opt True = (Inr v, Some e')"
proof -
  note ok = set_option_succeeds [OF assms(1)]
  have get: "mdbx_env_get_option limit (os_getpid os) (Some x) opt True = (get_option_value limit x opt, Some x)"
    if "me_signature x = me_signature e" "me_pid x = me_pid e" "me_flags x = me_flags e" for x
    using check_env_alike [OF ok that] by (simp add: mdbx_env_get_option_def)
  have lim: "unat (of_nat MDBX_PGL_LIMIT :: u64) = 2147483647" by (simp add: MDBX_PGL_LIMIT_def)
  show ?thesis
    using assms(1)
  proof (cases rule: set_option_cases)
    case 5
    then have "unat v \<le> 32765" by (simp add: word_less_nat_alt MDBX_MAX_DBI_def)
    then have "ucast (ucast v + CORE_DBS - CORE_DBS :: u32) = v" by (simp add: ucast_back)
    then show ?thesis using 5 get [of e'] by (simp add: get_option_value_def)
  next
    case 6
    then have "unat v \<le> 32767" by (simp add: word_less_nat_alt MDBX_READERS_LIMIT_def)
    then show ?thesis using 6 get [of e'] by (simp add: get_option_value_def ucast_back)
  next
    case (7 dps len)
    then have "unat v \<le> 2147483647" by (simp add: word_less_nat_alt)
    then show ?thesis using 7 get [of e'] by (simp add: get_option_value_def ucast_back)
  next
    case 3
    then have "unat v \<le> 2147483647" by (simp add: word_less_nat_alt)
    then show ?thesis using 3 get [of e'] by (simp add: get_option_value_def ucast_back)
  next
    case (8 opts)
    then have "unat v \<le> 2147483647" by (simp add: word_less_nat_alt lim)
    moreover have "dp_limit (set_dp_options False (ucast v) o1) = ucast v"
      "dp_initial (set_dp_options True (ucast v) o1) = ucast v" for o1
      by (simp_all add: set_dp_options_def Let_def)
    ultimately show ?thesis using 8 get [of e'] by (auto simp: get_option_value_def ucast_back)
  next
    case 9
    then have "unat v \<le> 2147483647" by (simp add: word_less_nat_alt lim)
    then show ?thesis using 9 get [of e'] by (simp add: get_option_value_def ucast_back)
  next
    case 10
    then show ?thesis using get [of e'] by (simp add: get_option_value_def ucast_back word_less_nat_alt)
  next
    case 11
    then show ?thesis using get [of e'] by (simp add: get_option_value_def ucast_back word_less_nat_alt)
  next
    case 12
    then show ?thesis using get [of e'] by (simp add: get_option_value_def ucast_back word_less_nat_alt)
  next
    case 13
    then show ?thesis using get [of e'] by (simp add: get_option_value_def ucast_back word_less_nat_alt)
  next
    case 14
    then have "unat v \<le> 32768" by (simp add: word_less_nat_alt)
    then show ?thesis using 14 get [of e'] by (simp add: get_option_value_def ucast_back)
  qed (use assms in simp_all)
qed

theorem options_read_back_witness:
  "fst (mdbx_env_get_option 0 7 (snd (mdbx_env_set_option quiet_os (Some demo_env) MDBX_opt_txn_dp_initial 100000))
     MDBX_opt_txn_dp_initial True) = Inr 100000"
proof -
  have "mdbx_env_set_option quiet_os (Some demo_env) MDBX_opt_txn_dp_initial 100000 =
      (0, Some (demo_env\<lparr>me_options := set_dp_options True 100000 (me_options demo_env)\<rparr>))"
    by (simp add: mdbx_env_set_option_def check_env_def demo_env_def quiet_os_def MDBX_FATAL_ERROR_def
        set_txn_dp_def MDBX_PGL_LIMIT_def CURSOR_STACK_def MDBX_RDONLY_def lock_needed_def MDBX_ENV_ACTIVE_def)
  from options_read_back [OF this] this show ?thesis by (simp add: quiet_os_def)
qed

text \<open>
  The sync period set as 16.16 fixed-point seconds reads back within one unit below what
  was set, zero (off) stays zero and only zero reads as zero, whether or not the conversion
  limit was already computed.
\<close>

lemma sync_period_reads_back:
  assumes "limit = 0 \<or> limit = time_limit_value"
  shows "(let back = fst (mdbx_osal_monotime_to_16dot16 limit (mdbx_osal_16dot16_to_monotime s))
          in unat back \<in> {unat s - 1, unat s} \<and> (back = 0 \<longleftrightarrow> s = 0))"
  using time_round_trip [OF assms] by (simp add: Let_def)

lemma sync_period_reads_back_witness:
  "unat (fst (mdbx_osal_monotime_to_16dot16 0 (mdbx_osal_16dot16_to_monotime 65536))) \<in> {65535, 65536}"
  using sync_period_reads_back [of 0 65536] by (simp add: Let_def)

end
