(* ===== verification/Page_Table.thy ===== *)
theory Page_Table
  imports Int_Utils Result_Codes
begin

text \<open>
  The contract of a table of pages indexed by page number: a lookup answers from the table, an
  insertion of an absent page either adds it or reports an error and changes nothing, removing a
  page removes just that page.  Whatever a client does with such a table, its answers are those
  of a finite map.
\<close>

datatype 'v table_op = Find pgno_t | Insert pgno_t 'v | Forget pgno_t

datatype 'e table_out = Found "'e option" | Inserted mdbx_error | Forgotten

definition valid_pgno :: "pgno_t \<Rightarrow> bool" where
  "valid_pgno p \<longleftrightarrow> MIN_PAGENO \<le> p \<and> p \<le> MAX_PAGENO"

text \<open>What the client promises: valid page numbers, and only absent pages are inserted.\<close>

fun op_legal :: "(pgno_t \<Rightarrow> 'e option) \<Rightarrow> 'v table_op \<Rightarrow> bool" where
  "op_legal m (Find p) \<longleftrightarrow> valid_pgno p"
| "op_legal m (Insert p v) \<longleftrightarrow> valid_pgno p \<and> m p = None"
| "op_legal m (Forget p) \<longleftrightarrow> valid_pgno p"

text \<open>The answers of a finite map; \<^const>\<open>None\<close> when the answer given is not one of them.\<close>

fun spec_step :: "('v \<Rightarrow> 'e) \<Rightarrow> (pgno_t \<Rightarrow> 'e option) \<Rightarrow> 'v table_op \<Rightarrow> 'e table_out \<Rightarrow> (pgno_t \<Rightarrow> 'e option) option" where
  "spec_step entry m (Find p) (Found r) = (if r = m p then Some m else None)"
| "spec_step entry m (Insert p v) (Inserted rc) = Some (if rc = MDBX_SUCCESS then m(p \<mapsto> entry v) else m)"
| "spec_step entry m (Forget p) Forgotten = Some (m(p := None))"
| "spec_step entry m _ _ = None"

fun spec_run :: "('v \<Rightarrow> 'e) \<Rightarrow> (pgno_t \<Rightarrow> 'e option) \<Rightarrow> 'v table_op list \<Rightarrow> 'e table_out list \<Rightarrow> (pgno_t \<Rightarrow> 'e option) option" where
  "spec_run entry m [] [] = Some m"
| "spec_run entry m (c # ops) (r # outs) =
     (case spec_step entry m c r of None \<Rightarrow> None | Some m' \<Rightarrow> spec_run entry m' ops outs)"
| "spec_run entry m _ _ = None"

text \<open>A client running a list of operations on the concrete table.\<close>

fun table_step ::
    "('s \<Rightarrow> pgno_t \<Rightarrow> ('e option \<times> 's) option) \<Rightarrow> ('s \<Rightarrow> pgno_t \<Rightarrow> 'v \<Rightarrow> (mdbx_error \<times> 's) option) \<Rightarrow>
     ('s \<Rightarrow> pgno_t \<Rightarrow> 's option) \<Rightarrow> 's \<Rightarrow> 'v table_op \<Rightarrow> ('e table_out \<times> 's) option" where
  "table_step lookup insrt forget s (Find p) = map_option (\<lambda>(r, s). (Found r, s)) (lookup s p)"
| "table_step lookup insrt forget s (Insert p v) = map_option (\<lambda>(rc, s). (Inserted rc, s)) (insrt s p v)"
| "table_step lookup insrt forget s (Forget p) = map_option (\<lambda>s. (Forgotten, s)) (forget s p)"

fun table_run :: "('s \<Rightarrow> 'c \<Rightarrow> ('r \<times> 's) option) \<Rightarrow> 's \<Rightarrow> 'c list \<Rightarrow> ('r list \<times> 's) option" where
  "table_run step s [] = Some ([], s)"
| "table_run step s (c # ops) =
     (case step s c of None \<Rightarrow> None
      | Some (r, s') \<Rightarrow> map_option (\<lambda>(outs, s). (r # outs, s)) (table_run step s' ops))"

fun ops_legal :: "('s \<Rightarrow> 'c \<Rightarrow> ('r \<times> 's) option) \<Rightarrow> ('s \<Rightarrow> 'c \<Rightarrow> bool) \<Rightarrow> 's \<Rightarrow> 'c list \<Rightarrow> bool" where
  "ops_legal step legal s [] \<longleftrightarrow> True"
| "ops_legal step legal s (c # ops) \<longleftrightarrow>
     legal s c \<and> (case step s c of None \<Rightarrow> True | Some (r, s') \<Rightarrow> ops_legal step legal s' ops)"

text \<open>Lookups and removals are legal in every state.\<close>

fun no_insert :: "'v table_op \<Rightarrow> bool" where
  "no_insert (Find p) \<longleftrightarrow> valid_pgno p"
| "no_insert (Insert p v) \<longleftrightarrow> False"
| "no_insert (Forget p) \<longleftrightarrow> valid_pgno p"

lemma no_insert_legal: "no_insert c \<Longrightarrow> op_legal m c"
  by (cases c) auto

lemma no_inserts_legal:
  "list_all no_insert ops \<Longrightarrow> ops_legal step (\<lambda>s. op_legal (view s)) s ops"
  by (induction ops arbitrary: s) (auto simp: no_insert_legal split: option.split)

lemma then_no_inserts_legal:
  "op_legal (view s) c \<Longrightarrow> list_all no_insert ops \<Longrightarrow> ops_legal step (\<lambda>s. op_legal (view s)) s (c # ops)"
  by (auto simp: no_inserts_legal split: option.split)

locale page_table =
  fixes ok :: "'s \<Rightarrow> bool"
    and view :: "'s \<Rightarrow> pgno_t \<Rightarrow> 'e option"
    and entry :: "'v \<Rightarrow> 'e"
    and lookup :: "'s \<Rightarrow> pgno_t \<Rightarrow> ('e option \<times> 's) option"
    and insrt :: "'s \<Rightarrow> pgno_t \<Rightarrow> 'v \<Rightarrow> (mdbx_error \<times> 's) option"
    and forget :: "'s \<Rightarrow> pgno_t \<Rightarrow> 's option"
  assumes lookup_law: "ok s \<Longrightarrow> valid_pgno p \<Longrightarrow>
      \<exists>s'. lookup s p = Some (view s p, s') \<and> ok s' \<and> view s' = view s"
    and insrt_law: "ok s \<Longrightarrow> valid_pgno p \<Longrightarrow> view s p = None \<Longrightarrow>
      \<exists>rc s'. insrt s p v = Some (rc, s') \<and> ok s' \<and>
        view s' = (if rc = MDBX_SUCCESS then (view s)(p \<mapsto> entry v) else view s)"
    and forget_law: "ok s \<Longrightarrow> valid_pgno p \<Longrightarrow>
      \<exists>s'. forget s p = Some s' \<and> ok s' \<and> view s' = (view s)(p := None)"
begin

lemma step_refines:
  assumes "ok s" "op_legal (view s) c"
  shows "\<exists>r s'. table_step lookup insrt forget s c = Some (r, s') \<and> ok s' \<and>
           spec_step entry (view s) c r = Some (view s')"
  using assms
proof (cases c)
  case (Find p)
  then show ?thesis using assms lookup_law [of s p] by auto
next
  case (Insert p v)
  then show ?thesis using assms insrt_law [of s p v] by fastforce
next
  case (Forget p)
  then show ?thesis using assms forget_law [of s p] by auto
qed

lemma run_refines:
  assumes "ok s" "ops_legal (table_step lookup insrt forget) (\<lambda>s. op_legal (view s)) s ops"
  shows "\<exists>outs s'. table_run (table_step lookup insrt forget) s ops = Some (outs, s') \<and> ok s' \<and>
           spec_run entry (view s) ops outs = Some (view s')"
  using assms
proof (induction ops arbitrary: s)
  case Nil
  then show ?case by simp
next
  case (Cons c ops)
  have c: "op_legal (view s) c" using Cons.prems(2) by simp
  obtain r s1 where step: "table_step lookup insrt forget s c = Some (r, s1)" "ok s1"
    "spec_step entry (view s) c r = Some (view s1)"
    using step_refines [OF Cons.prems(1) c] by blast
  obtain outs s2 where "table_run (table_step lookup insrt forget) s1 ops = Some (outs, s2)" "ok s2"
    "spec_run entry (view s1) ops outs = Some (view s2)"
    using Cons.IH [OF step(2)] Cons.prems(2) step(1) by auto
  then show ?case using step by (intro exI [of _ "r # outs"] exI [of _ s2]) simp
qed

end

end
