(* ===== verification/Dirty_List.thy ===== *)
theory Dirty_List
  imports Page_List Page_Table "HOL-Library.Numeral_Type"
begin

text \<open>
  The list of dirty pages of a write transaction (\<open>MDBX_dpl\<close>).  The items are a block of
  cells: cell 0 and the cell after the last item hold stub entries, the first \<open>sorted\<close>
  items are ordered by page number, at most sixteen may follow unordered before a search
  sorts the whole, and the rest of the block is the buffer of the radix sort and of the
  merge.  Reads and stores are bounds-checked: \<^const>\<open>None\<close> is an access outside the
  block or through the null pointer.  The operations are proved to refine a finite map from
  page numbers to pages.
\<close>

declare One_nat_def [simp]

subsection \<open>Entries and the list\<close>

text \<open>A pointer to a page: one of the two static stubs of the code or a page in memory.\<close>

datatype page_ptr = Dpl_stub_pageB | Dpl_stub_pageE | Page_at nat

text \<open>The bit fields \<open>multi\<close> and \<open>lru\<close> share the word \<open>extra\<close>.\<close>

record dp =
  dp_ptr :: page_ptr
  dp_pgno :: pgno_t
  dp_multi :: bool
  dp_lru :: "31 word"

record dpl =
  dl_sorted :: u32
  dl_length :: u32
  dl_detent :: u32
  dl_items :: "dp list"

text \<open>The parts of a transaction that the list uses; \<open>None\<close> is a null pointer.\<close>

record dtxn =
  tw_dirtylist :: "dpl option"
  tw_dirtylru :: u32
  opt_dp_initial :: u32
  mt_geo_upper :: u32

definition MDBX_DPL_UNSORTED_BACKLOG :: nat where "MDBX_DPL_UNSORTED_BACKLOG = 16"
definition MDBX_DPL_GAP_FOR_MERGESORT :: nat where "MDBX_DPL_GAP_FOR_MERGESORT = MDBX_DPL_UNSORTED_BACKLOG"
definition MDBX_DPL_GAP_FOR_EDGING :: nat where "MDBX_DPL_GAP_FOR_EDGING = 2"
definition MDBX_DPL_RESERVE_GAP :: nat where
  "MDBX_DPL_RESERVE_GAP = MDBX_DPL_GAP_FOR_MERGESORT + MDBX_DPL_GAP_FOR_EDGING"

lemmas dpl_gap_defs = MDBX_DPL_UNSORTED_BACKLOG_def MDBX_DPL_GAP_FOR_MERGESORT_def
  MDBX_DPL_GAP_FOR_EDGING_def MDBX_DPL_RESERVE_GAP_def

definition sizeof_dpl :: u64 where "sizeof_dpl = 16"
definition sizeof_dp :: u64 where "sizeof_dp = 16"

definition dpl2bytes :: "u64 \<Rightarrow> u64" where
  "dpl2bytes sz =
     (let size = sz + sz
      in ceil_powerof2 (16 + sizeof_dpl + (size + of_nat MDBX_DPL_RESERVE_GAP) * sizeof_dp) (1024 * 8 * 2) - 16)"

definition bytes2dpl :: "u64 \<Rightarrow> u32" where
  "bytes2dpl bytes =
     (let size = (bytes - sizeof_dpl) div sizeof_dp;
          size = size - of_nat MDBX_DPL_RESERVE_GAP;
          size = drop_bit 1 size
      in ucast size)"

subsection \<open>Allocation\<close>

definition dpl_stubE :: dp where
  "dpl_stubE = \<lparr>dp_ptr = Dpl_stub_pageE, dp_pgno = P_INVALID, dp_multi = False, dp_lru = 0\<rparr>"

definition dpl_stubB :: dp where
  "dpl_stubB = \<lparr>dp_ptr = Dpl_stub_pageB, dp_pgno = 0, dp_multi = False, dp_lru = 0\<rparr>"

definition dpl_setlen :: "dpl \<Rightarrow> u32 \<Rightarrow> dpl option" where
  "dpl_setlen dl len = do {
     items \<leftarrow> wr (dl_items dl) (unat (len + 1)) dpl_stubE;
     Some (dl\<lparr>dl_length := len, dl_items := items\<rparr>)
   }"

definition dpl_clear :: "dpl \<Rightarrow> dpl option" where
  "dpl_clear dl = do {
     dl \<leftarrow> dpl_setlen dl 0;
     items \<leftarrow> wr (dl_items dl) 0 dpl_stubB;
     Some (dl\<lparr>dl_sorted := 0, dl_items := items\<rparr>)
   }"

definition mdbx_dpl_free :: "dtxn \<Rightarrow> dtxn" where
  "mdbx_dpl_free txn = txn\<lparr>tw_dirtylist := None\<rparr>"

text \<open>
  The allocator yields a block with arbitrary contents, or none; reallocation keeps the
  header fields and the common prefix of the items.
\<close>

type_synonym dpl_allocator = "u64 \<Rightarrow> dpl option"

definition dpl_usable_size :: "dpl \<Rightarrow> u64" where
  "dpl_usable_size dl = of_nat (16 + 16 * length (dl_items dl))"

definition dpl_realloc :: "dpl_allocator \<Rightarrow> dpl option \<Rightarrow> u64 \<Rightarrow> dpl option" where
  "dpl_realloc malloc old bytes =
     (case malloc bytes of None \<Rightarrow> None
      | Some b \<Rightarrow> (case old of
           None \<Rightarrow> Some b
         | Some dl \<Rightarrow> Some (dl\<lparr>dl_items := take (length (dl_items b)) (dl_items dl) @
                                      drop (length (dl_items dl)) (dl_items b)\<rparr>)))"

text \<open>The new list and the transaction that points to it; a failure leaves the old one.\<close>

definition mdbx_dpl_reserve :: "dpl_allocator \<Rightarrow> dtxn \<Rightarrow> u64 \<Rightarrow> dpl option \<times> dtxn" where
  "mdbx_dpl_reserve malloc txn sz =
     (let bytes = dpl2bytes (if sz < MDBX_PGL_LIMIT then sz else MDBX_PGL_LIMIT)
      in case dpl_realloc malloc (tw_dirtylist txn) bytes of
           None \<Rightarrow> (None, txn)
         | Some dl \<Rightarrow>
             (let dl = dl\<lparr>dl_detent := bytes2dpl (dpl_usable_size dl)\<rparr>
              in (Some dl, txn\<lparr>tw_dirtylist := Some dl\<rparr>)))"

definition mdbx_dpl_alloc :: "dpl_allocator \<Rightarrow> dtxn \<Rightarrow> (mdbx_error \<times> dtxn) option" where
  "mdbx_dpl_alloc malloc txn =
     (let wanna = (if opt_dp_initial txn < mt_geo_upper txn then opt_dp_initial txn else mt_geo_upper txn);
          fresh = (\<lambda>txn. case mdbx_dpl_reserve malloc txn (scast wanna) of
                     (None, txn) \<Rightarrow> Some (MDBX_ENOMEM, txn)
                   | (Some dl, txn) \<Rightarrow> do {
                       dl \<leftarrow> dpl_clear dl;
                       Some (MDBX_SUCCESS, txn\<lparr>tw_dirtylist := Some dl\<rparr>)
                     })
      in case tw_dirtylist txn of
           None \<Rightarrow> fresh txn
         | Some dl \<Rightarrow> do {
             dl \<leftarrow> dpl_clear dl;
             let txn = txn\<lparr>tw_dirtylist := Some dl\<rparr>;
             if \<not> (sint (dl_detent dl - wanna) > 64 \<or> sint (dl_detent dl - wanna) < - 64)
             then Some (MDBX_SUCCESS, txn)
             else fresh txn
           })"

subsection \<open>Sorting\<close>

definition dp_sort_cmp :: "dp \<Rightarrow> dp \<Rightarrow> bool" where
  "dp_sort_cmp a b \<longleftrightarrow> dp_pgno a < dp_pgno b"

text \<open>The radix sort works on the items and in the cells after the end stub.\<close>

definition dpl_radixsort :: "dp list \<Rightarrow> nat \<Rightarrow> nat \<Rightarrow> (bool \<times> dp list) option" where
  "dpl_radixsort items base len =
     (if length items < base + len + 1 + len then None
      else case radixsort dp_pgno (seg base len items) (Some (seg (base + len + 1) len items)) of
             None \<Rightarrow> None
           | Some (ok, xs, tmp) \<Rightarrow>
               Some (ok, take base items @ xs @ [items ! (base + len)] @ tmp @ drop (base + len + 1 + len) items))"

text \<open>The merge of the sorted part and of the sorted copy of the rest, from the ends.\<close>

fun dpl_merge :: "dp list \<Rightarrow> nat \<Rightarrow> nat \<Rightarrow> nat \<Rightarrow> dp list option" where
  "dpl_merge items w l r = do {
     lx \<leftarrow> rd items l;
     rx \<leftarrow> rd items r;
     let cmp = dp_pgno lx > dp_pgno rx;
     items \<leftarrow> wr items w (if cmp then lx else rx);
     let l = (if cmp then l - 1 else l);
     let r = (if cmp then r else r - 1);
     if w - 1 > l then dpl_merge items (w - 1) l r else Some items
   }"

declare dpl_merge.simps [simp del]

text \<open>The copy of the unsorted items to the end of the buffer.\<close>

definition move_items :: "dp list \<Rightarrow> nat \<Rightarrow> nat \<Rightarrow> nat \<Rightarrow> dp list option" where
  "move_items items dst src n =
     (if dst + n \<le> length items \<and> src + n \<le> length items
      then Some (take dst items @ seg src n items @ drop (dst + n) items) else None)"

definition dpl_merge_sort :: "dp list \<Rightarrow> nat \<Rightarrow> nat \<Rightarrow> dp list option" where
  "dpl_merge_sort items len srt = do {
     let unsorted = len - srt;
     let end = len + len + 1;
     let tmp = end - unsorted;
     items \<leftarrow> move_items items tmp (srt + 1) unsorted;
     items \<leftarrow> qs_sort dp_sort_cmp tmp (tmp + unsorted) items;
     dpl_merge items len srt (end - 1)
   }"

definition mdbx_dpl_sort_slowpath :: "dpl \<Rightarrow> dpl option" where
  "mdbx_dpl_sort_slowpath dl = do {
     let unsorted = dl_length dl - dl_sorted dl;
     let len = unat (dl_length dl);
     (done, items) \<leftarrow> (if unsorted < MDBX_RADIXSORT_THRESHOLD then Some (False, dl_items dl)
                       else dpl_radixsort (dl_items dl) 1 len);
     items \<leftarrow> (if done then Some items
               else if dl_sorted dl > unsorted div 4 + 4
               then dpl_merge_sort items len (unat (dl_sorted dl))
               else qs_sort dp_sort_cmp 1 (len + 1) items);
     Some (dl\<lparr>dl_sorted := dl_length dl, dl_items := items\<rparr>)
   }"

definition mdbx_dpl_sort :: "dpl \<Rightarrow> dpl option" where
  "mdbx_dpl_sort dl = (if dl_sorted dl = dl_length dl then Some dl else mdbx_dpl_sort_slowpath dl)"

subsection \<open>Searching\<close>

definition dp_search_cmp :: "dp \<Rightarrow> pgno_t \<Rightarrow> bool" where
  "dp_search_cmp d pgno \<longleftrightarrow> dp_pgno d < pgno"

text \<open>The cases of the \<open>switch\<close>: the last \<open>n\<close> items in order.\<close>

fun linear_search :: "dp list \<Rightarrow> nat \<Rightarrow> pgno_t \<Rightarrow> nat \<Rightarrow> nat option option" where
  "linear_search items len pgno 0 = Some None"
| "linear_search items len pgno (Suc n) = do {
     d \<leftarrow> rd items (len - Suc n + 1);
     if dp_pgno d = pgno then Some (Some (len - Suc n + 1))
     else linear_search items len pgno n
   }"

text \<open>The index of the entry, or of the first sorted entry that is not below, and the list.\<close>

definition mdbx_dpl_search :: "dpl \<Rightarrow> pgno_t \<Rightarrow> (u32 \<times> dpl) option" where
  "mdbx_dpl_search dl pgno = do {
     let backlog = dl_length dl - dl_sorted dl;
     if unat backlog \<le> 16
     then do {
       found \<leftarrow> linear_search (dl_items dl) (unat (dl_length dl)) pgno (unat backlog);
       (case found of
          Some i \<Rightarrow> Some (of_nat i, dl)
        | None \<Rightarrow> do {
            i \<leftarrow> bsearch dp_search_cmp (dl_items dl) 1 (unat (dl_sorted dl)) pgno;
            Some (of_nat i, dl)
          })
     }
     else do {
       dl \<leftarrow> mdbx_dpl_sort_slowpath dl;
       i \<leftarrow> bsearch dp_search_cmp (dl_items dl) 1 (unat (dl_sorted dl)) pgno;
       Some (of_nat i, dl)
     }
   }"

definition mdbx_dpl_exist :: "dpl \<Rightarrow> pgno_t \<Rightarrow> (u32 \<times> dpl) option" where
  "mdbx_dpl_exist dl pgno = do {
     (i, dl) \<leftarrow> mdbx_dpl_search dl pgno;
     d \<leftarrow> rd (dl_items dl) (unat i);
     Some (if dp_pgno d = pgno then i else 0, dl)
   }"

text \<open>\<open>pages\<close> reads the field \<open>mp_pages\<close> of a page.\<close>

definition dpl_npages :: "(page_ptr \<Rightarrow> u32) \<Rightarrow> dpl \<Rightarrow> u32 \<Rightarrow> u32 option" where
  "dpl_npages pages dl i = do {
     d \<leftarrow> rd (dl_items dl) (unat i);
     Some (if \<not> dp_multi d then 1 else pages (dp_ptr d))
   }"

definition dpl_endpgno :: "(page_ptr \<Rightarrow> u32) \<Rightarrow> dpl \<Rightarrow> u32 \<Rightarrow> u32 option" where
  "dpl_endpgno pages dl i = do {
     n \<leftarrow> dpl_npages pages dl i;
     d \<leftarrow> rd (dl_items dl) (unat i);
     Some (n + dp_pgno d)
   }"

definition mdbx_dpl_intersect ::
    "(page_ptr \<Rightarrow> u32) \<Rightarrow> dpl \<Rightarrow> pgno_t \<Rightarrow> u32 \<Rightarrow> (bool \<times> dpl) option" where
  "mdbx_dpl_intersect pages dl pgno npages = do {
     (n, dl) \<leftarrow> mdbx_dpl_search dl pgno;
     d \<leftarrow> rd (dl_items dl) (unat n);
     if pgno + npages > dp_pgno d then Some (True, dl)
     else do {
       e \<leftarrow> dpl_endpgno pages dl (n - 1);
       Some (e > pgno, dl)
     }
   }"

text \<open>The search used by the debug checks, without sorting.\<close>

fun find_backlog :: "dp list \<Rightarrow> nat \<Rightarrow> nat \<Rightarrow> pgno_t \<Rightarrow> page_ptr option option" where
  "find_backlog items srt 0 pgno = Some None"
| "find_backlog items srt (Suc i) pgno =
     (if Suc i > srt
      then do {
        d \<leftarrow> rd items (Suc i);
        if dp_pgno d = pgno then Some (Some (dp_ptr d)) else find_backlog items srt i pgno
      }
      else Some None)"

definition debug_dpl_find :: "dpl \<Rightarrow> pgno_t \<Rightarrow> page_ptr option option" where
  "debug_dpl_find dl pgno = do {
     found \<leftarrow> find_backlog (dl_items dl) (unat (dl_sorted dl)) (unat (dl_length dl)) pgno;
     (case found of
        Some p \<Rightarrow> Some (Some p)
      | None \<Rightarrow>
          (if dl_sorted dl \<noteq> 0
           then do {
             i \<leftarrow> bsearch dp_search_cmp (dl_items dl) 1 (unat (dl_sorted dl)) pgno;
             d \<leftarrow> rd (dl_items dl) i;
             Some (if dp_pgno d = pgno then Some (dp_ptr d) else None)
           }
           else Some None))
   }"

subsection \<open>Removing and appending\<close>

definition mdbx_dpl_remove :: "dpl \<Rightarrow> u32 \<Rightarrow> dpl option" where
  "mdbx_dpl_remove dl i = do {
     let dl = dl\<lparr>dl_sorted := dl_sorted dl - (if dl_sorted dl \<ge> i then 1 else 0)\<rparr>;
     let dl = dl\<lparr>dl_length := dl_length dl - 1\<rparr>;
     items \<leftarrow> move_items (dl_items dl) (unat i) (unat i + 1) (unat (dl_length dl - i + 2));
     Some (dl\<lparr>dl_items := items\<rparr>)
   }"

definition dpl_grow_size :: "u32 \<Rightarrow> u64" where
  "dpl_grow_size detent =
     (if ucast detent < MDBX_PNL_INITIAL * 42 then ucast (detent + detent) else ucast (detent + detent div 2))"

definition mdbx_dpl_append ::
    "dpl_allocator \<Rightarrow> dtxn \<Rightarrow> pgno_t \<Rightarrow> page_ptr \<Rightarrow> u32 \<Rightarrow> (mdbx_error \<times> dtxn) option" where
  "mdbx_dpl_append malloc txn pgno page npages = do {
     dl \<leftarrow> tw_dirtylist txn;
     let len = dl_length dl + 1;
     last \<leftarrow> rd (dl_items dl) (unat (dl_length dl));
     let sorted = (if dl_sorted dl = dl_length dl \<and> dp_pgno last < pgno then len else dl_sorted dl);
     let store = (\<lambda>dl txn. do {
       stub \<leftarrow> rd (dl_items dl) (unat len);
       items \<leftarrow> wr (dl_items dl) (unat (len + 1)) stub;
       items \<leftarrow> wr items (unat len)
          \<lparr>dp_ptr = page, dp_pgno = pgno, dp_multi = npages > 1, dp_lru = ucast (tw_dirtylru txn)\<rparr>;
       Some (MDBX_SUCCESS,
         txn\<lparr>tw_dirtylist := Some (dl\<lparr>dl_items := items, dl_length := len, dl_sorted := sorted\<rparr>),
             tw_dirtylru := tw_dirtylru txn + 1\<rparr>)
     });
     if dl_length dl = dl_detent dl
     then (if ucast (dl_detent dl) \<ge> MDBX_PGL_LIMIT then Some (MDBX_TXN_FULL, txn)
           else case mdbx_dpl_reserve malloc txn (dpl_grow_size (dl_detent dl)) of
                  (None, txn) \<Rightarrow> Some (MDBX_ENOMEM, txn)
                | (Some dl, txn) \<Rightarrow> store dl txn)
     else store dl txn
   }"

definition mdbx_dpl_age :: "dtxn \<Rightarrow> u32 \<Rightarrow> u32 option" where
  "mdbx_dpl_age txn i = do {
     dl \<leftarrow> tw_dirtylist txn;
     d \<leftarrow> rd (dl_items dl) (unat i);
     Some ((tw_dirtylru txn - ucast (dp_lru d)) AND 0x7fffffff)
   }"

subsection \<open>The ordering of entries\<close>

interpretation dp_order: strict_weak_cmp dp_sort_cmp
  by unfold_locales (auto simp: dp_sort_cmp_def)

definition increasing :: "dp list \<Rightarrow> bool" where
  "increasing ds \<longleftrightarrow> sorted_wrt dp_sort_cmp ds"

lemma increasing_append:
  "increasing (xs @ ys) \<longleftrightarrow> increasing xs \<and> increasing ys \<and> (\<forall>x \<in> set xs. \<forall>y \<in> set ys. dp_pgno x < dp_pgno y)"
  by (simp add: increasing_def sorted_wrt_append dp_sort_cmp_def)

lemma increasing_simps [simp]:
  "increasing []"
  "increasing (x # xs) \<longleftrightarrow> (\<forall>y \<in> set xs. dp_pgno x < dp_pgno y) \<and> increasing xs"
  by (simp_all add: increasing_def dp_sort_cmp_def)

lemma increasing_distinct: "increasing ds \<Longrightarrow> distinct (map dp_pgno ds)"
  by (induction ds) auto

lemma increasing_if_sorted:
  assumes "sorted_by dp_sort_cmp ds" "distinct (map dp_pgno ds)"
  shows "increasing ds"
  using assms by (induction ds) (fastforce simp: dp_order.sorted_by_Cons dp_sort_cmp_def not_less)+

lemma increasing_nth:
  "increasing ds \<Longrightarrow> i < j \<Longrightarrow> j < length ds \<Longrightarrow> dp_pgno (ds ! i) < dp_pgno (ds ! j)"
  by (simp add: increasing_def sorted_wrt_iff_nth_less dp_sort_cmp_def)

lemma seg_Cons: "lo + Suc n \<le> length xs \<Longrightarrow> seg lo (Suc n) xs = xs ! lo # seg (Suc lo) n xs"
  by (simp add: seg_def Cons_nth_drop_Suc [symmetric])

lemma seg_update_outside: "i < lo \<or> lo + n \<le> i \<Longrightarrow> seg lo n (xs[i := v]) = seg lo n xs"
  unfolding seg_def by (cases "i < length xs") (auto simp: drop_update_swap take_update_cancel)

subsection \<open>The merge from the ends\<close>

lemma dpl_merge_correct:
  assumes "l < w" "w \<le> n" "n + 1 < t" "t + (w - l) \<le> length items"
    and "\<forall>d \<in> set (seg t (w - l) items). 0 < dp_pgno d" "dp_pgno (items ! 0) = 0"
    and "increasing (seg 1 l items)" "increasing (seg t (w - l) items)" "increasing (seg (w + 1) (n - w) items)"
    and "\<forall>x \<in> set (seg 1 l items) \<union> set (seg t (w - l) items). \<forall>y \<in> set (seg (w + 1) (n - w) items). dp_pgno x < dp_pgno y"
    and "\<forall>x \<in> set (seg 1 l items). \<forall>y \<in> set (seg t (w - l) items). dp_pgno x \<noteq> dp_pgno y"
  shows "\<exists>items'. dpl_merge items w l (t + (w - l) - 1) = Some items' \<and> length items' = length items \<and>
     (\<forall>i. i = 0 \<or> n < i \<longrightarrow> items' ! i = items ! i) \<and> increasing (seg 1 n items') \<and>
     mset (seg 1 n items') = mset (seg 1 l items) + mset (seg t (w - l) items) + mset (seg (w + 1) (n - w) items)"
  using assms
proof (induction w arbitrary: l items)
  case 0
  then show ?case by simp
next
  case (Suc w)
  define k where "k = w - l"
  have k: "Suc w - l = Suc k" "w = l + k" using Suc.prems(1) by (simp_all add: k_def)
  have len: "Suc w < length items" "t + k < length items" "l < length items" "n + 1 < length items"
    using Suc.prems(1-4) k by linarith+
  define lx where "lx = items ! l"
  define rx where "rx = items ! (t + k)"
  let ?T = "seg t k items" and ?H = "seg (Suc w + 1) (n - Suc w) items"
  have T: "seg t (Suc k) items = ?T @ [rx]" unfolding rx_def using len by (intro seg_snoc) simp
  have r: "t + (Suc w - l) - 1 = t + k" using k by simp
  have tlx: "l = 0 \<Longrightarrow> \<not> dp_pgno lx > dp_pgno rx" using Suc.prems(6) by (simp add: lx_def)
  show ?case
  proof (cases "dp_pgno lx > dp_pgno rx")
    case True
    then obtain l' where l': "l = Suc l'" using tlx by (cases l) auto
    let ?it = "items[Suc w := lx]"
    have keep: "i = 0 \<or> n < i \<Longrightarrow> ?it ! i = items ! i" for i using Suc.prems(2) by auto
    have S: "seg 1 l items = seg 1 l' items @ [lx]"
      unfolding lx_def l' using seg_snoc [of 1 l' items] len l' by (simp add: plus_1_eq_Suc)
    have run: "dpl_merge items (Suc w) l (t + k) = (if w > l' then dpl_merge ?it w l' (t + k) else Some ?it)"
      using True len l' by (subst dpl_merge.simps) (simp add: rd_in wr_in lx_def rx_def)
    have w: "l' < w" using k l' by simp
    have segs: "seg 1 l' ?it = seg 1 l' items" "seg t (w - l') ?it = seg t (Suc k) items"
      "seg (w + 1) (n - w) ?it = lx # ?H"
    proof -
      show "seg 1 l' ?it = seg 1 l' items" using w by (intro seg_update_outside) simp
      have "w - l' = Suc k" using k l' by simp
      then show "seg t (w - l') ?it = seg t (Suc k) items" using Suc.prems(2,3) by (simp add: seg_update_outside)
      have "n - w = Suc (n - Suc w)" using Suc.prems(2) by simp
      then have "seg (w + 1) (n - w) ?it = ?it ! Suc w # seg (Suc (Suc w)) (n - Suc w) ?it"
        using len Suc.prems(2) by (simp add: seg_Cons)
      then show "seg (w + 1) (n - w) ?it = lx # ?H" using len by (simp add: seg_update_outside)
    qed
    have big: "\<forall>x \<in> set (seg t (Suc k) items). dp_pgno x < dp_pgno lx"
      using Suc.prems(8) True unfolding k(1) T increasing_append by (auto intro: less_trans)
    have "\<exists>items'. dpl_merge ?it w l' (t + (w - l') - 1) = Some items' \<and> length items' = length ?it \<and>
       (\<forall>i. i = 0 \<or> n < i \<longrightarrow> items' ! i = ?it ! i) \<and> increasing (seg 1 n items') \<and>
       mset (seg 1 n items') = mset (seg 1 l' ?it) + mset (seg t (w - l') ?it) + mset (seg (w + 1) (n - w) ?it)"
    proof (rule Suc.IH)
      note inc = Suc.prems(7) [unfolded S increasing_append] and T' = Suc.prems(5,8,10,11) [unfolded k(1)]
      show "l' < w" "w \<le> n" "n + 1 < t" using w Suc.prems(2,3) by simp_all
      show "t + (w - l') \<le> length ?it" "dp_pgno (?it ! 0) = 0" using len l' k(2) Suc.prems(6) by simp_all
      show "\<forall>d \<in> set (seg t (w - l') ?it). 0 < dp_pgno d" unfolding segs by (rule T'(1))
      show "increasing (seg 1 l' ?it)" unfolding segs using inc by blast
      show "increasing (seg t (w - l') ?it)" unfolding segs by (rule T'(2))
      show "increasing (seg (w + 1) (n - w) ?it)" using Suc.prems(9,10) unfolding segs S by auto
      show "\<forall>x \<in> set (seg 1 l' ?it) \<union> set (seg t (w - l') ?it). \<forall>y \<in> set (seg (w + 1) (n - w) ?it). dp_pgno x < dp_pgno y"
        using inc T'(3) big unfolding segs S by auto
      show "\<forall>x \<in> set (seg 1 l' ?it). \<forall>y \<in> set (seg t (w - l') ?it). dp_pgno x \<noteq> dp_pgno y"
        using T'(4) unfolding segs S by auto
    qed
    then obtain items' where "dpl_merge ?it w l' (t + (w - l') - 1) = Some items'" "length items' = length ?it"
      "\<forall>i. i = 0 \<or> n < i \<longrightarrow> items' ! i = ?it ! i" "increasing (seg 1 n items')"
      "mset (seg 1 n items') = mset (seg 1 l' ?it) + mset (seg t (w - l') ?it) + mset (seg (w + 1) (n - w) ?it)"
      by (elim exE conjE)
    moreover have "t + (w - l') - 1 = t + k" using k l' by simp
    ultimately have IH: "dpl_merge ?it w l' (t + k) = Some items'" "length items' = length items"
      "\<forall>i. i = 0 \<or> n < i \<longrightarrow> items' ! i = ?it ! i" "increasing (seg 1 n items')"
      "mset (seg 1 n items') = mset (seg 1 l' items) + mset (seg t (Suc k) items) + mset (lx # ?H)"
      unfolding segs by (simp_all only: length_list_update)
    have "dpl_merge items (Suc w) l (t + k) = Some items'" using run w IH(1) by simp
    moreover have "mset (seg 1 n items') = mset (seg 1 l items) + mset (seg t (Suc k) items) + mset ?H"
      unfolding IH(5) S by simp
    moreover have "\<forall>i. i = 0 \<or> n < i \<longrightarrow> items' ! i = items ! i"
      using IH(3) keep by simp
    ultimately show ?thesis using IH(2,4) unfolding r unfolding k(1) by (intro exI conjI)
  next
    case False
    let ?it = "items[Suc w := rx]"
    have keep: "i = 0 \<or> n < i \<Longrightarrow> ?it ! i = items ! i" for i using Suc.prems(2) by auto
    have run: "dpl_merge items (Suc w) l (t + k) = (if w > l then dpl_merge ?it w l (t + k - 1) else Some ?it)"
      using False len by (subst dpl_merge.simps) (simp add: rd_in wr_in lx_def rx_def)
    have segs: "seg 1 l ?it = seg 1 l items" "seg t (w - l) ?it = ?T" "seg (w + 1) (n - w) ?it = rx # ?H"
    proof -
      show "seg 1 l ?it = seg 1 l items" using Suc.prems(1) by (intro seg_update_outside) simp
      show "seg t (w - l) ?it = ?T" using Suc.prems(2,3) k by (simp add: seg_update_outside)
      have "n - w = Suc (n - Suc w)" using Suc.prems(2) by simp
      then have "seg (w + 1) (n - w) ?it = ?it ! Suc w # seg (Suc (Suc w)) (n - Suc w) ?it"
        using len Suc.prems(2) by (simp add: seg_Cons)
      then show "seg (w + 1) (n - w) ?it = rx # ?H" using len by (simp add: seg_update_outside)
    qed
    have big: "\<forall>x \<in> set (seg 1 l items). dp_pgno x < dp_pgno rx"
    proof (cases l)
      case (Suc l')
      have S: "seg 1 l items = seg 1 l' items @ [lx]"
        unfolding lx_def Suc using seg_snoc [of 1 l' items] len Suc by (simp add: plus_1_eq_Suc)
      have "dp_pgno lx < dp_pgno rx"
        using False Suc.prems(11) unfolding k(1) T S by (auto simp: not_less order_le_less)
      then show ?thesis using Suc.prems(7) unfolding S increasing_append by (auto intro: less_trans)
    qed (simp add: seg_def)
    have inc: "increasing (rx # ?H)" using Suc.prems(9,10) unfolding k(1) T by auto
    show ?thesis
    proof (cases "w > l")
      case True
      have "\<exists>items'. dpl_merge ?it w l (t + (w - l) - 1) = Some items' \<and> length items' = length ?it \<and>
         (\<forall>i. i = 0 \<or> n < i \<longrightarrow> items' ! i = ?it ! i) \<and> increasing (seg 1 n items') \<and>
         mset (seg 1 n items') = mset (seg 1 l ?it) + mset (seg t (w - l) ?it) + mset (seg (w + 1) (n - w) ?it)"
      proof (rule Suc.IH)
        note T' = Suc.prems(5,8,10,11) [unfolded k(1) T]
        show "l < w" "w \<le> n" "n + 1 < t" using True Suc.prems(2,3) by simp_all
        show "t + (w - l) \<le> length ?it" "dp_pgno (?it ! 0) = 0" using len k(2) Suc.prems(6) by simp_all
        show "\<forall>d \<in> set (seg t (w - l) ?it). 0 < dp_pgno d" unfolding segs using T'(1) by simp
        show "increasing (seg 1 l ?it)" unfolding segs by (rule Suc.prems(7))
        show "increasing (seg t (w - l) ?it)" unfolding segs using T'(2) increasing_append by blast
        show "increasing (seg (w + 1) (n - w) ?it)" unfolding segs by (rule inc)
        show "\<forall>x \<in> set (seg 1 l ?it) \<union> set (seg t (w - l) ?it). \<forall>y \<in> set (seg (w + 1) (n - w) ?it). dp_pgno x < dp_pgno y"
          using T'(2,3) big unfolding segs increasing_append by auto
        show "\<forall>x \<in> set (seg 1 l ?it). \<forall>y \<in> set (seg t (w - l) ?it). dp_pgno x \<noteq> dp_pgno y"
          using T'(4) unfolding segs by simp
      qed
      then obtain items' where "dpl_merge ?it w l (t + (w - l) - 1) = Some items'" "length items' = length ?it"
        "\<forall>i. i = 0 \<or> n < i \<longrightarrow> items' ! i = ?it ! i" "increasing (seg 1 n items')"
        "mset (seg 1 n items') = mset (seg 1 l ?it) + mset (seg t (w - l) ?it) + mset (seg (w + 1) (n - w) ?it)"
        by (elim exE conjE)
      moreover have "t + (w - l) - 1 = t + k - 1" using k by simp
      ultimately have IH: "dpl_merge ?it w l (t + k - 1) = Some items'" "length items' = length items"
        "\<forall>i. i = 0 \<or> n < i \<longrightarrow> items' ! i = ?it ! i" "increasing (seg 1 n items')"
        "mset (seg 1 n items') = mset (seg 1 l items) + mset ?T + mset (rx # ?H)"
        unfolding segs by (simp_all only: length_list_update)
      have "dpl_merge items (Suc w) l (t + k) = Some items'" using run True IH(1) by simp
      moreover have "mset (seg 1 n items') = mset (seg 1 l items) + mset (?T @ [rx]) + mset ?H"
        unfolding IH(5) by simp
      moreover have "\<forall>i. i = 0 \<or> n < i \<longrightarrow> items' ! i = items ! i"
      using IH(3) keep by simp
      ultimately show ?thesis using IH(2,4) unfolding r unfolding k(1) T by (intro exI conjI)
    next
      case False
      then have "l = w" "k = 0" using k by auto
      then have T0: "?T = []" by (simp add: seg_def)
      have "seg 1 n ?it = seg 1 w ?it @ seg (w + 1) (n - w) ?it"
        using seg_add [of 1 w "n - w" ?it] Suc.prems(2) len by simp
      then have all: "seg 1 n ?it = seg 1 l items @ rx # ?H" using segs \<open>l = w\<close> by simp
      have "increasing (seg 1 n ?it)"
        unfolding all increasing_append using Suc.prems(7,10) inc big by auto
      moreover have "dpl_merge items (Suc w) l (t + k) = Some ?it" using run False by simp
      moreover have "mset (seg 1 n ?it) = mset (seg 1 l items) + mset (?T @ [rx]) + mset ?H"
        unfolding all T0 by simp
      moreover have "\<forall>i. i = 0 \<or> n < i \<longrightarrow> ?it ! i = items ! i" using Suc.prems(2) by auto
      ultimately show ?thesis unfolding r unfolding k(1) T by fastforce
    qed
  qed
qed

subsection \<open>The three ways to sort\<close>

definition sorts_items :: "dp list \<Rightarrow> nat \<Rightarrow> dp list \<Rightarrow> bool" where
  "sorts_items items len items' \<longleftrightarrow>
     length items' = length items \<and> items' ! 0 = items ! 0 \<and> items' ! (len + 1) = items ! (len + 1) \<and>
     increasing (seg 1 len items') \<and> mset (seg 1 len items') = mset (seg 1 len items)"

lemma seg_spliced:
  assumes "lo + length ys \<le> length xs"
  shows "seg lo (length ys) (take lo xs @ ys @ drop (lo + length ys) xs) = ys"
  using assms by (simp add: seg_def)

lemma nth_spliced:
  "lo + length ys \<le> length xs \<Longrightarrow> i < lo \<or> lo + length ys \<le> i \<Longrightarrow>
   (take lo xs @ ys @ drop (lo + length ys) xs) ! i = xs ! i"
  by (auto simp: nth_append)

lemma length_spliced:
  "lo + length ys \<le> length xs \<Longrightarrow> length (take lo xs @ ys @ drop (lo + length ys) xs) = length xs"
  by simp

lemma seg_eqI:
  "lo + n \<le> length xs \<Longrightarrow> lo + n \<le> length ys \<Longrightarrow> (\<And>i. lo \<le> i \<Longrightarrow> i < lo + n \<Longrightarrow> xs ! i = ys ! i) \<Longrightarrow> seg lo n xs = seg lo n ys"
  by (rule seg_cong)

lemma mset_pgnos_distinct: "mset ys = mset xs \<Longrightarrow> distinct (map dp_pgno ys) = distinct (map dp_pgno xs)"
  by (metis mset_map mset_eq_imp_distinct_iff)

lemma qs_sort_whole:
  assumes "len + 2 \<le> length items" "len < 2 ^ 32" "distinct (map dp_pgno (seg 1 len items))"
  shows "\<exists>items'. qs_sort dp_sort_cmp 1 (len + 1) items = Some items' \<and> sorts_items items len items'"
proof -
  obtain ys where ys: "qs_sort dp_sort_cmp 1 (len + 1) items = Some (take 1 items @ ys @ drop (len + 1) items)"
    "mset ys = mset (seg 1 len items)" "sorted_by dp_sort_cmp ys"
    using dp_order.qs_sort_correct [of 1 "len + 1" items] assms by auto
  have len: "length ys = len" using mset_eq_length [OF ys(2)] assms(1) by simp
  have inc: "increasing ys"
    using increasing_if_sorted [OF ys(3)] mset_pgnos_distinct [OF ys(2)] assms(3) by simp
  let ?r = "take 1 items @ ys @ drop (1 + length ys) items"
  have fits: "1 + length ys \<le> length items" using len assms(1) by simp
  have "sorts_items items len ?r"
    unfolding sorts_items_def
    using length_spliced [OF fits] nth_spliced [OF fits, of 0] nth_spliced [OF fits, of "len + 1"]
      seg_spliced [OF fits] inc ys(2) len by simp
  then show ?thesis using ys(1) len by (metis add.commute)
qed

lemma dpl_merge_sort_sorts:
  assumes "2 * len + 2 \<le> length items" "0 < srt" "srt < len" "len < 2 ^ 32"
    and "distinct (map dp_pgno (seg 1 len items))" "\<forall>d \<in> set (seg 1 len items). 0 < dp_pgno d"
    and "dp_pgno (items ! 0) = 0" "increasing (seg 1 srt items)"
  shows "\<exists>items'. dpl_merge_sort items len srt = Some items' \<and> sorts_items items len items'"
proof -
  define u where "u = len - srt"
  define t where "t = len + srt + 1"
  have u: "0 < u" "len = srt + u" "len + len + 1 - u = t" "t + u = len + len + 1" "len + 1 < t"
    using assms(2,3) by (simp_all add: u_def t_def)
  have all: "seg 1 len items = seg 1 srt items @ seg (1 + srt) u items"
    using seg_add [of 1 srt u items] assms(1) u by simp
  let ?U = "seg (srt + 1) u items"
  define it1 where "it1 = take t items @ ?U @ drop (t + u) items"
  have lenU: "length ?U = u" using assms(1) u by simp
  have move: "move_items items t (srt + 1) u = Some it1"
    using assms(1) u by (simp add: move_items_def it1_def)
  have fits1: "t + length ?U \<le> length items" using lenU assms(1) u by simp
  have it1: "length it1 = length items" "\<And>i. i < t \<or> t + u \<le> i \<Longrightarrow> it1 ! i = items ! i" "seg t u it1 = ?U"
    using length_spliced [OF fits1] nth_spliced [OF fits1] seg_spliced [OF fits1] lenU by (simp_all add: it1_def)
  obtain ys where ys: "qs_sort dp_sort_cmp t (t + u) it1 = Some (take t it1 @ ys @ drop (t + u) it1)"
    "mset ys = mset ?U" "sorted_by dp_sort_cmp ys"
    using dp_order.qs_sort_correct [of t "t + u" it1] it1 assms(1,4) u by auto
  have lenY: "length ys = u" using mset_eq_length [OF ys(2)] lenU by simp
  have dU: "distinct (map dp_pgno ?U)" using assms(5) unfolding all by (simp add: add.commute)
  have incY: "increasing ys" using increasing_if_sorted [OF ys(3)] mset_pgnos_distinct [OF ys(2)] dU by simp
  define it2 where "it2 = take t it1 @ ys @ drop (t + u) it1"
  have fits2: "t + length ys \<le> length it1" using lenY it1(1) assms(1) u by simp
  have it2: "length it2 = length items" "\<And>i. i < t \<or> t + u \<le> i \<Longrightarrow> it2 ! i = items ! i" "seg t u it2 = ys"
    using length_spliced [OF fits2] nth_spliced [OF fits2] seg_spliced [OF fits2] lenY it1(1,2)
    by (simp_all add: it2_def)
  have S: "seg 1 srt it2 = seg 1 srt items"
    using it2 u assms(1) by (intro seg_eqI) auto
  have setY: "set ys = set ?U" by (rule mset_eq_setD [OF ys(2)])
  have pre: "len - srt = u" using u by simp
  have p: "srt < len" "len \<le> len" "len + 1 < t" "t + (len - srt) \<le> length it2"
    using assms(1,3) it2(1) u by simp_all
  have pos: "\<forall>d \<in> set (seg t (len - srt) it2). 0 < dp_pgno d"
    using assms(6) unfolding pre it2(3) setY all by (simp add: add.commute)
  have stub: "dp_pgno (it2 ! 0) = 0" using it2(2) [of 0] u assms(7) by simp
  have incs: "increasing (seg 1 srt it2)" "increasing (seg t (len - srt) it2)" "increasing (seg (len + 1) (len - len) it2)"
    unfolding S pre it2(3) using assms(8) incY by (simp_all add: seg_def)
  have above: "\<forall>x \<in> set (seg 1 srt it2) \<union> set (seg t (len - srt) it2).
      \<forall>y \<in> set (seg (len + 1) (len - len) it2). dp_pgno x < dp_pgno y" by (simp add: seg_def)
  have apart: "\<forall>x \<in> set (seg 1 srt it2). \<forall>y \<in> set (seg t (len - srt) it2). dp_pgno x \<noteq> dp_pgno y"
    using assms(5) unfolding pre it2(3) setY S all by (fastforce simp: add.commute)
  from dpl_merge_correct [OF p pos stub incs above apart]
  obtain it3 where it3: "dpl_merge it2 len srt (t + (len - srt) - 1) = Some it3" "length it3 = length it2"
    "\<forall>i. i = 0 \<or> len < i \<longrightarrow> it3 ! i = it2 ! i" "increasing (seg 1 len it3)"
    "mset (seg 1 len it3) = mset (seg 1 srt it2) + mset (seg t (len - srt) it2) + mset (seg (len + 1) (len - len) it2)"
    by (elim exE conjE)
  have ri: "t + (len - srt) - 1 = len + len" using u pre by simp
  have "dpl_merge_sort items len srt = Some it3"
    by (simp only: dpl_merge_sort_def Let_def pre u(3) move bind.simps ys(1) it2_def [symmetric]
        diff_add_inverse2 it3(1) [unfolded ri])
  moreover have "sorts_items items len it3"
    unfolding sorts_items_def
  proof (intro conjI)
    show "mset (seg 1 len it3) = mset (seg 1 len items)"
      unfolding it3(5) S pre it2(3) ys(2) all by (simp add: seg_def add.commute)
  qed (use it3 it2 u in auto)
  ultimately show ?thesis by blast
qed

lemma dpl_radixsort_sorts:
  assumes "2 * len + 2 \<le> length items" "0 < len" "distinct (map dp_pgno (seg 1 len items))"
  shows "\<exists>items'. dpl_radixsort items 1 len = Some (True, items') \<and> sorts_items items len items'"
proof -
  let ?xs = "seg 1 len items" and ?tmp = "seg (1 + len + 1) len items"
  have l: "length ?xs = len" "length ?tmp = len" using assms(1) by simp_all
  then have "?xs \<noteq> []" using assms(2) by auto
  then obtain tmp' where r: "radixsort dp_pgno ?xs (Some ?tmp) = Some (True, sort_key dp_pgno ?xs, tmp')"
    "length tmp' = length ?tmp"
    using radixsort_correct [of ?xs ?tmp dp_pgno] l by auto
  let ?ys = "sort_key dp_pgno ?xs"
  let ?r = "take 1 items @ ?ys @ [items ! (1 + len)] @ tmp' @ drop (1 + len + 1 + len) items"
  have run: "dpl_radixsort items 1 len = Some (True, ?r)" using assms(1) r(1) by (simp add: dpl_radixsort_def)
  have "sorted (map dp_pgno ?ys)" by simp
  then have "sorted_by dp_sort_cmp ?ys"
    unfolding sorted_by_def sorted_wrt_map dp_sort_cmp_def by (simp add: not_less)
  then have inc: "increasing ?ys"
    using increasing_if_sorted mset_pgnos_distinct [of ?ys ?xs] assms(3) by simp
  have "sorts_items items len ?r"
    unfolding sorts_items_def
  proof (intro conjI)
    show "length ?r = length items" using assms(1) l r(2) by simp
    show "?r ! 0 = items ! 0" using assms(1) by (simp add: nth_append)
    show "?r ! (len + 1) = items ! (len + 1)" using assms(1) l by (simp add: nth_append)
    have "seg 1 len ?r = ?ys" using assms(1) l by (simp add: seg_def)
    then show "increasing (seg 1 len ?r)" "mset (seg 1 len ?r) = mset ?xs" using inc by simp_all
  qed
  then show ?thesis using run by blast
qed

subsection \<open>The invariant\<close>

definition dpl_entries :: "dpl \<Rightarrow> dp list" where
  "dpl_entries dl = seg 1 (unat (dl_length dl)) (dl_items dl)"

definition dpl_wf :: "dpl \<Rightarrow> bool" where
  "dpl_wf dl \<longleftrightarrow>
     unat (dl_sorted dl) \<le> unat (dl_length dl) \<and> unat (dl_length dl) \<le> unat (dl_detent dl) \<and>
     unat (dl_detent dl) < 2 ^ 31 \<and> 2 * unat (dl_detent dl) + 18 \<le> length (dl_items dl) \<and>
     dl_items dl ! 0 = dpl_stubB \<and> dl_items dl ! (unat (dl_length dl) + 1) = dpl_stubE \<and>
     increasing (seg 1 (unat (dl_sorted dl)) (dl_items dl)) \<and> distinct (map dp_pgno (dpl_entries dl)) \<and>
     (\<forall>d \<in> set (dpl_entries dl). MIN_PAGENO \<le> dp_pgno d \<and> dp_pgno d \<le> MAX_PAGENO)"

text \<open>What the list stands for: a finite map from page numbers to pages.\<close>

definition dpl_view :: "dpl \<Rightarrow> pgno_t \<Rightarrow> (page_ptr \<times> bool) option" where
  "dpl_view dl = map_of (map (\<lambda>d. (dp_pgno d, dp_ptr d, dp_multi d)) (dpl_entries dl))"

lemma dpl_wfD:
  assumes "dpl_wf dl"
  shows "unat (dl_sorted dl) \<le> unat (dl_length dl)" "2 * unat (dl_length dl) + 18 \<le> length (dl_items dl)"
    "unat (dl_length dl) < 2 ^ 31" "dl_items dl ! 0 = dpl_stubB"
    "dl_items dl ! (unat (dl_length dl) + 1) = dpl_stubE" "increasing (seg 1 (unat (dl_sorted dl)) (dl_items dl))"
    "distinct (map dp_pgno (dpl_entries dl))"
    "\<And>d. d \<in> set (dpl_entries dl) \<Longrightarrow> MIN_PAGENO \<le> dp_pgno d \<and> dp_pgno d \<le> MAX_PAGENO"
  using assms by (auto simp: dpl_wf_def)

lemma length_dpl_entries [simp]: "dpl_wf dl \<Longrightarrow> length (dpl_entries dl) = unat (dl_length dl)"
  using dpl_wfD(2) [of dl] by (simp add: dpl_entries_def)

lemma dpl_entries_nth:
  "dpl_wf dl \<Longrightarrow> i < unat (dl_length dl) \<Longrightarrow> dpl_entries dl ! i = dl_items dl ! (i + 1)"
  using dpl_wfD(2) [of dl] by (simp add: dpl_entries_def)

lemma dpl_entry_in:
  assumes "dpl_wf dl" "1 \<le> i" "i \<le> unat (dl_length dl)"
  shows "dl_items dl ! i \<in> set (dpl_entries dl)"
  using dpl_entries_nth [OF assms(1), of "i - 1"] assms nth_mem [of "i - 1" "dpl_entries dl"] by simp

lemma dpl_view_Some_iff:
  assumes "dpl_wf dl"
  shows "dpl_view dl p = Some v \<longleftrightarrow> (\<exists>d \<in> set (dpl_entries dl). dp_pgno d = p \<and> v = (dp_ptr d, dp_multi d))"
proof -
  have "distinct (map fst (map (\<lambda>d. (dp_pgno d, dp_ptr d, dp_multi d)) (dpl_entries dl)))"
    using dpl_wfD(7) [OF assms] by (simp add: o_def)
  then show ?thesis unfolding dpl_view_def map_of_eq_Some_iff by auto
qed

lemma dpl_view_None_iff:
  "dpl_view dl p = None \<longleftrightarrow> p \<notin> dp_pgno ` set (dpl_entries dl)"
  by (auto simp: dpl_view_def map_of_eq_None_iff image_image)

lemma dpl_view_cong:
  assumes "dpl_wf dl" "dpl_wf dl'" "set (dpl_entries dl') = set (dpl_entries dl)"
  shows "dpl_view dl' = dpl_view dl"
proof
  fix p
  have "dpl_view dl' p = Some v \<longleftrightarrow> dpl_view dl p = Some v" for v
    using assms by (simp add: dpl_view_Some_iff)
  then show "dpl_view dl' p = dpl_view dl p" by (metis not_Some_eq)
qed

subsection \<open>Sorting keeps the entries\<close>

text \<open>The list after reordering: the same entries, all sorted.\<close>

definition dpl_resorted :: "dpl \<Rightarrow> dpl \<Rightarrow> bool" where
  "dpl_resorted dl dl' \<longleftrightarrow>
     dpl_wf dl' \<and> dl_sorted dl' = dl_length dl \<and> dl_length dl' = dl_length dl \<and> dl_detent dl' = dl_detent dl \<and>
     mset (dpl_entries dl') = mset (dpl_entries dl)"

lemma sorts_items_resorted:
  assumes "dpl_wf dl" "sorts_items (dl_items dl) (unat (dl_length dl)) items'"
  shows "dpl_resorted dl (dl\<lparr>dl_sorted := dl_length dl, dl_items := items'\<rparr>)"
proof -
  let ?dl = "dl\<lparr>dl_sorted := dl_length dl, dl_items := items'\<rparr>"
  have e: "dpl_entries ?dl = seg 1 (unat (dl_length dl)) items'" by (simp add: dpl_entries_def)
  have m: "mset (dpl_entries ?dl) = mset (dpl_entries dl)"
    using assms(2) unfolding e sorts_items_def by (simp add: dpl_entries_def)
  have s: "set (dpl_entries ?dl) = set (dpl_entries dl)" by (rule mset_eq_setD [OF m])
  have "dpl_wf ?dl"
    unfolding dpl_wf_def s
    using assms(1) assms(2) [unfolded sorts_items_def] increasing_distinct [of "dpl_entries ?dl"]
    unfolding dpl_wf_def e by simp
  then show ?thesis using m by (simp add: dpl_resorted_def)
qed

lemma dpl_sort_slowpath_correct:
  assumes "dpl_wf dl" "dl_sorted dl \<noteq> dl_length dl"
  shows "\<exists>dl'. mdbx_dpl_sort_slowpath dl = Some dl' \<and> dpl_resorted dl dl'"
proof -
  note wf = dpl_wfD [OF assms(1)]
  define len where "len = unat (dl_length dl)"
  have lt: "unat (dl_sorted dl) < len"
    using wf(1) assms(2) by (auto simp: len_def order_le_less word_unat_eq_iff)
  have room: "2 * len + 2 \<le> length (dl_items dl)" "len + 2 \<le> length (dl_items dl)" "len < 2 ^ 32" "0 < len"
    using wf(2,3) lt by (simp_all add: len_def)
  have dist: "distinct (map dp_pgno (seg 1 len (dl_items dl)))"
    using wf(7) by (simp add: dpl_entries_def len_def)
  have pos: "\<forall>d \<in> set (seg 1 len (dl_items dl)). 0 < dp_pgno d"
  proof
    fix d assume "d \<in> set (seg 1 len (dl_items dl))"
    then have "MIN_PAGENO \<le> dp_pgno d" using wf(8) by (simp add: dpl_entries_def len_def)
    then show "0 < dp_pgno d" by (simp add: MIN_PAGENO_def word_le_nat_alt word_less_nat_alt)
  qed
  have b: "dp_pgno (dl_items dl ! 0) = 0" using wf(4) by (simp add: dpl_stubB_def)
  have "\<exists>items'. mdbx_dpl_sort_slowpath dl = Some (dl\<lparr>dl_sorted := dl_length dl, dl_items := items'\<rparr>) \<and>
      sorts_items (dl_items dl) len items'"
  proof (cases "dl_length dl - dl_sorted dl < MDBX_RADIXSORT_THRESHOLD")
    case False
    then show ?thesis
      using dpl_radixsort_sorts [OF room(1,4) dist] by (auto simp: mdbx_dpl_sort_slowpath_def len_def)
  next
    case True
    show ?thesis
    proof (cases "dl_sorted dl > (dl_length dl - dl_sorted dl) div 4 + 4")
      case False
      then show ?thesis
        using True qs_sort_whole [OF room(2,3) dist] by (auto simp: mdbx_dpl_sort_slowpath_def len_def)
    next
      case gt: True
      then have "0 < unat (dl_sorted dl)" by (auto simp: word_less_nat_alt)
      then show ?thesis
        using True gt dpl_merge_sort_sorts [OF room(1) _ lt room(3) dist pos b wf(6)]
        by (auto simp: mdbx_dpl_sort_slowpath_def len_def)
    qed
  qed
  then show ?thesis using sorts_items_resorted [OF assms(1)] unfolding len_def by blast
qed

lemma dpl_resorted_refl: "dpl_wf dl \<Longrightarrow> dl_sorted dl = dl_length dl \<Longrightarrow> dpl_resorted dl dl"
  by (simp add: dpl_resorted_def)

lemma mdbx_dpl_sort_correct:
  assumes "dpl_wf dl"
  shows "\<exists>dl'. mdbx_dpl_sort dl = Some dl' \<and> dpl_resorted dl dl'"
proof (cases "dl_sorted dl = dl_length dl")
  case True
  then show ?thesis using dpl_resorted_refl [OF assms] by (simp add: mdbx_dpl_sort_def)
next
  case False
  then show ?thesis using dpl_sort_slowpath_correct [OF assms] by (simp add: mdbx_dpl_sort_def)
qed

subsection \<open>Searching finds the entry\<close>

lemma linear_search_correct:
  assumes "n \<le> len" "len < length items"
  shows "\<exists>r. linear_search items len pgno n = Some r \<and>
    (r = None \<longrightarrow> (\<forall>i. len - n < i \<and> i \<le> len \<longrightarrow> dp_pgno (items ! i) \<noteq> pgno)) \<and>
    (\<forall>i. r = Some i \<longrightarrow> len - n < i \<and> i \<le> len \<and> dp_pgno (items ! i) = pgno)"
  using assms
proof (induction n)
  case 0
  then show ?case by auto
next
  case (Suc n)
  define j where "j = len - Suc n + 1"
  have j: "j < length items" "rd items j = Some (items ! j)" "len - Suc n < j" "j \<le> len" "j = len - n"
    using Suc.prems by (simp_all add: j_def rd_in)
  show ?case
  proof (cases "dp_pgno (items ! j) = pgno")
    case True
    then show ?thesis unfolding linear_search.simps j_def [symmetric] using j by simp
  next
    case False
    obtain r where r: "linear_search items len pgno n = Some r"
      "r = None \<longrightarrow> (\<forall>i. len - n < i \<and> i \<le> len \<longrightarrow> dp_pgno (items ! i) \<noteq> pgno)"
      "\<forall>i. r = Some i \<longrightarrow> len - n < i \<and> i \<le> len \<and> dp_pgno (items ! i) = pgno"
      using Suc by auto
    have "dp_pgno (items ! i) \<noteq> pgno" if "r = None" "len - Suc n < i" "i \<le> len" for i
      using r(2) that False j(5) by (cases "i = j") auto
    moreover have "len - Suc n < i" if "len - n < i" for i using that by simp
    ultimately show ?thesis unfolding linear_search.simps j_def [symmetric] using False j(2) r by auto
  qed
qed

lemma sorted_part_search:
  assumes "dpl_wf dl"
  obtains r where "bsearch dp_search_cmp (dl_items dl) 1 (unat (dl_sorted dl)) p = Some r"
    "partition_point dp_search_cmp (dl_items dl) 1 (unat (dl_sorted dl)) p r"
    "\<And>j. 1 \<le> j \<Longrightarrow> j \<le> unat (dl_sorted dl) \<Longrightarrow> dp_pgno (dl_items dl ! j) = p \<Longrightarrow> r = j"
proof -
  note wf = dpl_wfD [OF assms]
  define s where "s = unat (dl_sorted dl)"
  have room: "1 + s \<le> length (dl_items dl)" using wf(1,2) by (simp add: s_def)
  have less: "dp_pgno (dl_items dl ! i) < dp_pgno (dl_items dl ! j)" if "1 \<le> i" "i < j" "j \<le> s" for i j
    using increasing_nth [OF wf(6), of "i - 1" "j - 1"] that room by (simp add: s_def)
  have part: "partitioned dp_search_cmp (dl_items dl) 1 s p"
    unfolding partitioned_def dp_search_cmp_def
  proof (intro allI impI)
    fix i j assume ij: "1 \<le> i" "i < j" "j < 1 + s" "dp_pgno (dl_items dl ! j) < p"
    from ij(3) have "j \<le> s" by simp
    show "dp_pgno (dl_items dl ! i) < p" by (rule less_trans [OF less [OF ij(1,2) \<open>j \<le> s\<close>] ij(4)])
  qed
  obtain r where r: "bsearch dp_search_cmp (dl_items dl) 1 s p = Some r"
    "partition_point dp_search_cmp (dl_items dl) 1 s p r"
    by (rule bsearch_correct [OF part room])
  have "r = j" if "1 \<le> j" "j \<le> s" "dp_pgno (dl_items dl ! j) = p" for j
  proof (rule ccontr)
    assume "r \<noteq> j"
    then consider "j < r" | "r < j" by linarith
    then show False
    proof cases
      case 1
      then show False using r(2) that by (auto simp: partition_point_def dp_search_cmp_def)
    next
      case 2
      then have "dp_pgno (dl_items dl ! r) < p" using less [of r j] r(2) that by (auto simp: partition_point_def)
      then show False using r(2) 2 that by (auto simp: partition_point_def dp_search_cmp_def)
    qed
  qed
  then show ?thesis using that r by (simp add: s_def)
qed

lemma dpl_entry_index:
  assumes "dpl_wf dl" "p \<in> dp_pgno ` set (dpl_entries dl)"
  obtains j where "1 \<le> j" "j \<le> unat (dl_length dl)" "dp_pgno (dl_items dl ! j) = p"
proof -
  obtain k where "k < unat (dl_length dl)" "dp_pgno (dpl_entries dl ! k) = p"
    using assms(2) length_dpl_entries [OF assms(1)] by (auto simp: in_set_conv_nth)
  then show ?thesis using that [of "k + 1"] dpl_entries_nth [OF assms(1)] by simp
qed

text \<open>The list may have been sorted on the way.\<close>

definition dpl_same :: "dpl \<Rightarrow> dpl \<Rightarrow> bool" where
  "dpl_same dl dl' \<longleftrightarrow>
     dpl_wf dl' \<and> dl_length dl' = dl_length dl \<and> dl_detent dl' = dl_detent dl \<and>
     mset (dpl_entries dl') = mset (dpl_entries dl)"

lemma dpl_same_set: "dpl_same dl dl' \<Longrightarrow> set (dpl_entries dl') = set (dpl_entries dl)"
  by (auto simp: dpl_same_def dest: mset_eq_setD)

lemma dpl_same_view: "dpl_wf dl \<Longrightarrow> dpl_same dl dl' \<Longrightarrow> dpl_view dl' = dpl_view dl"
  using dpl_view_cong [of dl dl'] dpl_same_set [of dl dl'] by (auto simp: dpl_same_def)

definition dpl_found :: "dpl \<Rightarrow> pgno_t \<Rightarrow> nat \<Rightarrow> dpl \<Rightarrow> bool" where
  "dpl_found dl p i dl' \<longleftrightarrow>
     dpl_same dl dl' \<and> 1 \<le> i \<and> i \<le> unat (dl_length dl) + 1 \<and>
     (p \<in> dp_pgno ` set (dpl_entries dl) \<longrightarrow> i \<le> unat (dl_length dl) \<and> dp_pgno (dl_items dl' ! i) = p) \<and>
     (dl_sorted dl = dl_length dl \<longrightarrow>
        dl' = dl \<and> partition_point dp_search_cmp (dl_items dl) 1 (unat (dl_length dl)) p i)"

lemma mdbx_dpl_search_correct:
  assumes "dpl_wf dl"
  obtains i dl' where "mdbx_dpl_search dl p = Some (of_nat i, dl')" "dpl_found dl p i dl'"
proof (cases "unat (dl_length dl - dl_sorted dl) \<le> 16")
  case False
  then have "dl_sorted dl \<noteq> dl_length dl" by auto
  then obtain dl' where dl': "mdbx_dpl_sort_slowpath dl = Some dl'" "dpl_resorted dl dl'"
    using dpl_sort_slowpath_correct [OF assms] by blast
  then have wf: "dpl_wf dl'" "dl_sorted dl' = dl_length dl" "dl_length dl' = dl_length dl" "dpl_same dl dl'"
    by (simp_all add: dpl_resorted_def dpl_same_def)
  obtain r where r: "bsearch dp_search_cmp (dl_items dl') 1 (unat (dl_sorted dl')) p = Some r"
    "partition_point dp_search_cmp (dl_items dl') 1 (unat (dl_sorted dl')) p r"
    "\<And>j. 1 \<le> j \<Longrightarrow> j \<le> unat (dl_sorted dl') \<Longrightarrow> dp_pgno (dl_items dl' ! j) = p \<Longrightarrow> r = j"
    using sorted_part_search [OF wf(1)] by blast
  have run: "mdbx_dpl_search dl p = Some (of_nat r, dl')" using False dl'(1) r(1) by (simp add: mdbx_dpl_search_def)
  have range: "1 \<le> r" "r \<le> unat (dl_length dl) + 1" using r(2) wf(2) by (auto simp: partition_point_def)
  have "r \<le> unat (dl_length dl) \<and> dp_pgno (dl_items dl' ! r) = p" if "p \<in> dp_pgno ` set (dpl_entries dl)"
  proof -
    from that obtain j where "1 \<le> j" "j \<le> unat (dl_length dl')" "dp_pgno (dl_items dl' ! j) = p"
      using dpl_entry_index [OF wf(1)] dpl_same_set [OF wf(4)] by metis
    then show ?thesis using r(3) [of j] wf(2,3) by auto
  qed
  then have "dpl_found dl p r dl'"
    unfolding dpl_found_def using wf(4) range \<open>dl_sorted dl \<noteq> dl_length dl\<close> by blast
  then show ?thesis by (rule that [OF run])
next
  case True
  note w = dpl_wfD [OF assms]
  define n where "n = unat (dl_length dl - dl_sorted dl)"
  have n: "n = unat (dl_length dl) - unat (dl_sorted dl)"
    unfolding n_def using w(1) by (intro unat_sub_le) (simp add: word_le_nat_alt)
  have room: "n \<le> unat (dl_length dl)" "unat (dl_length dl) < length (dl_items dl)"
    "unat (dl_length dl) - n = unat (dl_sorted dl)" using n w(1,2) by simp_all
  obtain f where f: "linear_search (dl_items dl) (unat (dl_length dl)) p n = Some f"
    "f = None \<longrightarrow> (\<forall>i. unat (dl_length dl) - n < i \<and> i \<le> unat (dl_length dl) \<longrightarrow> dp_pgno (dl_items dl ! i) \<noteq> p)"
    "\<forall>i. f = Some i \<longrightarrow> unat (dl_length dl) - n < i \<and> i \<le> unat (dl_length dl) \<and> dp_pgno (dl_items dl ! i) = p"
    using linear_search_correct [OF room(1,2)] by blast
  have same: "dpl_same dl dl" using assms by (simp add: dpl_same_def)
  show ?thesis
  proof (cases f)
    case (Some i)
    then have i: "unat (dl_sorted dl) < i" "i \<le> unat (dl_length dl)" "dp_pgno (dl_items dl ! i) = p"
      using f(3) room(3) by auto
    have run: "mdbx_dpl_search dl p = Some (of_nat i, dl)" using True f(1) Some by (simp add: mdbx_dpl_search_def n_def)
    have "dl_sorted dl \<noteq> dl_length dl" using i(1,2) by auto
    then have "dpl_found dl p i dl" unfolding dpl_found_def using i same by simp
    then show ?thesis by (rule that [OF run])
  next
    case None
    obtain r where r: "bsearch dp_search_cmp (dl_items dl) 1 (unat (dl_sorted dl)) p = Some r"
      "partition_point dp_search_cmp (dl_items dl) 1 (unat (dl_sorted dl)) p r"
      "\<And>j. 1 \<le> j \<Longrightarrow> j \<le> unat (dl_sorted dl) \<Longrightarrow> dp_pgno (dl_items dl ! j) = p \<Longrightarrow> r = j"
      using sorted_part_search [OF assms] by blast
    have run: "mdbx_dpl_search dl p = Some (of_nat r, dl)"
      using True f(1) None r(1) by (simp add: mdbx_dpl_search_def n_def)
    show ?thesis
    proof (rule that [OF run], unfold dpl_found_def, intro conjI impI)
      show "dpl_same dl dl" by (rule same)
      show "1 \<le> r" "r \<le> unat (dl_length dl) + 1" using r(2) w(1) by (auto simp: partition_point_def)
    next
      assume p_in: "p \<in> dp_pgno ` set (dpl_entries dl)"
      obtain j where j: "1 \<le> j" "j \<le> unat (dl_length dl)" "dp_pgno (dl_items dl ! j) = p"
        using dpl_entry_index [OF assms p_in] by blast
      then have "j \<le> unat (dl_sorted dl)" using f(2) None room(3) by (metis not_le)
      then have "r = j" using r(3) j(1,3) by blast
      then show "r \<le> unat (dl_length dl)" "dp_pgno (dl_items dl ! r) = p" using j by simp_all
    next
      assume "dl_sorted dl = dl_length dl"
      then show "partition_point dp_search_cmp (dl_items dl) 1 (unat (dl_length dl)) p r" using r(2) by simp
    qed simp
  qed
qed

lemma mdbx_dpl_exist_correct:
  assumes "dpl_wf dl" "p \<noteq> P_INVALID"
  obtains i dl' where "mdbx_dpl_exist dl p = Some (i, dl')" "dpl_same dl dl'" "i = 0 \<longleftrightarrow> dpl_view dl p = None"
    "i \<noteq> 0 \<longrightarrow> unat i \<le> unat (dl_length dl) \<and> dp_pgno (dl_items dl' ! unat i) = p"
proof -
  obtain i dl' where s1: "mdbx_dpl_search dl p = Some (of_nat i, dl')" and fnd: "dpl_found dl p i dl'"
    by (rule mdbx_dpl_search_correct [OF assms(1)])
  have s: "mdbx_dpl_search dl p = Some (of_nat i, dl')" "dpl_same dl dl'" "1 \<le> i" "i \<le> unat (dl_length dl) + 1"
    "p \<in> dp_pgno ` set (dpl_entries dl) \<longrightarrow> i \<le> unat (dl_length dl) \<and> dp_pgno (dl_items dl' ! i) = p"
    using s1 fnd unfolding dpl_found_def by - (elim conjE, assumption)+
  have wf': "dpl_wf dl'" "dl_length dl' = dl_length dl" using s(2) by (simp_all add: dpl_same_def)
  note w = dpl_wfD [OF wf'(1)]
  have u: "unat (of_nat i :: u32) = i" using s(4) w(3) wf'(2) by (intro unat_of_nat_lt) simp
  have inr: "i < length (dl_items dl')" using s(4) w(2) wf'(2) by simp
  let ?i = "if dp_pgno (dl_items dl' ! i) = p then of_nat i else 0 :: u32"
  have run: "mdbx_dpl_exist dl p = Some (?i, dl')" using s(1) inr u by (simp add: mdbx_dpl_exist_def rd_in)
  have in_range: "i \<le> unat (dl_length dl)" if "dp_pgno (dl_items dl' ! i) = p"
  proof (rule ccontr)
    assume "\<not> i \<le> unat (dl_length dl)"
    then have "i = unat (dl_length dl') + 1" using s(4) wf'(2) by simp
    then have "p = P_INVALID" using that w(5) by (simp add: dpl_stubE_def)
    then show False using assms(2) by simp
  qed
  have nz: "(of_nat i :: u32) \<noteq> 0" using u s(3) by (metis not_one_le_zero unsigned_0)
  have zero: "?i = 0 \<longleftrightarrow> p \<notin> dp_pgno ` set (dpl_entries dl)"
  proof (cases "dp_pgno (dl_items dl' ! i) = p")
    case True
    then have "dl_items dl' ! i \<in> set (dpl_entries dl)"
      using dpl_entry_in [OF wf'(1) s(3)] in_range wf'(2) dpl_same_set [OF s(2)] by simp
    then show ?thesis using True nz by auto
  next
    case False
    then have "p \<notin> dp_pgno ` set (dpl_entries dl)" using s(5) by blast
    then show ?thesis using False by simp
  qed
  have rng: "unat ?i \<le> unat (dl_length dl) \<and> dp_pgno (dl_items dl' ! unat ?i) = p"
    if "?i \<noteq> 0"
    using that in_range u by (simp split: if_split_asm)
  show ?thesis using rng by (intro that [OF run s(2) zero [folded dpl_view_None_iff]] impI)
qed

text \<open>The search of the debug checks agrees with the map.\<close>

lemma find_backlog_correct:
  assumes "i < length items" "srt \<le> i"
  shows "\<exists>r. find_backlog items srt i p = Some r \<and>
    (r = None \<longrightarrow> (\<forall>j. srt < j \<and> j \<le> i \<longrightarrow> dp_pgno (items ! j) \<noteq> p)) \<and>
    (\<forall>q. r = Some q \<longrightarrow> (\<exists>j. srt < j \<and> j \<le> i \<and> dp_pgno (items ! j) = p \<and> q = dp_ptr (items ! j)))"
  using assms
proof (induction i)
  case 0
  then show ?case by auto
next
  case (Suc i)
  show ?case
  proof (cases "srt < Suc i \<and> dp_pgno (items ! Suc i) \<noteq> p")
    case True
    then obtain r where "find_backlog items srt i p = Some r"
      "r = None \<longrightarrow> (\<forall>j. srt < j \<and> j \<le> i \<longrightarrow> dp_pgno (items ! j) \<noteq> p)"
      "\<forall>q. r = Some q \<longrightarrow> (\<exists>j. srt < j \<and> j \<le> i \<and> dp_pgno (items ! j) = p \<and> q = dp_ptr (items ! j))"
      using Suc by auto
    then show ?thesis using True Suc.prems(1) by (auto simp: rd_in le_Suc_eq)
  next
    case False
    then show ?thesis using Suc.prems by (auto simp: rd_in)
  qed
qed

lemma debug_dpl_find_correct:
  assumes "dpl_wf dl" "p \<noteq> P_INVALID"
  shows "debug_dpl_find dl p = Some (map_option fst (dpl_view dl p))"
proof -
  note w = dpl_wfD [OF assms(1)]
  define s where "s = unat (dl_sorted dl)"
  define n where "n = unat (dl_length dl)"
  have room: "n < length (dl_items dl)" "s \<le> n" using w(1,2) by (simp_all add: s_def n_def)
  have view: "dpl_view dl p = Some (dp_ptr (dl_items dl ! j), dp_multi (dl_items dl ! j))"
    if "1 \<le> j" "j \<le> n" "dp_pgno (dl_items dl ! j) = p" for j
    using that dpl_entry_in [OF assms(1)] by (auto simp: dpl_view_Some_iff [OF assms(1)] n_def)
  have none: "dpl_view dl p = None" if "\<And>j. 1 \<le> j \<Longrightarrow> j \<le> n \<Longrightarrow> dp_pgno (dl_items dl ! j) \<noteq> p"
    using that dpl_entry_index [OF assms(1), of p] unfolding dpl_view_None_iff n_def by blast
  obtain f where f: "find_backlog (dl_items dl) s n p = Some f"
    "f = None \<longrightarrow> (\<forall>j. s < j \<and> j \<le> n \<longrightarrow> dp_pgno (dl_items dl ! j) \<noteq> p)"
    "\<forall>q. f = Some q \<longrightarrow> (\<exists>j. s < j \<and> j \<le> n \<and> dp_pgno (dl_items dl ! j) = p \<and> q = dp_ptr (dl_items dl ! j))"
    using find_backlog_correct [OF room] by blast
  show ?thesis
  proof (cases f)
    case (Some q)
    then obtain j where "s < j" "j \<le> n" "dp_pgno (dl_items dl ! j) = p" "q = dp_ptr (dl_items dl ! j)" using f(3) by blast
    then show ?thesis using view [of j] Some f(1) by (simp add: debug_dpl_find_def s_def n_def)
  next
    case None
    show ?thesis
    proof (cases "dl_sorted dl = 0")
      case True
      then have "s = 0" by (simp add: s_def)
      then have "dpl_view dl p = None" using None f(2) by (intro none) auto
      then show ?thesis using True None f(1) by (simp add: debug_dpl_find_def s_def n_def)
    next
      case False
      obtain r where r: "bsearch dp_search_cmp (dl_items dl) 1 s p = Some r"
        "partition_point dp_search_cmp (dl_items dl) 1 s p r"
        "\<And>j. 1 \<le> j \<Longrightarrow> j \<le> s \<Longrightarrow> dp_pgno (dl_items dl ! j) = p \<Longrightarrow> r = j"
        using sorted_part_search [OF assms(1)] unfolding s_def by blast
      have range: "1 \<le> r" "r \<le> n + 1" using r(2) room(2) by (auto simp: partition_point_def)
      have inr: "r < length (dl_items dl)" using range(2) w(2) by (simp add: n_def)
      have run: "debug_dpl_find dl p =
          Some (if dp_pgno (dl_items dl ! r) = p then Some (dp_ptr (dl_items dl ! r)) else None)"
        using None f(1) r(1) False inr by (simp add: debug_dpl_find_def s_def n_def rd_in)
      show ?thesis
      proof (cases "dp_pgno (dl_items dl ! r) = p")
        case True
        have "r \<noteq> n + 1" using True w(5) assms(2) by (auto simp: n_def dpl_stubE_def)
        then show ?thesis using run True view [of r] range by simp
      next
        case False
        then have "dpl_view dl p = None" using None f(2) r(3) by (intro none) (metis not_le)
        then show ?thesis using run False by simp
      qed
    qed
  qed
qed

subsection \<open>Removing an entry\<close>

lemma nth_moved:
  assumes "i + n + 1 \<le> length xs" "j < length xs"
  shows "(take i xs @ seg (i + 1) n xs @ drop (i + n) xs) ! j = (if i \<le> j \<and> j < i + n then xs ! (j + 1) else xs ! j)"
proof -
  consider "j < i" | "i \<le> j" "j < i + n" | "i + n \<le> j" by linarith
  then show ?thesis
  proof cases
    case 2
    then have "j - i < n" by simp
    then show ?thesis using 2 assms by (simp add: nth_append seg_def add.commute)
  qed (use assms in \<open>auto simp: nth_append\<close>)
qed

lemma seg_removed:
  assumes "1 \<le> i" "i \<le> m" "m \<le> len" "len + 2 \<le> length xs"
  shows "seg 1 (m - 1) (take i xs @ seg (i + 1) (len - i + 1) xs @ drop (i + (len - i + 1)) xs) =
         take (i - 1) (seg 1 m xs) @ drop i (seg 1 m xs)"
proof (rule nth_equalityI)
  let ?ys = "take i xs @ seg (i + 1) (len - i + 1) xs @ drop (i + (len - i + 1)) xs"
  have ly: "length ?ys = length xs" using assms by simp
  show "length (seg 1 (m - 1) ?ys) = length (take (i - 1) (seg 1 m xs) @ drop i (seg 1 m xs))"
    using assms ly by simp
  fix j assume "j < length (seg 1 (m - 1) ?ys)"
  then have j: "j < m - 1" using assms ly by simp
  then have "seg 1 (m - 1) ?ys ! j = ?ys ! (1 + j)" using assms ly by simp
  also have "\<dots> = (if i \<le> 1 + j then xs ! (j + 2) else xs ! (1 + j))"
  proof -
    have "j < len" using j assms by simp
    then show ?thesis using nth_moved [of i "len - i + 1" xs "1 + j"] assms j by (simp add: add.commute)
  qed
  also have "\<dots> = (take (i - 1) (seg 1 m xs) @ drop i (seg 1 m xs)) ! j"
    using assms j by (auto simp: nth_append seg_nth add.commute)
  finally show "seg 1 (m - 1) ?ys ! j = (take (i - 1) (seg 1 m xs) @ drop i (seg 1 m xs)) ! j" .
qed

lemma increasing_without:
  assumes "increasing ds" "1 \<le> i" "i \<le> length ds"
  shows "increasing (take (i - 1) ds @ drop i ds)"
proof -
  have "ds = take (i - 1) ds @ ds ! (i - 1) # drop i ds"
    using assms(2,3) id_take_nth_drop [of "i - 1" ds] by simp
  then show ?thesis using assms(1) by (metis increasing_append increasing_simps(2) list.set_intros(2))
qed

lemma mdbx_dpl_remove_correct:
  assumes "dpl_wf dl" "1 \<le> unat i" "unat i \<le> unat (dl_length dl)"
  obtains dl' where "mdbx_dpl_remove dl i = Some dl'" "dpl_wf dl'" "dl_detent dl' = dl_detent dl"
    "dpl_entries dl' = take (unat i - 1) (dpl_entries dl) @ drop (unat i) (dpl_entries dl)"
proof -
  note w = dpl_wfD [OF assms(1)]
  define n where "n = unat (dl_length dl)"
  define s where "s = unat (dl_sorted dl)"
  define k where "k = unat i"
  have k: "1 \<le> k" "k \<le> n" using assms(2,3) by (simp_all add: k_def n_def)
  have room: "2 * n + 18 \<le> length (dl_items dl)" "n < 2 ^ 31" "s \<le> n" using w(1-3) by (simp_all add: n_def s_def)
  have un: "unat (dl_length dl - 1) = n - 1"
    using k by (subst unat_sub_le) (simp_all add: n_def word_le_nat_alt)
  define s' where "s' = dl_sorted dl - (if dl_sorted dl \<ge> i then 1 else 0)"
  have us: "unat s' = (if k \<le> s then s - 1 else s)"
  proof (cases "k \<le> s")
    case True
    then have "1 \<le> s" using k by simp
    then show ?thesis using True unfolding s'_def s_def k_def
      by (simp add: word_le_nat_alt unat_sub_le)
  next
    case False
    then show ?thesis by (simp add: s'_def s_def k_def word_le_nat_alt)
  qed
  have cnt: "unat (dl_length dl - 1 - i + 2) = n - k + 1"
  proof -
    have "dl_length dl - 1 - i + 2 = dl_length dl - i + 1" by simp
    moreover have "unat (dl_length dl - i) = n - k"
      using k by (subst unat_sub_le) (simp_all add: n_def k_def word_le_nat_alt)
    ultimately show ?thesis using room(2) by (simp add: unat_add_lt)
  qed
  let ?ys = "take k (dl_items dl) @ seg (k + 1) (n - k + 1) (dl_items dl) @ drop (k + (n - k + 1)) (dl_items dl)"
  define dl' where "dl' = dl\<lparr>dl_sorted := s', dl_length := dl_length dl - 1, dl_items := ?ys\<rparr>"
  have ly: "length ?ys = length (dl_items dl)" using room k by simp
  have run: "mdbx_dpl_remove dl i = Some dl'"
    using room k cnt by (simp add: mdbx_dpl_remove_def move_items_def dl'_def s'_def k_def)
  have cell: "?ys ! j = (if k \<le> j \<and> j < k + (n - k + 1) then dl_items dl ! (j + 1) else dl_items dl ! j)"
    if "j < length (dl_items dl)" for j using nth_moved [of k "n - k + 1" "dl_items dl" j] room k that by simp
  have ne: "0 < length (dl_items dl)" using room by linarith
  have entries: "dpl_entries dl' = take (k - 1) (dpl_entries dl) @ drop k (dpl_entries dl)"
    using seg_removed [OF k(1) k(2) le_refl, of "dl_items dl"] room
    by (simp add: dpl_entries_def dl'_def un n_def)
  have sub: "set (dpl_entries dl') \<subseteq> set (dpl_entries dl)"
    unfolding entries using set_take_subset set_drop_subset by fastforce
  have dist: "distinct (map dp_pgno (dpl_entries dl'))"
    using w(7) unfolding entries map_append take_map [symmetric] drop_map [symmetric]
    by (metis append_take_drop_id distinct_append set_drop_subset_set_drop diff_le_self inf.absorb_iff2
        distinct_take distinct_drop set_take_disj_set_drop_if_distinct)
  have "dpl_wf dl'"
    unfolding dpl_wf_def
  proof (intro conjI)
    show "unat (dl_sorted dl') \<le> unat (dl_length dl')"
      using us un room(3) k by (cases "k \<le> s") (simp_all add: dl'_def)
    show "unat (dl_length dl') \<le> unat (dl_detent dl')" using assms(1) un by (auto simp: dl'_def dpl_wf_def n_def)
    show "unat (dl_detent dl') < 2 ^ 31" "2 * unat (dl_detent dl') + 18 \<le> length (dl_items dl')"
      using assms(1) ly by (simp_all add: dl'_def dpl_wf_def)
    show "dl_items dl' ! 0 = dpl_stubB" using cell [OF ne] w(4) k by (simp add: dl'_def)
    show "dl_items dl' ! (unat (dl_length dl') + 1) = dpl_stubE"
      using cell [of n] w(5) k room un by (simp add: dl'_def n_def)
    show "increasing (seg 1 (unat (dl_sorted dl')) (dl_items dl'))"
    proof (cases "k \<le> s")
      case True
      have "seg 1 (s - 1) ?ys = take (k - 1) (seg 1 s (dl_items dl)) @ drop k (seg 1 s (dl_items dl))"
        using seg_removed [OF k(1) True room(3), of "dl_items dl"] room by simp
      then show ?thesis
        using increasing_without [OF w(6) k(1)] True us room by (simp add: dl'_def s_def)
    next
      case False
      have "seg 1 s ?ys = seg 1 s (dl_items dl)"
        using False room ly cell by (intro seg_eqI) auto
      then show ?thesis using w(6) False us by (simp add: dl'_def s_def)
    qed
    show "\<forall>d \<in> set (dpl_entries dl'). MIN_PAGENO \<le> dp_pgno d \<and> dp_pgno d \<le> MAX_PAGENO"
      using sub w(8) by blast
  qed (rule dist)
  then show ?thesis using that [OF run] entries by (simp add: k_def dl'_def)
qed

subsection \<open>Growing and appending\<close>

text \<open>The allocator hands out at least what was asked for, and no block of 64 GiB or more.\<close>

definition dpl_malloc_ok :: "dpl_allocator \<Rightarrow> bool" where
  "dpl_malloc_ok malloc \<longleftrightarrow>
     (\<forall>n b. malloc n = Some b \<longrightarrow> unat n \<le> 16 + 16 * length (dl_items b) \<and> length (dl_items b) < 2 ^ 32)"

lemma dpl2bytes_unat:
  assumes "unat sz \<le> 0x7FFFFFFF"
  shows "16 + 16 * (2 * unat sz + 18) \<le> unat (dpl2bytes sz)" "16368 \<le> unat (dpl2bytes sz)"
proof -
  have a: "unat (sz + sz) = 2 * unat sz" using assms by (subst unat_add_lt) auto
  have g: "(of_nat MDBX_DPL_RESERVE_GAP :: u64) = 18" by (simp add: dpl_gap_defs)
  have b: "unat (sz + sz + 18) = 2 * unat sz + 18" using assms a by (subst unat_add_lt) auto
  then have c: "unat ((sz + sz + 18) * 16) = (2 * unat sz + 18) * 16" using assms by (subst unat_mult_lt) auto
  then have d: "unat (32 + (sz + sz + 18) * 16) = 32 + (2 * unat sz + 18) * 16" using assms by (subst unat_add_lt) auto
  define x where "x = ceil_powerof2 (32 + (sz + sz + 18) * 16) (2 ^ 14)"
  have x: "unat x = (32 + (2 * unat sz + 18) * 16 + 2 ^ 14 - 1) div 2 ^ 14 * 2 ^ 14"
    unfolding x_def using assms by (subst ceil_powerof2_unat) (simp_all only: d, simp_all)
  have x2: "32 + (2 * unat sz + 18) * 16 \<le> unat x" unfolding x by (rule nat_ceil_bounds) simp
  have "1 * 2 ^ 14 \<le> unat x"
    unfolding x by (intro mult_le_mono1) (simp add: Suc_le_eq div_greater_zero_iff)
  moreover have "unat (dpl2bytes sz) = unat x - 16"
    unfolding dpl2bytes_def Let_def g using x2 by (subst unat_sub_le) (auto simp: x_def sizeof_dpl_def sizeof_dp_def word_le_nat_alt)
  ultimately show "16 + 16 * (2 * unat sz + 18) \<le> unat (dpl2bytes sz)" "16368 \<le> unat (dpl2bytes sz)"
    using x2 by auto
qed

lemma bytes2dpl_usable:
  assumes "18 \<le> length (dl_items b)" "length (dl_items b) < 2 ^ 32"
  shows "unat (bytes2dpl (dpl_usable_size b)) = (length (dl_items b) - 18) div 2"
proof -
  define n where "n = length (dl_items b)"
  have u: "unat (dpl_usable_size b) = 16 + 16 * n"
    unfolding dpl_usable_size_def n_def using assms(2) by (intro unat_of_nat_lt) simp
  have "unat (dpl_usable_size b - 16) = 16 * n" using u by (subst unat_sub_le) (auto simp: word_le_nat_alt)
  then have d: "unat ((dpl_usable_size b - 16) div 16) = n" by (simp add: unat_div)
  then have "unat ((dpl_usable_size b - 16) div 16 - 18) = n - 18"
    using assms(1) by (subst unat_sub_le) (auto simp: word_le_nat_alt n_def)
  then have e: "unat (drop_bit 1 ((dpl_usable_size b - 16) div 16 - 18)) = (n - 18) div 2"
    by (simp only: unat_drop_bit_div power_one_right)
  then show ?thesis
    unfolding bytes2dpl_def Let_def sizeof_dpl_def sizeof_dp_def dpl_gap_defs n_def [symmetric]
    using assms(2) by (subst unat_ucast_lt) (simp_all add: n_def)
qed

lemma mdbx_dpl_reserve_block:
  assumes "dpl_malloc_ok malloc"
  obtains "mdbx_dpl_reserve malloc txn sz = (None, txn)"
  | dl where "mdbx_dpl_reserve malloc txn sz = (Some dl, txn\<lparr>tw_dirtylist := Some dl\<rparr>)"
      "2 * unat (dl_detent dl) + 18 \<le> length (dl_items dl)" "unat (dl_detent dl) < 2 ^ 31" "502 \<le> unat (dl_detent dl)"
      "min (unat sz) 0x7FFFFFFF \<le> unat (dl_detent dl)"
      "\<forall>old. tw_dirtylist txn = Some old \<longrightarrow> dl_length dl = dl_length old \<and> dl_sorted dl = dl_sorted old \<and>
         (\<forall>i. i < length (dl_items old) \<longrightarrow> i < length (dl_items dl) \<longrightarrow> dl_items dl ! i = dl_items old ! i)"
proof -
  define sz' where "sz' = (if sz < MDBX_PGL_LIMIT then sz else MDBX_PGL_LIMIT)"
  have sz': "unat sz' = min (unat sz) 0x7FFFFFFF"
    by (auto simp: sz'_def MDBX_PGL_LIMIT_def word_less_nat_alt)
  show ?thesis
  proof (cases "dpl_realloc malloc (tw_dirtylist txn) (dpl2bytes sz')")
    case None
    then show ?thesis using that(1) by (simp add: mdbx_dpl_reserve_def sz'_def)
  next
    case (Some b)
    then obtain c where c: "malloc (dpl2bytes sz') = Some c" "length (dl_items b) = length (dl_items c)"
      by (auto simp: dpl_realloc_def split: option.splits)
    have s31: "unat sz' \<le> 0x7FFFFFFF" using sz' by simp
    have len: "2 * unat sz' + 18 \<le> length (dl_items b)" "1022 \<le> length (dl_items b)" "length (dl_items b) < 2 ^ 32"
      using assms c dpl2bytes_unat [OF s31] unfolding dpl_malloc_ok_def by fastforce+
    define dl where "dl = b\<lparr>dl_detent := bytes2dpl (dpl_usable_size b)\<rparr>"
    have run: "mdbx_dpl_reserve malloc txn sz = (Some dl, txn\<lparr>tw_dirtylist := Some dl\<rparr>)"
      using Some by (simp add: mdbx_dpl_reserve_def sz'_def dl_def Let_def)
    have det: "unat (dl_detent dl) = (length (dl_items b) - 18) div 2"
      using len by (simp add: dl_def bytes2dpl_usable)
    have old: "\<forall>old. tw_dirtylist txn = Some old \<longrightarrow> dl_length dl = dl_length old \<and> dl_sorted dl = dl_sorted old \<and>
         (\<forall>i. i < length (dl_items old) \<longrightarrow> i < length (dl_items dl) \<longrightarrow> dl_items dl ! i = dl_items old ! i)"
      using Some by (auto simp: dl_def dpl_realloc_def nth_append split: option.splits)
    show ?thesis
    proof (rule that(2) [OF run _ _ _ _ old])
      show "2 * unat (dl_detent dl) + 18 \<le> length (dl_items dl)" using len det by (simp add: dl_def)
      show "unat (dl_detent dl) < 2 ^ 31" "502 \<le> unat (dl_detent dl)" using len det by simp_all
      show "min (unat sz) 0x7FFFFFFF \<le> unat (dl_detent dl)" using len(1) det sz' by simp
    qed
  qed
qed

lemma dpl_wf_grown:
  assumes "dpl_wf old" "dl_length dl = dl_length old" "dl_sorted dl = dl_sorted old"
    and "unat (dl_detent old) \<le> unat (dl_detent dl)" "unat (dl_detent dl) < 2 ^ 31"
    and "2 * unat (dl_detent dl) + 18 \<le> length (dl_items dl)"
    and "\<And>i. i < length (dl_items old) \<Longrightarrow> i < length (dl_items dl) \<Longrightarrow> dl_items dl ! i = dl_items old ! i"
  shows "dpl_wf dl" "dpl_entries dl = dpl_entries old"
proof -
  note w = dpl_wfD [OF assms(1)]
  have len: "unat (dl_length old) + 2 \<le> length (dl_items dl)" "unat (dl_length old) + 2 \<le> length (dl_items old)"
    using assms(1,4,6) w(2) unfolding dpl_wf_def by linarith+
  have cells: "dl_items dl ! i = dl_items old ! i" if "i < unat (dl_length old) + 2" for i
    using assms(7) [of i] that len by linarith
  show e: "dpl_entries dl = dpl_entries old"
    unfolding dpl_entries_def assms(2) using len cells by (intro seg_eqI) auto
  have "seg 1 (unat (dl_sorted old)) (dl_items dl) = seg 1 (unat (dl_sorted old)) (dl_items old)"
    using len cells w(1) by (intro seg_eqI) auto
  then show "dpl_wf dl"
    unfolding dpl_wf_def e assms(2,3) using assms(1,4-6) cells [of 0] cells [of "unat (dl_length old) + 1"]
    by (auto simp: dpl_wf_def)
qed

lemma dpl_grow_size_unat:
  assumes "unat d < 0x7FFFFFFF"
  shows "unat (dpl_grow_size d) = (if unat d < 1018 * 42 then 2 * unat d else unat d + unat d div 2)"
proof -
  have i: "unat (MDBX_PNL_INITIAL * 42) = 1018 * 42" by (simp add: MDBX_PNL_INITIAL_def)
  have u: "unat (ucast d :: u64) = unat d" by (rule unat_ucast_lt) (use assms in simp)
  show ?thesis
  proof (cases "unat d < 1018 * 42")
    case True
    have "unat (d + d) = 2 * unat d" using True by (subst unat_add_lt) simp_all
    then have "unat (ucast (d + d) :: u64) = 2 * unat d" using True by (subst unat_ucast_lt) simp_all
    then show ?thesis using True i u by (simp add: dpl_grow_size_def word_less_nat_alt)
  next
    case False
    have h: "unat (d div 2) = unat d div 2" by (simp add: unat_div)
    have "unat (d + d div 2) = unat d + unat d div 2"
      using assms h by (subst unat_add_lt) simp_all
    then have "unat (ucast (d + d div 2) :: u64) = unat d + unat d div 2"
      using assms by (subst unat_ucast_lt) simp_all
    then show ?thesis using False i u by (simp add: dpl_grow_size_def word_less_nat_alt)
  qed
qed

text \<open>The entry that an append stores.\<close>

definition new_dp :: "dtxn \<Rightarrow> pgno_t \<Rightarrow> page_ptr \<Rightarrow> u32 \<Rightarrow> dp" where
  "new_dp txn pgno page npages =
     \<lparr>dp_ptr = page, dp_pgno = pgno, dp_multi = npages > 1, dp_lru = ucast (tw_dirtylru txn)\<rparr>"

definition dpl_pushed :: "dpl \<Rightarrow> dp \<Rightarrow> dpl" where
  "dpl_pushed dl d =
     (let len = unat (dl_length dl) in
      dl\<lparr>dl_items := (dl_items dl)[len + 2 := dl_items dl ! (len + 1), len + 1 := d],
         dl_length := dl_length dl + 1,
         dl_sorted := (if dl_sorted dl = dl_length dl \<and> dp_pgno (dl_items dl ! len) < dp_pgno d
                       then dl_length dl + 1 else dl_sorted dl)\<rparr>)"

lemma dpl_pushed_wf:
  assumes "dpl_wf dl" "unat (dl_length dl) < unat (dl_detent dl)" "dpl_view dl (dp_pgno d) = None"
    and "MIN_PAGENO \<le> dp_pgno d" "dp_pgno d \<le> MAX_PAGENO"
  shows "dpl_wf (dpl_pushed dl d)" "dpl_entries (dpl_pushed dl d) = dpl_entries dl @ [d]"
proof -
  note w = dpl_wfD [OF assms(1)]
  define n where "n = unat (dl_length dl)"
  have room: "2 * n + 18 \<le> length (dl_items dl)" using w(2) by (simp add: n_def)
  have un: "unat (dl_length dl + 1) = n + 1" using w(3) by (subst unat_add_lt) (simp_all add: n_def)
  let ?dl = "dpl_pushed dl d"
  let ?it = "(dl_items dl)[n + 2 := dl_items dl ! (n + 1), n + 1 := d]"
  have f: "dl_items ?dl = ?it" "dl_length ?dl = dl_length dl + 1" "dl_detent ?dl = dl_detent dl"
    by (simp_all add: dpl_pushed_def Let_def n_def)
  have old: "seg 1 m ?it = seg 1 m (dl_items dl)" if "m \<le> n" for m
    using that room by (intro seg_eqI) auto
  show e: "dpl_entries ?dl = dpl_entries dl @ [d]"
    using seg_snoc [of 1 n ?it] old [OF le_refl] room unfolding dpl_entries_def f un by (simp add: n_def)
  have fresh: "dp_pgno d \<notin> dp_pgno ` set (dpl_entries dl)" using assms(3) by (simp add: dpl_view_None_iff)
  have inc: "increasing (seg 1 (n + 1) ?it)" if s: "dl_sorted dl = dl_length dl" "dp_pgno (dl_items dl ! n) < dp_pgno d"
  proof -
    have S: "seg 1 (n + 1) ?it = dpl_entries dl @ [d]" using e unfolding dpl_entries_def f un by simp
    have inc: "increasing (dpl_entries dl)" using w(6) s(1) by (simp add: dpl_entries_def)
    have "dp_pgno x < dp_pgno d" if "x \<in> set (dpl_entries dl)" for x
    proof -
      obtain i where i: "i < n" "x = dpl_entries dl ! i"
        using \<open>x \<in> _\<close> length_dpl_entries [OF assms(1)] by (auto simp: in_set_conv_nth n_def)
      have last: "dpl_entries dl ! (n - 1) = dl_items dl ! n"
        using dpl_entries_nth [OF assms(1), of "n - 1"] i by (simp add: n_def)
      show ?thesis
      proof (cases "i = n - 1")
        case False
        then have "dp_pgno x < dp_pgno (dpl_entries dl ! (n - 1))"
          using increasing_nth [OF inc, of i "n - 1"] i length_dpl_entries [OF assms(1)] by (simp add: n_def)
        then show ?thesis using s(2) last by simp
      qed (use i last s(2) in simp)
    qed
    then show ?thesis unfolding S increasing_append using inc by simp
  qed
  show "dpl_wf ?dl"
    unfolding dpl_wf_def e
  proof (intro conjI)
    show "unat (dl_sorted ?dl) \<le> unat (dl_length ?dl)"
      using un w(1) by (simp add: dpl_pushed_def Let_def n_def)
    show "unat (dl_length ?dl) \<le> unat (dl_detent ?dl)" using assms(2) un by (simp add: f n_def)
    show "unat (dl_detent ?dl) < 2 ^ 31" "2 * unat (dl_detent ?dl) + 18 \<le> length (dl_items ?dl)"
      using assms(1) by (simp_all add: f dpl_wf_def)
    show "dl_items ?dl ! 0 = dpl_stubB" using w(4) room by (simp add: f)
    show "dl_items ?dl ! (unat (dl_length ?dl) + 1) = dpl_stubE"
      unfolding f un using w(5) room by (simp add: n_def)
    show "increasing (seg 1 (unat (dl_sorted ?dl)) (dl_items ?dl))"
    proof (cases "dl_sorted dl = dl_length dl \<and> dp_pgno (dl_items dl ! n) < dp_pgno d")
      case True
      then have "unat (dl_sorted ?dl) = n + 1" using un by (simp add: dpl_pushed_def Let_def n_def)
      then show ?thesis using inc True unfolding f by simp
    next
      case False
      then have "dl_sorted ?dl = dl_sorted dl" by (auto simp: dpl_pushed_def Let_def n_def)
      then show ?thesis using w(1,6) old unfolding f by (simp add: n_def)
    qed
    show "distinct (map dp_pgno (dpl_entries dl @ [d]))" using w(7) fresh by auto
    show "\<forall>x \<in> set (dpl_entries dl @ [d]). MIN_PAGENO \<le> dp_pgno x \<and> dp_pgno x \<le> MAX_PAGENO"
      using w(8) assms(4,5) by auto
  qed
qed

lemma mdbx_dpl_append_correct:
  assumes "dpl_malloc_ok malloc" "tw_dirtylist txn = Some dl" "dpl_wf dl" "dpl_view dl p = None"
    and "MIN_PAGENO \<le> p" "p \<le> MAX_PAGENO"
  obtains (error) rc where "mdbx_dpl_append malloc txn p page npages = Some (rc, txn)"
      "rc = MDBX_ENOMEM \<or> rc = MDBX_TXN_FULL \<and> 0x7FFFFFFF \<le> unat (dl_length dl)"
  | (ok) dl' where "mdbx_dpl_append malloc txn p page npages =
        Some (MDBX_SUCCESS, txn\<lparr>tw_dirtylist := Some dl', tw_dirtylru := tw_dirtylru txn + 1\<rparr>)" "dpl_wf dl'"
      "dpl_entries dl' = dpl_entries dl @ [new_dp txn p page npages]"
proof -
  note w = dpl_wfD [OF assms(3)]
  define n where "n = unat (dl_length dl)"
  have un: "unat (dl_length dl + 1) = n + 1" "unat (dl_length dl + 1 + 1) = n + 2"
    using w(3) by (simp_all add: unat_add_lt n_def)
  have last: "rd (dl_items dl) n = Some (dl_items dl ! n)" using w(2) by (simp add: rd_in n_def)
  let ?d = "new_dp txn p page npages"
  have pd: "dp_pgno ?d = p" by (simp add: new_dp_def)
  show ?thesis
  proof (cases "dl_length dl = dl_detent dl")
    case False
    then have lt: "unat (dl_length dl) < unat (dl_detent dl)"
      using assms(3) by (auto simp: dpl_wf_def order_le_less word_unat_eq_iff)
    have "mdbx_dpl_append malloc txn p page npages =
        Some (MDBX_SUCCESS, txn\<lparr>tw_dirtylist := Some (dpl_pushed dl ?d), tw_dirtylru := tw_dirtylru txn + 1\<rparr>)"
      using False assms(2) last w(2) un
      by (simp add: mdbx_dpl_append_def Let_def rd_in wr_in dpl_pushed_def new_dp_def n_def)
    moreover have "dpl_wf (dpl_pushed dl ?d)" "dpl_entries (dpl_pushed dl ?d) = dpl_entries dl @ [?d]"
      using dpl_pushed_wf [OF assms(3) lt, of ?d] assms(4-6) pd by auto
    ultimately show ?thesis by (rule ok)
  next
    case full: True
    show ?thesis
    proof (cases "(ucast (dl_detent dl) :: u64) \<ge> MDBX_PGL_LIMIT")
      case True
      have "unat (ucast (dl_detent dl) :: u64) = unat (dl_detent dl)" by (rule unat_ucast_lt) (use w(3) full in simp)
      then have "0x7FFFFFFF \<le> unat (dl_length dl)"
        using True full by (simp add: word_le_nat_alt MDBX_PGL_LIMIT_def)
      then show ?thesis
        using True full assms(2) last by (intro error [of MDBX_TXN_FULL]) (simp_all add: mdbx_dpl_append_def Let_def n_def)
    next
      case False
      have "unat (ucast (dl_detent dl) :: u64) = unat (dl_detent dl)" by (rule unat_ucast_lt) (use w(3) full in simp)
      then have d: "unat (dl_detent dl) < 0x7FFFFFFF"
        using False by (simp add: not_le word_less_nat_alt MDBX_PGL_LIMIT_def)
      show ?thesis
      proof (cases rule: mdbx_dpl_reserve_block [OF assms(1), of txn "dpl_grow_size (dl_detent dl)"])
        case 1
        then show ?thesis
          using False full assms(2) last by (intro error [of MDBX_ENOMEM]) (simp_all add: mdbx_dpl_append_def Let_def n_def)
      next
        case (2 b)
        have keep: "dl_length b = dl_length dl" "dl_sorted b = dl_sorted dl"
          "\<And>i. i < length (dl_items dl) \<Longrightarrow> i < length (dl_items b) \<Longrightarrow> dl_items b ! i = dl_items dl ! i"
          using 2(6) assms(2) by auto
        have more: "unat (dl_detent dl) < unat (dl_detent b)"
          using 2(4,5) d unfolding dpl_grow_size_unat [OF d] by (auto split: if_splits)
        have b: "dpl_wf b" "dpl_entries b = dpl_entries dl"
          using dpl_wf_grown [OF assms(3) keep(1,2) _ 2(3,2) keep(3)] more by simp_all
        have fresh: "dpl_view b p = None" using assms(4) b(2) by (simp add: dpl_view_def)
        have lt: "unat (dl_length b) < unat (dl_detent b)" using more full keep(1) by simp
        note wb = dpl_wfD [OF b(1)]
        have same_last: "dl_items b ! n = dl_items dl ! n" using keep(3) [of n] w(2) wb(2) keep(1) by (simp add: n_def)
        have "mdbx_dpl_append malloc txn p page npages =
            Some (MDBX_SUCCESS, txn\<lparr>tw_dirtylist := Some (dpl_pushed b ?d), tw_dirtylru := tw_dirtylru txn + 1\<rparr>)"
          using False full assms(2) last 2(1) wb(2) un keep(1,2) same_last
          by (simp add: mdbx_dpl_append_def Let_def rd_in wr_in dpl_pushed_def new_dp_def n_def)
        moreover have "dpl_wf (dpl_pushed b ?d)" "dpl_entries (dpl_pushed b ?d) = dpl_entries dl @ [?d]"
          using dpl_pushed_wf [OF b(1) lt, of ?d] fresh assms(5,6) pd b(2) by auto
        ultimately show ?thesis by (rule ok)
      qed
    qed
  qed
qed

lemma dpl_clear_correct:
  assumes "2 * unat (dl_detent dl) + 18 \<le> length (dl_items dl)" "unat (dl_detent dl) < 2 ^ 31"
  obtains dl' where "dpl_clear dl = Some dl'" "dpl_wf dl'" "dpl_entries dl' = []" "dl_detent dl' = dl_detent dl"
    "length (dl_items dl') = length (dl_items dl)"
proof -
  let ?it = "(dl_items dl)[1 := dpl_stubE, 0 := dpl_stubB]"
  let ?dl = "dl\<lparr>dl_length := 0, dl_sorted := 0, dl_items := ?it\<rparr>"
  have "1 < length (dl_items dl)" using assms(1) by linarith
  then have ne: "dl_items dl \<noteq> []" by auto
  have "dpl_clear dl = Some ?dl" using \<open>1 < _\<close> by (auto simp: dpl_clear_def dpl_setlen_def wr_def)
  moreover have "dpl_entries ?dl = []" by (simp add: dpl_entries_def seg_def)
  moreover have "dpl_wf ?dl"
    using assms ne \<open>1 < length (dl_items dl)\<close> \<open>dpl_entries ?dl = []\<close>
    unfolding dpl_wf_def by (auto simp: seg_def nth_list_update)
  ultimately show ?thesis using that [of ?dl] by simp
qed

lemma mdbx_dpl_alloc_correct:
  assumes "dpl_malloc_ok malloc" "\<forall>dl. tw_dirtylist txn = Some dl \<longrightarrow> dpl_wf dl"
  obtains (error) txn' where "mdbx_dpl_alloc malloc txn = Some (MDBX_ENOMEM, txn')"
      "\<forall>dl. tw_dirtylist txn' = Some dl \<longrightarrow> dpl_wf dl \<and> dpl_entries dl = []"
  | (ok) dl where "mdbx_dpl_alloc malloc txn = Some (MDBX_SUCCESS, txn\<lparr>tw_dirtylist := Some dl\<rparr>)" "dpl_wf dl"
      "dpl_entries dl = []"
proof -
  define wanna where "wanna = (if opt_dp_initial txn < mt_geo_upper txn then opt_dp_initial txn else mt_geo_upper txn)"
  define fresh where "fresh = (\<lambda>txn :: dtxn. case mdbx_dpl_reserve malloc txn (scast wanna) of
                     (None, txn) \<Rightarrow> Some (MDBX_ENOMEM, txn)
                   | (Some dl, txn) \<Rightarrow> dpl_clear dl \<bind> (\<lambda>dl. Some (MDBX_SUCCESS, txn\<lparr>tw_dirtylist := Some dl\<rparr>)))"
  have fr: "fresh t = Some (MDBX_ENOMEM, t) \<or>
      (\<exists>dl. fresh t = Some (MDBX_SUCCESS, t\<lparr>tw_dirtylist := Some dl\<rparr>) \<and> dpl_wf dl \<and> dpl_entries dl = [])" for t
  proof (cases rule: mdbx_dpl_reserve_block [OF assms(1), of t "scast wanna"])
    case 1
    then show ?thesis by (simp add: fresh_def)
  next
    case (2 b)
    obtain dl where "dpl_clear b = Some dl" "dpl_wf dl" "dpl_entries dl = []"
      using dpl_clear_correct [OF 2(2,3)] by blast
    then show ?thesis using 2(1) by (intro disjI2 exI [of _ dl]) (simp add: fresh_def)
  qed
  have al: "mdbx_dpl_alloc malloc txn = (case tw_dirtylist txn of
           None \<Rightarrow> fresh txn
         | Some dl \<Rightarrow> dpl_clear dl \<bind> (\<lambda>dl. let txn = txn\<lparr>tw_dirtylist := Some dl\<rparr> in
             if \<not> (sint (dl_detent dl - wanna) > 64 \<or> sint (dl_detent dl - wanna) < - 64)
             then Some (MDBX_SUCCESS, txn) else fresh txn))"
    unfolding mdbx_dpl_alloc_def wanna_def [symmetric] unfolding Let_def fresh_def by (rule refl)
  show ?thesis
  proof (cases "tw_dirtylist txn")
    case None
    then show ?thesis using fr [of txn] al ok error [of txn] by auto
  next
    case (Some dl0)
    then have "dpl_wf dl0" using assms(2) by simp
    then have c: "2 * unat (dl_detent dl0) + 18 \<le> length (dl_items dl0)" "unat (dl_detent dl0) < 2 ^ 31"
      unfolding dpl_wf_def by blast+
    obtain dl where dl: "dpl_clear dl0 = Some dl" "dpl_wf dl" "dpl_entries dl = []"
      using dpl_clear_correct [OF c] by blast
    let ?t = "txn\<lparr>tw_dirtylist := Some dl\<rparr>"
    show ?thesis
    proof (cases "\<not> (sint (dl_detent dl - wanna) > 64 \<or> sint (dl_detent dl - wanna) < - 64)")
      case True
      then have "mdbx_dpl_alloc malloc txn = Some (MDBX_SUCCESS, ?t)" using al Some dl(1) by simp
      then show ?thesis using dl(2,3) by (rule ok)
    next
      case False
      then have "mdbx_dpl_alloc malloc txn = fresh ?t" using al Some dl(1) by (simp only: Some option.case bind.simps Let_def if_False)
      then show ?thesis using fr [of ?t] ok error [of ?t] dl(2,3) by auto
    qed
  qed
qed

subsection \<open>The list as a map\<close>

lemma dpl_view_pushed:
  assumes "dpl_view dl p = None" "dpl_entries dl' = dpl_entries dl @ [d]" "dp_pgno d = p"
  shows "dpl_view dl' = (dpl_view dl)(p \<mapsto> (dp_ptr d, dp_multi d))"
proof
  fix q
  show "dpl_view dl' q = ((dpl_view dl)(p \<mapsto> (dp_ptr d, dp_multi d))) q"
    using assms unfolding dpl_view_def by (auto simp: map_add_def split: option.splits)
qed

lemma dpl_view_removed:
  assumes "dpl_wf dl" "dpl_wf dl'" "1 \<le> k" "k \<le> unat (dl_length dl)" "dp_pgno (dl_items dl ! k) = p"
    and "dpl_entries dl' = take (k - 1) (dpl_entries dl) @ drop k (dpl_entries dl)"
  shows "dpl_view dl' = (dpl_view dl)(p := None)"
proof -
  let ?e = "dpl_entries dl"
  have k: "k - 1 < length ?e" "?e ! (k - 1) = dl_items dl ! k"
    using assms(1,3,4) dpl_entries_nth [of dl "k - 1"] by simp_all
  have split: "?e = take (k - 1) ?e @ dl_items dl ! k # drop k ?e"
    using id_take_nth_drop [OF k(1)] k(2) assms(3) by simp
  have dist: "distinct (map dp_pgno (take (k - 1) ?e @ dl_items dl ! k # drop k ?e))"
    using dpl_wfD(7) [OF assms(1)] split by simp
  have mem: "x \<in> set (dpl_entries dl') \<longleftrightarrow> x \<in> set ?e \<and> dp_pgno x \<noteq> p" for x
  proof -
    have "x \<in> set ?e \<longleftrightarrow> x \<in> set (take (k - 1) ?e) \<or> x = dl_items dl ! k \<or> x \<in> set (drop k ?e)"
      by (subst split) auto
    then show ?thesis using dist assms(5) unfolding assms(6) by (auto simp: image_iff)
  qed
  show ?thesis
  proof
    fix q
    have "dpl_view dl' q = Some v \<longleftrightarrow> ((dpl_view dl)(p := None)) q = Some v" for v
      using mem by (auto simp: dpl_view_Some_iff assms(1,2))
    then show "dpl_view dl' q = ((dpl_view dl)(p := None)) q" by (metis not_Some_eq)
  qed
qed

text \<open>The operations a transaction performs with a page number at hand.\<close>

definition page_find :: "dtxn \<Rightarrow> pgno_t \<Rightarrow> ((page_ptr \<times> bool) option \<times> dtxn) option" where
  "page_find txn p = do {
     dl \<leftarrow> tw_dirtylist txn;
     (i, dl) \<leftarrow> mdbx_dpl_exist dl p;
     let txn = txn\<lparr>tw_dirtylist := Some dl\<rparr>;
     if i = 0 then Some (None, txn)
     else do {
       d \<leftarrow> rd (dl_items dl) (unat i);
       Some (Some (dp_ptr d, dp_multi d), txn)
     }
   }"

definition page_forget :: "dtxn \<Rightarrow> pgno_t \<Rightarrow> dtxn option" where
  "page_forget txn p = do {
     dl \<leftarrow> tw_dirtylist txn;
     (i, dl) \<leftarrow> mdbx_dpl_exist dl p;
     if i = 0 then Some (txn\<lparr>tw_dirtylist := Some dl\<rparr>)
     else do {
       dl \<leftarrow> mdbx_dpl_remove dl i;
       Some (txn\<lparr>tw_dirtylist := Some dl\<rparr>)
     }
   }"

definition dtxn_ok :: "dtxn \<Rightarrow> bool" where
  "dtxn_ok txn \<longleftrightarrow> (case tw_dirtylist txn of None \<Rightarrow> False | Some dl \<Rightarrow> dpl_wf dl)"

definition dtxn_view :: "dtxn \<Rightarrow> pgno_t \<Rightarrow> (page_ptr \<times> bool) option" where
  "dtxn_view txn = (case tw_dirtylist txn of None \<Rightarrow> (\<lambda>_. None) | Some dl \<Rightarrow> dpl_view dl)"

lemma valid_pgno_not_invalid: "valid_pgno p \<Longrightarrow> p \<noteq> P_INVALID"
  by (auto simp: valid_pgno_def P_INVALID_def MAX_PAGENO_def word_le_nat_alt unsigned_minus_1_eq_mask mask_eq_exp_minus_1)

lemma page_find_correct:
  assumes "dtxn_ok txn" "valid_pgno p"
  shows "\<exists>txn'. page_find txn p = Some (dtxn_view txn p, txn') \<and> dtxn_ok txn' \<and> dtxn_view txn' = dtxn_view txn"
proof -
  obtain dl where dl: "tw_dirtylist txn = Some dl" "dpl_wf dl" using assms(1) by (auto simp: dtxn_ok_def split: option.splits)
  obtain i dl' where i: "mdbx_dpl_exist dl p = Some (i, dl')" "dpl_same dl dl'" "i = 0 \<longleftrightarrow> dpl_view dl p = None"
    "i \<noteq> 0 \<longrightarrow> unat i \<le> unat (dl_length dl) \<and> dp_pgno (dl_items dl' ! unat i) = p"
    by (rule mdbx_dpl_exist_correct [OF dl(2) valid_pgno_not_invalid [OF assms(2)]])
  have wf: "dpl_wf dl'" "dl_length dl' = dl_length dl" using i(2) by (simp_all add: dpl_same_def)
  have view: "dpl_view dl' = dpl_view dl" by (rule dpl_same_view [OF dl(2) i(2)])
  let ?t = "txn\<lparr>tw_dirtylist := Some dl'\<rparr>"
  have ok: "dtxn_ok ?t" "dtxn_view ?t = dtxn_view txn" using wf view dl by (simp_all add: dtxn_ok_def dtxn_view_def)
  have "page_find txn p = Some (dpl_view dl p, ?t)"
  proof (cases "i = 0")
    case True
    then show ?thesis using dl i(1,3) by (simp add: page_find_def)
  next
    case False
    have r: "1 \<le> unat i" "unat i \<le> unat (dl_length dl')" using False i(4) wf(2) by (simp_all add: Suc_le_eq unat_gt_0)
    have "dl_items dl' ! unat i \<in> set (dpl_entries dl')" by (rule dpl_entry_in [OF wf(1) r])
    then have "dpl_view dl p = Some (dp_ptr (dl_items dl' ! unat i), dp_multi (dl_items dl' ! unat i))"
      using i(4) False dpl_view_Some_iff [OF wf(1)] view by metis
    then show ?thesis using False dl i(1) r dpl_wfD(2) [OF wf(1)] by (simp add: page_find_def rd_in)
  qed
  then show ?thesis using ok dl by (simp add: dtxn_view_def)
qed

lemma page_forget_correct:
  assumes "dtxn_ok txn" "valid_pgno p"
  shows "\<exists>txn'. page_forget txn p = Some txn' \<and> dtxn_ok txn' \<and> dtxn_view txn' = (dtxn_view txn)(p := None)"
proof -
  obtain dl where dl: "tw_dirtylist txn = Some dl" "dpl_wf dl" using assms(1) by (auto simp: dtxn_ok_def split: option.splits)
  obtain i dl' where i: "mdbx_dpl_exist dl p = Some (i, dl')" "dpl_same dl dl'" "i = 0 \<longleftrightarrow> dpl_view dl p = None"
    "i \<noteq> 0 \<longrightarrow> unat i \<le> unat (dl_length dl) \<and> dp_pgno (dl_items dl' ! unat i) = p"
    by (rule mdbx_dpl_exist_correct [OF dl(2) valid_pgno_not_invalid [OF assms(2)]])
  have wf: "dpl_wf dl'" "dl_length dl' = dl_length dl" using i(2) by (simp_all add: dpl_same_def)
  have view: "dpl_view dl' = dpl_view dl" by (rule dpl_same_view [OF dl(2) i(2)])
  show ?thesis
  proof (cases "i = 0")
    case True
    then have "(dpl_view dl)(p := None) = dpl_view dl" using i(3) by auto
    then show ?thesis
      using True dl i(1) wf view by (simp add: page_forget_def dtxn_ok_def dtxn_view_def)
  next
    case False
    have r: "1 \<le> unat i" "unat i \<le> unat (dl_length dl')" using False i(4) wf(2) by (simp_all add: Suc_le_eq unat_gt_0)
    obtain dl2 where dl2: "mdbx_dpl_remove dl' i = Some dl2" "dpl_wf dl2"
      "dpl_entries dl2 = take (unat i - 1) (dpl_entries dl') @ drop (unat i) (dpl_entries dl')"
      using mdbx_dpl_remove_correct [OF wf(1) r] by blast
    have "dpl_view dl2 = (dpl_view dl)(p := None)"
      using dpl_view_removed [OF wf(1) dl2(2) r _ dl2(3)] i(4) False view by simp
    then show ?thesis
      using False dl i(1) dl2(1,2) by (simp add: page_forget_def dtxn_ok_def dtxn_view_def)
  qed
qed

lemma page_append_correct:
  assumes "dpl_malloc_ok malloc" "dtxn_ok txn" "valid_pgno p" "dtxn_view txn p = None"
  shows "\<exists>rc txn'. mdbx_dpl_append malloc txn p page npages = Some (rc, txn') \<and> dtxn_ok txn' \<and>
    dtxn_view txn' = (if rc = MDBX_SUCCESS then (dtxn_view txn)(p \<mapsto> (page, npages > 1)) else dtxn_view txn)"
proof -
  obtain dl where dl: "tw_dirtylist txn = Some dl" "dpl_wf dl" using assms(2) by (auto simp: dtxn_ok_def split: option.splits)
  have fresh: "dpl_view dl p = None" using assms(4) dl by (simp add: dtxn_view_def)
  have p: "MIN_PAGENO \<le> p" "p \<le> MAX_PAGENO" using assms(3) by (simp_all add: valid_pgno_def)
  show ?thesis
  proof (cases rule: mdbx_dpl_append_correct [OF assms(1) dl fresh p, of page npages])
    case (1 rc)
    then show ?thesis using assms(2) by auto
  next
    case (2 dl')
    have "dpl_view dl' = (dpl_view dl)(p \<mapsto> (page, npages > 1))"
      using dpl_view_pushed [OF fresh 2(3)] by (simp add: new_dp_def)
    then show ?thesis using 2(1,2) dl by (auto simp: dtxn_ok_def dtxn_view_def)
  qed
qed

subsection \<open>Overlap with a run of pages\<close>

definition entry_pages :: "(page_ptr \<Rightarrow> u32) \<Rightarrow> dp \<Rightarrow> nat" where
  "entry_pages pages d = (if dp_multi d then unat (pages (dp_ptr d)) else 1)"

text \<open>The runs of the entries lie in the file, one after the other.\<close>

definition runs_ok :: "(page_ptr \<Rightarrow> u32) \<Rightarrow> dpl \<Rightarrow> bool" where
  "runs_ok pages dl \<longleftrightarrow>
     (\<forall>d \<in> set (dpl_entries dl). 1 \<le> entry_pages pages d \<and> unat (dp_pgno d) + entry_pages pages d \<le> 2 ^ 31) \<and>
     (\<forall>i j. 1 \<le> i \<longrightarrow> i < j \<longrightarrow> j \<le> unat (dl_length dl) \<longrightarrow>
        unat (dp_pgno (dl_items dl ! i)) + entry_pages pages (dl_items dl ! i) \<le> unat (dp_pgno (dl_items dl ! j)))"

definition overlaps :: "(page_ptr \<Rightarrow> u32) \<Rightarrow> pgno_t \<Rightarrow> u32 \<Rightarrow> dp \<Rightarrow> bool" where
  "overlaps pages p n d \<longleftrightarrow>
     unat (dp_pgno d) < unat p + unat n \<and> unat p < unat (dp_pgno d) + entry_pages pages d"

lemma dpl_endpgno_correct:
  assumes "i < length (dl_items dl)" "unat (i' :: u32) = i"
    and "unat (dp_pgno (dl_items dl ! i)) + entry_pages pages (dl_items dl ! i) < 2 ^ 32"
  shows "\<exists>e. dpl_endpgno pages dl i' = Some e \<and>
           unat e = unat (dp_pgno (dl_items dl ! i)) + entry_pages pages (dl_items dl ! i)"
proof -
  let ?d = "dl_items dl ! i"
  let ?n = "if \<not> dp_multi ?d then 1 else pages (dp_ptr ?d) :: u32"
  have "unat ?n = entry_pages pages ?d" by (simp add: entry_pages_def)
  then have "unat (?n + dp_pgno ?d) = unat (dp_pgno ?d) + entry_pages pages ?d"
    using assms(3) by (subst unat_add_lt) simp_all
  moreover have "dpl_endpgno pages dl i' = Some (?n + dp_pgno ?d)"
    using assms(1,2) by (simp add: dpl_endpgno_def dpl_npages_def rd_in)
  ultimately show ?thesis by blast
qed

lemma mdbx_dpl_intersect_correct:
  assumes "dpl_wf dl" "dl_sorted dl = dl_length dl" "runs_ok pages dl" "valid_pgno p" "unat p + unat n \<le> 2 ^ 31"
    and "0 < unat n"
  shows "mdbx_dpl_intersect pages dl p n = Some (\<exists>d \<in> set (dpl_entries dl). overlaps pages p n d, dl)"
proof -
  note w = dpl_wfD [OF assms(1)]
  define len where "len = unat (dl_length dl)"
  have len: "2 * len + 18 \<le> length (dl_items dl)" "len < 2 ^ 31" using w(2,3) by (simp_all add: len_def)
  obtain i dl' where s: "mdbx_dpl_search dl p = Some (of_nat i, dl')" "dpl_found dl p i dl'"
    by (rule mdbx_dpl_search_correct [OF assms(1)])
  have dl': "dl' = dl" and i: "1 \<le> i" "i \<le> len + 1" and pp: "partition_point dp_search_cmp (dl_items dl) 1 len p i"
    using s(2) assms(2) unfolding dpl_found_def len_def by blast+
  have below: "unat (dp_pgno (dl_items dl ! j)) < unat p" if "1 \<le> j" "j < i" for j
    using pp that by (simp add: partition_point_def dp_search_cmp_def word_less_nat_alt)
  have above: "unat p \<le> unat (dp_pgno (dl_items dl ! j))" if "i \<le> j" "j \<le> len" for j
    using pp that by (simp add: partition_point_def dp_search_cmp_def word_less_nat_alt not_less)
  have apart: "unat (dp_pgno (dl_items dl ! j)) + entry_pages pages (dl_items dl ! j) \<le> unat (dp_pgno (dl_items dl ! k))"
    if "1 \<le> j" "j < k" "k \<le> len" for j k
    using assms(3) that unfolding runs_ok_def len_def by blast
  have sized: "1 \<le> entry_pages pages (dl_items dl ! j) \<and>
      unat (dp_pgno (dl_items dl ! j)) + entry_pages pages (dl_items dl ! j) \<le> 2 ^ 31" if "1 \<le> j" "j \<le> len" for j
    using assms(3) dpl_entry_in [OF assms(1), of j] that unfolding runs_ok_def len_def by blast
  have ui: "unat (of_nat i :: u32) = i" "unat (of_nat i - 1 :: u32) = i - 1"
  proof -
    show u: "unat (of_nat i :: u32) = i" using i len by (intro unat_of_nat_lt) simp
    have "(1 :: u32) \<le> of_nat i" unfolding word_le_nat_alt u using i(1) by simp
    then show "unat (of_nat i - 1 :: u32) = i - 1" using unat_sub_le [of 1 "of_nat i :: u32"] u by simp
  qed
  have pn: "unat (p + n) = unat p + unat n" using assms(5) by (subst unat_add_lt) simp_all
  have inr: "i < length (dl_items dl)" using i(2) len(1) by simp
  have found: "p + n > dp_pgno (dl_items dl ! i) \<longleftrightarrow> i \<le> len \<and> overlaps pages p n (dl_items dl ! i)"
  proof (cases "i \<le> len")
    case True
    then show ?thesis using above [of i] sized [of i] i(1) pn by (auto simp: overlaps_def word_less_nat_alt)
  next
    case False
    then have "i = unat (dl_length dl) + 1" using i(2) by (simp add: len_def)
    then have "dl_items dl ! i = dpl_stubE" using w(5) by simp
    then have "unat (dp_pgno (dl_items dl ! i)) = 2 ^ 32 - 1"
      by (simp add: dpl_stubE_def P_INVALID_def unsigned_minus_1_eq_mask mask_eq_exp_minus_1)
    then show ?thesis using False pn assms(5) by (simp add: word_less_nat_alt)
  qed
  have e: "\<exists>e. dpl_endpgno pages dl (of_nat i - 1) = Some e \<and>
      (e > p \<longleftrightarrow> 2 \<le> i \<and> overlaps pages p n (dl_items dl ! (i - 1)))"
  proof (cases "i = 1")
    case True
    have "entry_pages pages (dl_items dl ! 0) = 1" "unat (dp_pgno (dl_items dl ! 0)) = 0"
      using w(4) by (simp_all add: entry_pages_def dpl_stubB_def)
    moreover have "0 < length (dl_items dl)" using inr by linarith
    ultimately obtain e where "dpl_endpgno pages dl (of_nat i - 1) = Some e" "unat e = 1"
      using dpl_endpgno_correct [of 0 dl "of_nat i - 1" pages] ui(2) True by auto
    moreover have "3 \<le> unat p" using assms(4) by (simp add: valid_pgno_def MIN_PAGENO_def word_le_nat_alt)
    ultimately show ?thesis using True by (auto simp: word_less_nat_alt)
  next
    case False
    then have r: "1 \<le> i - 1" "i - 1 \<le> len" "i - 1 < i" "i - 1 < length (dl_items dl)" using i inr by simp_all
    obtain e where "dpl_endpgno pages dl (of_nat i - 1) = Some e"
      "unat e = unat (dp_pgno (dl_items dl ! (i - 1))) + entry_pages pages (dl_items dl ! (i - 1))"
      using dpl_endpgno_correct [OF r(4) ui(2), of pages] sized [OF r(1,2)] by auto
    then show ?thesis
      using below [OF r(1,3)] r(1) by (auto simp: overlaps_def word_less_nat_alt)
  qed
  have any: "(\<exists>d \<in> set (dpl_entries dl). overlaps pages p n d) \<longleftrightarrow>
      i \<le> len \<and> overlaps pages p n (dl_items dl ! i) \<or> 2 \<le> i \<and> overlaps pages p n (dl_items dl ! (i - 1))"
    (is "?L \<longleftrightarrow> ?R")
  proof
    assume ?L
    then obtain d where d: "d \<in> set (dpl_entries dl)" "overlaps pages p n d" by blast
    obtain j0 where "j0 < len" "d = dpl_entries dl ! j0"
      using d(1) length_dpl_entries [OF assms(1)] by (auto simp: in_set_conv_nth len_def)
    then have j: "1 \<le> j0 + 1" "j0 + 1 \<le> len" "d = dl_items dl ! (j0 + 1)"
      using dpl_entries_nth [OF assms(1), of j0] by (simp_all add: len_def)
    have "i \<le> len \<and> overlaps pages p n (dl_items dl ! i)" if lt: "i < j0 + 1"
    proof -
      have "unat (dp_pgno (dl_items dl ! i)) + entry_pages pages (dl_items dl ! i) \<le> unat (dp_pgno d)"
        using apart [OF i(1) lt j(2)] j(3) by simp
      then show ?thesis
        using above [of i] sized [of i] i lt j(2) d(2) by (auto simp: overlaps_def)
    qed
    moreover have "\<not> j0 + 1 < i - 1"
    proof
      assume lt: "j0 + 1 < i - 1"
      then have r: "1 \<le> i - 1" "i - 1 < i" "i - 1 \<le> len" using i by simp_all
      have "unat (dp_pgno d) + entry_pages pages d \<le> unat (dp_pgno (dl_items dl ! (i - 1)))"
        using apart [OF j(1) lt r(3)] j(3) by simp
      then show False using below [OF r(1,2)] d(2) by (simp add: overlaps_def)
    qed
    ultimately have "i \<le> len \<and> overlaps pages p n (dl_items dl ! i) \<or> j0 + 1 = i \<or> j0 + 1 = i - 1" by linarith
    then show ?R
    proof (elim disjE)
      assume "j0 + 1 = i - 1"
      then have "2 \<le> i" "dl_items dl ! (i - 1) = d" using j by simp_all
      then show ?R using d(2) by simp
    qed (use j d(2) in auto)
  next
    assume ?R
    then consider "i \<le> len" "overlaps pages p n (dl_items dl ! i)"
      | "1 \<le> i - 1" "i - 1 \<le> len" "overlaps pages p n (dl_items dl ! (i - 1))" using i by linarith
    then show ?L using dpl_entry_in [OF assms(1)] i(1) unfolding len_def by cases blast+
  qed
  obtain e' where e': "dpl_endpgno pages dl (of_nat i - 1) = Some e'"
      "e' > p \<longleftrightarrow> 2 \<le> i \<and> overlaps pages p n (dl_items dl ! (i - 1))" using e by blast
  show ?thesis
    using s(1) inr ui(1) e'(1) unfolding any found [symmetric] e'(2) [symmetric]
    by (simp add: mdbx_dpl_intersect_def dl' rd_in)
qed

subsection \<open>The contract of the page table\<close>

definition dirty_entry :: "page_ptr \<times> u32 \<Rightarrow> page_ptr \<times> bool" where
  "dirty_entry v = (fst v, snd v > 1)"

definition page_insert ::
    "dpl_allocator \<Rightarrow> dtxn \<Rightarrow> pgno_t \<Rightarrow> page_ptr \<times> u32 \<Rightarrow> (mdbx_error \<times> dtxn) option" where
  "page_insert malloc txn p v = mdbx_dpl_append malloc txn p (fst v) (snd v)"

text \<open>An allocator that keeps its promise makes the dirty list a page table.\<close>

locale page_allocator =
  fixes malloc :: dpl_allocator
  assumes alloc_law: "dpl_malloc_ok malloc"
begin

lemma insert_keeps_table:
  "dtxn_ok txn \<Longrightarrow> valid_pgno p \<Longrightarrow> dtxn_view txn p = None \<Longrightarrow>
   \<exists>rc txn'. page_insert malloc txn p v = Some (rc, txn') \<and> dtxn_ok txn' \<and>
     dtxn_view txn' = (if rc = MDBX_SUCCESS then (dtxn_view txn)(p \<mapsto> dirty_entry v) else dtxn_view txn)"
  unfolding page_insert_def dirty_entry_def by (rule page_append_correct [OF alloc_law])

end

sublocale page_allocator \<subseteq> dirty: page_table dtxn_ok dtxn_view dirty_entry page_find "page_insert malloc" page_forget
  by unfold_locales (fact page_find_correct insert_keeps_table page_forget_correct)+

context page_allocator begin

lemma dirty_run_refines:
  "dtxn_ok txn \<Longrightarrow>
   ops_legal (table_step page_find (page_insert malloc) page_forget) (\<lambda>s. op_legal (dtxn_view s)) txn ops \<Longrightarrow>
   \<exists>outs txn'. table_run (table_step page_find (page_insert malloc) page_forget) txn ops = Some (outs, txn') \<and>
     dtxn_ok txn' \<and> spec_run dirty_entry (dtxn_view txn) ops outs = Some (dtxn_view txn')"
  by (rule dirty.run_refines)

end

definition demo_dpl_malloc :: dpl_allocator where
  "demo_dpl_malloc n =
     (if unat n div 16 < 2 ^ 32
      then Some \<lparr>dl_sorted = 0, dl_length = 0, dl_detent = 0, dl_items = replicate (unat n div 16) dpl_stubE\<rparr>
      else None)"

lemma demo_dpl_malloc_ok: "dpl_malloc_ok demo_dpl_malloc"
  unfolding dpl_malloc_ok_def demo_dpl_malloc_def by auto

interpretation demo_pages: page_allocator demo_dpl_malloc
  by unfold_locales (rule demo_dpl_malloc_ok)

definition demo_entry :: "pgno_t \<Rightarrow> dp" where
  "demo_entry p = \<lparr>dp_ptr = Page_at (unat p * 4096), dp_pgno = p, dp_multi = False, dp_lru = 0\<rparr>"

definition demo_dpl :: dpl where
  "demo_dpl = \<lparr>dl_sorted = 2, dl_length = 3, dl_detent = 3,
     dl_items = [dpl_stubB, demo_entry 10, demo_entry 20, demo_entry 15] @ replicate 20 dpl_stubE\<rparr>"

definition demo_dtxn :: dtxn where
  "demo_dtxn = \<lparr>tw_dirtylist = Some demo_dpl, tw_dirtylru = 3, opt_dp_initial = 1018, mt_geo_upper = 100000\<rparr>"

lemma demo_dpl_wf: "dpl_wf demo_dpl"
  by (simp add: dpl_wf_def demo_dpl_def dpl_entries_def seg_def demo_entry_def MIN_PAGENO_def MAX_PAGENO_def)

lemma demo_dtxn_ok: "dtxn_ok demo_dtxn"
  by (simp add: dtxn_ok_def demo_dtxn_def demo_dpl_wf)

subsection \<open>Properties\<close>

text \<open>
  C36: the dirty-page list of a write transaction refines a finite map from page numbers to
  pages: whatever sequence of additions of absent pages, lookups and removals a transaction
  performs, every step runs inside the allocated block, every lookup answers as the map does,
  a failed addition changes nothing, and the list stays well formed.
\<close>

theorem dirty_list_refines_map:
  assumes "dpl_malloc_ok malloc" "dtxn_ok txn"
    and "ops_legal (table_step page_find (page_insert malloc) page_forget) (\<lambda>s. op_legal (dtxn_view s)) txn ops"
  shows "\<exists>outs txn'. table_run (table_step page_find (page_insert malloc) page_forget) txn ops = Some (outs, txn') \<and>
           dtxn_ok txn' \<and> spec_run dirty_entry (dtxn_view txn) ops outs = Some (dtxn_view txn')"
  by (rule page_allocator.dirty_run_refines [OF page_allocator.intro [OF assms(1)] assms(2,3)])

theorem dirty_list_refines_map_witness:
  "\<exists>outs txn'. table_run (table_step page_find (page_insert demo_dpl_malloc) page_forget) demo_dtxn
       [Insert 12 (Page_at 4096, 3), Find 12, Forget 10, Find 10, Find 20] = Some (outs, txn') \<and> dtxn_ok txn' \<and>
     spec_run dirty_entry (dtxn_view demo_dtxn)
       [Insert 12 (Page_at 4096, 3), Find 12, Forget 10, Find 10, Find 20] outs = Some (dtxn_view txn')"
proof (rule dirty_list_refines_map [OF demo_dpl_malloc_ok demo_dtxn_ok])
  have "list_all no_insert [Find 12, Forget 10, Find 10, Find 20 :: (page_ptr \<times> u32) table_op]"
    by (simp add: valid_pgno_def MIN_PAGENO_def MAX_PAGENO_def)
  moreover have "op_legal (dtxn_view demo_dtxn) (Insert 12 (Page_at 4096, 3 :: u32))"
    by (simp add: valid_pgno_def MIN_PAGENO_def MAX_PAGENO_def dtxn_view_def demo_dtxn_def dpl_view_None_iff
        dpl_entries_def demo_dpl_def seg_def demo_entry_def)
  ultimately show "ops_legal (table_step page_find (page_insert demo_dpl_malloc) page_forget)
      (\<lambda>s. op_legal (dtxn_view s)) demo_dtxn [Insert 12 (Page_at 4096, 3), Find 12, Forget 10, Find 10, Find 20]"
    by (rule then_no_inserts_legal [rotated])
qed

text \<open>
  A new transaction gets an empty well-formed dirty list with room for the wanted number of
  pages, whether it reuses the previous list, grows it or shrinks it; without memory the list it
  had stays usable and empty.
\<close>

theorem dpl_alloc_gives_empty_list:
  assumes "dpl_malloc_ok malloc" "\<forall>dl. tw_dirtylist txn = Some dl \<longrightarrow> dpl_wf dl"
  shows "\<exists>rc txn'. mdbx_dpl_alloc malloc txn = Some (rc, txn') \<and> dtxn_view txn' = Map.empty \<and>
           (rc = MDBX_SUCCESS \<and> dtxn_ok txn' \<or> rc = MDBX_ENOMEM)"
proof (cases rule: mdbx_dpl_alloc_correct [OF assms])
  case (1 txn')
  then have "dtxn_view txn' = Map.empty" by (auto simp: dtxn_view_def dpl_view_def split: option.split)
  then show ?thesis using 1(1) by blast
next
  case (2 dl)
  then show ?thesis by (auto simp: dtxn_view_def dtxn_ok_def dpl_view_def)
qed

theorem dpl_alloc_gives_empty_list_witness:
  "\<exists>rc txn'. mdbx_dpl_alloc demo_dpl_malloc demo_dtxn = Some (rc, txn') \<and> dtxn_view txn' = Map.empty \<and>
     (rc = MDBX_SUCCESS \<and> dtxn_ok txn' \<or> rc = MDBX_ENOMEM)"
  by (rule dpl_alloc_gives_empty_list [OF demo_dpl_malloc_ok]) (simp add: demo_dtxn_def demo_dpl_wf)

text \<open>
  C37: sorting the dirty list, by merging, by quick sort or by radix sort, stays inside the block
  and yields the same entries in strictly increasing page order.
\<close>

theorem dpl_sort_orders:
  assumes "dpl_wf dl"
  shows "\<exists>dl'. mdbx_dpl_sort dl = Some dl' \<and> dpl_wf dl' \<and> dl_sorted dl' = dl_length dl' \<and>
           mset (dpl_entries dl') = mset (dpl_entries dl) \<and> sorted_wrt (<) (map dp_pgno (dpl_entries dl'))"
proof -
  obtain dl' where dl': "mdbx_dpl_sort dl = Some dl'" "dpl_resorted dl dl'"
    using mdbx_dpl_sort_correct [OF assms] by blast
  then have wf: "dpl_wf dl'" "dl_sorted dl' = dl_length dl'" "mset (dpl_entries dl') = mset (dpl_entries dl)"
    by (simp_all add: dpl_resorted_def)
  have "increasing (dpl_entries dl')" using dpl_wfD(6) [OF wf(1)] wf(2) by (simp add: dpl_entries_def)
  then have "sorted_wrt (<) (map dp_pgno (dpl_entries dl'))"
    by (simp add: increasing_def sorted_wrt_map dp_sort_cmp_def [abs_def])
  then show ?thesis using dl'(1) wf by blast
qed

theorem dpl_sort_orders_witness:
  "\<exists>dl'. mdbx_dpl_sort demo_dpl = Some dl' \<and> sorted_wrt (<) (map dp_pgno (dpl_entries dl'))"
  using dpl_sort_orders [OF demo_dpl_wf] by blast

text \<open>
  The intersection test of a sorted dirty list answers, for a run of pages, whether one of
  the dirty pages overlaps it, multi-page entries included, and reads no cell outside the list.
\<close>

theorem dpl_intersect_decides:
  assumes "dpl_wf dl" "dl_sorted dl = dl_length dl" "runs_ok pages dl" "valid_pgno p" "unat p + unat n \<le> 2 ^ 31"
    and "0 < unat n"
  shows "map_option fst (mdbx_dpl_intersect pages dl p n) =
    Some (\<exists>d \<in> set (dpl_entries dl). unat (dp_pgno d) < unat p + unat n \<and>
            unat p < unat (dp_pgno d) + (if dp_multi d then unat (pages (dp_ptr d)) else 1))"
  using mdbx_dpl_intersect_correct [OF assms] by (simp add: overlaps_def entry_pages_def)

definition demo_sorted_dpl :: dpl where
  "demo_sorted_dpl = \<lparr>dl_sorted = 2, dl_length = 2, dl_detent = 3,
     dl_items = [dpl_stubB, (demo_entry 10)\<lparr>dp_multi := True\<rparr>, demo_entry 20] @ replicate 21 dpl_stubE\<rparr>"

theorem dpl_intersect_decides_witness:
  "map_option fst (mdbx_dpl_intersect (\<lambda>_. 4) demo_sorted_dpl 13 2) = Some True"
proof -
  have wf: "dpl_wf demo_sorted_dpl"
    by (simp add: dpl_wf_def demo_sorted_dpl_def dpl_entries_def seg_def demo_entry_def MIN_PAGENO_def MAX_PAGENO_def)
  have runs: "runs_ok (\<lambda>_. 4) demo_sorted_dpl"
    unfolding runs_ok_def
  proof (intro conjI allI impI)
    fix i j :: nat assume "1 \<le> i" "i < j" "j \<le> unat (dl_length demo_sorted_dpl)"
    then have "i = 1 \<and> j = 2" by (auto simp: demo_sorted_dpl_def)
    then show "unat (dp_pgno (dl_items demo_sorted_dpl ! i)) + entry_pages (\<lambda>_. 4) (dl_items demo_sorted_dpl ! i)
        \<le> unat (dp_pgno (dl_items demo_sorted_dpl ! j))"
      by (simp add: demo_sorted_dpl_def demo_entry_def entry_pages_def)
  qed (simp add: demo_sorted_dpl_def dpl_entries_def seg_def demo_entry_def entry_pages_def)
  have "valid_pgno 13" by (simp add: valid_pgno_def MIN_PAGENO_def MAX_PAGENO_def)
  from dpl_intersect_decides [OF wf _ runs this, of 2] show ?thesis
    by (simp add: demo_sorted_dpl_def dpl_entries_def seg_def demo_entry_def)
qed

end
