(* ===== verification/Write_Worker.thy ===== *)
theory Write_Worker
  imports Result_Codes Compression
begin

text \<open>
  The writer thread of the binding (\<open>src/writer.cpp\<close>): its state, the steps with which it
  lets the JavaScript thread run, and the two calls with which the JavaScript thread takes
  the write transaction over and gives it back.  The storage engine behind the transaction
  and the other threads are parameters.
\<close>

subsection \<open>The storage engine\<close>

text \<open>
  The calls of libmdbx that the writer makes on its transaction: the operations on
  \<open>MDBX_txn\<close>, which move the transaction state \<open>'s\<close> and may write the memory map.
\<close>

record 's engine =
  mdbx_get :: "'s \<Rightarrow> mem \<Rightarrow> u32 \<Rightarrow> mdbx_val \<Rightarrow> mdbx_val \<Rightarrow> int \<times> mdbx_val"
  mdbx_put :: "'s \<Rightarrow> mem \<Rightarrow> u32 \<Rightarrow> mdbx_val \<Rightarrow> mdbx_val \<Rightarrow> u32 \<Rightarrow> int \<times> 's \<times> mem \<times> mdbx_val"
  mdbx_del :: "'s \<Rightarrow> mem \<Rightarrow> u32 \<Rightarrow> mdbx_val \<Rightarrow> mdbx_val option \<Rightarrow> int \<times> 's \<times> mem"
  mdbx_drop :: "'s \<Rightarrow> mem \<Rightarrow> u32 \<Rightarrow> bool \<Rightarrow> int \<times> 's \<times> mem"
  mdbx_txn_begin :: "'s \<Rightarrow> mem \<Rightarrow> int \<times> 's \<times> mem"
  mdbx_txn_commit :: "'s \<Rightarrow> mem \<Rightarrow> int \<times> 's \<times> mem"
  mdbx_txn_abort :: "'s \<Rightarrow> mem \<Rightarrow> 's \<times> mem"

subsection \<open>The state of the worker\<close>

definition INTERRUPT_BATCH :: int where "INTERRUPT_BATCH = 9998"
definition ALLOW_COMMIT :: int where "ALLOW_COMMIT = 9997"
definition RESTART_WORKER_TXN :: int where "RESTART_WORKER_TXN = 9999"
definition USER_HAS_LOCK :: int where "USER_HAS_LOCK = 9995"

definition TXN_SYNCHRONOUS_COMMIT :: u32 where "TXN_SYNCHRONOUS_COMMIT = 2"
definition TXN_FROM_WORKER :: u32 where "TXN_FROM_WORKER = 4"

text \<open>
  The fields of \<open>WriteWorker\<close>, the memory it shares with the JavaScript thread and the state
  of the transaction.  \<open>txn_live\<close> says whether the pointer \<open>txn\<close> is not null, \<open>locked\<close> whether
  the writer holds \<open>writingLock\<close>; \<open>waits\<close> counts the times the writer has let the others run.
\<close>

record 's worker =
  memory :: mem
  txn_state :: 's
  txn_live :: bool
  finishedProgress :: bool
  interruptionStatus :: int
  progressStatus :: int
  error_message :: "string option"
  worker_instructions :: nat
  locked :: bool
  waits :: nat

text \<open>
  What surrounds the writer: the engine, the LZ4 codec, the compression settings found at an
  address, the address that \<open>new char[]\<close> returns, the C library's \<open>strerror\<close>, and what the
  other threads do between two steps of the writer: at its \<open>n\<close>-th wait, and just before its
  compare-and-swap of a flag word; \<open>signalled\<close> says whether a wait without a time limit is ended by
  a signal at all.
\<close>

record 's surroundings =
  eng :: "'s engine"
  codec :: lz4
  compression_at :: "nat \<Rightarrow> compression"
  new_chars :: "nat \<Rightarrow> nat"
  os_strerror :: "int \<Rightarrow> string option"
  others :: "nat \<Rightarrow> 's worker \<Rightarrow> 's worker"
  signalled :: "nat \<Rightarrow> 's worker \<Rightarrow> bool"

definition ReportError :: "string \<Rightarrow> 's worker \<Rightarrow> 's worker" where
  "ReportError e st = st\<lparr>error_message := Some e\<rparr>"

subsection \<open>Waiting\<close>

text \<open>
  \<open>cond_timedwait\<close>: the lock is given away and the others run.  \<open>pthread_cond_wait\<close> goes on only when
  it is signalled; \<^const>\<open>None\<close> when that never happens.
\<close>

definition let_others_run :: "'s surroundings \<Rightarrow> 's worker \<Rightarrow> 's worker" where
  "let_others_run E st = (others E (waits st) st)\<lparr>waits := waits st + 1\<rparr>"

text \<open>
  \<open>do cond_timedwait while(!((*target & 0xf) || (allowCommit && (interruptionStatus ==
  INTERRUPT_BATCH || finishedProgress))))\<close>; \<^const>\<open>None\<close> when it never ends.
\<close>

definition target_ready :: "bool \<Rightarrow> nat \<Rightarrow> 's worker \<Rightarrow> bool" where
  "target_ready allowCommit target st \<longleftrightarrow>
     ld32 (memory st) target AND 0xf \<noteq> 0 \<or>
     allowCommit \<and> (interruptionStatus st = INTERRUPT_BATCH \<or> finishedProgress st)"

partial_function (option) wait_target ::
    "'s surroundings \<Rightarrow> bool \<Rightarrow> nat \<Rightarrow> 's worker \<Rightarrow> 's worker option" where
  "wait_target E allowCommit target st =
     (let st = let_others_run E st
      in if target_ready allowCommit target st then Some st
         else wait_target E allowCommit target st)"

definition cond_wait :: "'s surroundings \<Rightarrow> 's worker \<Rightarrow> 's worker option" where
  "cond_wait E st = (if signalled E (waits st) st then Some (let_others_run E st) else None)"

text \<open>
  What an interrupted writer does until it signals the JavaScript thread: it commits its transaction,
  and if that succeeds it has none.
\<close>

definition commit_batch :: "('s \<Rightarrow> mem \<Rightarrow> int \<times> 's \<times> mem) \<Rightarrow> 's worker \<Rightarrow> 's worker \<times> int" where
  "commit_batch commit st =
     (let (rc, s, m) = commit (txn_state st) (memory st);
          st = st\<lparr>interruptionStatus := RESTART_WORKER_TXN, txn_state := s, memory := m\<rparr>
      in (if rc = 0 then st\<lparr>txn_live := False\<rparr> else st, rc))"

text \<open>And when the JavaScript thread has signalled it: it begins another transaction.\<close>

definition restart_batch :: "'s surroundings \<Rightarrow> 's worker \<Rightarrow> 's worker \<times> int" where
  "restart_batch E st =
     (let (rc, s, m) = mdbx_txn_begin (eng E) (txn_state st) (memory st)
      in (st\<lparr>txn_state := s, memory := m, txn_live := (rc = 0), interruptionStatus := 0\<rparr>, rc))"

definition commit_for_interrupt :: "'s surroundings \<Rightarrow> 's worker \<Rightarrow> ('s worker \<times> int) option" where
  "commit_for_interrupt E st =
     (let (st, rc) = commit_batch (mdbx_txn_commit (eng E)) st
      in if rc = 0 then map_option (restart_batch E) (cond_wait E st) else Some (st, rc))"

definition WaitForCallbacks ::
    "'s surroundings \<Rightarrow> bool \<Rightarrow> nat option \<Rightarrow> 's worker \<Rightarrow> ('s worker \<times> int) option" where
  "WaitForCallbacks E allowCommit target st =
     do {
       let st = st\<lparr>interruptionStatus := (if allowCommit then ALLOW_COMMIT else 0)\<rparr>;
       st \<leftarrow> (case target of
               Some t \<Rightarrow> wait_target E allowCommit t st
             | None \<Rightarrow> cond_wait E st);
       if interruptionStatus st = INTERRUPT_BATCH then commit_for_interrupt E st
       else Some (st\<lparr>interruptionStatus := 0\<rparr>, 0)
     }"

subsection \<open>Taking the transaction over\<close>

text \<open>
  \<open>WriteWorker::AcquireTxn\<close> on the JavaScript thread, with the flags in and out.  The result
  says whether the caller gets the worker's transaction (\<open>return txn\<close>); \<open>run_worker\<close> is what
  the worker does until it signals the caller, \<^const>\<open>None\<close> when it never does and the caller waits
  for ever.
\<close>

definition AcquireTxn ::
    "('s worker \<Rightarrow> 's worker option) \<Rightarrow> u32 \<Rightarrow> 's worker \<Rightarrow> ('s worker \<times> u32 \<times> bool) option" where
  "AcquireTxn run_worker flags st =
     (let commitSynchronously = (flags AND TXN_SYNCHRONOUS_COMMIT \<noteq> 0);
          st = st\<lparr>locked := True\<rparr>
      in if commitSynchronously \<and> interruptionStatus st = ALLOW_COMMIT
         then map_option (\<lambda>st. (st, flags OR TXN_FROM_WORKER, False))
                (run_worker (st\<lparr>interruptionStatus := INTERRUPT_BATCH\<rparr>))
         else Some (st\<lparr>interruptionStatus := USER_HAS_LOCK\<rparr>, flags OR TXN_FROM_WORKER, txn_live st))"

definition UnlockTxn :: "'s worker \<Rightarrow> 's worker" where
  "UnlockTxn st = st\<lparr>interruptionStatus := 0, locked := False\<rparr>"

end
