(* ===== verification/Write_Instructions.thy ===== *)
theory Write_Instructions
  imports Write_Worker
begin

text \<open>
  The interpreter of write instructions (\<open>DoWrites\<close> of \<open>src/writer.cpp\<close>): the JavaScript side
  lays the instructions out in shared memory, the writer reads the operands, tests the
  conditions, calls the engine and ORs the outcome into the instruction's flag word.
\<close>

subsection \<open>Flags\<close>

definition NO_INSTRUCTION_YET :: u32 where "NO_INSTRUCTION_YET = 0"
definition PUT :: u32 where "PUT = 15"
definition DEL :: u32 where "DEL = 13"
definition DEL_VALUE :: u32 where "DEL_VALUE = 14"
definition START_CONDITION_BLOCK :: u32 where "START_CONDITION_BLOCK = 4"
definition START_CONDITION_VALUE_BLOCK :: u32 where "START_CONDITION_VALUE_BLOCK = 6"
definition START_BLOCK :: u32 where "START_BLOCK = 1"
definition BLOCK_END :: u32 where "BLOCK_END = 2"
definition POINTER_NEXT :: u32 where "POINTER_NEXT = 3"
definition USER_CALLBACK :: u32 where "USER_CALLBACK = 8"
definition USER_CALLBACK_STRICT_ORDER :: u32 where "USER_CALLBACK_STRICT_ORDER = 0x100000"
definition DROP_DB :: u32 where "DROP_DB = 12"
definition HAS_KEY :: u32 where "HAS_KEY = 4"
definition HAS_VALUE :: u32 where "HAS_VALUE = 2"
definition CONDITIONAL :: u32 where "CONDITIONAL = 8"
definition CONDITIONAL_VERSION :: u32 where "CONDITIONAL_VERSION = 0x100"
definition SET_VERSION :: u32 where "SET_VERSION = 0x200"
definition COMPRESSIBLE :: u32 where "COMPRESSIBLE = 0x100000"
definition DELETE_DATABASE :: u32 where "DELETE_DATABASE = 0x400"
definition TXN_HAD_ERROR :: u32 where "TXN_HAD_ERROR = 0x40000000"
definition TXN_DELIMITER :: u32 where "TXN_DELIMITER = 0x8000000"
definition TXN_COMMITTED :: u32 where "TXN_COMMITTED = 0x10000000"
definition WAITING_OPERATION :: u32 where "WAITING_OPERATION = 0x2000000"
definition MDBX_NOOVERWRITE :: u32 where "MDBX_NOOVERWRITE = 0x10"
definition MDBX_NODUPDATA :: u32 where "MDBX_NODUPDATA = 0x20"
definition MDBX_RESERVE :: u32 where "MDBX_RESERVE = 0x10000"
definition MDBX_APPEND :: u32 where "MDBX_APPEND = 0x20000"
definition MDBX_APPENDDUP :: u32 where "MDBX_APPENDDUP = 0x40000"
definition IF_NO_EXISTS :: u32 where "IF_NO_EXISTS = MDBX_NOOVERWRITE"
definition FAILED_CONDITION :: u32 where "FAILED_CONDITION = 0x4000000"
definition FINISHED_OPERATION :: u32 where "FINISHED_OPERATION = 0x1000000"

lemmas instruction_flags =
  NO_INSTRUCTION_YET_def PUT_def DEL_def DEL_VALUE_def START_CONDITION_BLOCK_def
  START_CONDITION_VALUE_BLOCK_def START_BLOCK_def BLOCK_END_def POINTER_NEXT_def USER_CALLBACK_def
  USER_CALLBACK_STRICT_ORDER_def DROP_DB_def HAS_KEY_def HAS_VALUE_def CONDITIONAL_def
  CONDITIONAL_VERSION_def SET_VERSION_def COMPRESSIBLE_def DELETE_DATABASE_def TXN_HAD_ERROR_def
  TXN_DELIMITER_def TXN_COMMITTED_def WAITING_OPERATION_def MDBX_NOOVERWRITE_def MDBX_NODUPDATA_def
  MDBX_RESERVE_def MDBX_APPEND_def MDBX_APPENDDUP_def IF_NO_EXISTS_def FAILED_CONDITION_def
  FINISHED_OPERATION_def

definition has :: "u32 \<Rightarrow> u32 \<Rightarrow> bool" where
  "has flags f \<longleftrightarrow> flags AND f \<noteq> 0"

subsection \<open>The local variables\<close>

text \<open>
  Those of \<open>DoWrites\<close> that live across instructions, with the addresses it has handed to
  \<open>free\<close>; \<open>worker_mode\<close> is \<open>worker != nullptr\<close>.
\<close>

record locals =
  instruction :: nat
  rc_of :: int
  conditionDepth :: int
  validatedDepth :: int
  setVersion :: u64
  key_of :: mdbx_val
  value_of :: mdbx_val
  freed :: "nat list"

text \<open>
  \<open>putWithVersion\<close> of \<open>misc.cpp\<close>; a length the \<open>int\<close> cannot hold makes the
  addition or the copy undefined.
\<close>

definition putWithVersion ::
    "'s engine \<Rightarrow> 's \<Rightarrow> mem \<Rightarrow> u32 \<Rightarrow> mdbx_val \<Rightarrow> mdbx_val \<Rightarrow> u32 \<Rightarrow> u64 \<Rightarrow> (int \<times> 's \<times> mem \<times> mdbx_val) option" where
  "putWithVersion e s m dbi key data flags version =
     (let sourceData = iov_base data;
          sz = sint (ucast (iov_len data) :: 32 word);
          (rc, s, m, data) = mdbx_put e s m dbi key (data\<lparr>iov_len := word_of_int (sz + 8)\<rparr>) MDBX_RESERVE
      in if sz + 8 \<ge> 2 ^ 31 then None
         else if rc = 0
         then if sz < 0 then None
              else (let m = wr_bytes m (iov_base data + 8) (rd_bytes m sourceData (nat sz));
                        m = st64 m (iov_base data) version
                    in Some (rc, s, m, data\<lparr>iov_base := sourceData\<rparr>))
         else Some (rc, s, m, data\<lparr>iov_base := sourceData\<rparr>))"

subsection \<open>Reading the operands\<close>

text \<open>The loop \<open>do pthread_cond_wait while (*(instruction + 1) > 0x40000000)\<close>.\<close>

partial_function (option) wait_compressed :: "'s surroundings \<Rightarrow> nat \<Rightarrow> 's worker \<Rightarrow> 's worker option" where
  "wait_compressed E p st =
     do {
       st \<leftarrow> cond_wait E st;
       if ld32 (memory st) (p + 4) > 0x40000000 then wait_compressed E p st else Some st
     }"

definition finish_compression :: "'s surroundings \<Rightarrow> nat \<Rightarrow> 's worker \<Rightarrow> 's worker option" where
  "finish_compression E p st =
     (if ld32 (memory st) (p + 4) > 0x40000000
      then (let status = ld64 (memory st) (p + 8);
                st = st\<lparr>memory := st64 (memory st) (p + 8) 1\<rparr>
            in if status = 2 then wait_compressed E p st
               else if 2 < sint status
               then (let c = compression_at E (size_t_of_double status);
                         (m, rc, sig) = compressInstruction (codec E) c (new_chars E (waits st)) False (memory st) (p + 8)
                     in Some (st\<lparr>memory := m\<rparr>))
               else Some st)
      else Some st)"

definition read_value :: "'s surroundings \<Rightarrow> u32 \<Rightarrow> locals \<Rightarrow> 's worker \<Rightarrow> (locals \<times> 's worker) option" where
  "read_value E flags l st =
     (let p = instruction l
      in if has flags COMPRESSIBLE
         then do {
           st \<leftarrow> finish_compression E p st;
           Some (l\<lparr>value_of := \<lparr>iov_base = unat (ld64 (memory st) p), iov_len = ucast (ld32 (memory st) (p - 4))\<rparr>,
                   instruction := p + 16\<rparr>, st)
         }
         else Some (l\<lparr>value_of := \<lparr>iov_base = size_t_of_double (ld64 (memory st) p),
                                   iov_len = ucast (ld32 (memory st) (p - 4))\<rparr>,
                      instruction := p + 8\<rparr>, st))"

text \<open>The key of an instruction, and where what follows it starts.\<close>

definition read_key :: "locals \<Rightarrow> 's worker \<Rightarrow> u32 \<times> locals" where
  "read_key l st =
     (let p = instruction l; len = ld32 (memory st) (p + 4)
      in (ld32 (memory st) p,
          l\<lparr>key_of := \<lparr>iov_base = p + 8, iov_len = ucast len\<rparr>,
            instruction := (p + 8 + unat len + 16) div 8 * 8\<rparr>))"

text \<open>The conditions, with the versions that follow the value.\<close>

definition check_version :: "'s surroundings \<Rightarrow> u32 \<Rightarrow> u32 \<Rightarrow> 's worker \<Rightarrow> bool \<times> locals \<Rightarrow> bool \<times> locals" where
  "check_version E flags dbi st = (\<lambda>(validated, l).
     if has flags CONDITIONAL_VERSION
     then (let conditionalVersion = ld64 (memory st) (instruction l);
               (rc, v) = mdbx_get (eng E) (txn_state st) (memory st) dbi (key_of l) (value_of l);
               l = l\<lparr>instruction := instruction l + 8, rc_of := rc, value_of := v\<rparr>
           in if rc \<noteq> 0 then (False, l)
              else (validated \<and> dbl_eq conditionalVersion (ld64 (memory st) (iov_base v)), l))
     else (validated, l))"

definition read_set_version :: "u32 \<Rightarrow> 's worker \<Rightarrow> bool \<times> locals \<Rightarrow> bool \<times> locals" where
  "read_set_version flags st = (\<lambda>(validated, l).
     if has flags SET_VERSION
     then (validated, l\<lparr>setVersion := ld64 (memory st) (instruction l), instruction := instruction l + 8\<rparr>)
     else (validated, l))"

definition check_no_exists :: "'s surroundings \<Rightarrow> u32 \<Rightarrow> u32 \<Rightarrow> 's worker \<Rightarrow> bool \<times> locals \<Rightarrow> bool \<times> locals" where
  "check_no_exists E flags dbi st = (\<lambda>(validated, l).
     if has flags IF_NO_EXISTS \<and> has flags START_CONDITION_BLOCK
     then (let (rc, v) = mdbx_get (eng E) (txn_state st) (memory st) dbi (key_of l) (value_of l)
           in (validated \<and> rc = error_code MDBX_NOTFOUND, l\<lparr>rc_of := rc, value_of := v\<rparr>))
     else (validated, l))"

text \<open>Everything up to the \<open>switch\<close>: the database, whether the instruction is validated, the rest.\<close>

definition read_operands ::
    "'s surroundings \<Rightarrow> u32 \<Rightarrow> bool \<Rightarrow> locals \<Rightarrow> 's worker \<Rightarrow> (u32 \<times> bool \<times> locals \<times> 's worker) option" where
  "read_operands E flags validated l st =
     (if has flags HAS_KEY
      then do {
        let (dbi, l) = read_key l st;
        (l, st) \<leftarrow> (if has flags HAS_VALUE then read_value E flags l st else Some (l, st));
        let (validated, l) =
          check_no_exists E flags dbi st (read_set_version flags st (check_version E flags dbi st (validated, l)));
        Some (dbi, validated, l, st)
      }
      else Some (0, validated, l\<lparr>instruction := instruction l + 4\<rparr>, st))"

subsection \<open>Executing an instruction\<close>

text \<open>What comes after: the next instruction (\<open>goto next_inst\<close>), the end of the \<open>switch\<close>, a return.\<close>

datatype 's after =
    Next_instruction locals "'s worker"
  | Break_switch locals "'s worker"
  | Return int locals "'s worker"

text \<open>
  \<open>std::atomic_compare_exchange_strong\<close> on the flag word, which the JavaScript thread may
  have written since it was read.
\<close>

definition compare_exchange ::
    "'s surroundings \<Rightarrow> nat \<Rightarrow> u32 \<Rightarrow> u32 \<Rightarrow> 's worker \<Rightarrow> bool \<times> 's worker" where
  "compare_exchange E start expected v st =
     (let st = let_others_run E st
      in if ld32 (memory st) start = expected
         then (True, st\<lparr>memory := st32 (memory st) start v\<rparr>) else (False, st))"

definition no_instruction ::
    "'s surroundings \<Rightarrow> bool \<Rightarrow> nat \<Rightarrow> u32 \<Rightarrow> locals \<Rightarrow> 's worker \<Rightarrow> 's after option" where
  "no_instruction E worker_mode start flags l st =
     (let l = l\<lparr>instruction := instruction l - 8, rc_of := 0\<rparr>
      in if \<not> worker_mode then None
         else if \<not> finishedProgress st \<or> conditionDepth l \<noteq> 0
         then (let (swapped, st) = compare_exchange E start flags WAITING_OPERATION st
               in if swapped
                  then map_option (\<lambda>(st, rc). Next_instruction l st)
                         (WaitForCallbacks E (conditionDepth l = 0) (Some start) st)
                  else Some (Next_instruction l st))
         else (let (swapped, st) = compare_exchange E start flags TXN_DELIMITER st
               in if swapped then Some (Return 0 l (st\<lparr>worker_instructions := start\<rparr>))
                  else Some (Next_instruction l st)))"

definition put_flags :: "u32 \<Rightarrow> u32" where
  "put_flags flags = flags AND (MDBX_NOOVERWRITE OR MDBX_NODUPDATA OR MDBX_APPEND OR MDBX_APPENDDUP)"

definition free_if_compressible :: "u32 \<Rightarrow> locals \<Rightarrow> locals" where
  "free_if_compressible flags l =
     (if has flags COMPRESSIBLE then l\<lparr>freed := freed l @ [iov_base (value_of l)]\<rparr> else l)"

definition do_put :: "'s surroundings \<Rightarrow> u32 \<Rightarrow> u32 \<Rightarrow> locals \<Rightarrow> 's worker \<Rightarrow> (locals \<times> 's worker) option" where
  "do_put E flags dbi l st =
     do {
       (rc, s, m, v) \<leftarrow>
         (if has flags SET_VERSION
          then putWithVersion (eng E) (txn_state st) (memory st) dbi (key_of l) (value_of l) (put_flags flags) (setVersion l)
          else Some (mdbx_put (eng E) (txn_state st) (memory st) dbi (key_of l) (value_of l) (put_flags flags)));
       Some (free_if_compressible flags (l\<lparr>rc_of := rc, value_of := v\<rparr>), st\<lparr>txn_state := s, memory := m\<rparr>)
     }"

definition do_del :: "'s surroundings \<Rightarrow> u32 \<Rightarrow> mdbx_val option \<Rightarrow> locals \<Rightarrow> 's worker \<Rightarrow> locals \<times> 's worker" where
  "do_del E dbi v l st =
     (let (rc, s, m) = mdbx_del (eng E) (txn_state st) (memory st) dbi (key_of l) v
      in (l\<lparr>rc_of := rc\<rparr>, st\<lparr>txn_state := s, memory := m\<rparr>))"

definition start_block :: "bool \<Rightarrow> locals \<Rightarrow> locals" where
  "start_block validated l =
     l\<lparr>rc_of := (if validated then 0 else error_code MDBX_NOTFOUND),
       validatedDepth := (if validated then validatedDepth l + 1 else validatedDepth l),
       conditionDepth := conditionDepth l + 1\<rparr>"

definition block_end :: "locals \<Rightarrow> locals" where
  "block_end l =
     (let depth = conditionDepth l - 1
      in l\<lparr>conditionDepth := depth,
           validatedDepth := (if validatedDepth l > depth then validatedDepth l - 1 else validatedDepth l)\<rparr>)"

text \<open>\<open>while (!worker->finishedProgress) worker->WaitForCallbacks(&txn, conditionDepth == 0, nullptr)\<close>.\<close>

partial_function (option) wait_finished :: "'s surroundings \<Rightarrow> bool \<Rightarrow> 's worker \<Rightarrow> 's worker option" where
  "wait_finished E allowCommit st =
     (if finishedProgress st then Some st
      else do {
        (st, rc) \<leftarrow> WaitForCallbacks E allowCommit None st;
        wait_finished E allowCommit st
      })"

definition user_callback ::
    "'s surroundings \<Rightarrow> nat \<Rightarrow> u32 \<Rightarrow> locals \<Rightarrow> 's worker \<Rightarrow> (locals \<times> 's worker) option" where
  "user_callback E start flags l st =
     do {
       let st = st\<lparr>finishedProgress := False, progressStatus := 2\<rparr>;
       let l = l\<lparr>rc_of := 0\<rparr>;
       st \<leftarrow> (if has flags USER_CALLBACK_STRICT_ORDER
              then wait_finished E (conditionDepth l = 0)
                     (st\<lparr>memory := st32 (memory st) start (ld32 (memory st) start OR FINISHED_OPERATION)\<rparr>)
              else Some st);
       Some (l, st)
     }"

text \<open>The \<open>switch\<close>.\<close>

definition execute ::
    "'s surroundings \<Rightarrow> bool \<Rightarrow> nat \<Rightarrow> u32 \<Rightarrow> u32 \<Rightarrow> bool \<Rightarrow> locals \<Rightarrow> 's worker \<Rightarrow> 's after option" where
  "execute E worker_mode start flags dbi validated l st =
     (let opcode = flags AND 0xf
      in if opcode = NO_INSTRUCTION_YET then no_instruction E worker_mode start flags l st
         else if opcode = BLOCK_END then Some (Next_instruction (block_end l) st)
         else if opcode = PUT then map_option (\<lambda>(l, st). Break_switch l st) (do_put E flags dbi l st)
         else if opcode = DEL then (let (l, st) = do_del E dbi None l st in Some (Break_switch l st))
         else if opcode = DEL_VALUE
         then (let (l, st) = do_del E dbi (Some (value_of l)) l st
               in Some (Break_switch (free_if_compressible flags l) st))
         else if opcode = START_BLOCK \<or> opcode = START_CONDITION_BLOCK
         then Some (Break_switch (start_block validated l) st)
         else if opcode = USER_CALLBACK
         then if worker_mode
              then map_option (\<lambda>(l, st). Break_switch l st) (user_callback E start flags l st)
              else None
         else if opcode = DROP_DB
         then (let (rc, s, m) = mdbx_drop (eng E) (txn_state st) (memory st) dbi (has flags DELETE_DATABASE)
               in Some (Break_switch (l\<lparr>rc_of := rc\<rparr>) (st\<lparr>txn_state := s, memory := m\<rparr>)))
         else if opcode = POINTER_NEXT
         then Some (Next_instruction (l\<lparr>instruction := size_t_of_double (ld64 (memory st) (instruction l))\<rparr>) st)
         else if worker_mode then Some (Return 22 l (ReportError (''Unknown flags'' @ [CHR 0x0A]) st)) else None)"

text \<open>The rest of the loop body: the error, the flag word, and whether to go on.\<close>

definition set_result :: "bool \<Rightarrow> nat \<Rightarrow> u32 \<Rightarrow> locals \<Rightarrow> 's worker \<Rightarrow> 's after" where
  "set_result worker_mode start flags l st =
     (let st = st\<lparr>memory := st32 (memory st) start (ld32 (memory st) start OR flags)\<rparr>
      in if worker_mode then Next_instruction l st else Return (rc_of l) l st)"

definition finish_instruction ::
    "'s surroundings \<Rightarrow> bool \<Rightarrow> nat \<Rightarrow> locals \<Rightarrow> 's worker \<Rightarrow> 's after" where
  "finish_instruction E worker_mode start l st =
     (if rc_of l \<noteq> 0
      then if \<not> (rc_of l = error_code MDBX_KEYEXIST \<or> rc_of l = error_code MDBX_NOTFOUND)
           then if worker_mode
                then set_result worker_mode start (FINISHED_OPERATION OR FAILED_CONDITION) l
                       (ReportError (mdbx_strerror (os_strerror E) (rc_of l)) st)
                else Return (rc_of l) l st
           else set_result worker_mode start (FINISHED_OPERATION OR FAILED_CONDITION) l st
      else set_result worker_mode start FINISHED_OPERATION l st)"

definition one_instruction :: "'s surroundings \<Rightarrow> bool \<Rightarrow> locals \<Rightarrow> 's worker \<Rightarrow> 's after option" where
  "one_instruction E worker_mode l st =
     (let start = instruction l;
          l = l\<lparr>instruction := start + 4\<rparr>;
          flags = ld32 (memory st) start
      in if flags AND 0xf0c0 \<noteq> 0
         then if worker_mode then Some (Return 0 l (ReportError (''Unknown flags'' @ [CHR 0x0A]) st)) else None
         else do {
           (dbi, validated, l, st) \<leftarrow> read_operands E flags (conditionDepth l = validatedDepth l) l st;
           if validated \<or> \<not> has flags CONDITIONAL
           then do {
             a \<leftarrow> execute E worker_mode start flags dbi validated l st;
             Some (case a of Break_switch l st \<Rightarrow> finish_instruction E worker_mode start l st | _ \<Rightarrow> a)
           }
           else Some (set_result worker_mode start (FINISHED_OPERATION OR FAILED_CONDITION) l st)
         })"

partial_function (option) DoWrites ::
    "'s surroundings \<Rightarrow> bool \<Rightarrow> locals \<Rightarrow> 's worker \<Rightarrow> (int \<times> locals \<times> 's worker) option" where
  "DoWrites E worker_mode l st =
     do {
       a \<leftarrow> one_instruction E worker_mode l st;
       (case a of
          Next_instruction l st \<Rightarrow> DoWrites E worker_mode l st
        | Break_switch l st \<Rightarrow> DoWrites E worker_mode l st
        | Return rc l st \<Rightarrow> Some (rc, l, st))
     }"

text \<open>The locals at the call; \<open>key\<close>, \<open>value\<close> start out unset, here as given.\<close>

definition initial_locals :: "nat \<Rightarrow> mdbx_val \<Rightarrow> locals" where
  "initial_locals a unset =
     \<lparr>instruction = a, rc_of = 0, conditionDepth = 0, validatedDepth = 0, setVersion = 0,
      key_of = unset, value_of = unset, freed = []\<rparr>"

text \<open>The end of \<open>WriteWorker::Write\<close>: commit or abort, and the outcome in the first flag word.\<close>

definition end_transaction :: "'s surroundings \<Rightarrow> int \<Rightarrow> 's worker \<Rightarrow> 's worker" where
  "end_transaction E rc st =
     (let (rc, s, m) =
        (if rc \<noteq> 0 then (rc, mdbx_txn_abort (eng E) (txn_state st) (memory st))
         else mdbx_txn_commit (eng E) (txn_state st) (memory st));
          st = st\<lparr>txn_state := s, memory := m, txn_live := False, locked := False\<rparr>;
          a = worker_instructions st
      in if rc \<noteq> 0
         then st\<lparr>memory := st32 (memory st) a (ld32 (memory st) a OR TXN_HAD_ERROR),
                 error_message := Some (mdbx_strerror (os_strerror E) rc)\<rparr>
         else st\<lparr>memory := st32 (memory st) a (ld32 (memory st) a OR TXN_COMMITTED)\<rparr>)"

text \<open>
  \<open>WriteWorker::Write\<close>: one transaction around the instructions.  A failure to begin returns
  with the lock held; \<open>callback\<close> is set for a worker that JavaScript started.
\<close>

definition WriteWorker_Write :: "'s surroundings \<Rightarrow> bool \<Rightarrow> mdbx_val \<Rightarrow> 's worker \<Rightarrow> 's worker option" where
  "WriteWorker_Write E callback unset st =
     (let st = st\<lparr>finishedProgress := True, locked := True\<rparr>;
          (rc, s, m) = mdbx_txn_begin (eng E) (txn_state st) (memory st);
          st = st\<lparr>txn_state := s, memory := m, txn_live := (rc = 0)\<rparr>
      in if rc \<noteq> 0
         then Some (st\<lparr>error_message := Some (mdbx_strerror (os_strerror E) rc)\<rparr>)
         else do {
           (rc, l, st) \<leftarrow> DoWrites E True (initial_locals (worker_instructions st) unset) st;
           Some (if callback then end_transaction E rc st else st\<lparr>interruptionStatus := rc\<rparr>)
         })"

end
