(* ===== verification/Write_Batch.thy ===== *)
theory Write_Batch
  imports Write_Instructions
begin

text \<open>
  What a batch of write instructions means, and that \<open>DoWrites\<close> does it: the contract of the
  engine, the abstract operations with their nested conditional blocks, the layout in which
  \<open>writeInstructions\<close> of \<open>write.js\<close> puts them into shared memory, and the refinement.
\<close>

subsection \<open>The contract of the engine\<close>

type_synonym contents = "u32 \<Rightarrow> u8 list \<Rightarrow> u8 list option"

text \<open>
  How the state of the engine is read: the records it holds, the addresses of its memory map,
  the open databases without duplicates, and the longest key it takes.
\<close>

record 's engine_model =
  stored :: "'s \<Rightarrow> mem \<Rightarrow> contents"
  map_area :: "nat set"
  plain_dbs :: "u32 set"
  key_limit :: nat

definition update :: "contents \<Rightarrow> u32 \<Rightarrow> u8 list \<Rightarrow> u8 list option \<Rightarrow> contents" where
  "update c dbi k x = c(dbi := (c dbi)(k := x))"

definition agree_outside :: "nat set \<Rightarrow> mem \<Rightarrow> mem \<Rightarrow> bool" where
  "agree_outside A m m' \<longleftrightarrow> (\<forall>x. x \<notin> A \<longrightarrow> m' x = m x)"

definition usable :: "'s engine_model \<Rightarrow> u32 \<Rightarrow> mdbx_val \<Rightarrow> bool" where
  "usable V dbi key \<longleftrightarrow> dbi \<in> plain_dbs V \<and> unat (iov_len key) \<le> key_limit V"

text \<open>A result code that the writer reports.\<close>

definition hard_error :: "int \<Rightarrow> bool" where
  "hard_error rc \<longleftrightarrow> rc \<noteq> 0 \<and> rc \<noteq> error_code MDBX_KEYEXIST \<and> rc \<noteq> error_code MDBX_NOTFOUND"

text \<open>An engine that never runs out of space and never finds its file damaged.\<close>

definition reliable :: "'s engine \<Rightarrow> bool" where
  "reliable e \<longleftrightarrow>
     (\<forall>s m dbi key v f. \<not> hard_error (fst (mdbx_put e s m dbi key v f))) \<and>
     (\<forall>s m dbi key v. \<not> hard_error (fst (mdbx_del e s m dbi key v))) \<and>
     (\<forall>s m dbi b. \<not> hard_error (fst (mdbx_drop e s m dbi b)))"

lemma reliable_calls:
  "reliable e \<Longrightarrow> mdbx_put e s m dbi key v f = (rc, r) \<Longrightarrow> \<not> hard_error rc"
  "reliable e \<Longrightarrow> mdbx_del e s m dbi key w = (rc, r') \<Longrightarrow> \<not> hard_error rc"
  "reliable e \<Longrightarrow> mdbx_drop e s m dbi b = (rc, r') \<Longrightarrow> \<not> hard_error rc"
  unfolding reliable_def by (metis fst_conv)+

definition get_ok :: "'s engine \<Rightarrow> 's engine_model \<Rightarrow> bool" where
  "get_ok e V \<longleftrightarrow>
     (\<forall>s m dbi key v. usable V dbi key \<longrightarrow>
        (case stored V s m dbi (val_bytes m key) of
           None \<Rightarrow> mdbx_get e s m dbi key v = (error_code MDBX_NOTFOUND, v)
         | Some bs \<Rightarrow> (\<exists>v'. mdbx_get e s m dbi key v = (0, v') \<and> val_bytes m v' = bs)))"

definition changes_to :: "'s engine_model \<Rightarrow> 's \<Rightarrow> mem \<Rightarrow> int \<Rightarrow> 's \<Rightarrow> mem \<Rightarrow> contents \<Rightarrow> bool" where
  "changes_to V s m rc s' m' c \<longleftrightarrow>
     agree_outside (map_area V) m m' \<and>
     (if rc = 0 then stored V s' m' = c else hard_error rc \<and> stored V s' m' = stored V s m)"

definition put_ok :: "'s engine \<Rightarrow> 's engine_model \<Rightarrow> bool" where
  "put_ok e V \<longleftrightarrow>
     (\<forall>s m dbi key v f rc s' m' v'.
        usable V dbi key \<longrightarrow> mdbx_put e s m dbi key v f = (rc, s', m', v') \<longrightarrow>
        f = 0 \<or> f = MDBX_NOOVERWRITE \<and> stored V s m dbi (val_bytes m key) = None \<longrightarrow>
        changes_to V s m rc s' m' (update (stored V s m) dbi (val_bytes m key) (Some (val_bytes m v))))"

text \<open>With \<open>MDBX_RESERVE\<close> the caller fills the room that the value pointer then names.\<close>

definition reserve_ok :: "'s engine \<Rightarrow> 's engine_model \<Rightarrow> bool" where
  "reserve_ok e V \<longleftrightarrow>
     (\<forall>s m dbi key v rc s' m' v'.
        usable V dbi key \<longrightarrow> mdbx_put e s m dbi key v MDBX_RESERVE = (rc, s', m', v') \<longrightarrow>
        agree_outside (map_area V) m m' \<and>
        (if rc = 0
         then iov_len v' = iov_len v \<and> {iov_base v'..<iov_base v' + unat (iov_len v)} \<subseteq> map_area V \<and>
              (\<forall>bs. length bs = unat (iov_len v) \<longrightarrow>
                 stored V s' (wr_bytes m' (iov_base v') bs) =
                   update (stored V s m) dbi (val_bytes m key) (Some bs))
         else hard_error rc \<and> stored V s' m' = stored V s m))"

definition del_ok :: "'s engine \<Rightarrow> 's engine_model \<Rightarrow> bool" where
  "del_ok e V \<longleftrightarrow>
     (\<forall>s m dbi key rc s' m'.
        usable V dbi key \<longrightarrow> mdbx_del e s m dbi key None = (rc, s', m') \<longrightarrow>
        (if stored V s m dbi (val_bytes m key) = None
         then rc = error_code MDBX_NOTFOUND \<and> agree_outside (map_area V) m m' \<and> stored V s' m' = stored V s m
         else changes_to V s m rc s' m' (update (stored V s m) dbi (val_bytes m key) None)))"

definition drop_ok :: "'s engine \<Rightarrow> 's engine_model \<Rightarrow> bool" where
  "drop_ok e V \<longleftrightarrow>
     (\<forall>s m dbi del rc s' m'.
        dbi \<in> plain_dbs V \<longrightarrow> mdbx_drop e s m dbi del = (rc, s', m') \<longrightarrow>
        changes_to V s m rc s' m' ((stored V s m)(dbi := Map.empty)))"

definition reads_map_only :: "'s engine_model \<Rightarrow> bool" where
  "reads_map_only V \<longleftrightarrow>
     (\<forall>s m m'. agree_outside (- map_area V) m m' \<longrightarrow> stored V s m' = stored V s m)"

definition engine_ok :: "'s engine \<Rightarrow> 's engine_model \<Rightarrow> bool" where
  "engine_ok e V \<longleftrightarrow> get_ok e V \<and> put_ok e V \<and> reserve_ok e V \<and> del_ok e V \<and> drop_ok e V \<and> reads_map_only V"

subsection \<open>Operations\<close>

datatype condition = Always | If_absent | If_version u64

datatype write_op =
    Put u32 "u8 list" "u8 list" "u64 option" condition
  | Del u32 "u8 list" condition
  | Drop u32 bool
  | Open_block
  | Open_condition u32 "u8 list" condition
  | Close_block

text \<open>A stored record begins with its version when it was put with one.\<close>

definition version_bytes :: "u64 option \<Rightarrow> u8 list" where
  "version_bytes ver = (case ver of None \<Rightarrow> [] | Some v \<Rightarrow> le_bytes 8 (unat v))"

definition record_version :: "u8 list \<Rightarrow> u64" where
  "record_version bs = of_nat (le_val (take 8 bs))"

fun meets :: "condition \<Rightarrow> u8 list option \<Rightarrow> bool" where
  "meets Always x = True"
| "meets If_absent x = (x = None)"
| "meets (If_version v) x = (case x of None \<Rightarrow> False | Some bs \<Rightarrow> dbl_eq v (record_version bs))"

text \<open>
  The state of a batch: the records, how many blocks are open, and how many of the outer ones
  had their condition met.  An operation gives \<^const>\<open>True\<close> when it took effect.
\<close>

type_synonym batch_state = "contents \<times> int \<times> int"

fun op_step :: "write_op \<Rightarrow> batch_state \<Rightarrow> batch_state \<times> bool" where
  "op_step (Put dbi k bs ver cond) (c, d, v) =
     (if d = v \<and> meets cond (c dbi k) then ((update c dbi k (Some (version_bytes ver @ bs)), d, v), True)
      else ((c, d, v), False))"
| "op_step (Del dbi k cond) (c, d, v) =
     (if d = v \<and> meets cond (c dbi k) \<and> c dbi k \<noteq> None then ((update c dbi k None, d, v), True)
      else ((c, d, v), False))"
| "op_step (Drop dbi del) (c, d, v) =
     (if d = v then ((c(dbi := Map.empty), d, v), True) else ((c, d, v), False))"
| "op_step Open_block (c, d, v) = (if d = v then ((c, d + 1, v + 1), True) else ((c, d + 1, v), False))"
| "op_step (Open_condition dbi k cond) (c, d, v) =
     (if d = v \<and> meets cond (c dbi k) then ((c, d + 1, v + 1), True) else ((c, d + 1, v), False))"
| "op_step Close_block (c, d, v) = ((c, d - 1, if v > d - 1 then v - 1 else v), True)"

fun ops_run :: "write_op list \<Rightarrow> batch_state \<Rightarrow> batch_state \<times> bool list" where
  "ops_run [] A = (A, [])"
| "ops_run (op # ops) A =
     (let (A, done) = op_step op A; (A, dones) = ops_run ops A in (A, done # dones))"

text \<open>
  What the engine must accept.  A put on a version is not among them: the version check
  reads the old record into the value that is then put.
\<close>

fun op_fits :: "'s engine_model \<Rightarrow> write_op \<Rightarrow> bool" where
  "op_fits V (Put dbi k bs ver cond) =
     (dbi \<in> plain_dbs V \<and> length k \<le> key_limit V \<and> length k < 2 ^ 32 \<and> length bs < 2 ^ 31 - 8 \<and>
      (case cond of If_version v \<Rightarrow> False | _ \<Rightarrow> True))"
| "op_fits V (Del dbi k cond) = (dbi \<in> plain_dbs V \<and> length k \<le> key_limit V \<and> length k < 2 ^ 32)"
| "op_fits V (Drop dbi del) = (dbi \<in> plain_dbs V)"
| "op_fits V (Open_condition dbi k cond) = (dbi \<in> plain_dbs V \<and> length k \<le> key_limit V \<and> length k < 2 ^ 32)"
| "op_fits V op = True"

text \<open>A version is looked for only in records that have one.\<close>

fun versioned :: "write_op \<Rightarrow> contents \<Rightarrow> bool" where
  "versioned (Del dbi k (If_version v)) c = (case c dbi k of None \<Rightarrow> True | Some bs \<Rightarrow> 8 \<le> length bs)"
| "versioned (Open_condition dbi k (If_version v)) c = (case c dbi k of None \<Rightarrow> True | Some bs \<Rightarrow> 8 \<le> length bs)"
| "versioned op c = True"

fun ops_versioned :: "write_op list \<Rightarrow> batch_state \<Rightarrow> bool" where
  "ops_versioned [] A = True"
| "ops_versioned (op # ops) A = (versioned op (fst A) \<and> ops_versioned ops (fst (op_step op A)))"

subsection \<open>Layout\<close>

text \<open>
  Where \<open>writeInstructions\<close> puts an operation: \<open>start\<close>, whether the value has been compressed
  (its address is then an integer, followed by the compression word) and where it is, and
  whether the instruction is the last of its buffer, followed by the pointer to the next one.
\<close>

record placed =
  start :: nat
  operation :: write_op
  packed :: bool
  value_address :: nat
  chained :: bool
  succ_start :: nat

definition after_key :: "nat \<Rightarrow> u8 list \<Rightarrow> nat" where
  "after_key a k = (a + 12 + length k + 16) div 8 * 8"

fun condition_flag :: "condition \<Rightarrow> u32" where
  "condition_flag Always = 0"
| "condition_flag If_absent = 0x10"
| "condition_flag (If_version v) = 0x100"

definition flag_word :: "u32 \<Rightarrow> bool \<Rightarrow> condition \<Rightarrow> u64 option \<Rightarrow> u32" where
  "flag_word opcode pk cond ver =
     opcode OR (if pk then 0x100000 else 0) OR condition_flag cond OR (if ver = None then 0 else 0x200)"

fun op_word :: "placed \<Rightarrow> u32" where
  "op_word P = (case operation P of
     Put dbi k bs ver cond \<Rightarrow> flag_word 15 (packed P) cond ver
   | Del dbi k cond \<Rightarrow> flag_word 13 False cond None
   | Drop dbi del \<Rightarrow> if del then 0x40C else 12
   | Open_block \<Rightarrow> 1
   | Open_condition dbi k cond \<Rightarrow> flag_word 4 False cond None
   | Close_block \<Rightarrow> 2)"

definition condition_size :: "condition \<Rightarrow> nat" where
  "condition_size cond = (case cond of If_version v \<Rightarrow> 8 | _ \<Rightarrow> 0)"

definition version_size :: "u64 option \<Rightarrow> nat" where
  "version_size ver = (if ver = None then 0 else 8)"

text \<open>Where the instruction ends.\<close>

definition instr_end :: "placed \<Rightarrow> nat" where
  "instr_end P = (case operation P of
     Put dbi k bs ver cond \<Rightarrow>
       after_key (start P) k + (if packed P then 16 else 8) + condition_size cond + version_size ver
   | Del dbi k cond \<Rightarrow> after_key (start P) k + condition_size cond
   | Drop dbi del \<Rightarrow> after_key (start P) []
   | Open_condition dbi k cond \<Rightarrow> after_key (start P) k + condition_size cond
   | _ \<Rightarrow> start P + 8)"

definition key_at :: "mem \<Rightarrow> nat \<Rightarrow> u32 \<Rightarrow> u8 list \<Rightarrow> bool" where
  "key_at m a dbi k \<longleftrightarrow>
     ld32 m (a + 4) = dbi \<and> ld32 m (a + 8) = of_nat (length k) \<and> rd_bytes m (a + 12) (length k) = k"

definition condition_at :: "mem \<Rightarrow> nat \<Rightarrow> condition \<Rightarrow> bool" where
  "condition_at m p cond \<longleftrightarrow> (case cond of If_version v \<Rightarrow> ld64 m p = v | _ \<Rightarrow> True)"

definition version_at :: "mem \<Rightarrow> nat \<Rightarrow> u64 option \<Rightarrow> bool" where
  "version_at m p ver \<longleftrightarrow> (case ver of None \<Rightarrow> True | Some v \<Rightarrow> ld64 m p = v)"

definition value_at :: "mem \<Rightarrow> nat \<Rightarrow> bool \<Rightarrow> nat \<Rightarrow> u8 list \<Rightarrow> bool" where
  "value_at m p pk vp bs \<longleftrightarrow>
     ld32 m (p - 4) = of_nat (length bs) \<and> rd_bytes m vp (length bs) = bs \<and>
     (if pk then ld64 m p = of_nat vp \<and> vp < 2 ^ 64 \<and> ld32 m (p + 4) \<le> 0x40000000
      else ld64 m p = double_of_nat vp \<and> vp < 2 ^ 53)"

definition instr_at :: "mem \<Rightarrow> placed \<Rightarrow> bool" where
  "instr_at m P \<longleftrightarrow>
     ld32 m (start P) = op_word P \<and>
     (case operation P of
        Put dbi k bs ver cond \<Rightarrow>
          (let p = after_key (start P) k; q = p + (if packed P then 16 else 8)
           in key_at m (start P) dbi k \<and> value_at m p (packed P) (value_address P) bs \<and>
              condition_at m q cond \<and> version_at m (q + condition_size cond) ver)
      | Del dbi k cond \<Rightarrow> key_at m (start P) dbi k \<and> condition_at m (after_key (start P) k) cond
      | Drop dbi del \<Rightarrow> key_at m (start P) dbi []
      | Open_condition dbi k cond \<Rightarrow>
          key_at m (start P) dbi k \<and> condition_at m (after_key (start P) k) cond
      | _ \<Rightarrow> True) \<and>
     (if chained P
      then ld32 m (instr_end P) = 3 \<and> ld64 m (instr_end P + 8) = double_of_nat (succ_start P) \<and>
           succ_start P < 2 ^ 53
      else succ_start P = instr_end P)"

text \<open>The addresses that the writer reads for it.\<close>

definition read_area :: "placed \<Rightarrow> nat set" where
  "read_area P =
     {start P..<instr_end P + (if chained P then 16 else 0)} \<union>
     (case operation P of
        Put dbi k bs ver cond \<Rightarrow> {value_address P..<value_address P + length bs}
      | _ \<Rightarrow> {})"

text \<open>
  A batch: one instruction after another up to \<open>e\<close>, none in the memory map or over a flag word
  of the instructions before it.
\<close>

fun batch_at :: "mem \<Rightarrow> nat set \<Rightarrow> nat \<Rightarrow> placed list \<Rightarrow> nat \<Rightarrow> bool" where
  "batch_at m F a [] e = (a = e \<and> {e..<e + 4} \<inter> F = {})"
| "batch_at m F a (P # Ps) e =
     (start P = a \<and> instr_at m P \<and> read_area P \<inter> F = {} \<and>
      batch_at m (F \<union> {a..<a + 4}) (succ_start P) Ps e)"

subsection \<open>Reading the layout\<close>

lemma after_key_ge: "a + length k + 21 \<le> after_key a k"
  using div_mult_mod_eq [of "a + 12 + length k + 16" 8] mod_less_divisor [of 8 "a + 12 + length k + 16"]
  unfolding after_key_def by linarith

lemma agree_ld:
  assumes "agree_outside F m m'" "{a..<a + n} \<inter> F = {}"
  shows "rd_bytes m' a n = rd_bytes m a n"
  using assms by (intro rd_bytes_cong) (auto simp: agree_outside_def)

lemma agree_ld32: "agree_outside F m m' \<Longrightarrow> {a..<a + 4} \<inter> F = {} \<Longrightarrow> ld32 m' a = ld32 m a"
  by (simp add: ld32_def agree_ld)

lemma agree_ld64: "agree_outside F m m' \<Longrightarrow> {a..<a + 8} \<inter> F = {} \<Longrightarrow> ld64 m' a = ld64 m a"
  by (simp add: ld64_def agree_ld)

lemma agree_outside_refl [simp]: "agree_outside F m m"
  by (simp add: agree_outside_def)

lemma agree_outside_trans:
  "agree_outside F m m' \<Longrightarrow> agree_outside F m' m'' \<Longrightarrow> agree_outside F m m''"
  by (simp add: agree_outside_def)

lemma agree_outside_mono: "agree_outside F m m' \<Longrightarrow> F \<subseteq> G \<Longrightarrow> agree_outside G m m'"
  by (auto simp: agree_outside_def)

lemma agree_outside_st32: "{a..<a + 4} \<subseteq> F \<Longrightarrow> agree_outside F m (st32 m a v)"
  by (auto simp: agree_outside_def st32_def wr_bytes_def)

lemma agree_outside_wr: "{a..<a + length bs} \<subseteq> F \<Longrightarrow> agree_outside F m (wr_bytes m a bs)"
  by (auto simp: agree_outside_def wr_bytes_def)

lemma read_key_at:
  assumes "key_at (memory st) a dbi k" "length k < 2 ^ 32" "instruction l = a + 4"
  shows "read_key l st = (dbi, l\<lparr>key_of := \<lparr>iov_base = a + 12, iov_len = of_nat (length k)\<rparr>,
                                instruction := after_key a k\<rparr>)"
proof -
  have "unat (of_nat (length k) :: u32) = length k" using assms(2) by (simp add: unat_of_nat_lt)
  moreover have "ucast (of_nat (length k) :: u32) = (of_nat (length k) :: u64)"
    using calculation by (simp add: word_unat_eq_iff unat_ucast_mod unat_of_nat)
  ultimately show ?thesis
    using assms by (simp add: read_key_def key_at_def after_key_def Let_def add.assoc)
qed

lemma key_bytes_at:
  "key_at m a dbi k \<Longrightarrow> length k < 2 ^ 32 \<Longrightarrow>
   val_bytes m \<lparr>iov_base = a + 12, iov_len = of_nat (length k)\<rparr> = k"
  by (simp add: key_at_def val_bytes_def unat_of_nat_lt)

lemma read_value_at:
  assumes "value_at (memory st) (instruction l) pk vp bs" "length bs < 2 ^ 32" "has flags COMPRESSIBLE = pk"
  shows "read_value E flags l st =
     Some (l\<lparr>value_of := \<lparr>iov_base = vp, iov_len = of_nat (length bs)\<rparr>,
             instruction := instruction l + (if pk then 16 else 8)\<rparr>, st)"
proof -
  have "unat (of_nat (length bs) :: u32) = length bs" using assms(2) by (simp add: unat_of_nat_lt)
  then have u: "ucast (of_nat (length bs) :: u32) = (of_nat (length bs) :: u64)"
    by (simp add: word_unat_eq_iff unat_ucast_mod unat_of_nat)
  show ?thesis
  proof (cases pk)
    case True
    then have "unat (ld64 (memory st) (instruction l)) = vp"
      using assms(1) by (simp add: value_at_def unat_of_nat_lt)
    then show ?thesis
      using assms True u by (simp add: read_value_def finish_compression_def value_at_def Let_def leD)
  next
    case False
    then show ?thesis
      using assms u by (simp add: read_value_def value_at_def Let_def size_t_of_double_of_nat)
  qed
qed

lemma value_bytes_at:
  "value_at m p pk vp bs \<Longrightarrow> length bs < 2 ^ 32 \<Longrightarrow>
   val_bytes m \<lparr>iov_base = vp, iov_len = of_nat (length bs)\<rparr> = bs"
  by (simp add: value_at_def val_bytes_def unat_of_nat_lt)

subsection \<open>The flag word\<close>

lemma flag_word_bits:
  "opcode = 15 \<or> opcode = 13 \<or> opcode = 4 \<Longrightarrow> flag_word opcode pk cond ver AND 0xf0c0 = 0"
  "opcode = 15 \<or> opcode = 13 \<or> opcode = 4 \<Longrightarrow> flag_word opcode pk cond ver AND 0xf = opcode"
  "opcode = 15 \<or> opcode = 13 \<or> opcode = 4 \<Longrightarrow> has (flag_word opcode pk cond ver) HAS_KEY"
  "opcode = 15 \<or> opcode = 13 \<or> opcode = 4 \<Longrightarrow> has (flag_word opcode pk cond ver) START_CONDITION_BLOCK"
  "opcode = 15 \<or> opcode = 13 \<or> opcode = 4 \<Longrightarrow> has (flag_word opcode pk cond ver) HAS_VALUE = (opcode = 15)"
  "opcode = 15 \<or> opcode = 13 \<or> opcode = 4 \<Longrightarrow> has (flag_word opcode pk cond ver) CONDITIONAL = (opcode \<noteq> 4)"
  "opcode = 15 \<or> opcode = 13 \<or> opcode = 4 \<Longrightarrow> has (flag_word opcode pk cond ver) COMPRESSIBLE = pk"
  "opcode = 15 \<or> opcode = 13 \<or> opcode = 4 \<Longrightarrow> has (flag_word opcode pk cond ver) CONDITIONAL_VERSION = (\<exists>v. cond = If_version v)"
  "opcode = 15 \<or> opcode = 13 \<or> opcode = 4 \<Longrightarrow> has (flag_word opcode pk cond ver) SET_VERSION = (ver \<noteq> None)"
  "opcode = 15 \<or> opcode = 13 \<or> opcode = 4 \<Longrightarrow> has (flag_word opcode pk cond ver) IF_NO_EXISTS = (cond = If_absent)"
  "opcode = 15 \<or> opcode = 13 \<or> opcode = 4 \<Longrightarrow>
     put_flags (flag_word opcode pk cond ver) = (if cond = If_absent then MDBX_NOOVERWRITE else 0)"
  by (cases pk; cases cond; cases ver; auto simp: flag_word_def has_def put_flags_def instruction_flags)+

subsection \<open>Conditions\<close>

definition version_readable :: "condition \<Rightarrow> u8 list option \<Rightarrow> bool" where
  "version_readable cond x \<longleftrightarrow>
     (case (cond, x) of (If_version v, Some bs) \<Rightarrow> 8 \<le> length bs | _ \<Rightarrow> True)"

lemma take_rd_bytes: "k \<le> n \<Longrightarrow> take k (rd_bytes m a n) = rd_bytes m a k"
  by (rule nth_equalityI) auto

lemma record_version_at:
  "val_bytes m v = bs \<Longrightarrow> 8 \<le> length bs \<Longrightarrow> ld64 m (iov_base v) = record_version bs"
  by (auto simp: val_bytes_def record_version_def ld64_def take_rd_bytes)

lemma get_cases:
  assumes "get_ok e V" "usable V dbi key"
  shows "case stored V s m dbi (val_bytes m key) of
           None \<Rightarrow> mdbx_get e s m dbi key v = (error_code MDBX_NOTFOUND, v)
         | Some bs \<Rightarrow> (\<exists>v'. mdbx_get e s m dbi key v = (0, v') \<and> val_bytes m v' = bs)"
  using assms unfolding get_ok_def by simp

lemma get_found:
  assumes "get_ok e V" "usable V dbi key" "stored V s m dbi (val_bytes m key) = Some bs"
  shows "\<exists>v'. mdbx_get e s m dbi key v = (0, v') \<and> val_bytes m v' = bs"
  using get_cases [OF assms(1,2), of s m v] assms(3) by simp

lemma get_missing:
  assumes "get_ok e V" "usable V dbi key" "stored V s m dbi (val_bytes m key) = None"
  shows "mdbx_get e s m dbi key v = (error_code MDBX_NOTFOUND, v)"
  using get_cases [OF assms(1,2), of s m v] assms(3) by simp

lemma conditions_read:
  fixes E :: "'s surroundings" and st :: "'s worker"
  defines "m \<equiv> memory st" and "s \<equiv> txn_state st"
  assumes get: "get_ok (eng E) V" "usable V dbi (key_of l)"
    and cond: "condition_at m (instruction l) cond" "version_at m (instruction l + condition_size cond) ver"
    and flags: "has flags CONDITIONAL_VERSION = (\<exists>v. cond = If_version v)" "has flags SET_VERSION = (ver \<noteq> None)"
      "has flags IF_NO_EXISTS = (cond = If_absent)" "has flags START_CONDITION_BLOCK"
  defines "x \<equiv> stored V s m dbi (val_bytes m (key_of l))"
  shows "\<exists>b' rc v. check_no_exists E flags dbi st (read_set_version flags st (check_version E flags dbi st (b, l))) =
       (b', l\<lparr>rc_of := rc, value_of := v, setVersion := (case ver of None \<Rightarrow> setVersion l | Some w \<Rightarrow> w),
              instruction := instruction l + condition_size cond + version_size ver\<rparr>) \<and>
     (version_readable cond x \<longrightarrow> b' = (b \<and> meets cond x)) \<and>
     (b' \<longrightarrow> (\<forall>w. cond \<noteq> If_version w) \<longrightarrow> v = value_of l)"
proof -
  have nf: "error_code MDBX_NOTFOUND \<noteq> 0" by simp
  have sv: "read_set_version flags st (c, l') =
      (c, l'\<lparr>setVersion := (case ver of None \<Rightarrow> setVersion l' | Some w \<Rightarrow> w),
            instruction := instruction l' + version_size ver\<rparr>)"
    if "instruction l' = instruction l + condition_size cond" for c l'
    using flags(2) cond(2) that
    by (cases ver) (simp_all add: read_set_version_def version_at_def version_size_def m_def)
  show ?thesis
  proof (cases cond)
    case Always
    then have "\<not> has flags CONDITIONAL_VERSION" "\<not> has flags IF_NO_EXISTS" using flags by simp_all
    then show ?thesis
      using Always
      by (intro exI [of _ b] exI [of _ "rc_of l"] exI [of _ "value_of l"])
        (simp add: check_version_def check_no_exists_def sv condition_size_def)
  next
    case If_absent
    then have f: "\<not> has flags CONDITIONAL_VERSION" "has flags IF_NO_EXISTS" using flags by simp_all
    obtain rc v where g: "mdbx_get (eng E) s m dbi (key_of l) (value_of l) = (rc, v)"
      and r: "(rc = error_code MDBX_NOTFOUND) = (x = None)" and v: "x = None \<longrightarrow> v = value_of l"
    proof (cases x)
      case None
      then show ?thesis using get_missing [OF get, of s m "value_of l"] that unfolding x_def by simp
    next
      case (Some bs)
      then show ?thesis using get_found [OF get, of s m bs "value_of l"] that nf unfolding x_def by auto
    qed
    show ?thesis
      using If_absent f g r v flags(4)
      by (intro exI [of _ "b \<and> x = None"] exI [of _ rc] exI [of _ v])
        (simp add: check_version_def check_no_exists_def sv condition_size_def m_def s_def)
  next
    case (If_version w)
    then have f: "has flags CONDITIONAL_VERSION" "\<not> has flags IF_NO_EXISTS" using flags by simp_all
    have w: "ld64 m (instruction l) = w" using cond(1) If_version by (simp add: condition_at_def)
    obtain rc v where g: "mdbx_get (eng E) s m dbi (key_of l) (value_of l) = (rc, v)"
      by (metis surj_pair)
    have r: "(rc = 0) = (x \<noteq> None)" and v: "\<forall>bs. x = Some bs \<longrightarrow> val_bytes m v = bs"
    proof -
      show "(rc = 0) = (x \<noteq> None)"
      proof (cases x)
        case None
        then show ?thesis using get_missing [OF get, of s m "value_of l"] g nf unfolding x_def by simp
      next
        case (Some bs)
        then show ?thesis using get_found [OF get, of s m bs "value_of l"] g unfolding x_def by auto
      qed
      show "\<forall>bs. x = Some bs \<longrightarrow> val_bytes m v = bs"
        using get_found [OF get, of s m _ "value_of l"] g unfolding x_def by auto
    qed
    have ver: "dbl_eq w (ld64 m (iov_base v)) = meets cond x" if z: "rc = 0" "version_readable cond x"
    proof -
      obtain bs where bs: "x = Some bs" using z(1) r by blast
      then have "ld64 m (iov_base v) = record_version bs"
        using z(2) v If_version by (intro record_version_at) (simp_all add: version_readable_def)
      then show ?thesis using bs If_version by simp
    qed
    have none: "\<not> meets cond x" if "rc \<noteq> 0" using that r If_version by simp
    have run: "check_version E flags dbi st (b, l) =
        (rc = 0 \<and> b \<and> dbl_eq w (ld64 m (iov_base v)),
         l\<lparr>instruction := instruction l + 8, rc_of := rc, value_of := v\<rparr>)"
      using f(1) g w by (simp add: check_version_def m_def s_def Let_def)
    show ?thesis
    proof (intro exI conjI impI)
      show "check_no_exists E flags dbi st (read_set_version flags st (check_version E flags dbi st (b, l))) =
        (rc = 0 \<and> b \<and> dbl_eq w (ld64 m (iov_base v)),
         l\<lparr>rc_of := rc, value_of := v, setVersion := (case ver of None \<Rightarrow> setVersion l | Some w \<Rightarrow> w),
            instruction := instruction l + condition_size cond + version_size ver\<rparr>)"
        unfolding run using f(2) If_version by (cases ver) (simp_all add: check_no_exists_def sv condition_size_def)
      show "(rc = 0 \<and> b \<and> dbl_eq w (ld64 m (iov_base v))) = (b \<and> meets cond x)" if "version_readable cond x"
        using ver [OF _ that] none by blast
      show "v = value_of l" if "\<forall>w. cond \<noteq> If_version w" using that If_version by simp
    qed
  qed
qed

subsection \<open>Putting and deleting\<close>

lemma engine_okD:
  assumes "engine_ok e V"
  shows "get_ok e V" "put_ok e V" "reserve_ok e V" "del_ok e V" "drop_ok e V" "reads_map_only V"
  using assms by (simp_all add: engine_ok_def)

text \<open>The version and the copied value make one record.\<close>

lemma write_after_version:
  "wr_bytes (wr_bytes m (a + length xs) ys) a xs = wr_bytes m a (xs @ ys)"
  by (rule ext) (auto simp: wr_bytes_def nth_append)

definition same_place :: "locals \<Rightarrow> locals \<Rightarrow> bool" where
  "same_place l l' \<longleftrightarrow>
     instruction l' = instruction l \<and> conditionDepth l' = conditionDepth l \<and> validatedDepth l' = validatedDepth l"

lemma putWithVersion_effect:
  assumes eng: "engine_ok e V" "usable V dbi key"
    and v: "val_bytes m v = bs" "length bs < 2 ^ 31 - 8"
    and src: "{iov_base v..<iov_base v + length bs} \<inter> map_area V = {}"
  shows "\<exists>rc s' m' v'. putWithVersion e s m dbi key v f w = Some (rc, s', m', v') \<and>
     (reliable e \<longrightarrow> \<not> hard_error rc) \<and>
     changes_to V s m rc s' m' (update (stored V s m) dbi (val_bytes m key) (Some (version_bytes (Some w) @ bs)))"
proof -
  define n where "n = length bs"
  have len: "unat (iov_len v) = n" using v(1) unfolding n_def val_bytes_def by (metis length_rd_bytes)
  have "unat (ucast (iov_len v) :: 32 word) = n" using len v(2) unfolding n_def by (subst unat_ucast_lt) simp_all
  then have sz: "sint (ucast (iov_len v) :: 32 word) = int n" using v(2) unfolding n_def by (subst sint32_small) simp_all
  obtain rc s' m1 v1 where p: "mdbx_put e s m dbi key (v\<lparr>iov_len := word_of_int (int n + 8)\<rparr>) MDBX_RESERVE = (rc, s', m1, v1)"
    by (metis surj_pair)
  have n8: "unat (word_of_int (int n + 8) :: u64) = n + 8"
  proof -
    have "word_of_int (int n + 8) = (of_nat (n + 8) :: u64)" by simp
    then show ?thesis using v(2) unfolding n_def by (simp only: unat_of_nat_lt) (subst unat_of_nat_lt, simp_all)
  qed
  note law = engine_okD(3) [OF eng(1), unfolded reserve_ok_def, rule_format, OF eng(2) p]
  have agree: "agree_outside (map_area V) m m1" using law by simp
  show ?thesis
  proof (cases "rc = 0")
    case True
    define b where "b = iov_base v1"
    have area: "{b..<b + (n + 8)} \<subseteq> map_area V" using law True n8 by (simp add: b_def)
    have put: "stored V s' (wr_bytes m1 b bs') = update (stored V s m) dbi (val_bytes m key) (Some bs')"
      if "length bs' = n + 8" for bs' using law True n8 that by (simp add: b_def)
    have rd: "rd_bytes m1 (iov_base v) n = bs"
      using agree_ld [OF agree, of "iov_base v" n] src v(1) len unfolding n_def val_bytes_def by simp
    define m2 where "m2 = st64 (wr_bytes m1 (b + 8) bs) b w"
    have m2: "m2 = wr_bytes m1 b (version_bytes (Some w) @ bs)"
      using write_after_version [of m1 b "le_bytes 8 (unat w)" bs]
      by (simp add: m2_def st64_def version_bytes_def)
    have "agree_outside (map_area V) m1 m2"
      unfolding m2 using area by (intro agree_outside_wr) (simp add: version_bytes_def n_def add.commute)
    then have "agree_outside (map_area V) m m2" using agree by (rule agree_outside_trans [rotated])
    moreover have "stored V s' m2 = update (stored V s m) dbi (val_bytes m key) (Some (version_bytes (Some w) @ bs))"
      unfolding m2 by (rule put) (simp add: version_bytes_def n_def)
    moreover have "putWithVersion e s m dbi key v f w = Some (rc, s', m2, v1\<lparr>iov_base := iov_base v\<rparr>)"
      using True p v(2) rd by (simp add: putWithVersion_def sz Let_def m2_def b_def n_def)
    ultimately show ?thesis
      using True reliable_calls(1) [OF _ p] by (intro exI conjI) (assumption, blast, simp add: changes_to_def)
  next
    case False
    then have "putWithVersion e s m dbi key v f w = Some (rc, s', m1, v1\<lparr>iov_base := iov_base v\<rparr>)"
      using p v(2) by (simp add: putWithVersion_def sz Let_def n_def)
    then show ?thesis
      using False law reliable_calls(1) [OF _ p] by (intro exI conjI) (assumption, blast, simp add: changes_to_def)
  qed
qed

lemma do_put_effect:
  fixes E :: "'s surroundings" and st :: "'s worker"
  defines "m \<equiv> memory st" and "s \<equiv> txn_state st"
  assumes eng: "engine_ok (eng E) V" "usable V dbi (key_of l)"
    and v: "val_bytes m (value_of l) = bs" "length bs < 2 ^ 31 - 8"
    and src: "{iov_base (value_of l)..<iov_base (value_of l) + length bs} \<inter> map_area V = {}"
    and ver: "has flags SET_VERSION = (ver \<noteq> None)" "\<forall>w. ver = Some w \<longrightarrow> setVersion l = w"
    and f: "put_flags flags = 0 \<or>
        put_flags flags = MDBX_NOOVERWRITE \<and> stored V s m dbi (val_bytes m (key_of l)) = None"
  shows "\<exists>l' s' m'. do_put E flags dbi l st = Some (l', st\<lparr>txn_state := s', memory := m'\<rparr>) \<and> same_place l l' \<and>
     (reliable (eng E) \<longrightarrow> \<not> hard_error (rc_of l')) \<and>
     changes_to V s m (rc_of l') s' m'
       (update (stored V s m) dbi (val_bytes m (key_of l)) (Some (version_bytes ver @ bs)))"
proof -
  have fr: "rc_of (free_if_compressible flags (l\<lparr>rc_of := rc, value_of := v\<rparr>)) = rc"
    "same_place l (free_if_compressible flags (l\<lparr>rc_of := rc, value_of := v\<rparr>))" for rc v
    by (simp_all add: free_if_compressible_def same_place_def)
  have "\<exists>rc s' m' v'.
     (if has flags SET_VERSION
      then putWithVersion (eng E) s m dbi (key_of l) (value_of l) (put_flags flags) (setVersion l)
      else Some (mdbx_put (eng E) s m dbi (key_of l) (value_of l) (put_flags flags))) = Some (rc, s', m', v') \<and>
     (reliable (eng E) \<longrightarrow> \<not> hard_error rc) \<and>
     changes_to V s m rc s' m' (update (stored V s m) dbi (val_bytes m (key_of l)) (Some (version_bytes ver @ bs)))"
  proof (cases ver)
    case None
    obtain rc s' m' v' where p: "mdbx_put (eng E) s m dbi (key_of l) (value_of l) (put_flags flags) = (rc, s', m', v')"
      by (metis surj_pair)
    have "changes_to V s m rc s' m' (update (stored V s m) dbi (val_bytes m (key_of l)) (Some bs))"
      using engine_okD(2) [OF eng(1), unfolded put_ok_def, rule_format, OF eng(2) p] f v(1) by blast
    then show ?thesis using p ver(1) None reliable_calls(1) [OF _ p] by (simp add: version_bytes_def)
  next
    case (Some w)
    then show ?thesis
      using putWithVersion_effect [OF eng v src, of s "put_flags flags" w] ver by simp
  qed
  then obtain rc s' m' v' where r:
    "(if has flags SET_VERSION
      then putWithVersion (eng E) s m dbi (key_of l) (value_of l) (put_flags flags) (setVersion l)
      else Some (mdbx_put (eng E) s m dbi (key_of l) (value_of l) (put_flags flags))) = Some (rc, s', m', v')"
    "reliable (eng E) \<longrightarrow> \<not> hard_error rc"
    "changes_to V s m rc s' m' (update (stored V s m) dbi (val_bytes m (key_of l)) (Some (version_bytes ver @ bs)))"
    by (elim exE conjE)
  have "do_put E flags dbi l st =
      Some (free_if_compressible flags (l\<lparr>rc_of := rc, value_of := v'\<rparr>), st\<lparr>txn_state := s', memory := m'\<rparr>)"
    unfolding do_put_def r(1) [unfolded m_def s_def] by simp
  then show ?thesis using r(2,3) fr by (intro exI conjI) (assumption, simp_all)
qed

subsection \<open>One instruction\<close>

text \<open>The operands of an instruction with a key; the value is at \<open>p\<close> when the opcode is that of a put.\<close>

lemma operands_read:
  fixes E :: "'s surroundings" and st :: "'s worker"
  defines "m \<equiv> memory st" and "s \<equiv> txn_state st"
  assumes get: "get_ok (eng E) V" and db: "dbi \<in> plain_dbs V" "length k \<le> key_limit V" "length k < 2 ^ 32"
    and opc: "opc = 15 \<or> opc = 13 \<or> opc = 4"
    and at: "instruction l = a + 4" "key_at m a dbi k"
    and v: "opc = 15 \<longrightarrow> value_at m (after_key a k) pk vp bs \<and> length bs < 2 ^ 32"
  defines "q \<equiv> after_key a k + (if opc = 15 then if pk then 16 else 8 else 0)"
  assumes cond: "condition_at m q cond" "version_at m (q + condition_size cond) ver"
  defines "x \<equiv> stored V s m dbi k"
  shows "\<exists>b' l1. read_operands E (flag_word opc pk cond ver) b l st = Some (dbi, b', l1, st) \<and>
     instruction l1 = q + condition_size cond + version_size ver \<and>
     key_of l1 = \<lparr>iov_base = a + 12, iov_len = of_nat (length k)\<rparr> \<and>
     conditionDepth l1 = conditionDepth l \<and> validatedDepth l1 = validatedDepth l \<and>
     (version_readable cond x \<longrightarrow> b' = (b \<and> meets cond x)) \<and>
     (opc = 15 \<longrightarrow> b' \<longrightarrow> (\<forall>w. cond \<noteq> If_version w) \<longrightarrow> value_of l1 = \<lparr>iov_base = vp, iov_len = of_nat (length bs)\<rparr>) \<and>
     (\<forall>w. ver = Some w \<longrightarrow> setVersion l1 = w)"
proof -
  define flags where "flags = flag_word opc pk cond ver"
  note bits = flag_word_bits [OF opc, of pk cond ver, folded flags_def]
  define l0 where "l0 = l\<lparr>key_of := \<lparr>iov_base = a + 12, iov_len = of_nat (length k)\<rparr>, instruction := after_key a k\<rparr>"
  have rk: "read_key l st = (dbi, l0)" unfolding l0_def using at db(3) by (intro read_key_at) (simp_all add: m_def)
  have kb: "val_bytes m (key_of l0) = k" unfolding l0_def using key_bytes_at [OF at(2) db(3)] by simp
  define l2 where "l2 = (if opc = 15 then l0\<lparr>value_of := \<lparr>iov_base = vp, iov_len = of_nat (length bs)\<rparr>,
     instruction := instruction l0 + (if pk then 16 else 8)\<rparr> else l0)"
  have rv: "(if has flags HAS_VALUE then read_value E flags l0 st else Some (l0, st)) = Some (l2, st)"
    using v bits(5,7) read_value_at [of st l0 pk vp bs flags E] by (simp add: l2_def l0_def m_def)
  have q: "instruction l2 = q" by (simp add: l2_def l0_def q_def)
  have l2: "key_of l2 = key_of l0" "conditionDepth l2 = conditionDepth l" "validatedDepth l2 = validatedDepth l"
    by (simp_all add: l2_def l0_def)
  have us: "usable V dbi (key_of l2)" using db unfolding l2 by (simp add: usable_def l0_def unat_of_nat_lt)
  have vb: "x = stored V (txn_state st) (memory st) dbi (val_bytes (memory st) (key_of l2))"
    using kb unfolding l2 by (simp add: x_def m_def s_def)
  have c2: "condition_at (memory st) (instruction l2) cond"
    "version_at (memory st) (instruction l2 + condition_size cond) ver"
    using cond q by (simp_all add: m_def)
  obtain b' rc w where c: "check_no_exists E flags dbi st (read_set_version flags st (check_version E flags dbi st (b, l2))) =
       (b', l2\<lparr>rc_of := rc, value_of := w, setVersion := (case ver of None \<Rightarrow> setVersion l2 | Some w \<Rightarrow> w),
              instruction := instruction l2 + condition_size cond + version_size ver\<rparr>)"
    and b: "version_readable cond x \<longrightarrow> b' = (b \<and> meets cond x)"
    and w: "b' \<longrightarrow> (\<forall>w. cond \<noteq> If_version w) \<longrightarrow> w = value_of l2"
    using conditions_read [OF get us c2 bits(8,9,10,4), of b] unfolding vb by (elim exE conjE)
  have "read_operands E flags b l st = Some (dbi, b', l2\<lparr>rc_of := rc, value_of := w,
      setVersion := (case ver of None \<Rightarrow> setVersion l2 | Some w \<Rightarrow> w),
      instruction := instruction l2 + condition_size cond + version_size ver\<rparr>, st)"
    unfolding read_operands_def using bits(3) by (simp add: rk rv c)
  then show ?thesis
    using b w unfolding flags_def
    by (intro exI conjI) (assumption, simp_all add: q l2, simp_all add: l0_def l2_def)
qed

definition op_result :: "bool \<Rightarrow> u32" where
  "op_result done = (if done then FINISHED_OPERATION else FINISHED_OPERATION OR FAILED_CONDITION)"

lemma finish_instruction_effect:
  "finish_instruction E True a l st =
     Next_instruction l (st\<lparr>memory := st32 (memory st) a (ld32 (memory st) a OR op_result (rc_of l = 0)),
       error_message := (if hard_error (rc_of l) then Some (mdbx_strerror (os_strerror E) (rc_of l))
                         else error_message st)\<rparr>)"
  by (simp add: finish_instruction_def set_result_def ReportError_def op_result_def hard_error_def)

fun depth_change :: "write_op \<Rightarrow> int" where
  "depth_change Open_block = 1"
| "depth_change (Open_condition dbi k cond) = 1"
| "depth_change Close_block = - 1"
| "depth_change op = 0"

text \<open>
  What the writer's step over \<open>P\<close> leaves: it stands behind the instruction, has written only
  the map and the flag word, reports no error of a reliable engine, and unless it reports one the records, the depths and the
  flag word are those of the operation.
\<close>

definition step_ok ::
    "'s engine \<Rightarrow> 's engine_model \<Rightarrow> placed \<Rightarrow> locals \<Rightarrow> 's worker \<Rightarrow> locals \<Rightarrow> 's worker \<Rightarrow> bool" where
  "step_ok e V P l st l' st' \<longleftrightarrow>
     instruction l' = instr_end P \<and>
     conditionDepth l' = conditionDepth l + depth_change (operation P) \<and>
     (\<exists>m' s' e. st' = st\<lparr>memory := m', txn_state := s', error_message := e\<rparr> \<and>
        (e = None \<longrightarrow> error_message st = None)) \<and>
     agree_outside (map_area V \<union> {start P..<start P + 4}) (memory st) (memory st') \<and>
     (reliable e \<longrightarrow> error_message st' = error_message st) \<and>
     (\<not> hard_error (rc_of l') \<longrightarrow> error_message st' = error_message st) \<and>
     (versioned (operation P) (stored V (txn_state st) (memory st)) \<longrightarrow> error_message st' = None \<longrightarrow>
        (case op_step (operation P) (stored V (txn_state st) (memory st), conditionDepth l, validatedDepth l) of
           ((c, d, v), done) \<Rightarrow>
             stored V (txn_state st') (memory st') = c \<and> validatedDepth l' = v \<and>
             (operation P \<noteq> Close_block \<longrightarrow>
                ld32 (memory st') (start P) = ld32 (memory st) (start P) OR op_result done)))"

lemma flag_written:
  assumes "reads_map_only V" "{a..<a + 4} \<inter> map_area V = {}" "agree_outside (map_area V) m m2"
  shows "stored V s (st32 m2 a (ld32 m2 a OR r)) = stored V s m2"
    and "ld32 (st32 m2 a (ld32 m2 a OR r)) a = ld32 m a OR r"
    and "agree_outside (map_area V \<union> {a..<a + 4}) m (st32 m2 a (ld32 m2 a OR r))"
proof -
  have "agree_outside (- map_area V) m2 (st32 m2 a (ld32 m2 a OR r))"
    using assms(2) by (intro agree_outside_st32) auto
  then show "stored V s (st32 m2 a (ld32 m2 a OR r)) = stored V s m2"
    using assms(1) unfolding reads_map_only_def by simp
  show "ld32 (st32 m2 a (ld32 m2 a OR r)) a = ld32 m a OR r"
    using agree_ld32 [OF assms(3,2)] by (simp add: mem_simps)
  have "agree_outside (map_area V \<union> {a..<a + 4}) m m2" using assms(3) by (rule agree_outside_mono) simp
  moreover have "agree_outside (map_area V \<union> {a..<a + 4}) m2 (st32 m2 a (ld32 m2 a OR r))"
    by (rule agree_outside_st32) simp
  ultimately show "agree_outside (map_area V \<union> {a..<a + 4}) m (st32 m2 a (ld32 m2 a OR r))"
    by (rule agree_outside_trans)
qed

text \<open>The flag word is the last thing a step writes.\<close>

lemma written_step:
  fixes V :: "'s engine_model" and l :: locals and st :: "'s worker"
  defines "A \<equiv> (stored V (txn_state st) (memory st), conditionDepth l, validatedDepth l)"
  assumes map: "reads_map_only V" "{start P..<start P + 4} \<inter> map_area V = {}"
    and l1: "instruction l1 = instr_end P" "conditionDepth l1 = conditionDepth l + depth_change (operation P)"
    and agree: "agree_outside (map_area V) (memory st) m2"
    and st': "st' = st\<lparr>memory := st32 m2 (start P) (ld32 m2 (start P) OR op_result b), txn_state := s2, error_message := e\<rparr>"
      "e = None \<longrightarrow> error_message st = None" "reliable (eng E) \<longrightarrow> e = error_message st"
      "\<not> hard_error (rc_of l1) \<longrightarrow> e = error_message st"
    and eff: "versioned (operation P) (fst A) \<Longrightarrow> e = None \<Longrightarrow>
        stored V s2 m2 = fst (fst (op_step (operation P) A)) \<and>
        validatedDepth l1 = snd (snd (fst (op_step (operation P) A))) \<and>
        b = snd (op_step (operation P) A)"
  shows "step_ok (eng E) V P l st l1 st'"
  unfolding step_ok_def
proof (intro conjI impI)
  note fw = flag_written [OF map agree]
  show "\<exists>m' s' e. st' = st\<lparr>memory := m', txn_state := s', error_message := e\<rparr> \<and> (e = None \<longrightarrow> error_message st = None)"
    by (intro exI conjI) (rule st'(1), rule st'(2))
  show "error_message st' = error_message st" if "reliable (eng E)" using st'(1,3) that by simp
  show "error_message st' = error_message st" if "\<not> hard_error (rc_of l1)" using st'(1,4) that by simp
  show "agree_outside (map_area V \<union> {start P..<start P + 4}) (memory st) (memory st')"
    using fw(3) by (simp add: st')
  assume "versioned (operation P) (stored V (txn_state st) (memory st))" "error_message st' = None"
  then have "versioned (operation P) (fst A)" "e = None" by (simp_all add: A_def st')
  note ef = eff [OF this]
  show "case op_step (operation P) (stored V (txn_state st) (memory st), conditionDepth l, validatedDepth l) of
     ((c, d, v), done) \<Rightarrow>
       stored V (txn_state st') (memory st') = c \<and> validatedDepth l1 = v \<and>
       (operation P \<noteq> Close_block \<longrightarrow>
          ld32 (memory st') (start P) = ld32 (memory st) (start P) OR op_result done)"
    using ef fw(1) [of s2 "op_result b"] fw(2) [of "op_result b"] unfolding A_def
    by (simp add: st' split: prod.split)
qed (rule l1)+

text \<open>After the \<open>switch\<close>, with what the engine call left in \<open>s2\<close>, \<open>m2\<close> and \<open>rc_of l1\<close>.\<close>

lemma finish_step:
  fixes E :: "'s surroundings" and V :: "'s engine_model" and l :: locals and st :: "'s worker"
  defines "A \<equiv> (stored V (txn_state st) (memory st), conditionDepth l, validatedDepth l)"
  assumes map: "reads_map_only V" "{start P..<start P + 4} \<inter> map_area V = {}"
    and l1: "instruction l1 = instr_end P" "conditionDepth l1 = conditionDepth l + depth_change (operation P)"
    and agree: "agree_outside (map_area V) (memory st) m2"
    and eff: "versioned (operation P) (fst A) \<Longrightarrow> \<not> hard_error (rc_of l1) \<Longrightarrow>
        stored V s2 m2 = fst (fst (op_step (operation P) A)) \<and>
        validatedDepth l1 = snd (snd (fst (op_step (operation P) A))) \<and>
        (rc_of l1 = 0) = snd (op_step (operation P) A)"
    and rel: "reliable (eng E) \<longrightarrow> \<not> hard_error (rc_of l1)"
  shows "\<exists>st'. finish_instruction E True (start P) l1 (st\<lparr>txn_state := s2, memory := m2\<rparr>) = Next_instruction l1 st' \<and>
     step_ok (eng E) V P l st l1 st'"
proof (intro exI conjI)
  define e where "e = (if hard_error (rc_of l1) then Some (mdbx_strerror (os_strerror E) (rc_of l1)) else error_message st)"
  let ?st' = "st\<lparr>memory := st32 m2 (start P) (ld32 m2 (start P) OR op_result (rc_of l1 = 0)), txn_state := s2, error_message := e\<rparr>"
  show "finish_instruction E True (start P) l1 (st\<lparr>txn_state := s2, memory := m2\<rparr>) = Next_instruction l1 ?st'"
    by (simp add: finish_instruction_effect e_def)
  show "step_ok (eng E) V P l st l1 ?st'"
    by (rule written_step [OF map l1 agree refl]) (use eff rel in \<open>simp_all add: e_def A_def split: if_splits\<close>)
qed

text \<open>An instruction that is not validated.\<close>

lemma skip_step:
  fixes V :: "'s engine_model" and l :: locals and st :: "'s worker"
  defines "A \<equiv> (stored V (txn_state st) (memory st), conditionDepth l, validatedDepth l)"
  assumes map: "reads_map_only V" "{start P..<start P + 4} \<inter> map_area V = {}"
    and l1: "instruction l1 = instr_end P" "conditionDepth l1 = conditionDepth l" "validatedDepth l1 = validatedDepth l"
    and op: "depth_change (operation P) = 0"
      "versioned (operation P) (fst A) \<Longrightarrow> op_step (operation P) A = (A, False)"
  shows "\<exists>st'. set_result True (start P) (FINISHED_OPERATION OR FAILED_CONDITION) l1 st = Next_instruction l1 st' \<and>
     step_ok (eng E) V P l st l1 st'"
proof (intro exI conjI)
  let ?st' = "st\<lparr>memory := st32 (memory st) (start P) (ld32 (memory st) (start P) OR op_result False),
    txn_state := txn_state st, error_message := error_message st\<rparr>"
  show "set_result True (start P) (FINISHED_OPERATION OR FAILED_CONDITION) l1 st = Next_instruction l1 ?st'"
    by (simp add: set_result_def op_result_def)
  show "step_ok (eng E) V P l st l1 ?st'"
    by (rule written_step [OF map l1(1) _ _ refl])
      (use op l1 in \<open>simp_all add: A_def\<close>)
qed

lemma instr_end_ge: "start P + 8 \<le> instr_end P"
proof -
  have "start P + 8 \<le> after_key (start P) k" for k using after_key_ge [of "start P" k] by linarith
  then show ?thesis by (cases "operation P") (simp_all add: instr_end_def add.assoc trans_le_add1)
qed

lemma read_area_flag: "read_area P \<inter> F = {} \<Longrightarrow> {start P..<start P + 4} \<inter> F = {}"
  using instr_end_ge [of P] by (fastforce simp: read_area_def)

lemma one_instruction_unfold:
  assumes "instruction l = a" "ld32 (memory st) a = flags" "flags AND 0xf0c0 = 0"
    "read_operands E flags (conditionDepth l = validatedDepth l) (l\<lparr>instruction := a + 4\<rparr>) st = Some (dbi, b, l1, st)"
  shows "one_instruction E w l st =
     (if b \<or> \<not> has flags CONDITIONAL
      then execute E w a flags dbi b l1 st \<bind>
        (\<lambda>r. Some (case r of Break_switch l st \<Rightarrow> finish_instruction E w a l st | _ \<Rightarrow> r))
      else Some (set_result w a (FINISHED_OPERATION OR FAILED_CONDITION) l1 st))"
  using assms by (simp add: one_instruction_def Let_def)

lemma put_step:
  assumes eng: "engine_ok (eng E) V" and at: "instr_at (memory st) P" "instruction l = start P"
    and sp: "read_area P \<inter> map_area V = {}" and fits: "op_fits V (operation P)"
    and op: "operation P = Put dbi k bs ver cond"
  shows "\<exists>l' st'. one_instruction E True l st = Some (Next_instruction l' st') \<and> step_ok (eng E) V P l st l' st'"
proof -
  note ok = engine_okD [OF eng]
  define m where "m = memory st"
  define s where "s = txn_state st"
  define x where "x = stored V s m dbi k"
  define flags where "flags = flag_word 15 (packed P) cond ver"
  define q where "q = after_key (start P) k + (if packed P then 16 else 8)"
  have nv: "\<forall>w. cond \<noteq> If_version w" using fits op by (auto split: condition.splits)
  then have vr: "version_readable cond x" by (cases cond) (simp_all add: version_readable_def)
  have db: "dbi \<in> plain_dbs V" "length k \<le> key_limit V" "length k < 2 ^ 32" "length bs < 2 ^ 31 - 8"
    using fits op by simp_all
  have w: "ld32 m (start P) = flags" using at op by (simp add: instr_at_def m_def flags_def)
  have ka: "key_at m (start P) dbi k" and va: "value_at m (after_key (start P) k) (packed P) (value_address P) bs"
    and ca: "condition_at m q cond" "version_at m (q + condition_size cond) ver"
    using at op by (simp_all add: instr_at_def m_def q_def Let_def)
  note bits = flag_word_bits [OF disjI1, OF refl, of "packed P" cond ver, folded flags_def]
  have va': "(15 :: u32) = 15 \<longrightarrow> value_at (memory st) (after_key (start P) k) (packed P) (value_address P) bs \<and> length bs < 2 ^ 32"
    using va db by (simp add: m_def)
  obtain b l1 where ro: "read_operands E flags (conditionDepth l = validatedDepth l) (l\<lparr>instruction := start P + 4\<rparr>) st =
        Some (dbi, b, l1, st)"
    and l1: "instruction l1 = q + condition_size cond + version_size ver"
      "key_of l1 = \<lparr>iov_base = start P + 12, iov_len = of_nat (length k)\<rparr>"
      "conditionDepth l1 = conditionDepth l" "validatedDepth l1 = validatedDepth l"
    and b: "b = (conditionDepth l = validatedDepth l \<and> meets cond x)"
    and vl: "b \<longrightarrow> value_of l1 = \<lparr>iov_base = value_address P, iov_len = of_nat (length bs)\<rparr>"
    and sv: "\<forall>w. ver = Some w \<longrightarrow> setVersion l1 = w"
    using operands_read [OF ok(1) db(1-3), where opc = 15 and st = st and l = "l\<lparr>instruction := start P + 4\<rparr>"
        and a = "start P" and pk = "packed P" and vp = "value_address P" and bs = bs and cond = cond and ver = ver
        and b = "conditionDepth l = validatedDepth l", OF _ _ _ va']
      ka ca nv vr unfolding m_def s_def x_def flags_def q_def by (auto simp: m_def)
  have one: "one_instruction E True l st =
     (if b then execute E True (start P) flags dbi b l1 st \<bind>
        (\<lambda>r. Some (case r of Break_switch l st \<Rightarrow> finish_instruction E True (start P) l st | _ \<Rightarrow> r))
      else Some (set_result True (start P) (FINISHED_OPERATION OR FAILED_CONDITION) l1 st))"
    using one_instruction_unfold [OF at(2) w [unfolded m_def] bits(1) ro, of True] bits(6) by simp
  have end_: "instruction l1 = instr_end P" using l1(1) op by (simp add: instr_end_def q_def)
  note fl = read_area_flag [OF sp]
  show ?thesis
  proof (cases b)
    case False
    then have "op_step (operation P) (stored V s m, conditionDepth l, validatedDepth l) =
        ((stored V s m, conditionDepth l, validatedDepth l), False)"
      using op b by (simp add: x_def)
    then obtain st' where "set_result True (start P) (FINISHED_OPERATION OR FAILED_CONDITION) l1 st = Next_instruction l1 st'"
      "step_ok (eng E) V P l st l1 st'"
      using skip_step [OF ok(6) fl end_ l1(3,4)] op unfolding m_def s_def by auto
    then show ?thesis using one False by simp
  next
    case True
    have kb: "val_bytes m (key_of l1) = k" unfolding l1(2) by (rule key_bytes_at [OF ka db(3)])
    have vb: "val_bytes m (value_of l1) = bs" using vl True value_bytes_at [OF va] db(4) by simp
    have src: "{iov_base (value_of l1)..<iov_base (value_of l1) + length bs} \<inter> map_area V = {}"
      using sp vl True op unfolding read_area_def by auto
    have us: "usable V dbi (key_of l1)" using db by (simp add: usable_def l1(2) unat_of_nat_lt)
    have pf: "put_flags flags = 0 \<or>
        put_flags flags = MDBX_NOOVERWRITE \<and> stored V s m dbi (val_bytes m (key_of l1)) = None"
      using bits(11) True b kb by (auto simp: x_def)
    obtain l2 s' m' where put: "do_put E flags dbi l1 st = Some (l2, st\<lparr>txn_state := s', memory := m'\<rparr>)"
      and l2: "same_place l1 l2"
      and rel: "reliable (eng E) \<longrightarrow> \<not> hard_error (rc_of l2)"
      and ch: "changes_to V s m (rc_of l2) s' m' (update (stored V s m) dbi k (Some (version_bytes ver @ bs)))"
      using do_put_effect [OF eng us vb [unfolded m_def] db(4) src bits(9) sv pf [unfolded m_def s_def]] kb
      unfolding m_def s_def by (elim exE conjE) simp
    have ex: "execute E True (start P) flags dbi b l1 st = Some (Break_switch l2 (st\<lparr>txn_state := s', memory := m'\<rparr>))"
      using bits(2) put by (simp add: execute_def instruction_flags)
    have ag: "agree_outside (map_area V) (memory st) m'" using ch by (simp add: changes_to_def m_def)
    have "\<exists>st'. finish_instruction E True (start P) l2 (st\<lparr>txn_state := s', memory := m'\<rparr>) = Next_instruction l2 st' \<and>
        step_ok (eng E) V P l st l2 st'"
    proof (rule finish_step [OF ok(6) fl _ _ ag])
      show "instruction l2 = instr_end P" using l2 end_ by (simp add: same_place_def)
      show "conditionDepth l2 = conditionDepth l + depth_change (operation P)"
        using l2 l1 op by (simp add: same_place_def)
      assume "\<not> hard_error (rc_of l2)"
      then have "rc_of l2 = 0" "stored V s' m' = update (stored V s m) dbi k (Some (version_bytes ver @ bs))"
        using ch by (auto simp: changes_to_def split: if_splits)
      then show "stored V s' m' = fst (fst (op_step (operation P) (stored V (txn_state st) (memory st), conditionDepth l, validatedDepth l))) \<and>
        validatedDepth l2 = snd (snd (fst (op_step (operation P) (stored V (txn_state st) (memory st), conditionDepth l, validatedDepth l)))) \<and>
        (rc_of l2 = 0) = snd (op_step (operation P) (stored V (txn_state st) (memory st), conditionDepth l, validatedDepth l))"
        using op b True l2 l1 by (simp add: same_place_def x_def m_def s_def)
    qed (rule rel)
    then show ?thesis using one True ex by auto
  qed
qed

lemma versioned_readable:
  "versioned (Del dbi k cond) c \<Longrightarrow> version_readable cond (c dbi k)"
  "versioned (Open_condition dbi k cond) c \<Longrightarrow> version_readable cond (c dbi k)"
  by (cases cond; simp add: version_readable_def split: option.splits)+

text \<open>The instructions that have a key and no value.\<close>

lemma keyed_operands:
  assumes eng: "engine_ok (eng E) V" and at: "key_at (memory st) (start P) dbi k" "instruction l = start P"
    "condition_at (memory st) (after_key (start P) k) cond"
    and db: "dbi \<in> plain_dbs V" "length k \<le> key_limit V" "length k < 2 ^ 32"
    and opc: "opc = 13 \<or> opc = 4" and w: "ld32 (memory st) (start P) = flag_word opc False cond None"
  shows "\<exists>b l1. one_instruction E True l st =
       (if b \<or> opc = 4 then execute E True (start P) (flag_word opc False cond None) dbi b l1 st \<bind>
          (\<lambda>r. Some (case r of Break_switch l st \<Rightarrow> finish_instruction E True (start P) l st | _ \<Rightarrow> r))
        else Some (set_result True (start P) (FINISHED_OPERATION OR FAILED_CONDITION) l1 st)) \<and>
     instruction l1 = after_key (start P) k + condition_size cond \<and>
     conditionDepth l1 = conditionDepth l \<and> validatedDepth l1 = validatedDepth l \<and>
     usable V dbi (key_of l1) \<and> val_bytes (memory st) (key_of l1) = k \<and>
     (version_readable cond (stored V (txn_state st) (memory st) dbi k) \<longrightarrow>
        b = (conditionDepth l = validatedDepth l \<and> meets cond (stored V (txn_state st) (memory st) dbi k)))"
proof -
  define flags where "flags = flag_word opc False cond None"
  have opc': "opc = 15 \<or> opc = 13 \<or> opc = 4" "opc \<noteq> 15" using opc by auto
  note bits = flag_word_bits [OF opc'(1), of False cond None, folded flags_def]
  obtain b l1 where ro: "read_operands E flags (conditionDepth l = validatedDepth l) (l\<lparr>instruction := start P + 4\<rparr>) st =
        Some (dbi, b, l1, st)"
    and l1: "instruction l1 = after_key (start P) k + condition_size cond"
      "key_of l1 = \<lparr>iov_base = start P + 12, iov_len = of_nat (length k)\<rparr>"
      "conditionDepth l1 = conditionDepth l" "validatedDepth l1 = validatedDepth l"
    and b: "version_readable cond (stored V (txn_state st) (memory st) dbi k) \<longrightarrow>
        b = (conditionDepth l = validatedDepth l \<and> meets cond (stored V (txn_state st) (memory st) dbi k))"
    using operands_read [OF engine_okD(1) [OF eng] db opc'(1), where st = st and l = "l\<lparr>instruction := start P + 4\<rparr>"
        and a = "start P" and pk = False and cond = cond and ver = None
        and b = "conditionDepth l = validatedDepth l", OF _ at(1)] at(3) opc'(2)
    by (auto simp: flags_def version_at_def version_size_def)
  have "one_instruction E True l st =
     (if b \<or> opc = 4 then execute E True (start P) flags dbi b l1 st \<bind>
        (\<lambda>r. Some (case r of Break_switch l st \<Rightarrow> finish_instruction E True (start P) l st | _ \<Rightarrow> r))
      else Some (set_result True (start P) (FINISHED_OPERATION OR FAILED_CONDITION) l1 st))"
    using one_instruction_unfold [OF at(2) w [folded flags_def] bits(1) ro, of True] bits(6) by simp
  moreover have "usable V dbi (key_of l1)" using db by (simp add: usable_def l1(2) unat_of_nat_lt)
  moreover have "val_bytes (memory st) (key_of l1) = k" unfolding l1(2) by (rule key_bytes_at [OF at(1) db(3)])
  ultimately show ?thesis using l1 b unfolding flags_def by (intro exI conjI) assumption+
qed

lemma del_step:
  assumes eng: "engine_ok (eng E) V" and at: "instr_at (memory st) P" "instruction l = start P"
    and sp: "read_area P \<inter> map_area V = {}" and fits: "op_fits V (operation P)"
    and op: "operation P = Del dbi k cond"
  shows "\<exists>l' st'. one_instruction E True l st = Some (Next_instruction l' st') \<and> step_ok (eng E) V P l st l' st'"
proof -
  note ok = engine_okD [OF eng] and fl = read_area_flag [OF sp]
  define m where "m = memory st"
  define s where "s = txn_state st"
  define c where "c = stored V s m"
  have "key_at m (start P) dbi k" "condition_at m (after_key (start P) k) cond"
    "dbi \<in> plain_dbs V" "length k \<le> key_limit V" "length k < 2 ^ 32" "ld32 m (start P) = flag_word 13 False cond None"
    using at fits op by (simp_all add: instr_at_def m_def)
  then obtain b l1 where one: "one_instruction E True l st =
       (if b then execute E True (start P) (flag_word 13 False cond None) dbi b l1 st \<bind>
          (\<lambda>r. Some (case r of Break_switch l st \<Rightarrow> finish_instruction E True (start P) l st | _ \<Rightarrow> r))
        else Some (set_result True (start P) (FINISHED_OPERATION OR FAILED_CONDITION) l1 st))"
    and l1: "instruction l1 = after_key (start P) k + condition_size cond"
      "conditionDepth l1 = conditionDepth l" "validatedDepth l1 = validatedDepth l"
    and key: "usable V dbi (key_of l1)" "val_bytes m (key_of l1) = k"
    and b: "version_readable cond (c dbi k) \<longrightarrow> b = (conditionDepth l = validatedDepth l \<and> meets cond (c dbi k))"
    using keyed_operands [OF eng _ at(2), of st dbi k cond 13] unfolding m_def s_def c_def by auto
  have end_: "instruction l1 = instr_end P" using l1(1) op by (simp add: instr_end_def)
  have b': "b = (conditionDepth l = validatedDepth l \<and> meets cond (c dbi k))" if "versioned (operation P) c"
    using b versioned_readable(1) that op by auto
  show ?thesis
  proof (cases b)
    case False
    have "\<exists>st'. set_result True (start P) (FINISHED_OPERATION OR FAILED_CONDITION) l1 st = Next_instruction l1 st' \<and>
        step_ok (eng E) V P l st l1 st'"
      by (rule skip_step [OF ok(6) fl end_ l1(2,3)])
        (use op b' False in \<open>auto simp: c_def s_def m_def\<close>)
    then show ?thesis using one False by auto
  next
    case True
    obtain rc s' m' where d: "mdbx_del (eng E) s m dbi (key_of l1) None = (rc, s', m')" by (metis surj_pair)
    define l2 where "l2 = l1\<lparr>rc_of := rc\<rparr>"
    have ex: "execute E True (start P) (flag_word 13 False cond None) dbi b l1 st =
        Some (Break_switch l2 (st\<lparr>txn_state := s', memory := m'\<rparr>))"
      using flag_word_bits(2) [of 13 False cond None] d
      by (simp add: execute_def instruction_flags do_del_def l2_def s_def m_def)
    note law = ok(4) [unfolded del_ok_def, rule_format, OF key(1) d, unfolded key(2), folded c_def]
    have ag: "agree_outside (map_area V) (memory st) m'"
      using law by (auto simp: changes_to_def m_def split: if_splits)
    have "\<exists>st'. finish_instruction E True (start P) l2 (st\<lparr>txn_state := s', memory := m'\<rparr>) = Next_instruction l2 st' \<and>
        step_ok (eng E) V P l st l2 st'"
    proof (rule finish_step [OF ok(6) fl _ _ ag])
      assume v: "versioned (operation P) (fst (stored V (txn_state st) (memory st), conditionDepth l, validatedDepth l))"
        and h: "\<not> hard_error (rc_of l2)"
      show "stored V s' m' = fst (fst (op_step (operation P) (stored V (txn_state st) (memory st), conditionDepth l, validatedDepth l))) \<and>
        validatedDepth l2 = snd (snd (fst (op_step (operation P) (stored V (txn_state st) (memory st), conditionDepth l, validatedDepth l)))) \<and>
        (rc_of l2 = 0) = snd (op_step (operation P) (stored V (txn_state st) (memory st), conditionDepth l, validatedDepth l))"
      proof (cases "c dbi k")
        case None
        then show ?thesis using law l1 op by (simp add: l2_def c_def s_def m_def)
      next
        case (Some bs)
        then have "rc = 0 \<and> stored V s' m' = update c dbi k None"
          using law h by (auto simp: changes_to_def l2_def split: if_splits)
        then show ?thesis
          using Some b' v True l1 op by (simp add: l2_def c_def s_def m_def)
      qed
    qed (use end_ l1 op reliable_calls(2) [OF _ d] in \<open>simp_all add: l2_def\<close>)
    then show ?thesis using one True ex by auto
  qed
qed

lemma open_condition_step:
  assumes eng: "engine_ok (eng E) V" and at: "instr_at (memory st) P" "instruction l = start P"
    and sp: "read_area P \<inter> map_area V = {}" and fits: "op_fits V (operation P)"
    and op: "operation P = Open_condition dbi k cond"
  shows "\<exists>l' st'. one_instruction E True l st = Some (Next_instruction l' st') \<and> step_ok (eng E) V P l st l' st'"
proof -
  note ok = engine_okD [OF eng] and fl = read_area_flag [OF sp]
  define c where "c = stored V (txn_state st) (memory st)"
  have "key_at (memory st) (start P) dbi k" "condition_at (memory st) (after_key (start P) k) cond"
    "dbi \<in> plain_dbs V" "length k \<le> key_limit V" "length k < 2 ^ 32" "ld32 (memory st) (start P) = flag_word 4 False cond None"
    using at fits op by (simp_all add: instr_at_def)
  then obtain b l1 where one: "one_instruction E True l st =
       execute E True (start P) (flag_word 4 False cond None) dbi b l1 st \<bind>
          (\<lambda>r. Some (case r of Break_switch l st \<Rightarrow> finish_instruction E True (start P) l st | _ \<Rightarrow> r))"
    and l1: "instruction l1 = after_key (start P) k + condition_size cond"
      "conditionDepth l1 = conditionDepth l" "validatedDepth l1 = validatedDepth l"
    and b: "version_readable cond (c dbi k) \<longrightarrow> b = (conditionDepth l = validatedDepth l \<and> meets cond (c dbi k))"
    using keyed_operands [OF eng _ at(2), of st dbi k cond 4] unfolding c_def by auto
  have end_: "instruction l1 = instr_end P" using l1(1) op by (simp add: instr_end_def)
  have b': "b = (conditionDepth l = validatedDepth l \<and> meets cond (c dbi k))" if "versioned (operation P) c"
    using b versioned_readable(2) that op by auto
  define l2 where "l2 = start_block b l1"
  have ex: "execute E True (start P) (flag_word 4 False cond None) dbi b l1 st = Some (Break_switch l2 st)"
    using flag_word_bits(2) [of 4 False cond None] by (simp add: execute_def instruction_flags l2_def)
  have "\<exists>st'. finish_instruction E True (start P) l2 (st\<lparr>txn_state := txn_state st, memory := memory st\<rparr>) =
       Next_instruction l2 st' \<and> step_ok (eng E) V P l st l2 st'"
  proof (rule finish_step [OF ok(6) fl])
    assume "versioned (operation P) (fst (stored V (txn_state st) (memory st), conditionDepth l, validatedDepth l))"
    then show "stored V (txn_state st) (memory st) = fst (fst (op_step (operation P) (stored V (txn_state st) (memory st), conditionDepth l, validatedDepth l))) \<and>
        validatedDepth l2 = snd (snd (fst (op_step (operation P) (stored V (txn_state st) (memory st), conditionDepth l, validatedDepth l)))) \<and>
        (rc_of l2 = 0) = snd (op_step (operation P) (stored V (txn_state st) (memory st), conditionDepth l, validatedDepth l))"
      using b' l1 op by (simp add: l2_def start_block_def c_def)
  qed (use end_ l1 op in \<open>simp_all add: l2_def start_block_def hard_error_def\<close>)
  then show ?thesis using one ex by auto
qed

lemma drop_step:
  assumes eng: "engine_ok (eng E) V" and at: "instr_at (memory st) P" "instruction l = start P"
    and sp: "read_area P \<inter> map_area V = {}" and fits: "op_fits V (operation P)"
    and op: "operation P = Drop dbi del"
  shows "\<exists>l' st'. one_instruction E True l st = Some (Next_instruction l' st') \<and> step_ok (eng E) V P l st l' st'"
proof -
  note ok = engine_okD [OF eng] and fl = read_area_flag [OF sp]
  define flags where "flags = op_word P"
  have fl_cases: "flags = 12 \<and> \<not> del \<or> flags = 0x40C \<and> del" using op by (simp add: flags_def)
  define l1 where "l1 = l\<lparr>key_of := \<lparr>iov_base = start P + 12, iov_len = 0\<rparr>, instruction := after_key (start P) []\<rparr>"
  have "read_key (l\<lparr>instruction := start P + 4\<rparr>) st = (dbi, l1)"
    using read_key_at [of st "start P" dbi "[]" "l\<lparr>instruction := start P + 4\<rparr>"] at op
    by (simp add: instr_at_def l1_def)
  then have "read_operands E flags (conditionDepth l = validatedDepth l) (l\<lparr>instruction := start P + 4\<rparr>) st =
      Some (dbi, conditionDepth l = validatedDepth l, l1, st)"
    using fl_cases by (auto simp: read_operands_def has_def instruction_flags check_version_def
      read_set_version_def check_no_exists_def)
  moreover have "ld32 (memory st) (start P) = flags" using at by (simp add: instr_at_def flags_def)
  moreover have "flags AND 0xf0c0 = 0" "has flags CONDITIONAL"
    using fl_cases by (auto simp: has_def instruction_flags)
  ultimately have one: "one_instruction E True l st =
     (if conditionDepth l = validatedDepth l
      then execute E True (start P) flags dbi True l1 st \<bind>
        (\<lambda>r. Some (case r of Break_switch l st \<Rightarrow> finish_instruction E True (start P) l st | _ \<Rightarrow> r))
      else Some (set_result True (start P) (FINISHED_OPERATION OR FAILED_CONDITION) l1 st))"
    using one_instruction_unfold [OF at(2), of st flags E dbi "conditionDepth l = validatedDepth l" l1 True] by simp
  have end_: "instruction l1 = instr_end P" using op by (simp add: instr_end_def l1_def)
  show ?thesis
  proof (cases "conditionDepth l = validatedDepth l")
    case False
    have "\<exists>st'. set_result True (start P) (FINISHED_OPERATION OR FAILED_CONDITION) l1 st = Next_instruction l1 st' \<and>
        step_ok (eng E) V P l st l1 st'"
      by (rule skip_step [OF ok(6) fl end_]) (use op False in \<open>simp_all add: l1_def\<close>)
    then show ?thesis using one False by auto
  next
    case True
    obtain rc s' m' where d: "mdbx_drop (eng E) (txn_state st) (memory st) dbi del = (rc, s', m')" by (metis surj_pair)
    define l2 where "l2 = l1\<lparr>rc_of := rc\<rparr>"
    have ex: "execute E True (start P) flags dbi True l1 st = Some (Break_switch l2 (st\<lparr>txn_state := s', memory := m'\<rparr>))"
      using fl_cases d by (auto simp: execute_def instruction_flags has_def l2_def)
    have "dbi \<in> plain_dbs V" using fits op by simp
    note law = ok(5) [unfolded drop_ok_def, rule_format, OF this d]
    have "\<exists>st'. finish_instruction E True (start P) l2 (st\<lparr>txn_state := s', memory := m'\<rparr>) = Next_instruction l2 st' \<and>
        step_ok (eng E) V P l st l2 st'"
    proof (rule finish_step [OF ok(6) fl])
      show "agree_outside (map_area V) (memory st) m'" using law by (simp add: changes_to_def)
      assume "\<not> hard_error (rc_of l2)"
      then have "rc = 0 \<and> stored V s' m' = (stored V (txn_state st) (memory st))(dbi := Map.empty)"
        using law by (auto simp: changes_to_def l2_def split: if_splits)
      then show "stored V s' m' = fst (fst (op_step (operation P) (stored V (txn_state st) (memory st), conditionDepth l, validatedDepth l))) \<and>
        validatedDepth l2 = snd (snd (fst (op_step (operation P) (stored V (txn_state st) (memory st), conditionDepth l, validatedDepth l)))) \<and>
        (rc_of l2 = 0) = snd (op_step (operation P) (stored V (txn_state st) (memory st), conditionDepth l, validatedDepth l))"
        using True op by (simp add: l2_def l1_def)
    qed (use end_ op reliable_calls(3) [OF _ d] in \<open>simp_all add: l2_def l1_def\<close>)
    then show ?thesis using one True ex by auto
  qed
qed

lemma block_step:
  assumes eng: "engine_ok (eng E) V" and at: "instr_at (memory st) P" "instruction l = start P"
    and sp: "read_area P \<inter> map_area V = {}"
    and op: "operation P = Open_block \<or> operation P = Close_block"
  shows "\<exists>l' st'. one_instruction E True l st = Some (Next_instruction l' st') \<and> step_ok (eng E) V P l st l' st'"
proof -
  note ok = engine_okD [OF eng] and fl = read_area_flag [OF sp]
  define flags where "flags = op_word P"
  define b where "b = (conditionDepth l = validatedDepth l)"
  define l1 where "l1 = l\<lparr>instruction := start P + 8\<rparr>"
  have fl_cases: "flags = 1 \<and> operation P = Open_block \<or> flags = 2 \<and> operation P = Close_block"
    using op by (auto simp: flags_def)
  then have "read_operands E flags b (l\<lparr>instruction := start P + 4\<rparr>) st = Some (0, b, l1, st)"
    by (auto simp: read_operands_def has_def instruction_flags l1_def)
  moreover have "ld32 (memory st) (start P) = flags" using at by (simp add: instr_at_def flags_def)
  moreover have "flags AND 0xf0c0 = 0" "\<not> has flags CONDITIONAL"
    using fl_cases by (auto simp: has_def instruction_flags)
  ultimately have one: "one_instruction E True l st =
      execute E True (start P) flags 0 b l1 st \<bind>
        (\<lambda>r. Some (case r of Break_switch l st \<Rightarrow> finish_instruction E True (start P) l st | _ \<Rightarrow> r))"
    using one_instruction_unfold [OF at(2), of st flags E 0 b l1 True] by (simp add: b_def)
  have end_: "instruction l1 = instr_end P" using op by (auto simp: instr_end_def l1_def)
  show ?thesis
  proof (cases "operation P = Close_block")
    case True
    then have ex: "execute E True (start P) flags 0 b l1 st = Some (Next_instruction (block_end l1) st)"
      using fl_cases by (auto simp: execute_def instruction_flags)
    have "step_ok (eng E) V P l st (block_end l1) st"
      unfolding step_ok_def
    proof (intro conjI)
      show "\<exists>m' s' e. st = st\<lparr>memory := m', txn_state := s', error_message := e\<rparr> \<and> (e = None \<longrightarrow> error_message st = None)"
        by (intro exI [of _ "memory st"] exI [of _ "txn_state st"] exI [of _ "error_message st"]) simp
    qed (use True end_ in \<open>simp_all add: block_end_def l1_def Let_def\<close>)
    then show ?thesis using one ex by simp
  next
    case False
    then have o: "operation P = Open_block" using op by simp
    define l2 where "l2 = start_block b l1"
    have ex: "execute E True (start P) flags 0 b l1 st = Some (Break_switch l2 st)"
      using fl_cases o by (auto simp: execute_def instruction_flags l2_def)
    have "\<exists>st'. finish_instruction E True (start P) l2 (st\<lparr>txn_state := txn_state st, memory := memory st\<rparr>) =
         Next_instruction l2 st' \<and> step_ok (eng E) V P l st l2 st'"
      by (rule finish_step [OF ok(6) fl])
        (use end_ o in \<open>simp_all add: l2_def l1_def start_block_def b_def hard_error_def\<close>)
    then show ?thesis using one ex by auto
  qed
qed

lemma instruction_step:
  assumes "engine_ok (eng E) V" "instr_at (memory st) P" "instruction l = start P"
    and "read_area P \<inter> map_area V = {}" "op_fits V (operation P)"
  shows "\<exists>l' st'. one_instruction E True l st = Some (Next_instruction l' st') \<and> step_ok (eng E) V P l st l' st'"
proof (cases "operation P")
  case (Put dbi k bs ver cond)
  then show ?thesis using put_step [OF assms] by blast
next
  case (Del dbi k cond)
  then show ?thesis using del_step [OF assms] by blast
next
  case (Drop dbi del)
  then show ?thesis using drop_step [OF assms] by blast
next
  case (Open_condition dbi k cond)
  then show ?thesis using open_condition_step [OF assms] by blast
qed (use block_step [OF assms(1-4)] in blast)+

subsection \<open>A batch\<close>

lemma agree_instr_at:
  assumes "agree_outside F m m'" "read_area P \<inter> F = {}" "instr_at m P"
  shows "instr_at m' P"
proof -
  define e where "e = instr_end P + (if chained P then 16 else 0)"
  have ar: "{start P..<e} \<subseteq> read_area P" by (simp add: read_area_def e_def)
  have sub: "{a..<a + n} \<inter> F = {}" if "start P \<le> a" "a + n \<le> e" for a n
  proof -
    have "{a..<a + n} \<subseteq> {start P..<e}" using that by auto
    then show ?thesis using ar assms(2) by blast
  qed
  have w: "ld32 m' a = ld32 m a" if "start P \<le> a" "a + 4 \<le> e" for a
    by (rule agree_ld32 [OF assms(1) sub [OF that]])
  have d: "ld64 m' a = ld64 m a" if "start P \<le> a" "a + 8 \<le> e" for a
    by (rule agree_ld64 [OF assms(1) sub [OF that]])
  have ie: "instr_end P \<le> e" "start P + 8 \<le> instr_end P" using instr_end_ge by (simp_all add: e_def)
  have key: "key_at m' (start P) dbi k" if "key_at m (start P) dbi k" "after_key (start P) k \<le> instr_end P" for dbi k
    using that after_key_ge [of "start P" k] ie w [of "start P + 4"] w [of "start P + 8"]
      agree_ld [OF assms(1) sub, of "start P + 12" "length k"] by (simp add: key_at_def)
  have cond: "condition_at m' q cond" if "condition_at m q cond" "start P \<le> q" "q + condition_size cond \<le> instr_end P" for q cond
    using that ie d [of q] by (cases cond) (simp_all add: condition_at_def condition_size_def)
  have ver: "version_at m' q v" if "version_at m q v" "start P \<le> q" "q + version_size v \<le> instr_end P" for q v
    using that ie d [of q] by (cases v) (simp_all add: version_at_def version_size_def)
  have flag: "ld32 m' (start P) = ld32 m (start P)" using w [of "start P"] ie by simp
  have chain: "chained P \<Longrightarrow> ld32 m' (instr_end P) = ld32 m (instr_end P) \<and> ld64 m' (instr_end P + 8) = ld64 m (instr_end P + 8)"
    using w [of "instr_end P"] d [of "instr_end P + 8"] ie by (simp add: e_def)
  show ?thesis
  proof (cases "operation P")
    case (Put dbi k bs ver' c)
    let ?p = "after_key (start P) k"
    have p: "start P + length k + 21 \<le> ?p" by (rule after_key_ge)
    have le: "?p + (if packed P then 16 else 8) \<le> instr_end P" using Put by (simp add: instr_end_def)
    have "{value_address P..<value_address P + length bs} \<inter> F = {}"
      using assms(2) Put by (auto simp: read_area_def)
    then have "rd_bytes m' (value_address P) (length bs) = rd_bytes m (value_address P) (length bs)"
      by (rule agree_ld [OF assms(1)])
    moreover have "ld32 m' (?p - 4) = ld32 m (?p - 4)" "ld64 m' ?p = ld64 m ?p"
      using w [of "?p - 4"] d [of ?p] p le ie by (auto split: if_splits)
    moreover have "packed P \<Longrightarrow> ld32 m' (?p + 4) = ld32 m (?p + 4)"
      using w [of "?p + 4"] p le ie by simp
    ultimately have "value_at m' ?p (packed P) (value_address P) bs = value_at m ?p (packed P) (value_address P) bs"
      by (simp add: value_at_def)
    moreover have "key_at m (start P) dbi k \<Longrightarrow> key_at m' (start P) dbi k" using key le by simp
    moreover have "condition_at m q c \<Longrightarrow> condition_at m' q c" "version_at m (q + condition_size c) ver' \<Longrightarrow>
        version_at m' (q + condition_size c) ver'" if "q = ?p + (if packed P then 16 else 8)" for q
      using cond [of q c] ver [of "q + condition_size c" ver'] that p Put by (simp_all add: instr_end_def)
    ultimately show ?thesis
      using assms(3) Put flag chain by (simp add: instr_at_def Let_def split: if_splits)
  next
    case (Del dbi k c)
    then have "after_key (start P) k + condition_size c \<le> instr_end P" by (simp add: instr_end_def)
    then show ?thesis
      using Del assms(3) flag chain key [of dbi k] cond [of "after_key (start P) k" c] after_key_ge [of "start P" k]
      by (simp add: instr_at_def split: if_splits)
  next
    case (Drop dbi del)
    then have "after_key (start P) [] \<le> instr_end P" by (simp add: instr_end_def)
    then show ?thesis using Drop assms(3) flag chain key [of dbi "[]"] by (simp add: instr_at_def split: if_splits)
  next
    case (Open_condition dbi k c)
    then have "after_key (start P) k + condition_size c \<le> instr_end P" by (simp add: instr_end_def)
    then show ?thesis
      using Open_condition assms(3) flag chain key [of dbi k] cond [of "after_key (start P) k" c] after_key_ge [of "start P" k]
      by (simp add: instr_at_def split: if_splits)
  qed (use assms(3) flag chain in \<open>simp_all add: instr_at_def split: if_splits\<close>)
qed

definition flag_words :: "placed list \<Rightarrow> nat set" where
  "flag_words Ps = (\<Union>P \<in> set Ps. {start P..<start P + 4})"

lemma flag_words_Cons: "flag_words (P # Ps) = {start P..<start P + 4} \<union> flag_words Ps"
  by (simp add: flag_words_def)

lemma agree_batch_at:
  "batch_at m F a Ps e \<Longrightarrow> agree_outside F m m' \<Longrightarrow> batch_at m' F a Ps e"
proof (induction Ps arbitrary: F a)
  case (Cons P Ps)
  then have "agree_outside (F \<union> {a..<a + 4}) m m'" by (auto elim: agree_outside_mono)
  then show ?case using Cons by (auto intro: agree_instr_at)
qed simp

lemma batch_flag_words: "batch_at m F a Ps e \<Longrightarrow> flag_words Ps \<inter> F = {}"
proof (induction Ps arbitrary: F a)
  case (Cons P Ps)
  then have "flag_words Ps \<inter> (F \<union> {a..<a + 4}) = {}" "read_area P \<inter> F = {}" by auto
  moreover have "{start P..<start P + 4} \<inter> F = {}" by (rule read_area_flag) fact
  ultimately have "flag_words Ps \<inter> F = {}" "{start P..<start P + 4} \<inter> F = {}" by blast+
  then show ?case by (auto simp: flag_words_Cons)
qed (simp add: flag_words_def)

lemma batch_end: "batch_at m F a Ps e \<Longrightarrow> {e..<e + 4} \<inter> (F \<union> flag_words Ps) = {}"
proof (induction Ps arbitrary: F a)
  case (Cons P Ps)
  then have "{e..<e + 4} \<inter> (F \<union> {a..<a + 4} \<union> flag_words Ps) = {}" "start P = a" by auto
  then show ?case by (auto simp: flag_words_Cons)
qed (simp add: flag_words_def)

text \<open>The pointer to the next buffer.\<close>

lemma pointer_step:
  assumes "instruction l = a" "ld32 (memory st) a = 3" "ld64 (memory st) (a + 8) = double_of_nat b" "b < 2 ^ 53"
  shows "one_instruction E True l st = Some (Next_instruction (l\<lparr>instruction := b\<rparr>) st)"
proof -
  have "read_operands E 3 (conditionDepth l = validatedDepth l) (l\<lparr>instruction := a + 4\<rparr>) st =
      Some (0, conditionDepth l = validatedDepth l, l\<lparr>instruction := a + 8\<rparr>, st)"
    by (simp add: read_operands_def has_def instruction_flags)
  from one_instruction_unfold [OF assms(1,2) _ this, of True] show ?thesis
    using assms(3,4) by (simp add: has_def instruction_flags execute_def size_t_of_double_of_nat)
qed

text \<open>One instruction with the pointer that may follow it.\<close>

lemma placed_step:
  assumes eng: "engine_ok (eng E) V" and at: "instr_at (memory st) P" "instruction l = start P"
    and sp: "read_area P \<inter> map_area V = {}" and fits: "op_fits V (operation P)"
  shows "\<exists>l1 l' st'. DoWrites E True l st = DoWrites E True l' st' \<and> instruction l' = succ_start P \<and>
     step_ok (eng E) V P l st l1 st' \<and> l' = l1\<lparr>instruction := succ_start P\<rparr>"
proof -
  obtain l1 st' where one: "one_instruction E True l st = Some (Next_instruction l1 st')"
    and ok: "step_ok (eng E) V P l st l1 st'" using instruction_step [OF assms] by blast
  have run: "DoWrites E True l st = DoWrites E True l1 st'" by (subst DoWrites.simps) (simp add: one)
  show ?thesis
  proof (cases "chained P")
    case False
    then have "succ_start P = instruction l1" using at ok by (simp add: instr_at_def step_ok_def)
    then show ?thesis using run ok by (intro exI [of _ l1] exI [of _ st']) simp
  next
    case True
    have ag: "agree_outside (map_area V \<union> {start P..<start P + 4}) (memory st) (memory st')"
      using ok by (simp add: step_ok_def)
    have "{instr_end P..<instr_end P + 16} \<subseteq> read_area P"
      using True instr_end_ge [of P] by (auto simp: read_area_def)
    then have sub: "{a..<a + n} \<inter> (map_area V \<union> {start P..<start P + 4}) = {}"
      if "instr_end P \<le> a" "a + n \<le> instr_end P + 16" for a n
    proof -
      assume "{instr_end P..<instr_end P + 16} \<subseteq> read_area P"
      moreover have "{a..<a + n} \<subseteq> {instr_end P..<instr_end P + 16}" using that by auto
      moreover have "{a..<a + n} \<inter> {start P..<start P + 4} = {}" using that instr_end_ge [of P] by auto
      ultimately show ?thesis using sp by blast
    qed
    have "ld32 (memory st') (instruction l1) = 3" "ld64 (memory st') (instruction l1 + 8) = double_of_nat (succ_start P)"
      "succ_start P < 2 ^ 53"
      using agree_ld32 [OF ag sub, of "instr_end P"] agree_ld64 [OF ag sub, of "instr_end P + 8"] at True ok
      by (simp_all add: instr_at_def step_ok_def)
    from pointer_step [OF refl this]
    have "DoWrites E True l1 st' = DoWrites E True (l1\<lparr>instruction := succ_start P\<rparr>) st'"
      by (subst DoWrites.simps) simp
    then show ?thesis using run ok by (intro exI [of _ l1] exI [of _ "l1\<lparr>instruction := succ_start P\<rparr>"] exI [of _ st']) simp
  qed
qed

definition only_progress :: "'s worker \<Rightarrow> 's worker \<Rightarrow> bool" where
  "only_progress st st' \<longleftrightarrow>
     (\<exists>m' s' e. st' = st\<lparr>memory := m', txn_state := s', error_message := e\<rparr> \<and> (e = None \<longrightarrow> error_message st = None))"

lemma only_progress_trans: "only_progress st st' \<Longrightarrow> only_progress st' st'' \<Longrightarrow> only_progress st st''"
  unfolding only_progress_def
proof (elim exE conjE, intro exI conjI)
  fix m s e m' s' e'
  assume st: "st' = st\<lparr>memory := m, txn_state := s, error_message := e\<rparr>" "e = None \<longrightarrow> error_message st = None"
    and st': "st'' = st'\<lparr>memory := m', txn_state := s', error_message := e'\<rparr>" "e' = None \<longrightarrow> error_message st' = None"
  show "st'' = st\<lparr>memory := m', txn_state := s', error_message := e'\<rparr>" using st st' by simp
  show "e' = None \<longrightarrow> error_message st = None" using st st' by simp
qed

lemma only_progress_refl [simp]: "only_progress st st"
  unfolding only_progress_def
  by (intro exI [of _ "memory st"] exI [of _ "txn_state st"] exI [of _ "error_message st"]) simp

lemma op_step_depth: "op_step op (c, d, v) = ((c', d', v'), b) \<Longrightarrow> d' = d + depth_change op"
  by (cases "(op, (c, d, v))" rule: op_step.cases) (auto split: if_splits)

text \<open>What the batch leaves in the flag words.\<close>

definition results_at :: "mem \<Rightarrow> placed list \<Rightarrow> bool list \<Rightarrow> bool" where
  "results_at m Ps dones \<longleftrightarrow>
     (\<forall>i < length Ps. operation (Ps ! i) \<noteq> Close_block \<longrightarrow>
        ld32 m (start (Ps ! i)) = op_word (Ps ! i) OR op_result (dones ! i))"

lemma results_at_Cons:
  "results_at m (P # Ps) (b # bs) \<longleftrightarrow>
     (operation P \<noteq> Close_block \<longrightarrow> ld32 m (start P) = op_word P OR op_result b) \<and> results_at m Ps bs"
  by (auto simp: results_at_def nth_Cons split: nat.splits)

definition batch_ok ::
    "'s engine \<Rightarrow> 's engine_model \<Rightarrow> placed list \<Rightarrow> locals \<Rightarrow> 's worker \<Rightarrow> locals \<Rightarrow> 's worker \<Rightarrow> bool" where
  "batch_ok e V Ps l st l' st' \<longleftrightarrow>
     conditionDepth l' = conditionDepth l + sum_list (map (depth_change \<circ> operation) Ps) \<and>
     only_progress st st' \<and>
     (reliable e \<longrightarrow> error_message st' = error_message st) \<and>
     agree_outside (map_area V \<union> flag_words Ps) (memory st) (memory st') \<and>
     (let A = (stored V (txn_state st) (memory st), conditionDepth l, validatedDepth l)
      in ops_versioned (map operation Ps) A \<longrightarrow> error_message st' = None \<longrightarrow>
         fst (ops_run (map operation Ps) A) =
           (stored V (txn_state st') (memory st'), conditionDepth l', validatedDepth l') \<and>
         results_at (memory st') Ps (snd (ops_run (map operation Ps) A)))"

lemma batch_run:
  assumes "engine_ok (eng E) V" "batch_at (memory st) F (instruction l) Ps e" "map_area V \<subseteq> F"
    "\<forall>P \<in> set Ps. op_fits V (operation P)"
  shows "\<exists>l' st'. DoWrites E True l st = DoWrites E True l' st' \<and> instruction l' = e \<and> batch_ok (eng E) V Ps l st l' st'"
  using assms(2-4)
proof (induction Ps arbitrary: l st F)
  case Nil
  then show ?case by (intro exI [of _ l] exI [of _ st]) (simp add: batch_ok_def results_at_def)
next
  case (Cons P Ps)
  have P: "instr_at (memory st) P" "instruction l = start P" "read_area P \<inter> F = {}" "op_fits V (operation P)"
    "batch_at (memory st) (F \<union> {start P..<start P + 4}) (succ_start P) Ps e"
    using Cons.prems by auto
  then have "read_area P \<inter> map_area V = {}" using Cons.prems(2) by blast
  then obtain l1 l2 st1 where run: "DoWrites E True l st = DoWrites E True l2 st1"
    and ok: "step_ok (eng E) V P l st l1 st1" and l2: "l2 = l1\<lparr>instruction := succ_start P\<rparr>"
    using placed_step [OF assms(1) P(1,2) _ P(4)] by blast
  let ?F = "F \<union> {start P..<start P + 4}"
  have ag: "agree_outside (map_area V \<union> {start P..<start P + 4}) (memory st) (memory st1)"
    using ok by (simp add: step_ok_def)
  then have "agree_outside ?F (memory st) (memory st1)" using Cons.prems(2) by (auto elim: agree_outside_mono)
  then have rest: "batch_at (memory st1) ?F (instruction l2) Ps e"
    using agree_batch_at [OF P(5)] by (simp add: l2)
  have "map_area V \<subseteq> ?F" "\<forall>P \<in> set Ps. op_fits V (operation P)" using Cons.prems by auto
  from Cons.IH [OF rest this] obtain l' st' where run': "DoWrites E True l2 st1 = DoWrites E True l' st'"
    and l': "instruction l' = e" and ok': "batch_ok (eng E) V Ps l2 st1 l' st'" by blast
  have "flag_words Ps \<inter> ?F = {}" by (rule batch_flag_words [OF rest])
  then have out: "{start P..<start P + 4} \<inter> (map_area V \<union> flag_words Ps) = {}"
    using read_area_flag [OF \<open>read_area P \<inter> map_area V = {}\<close>] by blast
  have ag': "agree_outside (map_area V \<union> flag_words Ps) (memory st1) (memory st')"
    using ok' by (simp add: batch_ok_def)
  have keep: "ld32 (memory st') (start P) = ld32 (memory st1) (start P)"
    by (rule agree_ld32 [OF ag' out])
  have word: "ld32 (memory st) (start P) = op_word P" using P(1) by (simp only: instr_at_def)
  have op1: "only_progress st st1" using ok unfolding step_ok_def only_progress_def by blast
  have "batch_ok (eng E) V (P # Ps) l st l' st'"
    unfolding batch_ok_def Let_def
  proof (intro conjI impI)
    show "conditionDepth l' = conditionDepth l + sum_list (map (depth_change \<circ> operation) (P # Ps))"
      using ok ok' by (simp add: batch_ok_def step_ok_def l2)
    show "error_message st' = error_message st" if "reliable (eng E)"
      using ok ok' that by (simp add: batch_ok_def step_ok_def)
    show "only_progress st st'" using op1 ok' by (auto simp: batch_ok_def elim: only_progress_trans)
    have "agree_outside (map_area V \<union> flag_words (P # Ps)) (memory st) (memory st1)"
      using ag by (rule agree_outside_mono) (auto simp: flag_words_Cons)
    moreover have "agree_outside (map_area V \<union> flag_words (P # Ps)) (memory st1) (memory st')"
      using ag' by (rule agree_outside_mono) (auto simp: flag_words_Cons)
    ultimately show "agree_outside (map_area V \<union> flag_words (P # Ps)) (memory st) (memory st')"
      by (rule agree_outside_trans)
    assume v: "ops_versioned (map operation (P # Ps)) (stored V (txn_state st) (memory st), conditionDepth l, validatedDepth l)"
      and n: "error_message st' = None"
    let ?A = "(stored V (txn_state st) (memory st), conditionDepth l, validatedDepth l)"
    have n1: "error_message st1 = None" using ok' n by (auto simp: batch_ok_def only_progress_def)
    obtain c d u b where s: "op_step (operation P) ?A = ((c, d, u), b)" by (metis surj_pair)
    have A1: "stored V (txn_state st1) (memory st1) = c" "validatedDepth l2 = u" "conditionDepth l2 = d"
      and w: "operation P \<noteq> Close_block \<longrightarrow> ld32 (memory st1) (start P) = op_word P OR op_result b"
      using ok v n1 s word op_step_depth [OF s] by (simp_all add: step_ok_def l2)
    obtain A2 bs where r: "ops_run (map operation Ps) (c, d, u) = (A2, bs)" by (metis surj_pair)
    have "A2 = (stored V (txn_state st') (memory st'), conditionDepth l', validatedDepth l')" "results_at (memory st') Ps bs"
      using ok' v n s r A1 by (simp_all add: batch_ok_def)
    then show "fst (ops_run (map operation (P # Ps)) ?A) = (stored V (txn_state st') (memory st'), conditionDepth l', validatedDepth l')"
      "results_at (memory st') (P # Ps) (snd (ops_run (map operation (P # Ps)) ?A))"
      using s r w keep by (simp_all add: results_at_Cons)
  qed
  then show ?case using run run' l' by (intro exI conjI) (rule trans)
qed

subsection \<open>Nested blocks\<close>

text \<open>
  The operations of a batch as JavaScript writes them: single ones, and blocks whose body is
  done as a whole or not at all, by a condition on a record or unconditionally (\<open>None\<close>).
\<close>

datatype item =
    Single write_op
  | Block "(u32 \<times> u8 list \<times> condition) option" "item list"

definition block_start :: "(u32 \<times> u8 list \<times> condition) option \<Rightarrow> write_op" where
  "block_start g = (case g of None \<Rightarrow> Open_block | Some (dbi, k, cond) \<Rightarrow> Open_condition dbi k cond)"

fun flatten :: "item list \<Rightarrow> write_op list" where
  "flatten [] = []"
| "flatten (Single op # r) = op # flatten r"
| "flatten (Block g body # r) = block_start g # flatten body @ Close_block # flatten r"

definition is_block_op :: "write_op \<Rightarrow> bool" where
  "is_block_op op \<longleftrightarrow> op = Open_block \<or> op = Close_block \<or> (\<exists>dbi k cond. op = Open_condition dbi k cond)"

fun well_nested :: "item list \<Rightarrow> bool" where
  "well_nested [] = True"
| "well_nested (Single op # r) = (\<not> is_block_op op \<and> well_nested r)"
| "well_nested (Block g body # r) = (well_nested body \<and> well_nested r)"

text \<open>What the items do to the records.\<close>

fun perform :: "write_op \<Rightarrow> contents \<Rightarrow> contents" where
  "perform (Put dbi k bs ver cond) c =
     (if meets cond (c dbi k) then update c dbi k (Some (version_bytes ver @ bs)) else c)"
| "perform (Del dbi k cond) c = (if meets cond (c dbi k) then update c dbi k None else c)"
| "perform (Drop dbi del) c = c(dbi := Map.empty)"
| "perform op c = c"

definition enters :: "(u32 \<times> u8 list \<times> condition) option \<Rightarrow> contents \<Rightarrow> bool" where
  "enters g c = (case g of None \<Rightarrow> True | Some (dbi, k, cond) \<Rightarrow> meets cond (c dbi k))"

fun eval_items :: "item list \<Rightarrow> contents \<Rightarrow> contents" where
  "eval_items [] c = c"
| "eval_items (Single op # r) c = eval_items r (perform op c)"
| "eval_items (Block g body # r) c = eval_items r (if enters g c then eval_items body c else c)"

lemma fst_ops_run_Cons: "fst (ops_run (op # ops) A) = fst (ops_run ops (fst (op_step op A)))"
  by (simp split: prod.split)

lemma fst_ops_run_append: "fst (ops_run (xs @ ys) A) = fst (ops_run ys (fst (ops_run xs A)))"
  by (induction xs arbitrary: A) (simp_all add: fst_ops_run_Cons del: ops_run.simps(2))

lemma update_absent: "c dbi k = None \<Longrightarrow> update c dbi k None = c"
  by (rule ext) (auto simp: update_def)

lemma plain_step:
  "\<not> is_block_op op \<Longrightarrow> fst (op_step op (c, d, d)) = (perform op c, d, d)"
  "\<not> is_block_op op \<Longrightarrow> v < d \<Longrightarrow> fst (op_step op (c, d, v)) = (c, d, v)"
  by (cases op; auto simp: is_block_op_def update_absent)+

lemma start_step:
  "fst (op_step (block_start g) (c, d, d)) = (c, d + 1, if enters g c then d + 1 else d)"
  "v < d \<Longrightarrow> fst (op_step (block_start g) (c, d, v)) = (c, d + 1, v)"
  by (cases g; auto simp: block_start_def enters_def)+

lemma nested_run:
  assumes "well_nested items"
  shows "fst (ops_run (flatten items) (c, d, d)) = (eval_items items c, d, d)"
    and "v < d \<Longrightarrow> fst (ops_run (flatten items) (c, d, v)) = (c, d, v)"
  using assms
proof (induction items arbitrary: c d v rule: flatten.induct)
  case (2 op r)
  {
    case 1
    then show ?case using 2 plain_step(1) [of op c d] by (simp add: fst_ops_run_Cons del: ops_run.simps(2))
  next
    case 2
    then show ?case using "2.IH" plain_step(2) [of op v d c] by (simp add: fst_ops_run_Cons del: ops_run.simps(2))
  }
next
  case (3 g body r)
  {
    case 1
    then show ?case
      using "3.IH" 1 by (simp add: fst_ops_run_Cons fst_ops_run_append start_step del: ops_run.simps(2))
  next
    case 2
    then show ?case
      using "3.IH" 2 by (simp add: fst_ops_run_Cons fst_ops_run_append start_step del: ops_run.simps(2))
  }
qed simp_all

end
