(* ===== verification/Writer.thy ===== *)
theory Writer
  imports Write_Batch
begin

text \<open>
  The writer as a whole: what a batch of instructions does to the database, what one
  instruction does in synchronous mode, and the transaction around them.  An engine that
  keeps its records in the memory map shows that the contract can be met.
\<close>

subsection \<open>An engine\<close>

text \<open>
  Records are found by database and key; each is a piece of the map, given by its offset and
  length, and a new one goes behind all others.
\<close>

type_synonym pieces = "((u32 \<times> u8 list) \<times> nat \<times> u64) list"

definition map_base :: nat where "map_base = 1099511627776"

definition map_top :: "pieces \<Rightarrow> nat" where
  "map_top s = sum_list (map (\<lambda>(k, off, len). off + unat len) s)"

definition piece_bytes :: "mem \<Rightarrow> nat \<times> u64 \<Rightarrow> u8 list" where
  "piece_bytes m = (\<lambda>(off, len). rd_bytes m (map_base + off) (unat len))"

definition heap_engine :: "pieces engine" where
  "heap_engine =
     \<lparr>mdbx_get = (\<lambda>s m dbi key v.
        case map_of s (dbi, val_bytes m key) of
          None \<Rightarrow> (error_code MDBX_NOTFOUND, v)
        | Some (off, len) \<Rightarrow> (0, \<lparr>iov_base = map_base + off, iov_len = len\<rparr>)),
      mdbx_put = (\<lambda>s m dbi key v f.
        if has f MDBX_NOOVERWRITE \<and> map_of s (dbi, val_bytes m key) \<noteq> None
        then (error_code MDBX_KEYEXIST, s, m, v)
        else (let s' = ((dbi, val_bytes m key), map_top s, iov_len v) # s; p = map_base + map_top s
              in if has f MDBX_RESERVE then (0, s', m, \<lparr>iov_base = p, iov_len = iov_len v\<rparr>)
                 else (0, s', wr_bytes m p (val_bytes m v), v))),
      mdbx_del = (\<lambda>s m dbi key v.
        if map_of s (dbi, val_bytes m key) = None \<or> v \<noteq> None
        then (error_code MDBX_NOTFOUND, s, m)
        else (0, filter (\<lambda>(k, p). k \<noteq> (dbi, val_bytes m key)) s, m)),
      mdbx_drop = (\<lambda>s m dbi del. (0, filter (\<lambda>(k, p). fst k \<noteq> dbi) s, m)),
      mdbx_txn_begin = (\<lambda>s m. (0, s, m)), mdbx_txn_commit = (\<lambda>s m. (0, s, m)),
      mdbx_txn_abort = (\<lambda>s m. (s, m))\<rparr>"

definition heap_model :: "pieces engine_model" where
  "heap_model =
     \<lparr>stored = (\<lambda>s m dbi k. map_option (piece_bytes m) (map_of s (dbi, k))),
      map_area = {map_base..}, plain_dbs = UNIV, key_limit = 511\<rparr>"

lemma map_of_below_top: "map_of s k = Some (off, len) \<Longrightarrow> off + unat len \<le> map_top s"
  by (induction s) (auto simp: map_top_def split: if_splits)

lemma heap_writes_apart:
  assumes "map_of s k = Some p"
  shows "piece_bytes (wr_bytes m (map_base + map_top s) bs) p = piece_bytes m p"
  using map_of_below_top [of s k "fst p" "snd p"] assms
  by (auto simp: piece_bytes_def split: prod.split intro!: rd_wr_disjoint)

lemma heap_put_stored:
  assumes "length bs = unat len"
  shows "stored heap_model (((dbi, k), map_top s, len) # s) (wr_bytes m (map_base + map_top s) bs) =
     update (stored heap_model s m) dbi k (Some bs)"
proof (intro ext)
  fix d j
  show "stored heap_model (((dbi, k), map_top s, len) # s) (wr_bytes m (map_base + map_top s) bs) d j =
     update (stored heap_model s m) dbi k (Some bs) d j"
  proof (cases "(d, j) = (dbi, k)")
    case True
    then show ?thesis using assms by (simp add: heap_model_def piece_bytes_def update_def rd_wr_same_len)
  next
    case False
    then show ?thesis
      using heap_writes_apart [of s "(d, j)"]
      by (cases "map_of s (d, j)") (auto simp: heap_model_def update_def)
  qed
qed

lemma map_of_filter_key: "map_of (filter (\<lambda>(k, p). P k) s) j = (if P j then map_of s j else None)"
  by (induction s) auto

lemma heap_none: "stored heap_model s m dbi k = None \<longleftrightarrow> map_of s (dbi, k) = None"
  by (simp add: heap_model_def)

lemma heap_removed:
  "stored heap_model (filter (\<lambda>(k, p). k \<noteq> (dbi, j)) s) m = update (stored heap_model s m) dbi j None"
  "stored heap_model (filter (\<lambda>(k, p). fst k \<noteq> dbi) s) m = (stored heap_model s m)(dbi := Map.empty)"
  by (intro ext; auto simp: heap_model_def update_def map_of_filter_key)+

lemma heap_engine_ok: "engine_ok heap_engine heap_model"
  unfolding engine_ok_def
proof (intro conjI)
  have vl: "length (val_bytes m v) = unat (iov_len v)" for m v by (simp add: val_bytes_def)
  show "get_ok heap_engine heap_model"
    by (auto simp: get_ok_def heap_engine_def heap_model_def piece_bytes_def val_bytes_def split: option.splits)
  show "put_ok heap_engine heap_model"
    unfolding put_ok_def
  proof (intro allI impI)
    fix s m dbi key v f rc s' m' v'
    assume p: "mdbx_put heap_engine s m dbi key v f = (rc, s', m', v')"
      and f: "f = 0 \<or> f = MDBX_NOOVERWRITE \<and> stored heap_model s m dbi (val_bytes m key) = None"
    have "\<not> has f MDBX_RESERVE" "\<not> (has f MDBX_NOOVERWRITE \<and> map_of s (dbi, val_bytes m key) \<noteq> None)"
      using f by (auto simp: has_def instruction_flags heap_model_def)
    then have "rc = 0" "s' = ((dbi, val_bytes m key), map_top s, iov_len v) # s"
      "m' = wr_bytes m (map_base + map_top s) (val_bytes m v)"
      using p by (auto simp: heap_engine_def Let_def split: if_splits)
    moreover have "agree_outside (map_area heap_model) m (wr_bytes m (map_base + map_top s) (val_bytes m v))"
      by (rule agree_outside_wr) (auto simp: heap_model_def)
    ultimately show "changes_to heap_model s m rc s' m' (update (stored heap_model s m) dbi (val_bytes m key) (Some (val_bytes m v)))"
      by (simp add: changes_to_def heap_put_stored vl)
  qed
  show "reserve_ok heap_engine heap_model"
    unfolding reserve_ok_def
  proof (intro allI impI)
    fix s m dbi key v rc s' m' v'
    assume "mdbx_put heap_engine s m dbi key v MDBX_RESERVE = (rc, s', m', v')"
    then have "rc = 0" "s' = ((dbi, val_bytes m key), map_top s, iov_len v) # s" "m' = m"
      "v' = \<lparr>iov_base = map_base + map_top s, iov_len = iov_len v\<rparr>"
      by (auto simp: heap_engine_def has_def instruction_flags Let_def split: if_splits)
    then show "agree_outside (map_area heap_model) m m' \<and>
        (if rc = 0
         then iov_len v' = iov_len v \<and> {iov_base v'..<iov_base v' + unat (iov_len v)} \<subseteq> map_area heap_model \<and>
              (\<forall>bs. length bs = unat (iov_len v) \<longrightarrow>
                 stored heap_model s' (wr_bytes m' (iov_base v') bs) =
                   update (stored heap_model s m) dbi (val_bytes m key) (Some bs))
         else hard_error rc \<and> stored heap_model s' m' = stored heap_model s m)"
      by (auto simp: heap_put_stored) (auto simp: heap_model_def)
  qed
  show "del_ok heap_engine heap_model"
    unfolding del_ok_def
  proof (intro allI impI)
    fix s m dbi key rc s' m'
    assume "mdbx_del heap_engine s m dbi key None = (rc, s', m')"
    then have "m' = m \<and> (if map_of s (dbi, val_bytes m key) = None then rc = error_code MDBX_NOTFOUND \<and> s' = s
        else rc = 0 \<and> s' = filter (\<lambda>(k, p). k \<noteq> (dbi, val_bytes m key)) s)"
      by (auto simp: heap_engine_def split: if_splits)
    then show "if stored heap_model s m dbi (val_bytes m key) = None
        then rc = error_code MDBX_NOTFOUND \<and> agree_outside (map_area heap_model) m m' \<and> stored heap_model s' m' = stored heap_model s m
        else changes_to heap_model s m rc s' m' (update (stored heap_model s m) dbi (val_bytes m key) None)"
      by (simp add: changes_to_def heap_removed heap_none split: if_splits)
  qed
  show "drop_ok heap_engine heap_model"
    by (auto simp: drop_ok_def changes_to_def heap_engine_def heap_removed)
  show "reads_map_only heap_model"
    by (auto simp: reads_map_only_def heap_model_def agree_outside_def piece_bytes_def fun_eq_iff
        intro!: option.map_cong rd_bytes_cong)
qed

lemma heap_engine_reliable: "reliable heap_engine"
  by (simp add: reliable_def heap_engine_def hard_error_def Let_def split: option.split)

subsection \<open>A batch\<close>

lemma depth_flatten: "well_nested items \<Longrightarrow> sum_list (map depth_change (flatten items)) = 0"
proof (induction items rule: flatten.induct)
  case (2 op r)
  then show ?case by (cases op) (auto simp: is_block_op_def)
next
  case (3 g body r)
  then show ?case by (cases g) (auto simp: block_start_def)
qed simp

text \<open>At the first word without an instruction the writer ends the transaction.\<close>

lemma delimiter_step:
  assumes "ld32 (memory st) (instruction l) = 0" "finishedProgress st" "conditionDepth l = 0"
    and quiet: "\<forall>st. others E (waits st) st = st"
  shows "DoWrites E True l st =
     Some (0, l\<lparr>rc_of := 0\<rparr>, st\<lparr>waits := waits st + 1, memory := st32 (memory st) (instruction l) TXN_DELIMITER,
       worker_instructions := instruction l\<rparr>)"
proof -
  have "read_operands E 0 (conditionDepth l = validatedDepth l) (l\<lparr>instruction := instruction l + 4\<rparr>) st =
      Some (0, conditionDepth l = validatedDepth l, l\<lparr>instruction := instruction l + 8\<rparr>, st)"
    by (simp add: read_operands_def has_def)
  from one_instruction_unfold [OF refl assms(1) _ this, of True]
  have "one_instruction E True l st = Some (Return 0 (l\<lparr>rc_of := 0\<rparr>)
      (st\<lparr>waits := waits st + 1, memory := st32 (memory st) (instruction l) TXN_DELIMITER,
         worker_instructions := instruction l\<rparr>))"
    using assms by (simp add: has_def execute_def no_instruction_def compare_exchange_def let_others_run_def
        NO_INSTRUCTION_YET_def Let_def)
  then show ?thesis by (subst DoWrites.simps) simp
qed

lemma batch_performs:
  assumes eng: "engine_ok (eng E) V"
    and lay: "batch_at (memory st) (map_area V) a Ps e" "map operation Ps = flatten items" "well_nested items"
    and fits: "\<forall>P \<in> set Ps. op_fits V (operation P)"
    and vers: "ops_versioned (flatten items) (stored V (txn_state st) (memory st), 0, 0)"
    and end_: "ld32 (memory st) e = 0" "finishedProgress st" "error_message st = None"
    and quiet: "\<forall>st. others E (waits st) st = st"
  shows "\<exists>l' st'. DoWrites E True (initial_locals a unset) st = Some (0, l', st') \<and>
     ld32 (memory st') e = TXN_DELIMITER \<and> worker_instructions st' = e \<and>
     (reliable (eng E) \<longrightarrow> error_message st' = None) \<and>
     (error_message st' = None \<longrightarrow>
        stored V (txn_state st') (memory st') = eval_items items (stored V (txn_state st) (memory st)) \<and>
        results_at (memory st') Ps
          (snd (ops_run (flatten items) (stored V (txn_state st) (memory st), 0, 0))))"
proof -
  let ?l = "initial_locals a unset"
  let ?A = "(stored V (txn_state st) (memory st), 0 :: int, 0 :: int)"
  have l0: "instruction ?l = a" "conditionDepth ?l = 0" "validatedDepth ?l = 0" by (simp_all add: initial_locals_def)
  obtain l1 st1 where run: "DoWrites E True ?l st = DoWrites E True l1 st1" and l1: "instruction l1 = e"
    and ok: "batch_ok (eng E) V Ps ?l st l1 st1"
    using batch_run [OF eng, of st "map_area V" ?l Ps e] lay(1) fits l0 by auto
  have e: "{e..<e + 4} \<inter> (map_area V \<union> flag_words Ps) = {}" by (rule batch_end [OF lay(1)])
  have ag: "agree_outside (map_area V \<union> flag_words Ps) (memory st) (memory st1)" using ok by (simp add: batch_ok_def)
  have w: "ld32 (memory st1) (instruction l1) = 0" using agree_ld32 [OF ag e] end_(1) l1 by simp
  have "sum_list (map (depth_change \<circ> operation) Ps) = sum_list (map depth_change (flatten items))"
    by (simp add: lay(2) [symmetric] comp_def)
  then have d: "conditionDepth l1 = 0" using ok l0 depth_flatten [OF lay(3)] by (simp add: batch_ok_def)
  have f: "finishedProgress st1" using ok end_ by (auto simp: batch_ok_def only_progress_def)
  define st2 where "st2 = st1\<lparr>waits := waits st1 + 1, memory := st32 (memory st1) e TXN_DELIMITER, worker_instructions := e\<rparr>"
  have fin: "DoWrites E True l1 st1 = Some (0, l1\<lparr>rc_of := 0\<rparr>, st2)"
    using delimiter_step [OF w f d quiet] by (simp add: l1 st2_def)
  have "{e..<e + 4} \<inter> map_area V = {}" "{e..<e + 4} \<inter> flag_words Ps = {}" using e by blast+
  then have "agree_outside (- map_area V) (memory st1) (memory st2)"
    by (auto simp: st2_def intro!: agree_outside_st32)
  then have keep: "stored V (txn_state st2) (memory st2) = stored V (txn_state st1) (memory st1)"
    using engine_okD(6) [OF eng] by (simp add: reads_map_only_def st2_def)
  have words: "ld32 (memory st2) (start P) = ld32 (memory st1) (start P)" if "P \<in> set Ps" for P
  proof (rule agree_ld32)
    show "agree_outside {e..<e + 4} (memory st1) (memory st2)" by (auto simp: st2_def intro!: agree_outside_st32)
    show "{start P..<start P + 4} \<inter> {e..<e + 4} = {}"
      using \<open>{e..<e + 4} \<inter> flag_words Ps = {}\<close> that unfolding flag_words_def by blast
  qed
  have main: "stored V (txn_state st2) (memory st2) = eval_items items (stored V (txn_state st) (memory st))"
    "results_at (memory st2) Ps (snd (ops_run (flatten items) ?A))" if "error_message st2 = None"
  proof -
    have "error_message st1 = None" using that by (simp add: st2_def)
    then have r: "fst (ops_run (flatten items) ?A) = (stored V (txn_state st1) (memory st1), conditionDepth l1, validatedDepth l1)"
      "results_at (memory st1) Ps (snd (ops_run (flatten items) ?A))"
      using ok vers l0 lay(2) by (simp_all add: batch_ok_def Let_def)
    then show "stored V (txn_state st2) (memory st2) = eval_items items (stored V (txn_state st) (memory st))"
      using nested_run(1) [OF lay(3), of "stored V (txn_state st) (memory st)" 0] keep by simp
    show "results_at (memory st2) Ps (snd (ops_run (flatten items) ?A))"
      using r(2) words by (simp add: results_at_def)
  qed
  have rel: "reliable (eng E) \<longrightarrow> error_message st2 = None" using ok end_(3) by (simp add: batch_ok_def st2_def)
  show ?thesis
    by (rule exI [of _ "l1\<lparr>rc_of := 0\<rparr>"], rule exI [of _ st2])
      (use run fin rel main in \<open>simp add: st2_def mem_simps\<close>)
qed

text \<open>
  C38: The write thread does what the instructions say.  The theorem is about a complete batch, laid
  out as the JavaScript side lays it out, outside the memory map: puts, removals of keys and drops,
  with nested conditional blocks, in open tables without duplicates, keys and values within their
  limits, all values that are to be compressed compressed already; nothing is appended and no other
  thread interferes while the batch runs, no callback is pending, and the engine keeps its contract
  (\<open>engine_ok\<close>).  Puts may set a version and may be conditional on the absence of the key, removals
  and blocks on absence or on a version, which is looked for only in records of at least 8 bytes.  Not
  covered are puts conditional on a version (there \<open>DoWrites\<close> stores the old record,
  \<open>versioned_put_stores_old_record\<close>), removals of single values, the put flags for duplicates and
  for appending, and callbacks.  Then \<open>DoWrites\<close> comes back; it reports no error if the engine is
  reliable; and unless it reports one, the database afterwards is the one the operations and blocks
  describe and every flag word carries its outcome.
\<close>

theorem write_batch_performs_items:
  assumes eng: "engine_ok (eng E) V"
    and lay: "batch_at (memory st) (map_area V) a Ps e" "map operation Ps = flatten items" "well_nested items"
    and fits: "\<forall>P \<in> set Ps. op_fits V (operation P)"
    and vers: "ops_versioned (flatten items) (stored V (txn_state st) (memory st), 0, 0)"
    and end_: "ld32 (memory st) e = 0" "finishedProgress st" "error_message st = None"
    and quiet: "\<forall>st. others E (waits st) st = st"
  shows "\<exists>l' st'. DoWrites E True (initial_locals a unset) st = Some (0, l', st') \<and>
     ld32 (memory st') e = TXN_DELIMITER \<and> worker_instructions st' = e \<and>
     (reliable (eng E) \<longrightarrow> error_message st' = None) \<and>
     (error_message st' = None \<longrightarrow>
        stored V (txn_state st') (memory st') = eval_items items (stored V (txn_state st) (memory st)) \<and>
        results_at (memory st') Ps
          (snd (ops_run (flatten items) (stored V (txn_state st) (memory st), 0, 0))))"
  by (rule batch_performs [OF assms])

text \<open>A put of a record with a version, in a block on the absence of its key.\<close>

definition demo_memory :: mem where
  "demo_memory x =
     (if x < 72
      then [0x14, 0, 0, 0, 1, 0, 0, 0, 1, 0, 0, 0, 7, 0, 0, 0, 0, 0, 0, 0, 0, 0, 0, 0,
            0x0F, 2, 0, 0, 1, 0, 0, 0, 1, 0, 0, 0, 7, 0, 0, 0, 0, 0, 0, 0, 2, 0, 0, 0,
            0, 0, 0, 0, 0, 0, 0x69, 0x40, 1, 0, 0, 0, 0, 0, 0, 0,
            2, 0, 0, 0, 0, 0, 0, 0] ! x
      else if x = 200 then 9 else if x = 201 then 8 else 0)"

definition demo_items :: "item list" where
  "demo_items = [Block (Some (1, [7], If_absent)) [Single (Put 1 [7] [9, 8] (Some 1) Always)]]"

definition demo_placed :: "placed list" where
  "demo_placed =
     [\<lparr>start = 0, operation = Open_condition 1 [7] If_absent, packed = False, value_address = 0,
       chained = False, succ_start = 24\<rparr>,
      \<lparr>start = 24, operation = Put 1 [7] [9, 8] (Some 1) Always, packed = False, value_address = 200,
       chained = False, succ_start = 64\<rparr>,
      \<lparr>start = 64, operation = Close_block, packed = False, value_address = 0,
       chained = False, succ_start = 72\<rparr>]"

lemma demo_words:
  "ld32 demo_memory 0 = 0x14" "ld32 demo_memory 4 = 1" "ld32 demo_memory 8 = 1"
  "ld32 demo_memory 24 = 0x20F" "ld32 demo_memory 28 = 1" "ld32 demo_memory 32 = 1"
  "ld32 demo_memory 44 = 2" "ld64 demo_memory 48 = double_of_nat 200" "ld64 demo_memory 56 = 1"
  "ld32 demo_memory 64 = 2" "ld32 demo_memory 72 = 0"
  "rd_bytes demo_memory 12 1 = [7]" "rd_bytes demo_memory 36 1 = [7]" "rd_bytes demo_memory 200 (Suc (Suc 0)) = [9, 8]"
proof -
  have "double_of_nat 200 = 0x4069000000000000" by (simp add: double_of_nat_def compute_floorlog Let_def)
  then show "ld64 demo_memory 48 = double_of_nat 200"
    by (simp add: ld64_def rd_bytes_def demo_memory_def upt_rec)
qed (simp_all add: ld32_def ld64_def rd_bytes_def demo_memory_def upt_rec)

lemmas demo_layout =
  instr_at_def op_word.simps instr_end_def after_key_def condition_size_def version_size_def flag_word_def key_at_def
  value_at_def condition_at_def version_at_def read_area_def

lemma demo_batch: "batch_at demo_memory {map_base..} 0 demo_placed 72"
proof -
  have at: "\<forall>P \<in> set demo_placed. instr_at demo_memory P"
    using demo_words by (simp add: demo_placed_def demo_layout)
  have "read_area (demo_placed ! 0) = {0..<24}" "read_area (demo_placed ! 1) = {24..<64} \<union> {200..<202}"
    "read_area (demo_placed ! 2) = {64..<72}"
    by (simp_all add: demo_placed_def demo_layout)
  then show ?thesis using at by (auto simp: demo_placed_def map_base_def)
qed

definition demo_surroundings :: "pieces surroundings" where
  "demo_surroundings =
     \<lparr>eng = heap_engine, codec = \<lparr>lz4_compress = (\<lambda>m d dl s t n c a. (0, m)), lz4_decompress = (\<lambda>m s t k n d dl. (- 1, m))\<rparr>,
      compression_at = (\<lambda>a. \<lparr>dictionary = 0, decompressTarget = 0, decompressSize = 0,
        compressionThreshold = 1000, acceleration = 1\<rparr>),
      new_chars = (\<lambda>n. 1048576), os_strerror = (\<lambda>n. None), others = (\<lambda>n st. st), signalled = (\<lambda>n st. True)\<rparr>"

definition demo_worker :: "pieces worker" where
  "demo_worker =
     \<lparr>memory = demo_memory, txn_state = [], txn_live = True, finishedProgress = True, interruptionStatus = 0,
      progressStatus = 0, error_message = None, worker_instructions = 0, locked = True, waits = 0\<rparr>"

lemma demo_fits: "\<forall>P \<in> set demo_placed. op_fits heap_model (operation P)"
  by (simp add: demo_placed_def heap_model_def)

lemma demo_record: "version_bytes (Some 1) = [1, 0, 0, 0, 0, 0, 0, 0]"
  by code_simp

theorem write_batch_performs_items_witness:
  "\<exists>l' st'. DoWrites demo_surroundings True (initial_locals 0 \<lparr>iov_base = 0, iov_len = 0\<rparr>) demo_worker = Some (0, l', st') \<and>
     ld32 (memory st') 72 = TXN_DELIMITER \<and>
     stored heap_model (txn_state st') (memory st') =
       update (\<lambda>dbi k. None) 1 [7] (Some [1, 0, 0, 0, 0, 0, 0, 0, 9, 8]) \<and>
     ld32 (memory st') 24 = 0x20F OR FINISHED_OPERATION"
proof -
  have e: "engine_ok (eng demo_surroundings) heap_model" "reliable (eng demo_surroundings)"
    using heap_engine_ok heap_engine_reliable by (simp_all add: demo_surroundings_def)
  have m: "memory demo_worker = demo_memory" "map_area heap_model = {map_base..}" "error_message demo_worker = None"
    "finishedProgress demo_worker"
    by (simp_all add: demo_worker_def heap_model_def)
  have empty: "stored heap_model (txn_state demo_worker) demo_memory = (\<lambda>dbi k. None)"
    by (simp add: demo_worker_def heap_model_def)
  have ops: "map operation demo_placed = flatten demo_items" "well_nested demo_items"
    by (simp_all add: demo_placed_def demo_items_def block_start_def is_block_op_def)
  have vers: "ops_versioned (flatten demo_items) ((\<lambda>dbi k. None), 0, 0)"
    by (simp add: empty demo_items_def block_start_def)
  have quiet: "\<forall>st. others demo_surroundings (waits st) st = st" by (simp add: demo_surroundings_def)
  obtain l' st' where r: "DoWrites demo_surroundings True (initial_locals 0 \<lparr>iov_base = 0, iov_len = 0\<rparr>) demo_worker = Some (0, l', st')"
    "ld32 (memory st') 72 = TXN_DELIMITER"
    and st: "stored heap_model (txn_state st') (memory st') = eval_items demo_items (\<lambda>dbi k. None)"
    and res: "results_at (memory st') demo_placed (snd (ops_run (flatten demo_items) ((\<lambda>dbi k. None), 0, 0)))"
    using write_batch_performs_items [OF e(1), where st = demo_worker and a = 0 and e = 72 and Ps = demo_placed
        and unset = "\<lparr>iov_base = 0, iov_len = 0\<rparr>" and items = demo_items, unfolded m(1,2) empty,
        OF demo_batch ops demo_fits vers demo_words(11) m(4,3) quiet] e(2)
    by (elim exE conjE) simp
  have "snd (ops_run (flatten demo_items) ((\<lambda>dbi k. None), 0, 0)) = [True, True, True]"
    by (simp add: demo_items_def block_start_def)
  then have "ld32 (memory st') 24 = 0x20F OR FINISHED_OPERATION"
    using res unfolding results_at_def demo_placed_def
    by (elim allE [of _ 1] ) (simp add: flag_word_def op_result_def)
  moreover have "eval_items demo_items (\<lambda>dbi k. None) = update (\<lambda>dbi k. None) 1 [7] (Some [1, 0, 0, 0, 0, 0, 0, 0, 9, 8])"
    by (simp add: demo_items_def enters_def demo_record)
  ultimately show ?thesis using r st by (intro exI conjI) simp_all
qed

subsection \<open>One instruction in synchronous mode\<close>

text \<open>Without a worker the interpreter does the same step and returns its result code.\<close>

lemma synchronous_step:
  assumes one: "one_instruction E True l st = Some (Next_instruction l' st')"
    and op: "ld32 (memory st) (instruction l) AND 0xf \<in> {PUT, DEL, DROP_DB}"
  shows "one_instruction E False l st = Some (Return (rc_of l') l' st') \<or>
    (\<exists>rc l2 st2. hard_error rc \<and> error_message st' \<noteq> None \<and> one_instruction E False l st = Some (Return rc l2 st2))"
proof -
  define a where "a = instruction l"
  define flags where "flags = ld32 (memory st) a"
  have op': "flags AND 15 = 15 \<or> flags AND 15 = 13 \<or> flags AND 15 = 12"
    using op by (simp add: flags_def a_def instruction_flags)
  have f0: "flags AND 0xf0c0 = 0"
    using one by (auto simp: one_instruction_def a_def flags_def Let_def split: if_splits)
  obtain dbi b l1 st1 where r: "read_operands E flags (conditionDepth l = validatedDepth l) (l\<lparr>instruction := a + 4\<rparr>) st =
      Some (dbi, b, l1, st1)"
    using one f0 by (auto simp: one_instruction_def a_def flags_def bind_eq_Some_conv Let_def)
  have unf: "one_instruction E w l st =
     (if b \<or> \<not> has flags CONDITIONAL
      then execute E w a flags dbi b l1 st1 \<bind>
        (\<lambda>r. Some (case r of Break_switch l st \<Rightarrow> finish_instruction E w a l st | _ \<Rightarrow> r))
      else Some (set_result w a (FINISHED_OPERATION OR FAILED_CONDITION) l1 st1))" for w
    using r f0 unfolding one_instruction_def a_def flags_def by (simp add: Let_def)
  show ?thesis
  proof (cases "b \<or> \<not> has flags CONDITIONAL")
    case False
    then show ?thesis using one unf [of True] unf [of False] by (simp add: set_result_def Let_def)
  next
    case True
    have same: "execute E False a flags dbi b l1 st1 = execute E True a flags dbi b l1 st1"
      using op' by (auto simp: execute_def instruction_flags)
    obtain x where x: "execute E True a flags dbi b l1 st1 = Some x"
      using one unf [of True] True by (auto simp: bind_eq_Some_conv)
    have "\<exists>l2 st2. x = Break_switch l2 st2"
      using x op' by (auto simp: execute_def instruction_flags Let_def split: prod.splits)
    then obtain l2 st2 where x2: "x = Break_switch l2 st2" by blast
    have "finish_instruction E True a l2 st2 = Next_instruction l' st'" using one unf [of True] True x x2 by simp
    moreover have "one_instruction E False l st = Some (finish_instruction E False a l2 st2)"
      using unf [of False] True same x x2 by simp
    ultimately show ?thesis
      by (auto simp: finish_instruction_def set_result_def hard_error_def ReportError_def Let_def split: if_splits)
  qed
qed

text \<open>
  C40: In synchronous mode \<open>DoWrites\<close> performs exactly the one operation it is given: a put with or
  without a version and unconditional or conditional on the absence of the key, a removal of a key,
  unconditional or conditional on absence or on a version, or a drop, in an open table without
  duplicates, with key and value within their limits, the value not to be compressed or compressed
  already, the instruction outside the memory map, and a version looked for only in a record of at
  least 8 bytes, on an engine that keeps its contract (\<open>engine_ok\<close>).  Not covered are a put
  conditional on a version (there the old record is stored, \<open>versioned_put_stores_old_record\<close>), the
  removal of a single value and the put flags for duplicates and for appending.  \<open>DoWrites\<close> then
  does to the database what the operation describes and says in the flag word whether it took
  effect; or else the engine is not a reliable one and its error is returned, which
  \<open>EnvWrap::write\<close> throws.
\<close>

theorem synchronous_write_performs_operation:
  assumes "engine_ok (eng E) V" "instr_at (memory st) P" "read_area P \<inter> map_area V = {}"
    and "op_fits V (operation P)" "\<not> is_block_op (operation P)" "error_message st = None"
    and "versioned (operation P) (stored V (txn_state st) (memory st))"
  shows "\<exists>rc l' st'. DoWrites E False (initial_locals (start P) unset) st = Some (rc, l', st') \<and>
     (stored V (txn_state st') (memory st') = perform (operation P) (stored V (txn_state st) (memory st)) \<and>
      ld32 (memory st') (start P) =
        op_word P OR op_result (snd (op_step (operation P) (stored V (txn_state st) (memory st), 0, 0))) \<or>
      hard_error rc \<and> \<not> reliable (eng E))"
proof -
  define c where "c = stored V (txn_state st) (memory st)"
  let ?l = "initial_locals (start P) unset"
  have l0: "instruction ?l = start P" "conditionDepth ?l = 0" "validatedDepth ?l = 0" by (simp_all add: initial_locals_def)
  obtain l' st' where one: "one_instruction E True ?l st = Some (Next_instruction l' st')"
    and ok: "step_ok (eng E) V P ?l st l' st'"
    using instruction_step [OF assms(1,2) l0(1) assms(3,4)] by blast
  have word: "ld32 (memory st) (start P) = op_word P" using assms(2) by (simp only: instr_at_def)
  have "op_word P AND 0xf \<in> {PUT, DEL, DROP_DB}"
  proof (cases "operation P")
    case (Put dbi k bs ver cond)
    then show ?thesis using flag_word_bits(2) [of 15 "packed P" cond ver] by (simp add: PUT_def)
  next
    case (Del dbi k cond)
    then show ?thesis using flag_word_bits(2) [of 13 False cond None] by (simp add: DEL_def)
  qed (use assms(5) in \<open>simp_all add: is_block_op_def DROP_DB_def\<close>)
  then have sync: "one_instruction E False ?l st = Some (Return (rc_of l') l' st') \<or>
    (\<exists>rc l2 st2. hard_error rc \<and> error_message st' \<noteq> None \<and> one_instruction E False ?l st = Some (Return rc l2 st2))"
    by (intro synchronous_step [OF one]) (simp add: l0 word)
  have run: "DoWrites E False ?l st = Some (rc, l2, st2)"
    if "one_instruction E False ?l st = Some (Return rc l2 st2)" for rc l2 st2
    using that by (subst DoWrites.simps) simp
  have effect: "stored V (txn_state st') (memory st') = perform (operation P) c \<and>
      ld32 (memory st') (start P) = op_word P OR op_result (snd (op_step (operation P) (c, 0, 0)))"
    if "error_message st' = None"
  proof -
    have "operation P \<noteq> Close_block" using assms(5) by (auto simp: is_block_op_def)
    then show ?thesis
      using ok that assms(7) word l0 plain_step(1) [OF assms(5), of c 0]
      by (auto simp: step_ok_def c_def split: prod.splits)
  qed
  have failed: "hard_error (rc_of l') \<and> \<not> reliable (eng E)" if "error_message st' \<noteq> None"
    using ok that assms(6) by (auto simp: step_ok_def)
  from sync show ?thesis
  proof
    assume "one_instruction E False ?l st = Some (Return (rc_of l') l' st')"
    from run [OF this] show ?thesis unfolding c_def [symmetric]
      using effect failed by (intro exI conjI) (assumption, blast)
  next
    assume "\<exists>rc l2 st2. hard_error rc \<and> error_message st' \<noteq> None \<and> one_instruction E False ?l st = Some (Return rc l2 st2)"
    then obtain rc l2 st2 where h: "hard_error rc" "error_message st' \<noteq> None"
      and r: "one_instruction E False ?l st = Some (Return rc l2 st2)" by blast
    show ?thesis using run [OF r] h failed by (intro exI conjI) (assumption, blast)
  qed
qed

theorem synchronous_write_performs_operation_witness:
  "\<exists>rc l' st'. DoWrites demo_surroundings False (initial_locals 24 \<lparr>iov_base = 0, iov_len = 0\<rparr>) demo_worker = Some (rc, l', st') \<and>
     stored heap_model (txn_state st') (memory st') =
       update (\<lambda>dbi k. None) 1 [7] (Some [1, 0, 0, 0, 0, 0, 0, 0, 9, 8]) \<and>
     ld32 (memory st') 24 = 0x20F OR FINISHED_OPERATION"
proof -
  define P where "P = demo_placed ! 1"
  have e: "engine_ok (eng demo_surroundings) heap_model" "reliable (eng demo_surroundings)"
    using heap_engine_ok heap_engine_reliable by (simp_all add: demo_surroundings_def)
  have P: "start P = 24" "operation P = Put 1 [7] [9, 8] (Some 1) Always" "op_word P = 0x20F"
    by (simp_all add: P_def demo_placed_def flag_word_def)
  have m: "memory demo_worker = demo_memory" "error_message demo_worker = None"
    by (simp_all add: demo_worker_def)
  have empty: "stored heap_model (txn_state demo_worker) demo_memory = (\<lambda>dbi k. None)"
    by (simp add: demo_worker_def heap_model_def)
  have at: "instr_at demo_memory P"
    using demo_words by (simp add: P_def demo_placed_def demo_layout)
  have "read_area P = {24..<64} \<union> {200..<202}" by (simp add: P_def demo_placed_def demo_layout)
  then have area: "read_area P \<inter> map_area heap_model = {}" by (auto simp: heap_model_def map_base_def)
  have "op_fits heap_model (operation P)" "\<not> is_block_op (operation P)"
    "versioned (operation P) (stored heap_model (txn_state demo_worker) (memory demo_worker))"
    by (simp_all add: P is_block_op_def heap_model_def)
  from synchronous_write_performs_operation [OF e(1) at [folded m(1)] area this(1,2) m(2) this(3)] e(2)
  obtain rc l' st' where r: "DoWrites demo_surroundings False (initial_locals 24 \<lparr>iov_base = 0, iov_len = 0\<rparr>) demo_worker = Some (rc, l', st')"
    "stored heap_model (txn_state st') (memory st') = perform (operation P) (\<lambda>dbi k. None)"
    "ld32 (memory st') 24 = 0x20F OR op_result (snd (op_step (operation P) ((\<lambda>dbi k. None), 0, 0)))"
    unfolding m empty P(1,3) by blast
  then show ?thesis by (intro exI conjI) (assumption, simp_all add: P(2) demo_record op_result_def)
qed

subsection \<open>The transaction of a batch\<close>

text \<open>
  C39: \<open>WriteWorker::Write\<close> puts the batch into one transaction.  For a batch as in C38, with the
  same exclusions (complete when \<open>Write\<close> begins it and not interfered with; puts, removals of keys
  and drops in nested conditional blocks, no put conditional on a version, tables without duplicates,
  values within their limits and compressed already), on an engine that keeps its contract, is
  reliable and has begun the transaction: what is committed is the database the instructions
  describe, the delimiter word says whether the commit succeeded, a failed commit is the error that is
  reported and there is no other, and the lock is released.
\<close>

theorem worker_write_commits_batch:
  assumes eng: "engine_ok (eng E) V" "reliable (eng E)"
    and begin_: "mdbx_txn_begin (eng E) (txn_state st) (memory st) = (0, s0, m0)"
    and lay: "batch_at m0 (map_area V) (worker_instructions st) Ps e" "map operation Ps = flatten items" "well_nested items"
    and fits: "\<forall>P \<in> set Ps. op_fits V (operation P)"
    and vers: "ops_versioned (flatten items) (stored V s0 m0, 0, 0)"
    and end_: "ld32 m0 e = 0" "error_message st = None"
    and quiet: "\<forall>st. others E (waits st) st = st"
  shows "\<exists>s m rc s' m' st'. stored V s m = eval_items items (stored V s0 m0) \<and> ld32 m e = TXN_DELIMITER \<and>
     mdbx_txn_commit (eng E) s m = (rc, s', m') \<and>
     WriteWorker_Write E True unset st = Some st' \<and> txn_state st' = s' \<and> \<not> locked st' \<and> \<not> txn_live st' \<and>
     memory st' = st32 m' e (ld32 m' e OR (if rc = 0 then TXN_COMMITTED else TXN_HAD_ERROR)) \<and>
     error_message st' = (if rc = 0 then None else Some (mdbx_strerror (os_strerror E) rc))"
proof -
  define st0 where "st0 = st\<lparr>finishedProgress := True, locked := True, txn_state := s0, memory := m0, txn_live := True\<rparr>"
  have "batch_at (memory st0) (map_area V) (worker_instructions st) Ps e"
    "ops_versioned (flatten items) (stored V (txn_state st0) (memory st0), 0, 0)"
    "ld32 (memory st0) e = 0" "finishedProgress st0" "error_message st0 = None"
    using lay vers end_ by (simp_all add: st0_def)
  from batch_performs [OF eng(1) this(1) lay(2,3) fits this(2-5) quiet, of unset]
  obtain l1 st1 where run: "DoWrites E True (initial_locals (worker_instructions st) unset) st0 = Some (0, l1, st1)"
    and w: "ld32 (memory st1) e = TXN_DELIMITER" "worker_instructions st1 = e" and n: "error_message st1 = None"
    and c: "stored V (txn_state st1) (memory st1) = eval_items items (stored V s0 m0)"
    using eng(2) unfolding st0_def by auto
  obtain rc s' m' where cm: "mdbx_txn_commit (eng E) (txn_state st1) (memory st1) = (rc, s', m')" by (metis surj_pair)
  have "WriteWorker_Write E True unset st = Some (end_transaction E 0 st1)"
    using begin_ run by (simp add: WriteWorker_Write_def st0_def)
  then show ?thesis
    using w n c cm
    by (intro exI [of _ "txn_state st1"] exI [of _ "memory st1"] exI [of _ rc] exI [of _ s'] exI [of _ m']
        exI [of _ "end_transaction E 0 st1"]) (simp add: end_transaction_def)
qed

theorem worker_write_commits_batch_witness:
  "\<exists>st'. WriteWorker_Write demo_surroundings True \<lparr>iov_base = 0, iov_len = 0\<rparr> demo_worker = Some st' \<and>
     stored heap_model (txn_state st') (memory st') =
       update (\<lambda>dbi k. None) 1 [7] (Some [1, 0, 0, 0, 0, 0, 0, 0, 9, 8]) \<and>
     ld32 (memory st') 72 = TXN_DELIMITER OR TXN_COMMITTED \<and> error_message st' = None"
proof -
  have e: "engine_ok (eng demo_surroundings) heap_model" "reliable (eng demo_surroundings)"
    using heap_engine_ok heap_engine_reliable by (simp_all add: demo_surroundings_def)
  have m: "map_area heap_model = {map_base..}" "error_message demo_worker = None" "worker_instructions demo_worker = 0"
    "mdbx_txn_begin (eng demo_surroundings) (txn_state demo_worker) (memory demo_worker) = (0, [], demo_memory)"
    by (simp_all add: demo_worker_def heap_model_def demo_surroundings_def heap_engine_def)
  have empty: "stored heap_model [] demo_memory = (\<lambda>dbi k. None)" by (simp add: heap_model_def)
  have ops: "map operation demo_placed = flatten demo_items" "well_nested demo_items"
    by (simp_all add: demo_placed_def demo_items_def block_start_def is_block_op_def)
  have vers: "ops_versioned (flatten demo_items) (stored heap_model [] demo_memory, 0, 0)"
    by (simp add: empty demo_items_def block_start_def)
  have quiet: "\<forall>st. others demo_surroundings (waits st) st = st" by (simp add: demo_surroundings_def)
  have lay: "batch_at demo_memory (map_area heap_model) (worker_instructions demo_worker) demo_placed 72"
    using demo_batch m by simp
  obtain s m rc s' m' st' where r: "stored heap_model s m = eval_items demo_items (stored heap_model [] demo_memory)"
    "ld32 m 72 = TXN_DELIMITER" "mdbx_txn_commit (eng demo_surroundings) s m = (rc, s', m')"
    "WriteWorker_Write demo_surroundings True \<lparr>iov_base = 0, iov_len = 0\<rparr> demo_worker = Some st'" "txn_state st' = s'"
    "memory st' = st32 m' 72 (ld32 m' 72 OR (if rc = 0 then TXN_COMMITTED else TXN_HAD_ERROR))"
    "error_message st' = (if rc = 0 then None else Some (mdbx_strerror (os_strerror demo_surroundings) rc))"
    using worker_write_commits_batch [OF e m(4) lay ops demo_fits vers demo_words(11) m(2) quiet] by blast
  have c: "rc = 0" "s' = s" "m' = m" using r(3) by (simp_all add: demo_surroundings_def heap_engine_def)
  have "agree_outside (- map_area heap_model) m (memory st')"
    unfolding r(6) c by (rule agree_outside_st32) (auto simp: heap_model_def map_base_def)
  then have "stored heap_model s (memory st') = stored heap_model s m"
    using engine_okD(6) [OF heap_engine_ok] by (simp add: reads_map_only_def)
  moreover have "eval_items demo_items (\<lambda>dbi k. None) = update (\<lambda>dbi k. None) 1 [7] (Some [1, 0, 0, 0, 0, 0, 0, 0, 9, 8])"
    by (simp add: demo_items_def enters_def demo_record)
  ultimately show ?thesis using r c empty by (intro exI [of _ st']) (simp add: mem_simps)
qed

subsection \<open>A put on a version\<close>

text \<open>
  The version check of \<open>DoWrites\<close> calls \<open>mdbx_get\<close> with the very variable that holds the value to
  put, so that a put whose version matches goes on with the value it has just read.
\<close>

lemma versioned_put_operands:
  fixes E :: "'s surroundings" and st :: "'s worker"
  assumes at: "instr_at (memory st) P" "operation P = Put dbi k bs (Some ver) (If_version w)" "instruction l = start P"
    and len: "length k < 2 ^ 32" "length bs < 2 ^ 32"
    and db: "get_ok (eng E) V" "dbi \<in> plain_dbs V" "length k \<le> key_limit V"
    and old: "stored V (txn_state st) (memory st) dbi k = Some old" "8 \<le> length old" "dbl_eq w (record_version old)"
    and cd: "conditionDepth l = validatedDepth l"
  shows "\<exists>l1 v. read_operands E (op_word P) True (l\<lparr>instruction := start P + 4\<rparr>) st = Some (dbi, True, l1, st) \<and>
     val_bytes (memory st) v = old \<and> value_of l1 = v \<and> setVersion l1 = ver \<and> freed l1 = freed l \<and>
     mdbx_get (eng E) (txn_state st) (memory st) dbi (key_of l1) \<lparr>iov_base = value_address P, iov_len = of_nat (length bs)\<rparr> = (0, v) \<and>
     usable V dbi (key_of l1) \<and> val_bytes (memory st) (key_of l1) = k"
proof -
  let ?flags = "flag_word 15 (packed P) (If_version w) (Some ver)"
  note bits = flag_word_bits [OF disjI1, OF refl, of "packed P" "If_version w" "Some ver"]
  define m where "m = memory st"
  define q where "q = after_key (start P) k + (if packed P then 16 else 8)"
  have word: "op_word P = ?flags" using at(2) by simp
  have ka: "key_at m (start P) dbi k" and va: "value_at m (after_key (start P) k) (packed P) (value_address P) bs"
    and ca: "ld64 m q = w" "ld64 m (q + 8) = ver"
    using at(1,2) by (simp_all add: instr_at_def m_def q_def Let_def condition_at_def version_at_def condition_size_def)
  define key where "key = \<lparr>iov_base = start P + 12, iov_len = (of_nat (length k) :: u64)\<rparr>"
  define l0 where "l0 = l\<lparr>key_of := key, instruction := after_key (start P) k\<rparr>"
  have rk: "read_key (l\<lparr>instruction := start P + 4\<rparr>) st = (dbi, l0)"
    using read_key_at [OF ka [unfolded m_def] len(1)] by (simp add: l0_def key_def)
  define v0 where "v0 = \<lparr>iov_base = value_address P, iov_len = (of_nat (length bs) :: u64)\<rparr>"
  define l2 where "l2 = l0\<lparr>value_of := v0, instruction := q\<rparr>"
  have rv: "read_value E ?flags l0 st = Some (l2, st)"
    using read_value_at [of st l0 "packed P" "value_address P" bs ?flags E] va len(2) bits(7)
    by (simp add: l2_def v0_def l0_def q_def m_def)
  have us: "usable V dbi key" using db len by (simp add: usable_def key_def unat_of_nat_lt)
  have kb: "val_bytes m key = k" unfolding key_def by (rule key_bytes_at [OF ka len(1)])
  obtain v where g: "mdbx_get (eng E) (txn_state st) m dbi key v0 = (0, v)" and v: "val_bytes m v = old"
    using get_found [OF db(1) us, of "txn_state st" m old v0] old(1) kb by (auto simp: m_def)
  have "dbl_eq w (ld64 m (iov_base v))" using record_version_at [OF v old(2)] old(3) by simp
  then have cv: "check_version E ?flags dbi st (True, l2) =
      (True, l2\<lparr>instruction := q + 8, rc_of := 0, value_of := v\<rparr>)"
    using bits(8) g ca by (simp add: check_version_def l2_def l0_def m_def)
  define l3 where "l3 = l2\<lparr>rc_of := 0, value_of := v, setVersion := ver, instruction := q + 8 + 8\<rparr>"
  have sv: "read_set_version ?flags st (check_version E ?flags dbi st (True, l2)) = (True, l3)"
    unfolding cv using bits(9) ca(2) by (simp add: read_set_version_def l3_def m_def)
  have "read_operands E (op_word P) True (l\<lparr>instruction := start P + 4\<rparr>) st = Some (dbi, True, l3, st)"
    unfolding word read_operands_def using bits(3,5,10) by (simp add: rk rv sv check_no_exists_def)
  then show ?thesis
    using v g us kb
    by (intro exI [of _ l3] exI [of _ v]) (simp add: l3_def l2_def l0_def m_def v0_def)
qed

text \<open>
  A put conditional on the record's version, when the version matches, stores the old
  record again: the new record is the new version followed by the bytes at the address where
  \<open>mdbx_get\<close> found the old one, and the given value is not looked at.  If the value was
  compressed, the address that is freed is that of the old record in the memory map.
\<close>

lemma versioned_put_stores_old_record:
  assumes at: "instr_at (memory st) P" "operation P = Put dbi k bs (Some ver) (If_version w)" "instruction l = start P"
    and len: "length k < 2 ^ 32" "length bs < 2 ^ 32"
    and db: "get_ok (eng E) V" "dbi \<in> plain_dbs V" "length k \<le> key_limit V"
    and old: "stored V (txn_state st) (memory st) dbi k = Some old" "8 \<le> length old" "length old < 2 ^ 31 - 8"
      "dbl_eq w (record_version old)"
    and cd: "conditionDepth l = validatedDepth l"
    and room: "\<And>key n. \<exists>s' m' v'. mdbx_put (eng E) (txn_state st) (memory st) dbi key
        \<lparr>iov_base = n, iov_len = of_nat (length old + 8)\<rparr> MDBX_RESERVE = (0, s', m', v')"
  shows "\<exists>key v s' m' v' l' st'. mdbx_get (eng E) (txn_state st) (memory st) dbi key
         \<lparr>iov_base = value_address P, iov_len = of_nat (length bs)\<rparr> = (0, v) \<and> val_bytes (memory st) v = old \<and>
     mdbx_put (eng E) (txn_state st) (memory st) dbi key (v\<lparr>iov_len := of_nat (length old + 8)\<rparr>) MDBX_RESERVE = (0, s', m', v') \<and>
     val_bytes (memory st) key = k \<and>
     one_instruction E True l st = Some (Next_instruction l' st') \<and> txn_state st' = s' \<and>
     (let m2 = wr_bytes m' (iov_base v') (le_bytes 8 (unat ver) @ rd_bytes m' (iov_base v) (length old))
      in memory st' = st32 m2 (start P) (ld32 m2 (start P) OR FINISHED_OPERATION)) \<and>
     freed l' = freed l @ (if packed P then [iov_base v] else [])"
proof -
  let ?flags = "flag_word 15 (packed P) (If_version w) (Some ver)"
  note bits = flag_word_bits [OF disjI1, OF refl, of "packed P" "If_version w" "Some ver"]
  have word: "op_word P = ?flags" "ld32 (memory st) (start P) = op_word P"
    using at(1,2) by (simp, simp only: instr_at_def)
  obtain l1 v where ro: "read_operands E (op_word P) True (l\<lparr>instruction := start P + 4\<rparr>) st = Some (dbi, True, l1, st)"
    and v: "val_bytes (memory st) v = old" "value_of l1 = v" "setVersion l1 = ver" "freed l1 = freed l"
    and g: "mdbx_get (eng E) (txn_state st) (memory st) dbi (key_of l1) \<lparr>iov_base = value_address P, iov_len = of_nat (length bs)\<rparr> = (0, v)"
    and kb: "val_bytes (memory st) (key_of l1) = k"
    using versioned_put_operands [OF at len db old(1,2,4) cd] by (elim exE conjE)
  have lv: "unat (iov_len v) = length old" using v(1) unfolding val_bytes_def by (metis length_rd_bytes)
  have "unat (ucast (iov_len v) :: 32 word) = length old" using lv old(3) by (subst unat_ucast_lt) simp_all
  then have sz: "sint (ucast (iov_len v) :: 32 word) = int (length old)" using old(3) by (subst sint32_small) simp_all
  have wl: "word_of_int (int (length old) + 8) = (of_nat (length old + 8) :: u64)" by simp
  have veq: "v\<lparr>iov_len := of_nat (length old + 8)\<rparr> = \<lparr>iov_base = iov_base v, iov_len = of_nat (length old + 8)\<rparr>"
    by (cases v) simp
  obtain s' m' v' where p: "mdbx_put (eng E) (txn_state st) (memory st) dbi (key_of l1)
      (v\<lparr>iov_len := of_nat (length old + 8)\<rparr>) MDBX_RESERVE = (0, s', m', v')"
    using room [of "key_of l1" "iov_base v"] unfolding veq by blast
  define m2 where "m2 = wr_bytes m' (iov_base v') (le_bytes 8 (unat ver) @ rd_bytes m' (iov_base v) (length old))"
  have pw: "putWithVersion (eng E) (txn_state st) (memory st) dbi (key_of l1) v (put_flags ?flags) ver =
      Some (0, s', m2, v'\<lparr>iov_base := iov_base v\<rparr>)"
    using p old(3) write_after_version [of m' "iov_base v'" "le_bytes 8 (unat ver)"]
    unfolding putWithVersion_def sz wl by (simp add: Let_def m2_def st64_def)
  define l2 where "l2 = free_if_compressible ?flags (l1\<lparr>rc_of := 0, value_of := v'\<lparr>iov_base := iov_base v\<rparr>\<rparr>)"
  have put: "do_put E ?flags dbi l1 st = Some (l2, st\<lparr>txn_state := s', memory := m2\<rparr>)"
    using bits(9) pw v by (simp add: do_put_def l2_def)
  have l2: "freed l2 = freed l @ (if packed P then [iov_base v] else [])" "rc_of l2 = 0"
    using bits(7) v by (simp_all add: l2_def free_if_compressible_def)
  have ex: "execute E True (start P) ?flags dbi True l1 st = Some (Break_switch l2 (st\<lparr>txn_state := s', memory := m2\<rparr>))"
    using bits(2) put by (simp add: execute_def instruction_flags)
  have "one_instruction E True l st = Some (finish_instruction E True (start P) l2 (st\<lparr>txn_state := s', memory := m2\<rparr>))"
    using one_instruction_unfold [OF at(3) word(2) _ ro [folded cd [THEN eqTrueI]], of True] bits(1) ex cd
    unfolding word(1) by simp
  then have "one_instruction E True l st = Some (Next_instruction l2
      (st\<lparr>txn_state := s', memory := st32 m2 (start P) (ld32 m2 (start P) OR FINISHED_OPERATION)\<rparr>))"
    using l2(2) by (simp add: finish_instruction_effect op_result_def hard_error_def)
  then show ?thesis
    using g v(1) p kb l2(1) unfolding m2_def Let_def
    by (intro exI conjI) (assumption | simp)+
qed

text \<open>A record of version 1 is to be replaced by the value 9 8 of version 2; it keeps its old value.\<close>

definition old_record :: "u8 list" where "old_record = [1, 0, 0, 0, 0, 0, 0, 0, 5, 5]"

definition versioned_memory :: mem where
  "versioned_memory x =
     (if x < 48
      then [0x0F, 3, 0, 0, 1, 0, 0, 0, 1, 0, 0, 0, 7, 0, 0, 0, 0, 0, 0, 0, 2, 0, 0, 0,
            0, 0, 0, 0, 0, 0, 0x69, 0x40, 1, 0, 0, 0, 0, 0, 0, 0, 2, 0, 0, 0, 0, 0, 0, 0] ! x
      else if x = 200 then 9 else if x = 201 then 8
      else if map_base \<le> x \<and> x < map_base + 10 then old_record ! (x - map_base) else 0)"

definition versioned_put :: placed where
  "versioned_put =
     \<lparr>start = 0, operation = Put 1 [7] [9, 8] (Some 2) (If_version 1), packed = False, value_address = 200,
      chained = False, succ_start = 48\<rparr>"

lemma versioned_words:
  "ld32 versioned_memory 0 = 0x30F" "ld32 versioned_memory 4 = 1" "ld32 versioned_memory 8 = 1"
  "ld32 versioned_memory 20 = 2" "ld64 versioned_memory 24 = double_of_nat 200" "ld64 versioned_memory 32 = 1"
  "ld64 versioned_memory 40 = 2" "rd_bytes versioned_memory 12 1 = [7]"
  "rd_bytes versioned_memory 200 (Suc (Suc 0)) = [9, 8]"
  "rd_bytes versioned_memory map_base 10 = old_record"
proof -
  have "double_of_nat 200 = 0x4069000000000000" by (simp add: double_of_nat_def compute_floorlog Let_def)
  then show "ld64 versioned_memory 24 = double_of_nat 200"
    by (simp add: ld64_def rd_bytes_def versioned_memory_def upt_rec)
  show "rd_bytes versioned_memory map_base 10 = old_record"
    by (rule nth_equalityI) (simp_all add: versioned_memory_def old_record_def map_base_def)
qed (simp_all add: ld32_def ld64_def rd_bytes_def versioned_memory_def map_base_def upt_rec)

definition versioned_worker :: "pieces worker" where
  "versioned_worker = demo_worker\<lparr>memory := versioned_memory, txn_state := [((1, [7]), 0, 10)]\<rparr>"

lemma versioned_put_stores_old_record_witness:
  "\<exists>l' st'. one_instruction demo_surroundings True (initial_locals 0 \<lparr>iov_base = 0, iov_len = 0\<rparr>) versioned_worker =
       Some (Next_instruction l' st') \<and>
     stored heap_model (txn_state st') (memory st') 1 [7] = Some (le_bytes 8 2 @ old_record)"
proof -
  let ?l = "initial_locals 0 \<lparr>iov_base = 0, iov_len = 0\<rparr>" and ?E = demo_surroundings and ?st = versioned_worker
  have at: "instr_at (memory ?st) versioned_put"
    using versioned_words by (simp add: versioned_worker_def versioned_put_def demo_layout)
  have P: "operation versioned_put = Put 1 [7] [9, 8] (Some 2) (If_version 1)" "instruction ?l = start versioned_put"
    "length [7 :: u8] < 2 ^ 32" "length [9 :: u8, 8] < 2 ^ 32" "1 \<in> plain_dbs heap_model"
    "length [7 :: u8] \<le> key_limit heap_model" "conditionDepth ?l = validatedDepth ?l"
    by (simp_all add: versioned_put_def initial_locals_def heap_model_def)
  have get: "get_ok (eng ?E) heap_model" using heap_engine_ok by (simp add: demo_surroundings_def engine_ok_def)
  have old: "stored heap_model (txn_state ?st) (memory ?st) 1 [7] = Some old_record"
    using versioned_words(10) by (simp add: versioned_worker_def heap_model_def piece_bytes_def)
  have o: "8 \<le> length old_record" "length old_record < 2 ^ 31 - 8" by (simp_all add: old_record_def)
  have "record_version old_record = 1" by (simp add: record_version_def old_record_def)
  moreover have "dbl_eq 1 1" by (simp add: dbl_eq_def dbl_is_nan_def dbl_exponent_def)
  ultimately have eq: "dbl_eq 1 (record_version old_record)" by simp
  have room: "\<exists>s' m' v'. mdbx_put (eng ?E) (txn_state ?st) (memory ?st) 1 key
      \<lparr>iov_base = n, iov_len = of_nat (length old_record + 8)\<rparr> MDBX_RESERVE = (0, s', m', v')" for key n
    by (simp add: demo_surroundings_def heap_engine_def has_def instruction_flags Let_def)
  obtain key v s' m' v' l' st' where g: "mdbx_get (eng ?E) (txn_state ?st) (memory ?st) 1 key
         \<lparr>iov_base = value_address versioned_put, iov_len = of_nat (length [9 :: u8, 8])\<rparr> = (0, v)"
    and p: "mdbx_put (eng ?E) (txn_state ?st) (memory ?st) 1 key (v\<lparr>iov_len := of_nat (length old_record + 8)\<rparr>) MDBX_RESERVE =
      (0, s', m', v')"
    and k: "val_bytes (memory ?st) key = [7]"
    and r: "one_instruction ?E True ?l ?st = Some (Next_instruction l' st')" "txn_state st' = s'"
    and m: "let m2 = wr_bytes m' (iov_base v') (le_bytes 8 (unat (2 :: u64)) @ rd_bytes m' (iov_base v) (length old_record))
      in memory st' = st32 m2 (start versioned_put) (ld32 m2 (start versioned_put) OR FINISHED_OPERATION)"
    using versioned_put_stores_old_record [OF at P(1-4) get P(5,6) old o eq P(7) room]
    by (elim exE conjE)
  have v: "iov_base v = map_base" using g k by (auto simp: demo_surroundings_def heap_engine_def versioned_worker_def)
  have "has MDBX_RESERVE MDBX_RESERVE" "\<not> has MDBX_RESERVE MDBX_NOOVERWRITE" by (simp_all add: has_def instruction_flags)
  then have pr: "s' = [((1, [7]), 10, 18), ((1, [7]), 0, 10)]" "m' = versioned_memory" "iov_base v' = map_base + 10"
    using p k by (auto simp: demo_surroundings_def heap_engine_def versioned_worker_def map_top_def old_record_def)
  have ol: "length old_record = 10" by (simp add: old_record_def)
  define bs where "bs = le_bytes 8 2 @ old_record"
  define m2 where "m2 = wr_bytes versioned_memory (map_base + 10) bs"
  have "rd_bytes m' (iov_base v) (length old_record) = old_record"
    using versioned_words(10) ol by (simp add: pr v)
  then have m2: "memory st' = st32 m2 0 (ld32 m2 0 OR FINISHED_OPERATION)"
    using m by (simp add: pr m2_def bs_def Let_def versioned_put_def)
  have l18: "length bs = 18" by (simp add: bs_def old_record_def)
  have "rd_bytes (memory st') (map_base + 10) 18 = rd_bytes m2 (map_base + 10) 18"
    unfolding m2 st32_def by (rule rd_wr_disjoint) (simp add: map_base_def)
  also have "\<dots> = bs" unfolding m2_def by (rule rd_wr_same_len) (simp add: l18)
  finally have "stored heap_model (txn_state st') (memory st') 1 [7] = Some bs"
    by (simp add: r(2) pr heap_model_def piece_bytes_def)
  then show ?thesis using r(1) unfolding bs_def by (intro exI conjI)
qed

end
