(* ===== verification/Tree_Page.thy ===== *)
theory Tree_Page
  imports Environment Result_Codes
begin

text \<open>
  The pages of the B+tree (\<open>MDBX_page\<close>, \<open>MDBX_node\<close> of \<open>mdbx.c\<close>) in byte memory: their header,
  the array of offsets, the nodes, and the operations that add a node to a page, delete one,
  and shrink a sub-page inside a node.
\<close>

subsection \<open>The header of a page\<close>

definition P_BRANCH :: u16 where "P_BRANCH = 0x01"
definition P_LEAF :: u16 where "P_LEAF = 0x02"
definition P_OVERFLOW :: u16 where "P_OVERFLOW = 0x04"
definition P_LEAF2 :: u16 where "P_LEAF2 = 0x20"
definition F_BIGDATA :: u8 where "F_BIGDATA = 0x01"
definition F_SUBDATA :: u8 where "F_SUBDATA = 0x02"
definition F_DUPDATA :: u8 where "F_DUPDATA = 0x04"

definition mp_leaf2_ksize :: "mem \<Rightarrow> nat \<Rightarrow> u16" where "mp_leaf2_ksize m mp = ld16 m (mp + 8)"
definition mp_flags :: "mem \<Rightarrow> nat \<Rightarrow> u16" where "mp_flags m mp = ld16 m (mp + 10)"
definition mp_lower :: "mem \<Rightarrow> nat \<Rightarrow> u16" where "mp_lower m mp = ld16 m (mp + 12)"
definition mp_upper :: "mem \<Rightarrow> nat \<Rightarrow> u16" where "mp_upper m mp = ld16 m (mp + 14)"
definition mp_pages :: "mem \<Rightarrow> nat \<Rightarrow> u32" where "mp_pages m mp = ld32 m (mp + 12)"
definition mp_pgno :: "mem \<Rightarrow> nat \<Rightarrow> u32" where "mp_pgno m mp = ld32 m (mp + 16)"
definition mp_ptrs :: "mem \<Rightarrow> nat \<Rightarrow> nat \<Rightarrow> u16" where "mp_ptrs m mp i = ld16 m (mp + PAGEHDRSZ + 2 * i)"

definition set_flags :: "mem \<Rightarrow> nat \<Rightarrow> u16 \<Rightarrow> mem" where "set_flags m mp v = st16 m (mp + 10) v"
definition set_lower :: "mem \<Rightarrow> nat \<Rightarrow> u16 \<Rightarrow> mem" where "set_lower m mp v = st16 m (mp + 12) v"
definition set_upper :: "mem \<Rightarrow> nat \<Rightarrow> u16 \<Rightarrow> mem" where "set_upper m mp v = st16 m (mp + 14) v"
definition set_ptr :: "mem \<Rightarrow> nat \<Rightarrow> nat \<Rightarrow> u16 \<Rightarrow> mem" where
  "set_ptr m mp i v = st16 m (mp + PAGEHDRSZ + 2 * i) v"

definition IS_LEAF :: "mem \<Rightarrow> nat \<Rightarrow> bool" where "IS_LEAF m mp \<longleftrightarrow> mp_flags m mp AND P_LEAF \<noteq> 0"
definition IS_LEAF2 :: "mem \<Rightarrow> nat \<Rightarrow> bool" where "IS_LEAF2 m mp \<longleftrightarrow> mp_flags m mp AND P_LEAF2 \<noteq> 0"
definition IS_BRANCH :: "mem \<Rightarrow> nat \<Rightarrow> bool" where "IS_BRANCH m mp \<longleftrightarrow> mp_flags m mp AND P_BRANCH \<noteq> 0"

definition page_numkeys :: "mem \<Rightarrow> nat \<Rightarrow> nat" where
  "page_numkeys m mp = unat (mp_lower m mp) div 2"

definition page_room :: "mem \<Rightarrow> nat \<Rightarrow> u32" where
  "page_room m mp = word_of_int (int (unat (mp_upper m mp)) - int (unat (mp_lower m mp)))"

definition page_used :: "menv \<Rightarrow> mem \<Rightarrow> nat \<Rightarrow> u32" where
  "page_used env m mp = page_space env - page_room m mp"

definition page_data :: "nat \<Rightarrow> nat" where "page_data mp = mp + PAGEHDRSZ"

definition page_node :: "mem \<Rightarrow> nat \<Rightarrow> nat \<Rightarrow> nat" where
  "page_node m mp i = mp + unat (mp_ptrs m mp i) + PAGEHDRSZ"

definition page_leaf2key :: "mem \<Rightarrow> nat \<Rightarrow> nat \<Rightarrow> nat" where
  "page_leaf2key m mp i = mp + PAGEHDRSZ + i * unat (mp_leaf2_ksize m mp)"

subsection \<open>The fields of a node\<close>

text \<open>
  \<open>MDBX_node\<close> on a little-endian machine: size or page number, flags, a spare byte, key length,
  then key and data.  The accessors go through the unaligned loads with alignment 1.
\<close>

definition node_pgno :: "mem \<Rightarrow> nat \<Rightarrow> u32" where "node_pgno m node = unaligned_peek_u32 True 1 m node"
definition node_ds :: "mem \<Rightarrow> nat \<Rightarrow> nat" where "node_ds m node = unat (unaligned_peek_u32 True 1 m node)"
definition node_flags :: "mem \<Rightarrow> nat \<Rightarrow> u8" where "node_flags m node = ld8 m (node + 4)"
definition node_extra :: "mem \<Rightarrow> nat \<Rightarrow> u8" where "node_extra m node = ld8 m (node + 5)"
definition node_ks :: "mem \<Rightarrow> nat \<Rightarrow> nat" where "node_ks m node = unat (unaligned_peek_u16 True 1 m (node + 6))"

definition node_set_pgno :: "mem \<Rightarrow> nat \<Rightarrow> u32 \<Rightarrow> mem" where
  "node_set_pgno m node pgno = unaligned_poke_u32 True 1 m node pgno"
definition node_set_ds :: "mem \<Rightarrow> nat \<Rightarrow> nat \<Rightarrow> mem" where
  "node_set_ds m node n = unaligned_poke_u32 True 1 m node (of_nat n)"
definition node_set_flags :: "mem \<Rightarrow> nat \<Rightarrow> u8 \<Rightarrow> mem" where
  "node_set_flags m node flags = st8 m (node + 4) flags"
definition node_set_extra :: "mem \<Rightarrow> nat \<Rightarrow> u8 \<Rightarrow> mem" where
  "node_set_extra m node v = st8 m (node + 5) v"
definition node_set_ks :: "mem \<Rightarrow> nat \<Rightarrow> nat \<Rightarrow> mem" where
  "node_set_ks m node n = unaligned_poke_u16 True 1 m (node + 6) (of_nat n)"

definition node_key :: "nat \<Rightarrow> nat" where "node_key node = node + NODESIZE"
definition node_data :: "mem \<Rightarrow> nat \<Rightarrow> nat" where "node_data m node = node_key node + node_ks m node"

definition peek_pgno :: "mem \<Rightarrow> nat \<Rightarrow> u32" where "peek_pgno m ptr = unaligned_peek_u32 True 1 m ptr"
definition poke_pgno :: "mem \<Rightarrow> nat \<Rightarrow> u32 \<Rightarrow> mem" where "poke_pgno m ptr pgno = unaligned_poke_u32 True 1 m ptr pgno"
definition node_largedata_pgno :: "mem \<Rightarrow> nat \<Rightarrow> u32" where
  "node_largedata_pgno m node = peek_pgno m (node_data m node)"

definition get_key :: "mem \<Rightarrow> nat \<Rightarrow> mdbx_val" where
  "get_key m node = \<lparr>iov_base = node_key node, iov_len = of_nat (node_ks m node)\<rparr>"

definition get_key_optional :: "mem \<Rightarrow> nat \<Rightarrow> mdbx_val option \<Rightarrow> mdbx_val option" where
  "get_key_optional m node keyptr = map_option (\<lambda>k. get_key m node) keyptr"

lemmas page_field_defs = mp_leaf2_ksize_def mp_flags_def mp_lower_def mp_upper_def mp_pages_def mp_pgno_def mp_ptrs_def
  set_flags_def set_lower_def set_upper_def set_ptr_def

lemmas node_field_defs = node_pgno_def node_ds_def node_flags_def node_extra_def node_ks_def node_set_pgno_def
  node_set_ds_def node_set_flags_def node_set_extra_def node_set_ks_def node_key_def node_data_def peek_pgno_def poke_pgno_def
  unaligned_peek_eq unaligned_poke_eq

subsection \<open>Copying bytes\<close>

definition memmove :: "mem \<Rightarrow> nat \<Rightarrow> nat \<Rightarrow> nat \<Rightarrow> mem" where
  "memmove m dst src n = wr_bytes m dst (rd_bytes m src n)"

subsection \<open>The cursor\<close>

text \<open>
  What the operations here use of \<open>MDBX_cursor\<close> and of the table and transaction behind it: the
  page and index at the top of its stack, the table's key size and flags, whether the
  transaction is marked with an error, its front id, whether the cursor is one over
  duplicates, and the page counts of the table (and of the outer table).
\<close>

record tree_cursor =
  mc_page :: nat
  mc_ki :: u16
  md_xsize :: u32
  md_flags :: u16
  mt_error :: bool
  mt_front :: u64
  mc_sub :: bool
  md_branch_pages :: u32
  md_leaf_pages :: u32
  md_overflow_pages :: u32
  outer_branch_pages :: u32
  outer_leaf_pages :: u32

subsection \<open>Adding a node\<close>

text \<open>\<open>mdbx_page_alloc\<close>, by which \<open>mdbx_page_new\<close> gets its pages: error code, address, memory.\<close>

type_synonym page_allocator = "mem \<Rightarrow> u32 \<Rightarrow> int \<times> nat \<times> mem"

definition mdbx_page_new ::
    "menv \<Rightarrow> page_allocator \<Rightarrow> u16 \<Rightarrow> u32 \<Rightarrow> tree_cursor \<Rightarrow> mem \<Rightarrow> int \<times> nat \<times> tree_cursor \<times> mem" where
  "mdbx_page_new env mdbx_page_alloc flags npages mc m =
     (let (err, page, m) = mdbx_page_alloc m npages
      in if err \<noteq> 0 then (err, page, mc, m)
         else (let m = set_flags m page flags;
                   m = st64 m page (mt_front mc)
               in if flags AND P_OVERFLOW = 0
                  then (let is_branch = ucast (flags AND P_BRANCH) :: u32;
                            m = set_lower m page 0;
                            m = set_upper m page (ucast (me_psize env - of_nat PAGEHDRSZ));
                            mc = mc\<lparr>md_branch_pages := md_branch_pages mc + is_branch,
                                    md_leaf_pages := md_leaf_pages mc + (1 - is_branch)\<rparr>;
                            mc = (if mc_sub mc
                                  then mc\<lparr>outer_branch_pages := outer_branch_pages mc + is_branch,
                                          outer_leaf_pages := outer_leaf_pages mc + (1 - is_branch)\<rparr>
                                  else mc)
                        in (err, page, mc, m))
                  else (let mc = mc\<lparr>md_overflow_pages := md_overflow_pages mc + npages\<rparr>;
                            m = st32 m (page + 12) npages
                        in (err, page, mc, m))))"

definition mdbx_node_add_leaf2 :: "nat \<Rightarrow> mdbx_val \<Rightarrow> tree_cursor \<Rightarrow> mem \<Rightarrow> int \<times> tree_cursor \<times> mem" where
  "mdbx_node_add_leaf2 indx key mc m =
     (let mp = mc_page mc;
          ksize = unat (md_xsize mc);
          nkeys = page_numkeys m mp;
          lower = int (unat (mp_lower m mp)) + int sizeof_indx;
          upper = int (unat (mp_upper m mp)) - (int ksize - int sizeof_indx)
      in if lower > upper then (error_code MDBX_PAGE_FULL, mc\<lparr>mt_error := True\<rparr>, m)
         else (let m = set_lower m mp (word_of_int lower);
                   m = set_upper m mp (word_of_int upper);
                   ptr = page_leaf2key m mp indx;
                   diff = nkeys - indx;
                   m = (if diff > 0 then memmove m (ptr + ksize) ptr (diff * ksize) else m);
                   m = memmove m ptr (iov_base key) ksize
               in (0, mc, m)))"

text \<open>\<open>for (i = nkeys; i > indx; --i) mp->mp_ptrs[i] = mp->mp_ptrs[i - 1]\<close>.\<close>

fun shift_ptrs :: "mem \<Rightarrow> nat \<Rightarrow> nat \<Rightarrow> nat \<Rightarrow> mem" where
  "shift_ptrs m mp 0 indx = m"
| "shift_ptrs m mp (Suc i) indx =
     (if Suc i > indx then shift_ptrs (set_ptr m mp (Suc i) (mp_ptrs m mp i)) mp i indx else m)"

text \<open>
  The part that \<open>mdbx_node_add_branch\<close> and \<open>mdbx_node_add_leaf\<close> share: the higher offsets move
  up, and the new node gets room below the others; \<^const>\<open>None\<close> when there is none.
\<close>

definition open_slot :: "nat \<Rightarrow> nat \<Rightarrow> nat \<Rightarrow> mem \<Rightarrow> bool \<times> mem" where
  "open_slot mp indx node_bytes m =
     (let nkeys = page_numkeys m mp;
          m = shift_ptrs m mp nkeys indx;
          lower = int (unat (mp_lower m mp)) + int sizeof_indx;
          upper = int (unat (mp_upper m mp)) - (int node_bytes - int sizeof_indx)
      in if lower > upper then (False, m)
         else (let m = set_lower m mp (word_of_int lower);
                   m = set_upper m mp (word_of_int upper);
                   m = set_ptr m mp indx (word_of_int upper)
               in (True, m)))"

text \<open>The result is \<^const>\<open>None\<close> for a key that fails the assertion in \<open>branch_size\<close>.\<close>

definition mdbx_node_add_branch ::
    "menv \<Rightarrow> nat \<Rightarrow> mdbx_val option \<Rightarrow> u32 \<Rightarrow> tree_cursor \<Rightarrow> mem \<Rightarrow> (int \<times> tree_cursor \<times> mem) option" where
  "mdbx_node_add_branch env indx key pgno mc m =
     (case branch_size env key of
        None \<Rightarrow> None
      | Some branch_bytes \<Rightarrow>
          (let mp = mc_page mc; (ok, m) = open_slot mp indx branch_bytes m
           in if \<not> ok then Some (error_code MDBX_PAGE_FULL, mc\<lparr>mt_error := True\<rparr>, m)
              else (let node = page_node m mp indx;
                        m = node_set_pgno m node pgno;
                        m = node_set_flags m node 0;
                        m = node_set_extra m node 0;
                        m = node_set_ks m node 0;
                        m = (case key of
                               None \<Rightarrow> m
                             | Some k \<Rightarrow>
                                 (let m = node_set_ks m node (unat (iov_len k))
                                  in memmove m (node_key node) (iov_base k) (unat (iov_len k))))
                    in Some (0, mc, m))))"

text \<open>
  \<open>mdbx_node_add_leaf\<close>; \<open>flags\<close> are those of the node with \<open>MDBX_RESERVE\<close> among them.  The last
  component is \<open>data\<close>, whose address a reservation sets.
\<close>

definition RESERVE_FLAG :: u32 where "RESERVE_FLAG = 0x10000"

definition large_node_bytes :: "mdbx_val \<Rightarrow> nat" where
  "large_node_bytes key = node_size_len (unat (iov_len key)) 0 + sizeof_pgno + sizeof_indx"

definition leaf_placement ::
    "menv \<Rightarrow> page_allocator \<Rightarrow> mdbx_val \<Rightarrow> mdbx_val \<Rightarrow> u32 \<Rightarrow> tree_cursor \<Rightarrow> mem \<Rightarrow>
     int \<times> nat option \<times> u32 \<times> nat \<times> tree_cursor \<times> mem" where
  "leaf_placement env mdbx_page_alloc key data flags mc m =
     (if flags AND ucast F_BIGDATA \<noteq> 0 then (0, None, flags, large_node_bytes key, mc, m)
      else if node_size (Some key) (Some data) > unat (me_leaf_nodemax env)
      then if md_flags mc AND ucast MDBX_DUPSORT \<noteq> 0 then (error_code MDBX_PROBLEM, None, flags, 0, mc, m)
           else if flags AND ucast (F_DUPDATA OR F_SUBDATA) \<noteq> 0 then (error_code MDBX_PROBLEM, None, flags, 0, mc, m)
           else (let (err, page, mc, m) =
                       mdbx_page_new env mdbx_page_alloc P_OVERFLOW (number_of_ovpages env (iov_len data)) mc m
                 in if err \<noteq> 0 then (err, None, flags, 0, mc, m)
                    else (0, Some page, flags OR ucast F_BIGDATA, large_node_bytes key, mc, m))
      else (0, None, flags, node_size (Some key) (Some data) + sizeof_indx, mc, m))"

definition put_node_data ::
    "nat option \<Rightarrow> u32 \<Rightarrow> nat \<Rightarrow> mdbx_val \<Rightarrow> mem \<Rightarrow> mem \<times> mdbx_val" where
  "put_node_data largepage flags nodedata data m =
     (case largepage of
        None \<Rightarrow>
          (if flags AND ucast F_BIGDATA \<noteq> 0 then (memmove m nodedata (iov_base data) sizeof_pgno, data)
           else if flags AND RESERVE_FLAG \<noteq> 0 then (m, data\<lparr>iov_base := nodedata\<rparr>)
           else if nodedata \<noteq> iov_base data \<and> iov_len data \<noteq> 0
           then (memmove m nodedata (iov_base data) (unat (iov_len data)), data)
           else (m, data))
      | Some page \<Rightarrow>
          (let m = poke_pgno m nodedata (mp_pgno m page);
               nodedata = page_data page
           in if flags AND RESERVE_FLAG \<noteq> 0 then (m, data\<lparr>iov_base := nodedata\<rparr>)
              else if nodedata \<noteq> iov_base data \<and> iov_len data \<noteq> 0
              then (memmove m nodedata (iov_base data) (unat (iov_len data)), data)
              else (m, data)))"

definition mdbx_node_add_leaf ::
    "menv \<Rightarrow> page_allocator \<Rightarrow> nat \<Rightarrow> mdbx_val \<Rightarrow> mdbx_val \<Rightarrow> u32 \<Rightarrow> tree_cursor \<Rightarrow> mem \<Rightarrow>
     int \<times> tree_cursor \<times> mem \<times> mdbx_val" where
  "mdbx_node_add_leaf env mdbx_page_alloc indx key data flags mc m =
     (let mp = mc_page mc;
          (err, largepage, flags, node_bytes, mc, m) = leaf_placement env mdbx_page_alloc key data flags mc m
      in if err \<noteq> 0 then (err, mc, m, data)
         else (let (ok, m) = open_slot mp indx node_bytes m
               in if \<not> ok then (error_code MDBX_PAGE_FULL, mc\<lparr>mt_error := True\<rparr>, m, data)
                  else (let node = page_node m mp indx;
                            m = node_set_ks m node (unat (iov_len key));
                            m = node_set_flags m node (ucast flags);
                            m = node_set_extra m node 0;
                            m = node_set_ds m node (unat (iov_len data));
                            m = memmove m (node_key node) (iov_base key) (unat (iov_len key));
                            (m, data) = put_node_data largepage flags (node_data m node) data m
                        in (0, mc, m, data))))"

subsection \<open>Deleting a node\<close>

definition node_del_leaf2 :: "nat \<Rightarrow> nat \<Rightarrow> nat \<Rightarrow> mem \<Rightarrow> mem" where
  "node_del_leaf2 mp indx ksize m =
     (let nkeys = page_numkeys m mp;
          diff = nkeys - 1 - indx;
          base = page_leaf2key m mp indx;
          m = (if diff \<noteq> 0 then memmove m base (base + ksize) (diff * ksize) else m);
          m = set_lower m mp (mp_lower m mp - of_nat sizeof_indx)
      in set_upper m mp (mp_upper m mp + (of_nat ksize - of_nat sizeof_indx)))"

text \<open>The bytes that the node at \<open>indx\<close> occupies, before rounding.\<close>

definition node_payload :: "mem \<Rightarrow> bool \<Rightarrow> nat \<Rightarrow> nat" where
  "node_payload m leaf node =
     (if leaf then if node_flags m node AND F_BIGDATA \<noteq> 0 then sizeof_pgno else node_ds m node else 0)"

definition node_bytes_used :: "mem \<Rightarrow> bool \<Rightarrow> nat \<Rightarrow> nat" where
  "node_bytes_used m leaf node = even_ceil (NODESIZE + node_ks m node + node_payload m leaf node)"

text \<open>The loop over \<open>mp_ptrs\<close>: index read, index written.\<close>

fun close_ptrs :: "mem \<Rightarrow> nat \<Rightarrow> nat \<Rightarrow> u16 \<Rightarrow> u16 \<Rightarrow> nat \<Rightarrow> nat \<Rightarrow> nat \<Rightarrow> mem" where
  "close_ptrs m mp indx ptr sz i j 0 = m"
| "close_ptrs m mp indx ptr sz i j (Suc todo) =
     (if i \<noteq> indx
      then (let m = set_ptr m mp j (mp_ptrs m mp i);
                m = (if mp_ptrs m mp i < ptr then set_ptr m mp j (mp_ptrs m mp j + sz) else m)
            in close_ptrs m mp indx ptr sz (i + 1) (j + 1) todo)
      else close_ptrs m mp indx ptr sz (i + 1) j todo)"

definition mdbx_node_del :: "nat \<Rightarrow> tree_cursor \<Rightarrow> mem \<Rightarrow> mem" where
  "mdbx_node_del ksize mc m =
     (let mp = mc_page mc;
          indx = unat (mc_ki mc);
          nkeys = page_numkeys m mp
      in if IS_LEAF2 m mp then node_del_leaf2 mp indx ksize m
         else (let node = page_node m mp indx;
                   sz = node_bytes_used m (IS_LEAF m mp) node;
                   ptr = mp_ptrs m mp indx;
                   m = close_ptrs m mp indx ptr (of_nat sz) 0 0 nkeys;
                   base = mp + unat (mp_upper m mp) + PAGEHDRSZ;
                   m = memmove m (base + sz) base (unat ptr - unat (mp_upper m mp));
                   m = set_lower m mp (mp_lower m mp - of_nat sizeof_indx)
               in set_upper m mp (mp_upper m mp + of_nat sz)))"

subsection \<open>Shrinking a sub-page\<close>

text \<open>The loop of \<open>mdbx_node_shrink\<close> that moves the offsets of the sub-page, from the last down.\<close>

fun move_sub_ptrs :: "mem \<Rightarrow> nat \<Rightarrow> nat \<Rightarrow> u16 \<Rightarrow> nat \<Rightarrow> mem" where
  "move_sub_ptrs m sp xp delta 0 = m"
| "move_sub_ptrs m sp xp delta (Suc i) =
     move_sub_ptrs (set_ptr m xp i (mp_ptrs m sp i - delta)) sp xp delta i"

fun raise_ptrs :: "mem \<Rightarrow> nat \<Rightarrow> u16 \<Rightarrow> u16 \<Rightarrow> nat \<Rightarrow> mem" where
  "raise_ptrs m mp ptr delta 0 = m"
| "raise_ptrs m mp ptr delta (Suc i) =
     raise_ptrs (if mp_ptrs m mp i \<le> ptr then set_ptr m mp i (mp_ptrs m mp i + delta) else m) mp ptr delta i"

definition mdbx_node_shrink :: "nat \<Rightarrow> nat \<Rightarrow> mem \<Rightarrow> mem" where
  "mdbx_node_shrink mp indx m =
     (let node = page_node m mp indx;
          sp = node_data m node;
          delta = unat (page_room m sp);
          delta = (if IS_LEAF2 m sp then EVEN_FLOOR delta else delta)
      in if IS_LEAF2 m sp \<and> delta = 0 then m
         else (let m = (if IS_LEAF2 m sp then m
                        else move_sub_ptrs m sp (sp + delta) (of_nat delta) (page_numkeys m sp));
                   nsize = node_ds m node - delta;
                   len = (if IS_LEAF2 m sp then nsize else PAGEHDRSZ);
                   m = set_upper m sp (mp_lower m sp);
                   m = st32 m (sp + 16) (mp_pgno m mp);
                   m = node_set_ds m node nsize;
                   base = mp + unat (mp_upper m mp) + PAGEHDRSZ;
                   m = memmove m (base + delta) base (sp + len - base);
                   ptr = mp_ptrs m mp indx;
                   m = raise_ptrs m mp ptr (of_nat delta) (page_numkeys m mp)
               in set_upper m mp (mp_upper m mp + of_nat delta)))"

end
