(* ===== verification/Page_Nodes.thy ===== *)
theory Page_Nodes
  imports Tree_Page
begin

text \<open>
  What the page operations of \<open>Tree_Page\<close> do to the list of nodes of a page: the layout
  invariant of a page with nodes, its nodes as values, and that adding and deleting a node are
  insertion and removal in this list, with the layout kept.
\<close>

subsection \<open>Blocks that tile the end of a page\<close>

text \<open>
  The offsets \<open>ps\<close> are those of blocks of sizes \<open>sz\<close>: all of them within the space from \<open>u\<close> to
  \<open>S\<close>, at even offsets, without overlap, and without a gap.
\<close>

definition blocks_ok :: "nat \<Rightarrow> nat \<Rightarrow> (nat \<Rightarrow> nat) \<Rightarrow> nat list \<Rightarrow> bool" where
  "blocks_ok S u sz ps \<longleftrightarrow>
     u \<le> S \<and> (\<forall>p \<in> set ps. p mod 2 = 0 \<and> u \<le> p \<and> 0 < sz p \<and> p + sz p \<le> S) \<and>
     sorted_wrt (\<lambda>p q. p + sz p \<le> q \<or> q + sz q \<le> p) ps \<and> sum_list (map sz ps) = S - u"

lemma blocks_ok_block:
  "blocks_ok S u sz ps \<Longrightarrow> p \<in> set ps \<Longrightarrow> p mod 2 = 0 \<and> u \<le> p \<and> 0 < sz p \<and> p + sz p \<le> S"
  by (simp add: blocks_ok_def)

lemma blocks_ok_cong:
  assumes "blocks_ok S u sz ps" "\<And>p. p \<in> set ps \<Longrightarrow> sz' p = sz p"
  shows "blocks_ok S u sz' ps"
proof -
  have "map sz' ps = map sz ps" using assms(2) by simp
  then have "sum_list (map sz' ps) = S - u" using assms(1) by (simp only: blocks_ok_def)
  moreover have "sorted_wrt (\<lambda>p q. p + sz' p \<le> q \<or> q + sz' q \<le> p) ps"
    using assms by (auto simp: blocks_ok_def intro: sorted_wrt_mono_rel [rotated])
  ultimately show ?thesis using assms by (simp add: blocks_ok_def)
qed

lemma blocks_insert:
  assumes "blocks_ok S u sz ps" "k \<le> u" "(u - k) mod 2 = 0" "0 < k"
    and "\<And>p. p \<in> set ps \<Longrightarrow> sz' p = sz p" "sz' (u - k) = k" "i \<le> length ps"
  shows "blocks_ok S (u - k) sz' (take i ps @ (u - k) # drop i ps)"
proof -
  have ok: "blocks_ok S u sz' ps" using blocks_ok_cong [OF assms(1,5)] .
  have s: "sorted_wrt (\<lambda>p q. p + sz' p \<le> q \<or> q + sz' q \<le> p) (take i ps @ drop i ps)"
    using ok by (simp add: blocks_ok_def)
  have "\<forall>p \<in> set (take i ps) \<union> set (drop i ps). u \<le> p"
    using ok by (auto simp: blocks_ok_def dest: in_set_takeD in_set_dropD)
  then have "sorted_wrt (\<lambda>p q. p + sz' p \<le> q \<or> q + sz' q \<le> p) (take i ps @ (u - k) # drop i ps)"
    using s assms(2,6) by (auto simp only: sorted_wrt_append sorted_wrt.simps list.set) fastforce+
  moreover have "sum_list (map sz' (take i ps @ (u - k) # drop i ps)) = k + sum_list (map sz' ps)"
  proof -
    have "sum_list (map sz' ps) = sum_list (map sz' (take i ps @ drop i ps))" by simp
    then show ?thesis using assms(6) by (simp only: map_append sum_list_append list.map sum_list.Cons)
  qed
  moreover have "p mod 2 = 0 \<and> u - k \<le> p \<and> 0 < sz' p \<and> p + sz' p \<le> S"
    if "p \<in> set (take i ps @ (u - k) # drop i ps)" for p
  proof (cases "p = u - k")
    case False
    then have "p \<in> set ps" using that by (auto dest: in_set_takeD in_set_dropD)
    then show ?thesis using blocks_ok_block [OF ok] by fastforce
  qed (use ok assms(2-4,6) in \<open>simp add: blocks_ok_def\<close>)
  ultimately show ?thesis
    using ok assms(2) unfolding blocks_ok_def by (intro conjI ballI) auto
qed

text \<open>Removing a block moves the blocks below it up by its size.\<close>

definition raised :: "nat \<Rightarrow> nat \<Rightarrow> nat \<Rightarrow> nat" where
  "raised t k p = (if p < t then p + k else p)"

lemma blocks_disjoint:
  assumes "blocks_ok S u sz ps" "i < length ps" "p \<in> set (take i ps @ drop (Suc i) ps)"
  shows "p + sz p \<le> ps ! i \<or> ps ! i + sz (ps ! i) \<le> p"
proof -
  have "ps = take i ps @ ps ! i # drop (Suc i) ps" using assms(2) by (rule id_take_nth_drop)
  then have "sorted_wrt (\<lambda>p q. p + sz p \<le> q \<or> q + sz q \<le> p) (take i ps @ ps ! i # drop (Suc i) ps)"
    using assms(1) by (simp add: blocks_ok_def)
  then show ?thesis using assms(3) by (auto simp: sorted_wrt_append)
qed

lemma blocks_remove:
  assumes "blocks_ok S u sz ps" "i < length ps" "t = ps ! i" "k = sz t" "k mod 2 = 0"
    and "\<And>p. p \<in> set (take i ps @ drop (Suc i) ps) \<Longrightarrow> sz' (raised t k p) = sz p"
  shows "blocks_ok S (u + k) sz' (map (raised t k) (take i ps @ drop (Suc i) ps))"
proof -
  let ?r = "take i ps @ drop (Suc i) ps"
  have split: "ps = take i ps @ t # drop (Suc i) ps" using assms(2,3) id_take_nth_drop by blast
  have sub: "p \<in> set ps" if "p \<in> set ?r" for p using that by (auto dest: in_set_takeD in_set_dropD)
  have t: "t \<in> set ps" using assms(2,3) by simp
  note tb = blocks_ok_block [OF assms(1) t]
  note dis = blocks_disjoint [OF assms(1,2), folded assms(3), folded assms(4)]
  have "sum_list (map sz ps) = k + sum_list (map sz ?r)"
    using assms(4) by (subst split) simp
  moreover have "map sz' (map (raised t k) ?r) = map sz ?r" using assms(6) by simp
  ultimately have sum: "sum_list (map sz' (map (raised t k) ?r)) = S - (u + k)"
    using assms(1) by (simp only: blocks_ok_def) arith
  have "sorted_wrt (\<lambda>p q. p + sz p \<le> q \<or> q + sz q \<le> p) ?r"
  proof -
    have "sorted_wrt (\<lambda>p q. p + sz p \<le> q \<or> q + sz q \<le> p) (take i ps @ t # drop (Suc i) ps)"
      using assms(1) split by (simp add: blocks_ok_def)
    then show ?thesis by (simp add: sorted_wrt_append)
  qed
  then have "sorted_wrt (\<lambda>p q. raised t k p + sz' (raised t k p) \<le> raised t k q \<or>
      raised t k q + sz' (raised t k q) \<le> raised t k p) ?r"
  proof (rule sorted_wrt_mono_rel [rotated])
    fix p q
    assume p: "p \<in> set ?r" and q: "q \<in> set ?r" and d: "p + sz p \<le> q \<or> q + sz q \<le> p"
    show "raised t k p + sz' (raised t k p) \<le> raised t k q \<or> raised t k q + sz' (raised t k q) \<le> raised t k p"
      using d dis [OF p] dis [OF q] blocks_ok_block [OF assms(1) sub [OF p]] blocks_ok_block [OF assms(1) sub [OF q]]
      unfolding assms(6) [OF p] assms(6) [OF q] by (auto simp: raised_def)
  qed
  then have sorted: "sorted_wrt (\<lambda>p q. p + sz' p \<le> q \<or> q + sz' q \<le> p) (map (raised t k) ?r)"
    by (simp only: sorted_wrt_map)
  have each: "raised t k p mod 2 = 0 \<and> u + k \<le> raised t k p \<and> 0 < sz' (raised t k p) \<and>
      raised t k p + sz' (raised t k p) \<le> S" if p: "p \<in> set ?r" for p
    using blocks_ok_block [OF assms(1) sub [OF p]] dis [OF p] tb assms(4,5) unfolding assms(6) [OF p]
    by (auto simp: raised_def)
  have "u + k \<le> S" using tb assms(4) by simp
  moreover have "\<forall>p \<in> set (map (raised t k) ?r). p mod 2 = 0 \<and> u + k \<le> p \<and> 0 < sz' p \<and> p + sz' p \<le> S"
    unfolding set_map by (intro ballI, elim imageE, hypsubst, rule each)
  ultimately show ?thesis unfolding blocks_ok_def using sum sorted by (intro conjI)
qed

subsection \<open>The array of offsets\<close>

lemma ld_cong:
  "(\<And>x. a \<le> x \<Longrightarrow> x < a + 2 \<Longrightarrow> m' x = m x) \<Longrightarrow> ld16 m' a = ld16 m a"
  "(\<And>x. a \<le> x \<Longrightarrow> x < a + 4 \<Longrightarrow> m' x = m x) \<Longrightarrow> ld32 m' a = ld32 m a"
  by (simp_all add: ld16_def ld32_def cong: rd_bytes_cong)

lemma set_ptr_ptrs: "mp_ptrs (set_ptr m mp i v) mp j = (if j = i then v else mp_ptrs m mp j)"
proof (cases "i = j")
  case False
  then have "j < i \<or> i < j" by linarith
  then show ?thesis using False by (auto simp: mp_ptrs_def set_ptr_def st16_def mem_simps)
qed (simp add: mp_ptrs_def set_ptr_def mem_simps)

lemma set_ptr_other: "x < mp + 20 + 2 * i \<or> mp + 22 + 2 * i \<le> x \<Longrightarrow> set_ptr m mp i v x = m x"
  by (auto simp: set_ptr_def st16_def PAGEHDRSZ_def intro!: wr_bytes_other)

lemma shift_ptrs_ptrs:
  "mp_ptrs (shift_ptrs m mp n indx) mp j = (if indx < j \<and> j \<le> n then mp_ptrs m mp (j - 1) else mp_ptrs m mp j)"
proof (induction n arbitrary: m)
  case (Suc n)
  then show ?case by (auto simp: set_ptr_ptrs le_Suc_eq)
qed simp

lemma shift_ptrs_other:
  "x < mp + 22 + 2 * indx \<or> mp + 22 + 2 * n \<le> x \<Longrightarrow> shift_ptrs m mp n indx x = m x"
proof (induction n arbitrary: m)
  case (Suc n)
  then show ?case by (auto simp: set_ptr_other)
qed simp

text \<open>The loop of \<open>mdbx_node_del\<close>: past the removed entry, and from the start.\<close>

lemma close_ptrs_after:
  assumes "indx \<le> j"
  shows "mp_ptrs (close_ptrs m mp indx ptr sz (Suc j) j todo) mp k =
      (if j \<le> k \<and> k < j + todo
       then if mp_ptrs m mp (Suc k) < ptr then mp_ptrs m mp (Suc k) + sz else mp_ptrs m mp (Suc k)
       else mp_ptrs m mp k)"
  using assms
proof (induction todo arbitrary: m j)
  case (Suc todo)
  then show ?case by (auto simp: set_ptr_ptrs Let_def less_Suc_eq dest: le_neq_implies_less)
qed auto

lemma close_ptrs_ptrs:
  assumes "j \<le> indx" "indx < j + todo"
  shows "mp_ptrs (close_ptrs m mp indx ptr sz j j todo) mp k =
      (if j \<le> k \<and> k < j + todo - 1
       then let q = mp_ptrs m mp (if k < indx then k else Suc k) in if q < ptr then q + sz else q
       else mp_ptrs m mp k)"
  using assms
proof (induction todo arbitrary: m j)
  case (Suc todo)
  show ?case
  proof (cases "j = indx")
    case True
    then show ?thesis by (auto simp: close_ptrs_after Let_def)
  next
    case False
    then have IH: "mp_ptrs (close_ptrs m' mp indx ptr sz (Suc j) (Suc j) todo) mp k =
      (if Suc j \<le> k \<and> k < Suc j + todo - 1
       then let q = mp_ptrs m' mp (if k < indx then k else Suc k) in if q < ptr then q + sz else q
       else mp_ptrs m' mp k)" for m'
      using Suc.prems by (intro Suc.IH) simp_all
    show ?thesis using False Suc.prems by (simp add: IH set_ptr_ptrs Let_def)
  qed
qed simp

lemma close_ptrs_other:
  "x < mp + 20 \<or> mp + 20 + 2 * (j + todo) \<le> x \<Longrightarrow> close_ptrs m mp indx ptr sz i j todo x = m x"
proof (induction todo arbitrary: m i j)
  case (Suc todo)
  then show ?case by (auto simp: set_ptr_other Let_def)
qed simp

subsection \<open>Nodes as values\<close>

record tree_node =
  tn_word :: u32
  tn_flags :: u8
  tn_extra :: u8
  tn_key :: "u8 list"
  tn_data :: "u8 list"

text \<open>
  \<open>tn_word\<close> is the size of the data in a leaf and the number of the child page in a branch;
  \<open>tn_data\<close> is the data in the node, for a value on large pages their number.
\<close>

definition node_at :: "mem \<Rightarrow> bool \<Rightarrow> nat \<Rightarrow> tree_node" where
  "node_at m leaf a =
     \<lparr>tn_word = ld32 m a, tn_flags = ld8 m (a + 4), tn_extra = ld8 m (a + 5),
      tn_key = rd_bytes m (a + 8) (node_ks m a), tn_data = rd_bytes m (node_data m a) (node_payload m leaf a)\<rparr>"

definition page_slots :: "mem \<Rightarrow> nat \<Rightarrow> nat list" where
  "page_slots m mp = map (\<lambda>i. unat (mp_ptrs m mp i)) [0..<page_numkeys m mp]"

definition slot_size :: "mem \<Rightarrow> nat \<Rightarrow> nat \<Rightarrow> nat" where
  "slot_size m mp p = node_bytes_used m (IS_LEAF m mp) (mp + PAGEHDRSZ + p)"

definition slot_node :: "mem \<Rightarrow> nat \<Rightarrow> nat \<Rightarrow> tree_node" where
  "slot_node m mp p = node_at m (IS_LEAF m mp) (mp + PAGEHDRSZ + p)"

definition page_nodes :: "mem \<Rightarrow> nat \<Rightarrow> tree_node list" where
  "page_nodes m mp = map (slot_node m mp) (page_slots m mp)"

text \<open>
  A page with \<open>space\<close> bytes after its header: the offsets fill the bytes up to \<open>mp_lower\<close>, the
  nodes those from \<open>mp_upper\<close> on.
\<close>

definition page_wf :: "nat \<Rightarrow> mem \<Rightarrow> nat \<Rightarrow> bool" where
  "page_wf space m mp \<longleftrightarrow>
     space < 65536 \<and> mp_flags m mp AND P_LEAF2 = 0 \<and> unat (mp_lower m mp) mod 2 = 0 \<and>
     mp_lower m mp \<le> mp_upper m mp \<and> unat (mp_upper m mp) mod 2 = 0 \<and>
     blocks_ok space (unat (mp_upper m mp)) (slot_size m mp) (page_slots m mp)"

lemma length_page_slots [simp]: "length (page_slots m mp) = page_numkeys m mp"
  by (simp add: page_slots_def)

lemma length_page_nodes [simp]: "length (page_nodes m mp) = page_numkeys m mp"
  by (simp add: page_nodes_def)

lemma page_slots_nth: "i < page_numkeys m mp \<Longrightarrow> page_slots m mp ! i = unat (mp_ptrs m mp i)"
  by (simp add: page_slots_def)

lemma page_nodes_nth: "i < page_numkeys m mp \<Longrightarrow> page_nodes m mp ! i = node_at m (IS_LEAF m mp) (page_node m mp i)"
  by (simp add: page_nodes_def slot_node_def page_slots_nth page_node_def add_ac)

definition raw_bytes :: "mem \<Rightarrow> bool \<Rightarrow> nat \<Rightarrow> nat" where
  "raw_bytes m leaf a = NODESIZE + node_ks m a + node_payload m leaf a"

lemma node_bytes_used_raw: "node_bytes_used m leaf a = even_ceil (raw_bytes m leaf a)"
  by (simp add: node_bytes_used_def raw_bytes_def)

lemma node_bytes_used_facts:
  "raw_bytes m leaf a \<le> node_bytes_used m leaf a" "8 \<le> node_bytes_used m leaf a"
  "node_bytes_used m leaf a mod 2 = 0"
  using even_ceil_bounds [of "raw_bytes m leaf a"] by (auto simp: node_bytes_used_raw raw_bytes_def NODESIZE_def)

text \<open>A node copied byte by byte is the same node.\<close>

lemma node_copied:
  assumes "\<And>d. d < node_bytes_used m leaf a \<Longrightarrow> m' (b + d) = m (a + d)"
  shows "node_at m' leaf b = node_at m leaf a" "node_bytes_used m' leaf b = node_bytes_used m leaf a"
proof -
  have byte: "m' (b + d) = m (a + d)" if "d < raw_bytes m leaf a" for d
    using that node_bytes_used_facts(1) by (intro assms) (rule less_le_trans)
  have rd: "rd_bytes m' (b + s) n = rd_bytes m (a + s) n" if "s + n \<le> raw_bytes m leaf a" for s n
    using that by (intro nth_equalityI) (auto simp: add.assoc intro!: byte)
  have r8: "8 \<le> raw_bytes m leaf a" by (simp add: raw_bytes_def NODESIZE_def)
  have w: "ld32 m' b = ld32 m a" using rd [of 0 4] r8 by (simp add: ld32_def)
  have f: "m' (b + 4) = m (a + 4)" "m' (b + 5) = m (a + 5)" using r8 by (auto intro: byte)
  have ks: "node_ks m' b = node_ks m a"
    using rd [of 6 2] r8 by (simp add: node_ks_def unaligned_peek_eq ld16_def)
  then have kd: "node_data m' b = b + (8 + node_ks m a)" "node_data m a = a + (8 + node_ks m a)"
    by (simp_all add: node_data_def node_key_def NODESIZE_def)
  have pl: "node_payload m' leaf b = node_payload m leaf a"
    using w f by (simp add: node_payload_def node_flags_def node_ds_def unaligned_peek_eq ld8_def)
  show "node_bytes_used m' leaf b = node_bytes_used m leaf a" by (simp add: node_bytes_used_def ks pl)
  have "rd_bytes m' (b + 8) (node_ks m a) = rd_bytes m (a + 8) (node_ks m a)"
    by (rule rd) (simp add: raw_bytes_def NODESIZE_def)
  moreover have "rd_bytes m' (b + (8 + node_ks m a)) (node_payload m leaf a) =
      rd_bytes m (a + (8 + node_ks m a)) (node_payload m leaf a)"
    by (rule rd) (simp add: raw_bytes_def NODESIZE_def)
  ultimately show "node_at m' leaf b = node_at m leaf a"
    by (simp add: node_at_def w f ks pl kd ld8_def)
qed

lemma slot_copied:
  assumes "IS_LEAF m' mp = IS_LEAF m mp"
    and "\<And>d. d < slot_size m mp p \<Longrightarrow> m' (mp + PAGEHDRSZ + q + d) = m (mp + PAGEHDRSZ + p + d)"
  shows "slot_size m' mp q = slot_size m mp p" "slot_node m' mp q = slot_node m mp p"
  using node_copied [of m "IS_LEAF m mp" "mp + PAGEHDRSZ + p" m' "mp + PAGEHDRSZ + q"] assms
  by (simp_all add: slot_size_def slot_node_def)

subsection \<open>Inserting a node\<close>

lemma header_other:
  "x < mp + 12 \<or> mp + 14 \<le> x \<Longrightarrow> set_lower m mp v x = m x"
  "x < mp + 14 \<or> mp + 16 \<le> x \<Longrightarrow> set_upper m mp v x = m x"
  by (auto simp: set_lower_def set_upper_def st16_def intro!: wr_bytes_other)

lemma st16_wr [mem_simps]: "ld16 (st16 m a v) b = (if a = b then v else if a + 2 \<le> b \<or> b + 2 \<le> a then ld16 m b else ld16 (st16 m a v) b)"
  by (auto simp: ld_wr_disjoint ld_st_same(2) [unfolded st16_def] st16_def)

lemma header_fields:
  "mp_lower (set_lower m mp v) mp = v" "mp_upper (set_lower m mp v) mp = mp_upper m mp"
  "mp_lower (set_upper m mp v) mp = mp_lower m mp" "mp_upper (set_upper m mp v) mp = v"
  "mp_ptrs (set_lower m mp v) mp i = mp_ptrs m mp i" "mp_ptrs (set_upper m mp v) mp i = mp_ptrs m mp i"
  "mp_lower (set_ptr m mp i v) mp = mp_lower m mp" "mp_upper (set_ptr m mp i v) mp = mp_upper m mp"
  by (simp_all add: page_field_defs PAGEHDRSZ_def st16_wr mem_simps)

lemma fields_cong:
  assumes "\<And>x. mp + k \<le> x \<Longrightarrow> x < mp + k + 2 \<Longrightarrow> m' x = m x"
  shows "k = 10 \<Longrightarrow> mp_flags m' mp = mp_flags m mp" "k = 12 \<Longrightarrow> mp_lower m' mp = mp_lower m mp"
    "k = 14 \<Longrightarrow> mp_upper m' mp = mp_upper m mp" "k = 20 + 2 * i \<Longrightarrow> mp_ptrs m' mp i = mp_ptrs m mp i"
    "k = 10 \<Longrightarrow> IS_LEAF m' mp = IS_LEAF m mp"
  using ld_cong(1) [of "mp + k" m' m, OF assms] by (simp_all add: page_field_defs PAGEHDRSZ_def IS_LEAF_def add.assoc)

text \<open>A page whose header, offsets and nodes are the same bytes is the same page.\<close>

lemma slots_cong:
  assumes "mp_lower m' mp = mp_lower m mp" "\<And>i. i < page_numkeys m mp \<Longrightarrow> mp_ptrs m' mp i = mp_ptrs m mp i"
  shows "page_slots m' mp = page_slots m mp"
  using assms by (simp add: page_slots_def page_numkeys_def)

text \<open>What \<open>open_slot\<close> leaves when there is room: the new offset in its place.\<close>

lemma open_slot_room:
  assumes even: "unat (mp_lower m mp) mod 2 = 0" and nb: "2 \<le> nb"
    and room: "unat (mp_lower m mp) + nb \<le> unat (mp_upper m mp)" and i: "indx \<le> page_numkeys m mp"
  obtains m1 where "open_slot mp indx nb m = (True, m1)"
    "unat (mp_lower m1 mp) = unat (mp_lower m mp) + 2" "unat (mp_upper m1 mp) = unat (mp_upper m mp) + 2 - nb"
    "page_slots m1 mp = take indx (page_slots m mp) @ (unat (mp_upper m mp) + 2 - nb) # drop indx (page_slots m mp)"
    "\<And>x. x < mp + 12 \<or> mp + 16 \<le> x \<and> x < mp + 20 \<or> mp + 22 + unat (mp_lower m mp) \<le> x \<Longrightarrow> m1 x = m x"
proof -
  define n where "n = page_numkeys m mp"
  define lo where "lo = unat (mp_lower m mp)"
  define u where "u = unat (mp_upper m mp) + 2 - nb"
  define m0 where "m0 = shift_ptrs m mp n indx"
  define m1 where "m1 = set_ptr (set_upper (set_lower m0 mp (of_nat (lo + 2))) mp (of_nat u)) mp indx (of_nat u)"
  have lo: "lo = 2 * n" using even by (auto simp: lo_def n_def page_numkeys_def)
  have up: "unat (mp_upper m mp) < 65536" using unsigned_less [of "mp_upper m mp", where 'a = nat] by simp
  have big: "lo + 2 < 65536" "u < 65536" using room nb up by (simp_all add: lo_def u_def)
  have m0: "mp_lower m0 mp = mp_lower m mp" "mp_upper m0 mp = mp_upper m mp"
    unfolding m0_def by (rule fields_cong(2) [where k = 12], rule shift_ptrs_other, auto)
      (rule fields_cong(3) [where k = 14], rule shift_ptrs_other, auto)
  have "open_slot mp indx nb m = (True, m1)"
  proof -
    have "int (unat (mp_lower m0 mp)) + 2 = int (lo + 2)" by (simp add: m0 lo_def)
    moreover have "int (unat (mp_upper m0 mp)) - (int nb - 2) = int u"
      using nb room by (simp add: m0 u_def of_nat_diff)
    moreover have "\<not> int (lo + 2) > int u"
      using room unfolding of_nat_less_iff u_def lo_def by linarith
    ultimately show ?thesis
      unfolding open_slot_def Let_def sizeof_indx_def n_def [symmetric] m0_def [symmetric]
      by (simp add: m1_def add.commute del: of_nat_unat int_nat_eq)
  qed
  moreover have lower1: "unat (mp_lower m1 mp) = lo + 2"
    unfolding m1_def header_fields using big(1) by (intro unat_of_nat_lt) simp
  moreover have "unat (mp_upper m1 mp) = u" using big(2) by (simp add: m1_def header_fields unat_of_nat_lt)
  moreover have "page_slots m1 mp = take indx (page_slots m mp) @ u # drop indx (page_slots m mp)"
  proof (rule nth_equalityI)
    have n1: "page_numkeys m1 mp = Suc n" using lower1 lo by (simp add: page_numkeys_def)
    then show "length (page_slots m1 mp) = length (take indx (page_slots m mp) @ u # drop indx (page_slots m mp))"
      using i by (simp add: n_def)
    fix j
    assume "j < length (page_slots m1 mp)"
    then have j: "j \<le> n" using n1 by simp
    have p: "mp_ptrs m1 mp j = (if j = indx then of_nat u else if indx < j then mp_ptrs m mp (j - 1) else mp_ptrs m mp j)"
      using j by (simp add: m1_def set_ptr_ptrs header_fields m0_def shift_ptrs_ptrs)
    have "page_slots m1 mp ! j = (if j = indx then u else if indx < j then unat (mp_ptrs m mp (j - 1)) else unat (mp_ptrs m mp j))"
      using j n1 big(2) by (simp add: page_slots_nth p unat_of_nat_lt)
    then show "page_slots m1 mp ! j = (take indx (page_slots m mp) @ u # drop indx (page_slots m mp)) ! j"
      using i j by (auto simp: nth_append nth_Cons' page_slots_nth n_def)
  qed
  moreover have "m1 x = m x" if "x < mp + 12 \<or> mp + 16 \<le> x \<and> x < mp + 20 \<or> mp + 22 + lo \<le> x" for x
  proof -
    have "2 * indx \<le> lo" using i lo by (simp add: n_def)
    then have "m1 x = m0 x" using that by (auto simp: m1_def header_other set_ptr_other)
    moreover have "m0 x = m x" using that lo unfolding m0_def by (intro shift_ptrs_other) auto
    ultimately show ?thesis by simp
  qed
  ultimately show ?thesis using that by (simp add: lo_def u_def)
qed

text \<open>
  A node written in the room that \<open>open_slot\<close> made is inserted in the list of nodes, and the page
  keeps its layout.
\<close>

lemma insert_node:
  assumes wf: "page_wf space m mp" and i: "indx \<le> page_numkeys m mp" and nb: "2 < nb" "nb mod 2 = 0"
    and room: "unat (mp_lower m mp) + nb \<le> unat (mp_upper m mp)"
    and slot: "open_slot mp indx nb m = (True, m1)"
    and a: "a = mp + PAGEHDRSZ + (unat (mp_upper m mp) + 2 - nb)"
    and same: "\<And>x. mp \<le> x \<Longrightarrow> x < mp + PAGEHDRSZ + space \<Longrightarrow> x < a \<or> a + (nb - 2) \<le> x \<Longrightarrow> m2 x = m1 x"
    and size: "node_bytes_used m2 (IS_LEAF m mp) a = nb - 2"
  shows "page_wf space m2 mp" "IS_LEAF m2 mp = IS_LEAF m mp" "page_numkeys m2 mp = page_numkeys m mp + 1"
    "page_nodes m2 mp = take indx (page_nodes m mp) @ node_at m2 (IS_LEAF m mp) a # drop indx (page_nodes m mp)"
    "unat (mp_upper m2 mp) + nb = unat (mp_upper m mp) + 2" "unat (mp_lower m2 mp) = unat (mp_lower m mp) + 2"
proof -
  define lo where "lo = unat (mp_lower m mp)"
  define hi where "hi = unat (mp_upper m mp)"
  define u where "u = hi + 2 - nb"
  let ?ps = "page_slots m mp"
  have even: "lo mod 2 = 0" "hi mod 2 = 0" and flags: "mp_flags m mp AND P_LEAF2 = 0" and sp: "space < 65536"
    and ok: "blocks_ok space hi (slot_size m mp) ?ps" and his: "hi \<le> space"
    using wf by (auto simp: page_wf_def lo_def hi_def blocks_ok_def)
  have m1: "unat (mp_lower m1 mp) = lo + 2" "unat (mp_upper m1 mp) = u" "page_slots m1 mp = take indx ?ps @ u # drop indx ?ps"
    "\<And>x. x < mp + 12 \<or> mp + 16 \<le> x \<and> x < mp + 20 \<or> mp + 22 + lo \<le> x \<Longrightarrow> m1 x = m x"
    using open_slot_room [OF even(1) [unfolded lo_def] _ room i] nb(1) slot unfolding lo_def u_def hi_def by auto
  have lu: "lo + 2 \<le> u" "u + (nb - 2) = hi" using room nb(1) by (auto simp: u_def lo_def hi_def)
  have a': "a = mp + 20 + u" by (simp add: a u_def hi_def PAGEHDRSZ_def)
  have hd: "m2 x = m1 x" if "mp \<le> x" "x < mp + 20 + (lo + 2)" for x
    using that lu his by (intro same) (auto simp: a' PAGEHDRSZ_def)
  have m2: "mp_lower m2 mp = mp_lower m1 mp" "mp_upper m2 mp = mp_upper m1 mp"
    using hd by (intro fields_cong(2) [where k = 12] fields_cong(3) [where k = 14]; simp)+
  have flags2: "mp_flags m2 mp = mp_flags m mp"
    using hd m1(4) by (intro fields_cong(1) [where k = 10]; simp)
  then show leaf2: "IS_LEAF m2 mp = IS_LEAF m mp" by (simp add: IS_LEAF_def)
  have n2: "page_numkeys m2 mp = Suc (lo div 2)" by (simp add: page_numkeys_def m2 m1(1))
  have slots: "page_slots m2 mp = take indx ?ps @ u # drop indx ?ps"
    unfolding m1(3) [symmetric]
  proof (rule slots_cong)
    fix j
    assume "j < page_numkeys m1 mp"
    then have "2 * j \<le> lo" using even(1) by (auto simp: page_numkeys_def m1(1))
    then show "mp_ptrs m2 mp j = mp_ptrs m1 mp j" using hd by (intro fields_cong(4) [where k = "20 + 2 * j"]) auto
  qed (rule m2(1))
  have old: "slot_size m2 mp p = slot_size m mp p" "slot_node m2 mp p = slot_node m mp p" if p: "p \<in> set ?ps" for p
  proof -
    have b: "hi \<le> p" "p + slot_size m mp p \<le> space" using blocks_ok_block [OF ok p] by auto
    have "m2 (mp + PAGEHDRSZ + p + d) = m (mp + PAGEHDRSZ + p + d)" if d: "d < slot_size m mp p" for d
    proof -
      have "m2 (mp + PAGEHDRSZ + p + d) = m1 (mp + PAGEHDRSZ + p + d)"
        using b d lu by (intro same) (auto simp: a' PAGEHDRSZ_def)
      also have "\<dots> = m (mp + PAGEHDRSZ + p + d)" using b lu by (intro m1(4)) (simp add: PAGEHDRSZ_def)
      finally show ?thesis .
    qed
    then show "slot_size m2 mp p = slot_size m mp p" "slot_node m2 mp p = slot_node m mp p"
      by (intro slot_copied leaf2; assumption)+
  qed
  have new: "slot_size m2 mp u = nb - 2" "slot_node m2 mp u = node_at m2 (IS_LEAF m mp) a"
    using size unfolding slot_size_def slot_node_def leaf2 by (simp_all add: a' PAGEHDRSZ_def)
  have hu: "hi - (nb - 2) = u" using lu(2) by linarith
  have ueven: "u mod 2 = 0" using even(2) nb lu by presburger
  have "blocks_ok space (hi - (nb - 2)) (slot_size m2 mp) (take indx ?ps @ (hi - (nb - 2)) # drop indx ?ps)"
  proof (rule blocks_insert [OF ok])
    show "nb - 2 \<le> hi" "0 < nb - 2" using lu nb by linarith+
    show "indx \<le> length ?ps" using i by simp
  qed (simp_all only: hu ueven new(1) old(1))
  then have blocks: "blocks_ok space u (slot_size m2 mp) (page_slots m2 mp)" by (simp only: slots hu)
  have "mp_lower m1 mp \<le> mp_upper m1 mp" using m1 lu(1) by (simp add: word_le_nat_alt)
  moreover have "unat (mp_lower m1 mp) mod 2 = 0" using m1(1) even(1) by (simp add: mod_add_eq)
  ultimately show "page_wf space m2 mp"
    unfolding page_wf_def m2 using sp flags flags2 blocks m1(2) ueven by simp
  show "page_numkeys m2 mp = page_numkeys m mp + 1" using n2 by (simp add: page_numkeys_def lo_def)
  have "map (slot_node m2 mp) (take indx ?ps) = map (slot_node m mp) (take indx ?ps)"
    "map (slot_node m2 mp) (drop indx ?ps) = map (slot_node m mp) (drop indx ?ps)"
    using old(2) by (auto dest: in_set_takeD in_set_dropD)
  then show "page_nodes m2 mp = take indx (page_nodes m mp) @ node_at m2 (IS_LEAF m mp) a # drop indx (page_nodes m mp)"
    unfolding page_nodes_def slots map_append list.map new(2) by (simp add: take_map drop_map)
  show "unat (mp_upper m2 mp) + nb = unat (mp_upper m mp) + 2" "unat (mp_lower m2 mp) = unat (mp_lower m mp) + 2"
    using lu nb by (simp_all add: m2 m1(1,2) lo_def hi_def)
qed

lemma open_slot_node:
  assumes wf: "page_wf space m mp" and nb: "2 \<le> nb"
    and room: "unat (mp_lower m mp) + nb \<le> unat (mp_upper m mp)" and i: "indx \<le> page_numkeys m mp"
  obtains m1 where "open_slot mp indx nb m = (True, m1)"
    "page_node m1 mp indx = mp + PAGEHDRSZ + (unat (mp_upper m mp) + 2 - nb)"
    "\<And>x. x < mp \<or> mp + PAGEHDRSZ + space \<le> x \<Longrightarrow> m1 x = m x"
proof -
  have even: "unat (mp_lower m mp) mod 2 = 0" and his: "unat (mp_upper m mp) \<le> space"
    using wf by (auto simp: page_wf_def blocks_ok_def)
  show ?thesis
  proof (rule open_slot_room [OF even nb room i])
    fix m1
    assume m1: "open_slot mp indx nb m = (True, m1)" "unat (mp_lower m1 mp) = unat (mp_lower m mp) + 2"
      "page_slots m1 mp = take indx (page_slots m mp) @ (unat (mp_upper m mp) + 2 - nb) # drop indx (page_slots m mp)"
      "\<And>x. x < mp + 12 \<or> mp + 16 \<le> x \<and> x < mp + 20 \<or> mp + 22 + unat (mp_lower m mp) \<le> x \<Longrightarrow> m1 x = m x"
    have "page_numkeys m1 mp = page_numkeys m mp + 1" using m1(2) even by (simp add: page_numkeys_def)
    then have "unat (mp_ptrs m1 mp indx) = page_slots m1 mp ! indx" using i by (simp add: page_slots_nth)
    also have "\<dots> = unat (mp_upper m mp) + 2 - nb" using i unfolding m1(3) by (simp add: nth_append)
    finally have "page_node m1 mp indx = mp + PAGEHDRSZ + (unat (mp_upper m mp) + 2 - nb)" by (simp add: page_node_def)
    moreover have "m1 x = m x" if "x < mp \<or> mp + PAGEHDRSZ + space \<le> x" for x
      using that room nb his by (intro m1(4)) (auto simp: PAGEHDRSZ_def)
    ultimately show thesis using m1(1) that by blast
  qed
qed

subsection \<open>The bytes of a new node\<close>

lemma memmove_other: "x < dst \<or> dst + n \<le> x \<Longrightarrow> memmove m dst src n x = m x"
  by (simp add: memmove_def wr_bytes_other)

lemma rd_memmove:
  "rd_bytes (memmove m dst src n) dst n = rd_bytes m src n"
  "b + k \<le> dst \<or> dst + n \<le> b \<Longrightarrow> rd_bytes (memmove m dst src n) b k = rd_bytes m b k"
  by (simp_all add: memmove_def rd_wr_same_len rd_wr_disjoint)

lemma ld_memmove [mem_simps]:
  "b + 1 \<le> dst \<or> dst + n \<le> b \<Longrightarrow> ld8 (memmove m dst src n) b = ld8 m b"
  "b + 2 \<le> dst \<or> dst + n \<le> b \<Longrightarrow> ld16 (memmove m dst src n) b = ld16 m b"
  "b + 4 \<le> dst \<or> dst + n \<le> b \<Longrightarrow> ld32 (memmove m dst src n) b = ld32 m b"
  by (simp_all add: memmove_def mem_simps)

lemma ld_st_disjoint [mem_simps]:
  "a \<noteq> b \<Longrightarrow> ld8 (st8 m a c) b = ld8 m b"
  "b < a \<or> a + 2 \<le> b \<Longrightarrow> ld8 (st16 m a v) b = ld8 m b"
  "b < a \<or> a + 4 \<le> b \<Longrightarrow> ld8 (st32 m a w) b = ld8 m b"
  "b + 2 \<le> a \<or> a + 1 \<le> b \<Longrightarrow> ld16 (st8 m a c) b = ld16 m b"
  "b + 2 \<le> a \<or> a + 2 \<le> b \<Longrightarrow> ld16 (st16 m a v) b = ld16 m b"
  "b + 2 \<le> a \<or> a + 4 \<le> b \<Longrightarrow> ld16 (st32 m a w) b = ld16 m b"
  "b + 4 \<le> a \<or> a + 1 \<le> b \<Longrightarrow> ld32 (st8 m a c) b = ld32 m b"
  "b + 4 \<le> a \<or> a + 2 \<le> b \<Longrightarrow> ld32 (st16 m a v) b = ld32 m b"
  by (auto simp: st8_def st16_def st32_def ld_wr_disjoint neq_iff)

lemma st_other:
  "x \<noteq> a \<Longrightarrow> st8 m a c x = m x"
  "x < a \<or> a + 2 \<le> x \<Longrightarrow> st16 m a v x = m x"
  "x < a \<or> a + 4 \<le> x \<Longrightarrow> st32 m a w x = m x"
  by (auto simp: st8_def st16_def st32_def intro!: wr_bytes_other)

definition leaf_head :: "nat \<Rightarrow> nat \<Rightarrow> u8 \<Rightarrow> nat \<Rightarrow> nat \<Rightarrow> mem \<Rightarrow> mem" where
  "leaf_head node kl flags dl kb m =
     memmove (node_set_ds (node_set_extra (node_set_flags (node_set_ks m node kl) node flags) node 0) node dl)
       (node_key node) kb kl"

definition branch_head :: "nat \<Rightarrow> u32 \<Rightarrow> nat \<Rightarrow> nat \<Rightarrow> mem \<Rightarrow> mem" where
  "branch_head node pgno kl kb m =
     memmove (node_set_ks (node_set_ks (node_set_extra (node_set_flags (node_set_pgno m node pgno) node 0) node 0) node 0)
       node kl) (node_key node) kb kl"

lemma head_other:
  "x < node \<or> node + 8 + kl \<le> x \<Longrightarrow> leaf_head node kl flags dl kb m x = m x"
  "x < node \<or> node + 8 + kl \<le> x \<Longrightarrow> branch_head node pgno kl kb m x = m x"
  by (auto simp: leaf_head_def branch_head_def node_field_defs NODESIZE_def memmove_other st_other)

lemma rd_other:
  assumes "\<And>x. x < node \<or> node + k \<le> x \<Longrightarrow> m' x = m x" "b + n \<le> node \<or> node + k \<le> b"
  shows "rd_bytes m' b n = rd_bytes m b n"
  using assms(2) by (intro rd_bytes_cong assms(1)) auto

lemma head_fields:
  assumes "kl < 65536"
  shows "ld32 (leaf_head node kl flags dl kb m) node = of_nat dl"
    "ld8 (leaf_head node kl flags dl kb m) (node + 4) = flags"
    "ld8 (leaf_head node kl flags dl kb m) (node + 5) = 0"
    "node_ks (leaf_head node kl flags dl kb m) node = kl"
    "ld32 (branch_head node pgno kl kb m) node = pgno"
    "ld8 (branch_head node pgno kl kb m) (node + 4) = 0"
    "ld8 (branch_head node pgno kl kb m) (node + 5) = 0"
    "node_ks (branch_head node pgno kl kb m) node = kl"
  using assms by (simp_all add: leaf_head_def branch_head_def node_field_defs NODESIZE_def mem_simps unat_of_nat_lt)

lemma head_key:
  assumes "kb + kl \<le> node \<or> node + 8 + kl \<le> kb"
  shows "rd_bytes (leaf_head node kl flags dl kb m) (node + 8) kl = rd_bytes m kb kl"
    "rd_bytes (branch_head node pgno kl kb m) (node + 8) kl = rd_bytes m kb kl"
  unfolding leaf_head_def branch_head_def node_key_def NODESIZE_def rd_memmove(1)
  using assms by (auto simp: node_field_defs st8_def st16_def st32_def rd_wr_disjoint)

lemma even_ceil_add: "even_ceil (8 + n) = 8 + even_ceil n"
  unfolding even_ceil_def by presburger

text \<open>Where the bytes that are copied into a page must not lie.\<close>

definition outside_page :: "nat \<Rightarrow> nat \<Rightarrow> mdbx_val \<Rightarrow> bool" where
  "outside_page space mp v \<longleftrightarrow>
     iov_base v + unat (iov_len v) \<le> mp \<or> mp + PAGEHDRSZ + space \<le> iov_base v"

lemma open_slot_full:
  assumes "unat (mp_upper m mp) < unat (mp_lower m mp) + nb"
  shows "fst (open_slot mp indx nb m) = False"
proof -
  have "mp_lower (shift_ptrs m mp n indx) mp = mp_lower m mp" "mp_upper (shift_ptrs m mp n indx) mp = mp_upper m mp" for n
    by (rule fields_cong(2) [where k = 12], rule shift_ptrs_other, auto)
      (rule fields_cong(3) [where k = 14], rule shift_ptrs_other, auto)
  moreover have "int (unat (mp_upper m mp)) - (int nb - 2) < int (unat (mp_lower m mp)) + 2"
    using assms by linarith
  ultimately show ?thesis by (simp add: open_slot_def Let_def sizeof_indx_def del: of_nat_unat int_nat_eq)
qed

lemma copied_bytes:
  assumes "outside_page space mp v" "\<And>x. x < mp \<or> mp + PAGEHDRSZ + space \<le> x \<Longrightarrow> m' x = m x"
  shows "rd_bytes m' (iov_base v) (unat (iov_len v)) = val_bytes m v"
  unfolding val_bytes_def using assms by (intro rd_bytes_cong) (auto simp: outside_page_def)

lemma branch_added:
  assumes wf: "page_wf space m mp" and mp: "mc_page mc = mp" and br: "\<not> IS_LEAF m mp"
    and i: "indx \<le> page_numkeys m mp" and nb: "branch_size env (Some k) = Some nb"
    and out: "outside_page space mp k" and room: "unat (mp_lower m mp) + nb \<le> unat (mp_upper m mp)"
  shows "\<exists>m'. mdbx_node_add_branch env indx (Some k) pgno mc m = Some (0, mc, m') \<and> page_wf space m' mp \<and>
     page_nodes m' mp = take indx (page_nodes m mp) @
       \<lparr>tn_word = pgno, tn_flags = 0, tn_extra = 0, tn_key = val_bytes m k, tn_data = []\<rparr> # drop indx (page_nodes m mp) \<and>
     (\<forall>x. x < mp \<or> mp + PAGEHDRSZ + space \<le> x \<longrightarrow> m' x = m x)"
proof -
  define kl where "kl = unat (iov_len k)"
  define a where "a = mp + PAGEHDRSZ + (unat (mp_upper m mp) + 2 - nb)"
  have nbk: "nb = 8 + even_ceil kl + 2"
    using nb by (auto simp: branch_size_def node_size_def node_size_len_def NODESIZE_def sizeof_indx_def kl_def
        Let_def split: if_splits)
  have bounds: "space < 65536" "unat (mp_upper m mp) \<le> space" using wf by (auto simp: page_wf_def blocks_ok_def)
  have kl: "kl \<le> even_ceil kl" by (rule even_ceil_bounds)
  have kl2: "kl < 65536" using kl room bounds unfolding nbk by linarith
  have nb2: "2 < nb" "nb mod 2 = 0" "2 \<le> nb" using even_ceil_bounds(3) [of kl] unfolding nbk by presburger+
  obtain m1 where m1: "open_slot mp indx nb m = (True, m1)" "page_node m1 mp indx = a"
      "\<And>x. x < mp \<or> mp + PAGEHDRSZ + space \<le> x \<Longrightarrow> m1 x = m x"
    using open_slot_node [OF wf nb2(3) room i] unfolding a_def by blast
  define m2 where "m2 = branch_head a pgno kl (iov_base k) m1"
  have code: "mdbx_node_add_branch env indx (Some k) pgno mc m = Some (0, mc, m2)"
    by (simp add: mdbx_node_add_branch_def nb mp m1(1,2) m2_def branch_head_def kl_def)
  have "node_bytes_used m2 False a = nb - 2"
    using kl2 by (simp add: node_bytes_used_def node_payload_def m2_def head_fields NODESIZE_def even_ceil_add nbk)
  then have size: "node_bytes_used m2 (IS_LEAF m mp) a = nb - 2" using br by simp
  have frame: "m2 x = m1 x" if "mp \<le> x" "x < mp + PAGEHDRSZ + space" "x < a \<or> a + (nb - 2) \<le> x" for x
    using that kl unfolding m2_def nbk by (intro head_other) auto
  note ins = insert_node [OF wf i nb2(1,2) room m1(1) a_def frame size]
  have "rd_bytes m2 (a + 8) kl = rd_bytes m1 (iov_base k) kl"
    unfolding m2_def using out kl room bounds
    by (intro head_key(2)) (auto simp: a_def outside_page_def nbk kl_def [symmetric])
  then have "rd_bytes m2 (a + 8) kl = val_bytes m k"
    using copied_bytes [OF out m1(3)] by (simp add: kl_def)
  then have "node_at m2 False a = \<lparr>tn_word = pgno, tn_flags = 0, tn_extra = 0, tn_key = val_bytes m k, tn_data = []\<rparr>"
    using kl2 by (simp add: node_at_def m2_def head_fields node_payload_def)
  moreover have "m2 x = m x" if x: "x < mp \<or> mp + PAGEHDRSZ + space \<le> x" for x
  proof -
    have "m2 x = m1 x" using x kl room bounds unfolding m2_def
      by (intro head_other) (auto simp: a_def nbk)
    then show ?thesis using m1(3) [OF x] by simp
  qed
  ultimately show ?thesis using ins code br by auto
qed

lemma and_1_eq_0: "(x :: 'a::len word) AND 1 = 0 \<longleftrightarrow> \<not> bit x 0"
  by (simp add: and_one_eq bit_0 mod_2_eq_odd)

lemma big_flag: "(ucast (flags :: u32) :: u8) AND F_BIGDATA = 0 \<longleftrightarrow> flags AND ucast F_BIGDATA = 0"
  by (simp add: F_BIGDATA_def and_1_eq_0 bit_simps)

text \<open>The value that \<open>mdbx_node_add_leaf\<close> puts in the node: the data, or the number of its large page.\<close>

definition is_big :: "u32 \<Rightarrow> bool" where "is_big flags \<longleftrightarrow> flags AND ucast F_BIGDATA \<noteq> 0"
definition is_reserve :: "u32 \<Rightarrow> bool" where "is_reserve flags \<longleftrightarrow> flags AND RESERVE_FLAG \<noteq> 0 \<and> \<not> is_big flags"

definition leaf_source :: "u32 \<Rightarrow> mdbx_val \<Rightarrow> mdbx_val" where
  "leaf_source flags data = (if is_big flags then data\<lparr>iov_len := 4\<rparr> else data)"

definition leaf_bytes :: "u32 \<Rightarrow> mdbx_val \<Rightarrow> mdbx_val \<Rightarrow> nat" where
  "leaf_bytes flags key data =
     (if is_big flags then large_node_bytes key else node_size (Some key) (Some data) + sizeof_indx)"

definition node_payload_len :: "u32 \<Rightarrow> mdbx_val \<Rightarrow> nat" where
  "node_payload_len flags data = unat (iov_len (leaf_source flags data))"

lemma leaf_bytes_eq:
  "leaf_bytes flags key data = even_ceil (8 + unat (iov_len key) + node_payload_len flags data) + 2"
proof -
  have "even_ceil (k + 4) = even_ceil k + 4" for k unfolding even_ceil_def by presburger
  then show ?thesis
    by (simp add: leaf_bytes_def large_node_bytes_def node_size_def node_size_len_def node_payload_len_def leaf_source_def
        NODESIZE_def sizeof_pgno_def sizeof_indx_def even_ceil_add add.assoc)
qed

lemma wr_bytes_Nil: "wr_bytes m a [] = m"
  by (rule ext) (rule wr_bytes_other, auto)

lemma put_node_data_effect:
  assumes "outside_page space mp (leaf_source flags data) \<or> is_reserve flags"
    and "mp \<le> nd" "nd + node_payload_len flags data \<le> mp + PAGEHDRSZ + space"
    and "put_node_data None flags nd data m = (m', d)"
  shows "\<And>x. x < nd \<or> nd + node_payload_len flags data \<le> x \<Longrightarrow> m' x = m x"
    "d = (if is_reserve flags then data\<lparr>iov_base := nd\<rparr> else data)"
    "\<not> is_reserve flags \<Longrightarrow> rd_bytes m' nd (node_payload_len flags data) = val_bytes m (leaf_source flags data)"
proof -
  let ?n = "node_payload_len flags data"
  have m': "(m', d) = (if is_reserve flags then (m, data\<lparr>iov_base := nd\<rparr>)
      else (memmove m nd (iov_base data) ?n, data))"
  proof (cases "is_big flags \<or> is_reserve flags \<or> iov_len data = 0")
    case True
    then show ?thesis
      using assms(4) by (auto simp: put_node_data_def is_big_def is_reserve_def node_payload_len_def leaf_source_def
          sizeof_pgno_def memmove_def wr_bytes_Nil split: if_splits)
  next
    case False
    then have "0 < unat (iov_len data)" by (simp add: unat_gt_0)
    then have "nd \<noteq> iov_base data"
      using False assms(1-3) by (auto simp: outside_page_def leaf_source_def node_payload_len_def)
    then show ?thesis
      using False assms(4) by (auto simp: put_node_data_def is_big_def is_reserve_def node_payload_len_def leaf_source_def
          split: if_splits)
  qed
  show "m' x = m x" if "x < nd \<or> nd + ?n \<le> x" for x using m' that by (auto simp: memmove_other split: if_splits)
  show "d = (if is_reserve flags then data\<lparr>iov_base := nd\<rparr> else data)" using m' by (auto split: if_splits)
  have "iov_base (leaf_source flags data) = iov_base data" by (simp add: leaf_source_def)
  then show "rd_bytes m' nd ?n = val_bytes m (leaf_source flags data)" if "\<not> is_reserve flags"
    using m' that by (simp add: rd_memmove(1) val_bytes_def node_payload_len_def)
qed

lemma leaf_written:
  fixes key data :: mdbx_val and flags :: u32 and m1 :: mem and a :: nat
  defines "kl \<equiv> unat (iov_len key)" and "pl \<equiv> node_payload_len flags data"
  defines "m2 \<equiv> leaf_head a kl (ucast flags) (unat (iov_len data)) (iov_base key) m1"
  assumes small: "kl < 65536" "pl < 65536" and fit: "mp \<le> a" "a + 8 + kl + pl \<le> mp + PAGEHDRSZ + space"
    and out: "outside_page space mp key" "outside_page space mp (leaf_source flags data) \<or> is_reserve flags"
    and same: "\<And>x. x < mp \<or> mp + PAGEHDRSZ + space \<le> x \<Longrightarrow> m1 x = m x"
    and m3: "put_node_data None flags (a + 8 + kl) data m2 = (m3, d)"
  shows "\<And>x. x < a \<or> a + 8 + kl + pl \<le> x \<Longrightarrow> m3 x = m1 x" "node_bytes_used m3 True a = even_ceil (8 + kl + pl)"
    "node_at m3 True a = \<lparr>tn_word = ucast (iov_len data), tn_flags = ucast flags, tn_extra = 0, tn_key = val_bytes m key,
       tn_data = (if is_reserve flags then val_bytes m3 d else val_bytes m (leaf_source flags data))\<rparr>"
    "d = (if is_reserve flags then data\<lparr>iov_base := a + 8 + kl\<rparr> else data)"
proof -
  have f: "mp \<le> a + 8 + kl" "a + 8 + kl + node_payload_len flags data \<le> mp + PAGEHDRSZ + space"
    using fit by (simp_all add: pl_def [symmetric])
  note put = put_node_data_effect [OF out(2) f m3, folded pl_def]
  show "d = (if is_reserve flags then data\<lparr>iov_base := a + 8 + kl\<rparr> else data)" by (rule put(2))
  have head: "m3 x = m2 x" if "x < a + 8 + kl" for x using that by (intro put(1)) simp
  have word: "ld32 m3 a = ucast (iov_len data)"
  proof -
    have "ld32 m3 a = ld32 m2 a" by (rule ld_cong(2), rule head) simp
    then show ?thesis unfolding m2_def head_fields(1) [OF small(1)] by simp
  qed
  have "ld8 m3 (a + 4) = ld8 m2 (a + 4)" "ld8 m3 (a + 5) = ld8 m2 (a + 5)" by (simp_all add: ld8_def head)
  then have fl: "ld8 m3 (a + 4) = ucast flags" "ld8 m3 (a + 5) = 0"
    unfolding m2_def head_fields(2,3) [OF small(1)] by simp_all
  have ks: "node_ks m3 a = kl"
  proof -
    have "ld16 m3 (a + 6) = ld16 m2 (a + 6)" by (rule ld_cong(1), rule head) simp
    then have "node_ks m3 a = node_ks m2 a" by (simp add: node_ks_def unaligned_peek_eq)
    then show ?thesis unfolding m2_def head_fields(4) [OF small(1)] .
  qed
  have payload: "node_payload m3 True a = pl"
    using small(2) word fl(1) big_flag [of flags]
    by (auto simp: node_payload_def node_flags_def node_ds_def unaligned_peek_eq pl_def node_payload_len_def
        leaf_source_def is_big_def sizeof_pgno_def unat_ucast_lt)
  then show "node_bytes_used m3 True a = even_ceil (8 + kl + pl)" by (simp add: node_bytes_used_def ks NODESIZE_def)
  show frame: "m3 x = m1 x" if "x < a \<or> a + 8 + kl + pl \<le> x" for x
  proof -
    have "m3 x = m2 x" using that by (intro put(1)) auto
    also have "\<dots> = m1 x" using that unfolding m2_def by (intro head_other) auto
    finally show ?thesis .
  qed
  have "rd_bytes m3 (a + 8) kl = rd_bytes m2 (a + 8) kl" by (rule rd_bytes_cong) (simp add: head)
  also have "\<dots> = rd_bytes m1 (iov_base key) kl"
    unfolding m2_def using out(1) fit by (intro head_key(1)) (auto simp: outside_page_def kl_def [symmetric])
  finally have key: "rd_bytes m3 (a + 8) kl = val_bytes m key"
    using copied_bytes [OF out(1) same] by (simp add: kl_def)
  have "rd_bytes m3 (a + 8 + kl) pl =
      (if is_reserve flags then val_bytes m3 d else val_bytes m (leaf_source flags data))"
  proof (cases "is_reserve flags")
    case True
    then show ?thesis using put(2)
      by (simp add: val_bytes_def pl_def node_payload_len_def leaf_source_def is_reserve_def)
  next
    case False
    then have o: "outside_page space mp (leaf_source flags data)" using out(2) by simp
    have "val_bytes m2 (leaf_source flags data) = val_bytes m (leaf_source flags data)"
      unfolding val_bytes_def [of m2]
    proof (rule copied_bytes [OF o])
      fix x
      assume x: "x < mp \<or> mp + PAGEHDRSZ + space \<le> x"
      then have "m2 x = m1 x" using fit unfolding m2_def by (intro head_other) linarith
      then show "m2 x = m x" using same [OF x] by simp
    qed
    then show ?thesis using False put(3) by simp
  qed
  then show "node_at m3 True a = \<lparr>tn_word = ucast (iov_len data), tn_flags = ucast flags, tn_extra = 0,
      tn_key = val_bytes m key,
      tn_data = (if is_reserve flags then val_bytes m3 d else val_bytes m (leaf_source flags data))\<rparr>"
    using word fl ks key payload by (simp add: node_at_def node_data_def node_key_def NODESIZE_def)
qed

lemma leaf_added:
  assumes wf: "page_wf space m mp" and mp: "mc_page mc = mp" and lf: "IS_LEAF m mp"
    and i: "indx \<le> page_numkeys m mp"
    and small: "is_big flags \<or> node_size (Some key) (Some data) \<le> unat (me_leaf_nodemax env)"
    and out: "outside_page space mp key" "outside_page space mp (leaf_source flags data) \<or> is_reserve flags"
    and room: "unat (mp_lower m mp) + leaf_bytes flags key data \<le> unat (mp_upper m mp)"
  shows "\<exists>m' d nd. mdbx_node_add_leaf env alloc indx key data flags mc m = (0, mc, m', d) \<and> page_wf space m' mp \<and>
     page_nodes m' mp = take indx (page_nodes m mp) @ nd # drop indx (page_nodes m mp) \<and>
     tn_word nd = ucast (iov_len data) \<and> tn_flags nd = ucast flags \<and> tn_extra nd = 0 \<and> tn_key nd = val_bytes m key \<and>
     (if is_reserve flags then iov_len d = iov_len data \<and> tn_data nd = val_bytes m' d
      else d = data \<and> tn_data nd = val_bytes m (leaf_source flags data)) \<and>
     (\<forall>x. x < mp \<or> mp + PAGEHDRSZ + space \<le> x \<longrightarrow> m' x = m x)"
proof -
  define nb where "nb = leaf_bytes flags key data"
  define kl where "kl = unat (iov_len key)"
  define pl where "pl = node_payload_len flags data"
  define a where "a = mp + PAGEHDRSZ + (unat (mp_upper m mp) + 2 - nb)"
  have nbk: "nb = even_ceil (8 + kl + pl) + 2" unfolding nb_def leaf_bytes_eq kl_def pl_def by simp
  have bounds: "space < 65536" "unat (mp_upper m mp) \<le> space" using wf by (auto simp: page_wf_def blocks_ok_def)
  note room = room [folded nb_def]
  have raw: "8 + kl + pl \<le> nb - 2" using even_ceil_bounds(1) [of "8 + kl + pl"] unfolding nbk by simp
  have kl2: "kl < 65536" "pl < 65536" using raw room bounds by linarith+
  have nb2: "2 < nb" "2 \<le> nb" using raw by linarith+
  have nb3: "nb mod 2 = 0" using even_ceil_bounds(3) [of "8 + kl + pl"] unfolding nbk by presburger
  obtain m1 where m1: "open_slot mp indx nb m = (True, m1)" "page_node m1 mp indx = a"
      "\<And>x. x < mp \<or> mp + PAGEHDRSZ + space \<le> x \<Longrightarrow> m1 x = m x"
    using open_slot_node [OF wf nb2(2) room i] unfolding a_def by blast
  define m2 where "m2 = leaf_head a kl (ucast flags) (unat (iov_len data)) (iov_base key) m1"
  have ks2: "node_ks m2 a = kl" using kl2 by (simp add: m2_def head_fields)
  obtain m3 d where m3: "put_node_data None flags (a + 8 + kl) data m2 = (m3, d)" by fastforce
  have place: "leaf_placement env alloc key data flags mc m = (0, None, flags, nb, mc, m)"
    using small by (auto simp: leaf_placement_def nb_def leaf_bytes_def is_big_def)
  have code: "mdbx_node_add_leaf env alloc indx key data flags mc m = (0, mc, m3, d)"
    using ks2 m3 by (simp add: mdbx_node_add_leaf_def place mp m1(1,2) m2_def leaf_head_def kl_def Let_def
        node_data_def node_key_def NODESIZE_def)
  have fit: "mp \<le> a" "a + 8 + kl + pl \<le> mp + PAGEHDRSZ + space"
    using room bounds nb2 raw unfolding a_def by linarith+
  note new = leaf_written [where key = key and data = data and flags = flags and ?m1.0 = m1 and a = a and m = m,
      folded kl_def pl_def, folded m2_def, OF kl2 fit out m1(3) m3]
  have size: "node_bytes_used m3 (IS_LEAF m mp) a = nb - 2" using lf new(2) by (simp add: nbk)
  have frame: "m3 x = m1 x" if "mp \<le> x" "x < mp + PAGEHDRSZ + space" "x < a \<or> a + (nb - 2) \<le> x" for x
    using that(3) raw by (intro new(1)) auto
  note ins = insert_node [OF wf i nb2(1) nb3 room m1(1) a_def frame size]
  have outer: "m3 x = m x" if x: "x < mp \<or> mp + PAGEHDRSZ + space \<le> x" for x
  proof -
    have "m3 x = m1 x" using x fit by (intro new(1)) auto
    then show ?thesis using m1(3) [OF x] by simp
  qed
  show ?thesis using ins code lf new(3,4) outer by (intro exI conjI) auto
qed

lemma memmove_at: "dst \<le> x \<Longrightarrow> x < dst + n \<Longrightarrow> memmove m dst src n x = m (src + (x - dst))"
  by (simp add: memmove_def wr_bytes_def)

lemma unat_minus_2: "2 \<le> unat (w :: u16) \<Longrightarrow> unat (w - 2) = unat w - 2"
  by (subst unat_sub_le) (simp_all add: word_le_nat_alt)

lemma node_del_code:
  assumes wf: "page_wf space m mp" and mp: "mc_page mc = mp" and i: "i = unat (mc_ki mc)" "i < page_numkeys m mp"
    and w: "w = mp_ptrs m mp i" and sz: "sz = slot_size m mp (unat w)"
    and m0: "m0 = close_ptrs m mp i w (of_nat sz) 0 0 (page_numkeys m mp)" and hi: "hi = unat (mp_upper m mp)"
    and m1: "m1 = memmove m0 (mp + hi + PAGEHDRSZ + sz) (mp + hi + PAGEHDRSZ) (unat w - hi)"
  shows "mdbx_node_del ksize mc m = set_upper (set_lower m1 mp (mp_lower m mp - 2)) mp (mp_upper m mp + of_nat sz)"
    "unat (mp_upper m mp + of_nat sz) = hi + sz" "unat (mp_lower m mp - 2) = unat (mp_lower m mp) - 2"
    "2 \<le> unat (mp_lower m mp)"
proof -
  define lo where "lo = unat (mp_lower m mp)"
  have flags: "mp_flags m mp AND P_LEAF2 = 0" and sp: "space < 65536" and even: "lo mod 2 = 0"
    and ok: "blocks_ok space hi (slot_size m mp) (page_slots m mp)"
    using wf by (auto simp: page_wf_def hi lo_def)
  have lo: "lo = 2 * page_numkeys m mp" using even by (auto simp: lo_def page_numkeys_def)
  have "unat w \<in> set (page_slots m mp)"
    using nth_mem [of i "page_slots m mp"] i(2) by (simp add: w page_slots_nth)
  then have tb: "hi \<le> unat w" "unat w + sz \<le> space" using blocks_ok_block [OF ok] by (auto simp: sz)
  have sz16: "unat (of_nat sz :: u16) = sz" using tb sp by (intro unat_of_nat_lt) simp
  show "unat (mp_upper m mp + of_nat sz) = hi + sz"
    using tb sp sz16 by (subst unat_add_lt) (simp_all add: hi)
  show two: "2 \<le> unat (mp_lower m mp)" using lo i(2) by (simp add: lo_def)
  then show "unat (mp_lower m mp - 2) = unat (mp_lower m mp) - 2" by (rule unat_minus_2)
  have eq: "mp_upper m0 mp = mp_upper m mp" "mp_lower m0 mp = mp_lower m mp"
    unfolding m0 by (rule fields_cong(3) [where k = 14], rule close_ptrs_other, simp, rule refl)
      (rule fields_cong(2) [where k = 12], rule close_ptrs_other, simp, rule refl)
  have eq1: "mp_upper m1 mp = mp_upper m mp" "mp_lower m1 mp = mp_lower m mp"
    unfolding m1 eq [symmetric]
    by (rule fields_cong(3) [where k = 14], rule memmove_other, simp add: PAGEHDRSZ_def, rule refl)
      (rule fields_cong(2) [where k = 12], rule memmove_other, simp add: PAGEHDRSZ_def, rule refl)
  have size: "node_bytes_used m (IS_LEAF m mp) (page_node m mp i) = sz"
    by (simp add: sz slot_size_def page_node_def w add_ac)
  show "mdbx_node_del ksize mc m = set_upper (set_lower m1 mp (mp_lower m mp - 2)) mp (mp_upper m mp + of_nat sz)"
    unfolding mdbx_node_del_def Let_def mp i(1) [symmetric] size w [symmetric] m0 [symmetric] eq hi [symmetric] m1 [symmetric] eq1
    using flags by (simp add: IS_LEAF2_def header_fields eq1 sizeof_indx_def)
qed

text \<open>The slots after the loop and the move: those without the \<open>i\<close>th, raised where below it.\<close>

lemma raised_slots:
  assumes "i < n" "\<And>k. k < n - 1 \<Longrightarrow> mp_ptrs m' mp k =
      (let q = mp_ptrs m mp (if k < i then k else Suc k) in if q < w then q + of_nat sz else q)"
    and fit: "\<And>k. k < n \<Longrightarrow> mp_ptrs m mp k < w \<Longrightarrow> unat (mp_ptrs m mp k) + sz < 65536" "sz < 65536"
    and n: "page_numkeys m mp = n" "page_numkeys m' mp = n - 1"
  shows "page_slots m' mp = map (raised (unat w) sz) (take i (page_slots m mp) @ drop (Suc i) (page_slots m mp))"
proof (rule nth_equalityI)
  show "length (page_slots m' mp) = length (map (raised (unat w) sz) (take i (page_slots m mp) @ drop (Suc i) (page_slots m mp)))"
    using assms(1) n by simp
  fix k
  assume "k < length (page_slots m' mp)"
  then have k: "k < n - 1" by (simp add: n)
  define j where "j = (if k < i then k else Suc k)"
  have j: "j < n" using k assms(1) by (auto simp: j_def)
  have "unat (mp_ptrs m' mp k) = raised (unat w) sz (unat (mp_ptrs m mp j))"
  proof (cases "mp_ptrs m mp j < w")
    case True
    then have "unat (mp_ptrs m mp j + of_nat sz) = unat (mp_ptrs m mp j) + sz"
      using fit(1) [OF j True] fit(2) by (subst unat_add_lt) (simp_all add: unat_of_nat_lt)
    then show ?thesis using True assms(2) [OF k] by (simp add: j_def [symmetric] Let_def raised_def word_less_nat_alt)
  next
    case False
    then show ?thesis using assms(2) [OF k] by (simp add: j_def [symmetric] Let_def raised_def word_less_nat_alt)
  qed
  moreover have "(take i (page_slots m mp) @ drop (Suc i) (page_slots m mp)) ! k = page_slots m mp ! j"
    using k j assms(1) n by (auto simp: nth_append j_def min_def)
  ultimately show "page_slots m' mp ! k =
      map (raised (unat w) sz) (take i (page_slots m mp) @ drop (Suc i) (page_slots m mp)) ! k"
    using k j assms(1) n by (simp add: page_slots_nth del: map_append)
qed

lemma node_deleted:
  fixes ksize :: nat
  assumes wf: "page_wf space m mp" and mp: "mc_page mc = mp" and i: "i = unat (mc_ki mc)" "i < page_numkeys m mp"
  defines "m' \<equiv> mdbx_node_del ksize mc m"
  shows "page_wf space m' mp" "IS_LEAF m' mp = IS_LEAF m mp"
    "page_nodes m' mp = take i (page_nodes m mp) @ drop (Suc i) (page_nodes m mp)"
    "unat (mp_lower m' mp) + 2 = unat (mp_lower m mp)"
    "unat (mp_upper m' mp) = unat (mp_upper m mp) + slot_size m mp (page_slots m mp ! i)"
    "\<And>x. x < mp \<or> mp + PAGEHDRSZ + space \<le> x \<Longrightarrow> m' x = m x"
proof -
  define n where "n = page_numkeys m mp"
  define lo where "lo = unat (mp_lower m mp)"
  define hi where "hi = unat (mp_upper m mp)"
  define w where "w = mp_ptrs m mp i"
  define sz where "sz = slot_size m mp (unat w)"
  let ?ps = "page_slots m mp"
  let ?r = "take i ?ps @ drop (Suc i) ?ps"
  define m0 where "m0 = close_ptrs m mp i w (of_nat sz) 0 0 n"
  define m1 where "m1 = memmove m0 (mp + hi + PAGEHDRSZ + sz) (mp + hi + PAGEHDRSZ) (unat w - hi)"
  note code = node_del_code [OF wf mp i w_def sz_def m0_def [unfolded n_def] hi_def m1_def]
  have m': "m' = set_upper (set_lower m1 mp (mp_lower m mp - 2)) mp (mp_upper m mp + of_nat sz)"
    unfolding m'_def by (rule code(1))
  have even: "lo mod 2 = 0" "hi mod 2 = 0" and flags: "mp_flags m mp AND P_LEAF2 = 0" and sp: "space < 65536"
    and lohi: "lo \<le> hi" and ok: "blocks_ok space hi (slot_size m mp) ?ps"
    using wf by (auto simp: page_wf_def lo_def hi_def word_le_nat_alt)
  have lo: "lo = 2 * n" using even(1) by (auto simp: lo_def n_def page_numkeys_def)
  have ti: "?ps ! i = unat w" "unat w \<in> set ?ps"
    using nth_mem [of i ?ps] i(2) by (simp_all add: w_def page_slots_nth)
  have tb: "hi \<le> unat w" "unat w + sz \<le> space" "0 < sz" using blocks_ok_block [OF ok ti(2)] by (auto simp: sz_def)
  have m0: "m0 x = m x" if "x < mp + 20 \<or> mp + 20 + lo \<le> x" for x
    using that unfolding m0_def lo by (intro close_ptrs_other) simp
  have hdr: "m' x = m1 x" if "x < mp + 12 \<or> mp + 16 \<le> x" for x using that by (auto simp: m' header_other)
  have m1: "m1 x = m0 x" if "x < mp + PAGEHDRSZ + hi + sz \<or> mp + PAGEHDRSZ + unat w + sz \<le> x" for x
    using that tb unfolding m1_def by (intro memmove_other) auto
  show lower': "unat (mp_lower m' mp) + 2 = unat (mp_lower m mp)"
    using code(3,4) by (simp add: m' header_fields)
  have upper': "unat (mp_upper m' mp) = hi + sz" using code(2) by (simp add: m' header_fields)
  then show "unat (mp_upper m' mp) = unat (mp_upper m mp) + slot_size m mp (?ps ! i)"
    by (simp add: hi_def ti(1) sz_def)
  have n': "page_numkeys m' mp = n - 1" using lower' lo by (simp add: page_numkeys_def lo_def)
  have flags': "mp_flags m' mp = mp_flags m mp"
    by (rule fields_cong(1) [where k = 10]) (simp_all add: hdr m1 m0 PAGEHDRSZ_def)
  then show leaf': "IS_LEAF m' mp = IS_LEAF m mp" by (simp add: IS_LEAF_def)
  have slots: "page_slots m' mp = map (raised (unat w) sz) ?r"
  proof (rule raised_slots)
    show "i < n" "page_numkeys m mp = n" "page_numkeys m' mp = n - 1" by (simp_all add: i(2) n_def n')
    show "sz < 65536" using tb sp by simp
    fix k
    show "mp_ptrs m' mp k = (let q = mp_ptrs m mp (if k < i then k else Suc k) in if q < w then q + of_nat sz else q)"
      if k: "k < n - 1"
    proof -
      have "m' x = m0 x" if "mp + 20 \<le> x" "x < mp + 20 + lo" for x
        using that lohi by (subst hdr, simp) (rule m1, simp add: PAGEHDRSZ_def)
      then have "mp_ptrs m' mp k = mp_ptrs m0 mp k"
        using k lo by (intro fields_cong(4) [where k = "20 + 2 * k"]) simp_all
      then show ?thesis using k i(2) unfolding m0_def by (subst (asm) close_ptrs_ptrs) (auto simp: n_def)
    qed
    show "unat (mp_ptrs m mp k) + sz < 65536" if "k < n" "mp_ptrs m mp k < w"
      using that tb sp by (simp add: word_less_nat_alt)
  qed
  have moved: "slot_size m' mp (raised (unat w) sz p) = slot_size m mp p \<and> slot_node m' mp (raised (unat w) sz p) = slot_node m mp p"
    if p: "p \<in> set ?r" for p
  proof -
    have "p \<in> set ?ps" using p by (auto dest: in_set_takeD in_set_dropD)
    note b = blocks_ok_block [OF ok this] 
    note d = blocks_disjoint [OF ok _ p, unfolded ti(1), folded sz_def]
    have "m' (mp + PAGEHDRSZ + raised (unat w) sz p + d) = m (mp + PAGEHDRSZ + p + d)" if dl: "d < slot_size m mp p" for d
    proof -
      have "m' (mp + PAGEHDRSZ + raised (unat w) sz p + d) = m1 (mp + PAGEHDRSZ + raised (unat w) sz p + d)"
        by (rule hdr) (simp add: PAGEHDRSZ_def)
      also have "\<dots> = m0 (mp + PAGEHDRSZ + p + d)"
      proof (cases "p < unat w")
        case True
        then have "p + slot_size m mp p \<le> unat w" using d b i(2) by auto
        then show ?thesis using True dl b unfolding m1_def by (subst memmove_at) (auto simp: raised_def algebra_simps)
      next
        case False
        then have "unat w + sz \<le> p" using d b tb i(2) by auto
        then show ?thesis using False by (intro trans [OF m1]) (auto simp: raised_def)
      qed
      also have "\<dots> = m (mp + PAGEHDRSZ + p + d)" using b lohi by (intro m0) (simp add: PAGEHDRSZ_def)
      finally show ?thesis .
    qed
    then show ?thesis by (intro conjI slot_copied leaf'; assumption)
  qed
  have szeven: "sz mod 2 = 0" unfolding sz_def slot_size_def by (rule node_bytes_used_facts)
  have "blocks_ok space (hi + sz) (slot_size m' mp) (map (raised (unat w) sz) ?r)"
    using moved i(2) by (intro blocks_remove [OF ok _ ti(1) [symmetric] sz_def szeven]) auto
  then have "blocks_ok space (unat (mp_upper m' mp)) (slot_size m' mp) (page_slots m' mp)"
    by (simp only: slots upper')
  moreover have "mp_lower m' mp \<le> mp_upper m' mp"
    using lower' upper' lohi by (simp add: word_le_nat_alt lo_def)
  moreover have "unat (mp_lower m' mp) mod 2 = 0" 
    using mod_add_self2 [of "unat (mp_lower m' mp)" 2] lower' even(1) by (simp only: lo_def)
  moreover have "unat (mp_upper m' mp) mod 2 = 0" unfolding upper' using even(2) szeven by presburger
  ultimately show "page_wf space m' mp" unfolding page_wf_def using sp flags flags' by simp
  have "map (slot_node m' mp \<circ> raised (unat w) sz) ?r = map (slot_node m mp) ?r" using moved by auto
  then show "page_nodes m' mp = take i (page_nodes m mp) @ drop (Suc i) (page_nodes m mp)"
    unfolding page_nodes_def slots map_map by (simp add: take_map drop_map)
  show "m' x = m x" if "x < mp \<or> mp + PAGEHDRSZ + space \<le> x" for x
  proof -
    have "m' x = m1 x" using that by (intro hdr) (auto simp: PAGEHDRSZ_def)
    also have "\<dots> = m0 x" using that tb by (intro m1) auto
    also have "\<dots> = m x" using that tb lohi by (intro m0) (auto simp: PAGEHDRSZ_def)
    finally show ?thesis .
  qed
qed

subsection \<open>Pages of keys of equal size\<close>

text \<open>
  On a \<open>P_LEAF2\<close> page the keys follow each other from the start; \<open>mp_lower\<close> and \<open>mp_upper\<close> only
  count them.
\<close>

definition leaf2_keys :: "mem \<Rightarrow> nat \<Rightarrow> u8 list list" where
  "leaf2_keys m mp = map (\<lambda>i. rd_bytes m (page_leaf2key m mp i) (unat (mp_leaf2_ksize m mp))) [0..<page_numkeys m mp]"

definition leaf2_wf :: "nat \<Rightarrow> mem \<Rightarrow> nat \<Rightarrow> bool" where
  "leaf2_wf space m mp \<longleftrightarrow>
     space < 65536 \<and> IS_LEAF2 m mp \<and> 2 \<le> unat (mp_leaf2_ksize m mp) \<and> unat (mp_lower m mp) mod 2 = 0 \<and>
     mp_lower m mp \<le> mp_upper m mp \<and>
     unat (mp_upper m mp) + page_numkeys m mp * (unat (mp_leaf2_ksize m mp) - 2) = space"

lemma leaf2_wf_facts:
  assumes "leaf2_wf space m mp"
  shows "unat (mp_lower m mp) = 2 * page_numkeys m mp" "unat (mp_upper m mp) \<le> space"
    "unat (mp_upper m mp) + page_numkeys m mp * unat (mp_leaf2_ksize m mp) = space + unat (mp_lower m mp)"
    "page_numkeys m mp * unat (mp_leaf2_ksize m mp) \<le> space"
proof -
  show lo: "unat (mp_lower m mp) = 2 * page_numkeys m mp"
    using assms by (auto simp: leaf2_wf_def page_numkeys_def)
  show "unat (mp_upper m mp) \<le> space" using assms by (auto simp: leaf2_wf_def)
  obtain e where e: "unat (mp_leaf2_ksize m mp) = 2 + e" using assms by (auto simp: leaf2_wf_def le_iff_add)
  then have "unat (mp_upper m mp) + page_numkeys m mp * e = space" using assms by (simp add: leaf2_wf_def)
  then show "unat (mp_upper m mp) + page_numkeys m mp * unat (mp_leaf2_ksize m mp) = space + unat (mp_lower m mp)"
    unfolding e lo by (simp add: algebra_simps)
  moreover have "unat (mp_lower m mp) \<le> unat (mp_upper m mp)" using assms by (simp add: leaf2_wf_def word_le_nat_alt)
  ultimately show "page_numkeys m mp * unat (mp_leaf2_ksize m mp) \<le> space" by linarith
qed

lemma length_leaf2_keys [simp]: "length (leaf2_keys m mp) = page_numkeys m mp"
  by (simp add: leaf2_keys_def)

lemma leaf2_keys_nth:
  "i < page_numkeys m mp \<Longrightarrow> leaf2_keys m mp ! i =
     rd_bytes m (mp + PAGEHDRSZ + i * unat (mp_leaf2_ksize m mp)) (unat (mp_leaf2_ksize m mp))"
  by (simp add: leaf2_keys_def page_leaf2key_def)

lemma memmove_0 [simp]: "memmove m d s 0 = m"
  by (simp add: memmove_def wr_bytes_Nil)

lemma memmove_none: "(if 0 < n then memmove m d s (n * k) else m) = memmove m d s (n * k)"
  "(if n \<noteq> 0 then memmove m d s (n * k) else m) = memmove m d s (n * k)"
  by (simp_all add: memmove_def wr_bytes_Nil)

lemma rd_memmove_within:
  assumes "off + k \<le> n"
  shows "rd_bytes (memmove m dst src n) (dst + off) k = rd_bytes m (src + off) k"
  using assms by (intro nth_equalityI) (auto simp: memmove_at add.assoc)

lemma cell_before: "(j :: nat) < i \<Longrightarrow> j * ks + ks \<le> i * ks"
  using mult_le_mono1 [of "Suc j" i ks] by simp

lemma keys_inserted:
  assumes j: "j \<le> n" "i \<le> n" and key: "kb + ks \<le> b \<or> b + Suc n * ks \<le> kb"
    and m': "m' = memmove (memmove m (b + i * ks + ks) (b + i * ks) ((n - i) * ks)) (b + i * ks) kb ks"
  shows "rd_bytes m' (b + j * ks) ks =
      (if j < i then rd_bytes m (b + j * ks) ks else if j = i then rd_bytes m kb ks else rd_bytes m (b + (j - 1) * ks) ks)"
proof -
  have end': "b + i * ks + ks + (n - i) * ks = b + Suc n * ks"
    using j(2) by (simp add: algebra_simps flip: add_mult_distrib2)
  consider "j < i" | "j = i" | "i < j" by linarith
  then show ?thesis
  proof cases
    case 1
    then show ?thesis using cell_before [OF 1, of ks] by (simp add: m' rd_memmove(2))
  next
    case 2
    then show ?thesis using key end' by (auto simp: m' rd_memmove)
  next
    case 3
    define d where "d = j - 1 - i"
    have d: "j = Suc (i + d)" "d < n - i" using 3 j by (auto simp: d_def)
    have e: "b + j * ks = b + i * ks + ks + d * ks" "b + (j - 1) * ks = b + i * ks + d * ks"
      by (simp_all add: d(1) algebra_simps)
    have "rd_bytes m' (b + j * ks) ks = rd_bytes (memmove m (b + i * ks + ks) (b + i * ks) ((n - i) * ks)) (b + j * ks) ks"
      unfolding m' e by (rule rd_memmove(2)) simp
    also have "\<dots> = rd_bytes m (b + (j - 1) * ks) ks"
      unfolding e by (rule rd_memmove_within [OF cell_before [OF d(2)]])
    finally show ?thesis using 3 by simp
  qed
qed

lemma keys_removed:
  assumes j: "j < n - 1" "i < n" and m': "m' = memmove m (b + i * ks) (b + i * ks + ks) ((n - 1 - i) * ks)"
  shows "rd_bytes m' (b + j * ks) ks = rd_bytes m (b + (if j < i then j else Suc j) * ks) ks"
proof (cases "j < i")
  case True
  then show ?thesis using cell_before [OF True, of ks] by (simp add: m' rd_memmove(2))
next
  case False
  define d where "d = j - i"
  have d: "j = i + d" "d < n - 1 - i" using False j by (auto simp: d_def)
  have "b + j * ks = b + i * ks + d * ks" "b + Suc j * ks = b + i * ks + ks + d * ks" by (simp_all add: d(1) algebra_simps)
  then show ?thesis using False rd_memmove_within [OF cell_before [OF d(2)], of m "b + i * ks" "b + i * ks + ks"]
    by (simp only: m' if_False)
qed

lemma header_frame:
  assumes "x < mp + 12 \<or> mp + 16 \<le> x"
  shows "set_upper (set_lower m mp l) mp u x = m x"
  using assms by (auto simp: header_other)

lemma header_keeps:
  "mp_flags (set_upper (set_lower m mp l) mp u) mp = mp_flags m mp"
  "mp_leaf2_ksize (set_upper (set_lower m mp l) mp u) mp = mp_leaf2_ksize m mp"
  unfolding mp_flags_def mp_leaf2_ksize_def by (rule ld_cong(1), rule header_frame, simp)+

lemma add_leaf2_code:
  assumes "mc_page mc = mp" "unat (md_xsize mc) = k" "unat (mp_leaf2_ksize m mp) = k"
    and "int (unat (mp_lower m mp)) + 2 = int l" "int (unat (mp_upper m mp)) - (int k - 2) = int u" "l \<le> u"
  shows "mdbx_node_add_leaf2 i key mc m =
     (0, mc, memmove (memmove (set_upper (set_lower m mp (of_nat l)) mp (of_nat u)) (mp + PAGEHDRSZ + i * k + k)
        (mp + PAGEHDRSZ + i * k) ((page_numkeys m mp - i) * k)) (mp + PAGEHDRSZ + i * k) (iov_base key) k)"
proof -
  have "\<not> int u < int l" using assms(6) by simp
  then show ?thesis
    unfolding mdbx_node_add_leaf2_def Let_def assms(1,2) sizeof_indx_def
    by (simp add: assms(3-5) memmove_none page_leaf2key_def header_keeps del: of_nat_unat int_nat_eq)
qed

lemma leaf2_inserted:
  assumes wf: "leaf2_wf space m mp" and i: "i \<le> page_numkeys m mp" and k: "k = unat (mp_leaf2_ksize m mp)"
    and len: "unat (iov_len key) = k" and out: "outside_page space mp key"
    and room: "unat (mp_lower m mp) + k \<le> unat (mp_upper m mp)"
    and m1: "m1 = set_upper (set_lower m mp (of_nat (unat (mp_lower m mp) + 2))) mp (of_nat (unat (mp_upper m mp) + 2 - k))"
    and m2: "m2 = memmove (memmove m1 (mp + PAGEHDRSZ + i * k + k) (mp + PAGEHDRSZ + i * k) ((page_numkeys m mp - i) * k))
        (mp + PAGEHDRSZ + i * k) (iov_base key) k"
  shows "leaf2_wf space m2 mp" "mp_leaf2_ksize m2 mp = mp_leaf2_ksize m mp"
    "leaf2_keys m2 mp = take i (leaf2_keys m mp) @ val_bytes m key # drop i (leaf2_keys m mp)"
proof -
  define n where "n = page_numkeys m mp"
  define lo where "lo = unat (mp_lower m mp)"
  define hi where "hi = unat (mp_upper m mp)"
  define b where "b = mp + PAGEHDRSZ"
  have hi16: "hi < 65536" using unsigned_less [of "mp_upper m mp", where 'a = nat] by (simp add: hi_def)
  have k2: "2 \<le> k" and sp: "space < 65536" and l2: "IS_LEAF2 m mp" using wf by (auto simp: leaf2_wf_def k)
  note facts = leaf2_wf_facts [OF wf, folded n_def lo_def hi_def k]
  note room = room [folded lo_def hi_def]
  have nk: "n * k + k \<le> space" using facts(3) room by simp
  have ik: "i * k + k + (n - i) * k = n * k + k" using i by (simp add: n_def flip: add_mult_distrib)
  have m2_other: "m2 x = m1 x" if "x < b \<or> b + space \<le> x" for x
    using that nk ik by (auto simp: m2 memmove_other b_def n_def)
  have m1_other: "m1 x = m x" if "x < mp + 12 \<or> mp + 16 \<le> x" for x using that by (simp add: m1 header_frame)
  have same: "m2 x = m1 x" if "x < mp + 16" for x using that by (intro m2_other) (simp add: b_def PAGEHDRSZ_def)
  have "mp_lower m2 mp = mp_lower m1 mp" "mp_upper m2 mp = mp_upper m1 mp" "mp_flags m2 mp = mp_flags m1 mp"
    "mp_leaf2_ksize m2 mp = mp_leaf2_ksize m1 mp"
    unfolding page_field_defs by (intro ld_cong(1) same; simp)+
  then have hdr: "mp_lower m2 mp = of_nat (lo + 2)" "mp_upper m2 mp = of_nat (hi + 2 - k)" "mp_flags m2 mp = mp_flags m mp"
    and ks2: "mp_leaf2_ksize m2 mp = mp_leaf2_ksize m mp" by (simp_all only: m1 header_fields header_keeps lo_def hi_def)
  show "mp_leaf2_ksize m2 mp = mp_leaf2_ksize m mp" by (rule ks2)
  have u: "unat (mp_lower m2 mp) = lo + 2" "unat (mp_upper m2 mp) = hi + 2 - k"
    unfolding hdr(1,2) using room k2 hi16 by (intro unat_of_nat_lt, simp)+
  have n2: "page_numkeys m2 mp = Suc n" using facts(1) by (simp add: page_numkeys_def u)
  have "hi + 2 - k + Suc n * (k - 2) = space"
  proof -
    obtain e where "k = 2 + e" using k2 le_Suc_ex by blast
    then show ?thesis using facts(1,3) room by simp
  qed
  moreover have "(lo + 2) mod 2 = 0" using facts(1) by simp
  ultimately show "leaf2_wf space m2 mp"
    unfolding leaf2_wf_def word_le_nat_alt u n2 ks2 k [symmetric] using sp l2 k2 room
    by (simp add: IS_LEAF2_def hdr(3))
  show "leaf2_keys m2 mp = take i (leaf2_keys m mp) @ val_bytes m key # drop i (leaf2_keys m mp)"
  proof (rule nth_equalityI)
    show "length (leaf2_keys m2 mp) = length (take i (leaf2_keys m mp) @ val_bytes m key # drop i (leaf2_keys m mp))"
      using i by (simp add: n2 n_def)
    fix j
    assume "j < length (leaf2_keys m2 mp)"
    then have j: "j \<le> n" by (simp add: n2)
    have rd1: "rd_bytes m1 (b + c) k = rd_bytes m (b + c) k" for c
      by (intro rd_bytes_cong m1_other) (simp add: b_def PAGEHDRSZ_def)
    have src: "rd_bytes m1 (iov_base key) k = val_bytes m key"
      unfolding len [symmetric] by (rule copied_bytes [OF out], rule m1_other) (auto simp: PAGEHDRSZ_def)
    have "leaf2_keys m2 mp ! j = rd_bytes m2 (b + j * k) k"
      using j by (simp add: leaf2_keys_nth n2 ks2 k b_def)
    also have "\<dots> = (if j < i then rd_bytes m1 (b + j * k) k else if j = i then rd_bytes m1 (iov_base key) k
        else rd_bytes m1 (b + (j - 1) * k) k)"
      using j i out nk len
      by (intro keys_inserted [where n = n]) (auto simp: n_def m2 outside_page_def b_def)
    also have "\<dots> = (take i (leaf2_keys m mp) @ val_bytes m key # drop i (leaf2_keys m mp)) ! j"
      using i j unfolding rd1 src by (auto simp: nth_append nth_Cons' leaf2_keys_nth n_def k b_def)
    finally show "leaf2_keys m2 mp ! j = (take i (leaf2_keys m mp) @ val_bytes m key # drop i (leaf2_keys m mp)) ! j" .
  qed
qed

text \<open>A key is inserted before the \<open>i\<close>th, or the page is full and the transaction fails.\<close>

lemma leaf2_added:
  assumes wf: "leaf2_wf space m mp" and mp: "mc_page mc = mp" and i: "i \<le> page_numkeys m mp"
    and ks: "unat (md_xsize mc) = unat (mp_leaf2_ksize m mp)" "unat (iov_len key) = unat (mp_leaf2_ksize m mp)"
    and out: "outside_page space mp key"
  shows "if unat (mp_lower m mp) + unat (mp_leaf2_ksize m mp) \<le> unat (mp_upper m mp)
     then \<exists>m'. mdbx_node_add_leaf2 i key mc m = (0, mc, m') \<and> leaf2_wf space m' mp \<and>
        mp_leaf2_ksize m' mp = mp_leaf2_ksize m mp \<and>
        leaf2_keys m' mp = take i (leaf2_keys m mp) @ val_bytes m key # drop i (leaf2_keys m mp)
     else mdbx_node_add_leaf2 i key mc m = (error_code MDBX_PAGE_FULL, mc\<lparr>mt_error := True\<rparr>, m)"
proof -
  define lo where "lo = unat (mp_lower m mp)"
  define hi where "hi = unat (mp_upper m mp)"
  define k where "k = unat (mp_leaf2_ksize m mp)"
  note ks = ks [folded k_def]
  show ?thesis unfolding lo_def [symmetric] hi_def [symmetric] k_def [symmetric]
  proof (cases "lo + k \<le> hi")
    case False
    then have "int hi - (int k - 2) < int lo + 2" by linarith
    then show "if lo + k \<le> hi then \<exists>m'. mdbx_node_add_leaf2 i key mc m = (0, mc, m') \<and> leaf2_wf space m' mp \<and>
        mp_leaf2_ksize m' mp = mp_leaf2_ksize m mp \<and>
        leaf2_keys m' mp = take i (leaf2_keys m mp) @ val_bytes m key # drop i (leaf2_keys m mp)
      else mdbx_node_add_leaf2 i key mc m = (error_code MDBX_PAGE_FULL, mc\<lparr>mt_error := True\<rparr>, m)"
      using False by (simp add: mdbx_node_add_leaf2_def mp ks(1) sizeof_indx_def lo_def hi_def Let_def del: of_nat_unat int_nat_eq)
  next
    case True
    have k2: "2 \<le> k" using wf by (simp add: leaf2_wf_def k_def)
    have "int (unat (mp_lower m mp)) + 2 = int (lo + 2)" "int (unat (mp_upper m mp)) - (int k - 2) = int (hi + 2 - k)"
      "lo + 2 \<le> hi + 2 - k"
      using True k2 unfolding lo_def [symmetric] hi_def [symmetric] by linarith+
    note code = add_leaf2_code [OF mp ks(1) k_def [symmetric] this, where i = i and key = key]
    note new = leaf2_inserted [OF wf i k_def ks(2) out True [unfolded lo_def hi_def] refl refl, folded lo_def hi_def]
    show "if lo + k \<le> hi then \<exists>m'. mdbx_node_add_leaf2 i key mc m = (0, mc, m') \<and> leaf2_wf space m' mp \<and>
        mp_leaf2_ksize m' mp = mp_leaf2_ksize m mp \<and>
        leaf2_keys m' mp = take i (leaf2_keys m mp) @ val_bytes m key # drop i (leaf2_keys m mp)
      else mdbx_node_add_leaf2 i key mc m = (error_code MDBX_PAGE_FULL, mc\<lparr>mt_error := True\<rparr>, m)"
      unfolding if_P [OF True] by (intro exI conjI) (rule code new)+
  qed
qed

lemma leaf2_deleted:
  assumes wf: "leaf2_wf space m mp" and mp: "mc_page mc = mp" and i: "i = unat (mc_ki mc)" "i < page_numkeys m mp"
    and ks: "ksize = unat (mp_leaf2_ksize m mp)"
  defines "m' \<equiv> mdbx_node_del ksize mc m"
  shows "leaf2_wf space m' mp" "mp_leaf2_ksize m' mp = mp_leaf2_ksize m mp"
    "leaf2_keys m' mp = take i (leaf2_keys m mp) @ drop (Suc i) (leaf2_keys m mp)"
proof -
  define n where "n = page_numkeys m mp"
  define lo where "lo = unat (mp_lower m mp)"
  define hi where "hi = unat (mp_upper m mp)"
  define b where "b = mp + PAGEHDRSZ"
  define m0 where "m0 = memmove m (b + i * ksize) (b + i * ksize + ksize) ((n - 1 - i) * ksize)"
  have k2: "2 \<le> ksize" and sp: "space < 65536" and l2: "IS_LEAF2 m mp" using wf by (auto simp: leaf2_wf_def ks)
  note facts = leaf2_wf_facts [OF wf, folded n_def lo_def hi_def ks]
  have n0: "0 < n" using i(2) by (simp add: n_def)
  have m0_other: "m0 x = m x" if "x < b" for x using that by (auto simp: m0_def memmove_other)
  have hdr0: "mp_lower m0 mp = mp_lower m mp" "mp_upper m0 mp = mp_upper m mp" "mp_flags m0 mp = mp_flags m mp"
    "mp_leaf2_ksize m0 mp = mp_leaf2_ksize m mp"
    unfolding page_field_defs by (intro ld_cong(1) m0_other; simp add: b_def PAGEHDRSZ_def)+
  have m0_end: "m0 = m" if "n \<le> Suc i" using that by (simp add: m0_def)
  have m': "m' = set_upper (set_lower m0 mp (mp_lower m mp - 2)) mp (mp_upper m mp + (of_nat ksize - 2))"
    unfolding m'_def mdbx_node_del_def node_del_leaf2_def Let_def mp i(1) [symmetric] n_def [symmetric]
    using l2 hdr0 m0_end by (simp add: memmove_none page_leaf2key_def ks [symmetric] header_fields sizeof_indx_def
        m0_def [unfolded b_def, simplified, symmetric])
  have ks': "mp_leaf2_ksize m' mp = mp_leaf2_ksize m mp" and fl': "mp_flags m' mp = mp_flags m mp"
    by (simp_all add: m' header_keeps hdr0)
  show "mp_leaf2_ksize m' mp = mp_leaf2_ksize m mp" by (rule ks')
  have two: "2 \<le> lo" using facts(1) n0 by simp
  have lo': "unat (mp_lower m' mp) = lo - 2" using two by (simp add: m' header_fields lo_def unat_minus_2)
  obtain e where e: "ksize = 2 + e" using k2 le_Suc_ex by blast
  have sp2: "hi + n * e = space" using facts(1,3) by (simp add: e algebra_simps)
  have hie: "hi + e \<le> space" using sp2 n0 by (metis add_le_cancel_left mult.commute mult_le_mono2 mult.right_neutral Suc_leI One_nat_def)
  have hi': "unat (mp_upper m' mp) = hi + e"
  proof -
    have "(of_nat ksize - 2 :: u16) = of_nat e" by (simp add: e)
    then show ?thesis using hie sp by (simp add: m' header_fields unat_add_lt unat_of_nat_lt hi_def)
  qed
  have n': "page_numkeys m' mp = n - 1" using facts(1) by (simp add: page_numkeys_def lo')
  have "hi + e + (n - 1) * (ksize - 2) = space" using sp2 n0 by (cases n) (simp_all add: e)
  moreover have "lo \<le> hi" using wf by (simp add: leaf2_wf_def word_le_nat_alt lo_def hi_def)
  moreover have "(lo - 2) mod 2 = 0" using facts(1) by (simp add: mod_eq_0_iff_dvd)
  ultimately show "leaf2_wf space m' mp"
    unfolding leaf2_wf_def word_le_nat_alt lo' hi' n' ks' ks [symmetric] using sp l2 k2
    by (simp add: IS_LEAF2_def fl')
  show "leaf2_keys m' mp = take i (leaf2_keys m mp) @ drop (Suc i) (leaf2_keys m mp)"
  proof (rule nth_equalityI)
    show "length (leaf2_keys m' mp) = length (take i (leaf2_keys m mp) @ drop (Suc i) (leaf2_keys m mp))"
      using i by (simp add: n' n_def)
    fix j
    assume "j < length (leaf2_keys m' mp)"
    then have j: "j < n - 1" by (simp add: n')
    have "leaf2_keys m' mp ! j = rd_bytes m' (b + j * ksize) ksize"
      using j by (simp add: leaf2_keys_nth n' ks' ks b_def)
    also have "\<dots> = rd_bytes m0 (b + j * ksize) ksize"
      unfolding m' by (intro rd_bytes_cong header_frame) (simp add: b_def PAGEHDRSZ_def)
    also have "\<dots> = rd_bytes m (b + (if j < i then j else Suc j) * ksize) ksize"
      by (rule keys_removed [OF j i(2) [folded n_def] m0_def])
    also have "\<dots> = (take i (leaf2_keys m mp) @ drop (Suc i) (leaf2_keys m mp)) ! j"
      using i j by (auto simp: nth_append leaf2_keys_nth n_def ks b_def min_def)
    finally show "leaf2_keys m' mp ! j = (take i (leaf2_keys m mp) @ drop (Suc i) (leaf2_keys m mp)) ! j" .
  qed
qed

lemma wr_bytes_twice: "length xs = length ys \<Longrightarrow> wr_bytes (wr_bytes m a xs) a ys = wr_bytes m a ys"
  by (rule ext) (simp add: wr_bytes_def)

lemma branch_without_key:
  "mdbx_node_add_branch env indx None pgno mc m = mdbx_node_add_branch env indx (Some \<lparr>iov_base = 0, iov_len = 0\<rparr>) pgno mc m"
proof -
  have "node_set_ks (node_set_ks m node 0) node 0 = node_set_ks m node 0" for m node
    by (simp add: node_set_ks_def unaligned_poke_eq st16_def wr_bytes_twice)
  then show ?thesis
    by (simp add: mdbx_node_add_branch_def branch_size_def node_size_def Let_def split: option.splits prod.splits)
qed

subsection \<open>Properties\<close>

text \<open>
  C7: \<open>mdbx_node_add_leaf\<close> on a page with room inserts the node before the \<open>indx\<close>th one of
  the page's list of nodes, with the key's bytes and the data's (or the number of the data's
  large page), or hands out the address of the data that a reservation leaves to the caller.
  The layout of the page is kept, every other node too, and no byte outside the page is
  written.  Without room the result is \<open>MDBX_PAGE_FULL\<close> and the transaction is marked broken.
\<close>

theorem leaf_insert_refines_list:
  assumes "page_wf space m (mc_page mc)" "IS_LEAF m (mc_page mc)" "indx \<le> page_numkeys m (mc_page mc)"
    and "is_big flags \<or> node_size (Some key) (Some data) \<le> unat (me_leaf_nodemax env)"
    and "outside_page space (mc_page mc) key" "outside_page space (mc_page mc) (leaf_source flags data) \<or> is_reserve flags"
  shows "if unat (mp_lower m (mc_page mc)) + leaf_bytes flags key data \<le> unat (mp_upper m (mc_page mc))
     then \<exists>m' d nd. mdbx_node_add_leaf env alloc indx key data flags mc m = (0, mc, m', d) \<and> page_wf space m' (mc_page mc) \<and>
       page_nodes m' (mc_page mc) = take indx (page_nodes m (mc_page mc)) @ nd # drop indx (page_nodes m (mc_page mc)) \<and>
       tn_word nd = ucast (iov_len data) \<and> tn_flags nd = ucast flags \<and> tn_extra nd = 0 \<and> tn_key nd = val_bytes m key \<and>
       (if is_reserve flags then iov_len d = iov_len data \<and> tn_data nd = val_bytes m' d
        else d = data \<and> tn_data nd = val_bytes m (leaf_source flags data)) \<and>
       (\<forall>x. x < mc_page mc \<or> mc_page mc + PAGEHDRSZ + space \<le> x \<longrightarrow> m' x = m x)
     else \<exists>m'. mdbx_node_add_leaf env alloc indx key data flags mc m =
       (error_code MDBX_PAGE_FULL, mc\<lparr>mt_error := True\<rparr>, m', data)"
proof (cases "unat (mp_lower m (mc_page mc)) + leaf_bytes flags key data \<le> unat (mp_upper m (mc_page mc))")
  case True
  show ?thesis unfolding if_P [OF True] by (rule leaf_added [OF assms(1) refl assms(2-6) True])
next
  case False
  then have f: "fst (open_slot (mc_page mc) indx (leaf_bytes flags key data) m) = False" by (intro open_slot_full) simp
  have "leaf_placement env alloc key data flags mc m = (0, None, flags, leaf_bytes flags key data, mc, m)"
    using assms(4) by (auto simp: leaf_placement_def leaf_bytes_def is_big_def)
  then show ?thesis unfolding if_not_P [OF False]
    using f by (cases "open_slot (mc_page mc) indx (leaf_bytes flags key data) m") (simp add: mdbx_node_add_leaf_def)
qed

definition demo_cursor :: tree_cursor where
  "demo_cursor = \<lparr>mc_page = 1000, mc_ki = 0, md_xsize = 0, md_flags = 0, mt_error = False, mt_front = 1, mc_sub = False,
     md_branch_pages = 0, md_leaf_pages = 1, md_overflow_pages = 0, outer_branch_pages = 0, outer_leaf_pages = 0\<rparr>"

text \<open>A leaf page of 256 bytes with one node, the key \<open>61\<close> with the value \<open>62\<close>.\<close>

definition demo_page :: mem where
  "demo_page = wr_bytes (wr_bytes (\<lambda>x. 7) 1010 [2, 0, 2, 0, 226, 0, 1, 0, 0, 0, 226, 0]) 1246 [1, 0, 0, 0, 0, 0, 1, 0, 0x61, 0x62]"

lemma demo_page_ld:
  "mp_flags demo_page 1000 = 2" "mp_lower demo_page 1000 = 2" "mp_upper demo_page 1000 = 226"
  "mp_ptrs demo_page 1000 0 = 226" "page_numkeys demo_page 1000 = 1"
  by (simp_all add: page_numkeys_def page_field_defs demo_page_def ld16_def rd_bytes_def wr_bytes_def PAGEHDRSZ_def upt_rec)

lemma demo_node_ld:
  "ld32 demo_page 1246 = 1" "ld8 demo_page 1250 = 0" "ld8 demo_page 1251 = 0" "ld16 demo_page 1252 = 1"
  "rd_bytes demo_page 1254 1 = [0x61]" "rd_bytes demo_page 1255 1 = [0x62]"
  by (simp_all add: demo_page_def ld32_def ld16_def ld8_def rd_bytes_def wr_bytes_def upt_rec)

lemma demo_page_wf: "page_wf 236 demo_page 1000" "IS_LEAF demo_page 1000"
  "page_nodes demo_page 1000 = [\<lparr>tn_word = 1, tn_flags = 0, tn_extra = 0, tn_key = [0x61], tn_data = [0x62]\<rparr>]"
proof -
  have slots: "page_slots demo_page 1000 = [226]" by (simp add: page_slots_def demo_page_ld)
  show leaf: "IS_LEAF demo_page 1000" by (simp add: IS_LEAF_def demo_page_ld P_LEAF_def)
  have ks: "node_ks demo_page 1246 = 1" by (simp add: node_ks_def unaligned_peek_eq demo_node_ld)
  have pl: "node_payload demo_page True 1246 = 1"
    by (simp add: node_payload_def node_flags_def node_ds_def unaligned_peek_eq demo_node_ld)
  have "slot_size demo_page 1000 226 = 10"
    by (simp add: slot_size_def leaf PAGEHDRSZ_def node_bytes_used_def ks pl NODESIZE_def even_ceil_def)
  then have "blocks_ok 236 226 (slot_size demo_page 1000) [226]" by (simp add: blocks_ok_def)
  then show "page_wf 236 demo_page 1000"
    by (simp add: page_wf_def demo_page_ld slots P_LEAF2_def)
  show "page_nodes demo_page 1000 = [\<lparr>tn_word = 1, tn_flags = 0, tn_extra = 0, tn_key = [0x61], tn_data = [0x62]\<rparr>]"
    by (simp add: page_nodes_def slots slot_node_def leaf PAGEHDRSZ_def node_at_def demo_node_ld ks pl node_data_def
        node_key_def NODESIZE_def del: One_nat_def)
qed

definition demo_key :: mdbx_val where "demo_key = \<lparr>iov_base = 10, iov_len = 3\<rparr>"

theorem leaf_insert_refines_list_witness:
  "\<exists>m' d nd. mdbx_node_add_leaf demo_env (\<lambda>m n. (12, 0, m)) 1 demo_key demo_key 0 demo_cursor demo_page = (0, demo_cursor, m', d) \<and>
     page_wf 236 m' 1000 \<and> page_nodes m' 1000 = page_nodes demo_page 1000 @ [nd] \<and> tn_key nd = [7, 7, 7]"
proof -
  have k: "val_bytes demo_page demo_key = [7, 7, 7]"
    by (simp add: val_bytes_def demo_key_def rd_bytes_def demo_page_def wr_bytes_def upt_rec)
  have big: "\<not> is_big 0" "\<not> is_reserve 0" by (simp_all add: is_big_def is_reserve_def)
  have "leaf_bytes 0 demo_key demo_key = 16"
    by (simp add: leaf_bytes_def big node_size_def node_size_len_def demo_key_def NODESIZE_def sizeof_indx_def even_ceil_def)
  moreover have "node_size (Some demo_key) (Some demo_key) \<le> unat (me_leaf_nodemax demo_env)"
    by (simp add: node_size_def node_size_len_def demo_key_def NODESIZE_def even_ceil_def demo_env_def)
  moreover have "outside_page 236 1000 demo_key" "leaf_source 0 demo_key = demo_key"
    by (simp_all add: outside_page_def demo_key_def leaf_source_def big)
  moreover have "mc_page demo_cursor = 1000" by (simp add: demo_cursor_def)
  ultimately show ?thesis
    using leaf_insert_refines_list [of 236 demo_page demo_cursor 1 0 demo_key demo_key demo_env "\<lambda>m n. (12, 0, m)"]
      demo_page_wf k by (auto simp: demo_page_ld nth_append simp del: One_nat_def)
qed

text \<open>
  C11: \<open>mdbx_node_add_branch\<close> on a page with room inserts a node with the child's page number
  and the key (none for the leftmost child) before the \<open>indx\<close>th one, keeps the layout and
  the other nodes, and writes nothing outside the page; without room it is \<open>MDBX_PAGE_FULL\<close>.
\<close>

theorem branch_insert_refines_list:
  assumes "page_wf space m (mc_page mc)" "\<not> IS_LEAF m (mc_page mc)" "indx \<le> page_numkeys m (mc_page mc)"
    and "branch_size env key = Some nb"
    and "case key of None \<Rightarrow> True | Some k \<Rightarrow> outside_page space (mc_page mc) k"
  shows "if unat (mp_lower m (mc_page mc)) + nb \<le> unat (mp_upper m (mc_page mc))
     then \<exists>m'. mdbx_node_add_branch env indx key pgno mc m = Some (0, mc, m') \<and> page_wf space m' (mc_page mc) \<and>
       page_nodes m' (mc_page mc) = take indx (page_nodes m (mc_page mc)) @
         \<lparr>tn_word = pgno, tn_flags = 0, tn_extra = 0,
          tn_key = (case key of None \<Rightarrow> [] | Some k \<Rightarrow> val_bytes m k), tn_data = []\<rparr> # drop indx (page_nodes m (mc_page mc)) \<and>
       (\<forall>x. x < mc_page mc \<or> mc_page mc + PAGEHDRSZ + space \<le> x \<longrightarrow> m' x = m x)
     else \<exists>m'. mdbx_node_add_branch env indx key pgno mc m = Some (error_code MDBX_PAGE_FULL, mc\<lparr>mt_error := True\<rparr>, m')"
proof (cases "unat (mp_lower m (mc_page mc)) + nb \<le> unat (mp_upper m (mc_page mc))")
  case True
  define k where "k = (case key of None \<Rightarrow> \<lparr>iov_base = 0, iov_len = 0\<rparr> | Some k \<Rightarrow> k)"
  have "mdbx_node_add_branch env indx key pgno mc m = mdbx_node_add_branch env indx (Some k) pgno mc m"
    by (cases key) (simp_all add: k_def branch_without_key)
  moreover have "branch_size env (Some k) = Some nb" "outside_page space (mc_page mc) k"
    "val_bytes m k = (case key of None \<Rightarrow> [] | Some k \<Rightarrow> val_bytes m k)"
    using assms(4,5) by (cases key; simp add: k_def branch_size_def node_size_def outside_page_def val_bytes_def)+
  ultimately show ?thesis unfolding if_P [OF True] using branch_added [OF assms(1) refl assms(2,3) _ _ True] by metis
next
  case False
  then have f: "fst (open_slot (mc_page mc) indx nb m) = False" by (intro open_slot_full) simp
  then show ?thesis unfolding if_not_P [OF False] using assms(4)
    by (cases "open_slot (mc_page mc) indx nb m") (simp add: mdbx_node_add_branch_def)
qed

text \<open>A branch page of 256 bytes without nodes.\<close>

definition demo_branch :: mem where
  "demo_branch = wr_bytes (\<lambda>x. 7) 1010 [1, 0, 0, 0, 236, 0]"

lemma demo_branch_ld:
  "mp_flags demo_branch 1000 = 1" "mp_lower demo_branch 1000 = 0" "mp_upper demo_branch 1000 = 236"
  "page_numkeys demo_branch 1000 = 0" "page_nodes demo_branch 1000 = []" "\<not> IS_LEAF demo_branch 1000"
  "page_wf 236 demo_branch 1000"
proof -
  show h: "mp_flags demo_branch 1000 = 1" "mp_lower demo_branch 1000 = 0" "mp_upper demo_branch 1000 = 236"
    by (simp_all add: page_field_defs demo_branch_def ld16_def rd_bytes_def wr_bytes_def upt_rec)
  show n: "page_numkeys demo_branch 1000 = 0" by (simp add: page_numkeys_def h)
  show "page_nodes demo_branch 1000 = []" "\<not> IS_LEAF demo_branch 1000"
    by (simp_all add: page_nodes_def page_slots_def n IS_LEAF_def h P_LEAF_def)
  show "page_wf 236 demo_branch 1000"
    by (simp add: page_wf_def h page_slots_def n blocks_ok_def P_LEAF2_def)
qed

theorem branch_insert_refines_list_witness:
  "\<exists>m'. mdbx_node_add_branch demo_env 0 (Some demo_key) 99 demo_cursor demo_branch = Some (0, demo_cursor, m') \<and>
     page_nodes m' 1000 = [\<lparr>tn_word = 99, tn_flags = 0, tn_extra = 0, tn_key = [7, 7, 7], tn_data = []\<rparr>]"
proof -
  have k: "val_bytes demo_branch demo_key = [7, 7, 7]"
    by (simp add: val_bytes_def demo_key_def rd_bytes_def demo_branch_def wr_bytes_def upt_rec)
  have "branch_size demo_env (Some demo_key) = Some 14"
    by (simp add: branch_size_def node_size_def node_size_len_def demo_key_def NODESIZE_def sizeof_indx_def even_ceil_def
        demo_env_def)
  moreover have "outside_page 236 1000 demo_key" by (simp add: outside_page_def demo_key_def)
  moreover have "mc_page demo_cursor = 1000" by (simp add: demo_cursor_def)
  ultimately show ?thesis
    using branch_insert_refines_list [of 236 demo_branch demo_cursor 0 demo_env "Some demo_key" 14 99] k
    by (auto simp: demo_branch_ld)
qed

text \<open>
  C8: \<open>mdbx_node_del\<close> on a page of nodes removes exactly the node at the cursor: the list of the
  others is unchanged, the layout invariant holds again with the node's bytes given back to
  the free room, and nothing outside the page is written.
\<close>

theorem node_del_removes_node:
  assumes "page_wf space m (mc_page mc)" "unat (mc_ki mc) < page_numkeys m (mc_page mc)"
  shows "page_wf space (mdbx_node_del ksize mc m) (mc_page mc) \<and>
     page_nodes (mdbx_node_del ksize mc m) (mc_page mc) =
       take (unat (mc_ki mc)) (page_nodes m (mc_page mc)) @ drop (Suc (unat (mc_ki mc))) (page_nodes m (mc_page mc)) \<and>
     unat (page_room (mdbx_node_del ksize mc m) (mc_page mc)) =
       unat (page_room m (mc_page mc)) + 2 + slot_size m (mc_page mc) (page_slots m (mc_page mc) ! unat (mc_ki mc)) \<and>
     (\<forall>x. x < mc_page mc \<or> mc_page mc + PAGEHDRSZ + space \<le> x \<longrightarrow> mdbx_node_del ksize mc m x = m x)"
proof -
  note del = node_deleted [where ksize = ksize, OF assms(1) refl refl assms(2)]
  have room: "unat (page_room m mp) = unat (mp_upper m mp) - unat (mp_lower m mp)" if "page_wf space m mp" for m mp
  proof -
    have "unat (mp_lower m mp) \<le> unat (mp_upper m mp)" using that by (simp add: page_wf_def word_le_nat_alt)
    moreover have "unat (mp_upper m mp) < 65536" using unsigned_less [of "mp_upper m mp", where 'a = nat] by simp
    ultimately have "unat (of_nat (unat (mp_upper m mp) - unat (mp_lower m mp)) :: u32) = unat (mp_upper m mp) - unat (mp_lower m mp)"
      by (intro unat_of_nat_lt) simp
    moreover have "int (unat (mp_upper m mp)) - int (unat (mp_lower m mp)) = int (unat (mp_upper m mp) - unat (mp_lower m mp))"
      using \<open>unat (mp_lower m mp) \<le> unat (mp_upper m mp)\<close> by (simp add: of_nat_diff)
    ultimately show ?thesis by (simp only: page_room_def of_int_of_nat_eq)
  qed
  have "unat (mp_lower m (mc_page mc)) \<le> unat (mp_upper m (mc_page mc))"
    using assms(1) by (simp add: page_wf_def word_le_nat_alt)
  then show ?thesis using del(1,3-6) room [OF assms(1)] room [OF del(1)] by (intro conjI) auto
qed

theorem node_del_removes_node_witness:
  "page_wf 236 (mdbx_node_del 0 demo_cursor demo_page) 1000 \<and> page_nodes (mdbx_node_del 0 demo_cursor demo_page) 1000 = []"
  using node_del_removes_node [of 236 demo_page demo_cursor 0] demo_page_wf
  by (simp add: demo_cursor_def demo_page_ld)

text \<open>
  C10: On a page of keys of equal size, \<open>mdbx_node_add_leaf2\<close> inserts the key's bytes before the
  key at the cursor, or answers \<open>MDBX_PAGE_FULL\<close> without touching the page;
  \<open>mdbx_node_del\<close> removes the key at the cursor, and takes an inserted key out again.
\<close>

theorem leaf2_page_refines_key_list:
  assumes "leaf2_wf space m (mc_page mc)" "unat (mc_ki mc) \<le> page_numkeys m (mc_page mc)"
    and "unat (md_xsize mc) = unat (mp_leaf2_ksize m (mc_page mc))" "unat (iov_len key) = unat (mp_leaf2_ksize m (mc_page mc))"
    and "outside_page space (mc_page mc) key"
  shows "(if unat (mp_lower m (mc_page mc)) + unat (md_xsize mc) \<le> unat (mp_upper m (mc_page mc))
      then \<exists>m'. mdbx_node_add_leaf2 (unat (mc_ki mc)) key mc m = (0, mc, m') \<and> leaf2_wf space m' (mc_page mc) \<and>
         leaf2_keys m' (mc_page mc) = take (unat (mc_ki mc)) (leaf2_keys m (mc_page mc)) @ val_bytes m key #
           drop (unat (mc_ki mc)) (leaf2_keys m (mc_page mc)) \<and>
         leaf2_keys (mdbx_node_del (unat (md_xsize mc)) mc m') (mc_page mc) = leaf2_keys m (mc_page mc)
      else mdbx_node_add_leaf2 (unat (mc_ki mc)) key mc m = (error_code MDBX_PAGE_FULL, mc\<lparr>mt_error := True\<rparr>, m)) \<and>
     (unat (mc_ki mc) < page_numkeys m (mc_page mc) \<longrightarrow>
        leaf2_wf space (mdbx_node_del (unat (md_xsize mc)) mc m) (mc_page mc) \<and>
        leaf2_keys (mdbx_node_del (unat (md_xsize mc)) mc m) (mc_page mc) =
          take (unat (mc_ki mc)) (leaf2_keys m (mc_page mc)) @ drop (Suc (unat (mc_ki mc))) (leaf2_keys m (mc_page mc)))"
proof -
  let ?i = "unat (mc_ki mc)" and ?mp = "mc_page mc" and ?ks = "unat (md_xsize mc)"
  note add = leaf2_added [OF assms(1) refl assms(2-5), folded assms(3)]
  have undone: "leaf2_keys (mdbx_node_del ?ks mc m') ?mp = leaf2_keys m ?mp"
    if m': "leaf2_wf space m' ?mp" "mp_leaf2_ksize m' ?mp = mp_leaf2_ksize m ?mp"
      "leaf2_keys m' ?mp = take ?i (leaf2_keys m ?mp) @ val_bytes m key # drop ?i (leaf2_keys m ?mp)" for m'
  proof -
    have "page_numkeys m' ?mp = Suc (page_numkeys m ?mp)" using arg_cong [OF m'(3), of length] assms(2) by simp
    then have "?i < page_numkeys m' ?mp" using assms(2) by simp
    note del = leaf2_deleted [OF m'(1) refl refl this, of ?ks]
    show ?thesis using del(3) m' assms(2,3) by (simp add: min_def)
  qed
  show ?thesis
  proof (intro conjI impI)
    show "if unat (mp_lower m ?mp) + ?ks \<le> unat (mp_upper m ?mp)
      then \<exists>m'. mdbx_node_add_leaf2 ?i key mc m = (0, mc, m') \<and> leaf2_wf space m' ?mp \<and>
         leaf2_keys m' ?mp = take ?i (leaf2_keys m ?mp) @ val_bytes m key # drop ?i (leaf2_keys m ?mp) \<and>
         leaf2_keys (mdbx_node_del ?ks mc m') ?mp = leaf2_keys m ?mp
      else mdbx_node_add_leaf2 ?i key mc m = (error_code MDBX_PAGE_FULL, mc\<lparr>mt_error := True\<rparr>, m)"
      using add undone by (auto split: if_splits)
    show "leaf2_wf space (mdbx_node_del ?ks mc m) ?mp"
      "leaf2_keys (mdbx_node_del ?ks mc m) ?mp = take ?i (leaf2_keys m ?mp) @ drop (Suc ?i) (leaf2_keys m ?mp)"
      if "?i < page_numkeys m ?mp"
      using leaf2_deleted [OF assms(1) refl refl that assms(3)] by auto
  qed
qed

definition demo_leaf2 :: mem where
  "demo_leaf2 = wr_bytes (\<lambda>x. 7) 1008 [3, 0, 0x22, 0, 0, 0, 236, 0]"

theorem leaf2_page_refines_key_list_witness:
  "\<exists>m'. mdbx_node_add_leaf2 0 demo_key (demo_cursor\<lparr>md_xsize := 3\<rparr>) demo_leaf2 = (0, demo_cursor\<lparr>md_xsize := 3\<rparr>, m') \<and>
     leaf2_keys m' 1000 = [[7, 7, 7]] \<and> leaf2_keys (mdbx_node_del 3 (demo_cursor\<lparr>md_xsize := 3\<rparr>) m') 1000 = []"
proof -
  have h: "mp_flags demo_leaf2 1000 = 0x22" "mp_lower demo_leaf2 1000 = 0" "mp_upper demo_leaf2 1000 = 236"
    "mp_leaf2_ksize demo_leaf2 1000 = 3"
    by (simp_all add: page_field_defs demo_leaf2_def ld16_def rd_bytes_def wr_bytes_def upt_rec)
  have n: "page_numkeys demo_leaf2 1000 = 0" by (simp add: page_numkeys_def h)
  have "leaf2_wf 236 demo_leaf2 1000" by (simp add: leaf2_wf_def h n IS_LEAF2_def P_LEAF2_def)
  moreover have "leaf2_keys demo_leaf2 1000 = []" by (simp add: leaf2_keys_def n)
  moreover have "val_bytes demo_leaf2 demo_key = [7, 7, 7]"
    by (simp add: val_bytes_def demo_key_def rd_bytes_def demo_leaf2_def wr_bytes_def upt_rec)
  moreover have "outside_page 236 1000 demo_key" "unat (iov_len demo_key) = 3" by (simp_all add: outside_page_def demo_key_def)
  ultimately show ?thesis
    using leaf2_page_refines_key_list [of 236 demo_leaf2 "demo_cursor\<lparr>md_xsize := 3\<rparr>" demo_key]
    by (auto simp: demo_cursor_def h n)
qed

end
