(* ===== verification/Comparators.thy ===== *)
theory Comparators
  imports Ordered_Binary Environment
begin

text \<open>
  The key and value comparators of libmdbx, what order each of them is, and the choice of
  the comparator for a table's flags.  What the search routines need of a comparator is the
  locale \<open>key_order\<close>, interpreted here for each of them.
\<close>

subsection \<open>The interface\<close>

text \<open>
  A comparator on keys: only the sign of its result counts, exchanging the keys changes the
  sign, and \<open>\<le>\<close> is transitive.
\<close>

locale key_order =
  fixes ord :: "'k \<Rightarrow> 'k \<Rightarrow> int"
  assumes ord_swap: "sgn (ord b a) = - sgn (ord a b)"
    and ord_trans: "ord a b \<le> 0 \<Longrightarrow> ord b c \<le> 0 \<Longrightarrow> ord a c \<le> 0"
begin

lemma ord_refl: "ord a a = 0"
  using ord_swap [of a a] by (auto simp: sgn_if split: if_splits)

lemma ord_flip: "0 < ord a b \<longleftrightarrow> ord b a < 0" "ord a b = 0 \<longleftrightarrow> ord b a = 0" "0 \<le> ord a b \<longleftrightarrow> ord b a \<le> 0"
  using ord_swap [of a b] by (auto simp: sgn_if split: if_splits)

lemma ord_less_trans: "ord a b < 0 \<Longrightarrow> ord b c \<le> 0 \<Longrightarrow> ord a c < 0"
proof (rule ccontr)
  assume "ord a b < 0" "ord b c \<le> 0" "\<not> ord a c < 0"
  then have "ord c a \<le> 0" using ord_flip(3) [of a c] by linarith
  then have "ord b a \<le> 0" using ord_trans \<open>ord b c \<le> 0\<close> by blast
  then show False using \<open>ord a b < 0\<close> ord_flip(1) [of b a] by simp
qed

lemma ord_le_less_trans: "ord a b \<le> 0 \<Longrightarrow> ord b c < 0 \<Longrightarrow> ord a c < 0"
proof (rule ccontr)
  assume "ord a b \<le> 0" "ord b c < 0" "\<not> ord a c < 0"
  then have "ord c a \<le> 0" using ord_flip(3) [of a c] by linarith
  then have "ord c b \<le> 0" using ord_trans \<open>ord a b \<le> 0\<close> by blast
  then show False using \<open>ord b c < 0\<close> ord_flip(1) [of c b] by simp
qed

definition ascending :: "'k list \<Rightarrow> bool" where
  "ascending ks \<longleftrightarrow> sorted_wrt (\<lambda>a b. ord a b < 0) ks"

lemma ascending_nth: "ascending ks \<Longrightarrow> i < j \<Longrightarrow> j < length ks \<Longrightarrow> ord (ks ! i) (ks ! j) < 0"
  unfolding ascending_def by (rule sorted_wrt_nth_less)

lemma ascending_below: "ascending ks \<Longrightarrow> 0 < ord k (ks ! i) \<Longrightarrow> j \<le> i \<Longrightarrow> i < length ks \<Longrightarrow> 0 < ord k (ks ! j)"
proof -
  assume a: "ascending ks" "0 < ord k (ks ! i)" "j \<le> i" "i < length ks"
  then have "j = i \<or> ord (ks ! j) (ks ! i) < 0" using ascending_nth [of ks j i] by fastforce
  moreover have "ord (ks ! i) k \<le> 0" using a(2) ord_flip(1) [of k "ks ! i"] by simp
  ultimately show ?thesis using a(2) ord_less_trans [of "ks ! j" "ks ! i" k] ord_flip(1) by auto
qed

lemma ascending_above: "ascending ks \<Longrightarrow> ord k (ks ! i) < 0 \<Longrightarrow> i \<le> j \<Longrightarrow> j < length ks \<Longrightarrow> ord k (ks ! j) < 0"
proof -
  assume a: "ascending ks" "ord k (ks ! i) < 0" "i \<le> j" "j < length ks"
  then have "j = i \<or> ord (ks ! i) (ks ! j) < 0" using ascending_nth [of ks i j] by fastforce
  then show ?thesis using a(2) ord_less_trans [of k "ks ! i" "ks ! j"] by auto
qed

text \<open>A key put where the search of the next greater one ends keeps the order.\<close>

lemma ascending_insert:
  assumes "ascending ks" "i \<le> length ks" "\<forall>j < i. 0 < ord k (ks ! j)" "\<forall>j. i \<le> j \<longrightarrow> j < length ks \<longrightarrow> ord k (ks ! j) < 0"
  shows "ascending (take i ks @ k # drop i ks)"
proof -
  have s: "sorted_wrt (\<lambda>a b. ord a b < 0) (take i ks)" "sorted_wrt (\<lambda>a b. ord a b < 0) (drop i ks)"
    using assms(1) by (simp_all add: ascending_def sorted_wrt_take sorted_wrt_drop)
  have l: "\<forall>x \<in> set (take i ks). ord x k < 0"
    using assms(2,3) ord_flip(1) by (auto simp: in_set_conv_nth)
  have r: "\<forall>y \<in> set (drop i ks). ord k y < 0"
    using assms(2,4) by (auto simp: in_set_conv_nth)
  have "\<forall>x \<in> set (take i ks). \<forall>y \<in> set (drop i ks). ord x y < 0"
    using l r ord_less_trans less_imp_le by blast
  then show ?thesis using s l r by (simp add: ascending_def sorted_wrt_append)
qed

end

subsection \<open>The code\<close>

text \<open>
  \<open>memcmp\<close> of the C library, of which only the sign is specified; the difference of the first
  bytes that differ would do as well.
\<close>

definition memcmp :: "mem \<Rightarrow> nat \<Rightarrow> nat \<Rightarrow> nat \<Rightarrow> int" where
  "memcmp m a b n = lex_cmp (rd_bytes m a n) (rd_bytes m b n)"

definition CMP2INT :: "'a::linorder \<Rightarrow> 'a \<Rightarrow> int" where
  "CMP2INT a b = (if b > a then -1 else if a > b then 1 else 0)"

text \<open>
  The three integer comparators differ in the alignment that they may rely on; a length that
  is neither 4 nor 8 fails an assertion, \<^const>\<open>None\<close>.  \<open>ok\<close> is \<open>MDBX_UNALIGNED_OK\<close>.
\<close>

definition cmp_int_align4 :: "bool \<Rightarrow> mem \<Rightarrow> mdbx_val \<Rightarrow> mdbx_val \<Rightarrow> int option" where
  "cmp_int_align4 ok m a b =
     (if iov_len a = 4
      then Some (CMP2INT (unaligned_peek_u32 ok 4 m (iov_base a)) (unaligned_peek_u32 ok 4 m (iov_base b)))
      else if iov_len a = 8
      then Some (CMP2INT (unaligned_peek_u64 ok 4 m (iov_base a)) (unaligned_peek_u64 ok 4 m (iov_base b)))
      else None)"

definition cmp_int_align2 :: "bool \<Rightarrow> mem \<Rightarrow> mdbx_val \<Rightarrow> mdbx_val \<Rightarrow> int option" where
  "cmp_int_align2 ok m a b =
     (if iov_len a = 4
      then Some (CMP2INT (unaligned_peek_u32 ok 2 m (iov_base a)) (unaligned_peek_u32 ok 2 m (iov_base b)))
      else if iov_len a = 8
      then Some (CMP2INT (unaligned_peek_u64 ok 2 m (iov_base a)) (unaligned_peek_u64 ok 2 m (iov_base b)))
      else None)"

definition cmp_int_unaligned :: "bool \<Rightarrow> mem \<Rightarrow> mdbx_val \<Rightarrow> mdbx_val \<Rightarrow> int option" where
  "cmp_int_unaligned ok m a b =
     (if iov_len a = 4
      then Some (CMP2INT (unaligned_peek_u32 ok 1 m (iov_base a)) (unaligned_peek_u32 ok 1 m (iov_base b)))
      else if iov_len a = 8
      then Some (CMP2INT (unaligned_peek_u64 ok 1 m (iov_base a)) (unaligned_peek_u64 ok 1 m (iov_base b)))
      else None)"

definition cmp_lexical :: "mem \<Rightarrow> mdbx_val \<Rightarrow> mdbx_val \<Rightarrow> int" where
  "cmp_lexical m a b =
     (if iov_len a = iov_len b
      then if iov_len a \<noteq> 0 then memcmp m (iov_base a) (iov_base b) (unat (iov_len a)) else 0
      else let diff_len = (if iov_len a < iov_len b then -1 else 1);
               shortest = (if iov_len a < iov_len b then iov_len a else iov_len b);
               diff_data = (if shortest \<noteq> 0 then memcmp m (iov_base a) (iov_base b) (unat shortest) else 0)
           in if diff_data \<noteq> 0 then diff_data else diff_len)"

text \<open>The loop of \<open>cmp_reverse\<close> over the last \<open>n\<close> bytes, downwards from \<open>pa\<close> and \<open>pb\<close>.\<close>

fun reverse_loop :: "mem \<Rightarrow> nat \<Rightarrow> nat \<Rightarrow> nat \<Rightarrow> int" where
  "reverse_loop m pa pb 0 = 0"
| "reverse_loop m pa pb (Suc n) =
     (let diff = int (unat (m (pa - 1))) - int (unat (m (pb - 1)))
      in if diff \<noteq> 0 then diff else reverse_loop m (pa - 1) (pb - 1) n)"

definition cmp_reverse :: "mem \<Rightarrow> mdbx_val \<Rightarrow> mdbx_val \<Rightarrow> int" where
  "cmp_reverse m a b =
     (let shortest = (if iov_len a < iov_len b then iov_len a else iov_len b);
          diff = (if shortest \<noteq> 0
                  then reverse_loop m (iov_base a + unat (iov_len a)) (iov_base b + unat (iov_len b)) (unat shortest)
                  else 0)
      in if diff \<noteq> 0 then diff else CMP2INT (iov_len a) (iov_len b))"

definition cmp_lenfast :: "mem \<Rightarrow> mdbx_val \<Rightarrow> mdbx_val \<Rightarrow> int" where
  "cmp_lenfast m a b =
     (let diff = CMP2INT (iov_len a) (iov_len b)
      in if diff \<noteq> 0 \<or> iov_len a = 0 then diff
         else memcmp m (iov_base a) (iov_base b) (unat (iov_len a)))"

text \<open>Comparators as they are stored in a table; a user's one is a function of its own.\<close>

datatype comparator =
    Cmp_int_align4
  | Cmp_int_align2
  | Cmp_int_unaligned
  | Cmp_lexical
  | Cmp_reverse
  | Cmp_lenfast
  | Cmp_user "mem \<Rightarrow> mdbx_val \<Rightarrow> mdbx_val \<Rightarrow> int"

fun call_cmp :: "bool \<Rightarrow> comparator \<Rightarrow> mem \<Rightarrow> mdbx_val \<Rightarrow> mdbx_val \<Rightarrow> int option" where
  "call_cmp ok Cmp_int_align4 m a b = cmp_int_align4 ok m a b"
| "call_cmp ok Cmp_int_align2 m a b = cmp_int_align2 ok m a b"
| "call_cmp ok Cmp_int_unaligned m a b = cmp_int_unaligned ok m a b"
| "call_cmp ok Cmp_lexical m a b = Some (cmp_lexical m a b)"
| "call_cmp ok Cmp_reverse m a b = Some (cmp_reverse m a b)"
| "call_cmp ok Cmp_lenfast m a b = Some (cmp_lenfast m a b)"
| "call_cmp ok (Cmp_user f) m a b = Some (f m a b)"

text \<open>\<open>unsure_equal\<close>: whether keys that compare as equal are known to be the same bytes.\<close>

fun trusted :: "comparator \<Rightarrow> bool" where
  "trusted Cmp_lenfast = True"
| "trusted Cmp_lexical = True"
| "trusted Cmp_reverse = True"
| "trusted Cmp_int_unaligned = True"
| "trusted c = False"

definition unsure_equal :: "comparator \<Rightarrow> mem \<Rightarrow> mdbx_val \<Rightarrow> mdbx_val \<Rightarrow> bool" where
  "unsure_equal cmp m a b \<longleftrightarrow> trusted cmp \<or> cmp_lenfast m a b = 0"

definition get_default_keycmp :: "u32 \<Rightarrow> comparator" where
  "get_default_keycmp flags =
     (if flags AND MDBX_REVERSEKEY \<noteq> 0 then Cmp_reverse
      else if flags AND MDBX_INTEGERKEY \<noteq> 0 then Cmp_int_align2 else Cmp_lexical)"

definition get_default_datacmp :: "u32 \<Rightarrow> comparator" where
  "get_default_datacmp flags =
     (if flags AND MDBX_DUPSORT = 0 then Cmp_lenfast
      else if flags AND MDBX_INTEGERDUP \<noteq> 0 then Cmp_int_unaligned
      else if flags AND MDBX_REVERSEDUP \<noteq> 0 then Cmp_reverse else Cmp_lexical)"

subsection \<open>The orders\<close>

definition lenfast_order :: "u8 list \<Rightarrow> u8 list \<Rightarrow> int" where
  "lenfast_order xs ys = (if length xs = length ys then lex_cmp xs ys else CMP2INT (length xs) (length ys))"

definition reverse_order :: "u8 list \<Rightarrow> u8 list \<Rightarrow> int" where
  "reverse_order xs ys = lex_cmp (rev xs) (rev ys)"

definition integer_order :: "u8 list \<Rightarrow> u8 list \<Rightarrow> int" where
  "integer_order xs ys = CMP2INT (le_val xs) (le_val ys)"

lemma CMP2INT_sgn: "CMP2INT a b = sgn (int a - int b)"
  by (auto simp: CMP2INT_def sgn_if)

lemma CMP2INT_words: "CMP2INT a b = CMP2INT (unat a) (unat b)"
  by (simp add: CMP2INT_def word_less_nat_alt)

lemma lex_cmp_trans: "lex_cmp xs ys \<le> 0 \<Longrightarrow> lex_cmp ys zs \<le> 0 \<Longrightarrow> lex_cmp xs zs \<le> 0"
proof (induction xs arbitrary: ys zs)
  case Nil
  then show ?case by (cases zs) simp_all
next
  case (Cons x xs)
  then obtain y ys' where ys: "ys = y # ys'" by (cases ys) simp_all
  then obtain z zs' where zs: "zs = z # zs'" using Cons.prems(2) by (cases zs) simp_all
  show ?case using Cons.prems Cons.IH [of ys' zs'] by (auto simp: ys zs split: if_splits)
qed

interpretation lexical: key_order lex_cmp
proof
  show "sgn (lex_cmp b a) = - sgn (lex_cmp a b)" for a b using lex_cmp_antisym [of a b] by simp
qed (rule lex_cmp_trans)

interpretation reversed: key_order reverse_order
proof
  show "sgn (reverse_order b a) = - sgn (reverse_order a b)" for a b
    using lex_cmp_antisym [of "rev a" "rev b"] by (simp add: reverse_order_def)
  show "reverse_order a b \<le> 0 \<Longrightarrow> reverse_order b c \<le> 0 \<Longrightarrow> reverse_order a c \<le> 0" for a b c
    unfolding reverse_order_def by (rule lex_cmp_trans)
qed

interpretation lenfast: key_order lenfast_order
proof
  show "sgn (lenfast_order b a) = - sgn (lenfast_order a b)" for a b
    using lex_cmp_antisym [of a b] by (auto simp: lenfast_order_def CMP2INT_def)
  show "lenfast_order a b \<le> 0 \<Longrightarrow> lenfast_order b c \<le> 0 \<Longrightarrow> lenfast_order a c \<le> 0" for a b c
    using lex_cmp_trans [of a b c] by (auto simp: lenfast_order_def CMP2INT_def split: if_splits)
qed

interpretation integer: key_order integer_order
  by unfold_locales (auto simp: integer_order_def CMP2INT_def split: if_splits)

text \<open>The order of a comparator of the library, and the keys that it takes.\<close>

fun cmp_order :: "comparator \<Rightarrow> u8 list \<Rightarrow> u8 list \<Rightarrow> int" where
  "cmp_order Cmp_lexical = lex_cmp"
| "cmp_order Cmp_reverse = reverse_order"
| "cmp_order Cmp_lenfast = lenfast_order"
| "cmp_order (Cmp_user f) = (\<lambda>xs ys. 0)"
| "cmp_order c = integer_order"

fun cmp_takes :: "comparator \<Rightarrow> nat \<Rightarrow> bool" where
  "cmp_takes Cmp_lexical n = True"
| "cmp_takes Cmp_reverse n = True"
| "cmp_takes Cmp_lenfast n = True"
| "cmp_takes (Cmp_user f) n = False"
| "cmp_takes c n = (n = 4 \<or> n = 8)"

lemma cmp_order_key_order: "key_order (cmp_order c)"
proof (cases c)
  case (Cmp_user f)
  show ?thesis unfolding Cmp_user by unfold_locales simp_all
qed (simp_all only: cmp_order.simps lexical.key_order_axioms reversed.key_order_axioms
    lenfast.key_order_axioms integer.key_order_axioms)

lemma lex_cmp_prefix:
  "length xs < length ys \<Longrightarrow> lex_cmp xs ys = (if take (length xs) ys = xs then -1 else lex_cmp xs (take (length xs) ys))"
  by (induction xs ys rule: lex_cmp.induct) auto

lemma cmp_lexical_order: "cmp_lexical m a b = lex_cmp (val_bytes m a) (val_bytes m b)"
proof -
  let ?x = "val_bytes m a" and ?y = "val_bytes m b"
  have tk: "take k (rd_bytes m p n) = rd_bytes m p k" if "k \<le> n" for k p n
    using that by (intro nth_equalityI) auto
  consider "iov_len a = iov_len b" | "iov_len a < iov_len b" | "iov_len b < iov_len a" by fastforce
  then show ?thesis
  proof cases
    case 1
    then show ?thesis by (simp add: cmp_lexical_def memcmp_def val_bytes_def)
  next
    case 2
    then have n: "unat (iov_len a) < unat (iov_len b)" by (simp add: word_less_nat_alt)
    then have "lex_cmp ?x ?y = (if rd_bytes m (iov_base b) (unat (iov_len a)) = ?x then -1
        else lex_cmp ?x (rd_bytes m (iov_base b) (unat (iov_len a))))"
      using lex_cmp_prefix [of ?x ?y] by (simp add: val_bytes_def tk)
    then show ?thesis using 2 by (auto simp: cmp_lexical_def memcmp_def val_bytes_def Let_def)
  next
    case 3
    then have n: "unat (iov_len b) < unat (iov_len a)" by (simp add: word_less_nat_alt)
    then have "lex_cmp ?y ?x = (if rd_bytes m (iov_base a) (unat (iov_len b)) = ?y then -1
        else lex_cmp ?y (rd_bytes m (iov_base a) (unat (iov_len b))))"
      using lex_cmp_prefix [of ?y ?x] by (simp add: val_bytes_def tk)
    then have "lex_cmp ?x ?y = (if rd_bytes m (iov_base a) (unat (iov_len b)) = ?y then 1
        else lex_cmp (rd_bytes m (iov_base a) (unat (iov_len b))) ?y)"
      using lex_cmp_antisym [of ?y ?x] lex_cmp_antisym [of "rd_bytes m (iov_base a) (unat (iov_len b))" ?y]
      by (auto split: if_splits)
    moreover have "\<not> iov_len a < iov_len b" "iov_len a \<noteq> iov_len b" using 3 by auto
    ultimately show ?thesis by (auto simp: cmp_lexical_def memcmp_def val_bytes_def Let_def)
  qed
qed

lemma cmp_lenfast_order: "cmp_lenfast m a b = lenfast_order (val_bytes m a) (val_bytes m b)"
  by (auto simp: cmp_lenfast_def lenfast_order_def memcmp_def val_bytes_def CMP2INT_def Let_def word_less_nat_alt
      word_unat_eq_iff)

lemma byte_difference:
  "sgn (int (unat (x :: u8)) - int (unat y)) = (if x < y then -1 else if y < x then 1 else 0)"
  "int (unat x) - int (unat y) = 0 \<longleftrightarrow> x = y"
  by (auto simp: sgn_if word_less_def word_uint_eq_iff)

lemma rd_bytes_snoc: "rd_bytes m a (Suc n) = rd_bytes m a n @ [m (a + n)]"
  by (simp add: rd_bytes_def)

lemma reverse_loop_order:
  assumes "n \<le> length xs" "n \<le> length ys" "rd_bytes m a (length xs) = xs" "rd_bytes m b (length ys) = ys"
  shows "sgn (reverse_loop m (a + length xs) (b + length ys) n) = lex_cmp (take n (rev xs)) (take n (rev ys))"
  using assms
proof (induction n arbitrary: xs ys)
  case (Suc n)
  obtain xs' x where xs: "xs = xs' @ [x]" using Suc.prems(1) by (cases xs rule: rev_cases) simp_all
  obtain ys' y where ys: "ys = ys' @ [y]" using Suc.prems(2) by (cases ys rule: rev_cases) simp_all
  have "rd_bytes m a (length xs') = xs'" "m (a + length xs') = x"
    using Suc.prems(3) by (simp_all add: xs rd_bytes_snoc)
  moreover have "rd_bytes m b (length ys') = ys'" "m (b + length ys') = y"
    using Suc.prems(4) by (simp_all add: ys rd_bytes_snoc)
  ultimately show ?case
    using Suc.IH [of xs' ys'] Suc.prems(1,2) byte_difference [of x y]
    by (cases "x = y") (simp_all add: xs ys Let_def del: of_nat_unat int_nat_eq)
qed simp

lemma cmp_reverse_order: "sgn (cmp_reverse m a b) = reverse_order (val_bytes m a) (val_bytes m b)"
proof -
  let ?x = "val_bytes m a" and ?y = "val_bytes m b"
  define n where "n = min (length ?x) (length ?y)"
  have s: "unat (if iov_len a < iov_len b then iov_len a else iov_len b) = n"
    by (auto simp: n_def word_less_nat_alt)
  define r where "r = reverse_loop m (iov_base a + length ?x) (iov_base b + length ?y) n"
  have r: "sgn r = lex_cmp (take n (rev ?x)) (take n (rev ?y))"
    unfolding r_def by (rule reverse_loop_order) (simp_all add: n_def val_bytes_def)
  have r0: "n = 0 \<Longrightarrow> r = 0" by (simp add: r_def)
  have code: "cmp_reverse m a b = (if r \<noteq> 0 then r else CMP2INT (length ?x) (length ?y))"
  proof -
    have "(if iov_len a < iov_len b then iov_len a else iov_len b) = 0 \<longleftrightarrow> n = 0"
      by (simp only: unat_eq_zero [symmetric] s)
    then show ?thesis unfolding cmp_reverse_def Let_def s
      using r0 by (simp add: r_def CMP2INT_words)
  qed
  have split: "lex_cmp (rev ?x) (rev ?y) =
      (if take n (rev ?x) = take n (rev ?y) then lex_cmp (drop n (rev ?x)) (drop n (rev ?y))
       else lex_cmp (take n (rev ?x)) (take n (rev ?y)))"
    using lex_cmp_append [of "take n (rev ?x)" "take n (rev ?y)" "drop n (rev ?x)" "drop n (rev ?y)"]
    by (simp add: n_def)
  have tails: "lex_cmp (drop n (rev ?x)) (drop n (rev ?y)) = CMP2INT (length ?x) (length ?y)"
  proof (cases "length ?x = length ?y")
    case False
    then have "drop n (rev ?x) = [] \<and> drop n (rev ?y) \<noteq> [] \<and> length ?x < length ?y \<or>
        drop n (rev ?x) \<noteq> [] \<and> drop n (rev ?y) = [] \<and> length ?y < length ?x"
      by (auto simp: n_def)
    then show ?thesis
      by (cases "drop n (rev ?x)"; cases "drop n (rev ?y)") (auto simp: CMP2INT_def)
  qed (simp add: n_def CMP2INT_def)
  have rz: "r = 0 \<longleftrightarrow> take n (rev ?x) = take n (rev ?y)"
    using r lex_cmp_eq_0 by (metis sgn_eq_0_iff)
  show ?thesis
    using r rz split tails unfolding code reverse_order_def by (auto simp: CMP2INT_def)
qed

lemma cmp_int_order:
  assumes "iov_len a = iov_len b" "iov_len a = 4 \<or> iov_len a = 8"
  shows "cmp_int_align4 ok m a b = Some (integer_order (val_bytes m a) (val_bytes m b))"
    "cmp_int_align2 ok m a b = Some (integer_order (val_bytes m a) (val_bytes m b))"
    "cmp_int_unaligned ok m a b = Some (integer_order (val_bytes m a) (val_bytes m b))"
  using assms
  by (auto simp: cmp_int_align4_def cmp_int_align2_def cmp_int_unaligned_def integer_order_def val_bytes_def
      unaligned_peek_eq CMP2INT_words unat_ld)

text \<open>A comparator of the library is its order, up to the sign.\<close>

lemma call_cmp_order:
  assumes "cmp_takes c (unat (iov_len a))" "cmp_takes c (unat (iov_len b))"
    "c \<in> {Cmp_int_align4, Cmp_int_align2, Cmp_int_unaligned} \<Longrightarrow> iov_len a = iov_len b"
  shows "\<exists>r. call_cmp ok c m a b = Some r \<and> sgn r = sgn (cmp_order c (val_bytes m a) (val_bytes m b))"
proof -
  have i: "iov_len a = 4 \<or> iov_len a = 8" if "unat (iov_len a) = 4 \<or> unat (iov_len a) = 8"
    using that by (auto simp: word_unat_eq_iff)
  have s: "sgn (cmp_reverse m a b) = sgn (reverse_order (val_bytes m a) (val_bytes m b))"
    unfolding cmp_reverse_order by (metis cmp_reverse_order sgn_sgn)
  show ?thesis
    using assms i cmp_int_order [of a b ok m]
    by (cases c) (simp_all add: cmp_lexical_order cmp_lenfast_order s)
qed

subsection \<open>Properties\<close>

lemma cmp_order_eq_0:
  assumes "cmp_takes c (length xs)" "cmp_takes c (length ys)"
    "c \<in> {Cmp_int_align4, Cmp_int_align2, Cmp_int_unaligned} \<Longrightarrow> length xs = length ys"
  shows "cmp_order c xs ys = 0 \<longleftrightarrow> xs = ys"
  using assms le_val_inject [of xs ys]
  by (cases c) (auto simp: reverse_order_def lenfast_order_def integer_order_def CMP2INT_def)

text \<open>
  C19: Each comparator of the library decides a total order of byte strings on the keys that
  its table admits: its sign is that of the order, it is zero only for equal bytes, exchanging
  the keys turns the sign, and it is transitive.  A key that a comparator calls equal and that
  \<open>unsure_equal\<close> accepts is the same bytes.
\<close>

theorem comparators_are_total_orders:
  assumes "cmp_takes c (unat (iov_len x))" "cmp_takes c (unat (iov_len y))" "cmp_takes c (unat (iov_len z))"
    and "c \<in> {Cmp_int_align4, Cmp_int_align2, Cmp_int_unaligned} \<Longrightarrow> iov_len x = iov_len y \<and> iov_len y = iov_len z"
  shows "\<exists>xy yx yz xz. call_cmp ok c m x y = Some xy \<and> call_cmp ok c m y x = Some yx \<and>
     call_cmp ok c m y z = Some yz \<and> call_cmp ok c m x z = Some xz \<and>
     sgn xy = sgn (cmp_order c (val_bytes m x) (val_bytes m y)) \<and>
     (xy = 0 \<longleftrightarrow> val_bytes m x = val_bytes m y) \<and> sgn yx = - sgn xy \<and> (xy \<le> 0 \<and> yz \<le> 0 \<longrightarrow> xz \<le> 0) \<and>
     (xy = 0 \<longrightarrow> unsure_equal c m x y)"
proof -
  note order = cmp_order_key_order [of c]
  obtain xy yx yz xz where r: "call_cmp ok c m x y = Some xy" "call_cmp ok c m y x = Some yx"
      "call_cmp ok c m y z = Some yz" "call_cmp ok c m x z = Some xz"
    and s: "sgn xy = sgn (cmp_order c (val_bytes m x) (val_bytes m y))" "sgn yx = sgn (cmp_order c (val_bytes m y) (val_bytes m x))"
      "sgn yz = sgn (cmp_order c (val_bytes m y) (val_bytes m z))" "sgn xz = sgn (cmp_order c (val_bytes m x) (val_bytes m z))"
    using call_cmp_order [of c x y ok m] call_cmp_order [of c y x ok m] call_cmp_order [of c y z ok m]
      call_cmp_order [of c x z ok m] assms by auto
  have zero: "xy = 0 \<longleftrightarrow> val_bytes m x = val_bytes m y"
  proof -
    have "cmp_order c (val_bytes m x) (val_bytes m y) = 0 \<longleftrightarrow> val_bytes m x = val_bytes m y"
      using assms by (intro cmp_order_eq_0) auto
    moreover have "xy = 0 \<longleftrightarrow> cmp_order c (val_bytes m x) (val_bytes m y) = 0" using s(1) by (metis sgn_eq_0_iff)
    ultimately show ?thesis by simp
  qed
  have swap: "sgn yx = - sgn xy" unfolding s(1,2) by (rule key_order.ord_swap [OF order])
  have le: "sgn (a :: int) = sgn b \<Longrightarrow> a \<le> 0 \<longleftrightarrow> b \<le> 0" for a b by (auto simp: sgn_if split: if_splits)
  have trans: "xy \<le> 0 \<and> yz \<le> 0 \<longrightarrow> xz \<le> 0"
    using key_order.ord_trans [OF order] le [OF s(1)] le [OF s(3)] le [OF s(4)] by blast
  have "xy = 0 \<longrightarrow> unsure_equal c m x y"
    using zero cmp_lenfast_order [of m x y] by (simp add: unsure_equal_def lenfast_order_def CMP2INT_def)
  then show ?thesis using r s(1) zero swap trans by (intro exI conjI)
qed

theorem comparators_are_total_orders_witness:
  "\<exists>xy. call_cmp True Cmp_int_align2 (\<lambda>a. of_nat a) \<lparr>iov_base = 0, iov_len = 4\<rparr> \<lparr>iov_base = 8, iov_len = 4\<rparr> = Some xy \<and>
     sgn xy = -1"
proof -
  let ?x = "\<lparr>iov_base = 0, iov_len = 4 :: u64\<rparr>" and ?y = "\<lparr>iov_base = 8, iov_len = 4 :: u64\<rparr>" and ?m = "(\<lambda>a. of_nat a) :: mem"
  have "sgn (cmp_order Cmp_int_align2 (val_bytes ?m ?x) (val_bytes ?m ?y)) = -1"
    by (simp add: integer_order_def CMP2INT_def val_bytes_def rd_bytes_def upt_rec)
  then show ?thesis
    using comparators_are_total_orders [of Cmp_int_align2 ?x ?y ?x True ?m] by auto
qed

end
