(* ===== verification/Page_Search.thy ===== *)
theory Page_Search
  imports Page_Nodes Comparators
begin

text \<open>
  \<open>mdbx_node_search\<close>: the binary search for a key in a page of the B+tree, with any of the
  library's comparators.  Its correctness is proved inside the locale \<open>key_order\<close> and reaches
  each comparator through its interpretation.
\<close>

subsection \<open>The code\<close>

text \<open>
  The \<open>do ... while\<close> loop, common to both kinds of pages; the result is whether a key compared
  as equal, the last index and the last result.  \<^const>\<open>None\<close> is a failed assertion in the
  comparator.
\<close>

function node_search_loop :: "(int \<Rightarrow> int option) \<Rightarrow> int \<Rightarrow> int \<Rightarrow> (bool \<times> int \<times> int) option" where
  "node_search_loop cmp_at low high =
     (let i = (low + high) div 2
      in case cmp_at i of
           None \<Rightarrow> None
         | Some cr \<Rightarrow>
             if cr = 0 then Some (True, i, cr)
             else (let low' = (if cr < 0 then low else i + 1);
                       high' = (if cr < 0 then i - 1 else high)
                   in if low' \<le> high' then node_search_loop cmp_at low' high' else Some (False, i, cr)))"
  by pat_completeness auto
termination by (relation "measure (\<lambda>(c, low, high). nat (high + 1 - low))") auto

declare node_search_loop.simps [simp del]

text \<open>The address \<open>(MDBX_node *)(intptr_t)-1\<close> that stands for an entry of a \<open>P_LEAF2\<close> page.\<close>

definition FAKE_NODE :: nat where "FAKE_NODE = 2 ^ 64 - 1"

definition search_result ::
    "(int \<Rightarrow> nat) \<Rightarrow> int \<Rightarrow> tree_cursor \<Rightarrow> bool \<times> int \<times> int \<Rightarrow> bool \<times> nat option \<times> tree_cursor" where
  "search_result node_of nkeys mc res =
     (let (exact, i, cr) = res;
          i = i + (if cr > 0 then 1 else 0)
      in (exact, if i < nkeys then Some (node_of i) else None, mc\<lparr>mc_ki := word_of_int i\<rparr>))"

fun branch_cmp :: "comparator \<Rightarrow> comparator" where
  "branch_cmp Cmp_int_align2 = Cmp_int_align4"
| "branch_cmp c = c"

definition mdbx_node_search ::
    "bool \<Rightarrow> comparator \<Rightarrow> mem \<Rightarrow> mdbx_val \<Rightarrow> tree_cursor \<Rightarrow> (bool \<times> nat option \<times> tree_cursor) option" where
  "mdbx_node_search ok cmp m key mc =
     (let mp = mc_page mc;
          nkeys = int (page_numkeys m mp);
          low = int (unat (mp_flags m mp AND P_BRANCH));
          high = nkeys - 1
      in if high < low then Some (False, None, mc\<lparr>mc_ki := 0\<rparr>)
         else if IS_LEAF2 m mp
         then map_option (search_result (\<lambda>i. FAKE_NODE) nkeys mc)
                (node_search_loop (\<lambda>i. call_cmp ok cmp m key
                     \<lparr>iov_base = page_leaf2key m mp (nat i), iov_len = ucast (mp_leaf2_ksize m mp)\<rparr>) low high)
         else (let cmp = (if IS_BRANCH m mp then branch_cmp cmp else cmp)
               in map_option (search_result (\<lambda>i. page_node m mp (nat i)) nkeys mc)
                    (node_search_loop (\<lambda>i. call_cmp ok cmp m key (get_key m (page_node m mp (nat i)))) low high)))"

subsection \<open>The search in any order\<close>

context key_order
begin

lemma ord_above: "ord k a \<le> 0 \<Longrightarrow> ord a b < 0 \<Longrightarrow> ord k b < 0"
  by (rule ord_le_less_trans)

lemma ord_below: "0 \<le> ord k a \<Longrightarrow> ord b a < 0 \<Longrightarrow> 0 < ord k b"
  using ord_less_trans [of b a k] by (simp add: ord_flip)

text \<open>The result of the loop: the position \<open>p\<close> of the first key not below \<open>k\<close>, from index \<open>l\<close> on.\<close>

definition search_found :: "nat \<Rightarrow> 'k list \<Rightarrow> 'k \<Rightarrow> (bool \<times> int \<times> int) option \<Rightarrow> bool" where
  "search_found l ks k res \<longleftrightarrow>
     (\<exists>exact i cr p. res = Some (exact, i, cr) \<and> int p = i + (if cr > 0 then 1 else 0) \<and>
       l \<le> p \<and> p \<le> length ks \<and> (\<forall>j. l \<le> j \<longrightarrow> j < p \<longrightarrow> 0 < ord k (ks ! j)) \<and>
       (exact \<longrightarrow> p < length ks \<and> ord k (ks ! p) = 0) \<and>
       (\<forall>j. p \<le> j \<longrightarrow> j < length ks \<longrightarrow> (exact \<longrightarrow> j \<noteq> p) \<longrightarrow> ord k (ks ! j) < 0))"

lemma node_search_loop_finds:
  assumes sorted: "\<And>i j. l \<le> i \<Longrightarrow> i < j \<Longrightarrow> j < length ks \<Longrightarrow> ord (ks ! i) (ks ! j) < 0"
    and "\<And>i. l \<le> i \<Longrightarrow> i < length ks \<Longrightarrow> \<exists>r. cmp_at (int i) = Some r \<and> sgn r = sgn (ord k (ks ! i))"
    and "int l \<le> low" "low \<le> high" "high < int (length ks)"
    and "\<And>j. l \<le> j \<Longrightarrow> int j < low \<Longrightarrow> 0 < ord k (ks ! j)"
    and "\<And>j. high < int j \<Longrightarrow> j < length ks \<Longrightarrow> ord k (ks ! j) < 0"
  shows "search_found l ks k (node_search_loop cmp_at low high)"
  using assms(2-)
proof (induction cmp_at low high rule: node_search_loop.induct)
  case (1 cmp_at low high)
  note cmp = 1(2) and bounds = 1(3-5) and left = 1(6) and right = 1(7)
  define i where "i = nat ((low + high) div 2)"
  have i: "(low + high) div 2 = int i" "low \<le> int i" "int i \<le> high" using bounds by (simp_all add: i_def)
  have li: "l \<le> i" "i < length ks" using i bounds by linarith+
  obtain r where r: "cmp_at (int i) = Some r" "sgn r = sgn (ord k (ks ! i))" using cmp [OF li] by blast
  have step: "node_search_loop cmp_at low high =
      (if r = 0 then Some (True, int i, r)
       else (let low' = (if r < 0 then low else int i + 1); high' = (if r < 0 then int i - 1 else high)
             in if low' \<le> high' then node_search_loop cmp_at low' high' else Some (False, int i, r)))"
    by (subst node_search_loop.simps) (simp add: i(1) r(1) Let_def)
  note IH = 1(1) [OF i(1) [symmetric] r(1) _ refl refl]
  have below: "0 < ord k (ks ! j)" if "l \<le> j" "j < i" "0 \<le> ord k (ks ! i)" for j
    by (rule ord_below [OF that(3) sorted [OF that(1,2) li(2)]])
  have above: "ord k (ks ! j) < 0" if "i < j" "j < length ks" "ord k (ks ! i) \<le> 0" for j
    by (rule ord_above [OF that(3) sorted [OF li(1) that(1,2)]])
  consider "r = 0" | "r < 0" | "0 < r" by linarith
  then show ?case
  proof cases
    case 1
    then have "ord k (ks ! i) = 0" using r(2) by (simp add: sgn_eq_0_iff)
    then show ?thesis unfolding search_found_def using 1 step li below above
      by (intro exI [of _ True] exI [of _ "int i"] exI [of _ r] exI [of _ i]) auto
  next
    case 2
    then have neg: "ord k (ks ! i) < 0" using r(2) by (simp add: sgn_if split: if_splits)
    then have right': "ord k (ks ! j) < 0" if "int i - 1 < int j" "j < length ks" for j
      using above [of j] that by (cases "i = j") auto
    show ?thesis
    proof (cases "low \<le> int i - 1")
      case True
      then have "search_found l ks k (node_search_loop cmp_at low (int i - 1))"
        using IH [unfolded if_P [OF 2]] 2 cmp bounds i(3) left right' by force
      then show ?thesis using 2 True step by simp
    next
      case False
      then have "int i = low" using i by linarith
      then show ?thesis unfolding search_found_def using 2 False step li left right'
        by (intro exI [of _ False] exI [of _ "int i"] exI [of _ r] exI [of _ i]) auto
    qed
  next
    case 3
    then have pos: "0 < ord k (ks ! i)" using r(2) by (simp add: sgn_if split: if_splits)
    then have left': "0 < ord k (ks ! j)" if "l \<le> j" "int j < int i + 1" for j
      using below [of j] that by (cases "i = j") auto
    show ?thesis
    proof (cases "int i + 1 \<le> high")
      case True
      then have "search_found l ks k (node_search_loop cmp_at (int i + 1) high)"
        using IH [unfolded if_not_P [OF not_less_iff_gr_or_eq [THEN iffD2, OF disjI1, OF 3]]] 3 cmp bounds i(2) left' right
        by force
      then show ?thesis using 3 True step by simp
    next
      case False
      then have "int i = high" using i by linarith
      then show ?thesis unfolding search_found_def using 3 False step li left' right
        by (intro exI [of _ False] exI [of _ "int i"] exI [of _ r] exI [of _ "Suc i"]) auto
    qed
  qed
qed

end

subsection \<open>The search in a page\<close>

definition page_keys :: "mem \<Rightarrow> nat \<Rightarrow> u8 list list" where
  "page_keys m mp = (if IS_LEAF2 m mp then leaf2_keys m mp else map tn_key (page_nodes m mp))"

text \<open>The first key of a branch page is not looked at.\<close>

definition first_key :: "mem \<Rightarrow> nat \<Rightarrow> nat" where
  "first_key m mp = unat (mp_flags m mp AND P_BRANCH)"

definition sorted_keys :: "comparator \<Rightarrow> u8 list list \<Rightarrow> bool" where
  "sorted_keys c ks \<longleftrightarrow> sorted_wrt (\<lambda>a b. cmp_order c a b < 0) ks"

text \<open>The keys of a table: the comparator takes them, and integer keys all have one length.\<close>

definition keys_admitted :: "comparator \<Rightarrow> u8 list list \<Rightarrow> bool" where
  "keys_admitted c ks \<longleftrightarrow>
     (\<forall>k \<in> set ks. cmp_takes c (length k)) \<and>
     (case c of Cmp_int_align4 \<Rightarrow> list_all (\<lambda>k. length k = length (hd ks)) ks
      | Cmp_int_align2 \<Rightarrow> list_all (\<lambda>k. length k = length (hd ks)) ks
      | Cmp_int_unaligned \<Rightarrow> list_all (\<lambda>k. length k = length (hd ks)) ks | _ \<Rightarrow> True)"

lemma keys_admitted_takes: "keys_admitted c ks \<Longrightarrow> a \<in> set ks \<Longrightarrow> cmp_takes c (length a)"
  by (simp add: keys_admitted_def)

lemma keys_admitted_lengths:
  assumes "keys_admitted c ks" "a \<in> set ks" "b \<in> set ks" "c \<in> {Cmp_int_align4, Cmp_int_align2, Cmp_int_unaligned}"
  shows "length a = length b"
  using assms by (auto simp: keys_admitted_def list_all_iff)

lemma length_page_keys [simp]: "length (page_keys m mp) = page_numkeys m mp"
  by (simp add: page_keys_def)

lemma node_key_bytes:
  assumes "i < page_numkeys m mp" "\<not> IS_LEAF2 m mp"
  shows "val_bytes m (get_key m (page_node m mp i)) = page_keys m mp ! i"
proof -
  have ks: "node_ks m a < 65536" for a
    using unsigned_less [of "ld16 m (a + 6)", where 'a = nat] by (simp add: node_ks_def unaligned_peek_eq)
  have "unat (of_nat (node_ks m a) :: u64) = node_ks m a" for a
    by (rule unat_of_nat_lt, rule less_trans [OF ks]) simp
  then show ?thesis using assms
    by (simp add: page_keys_def page_nodes_nth node_at_def get_key_def val_bytes_def node_key_def NODESIZE_def)
qed

lemma leaf2_key_bytes:
  assumes "i < page_numkeys m mp" "IS_LEAF2 m mp"
  shows "val_bytes m \<lparr>iov_base = page_leaf2key m mp i, iov_len = ucast (mp_leaf2_ksize m mp)\<rparr> = page_keys m mp ! i"
proof -
  have "unat (ucast (mp_leaf2_ksize m mp) :: u64) = unat (mp_leaf2_ksize m mp)"
    using unsigned_less [of "mp_leaf2_ksize m mp", where 'a = nat] by (intro unat_ucast_lt) (simp add: less_trans)
  then show ?thesis using assms by (simp add: page_keys_def leaf2_keys_nth val_bytes_def page_leaf2key_def)
qed

lemma branch_cmp_order: "cmp_order (branch_cmp c) = cmp_order c" "cmp_takes (branch_cmp c) = cmp_takes c"
  "branch_cmp c \<in> {Cmp_int_align4, Cmp_int_align2, Cmp_int_unaligned} \<longleftrightarrow>
   c \<in> {Cmp_int_align4, Cmp_int_align2, Cmp_int_unaligned}"
  by (cases c; simp add: fun_eq_iff)+

lemma cmp_with_key:
  assumes adm: "keys_admitted c (val_bytes m key # ks)" and k: "val_bytes m v \<in> set ks" and c': "c' = c \<or> c' = branch_cmp c"
  shows "\<exists>r. call_cmp ok c' m key v = Some r \<and> sgn r = sgn (cmp_order c (val_bytes m key) (val_bytes m v))"
proof -
  have order: "cmp_order c' = cmp_order c" "cmp_takes c' = cmp_takes c"
    "c' \<in> {Cmp_int_align4, Cmp_int_align2, Cmp_int_unaligned} \<longleftrightarrow> c \<in> {Cmp_int_align4, Cmp_int_align2, Cmp_int_unaligned}"
    using c' branch_cmp_order [of c] by auto
  have "cmp_takes c (length (val_bytes m key))" "cmp_takes c (length (val_bytes m v))"
    using keys_admitted_takes [OF adm, of "val_bytes m key"] keys_admitted_takes [OF adm, of "val_bytes m v"] k
    by simp_all
  moreover have "iov_len key = iov_len v" if "c' \<in> {Cmp_int_align4, Cmp_int_align2, Cmp_int_unaligned}"
  proof -
    have "length (val_bytes m key) = length (val_bytes m v)"
      using k that order(3) by (intro keys_admitted_lengths [OF adm]) auto
    then show ?thesis by (simp add: word_unat_eq_iff)
  qed
  ultimately show ?thesis
    using call_cmp_order [of c' key v ok m] unfolding order by (simp only: length_val_bytes)
qed

subsection \<open>Properties\<close>

lemma cmp_order_equal:
  assumes "keys_admitted c (a # ks)" "b \<in> set ks"
  shows "cmp_order c a b = 0 \<longleftrightarrow> b = a"
proof -
  have "cmp_order c a b = 0 \<longleftrightarrow> a = b"
    by (rule cmp_order_eq_0; (rule keys_admitted_takes [OF assms(1)] keys_admitted_lengths [OF assms(1)])?)
      (simp_all add: assms(2))
  then show ?thesis by auto
qed

lemma node_search_lower_bound:
  assumes "keys_admitted cmp (val_bytes m key # drop (first_key m (mc_page mc)) (page_keys m (mc_page mc)))"
    and "sorted_keys cmp (drop (first_key m (mc_page mc)) (page_keys m (mc_page mc)))"
    and "first_key m (mc_page mc) < page_numkeys m (mc_page mc)"
  shows "\<exists>exact node p. mdbx_node_search ok cmp m key mc = Some (exact, node, mc\<lparr>mc_ki := of_nat p\<rparr>) \<and>
     first_key m (mc_page mc) \<le> p \<and> p \<le> page_numkeys m (mc_page mc) \<and>
     node = (if p < page_numkeys m (mc_page mc)
             then Some (if IS_LEAF2 m (mc_page mc) then FAKE_NODE else page_node m (mc_page mc) p) else None) \<and>
     (\<forall>j. first_key m (mc_page mc) \<le> j \<longrightarrow> j < p \<longrightarrow> 0 < cmp_order cmp (val_bytes m key) (page_keys m (mc_page mc) ! j)) \<and>
     (exact \<longleftrightarrow> p < page_numkeys m (mc_page mc) \<and> page_keys m (mc_page mc) ! p = val_bytes m key) \<and>
     (\<forall>j. p \<le> j \<longrightarrow> j < page_numkeys m (mc_page mc) \<longrightarrow> (exact \<longrightarrow> j \<noteq> p) \<longrightarrow>
        cmp_order cmp (val_bytes m key) (page_keys m (mc_page mc) ! j) < 0)"
proof -
  let ?mp = "mc_page mc" and ?k = "val_bytes m key"
  let ?ks = "page_keys m ?mp"
  define n where "n = page_numkeys m ?mp"
  define l where "l = first_key m ?mp"
  define c' where "c' = (if IS_BRANCH m ?mp \<and> \<not> IS_LEAF2 m ?mp then branch_cmp cmp else cmp)"
  define val where "val i = (if IS_LEAF2 m ?mp
    then \<lparr>iov_base = page_leaf2key m ?mp i, iov_len = ucast (mp_leaf2_ksize m ?mp)\<rparr> else get_key m (page_node m ?mp i))" for i
  define node_of where "node_of i = (if IS_LEAF2 m ?mp then FAKE_NODE else page_node m ?mp (nat i))" for i
  let ?loop = "node_search_loop (\<lambda>i. call_cmp ok c' m key (val (nat i))) (int l) (int n - 1)"
  have le: "\<not> int n - 1 < int l" using assms(3) unfolding l_def n_def by linarith
  have code: "mdbx_node_search ok cmp m key mc = map_option (search_result node_of (int n) mc) ?loop"
    using le unfolding mdbx_node_search_def Let_def l_def n_def first_key_def node_of_def val_def c'_def
    by (cases "IS_LEAF2 m ?mp"; cases "IS_BRANCH m ?mp") (simp_all del: of_nat_unat int_nat_eq)
  note order = cmp_order_key_order [of cmp]
  have len: "length ?ks = n" by (simp add: n_def)
  have ln: "l < n" using assms(3) by (simp add: l_def n_def)
  have mem: "?ks ! i \<in> set (drop l ?ks)" if "l \<le> i" "i < n" for i
    using that nth_mem [of "i - l" "drop l ?ks"] by (simp add: len [unfolded length_page_keys])
  have sorted: "cmp_order cmp (?ks ! i) (?ks ! j) < 0" if "l \<le> i" "i < j" "j < length ?ks" for i j
    using sorted_wrt_nth_less [OF assms(2) [unfolded sorted_keys_def, folded l_def], of "i - l" "j - l"] that
    by (simp add: len)
  have cmp: "\<exists>r. call_cmp ok c' m key (val (nat (int i))) = Some r \<and> sgn r = sgn (cmp_order cmp ?k (?ks ! i))"
    if "l \<le> i" "i < length ?ks" for i
  proof -
    have v: "val_bytes m (val i) = ?ks ! i"
      using that(2) leaf2_key_bytes [of i m ?mp] node_key_bytes [of i m ?mp] by (simp add: val_def len n_def)
    then have "val_bytes m (val i) \<in> set (drop l ?ks)" using mem [OF that(1)] that(2) len by simp
    then show ?thesis unfolding nat_int v [symmetric]
      by (rule cmp_with_key [OF assms(1) [folded l_def]]) (simp add: c'_def)
  qed
  have "key_order.search_found (cmp_order cmp) l ?ks ?k ?loop"
    by (rule key_order.node_search_loop_finds [OF order sorted cmp]) (use ln len in auto)
  then obtain exact i cr p where loop: "?loop = Some (exact, i, cr)" and p: "int p = i + (if cr > 0 then 1 else 0)"
      "l \<le> p" "p \<le> n" and lo: "\<forall>j. l \<le> j \<longrightarrow> j < p \<longrightarrow> 0 < cmp_order cmp ?k (?ks ! j)"
      and eq: "exact \<longrightarrow> p < n \<and> cmp_order cmp ?k (?ks ! p) = 0"
      and hi: "\<forall>j. p \<le> j \<longrightarrow> j < n \<longrightarrow> (exact \<longrightarrow> j \<noteq> p) \<longrightarrow> cmp_order cmp ?k (?ks ! j) < 0"
    unfolding key_order.search_found_def [OF order] len by (elim exE conjE) (rule that)
  have res: "mdbx_node_search ok cmp m key mc =
      Some (exact, if p < n then Some (if IS_LEAF2 m ?mp then FAKE_NODE else page_node m ?mp p) else None, mc\<lparr>mc_ki := of_nat p\<rparr>)"
  proof -
    have "search_result node_of (int n) mc (exact, i, cr) =
        (exact, if int p < int n then Some (node_of (int p)) else None, mc\<lparr>mc_ki := word_of_int (int p)\<rparr>)"
      unfolding search_result_def p(1) by simp
    then show ?thesis unfolding code loop by (simp add: node_of_def)
  qed
  have "exact \<longleftrightarrow> p < n \<and> ?ks ! p = ?k"
  proof (cases "p < n")
    case True
    have "cmp_order cmp ?k (?ks ! p) = 0 \<longleftrightarrow> ?ks ! p = ?k"
      by (rule cmp_order_equal [OF assms(1) [folded l_def] mem [OF p(2) True]])
    then show ?thesis using eq hi True by force
  qed (use eq in simp)
  then show ?thesis using res p lo hi by (auto simp: n_def l_def)
qed

lemma demo_page_keys:
  "page_keys demo_page 1000 = [[0x61]]" "first_key demo_page 1000 = 0" "val_bytes demo_page demo_key = [7, 7, 7]"
  "\<not> IS_LEAF2 demo_page 1000"
proof -
  show "\<not> IS_LEAF2 demo_page 1000" by (simp add: IS_LEAF2_def demo_page_ld P_LEAF2_def)
  then show "page_keys demo_page 1000 = [[0x61]]" by (simp add: page_keys_def demo_page_wf)
  show "first_key demo_page 1000 = 0" by (simp add: first_key_def demo_page_ld P_BRANCH_def)
  show "val_bytes demo_page demo_key = [7, 7, 7]"
    by (simp add: val_bytes_def demo_key_def rd_bytes_def demo_page_def wr_bytes_def upt_rec)
qed

text \<open>
  C9: In a page whose keys ascend in the order of the table's comparator,
  \<open>mdbx_node_search\<close> returns and sets the cursor to the first key that is not below the given one (the first key of
  a branch page does not count): all keys before it are smaller, all after it greater, and
  \<open>exact\<close> says whether it is the given key.  The node returned is the one at that index, or
  none when every key is smaller.
\<close>

theorem node_search_finds_lower_bound:
  assumes "keys_admitted cmp (val_bytes m key # drop (first_key m (mc_page mc)) (page_keys m (mc_page mc)))"
    and "sorted_keys cmp (drop (first_key m (mc_page mc)) (page_keys m (mc_page mc)))"
    and "first_key m (mc_page mc) < page_numkeys m (mc_page mc)"
  shows "\<exists>exact node p. mdbx_node_search ok cmp m key mc = Some (exact, node, mc\<lparr>mc_ki := of_nat p\<rparr>) \<and>
     first_key m (mc_page mc) \<le> p \<and> p \<le> page_numkeys m (mc_page mc) \<and>
     node = (if p < page_numkeys m (mc_page mc)
             then Some (if IS_LEAF2 m (mc_page mc) then FAKE_NODE else page_node m (mc_page mc) p) else None) \<and>
     (\<forall>j. first_key m (mc_page mc) \<le> j \<longrightarrow> j < p \<longrightarrow> 0 < cmp_order cmp (val_bytes m key) (page_keys m (mc_page mc) ! j)) \<and>
     (exact \<longleftrightarrow> p < page_numkeys m (mc_page mc) \<and> page_keys m (mc_page mc) ! p = val_bytes m key) \<and>
     (\<forall>j. p \<le> j \<longrightarrow> j < page_numkeys m (mc_page mc) \<longrightarrow> (exact \<longrightarrow> j \<noteq> p) \<longrightarrow>
        cmp_order cmp (val_bytes m key) (page_keys m (mc_page mc) ! j) < 0)"
  by (rule node_search_lower_bound [OF assms])

theorem node_search_finds_lower_bound_witness:
  "mdbx_node_search True Cmp_lexical demo_page demo_key demo_cursor = Some (False, Some 1246, demo_cursor\<lparr>mc_ki := 0\<rparr>)"
proof -
  have mp: "mc_page demo_cursor = 1000" by (simp add: demo_cursor_def)
  have "keys_admitted Cmp_lexical [[7, 7, 7], [0x61]]" "sorted_keys Cmp_lexical [[0x61]]"
    by (simp_all add: keys_admitted_def sorted_keys_def)
  then obtain p where r: "mdbx_node_search True Cmp_lexical demo_page demo_key demo_cursor =
        Some (p = 0 \<and> [[0x61 :: u8]] ! p = [7, 7, 7],
          if p = 0 then Some (if IS_LEAF2 demo_page 1000 then FAKE_NODE else page_node demo_page 1000 p) else None,
          demo_cursor\<lparr>mc_ki := of_nat p\<rparr>)" "p \<le> 1" "\<forall>j < p. 0 < lex_cmp [7, 7, 7] ([[0x61]] ! j)"
    using node_search_finds_lower_bound [of Cmp_lexical demo_page demo_key demo_cursor True, unfolded mp demo_page_keys(1-3)
        demo_page_ld(5)] by (simp del: One_nat_def) blast
  have "p = 0" using r(2,3) by (cases p) auto
  then show ?thesis using r by (simp add: demo_page_keys page_node_def demo_page_ld PAGEHDRSZ_def)
qed

text \<open>
  C6: Search and insertion together keep the page ordered: a key that \<open>mdbx_node_search\<close> did not
  find and that \<open>mdbx_node_add_leaf\<close> puts at the index the search left in the cursor gives a page
  whose keys are those of before and the new one, still ascending.
\<close>

theorem search_then_insert_keeps_order:
  assumes "page_wf space m (mc_page mc)" "IS_LEAF m (mc_page mc)" "first_key m (mc_page mc) = 0"
    and "keys_admitted cmp (val_bytes m key # page_keys m (mc_page mc))" "sorted_keys cmp (page_keys m (mc_page mc))"
    and "mdbx_node_search ok cmp m key mc = Some (False, node, mc')"
    and "is_big flags \<or> node_size (Some key) (Some data) \<le> unat (me_leaf_nodemax env)"
    and "outside_page space (mc_page mc) key" "outside_page space (mc_page mc) (leaf_source flags data) \<or> is_reserve flags"
    and "unat (mp_lower m (mc_page mc)) + leaf_bytes flags key data \<le> unat (mp_upper m (mc_page mc))"
  shows "\<exists>m' d. mdbx_node_add_leaf env alloc (unat (mc_ki mc')) key data flags mc' m = (0, mc', m', d) \<and>
     page_wf space m' (mc_page mc) \<and> sorted_keys cmp (page_keys m' (mc_page mc)) \<and>
     set (page_keys m' (mc_page mc)) = insert (val_bytes m key) (set (page_keys m (mc_page mc)))"
proof -
  let ?mp = "mc_page mc" and ?k = "val_bytes m key"
  let ?ks = "page_keys m ?mp"
  note order = cmp_order_key_order [of cmp]
  have leaf2: "\<not> IS_LEAF2 m' ?mp" if "page_wf space m' ?mp" for m' using that by (simp add: page_wf_def IS_LEAF2_def)
  have n16: "page_numkeys m ?mp < 65536"
    using unsigned_less [of "mp_lower m ?mp", where 'a = nat] by (simp add: page_numkeys_def)
  have "\<exists>p. mc' = mc\<lparr>mc_ki := of_nat p\<rparr> \<and> p \<le> page_numkeys m ?mp \<and> (\<forall>j < p. 0 < cmp_order cmp ?k (?ks ! j)) \<and>
      (\<forall>j. p \<le> j \<longrightarrow> j < length ?ks \<longrightarrow> cmp_order cmp ?k (?ks ! j) < 0)"
  proof (cases "page_numkeys m ?mp = 0")
    case True
    moreover have "mp_flags m ?mp AND P_BRANCH = 0" using assms(3) by (simp add: first_key_def unat_eq_zero)
    ultimately have "mc' = mc\<lparr>mc_ki := 0\<rparr>"
      using assms(6) by (simp add: mdbx_node_search_def)
    then show ?thesis using True by (intro exI [of _ 0]) simp
  next
    case False
    then show ?thesis
      using node_search_lower_bound [of cmp m key mc ok] assms(3-6) by auto
  qed
  then obtain p where mc': "mc' = mc\<lparr>mc_ki := of_nat p\<rparr>" and p: "p \<le> page_numkeys m ?mp"
      and lo: "\<forall>j < p. 0 < cmp_order cmp ?k (?ks ! j)"
      and hi: "\<forall>j. p \<le> j \<longrightarrow> j < length ?ks \<longrightarrow> cmp_order cmp ?k (?ks ! j) < 0" by blast
  have ki: "unat (mc_ki mc') = p" using p n16 by (simp add: mc' unat_of_nat_lt)
  have mp': "mc_page mc' = ?mp" by (simp add: mc')
  obtain m' d nd where add: "mdbx_node_add_leaf env alloc p key data flags mc' m = (0, mc', m', d)" "page_wf space m' ?mp"
      "page_nodes m' ?mp = take p (page_nodes m ?mp) @ nd # drop p (page_nodes m ?mp)" "tn_key nd = ?k"
    using leaf_added [OF assms(1) mp' assms(2) p assms(7-10)] by blast
  have keys: "page_keys m' ?mp = take p ?ks @ ?k # drop p ?ks"
    using leaf2 [OF assms(1)] leaf2 [OF add(2)] add(3,4) by (simp add: page_keys_def take_map drop_map)
  have "key_order.ascending (cmp_order cmp) ?ks"
    using assms(5) by (simp add: key_order.ascending_def [OF order] sorted_keys_def)
  then have "sorted_keys cmp (page_keys m' ?mp)"
    using key_order.ascending_insert [OF order, of ?ks p ?k] p lo hi
    by (simp add: keys key_order.ascending_def [OF order] sorted_keys_def)
  moreover have "set (page_keys m' ?mp) = insert ?k (set ?ks)"
    unfolding keys by (metis append_take_drop_id insert_is_Un list.simps(15) set_append sup_left_commute)
  ultimately show ?thesis using add(1,2) ki by auto
qed

theorem search_then_insert_keeps_order_witness:
  "\<exists>m' d. mdbx_node_add_leaf demo_env (\<lambda>m n. (12, 0, m)) 0 demo_key demo_key 0 demo_cursor demo_page = (0, demo_cursor, m', d) \<and>
     sorted_keys Cmp_lexical (page_keys m' 1000) \<and> set (page_keys m' 1000) = {[7, 7, 7], [0x61]}"
proof -
  have mp: "mc_page demo_cursor = 1000" by (simp add: demo_cursor_def)
  have cur: "demo_cursor\<lparr>mc_ki := 0\<rparr> = demo_cursor" "unat (mc_ki demo_cursor) = 0" by (simp_all add: demo_cursor_def)
  have keys: "keys_admitted Cmp_lexical [[7, 7, 7], [0x61]]" "sorted_keys Cmp_lexical [[0x61]]"
    by (simp_all add: keys_admitted_def sorted_keys_def)
  have big: "\<not> is_big 0" "\<not> is_reserve 0" by (simp_all add: is_big_def is_reserve_def)
  have size: "node_size (Some demo_key) (Some demo_key) = 14"
    by (simp add: node_size_def node_size_len_def demo_key_def NODESIZE_def even_ceil_def)
  have out: "outside_page 236 1000 demo_key" by (simp add: outside_page_def demo_key_def)
  have nodemax: "me_leaf_nodemax demo_env = 2036" by (simp add: demo_env_def)
  have "mdbx_node_search True Cmp_lexical demo_page demo_key demo_cursor = Some (False, Some 1246, demo_cursor)"
  proof -
    have "val_bytes demo_page (get_key demo_page (page_node demo_page 1000 0)) = [0x61]"
      using node_key_bytes [of 0 demo_page 1000] by (simp add: demo_page_ld demo_page_keys)
    then have "cmp_lexical demo_page demo_key (get_key demo_page (page_node demo_page 1000 0)) = -1"
      by (simp add: cmp_lexical_order demo_page_keys)
    moreover have "page_node demo_page 1000 0 = 1246" by (simp add: page_node_def demo_page_ld PAGEHDRSZ_def)
    ultimately show ?thesis
      by (simp add: mdbx_node_search_def mp demo_page_ld demo_page_keys P_BRANCH_def IS_BRANCH_def node_search_loop.simps
          search_result_def cur)
  qed
  then show ?thesis
    using search_then_insert_keeps_order [of 236 demo_page demo_cursor Cmp_lexical demo_key True "Some 1246" demo_cursor 0
        demo_key demo_env "\<lambda>m n. (12, 0, m)"] demo_page_wf keys
    by (auto simp: mp demo_page_keys demo_page_ld size cur big leaf_source_def leaf_bytes_def sizeof_indx_def out nodemax)
qed

end
