(* ===== verification/Worker_Waits.thy ===== *)
theory Worker_Waits
  imports Write_Worker
begin

text \<open>
  When \<open>WaitForCallbacks\<close> comes back.  The writer waits with growing time limits for the answer in a
  flag word; where it may commit, it also goes on when the JavaScript thread interrupts the batch or
  has run its callbacks.  An interrupted writer commits and waits, without a limit, for the signal
  that the transaction of the JavaScript thread is over.
\<close>

subsection \<open>What the writer waits for\<close>

text \<open>The state after the \<open>n\<close>-th time-out.\<close>

definition waited :: "'s surroundings \<Rightarrow> bool \<Rightarrow> 's worker \<Rightarrow> nat \<Rightarrow> 's worker" where
  "waited E allow st n = (let_others_run E ^^ n) (st\<lparr>interruptionStatus := (if allow then 9997 else 0)\<rparr>)"

text \<open>The four low bits of a flag word are the opcode of an instruction that JavaScript has put there.\<close>

definition has_instruction :: "nat \<Rightarrow> 's worker \<Rightarrow> bool" where
  "has_instruction t st \<longleftrightarrow> unat (ld32 (memory st) t) mod 16 \<noteq> 0"

definition interrupted :: "'s worker \<Rightarrow> bool" where
  "interrupted st \<longleftrightarrow> interruptionStatus st = 9998"

definition may_go_on :: "bool \<Rightarrow> nat \<Rightarrow> 's worker \<Rightarrow> bool" where
  "may_go_on allow t st \<longleftrightarrow> has_instruction t st \<or> allow \<and> (interrupted st \<or> finishedProgress st)"

definition wakes_after :: "'s surroundings \<Rightarrow> bool \<Rightarrow> nat \<Rightarrow> 's worker \<Rightarrow> nat \<Rightarrow> bool" where
  "wakes_after E allow t st n \<longleftrightarrow>
     0 < n \<and> may_go_on allow t (waited E allow st n) \<and> (\<forall>k. 0 < k \<and> k < n \<longrightarrow> \<not> may_go_on allow t (waited E allow st k))"

text \<open>The writer in the wait of an interruption, its transaction committed.\<close>

definition commit_result :: "'s surroundings \<Rightarrow> 's worker \<Rightarrow> int" where
  "commit_result E st = fst (mdbx_txn_commit (eng E) (txn_state st) (memory st))"

definition paused :: "'s surroundings \<Rightarrow> 's worker \<Rightarrow> 's worker" where
  "paused E st =
     (let (rc, s, m) = mdbx_txn_commit (eng E) (txn_state st) (memory st)
      in st\<lparr>interruptionStatus := 9999, txn_state := s, memory := m, txn_live := False\<rparr>)"

definition is_resumed :: "'s surroundings \<Rightarrow> 's worker \<Rightarrow> bool" where
  "is_resumed E st \<longleftrightarrow> signalled E (waits (paused E st)) (paused E st)"

subsection \<open>The loop\<close>

lemma target_ready_iff: "target_ready allow t st \<longleftrightarrow> may_go_on allow t st"
proof -
  have "(w AND 15 \<noteq> 0) = (unat w mod 16 \<noteq> 0)" for w :: u32
  proof -
    have "w AND 15 = take_bit 4 w" by (simp add: take_bit_eq_mask mask_eq_exp_minus_1)
    moreover have "unat (take_bit 4 w) = unat w mod 16"
      unfolding take_bit_eq_mod by (simp add: unat_mod)
    ultimately show ?thesis by (metis unat_eq_zero)
  qed
  then show ?thesis
    by (simp add: target_ready_def may_go_on_def has_instruction_def interrupted_def INTERRUPT_BATCH_def)
qed

lemma wait_target_Some:
  "wait_target E allow t st = Some st' \<Longrightarrow>
     \<exists>n. st' = (let_others_run E ^^ Suc n) st \<and> may_go_on allow t st' \<and>
       (\<forall>k < n. \<not> may_go_on allow t ((let_others_run E ^^ Suc k) st))"
proof (rule wait_target.raw_induct
    [where P = "\<lambda>E allow t st st'. \<exists>n. st' = (let_others_run E ^^ Suc n) st \<and> may_go_on allow t st' \<and>
       (\<forall>k < n. \<not> may_go_on allow t ((let_others_run E ^^ Suc k) st))"])
  fix wt :: "'a surroundings \<Rightarrow> bool \<Rightarrow> nat \<Rightarrow> 'a worker \<Rightarrow> 'a worker option"
    and E :: "'a surroundings" and allow t and st st' :: "'a worker"
  let ?P = "\<lambda>st st' n. st' = (let_others_run E ^^ Suc n) st \<and> may_go_on allow t st' \<and>
       (\<forall>k < n. \<not> may_go_on allow t ((let_others_run E ^^ Suc k) st))"
  assume IH: "\<And>E allow t st st'. wt E allow t st = Some st' \<Longrightarrow>
      \<exists>n. st' = (let_others_run E ^^ Suc n) st \<and> may_go_on allow t st' \<and>
       (\<forall>k < n. \<not> may_go_on allow t ((let_others_run E ^^ Suc k) st))"
    and eq: "(let st = let_others_run E st in if target_ready allow t st then Some st else wt E allow t st) = Some st'"
  show "\<exists>n. ?P st st' n"
  proof (cases "may_go_on allow t (let_others_run E st)")
    case True
    with eq show ?thesis by (intro exI [of _ 0]) (simp add: target_ready_iff)
  next
    case False
    with eq have "wt E allow t (let_others_run E st) = Some st'" by (simp add: Let_def target_ready_iff)
    from IH [OF this] obtain n where n: "?P (let_others_run E st) st' n" by blast
    have "?P st st' (Suc n)"
    proof (intro conjI allI impI)
      fix k assume "k < Suc n"
      then show "\<not> may_go_on allow t ((let_others_run E ^^ Suc k) st)"
        using n False by (cases k) (simp_all add: funpow_swap1)
    qed (use n in \<open>auto simp: funpow_swap1\<close>)
    then show ?thesis ..
  qed
qed

lemma wait_target_returns:
  "may_go_on allow t ((let_others_run E ^^ Suc n) st) \<Longrightarrow> \<exists>st'. wait_target E allow t st = Some st'"
proof (induction n arbitrary: st)
  case 0
  then show ?case by (subst wait_target.simps) (simp add: target_ready_iff)
next
  case (Suc n)
  then show ?case by (subst wait_target.simps) (simp add: funpow_swap1 Let_def)
qed

lemma wait_target_wakes:
  assumes "st0 = st\<lparr>interruptionStatus := (if allow then ALLOW_COMMIT else 0)\<rparr>"
  shows "wait_target E allow t st0 = Some st' \<longleftrightarrow> (\<exists>n. wakes_after E allow t st n \<and> st' = waited E allow st n)"
proof
  have w: "(let_others_run E ^^ n) st0 = waited E allow st n" for n by (simp add: waited_def assms ALLOW_COMMIT_def)
  assume "wait_target E allow t st0 = Some st'"
  from wait_target_Some [OF this] obtain n where n: "st' = waited E allow st (Suc n)" "may_go_on allow t st'"
    "\<forall>k < n. \<not> may_go_on allow t (waited E allow st (Suc k))" unfolding w by blast
  have "wakes_after E allow t st (Suc n)"
    unfolding wakes_after_def
  proof (intro conjI allI impI)
    fix k assume "0 < k \<and> k < Suc n"
    then show "\<not> may_go_on allow t (waited E allow st k)" using n(3) by (cases k) simp_all
  qed (use n in simp_all)
  with n(1) show "\<exists>n. wakes_after E allow t st n \<and> st' = waited E allow st n" by blast
next
  have w: "(let_others_run E ^^ n) st0 = waited E allow st n" for n by (simp add: waited_def assms ALLOW_COMMIT_def)
  assume "\<exists>n. wakes_after E allow t st n \<and> st' = waited E allow st n"
  then obtain n where n: "wakes_after E allow t st n" "st' = waited E allow st n" by blast
  then obtain m where m: "n = Suc m" by (cases n) (simp_all add: wakes_after_def)
  have "may_go_on allow t ((let_others_run E ^^ Suc m) st0)" using n(1) unfolding w m wakes_after_def by simp
  from wait_target_returns [OF this] obtain s where s: "wait_target E allow t st0 = Some s" by blast
  from wait_target_Some [OF this] obtain j where j: "s = waited E allow st (Suc j)" "may_go_on allow t s"
    "\<forall>k < j. \<not> may_go_on allow t (waited E allow st (Suc k))" unfolding w by blast
  have "\<not> j < m" using n(1) j(1,2) unfolding wakes_after_def m by blast
  moreover have "\<not> m < j" using n(1) j(3) unfolding wakes_after_def m by blast
  ultimately have "j = m" by simp
  with s j(1) n(2) m show "wait_target E allow t st0 = Some st'" by simp
qed

lemma wakes_after_unique: "wakes_after E allow t st n \<Longrightarrow> wakes_after E allow t st k \<Longrightarrow> n = k"
  unfolding wakes_after_def by (metis linorder_neqE_nat)

lemma interruption_comes_back:
  "(\<exists>r. commit_for_interrupt E st = Some r) \<longleftrightarrow> commit_result E st \<noteq> 0 \<or> is_resumed E st"
  "commit_result E st = 0 \<Longrightarrow> is_resumed E st \<Longrightarrow>
     commit_for_interrupt E st = Some (restart_batch E (let_others_run E (paused E st)))"
  by (auto simp: commit_for_interrupt_def commit_batch_def commit_result_def paused_def is_resumed_def cond_wait_def
      RESTART_WORKER_TXN_def Let_def split: prod.splits)

text \<open>
  C18: The wait for a flag word comes back exactly when it should.  \<open>WaitForCallbacks\<close> returns if and
  only if after some time-out the word has an instruction or, where a commit is allowed, the batch is
  interrupted or its callbacks have finished, and, if it is an interruption that ends the wait, the
  writer's commit fails or the JavaScript thread signals when its transaction is over; otherwise the
  writer waits for ever.  It goes on at the first such time-out: without an interruption in that state,
  with no interruption pending any more; after an interruption from the state in which the
  transaction of the JavaScript thread has run, with a transaction of its own begun again.
\<close>

theorem waiting_ends_when_ready:
  "((\<exists>st' rc. WaitForCallbacks E allow (Some t) st = Some (st', rc)) \<longleftrightarrow>
      (\<exists>n. wakes_after E allow t st n \<and>
         (interrupted (waited E allow st n) \<longrightarrow>
            commit_result E (waited E allow st n) \<noteq> 0 \<or> is_resumed E (waited E allow st n)))) \<and>
   (\<forall>n. wakes_after E allow t st n \<longrightarrow>
      (let w = waited E allow st n; u = let_others_run E (paused E w)
       in (\<not> interrupted w \<longrightarrow> WaitForCallbacks E allow (Some t) st = Some (w\<lparr>interruptionStatus := 0\<rparr>, 0)) \<and>
          (interrupted w \<and> commit_result E w = 0 \<and> is_resumed E w \<longrightarrow>
             (\<exists>st' rc s m. mdbx_txn_begin (eng E) (txn_state u) (memory u) = (rc, s, m) \<and>
                WaitForCallbacks E allow (Some t) st = Some (st', rc) \<and>
                txn_live st' = (rc = 0) \<and> txn_state st' = s \<and> memory st' = m \<and> interruptionStatus st' = 0))))"
proof -
  let ?st = "st\<lparr>interruptionStatus := (if allow then ALLOW_COMMIT else 0)\<rparr>"
  have run: "WaitForCallbacks E allow (Some t) st =
      (if interrupted (waited E allow st n) then commit_for_interrupt E (waited E allow st n)
       else Some ((waited E allow st n)\<lparr>interruptionStatus := 0\<rparr>, 0))" if "wakes_after E allow t st n" for n
  proof -
    have "wait_target E allow t ?st = Some (waited E allow st n)" using wait_target_wakes [OF refl] that by blast
    then show ?thesis by (simp add: WaitForCallbacks_def Let_def interrupted_def INTERRUPT_BATCH_def)
  qed
  have none: "WaitForCallbacks E allow (Some t) st = None" if "\<nexists>n. wakes_after E allow t st n"
  proof -
    have "wait_target E allow t ?st = None"
      using wait_target_wakes [OF refl, of E allow t st] that by (cases "wait_target E allow t ?st") auto
    then show ?thesis by (simp add: WaitForCallbacks_def Let_def)
  qed
  have "(\<exists>st' rc. WaitForCallbacks E allow (Some t) st = Some (st', rc)) \<longleftrightarrow>
      (interrupted (waited E allow st n) \<longrightarrow>
         commit_result E (waited E allow st n) \<noteq> 0 \<or> is_resumed E (waited E allow st n))"
    if n: "wakes_after E allow t st n" for n
    using interruption_comes_back(1) [of E "waited E allow st n"] unfolding run [OF n] by auto
  then have "(\<exists>st' rc. WaitForCallbacks E allow (Some t) st = Some (st', rc)) \<longleftrightarrow>
      (\<exists>n. wakes_after E allow t st n \<and> (interrupted (waited E allow st n) \<longrightarrow>
         commit_result E (waited E allow st n) \<noteq> 0 \<or> is_resumed E (waited E allow st n)))"
    using none by (metis option.distinct(1))
  moreover have "let w = waited E allow st n; u = let_others_run E (paused E w)
       in (\<not> interrupted w \<longrightarrow> WaitForCallbacks E allow (Some t) st = Some (w\<lparr>interruptionStatus := 0\<rparr>, 0)) \<and>
          (interrupted w \<and> commit_result E w = 0 \<and> is_resumed E w \<longrightarrow>
             (\<exists>st' rc s m. mdbx_txn_begin (eng E) (txn_state u) (memory u) = (rc, s, m) \<and>
                WaitForCallbacks E allow (Some t) st = Some (st', rc) \<and>
                txn_live st' = (rc = 0) \<and> txn_state st' = s \<and> memory st' = m \<and> interruptionStatus st' = 0))"
    if n: "wakes_after E allow t st n" for n
    using interruption_comes_back(2) [of E "waited E allow st n"] unfolding run [OF n]
    by (auto simp: Let_def restart_batch_def split: prod.splits)
  ultimately show ?thesis by blast
qed

text \<open>
  A writer whose second wait is interrupted when \<open>js\<close> holds, and who waits for nothing otherwise.
\<close>

definition demo_waiting :: "bool \<Rightarrow> unit surroundings" where
  "demo_waiting js =
     \<lparr>eng = \<lparr>mdbx_get = (\<lambda>s m dbi k v. (0, v)), mdbx_put = (\<lambda>s m dbi k v f. (0, s, m, v)),
        mdbx_del = (\<lambda>s m dbi k v. (0, s, m)), mdbx_drop = (\<lambda>s m dbi b. (0, s, m)),
        mdbx_txn_begin = (\<lambda>s m. (0, s, m)), mdbx_txn_commit = (\<lambda>s m. (0, s, m)), mdbx_txn_abort = (\<lambda>s m. (s, m))\<rparr>,
      codec = store_codec, compression_at = (\<lambda>a. demo_compression), new_chars = (\<lambda>n. 0), os_strerror = (\<lambda>n. None),
      others = (\<lambda>n st. if js \<and> n = 1 then st\<lparr>interruptionStatus := 9998\<rparr> else st), signalled = (\<lambda>n st. True)\<rparr>"

definition demo_waiter :: "unit worker" where
  "demo_waiter = \<lparr>memory = (\<lambda>a. 0), txn_state = (), txn_live = True, finishedProgress = False, interruptionStatus = 0,
     progressStatus = 0, error_message = None, worker_instructions = 0, locked = True, waits = 0\<rparr>"

lemma demo_waited:
  "waited (demo_waiting False) True demo_waiter n = demo_waiter\<lparr>interruptionStatus := 9997, waits := n\<rparr>"
  by (induction n) (simp_all add: waited_def demo_waiter_def demo_waiting_def let_others_run_def)

lemma demo_waits_on: "\<not> may_go_on True t (demo_waiter\<lparr>interruptionStatus := 9997, waits := n\<rparr>)"
  by (simp add: may_go_on_def has_instruction_def interrupted_def demo_waiter_def ld32_def rd_bytes_def upt_rec)

theorem waiting_ends_when_ready_witness:
  "(\<exists>st'. WaitForCallbacks (demo_waiting True) True (Some 0) demo_waiter = Some (st', 0) \<and> txn_live st' \<and>
      interruptionStatus st' = 0) \<and>
   WaitForCallbacks (demo_waiting False) True (Some 0) demo_waiter = None"
proof
  let ?E = "demo_waiting True"
  have w: "waited ?E True demo_waiter 1 = demo_waiter\<lparr>interruptionStatus := 9997, waits := 1\<rparr>"
    "waited ?E True demo_waiter 2 = demo_waiter\<lparr>interruptionStatus := 9998, waits := 2\<rparr>"
    by (simp_all add: waited_def demo_waiter_def demo_waiting_def let_others_run_def numeral_2_eq_2)
  have "\<not> may_go_on True 0 (waited ?E True demo_waiter k)" if "0 < k \<and> k < 2" for k
  proof -
    have "k = 1" using that by linarith
    show ?thesis unfolding \<open>k = 1\<close> w(1) by (rule demo_waits_on)
  qed
  then have "wakes_after ?E True 0 demo_waiter 2" by (simp add: wakes_after_def w(2) may_go_on_def interrupted_def)
  moreover have "interrupted (waited ?E True demo_waiter 2)" "commit_result ?E (waited ?E True demo_waiter 2) = 0"
    "is_resumed ?E (waited ?E True demo_waiter 2)"
    unfolding w by (simp_all add: interrupted_def commit_result_def is_resumed_def demo_waiting_def)
  moreover have "mdbx_txn_begin (eng ?E) s m = (0, s, m)" for s m by (simp add: demo_waiting_def)
  ultimately obtain st' rc where "WaitForCallbacks ?E True (Some 0) demo_waiter = Some (st', rc)" "txn_live st' = (rc = 0)"
    "interruptionStatus st' = 0" "rc = 0"
    using waiting_ends_when_ready [of ?E True 0 demo_waiter] by (metis prod.inject)
  then show "\<exists>st'. WaitForCallbacks ?E True (Some 0) demo_waiter = Some (st', 0) \<and> txn_live st' \<and> interruptionStatus st' = 0"
    by blast
  have "\<not> wakes_after (demo_waiting False) True 0 demo_waiter n" for n
    using demo_waits_on by (simp add: wakes_after_def demo_waited)
  then show "WaitForCallbacks (demo_waiting False) True (Some 0) demo_waiter = None"
    using waiting_ends_when_ready [of "demo_waiting False" True 0 demo_waiter]
    by (cases "WaitForCallbacks (demo_waiting False) True (Some 0) demo_waiter") auto
qed

end
