(* ===== verification/Write_Protocol.thy ===== *)
theory Write_Protocol
  imports Write_Worker
begin

text \<open>
  How the writer thread and the JavaScript thread take turns on the write transaction: the
  mutex \<open>writingLock\<close>, the condition variable \<open>writingCond\<close> and \<open>interruptionStatus\<close>, as a step
  relation over the places where the two threads lock, wait, signal and unlock
  (\<open>WriteWorker::Write\<close>, \<open>DoWrites\<close>, \<open>WaitForCallbacks\<close>, \<open>AcquireTxn\<close>, \<open>UnlockTxn\<close>,
  \<open>HandleProgressCallback\<close> of \<open>src/writer.cpp\<close>, \<open>beginTxn\<close>, \<open>commitTxn\<close> and \<open>abortTxn\<close> of
  \<open>src/env.cpp\<close>), together with the compression threads, which signal on the same condition
  variable (\<open>Compression::compressInstruction\<close>).
\<close>

subsection \<open>The state\<close>

datatype thread = Worker | JS

text \<open>
  Where the writer is: before it locks, in \<open>DoWrites\<close>, in the wait of \<open>DoWrites\<close> for a value that is
  being compressed, woken from it but without the mutex, in the first wait of \<open>WaitForCallbacks\<close>
  (with \<open>allowCommit\<close>, and whether the wait is the timed one for a flag word), woken from it, in the
  second wait after an interruption, woken from that, at the end.
\<close>

datatype worker_pc =
    W_start
  | W_working
  | W_compressing
  | W_recheck
  | W_waiting bool bool
  | W_woken bool bool
  | W_paused
  | W_resuming
  | W_ended

text \<open>
  Where the JavaScript thread is: outside, at the lock of \<open>AcquireTxn\<close> (with
  \<open>commitSynchronously\<close>), in its wait, woken, in a transaction (its own one, or the writer's),
  at the lock of \<open>HandleProgressCallback\<close>, in its wait, woken, in the callback.
\<close>

datatype js_pc =
    J_idle
  | J_acquiring bool
  | J_waiting
  | J_woken
  | J_txn bool
  | J_progress_lock
  | J_progress_wait
  | J_progress_woken
  | J_progress

text \<open>\<open>WriteWorker::txn\<close>: null, a live transaction, or one that a failed commit has ended.\<close>

datatype worker_txn = No_txn | Live_txn | Dead_txn

text \<open>
  \<open>value_missing\<close>: the value that the writer waits for is not compressed yet; \<open>signals_due\<close> counts
  the compression threads that the writer has asked for a signal and that are done with the value but
  have not signalled yet.
\<close>

record protocol =
  writingLock :: "thread option"
  interruption :: int
  wtxn :: worker_txn
  own_txn :: bool
  finished :: bool
  wpc :: worker_pc
  jpc :: js_pc
  value_missing :: bool
  signals_due :: nat

definition protocol_start :: protocol where
  "protocol_start = \<lparr>writingLock = None, interruption = 0, wtxn = No_txn, own_txn = False, finished = True,
     wpc = W_start, jpc = J_idle, value_missing = False, signals_due = 0\<rparr>"

text \<open>\<open>pthread_cond_signal\<close> by one thread wakes the other if it waits.\<close>

fun js_signalled :: "js_pc \<Rightarrow> js_pc" where
  "js_signalled J_waiting = J_woken"
| "js_signalled J_progress_wait = J_progress_woken"
| "js_signalled p = p"

fun worker_signalled :: "worker_pc \<Rightarrow> worker_pc" where
  "worker_signalled (W_waiting a t) = W_woken a t"
| "worker_signalled W_compressing = W_recheck"
| "worker_signalled W_paused = W_resuming"
| "worker_signalled p = p"

definition signal_js :: "protocol \<Rightarrow> protocol" where
  "signal_js s = s\<lparr>jpc := js_signalled (jpc s)\<rparr>"

definition signal_worker :: "protocol \<Rightarrow> protocol" where
  "signal_worker s = s\<lparr>wpc := worker_signalled (wpc s)\<rparr>"

text \<open>
  What may happen besides: the engine fails to begin or to commit a transaction; a wait ends without
  a signal, as POSIX allows; a compression thread signals after the writer has left the wait for its
  value.
\<close>

record hazards =
  engine_fails :: bool
  wakes_spuriously :: bool
  signals_late :: bool

subsection \<open>The steps of the writer\<close>

text \<open>
  \<open>engine_fails\<close>: the engine may fail to begin or to commit a transaction, and an instruction may be
  unknown, so that \<open>DoWrites\<close> returns at once.  \<open>wakes_spuriously\<close>: a wait may end without a signal.
\<close>

inductive worker_step :: "hazards \<Rightarrow> protocol \<Rightarrow> protocol \<Rightarrow> bool" for h :: hazards where
  start: "wpc s = W_start \<Longrightarrow> writingLock s = None \<Longrightarrow>
    worker_step h s (s\<lparr>writingLock := Some Worker, wtxn := Live_txn, finished := True, wpc := W_working\<rparr>)"
| start_fails: "engine_fails h \<Longrightarrow> wpc s = W_start \<Longrightarrow> writingLock s = None \<Longrightarrow>
    worker_step h s (s\<lparr>writingLock := Some Worker, finished := True, wpc := W_ended\<rparr>)"
| user_callback: "wpc s = W_working \<Longrightarrow> worker_step h s (s\<lparr>finished := False\<rparr>)"
| await_value: "wpc s = W_working \<Longrightarrow>
    worker_step h s (s\<lparr>value_missing := True, writingLock := None, wpc := W_compressing\<rparr>)"
| await_value_again: "wpc s = W_recheck \<Longrightarrow> writingLock s = None \<Longrightarrow> value_missing s \<Longrightarrow>
    worker_step h s (s\<lparr>wpc := W_compressing\<rparr>)"
| value_read: "wpc s = W_recheck \<Longrightarrow> writingLock s = None \<Longrightarrow> \<not> value_missing s \<Longrightarrow>
    worker_step h s (s\<lparr>writingLock := Some Worker, wpc := W_working\<rparr>)"
| wait: "wpc s = W_working \<Longrightarrow>
    worker_step h s ((signal_js s)\<lparr>interruption := (if allow then ALLOW_COMMIT else 0), writingLock := None,
      wpc := W_waiting allow timed\<rparr>)"
| timeout: "wpc s = W_waiting allow True \<Longrightarrow> worker_step h s (s\<lparr>wpc := W_woken allow True\<rparr>)"
| spurious_wake: "wakes_spuriously h \<Longrightarrow> worker_step h s (signal_worker s)"
| wait_again: "wpc s = W_woken allow True \<Longrightarrow> writingLock s = None \<Longrightarrow>
    \<not> (allow \<and> (interruption s = INTERRUPT_BATCH \<or> finished s)) \<Longrightarrow>
    worker_step h s (s\<lparr>wpc := W_waiting allow True\<rparr>)"
| go_on: "wpc s = W_woken allow timed \<Longrightarrow> writingLock s = None \<Longrightarrow> interruption s \<noteq> INTERRUPT_BATCH \<Longrightarrow>
    worker_step h s (s\<lparr>writingLock := Some Worker, interruption := 0, wpc := W_working\<rparr>)"
| interrupted: "wpc s = W_woken allow timed \<Longrightarrow> writingLock s = None \<Longrightarrow> interruption s = INTERRUPT_BATCH \<Longrightarrow>
    wtxn s = Live_txn \<Longrightarrow>
    worker_step h s ((signal_js s)\<lparr>interruption := RESTART_WORKER_TXN, wtxn := No_txn, wpc := W_paused\<rparr>)"
| interrupted_fails: "engine_fails h \<Longrightarrow> wpc s = W_woken allow timed \<Longrightarrow> writingLock s = None \<Longrightarrow>
    interruption s = INTERRUPT_BATCH \<Longrightarrow>
    worker_step h s (s\<lparr>writingLock := Some Worker, interruption := RESTART_WORKER_TXN,
      wtxn := (if wtxn s = No_txn then No_txn else Dead_txn), wpc := W_working\<rparr>)"
| resume: "wpc s = W_resuming \<Longrightarrow> writingLock s = None \<Longrightarrow>
    worker_step h s (s\<lparr>writingLock := Some Worker, interruption := 0, wtxn := Live_txn, wpc := W_working\<rparr>)"
| resume_fails: "engine_fails h \<Longrightarrow> wpc s = W_resuming \<Longrightarrow> writingLock s = None \<Longrightarrow>
    worker_step h s (s\<lparr>writingLock := Some Worker, interruption := 0, wtxn := No_txn, wpc := W_working\<rparr>)"
| give_up: "engine_fails h \<Longrightarrow> wpc s = W_working \<Longrightarrow>
    worker_step h s (s\<lparr>writingLock := None, wtxn := No_txn, wpc := W_ended\<rparr>)"
| finish: "wpc s = W_working \<Longrightarrow> finished s \<Longrightarrow>
    worker_step h s (s\<lparr>writingLock := None, wtxn := No_txn, wpc := W_ended\<rparr>)"

subsection \<open>The steps of the JavaScript thread\<close>

inductive js_step :: "hazards \<Rightarrow> protocol \<Rightarrow> protocol \<Rightarrow> bool" for h :: hazards where
  begin_txn: "jpc s = J_idle \<Longrightarrow> js_step h s (s\<lparr>jpc := J_acquiring sync\<rparr>)"
| acquire_interrupt: "jpc s = J_acquiring True \<Longrightarrow> writingLock s = None \<Longrightarrow> interruption s = ALLOW_COMMIT \<Longrightarrow>
    js_step h s ((signal_worker s)\<lparr>interruption := INTERRUPT_BATCH, jpc := J_waiting\<rparr>)"
| acquire_shared: "jpc s = J_acquiring sync \<Longrightarrow> writingLock s = None \<Longrightarrow> \<not> (sync \<and> interruption s = ALLOW_COMMIT) \<Longrightarrow>
    wtxn s \<noteq> No_txn \<Longrightarrow>
    js_step h s (s\<lparr>writingLock := Some JS, interruption := USER_HAS_LOCK, jpc := J_txn False\<rparr>)"
| acquire_own: "jpc s = J_acquiring sync \<Longrightarrow> writingLock s = None \<Longrightarrow> \<not> (sync \<and> interruption s = ALLOW_COMMIT) \<Longrightarrow>
    wtxn s = No_txn \<Longrightarrow>
    js_step h s (s\<lparr>writingLock := Some JS, interruption := USER_HAS_LOCK, own_txn := True, jpc := J_txn True\<rparr>)"
| spurious_js_wake: "wakes_spuriously h \<Longrightarrow> js_step h s (signal_js s)"
| acquired: "jpc s = J_woken \<Longrightarrow> writingLock s = None \<Longrightarrow>
    js_step h s (s\<lparr>writingLock := Some JS, own_txn := True, jpc := J_txn True\<rparr>)"
| end_txn: "jpc s = J_txn own \<Longrightarrow>
    js_step h s ((signal_worker s)\<lparr>own_txn := False, interruption := 0, writingLock := None, jpc := J_idle\<rparr>)"
| resume_writing: "jpc s = J_idle \<or> jpc s = J_txn own \<or> jpc s = J_progress \<Longrightarrow> js_step h s (signal_worker s)"
| progress_event: "jpc s = J_idle \<Longrightarrow> \<not> finished s \<Longrightarrow> js_step h s (s\<lparr>jpc := J_progress_lock\<rparr>)"
| progress_null: "jpc s = J_progress_lock \<or> jpc s = J_progress_woken \<Longrightarrow> writingLock s = None \<Longrightarrow> wtxn s = No_txn \<Longrightarrow>
    js_step h s (s\<lparr>jpc := J_progress_wait\<rparr>)"
| progress_run: "jpc s = J_progress_lock \<or> jpc s = J_progress_woken \<Longrightarrow> writingLock s = None \<Longrightarrow> wtxn s \<noteq> No_txn \<Longrightarrow>
    js_step h s (s\<lparr>writingLock := Some JS, finished := True, jpc := J_progress\<rparr>)"
| progress_end: "jpc s = J_progress \<Longrightarrow>
    js_step h s ((signal_worker s)\<lparr>writingLock := None, jpc := J_idle\<rparr>)"

subsection \<open>The steps of the compression threads\<close>

text \<open>
  A compression thread stores the compressed value and then, in a second step, takes the mutex and
  signals: that wakes the writer, the JavaScript thread, or both, but at least one of those that wait.
  \<open>signals_late\<close>: it may signal after the writer, woken by somebody else, has left the wait.
\<close>

fun in_value_wait :: "worker_pc \<Rightarrow> bool" where
  "in_value_wait W_compressing = True"
| "in_value_wait W_recheck = True"
| "in_value_wait p = False"

inductive compressor_step :: "hazards \<Rightarrow> protocol \<Rightarrow> protocol \<Rightarrow> bool" for h :: hazards where
  value_done: "in_value_wait (wpc s) \<Longrightarrow> value_missing s \<Longrightarrow>
    compressor_step h s (s\<lparr>value_missing := False, signals_due := signals_due s + 1\<rparr>)"
| wakes_worker: "0 < signals_due s \<Longrightarrow> writingLock s = None \<Longrightarrow> signals_late h \<or> in_value_wait (wpc s) \<Longrightarrow>
    worker_signalled (wpc s) \<noteq> wpc s \<or> js_signalled (jpc s) = jpc s \<Longrightarrow>
    compressor_step h s ((signal_worker s)\<lparr>signals_due := signals_due s - 1\<rparr>)"
| wakes_js: "0 < signals_due s \<Longrightarrow> writingLock s = None \<Longrightarrow> signals_late h \<or> in_value_wait (wpc s) \<Longrightarrow>
    js_signalled (jpc s) \<noteq> jpc s \<Longrightarrow>
    compressor_step h s ((signal_js s)\<lparr>signals_due := signals_due s - 1\<rparr>)"
| wakes_both: "0 < signals_due s \<Longrightarrow> writingLock s = None \<Longrightarrow> signals_late h \<or> in_value_wait (wpc s) \<Longrightarrow>
    compressor_step h s ((signal_js (signal_worker s))\<lparr>signals_due := signals_due s - 1\<rparr>)"

definition protocol_step :: "hazards \<Rightarrow> protocol \<Rightarrow> protocol \<Rightarrow> bool" where
  "protocol_step h s s' \<longleftrightarrow> worker_step h s s' \<or> js_step h s s' \<or> compressor_step h s s'"

inductive reachable :: "hazards \<Rightarrow> protocol \<Rightarrow> bool" for h :: hazards where
  initial: "reachable h protocol_start"
| by_worker: "reachable h s \<Longrightarrow> worker_step h s s' \<Longrightarrow> reachable h s'"
| by_js: "reachable h s \<Longrightarrow> js_step h s s' \<Longrightarrow> reachable h s'"
| by_compressor: "reachable h s \<Longrightarrow> compressor_step h s s' \<Longrightarrow> reachable h s'"

inductive_cases worker_stepE: "worker_step h s s'"
inductive_cases js_stepE: "js_step h s s'"
inductive_cases compressor_stepE: "compressor_step h s s'"

lemmas interruption_values = INTERRUPT_BATCH_def ALLOW_COMMIT_def RESTART_WORKER_TXN_def USER_HAS_LOCK_def

lemmas protocol_simps = signal_js_def signal_worker_def interruption_values

lemmas run_step = reachable.by_worker reachable.by_js reachable.by_compressor

subsection \<open>Where the threads may be\<close>

text \<open>Which places hold the mutex, the writer's transaction, an offer to commit.\<close>

fun js_holds_lock :: "js_pc \<Rightarrow> bool" where
  "js_holds_lock (J_txn own) = True"
| "js_holds_lock J_progress = True"
| "js_holds_lock p = False"

fun worker_has_txn :: "worker_pc \<Rightarrow> bool" where
  "worker_has_txn W_working = True"
| "worker_has_txn W_compressing = True"
| "worker_has_txn W_recheck = True"
| "worker_has_txn (W_waiting a t) = True"
| "worker_has_txn (W_woken a t) = True"
| "worker_has_txn p = False"

fun commit_offered :: "worker_pc \<Rightarrow> bool" where
  "commit_offered (W_waiting a t) = a"
| "commit_offered (W_woken a t) = a"
| "commit_offered p = False"

fun leaves_wait :: "worker_pc \<Rightarrow> bool" where
  "leaves_wait (W_woken a t) = a"
| "leaves_wait p = False"

fun progress_pending :: "js_pc \<Rightarrow> bool" where
  "progress_pending J_progress_lock = True"
| "progress_pending J_progress_wait = True"
| "progress_pending J_progress_woken = True"
| "progress_pending p = False"

lemma signalled_facts:
  "worker_has_txn (worker_signalled w) = worker_has_txn w" "worker_signalled w = W_working \<longleftrightarrow> w = W_working"
  "js_holds_lock (js_signalled j) = js_holds_lock j" "js_signalled j = J_txn own \<longleftrightarrow> j = J_txn own"
  "js_signalled j = J_woken \<longleftrightarrow> j = J_woken \<or> j = J_waiting" "js_signalled j \<noteq> J_waiting"
  "commit_offered (worker_signalled w) = commit_offered w" "progress_pending (js_signalled j) = progress_pending j"
  "js_signalled j \<noteq> J_progress_wait" "worker_signalled w = W_start \<longleftrightarrow> w = W_start" "worker_signalled w = W_ended \<longleftrightarrow> w = W_ended"
  "worker_signalled w \<noteq> W_paused" "worker_signalled w = W_resuming \<longleftrightarrow> w = W_resuming \<or> w = W_paused"
  "worker_signalled w \<noteq> W_compressing" "worker_signalled w = W_recheck \<longleftrightarrow> w = W_recheck \<or> w = W_compressing"
  "js_signalled j = J_idle \<longleftrightarrow> j = J_idle" "js_signalled j = J_progress \<longleftrightarrow> j = J_progress"
  "in_value_wait (worker_signalled w) = in_value_wait w"
  by (cases w; simp; fail | cases j; simp; fail)+

lemma leaves_wait_signalled: "leaves_wait w \<Longrightarrow> leaves_wait (worker_signalled w)" "commit_offered w \<Longrightarrow> leaves_wait (worker_signalled w)"
  by (cases w; simp)+

lemma value_wait_facts:
  assumes "in_value_wait w"
  shows "w \<noteq> W_start" "w \<noteq> W_working" "w \<noteq> W_paused" "w \<noteq> W_resuming" "w \<noteq> W_ended" "worker_has_txn w"
    "\<not> leaves_wait w" "\<not> commit_offered w"
  using assms by (cases w; simp)+

subsection \<open>Exclusion\<close>

text \<open>
  What holds in every reachable state, whether the engine fails or not, when a waiting thread is
  woken only by a signal that is meant for its wait.
\<close>

definition exclusive :: "protocol \<Rightarrow> bool" where
  "exclusive s \<longleftrightarrow>
     (wpc s = W_working \<longrightarrow> writingLock s = Some Worker) \<and>
     (js_holds_lock (jpc s) \<longleftrightarrow> writingLock s = Some JS) \<and>
     (own_txn s \<longleftrightarrow> jpc s = J_txn True) \<and>
     (wtxn s = Live_txn \<longrightarrow> worker_has_txn (wpc s)) \<and>
     (jpc s = J_txn True \<longrightarrow> wtxn s \<noteq> Live_txn) \<and>
     (jpc s = J_txn False \<longrightarrow> wtxn s \<noteq> No_txn) \<and>
     (jpc s = J_woken \<longrightarrow> wtxn s \<noteq> Live_txn \<and> wpc s \<noteq> W_start \<and> wpc s \<noteq> W_resuming) \<and>
     (jpc s = J_waiting \<longrightarrow> interruption s = INTERRUPT_BATCH \<or>
        wtxn s \<noteq> Live_txn \<and> wpc s \<noteq> W_start \<and> wpc s \<noteq> W_paused \<and> wpc s \<noteq> W_resuming) \<and>
     (interruption s = INTERRUPT_BATCH \<longrightarrow> jpc s = J_waiting \<and> leaves_wait (wpc s)) \<and>
     (interruption s = ALLOW_COMMIT \<longrightarrow> commit_offered (wpc s)) \<and>
     (wpc s = W_paused \<longrightarrow> jpc s = J_woken \<or> jpc s = J_txn True)"

lemma exclusive_start: "exclusive protocol_start"
  by (simp add: exclusive_def protocol_start_def interruption_values)

lemma exclusive_worker:
  assumes "exclusive s" "worker_step h s s'" "\<not> wakes_spuriously h"
  shows "exclusive s'"
  using assms(2)
proof (cases rule: worker_step.cases)
  case (wait allow timed)
  have "writingLock s = Some Worker" using assms(1) wait by (simp add: exclusive_def)
  then show ?thesis using assms(1) wait
    by (cases allow) (auto simp: exclusive_def protocol_simps signalled_facts)
qed (use assms(1,3) in \<open>auto simp: exclusive_def protocol_simps signalled_facts\<close>)

lemma exclusiveD:
  assumes "exclusive s"
  shows "wpc s = W_working \<longrightarrow> writingLock s = Some Worker" "js_holds_lock (jpc s) \<longleftrightarrow> writingLock s = Some JS"
    "own_txn s \<longleftrightarrow> jpc s = J_txn True" "wtxn s = Live_txn \<longrightarrow> worker_has_txn (wpc s)"
    "jpc s = J_txn True \<longrightarrow> wtxn s \<noteq> Live_txn" "jpc s = J_txn False \<longrightarrow> wtxn s \<noteq> No_txn"
    "jpc s = J_woken \<longrightarrow> wtxn s \<noteq> Live_txn \<and> wpc s \<noteq> W_start \<and> wpc s \<noteq> W_resuming"
    "jpc s = J_waiting \<longrightarrow> interruption s = INTERRUPT_BATCH \<or>
        wtxn s \<noteq> Live_txn \<and> wpc s \<noteq> W_start \<and> wpc s \<noteq> W_paused \<and> wpc s \<noteq> W_resuming"
    "interruption s = INTERRUPT_BATCH \<longrightarrow> jpc s = J_waiting \<and> leaves_wait (wpc s)"
    "interruption s = ALLOW_COMMIT \<longrightarrow> commit_offered (wpc s)"
    "wpc s = W_paused \<longrightarrow> jpc s = J_woken \<or> jpc s = J_txn True"
  using assms by (simp_all add: exclusive_def)

lemma exclusive_signal_worker:
  assumes "exclusive s" "wpc s = W_paused \<Longrightarrow> jpc s \<noteq> J_woken"
  shows "exclusive (signal_worker s)"
  using assms by (cases "wpc s") (auto simp: exclusive_def signal_worker_def)

lemma exclusive_signal_js:
  assumes "exclusive s" "jpc s = J_waiting \<Longrightarrow> wtxn s \<noteq> Live_txn \<and> interruption s \<noteq> INTERRUPT_BATCH"
  shows "exclusive (signal_js s)"
  using assms by (cases "jpc s") (auto simp: exclusive_def signal_js_def)

lemma exclusive_js:
  assumes ok: "exclusive s" and step: "js_step h s s'" and ns: "\<not> wakes_spuriously h"
  shows "exclusive s'"
  using step
proof (cases rule: js_step.cases)
  case (begin_txn sync)
  then show ?thesis using ok by (simp add: exclusive_def)
next
  case (acquire_interrupt)
  then show ?thesis using ok leaves_wait_signalled(2) [of "wpc s"]
    by (simp add: exclusive_def protocol_simps signalled_facts)
next
  case (acquire_shared sync)
  then show ?thesis using exclusiveD [OF ok] by (simp add: exclusive_def interruption_values)
next
  case (acquire_own sync)
  then show ?thesis using exclusiveD [OF ok] by (simp add: exclusive_def interruption_values)
next
  case spurious_js_wake
  with ns show ?thesis by simp
next
  case acquired
  then show ?thesis using exclusiveD [OF ok] by (simp add: exclusive_def)
next
  case (end_txn own)
  have "exclusive (signal_worker s)" by (rule exclusive_signal_worker [OF ok]) (simp add: end_txn)
  from exclusiveD [OF this] show ?thesis using end_txn exclusiveD [OF ok]
    by (simp add: exclusive_def signal_worker_def signalled_facts interruption_values)
next
  case (resume_writing own)
  show ?thesis
    unfolding resume_writing(1) by (rule exclusive_signal_worker [OF ok]) (use resume_writing(2) in auto)
next
  case progress_event
  then show ?thesis using ok by (simp add: exclusive_def)
next
  case progress_null
  have "jpc s \<noteq> J_txn own" "\<not> js_holds_lock (jpc s)" "jpc s \<noteq> J_woken" "jpc s \<noteq> J_waiting" for own
    using progress_null(2) by auto
  then show ?thesis using progress_null exclusiveD [OF ok] by (simp add: exclusive_def)
next
  case progress_run
  have "jpc s \<noteq> J_txn own" "\<not> js_holds_lock (jpc s)" "jpc s \<noteq> J_woken" "jpc s \<noteq> J_waiting" for own
    using progress_run(2) by auto
  then show ?thesis using progress_run exclusiveD [OF ok] by (simp add: exclusive_def)
next
  case progress_end
  have "exclusive (signal_worker s)" by (rule exclusive_signal_worker [OF ok]) (simp add: progress_end)
  from exclusiveD [OF this] show ?thesis using progress_end exclusiveD [OF ok]
    by (simp add: exclusive_def signal_worker_def signalled_facts)
qed

text \<open>A compression thread that does not signal late cannot meet a thread in another wait.\<close>

lemma exclusive_compressor:
  assumes ok: "exclusive s" and step: "compressor_step h s s'" and nl: "\<not> signals_late h"
  shows "exclusive s'"
proof -
  have w: "in_value_wait (wpc s)" using step nl by (auto elim: compressor_stepE)
  note v = value_wait_facts [OF w]
  have sw: "exclusive (signal_worker s)" by (rule exclusive_signal_worker [OF ok]) (simp add: v)
  have int: "interruption s \<noteq> INTERRUPT_BATCH" using exclusiveD(9) [OF ok] v(7) by blast
  have j: "jpc s = J_waiting \<Longrightarrow> wtxn s \<noteq> Live_txn" using exclusiveD(8) [OF ok] int by blast
  have sj: "exclusive (signal_js s)" by (rule exclusive_signal_js [OF ok]) (simp add: j int)
  have sb: "exclusive (signal_js (signal_worker s))"
    by (rule exclusive_signal_js [OF sw]) (simp add: signal_worker_def j int)
  have upd: "exclusive (t\<lparr>signals_due := n\<rparr>) = exclusive t" "exclusive (t\<lparr>value_missing := b\<rparr>) = exclusive t"
    for t n b by (simp_all add: exclusive_def)
  show ?thesis using step by (cases rule: compressor_step.cases) (simp_all add: upd ok sw sj sb)
qed

lemma reachable_exclusive:
  "reachable h s \<Longrightarrow> \<not> wakes_spuriously h \<Longrightarrow> \<not> signals_late h \<Longrightarrow> exclusive s"
  by (induction rule: reachable.induct)
    (blast intro: exclusive_start exclusive_worker exclusive_js exclusive_compressor)+

subsection \<open>Order\<close>

text \<open>What holds besides when the engine does not fail.\<close>

definition orderly :: "protocol \<Rightarrow> bool" where
  "orderly s \<longleftrightarrow>
     (writingLock s = Some Worker \<longleftrightarrow> wpc s = W_working) \<and>
     wtxn s = (if worker_has_txn (wpc s) then Live_txn else No_txn) \<and>
     (jpc s = J_waiting \<longrightarrow> interruption s = INTERRUPT_BATCH) \<and>
     (jpc s = J_woken \<longrightarrow> wpc s = W_paused) \<and>
     (wpc s = W_start \<or> wpc s = W_ended \<longrightarrow> finished s) \<and>
     (progress_pending (jpc s) \<longrightarrow> \<not> finished s) \<and>
     (jpc s = J_progress_wait \<longrightarrow> wpc s = W_resuming \<or> wpc s = W_working \<or> in_value_wait (wpc s)) \<and>
     (wpc s = W_compressing \<and> \<not> value_missing s \<longrightarrow> 0 < signals_due s \<or> jpc s = J_progress_woken \<or> jpc s = J_progress)"

lemma orderlyD:
  assumes "orderly s"
  shows "writingLock s = Some Worker \<longleftrightarrow> wpc s = W_working"
    "wtxn s = (if worker_has_txn (wpc s) then Live_txn else No_txn)"
    "jpc s = J_waiting \<longrightarrow> interruption s = INTERRUPT_BATCH" "jpc s = J_woken \<longrightarrow> wpc s = W_paused"
    "wpc s = W_start \<or> wpc s = W_ended \<longrightarrow> finished s" "progress_pending (jpc s) \<longrightarrow> \<not> finished s"
    "jpc s = J_progress_wait \<longrightarrow> wpc s = W_resuming \<or> wpc s = W_working \<or> in_value_wait (wpc s)"
    "wpc s = W_compressing \<and> \<not> value_missing s \<longrightarrow> 0 < signals_due s \<or> jpc s = J_progress_woken \<or> jpc s = J_progress"
  using assms unfolding orderly_def by blast+

lemma orderly_start: "orderly protocol_start"
  by (simp add: orderly_def protocol_start_def)

lemma orderly_worker:
  assumes ex: "exclusive s" and ok: "orderly s" and step: "worker_step h s s'" and h: "\<not> engine_fails h" "\<not> wakes_spuriously h"
  shows "orderly s'"
  using step
proof (cases rule: worker_step.cases)
  case (wait allow timed)
  have j: "jpc s \<noteq> J_waiting"
    using exclusiveD(9) [OF ex] orderlyD(3) [OF ok] wait(2) by auto
  show ?thesis using orderlyD [OF ok] j wait by (simp add: orderly_def signal_js_def signalled_facts)
next
  case (interrupted allow timed)
  have j: "jpc s = J_waiting" using exclusiveD(9) [OF ex] interrupted by blast
  show ?thesis using orderlyD [OF ok] interrupted by (simp add: orderly_def signal_js_def j)
next
  case resume
  have "jpc s \<noteq> J_woken" using exclusiveD(7) [OF ex] resume by blast
  moreover have "jpc s \<noteq> J_waiting" using exclusiveD(9) [OF ex] orderlyD(3) [OF ok] resume by auto
  ultimately show ?thesis using orderlyD [OF ok] resume by (auto simp: orderly_def)
next
  case (go_on allow timed)
  then show ?thesis using orderlyD [OF ok] by (auto simp: orderly_def)
qed (use orderlyD [OF ok] h in \<open>auto simp: orderly_def\<close>)

lemma orderly_signal_worker:
  assumes "orderly s" "jpc s \<noteq> J_woken"
  shows "orderly (signal_worker s)"
  using orderlyD [OF assms(1)] assms(2) unfolding signal_worker_def orderly_def
  by (cases "wpc s") simp_all

lemma orderly_js:
  assumes ex: "exclusive s" and ok: "orderly s" and step: "js_step h s s'" and ns: "\<not> wakes_spuriously h"
  shows "orderly s'"
  using step
proof (cases rule: js_step.cases)
  case acquire_interrupt
  have "orderly (signal_worker s)" by (rule orderly_signal_worker [OF ok]) (simp add: acquire_interrupt)
  moreover have "wpc (signal_worker s) \<noteq> W_compressing" by (simp add: signal_worker_def signalled_facts)
  ultimately show ?thesis unfolding acquire_interrupt(1) by (auto simp: orderly_def acquire_interrupt(2))
next
  case spurious_js_wake
  with ns show ?thesis by simp
next
  case (end_txn own)
  have "orderly (signal_worker s)" by (rule orderly_signal_worker [OF ok]) (simp add: end_txn)
  moreover have "writingLock s \<noteq> Some Worker" using exclusiveD(2) [OF ex] end_txn by simp
  ultimately show ?thesis using end_txn orderlyD(1) [OF ok] by (auto simp: orderly_def signal_worker_def signalled_facts)
next
  case (resume_writing own)
  show ?thesis unfolding resume_writing(1) by (rule orderly_signal_worker [OF ok]) (use resume_writing(2) in auto)
next
  case progress_null
  have p: "progress_pending (jpc s)" "jpc s \<noteq> J_woken" "jpc s \<noteq> J_txn True" using progress_null(2) by auto
  have "\<not> worker_has_txn (wpc s)" using orderlyD(2) [OF ok] progress_null(4) by (auto split: if_splits)
  moreover have "wpc s \<noteq> W_paused" using exclusiveD(11) [OF ex] p by blast
  moreover have "wpc s \<noteq> W_start" "wpc s \<noteq> W_ended" using orderlyD(5,6) [OF ok] p(1) by blast+
  ultimately have "wpc s = W_resuming" by (cases "wpc s") simp_all
  then show ?thesis using orderlyD [OF ok] progress_null p by (simp add: orderly_def)
next
  case progress_run
  have "wpc s \<noteq> W_working" using exclusiveD(1) [OF ex] progress_run(3) by auto
  then show ?thesis using orderlyD [OF ok] progress_run by (auto simp: orderly_def)
next
  case progress_end
  have "orderly (signal_worker s)" by (rule orderly_signal_worker [OF ok]) (simp add: progress_end)
  moreover have "writingLock s \<noteq> Some Worker" using exclusiveD(2) [OF ex] progress_end by simp
  ultimately show ?thesis using progress_end orderlyD(1) [OF ok] by (auto simp: orderly_def signal_worker_def signalled_facts)
qed (use orderlyD [OF ok] exclusiveD(1) [OF ex] in \<open>auto simp: orderly_def interruption_values\<close>)

lemma orderly_compressor:
  assumes ex: "exclusive s" and ok: "orderly s" and step: "compressor_step h s s'" and nl: "\<not> signals_late h"
  shows "orderly s'"
proof -
  have w: "in_value_wait (wpc s)" using step nl by (auto elim: compressor_stepE)
  have j: "jpc s \<noteq> J_waiting"
    using exclusiveD(9) [OF ex] orderlyD(3) [OF ok] value_wait_facts(7) [OF w] by blast
  have k: "jpc s \<noteq> J_woken" using orderlyD(4) [OF ok] value_wait_facts(3) [OF w] by blast
  show ?thesis
    using step
  proof (cases rule: compressor_step.cases)
    case value_done
    then show ?thesis using orderlyD [OF ok] by (auto simp: orderly_def)
  next
    case wakes_worker
    then show ?thesis using orderlyD [OF ok] w k
      by (cases "wpc s") (auto simp: orderly_def signal_worker_def)
  next
    case wakes_js
    then have "jpc s = J_progress_wait" using j by (cases "jpc s") simp_all
    then show ?thesis using wakes_js orderlyD [OF ok] w by (simp add: orderly_def signal_js_def)
  next
    case wakes_both
    then show ?thesis using orderlyD [OF ok] w j k
      by (cases "wpc s"; cases "jpc s") (simp_all add: orderly_def signal_worker_def signal_js_def)
  qed
qed

lemma reachable_orderly:
  assumes "reachable h s" "\<not> engine_fails h" "\<not> wakes_spuriously h" "\<not> signals_late h"
  shows "orderly s"
  using assms(1)
proof induction
  case initial
  show ?case by (rule orderly_start)
next
  case (by_worker s s')
  then show ?case using orderly_worker reachable_exclusive assms(2-4) by blast
next
  case (by_js s s')
  then show ?case using orderly_js reachable_exclusive assms(3,4) by blast
next
  case (by_compressor s s')
  then show ?case using orderly_compressor reachable_exclusive assms(3,4) by blast
qed

subsection \<open>Properties\<close>

text \<open>
  C14: The handshake of the writer thread with the JavaScript thread keeps the write transaction
  exclusive, provided that a waiting thread is woken only by a signal meant for its wait: no wait
  ends without a signal, and no compression thread signals after the writer has left the wait for its
  value.  Under that proviso, in every state that the threads can reach, whatever the order of their
  steps and whether the engine fails or not, the writer does not work while the JavaScript thread is
  in a transaction or a progress callback; the JavaScript thread never has a write transaction of its
  own beside a live one of the writer; and when it shares the writer's transaction, the writer has
  one and is at rest.  If the engine does not fail either, the writer has no transaction at all beside
  an own one of the JavaScript thread, and the shared one is live.
\<close>

theorem write_transaction_is_exclusive:
  assumes "reachable h s" "\<not> wakes_spuriously h" "\<not> signals_late h"
  shows "\<not> (wpc s = W_working \<and> js_holds_lock (jpc s)) \<and> \<not> (own_txn s \<and> wtxn s = Live_txn) \<and>
     (jpc s = J_txn True \<longleftrightarrow> own_txn s) \<and> (jpc s = J_txn False \<longrightarrow> wtxn s \<noteq> No_txn \<and> wpc s \<noteq> W_working) \<and>
     (\<not> engine_fails h \<longrightarrow> (own_txn s \<longrightarrow> wtxn s = No_txn) \<and> (jpc s = J_txn False \<longrightarrow> wtxn s = Live_txn))"
proof -
  note ex = exclusiveD(1-6) [OF reachable_exclusive [OF assms]]
  have "wtxn s \<noteq> Dead_txn" if "\<not> engine_fails h"
    using orderlyD(2) [OF reachable_orderly [OF assms(1)]] that assms(2,3) by (simp split: if_splits)
  then show ?thesis using ex by (cases "writingLock s"; cases "wtxn s") auto
qed

lemma interrupted_run:
  "reachable h (protocol_start\<lparr>interruption := INTERRUPT_BATCH, wtxn := Live_txn, wpc := W_woken True True,
     jpc := J_waiting\<rparr>)"
proof -
  let ?s1 = "protocol_start\<lparr>writingLock := Some Worker, wtxn := Live_txn, finished := True, wpc := W_working\<rparr>"
  let ?s2 = "(signal_js ?s1)\<lparr>interruption := (if True then ALLOW_COMMIT else 0), writingLock := None, wpc := W_waiting True True\<rparr>"
  let ?s3 = "?s2\<lparr>jpc := J_acquiring True\<rparr>"
  have "reachable h ?s1"
    by (rule run_step(1) [OF reachable.initial worker_step.start]) (simp_all add: protocol_start_def)
  then have "reachable h ?s2" by (rule run_step(1) [OF _ worker_step.wait]) simp
  then have "reachable h ?s3"
    by (rule run_step(2) [OF _ js_step.begin_txn]) (simp add: signal_js_def protocol_start_def)
  then have "reachable h ((signal_worker ?s3)\<lparr>interruption := INTERRUPT_BATCH, jpc := J_waiting\<rparr>)"
    by (rule run_step(2) [OF _ js_step.acquire_interrupt]) (simp_all add: protocol_start_def)
  moreover have "(signal_worker ?s3)\<lparr>interruption := INTERRUPT_BATCH, jpc := J_waiting\<rparr> =
      protocol_start\<lparr>interruption := INTERRUPT_BATCH, wtxn := Live_txn, wpc := W_woken True True, jpc := J_waiting\<rparr>"
    by (simp add: signal_worker_def signal_js_def protocol_start_def)
  ultimately show ?thesis by simp
qed

definition no_hazards :: hazards where
  "no_hazards = \<lparr>engine_fails = False, wakes_spuriously = False, signals_late = False\<rparr>"

lemma no_hazards [simp]:
  "\<not> engine_fails no_hazards" "\<not> wakes_spuriously no_hazards" "\<not> signals_late no_hazards"
  by (simp_all add: no_hazards_def)

theorem write_transaction_is_exclusive_witness:
  "\<exists>s. reachable no_hazards s \<and> wpc s = W_paused \<and> jpc s = J_txn True \<and> own_txn s \<and> wtxn s = No_txn"
proof -
  let ?s0 = "protocol_start\<lparr>interruption := INTERRUPT_BATCH, wtxn := Live_txn, wpc := W_woken True True, jpc := J_waiting\<rparr>"
  let ?s1 = "(signal_js ?s0)\<lparr>interruption := RESTART_WORKER_TXN, wtxn := No_txn, wpc := W_paused\<rparr>"
  let ?s2 = "?s1\<lparr>writingLock := Some JS, own_txn := True, jpc := J_txn True\<rparr>"
  have "reachable no_hazards ?s1"
    by (rule run_step(1) [OF interrupted_run worker_step.interrupted]) (simp_all add: protocol_start_def)
  then have "reachable no_hazards ?s2"
    by (rule run_step(2) [OF _ js_step.acquired]) (simp_all add: protocol_start_def signal_js_def)
  then show ?thesis using write_transaction_is_exclusive [of no_hazards ?s2] by (intro exI [of _ ?s2]) simp
qed

subsection \<open>Turns\<close>

lemma compressor_waits:
  "compressor_step h s s' \<Longrightarrow> \<not> signals_late h \<Longrightarrow> in_value_wait (wpc s)"
  by (auto elim: compressor_stepE)

lemma woken_steps:
  assumes "exclusive s" "orderly s" "jpc s = J_woken" "\<not> wakes_spuriously h" "\<not> signals_late h"
  shows "\<exists>s'. protocol_step h s s'"
    "protocol_step h s s' \<Longrightarrow> jpc s' = J_txn True \<and> own_txn s' \<and> wtxn s' = No_txn"
proof -
  have w: "wpc s = W_paused" "wtxn s = No_txn" using orderlyD(2,4) [OF assms(2)] assms(3) by simp_all
  have "writingLock s = None"
    using orderlyD(1) [OF assms(2)] exclusiveD(2) [OF assms(1)] w assms(3)
    by (cases "writingLock s"; cases "the (writingLock s)") simp_all
  then show "\<exists>s'. protocol_step h s s'"
    using js_step.acquired [OF assms(3)] unfolding protocol_step_def by blast
  assume "protocol_step h s s'"
  then have "js_step h s s'"
    using w assms(4,5) unfolding protocol_step_def by (auto elim: worker_stepE dest: compressor_waits)
  then show "jpc s' = J_txn True \<and> own_txn s' \<and> wtxn s' = No_txn"
    using assms(3,4) w by (auto elim: js_stepE)
qed

lemma waiting_steps:
  assumes "exclusive s" "orderly s" and j: "jpc s = J_waiting" and h: "\<not> engine_fails h" "\<not> wakes_spuriously h" "\<not> signals_late h"
  shows "\<exists>s1. protocol_step h s s1"
    "protocol_step h s s1 \<Longrightarrow> jpc s1 = J_woken \<and> wtxn s1 = No_txn \<and> exclusive s1 \<and> orderly s1"
proof -
  have i: "interruption s = INTERRUPT_BATCH" using orderlyD(3) [OF assms(2)] j by blast
  then have "leaves_wait (wpc s)" using exclusiveD(9) [OF assms(1)] by blast
  then obtain t where w: "wpc s = W_woken True t" by (cases "wpc s") simp_all
  have live: "wtxn s = Live_txn" using orderlyD(2) [OF assms(2)] w by simp
  have l: "writingLock s = None"
    using orderlyD(1) [OF assms(2)] exclusiveD(2) [OF assms(1)] w j
    by (cases "writingLock s"; cases "the (writingLock s)") simp_all
  show "\<exists>s1. protocol_step h s s1"
    using worker_step.interrupted [OF w l i live] unfolding protocol_step_def by blast
  assume "protocol_step h s s1"
  then have step: "worker_step h s s1"
    using j w h unfolding protocol_step_def by (auto elim: js_stepE dest: compressor_waits)
  then have "jpc s1 = J_woken \<and> wtxn s1 = No_txn"
    using w i j h by (auto elim!: worker_stepE simp: protocol_simps)
  then show "jpc s1 = J_woken \<and> wtxn s1 = No_txn \<and> exclusive s1 \<and> orderly s1"
    using exclusive_worker [OF assms(1) step h(2)] orderly_worker [OF assms(1,2) step h(1,2)] by blast
qed

lemma some_step:
  assumes ex: "exclusive s" and ok: "orderly s" and j: "jpc s \<noteq> J_idle"
    and h: "\<not> engine_fails h" "\<not> wakes_spuriously h" "\<not> signals_late h"
  shows "\<exists>s'. protocol_step h s s'"
proof (cases "writingLock s")
  case None
  then have idle: "wpc s \<noteq> W_working" "\<not> js_holds_lock (jpc s)" using orderlyD(1) [OF ok] exclusiveD(2) [OF ex] by auto
  show ?thesis
  proof (cases "jpc s")
    case (J_acquiring sync)
    show ?thesis
    proof (cases "sync \<and> interruption s = ALLOW_COMMIT")
      case True
      then show ?thesis using js_step.acquire_interrupt [of s h] J_acquiring None unfolding protocol_step_def by auto
    next
      case False
      then show ?thesis
        using js_step.acquire_shared [OF J_acquiring None False, of h] js_step.acquire_own [OF J_acquiring None False, of h]
        unfolding protocol_step_def by auto
    qed
  next
    case J_waiting
    then show ?thesis by (rule waiting_steps(1) [OF ex ok _ h])
  next
    case J_woken
    then show ?thesis by (rule woken_steps(1) [OF ex ok _ h(2,3)])
  next
    case J_progress_wait
    then consider "wpc s = W_resuming" | "wpc s = W_recheck" | "wpc s = W_compressing"
      using orderlyD(7) [OF ok] idle by (cases "wpc s") auto
    then show ?thesis
    proof cases
      case 1
      then show ?thesis using worker_step.resume [of s h] None unfolding protocol_step_def by blast
    next
      case 2
      then show ?thesis using worker_step.await_value_again [of s h] worker_step.value_read [of s h] None
        unfolding protocol_step_def by blast
    next
      case 3
      show ?thesis
      proof (cases "value_missing s")
        case True
        then show ?thesis using compressor_step.value_done [of s h] 3 unfolding protocol_step_def by auto
      next
        case False
        then have "0 < signals_due s" using orderlyD(8) [OF ok] 3 J_progress_wait by auto
        then show ?thesis using compressor_step.wakes_both [of s h] 3 None unfolding protocol_step_def by auto
      qed
    qed
  next
    case J_progress_lock
    then show ?thesis
      using js_step.progress_null [of s h] js_step.progress_run [of s h] None unfolding protocol_step_def by blast
  next
    case J_progress_woken
    then show ?thesis
      using js_step.progress_null [of s h] js_step.progress_run [of s h] None unfolding protocol_step_def by blast
  qed (use idle j in simp_all)
next
  case (Some t)
  show ?thesis
  proof (cases t)
    case Worker
    then have "wpc s = W_working" using Some orderlyD(1) [OF ok] by simp
    then show ?thesis using worker_step.user_callback [of s h] unfolding protocol_step_def by blast
  next
    case JS
    then have "js_holds_lock (jpc s)" using Some exclusiveD(2) [OF ex] by simp
    then show ?thesis
      using js_step.end_txn [of s _ h] js_step.progress_end [of s h] unfolding protocol_step_def by (cases "jpc s") auto
  qed
qed

text \<open>
  C15: A JavaScript transaction that interrupts the batch gets its turn, provided that the engine
  does not fail, no wait ends without a signal and no compression thread signals after the writer has
  left the wait for its value.  Under that proviso, from any reachable state in which it waits for the
  writer's commit, some step is possible and every step commits the writer's transaction and wakes
  it, and after that every step makes it enter its own transaction.  In no reachable state is the
  JavaScript thread inside one of these calls with no step possible for any thread.
\<close>

theorem interrupting_transaction_gets_its_turn:
  assumes "reachable h s" "\<not> engine_fails h" "\<not> wakes_spuriously h" "\<not> signals_late h"
  shows "(jpc s \<noteq> J_idle \<longrightarrow> (\<exists>s1. protocol_step h s s1)) \<and>
     (jpc s = J_waiting \<longrightarrow> (\<forall>s1. protocol_step h s s1 \<longrightarrow> jpc s1 = J_woken \<and> wtxn s1 = No_txn \<and>
        (\<exists>s2. protocol_step h s1 s2) \<and>
        (\<forall>s2. protocol_step h s1 s2 \<longrightarrow> jpc s2 = J_txn True \<and> own_txn s2 \<and> wtxn s2 = No_txn)))"
proof (intro conjI impI allI)
  note ex = reachable_exclusive [OF assms(1,3,4)] and ok = reachable_orderly [OF assms]
  show "\<exists>s1. protocol_step h s s1" if "jpc s \<noteq> J_idle" by (rule some_step [OF ex ok that assms(2-4)])
  fix s1 s2
  assume "jpc s = J_waiting" and s1: "protocol_step h s s1"
  note w = waiting_steps(2) [OF ex ok this(1) assms(2-4) s1]
  then show "jpc s1 = J_woken" "wtxn s1 = No_txn" "\<exists>s2. protocol_step h s1 s2"
    by (simp_all add: woken_steps(1) [OF _ _ _ assms(3,4)])
  assume "protocol_step h s1 s2"
  from woken_steps(2) [OF _ _ _ assms(3,4) this] w
  show "jpc s2 = J_txn True" "own_txn s2" "wtxn s2 = No_txn" by simp_all
qed

theorem interrupting_transaction_gets_its_turn_witness:
  "\<exists>s s1. reachable no_hazards s \<and> jpc s = J_waiting \<and> protocol_step no_hazards s s1 \<and> jpc s1 = J_woken"
proof -
  let ?s = "protocol_start\<lparr>interruption := INTERRUPT_BATCH, wtxn := Live_txn, wpc := W_woken True True, jpc := J_waiting\<rparr>"
  have j: "jpc ?s = J_waiting" by simp
  note turn = interrupting_transaction_gets_its_turn [OF interrupted_run no_hazards]
  have "jpc ?s \<noteq> J_idle" by simp
  with turn have "\<exists>s1. protocol_step no_hazards ?s s1" by blast
  then obtain s1 where s1: "protocol_step no_hazards ?s s1" ..
  with turn j have "jpc s1 = J_woken" by blast
  with s1 j interrupted_run show ?thesis by blast
qed

subsection \<open>Where the handshake fails\<close>

text \<open>
  When the commit for an interruption fails, \<open>WaitForCallbacks\<close> returns without a signal and
  \<open>DoWrites\<close> ignores its result: the writer goes on with a transaction that is no more, and
  when it ends, the JavaScript thread waits for ever.
\<close>

lemma failed_commit_run:
  assumes "engine_fails h"
  shows "reachable h (protocol_start\<lparr>writingLock := Some Worker, interruption := RESTART_WORKER_TXN, wtxn := Dead_txn,
     wpc := W_working, jpc := J_waiting\<rparr>)"
proof -
  let ?s = "protocol_start\<lparr>interruption := INTERRUPT_BATCH, wtxn := Live_txn, wpc := W_woken True True, jpc := J_waiting\<rparr>"
  have "reachable h (?s\<lparr>writingLock := Some Worker, interruption := RESTART_WORKER_TXN,
      wtxn := (if wtxn ?s = No_txn then No_txn else Dead_txn), wpc := W_working\<rparr>)"
    by (rule run_step(1) [OF interrupted_run worker_step.interrupted_fails [OF assms]]) (simp_all add: protocol_start_def)
  then show ?thesis by (simp add: protocol_start_def)
qed

lemma failed_commit_blocks_javascript:
  assumes "engine_fails h" "\<not> wakes_spuriously h"
  shows "\<exists>s. reachable h s \<and> jpc s = J_waiting \<and> (\<forall>s'. \<not> protocol_step h s s')"
proof -
  let ?s = "(protocol_start\<lparr>writingLock := Some Worker, interruption := RESTART_WORKER_TXN, wtxn := Dead_txn,
     wpc := W_working, jpc := J_waiting\<rparr>)\<lparr>writingLock := None, wtxn := No_txn, wpc := W_ended\<rparr>"
  have "reachable h ?s"
    by (rule run_step(1) [OF failed_commit_run [OF assms(1)] worker_step.finish]) (simp_all add: protocol_start_def)
  moreover have "\<not> protocol_step h ?s s'" for s'
    using assms(2) unfolding protocol_step_def
    by (auto elim: worker_stepE js_stepE compressor_stepE simp: protocol_start_def)
  ultimately show ?thesis by (intro exI [of _ ?s]) simp
qed

lemma failed_commit_leaves_dead_transaction:
  "engine_fails h \<Longrightarrow> \<exists>s. reachable h s \<and> wpc s = W_working \<and> wtxn s = Dead_txn"
  by (rule exI, rule conjI [OF failed_commit_run]) simp_all

text \<open>
  The second wait of \<open>WaitForCallbacks\<close> does not test a condition.  If it ends without a signal, as
  POSIX allows, the writer begins its transaction again before the JavaScript thread has run, and
  there are two write transactions.
\<close>

lemma paused_writer_resumes_early:
  assumes "reachable h (protocol_start\<lparr>writingLock := None, interruption := RESTART_WORKER_TXN, wtxn := No_txn,
     wpc := W_resuming, jpc := J_woken\<rparr>)"
  shows "\<exists>s. reachable h s \<and> own_txn s \<and> wtxn s = Live_txn"
proof -
  let ?s2 = "protocol_start\<lparr>writingLock := None, interruption := RESTART_WORKER_TXN, wtxn := No_txn,
     wpc := W_resuming, jpc := J_woken\<rparr>"
  let ?s3 = "?s2\<lparr>writingLock := Some Worker, interruption := 0, wtxn := Live_txn, wpc := W_working\<rparr>"
  let ?s4 = "(signal_js ?s3)\<lparr>interruption := (if False then ALLOW_COMMIT else 0), writingLock := None, wpc := W_waiting False True\<rparr>"
  let ?s5 = "?s4\<lparr>writingLock := Some JS, own_txn := True, jpc := J_txn True\<rparr>"
  from assms have "reachable h ?s3" by (rule run_step(1) [OF _ worker_step.resume]) simp_all
  then have "reachable h ?s4" by (rule run_step(1) [OF _ worker_step.wait]) simp
  then have "reachable h ?s5" by (rule run_step(2) [OF _ js_step.acquired]) (simp_all add: signal_js_def)
  then show ?thesis by (intro exI [of _ ?s5]) (simp add: signal_js_def)
qed

lemma spurious_wakeup_breaks_exclusion:
  assumes "wakes_spuriously h"
  shows "\<exists>s. reachable h s \<and> own_txn s \<and> wtxn s = Live_txn"
proof (rule paused_writer_resumes_early)
  let ?s0 = "protocol_start\<lparr>interruption := INTERRUPT_BATCH, wtxn := Live_txn, wpc := W_woken True True, jpc := J_waiting\<rparr>"
  let ?s1 = "(signal_js ?s0)\<lparr>interruption := RESTART_WORKER_TXN, wtxn := No_txn, wpc := W_paused\<rparr>"
  have "reachable h ?s1"
    by (rule run_step(1) [OF interrupted_run worker_step.interrupted]) (simp_all add: protocol_start_def)
  then have "reachable h (signal_worker ?s1)" by (rule run_step(1) [OF _ worker_step.spurious_wake [OF assms]])
  then show "reachable h (protocol_start\<lparr>writingLock := None, interruption := RESTART_WORKER_TXN, wtxn := No_txn,
     wpc := W_resuming, jpc := J_woken\<rparr>)" by (simp add: signal_js_def signal_worker_def protocol_start_def)
qed

text \<open>
  A compression thread that signals after the writer, woken by somebody else, has read the value
  does the same: its signal meets the writer in the wait for the JavaScript thread's transaction.
\<close>

lemma late_signal_breaks_exclusion:
  assumes "signals_late h"
  shows "\<exists>s. reachable h s \<and> own_txn s \<and> wtxn s = Live_txn"
proof (rule paused_writer_resumes_early)
  let ?a1 = "protocol_start\<lparr>writingLock := Some Worker, wtxn := Live_txn, finished := True, wpc := W_working\<rparr>"
  let ?a2 = "?a1\<lparr>value_missing := True, writingLock := None, wpc := W_compressing\<rparr>"
  let ?a3 = "?a2\<lparr>value_missing := False, signals_due := signals_due ?a2 + 1\<rparr>"
  let ?a5 = "(signal_worker ?a3)\<lparr>writingLock := Some Worker, wpc := W_working\<rparr>"
  let ?a6 = "(signal_js ?a5)\<lparr>interruption := (if True then ALLOW_COMMIT else 0), writingLock := None, wpc := W_waiting True True\<rparr>"
  let ?a7 = "?a6\<lparr>jpc := J_acquiring True\<rparr>"
  let ?a8 = "(signal_worker ?a7)\<lparr>interruption := INTERRUPT_BATCH, jpc := J_waiting\<rparr>"
  let ?a9 = "(signal_js ?a8)\<lparr>interruption := RESTART_WORKER_TXN, wtxn := No_txn, wpc := W_paused\<rparr>"
  let ?a10 = "(signal_worker ?a9)\<lparr>signals_due := signals_due ?a9 - 1\<rparr>"
  note sims = protocol_start_def signal_js_def signal_worker_def
  have "reachable h ?a1" by (rule run_step(1) [OF reachable.initial worker_step.start]) (simp_all add: sims)
  then have "reachable h ?a2" by (rule run_step(1) [OF _ worker_step.await_value]) simp
  then have "reachable h ?a3" by (rule run_step(3) [OF _ compressor_step.value_done]) simp_all
  then have "reachable h (signal_worker ?a3)" by (rule run_step(2) [OF _ js_step.resume_writing]) (simp add: sims)
  then have "reachable h ?a5" by (rule run_step(1) [OF _ worker_step.value_read]) (simp_all add: sims)
  then have "reachable h ?a6" by (rule run_step(1) [OF _ worker_step.wait]) simp
  then have "reachable h ?a7" by (rule run_step(2) [OF _ js_step.begin_txn]) (simp add: sims)
  then have "reachable h ?a8" by (rule run_step(2) [OF _ js_step.acquire_interrupt]) (simp_all add: sims)
  then have "reachable h ?a9" by (rule run_step(1) [OF _ worker_step.interrupted]) (simp_all add: sims)
  then have "reachable h ?a10"
    by (rule run_step(3) [OF _ compressor_step.wakes_worker]) (simp_all add: sims assms)
  then show "reachable h (protocol_start\<lparr>writingLock := None, interruption := RESTART_WORKER_TXN, wtxn := No_txn,
     wpc := W_resuming, jpc := J_woken\<rparr>)" by (simp add: sims)
qed

text \<open>
  \<open>UnlockTxn\<close> takes the writer's offer to commit back for the rest of its wait: a transaction that
  asks for a synchronous commit after another one gets the writer's transaction, which stays
  uncommitted when it ends.
\<close>

lemma second_transaction_is_not_committed:
  "\<exists>s s'. reachable h s \<and> wpc s = W_woken True True \<and> jpc s = J_acquiring True \<and> js_step h s s' \<and> jpc s' = J_txn False"
proof -
  let ?s1 = "protocol_start\<lparr>writingLock := Some Worker, wtxn := Live_txn, finished := True, wpc := W_working\<rparr>"
  let ?s2 = "(signal_js ?s1)\<lparr>interruption := (if True then ALLOW_COMMIT else 0), writingLock := None, wpc := W_waiting True True\<rparr>"
  let ?s3 = "?s2\<lparr>jpc := J_acquiring False\<rparr>"
  let ?s4 = "?s3\<lparr>writingLock := Some JS, interruption := USER_HAS_LOCK, jpc := J_txn False\<rparr>"
  let ?s5 = "(signal_worker ?s4)\<lparr>own_txn := False, interruption := 0, writingLock := None, jpc := J_idle\<rparr>"
  let ?s6 = "?s5\<lparr>jpc := J_acquiring True\<rparr>"
  have "reachable h ?s1"
    by (rule run_step(1) [OF reachable.initial worker_step.start]) (simp_all add: protocol_start_def)
  then have "reachable h ?s2" by (rule run_step(1) [OF _ worker_step.wait]) simp
  then have "reachable h ?s3"
    by (rule run_step(2) [OF _ js_step.begin_txn]) (simp add: signal_js_def protocol_start_def)
  then have "reachable h ?s4"
    by (rule run_step(2) [OF _ js_step.acquire_shared [where sync = False]]) (simp_all add: signal_js_def protocol_start_def)
  then have "reachable h ?s5" by (rule run_step(2) [OF _ js_step.end_txn [where own = False]]) simp
  then have r: "reachable h ?s6" by (rule run_step(2) [OF _ js_step.begin_txn]) simp
  have "js_step h ?s6 (?s6\<lparr>writingLock := Some JS, interruption := USER_HAS_LOCK, jpc := J_txn False\<rparr>)"
    by (rule js_step.acquire_shared [where sync = True]) (simp_all add: signal_js_def signal_worker_def protocol_simps protocol_start_def)
  moreover have "wpc ?s6 = W_woken True True" "jpc ?s6 = J_acquiring True"
    "jpc (?s6\<lparr>writingLock := Some JS, interruption := USER_HAS_LOCK, jpc := J_txn False\<rparr>) = J_txn False"
    by (simp_all add: signal_worker_def)
  ultimately show ?thesis using r by (intro exI conjI)
qed

end
