(* ===== verification/Env_Txn.thy ===== *)
theory Env_Txn
  imports Write_Worker
begin

text \<open>
  The synchronous write transactions of \<open>EnvWrap\<close>: \<open>beginTxn\<close>, \<open>commitTxn\<close> and \<open>abortTxn\<close> of
  \<open>src/env.cpp\<close> with the chain of \<open>TxnTracked\<close> of \<open>src/txn.cpp\<close>, on their own or on top of the
  transaction of a paused \<open>WriteWorker\<close>, and the nesting of \<open>transactionSync\<close> and
  \<open>childTransaction\<close> that \<open>write.js\<close> builds from them.
\<close>

subsection \<open>The state\<close>

definition TXN_ABORTABLE :: u32 where "TXN_ABORTABLE = 1"

text \<open>A \<open>TxnTracked\<close>; its \<open>parent\<close> is the next item of the chain.\<close>

record tracked =
  tt_flags :: u32
  tt_txn :: "nat option"

text \<open>
  \<open>EnvWrap\<close>: the chain at \<open>writeTxn\<close> (innermost first), \<open>writeWorker\<close>, the transaction pointer of
  the worker, \<open>writingLock\<close> as held by this thread, the state of the engine, the errors thrown.
\<close>

record 's env_wrap =
  writeTxn :: "tracked list"
  writeWorker :: "'s worker option"
  workerTxn :: nat
  writingLocked :: bool
  engineState :: 's
  thrown :: "string list"

text \<open>
  The calls of libmdbx: the begin of a transaction below a parent (the out parameter is null when
  it fails), commit and abort, whether the environment has \<open>MDBX_WRITEMAP\<close>;
  \<open>after_failed_commit\<close> is what the writer thread does when its commit for an interruption has
  failed, until it signals for another reason, if it ever does.
\<close>

record 's txn_engine =
  txn_begin :: "'s \<Rightarrow> nat option \<Rightarrow> u32 \<Rightarrow> 's \<times> nat option"
  txn_commit :: "'s \<Rightarrow> nat option \<Rightarrow> 's \<times> int"
  txn_abort :: "'s \<Rightarrow> nat option \<Rightarrow> 's"
  env_writemap :: bool
  error_text :: "int \<Rightarrow> string"
  after_failed_commit :: "'s worker \<Rightarrow> 's worker option"

subsection \<open>The operations\<close>

text \<open>
  What the writer does while \<open>AcquireTxn\<close> waits: woken in \<open>WaitForCallbacks\<close> it finds
  \<open>INTERRUPT_BATCH\<close>, commits its transaction and signals (\<^const>\<open>commit_batch\<close>).
\<close>

definition paused_writer :: "'s txn_engine \<Rightarrow> nat \<Rightarrow> 's worker \<Rightarrow> 's worker option" where
  "paused_writer T txn w =
     (let (w, rc) = commit_batch (\<lambda>s m. case txn_commit T s (Some txn) of (s, rc) \<Rightarrow> (rc, s, m)) w
      in if rc = 0 then Some w else after_failed_commit T w)"

definition acquire_from_worker ::
    "'s txn_engine \<Rightarrow> 's worker \<Rightarrow> u32 \<Rightarrow> 's env_wrap \<Rightarrow> ('s env_wrap \<times> u32 \<times> nat option) option" where
  "acquire_from_worker T w flags ew =
     do {
       (w, flags, shared) \<leftarrow> AcquireTxn (paused_writer T (workerTxn ew)) flags (w\<lparr>txn_state := engineState ew\<rparr>);
       Some (ew\<lparr>writeWorker := Some w, engineState := txn_state w, writingLocked := True\<rparr>, flags,
             if shared then Some (workerTxn ew) else None)
     }"

definition current_txn :: "'s txn_engine \<Rightarrow> u32 \<Rightarrow> 's env_wrap \<Rightarrow> ('s env_wrap \<times> u32 \<times> nat option) option" where
  "current_txn T flags ew =
     (case writeTxn ew of
        t # rest \<Rightarrow> Some (ew, flags, tt_txn t)
      | [] \<Rightarrow> (case writeWorker ew of
                 Some w \<Rightarrow> acquire_from_worker T w flags ew
               | None \<Rightarrow> Some (ew\<lparr>writingLocked := True\<rparr>, flags, None)))"

text \<open>\<^const>\<open>None\<close>: the thread waits for ever in \<open>AcquireTxn\<close>.\<close>

definition beginTxn :: "'s txn_engine \<Rightarrow> u32 \<Rightarrow> 's env_wrap \<Rightarrow> 's env_wrap option" where
  "beginTxn T flags ew =
     do {
       (ew, flags, txn) \<leftarrow> current_txn T flags ew;
       Some (if txn \<noteq> None
         then if flags AND TXN_ABORTABLE \<noteq> 0 \<and> \<not> env_writemap T
              then let (s, child) = txn_begin T (engineState ew) txn (flags AND 0xf0000)
                   in ew\<lparr>engineState := s, writeTxn := \<lparr>tt_flags = flags, tt_txn = child\<rparr> # writeTxn ew\<rparr>
              else let flags = (if flags AND TXN_ABORTABLE \<noteq> 0 then flags AND NOT TXN_ABORTABLE else flags)
                   in ew\<lparr>writeTxn := [\<lparr>tt_flags = flags, tt_txn = txn\<rparr>]\<rparr>
         else let (s, txn) = txn_begin T (engineState ew) None (flags AND 0xf0000)
              in ew\<lparr>engineState := s, writeTxn := [\<lparr>tt_flags = flags OR TXN_ABORTABLE, tt_txn = txn\<rparr>]\<rparr>)
     }"

definition unlock_if_outermost :: "'s env_wrap \<Rightarrow> 's env_wrap" where
  "unlock_if_outermost ew =
     (if writeTxn ew = []
      then ew\<lparr>writeWorker := map_option UnlockTxn (writeWorker ew), writingLocked := False\<rparr>
      else ew)"

text \<open>\<^const>\<open>None\<close>: there is no transaction, and the code reads through a null pointer.\<close>

definition commitTxn :: "'s txn_engine \<Rightarrow> 's env_wrap \<Rightarrow> 's env_wrap option" where
  "commitTxn T ew =
     (case writeTxn ew of
        [] \<Rightarrow> None
      | t # parent \<Rightarrow>
          let (s, rc) = (if tt_flags t AND TXN_ABORTABLE \<noteq> 0 then txn_commit T (engineState ew) (tt_txn t)
                         else (engineState ew, 0));
              ew = unlock_if_outermost (ew\<lparr>engineState := s, writeTxn := parent\<rparr>)
          in Some (if rc \<noteq> 0 then ew\<lparr>thrown := thrown ew @ [error_text T rc]\<rparr> else ew))"

definition abortTxn :: "'s txn_engine \<Rightarrow> 's env_wrap \<Rightarrow> 's env_wrap option" where
  "abortTxn T ew =
     (case writeTxn ew of
        [] \<Rightarrow> None
      | t # parent \<Rightarrow>
          let ew = (if tt_flags t AND TXN_ABORTABLE \<noteq> 0
                    then ew\<lparr>engineState := txn_abort T (engineState ew) (tt_txn t)\<rparr>
                    else ew\<lparr>thrown := thrown ew @ [''Can not abort this transaction'']\<rparr>)
          in Some (unlock_if_outermost (ew\<lparr>writeTxn := parent\<rparr>)))"

subsection \<open>Nested transactions\<close>

text \<open>
  What the callback of a transaction does: operations on the database, and child transactions that
  commit or, when the callback throws or returns \<open>ABORT\<close>, abort (\<open>childTransaction\<close> begins with
  the flag \<open>TXN_ABORTABLE\<close>, \<open>transactionSync\<close> with \<open>TXN_ABORTABLE | TXN_SYNCHRONOUS_COMMIT\<close>).
\<close>

datatype 'o txn_step = Operation 'o | Child bool "'o txn_step list"

text \<open>The abstract contract: an aborted transaction has no effect, a committed one that of its steps.\<close>

fun step_effect :: "('o \<Rightarrow> 'd \<Rightarrow> 'd) \<Rightarrow> 'o txn_step \<Rightarrow> 'd \<Rightarrow> 'd" where
  "step_effect upd (Operation x) d = upd x d"
| "step_effect upd (Child commits body) d = (if commits then fold (step_effect upd) body d else d)"

definition end_txn :: "'s txn_engine \<Rightarrow> bool \<Rightarrow> 's env_wrap \<Rightarrow> 's env_wrap option" where
  "end_txn T commits ew = (if commits then commitTxn T ew else abortTxn T ew)"

fun run_step :: "('o \<Rightarrow> 's \<Rightarrow> 's) \<Rightarrow> 's txn_engine \<Rightarrow> 'o txn_step \<Rightarrow> 's env_wrap \<Rightarrow> 's env_wrap option" where
  "run_step run T (Operation x) ew = Some (ew\<lparr>engineState := run x (engineState ew)\<rparr>)"
| "run_step run T (Child commits body) ew =
     do {
       ew \<leftarrow> fold (\<lambda>x r. Option.bind r (run_step run T x)) body (beginTxn T 1 ew);
       end_txn T commits ew
     }"

definition run_steps :: "('o \<Rightarrow> 's \<Rightarrow> 's) \<Rightarrow> 's txn_engine \<Rightarrow> 'o txn_step list \<Rightarrow> 's env_wrap \<Rightarrow> 's env_wrap option" where
  "run_steps run T body ew = fold (\<lambda>x r. Option.bind r (run_step run T x)) body (Some ew)"

definition transactionSync ::
    "('o \<Rightarrow> 's \<Rightarrow> 's) \<Rightarrow> 's txn_engine \<Rightarrow> bool \<Rightarrow> 'o txn_step list \<Rightarrow> 's env_wrap \<Rightarrow> 's env_wrap option" where
  "transactionSync run T commits body ew =
     do { ew \<leftarrow> beginTxn T 3 ew; ew \<leftarrow> run_steps run T body ew; end_txn T commits ew }"

subsection \<open>What the engine promises\<close>

text \<open>
  \<open>view\<close> reads the engine's state as the committed database and the stack of open transactions,
  innermost first, each with its own database.  A child starts with the database of its parent,
  a commit gives its database to the parent or commits it, an abort drops it.
\<close>

definition txn_engine_ok ::
    "('s \<Rightarrow> 'd \<times> (nat \<times> 'd) list) \<Rightarrow> ('o \<Rightarrow> 'd \<Rightarrow> 'd) \<Rightarrow> ('o \<Rightarrow> 's \<Rightarrow> 's) \<Rightarrow> 's txn_engine \<Rightarrow> bool" where
  "txn_engine_ok view upd run T \<longleftrightarrow>
     (\<forall>s c. view s = (c, []) \<longrightarrow> (\<exists>s' t. txn_begin T s None 0 = (s', Some t) \<and> view s' = (c, [(t, c)]))) \<and>
     (\<forall>s c p d rest. view s = (c, (p, d) # rest) \<longrightarrow>
        (\<exists>s' t. txn_begin T s (Some p) 0 = (s', Some t) \<and> view s' = (c, (t, d) # (p, d) # rest))) \<and>
     (\<forall>s c t d. view s = (c, [(t, d)]) \<longrightarrow> (\<exists>s'. txn_commit T s (Some t) = (s', 0) \<and> view s' = (d, []))) \<and>
     (\<forall>s c t d p d' rest. view s = (c, (t, d) # (p, d') # rest) \<longrightarrow>
        (\<exists>s'. txn_commit T s (Some t) = (s', 0) \<and> view s' = (c, (p, d) # rest))) \<and>
     (\<forall>s c t d rest. view s = (c, (t, d) # rest) \<longrightarrow> view (txn_abort T s (Some t)) = (c, rest)) \<and>
     (\<forall>s c t d rest x. view s = (c, (t, d) # rest) \<longrightarrow> view (run x s) = (c, (t, upd x d) # rest))"

lemma txn_engine_okD:
  assumes "txn_engine_ok view upd run T"
  shows "view s = (c, []) \<Longrightarrow> \<exists>s' t. txn_begin T s None 0 = (s', Some t) \<and> view s' = (c, [(t, c)])"
    "view s = (c, (p, d) # rest) \<Longrightarrow>
       \<exists>s' t. txn_begin T s (Some p) 0 = (s', Some t) \<and> view s' = (c, (t, d) # (p, d) # rest)"
    "view s = (c, [(t, d)]) \<Longrightarrow> \<exists>s'. txn_commit T s (Some t) = (s', 0) \<and> view s' = (d, [])"
    "view s = (c, (t, d) # (p, d') # rest) \<Longrightarrow>
       \<exists>s'. txn_commit T s (Some t) = (s', 0) \<and> view s' = (c, (p, d) # rest)"
    "view s = (c, (t, d) # rest) \<Longrightarrow> view (txn_abort T s (Some t)) = (c, rest)"
    "view s = (c, (t, d) # rest) \<Longrightarrow> view (run x s) = (c, (t, upd x d) # rest)"
  using assms by (simp_all add: txn_engine_ok_def)

text \<open>The writer's commit for an interruption is one of them.\<close>

lemma paused_writer_commits:
  assumes "txn_engine_ok view upd run T" "view (txn_state w) = (c, [(t, d)])"
  obtains w' where "paused_writer T t w = Some w'" "view (txn_state w') = (d, [])"
  using txn_engine_okD(3) [OF assms] by (auto simp: paused_writer_def commit_batch_def)

subsection \<open>The chain is a stack\<close>

text \<open>Inside a transaction: the innermost tracked transaction is the engine's.\<close>

definition inside :: "('s \<Rightarrow> 'd \<times> (nat \<times> 'd) list) \<Rightarrow> 'd \<Rightarrow> nat \<Rightarrow> 'd \<Rightarrow> (nat \<times> 'd) list \<Rightarrow> 's env_wrap \<Rightarrow> bool" where
  "inside view c t d rest ew \<longleftrightarrow>
     view (engineState ew) = (c, (t, d) # rest) \<and> writeTxn ew \<noteq> [] \<and> tt_txn (hd (writeTxn ew)) = Some t"

lemma inside_update [simp]:
  "inside view c t d rest (ew\<lparr>engineState := s\<rparr>) \<longleftrightarrow>
     view s = (c, (t, d) # rest) \<and> writeTxn ew \<noteq> [] \<and> tt_txn (hd (writeTxn ew)) = Some t"
  by (simp add: inside_def)

lemma child_begins:
  assumes "txn_engine_ok view upd run T" "\<not> env_writemap T" "inside view c t d rest ew"
  obtains s' t' where "beginTxn T 1 ew = Some (ew\<lparr>engineState := s', writeTxn := \<lparr>tt_flags = 1, tt_txn = Some t'\<rparr> # writeTxn ew\<rparr>)"
    "view s' = (c, (t', d) # (t, d) # rest)"
proof -
  from assms(3) obtain y ys where ys: "writeTxn ew = y # ys" "tt_txn y = Some t"
    and v: "view (engineState ew) = (c, (t, d) # rest)" unfolding inside_def by (cases "writeTxn ew") simp_all
  from txn_engine_okD(2) [OF assms(1) v] obtain s' t'
    where "txn_begin T (engineState ew) (Some t) 0 = (s', Some t')" "view s' = (c, (t', d) # (t, d) # rest)" by blast
  with ys assms(2) show ?thesis by (intro that) (simp_all add: beginTxn_def current_txn_def TXN_ABORTABLE_def)
qed

lemma child_ends:
  assumes "txn_engine_ok view upd run T" "view s = (c, (t', d') # (t, d) # rest)" "writeTxn ew \<noteq> []"
  obtains s' where "end_txn T commits (ew\<lparr>writeTxn := \<lparr>tt_flags = 1, tt_txn = Some t'\<rparr> # writeTxn ew, engineState := s\<rparr>) =
      Some (ew\<lparr>engineState := s'\<rparr>)" "view s' = (c, (t, if commits then d' else d) # rest)"
proof (cases commits)
  case True
  from txn_engine_okD(4) [OF assms(1,2)] obtain s' where "txn_commit T s (Some t') = (s', 0)" "view s' = (c, (t, d') # rest)"
    by blast
  with True assms(3) show ?thesis
    by (intro that) (simp_all add: end_txn_def commitTxn_def unlock_if_outermost_def TXN_ABORTABLE_def)
next
  case False
  with txn_engine_okD(5) [OF assms(1,2)] assms(3) show ?thesis
    by (intro that) (simp_all add: end_txn_def abortTxn_def unlock_if_outermost_def TXN_ABORTABLE_def)
qed

lemma run_steps_simps [simp]:
  "run_steps run T [] ew = Some ew"
  "run_steps run T (x # xs) ew = Option.bind (run_step run T x ew) (run_steps run T xs)"
proof -
  have "fold (\<lambda>x r. Option.bind r (run_step run T x)) xs None = None" by (induction xs) simp_all
  then show "run_steps run T (x # xs) ew = Option.bind (run_step run T x ew) (run_steps run T xs)"
    by (cases "run_step run T x ew") (simp_all add: run_steps_def)
qed (simp add: run_steps_def)

lemma run_steps_effect_aux:
  assumes "\<And>x ew d. x \<in> set body \<Longrightarrow> inside view c t d rest ew \<Longrightarrow>
      \<exists>s'. run_step run T x ew = Some (ew\<lparr>engineState := s'\<rparr>) \<and> view s' = (c, (t, step_effect upd x d) # rest)"
    and "inside view c t d rest ew"
  shows "\<exists>s'. run_steps run T body ew = Some (ew\<lparr>engineState := s'\<rparr>) \<and>
      view s' = (c, (t, fold (step_effect upd) body d) # rest)"
  using assms
proof (induction body arbitrary: d ew)
  case Nil
  then show ?case by (intro exI [of _ "engineState ew"]) (simp add: inside_def)
next
  case (Cons x xs)
  from Cons.prems(1) [OF _ Cons.prems(2)] obtain s' where s': "run_step run T x ew = Some (ew\<lparr>engineState := s'\<rparr>)"
    "view s' = (c, (t, step_effect upd x d) # rest)" by auto
  then have i: "inside view c t (step_effect upd x d) rest (ew\<lparr>engineState := s'\<rparr>)"
    using Cons.prems(2) by (simp add: inside_def)
  from Cons.IH [OF Cons.prems(1) i] s'(1) show ?case by auto
qed

text \<open>With \<open>MDBX_WRITEMAP\<close> \<open>write.js\<close> refuses child transactions.\<close>

fun childless :: "'o txn_step \<Rightarrow> bool" where
  "childless (Operation x) \<longleftrightarrow> True"
| "childless (Child commits body) \<longleftrightarrow> False"

lemma run_step_effect:
  assumes "txn_engine_ok view upd run T"
  shows "inside view c t d rest ew \<Longrightarrow> env_writemap T \<longrightarrow> childless x \<Longrightarrow>
    \<exists>s'. run_step run T x ew = Some (ew\<lparr>engineState := s'\<rparr>) \<and> view s' = (c, (t, step_effect upd x d) # rest)"
proof (induction x arbitrary: ew t d rest)
  case (Operation x)
  then show ?case
    using txn_engine_okD(6) [OF assms(1)] by (intro exI [of _ "run x (engineState ew)"]) (simp add: inside_def)
next
  case (Child commits body)
  then have nw: "\<not> env_writemap T" by simp
  from child_begins [OF assms nw Child.prems(1)] obtain s1 t1
    where b: "beginTxn T 1 ew = Some (ew\<lparr>engineState := s1, writeTxn := \<lparr>tt_flags = 1, tt_txn = Some t1\<rparr> # writeTxn ew\<rparr>)"
      (is "_ = Some ?ew1") and v1: "view s1 = (c, (t1, d) # (t, d) # rest)" .
  have i: "inside view c t1 d ((t, d) # rest) ?ew1" using v1 by (simp add: inside_def)
  obtain s2 where s2: "run_steps run T body ?ew1 = Some (?ew1\<lparr>engineState := s2\<rparr>)"
    "view s2 = (c, (t1, fold (step_effect upd) body d) # (t, d) # rest)"
    using run_steps_effect_aux [OF Child.IH i] nw by auto
  have "writeTxn ew \<noteq> []" using Child.prems by (simp add: inside_def)
  from child_ends [OF assms(1) s2(2) this, of commits] obtain s3
    where "end_txn T commits (ew\<lparr>writeTxn := \<lparr>tt_flags = 1, tt_txn = Some t1\<rparr> # writeTxn ew, engineState := s2\<rparr>) =
      Some (ew\<lparr>engineState := s3\<rparr>)" "view s3 = (c, (t, if commits then fold (step_effect upd) body d else d) # rest)" .
  then show ?case
    using b s2(1) by (intro exI [of _ s3]; cases commits) (simp_all add: run_steps_def [symmetric])
qed

lemma run_steps_effect:
  assumes "txn_engine_ok view upd run T" "env_writemap T \<longrightarrow> (\<forall>x \<in> set body. childless x)" "inside view c t d rest ew"
  shows "\<exists>s'. run_steps run T body ew = Some (ew\<lparr>engineState := s'\<rparr>) \<and>
      view s' = (c, (t, fold (step_effect upd) body d) # rest)"
  by (rule run_steps_effect_aux [OF run_step_effect [OF assms(1)] assms(3)]) (use assms(2) in auto)

subsection \<open>Outermost transactions\<close>

text \<open>
  Between the synchronous transactions: either no transaction is open, or the writer is paused with
  its transaction.  \<open>interrupts\<close> says whether the writer offers to commit it first.
\<close>

definition at_rest :: "('s \<Rightarrow> 'd \<times> (nat \<times> 'd) list) \<Rightarrow> 'd \<Rightarrow> 'd option \<Rightarrow> 's env_wrap \<Rightarrow> bool" where
  "at_rest view c paused ew \<longleftrightarrow>
     writeTxn ew = [] \<and>
     (case writeWorker ew of
        None \<Rightarrow> paused = None
      | Some w \<Rightarrow> txn_live w = (paused \<noteq> None) \<and> (interruptionStatus w = ALLOW_COMMIT \<longrightarrow> paused \<noteq> None)) \<and>
     view (engineState ew) = (c, case paused of None \<Rightarrow> [] | Some d \<Rightarrow> [(workerTxn ew, d)])"

definition interrupts :: "'s env_wrap \<Rightarrow> bool" where
  "interrupts ew \<longleftrightarrow> (case writeWorker ew of Some w \<Rightarrow> interruptionStatus w = ALLOW_COMMIT | None \<Rightarrow> False)"

text \<open>What a transaction with the effect \<open>f\<close> makes of the committed and of the paused database.\<close>

definition atomic_effect :: "('d \<Rightarrow> 'd) \<Rightarrow> bool \<Rightarrow> 'd \<Rightarrow> 'd option \<Rightarrow> 'd \<times> 'd option" where
  "atomic_effect f interrupted c paused =
     (case paused of None \<Rightarrow> (f c, None) | Some d \<Rightarrow> if interrupted then (f d, None) else (c, Some (f d)))"

lemma abortable_bits [simp]: "(3 :: u32) AND 1 = 1" "(7 :: u32) AND 1 = 1" "(3 :: u32) AND 2 = 2"
    "(7 :: u32) AND NOT 1 = 6" "(6 :: u32) AND 1 = 0"
  by (simp_all add: and_one_eq)

text \<open>
  After the begin: an own transaction of the engine, or, with \<open>MDBX_WRITEMAP\<close> on top of the writer,
  the writer's transaction itself, which cannot be aborted.
\<close>

definition begun :: "('s \<Rightarrow> 'd \<times> (nat \<times> 'd) list) \<Rightarrow> bool \<Rightarrow> 's env_wrap \<Rightarrow> 'd \<Rightarrow> nat \<Rightarrow> 'd \<Rightarrow> (nat \<times> 'd) list \<Rightarrow> bool" where
  "begun view own ew c t d rest \<longleftrightarrow>
     (\<exists>f. writeTxn ew = [\<lparr>tt_flags = f, tt_txn = Some t\<rparr>] \<and> (f AND TXN_ABORTABLE \<noteq> 0) = own) \<and>
     view (engineState ew) = (c, (t, d) # rest)"

lemma begun_own:
  assumes "txn_engine_ok view upd run T" "view (engineState ew) = (c, [])" "f AND TXN_ABORTABLE \<noteq> 0"
  obtains s t where "txn_begin T (engineState ew) None 0 = (s, Some t)"
    "begun view True (ew\<lparr>engineState := s, writeTxn := [\<lparr>tt_flags = f, tt_txn = Some t\<rparr>]\<rparr>) c t c []"
  using txn_engine_okD(1) [OF assms(1,2)] assms(3) by (auto simp: begun_def)

lemma outermost_begins:
  assumes ok: "txn_engine_ok view upd run T" and rest: "at_rest view c paused ew"
  obtains ew1 own t c1 d rest where "beginTxn T 3 ew = Some ew1" "begun view own ew1 c1 t d rest"
    "thrown ew1 = thrown ew" "workerTxn ew1 = workerTxn ew"
    "own \<longleftrightarrow> \<not> env_writemap T \<or> paused = None \<or> interrupts ew"
    "(c1, d, rest) = (case paused of None \<Rightarrow> (c, c, []) | Some d \<Rightarrow>
       if interrupts ew then (d, d, []) else (c, d, if own then [(workerTxn ew, d)] else []))"
    "\<not> own \<longrightarrow> t = workerTxn ew"
proof -
  note simps = beginTxn_def current_txn_def acquire_from_worker_def AcquireTxn_def TXN_ABORTABLE_def
    TXN_SYNCHRONOUS_COMMIT_def TXN_FROM_WORKER_def interrupts_def
  have w0: "writeTxn ew = []" using rest by (simp add: at_rest_def)
  have f3: "(3 :: u32) AND TXN_ABORTABLE \<noteq> 0" "(7 :: u32) AND TXN_ABORTABLE \<noteq> 0" by (simp_all add: TXN_ABORTABLE_def)
  show ?thesis
  proof (cases "writeWorker ew")
    case None
    then have p: "paused = None" "view (engineState ew) = (c, [])" using rest by (auto simp: at_rest_def)
    from begun_own [OF ok p(2) f3(1)] obtain s t where b: "txn_begin T (engineState ew) None 0 = (s, Some t)"
      "begun view True (ew\<lparr>engineState := s, writeTxn := [\<lparr>tt_flags = 3, tt_txn = Some t\<rparr>]\<rparr>) c t c []" .
    show ?thesis
      by (rule that [of "ew\<lparr>writingLocked := True, engineState := s, writeTxn := [\<lparr>tt_flags = 3, tt_txn = Some t\<rparr>]\<rparr>" True c t c "[]"])
        (use None p b w0 in \<open>simp_all add: simps begun_def\<close>)
  next
    case (Some w)
    let ?w = "w\<lparr>txn_state := engineState ew, locked := True\<rparr>"
    show ?thesis
    proof (cases paused)
      case None
      with Some rest have p: "\<not> txn_live w" "interruptionStatus w \<noteq> ALLOW_COMMIT" "view (engineState ew) = (c, [])"
        by (auto simp: at_rest_def)
      from begun_own [OF ok p(3) f3(2)] obtain s t where b: "txn_begin T (engineState ew) None 0 = (s, Some t)"
        "begun view True (ew\<lparr>engineState := s, writeTxn := [\<lparr>tt_flags = 7, tt_txn = Some t\<rparr>]\<rparr>) c t c []" .
      show ?thesis
        by (rule that [of "ew\<lparr>writeWorker := Some (?w\<lparr>interruptionStatus := USER_HAS_LOCK\<rparr>), writingLocked := True,
             engineState := s, writeTxn := [\<lparr>tt_flags = 7, tt_txn = Some t\<rparr>]\<rparr>" True c t c "[]"])
          (use None Some p b w0 in \<open>simp_all add: simps begun_def\<close>)
    next
      case (Some d)
      with \<open>writeWorker ew = Some w\<close> rest have p: "txn_live w" "view (engineState ew) = (c, [(workerTxn ew, d)])"
        by (auto simp: at_rest_def)
      show ?thesis
      proof (cases "interruptionStatus w = ALLOW_COMMIT")
        case True
        have "view (txn_state (?w\<lparr>interruptionStatus := INTERRUPT_BATCH\<rparr>)) = (c, [(workerTxn ew, d)])" using p by simp
        from paused_writer_commits [OF ok this] obtain w'
          where w': "paused_writer T (workerTxn ew) (?w\<lparr>interruptionStatus := INTERRUPT_BATCH\<rparr>) = Some w'"
            "view (txn_state w') = (d, [])" .
        from begun_own [OF ok, of "ew\<lparr>engineState := txn_state w'\<rparr>" d 7] w'(2) f3(2) obtain s t
          where b: "txn_begin T (txn_state w') None 0 = (s, Some t)"
            "begun view True (ew\<lparr>engineState := s, writeTxn := [\<lparr>tt_flags = 7, tt_txn = Some t\<rparr>]\<rparr>) d t d []" by auto
        show ?thesis
          by (rule that [of "ew\<lparr>writeWorker := Some w', writingLocked := True,
               engineState := s, writeTxn := [\<lparr>tt_flags = 7, tt_txn = Some t\<rparr>]\<rparr>" True d t d "[]"])
            (use \<open>writeWorker ew = Some w\<close> True \<open>paused = Some d\<close> w' b w0 in \<open>simp_all add: simps begun_def\<close>)
      next
        case False
        let ?ew = "ew\<lparr>writeWorker := Some (?w\<lparr>interruptionStatus := USER_HAS_LOCK\<rparr>), writingLocked := True\<rparr>"
        show ?thesis
        proof (cases "env_writemap T")
          case True
          show ?thesis
            by (rule that [of "?ew\<lparr>writeTxn := [\<lparr>tt_flags = 6, tt_txn = Some (workerTxn ew)\<rparr>]\<rparr>" False c "workerTxn ew" d "[]"])
              (use \<open>writeWorker ew = Some w\<close> False True \<open>paused = Some d\<close> p w0 in \<open>simp_all add: simps begun_def\<close>)
        next
          case nw: False
          from txn_engine_okD(2) [OF ok p(2)] obtain s t
            where b: "txn_begin T (engineState ew) (Some (workerTxn ew)) 0 = (s, Some t)"
              "view s = (c, [(t, d), (workerTxn ew, d)])" by blast
          show ?thesis
            by (rule that [of "?ew\<lparr>engineState := s, writeTxn := [\<lparr>tt_flags = 7, tt_txn = Some t\<rparr>]\<rparr>" True c t d "[(workerTxn ew, d)]"])
              (use \<open>writeWorker ew = Some w\<close> False nw \<open>paused = Some d\<close> p b w0 in \<open>simp_all add: simps begun_def\<close>)
        qed
      qed
    qed
  qed
qed

lemma outermost_ends:
  assumes ok: "txn_engine_ok view upd run T" and b: "begun view own ew c t d rest" "own \<or> commits"
  obtains ew' where "end_txn T commits ew = Some ew'" "writeTxn ew' = []" "\<not> writingLocked ew'" "thrown ew' = thrown ew"
    "workerTxn ew' = workerTxn ew"
    "view (engineState ew') = (if own then case rest of [] \<Rightarrow> (if commits then d else c, [])
       | (p, d') # r \<Rightarrow> (c, (p, if commits then d else d') # r) else (c, (t, d) # rest))"
proof -
  from b(1) obtain f where f: "writeTxn ew = [\<lparr>tt_flags = f, tt_txn = Some t\<rparr>]" "(f AND TXN_ABORTABLE \<noteq> 0) = own"
    and v: "view (engineState ew) = (c, (t, d) # rest)" by (auto simp: begun_def)
  consider (shared) "\<not> own" commits | (commit) own commits | (abort) own "\<not> commits" using b(2) by blast
  then show ?thesis
  proof cases
    case shared
    with f v show ?thesis
      by (intro that [of "unlock_if_outermost (ew\<lparr>writeTxn := []\<rparr>)"])
         (auto simp: end_txn_def commitTxn_def unlock_if_outermost_def)
  next
    case commit
    obtain s where s: "txn_commit T (engineState ew) (Some t) = (s, 0)"
      "view s = (case rest of [] \<Rightarrow> (d, []) | (p, d') # r \<Rightarrow> (c, (p, d) # r))"
      using txn_engine_okD(3,4) [OF ok] v by (cases rest) (fastforce split: prod.splits)+
    with commit f show ?thesis
      by (intro that [of "unlock_if_outermost (ew\<lparr>engineState := s, writeTxn := []\<rparr>)"])
         (auto simp: end_txn_def commitTxn_def unlock_if_outermost_def split: list.split)
  next
    case abort
    with txn_engine_okD(5) [OF ok v] f show ?thesis
      by (intro that [of "unlock_if_outermost (ew\<lparr>engineState := txn_abort T (engineState ew) (Some t), writeTxn := []\<rparr>)"])
         (auto simp: end_txn_def abortTxn_def unlock_if_outermost_def split: list.split)
  qed
qed

text \<open>
  C16: As long as no begin and no commit of the engine fails, nested synchronous transactions are
  atomic and leave the environment as they found it.  Whether the writer is absent, busy without a
  transaction, paused with its transaction or offering to commit it, a \<open>transactionSync\<close> with any
  tree of operations and child transactions, each committed or aborted, ends with no transaction
  tracked, the lock released and no error thrown, and its effect is that of the committed parts
  alone: on the committed database when it had a transaction of its own (after the writer's commit
  when it interrupts the batch), on the writer's transaction when it ran on top of that.  In an
  environment with \<open>MDBX_WRITEMAP\<close>, where \<open>write.js\<close> refuses child transactions, this holds for
  transactions without children that commit or that have a transaction of their own.
\<close>

theorem nested_transactions_are_atomic:
  assumes "txn_engine_ok view upd run T" "at_rest view c paused ew"
    and "env_writemap T \<longrightarrow> (\<forall>x \<in> set body. childless x) \<and> (commits \<or> paused = None \<or> interrupts ew)"
  shows "\<exists>ew'. transactionSync run T commits body ew = Some ew' \<and> writeTxn ew' = [] \<and> \<not> writingLocked ew' \<and>
     thrown ew' = thrown ew \<and>
     (case atomic_effect (step_effect upd (Child commits body)) (interrupts ew) c paused of (c', paused') \<Rightarrow>
        view (engineState ew') = (c', case paused' of None \<Rightarrow> [] | Some d \<Rightarrow> [(workerTxn ew, d)]))"
proof -
  from outermost_begins [OF assms(1,2)] obtain ew1 own t c1 d rest
    where b: "beginTxn T 3 ew = Some ew1" "begun view own ew1 c1 t d rest" "thrown ew1 = thrown ew"
      "workerTxn ew1 = workerTxn ew" "own \<longleftrightarrow> \<not> env_writemap T \<or> paused = None \<or> interrupts ew"
      "(c1, d, rest) = (case paused of None \<Rightarrow> (c, c, []) | Some d \<Rightarrow>
         if interrupts ew then (d, d, []) else (c, d, if own then [(workerTxn ew, d)] else []))"
      "\<not> own \<longrightarrow> t = workerTxn ew" .
  then have "inside view c1 t d rest ew1" by (auto simp: inside_def begun_def)
  with run_steps_effect [OF assms(1)] assms(3) obtain s
    where s: "run_steps run T body ew1 = Some (ew1\<lparr>engineState := s\<rparr>)" (is "_ = Some ?ew")
      "view s = (c1, (t, fold (step_effect upd) body d) # rest)" by blast
  have bg: "begun view own ?ew c1 t (fold (step_effect upd) body d) rest" using b(2) s(2) by (auto simp: begun_def)
  have oc: "own \<or> commits" using b(5) assms(3) by blast
  from outermost_ends [OF assms(1) bg oc] obtain ew'
    where ew': "end_txn T commits ?ew = Some ew'" "writeTxn ew' = []" "\<not> writingLocked ew'" "thrown ew' = thrown ?ew"
      "workerTxn ew' = workerTxn ?ew"
      "view (engineState ew') = (if own then case rest of [] \<Rightarrow> (if commits then fold (step_effect upd) body d else c1, [])
         | (p, d') # r \<Rightarrow> (c1, (p, if commits then fold (step_effect upd) body d else d') # r)
         else (c1, (t, fold (step_effect upd) body d) # rest))" .
  let ?f = "step_effect upd (Child commits body)"
  have f: "?f x = (if commits then fold (step_effect upd) body x else x)" for x by simp
  have "case atomic_effect ?f (interrupts ew) c paused of (c', paused') \<Rightarrow>
      view (engineState ew') = (c', case paused' of None \<Rightarrow> [] | Some d \<Rightarrow> [(workerTxn ew, d)])"
  proof (cases paused)
    case None
    then have "own" "c1 = c" "d = c" "rest = []" using b(5,6) by simp_all
    then show ?thesis using ew'(6) None f by (simp add: atomic_effect_def del: step_effect.simps)
  next
    case (Some d0)
    show ?thesis
    proof (cases "interrupts ew")
      case True
      then have "own" "c1 = d0" "d = d0" "rest = []" using b(5,6) Some by simp_all
      then show ?thesis using ew'(6) Some True f by (simp add: atomic_effect_def del: step_effect.simps)
    next
      case False
      then have r: "c1 = c" "d = d0" "rest = (if own then [(workerTxn ew, d0)] else [])" using b(6) Some by simp_all
      show ?thesis
      proof (cases own)
        case True
        then show ?thesis using ew'(6) Some False r f by (simp add: atomic_effect_def del: step_effect.simps)
      next
        case no: False
        then have "commits" "t = workerTxn ew" using b(7) oc by simp_all
        then show ?thesis using ew'(6) Some False r f no by (simp add: atomic_effect_def del: step_effect.simps)
      qed
    qed
  qed
  moreover have "transactionSync run T commits body ew = Some ew'"
    using b(1) s(1) ew'(1) by (simp add: transactionSync_def)
  ultimately show ?thesis using ew'(2-4) b(3) by (intro exI [of _ ew'] conjI) simp_all
qed

text \<open>A concrete engine: the state is the committed list of numbers and the stack of open ones.\<close>

definition stack_engine :: "(nat list \<times> (nat \<times> nat list) list) txn_engine" where
  "stack_engine = \<lparr>
     txn_begin = (\<lambda>(c, st) parent flags. case st of [] \<Rightarrow> ((c, [(1, c)]), Some 1)
       | (p, d) # rest \<Rightarrow> ((c, (p + 1, d) # st), Some (p + 1))),
     txn_commit = (\<lambda>(c, st) t. case st of (t, d) # (p, d') # rest \<Rightarrow> ((c, (p, d) # rest), 0)
       | [(t, d)] \<Rightarrow> ((d, []), 0) | [] \<Rightarrow> ((c, []), 22)),
     txn_abort = (\<lambda>(c, st) t. (c, tl st)),
     env_writemap = False,
     error_text = (\<lambda>rc. ''failed''),
     after_failed_commit = (\<lambda>w. None)\<rparr>"

definition stack_run :: "nat \<Rightarrow> nat list \<times> (nat \<times> nat list) list \<Rightarrow> nat list \<times> (nat \<times> nat list) list" where
  "stack_run x s = (case s of (c, (t, d) # rest) \<Rightarrow> (c, (t, x # d) # rest) | _ \<Rightarrow> s)"

lemma stack_engine_ok: "txn_engine_ok id (#) stack_run stack_engine" "\<not> env_writemap stack_engine"
  by (simp_all add: txn_engine_ok_def stack_engine_def stack_run_def)

definition paused_env :: "(nat list \<times> (nat \<times> nat list) list) env_wrap" where
  "paused_env = \<lparr>writeTxn = [],
     writeWorker = Some \<lparr>memory = (\<lambda>_. 0), txn_state = ([10], []), txn_live = True, finishedProgress = True,
       interruptionStatus = 0, progressStatus = 0, error_message = None, worker_instructions = 0, locked = False, waits = 0\<rparr>,
     workerTxn = 1, writingLocked = False, engineState = ([10], [(1, [5, 10])]), thrown = []\<rparr>"

theorem nested_transactions_are_atomic_witness:
  "\<exists>ew'. transactionSync stack_run stack_engine True [Operation 7, Child False [Operation 8], Child True [Operation 9]]
      paused_env = Some ew' \<and> writeTxn ew' = [] \<and> \<not> writingLocked ew' \<and> engineState ew' = ([10], [(1, [9, 7, 5, 10])])"
proof -
  have "at_rest id [10] (Some [5, 10]) paused_env" "\<not> interrupts paused_env"
    by (simp_all add: at_rest_def paused_env_def interrupts_def ALLOW_COMMIT_def)
  with nested_transactions_are_atomic [OF stack_engine_ok(1) this(1),
      of "[Operation 7, Child False [Operation 8], Child True [Operation 9]]" True] stack_engine_ok(2)
  show ?thesis by (auto simp: atomic_effect_def paused_env_def)
qed

subsection \<open>Failing begins and commits\<close>

text \<open>
  \<open>beginTxn\<close> does not look at the result of \<open>mdbx_txn_begin\<close>: when it fails, the environment has a
  tracked transaction without an engine transaction, holds the lock, and no error is thrown.
\<close>

lemma failed_begin_is_not_reported:
  assumes "writeTxn ew = []" "writeWorker ew = None" "txn_begin T (engineState ew) None 0 = (s, None)"
  shows "beginTxn T 3 ew = Some (ew\<lparr>writingLocked := True, engineState := s, writeTxn := [\<lparr>tt_flags = 3, tt_txn = None\<rparr>]\<rparr>)"
  using assms by (simp add: beginTxn_def current_txn_def TXN_ABORTABLE_def)

text \<open>
  A commit that fails ends the tracked transaction and throws; the \<open>catch\<close> of \<open>transactionSync\<close>
  then calls \<open>abortTxn\<close>, which reads the flags through the null \<open>writeTxn\<close>.
\<close>

lemma abort_after_failed_commit_reads_null:
  assumes "writeTxn ew = [\<lparr>tt_flags = f, tt_txn = t\<rparr>]" "f AND TXN_ABORTABLE \<noteq> 0"
    "txn_commit T (engineState ew) t = (s, rc)" "rc \<noteq> 0"
  shows "\<exists>ew'. commitTxn T ew = Some ew' \<and> thrown ew' = thrown ew @ [error_text T rc] \<and> abortTxn T ew' = None"
  using assms by (simp add: commitTxn_def abortTxn_def unlock_if_outermost_def)

text \<open>In \<open>childTransaction\<close> the second call aborts the parent.\<close>

lemma abort_after_failed_child_commit_aborts_parent:
  assumes "writeTxn ew = [\<lparr>tt_flags = f, tt_txn = t\<rparr>, \<lparr>tt_flags = g, tt_txn = p\<rparr>]" "f AND TXN_ABORTABLE \<noteq> 0"
    "g AND TXN_ABORTABLE \<noteq> 0" "txn_commit T (engineState ew) t = (s, rc)" "rc \<noteq> 0"
  shows "\<exists>ew' ew''. commitTxn T ew = Some ew' \<and> abortTxn T ew' = Some ew'' \<and> writeTxn ew'' = [] \<and>
     engineState ew'' = txn_abort T s p"
  using assms by (simp add: commitTxn_def abortTxn_def unlock_if_outermost_def)

end
