(* ===== verification/Env_Registry.thy ===== *)
theory Env_Registry
  imports Prelude
begin

text \<open>
  The environments that the threads of a process share: the list \<open>envs\<close> of \<open>EnvWrap\<close> with its
  mutex, opening and closing (\<open>EnvWrap::open\<close>, \<open>closeEnv\<close> and \<open>close\<close> of \<open>src/env.cpp\<close>).
\<close>

subsection \<open>The state\<close>

text \<open>\<open>env_path_t\<close>\<close>

record env_path =
  ep_env :: nat
  ep_path :: string
  ep_count :: int

text \<open>
  The list with its mutex, the environment that each wrapper holds, and the environments on which
  \<open>mdbx_env_close\<close> was called.
\<close>

record env_registry =
  envs :: "env_path list"
  envsLocked :: bool
  wrapped :: "nat \<Rightarrow> nat option"
  closed_envs :: "nat list"

text \<open>The results of the calls with which \<open>open\<close> configures and opens the environment.\<close>

record open_results =
  rc_maxdbs :: int
  rc_geometry :: int
  rc_maxreaders :: int
  rc_open :: int

datatype open_outcome = Opened | Error_thrown int | Already_closed

subsection \<open>Opening and closing\<close>

text \<open>
  \<open>for (env_path_t envPath : envs)\<close> copies each item: \<open>envPath.count++\<close> does not reach the list.
\<close>

definition find_path :: "string \<Rightarrow> env_registry \<Rightarrow> env_path option" where
  "find_path path r = find (\<lambda>e. ep_path e = path) (envs r)"

definition EnvWrap_open :: "open_results \<Rightarrow> nat \<Rightarrow> string \<Rightarrow> env_registry \<Rightarrow> env_registry \<times> open_outcome" where
  "EnvWrap_open rcs w path r =
     (case wrapped r w of
        None \<Rightarrow> (r, Already_closed)
      | Some env \<Rightarrow>
          let r = r\<lparr>envsLocked := True\<rparr>
          in case find_path path r of
               Some e \<Rightarrow> (r\<lparr>closed_envs := env # closed_envs r, wrapped := (wrapped r)(w \<mapsto> ep_env e), envsLocked := False\<rparr>, Opened)
             | None \<Rightarrow>
                 if rc_maxdbs rcs \<noteq> 0 then (r\<lparr>envsLocked := False\<rparr>, Error_thrown (rc_maxdbs rcs))
                 else if rc_geometry rcs \<noteq> 0 then (r\<lparr>envsLocked := False\<rparr>, Error_thrown (rc_geometry rcs))
                 else if rc_maxreaders rcs \<noteq> 0 then (r, Error_thrown (rc_maxreaders rcs))
                 else if rc_open rcs \<noteq> 0
                 then (r\<lparr>closed_envs := env # closed_envs r, wrapped := (wrapped r)(w := None), envsLocked := False\<rparr>,
                       Error_thrown (rc_open rcs))
                 else (r\<lparr>envs := envs r @ [\<lparr>ep_env = env, ep_path = path, ep_count = 1\<rparr>], envsLocked := False\<rparr>, Opened))"

text \<open>The loop of \<open>closeEnv\<close>: the item of the environment loses one, and goes when none is left.\<close>

fun release_env :: "nat \<Rightarrow> env_path list \<Rightarrow> env_path list \<times> bool" where
  "release_env env [] = ([], False)"
| "release_env env (e # es) =
     (if ep_env e = env
      then let e = e\<lparr>ep_count := ep_count e - 1\<rparr>
           in if ep_count e \<le> 0 then (es, True) else (e # es, False)
      else let (es, closes) = release_env env es in (e # es, closes))"

definition closeEnv :: "nat \<Rightarrow> nat \<Rightarrow> env_registry \<Rightarrow> env_registry" where
  "closeEnv w env r =
     (let (es, closes) = release_env env (envs r)
      in r\<lparr>envs := es, closed_envs := (if closes then env # closed_envs r else closed_envs r),
           wrapped := (wrapped r)(w := None)\<rparr>)"

definition EnvWrap_close :: "nat \<Rightarrow> env_registry \<Rightarrow> env_registry \<times> open_outcome" where
  "EnvWrap_close w r = (case wrapped r w of None \<Rightarrow> (r, Already_closed) | Some env \<Rightarrow> (closeEnv w env r, Opened))"

subsection \<open>Consistency\<close>

text \<open>Each path and each environment is registered once, and no registered environment is closed.\<close>

definition registry_ok :: "env_registry \<Rightarrow> bool" where
  "registry_ok r \<longleftrightarrow> distinct (List.map ep_path (envs r)) \<and> distinct (List.map ep_env (envs r)) \<and>
     (\<forall>e \<in> set (envs r). ep_env e \<notin> set (closed_envs r) \<and> ep_count e = 1)"

text \<open>A wrapper before it is opened holds an environment of its own from \<open>mdbx_env_create\<close>.\<close>

definition fresh_wrap :: "nat \<Rightarrow> env_registry \<Rightarrow> bool" where
  "fresh_wrap w r \<longleftrightarrow> (\<forall>env. wrapped r w = Some env \<longrightarrow> env \<notin> ep_env ` set (envs r) \<and> env \<notin> set (closed_envs r))"

lemma find_path_None: "find_path path r = None \<longleftrightarrow> path \<notin> ep_path ` set (envs r)"
  by (auto simp: find_path_def find_None_iff)

lemma EnvWrap_open_ok:
  assumes "registry_ok r" "fresh_wrap w r"
  shows "registry_ok (fst (EnvWrap_open rcs w path r))"
proof (cases "wrapped r w")
  case (Some env)
  have new: "env \<notin> ep_env ` set (envs r)" "env \<notin> set (closed_envs r)" using assms(2) Some by (auto simp: fresh_wrap_def)
  show ?thesis
  proof (cases "find_path path (r\<lparr>envsLocked := True\<rparr>)")
    case None
    then have "path \<notin> ep_path ` set (envs r)" by (simp add: find_path_None)
    with Some None new assms(1) show ?thesis by (auto simp: EnvWrap_open_def registry_ok_def Let_def)
  qed (use Some new assms(1) in \<open>auto simp: EnvWrap_open_def registry_ok_def Let_def\<close>)
qed (use assms(1) in \<open>simp add: EnvWrap_open_def\<close>)

lemma release_env_ones:
  assumes "\<forall>e \<in> set es. ep_count e = 1" "distinct (List.map ep_env es)"
  shows "release_env env es = (filter (\<lambda>e. ep_env e \<noteq> env) es, env \<in> ep_env ` set es)"
  using assms
proof (induction es)
  case (Cons e es)
  show ?case
  proof (cases "ep_env e = env")
    case True
    from Cons.prems(2) True have "env \<notin> ep_env ` set es" by simp
    then have "\<forall>x \<in> set es. ep_env x \<noteq> env" by blast
    then have "filter (\<lambda>e. ep_env e \<noteq> env) es = es" by simp
    with True Cons.prems(1) show ?thesis by simp
  qed (use Cons in simp)
qed simp

lemma EnvWrap_close_ok:
  assumes "registry_ok r"
  shows "registry_ok (fst (EnvWrap_close w r))"
proof (cases "wrapped r w")
  case (Some env)
  from assms have "release_env env (envs r) = (filter (\<lambda>e. ep_env e \<noteq> env) (envs r), env \<in> ep_env ` set (envs r))"
    by (intro release_env_ones) (auto simp: registry_ok_def)
  with Some assms show ?thesis
    by (auto simp: EnvWrap_close_def closeEnv_def registry_ok_def distinct_map_filter)
qed (use assms in \<open>simp add: EnvWrap_close_def\<close>)

text \<open>
  C17: The registry of environments stays consistent: whatever the settings' results, opening and
  closing keep every path and every environment registered once and no registered environment
  closed.  But the references are not counted: when two wrappers have opened the same path, the
  first close closes the environment that the other one still holds.
\<close>

theorem shared_environment_is_closed_by_first_close:
  assumes "registry_ok r" "fresh_wrap v r" "wrapped r v = Some env'" "e \<in> set (envs r)" "wrapped r w = Some (ep_env e)" "v \<noteq> w"
  shows "registry_ok (fst (EnvWrap_open rcs v path r)) \<and> registry_ok (fst (EnvWrap_close w r)) \<and>
    (let r1 = fst (EnvWrap_open rcs v (ep_path e) r);
         r2 = fst (EnvWrap_close w r1)
     in wrapped r1 v = Some (ep_env e) \<and> wrapped r2 v = Some (ep_env e) \<and> ep_env e \<in> set (closed_envs r2) \<and>
        ep_env e \<notin> ep_env ` set (envs r2))"
proof -
  let ?r1 = "fst (EnvWrap_open rcs v (ep_path e) r)"
  have "find_path (ep_path e) (r\<lparr>envsLocked := True\<rparr>) = Some e"
  proof (cases "find_path (ep_path e) (r\<lparr>envsLocked := True\<rparr>)")
    case None
    with assms(4) show ?thesis by (simp add: find_path_None)
  next
    case (Some e')
    then have "e' \<in> set (envs r)" "ep_path e' = ep_path e" by (auto simp: find_path_def find_Some_iff)
    moreover have "inj_on ep_path (set (envs r))" using assms(1) by (simp add: registry_ok_def distinct_map)
    ultimately show ?thesis using Some assms(4) by (simp add: inj_on_eq_iff)
  qed
  with assms(3) have r1: "?r1 = r\<lparr>closed_envs := env' # closed_envs r, wrapped := (wrapped r)(v \<mapsto> ep_env e), envsLocked := False\<rparr>"
    by (simp add: EnvWrap_open_def)
  have "release_env (ep_env e) (envs r) = (filter (\<lambda>x. ep_env x \<noteq> ep_env e) (envs r), True)"
    using assms(1,4) release_env_ones [of "envs r" "ep_env e"] by (auto simp: registry_ok_def)
  then have "let r2 = fst (EnvWrap_close w ?r1)
     in wrapped ?r1 v = Some (ep_env e) \<and> wrapped r2 v = Some (ep_env e) \<and> ep_env e \<in> set (closed_envs r2) \<and>
        ep_env e \<notin> ep_env ` set (envs r2)"
    using assms(5,6) by (auto simp: Let_def r1 EnvWrap_close_def closeEnv_def)
  then show ?thesis using EnvWrap_open_ok [OF assms(1,2)] EnvWrap_close_ok [OF assms(1)] by (simp add: Let_def)
qed

theorem shared_environment_is_closed_by_first_close_witness:
  "(let r = \<lparr>envs = [\<lparr>ep_env = 1, ep_path = ''data'', ep_count = 1\<rparr>], envsLocked = False,
              wrapped = (\<lambda>_. None)(0 \<mapsto> 1, 5 \<mapsto> 2), closed_envs = []\<rparr>;
        r1 = fst (EnvWrap_open \<lparr>rc_maxdbs = 0, rc_geometry = 0, rc_maxreaders = 0, rc_open = 0\<rparr> 5 ''data'' r);
        r2 = fst (EnvWrap_close 0 r1)
    in wrapped r2 5 = Some 1 \<and> 1 \<in> set (closed_envs r2))"
  using shared_environment_is_closed_by_first_close
    [of "\<lparr>envs = [\<lparr>ep_env = 1, ep_path = ''data'', ep_count = 1\<rparr>], envsLocked = False,
          wrapped = (\<lambda>_. None)(0 \<mapsto> 1, 5 \<mapsto> 2), closed_envs = []\<rparr>" 5 2
        "\<lparr>ep_env = 1, ep_path = ''data'', ep_count = 1\<rparr>" 0]
  by (simp add: registry_ok_def fresh_wrap_def Let_def)

end
