(* ===== verification/Page_Access.thy ===== *)
theory Page_Access
  imports Dirty_List Tree_Page
begin

text \<open>
  How a transaction gets at a page by its number (\<open>mdbx_page_get_ex\<close> of \<open>mdbx.c\<close>): from the
  dirty list of the transaction or of an ancestor, or from the memory map, with the checks of the
  page header.
\<close>

subsection \<open>The transaction\<close>

definition MDBX_TXN_RDONLY :: u32 where "MDBX_TXN_RDONLY = 0x20000"
definition MDBX_TXN_FINISHED :: u32 where "MDBX_TXN_FINISHED = 0x01"
definition MDBX_TXN_ERROR :: u32 where "MDBX_TXN_ERROR = 0x02"
definition MDBX_TXN_SPILLS :: u32 where "MDBX_TXN_SPILLS = 0x08"
definition MDBX_TXN_HAS_CHILD :: u32 where "MDBX_TXN_HAS_CHILD = 0x10"
definition MDBX_TXN_BLOCKED :: u32 where
  "MDBX_TXN_BLOCKED = MDBX_TXN_FINISHED OR MDBX_TXN_ERROR OR MDBX_TXN_HAS_CHILD"
definition MDBX_WRITEMAP :: u32 where "MDBX_WRITEMAP = 0x80000"

text \<open>
  The fields of one transaction of the chain \<open>mt_parent\<close> that the search for a page reads (with
  \<open>mt_dbistate\<close>), and those that only the transaction itself uses.  The chain begins with the transaction itself.
\<close>

record spiller =
  sp_flags :: u32
  sp_front :: u64
  sp_dbistate :: "u32 \<Rightarrow> u8"
  sp_spill_pages :: "pnl option"
  sp_dirtylist :: dpl

record page_txn =
  tx_flags :: u32
  tx_next_pgno :: pgno_t
  tx_txnid :: u64
  tx_front :: u64
  tx_dirtylru :: u32
  tx_chain :: "spiller list"

definition DBI_DIRTY :: u8 where "DBI_DIRTY = 0x01"
definition DBI_STALE :: u8 where "DBI_STALE = 0x02"

definition tx_dbistate :: "page_txn \<Rightarrow> u32 \<Rightarrow> u8" where
  "tx_dbistate T dbi = (case tx_chain T of [] \<Rightarrow> 0 | s # _ \<Rightarrow> sp_dbistate s dbi)"

text \<open>
  What does not change while pages are read: the environment, the address of the memory map, the
  memory.
\<close>

record reading =
  rd_env :: menv
  rd_map :: nat
  rd_mem :: mem

subsection \<open>Finding the page\<close>

datatype page_source = In_map | Spilled | Dirty page_ptr

definition spilled_in :: "pgno_t \<Rightarrow> spiller \<Rightarrow> bool option" where
  "spilled_in pgno s =
     (if sp_flags s AND MDBX_TXN_SPILLS \<noteq> 0
      then case sp_spill_pages s of
             None \<Rightarrow> Some False
           | Some pnl \<Rightarrow> map_option (\<lambda>i. i \<noteq> 0) (pnl_exist pnl (push_bit 1 pgno))
      else Some False)"

text \<open>The loop over the ancestors; a hit gets the next number of the LRU sequence.\<close>

fun find_page :: "u32 \<Rightarrow> pgno_t \<Rightarrow> spiller list \<Rightarrow> (page_source \<times> spiller list) option" where
  "find_page lru pgno [] = Some (In_map, [])"
| "find_page lru pgno (s # ss) = do {
     spilled \<leftarrow> spilled_in pgno s;
     if spilled then Some (Spilled, s # ss)
     else do {
       (i, dl) \<leftarrow> mdbx_dpl_search (sp_dirtylist s) pgno;
       d \<leftarrow> rd (dl_items dl) (unat i);
       if dp_pgno d = pgno
       then do {
         items \<leftarrow> wr (dl_items dl) (unat i) (d\<lparr>dp_lru := ucast lru\<rparr>);
         Some (Dirty (dp_ptr d), s\<lparr>sp_dirtylist := dl\<lparr>dl_items := items\<rparr>\<rparr> # ss)
       }
       else do {
         (src, ss) \<leftarrow> find_page lru pgno ss;
         Some (src, s\<lparr>sp_dirtylist := dl\<rparr> # ss)
       }
     }
   }"

definition locate_page :: "'e reading_scheme \<Rightarrow> pgno_t \<Rightarrow> page_txn \<Rightarrow> (nat \<times> page_txn) option" where
  "locate_page E pgno T =
     (if tx_flags T AND (MDBX_TXN_RDONLY OR MDBX_WRITEMAP) = 0
      then do {
        (src, chain) \<leftarrow> find_page (tx_dirtylru T) pgno (tx_chain T);
        let T = T\<lparr>tx_chain := chain\<rparr>;
        (case src of
           Dirty (Page_at a) \<Rightarrow> Some (a, T\<lparr>tx_dirtylru := tx_dirtylru T + 1\<rparr>)
         | Dirty _ \<Rightarrow> None
         | _ \<Rightarrow> Some (pgno2page (rd_env E) (rd_map E) pgno, T))
      }
      else Some (pgno2page (rd_env E) (rd_map E) pgno, T))"

subsection \<open>The checks of the header\<close>

definition P_SPILLED :: u16 where "P_SPILLED = 0x2000"
definition P_ILL_BITS :: u16 where
  "P_ILL_BITS = NOT (P_BRANCH OR P_LEAF OR P_LEAF2 OR P_OVERFLOW OR P_SPILLED)"

definition IS_OVERFLOW :: "mem \<Rightarrow> nat \<Rightarrow> bool" where "IS_OVERFLOW m mp \<longleftrightarrow> mp_flags m mp AND P_OVERFLOW \<noteq> 0"

definition mp_txnid :: "mem \<Rightarrow> nat \<Rightarrow> u64" where "mp_txnid m mp = ld64 m mp"

definition page_header_ok :: "'e reading_scheme \<Rightarrow> pgno_t \<Rightarrow> nat \<Rightarrow> bool" where
  "page_header_ok E pgno mp \<longleftrightarrow>
     (let m = rd_mem E
      in mp_pgno m mp = pgno \<and> mp_flags m mp AND P_ILL_BITS = 0 \<and>
         (\<not> (mp_upper m mp < mp_lower m mp \<or> (mp_lower m mp OR mp_upper m mp) AND 1 \<noteq> 0 \<or>
              PAGEHDRSZ + unat (mp_upper m mp) > unat (me_psize (rd_env E))) \<or> IS_OVERFLOW m mp))"

definition page_txnid_ok :: "'e reading_scheme \<Rightarrow> u64 \<Rightarrow> page_txn \<Rightarrow> nat \<Rightarrow> bool" where
  "page_txnid_ok E front T mp \<longleftrightarrow>
     \<not> (mp_txnid (rd_mem E) mp > front \<and> (mp_txnid (rd_mem E) mp > tx_front T \<or> front < tx_txnid T))"

text \<open>
  The error code, the page (the null pointer beyond \<open>mt_next_pgno\<close>, the offending page when its
  header is bad) and the transaction, which an error marks.
\<close>

definition mdbx_page_get :: "'e reading_scheme \<Rightarrow> pgno_t \<Rightarrow> u64 \<Rightarrow> page_txn \<Rightarrow> (int \<times> nat \<times> page_txn) option" where
  "mdbx_page_get E pgno front T =
     (if pgno \<ge> tx_next_pgno T
      then Some (error_code MDBX_PAGE_NOTFOUND, 0, T\<lparr>tx_flags := tx_flags T OR MDBX_TXN_ERROR\<rparr>)
      else do {
        (mp, T) \<leftarrow> locate_page E pgno T;
        if page_header_ok E pgno mp \<and> page_txnid_ok E front T mp then Some (0, mp, T)
        else Some (error_code MDBX_PAGE_NOTFOUND, mp, T\<lparr>tx_flags := tx_flags T OR MDBX_TXN_ERROR\<rparr>)
      })"

text \<open>\<open>pp_txnid4chk\<close>: the id against which the pages below a page are checked.\<close>

definition pp_txnid4chk :: "'e reading_scheme \<Rightarrow> nat \<Rightarrow> u64" where
  "pp_txnid4chk E mp = mp_txnid (rd_mem E) mp"

end
