(* ===== verification/Page_Versions.thy ===== *)
theory Page_Versions
  imports Page_Access
begin

text \<open>
  What a transaction sees: the latest version of every page, which is the one in the dirty list of
  the innermost transaction of the chain that has it, unless that page was spilled, and else the
  page in the map.  \<open>mdbx_page_get_ex\<close> is proved to get that version, whatever it reorders on the way.
\<close>

subsection \<open>The latest version\<close>

definition spilled_pages :: "spiller \<Rightarrow> pgno_t set" where
  "spilled_pages s =
     (if sp_flags s AND MDBX_TXN_SPILLS \<noteq> 0
      then (case sp_spill_pages s of None \<Rightarrow> {} | Some pnl \<Rightarrow> set (pnl_items pnl))
      else {})"

fun latest :: "pgno_t \<Rightarrow> spiller list \<Rightarrow> page_source" where
  "latest pgno [] = In_map"
| "latest pgno (s # ss) =
     (if push_bit 1 pgno \<in> spilled_pages s then Spilled
      else (case dpl_view (sp_dirtylist s) pgno of Some (ptr, multi) \<Rightarrow> Dirty ptr | None \<Rightarrow> latest pgno ss))"

definition real_page :: "page_ptr \<Rightarrow> bool" where "real_page ptr \<longleftrightarrow> (\<exists>a. ptr = Page_at a)"

definition spiller_wf :: "spiller \<Rightarrow> bool" where
  "spiller_wf s \<longleftrightarrow>
     dpl_wf (sp_dirtylist s) \<and> (\<forall>d \<in> set (dpl_entries (sp_dirtylist s)). real_page (dp_ptr d)) \<and>
     (case sp_spill_pages s of
        None \<Rightarrow> True
      | Some pnl \<Rightarrow> pnl_wf pnl \<and> unat (pnl ! 1) < 2 ^ 32 - 1 \<and> sorted_wrt (\<ge>) (pnl_items pnl))"

text \<open>Two states of a transaction of the chain that differ in the order and the ages of its dirty list only.\<close>

definition spiller_like :: "spiller \<Rightarrow> spiller \<Rightarrow> bool" where
  "spiller_like s s' \<longleftrightarrow>
     spiller_wf s' \<and> (\<exists>dl. s' = s\<lparr>sp_dirtylist := dl\<rparr>) \<and> dpl_view (sp_dirtylist s') = dpl_view (sp_dirtylist s)"

lemma spiller_like_refl: "spiller_wf s \<Longrightarrow> spiller_like s s"
  unfolding spiller_like_def by (metis spiller.surjective spiller.update_convs(5))

lemma spiller_like_trans: "spiller_like s s' \<Longrightarrow> spiller_like s' s'' \<Longrightarrow> spiller_like s s''"
  unfolding spiller_like_def by force

lemma spiller_like_fields:
  assumes "spiller_like s s'"
  shows "sp_dbistate s' = sp_dbistate s" "sp_front s' = sp_front s" "spilled_pages s' = spilled_pages s"
    "dpl_view (sp_dirtylist s') = dpl_view (sp_dirtylist s)" "spiller_wf s'"
  using assms by (auto simp: spiller_like_def spilled_pages_def)

lemma latest_like: "list_all2 spiller_like ss ss' \<Longrightarrow> latest p ss' = latest p ss"
  by (induction rule: list_all2_induct)
    (auto simp: spiller_like_fields split: option.split)

subsection \<open>An entry gets its number of the LRU sequence\<close>

lemma increasing_pgnos: "increasing ds \<longleftrightarrow> sorted_wrt (<) (map dp_pgno ds)"
  by (induction ds) auto

lemma map_seg: "map f (seg lo n xs) = seg lo n (map f xs)"
  by (simp add: seg_def take_map drop_map)

lemma dpl_touch:
  fixes n :: "31 word"
  assumes wf: "dpl_wf dl" and i: "1 \<le> i" "i \<le> unat (dl_length dl)"
  defines "dl' \<equiv> dl\<lparr>dl_items := (dl_items dl)[i := (dl_items dl ! i)\<lparr>dp_lru := n\<rparr>]\<rparr>"
  shows "dpl_wf dl'" "dpl_view dl' = dpl_view dl"
    "dp_ptr ` set (dpl_entries dl') = dp_ptr ` set (dpl_entries dl)"
proof -
  note w = dpl_wfD [OF wf]
  have same: "map f (dl_items dl') = map f (dl_items dl)" if "\<And>d. f (d\<lparr>dp_lru := n\<rparr>) = f d" for f
    using that by (simp add: dl'_def map_update list_update_same_conv)
      (metis (no_types) list_update_id map_update nth_map list_update_beyond not_le)
  have seg: "map f (seg lo k (dl_items dl')) = map f (seg lo k (dl_items dl))" if "\<And>d. f (d\<lparr>dp_lru := n\<rparr>) = f d" for f lo k
    unfolding map_seg by (subst same) (rule that, rule refl)
  have ends: "dl_items dl' ! 0 = dl_items dl ! 0"
    "dl_items dl' ! (unat (dl_length dl) + 1) = dl_items dl ! (unat (dl_length dl) + 1)"
    using i by (simp_all add: dl'_def)
  have pg: "map dp_pgno (dpl_entries dl') = map dp_pgno (dpl_entries dl)"
    unfolding dpl_entries_def using seg [of dp_pgno] by (simp add: dl'_def)
  have pgs: "dp_pgno ` set (dpl_entries dl') = dp_pgno ` set (dpl_entries dl)"
    using arg_cong [OF pg, of set] by simp
  have "\<forall>d \<in> set (dpl_entries dl'). MIN_PAGENO \<le> dp_pgno d \<and> dp_pgno d \<le> MAX_PAGENO"
  proof
    fix d assume "d \<in> set (dpl_entries dl')"
    then have "dp_pgno d \<in> dp_pgno ` set (dpl_entries dl)" using pgs by blast
    then show "MIN_PAGENO \<le> dp_pgno d \<and> dp_pgno d \<le> MAX_PAGENO" using w(8) by auto
  qed
  moreover have "increasing (seg 1 (unat (dl_sorted dl')) (dl_items dl'))"
    using wf seg [of dp_pgno 1 "unat (dl_sorted dl')"] by (simp add: increasing_pgnos dpl_wf_def dl'_def)
  ultimately show "dpl_wf dl'"
    using wf ends pg by (simp add: dpl_wf_def) (simp add: dl'_def)
  have "map (\<lambda>d. (dp_pgno d, dp_ptr d, dp_multi d)) (dpl_entries dl') = map (\<lambda>d. (dp_pgno d, dp_ptr d, dp_multi d)) (dpl_entries dl)"
    unfolding dpl_entries_def using seg [of "\<lambda>d. (dp_pgno d, dp_ptr d, dp_multi d)"] by (simp add: dl'_def)
  then show "dpl_view dl' = dpl_view dl" by (simp add: dpl_view_def)
  have "map dp_ptr (dpl_entries dl') = map dp_ptr (dpl_entries dl)"
    unfolding dpl_entries_def using seg [of dp_ptr] by (simp add: dl'_def)
  then show "dp_ptr ` set (dpl_entries dl') = dp_ptr ` set (dpl_entries dl)"
    by (metis (no_types) list.set_map)
qed

subsection \<open>The search for the page\<close>

lemma spilled_in_correct:
  assumes "spiller_wf s"
  shows "spilled_in p s = Some (push_bit 1 p \<in> spilled_pages s)"
proof (cases "sp_flags s AND MDBX_TXN_SPILLS \<noteq> 0")
  case True
  show ?thesis
  proof (cases "sp_spill_pages s")
    case (Some pnl)
    then have "pnl_wf pnl" "unat (pnl ! 1) < 2 ^ 32 - 1" "sorted_by pnl_ordered (pnl_items pnl)"
      using assms by (simp_all add: spiller_wf_def pnl_sorted_iff)
    then obtain n where "pnl_exist pnl (push_bit 1 p) = Some n" "n \<noteq> 0 \<longleftrightarrow> push_bit 1 p \<in> set (pnl_items pnl)"
      using pnl_exist_correct by blast
    then show ?thesis using True Some by (simp add: spilled_in_def spilled_pages_def)
  qed (use True in \<open>simp add: spilled_in_def spilled_pages_def\<close>)
qed (simp add: spilled_in_def spilled_pages_def)

lemma dpl_search_entry:
  assumes "dpl_wf dl" "valid_pgno p"
  obtains i dl' d where "mdbx_dpl_search dl p = Some (i, dl')" "dpl_same dl dl'"
    "rd (dl_items dl') (unat i) = Some d" "1 \<le> unat i" "unat i < length (dl_items dl')"
    "dp_pgno d = p \<Longrightarrow> unat i \<le> unat (dl_length dl') \<and> dpl_view dl p = Some (dp_ptr d, dp_multi d)"
    "dp_pgno d \<noteq> p \<Longrightarrow> dpl_view dl p = None"
proof -
  obtain i dl' where s: "mdbx_dpl_search dl p = Some (of_nat i, dl')" and found: "dpl_found dl p i dl'"
    by (rule mdbx_dpl_search_correct [OF assms(1)])
  then have same: "dpl_same dl dl'" and i: "1 \<le> i" "i \<le> unat (dl_length dl) + 1"
    and hit: "p \<in> dp_pgno ` set (dpl_entries dl) \<longrightarrow> i \<le> unat (dl_length dl) \<and> dp_pgno (dl_items dl' ! i) = p"
    unfolding dpl_found_def by blast+
  have wf': "dpl_wf dl'" and len: "dl_length dl' = dl_length dl" using same by (simp_all add: dpl_same_def)
  note w = dpl_wfD [OF wf']
  have u: "unat (of_nat i :: u32) = i" using i w(3) len by (intro unat_of_nat_lt) simp
  have inr: "i < length (dl_items dl')" using i w(2) len by simp
  define d where "d = dl_items dl' ! i"
  have rd: "rd (dl_items dl') (unat (of_nat i :: u32)) = Some d" using inr u by (simp add: rd_in d_def)
  have in_list: "i \<le> unat (dl_length dl')" if "dp_pgno d = p"
  proof (rule ccontr)
    assume "\<not> i \<le> unat (dl_length dl')"
    then have "i = unat (dl_length dl') + 1" using i len by simp
    then have "p = P_INVALID" using that w(5) by (simp add: dpl_stubE_def d_def)
    then show False using valid_pgno_not_invalid [OF assms(2)] by simp
  qed
  have view: "dpl_view dl p = Some (dp_ptr d, dp_multi d)" if "dp_pgno d = p"
  proof -
    have "d \<in> set (dpl_entries dl)"
      using dpl_entry_in [OF wf' i(1) in_list [OF that]] dpl_same_set [OF same] by (simp add: d_def)
    then show ?thesis using that by (auto simp: dpl_view_Some_iff [OF assms(1)])
  qed
  have "dpl_view dl p = None" if "dp_pgno d \<noteq> p"
    using that hit by (auto simp: dpl_view_None_iff d_def)
  with view in_list show ?thesis using that [OF s same rd] u i(1) inr by simp
qed

lemma spiller_like_searched:
  assumes "spiller_wf s" "dpl_same (sp_dirtylist s) dl"
  shows "spiller_like s (s\<lparr>sp_dirtylist := dl\<rparr>)"
  using assms dpl_same_set [OF assms(2)] dpl_same_view [OF _ assms(2)]
  unfolding spiller_like_def spiller_wf_def by (auto simp: dpl_same_def)

lemma spiller_like_touched:
  assumes s: "spiller_wf s" "dpl_same (sp_dirtylist s) dl" and i: "1 \<le> i" "i \<le> unat (dl_length dl)"
  shows "spiller_like s (s\<lparr>sp_dirtylist := dl\<lparr>dl_items := (dl_items dl)[i := (dl_items dl ! i)\<lparr>dp_lru := n\<rparr>]\<rparr>\<rparr>)"
proof -
  have wf: "dpl_wf dl" using s(2) by (simp add: dpl_same_def)
  note t = dpl_touch [OF wf i, of n]
  let ?dl = "dl\<lparr>dl_items := (dl_items dl)[i := (dl_items dl ! i)\<lparr>dp_lru := n\<rparr>]\<rparr>"
  have "real_page ptr" if "ptr \<in> dp_ptr ` set (dpl_entries dl)" for ptr
    using that s(1) unfolding dpl_same_set [OF s(2)] spiller_wf_def by blast
  then have real: "\<forall>d \<in> set (dpl_entries ?dl). real_page (dp_ptr d)" using t(3) by blast
  have "dpl_view dl = dpl_view (sp_dirtylist s)" using s by (intro dpl_same_view) (simp_all add: spiller_wf_def)
  then have "spiller_wf (s\<lparr>sp_dirtylist := ?dl\<rparr>)" "dpl_view ?dl = dpl_view (sp_dirtylist s)"
    using s(1) t(1,2) real by (simp_all add: spiller_wf_def)
  then show ?thesis unfolding spiller_like_def by (metis spiller.select_convs(5) spiller.surjective spiller.update_convs(5))
qed

lemma find_page_correct:
  assumes "list_all spiller_wf ss" "valid_pgno p"
  shows "\<exists>ss'. find_page lru p ss = Some (latest p ss, ss') \<and> list_all2 spiller_like ss ss'"
  using assms(1)
proof (induction ss)
  case (Cons s ss)
  have wf: "spiller_wf s" and dwf: "dpl_wf (sp_dirtylist s)" using Cons.prems by (simp_all add: spiller_wf_def)
  have rest: "list_all2 spiller_like ss ss" using Cons.prems
    by (auto simp: list_all_iff intro!: list.rel_refl_strong spiller_like_refl)
  show ?case
  proof (cases "push_bit 1 p \<in> spilled_pages s")
    case True
    then show ?thesis using rest wf by (simp add: spilled_in_correct [OF wf] spiller_like_refl)
  next
    case False
    obtain i dl d where search: "mdbx_dpl_search (sp_dirtylist s) p = Some (i, dl)" "dpl_same (sp_dirtylist s) dl"
      and d: "rd (dl_items dl) (unat i) = Some d" "1 \<le> unat i" "unat i < length (dl_items dl)"
      and hit: "dp_pgno d = p \<Longrightarrow> unat i \<le> unat (dl_length dl) \<and> dpl_view (sp_dirtylist s) p = Some (dp_ptr d, dp_multi d)"
      and miss: "dp_pgno d \<noteq> p \<Longrightarrow> dpl_view (sp_dirtylist s) p = None"
      using dpl_search_entry [OF dwf assms(2)] by blast
    have d': "d = dl_items dl ! unat i" using d by (simp add: rd_in)
    show ?thesis
    proof (cases "dp_pgno d = p")
      case True
      have "spiller_like s (s\<lparr>sp_dirtylist := dl\<lparr>dl_items := (dl_items dl)[unat i := d\<lparr>dp_lru := ucast lru\<rparr>]\<rparr>\<rparr>)"
        unfolding d' by (rule spiller_like_touched [OF wf search(2) d(2)]) (use hit [OF True] in blast)
      then show ?thesis using False True hit d rest
        by (simp add: spilled_in_correct [OF wf] search(1) wr_in)
    next
      case False': False
      obtain ss' where "find_page lru p ss = Some (latest p ss, ss')" "list_all2 spiller_like ss ss'"
        using Cons by auto
      then show ?thesis using False False' miss d spiller_like_searched [OF wf search(2)]
        by (simp add: spilled_in_correct [OF wf] search(1))
    qed
  qed
qed simp

subsection \<open>What a transaction reads\<close>

text \<open>Read-only transactions, and all of an environment with \<open>MDBX_WRITEMAP\<close>, use the map alone.\<close>

definition keeps_dirty_list :: "page_txn \<Rightarrow> bool" where
  "keeps_dirty_list T \<longleftrightarrow> tx_flags T AND (MDBX_TXN_RDONLY OR MDBX_WRITEMAP) = 0"

definition txn_wf :: "page_txn \<Rightarrow> bool" where
  "txn_wf T \<longleftrightarrow> (keeps_dirty_list T \<longrightarrow> list_all spiller_wf (tx_chain T))"

definition txn_page :: "'e reading_scheme \<Rightarrow> page_txn \<Rightarrow> pgno_t \<Rightarrow> nat" where
  "txn_page E T pgno =
     (case (if keeps_dirty_list T then latest pgno (tx_chain T) else In_map) of
        Dirty (Page_at a) \<Rightarrow> a
      | _ \<Rightarrow> pgno2page (rd_env E) (rd_map E) pgno)"

text \<open>The transaction after reading: dirty lists may be reordered and pages have new ages.\<close>

definition txn_like :: "page_txn \<Rightarrow> page_txn \<Rightarrow> bool" where
  "txn_like T T' \<longleftrightarrow>
     T' = T \<or>
     keeps_dirty_list T \<and> list_all2 spiller_like (tx_chain T) (tx_chain T') \<and>
     T' = T\<lparr>tx_dirtylru := tx_dirtylru T', tx_chain := tx_chain T'\<rparr>"

lemma txn_like_refl [simp]: "txn_like T T"
  by (simp add: txn_like_def)

lemma txn_like_fields:
  assumes "txn_like T T'"
  shows "tx_flags T' = tx_flags T" "tx_next_pgno T' = tx_next_pgno T" "tx_txnid T' = tx_txnid T"
    "tx_front T' = tx_front T" "keeps_dirty_list T' = keeps_dirty_list T"
proof -
  have "T' = T \<or> (\<exists>lru chain. T' = T\<lparr>tx_dirtylru := lru, tx_chain := chain\<rparr>)"
    using assms by (auto simp: txn_like_def)
  then show "tx_flags T' = tx_flags T" "tx_next_pgno T' = tx_next_pgno T" "tx_txnid T' = tx_txnid T"
      "tx_front T' = tx_front T" "keeps_dirty_list T' = keeps_dirty_list T"
    by (auto simp: keeps_dirty_list_def)
qed

lemma txn_like_trans:
  assumes "txn_like T T'" "txn_like T' T''"
  shows "txn_like T T''"
proof (cases "T' = T \<or> T'' = T'")
  case False
  then have "list_all2 spiller_like (tx_chain T) (tx_chain T')" "list_all2 spiller_like (tx_chain T') (tx_chain T'')"
    using assms by (auto simp: txn_like_def)
  then have "list_all2 spiller_like (tx_chain T) (tx_chain T'')"
    by (rule list_all2_trans [rotated]) (rule spiller_like_trans)
  moreover have "T'' = T\<lparr>tx_dirtylru := tx_dirtylru T'', tx_chain := tx_chain T''\<rparr>"
    using False assms unfolding txn_like_def by (metis page_txn.update_convs(5,6) page_txn.surjective)
  ultimately show ?thesis using False assms by (simp add: txn_like_def)
qed (use assms in auto)

lemma txn_like_wf: "txn_wf T \<Longrightarrow> txn_like T T' \<Longrightarrow> txn_wf T'"
  by (auto simp: txn_wf_def txn_like_def list_all_length list_all2_conv_all_nth dest: spiller_like_fields(5))

lemma txn_like_page: "txn_like T T' \<Longrightarrow> txn_page E T' = txn_page E T"
  using latest_like txn_like_fields(5) by (auto simp: txn_page_def txn_like_def fun_eq_iff)

lemma dirty_fields_like:
  assumes "list_all2 spiller_like ss ss'"
  shows "map sp_dbistate ss' = map sp_dbistate ss" "map sp_front ss' = map sp_front ss"
  using assms by (auto simp: list_all2_conv_all_nth spiller_like_fields intro: nth_equalityI)

lemma latest_real:
  assumes "list_all spiller_wf ss" "latest p ss = Dirty ptr"
  shows "real_page ptr"
  using assms
proof (induction ss)
  case (Cons s ss)
  then show ?case
    by (auto simp: spiller_wf_def dpl_view_Some_iff split: if_splits option.splits)
qed simp

lemma locate_page_correct:
  assumes "txn_wf T" "valid_pgno p"
  shows "\<exists>T'. locate_page E p T = Some (txn_page E T p, T') \<and> txn_like T T'"
proof (cases "keeps_dirty_list T")
  case True
  then have wf: "list_all spiller_wf (tx_chain T)" using assms(1) by (simp add: txn_wf_def)
  then obtain chain where f: "find_page (tx_dirtylru T) p (tx_chain T) = Some (latest p (tx_chain T), chain)"
    "list_all2 spiller_like (tx_chain T) chain" using find_page_correct [OF _ assms(2)] by blast
  have like: "txn_like T (T\<lparr>tx_chain := chain, tx_dirtylru := lru\<rparr>)" "txn_like T (T\<lparr>tx_chain := chain\<rparr>)" for lru
    using True f(2) by (simp_all add: txn_like_def)
  have ro: "tx_flags T AND (MDBX_TXN_RDONLY OR MDBX_WRITEMAP) = 0" using True by (simp add: keeps_dirty_list_def)
  show ?thesis
  proof (cases "latest p (tx_chain T)")
    case (Dirty ptr)
    then obtain a where "ptr = Page_at a" using latest_real [OF wf] by (auto simp: real_page_def)
    then show ?thesis using True ro f(1) Dirty like by (simp add: locate_page_def txn_page_def)
  qed (use True ro f(1) like in \<open>simp_all add: locate_page_def txn_page_def\<close>)
qed (simp add: locate_page_def txn_page_def keeps_dirty_list_def)

text \<open>The pages a transaction can read.\<close>

definition pages :: "'e reading_scheme \<Rightarrow> page_txn \<Rightarrow> pgno_t \<Rightarrow> nat option" where
  "pages E T p =
     (if valid_pgno p \<and> p < tx_next_pgno T \<and> page_header_ok E p (txn_page E T p) then Some (txn_page E T p) else None)"

lemma pages_like: "txn_like T T' \<Longrightarrow> pages E T' = pages E T"
  by (simp add: pages_def fun_eq_iff txn_like_page txn_like_fields)

lemma pages_pgno: "pages E T p = Some a \<Longrightarrow> mp_pgno (rd_mem E) a = p"
  by (auto simp: pages_def page_header_ok_def Let_def split: if_splits)

lemma page_get_readable:
  assumes "txn_wf T" "pages E T p = Some a" "mp_txnid (rd_mem E) a \<le> front"
  obtains T' where "mdbx_page_get E p front T = Some (0, a, T')" "txn_like T T'"
proof -
  have p: "valid_pgno p" "p < tx_next_pgno T" "page_header_ok E p a" "txn_page E T p = a"
    using assms(2) by (auto simp: pages_def split: if_splits)
  obtain T' where T': "locate_page E p T = Some (a, T')" "txn_like T T'"
    using locate_page_correct [OF assms(1) p(1), of E] p(4) by blast
  have "page_txnid_ok E front T' a" using assms(3) by (simp add: page_txnid_ok_def not_less)
  then have "mdbx_page_get E p front T = Some (0, a, T')" using p(2,3) T'(1) by (simp add: mdbx_page_get_def)
  then show ?thesis by (rule that [OF _ T'(2)])
qed

lemma pages_valid: "pages E T p = Some a \<Longrightarrow> p \<noteq> P_INVALID"
  by (auto simp: pages_def valid_pgno_not_invalid split: if_splits)

text \<open>Reading pages leaves what the cursors use of the transaction.\<close>

definition txn_unblocked :: "page_txn \<Rightarrow> bool" where "txn_unblocked T \<longleftrightarrow> tx_flags T AND MDBX_TXN_BLOCKED = 0"

subsection \<open>Properties\<close>

text \<open>
  C5: \<open>mdbx_page_get_ex\<close> gives the latest version of a page that the chain of transactions has: from
  the dirty list of the innermost one that changed it, or from the map when it was spilled or is
  unchanged.  It reports \<open>MDBX_PAGE_NOTFOUND\<close> and marks the transaction as failed beyond the last
  page and when the header or the id of the page is not acceptable; nothing else of the transaction
  changes but the order and the ages in the dirty lists.
\<close>

theorem page_get_gives_latest_version:
  assumes "txn_wf T" "valid_pgno p"
  shows "(tx_next_pgno T \<le> p \<longrightarrow>
      mdbx_page_get E p front T = Some (error_code MDBX_PAGE_NOTFOUND, 0, T\<lparr>tx_flags := tx_flags T OR MDBX_TXN_ERROR\<rparr>)) \<and>
     (p < tx_next_pgno T \<longrightarrow>
      (\<exists>T'. txn_like T T' \<and> mdbx_page_get E p front T =
         (if page_header_ok E p (txn_page E T p) \<and> page_txnid_ok E front T (txn_page E T p)
          then Some (0, txn_page E T p, T')
          else Some (error_code MDBX_PAGE_NOTFOUND, txn_page E T p, T'\<lparr>tx_flags := tx_flags T OR MDBX_TXN_ERROR\<rparr>))))"
proof -
  obtain T' where T': "locate_page E p T = Some (txn_page E T p, T')" "txn_like T T'"
    using locate_page_correct [OF assms] by blast
  have "page_txnid_ok E front T' = page_txnid_ok E front T" "tx_flags T' = tx_flags T"
    using txn_like_fields [OF T'(2)] by (simp_all add: page_txnid_ok_def fun_eq_iff)
  then show ?thesis using T' by (auto simp: mdbx_page_get_def not_le)
qed

definition demo_write_txn :: page_txn where
  "demo_write_txn = \<lparr>tx_flags = 0, tx_next_pgno = 100, tx_txnid = 2, tx_front = 2, tx_dirtylru = 0,
     tx_chain = [\<lparr>sp_flags = 0, sp_front = 2, sp_dbistate = (\<lambda>dbi. 0), sp_spill_pages = None, sp_dirtylist = demo_dpl\<rparr>]\<rparr>"

definition demo_pages_env :: reading where
  "demo_pages_env = \<lparr>rd_env = demo_env, rd_map = 0, rd_mem = wr_bytes (\<lambda>a. 0) 61456 [15, 0, 0, 0]\<rparr>"

lemma demo_write_txn_page: "txn_wf demo_write_txn" "txn_page demo_pages_env demo_write_txn 15 = 61440"
proof -
  have "real_page (dp_ptr d)" if "d \<in> set (dpl_entries demo_dpl)" for d
    using that by (auto simp: dpl_entries_def demo_dpl_def seg_def demo_entry_def real_page_def)
  then have wf: "list_all spiller_wf (tx_chain demo_write_txn)"
    using demo_dpl_wf by (simp add: demo_write_txn_def spiller_wf_def)
  then show "txn_wf demo_write_txn" by (simp add: txn_wf_def)
  have "dpl_view demo_dpl 15 = Some (Page_at 61440, False)"
    unfolding dpl_view_Some_iff [OF demo_dpl_wf] by (simp add: dpl_entries_def demo_dpl_def seg_def demo_entry_def)
  then show "txn_page demo_pages_env demo_write_txn 15 = 61440"
    by (simp add: txn_page_def keeps_dirty_list_def demo_write_txn_def spilled_pages_def)
qed

theorem page_get_gives_latest_version_witness:
  "\<exists>T'. mdbx_page_get demo_pages_env 15 2 demo_write_txn = Some (0, 61440, T')"
proof -
  have "page_header_ok demo_pages_env 15 61440" "page_txnid_ok demo_pages_env 2 demo_write_txn 61440"
    by (simp_all add: page_header_ok_def page_txnid_ok_def demo_pages_env_def page_field_defs mp_txnid_def Let_def
        ld16_def ld32_def ld64_def rd_bytes_def wr_bytes_def upt_rec PAGEHDRSZ_def demo_env_def)
  then show ?thesis
    using page_get_gives_latest_version [OF demo_write_txn_page(1), of 15 demo_pages_env 2] demo_write_txn_page(2)
    by (auto simp: demo_write_txn_def valid_pgno_def MIN_PAGENO_def MAX_PAGENO_def)
qed

end
