(* ===== verification/Tree_Cursor.thy ===== *)
theory Tree_Cursor
  imports Page_Access Page_Search
begin

text \<open>
  Cursors over the B+tree of a table (\<open>MDBX_cursor\<close> of \<open>mdbx.c\<close>): the stack of pages, the search
  for a page from the root down, moving to a sibling page, reading a node, and the operations that
  position a cursor, with the cursor over the duplicates of a key below it.
\<close>

subsection \<open>The state\<close>

definition C_INITIALIZED :: u32 where "C_INITIALIZED = 0x01"
definition C_EOF :: u32 where "C_EOF = 0x02"
definition C_SUB :: u32 where "C_SUB = 0x04"
definition C_DEL :: u32 where "C_DEL = 0x08"
definition C_COPYING :: u32 where "C_COPYING = 0x100"
definition C_SKIPORD :: u32 where "C_SKIPORD = 0x800"

definition MDBX_PS_MODIFY :: u32 where "MDBX_PS_MODIFY = 1"
definition MDBX_PS_ROOTONLY :: u32 where "MDBX_PS_ROOTONLY = 2"
definition MDBX_PS_FIRST :: u32 where "MDBX_PS_FIRST = 4"
definition MDBX_PS_LAST :: u32 where "MDBX_PS_LAST = 8"

text \<open>\<open>MDBX_db\<close>, the record of a table, and \<open>MDBX_dbx\<close>, its name, comparators and length limits.\<close>

record table_db =
  db_flags :: u16
  db_depth :: u16
  db_xsize :: u32
  db_root :: pgno_t
  db_branch_pages :: u32
  db_leaf_pages :: u32
  db_overflow_pages :: u32
  db_seq :: u64
  db_entries :: u64
  db_mod_txnid :: u64

record table_dbx =
  dbx_name :: mdbx_val
  dbx_cmp :: "comparator option"
  dbx_dcmp :: "comparator option"
  dbx_klen_min :: u64
  dbx_klen_max :: u64
  dbx_vlen_min :: u64
  dbx_vlen_max :: u64

text \<open>
  A cursor; the arrays \<open>mc_pg\<close> and \<open>mc_ki\<close> are functions from the index, with the null pointer as 0.
  \<open>'x\<close> is the cursor over the duplicates of a key, if there is one: for that cursor itself it is
  the unit type.
\<close>

record 'x cursor =
  cu_signature :: u32
  cu_dbi :: u32
  cu_db :: table_db
  cu_dbx :: table_dbx
  cu_flags :: u32
  cu_snum :: nat
  cu_top :: nat
  cu_pg :: "nat \<Rightarrow> nat"
  cu_ki :: "nat \<Rightarrow> u16"
  cu_xcursor :: "'x option"

type_synonym dup_cursor = "unit cursor"
type_synonym table_cursor = "dup_cursor cursor"

text \<open>
  What cursors work with: the memory and the map, whether unaligned access is allowed, the addresses
  of the local buffers for keys and data that are not aligned, and \<open>mdbx_fetch_sdb\<close> (in
  \<open>Table_Get\<close>, as it works through a cursor of the main table), which reloads the record of a table
  that may be out of date (error code, transaction, record).
\<close>

record cursor_env = reading +
  ce_unaligned_ok :: bool
  ce_keybuf :: nat
  ce_databuf :: nat
  ce_fetch :: "mem \<Rightarrow> u32 \<Rightarrow> table_db \<times> table_dbx \<Rightarrow> page_txn \<Rightarrow> (int \<times> page_txn \<times> table_db \<times> table_dbx) option"

abbreviation env_mem :: "cursor_env \<Rightarrow> mem" where "env_mem E \<equiv> rd_mem E"

abbreviation top_page :: "'x cursor \<Rightarrow> nat" where "top_page mc \<equiv> cu_pg mc (cu_top mc)"
abbreviation top_ki :: "'x cursor \<Rightarrow> u16" where "top_ki mc \<equiv> cu_ki mc (cu_top mc)"

definition set_top_ki :: "u16 \<Rightarrow> 'x cursor \<Rightarrow> 'x cursor" where
  "set_top_ki i mc = mc\<lparr>cu_ki := (cu_ki mc)(cu_top mc := i)\<rparr>"

definition flag_set :: "u32 \<Rightarrow> 'x cursor \<Rightarrow> bool" where "flag_set f mc \<longleftrightarrow> cu_flags mc AND f \<noteq> 0"

definition set_flag :: "u32 \<Rightarrow> 'x cursor \<Rightarrow> 'x cursor" where "set_flag f mc = mc\<lparr>cu_flags := cu_flags mc OR f\<rparr>"

definition clear_flag :: "u32 \<Rightarrow> 'x cursor \<Rightarrow> 'x cursor" where
  "clear_flag f mc = mc\<lparr>cu_flags := cu_flags mc AND NOT f\<rparr>"

subsection \<open>The stack of pages\<close>

definition mdbx_cursor_pop :: "'x cursor \<Rightarrow> 'x cursor" where
  "mdbx_cursor_pop mc =
     (if cu_snum mc \<noteq> 0
      then let mc = mc\<lparr>cu_snum := cu_snum mc - 1\<rparr>
           in if cu_snum mc \<noteq> 0 then mc\<lparr>cu_top := cu_top mc - 1\<rparr> else clear_flag C_INITIALIZED mc
      else mc)"

definition mdbx_cursor_push :: "nat \<Rightarrow> page_txn \<Rightarrow> 'x cursor \<Rightarrow> int \<times> page_txn \<times> 'x cursor" where
  "mdbx_cursor_push mp T mc =
     (if cu_snum mc \<ge> CURSOR_STACK
      then (error_code MDBX_CURSOR_FULL, T\<lparr>tx_flags := tx_flags T OR MDBX_TXN_ERROR\<rparr>, mc)
      else (0, T, mc\<lparr>cu_top := cu_snum mc, cu_snum := cu_snum mc + 1,
                     cu_pg := (cu_pg mc)(cu_snum mc := mp), cu_ki := (cu_ki mc)(cu_snum mc := 0)\<rparr>))"

text \<open>The search in the page at the top.\<close>

definition top_view :: "'x cursor \<Rightarrow> page_txn \<Rightarrow> tree_cursor" where
  "top_view mc T =
     \<lparr>mc_page = top_page mc, mc_ki = top_ki mc, md_xsize = db_xsize (cu_db mc), md_flags = db_flags (cu_db mc),
      mt_error = (tx_flags T AND MDBX_TXN_ERROR \<noteq> 0), mt_front = tx_front T, mc_sub = flag_set C_SUB mc,
      md_branch_pages = db_branch_pages (cu_db mc), md_leaf_pages = db_leaf_pages (cu_db mc),
      md_overflow_pages = db_overflow_pages (cu_db mc), outer_branch_pages = 0, outer_leaf_pages = 0\<rparr>"

definition search_top ::
    "cursor_env \<Rightarrow> mdbx_val \<Rightarrow> page_txn \<Rightarrow> 'x cursor \<Rightarrow> (bool \<times> nat option \<times> 'x cursor) option" where
  "search_top E key T mc =
     (case dbx_cmp (cu_dbx mc) of
        None \<Rightarrow> None
      | Some cmp \<Rightarrow>
          map_option (\<lambda>(exact, node, tc). (exact, node, set_top_ki (mc_ki tc) mc))
            (mdbx_node_search (ce_unaligned_ok E) cmp (env_mem E) key (top_view mc T)))"

subsection \<open>From the root down\<close>

text \<open>
  The \<open>while\<close> loop of \<open>mdbx_page_search_root\<close>.  \<^const>\<open>None\<close> when it does not end, and for the flag
  \<open>MDBX_PS_MODIFY\<close> of the writing operations, which are not modelled.
\<close>

definition child_index ::
    "cursor_env \<Rightarrow> mdbx_val option \<Rightarrow> page_txn \<Rightarrow> 'x cursor \<Rightarrow> (int \<times> 'x cursor) option" where
  "child_index E key T mc =
     (case key of
        None \<Rightarrow> None
      | Some k \<Rightarrow>
          map_option (\<lambda>(exact, node, mc).
              (if node \<noteq> None then int (unat (top_ki mc)) + (if exact then 1 else 0) - 1
               else int (page_numkeys (env_mem E) (top_page mc)) - 1, mc))
            (search_top E k T mc))"

partial_function (option) search_down ::
    "cursor_env \<Rightarrow> mdbx_val option \<Rightarrow> u32 \<Rightarrow> page_txn \<Rightarrow> 'x cursor \<Rightarrow> (int \<times> page_txn \<times> 'x cursor) option" where
  "search_down E key flags T mc =
     (let m = env_mem E; mp = top_page mc
      in if \<not> IS_BRANCH m mp then Some (0, T, mc)
         else if flags AND MDBX_PS_LAST \<noteq> 0 \<and> flag_set C_INITIALIZED mc \<and>
                 int (unat (top_ki mc)) = int (page_numkeys m mp) - 1
         then search_down E key flags T (mc\<lparr>cu_top := cu_snum mc, cu_snum := cu_snum mc + 1\<rparr>)
         else do {
           (i, mc) \<leftarrow> (if flags AND (MDBX_PS_FIRST OR MDBX_PS_LAST) \<noteq> 0
                      then Some (if flags AND MDBX_PS_LAST \<noteq> 0 then int (page_numkeys m mp) - 1 else 0, mc)
                      else child_index E key T mc);
           let node = page_node m mp (nat i);
           (rc, child, T) \<leftarrow> mdbx_page_get E (node_pgno m node) (pp_txnid4chk E mp) T;
           if rc \<noteq> 0 then Some (rc, T, mc)
           else (let (rc, T, mc) = mdbx_cursor_push child T (set_top_ki (word_of_int i) mc)
                 in if rc \<noteq> 0 then Some (rc, T, mc) else search_down E key flags T mc)
         })"

definition mdbx_page_search_root ::
    "cursor_env \<Rightarrow> mdbx_val option \<Rightarrow> u32 \<Rightarrow> page_txn \<Rightarrow> 'x cursor \<Rightarrow> (int \<times> page_txn \<times> 'x cursor) option" where
  "mdbx_page_search_root E key flags T mc =
     (if flags AND MDBX_PS_MODIFY \<noteq> 0 then None
      else do {
        (rc, T, mc) \<leftarrow> search_down E key flags T mc;
        if rc \<noteq> 0 then Some (rc, T, mc)
        else if \<not> IS_LEAF (env_mem E) (top_page mc)
        then Some (error_code MDBX_CORRUPTED, T\<lparr>tx_flags := tx_flags T OR MDBX_TXN_ERROR\<rparr>, mc)
        else Some (0, T, clear_flag C_EOF (set_flag C_INITIALIZED mc))
      })"

definition mdbx_page_search_lowest ::
    "cursor_env \<Rightarrow> page_txn \<Rightarrow> 'x cursor \<Rightarrow> (int \<times> page_txn \<times> 'x cursor) option" where
  "mdbx_page_search_lowest E T mc =
     (let m = env_mem E; mp = top_page mc; node = page_node m mp 0
      in do {
        (rc, child, T) \<leftarrow> mdbx_page_get E (node_pgno m node) (pp_txnid4chk E mp) T;
        if rc \<noteq> 0 then Some (rc, T, mc)
        else (let (rc, T, mc) = mdbx_cursor_push child T (set_top_ki 0 mc)
              in if rc \<noteq> 0 then Some (rc, T, mc) else mdbx_page_search_root E None MDBX_PS_FIRST T mc)
      })"

text \<open>
  The id against which the root page is checked: that of the last change of the table, or the front
  id of the innermost transaction of the chain that has changed the table.
\<close>

fun dirty_front :: "u32 \<Rightarrow> spiller list \<Rightarrow> u64 option" where
  "dirty_front dbi [] = None"
| "dirty_front dbi (s # ss) = (if sp_dbistate s dbi AND DBI_DIRTY \<noteq> 0 then Some (sp_front s) else dirty_front dbi ss)"

definition root_txnid :: "page_txn \<Rightarrow> 'x cursor \<Rightarrow> u64" where
  "root_txnid T mc =
     (case dirty_front (cu_dbi mc) (tx_chain T) of
        Some front \<Rightarrow> front
      | None \<Rightarrow> if db_mod_txnid (cu_db mc) \<noteq> 0 then db_mod_txnid (cu_db mc) else tx_txnid T)"

text \<open>
  The root page, which is kept when the cursor has it already.  The assignment in the condition
  stores the comparison: the error code becomes 1.
\<close>

definition load_root :: "cursor_env \<Rightarrow> page_txn \<Rightarrow> 'x cursor \<Rightarrow> (int \<times> page_txn \<times> 'x cursor) option" where
  "load_root E T mc =
     (let root = db_root (cu_db mc)
      in if cu_pg mc 0 = 0 \<or> mp_pgno (env_mem E) (cu_pg mc 0) \<noteq> root
         then do {
           (rc, mp, T) \<leftarrow> mdbx_page_get E root (root_txnid T mc) T;
           Some (if rc \<noteq> 0 then 1 else 0, T, mc\<lparr>cu_pg := (cu_pg mc)(0 := mp)\<rparr>)
         }
         else Some (0, T, mc))"

text \<open>
  A cursor over duplicates lives below one whose table has been brought up to date: \<^const>\<open>None\<close> for it.
\<close>

definition refresh_db :: "cursor_env \<Rightarrow> page_txn \<Rightarrow> 'x cursor \<Rightarrow> (int \<times> page_txn \<times> 'x cursor) option" where
  "refresh_db E T mc =
     (if tx_dbistate T (cu_dbi mc) AND DBI_STALE \<noteq> 0
      then if flag_set C_SUB mc then None
           else map_option (\<lambda>(rc, T, db, dbx). (rc, T, mc\<lparr>cu_db := db, cu_dbx := dbx\<rparr>))
                  (ce_fetch E (env_mem E) (cu_dbi mc) (cu_db mc, cu_dbx mc) T)
      else Some (0, T, mc))"

definition mdbx_page_search ::
    "cursor_env \<Rightarrow> mdbx_val option \<Rightarrow> u32 \<Rightarrow> page_txn \<Rightarrow> 'x cursor \<Rightarrow> (int \<times> page_txn \<times> 'x cursor) option" where
  "mdbx_page_search E key flags T mc =
     (if tx_flags T AND MDBX_TXN_BLOCKED \<noteq> 0 then Some (error_code MDBX_BAD_TXN, T, mc)
      else do {
        (rc, T, mc) \<leftarrow> refresh_db E T mc;
        if rc \<noteq> 0 then Some (rc, T, mc)
        else if db_root (cu_db mc) = P_INVALID then Some (error_code MDBX_NOTFOUND, T, mc)
        else do {
          (rc, T, mc) \<leftarrow> load_root E T mc;
          if rc \<noteq> 0 then Some (rc, T, mc)
          else (let mc = mc\<lparr>cu_snum := 1, cu_top := 0\<rparr>
                in if flags AND MDBX_PS_MODIFY \<noteq> 0 then None
                   else if flags AND MDBX_PS_ROOTONLY \<noteq> 0 then Some (0, T, mc)
                   else mdbx_page_search_root E key flags T mc)
        }
      })"

subsection \<open>Sibling pages\<close>

datatype direction = Left | Right

text \<open>The recursion goes up as long as there is no further node in the parent.\<close>

function mdbx_cursor_sibling ::
    "cursor_env \<Rightarrow> direction \<Rightarrow> page_txn \<Rightarrow> 'x cursor \<Rightarrow> (int \<times> page_txn \<times> 'x cursor) option" where
  "mdbx_cursor_sibling E dir T mc0 =
     (if cu_snum mc0 < 2 then Some (error_code MDBX_NOTFOUND, T, mc0)
      else (let m = env_mem E;
                mc = mdbx_cursor_pop mc0;
                outside = (case dir of Right \<Rightarrow> unat (top_ki mc) + 1 \<ge> page_numkeys m (top_page mc) | Left \<Rightarrow> top_ki mc = 0)
            in do {
              (rc, T, mc) \<leftarrow> (if outside
                then map_option (\<lambda>(rc, T, mc).
                       if rc \<noteq> 0 then (rc, T, mc\<lparr>cu_top := cu_top mc + 1, cu_snum := cu_snum mc + 1\<rparr>) else (rc, T, mc))
                       (mdbx_cursor_sibling E dir T mc)
                else Some (0, T, set_top_ki (case dir of Right \<Rightarrow> top_ki mc + 1 | Left \<Rightarrow> top_ki mc - 1) mc));
              if rc \<noteq> 0 then Some (rc, T, mc)
              else do {
                let node = page_node m (top_page mc) (unat (top_ki mc));
                (rc, mp, T) \<leftarrow> mdbx_page_get E (node_pgno m node) (pp_txnid4chk E (top_page mc)) T;
                if rc \<noteq> 0 then Some (rc, T, clear_flag (C_INITIALIZED OR C_EOF) mc)
                else (let (rc, T, mc) = mdbx_cursor_push mp T mc
                      in if rc \<noteq> 0 then Some (rc, T, mc)
                         else Some (0, T, set_top_ki (case dir of Left \<Rightarrow> of_nat (page_numkeys m mp) - 1 | Right \<Rightarrow> 0) mc))
              }
            }))"
  by pat_completeness auto
termination by (relation "measure (\<lambda>(E, dir, T, mc). cu_snum mc)") (auto simp: mdbx_cursor_pop_def clear_flag_def Let_def)

declare mdbx_cursor_sibling.simps [simp del]

subsection \<open>Reading a node\<close>

text \<open>Error code, transaction, value; a large value is on pages of its own.\<close>

definition mdbx_node_read :: "cursor_env \<Rightarrow> nat \<Rightarrow> u64 \<Rightarrow> page_txn \<Rightarrow> (int \<times> page_txn \<times> mdbx_val) option" where
  "mdbx_node_read E node front T =
     (let m = env_mem E;
          data = \<lparr>iov_base = node_data m node, iov_len = of_nat (node_ds m node)\<rparr>
      in if node_flags m node AND F_BIGDATA = F_BIGDATA
         then do {
           (rc, omp, T) \<leftarrow> mdbx_page_get E (node_largedata_pgno m node) front T;
           Some (if rc \<noteq> 0 then (rc, T, data) else (0, T, data\<lparr>iov_base := page_data omp\<rparr>))
         }
         else Some (0, T, data))"

end
