(* ===== verification/Cursor_Ops.thy ===== *)
theory Cursor_Ops
  imports Tree_Cursor
begin

text \<open>
  Positioning a cursor: at the first and the last item, the next and the previous one, at a key
  (\<open>mdbx_cursor_first\<close>, \<open>_last\<close>, \<open>_next\<close>, \<open>_prev\<close>, \<open>_set\<close>, \<open>_get\<close> of \<open>mdbx.c\<close>), and the lookups that
  work through a temporary cursor (\<open>mdbx_get\<close>, \<open>mdbx_get_ex\<close>, \<open>mdbx_get_equal_or_great\<close>).
\<close>

subsection \<open>The cursor over duplicates\<close>

text \<open>
  The operations below are the same functions for the cursor of a table and for the cursor over the
  duplicates of a key inside it, whose keys are the duplicates.  They take the operations of the
  inner cursor as a record; the inner cursor has none below it.
\<close>

datatype cursor_op =
    MDBX_FIRST | MDBX_FIRST_DUP | MDBX_GET_BOTH | MDBX_GET_BOTH_RANGE | MDBX_GET_CURRENT | MDBX_GET_MULTIPLE
  | MDBX_LAST | MDBX_LAST_DUP | MDBX_NEXT | MDBX_NEXT_DUP | MDBX_NEXT_MULTIPLE | MDBX_NEXT_NODUP
  | MDBX_PREV | MDBX_PREV_DUP | MDBX_PREV_NODUP | MDBX_SET | MDBX_SET_KEY | MDBX_SET_RANGE
  | MDBX_PREV_MULTIPLE | MDBX_SET_LOWERBOUND

text \<open>A move: error code, transaction, inner cursor, the out parameter (\<^const>\<open>None\<close> is a null pointer).\<close>

type_synonym 'x dup_move = "page_txn \<Rightarrow> 'x \<Rightarrow> mdbx_val option \<Rightarrow> (int \<times> page_txn \<times> 'x \<times> mdbx_val option) option"

record 'x dup_ops =
  dup_init :: "nat \<Rightarrow> nat \<Rightarrow> 'x cursor \<Rightarrow> int \<times> 'x cursor"
  dup_clear :: "u32 \<Rightarrow> 'x \<Rightarrow> 'x"
  dup_initialized :: "'x \<Rightarrow> bool"
  dup_first :: "'x dup_move"
  dup_last :: "'x dup_move"
  dup_next :: "'x dup_move"
  dup_prev :: "'x dup_move"
  dup_current :: "'x dup_move"
  dup_set_range :: "page_txn \<Rightarrow> 'x \<Rightarrow> mdbx_val option \<Rightarrow> (bool \<times> int \<times> page_txn \<times> 'x \<times> mdbx_val option) option"

type_synonym 'x moved = "int \<times> page_txn \<times> 'x cursor \<times> mdbx_val option \<times> mdbx_val option"

definition has_dups :: "mem \<Rightarrow> nat \<Rightarrow> bool" where "has_dups m node \<longleftrightarrow> node_flags m node AND F_DUPDATA = F_DUPDATA"

definition clear_dup :: "'x dup_ops \<Rightarrow> 'x cursor \<Rightarrow> 'x cursor" where
  "clear_dup S mc = mc\<lparr>cu_xcursor := map_option (dup_clear S (C_INITIALIZED OR C_EOF)) (cu_xcursor mc)\<rparr>"

text \<open>The key of a \<open>P_LEAF2\<close> page at an index.\<close>

definition leaf2_key :: "cursor_env \<Rightarrow> 'x cursor \<Rightarrow> nat \<Rightarrow> mdbx_val" where
  "leaf2_key E mc i = \<lparr>iov_base = page_leaf2key (env_mem E) (top_page mc) i, iov_len = ucast (db_xsize (cu_db mc))\<rparr>"

text \<open>
  The common end of the moves: key and value of the item under the cursor; for a key with
  duplicates, the inner cursor is set up and \<open>move\<close> positions it.
\<close>

definition read_here ::
    "cursor_env \<Rightarrow> 'x dup_ops \<Rightarrow> 'x dup_move \<Rightarrow> mdbx_val option \<Rightarrow> mdbx_val option \<Rightarrow> page_txn \<Rightarrow> 'x cursor \<Rightarrow> 'x moved option" where
  "read_here E S move key data T mc =
     (let m = env_mem E; mp = top_page mc
      in if IS_LEAF2 m mp
         then Some (if \<not> flag_set C_SUB mc then (error_code MDBX_CORRUPTED, T, mc, key, data)
                    else (0, T, mc, map_option (\<lambda>_. leaf2_key E mc (unat (top_ki mc))) key, data))
         else (let node = page_node m mp (unat (top_ki mc))
               in if has_dups m node
                  then (let (rc, mc) = dup_init S node mp mc
                        in if rc \<noteq> 0 then Some (rc, T, mc, key, data)
                           else do {
                             x \<leftarrow> cu_xcursor mc;
                             (rc, T, x, data) \<leftarrow> move T x data;
                             let mc = mc\<lparr>cu_xcursor := Some x\<rparr>;
                             Some (if rc \<noteq> 0 then (rc, T, mc, key, data) else (0, T, mc, get_key_optional m node key, data))
                           })
                  else (case data of
                          None \<Rightarrow> Some (0, T, mc, get_key_optional m node key, data)
                        | Some _ \<Rightarrow> do {
                            (rc, T, v) \<leftarrow> mdbx_node_read E node (pp_txnid4chk E mp) T;
                            Some (if rc \<noteq> 0 then (rc, T, mc, key, Some v) else (0, T, mc, get_key_optional m node key, Some v))
                          })))"

subsection \<open>First and last\<close>

definition mdbx_cursor_first ::
    "cursor_env \<Rightarrow> 'x dup_ops \<Rightarrow> mdbx_val option \<Rightarrow> mdbx_val option \<Rightarrow> page_txn \<Rightarrow> 'x cursor \<Rightarrow> 'x moved option" where
  "mdbx_cursor_first E S key data T mc = do {
     let mc = clear_dup S mc;
     (rc, T, mc) \<leftarrow> (if \<not> flag_set C_INITIALIZED mc \<or> cu_top mc \<noteq> 0
                     then mdbx_page_search E None MDBX_PS_FIRST T mc else Some (0, T, mc));
     if rc \<noteq> 0 then Some (rc, T, mc, key, data)
     else if \<not> IS_LEAF (env_mem E) (top_page mc) then Some (error_code MDBX_CORRUPTED, T, mc, key, data)
     else read_here E S (dup_first S) key data T (set_top_ki 0 (clear_flag C_EOF (set_flag C_INITIALIZED mc)))
   }"

definition mdbx_cursor_last ::
    "cursor_env \<Rightarrow> 'x dup_ops \<Rightarrow> mdbx_val option \<Rightarrow> mdbx_val option \<Rightarrow> page_txn \<Rightarrow> 'x cursor \<Rightarrow> 'x moved option" where
  "mdbx_cursor_last E S key data T mc = do {
     let mc = clear_dup S mc;
     (rc, T, mc) \<leftarrow> (if \<not> flag_set C_INITIALIZED mc \<or> cu_top mc \<noteq> 0
                     then mdbx_page_search E None MDBX_PS_LAST T mc else Some (0, T, mc));
     if rc \<noteq> 0 then Some (rc, T, mc, key, data)
     else if \<not> IS_LEAF (env_mem E) (top_page mc) then Some (error_code MDBX_CORRUPTED, T, mc, key, data)
     else read_here E S (dup_last S) key data T
            (set_flag (C_INITIALIZED OR C_EOF) (set_top_ki (of_nat (page_numkeys (env_mem E) (top_page mc)) - 1) mc))
   }"

subsection \<open>Next and previous\<close>

text \<open>
  The part over duplicates, which may end the move (\<open>Inl\<close>) or leave it to the items of the table
  (\<open>Inr\<close>).
\<close>

definition move_dup ::
    "cursor_env \<Rightarrow> 'x dup_ops \<Rightarrow> 'x dup_move \<Rightarrow> cursor_op \<Rightarrow> cursor_op \<Rightarrow> ('x cursor \<Rightarrow> 'x cursor) \<Rightarrow> cursor_op \<Rightarrow>
     mdbx_val option \<Rightarrow> mdbx_val option \<Rightarrow> page_txn \<Rightarrow> 'x cursor \<Rightarrow>
     ('x moved + page_txn \<times> 'x cursor \<times> mdbx_val option) option" where
  "move_dup E S move plain dup found op key data T mc =
     (let m = env_mem E; node = page_node m (top_page mc) (unat (top_ki mc))
      in if has_dups m node
         then if op = plain \<or> op = dup
              then do {
                x \<leftarrow> cu_xcursor mc;
                (rc, T, x, data) \<leftarrow> move T x data;
                let mc = mc\<lparr>cu_xcursor := Some x\<rparr>;
                Some (if op \<noteq> plain \<or> rc \<noteq> error_code MDBX_NOTFOUND
                      then Inl (if rc = 0 then (rc, T, found mc, get_key_optional m node key, data) else (rc, T, mc, key, data))
                      else Inr (T, mc, data))
              }
              else Some (Inr (T, mc, data))
         else do {
           x \<leftarrow> cu_xcursor mc;
           let mc = mc\<lparr>cu_xcursor := Some (dup_clear S (C_INITIALIZED OR C_EOF) x)\<rparr>;
           Some (if op = dup then Inl (error_code MDBX_NOTFOUND, T, mc, key, data) else Inr (T, mc, data))
         })"

definition next_item ::
    "cursor_env \<Rightarrow> 'x dup_ops \<Rightarrow> mdbx_val option \<Rightarrow> mdbx_val option \<Rightarrow> page_txn \<Rightarrow> 'x cursor \<Rightarrow> 'x moved option" where
  "next_item E S key data T mc =
     (let m = env_mem E; numkeys = page_numkeys m (top_page mc);
          arrive = (\<lambda>T mc. if \<not> IS_LEAF m (top_page mc) then Some (error_code MDBX_CORRUPTED, T, mc, key, data)
                           else read_here E S (dup_first S) key data T mc)
      in if flag_set C_DEL mc then arrive T (clear_flag C_DEL mc)
         else if unat (top_ki mc) + 1 \<ge> numkeys
         then do {
           (rc, T, mc) \<leftarrow> mdbx_cursor_sibling E Right T (set_top_ki (of_nat numkeys - 1) mc);
           if rc \<noteq> 0 then Some (rc, T, set_flag C_EOF mc, key, data) else arrive T mc
         }
         else arrive T (set_top_ki (top_ki mc + 1) mc))"

definition mdbx_cursor_next ::
    "cursor_env \<Rightarrow> 'x dup_ops \<Rightarrow> cursor_op \<Rightarrow> mdbx_val option \<Rightarrow> mdbx_val option \<Rightarrow> page_txn \<Rightarrow> 'x cursor \<Rightarrow> 'x moved option" where
  "mdbx_cursor_next E S op key data T mc =
     (if flag_set C_DEL mc \<and> op = MDBX_NEXT_DUP then Some (error_code MDBX_NOTFOUND, T, mc, key, data)
      else if \<not> flag_set C_INITIALIZED mc then mdbx_cursor_first E S key data T mc
      else if flag_set C_EOF mc \<and> unat (top_ki mc) + 1 \<ge> page_numkeys (env_mem E) (top_page mc)
      then Some (error_code MDBX_NOTFOUND, T, mc, key, data)
      else (let mc = clear_flag C_EOF mc
            in if db_flags (cu_db mc) AND ucast MDBX_DUPSORT \<noteq> 0
               then do {
                 r \<leftarrow> move_dup E S (dup_next S) MDBX_NEXT MDBX_NEXT_DUP id op key data T mc;
                 (case r of Inl res \<Rightarrow> Some res | Inr (T, mc, data) \<Rightarrow> next_item E S key data T mc)
               }
               else next_item E S key data T mc))"

definition prev_item ::
    "cursor_env \<Rightarrow> 'x dup_ops \<Rightarrow> mdbx_val option \<Rightarrow> mdbx_val option \<Rightarrow> page_txn \<Rightarrow> 'x cursor \<Rightarrow> 'x moved option" where
  "prev_item E S key data T mc =
     (let m = env_mem E;
          mc = clear_flag (C_EOF OR C_DEL) mc;
          arrive = (\<lambda>T mc. if \<not> IS_LEAF m (top_page mc) then Some (error_code MDBX_CORRUPTED, T, mc, key, data)
                           else read_here E S (dup_last S) key data T mc)
      in if top_ki mc = 0
         then do {
           (rc, T, mc) \<leftarrow> mdbx_cursor_sibling E Left T mc;
           if rc \<noteq> 0 then Some (rc, T, mc, key, data) else arrive T mc
         }
         else arrive T (set_top_ki (top_ki mc - 1) mc))"

definition mdbx_cursor_prev ::
    "cursor_env \<Rightarrow> 'x dup_ops \<Rightarrow> cursor_op \<Rightarrow> mdbx_val option \<Rightarrow> mdbx_val option \<Rightarrow> page_txn \<Rightarrow> 'x cursor \<Rightarrow> 'x moved option" where
  "mdbx_cursor_prev E S op key data T mc =
     (if flag_set C_DEL mc \<and> op = MDBX_PREV_DUP then Some (error_code MDBX_NOTFOUND, T, mc, key, data)
      else do {
        (rc, T, mc, key, data) \<leftarrow>
          (if flag_set C_INITIALIZED mc then Some (0, T, mc, key, data)
           else map_option (\<lambda>(rc, T, mc, key, data). (rc, T, if rc \<noteq> 0 then mc else set_top_ki (top_ki mc + 1) mc, key, data))
                  (mdbx_cursor_last E S key data T mc));
        if rc \<noteq> 0 then Some (rc, T, mc, key, data)
        else if db_flags (cu_db mc) AND ucast MDBX_DUPSORT \<noteq> 0 \<and> unat (top_ki mc) < page_numkeys (env_mem E) (top_page mc)
        then do {
          r \<leftarrow> move_dup E S (dup_prev S) MDBX_PREV MDBX_PREV_DUP (clear_flag C_EOF) op key data T mc;
          (case r of Inl res \<Rightarrow> Some res | Inr (T, mc, data) \<Rightarrow> prev_item E S key data T mc)
        }
        else prev_item E S key data T mc
      })"

subsection \<open>Setting a cursor to a key\<close>

text \<open>
  A key of four or eight bytes is copied to an aligned local buffer when it is not aligned;
  \<^const>\<open>None\<close> for other lengths.
\<close>

definition align_value :: "nat \<Rightarrow> mdbx_val \<Rightarrow> mem \<Rightarrow> (mem \<times> mdbx_val) option" where
  "align_value buf v m =
     (if iov_len v = 4 \<or> iov_len v = 8
      then (let n = unat (iov_len v)
            in Some (if iov_base v mod n \<noteq> 0 then (memmove m buf (iov_base v) n, v\<lparr>iov_base := buf\<rparr>) else (m, v)))
      else None)"

text \<open>How a cursor that is already positioned gets to the key: the labels of the code.\<close>

datatype set_route = Got_node bool nat | Search_node | Search_tree | Not_found

definition item_key :: "cursor_env \<Rightarrow> 'x cursor \<Rightarrow> nat \<Rightarrow> mdbx_val" where
  "item_key E mc i =
     (if IS_LEAF2 (env_mem E) (top_page mc) then leaf2_key E mc i
      else get_key (env_mem E) (page_node (env_mem E) (top_page mc) i))"

definition compare_item :: "cursor_env \<Rightarrow> mdbx_val \<Rightarrow> 'x cursor \<Rightarrow> nat \<Rightarrow> int option" where
  "compare_item E key mc i =
     (case dbx_cmp (cu_dbx mc) of
        None \<Rightarrow> None
      | Some cmp \<Rightarrow> call_cmp (ce_unaligned_ok E) cmp (env_mem E) key (item_key E mc i))"

text \<open>
  The node pointer at the label \<open>got_node\<close>: that of the last comparison, null on a \<open>P_LEAF2\<close> page.
\<close>

definition item_node :: "cursor_env \<Rightarrow> 'x cursor \<Rightarrow> nat \<Rightarrow> nat" where
  "item_node E mc i = (if IS_LEAF2 (env_mem E) (top_page mc) then 0 else page_node (env_mem E) (top_page mc) i)"

text \<open>\<open>page_numkeys() - 1\<close> is unsigned.\<close>

definition right_siblings :: "cursor_env \<Rightarrow> 'x cursor \<Rightarrow> bool" where
  "right_siblings E mc \<longleftrightarrow>
     (\<exists>i \<in> {..<cu_top mc}. (ucast (cu_ki mc i) :: u32) < of_nat (page_numkeys (env_mem E) (cu_pg mc i)) - 1)"

definition set_shortcut ::
    "cursor_env \<Rightarrow> cursor_op \<Rightarrow> mdbx_val \<Rightarrow> 'x cursor \<Rightarrow> (set_route \<times> 'x cursor) option" where
  "set_shortcut E op key mc =
     (let nkeys = page_numkeys (env_mem E) (top_page mc);
          further = (if right_siblings E mc then (Search_tree, mc)
                     else (Not_found, set_flag C_EOF (set_top_ki (of_nat nkeys) mc)));
          inside = (Search_node, clear_flag C_EOF mc)
      in if nkeys = 0 then Some (Not_found, set_flag C_EOF (set_top_ki 0 mc))
         else do {
           cmp \<leftarrow> compare_item E key mc 0;
           if cmp = 0 then Some (Got_node True (item_node E mc 0), set_top_ki 0 mc)
           else if cmp > 0
           then (if nkeys > 1
                 then do {
                   cmp \<leftarrow> compare_item E key mc (nkeys - 1);
                   if cmp = 0 then Some (Got_node True (item_node E mc (nkeys - 1)), set_top_ki (of_nat (nkeys - 1)) mc)
                   else if cmp < 0
                   then (if unat (top_ki mc) < nkeys
                         then do {
                           cmp \<leftarrow> compare_item E key mc (unat (top_ki mc));
                           Some (if cmp = 0 then (Got_node True (item_node E mc (unat (top_ki mc))), mc) else inside)
                         }
                         else Some inside)
                   else Some further
                 }
                 else Some further)
           else Some (if cu_top mc = 0
                      then (if op = MDBX_SET_RANGE then Got_node False (item_node E mc 0) else Not_found, set_top_ki 0 mc)
                      else (Search_tree, mc))
         })"

text \<open>The search in the tree or in the page, and the step to the next page at the end of a page.\<close>

definition search_item ::
    "cursor_env \<Rightarrow> cursor_op \<Rightarrow> mdbx_val \<Rightarrow> page_txn \<Rightarrow> 'x cursor \<Rightarrow> (bool \<times> int \<times> nat \<times> page_txn \<times> 'x cursor) option" where
  "search_item E op key T mc = do {
     (exact, node, mc) \<leftarrow> search_top E key T mc;
     if exact then Some (True, 0, the node, T, mc)
     else if op \<noteq> MDBX_SET_RANGE
     then Some (False, error_code MDBX_NOTFOUND, 0, T,
            if unat (top_ki mc) \<ge> page_numkeys (env_mem E) (top_page mc) then set_flag C_EOF mc else mc)
     else (case node of
             Some n \<Rightarrow> Some (False, 0, n, T, mc)
           | None \<Rightarrow> do {
               (rc, T, mc) \<leftarrow> mdbx_cursor_sibling E Right T mc;
               Some (if rc \<noteq> 0 then (False, rc, 0, T, set_flag C_EOF mc) else (False, 0, item_node E mc 0, T, mc))
             })
   }"

text \<open>Whether the data of a key without duplicates fits \<open>MDBX_GET_BOTH\<close> and \<open>MDBX_GET_BOTH_RANGE\<close>.\<close>

definition match_data ::
    "cursor_env \<Rightarrow> cursor_op \<Rightarrow> nat \<Rightarrow> mdbx_val \<Rightarrow> page_txn \<Rightarrow> 'x cursor \<Rightarrow> (int \<times> page_txn \<times> mdbx_val) option" where
  "match_data E op node data T mc =
     (if iov_len data < dbx_vlen_min (cu_dbx mc) \<or> iov_len data > dbx_vlen_max (cu_dbx mc)
      then Some (error_code MDBX_BAD_VALSIZE, T, data)
      else (case (if db_flags (cu_db mc) AND ucast MDBX_INTEGERDUP \<noteq> 0 then align_value (ce_databuf E) data (env_mem E)
                  else Some (env_mem E, data)) of
              None \<Rightarrow> Some (error_code MDBX_BAD_VALSIZE, T, data)
            | Some (m, aligned_data) \<Rightarrow> do {
                (rc, T, olddata) \<leftarrow> mdbx_node_read E node (pp_txnid4chk E (top_page mc)) T;
                if rc \<noteq> 0 then Some (rc, T, data)
                else do {
                  dcmp \<leftarrow> dbx_dcmp (cu_dbx mc);
                  cmp \<leftarrow> call_cmp (ce_unaligned_ok E) dcmp m aligned_data olddata;
                  Some (if cmp \<noteq> 0 \<and> (op \<noteq> MDBX_GET_BOTH_RANGE \<or> cmp > 0) then (error_code MDBX_NOTFOUND, T, data)
                        else (0, T, olddata))
                }
              }))"

text \<open>From the label \<open>got_node\<close> on; the result has the flag \<open>exact\<close> first.\<close>

definition got_node ::
    "cursor_env \<Rightarrow> 'x dup_ops \<Rightarrow> cursor_op \<Rightarrow> bool \<Rightarrow> nat \<Rightarrow> mdbx_val \<Rightarrow> mdbx_val option \<Rightarrow> page_txn \<Rightarrow> 'x cursor \<Rightarrow>
     (bool \<times> int \<times> page_txn \<times> 'x cursor \<times> mdbx_val \<times> mdbx_val option) option" where
  "got_node E S op exact node key data T mc =
     (let m = env_mem E;
          mc = clear_flag C_EOF (set_flag C_INITIALIZED mc);
          mp = top_page mc;
          found_key = (if op = MDBX_SET_RANGE \<or> op = MDBX_SET_KEY then get_key m node else key)
      in if IS_LEAF2 m mp
         then Some (if \<not> flag_set C_SUB mc then (exact, error_code MDBX_CORRUPTED, T, mc, key, data)
                    else (exact, 0, T, mc,
                          if op = MDBX_SET_RANGE \<or> op = MDBX_SET_KEY then leaf2_key E mc (unat (top_ki mc)) else key, data))
         else if has_dups m node
         then (let (rc, mc) = dup_init S node mp mc
               in if rc \<noteq> 0 then Some (exact, rc, T, mc, key, data)
                  else do {
                    x \<leftarrow> cu_xcursor mc;
                    (exact, rc, T, x, data) \<leftarrow>
                      (if op = MDBX_SET \<or> op = MDBX_SET_KEY \<or> op = MDBX_SET_RANGE
                       then map_option (\<lambda>(rc, T, x, data). (exact, rc, T, x, data)) (dup_first S T x data)
                       else dup_set_range S T x data);
                    let mc = mc\<lparr>cu_xcursor := Some x\<rparr>;
                    Some (if rc \<noteq> 0 then (exact, rc, T, mc, key, data) else (exact, 0, T, mc, found_key, data))
                  })
         else (case data of
                 None \<Rightarrow> Some (exact, 0, T, mc, found_key, data)
               | Some d \<Rightarrow> do {
                   (rc, T, d) \<leftarrow> (if op = MDBX_GET_BOTH \<or> op = MDBX_GET_BOTH_RANGE then match_data E op node d T mc
                                 else mdbx_node_read E node (pp_txnid4chk E mp) T);
                   Some (if rc \<noteq> 0 then (exact, rc, T, mc, key, Some d) else (exact, 0, T, mc, found_key, Some d))
                 }))"

definition mdbx_cursor_set ::
    "cursor_env \<Rightarrow> 'x dup_ops \<Rightarrow> cursor_op \<Rightarrow> mdbx_val \<Rightarrow> mdbx_val option \<Rightarrow> page_txn \<Rightarrow> 'x cursor \<Rightarrow>
     (bool \<times> int \<times> page_txn \<times> 'x cursor \<times> mdbx_val \<times> mdbx_val option) option" where
  "mdbx_cursor_set E S op key data T mc =
     (if iov_len key < dbx_klen_min (cu_dbx mc) \<or> iov_len key > dbx_klen_max (cu_dbx mc)
      then Some (False, error_code MDBX_BAD_VALSIZE, T, mc, key, data)
      else (case (if db_flags (cu_db mc) AND ucast MDBX_INTEGERKEY \<noteq> 0 then align_value (ce_keybuf E) key (env_mem E)
                  else Some (env_mem E, key)) of
              None \<Rightarrow> Some (False, error_code MDBX_BAD_VALSIZE, T, mc, key, data)
            | Some (m, aligned_key) \<Rightarrow> do {
                let E = E\<lparr>rd_mem := m\<rparr>;
                let mc = clear_dup S mc;
                (route, mc) \<leftarrow> (if flag_set C_INITIALIZED mc then set_shortcut E op aligned_key mc
                               else Some (Search_tree, mc\<lparr>cu_pg := (cu_pg mc)(0 := 0)\<rparr>));
                (exact, rc, node, T, mc) \<leftarrow>
                  (case route of
                     Got_node exact node \<Rightarrow> Some (exact, 0, node, T, mc)
                   | Not_found \<Rightarrow> Some (False, error_code MDBX_NOTFOUND, 0, T, mc)
                   | Search_node \<Rightarrow> search_item E op aligned_key T mc
                   | Search_tree \<Rightarrow> do {
                       (rc, T, mc) \<leftarrow> mdbx_page_search E (Some aligned_key) 0 T mc;
                       if rc \<noteq> 0 then Some (False, rc, 0, T, mc) else search_item E op aligned_key T mc
                     });
                if rc \<noteq> 0 then Some (exact, rc, T, mc, key, data)
                else got_node E S op exact node key data T mc
              }))"

subsection \<open>The cursor over the duplicates of a key\<close>

text \<open>The cursor over duplicates has none below it: \<open>mdbx_xcursor_init1\<close> reports corruption.\<close>

definition no_dups :: "unit dup_ops" where
  "no_dups = \<lparr>dup_init = (\<lambda>node mp mc. (error_code MDBX_CORRUPTED, mc)), dup_clear = (\<lambda>f x. x),
     dup_initialized = (\<lambda>x. False), dup_first = (\<lambda>T x k. None), dup_last = (\<lambda>T x k. None), dup_next = (\<lambda>T x k. None),
     dup_prev = (\<lambda>T x k. None), dup_current = (\<lambda>T x k. None), dup_set_range = (\<lambda>T x k. None)\<rparr>"

text \<open>\<open>memcpy(&mx->mx_db, node_data(node), sizeof(MDBX_db))\<close>.\<close>

definition sizeof_MDBX_db :: nat where "sizeof_MDBX_db = 48"

definition load_db :: "mem \<Rightarrow> nat \<Rightarrow> table_db" where
  "load_db m a =
     \<lparr>db_flags = ld16 m a, db_depth = ld16 m (a + 2), db_xsize = ld32 m (a + 4), db_root = ld32 m (a + 8),
      db_branch_pages = ld32 m (a + 12), db_leaf_pages = ld32 m (a + 16), db_overflow_pages = ld32 m (a + 20),
      db_seq = ld64 m (a + 24), db_entries = ld64 m (a + 32), db_mod_txnid = ld64 m (a + 40)\<rparr>"

text \<open>The inner cursor and its record from a node: a table of its own, or a page inside the node.\<close>

definition dup_from_node :: "cursor_env \<Rightarrow> nat \<Rightarrow> nat \<Rightarrow> table_cursor \<Rightarrow> dup_cursor \<Rightarrow> int \<times> dup_cursor" where
  "dup_from_node E node mp mc x =
     (let m = env_mem E; flags = node_flags m node;
          kept = C_SUB OR (cu_flags mc AND (C_COPYING OR C_SKIPORD))
      in if flags = F_DUPDATA OR F_SUBDATA
         then if node_ds m node \<noteq> sizeof_MDBX_db then (error_code MDBX_CORRUPTED, x)
              else (let x = x\<lparr>cu_db := load_db m (node_data m node)\<rparr>
                    in if db_mod_txnid (cu_db x) > mp_txnid m mp then (error_code MDBX_CORRUPTED, x)
                       else (0, x\<lparr>cu_pg := (cu_pg x)(0 := 0), cu_snum := 0, cu_top := 0, cu_flags := kept\<rparr>))
         else if flags = F_DUPDATA
         then if node_ds m node \<le> PAGEHDRSZ then (error_code MDBX_CORRUPTED, x)
              else (let fp = node_data m node
                    in (0, x\<lparr>cu_db := (cu_db x)\<lparr>db_depth := 1, db_branch_pages := 0, db_leaf_pages := 1, db_overflow_pages := 0,
                               db_entries := of_nat (page_numkeys m fp), db_root := mp_pgno m fp, db_mod_txnid := mp_txnid m mp,
                               db_flags := flags_db2sub (db_flags (cu_db mc)),
                               db_xsize := (if db_flags (cu_db mc) AND ucast MDBX_DUPFIXED \<noteq> 0 then ucast (mp_leaf2_ksize m fp) else 0)\<rparr>,
                             cu_snum := 1, cu_top := 0, cu_flags := C_INITIALIZED OR kept,
                             cu_pg := (cu_pg x)(0 := fp), cu_ki := (cu_ki x)(0 := 0)\<rparr>))
         else (error_code MDBX_CORRUPTED, x))"

definition mdbx_xcursor_init1 :: "cursor_env \<Rightarrow> nat \<Rightarrow> nat \<Rightarrow> table_cursor \<Rightarrow> int \<times> table_cursor" where
  "mdbx_xcursor_init1 E node mp mc =
     (case cu_xcursor mc of
        None \<Rightarrow> (error_code MDBX_CORRUPTED, mc)
      | Some x \<Rightarrow>
          let (rc, x) = dup_from_node E node mp mc x;
              mc = mc\<lparr>cu_xcursor := Some x\<rparr>;
              xsize = db_xsize (cu_db x);
              differs = (xsize \<noteq> db_xsize (cu_db mc))
          in if rc \<noteq> 0 then (rc, mc)
             else if differs \<and>
                     (db_xsize (cu_db mc) \<noteq> 0 \<or> db_flags (cu_db mc) AND ucast MDBX_DUPFIXED = 0 \<or>
                      ucast xsize < dbx_vlen_min (cu_dbx mc) \<or> ucast xsize > dbx_vlen_max (cu_dbx mc))
             then (error_code MDBX_CORRUPTED, mc)
             else (let mc = (if differs
                       then mc\<lparr>cu_db := (cu_db mc)\<lparr>db_xsize := xsize\<rparr>,
                               cu_dbx := (cu_dbx mc)\<lparr>dbx_vlen_min := ucast xsize, dbx_vlen_max := ucast xsize\<rparr>\<rparr>
                       else mc)
                   in (0, mc\<lparr>cu_xcursor := Some (x\<lparr>cu_dbx := (cu_dbx x)\<lparr>dbx_klen_min := dbx_vlen_min (cu_dbx mc),
                                                              dbx_klen_max := dbx_vlen_max (cu_dbx mc)\<rparr>\<rparr>)\<rparr>)))"

end
