(* ===== verification/Tree_Walk.thy ===== *)
theory Tree_Walk
  imports Page_Versions Cursor_Ops
begin

text \<open>
  Cursors over a well-formed tree of pages.  The pages of a table form a tree; a cursor follows a
  path in it.  \<open>mdbx_cursor_sibling\<close> moves along a level of the tree, and the moves along the leaves
  pass over every item of the table, in order.
\<close>

subsection \<open>Trees of pages\<close>

datatype tree = Leaf nat | Node nat "tree list"

fun page_of :: "tree \<Rightarrow> nat" where
  "page_of (Leaf a) = a"
| "page_of (Node a ts) = a"

fun child :: "tree \<Rightarrow> nat \<Rightarrow> tree" where
  "child (Leaf a) j = Leaf a"
| "child (Node a ts) j = ts ! j"

definition width :: "mem \<Rightarrow> tree \<Rightarrow> nat" where "width m t = page_numkeys m (page_of t)"

text \<open>
  A large value is on pages that the transaction can read; keys with duplicates are not considered
  here.  \<open>at\<close> gives the pages the transaction can read.
\<close>

definition item_ok :: "mem \<Rightarrow> (pgno_t \<Rightarrow> nat option) \<Rightarrow> nat \<Rightarrow> nat \<Rightarrow> bool" where
  "item_ok m at a node \<longleftrightarrow>
     \<not> has_dups m node \<and>
     (node_flags m node AND F_BIGDATA = F_BIGDATA \<longrightarrow>
        (case at (node_largedata_pgno m node) of None \<Rightarrow> False | Some b \<Rightarrow> mp_txnid m b \<le> mp_txnid m a))"

definition leaf_ok :: "mem \<Rightarrow> (pgno_t \<Rightarrow> nat option) \<Rightarrow> nat \<Rightarrow> bool" where
  "leaf_ok m at a \<longleftrightarrow>
     IS_LEAF m a \<and> \<not> IS_BRANCH m a \<and> \<not> IS_LEAF2 m a \<and> 1 \<le> page_numkeys m a \<and>
     list_all (\<lambda>i. item_ok m at a (page_node m a i)) [0..<page_numkeys m a]"

definition branch_ok :: "mem \<Rightarrow> (pgno_t \<Rightarrow> nat option) \<Rightarrow> nat \<Rightarrow> tree list \<Rightarrow> bool" where
  "branch_ok m at a ts \<longleftrightarrow>
     IS_BRANCH m a \<and> \<not> IS_LEAF2 m a \<and> page_numkeys m a = length ts \<and> 2 \<le> length ts \<and>
     list_all (\<lambda>i. at (node_pgno m (page_node m a i)) = Some (page_of (ts ! i)) \<and>
                   mp_txnid m (page_of (ts ! i)) \<le> mp_txnid m a) [0..<length ts]"

fun tree_ok :: "mem \<Rightarrow> (pgno_t \<Rightarrow> nat option) \<Rightarrow> nat \<Rightarrow> tree \<Rightarrow> bool" where
  "tree_ok m at h (Leaf a) \<longleftrightarrow> h = 0 \<and> leaf_ok m at a"
| "tree_ok m at h (Node a ts) \<longleftrightarrow> h \<noteq> 0 \<and> branch_ok m at a ts \<and> list_all (tree_ok m at (h - 1)) ts"

lemma width_less: "width m t < 32768"
  using unsigned_less [of "mp_lower m (page_of t)", where 'a = nat] by (simp add: width_def page_numkeys_def)

lemma index_word: "j \<le> width m t \<Longrightarrow> unat (of_nat j :: u16) = j"
  by (rule unat_of_nat_lt, rule le_less_trans, assumption, rule less_trans [OF width_less]) simp

lemma tree_ok_nonempty: "tree_ok m at h t \<Longrightarrow> 0 < width m t"
  by (cases t) (auto simp: leaf_ok_def branch_ok_def width_def)

lemma tree_ok_node:
  assumes "tree_ok m at (Suc h) t"
  shows "IS_BRANCH m (page_of t)" "\<not> IS_LEAF2 m (page_of t)" "2 \<le> width m t"
    "j < width m t \<Longrightarrow> at (node_pgno m (page_node m (page_of t) j)) = Some (page_of (child t j))"
    "j < width m t \<Longrightarrow> mp_txnid m (page_of (child t j)) \<le> mp_txnid m (page_of t)"
    "j < width m t \<Longrightarrow> tree_ok m at h (child t j)"
  using assms by (cases t; auto simp: branch_ok_def width_def list_all_length)+

lemma tree_ok_leaf:
  assumes "tree_ok m at 0 t"
  shows "IS_LEAF m (page_of t)" "\<not> IS_BRANCH m (page_of t)" "\<not> IS_LEAF2 m (page_of t)"
    "i < width m t \<Longrightarrow> item_ok m at (page_of t) (page_node m (page_of t) i)"
  using assms by (cases t; auto simp: leaf_ok_def width_def list_all_length)+

subsection \<open>Paths\<close>

fun subtree :: "tree \<Rightarrow> nat list \<Rightarrow> tree" where
  "subtree t [] = t"
| "subtree t (j # q) = subtree (child t j) q"

lemma subtree_append [simp]: "subtree t (q @ r) = subtree (subtree t q) r"
  by (induction q arbitrary: t) auto

text \<open>The paths of a length to the pages of a level, from left to right.\<close>

fun level :: "mem \<Rightarrow> tree \<Rightarrow> nat \<Rightarrow> nat list list" where
  "level m t 0 = [[]]"
| "level m t (Suc l) = concat (map (\<lambda>q. map (\<lambda>j. q @ [j]) [0..<width m (subtree t q)]) (level m t l))"

lemma level_length: "q \<in> set (level m t l) \<Longrightarrow> length q = l"
  by (induction l arbitrary: q) auto

lemma level_snoc: "q @ [j] \<in> set (level m t (Suc l)) \<longleftrightarrow> q \<in> set (level m t l) \<and> j < width m (subtree t q)"
  by (auto intro!: bexI [of _ q])

lemma level_SucE:
  assumes "q \<in> set (level m t (Suc l))"
  obtains q' j where "q = q' @ [j]" "q' \<in> set (level m t l)" "j < width m (subtree t q')"
  using assms by auto

declare level.simps(2) [simp del]

lemma level_take: "q \<in> set (level m t h) \<Longrightarrow> l \<le> h \<Longrightarrow> take l q \<in> set (level m t l)"
proof (induction h arbitrary: q)
  case (Suc h)
  from Suc.prems(1) obtain r j where "q = r @ [j]" "r \<in> set (level m t h)" by (rule level_SucE)
  then show ?case using Suc level_length [of r m t h] level_length [of q m t "Suc h"] by (cases "l = Suc h") auto
qed simp

lemma level_nth_width:
  assumes "q \<in> set (level m t h)" "l < h"
  shows "q ! l < width m (subtree t (take l q))"
proof -
  have "take l q @ [q ! l] = take (Suc l) q" using level_length [OF assms(1)] assms(2) by (simp add: take_Suc_conv_app_nth)
  then have "take l q @ [q ! l] \<in> set (level m t (Suc l))" using level_take [OF assms(1), of "Suc l"] assms(2) by simp
  then show ?thesis by (simp add: level_snoc)
qed

lemma subtree_ok: "tree_ok m at h t \<Longrightarrow> q \<in> set (level m t l) \<Longrightarrow> l \<le> h \<Longrightarrow> tree_ok m at (h - l) (subtree t q)"
proof (induction l arbitrary: q)
  case (Suc l)
  from Suc.prems(2) obtain q' j where q: "q = q' @ [j]" "q' \<in> set (level m t l)" "j < width m (subtree t q')"
    by (rule level_SucE)
  have "tree_ok m at (h - l) (subtree t q')" using Suc q(2) by simp
  moreover have "h - l = Suc (h - Suc l)" using Suc.prems(3) by simp
  ultimately show ?case using q(1,3) tree_ok_node(6) [of m at "h - Suc l" "subtree t q'" j] by simp
qed simp

text \<open>The next and the previous path of a level.\<close>

fun outside :: "direction \<Rightarrow> nat \<Rightarrow> nat \<Rightarrow> bool" where
  "outside Right w j \<longleftrightarrow> w \<le> j + 1"
| "outside Left w j \<longleftrightarrow> j = 0"

fun beside :: "direction \<Rightarrow> nat \<Rightarrow> nat" where
  "beside Right j = j + 1"
| "beside Left j = j - 1"

fun edge :: "direction \<Rightarrow> nat \<Rightarrow> nat" where
  "edge Right w = 0"
| "edge Left w = w - 1"

fun adjacent_rev :: "mem \<Rightarrow> direction \<Rightarrow> tree \<Rightarrow> nat list \<Rightarrow> nat list option" where
  "adjacent_rev m d t [] = None"
| "adjacent_rev m d t (j # r) =
     (if outside d (width m (subtree t (rev r))) j
      then map_option (\<lambda>r'. edge d (width m (subtree t (rev r'))) # r') (adjacent_rev m d t r)
      else Some (beside d j # r))"

definition adjacent :: "mem \<Rightarrow> direction \<Rightarrow> tree \<Rightarrow> nat list \<Rightarrow> nat list option" where
  "adjacent m d t q = map_option rev (adjacent_rev m d t (rev q))"

lemma adjacent_Nil [simp]: "adjacent m d t [] = None"
  by (simp add: adjacent_def)

lemma adjacent_snoc:
  "adjacent m d t (q @ [j]) =
     (if outside d (width m (subtree t q)) j
      then map_option (\<lambda>q'. q' @ [edge d (width m (subtree t q'))]) (adjacent m d t q)
      else Some (q @ [beside d j]))"
  by (simp add: adjacent_def option.map_comp o_def)

lemma adjacent_in_level:
  assumes "tree_ok m at h t" "l \<le> Suc h" "q \<in> set (level m t l)" "adjacent m d t q = Some q'"
  shows "q' \<in> set (level m t l)"
  using assms(2-)
proof (induction l arbitrary: q q')
  case (Suc l)
  from Suc.prems(2) obtain r j where q: "q = r @ [j]" "r \<in> set (level m t l)" "j < width m (subtree t r)"
    by (rule level_SucE)
  show ?case
  proof (cases "outside d (width m (subtree t r)) j")
    case True
    then obtain r' where r': "adjacent m d t r = Some r'" "q' = r' @ [edge d (width m (subtree t r'))]"
      using Suc.prems(3) q(1) by (auto simp: adjacent_snoc)
    have "r' \<in> set (level m t l)" using Suc.IH [OF _ q(2) r'(1)] Suc.prems(1) by simp
    moreover from this have "0 < width m (subtree t r')"
      using Suc.prems(1) by (intro tree_ok_nonempty [OF subtree_ok [OF assms(1)]]) auto
    ultimately show ?thesis by (cases d) (simp_all add: r'(2) level_snoc)
  next
    case False
    then show ?thesis using Suc.prems(3) q by (cases d) (auto simp: adjacent_snoc level_snoc)
  qed
qed simp

lemma successively_concat_map:
  assumes "\<And>x. x \<in> set xs \<Longrightarrow> f x \<noteq> [] \<and> successively P (f x)"
    and "successively (\<lambda>x y. P (last (f x)) (hd (f y))) xs"
  shows "successively P (concat (map f xs))"
  using assms
proof (induction xs)
  case (Cons x xs)
  then have "successively P (concat (map f xs))" by (cases xs) auto
  moreover have "concat (map f xs) = [] \<or> P (last (f x)) (hd (concat (map f xs)))"
    using Cons.prems by (cases xs) simp_all
  ultimately show ?case using Cons.prems(1) by (simp add: successively_append_iff)
qed simp

lemma last_concat_map:
  "xs \<noteq> [] \<Longrightarrow> (\<And>x. x \<in> set xs \<Longrightarrow> f x \<noteq> []) \<Longrightarrow> last (concat (map f xs)) = last (f (last xs))"
  by (induction xs) auto

lemma hd_concat_map: "xs \<noteq> [] \<Longrightarrow> (\<And>x. x \<in> set xs \<Longrightarrow> f x \<noteq> []) \<Longrightarrow> hd (concat (map f xs)) = hd (f (hd xs))"
  by (cases xs) simp_all

lemma successively_map_upt:
  assumes "\<And>j. Suc j < n \<Longrightarrow> P (f j) (f (Suc j))"
  shows "successively P (map f [0..<n])"
  using assms by (auto simp: successively_conv_nth)

lemma level_nonempty: "tree_ok m at h t \<Longrightarrow> l \<le> Suc h \<Longrightarrow> level m t l \<noteq> []"
proof (induction l)
  case (Suc l)
  then obtain q where q: "q \<in> set (level m t l)" by fastforce
  then have "0 < width m (subtree t q)" using Suc.prems by (intro tree_ok_nonempty [OF subtree_ok]) auto
  then show ?case using q by (metis emptyE empty_set level_snoc)
qed simp

lemma level_ends:
  assumes "tree_ok m at h t" "l \<le> h"
  shows "last (level m t (Suc l)) = last (level m t l) @ [width m (subtree t (last (level m t l))) - 1]"
    "hd (level m t (Suc l)) = hd (level m t l) @ [0]"
proof -
  let ?f = "\<lambda>q. map (\<lambda>j. q @ [j]) [0..<width m (subtree t q)]"
  have w: "0 < width m (subtree t q)" if "q \<in> set (level m t l)" for q
    using that assms(2) by (intro tree_ok_nonempty [OF subtree_ok [OF assms(1)]])
  then have ne: "?f q \<noteq> []" if "q \<in> set (level m t l)" for q using that by simp
  have lev: "level m t l \<noteq> []" using level_nonempty [OF assms(1)] assms(2) by simp
  have "last (level m t (Suc l)) = last (?f (last (level m t l)))" "hd (level m t (Suc l)) = hd (?f (hd (level m t l)))"
    unfolding level.simps(2) by (rule last_concat_map [OF lev ne] hd_concat_map [OF lev ne], assumption)+
  then show "last (level m t (Suc l)) = last (level m t l) @ [width m (subtree t (last (level m t l))) - 1]"
      "hd (level m t (Suc l)) = hd (level m t l) @ [0]"
    using w [OF last_in_set [OF lev]] w [OF hd_in_set [OF lev]] by (simp_all add: last_map hd_map)
qed

definition neighbours :: "mem \<Rightarrow> tree \<Rightarrow> nat list \<Rightarrow> nat list \<Rightarrow> bool" where
  "neighbours m t q q' \<longleftrightarrow> adjacent m Right t q = Some q' \<and> adjacent m Left t q' = Some q"

lemma level_adjacent:
  assumes "tree_ok m at h t" "l \<le> Suc h"
  shows "successively (neighbours m t) (level m t l) \<and>
    adjacent m Right t (last (level m t l)) = None \<and> adjacent m Left t (hd (level m t l)) = None"
  using assms(2)
proof (induction l)
  case (Suc l)
  let ?f = "\<lambda>q. map (\<lambda>j. q @ [j]) [0..<width m (subtree t q)]"
  have le: "l \<le> Suc h" "l \<le> h" using Suc.prems by simp_all
  have w: "0 < width m (subtree t q)" if "q \<in> set (level m t l)" for q
    using that le by (intro tree_ok_nonempty [OF subtree_ok [OF assms(1)]])
  have ne: "?f q \<noteq> []" if "q \<in> set (level m t l)" for q using w [OF that] by simp
  have ends: "last (?f q) = q @ [width m (subtree t q) - 1]" "hd (?f q) = q @ [0]" if "q \<in> set (level m t l)" for q
    using w [OF that] by (simp_all add: last_map hd_map)
  note lev = level_nonempty [OF assms(1) le(1)]
  have IH: "successively (neighbours m t) (level m t l)" "adjacent m Right t (last (level m t l)) = None"
    "adjacent m Left t (hd (level m t l)) = None" using Suc.IH [OF le(1)] by simp_all
  have "successively (neighbours m t) (concat (map ?f (level m t l)))"
  proof (rule successively_concat_map)
    fix q assume q: "q \<in> set (level m t l)"
    show "?f q \<noteq> [] \<and> successively (neighbours m t) (?f q)"
      using ne [OF q] by (auto intro!: successively_map_upt simp: adjacent_snoc neighbours_def)
  next
    have "neighbours m t (last (?f q)) (hd (?f q'))"
      if "neighbours m t q q'" "q \<in> set (level m t l)" "q' \<in> set (level m t l)" for q q'
      unfolding ends [OF that(2)] ends [OF that(3)] using that(1) w [OF that(2)]
      by (simp add: adjacent_snoc neighbours_def)
    then show "successively (\<lambda>x y. neighbours m t (last (?f x)) (hd (?f y))) (level m t l)"
      using IH(1) by (elim successively_mono) auto
  qed
  then have "successively (neighbours m t) (level m t (Suc l))" by (simp add: level.simps(2))
  moreover have "adjacent m Right t (last (level m t (Suc l))) = None" "adjacent m Left t (hd (level m t (Suc l))) = None"
    using IH(2,3) w [OF last_in_set [OF lev]] by (simp_all add: level_ends [OF assms(1) le(2)] adjacent_snoc)
  ultimately show ?case by blast
qed simp

subsection \<open>Cursors on a tree\<close>

text \<open>The cursor is on the page at the end of a path; the indices below the top are those of the path.\<close>

definition follows :: "tree \<Rightarrow> nat list \<Rightarrow> 'x cursor \<Rightarrow> bool" where
  "follows t q mc \<longleftrightarrow> (\<forall>l < length q. cu_pg mc l = page_of (subtree t (take l q)) \<and> cu_ki mc l = of_nat (q ! l))"

definition on_page :: "tree \<Rightarrow> nat list \<Rightarrow> 'x cursor \<Rightarrow> bool" where
  "on_page t q mc \<longleftrightarrow>
     cu_snum mc = Suc (length q) \<and> cu_top mc = length q \<and> follows t q mc \<and> top_page mc = page_of (subtree t q)"

text \<open>A cursor that differs in its place only.\<close>

definition same_but_place :: "'x cursor \<Rightarrow> 'x cursor \<Rightarrow> bool" where
  "same_but_place mc mc' \<longleftrightarrow>
     cu_flags mc' = cu_flags mc \<and> cu_db mc' = cu_db mc \<and> cu_dbx mc' = cu_dbx mc \<and> cu_dbi mc' = cu_dbi mc \<and>
     cu_xcursor mc' = cu_xcursor mc \<and> cu_signature mc' = cu_signature mc"

lemma same_but_place_refl [simp]: "same_but_place mc mc"
  by (simp add: same_but_place_def)

lemma same_but_place_trans: "same_but_place mc mc' \<Longrightarrow> same_but_place mc' mc'' \<Longrightarrow> same_but_place mc mc''"
  by (simp add: same_but_place_def)

lemma same_but_place_fields:
  assumes "same_but_place mc mc'"
  shows "cu_flags mc' = cu_flags mc" "cu_db mc' = cu_db mc" "cu_dbx mc' = cu_dbx mc" "cu_dbi mc' = cu_dbi mc"
    "cu_xcursor mc' = cu_xcursor mc" "cu_signature mc' = cu_signature mc" "flag_set f mc' = flag_set f mc"
  using assms by (simp_all add: same_but_place_def flag_set_def)

lemma set_top_ki_simps [simp]:
  "cu_snum (set_top_ki i mc) = cu_snum mc" "cu_top (set_top_ki i mc) = cu_top mc" "cu_pg (set_top_ki i mc) = cu_pg mc"
  "cu_ki (set_top_ki i mc) = (cu_ki mc)(cu_top mc := i)" "same_but_place mc (set_top_ki i mc)"
  "cu_db (set_top_ki i mc) = cu_db mc" "cu_dbx (set_top_ki i mc) = cu_dbx mc" "cu_dbi (set_top_ki i mc) = cu_dbi mc"
  "cu_xcursor (set_top_ki i mc) = cu_xcursor mc" "flag_set f (set_top_ki i mc) = flag_set f mc"
  by (simp_all add: set_top_ki_def same_but_place_def flag_set_def)

lemma follows_snoc:
  "follows t (q @ [j]) mc \<longleftrightarrow> follows t q mc \<and> cu_pg mc (length q) = page_of (subtree t q) \<and> cu_ki mc (length q) = of_nat j"
  by (auto simp: follows_def less_Suc_eq nth_append)

lemma follows_cong:
  "(\<And>l. l < length q \<Longrightarrow> cu_pg mc' l = cu_pg mc l \<and> cu_ki mc' l = cu_ki mc l) \<Longrightarrow> follows t q mc' \<longleftrightarrow> follows t q mc"
  by (simp add: follows_def)

lemma on_page_ki [simp]: "on_page t q (set_top_ki i mc) = on_page t q mc"
proof -
  have "follows t q (set_top_ki i mc) = follows t q mc" if "cu_top mc = length q"
    by (rule follows_cong) (simp add: that)
  then show ?thesis unfolding on_page_def set_top_ki_simps by blast
qed

lemma on_page_fields:
  assumes "on_page t q mc"
  shows "cu_snum mc = Suc (length q)" "cu_top mc = length q" "follows t q mc" "cu_pg mc (length q) = page_of (subtree t q)"
    "top_page mc = page_of (subtree t q)"
  using assms unfolding on_page_def by metis+

text \<open>Going up and going down.\<close>

lemma pop_on_page:
  assumes "on_page t (q @ [j]) mc"
  shows "mdbx_cursor_pop mc = mc\<lparr>cu_snum := cu_snum mc - 1, cu_top := cu_top mc - 1\<rparr>"
    "on_page t q (mdbx_cursor_pop mc)" "top_ki (mdbx_cursor_pop mc) = of_nat j" "same_but_place mc (mdbx_cursor_pop mc)"
proof -
  have s: "cu_snum mc = Suc (Suc (length q))" "cu_top mc = Suc (length q)" "follows t (q @ [j]) mc"
    using assms by (simp_all add: on_page_def)
  then show pop: "mdbx_cursor_pop mc = mc\<lparr>cu_snum := cu_snum mc - 1, cu_top := cu_top mc - 1\<rparr>"
    by (simp add: mdbx_cursor_pop_def Let_def)
  have "follows t q (mc\<lparr>cu_snum := cu_snum mc - 1, cu_top := cu_top mc - 1\<rparr>)"
    using s(3) unfolding follows_snoc by (subst follows_cong [of q _ mc]) simp_all
  then show "on_page t q (mdbx_cursor_pop mc)" "top_ki (mdbx_cursor_pop mc) = of_nat j"
    using s unfolding pop follows_snoc by (simp_all add: on_page_def)
  show "same_but_place mc (mdbx_cursor_pop mc)" unfolding pop by (simp add: same_but_place_def)
qed

lemma push_on_page:
  assumes "on_page t q mc" "top_ki mc = of_nat j" "length q + 1 < CURSOR_STACK" "a = page_of (child (subtree t q) j)"
  obtains mc' where "mdbx_cursor_push a T mc = (0, T, mc')" "on_page t (q @ [j]) mc'" "top_ki mc' = 0" "same_but_place mc mc'"
proof -
  have s: "cu_snum mc = Suc (length q)" "cu_top mc = length q" "follows t q mc" "top_page mc = page_of (subtree t q)"
    using on_page_fields [OF assms(1)] by blast+
  let ?mc = "mc\<lparr>cu_top := cu_snum mc, cu_snum := cu_snum mc + 1, cu_pg := (cu_pg mc)(cu_snum mc := a), cu_ki := (cu_ki mc)(cu_snum mc := 0)\<rparr>"
  have "follows t q ?mc" by (subst follows_cong [of q _ mc]) (use s in simp_all)
  then have "on_page t (q @ [j]) ?mc" using s assms(2,4) by (simp add: on_page_def follows_snoc)
  moreover have "mdbx_cursor_push a T mc = (0, T, ?mc)" using s assms(3) by (simp add: mdbx_cursor_push_def)
  ultimately show ?thesis by (intro that [of ?mc]) (simp_all add: same_but_place_def)
qed

text \<open>One step down in the search from the root.\<close>

definition descend ::
    "cursor_env \<Rightarrow> mdbx_val option \<Rightarrow> u32 \<Rightarrow> nat \<Rightarrow> int \<Rightarrow> page_txn \<Rightarrow> 'x cursor \<Rightarrow> (int \<times> page_txn \<times> 'x cursor) option" where
  "descend E key flags mp i T mc = do {
     let node = page_node (env_mem E) mp (nat i);
     (rc, child, T) \<leftarrow> mdbx_page_get E (node_pgno (env_mem E) node) (pp_txnid4chk E mp) T;
     if rc \<noteq> 0 then Some (rc, T, mc)
     else (let (rc, T, mc) = mdbx_cursor_push child T (set_top_ki (word_of_int i) mc)
           in if rc \<noteq> 0 then Some (rc, T, mc) else search_down E key flags T mc)
   }"

lemma search_down_step:
  assumes "on_page t q mc"
  shows "search_down E key flags T mc =
    (let m = env_mem E; mp = page_of (subtree t q)
     in if \<not> IS_BRANCH m mp then Some (0, T, mc)
        else if flags AND MDBX_PS_LAST \<noteq> 0 \<and> flag_set C_INITIALIZED mc \<and> int (unat (top_ki mc)) = int (page_numkeys m mp) - 1
        then search_down E key flags T (mc\<lparr>cu_top := cu_snum mc, cu_snum := cu_snum mc + 1\<rparr>)
        else do {
          (i, mc) \<leftarrow> (if flags AND (MDBX_PS_FIRST OR MDBX_PS_LAST) \<noteq> 0
                     then Some (if flags AND MDBX_PS_LAST \<noteq> 0 then int (page_numkeys m mp) - 1 else 0, mc)
                     else child_index E key T mc);
          descend E key flags mp i T mc
        })"
  unfolding descend_def Let_def by (subst search_down.simps) (simp only: on_page_fields(5) [OF assms] Let_def)

subsection \<open>The interface to the pages\<close>

text \<open>Reading pages leaves what the cursors use of the transaction.\<close>

definition same_ids :: "page_txn \<Rightarrow> page_txn \<Rightarrow> bool" where
  "same_ids T T' \<longleftrightarrow>
     tx_flags T' = tx_flags T \<and> tx_txnid T' = tx_txnid T \<and>
     (\<forall>dbi. dirty_front dbi (tx_chain T') = dirty_front dbi (tx_chain T) \<and> tx_dbistate T' dbi = tx_dbistate T dbi)"

text \<open>
  What a cursor relies on when it asks for a page: a page the transaction can read comes back without
  error at its address, if it is not newer than the page above it, and the transaction stays as it is.
\<close>

locale page_reader =
  fixes E :: cursor_env
    and T0 :: page_txn
    and like :: "page_txn \<Rightarrow> bool"
    and at :: "pgno_t \<Rightarrow> nat option"
  assumes get: "like T \<Longrightarrow> at p = Some a \<Longrightarrow> mp_txnid (rd_mem E) a \<le> front \<Longrightarrow>
      \<exists>T'. mdbx_page_get E p front T = Some (0, a, T') \<and> like T'"
    and ids: "like T \<Longrightarrow> same_ids T0 T"
    and unblocked: "like T \<Longrightarrow> txn_unblocked T"
    and pgno: "at p = Some a \<Longrightarrow> mp_pgno (rd_mem E) a = p \<and> p \<noteq> P_INVALID"
begin

lemma get_child:
  assumes "tree_ok (env_mem E) at h t" "q \<in> set (level (env_mem E) t l)" "l < h" "on_page t q mc" "like T"
    and "j < width (env_mem E) (subtree t q)"
  obtains T' where "like T'"
    "mdbx_page_get E (node_pgno (env_mem E) (page_node (env_mem E) (page_of (subtree t q)) j))
       (pp_txnid4chk E (page_of (subtree t q))) T = Some (0, page_of (child (subtree t q) j), T')"
proof -
  obtain k where "tree_ok (env_mem E) at (Suc k) (subtree t q)"
    using subtree_ok [OF assms(1,2)] assms(3) by (metis Suc_diff_Suc less_imp_le)
  from tree_ok_node(4,5) [OF this assms(6)] show ?thesis
    using get [OF assms(5)] that unfolding pp_txnid4chk_def by blast
qed

lemma outside_iff:
  assumes "top_ki mc = of_nat j" "j < width m t" "top_page mc = page_of t"
  shows "(case d of Right \<Rightarrow> unat (top_ki mc) + 1 \<ge> page_numkeys m (top_page mc) | Left \<Rightarrow> top_ki mc = 0) \<longleftrightarrow>
    outside d (width m t) j"
proof -
  have "unat (of_nat j :: u16) = j" by (rule index_word [OF less_imp_le [OF assms(2)]])
  then show ?thesis using assms by (cases d) (auto simp: width_def unat_eq_zero)
qed

lemma beside_ki:
  assumes "\<not> outside d w j" "j < w" "w < 32768"
  shows "(case d of Right \<Rightarrow> of_nat j + 1 | Left \<Rightarrow> of_nat j - 1) = (of_nat (beside d j) :: u16)" "beside d j < w"
  using assms by (cases d; simp)+

lemma sibling_moves:
  assumes "tree_ok (env_mem E) at h t" "h < CURSOR_STACK"
  shows "q \<in> set (level (env_mem E) t l) \<Longrightarrow> l \<le> h \<Longrightarrow> on_page t q mc \<Longrightarrow> like T \<Longrightarrow>
    (case adjacent (env_mem E) d t q of
       None \<Rightarrow> mdbx_cursor_sibling E d T mc = Some (error_code MDBX_NOTFOUND, T, mc)
     | Some q' \<Rightarrow> \<exists>T' mc'. mdbx_cursor_sibling E d T mc = Some (0, T', mc') \<and> like T' \<and> on_page t q' mc' \<and>
         top_ki mc' = of_nat (edge d (width (env_mem E) (subtree t q'))) \<and> same_but_place mc mc')"
proof (induction l arbitrary: q mc T)
  case 0
  then show ?case by (subst mdbx_cursor_sibling.simps) (simp add: on_page_def)
next
  case (Suc l)
  let ?m = "env_mem E"
  from Suc.prems(1) obtain r j where q: "q = r @ [j]" "r \<in> set (level ?m t l)" "j < width ?m (subtree t r)"
    by (rule level_SucE)
  define mc1 where "mc1 = mdbx_cursor_pop mc"
  note pop = pop_on_page [OF Suc.prems(3) [unfolded q(1)], folded mc1_def]
  have len: "length r = l" "l < h" "length r + 1 < CURSOR_STACK"
    using level_length [OF q(2)] Suc.prems(2) assms(2) by simp_all
  have snum: "\<not> cu_snum mc < 2" using Suc.prems(3) q(1) by (simp add: on_page_def)
  note out = outside_iff [OF pop(3) q(3) on_page_fields(5) [OF pop(2)], of d]
  define down where "down T mc = do {
     let node = page_node ?m (top_page mc) (unat (top_ki mc));
     (rc, mp, T) \<leftarrow> mdbx_page_get E (node_pgno ?m node) (pp_txnid4chk E (top_page mc)) T;
     if rc \<noteq> 0 then Some (rc, T, clear_flag (C_INITIALIZED OR C_EOF) mc)
     else (let (rc, T, mc) = mdbx_cursor_push mp T mc
           in if rc \<noteq> 0 then Some (rc, T, mc)
              else Some (0, T, set_top_ki (case d of Left \<Rightarrow> of_nat (page_numkeys ?m mp) - 1 | Right \<Rightarrow> 0) mc))
   }" for T :: page_txn and mc :: "'a cursor"
  have down: "\<exists>T'' mc''. down T' mc' = Some (0, T'', mc'') \<and> like T'' \<and> on_page t (r' @ [i]) mc'' \<and>
      top_ki mc'' = of_nat (edge d (width ?m (subtree t (r' @ [i])))) \<and> same_but_place mc mc''"
    if r': "r' \<in> set (level ?m t l)" "on_page t r' mc'" "top_ki mc' = of_nat i" "i < width ?m (subtree t r')" "like T'"
      "same_but_place mc mc'" for r' mc' i T'
  proof -
    obtain T'' where T'': "like T''" "mdbx_page_get E (node_pgno ?m (page_node ?m (page_of (subtree t r')) i))
       (pp_txnid4chk E (page_of (subtree t r'))) T' = Some (0, page_of (child (subtree t r') i), T'')"
      by (rule get_child [OF assms(1) r'(1) len(2) r'(2,5,4)])
    have ui: "unat (of_nat i :: u16) = i" by (rule index_word [OF less_imp_le [OF r'(4)]])
    obtain mc'' where mc'': "mdbx_cursor_push (page_of (child (subtree t r') i)) T'' mc' = (0, T'', mc'')"
        "on_page t (r' @ [i]) mc''" "same_but_place mc' mc''"
      using push_on_page [OF r'(2,3) _ refl] level_length [OF r'(1)] len by auto
    have "0 < width ?m (child (subtree t r') i)"
      using tree_ok_nonempty [OF subtree_ok [OF assms(1), of "r' @ [i]" "Suc l"]] len(2) r'(1,4) by (simp add: level_snoc)
    then have "(case d of Left \<Rightarrow> of_nat (page_numkeys ?m (page_of (child (subtree t r') i))) - 1 | Right \<Rightarrow> 0) =
        (of_nat (edge d (width ?m (child (subtree t r') i))) :: u16)"
      by (cases d) (simp_all add: width_def)
    then show ?thesis
      using T'' mc'' same_but_place_trans [OF r'(6) mc''(3)] same_but_place_trans [OF same_but_place_trans [OF r'(6) mc''(3)]]
      by (simp add: down_def on_page_fields(5) [OF r'(2)] r'(3) ui)
  qed
  have code: "mdbx_cursor_sibling E d T mc = do {
      (rc, T, mc) \<leftarrow> (if outside d (width ?m (subtree t r)) j
        then map_option (\<lambda>(rc, T, mc). if rc \<noteq> 0 then (rc, T, mc\<lparr>cu_top := cu_top mc + 1, cu_snum := cu_snum mc + 1\<rparr>) else (rc, T, mc))
               (mdbx_cursor_sibling E d T mc1)
        else Some (0, T, set_top_ki (case d of Right \<Rightarrow> of_nat j + 1 | Left \<Rightarrow> of_nat j - 1) mc1));
      if rc \<noteq> 0 then Some (rc, T, mc) else down T mc
    }"
    by (subst mdbx_cursor_sibling.simps) (simp only: Let_def if_not_P [OF snum] mc1_def [symmetric] out down_def, simp only: pop(3))
  show ?case
  proof (cases "outside d (width ?m (subtree t r)) j")
    case False
    note ki = beside_ki [OF False q(3) width_less]
    have "\<exists>T'' mc''. down T (set_top_ki (of_nat (beside d j)) mc1) = Some (0, T'', mc'') \<and> like T'' \<and>
        on_page t (r @ [beside d j]) mc'' \<and> top_ki mc'' = of_nat (edge d (width ?m (subtree t (r @ [beside d j])))) \<and>
        same_but_place mc mc''"
      by (rule down [OF q(2) _ _ ki(2) Suc.prems(4)])
        (use pop in \<open>simp_all, metis same_but_place_trans set_top_ki_simps(5)\<close>)
    then show ?thesis using False q(1) ki(1) by (simp add: code adjacent_snoc)
  next
    case True
    note IH = Suc.IH [OF q(2) less_imp_le [OF len(2)] pop(2) Suc.prems(4)]
    show ?thesis
    proof (cases "adjacent ?m d t r")
      case None
      then have "mdbx_cursor_sibling E d T mc1 = Some (error_code MDBX_NOTFOUND, T, mc1)" using IH by simp
      moreover have "mc1\<lparr>cu_top := cu_top mc1 + 1, cu_snum := cu_snum mc1 + 1\<rparr> = mc"
        using Suc.prems(3) q(1) unfolding pop(1) by (simp add: on_page_def)
      ultimately show ?thesis using True None q(1) by (simp add: code adjacent_snoc error_code.simps)
    next
      case (Some r')
      then obtain T' mc' where sib: "mdbx_cursor_sibling E d T mc1 = Some (0, T', mc')" "like T'" "on_page t r' mc'"
          "top_ki mc' = of_nat (edge d (width ?m (subtree t r')))" "same_but_place mc1 mc'" using IH by auto
      have r': "r' \<in> set (level ?m t l)" using adjacent_in_level [OF assms(1) _ q(2) Some] len by simp
      then have "0 < width ?m (subtree t r')" using len by (intro tree_ok_nonempty [OF subtree_ok [OF assms(1)]]) auto
      then have "edge d (width ?m (subtree t r')) < width ?m (subtree t r')" by (cases d) simp_all
      from down [OF r' sib(3,4) this sib(2) same_but_place_trans [OF pop(4) sib(5)]]
      show ?thesis using True Some q(1) sib(1) by (simp add: code adjacent_snoc)
    qed
  qed
qed

lemma step_down:
  assumes "tree_ok (env_mem E) at h t" "h < CURSOR_STACK" "q \<in> set (level (env_mem E) t l)" "l < h"
    and "on_page t q mc" "like T" "j < width (env_mem E) (subtree t q)" "int j = i" "same_but_place mc0 mc"
  obtains T' mc' where "like T'" "on_page t (q @ [j]) mc'" "top_ki mc' = 0" "same_but_place mc0 mc'"
    "descend E key flags (page_of (subtree t q)) i T mc = search_down E key flags T' mc'"
proof -
  obtain T' where T': "like T'" "mdbx_page_get E (node_pgno (env_mem E) (page_node (env_mem E) (page_of (subtree t q)) j))
       (pp_txnid4chk E (page_of (subtree t q))) T = Some (0, page_of (child (subtree t q) j), T')"
    by (rule get_child [OF assms(1,3-7)])
  have i: "nat i = j" "word_of_int i = (of_nat j :: u16)" using assms(8) by auto
  obtain mc' where "mdbx_cursor_push (page_of (child (subtree t q) j)) T' (set_top_ki (of_nat j) mc) = (0, T', mc')"
      "on_page t (q @ [j]) mc'" "top_ki mc' = 0" "same_but_place (set_top_ki (of_nat j) mc) mc'"
    using push_on_page [of t q "set_top_ki (of_nat j) mc" j _ T'] assms(2,4,5) level_length [OF assms(3)] by auto
  moreover have "same_but_place mc0 (set_top_ki (of_nat j) mc)"
    by (rule same_but_place_trans [OF assms(9)]) simp
  ultimately show ?thesis
    using T' by (intro that [of T' mc']) (simp_all add: i descend_def, metis same_but_place_trans)
qed

text \<open>The first page of a level.\<close>

lemma search_down_first:
  assumes "tree_ok (env_mem E) at h t" "h < CURSOR_STACK"
  shows "l \<le> h \<Longrightarrow> on_page t (hd (level (env_mem E) t l)) mc \<Longrightarrow> like T \<Longrightarrow>
    \<exists>T' mc'. search_down E key MDBX_PS_FIRST T mc = Some (0, T', mc') \<and> like T' \<and>
      on_page t (hd (level (env_mem E) t h)) mc' \<and> same_but_place mc mc'"
proof (induction "h - l" arbitrary: l mc T)
  case 0
  then have "tree_ok (env_mem E) at 0 (subtree t (hd (level (env_mem E) t h)))"
    using subtree_ok [OF assms(1) hd_in_set [OF level_nonempty [OF assms(1)]], of h] by simp
  then show ?case using 0 tree_ok_leaf(2) on_page_fields(5) [OF 0(3)] by (subst search_down.simps) auto
next
  case (Suc n)
  let ?m = "env_mem E" and ?q = "hd (level (env_mem E) t l)"
  have lh: "l < h" using Suc.hyps(2) by simp
  have q: "?q \<in> set (level ?m t l)" using level_nonempty [OF assms(1), of l] lh by simp
  have node: "tree_ok ?m at (Suc (h - Suc l)) (subtree t ?q)"
    using subtree_ok [OF assms(1) q] lh by (metis Suc_diff_Suc less_imp_le)
  have w: "0 < width ?m (subtree t ?q)" using tree_ok_nonempty [OF node] .
  have code: "search_down E key MDBX_PS_FIRST T mc = descend E key MDBX_PS_FIRST (page_of (subtree t ?q)) 0 T mc"
    by (simp add: search_down_step [OF Suc.prems(2)] tree_ok_node(1) [OF node] MDBX_PS_FIRST_def MDBX_PS_LAST_def Let_def)
  obtain T' mc' where s: "like T'" "on_page t (?q @ [0]) mc'" "same_but_place mc mc'"
      "search_down E key MDBX_PS_FIRST T mc = search_down E key MDBX_PS_FIRST T' mc'"
    using step_down [where key = key and flags = MDBX_PS_FIRST, OF assms q lh Suc.prems(2,3) w int_ops(1) same_but_place_refl]
      code by metis
  have "on_page t (hd (level ?m t (Suc l))) mc'" using s(2) level_ends(2) [OF assms(1)] lh by simp
  then have "\<exists>T'' mc''. search_down E key MDBX_PS_FIRST T' mc' = Some (0, T'', mc'') \<and> like T'' \<and>
      on_page t (hd (level ?m t h)) mc'' \<and> same_but_place mc' mc''"
    using lh Suc.hyps(2) by (intro Suc.hyps(1) s(1)) simp_all
  then show ?case using s(3,4) same_but_place_trans by metis
qed

text \<open>
  The last page of a level.  A cursor that is initialised still has its former path on the stack, and
  is taken along it as long as that is the last one; where the paths part, a new page gets index 0,
  which is not the last of a branch page.
\<close>

definition old_path :: "tree \<Rightarrow> nat \<Rightarrow> nat list \<Rightarrow> 'x cursor \<Rightarrow> bool" where
  "old_path t h q mc \<longleftrightarrow>
     (\<exists>p \<in> set (level (env_mem E) t h). take (length q) p = q \<and> follows t p mc \<and> cu_pg mc h = page_of (subtree t p))"

lemma search_down_last:
  assumes "tree_ok (env_mem E) at h t" "h < CURSOR_STACK"
  shows "l \<le> h \<Longrightarrow> on_page t (last (level (env_mem E) t l)) mc \<Longrightarrow> like T \<Longrightarrow>
    (flag_set C_INITIALIZED mc \<Longrightarrow> top_ki mc = 0 \<or> old_path t h (last (level (env_mem E) t l)) mc) \<Longrightarrow>
    \<exists>T' mc'. search_down E key MDBX_PS_LAST T mc = Some (0, T', mc') \<and> like T' \<and>
      on_page t (last (level (env_mem E) t h)) mc' \<and> same_but_place mc mc'"
proof (induction "h - l" arbitrary: l mc T)
  case 0
  then have "tree_ok (env_mem E) at 0 (subtree t (last (level (env_mem E) t h)))"
    using subtree_ok [OF assms(1) last_in_set [OF level_nonempty [OF assms(1)]], of h] by simp
  then show ?case using 0 tree_ok_leaf(2) on_page_fields(5) [OF 0(3)] by (subst search_down.simps) auto
next
  case (Suc n)
  let ?m = "env_mem E" and ?q = "last (level (env_mem E) t l)"
  have lh: "l < h" using Suc.hyps(2) by simp
  have q: "?q \<in> set (level ?m t l)" using level_nonempty [OF assms(1), of l] lh by simp
  have len: "length ?q = l" by (rule level_length [OF q])
  have node: "tree_ok ?m at (Suc (h - Suc l)) (subtree t ?q)"
    using subtree_ok [OF assms(1) q] lh by (metis Suc_diff_Suc less_imp_le)
  define w where "w = width ?m (subtree t ?q)"
  have w: "2 \<le> w" using tree_ok_node(3) [OF node] by (simp add: w_def)
  have next_q: "last (level ?m t (Suc l)) = ?q @ [w - 1]" using level_ends(1) [OF assms(1)] lh by (simp add: w_def)
  have go: "\<exists>T'' mc''. search_down E key MDBX_PS_LAST T' mc' = Some (0, T'', mc'') \<and> like T'' \<and>
      on_page t (last (level ?m t h)) mc'' \<and> same_but_place mc mc''"
    if "like T'" "on_page t (?q @ [w - 1]) mc'" "same_but_place mc mc'"
      "flag_set C_INITIALIZED mc' \<Longrightarrow> top_ki mc' = 0 \<or> old_path t h (?q @ [w - 1]) mc'" for T' mc'
  proof -
    have "\<exists>T'' mc''. search_down E key MDBX_PS_LAST T' mc' = Some (0, T'', mc'') \<and> like T'' \<and>
      on_page t (last (level ?m t h)) mc'' \<and> same_but_place mc' mc''"
      by (rule Suc.hyps(1) [of "Suc l"]) (use lh Suc.hyps(2) that in \<open>simp_all add: next_q\<close>)
    then show ?thesis using same_but_place_trans [OF that(3)] by blast
  qed
  have flags: "MDBX_PS_LAST \<noteq> 0" "MDBX_PS_LAST AND (MDBX_PS_FIRST OR MDBX_PS_LAST) \<noteq> 0"
    by (simp_all add: MDBX_PS_FIRST_def MDBX_PS_LAST_def)
  have numkeys: "page_numkeys ?m (page_of (subtree t ?q)) = w" by (simp add: w_def width_def)
  have i: "int (w - 1) = int w - 1" using w by simp
  show ?case
  proof (cases "flag_set C_INITIALIZED mc \<and> int (unat (top_ki mc)) = int w - 1")
    case True
    then have ki: "unat (top_ki mc) = w - 1" using w by linarith
    let ?mc = "mc\<lparr>cu_top := cu_snum mc, cu_snum := cu_snum mc + 1\<rparr>"
    have "top_ki mc \<noteq> 0" using ki w by auto
    then obtain p where p: "p \<in> set (level ?m t h)" "take l p = ?q" "follows t p mc" "cu_pg mc h = page_of (subtree t p)"
      using Suc.prems(4) True by (auto simp: old_path_def len)
    have lp: "length p = h" by (rule level_length [OF p(1)])
    have pl: "p ! l < w" using level_nth_width [OF p(1) lh] p(2) by (simp add: w_def)
    have "cu_ki mc l = of_nat (p ! l)" using p(3) lh lp by (simp add: follows_def)
    then have "unat (of_nat (p ! l) :: u16) = w - 1" using ki on_page_fields(2) [OF Suc.prems(2)] len by simp
    then have pl1: "p ! l = w - 1" using index_word [of "p ! l" ?m "subtree t ?q"] pl by (simp add: w_def)
    have tk: "take (Suc l) p = ?q @ [w - 1]" using lp lh p(2) pl1 by (simp add: take_Suc_conv_app_nth)
    have pg: "cu_pg mc (Suc l) = page_of (subtree t (take (Suc l) p))"
      using p(3,4) lp lh by (cases "Suc l = h") (auto simp: follows_def)
    have fields: "cu_snum mc = Suc l" "cu_top mc = l" using on_page_fields [OF Suc.prems(2)] len by simp_all
    have fol: "follows t p ?mc" using p(3) by (simp add: follows_def)
    have "follows t (?q @ [w - 1]) ?mc"
      unfolding tk [symmetric] using fol lp lh by (simp add: follows_def min_def)
    then have on: "on_page t (?q @ [w - 1]) ?mc"
      using pg unfolding tk by (simp add: on_page_def fields len)
    have "old_path t h (?q @ [w - 1]) ?mc"
      using p(1,4) fol tk len by (auto simp: old_path_def intro!: bexI [of _ p])
    moreover have "search_down E key MDBX_PS_LAST T mc = search_down E key MDBX_PS_LAST T ?mc"
      using True by (simp add: search_down_step [OF Suc.prems(2)] tree_ok_node(1) [OF node] flags numkeys Let_def)
    ultimately show ?thesis
      using go [OF Suc.prems(3) on] by (simp add: same_but_place_def)
  next
    case False
    have code: "search_down E key MDBX_PS_LAST T mc = descend E key MDBX_PS_LAST (page_of (subtree t ?q)) (int w - 1) T mc"
      using False
      by (auto simp: search_down_step [OF Suc.prems(2)] tree_ok_node(1) [OF node] flags numkeys Let_def simp del: One_nat_def)
    obtain T' mc' where s: "like T'" "on_page t (?q @ [w - 1]) mc'" "top_ki mc' = 0" "same_but_place mc mc'"
        "search_down E key MDBX_PS_LAST T mc = search_down E key MDBX_PS_LAST T' mc'"
      using step_down [where key = key and flags = MDBX_PS_LAST, OF assms q lh Suc.prems(2,3) _ i same_but_place_refl]
        code w by (metis w_def diff_less less_le_trans zero_less_numeral zero_less_one)
    then show ?thesis using go [OF s(1,2,4)] by simp
  qed
qed

subsection \<open>From the root to a leaf\<close>

text \<open>The root of the tree is the one of the table's record, which is up to date.\<close>

definition rooted :: "tree \<Rightarrow> 'x cursor \<Rightarrow> bool" where
  "rooted t mc \<longleftrightarrow>
     at (db_root (cu_db mc)) = Some (page_of t) \<and> tx_dbistate T0 (cu_dbi mc) AND DBI_STALE = 0 \<and>
     mp_txnid (env_mem E) (page_of t) \<le> root_txnid T0 mc"

lemma rooted_cong:
  "cu_db mc' = cu_db mc \<Longrightarrow> cu_dbi mc' = cu_dbi mc \<Longrightarrow> rooted t mc' \<longleftrightarrow> rooted t mc"
  by (simp add: rooted_def root_txnid_def split: option.split)

definition fresh_root :: "tree \<Rightarrow> 'x cursor \<Rightarrow> bool" where
  "fresh_root t mc \<longleftrightarrow> cu_pg mc 0 = 0 \<or> cu_pg mc 0 = page_of t"

lemma load_root_correct:
  assumes "rooted t mc" "fresh_root t mc" "like T"
  obtains T' where "load_root E T mc = Some (0, T', mc\<lparr>cu_pg := (cu_pg mc)(0 := page_of t)\<rparr>)" "like T'"
proof (cases "cu_pg mc 0 = 0 \<or> mp_pgno (env_mem E) (cu_pg mc 0) \<noteq> db_root (cu_db mc)")
  case True
  have "root_txnid T mc = root_txnid T0 mc" using ids [OF assms(3)] by (simp add: root_txnid_def same_ids_def split: option.split)
  then obtain T' where "mdbx_page_get E (db_root (cu_db mc)) (root_txnid T mc) T = Some (0, page_of t, T')" "like T'"
    using get [OF assms(3), of "db_root (cu_db mc)" "page_of t" "root_txnid T mc"] assms(1) by (auto simp: rooted_def)
  then show ?thesis using True that by (simp add: load_root_def)
next
  case False
  then have "(cu_pg mc)(0 := page_of t) = cu_pg mc" using assms(2) by (simp add: fresh_root_def fun_upd_idem)
  then have "mc\<lparr>cu_pg := (cu_pg mc)(0 := page_of t)\<rparr> = mc" by simp
  then show ?thesis using False that [of T] assms(3) by (auto simp: load_root_def)
qed

text \<open>The search from the root, for any way down to a leaf that succeeds.\<close>

lemma page_search_down:
  assumes "tree_ok (env_mem E) at h t" "rooted t mc" "fresh_root t mc" "like T"
    and f: "flags AND MDBX_PS_MODIFY = 0" "flags AND MDBX_PS_ROOTONLY = 0"
    and down: "\<And>T' mc'. like T' \<Longrightarrow> on_page t [] mc' \<Longrightarrow> same_but_place mc mc' \<Longrightarrow> cu_ki mc' = cu_ki mc \<Longrightarrow>
        cu_pg mc' = (cu_pg mc)(0 := page_of t) \<Longrightarrow>
        \<exists>T'' mc'' q. search_down E key flags T' mc' = Some (0, T'', mc'') \<and> like T'' \<and> q \<in> set (level (env_mem E) t h) \<and>
          on_page t q mc'' \<and> same_but_place mc' mc'' \<and> Q q"
  obtains T' mc' q where "mdbx_page_search E key flags T mc = Some (0, T', clear_flag C_EOF (set_flag C_INITIALIZED mc'))"
    "like T'" "q \<in> set (level (env_mem E) t h)" "on_page t q mc'" "same_but_place mc mc'" "Q q"
proof -
  let ?mc = "mc\<lparr>cu_pg := (cu_pg mc)(0 := page_of t), cu_snum := 1, cu_top := 0\<rparr>"
  obtain T1 where T1: "load_root E T mc = Some (0, T1, mc\<lparr>cu_pg := (cu_pg mc)(0 := page_of t)\<rparr>)" "like T1"
    by (rule load_root_correct [OF assms(2-4)])
  have on: "on_page t [] ?mc" "same_but_place mc ?mc" by (simp_all add: on_page_def follows_def same_but_place_def)
  obtain T' mc' q where s: "search_down E key flags T1 ?mc = Some (0, T', mc')" "like T'" "on_page t q mc'" "same_but_place ?mc mc'"
      "q \<in> set (level (env_mem E) t h)" "Q q"
    using down [OF T1(2) on] by auto
  have leaf: "IS_LEAF (env_mem E) (top_page mc')"
    using tree_ok_leaf(1) subtree_ok [OF assms(1) s(5)] on_page_fields(5) [OF s(3)] by simp
  have "tx_dbistate T (cu_dbi mc) AND DBI_STALE = 0" using assms(2) ids [OF assms(4)] by (simp add: rooted_def same_ids_def)
  moreover have "db_root (cu_db mc) \<noteq> P_INVALID" using assms(2) pgno by (auto simp: rooted_def)
  ultimately have "mdbx_page_search E key flags T mc = mdbx_page_search_root E key flags T1 ?mc"
    using unblocked [OF assms(4)] T1(1) f by (simp add: mdbx_page_search_def refresh_db_def txn_unblocked_def)
  also have "\<dots> = Some (0, T', clear_flag C_EOF (set_flag C_INITIALIZED mc'))"
    using f leaf s(1) by (simp add: mdbx_page_search_root_def)
  finally show ?thesis using that s(2,3,5,6) same_but_place_trans [OF on(2) s(4)] by blast
qed

end


text \<open>Transactions provide the interface: what they can read stays the same while they read.\<close>

definition reads :: "page_txn \<Rightarrow> page_txn \<Rightarrow> bool" where
  "reads T T' \<longleftrightarrow> txn_wf T \<and> txn_unblocked T \<and> txn_like T T'"

lemma dirty_front_like: "list_all2 spiller_like ss ss' \<Longrightarrow> dirty_front dbi ss' = dirty_front dbi ss"
  by (induction rule: list_all2_induct) (simp_all add: spiller_like_fields)

lemma txn_like_ids:
  assumes "txn_like T T'"
  shows "same_ids T T'"
proof (cases "T' = T")
  case False
  then have l: "list_all2 spiller_like (tx_chain T) (tx_chain T')" using assms by (simp add: txn_like_def)
  then have "tx_dbistate T' dbi = tx_dbistate T dbi" for dbi
    by (cases "tx_chain T"; cases "tx_chain T'") (auto simp: tx_dbistate_def spiller_like_fields)
  then show ?thesis using txn_like_fields [OF assms] dirty_front_like [OF l] by (simp add: same_ids_def)
qed (simp add: same_ids_def)

interpretation txn_reader: page_reader E T "reads T" "pages E T" for E T
proof
  fix T' p a front
  assume "reads T T'" and p: "pages E T p = Some a" "mp_txnid (env_mem E) a \<le> front"
  then have T': "txn_wf T" "txn_unblocked T" "txn_like T T'" by (simp_all add: reads_def)
  then have "txn_wf T'" "pages E T' p = Some a" using txn_like_wf p(1) by (simp_all add: pages_like)
  then obtain T'' where "mdbx_page_get E p front T' = Some (0, a, T'')" "txn_like T' T''"
    using page_get_readable p(2) by blast
  then show "\<exists>T''. mdbx_page_get E p front T' = Some (0, a, T'') \<and> reads T T''"
    using T' txn_like_trans unfolding reads_def by blast
next
  show "same_ids T T'" if "reads T T'" for T' using that txn_like_ids by (simp add: reads_def)
  show "txn_unblocked T'" if "reads T T'" for T'
    using that by (auto simp: reads_def txn_unblocked_def dest: txn_like_fields(1))
  show "mp_pgno (env_mem E) a = p \<and> p \<noteq> P_INVALID" if "pages E T p = Some a" for p a
    using pages_pgno [OF that] pages_valid [OF that] by simp
qed

end
