(* ===== verification/Tree_Moves.thy ===== *)
theory Tree_Moves
  imports Tree_Walk
begin

text \<open>
  Moving a cursor over the items of a table without duplicates: \<open>mdbx_cursor_first\<close>, \<open>_last\<close>,
  \<open>_next\<close> and \<open>_prev\<close> follow the order of the leaves.
\<close>

subsection \<open>Items\<close>

definition node_value :: "mem \<Rightarrow> (pgno_t \<Rightarrow> nat option) \<Rightarrow> nat \<Rightarrow> mdbx_val" where
  "node_value m at node =
     \<lparr>iov_base = (if node_flags m node AND F_BIGDATA = F_BIGDATA then page_data (the (at (node_largedata_pgno m node)))
                  else node_data m node),
      iov_len = of_nat (node_ds m node)\<rparr>"

text \<open>A path to an item ends with the index in its leaf.\<close>

definition item_node_of :: "mem \<Rightarrow> tree \<Rightarrow> nat list \<Rightarrow> nat" where
  "item_node_of m t p = page_node m (page_of (subtree t (butlast p))) (last p)"

definition item_key_of :: "mem \<Rightarrow> tree \<Rightarrow> nat list \<Rightarrow> mdbx_val" where
  "item_key_of m t p = get_key m (item_node_of m t p)"

definition item_value_of :: "mem \<Rightarrow> (pgno_t \<Rightarrow> nat option) \<Rightarrow> tree \<Rightarrow> nat list \<Rightarrow> mdbx_val" where
  "item_value_of m at t p = node_value m at (item_node_of m t p)"

abbreviation positions :: "mem \<Rightarrow> nat \<Rightarrow> tree \<Rightarrow> nat list list" where
  "positions m h t \<equiv> level m t (Suc h)"

definition at_item :: "tree \<Rightarrow> nat list \<Rightarrow> 'x cursor \<Rightarrow> bool" where
  "at_item t p mc \<longleftrightarrow> p \<noteq> [] \<and> on_page t (butlast p) mc \<and> top_ki mc = of_nat (last p)"

lemma at_item_snoc: "at_item t (q @ [i]) mc \<longleftrightarrow> on_page t q mc \<and> top_ki mc = of_nat i"
  by (simp add: at_item_def)

subsection \<open>Flags\<close>

lemma word_flag_cases:
  fixes a b :: "'a::len word"
  shows "(f OR a) AND b = (f AND b) OR (a AND b)" "(f AND NOT a) AND b = f AND (b AND NOT a)"
  by (rule bit.conj_disj_distrib2) (simp add: ac_simps)

lemma flag_set_flag [simp]:
  "flag_set f (set_flag g mc) \<longleftrightarrow> (cu_flags mc AND f) OR (g AND f) \<noteq> 0"
  "flag_set f (clear_flag g mc) \<longleftrightarrow> cu_flags mc AND (f AND NOT g) \<noteq> 0"
  by (simp_all add: flag_set_def set_flag_def clear_flag_def word_flag_cases)

lemma flag_values [simp]:
  "C_INITIALIZED AND C_EOF = 0" "C_EOF AND C_INITIALIZED = 0" "C_INITIALIZED AND C_DEL = 0" "C_DEL AND C_INITIALIZED = 0"
  "C_EOF AND C_DEL = 0" "C_DEL AND C_EOF = 0"
  "C_INITIALIZED AND NOT C_EOF = C_INITIALIZED" "C_EOF AND NOT C_EOF = 0" "C_DEL AND NOT C_EOF = C_DEL"
  "C_INITIALIZED AND NOT C_DEL = C_INITIALIZED" "C_EOF AND NOT C_DEL = C_EOF" "C_DEL AND NOT C_DEL = 0"
  "C_INITIALIZED AND NOT (C_EOF OR C_DEL) = C_INITIALIZED" "C_EOF AND NOT (C_EOF OR C_DEL) = 0" "C_DEL AND NOT (C_EOF OR C_DEL) = 0"
  "(C_INITIALIZED OR C_EOF) AND C_INITIALIZED = C_INITIALIZED" "(C_INITIALIZED OR C_EOF) AND C_EOF = C_EOF"
  "(C_INITIALIZED OR C_EOF) AND C_DEL = 0" "C_INITIALIZED \<noteq> 0" "C_EOF \<noteq> 0" "C_DEL \<noteq> 0"
  by (simp_all add: C_INITIALIZED_def C_EOF_def C_DEL_def)

lemmas flag_eval = flag_set_def and.assoc C_INITIALIZED_def C_EOF_def C_DEL_def

lemma flag_fields [simp]:
  "cu_snum (set_flag f mc) = cu_snum mc" "cu_top (set_flag f mc) = cu_top mc" "cu_pg (set_flag f mc) = cu_pg mc"
  "cu_ki (set_flag f mc) = cu_ki mc" "cu_db (set_flag f mc) = cu_db mc" "cu_dbx (set_flag f mc) = cu_dbx mc"
  "cu_dbi (set_flag f mc) = cu_dbi mc" "cu_xcursor (set_flag f mc) = cu_xcursor mc"
  "cu_signature (set_flag f mc) = cu_signature mc"
  "cu_snum (clear_flag f mc) = cu_snum mc" "cu_top (clear_flag f mc) = cu_top mc" "cu_pg (clear_flag f mc) = cu_pg mc"
  "cu_ki (clear_flag f mc) = cu_ki mc" "cu_db (clear_flag f mc) = cu_db mc" "cu_dbx (clear_flag f mc) = cu_dbx mc"
  "cu_dbi (clear_flag f mc) = cu_dbi mc" "cu_xcursor (clear_flag f mc) = cu_xcursor mc"
  "cu_signature (clear_flag f mc) = cu_signature mc"
  "cu_flags (set_flag f mc) = cu_flags mc OR f" "cu_flags (clear_flag f mc) = cu_flags mc AND NOT f"
  "cu_flags (set_top_ki i mc) = cu_flags mc" "cu_signature (set_top_ki i mc) = cu_signature mc"
  by (simp_all add: set_flag_def clear_flag_def set_top_ki_def)

lemma flag_set_zero: "\<not> flag_set f mc \<longleftrightarrow> cu_flags mc AND f = 0"
  by (simp add: flag_set_def)

lemma on_page_flag [simp]: "on_page t q (set_flag f mc) = on_page t q mc" "on_page t q (clear_flag f mc) = on_page t q mc"
  by (simp_all add: on_page_def follows_def)

lemma set_top_ki_id: "cu_ki mc (cu_top mc) = i \<Longrightarrow> set_top_ki i mc = mc"
  unfolding set_top_ki_def by (metis cursor.surjective cursor.update_convs(9) fun_upd_triv)

subsection \<open>Cursors between operations\<close>

text \<open>
  What does not change while a cursor moves in its table, which has no duplicates.
\<close>

definition same_table :: "'x cursor \<Rightarrow> 'x cursor \<Rightarrow> bool" where
  "same_table mc mc' \<longleftrightarrow>
     cu_db mc' = cu_db mc \<and> cu_dbx mc' = cu_dbx mc \<and> cu_dbi mc' = cu_dbi mc \<and> cu_xcursor mc' = cu_xcursor mc \<and>
     cu_signature mc' = cu_signature mc"

lemma same_table_refl [simp]: "same_table mc mc" by (simp add: same_table_def)

lemma same_table_trans: "same_table mc mc' \<Longrightarrow> same_table mc' mc'' \<Longrightarrow> same_table mc mc''"
  by (simp add: same_table_def)

lemma same_table_flag [simp]:
  "same_table mc (set_flag f mc') = same_table mc mc'" "same_table mc (clear_flag f mc') = same_table mc mc'"
  "same_table mc (set_top_ki i mc') = same_table mc mc'"
  by (simp_all add: same_table_def set_top_ki_def)

lemma same_but_place_table: "same_but_place mc mc' \<Longrightarrow> same_table mc mc'"
  by (simp add: same_table_def same_but_place_def)

definition plain :: "'x cursor \<Rightarrow> bool" where
  "plain mc \<longleftrightarrow> db_flags (cu_db mc) AND ucast MDBX_DUPSORT = 0 \<and> cu_xcursor mc = None \<and> cu_flags mc AND C_DEL = 0"

definition on_leaf :: "mem \<Rightarrow> nat \<Rightarrow> tree \<Rightarrow> 'x cursor \<Rightarrow> bool" where
  "on_leaf m h t mc \<longleftrightarrow>
     (\<exists>q \<in> set (level m t h). on_page t q mc \<and> unat (top_ki mc) \<le> width m (subtree t q))"

lemma on_leaf_flag [simp]:
  "on_leaf m h t (set_flag f mc) = on_leaf m h t mc" "on_leaf m h t (clear_flag f mc) = on_leaf m h t mc"
  by (simp_all add: on_leaf_def)

lemma clear_dup_plain [simp]: "cu_xcursor mc = None \<Longrightarrow> clear_dup S mc = mc"
  unfolding clear_dup_def by (metis (no_types, lifting) cursor.surjective cursor.update_convs(10) option.map(1))

context page_reader
begin

definition cursor_ok :: "nat \<Rightarrow> tree \<Rightarrow> 'x cursor \<Rightarrow> bool" where
  "cursor_ok h t mc \<longleftrightarrow>
     plain mc \<and> rooted t mc \<and> fresh_root t mc \<and> (flag_set C_INITIALIZED mc \<longrightarrow> on_leaf (env_mem E) h t mc)"

lemma fresh_root_on_page: "on_page t q mc \<Longrightarrow> fresh_root t mc"
  using on_page_fields [of t q mc] by (cases q) (auto simp: fresh_root_def follows_def)

lemma cursor_okI:
  assumes "cursor_ok h t mc" "same_table mc mc'" "cu_flags mc' AND C_DEL = 0" "on_leaf (env_mem E) h t mc'"
  shows "cursor_ok h t mc'"
  using assms rooted_cong [of mc' mc t] fresh_root_on_page [of t _ mc']
  by (auto simp: cursor_ok_def plain_def same_table_def on_leaf_def)

subsection \<open>Reading the item under the cursor\<close>

lemma node_read_item:
  assumes "item_ok (env_mem E) at a node" "like T"
  obtains T' where "mdbx_node_read E node (pp_txnid4chk E a) T = Some (0, T', node_value (env_mem E) at node)" "like T'"
proof (cases "node_flags (env_mem E) node AND F_BIGDATA = F_BIGDATA")
  case True
  then obtain b where b: "at (node_largedata_pgno (env_mem E) node) = Some b" "mp_txnid (env_mem E) b \<le> pp_txnid4chk E a"
    using assms(1) by (auto simp: item_ok_def pp_txnid4chk_def split: option.splits)
  obtain T' where "mdbx_page_get E (node_largedata_pgno (env_mem E) node) (pp_txnid4chk E a) T = Some (0, b, T')" "like T'"
    using get [OF assms(2) b] by blast
  then show ?thesis using that True b(1) by (simp add: mdbx_node_read_def node_value_def Let_def)
next
  case False
  then show ?thesis using that [OF _ assms(2)] by (simp add: mdbx_node_read_def node_value_def Let_def)
qed

lemma leaf_at:
  assumes "tree_ok (env_mem E) at h t" "q \<in> set (level (env_mem E) t h)"
  shows "IS_LEAF (env_mem E) (page_of (subtree t q))" "\<not> IS_LEAF2 (env_mem E) (page_of (subtree t q))"
    "\<not> IS_BRANCH (env_mem E) (page_of (subtree t q))"
    "i < width (env_mem E) (subtree t q) \<Longrightarrow> item_ok (env_mem E) at (page_of (subtree t q)) (page_node (env_mem E) (page_of (subtree t q)) i)"
    "0 < width (env_mem E) (subtree t q)"
  using tree_ok_leaf [of "env_mem E" at "subtree t q"] tree_ok_nonempty subtree_ok [OF assms] by auto

lemma read_item:
  assumes "tree_ok (env_mem E) at h t" "q \<in> set (level (env_mem E) t h)" "i < width (env_mem E) (subtree t q)"
    and "on_page t q mc" "top_ki mc = of_nat i" "like T"
  obtains T' where "like T'" "read_here E S move key data T mc =
      Some (0, T', mc, map_option (\<lambda>_. item_key_of (env_mem E) t (q @ [i])) key,
            map_option (\<lambda>_. item_value_of (env_mem E) at t (q @ [i])) data)"
proof -
  let ?m = "env_mem E" and ?a = "page_of (subtree t q)"
  note leaf = leaf_at [OF assms(1,2)]
  have ki: "unat (top_ki mc) = i" using index_word [OF less_imp_le [OF assms(3)]] assms(5) by simp
  have node: "item_node_of ?m t (q @ [i]) = page_node ?m ?a i" by (simp add: item_node_of_def)
  have dups: "\<not> has_dups ?m (page_node ?m ?a i)" using leaf(4) [OF assms(3)] by (simp add: item_ok_def)
  obtain T' where T': "mdbx_node_read E (page_node ?m ?a i) (pp_txnid4chk E ?a) T = Some (0, T', node_value ?m at (page_node ?m ?a i))"
    "like T'" by (rule node_read_item [OF leaf(4) [OF assms(3)] assms(6)])
  have key: "get_key_optional ?m (page_node ?m ?a i) key = map_option (\<lambda>_. item_key_of ?m t (q @ [i])) key"
    by (simp add: get_key_optional_def item_key_of_def node)
  show ?thesis
  proof (cases data)
    case None
    then show ?thesis using that [OF assms(6)] leaf(2) dups
      by (simp add: read_here_def on_page_fields(5) [OF assms(4)] ki key Let_def)
  next
    case (Some d)
    then show ?thesis using that [OF T'(2)] T'(1) leaf(2) dups
      by (simp add: read_here_def on_page_fields(5) [OF assms(4)] ki key item_value_of_def node Let_def)
  qed
qed

subsection \<open>First and last\<close>

lemma search_edge:
  assumes ok: "tree_ok (env_mem E) at h t" "h < CURSOR_STACK" "cursor_ok h t mc" "like T"
    and flags: "flags = MDBX_PS_FIRST \<and> q = hd (level (env_mem E) t h) \<or> flags = MDBX_PS_LAST \<and> q = last (level (env_mem E) t h)"
  obtains T' mc' where "mdbx_page_search E key flags T mc = Some (0, T', clear_flag C_EOF (set_flag C_INITIALIZED mc'))"
    "like T'" "on_page t q mc'" "same_but_place mc mc'"
proof -
  let ?m = "env_mem E"
  have q: "q \<in> set (level ?m t h)" using flags level_nonempty [OF ok(1), of h] by auto
  have down: "\<exists>T'' mc''. search_down E key flags T' mc' = Some (0, T'', mc'') \<and> like T'' \<and> on_page t q mc'' \<and> same_but_place mc' mc''"
    if mc': "like T'" "on_page t [] mc'" "same_but_place mc mc'" "cu_ki mc' = cu_ki mc" "cu_pg mc' = (cu_pg mc)(0 := page_of t)" for T' mc'
  proof -
    have old: "old_path t h [] mc'" if "flag_set C_INITIALIZED mc'"
    proof -
      have "on_leaf ?m h t mc"
        using ok(3) that same_but_place_fields(7) [OF mc'(3)] by (simp add: cursor_ok_def)
      then obtain p where p: "p \<in> set (level ?m t h)" "on_page t p mc" by (auto simp: on_leaf_def)
      have "cu_pg mc 0 = page_of t" using on_page_fields [OF p(2)] by (cases p) (auto simp: follows_def)
      then have "cu_pg mc' = cu_pg mc" unfolding mc'(5) by (simp add: fun_upd_idem)
      then show ?thesis using p on_page_fields [OF p(2)] level_length [OF p(1)] mc'(4)
        by (auto simp: old_path_def follows_def intro!: bexI [of _ p])
    qed
    from flags show ?thesis
    proof
      assume "flags = MDBX_PS_FIRST \<and> q = hd (level ?m t h)"
      then show ?thesis using search_down_first [OF ok(1,2), of 0 mc' T' key] mc'(1,2) by simp
    next
      assume "flags = MDBX_PS_LAST \<and> q = last (level ?m t h)"
      then show ?thesis using search_down_last [OF ok(1,2), of 0 mc' T' key] mc'(1,2) old by simp
    qed
  qed
  have f: "flags AND MDBX_PS_MODIFY = 0" "flags AND MDBX_PS_ROOTONLY = 0"
    using flags by (auto simp: MDBX_PS_FIRST_def MDBX_PS_LAST_def MDBX_PS_MODIFY_def MDBX_PS_ROOTONLY_def)
  show ?thesis
    by (rule page_search_down [where Q = "\<lambda>r. r = q", OF ok(1) _ _ ok(4) f])
      (use ok(3) that down q in \<open>auto simp: cursor_ok_def\<close>)
qed

text \<open>The cursor comes to an item, or there is none.\<close>

definition arrives ::
    "nat \<Rightarrow> tree \<Rightarrow> 'x cursor \<Rightarrow> mdbx_val option \<Rightarrow> mdbx_val option \<Rightarrow> nat list \<Rightarrow> 'x moved option \<Rightarrow> bool" where
  "arrives h t mc key data p r \<longleftrightarrow>
     (\<exists>T' mc'. r = Some (0, T', mc', map_option (\<lambda>_. item_key_of (env_mem E) t p) key,
                         map_option (\<lambda>_. item_value_of (env_mem E) at t p) data) \<and>
        like T' \<and> cursor_ok h t mc' \<and> same_table mc mc' \<and> flag_set C_INITIALIZED mc' \<and> at_item t p mc' \<and>
        (flag_set C_EOF mc' \<longrightarrow> adjacent (env_mem E) Right t p = None))"

definition misses ::
    "nat \<Rightarrow> tree \<Rightarrow> 'x cursor \<Rightarrow> mdbx_val option \<Rightarrow> mdbx_val option \<Rightarrow> 'x moved option \<Rightarrow> bool" where
  "misses h t mc key data r \<longleftrightarrow>
     (\<exists>T' mc'. r = Some (error_code MDBX_NOTFOUND, T', mc', key, data) \<and> like T' \<and> cursor_ok h t mc' \<and> same_table mc mc')"

lemma read_arrives:
  assumes "tree_ok (env_mem E) at h t" "q \<in> set (level (env_mem E) t h)" "i < width (env_mem E) (subtree t q)"
    and "on_page t q mc1" "top_ki mc1 = of_nat i" "like T"
    and "cursor_ok h t mc" "same_table mc mc1" "cu_flags mc1 AND C_DEL = 0" "flag_set C_INITIALIZED mc1"
    and "flag_set C_EOF mc1 \<Longrightarrow> adjacent (env_mem E) Right t (q @ [i]) = None"
  shows "arrives h t mc key data (q @ [i]) (read_here E S move key data T mc1)"
proof -
  obtain T' where T': "like T'" "read_here E S move key data T mc1 =
      Some (0, T', mc1, map_option (\<lambda>_. item_key_of (env_mem E) t (q @ [i])) key,
            map_option (\<lambda>_. item_value_of (env_mem E) at t (q @ [i])) data)"
    by (rule read_item [OF assms(1-6)])
  have "on_leaf (env_mem E) h t mc1"
    using assms(2-5) index_word [OF less_imp_le [OF assms(3)]] by (auto simp: on_leaf_def intro!: bexI [of _ q])
  then have "cursor_ok h t mc1" by (rule cursor_okI [OF assms(7-9)])
  then show ?thesis using T' assms(4,5,8,10,11) by (simp add: arrives_def at_item_snoc)
qed

lemma cursor_first_arrives:
  assumes ok: "tree_ok (env_mem E) at h t" "h < CURSOR_STACK" "cursor_ok h t mc" "like T"
  shows "arrives h t mc key data (hd (positions (env_mem E) h t)) (mdbx_cursor_first E S key data T mc)"
proof -
  let ?m = "env_mem E" and ?q = "hd (level (env_mem E) t h)"
  have q: "?q \<in> set (level ?m t h)" using level_nonempty [OF ok(1), of h] by simp
  note leaf = leaf_at [OF ok(1) q]
  have x: "cu_xcursor mc = None" "cu_flags mc AND C_DEL = 0" using ok(3) by (simp_all add: cursor_ok_def plain_def)
  have pos: "hd (positions ?m h t) = ?q @ [0]" by (rule level_ends(2) [OF ok(1)]) simp
  have fin: "arrives h t mc key data (?q @ [0])
      (read_here E S (dup_first S) key data T' (set_top_ki 0 (clear_flag C_EOF (set_flag C_INITIALIZED mc'))))"
    if "like T'" "on_page t ?q mc'" "same_table mc mc'" "cu_flags mc' AND C_DEL = 0" for T' mc'
    using that by (intro read_arrives [OF ok(1) q leaf(5) _ _ that(1) ok(3)]) (simp_all add: word_flag_cases)
  show ?thesis
  proof (cases "\<not> flag_set C_INITIALIZED mc \<or> cu_top mc \<noteq> 0")
    case True
    obtain T' mc' where s: "mdbx_page_search E None MDBX_PS_FIRST T mc = Some (0, T', clear_flag C_EOF (set_flag C_INITIALIZED mc'))"
        "like T'" "on_page t ?q mc'" "same_but_place mc mc'"
      by (rule search_edge [OF ok, where flags = MDBX_PS_FIRST and q = ?q]) blast+
    let ?mc = "clear_flag C_EOF (set_flag C_INITIALIZED mc')"
    have "on_page t ?q ?mc" using s(3) by simp
    moreover have "same_table mc ?mc" using same_but_place_table [OF s(4)] by simp
    moreover have "cu_flags ?mc AND C_DEL = 0"
      using x(2) same_but_place_fields(1) [OF s(4)] by (simp add: word_flag_cases)
    ultimately have "arrives h t mc key data (?q @ [0])
        (read_here E S (dup_first S) key data T' (set_top_ki 0 (clear_flag C_EOF (set_flag C_INITIALIZED ?mc))))"
      by (rule fin [OF s(2)])
    then show ?thesis using True s(1) x(1) leaf(1) on_page_fields(5) [OF s(3)] unfolding pos
      by (simp add: mdbx_cursor_first_def Let_def)
  next
    case False
    then have "on_leaf ?m h t mc" using ok(3) by (simp add: cursor_ok_def)
    then obtain p where p: "p \<in> set (level ?m t h)" "on_page t p mc" by (auto simp: on_leaf_def)
    then have "h = 0" "p = []" using False on_page_fields(2) [OF p(2)] level_length [OF p(1)] by auto
    then have on: "on_page t ?q mc" using p(2) by simp
    show ?thesis using False fin [OF ok(4) on same_table_refl x(2)] x(1) leaf(1) on_page_fields(5) [OF on] unfolding pos
      by (simp add: mdbx_cursor_first_def Let_def)
  qed
qed

text \<open>\<open>mdbx_cursor_last\<close> marks the end; \<open>mdbx_cursor_prev\<close> relies on the cursor it leaves.\<close>

lemma cursor_last_arrives:
  assumes ok: "tree_ok (env_mem E) at h t" "h < CURSOR_STACK" "cursor_ok h t mc" "like T"
  shows "arrives h t mc key data (last (positions (env_mem E) h t)) (mdbx_cursor_last E S key data T mc)"
proof -
  let ?m = "env_mem E" and ?q = "last (level (env_mem E) t h)"
  have q: "?q \<in> set (level ?m t h)" using level_nonempty [OF ok(1), of h] by simp
  note leaf = leaf_at [OF ok(1) q]
  define w where "w = width ?m (subtree t ?q)"
  have x: "cu_xcursor mc = None" "cu_flags mc AND C_DEL = 0" using ok(3) by (simp_all add: cursor_ok_def plain_def)
  have pos: "last (positions ?m h t) = ?q @ [w - 1]" unfolding w_def by (rule level_ends(1) [OF ok(1)]) simp
  have fin_end: "adjacent ?m Right t (?q @ [w - 1]) = None" using level_adjacent [OF ok(1), of "Suc h"] pos by simp
  have num: "of_nat (page_numkeys ?m (page_of (subtree t ?q))) - 1 = (of_nat (w - 1) :: u16)" "w - 1 < width ?m (subtree t ?q)"
    using leaf(5) by (simp_all add: w_def width_def)
  have fin: "arrives h t mc key data (?q @ [w - 1])
      (read_here E S (dup_last S) key data T' (set_flag (C_INITIALIZED OR C_EOF) (set_top_ki (of_nat (w - 1)) mc')))"
    if "like T'" "on_page t ?q mc'" "same_table mc mc'" "cu_flags mc' AND C_DEL = 0" for T' mc'
    using that fin_end
    by (intro read_arrives [OF ok(1) q num(2) _ _ that(1) ok(3)]) (simp_all add: word_flag_cases or_eq_0_iff del: One_nat_def)
  show ?thesis
  proof (cases "\<not> flag_set C_INITIALIZED mc \<or> cu_top mc \<noteq> 0")
    case True
    obtain T' mc' where s: "mdbx_page_search E None MDBX_PS_LAST T mc = Some (0, T', clear_flag C_EOF (set_flag C_INITIALIZED mc'))"
        "like T'" "on_page t ?q mc'" "same_but_place mc mc'"
      by (rule search_edge [OF ok, where flags = MDBX_PS_LAST and q = ?q]) blast+
    let ?mc = "clear_flag C_EOF (set_flag C_INITIALIZED mc')"
    have "on_page t ?q ?mc" using s(3) by simp
    moreover have "same_table mc ?mc" using same_but_place_table [OF s(4)] by simp
    moreover have "cu_flags ?mc AND C_DEL = 0"
      using x(2) same_but_place_fields(1) [OF s(4)] by (simp add: word_flag_cases)
    ultimately have "arrives h t mc key data (?q @ [w - 1])
        (read_here E S (dup_last S) key data T' (set_flag (C_INITIALIZED OR C_EOF) (set_top_ki (of_nat (w - 1)) ?mc)))"
      by (rule fin [OF s(2)])
    then show ?thesis using True s(1) x(1) leaf(1) on_page_fields(5) [OF s(3)] unfolding pos
      by (simp add: mdbx_cursor_last_def num Let_def)
  next
    case False
    then have "on_leaf ?m h t mc" using ok(3) by (simp add: cursor_ok_def)
    then obtain p where p: "p \<in> set (level ?m t h)" "on_page t p mc" by (auto simp: on_leaf_def)
    then have "h = 0" "p = []" using False on_page_fields(2) [OF p(2)] level_length [OF p(1)] by auto
    then have on: "on_page t ?q mc" using p(2) by simp
    show ?thesis using False fin [OF ok(4) on same_table_refl x(2)] x(1) leaf(1) on_page_fields(5) [OF on] unfolding pos
      by (simp add: mdbx_cursor_last_def num Let_def)
  qed
qed

subsection \<open>Next and previous\<close>

text \<open>From index \<open>i\<close> of a leaf; the cursor may be behind the last item of the leaf.\<close>

definition here :: "tree \<Rightarrow> nat list \<Rightarrow> nat \<Rightarrow> nat list" where
  "here t q i = q @ [min i (width (env_mem E) (subtree t q) - 1)]"

lemma sibling_leaf:
  assumes ok: "tree_ok (env_mem E) at h t" "h < CURSOR_STACK" "cursor_ok h t mc" "like T"
    and q: "q \<in> set (level (env_mem E) t h)" "on_page t q mc1" "same_table mc mc1" "cu_flags mc1 AND C_DEL = 0"
    and init: "flag_set C_INITIALIZED mc1" "\<not> flag_set C_EOF mc1"
  shows "case adjacent (env_mem E) d t q of
      None \<Rightarrow> mdbx_cursor_sibling E d T mc1 = Some (error_code MDBX_NOTFOUND, T, mc1)
    | Some q' \<Rightarrow> \<exists>T' mc2. mdbx_cursor_sibling E d T mc1 = Some (0, T', mc2) \<and> like T' \<and>
        IS_LEAF (env_mem E) (top_page mc2) \<and> q' \<in> set (level (env_mem E) t h) \<and> on_page t q' mc2 \<and>
        arrives h t mc key data (q' @ [edge d (width (env_mem E) (subtree t q'))]) (read_here E S move key data T' mc2)"
proof (cases "adjacent (env_mem E) d t q")
  case None
  then show ?thesis using sibling_moves [OF ok(1,2) q(1) order_refl q(2) ok(4), of d] by simp
next
  case (Some q')
  have q': "q' \<in> set (level (env_mem E) t h)" by (rule adjacent_in_level [OF ok(1) _ q(1) Some]) simp
  note leaf = leaf_at [OF ok(1) q']
  obtain T' mc2 where s: "mdbx_cursor_sibling E d T mc1 = Some (0, T', mc2)" "like T'" "on_page t q' mc2"
      "top_ki mc2 = of_nat (edge d (width (env_mem E) (subtree t q')))" "same_but_place mc1 mc2"
    using sibling_moves [OF ok(1,2) q(1) order_refl q(2) ok(4), of d] Some by auto
  have "edge d (width (env_mem E) (subtree t q')) < width (env_mem E) (subtree t q')" using leaf(5) by (cases d) simp_all
  then have "arrives h t mc key data (q' @ [edge d (width (env_mem E) (subtree t q'))]) (read_here E S move key data T' mc2)"
    using init same_but_place_fields [OF s(5)] q(4) same_table_trans [OF q(3) same_but_place_table [OF s(5)]]
    by (intro read_arrives [OF ok(1) q' _ s(3,4,2) ok(3)]) simp_all
  then show ?thesis using Some s(1-3) leaf(1) on_page_fields(5) [OF s(3)] q' by simp
qed

lemma next_item_moves:
  assumes ok: "tree_ok (env_mem E) at h t" "h < CURSOR_STACK" "cursor_ok h t mc" "like T"
    and q: "q \<in> set (level (env_mem E) t h)" "on_page t q mc1" "same_table mc mc1" "cu_flags mc1 AND C_DEL = 0"
    and init: "flag_set C_INITIALIZED mc1" "\<not> flag_set C_EOF mc1"
    and i: "top_ki mc1 = of_nat i" "i \<le> width (env_mem E) (subtree t q)"
  shows "case adjacent (env_mem E) Right t (here t q i) of
      None \<Rightarrow> misses h t mc key data (next_item E S key data T mc1)
    | Some p \<Rightarrow> arrives h t mc key data p (next_item E S key data T mc1)"
proof -
  let ?m = "env_mem E"
  define w where "w = width ?m (subtree t q)"
  note leaf = leaf_at [OF ok(1) q(1)]
  have w: "0 < w" using leaf(5) by (simp add: w_def)
  have ki: "unat (top_ki mc1) = i" using index_word [OF i(2)] i(1) by simp
  have num: "page_numkeys ?m (top_page mc1) = w" by (simp add: on_page_fields(5) [OF q(2)] w_def width_def)
  have del: "\<not> flag_set C_DEL mc1" using q(4) by (simp add: flag_set_def)
  show ?thesis
  proof (cases "i + 1 \<ge> w")
    case True
    let ?mc = "set_top_ki (of_nat w - 1) mc1"
    have here: "here t q i = q @ [w - 1]" using True by (simp add: here_def w_def)
    have word: "of_nat w - 1 = (of_nat (w - 1) :: u16)" using w by simp
    have mc: "on_page t q ?mc" "same_table mc ?mc" "cu_flags ?mc AND C_DEL = 0" "flag_set C_INITIALIZED ?mc" "\<not> flag_set C_EOF ?mc"
      using q init by simp_all
    have sib: "case adjacent ?m Right t q of
        None \<Rightarrow> mdbx_cursor_sibling E Right T ?mc = Some (error_code MDBX_NOTFOUND, T, ?mc)
      | Some q' \<Rightarrow> \<exists>T' mc2. mdbx_cursor_sibling E Right T ?mc = Some (0, T', mc2) \<and> like T' \<and>
          IS_LEAF ?m (top_page mc2) \<and> q' \<in> set (level ?m t h) \<and> on_page t q' mc2 \<and>
          arrives h t mc key data (q' @ [0]) (read_here E S (dup_first S) key data T' mc2)"
      using sibling_leaf [OF ok q(1) mc, where d = Right and key = key and data = data and S = S and move = "dup_first S"]
      unfolding edge.simps .
    have code: "next_item E S key data T mc1 = do {
        (rc, T, mc) \<leftarrow> mdbx_cursor_sibling E Right T ?mc;
        if rc \<noteq> 0 then Some (rc, T, set_flag C_EOF mc, key, data)
        else if \<not> IS_LEAF ?m (top_page mc) then Some (error_code MDBX_CORRUPTED, T, mc, key, data)
        else read_here E S (dup_first S) key data T mc}"
      using True del by (simp add: next_item_def num ki Let_def)
    show ?thesis
    proof (cases "adjacent ?m Right t q")
      case None
      have "on_leaf ?m h t ?mc"
        using q(1) mc(1) w index_word [of "w - 1" ?m "subtree t q"] by (auto simp: on_leaf_def word w_def intro!: bexI [of _ q])
      then have "cursor_ok h t (set_flag C_EOF ?mc)"
        using mc(2,3) by (intro cursor_okI [OF ok(3)]) (simp_all add: word_flag_cases)
      then have "misses h t mc key data (next_item E S key data T mc1)"
        using None sib mc(2) ok(4) by (simp add: code misses_def error_code.simps)
      then show ?thesis using None w by (simp add: here adjacent_snoc w_def)
    next
      case (Some q')
      then show ?thesis using sib w by (auto simp: here adjacent_snoc w_def code)
    qed
  next
    case False
    have here: "adjacent ?m Right t (here t q i) = Some (q @ [i + 1])"
      using False by (auto simp: here_def adjacent_snoc w_def min_def)
    have word: "top_ki mc1 + 1 = of_nat (i + 1)" using i(1) by simp
    have "arrives h t mc key data (q @ [i + 1]) (read_here E S (dup_first S) key data T (set_top_ki (top_ki mc1 + 1) mc1))"
      unfolding word using False q init
      by (intro read_arrives [OF ok(1) q(1) _ _ _ ok(4,3)]) (simp_all add: w_def)
    then show ?thesis
      using False del leaf(1) num by (simp add: here next_item_def ki Let_def on_page_fields(5) [OF q(2)])
  qed
qed

lemma prev_item_moves:
  assumes ok: "tree_ok (env_mem E) at h t" "h < CURSOR_STACK" "cursor_ok h t mc" "like T"
    and q: "q \<in> set (level (env_mem E) t h)" "on_page t q mc1" "same_table mc mc1" "cu_flags mc1 AND C_DEL = 0"
    and init: "flag_set C_INITIALIZED mc1"
    and i: "top_ki mc1 = of_nat i" "i \<le> width (env_mem E) (subtree t q)"
  shows "case adjacent (env_mem E) Left t (q @ [i]) of
      None \<Rightarrow> misses h t mc key data (prev_item E S key data T mc1)
    | Some p \<Rightarrow> arrives h t mc key data p (prev_item E S key data T mc1)"
proof -
  let ?m = "env_mem E" and ?mc = "clear_flag (C_EOF OR C_DEL) mc1"
  note leaf = leaf_at [OF ok(1) q(1)]
  have ki: "unat (top_ki mc1) = i" using index_word [OF i(2)] i(1) by simp
  have mc: "on_page t q ?mc" "same_table mc ?mc" "cu_flags ?mc AND C_DEL = 0" "flag_set C_INITIALIZED ?mc" "\<not> flag_set C_EOF ?mc"
    using q init by (simp_all add: flag_eval)
  show ?thesis
  proof (cases "i = 0")
    case True
    then have top: "top_ki mc1 = 0" using i(1) by simp
    note sib = sibling_leaf [OF ok q(1) mc, where d = Left and key = key and data = data and S = S and move = "dup_last S"]
    have code: "prev_item E S key data T mc1 = do {
        (rc, T, mc) \<leftarrow> mdbx_cursor_sibling E Left T ?mc;
        if rc \<noteq> 0 then Some (rc, T, mc, key, data)
        else if \<not> IS_LEAF ?m (top_page mc) then Some (error_code MDBX_CORRUPTED, T, mc, key, data)
        else read_here E S (dup_last S) key data T mc}"
      using top by (simp add: prev_item_def Let_def)
    have "on_leaf ?m h t ?mc" using q(1,2) i(2) ki by (auto simp: on_leaf_def)
    then have ok': "cursor_ok h t ?mc" by (rule cursor_okI [OF ok(3) mc(2,3)])
    show ?thesis
    proof (cases "adjacent ?m Left t q")
      case None
      then have "misses h t mc key data (prev_item E S key data T mc1)"
        using sib mc(2) ok(4) ok' by (simp add: code misses_def error_code.simps)
      then show ?thesis using None True by (simp add: adjacent_snoc)
    next
      case (Some q')
      then show ?thesis using sib True by (auto simp: adjacent_snoc code)
    qed
  next
    case False
    have word: "top_ki mc1 - 1 = of_nat (i - 1)" using i(1) False by simp
    have nz: "top_ki mc1 \<noteq> 0" using ki False by auto
    have "arrives h t mc key data (q @ [i - 1]) (read_here E S (dup_last S) key data T (set_top_ki (top_ki mc1 - 1) ?mc))"
      unfolding word using False i(2) mc
      by (intro read_arrives [OF ok(1) q(1) _ _ _ ok(4,3)]) simp_all
    then show ?thesis
      using False nz leaf(1) by (simp add: adjacent_snoc prev_item_def Let_def on_page_fields(5) [OF q(2)])
  qed
qed

text \<open>The two moves from an item.\<close>

lemma at_itemD:
  assumes "p \<in> set (positions (env_mem E) h t)" "at_item t p mc"
  obtains q i where "p = q @ [i]" "q \<in> set (level (env_mem E) t h)" "i < width (env_mem E) (subtree t q)"
    "on_page t q mc" "top_ki mc = of_nat i"
proof -
  obtain q i where "p = q @ [i]" "q \<in> set (level (env_mem E) t h)" "i < width (env_mem E) (subtree t q)"
    by (rule level_SucE [OF assms(1)])
  then show ?thesis using assms(2) that [of q i] by (simp add: at_item_snoc)
qed

lemma cursor_next_moves:
  assumes ok: "tree_ok (env_mem E) at h t" "h < CURSOR_STACK" "cursor_ok h t mc" "like T"
    and p: "p \<in> set (positions (env_mem E) h t)" "at_item t p mc" "flag_set C_INITIALIZED mc"
    and eof: "flag_set C_EOF mc \<longrightarrow> adjacent (env_mem E) Right t p = None"
  shows "case adjacent (env_mem E) Right t p of
      None \<Rightarrow> misses h t mc key data (mdbx_cursor_next E S op key data T mc)
    | Some p' \<Rightarrow> arrives h t mc key data p' (mdbx_cursor_next E S op key data T mc)"
proof -
  let ?m = "env_mem E" and ?mc = "clear_flag C_EOF mc"
  obtain q i where q: "p = q @ [i]" "q \<in> set (level ?m t h)" "i < width ?m (subtree t q)" "on_page t q mc" "top_ki mc = of_nat i"
    by (rule at_itemD [OF p(1,2)])
  have ki: "unat (top_ki mc) = i" using index_word [OF less_imp_le [OF q(3)]] q(5) by simp
  have x: "\<not> flag_set C_DEL mc" "db_flags (cu_db mc) AND ucast MDBX_DUPSORT = 0" "cu_flags mc AND C_DEL = 0"
    using ok(3) by (simp_all add: cursor_ok_def plain_def flag_set_def)
  show ?thesis
  proof (cases "flag_set C_EOF mc \<and> width ?m (subtree t q) \<le> i + 1")
    case True
    then have "mdbx_cursor_next E S op key data T mc = Some (error_code MDBX_NOTFOUND, T, mc, key, data)"
      using x(1) p(3) by (simp add: mdbx_cursor_next_def ki on_page_fields(5) [OF q(4)] width_def)
    then show ?thesis using True eof ok(3,4) by (simp add: misses_def)
  next
    case False
    have here: "here t q i = p" using q(1,3) by (simp add: here_def)
    have "\<not> (flag_set C_EOF mc \<and> unat (top_ki mc) + 1 \<ge> page_numkeys ?m (top_page mc))"
      using False by (simp add: ki on_page_fields(5) [OF q(4)] width_def)
    then have code: "mdbx_cursor_next E S op key data T mc = next_item E S key data T ?mc"
      using x(1,2) p(3) by (auto simp: mdbx_cursor_next_def Let_def)
    show ?thesis unfolding code here [symmetric]
      by (rule next_item_moves [OF ok q(2)]) (use q x p(3) in \<open>simp_all add: flag_eval\<close>)
  qed
qed

lemma cursor_prev_moves:
  assumes ok: "tree_ok (env_mem E) at h t" "h < CURSOR_STACK" "cursor_ok h t mc" "like T"
    and p: "p \<in> set (positions (env_mem E) h t)" "at_item t p mc" "flag_set C_INITIALIZED mc"
  shows "case adjacent (env_mem E) Left t p of
      None \<Rightarrow> misses h t mc key data (mdbx_cursor_prev E S op key data T mc)
    | Some p' \<Rightarrow> arrives h t mc key data p' (mdbx_cursor_prev E S op key data T mc)"
proof -
  let ?m = "env_mem E"
  obtain q i where q: "p = q @ [i]" "q \<in> set (level ?m t h)" "i < width ?m (subtree t q)" "on_page t q mc" "top_ki mc = of_nat i"
    by (rule at_itemD [OF p(1,2)])
  have x: "\<not> flag_set C_DEL mc" "db_flags (cu_db mc) AND ucast MDBX_DUPSORT = 0" "cu_flags mc AND C_DEL = 0"
    using ok(3) by (simp_all add: cursor_ok_def plain_def flag_set_def)
  have code: "mdbx_cursor_prev E S op key data T mc = prev_item E S key data T mc"
    using x(1,2) p(3) by (simp add: mdbx_cursor_prev_def)
  show ?thesis unfolding code q(1)
    by (rule prev_item_moves [OF ok q(2,4) _ x(3) p(3) q(5)]) (use q(3) in simp_all)
qed

text \<open>From a cursor without a place they go to the first and to the last item.\<close>

lemma fresh_next_arrives:
  assumes ok: "tree_ok (env_mem E) at h t" "h < CURSOR_STACK" "cursor_ok h t mc" "like T" and "\<not> flag_set C_INITIALIZED mc"
  shows "arrives h t mc key data (hd (positions (env_mem E) h t)) (mdbx_cursor_next E S op key data T mc)"
proof -
  have "\<not> flag_set C_DEL mc" using ok(3) by (simp add: cursor_ok_def plain_def flag_set_def)
  then have "mdbx_cursor_next E S op key data T mc = mdbx_cursor_first E S key data T mc"
    using assms(5) by (simp add: mdbx_cursor_next_def)
  then show ?thesis using cursor_first_arrives [OF ok] by simp
qed

lemma arrives_weaken:
  assumes "arrives h t mc1 (map_option (\<lambda>_. k) key) (map_option (\<lambda>_. d) data) p r" "same_table mc mc1"
  shows "arrives h t mc key data p r"
  using assms same_table_trans [OF assms(2)] by (auto simp: arrives_def option.map_comp o_def)

lemma fresh_prev_arrives:
  assumes ok: "tree_ok (env_mem E) at h t" "h < CURSOR_STACK" "cursor_ok h t mc" "like T" and fresh: "\<not> flag_set C_INITIALIZED mc"
  shows "arrives h t mc key data (last (positions (env_mem E) h t)) (mdbx_cursor_prev E S op key data T mc)"
proof -
  let ?m = "env_mem E" and ?p = "last (positions (env_mem E) h t)"
  have x: "\<not> flag_set C_DEL mc" using ok(3) by (simp add: cursor_ok_def plain_def flag_set_def)
  have p: "?p \<in> set (positions ?m h t)" using level_nonempty [OF ok(1), of "Suc h"] by simp
  obtain T' mc' where l: "mdbx_cursor_last E S key data T mc = Some (0, T', mc', map_option (\<lambda>_. item_key_of ?m t ?p) key,
        map_option (\<lambda>_. item_value_of ?m at t ?p) data)"
      "like T'" "cursor_ok h t mc'" "same_table mc mc'" "flag_set C_INITIALIZED mc'" "at_item t ?p mc'"
    using cursor_last_arrives [OF ok, of key data S] unfolding arrives_def by (elim exE conjE) (rule that)
  obtain q i where q: "?p = q @ [i]" "q \<in> set (level ?m t h)" "i < width ?m (subtree t q)" "on_page t q mc'" "top_ki mc' = of_nat i"
    by (rule at_itemD [OF p l(6)])
  let ?mc = "set_top_ki (top_ki mc' + 1) mc'"
  have x': "db_flags (cu_db mc') AND ucast MDBX_DUPSORT = 0" "cu_flags mc' AND C_DEL = 0"
    using l(3) by (simp_all add: cursor_ok_def plain_def)
  have "mdbx_cursor_prev E S op key data T mc = prev_item E S (map_option (\<lambda>_. item_key_of ?m t ?p) key)
      (map_option (\<lambda>_. item_value_of ?m at t ?p) data) T' ?mc"
    using x x'(1) l(1) fresh by (simp add: mdbx_cursor_prev_def)
  moreover have "arrives h t mc' (map_option (\<lambda>_. item_key_of ?m t ?p) key) (map_option (\<lambda>_. item_value_of ?m at t ?p) data) ?p
      (prev_item E S (map_option (\<lambda>_. item_key_of ?m t ?p) key) (map_option (\<lambda>_. item_value_of ?m at t ?p) data) T' ?mc)"
  proof -
    have "case adjacent ?m Left t (q @ [i + 1]) of
        None \<Rightarrow> misses h t mc' (map_option (\<lambda>_. item_key_of ?m t ?p) key) (map_option (\<lambda>_. item_value_of ?m at t ?p) data)
          (prev_item E S (map_option (\<lambda>_. item_key_of ?m t ?p) key) (map_option (\<lambda>_. item_value_of ?m at t ?p) data) T' ?mc)
      | Some p \<Rightarrow> arrives h t mc' (map_option (\<lambda>_. item_key_of ?m t ?p) key) (map_option (\<lambda>_. item_value_of ?m at t ?p) data) p
          (prev_item E S (map_option (\<lambda>_. item_key_of ?m t ?p) key) (map_option (\<lambda>_. item_value_of ?m at t ?p) data) T' ?mc)"
      by (rule prev_item_moves [OF ok(1,2) l(3,2) q(2)]) (use q x'(2) l(5) in simp_all)
    then show ?thesis by (simp add: adjacent_snoc q(1))
  qed
  ultimately show ?thesis using arrives_weaken [OF _ l(4)] by simp
qed

end

end
