(* ===== verification/Table_Get.thy ===== *)
theory Table_Get
  imports Cursor_Ops
begin

text \<open>
  The calls of the library that read a table: \<open>mdbx_cursor_get\<close> with all its operations,
  \<open>mdbx_cursor_on_first\<close>, \<open>_on_last\<close>, \<open>_eof\<close>, \<open>_count\<close>, the initialisation of a cursor and the lookups
  \<open>mdbx_get\<close>, \<open>mdbx_get_ex\<close>, \<open>mdbx_get_equal_or_great\<close> of \<open>mdbx.c\<close>.
\<close>

subsection \<open>The current item\<close>

definition get_current ::
    "cursor_env \<Rightarrow> 'x dup_ops \<Rightarrow> mdbx_val option \<Rightarrow> mdbx_val option \<Rightarrow> page_txn \<Rightarrow> 'x cursor \<Rightarrow> 'x moved option" where
  "get_current E S key data T mc =
     (let m = env_mem E; mp = top_page mc; nkeys = page_numkeys m mp; ki = unat (top_ki mc)
      in if \<not> flag_set C_INITIALIZED mc then Some (error_code MDBX_ENODATA, T, mc, key, data)
         else if ki \<ge> nkeys then Some (error_code MDBX_NOTFOUND, T, set_flag C_EOF (set_top_ki (of_nat nkeys) mc), key, data)
         else if IS_LEAF2 m mp
         then (if \<not> flag_set C_SUB mc then Some (error_code MDBX_CORRUPTED, T, mc, key, data)
               else map_option (\<lambda>k. (0, T, mc, Some (leaf2_key E mc ki), data)) key)
         else (let node = page_node m mp ki; key = get_key_optional m node key
               in case data of
                    None \<Rightarrow> Some (0, T, mc, key, data)
                  | Some _ \<Rightarrow>
                      if has_dups m node
                      then do {
                        x \<leftarrow> cu_xcursor mc;
                        let (rc, mc) = (if dup_initialized S x then (0, mc) else dup_init S node mp mc);
                        if rc \<noteq> 0 then Some (rc, T, mc, key, data)
                        else do {
                          x' \<leftarrow> cu_xcursor mc;
                          (rc, T, x', data) \<leftarrow> (if dup_initialized S x then dup_current S T x' data else dup_first S T x' data);
                          Some (rc, T, mc\<lparr>cu_xcursor := Some x'\<rparr>, key, data)
                        }
                      }
                      else do {
                        (rc, T, v) \<leftarrow> mdbx_node_read E node (pp_txnid4chk E mp) T;
                        Some (rc, T, mc, key, Some v)
                      }))"

subsection \<open>The operations of the inner cursor\<close>

text \<open>The out parameter of a move of the inner cursor is its key.\<close>

definition as_dup :: "unit moved option \<Rightarrow> (int \<times> page_txn \<times> dup_cursor \<times> mdbx_val option) option" where
  "as_dup r = map_option (\<lambda>(rc, T, x, key, data). (rc, T, x, key)) r"

text \<open>
  \<open>mdbx_cursor_get\<close> on the inner cursor with \<open>MDBX_GET_CURRENT\<close>: the transaction is checked, and the
  flag \<open>C_DEL\<close> is cleared at the end.
\<close>

definition MDBX_MC_LIVE :: u32 where "MDBX_MC_LIVE = 0xFE05D5B1"
definition MDBX_MC_READY4CLOSE :: u32 where "MDBX_MC_READY4CLOSE = 0x2817A047"

text \<open>\<open>check_txn\<close>, for a transaction with a mapped environment and a valid signature and owner.\<close>

definition check_txn :: "u32 \<Rightarrow> page_txn \<Rightarrow> int" where
  "check_txn bad_bits T = (if tx_flags T AND bad_bits \<noteq> 0 then error_code MDBX_BAD_TXN else 0)"

definition check_signature :: "'x cursor \<Rightarrow> int" where
  "check_signature mc =
     (if cu_signature mc \<noteq> MDBX_MC_LIVE
      then if cu_signature mc = MDBX_MC_READY4CLOSE then error_code MDBX_EINVAL else error_code MDBX_EBADSIGN
      else 0)"

definition inner_current :: "cursor_env \<Rightarrow> dup_cursor dup_move" where
  "inner_current E T x key =
     (if check_signature x \<noteq> 0 then Some (check_signature x, T, x, key)
      else if check_txn MDBX_TXN_BLOCKED T \<noteq> 0 then Some (check_txn MDBX_TXN_BLOCKED T, T, x, key)
      else map_option (\<lambda>(rc, T, x, key). (rc, T, if rc = 0 then clear_flag C_DEL x else x, key))
             (as_dup (get_current E no_dups key None T x)))"

definition inner_set_range ::
    "cursor_env \<Rightarrow> page_txn \<Rightarrow> dup_cursor \<Rightarrow> mdbx_val option \<Rightarrow> (bool \<times> int \<times> page_txn \<times> dup_cursor \<times> mdbx_val option) option" where
  "inner_set_range E T x key = do {
     k \<leftarrow> key;
     (exact, rc, T, x, k, data) \<leftarrow> mdbx_cursor_set E no_dups MDBX_SET_RANGE k None T x;
     Some (exact, rc, T, x, Some k)
   }"

definition table_dups :: "cursor_env \<Rightarrow> dup_cursor dup_ops" where
  "table_dups E = \<lparr>dup_init = mdbx_xcursor_init1 E, dup_clear = clear_flag, dup_initialized = flag_set C_INITIALIZED,
     dup_first = (\<lambda>T x k. as_dup (mdbx_cursor_first E no_dups k None T x)),
     dup_last = (\<lambda>T x k. as_dup (mdbx_cursor_last E no_dups k None T x)),
     dup_next = (\<lambda>T x k. as_dup (mdbx_cursor_next E no_dups MDBX_NEXT k None T x)),
     dup_prev = (\<lambda>T x k. as_dup (mdbx_cursor_prev E no_dups MDBX_PREV k None T x)),
     dup_current = inner_current E, dup_set_range = inner_set_range E\<rparr>"

subsection \<open>\<open>mdbx_cursor_get\<close>\<close>

type_synonym table_moved = "int \<times> page_txn \<times> table_cursor \<times> mdbx_val option \<times> mdbx_val option"

text \<open>Fetching a page of duplicates of fixed size (the label \<open>fetchm\<close>).\<close>

definition fetch_multiple :: "cursor_env \<Rightarrow> page_txn \<Rightarrow> table_cursor \<Rightarrow> mdbx_val option \<Rightarrow> table_moved option" where
  "fetch_multiple E T mc key = do {
     x \<leftarrow> cu_xcursor mc;
     let n = page_numkeys (env_mem E) (top_page x);
     Some (0, T, mc\<lparr>cu_xcursor := Some (set_top_ki (of_nat n - 1) x)\<rparr>, key,
           Some \<lparr>iov_base = page_data (top_page x), iov_len = ucast (of_nat n * db_xsize (cu_db x))\<rparr>)
   }"

definition get_multiple :: "cursor_env \<Rightarrow> mdbx_val option \<Rightarrow> mdbx_val option \<Rightarrow> page_txn \<Rightarrow> table_cursor \<Rightarrow> table_moved option" where
  "get_multiple E key data T mc =
     (if data = None \<or> \<not> flag_set C_INITIALIZED mc then Some (error_code MDBX_EINVAL, T, mc, key, data)
      else if db_flags (cu_db mc) AND ucast MDBX_DUPFIXED = 0 then Some (error_code MDBX_INCOMPATIBLE, T, mc, key, data)
      else do {
        x \<leftarrow> cu_xcursor mc;
        if cu_flags x AND (C_INITIALIZED OR C_EOF) \<noteq> C_INITIALIZED then Some (0, T, mc, key, data)
        else fetch_multiple E T mc key
      })"

definition next_multiple :: "cursor_env \<Rightarrow> mdbx_val option \<Rightarrow> mdbx_val option \<Rightarrow> page_txn \<Rightarrow> table_cursor \<Rightarrow> table_moved option" where
  "next_multiple E key data T mc =
     (if data = None then Some (error_code MDBX_EINVAL, T, mc, key, data)
      else if db_flags (cu_db mc) AND ucast MDBX_DUPFIXED = 0 then Some (error_code MDBX_INCOMPATIBLE, T, mc, key, data)
      else do {
        (rc, T, mc, key, data) \<leftarrow> mdbx_cursor_next E (table_dups E) MDBX_NEXT_DUP key data T mc;
        if rc \<noteq> 0 then Some (rc, T, mc, key, data)
        else do {
          x \<leftarrow> cu_xcursor mc;
          if flag_set C_INITIALIZED x then fetch_multiple E T mc key else Some (error_code MDBX_NOTFOUND, T, mc, key, data)
        }
      })"

definition prev_multiple :: "cursor_env \<Rightarrow> mdbx_val option \<Rightarrow> mdbx_val option \<Rightarrow> page_txn \<Rightarrow> table_cursor \<Rightarrow> table_moved option" where
  "prev_multiple E key data T mc =
     (if data = None then Some (error_code MDBX_EINVAL, T, mc, key, data)
      else if db_flags (cu_db mc) AND ucast MDBX_DUPFIXED = 0 then Some (error_code MDBX_INCOMPATIBLE, T, mc, key, data)
      else do {
        (rc, T, mc, key, data) \<leftarrow> (if flag_set C_INITIALIZED mc then Some (0, T, mc, key, data)
                                 else mdbx_cursor_last E (table_dups E) key data T mc);
        if rc \<noteq> 0 then Some (rc, T, mc, key, data)
        else do {
          x \<leftarrow> cu_xcursor mc;
          if flag_set C_INITIALIZED x
          then do {
            (rc, T, x) \<leftarrow> mdbx_cursor_sibling E Left T x;
            let mc = mc\<lparr>cu_xcursor := Some x\<rparr>;
            if rc \<noteq> 0 then Some (rc, T, mc, key, data) else fetch_multiple E T mc key
          }
          else Some (error_code MDBX_NOTFOUND, T, mc, key, data)
        }
      })"

text \<open>\<open>MDBX_FIRST_DUP\<close> and \<open>MDBX_LAST_DUP\<close> (the label \<open>mmove\<close>).\<close>

definition move_within_dups ::
    "cursor_env \<Rightarrow> dup_cursor dup_move \<Rightarrow> mdbx_val option \<Rightarrow> mdbx_val option \<Rightarrow> page_txn \<Rightarrow> table_cursor \<Rightarrow> table_moved option" where
  "move_within_dups E move key data T mc =
     (let m = env_mem E; mp = top_page mc; nkeys = page_numkeys m mp
      in if data = None \<or> \<not> flag_set C_INITIALIZED mc then Some (error_code MDBX_EINVAL, T, mc, key, data)
         else (case cu_xcursor mc of
                 None \<Rightarrow> Some (error_code MDBX_INCOMPATIBLE, T, mc, key, data)
               | Some x \<Rightarrow>
                   if unat (top_ki mc) \<ge> nkeys
                   then Some (error_code MDBX_NOTFOUND, T, set_flag C_EOF (set_top_ki (of_nat nkeys) mc), key, data)
                   else (let node = page_node m mp (unat (top_ki mc))
                         in if \<not> has_dups m node
                            then do {
                              (rc, T, v) \<leftarrow> mdbx_node_read E node (pp_txnid4chk E mp) T;
                              Some (rc, T, mc, get_key_optional m node key, Some v)
                            }
                            else if \<not> flag_set C_INITIALIZED x then Some (error_code MDBX_EINVAL, T, mc, key, data)
                            else do {
                              (rc, T, x, data) \<leftarrow> move T x data;
                              Some (rc, T, mc\<lparr>cu_xcursor := Some x\<rparr>, key, data)
                            })))"

definition set_lowerbound :: "cursor_env \<Rightarrow> mdbx_val \<Rightarrow> mdbx_val \<Rightarrow> page_txn \<Rightarrow> table_cursor \<Rightarrow> table_moved option" where
  "set_lowerbound E key save_data T mc = do {
     (exact, rc, T, mc, key, data) \<leftarrow> mdbx_cursor_set E (table_dups E) MDBX_SET_RANGE key (Some save_data) T mc;
     (exact, rc, T, mc, key, data) \<leftarrow>
       (if rc = 0 \<and> exact
        then (case cu_xcursor mc of
                None \<Rightarrow> Some (exact, rc, T, mc, Some key, data)
              | Some x \<Rightarrow>
                  let mc = clear_flag C_DEL mc
                  in if flag_set C_INITIALIZED x
                     then do {
                       (exact, rc, T, x, data) \<leftarrow> inner_set_range E T x (Some save_data);
                       let mc = mc\<lparr>cu_xcursor := Some x\<rparr>;
                       if rc = error_code MDBX_NOTFOUND
                       then map_option (\<lambda>r. (exact, r)) (mdbx_cursor_next E (table_dups E) MDBX_NEXT_NODUP (Some key) data T mc)
                       else Some (exact, rc, T, mc, Some key, data)
                     }
                     else do {
                       d \<leftarrow> data;
                       dcmp \<leftarrow> dbx_dcmp (cu_dbx mc);
                       cmp \<leftarrow> call_cmp (ce_unaligned_ok E) dcmp (env_mem E) save_data d;
                       if cmp > 0
                       then map_option (\<lambda>r. (cmp = 0, r)) (mdbx_cursor_next E (table_dups E) MDBX_NEXT_NODUP (Some key) data T mc)
                       else Some (cmp = 0, rc, T, mc, Some key, data)
                     })
        else Some (exact, rc, T, mc, Some key, data));
     Some (if rc = 0 \<and> \<not> exact then error_code MDBX_RESULT_TRUE else rc, T, mc, key, data)
   }"

text \<open>The \<open>switch\<close>.\<close>

definition cursor_get_op ::
    "cursor_env \<Rightarrow> cursor_op \<Rightarrow> mdbx_val option \<Rightarrow> mdbx_val option \<Rightarrow> page_txn \<Rightarrow> table_cursor \<Rightarrow> table_moved option" where
  "cursor_get_op E op key data T mc =
     (let S = table_dups E;
          set = (\<lambda>op. case key of
                   None \<Rightarrow> Some (error_code MDBX_EINVAL, T, mc, key, data)
                 | Some k \<Rightarrow> map_option (\<lambda>(exact, rc, T, mc, k, data). (rc, T, mc, Some k, data)) (mdbx_cursor_set E S op k data T mc));
          set_both = (if data = None then Some (error_code MDBX_EINVAL, T, mc, key, data)
                      else if cu_xcursor mc = None then Some (error_code MDBX_INCOMPATIBLE, T, mc, key, data)
                      else set op)
      in case op of
           MDBX_GET_CURRENT \<Rightarrow> get_current E S key data T mc
         | MDBX_GET_BOTH \<Rightarrow> set_both
         | MDBX_GET_BOTH_RANGE \<Rightarrow> set_both
         | MDBX_SET \<Rightarrow> set op
         | MDBX_SET_KEY \<Rightarrow> set op
         | MDBX_SET_RANGE \<Rightarrow> set op
         | MDBX_GET_MULTIPLE \<Rightarrow> get_multiple E key data T mc
         | MDBX_NEXT_MULTIPLE \<Rightarrow> next_multiple E key data T mc
         | MDBX_PREV_MULTIPLE \<Rightarrow> prev_multiple E key data T mc
         | MDBX_NEXT \<Rightarrow> mdbx_cursor_next E S op key data T mc
         | MDBX_NEXT_DUP \<Rightarrow> mdbx_cursor_next E S op key data T mc
         | MDBX_NEXT_NODUP \<Rightarrow> mdbx_cursor_next E S op key data T mc
         | MDBX_PREV \<Rightarrow> mdbx_cursor_prev E S op key data T mc
         | MDBX_PREV_DUP \<Rightarrow> mdbx_cursor_prev E S op key data T mc
         | MDBX_PREV_NODUP \<Rightarrow> mdbx_cursor_prev E S op key data T mc
         | MDBX_FIRST \<Rightarrow> mdbx_cursor_first E S key data T mc
         | MDBX_LAST \<Rightarrow> mdbx_cursor_last E S key data T mc
         | MDBX_FIRST_DUP \<Rightarrow> move_within_dups E (dup_first S) key data T mc
         | MDBX_LAST_DUP \<Rightarrow> move_within_dups E (dup_last S) key data T mc
         | MDBX_SET_LOWERBOUND \<Rightarrow>
             (case (key, data) of
                (Some k, Some d) \<Rightarrow> set_lowerbound E k d T mc
              | _ \<Rightarrow> Some (error_code MDBX_EINVAL, T, mc, key, data)))"

text \<open>Whether the \<open>switch\<close> is left by a \<open>return\<close>, so that the flag \<open>C_DEL\<close> stays.\<close>

definition leaves_by_return ::
    "cursor_env \<Rightarrow> cursor_op \<Rightarrow> mdbx_val option \<Rightarrow> mdbx_val option \<Rightarrow> int \<Rightarrow> table_cursor \<Rightarrow> bool" where
  "leaves_by_return E op key data rc mc \<longleftrightarrow>
     (let m = env_mem E; node = page_node m (top_page mc) (unat (top_ki mc));
          dups_refused = (data = None \<or> \<not> flag_set C_INITIALIZED mc \<or>
            (case cu_xcursor mc of
               None \<Rightarrow> True
             | Some x \<Rightarrow> unat (top_ki mc) \<ge> page_numkeys m (top_page mc) \<or> has_dups m node \<and> \<not> flag_set C_INITIALIZED x))
      in case op of
           MDBX_GET_CURRENT \<Rightarrow> rc \<noteq> 0
         | MDBX_GET_MULTIPLE \<Rightarrow> rc \<noteq> 0
         | MDBX_GET_BOTH \<Rightarrow> data = None \<or> cu_xcursor mc = None \<or> key = None
         | MDBX_GET_BOTH_RANGE \<Rightarrow> data = None \<or> cu_xcursor mc = None \<or> key = None
         | MDBX_SET \<Rightarrow> key = None
         | MDBX_SET_KEY \<Rightarrow> key = None
         | MDBX_SET_RANGE \<Rightarrow> key = None
         | MDBX_NEXT_MULTIPLE \<Rightarrow> data = None \<or> db_flags (cu_db mc) AND ucast MDBX_DUPFIXED = 0
         | MDBX_PREV_MULTIPLE \<Rightarrow> data = None \<or> db_flags (cu_db mc) AND ucast MDBX_DUPFIXED = 0
         | MDBX_FIRST_DUP \<Rightarrow> dups_refused
         | MDBX_LAST_DUP \<Rightarrow> dups_refused
         | MDBX_SET_LOWERBOUND \<Rightarrow> key = None \<or> data = None
         | _ \<Rightarrow> False)"

definition mdbx_cursor_get ::
    "cursor_env \<Rightarrow> cursor_op \<Rightarrow> mdbx_val option \<Rightarrow> mdbx_val option \<Rightarrow> page_txn \<Rightarrow> table_cursor \<Rightarrow> table_moved option" where
  "mdbx_cursor_get E op key data T mc =
     (if check_signature mc \<noteq> 0 then Some (check_signature mc, T, mc, key, data)
      else if check_txn MDBX_TXN_BLOCKED T \<noteq> 0 then Some (check_txn MDBX_TXN_BLOCKED T, T, mc, key, data)
      else map_option (\<lambda>(rc, T, mc', key', data').
             (rc, T, if leaves_by_return E op key data rc mc then mc' else clear_flag C_DEL mc', key', data'))
             (cursor_get_op E op key data T mc))"

subsection \<open>Questions about a cursor\<close>

definition mdbx_cursor_on_first :: "table_cursor \<Rightarrow> int" where
  "mdbx_cursor_on_first mc =
     (if check_signature mc \<noteq> 0 then check_signature mc
      else if \<not> flag_set C_INITIALIZED mc
      then (if db_entries (cu_db mc) \<noteq> 0 then error_code MDBX_SUCCESS else error_code MDBX_RESULT_TRUE)
      else if (\<exists>i \<in> {..<cu_snum mc}. cu_ki mc i \<noteq> 0) then error_code MDBX_SUCCESS else error_code MDBX_RESULT_TRUE)"

text \<open>\<open>nkeys - 1\<close> is unsigned: on an empty page every index is below it.\<close>

definition mdbx_cursor_on_last :: "mem \<Rightarrow> table_cursor \<Rightarrow> int" where
  "mdbx_cursor_on_last m mc =
     (if check_signature mc \<noteq> 0 then check_signature mc
      else if \<not> flag_set C_INITIALIZED mc
      then (if db_entries (cu_db mc) \<noteq> 0 then error_code MDBX_SUCCESS else error_code MDBX_RESULT_TRUE)
      else if (\<exists>i \<in> {..<cu_snum mc}. (ucast (cu_ki mc i) :: u32) < of_nat (page_numkeys m (cu_pg mc i)) - 1)
      then error_code MDBX_SUCCESS else error_code MDBX_RESULT_TRUE)"

definition mdbx_cursor_eof :: "mem \<Rightarrow> table_cursor \<Rightarrow> int" where
  "mdbx_cursor_eof m mc =
     (if check_signature mc \<noteq> 0 then check_signature mc
      else if cu_flags mc AND (C_INITIALIZED OR C_EOF) = C_INITIALIZED \<and> cu_snum mc \<noteq> 0 \<and>
              unat (top_ki mc) < page_numkeys m (top_page mc)
      then error_code MDBX_SUCCESS else error_code MDBX_RESULT_TRUE)"

text \<open>The result code and \<open>*countp\<close>, which is kept where it is not set.\<close>

definition mdbx_cursor_count :: "mem \<Rightarrow> page_txn \<Rightarrow> table_cursor \<Rightarrow> u64 \<Rightarrow> (int \<times> u64) option" where
  "mdbx_cursor_count m T mc n =
     (if check_signature mc \<noteq> 0 then Some (check_signature mc, n)
      else if check_txn MDBX_TXN_BLOCKED T \<noteq> 0 then Some (check_txn MDBX_TXN_BLOCKED T, n)
      else if \<not> flag_set C_INITIALIZED mc then Some (error_code MDBX_EINVAL, n)
      else if cu_snum mc = 0 then Some (error_code MDBX_NOTFOUND, 0)
      else if flag_set C_EOF mc \<and> unat (top_ki mc) \<ge> page_numkeys m (top_page mc) then Some (error_code MDBX_NOTFOUND, 0)
      else (case cu_xcursor mc of
              None \<Rightarrow> Some (0, 1)
            | Some x \<Rightarrow>
                if has_dups m (page_node m (top_page mc) (unat (top_ki mc)))
                then Some (0, if db_entries (cu_db x) > 0x7FFFFFFFFFFFFFFF then 0x7FFFFFFFFFFFFFFF else db_entries (cu_db x))
                else Some (0, 1)))"

subsection \<open>Initialising a cursor\<close>

text \<open>
  A table as the transaction knows it: its record, whether another handle took its number
  (\<open>TXN_DBI_CHANGED\<close>) and whether the number is valid for the user (\<open>check_dbi\<close>).
\<close>

record table_handle =
  th_db :: table_db
  th_dbx :: table_dbx
  th_changed :: bool
  th_valid :: bool

definition mdbx_setup_dbx :: "nat \<Rightarrow> table_db \<Rightarrow> table_dbx \<Rightarrow> int \<times> table_dbx" where
  "mdbx_setup_dbx pagesize db dbx =
     (let flags = ucast (db_flags db) :: u32;
          dbx = (if dbx_cmp dbx = None
                 then dbx\<lparr>dbx_cmp := Some (get_default_keycmp flags), dbx_dcmp := Some (get_default_datacmp flags)\<rparr> else dbx);
          dbx = dbx\<lparr>dbx_klen_min := (if flags AND MDBX_INTEGERKEY \<noteq> 0 then 4 else 0),
                    dbx_klen_max := of_nat (keysize_max pagesize flags),
                    dbx_vlen_min := (if flags AND MDBX_INTEGERDUP \<noteq> 0 then 4
                                     else if flags AND MDBX_DUPFIXED \<noteq> 0 then 1 else 0),
                    dbx_vlen_max := of_nat (valsize_max pagesize flags)\<rparr>
      in if flags AND (MDBX_DUPFIXED OR MDBX_INTEGERDUP) \<noteq> 0 \<and> db_xsize db \<noteq> 0
         then if ucast (db_xsize db) < dbx_vlen_min dbx \<or> ucast (db_xsize db) > dbx_vlen_max dbx
              then (error_code MDBX_CORRUPTED, dbx)
              else (0, dbx\<lparr>dbx_vlen_min := ucast (db_xsize db), dbx_vlen_max := ucast (db_xsize db)\<rparr>)
         else (0, dbx))"

text \<open>
  \<open>mdbx_xcursor_init0\<close> and \<open>mdbx_couple_init\<close> (whose result \<open>mdbx_xcursor_init0\<close> overwrites) on a cursor and an inner cursor with arbitrary contents
  (\<open>MDBX_cursor_couple\<close> on the stack); the inner cursor is attached for tables with duplicates.
\<close>

definition mdbx_xcursor_init0 :: "dup_cursor \<Rightarrow> table_cursor \<Rightarrow> dup_cursor" where
  "mdbx_xcursor_init0 x mc =
     x\<lparr>cu_xcursor := None, cu_dbi := cu_dbi mc, cu_snum := 0, cu_top := 0,
       cu_flags := C_SUB OR (cu_flags mc AND (C_COPYING OR C_SKIPORD)),
       cu_dbx := \<lparr>dbx_name = \<lparr>iov_base = 0, iov_len = 0\<rparr>, dbx_cmp = dbx_dcmp (cu_dbx mc), dbx_dcmp = None, dbx_klen_min = 0x7FFFFFFF, dbx_klen_max = 0,
                  dbx_vlen_min = 0, dbx_vlen_max = 0\<rparr>\<rparr>"

definition attach_dups :: "dup_cursor \<Rightarrow> table_cursor \<Rightarrow> table_cursor" where
  "attach_dups x mc =
     (let x = mdbx_xcursor_init0 (x\<lparr>cu_signature := MDBX_MC_LIVE\<rparr>) mc
      in mc\<lparr>cu_xcursor := Some (x\<lparr>cu_dbx := (cu_dbx x)\<lparr>dbx_klen_min := dbx_vlen_min (cu_dbx mc),
                                              dbx_klen_max := dbx_vlen_max (cu_dbx mc)\<rparr>\<rparr>)\<rparr>)"

definition mdbx_couple_init ::
    "cursor_env \<Rightarrow> u32 \<Rightarrow> table_handle \<Rightarrow> table_cursor \<Rightarrow> dup_cursor \<Rightarrow> page_txn \<Rightarrow> (int \<times> page_txn \<times> table_cursor) option" where
  "mdbx_couple_init E dbi th raw inner T = do {
     let mc = raw\<lparr>cu_signature := MDBX_MC_LIVE, cu_dbi := dbi, cu_db := th_db th, cu_dbx := th_dbx th, cu_snum := 0, cu_top := 0,
                  cu_pg := (cu_pg raw)(0 := 0), cu_ki := (cu_ki raw)(0 := 0), cu_flags := 0, cu_xcursor := None\<rparr>;
     (rc, T, mc) \<leftarrow>
       (if tx_dbistate T dbi AND DBI_STALE \<noteq> 0
        then map_option (\<lambda>(rc, T, mc). (if rc \<noteq> error_code MDBX_NOTFOUND then rc else 0, T, mc))
               (mdbx_page_search E None MDBX_PS_ROOTONLY T mc)
        else if dbx_klen_max (cu_dbx mc) = 0
        then (let (rc, dbx) = mdbx_setup_dbx (unat (me_psize (rd_env E))) (cu_db mc) (cu_dbx mc)
              in Some (rc, T, mc\<lparr>cu_dbx := dbx\<rparr>))
        else Some (0, T, mc));
     Some (if db_flags (cu_db mc) AND ucast MDBX_DUPSORT \<noteq> 0
           then (0, T, attach_dups inner mc) else (rc, T, mc))
   }"

definition mdbx_cursor_init ::
    "cursor_env \<Rightarrow> u32 \<Rightarrow> table_handle \<Rightarrow> table_cursor \<Rightarrow> dup_cursor \<Rightarrow> page_txn \<Rightarrow> (int \<times> page_txn \<times> table_cursor) option" where
  "mdbx_cursor_init E dbi th raw inner T =
     (if th_changed th then Some (error_code MDBX_BAD_DBI, T, raw) else mdbx_couple_init E dbi th raw inner T)"

subsection \<open>Reloading the record of a table\<close>

definition DB_PERSISTENT_FLAGS :: u32 where
  "DB_PERSISTENT_FLAGS = MDBX_REVERSEKEY OR MDBX_DUPSORT OR MDBX_INTEGERKEY OR MDBX_DUPFIXED OR MDBX_INTEGERDUP OR MDBX_REVERSEDUP"

definition MAIN_DBI :: u32 where "MAIN_DBI = 1"

definition clear_stale :: "u32 \<Rightarrow> page_txn \<Rightarrow> page_txn" where
  "clear_stale dbi T =
     T\<lparr>tx_chain := (case tx_chain T of
          [] \<Rightarrow> []
        | s # ss \<Rightarrow> s\<lparr>sp_dbistate := (sp_dbistate s)(dbi := sp_dbistate s dbi AND NOT DBI_STALE)\<rparr> # ss)\<rparr>"

text \<open>
  \<open>mdbx_fetch_sdb\<close>: the record is a value of the main table (which is never out of date itself: its
  cursor does not come back here).  \<open>changed\<close> is \<open>TXN_DBI_CHANGED\<close>, \<open>raw\<close> and \<open>inner\<close> are the
  temporary cursors with arbitrary contents.
\<close>

definition mdbx_fetch_sdb ::
    "cursor_env \<Rightarrow> (u32 \<Rightarrow> bool) \<Rightarrow> table_handle \<Rightarrow> table_cursor \<Rightarrow> dup_cursor \<Rightarrow>
     mem \<Rightarrow> u32 \<Rightarrow> table_db \<times> table_dbx \<Rightarrow> page_txn \<Rightarrow> (int \<times> page_txn \<times> table_db \<times> table_dbx) option" where
  "mdbx_fetch_sdb E changed main raw inner m dbi = (\<lambda>(db, dbx) T.
     let E = E\<lparr>rd_mem := m, ce_fetch := (\<lambda>m dbi db T. None)\<rparr>
     in if changed dbi then Some (error_code MDBX_BAD_DBI, T, db, dbx)
        else do {
          (rc, T, mc) \<leftarrow> mdbx_cursor_init E MAIN_DBI main raw inner T;
          if rc \<noteq> 0 then Some (rc, T, db, dbx)
          else do {
            (rc, T, mc) \<leftarrow> mdbx_page_search E (Some (dbx_name dbx)) 0 T mc;
            if rc \<noteq> 0 then Some (if rc = error_code MDBX_NOTFOUND then error_code MDBX_BAD_DBI else rc, T, db, dbx)
            else do {
              (exact, found, mc) \<leftarrow> search_top E (dbx_name dbx) T mc;
              let node = the found;
              let pp_txnid = pp_txnid4chk E (top_page mc);
              if \<not> exact then Some (error_code MDBX_BAD_DBI, T, db, dbx)
              else if node_flags m node AND (F_DUPDATA OR F_SUBDATA) \<noteq> F_SUBDATA
              then Some (error_code MDBX_INCOMPATIBLE, T, db, dbx)
              else do {
                (rc, T, data) \<leftarrow> mdbx_node_read E node pp_txnid T;
                Some (if rc \<noteq> 0 then (rc, T, db, dbx)
                      else if unat (iov_len data) \<noteq> sizeof_MDBX_db then (error_code MDBX_INCOMPATIBLE, T, db, dbx)
                      else if ucast (db_flags db) AND DB_PERSISTENT_FLAGS \<noteq> ucast (unaligned_peek_u16 True 1 m (iov_base data))
                      then (error_code MDBX_INCOMPATIBLE, T, db, dbx)
                      else (let db = load_db m (iov_base data)
                            in if db_mod_txnid db > pp_txnid then (error_code MDBX_CORRUPTED, T, db, dbx)
                               else (let (rc, dbx) = mdbx_setup_dbx (unat (me_psize (rd_env E))) db dbx
                                     in if rc \<noteq> 0 then (rc, T, db, dbx) else (0, clear_stale dbi T, db, dbx))))
              }
            }
          }
        })"

subsection \<open>Lookups\<close>

text \<open>The steps common to the lookups: the checks, then a temporary cursor.\<close>

definition with_cursor ::
    "cursor_env \<Rightarrow> u32 \<Rightarrow> table_handle \<Rightarrow> table_cursor \<Rightarrow> dup_cursor \<Rightarrow> mdbx_val option \<Rightarrow> mdbx_val option \<Rightarrow> page_txn \<Rightarrow>
     (mdbx_val \<Rightarrow> mdbx_val \<Rightarrow> page_txn \<Rightarrow> table_cursor \<Rightarrow> table_moved option) \<Rightarrow> table_moved option" where
  "with_cursor E dbi th raw inner key data T body =
     (if check_txn MDBX_TXN_BLOCKED T \<noteq> 0 then Some (check_txn MDBX_TXN_BLOCKED T, T, raw, key, data)
      else (case (key, data) of
              (Some k, Some d) \<Rightarrow>
                if \<not> th_valid th then Some (error_code MDBX_BAD_DBI, T, raw, key, data)
                else do {
                  (rc, T, mc) \<leftarrow> mdbx_cursor_init E dbi th raw inner T;
                  if rc \<noteq> 0 then Some (rc, T, mc, key, data) else body k d T mc
                }
            | _ \<Rightarrow> Some (error_code MDBX_EINVAL, T, raw, key, data)))"

definition mdbx_get ::
    "cursor_env \<Rightarrow> u32 \<Rightarrow> table_handle \<Rightarrow> table_cursor \<Rightarrow> dup_cursor \<Rightarrow> mdbx_val option \<Rightarrow> mdbx_val option \<Rightarrow> page_txn \<Rightarrow>
     (int \<times> page_txn \<times> mdbx_val option) option" where
  "mdbx_get E dbi th raw inner key data T =
     map_option (\<lambda>(rc, T, mc, key, data). (rc, T, data))
       (with_cursor E dbi th raw inner key data T (\<lambda>k d T mc.
          map_option (\<lambda>(exact, rc, T, mc, k, data). (rc, T, mc, key, data))
            (mdbx_cursor_set E (table_dups E) MDBX_SET k (Some d) T mc)))"

definition mdbx_get_equal_or_great ::
    "cursor_env \<Rightarrow> u32 \<Rightarrow> table_handle \<Rightarrow> table_cursor \<Rightarrow> dup_cursor \<Rightarrow> mdbx_val option \<Rightarrow> mdbx_val option \<Rightarrow> page_txn \<Rightarrow>
     (int \<times> page_txn \<times> mdbx_val option \<times> mdbx_val option) option" where
  "mdbx_get_equal_or_great E dbi th raw inner key data T =
     map_option (\<lambda>(rc, T, mc, key, data). (rc, T, key, data))
       (with_cursor E dbi th raw inner key data T (\<lambda>k d T mc.
          mdbx_cursor_get E MDBX_SET_LOWERBOUND (Some k) (Some d) T mc))"

text \<open>\<open>mdbx_get_ex\<close> also gives the number of values of the key, if the pointer for it is not null.\<close>

definition values_of_key :: "mem \<Rightarrow> table_cursor \<Rightarrow> u64 option" where
  "values_of_key m mc =
     (case cu_xcursor mc of
        None \<Rightarrow> Some 1
      | Some x \<Rightarrow>
          if has_dups m (page_node m (top_page mc) (unat (top_ki mc))) then Some (db_entries (cu_db x)) else Some 1)"

definition mdbx_get_ex ::
    "cursor_env \<Rightarrow> u32 \<Rightarrow> table_handle \<Rightarrow> table_cursor \<Rightarrow> dup_cursor \<Rightarrow> mdbx_val option \<Rightarrow> mdbx_val option \<Rightarrow> u64 option \<Rightarrow>
     page_txn \<Rightarrow> (int \<times> page_txn \<times> mdbx_val option \<times> mdbx_val option \<times> u64 option) option" where
  "mdbx_get_ex E dbi th raw inner key data values T = do {
     (rc, T, mc, key', data') \<leftarrow> with_cursor E dbi th raw inner key data T (\<lambda>k d T mc.
       map_option (\<lambda>(exact, rc, T, mc, k, data). (rc, T, mc, Some k, data))
         (mdbx_cursor_set E (table_dups E) MDBX_SET_KEY k (Some d) T mc));
     (if rc = 0
      then (case values of
              None \<Rightarrow> Some (rc, T, key', data', None)
            | Some _ \<Rightarrow> map_option (\<lambda>n. (rc, T, key', data', Some n)) (values_of_key (env_mem E) mc))
      else Some (rc, T, key', data', if rc = error_code MDBX_NOTFOUND then map_option (\<lambda>_. 0) values else values))
   }"

end
