(* ===== verification/Tree_Scan.thy ===== *)
theory Tree_Scan
  imports Tree_Moves Table_Get
begin

text \<open>
  Reading a whole table through \<open>mdbx_cursor_get\<close>: repeated \<open>MDBX_NEXT\<close> gives every item once and
  in order, repeated \<open>MDBX_PREV\<close> in reverse order, and then \<open>MDBX_NOTFOUND\<close>.
\<close>

subsection \<open>The entries of a table and a client that reads them\<close>

definition entry_of :: "mem \<Rightarrow> (pgno_t \<Rightarrow> nat option) \<Rightarrow> tree \<Rightarrow> nat list \<Rightarrow> u8 list \<times> u8 list" where
  "entry_of m at t p = (val_bytes m (item_key_of m t p), val_bytes m (item_value_of m at t p))"

definition entries :: "mem \<Rightarrow> (pgno_t \<Rightarrow> nat option) \<Rightarrow> nat \<Rightarrow> tree \<Rightarrow> (u8 list \<times> u8 list) list" where
  "entries m at h t = map (entry_of m at t) (positions m h t)"

definition null_val :: mdbx_val where "null_val = \<lparr>iov_base = 0, iov_len = 0\<rparr>"

text \<open>Up to \<open>n\<close> calls, until one fails: the entries and the error code.\<close>

fun scan :: "cursor_env \<Rightarrow> cursor_op \<Rightarrow> nat \<Rightarrow> page_txn \<Rightarrow> table_cursor \<Rightarrow> ((u8 list \<times> u8 list) list \<times> int) option" where
  "scan E op 0 T mc = None"
| "scan E op (Suc n) T mc = do {
     (rc, T, mc, key, data) \<leftarrow> mdbx_cursor_get E op (Some null_val) (Some null_val) T mc;
     if rc \<noteq> 0 then Some ([], rc)
     else do {
       k \<leftarrow> key;
       d \<leftarrow> data;
       (rest, rc) \<leftarrow> scan E op n T mc;
       Some ((val_bytes (env_mem E) k, val_bytes (env_mem E) d) # rest, rc)
     }
   }"

fun move_direction :: "cursor_op \<Rightarrow> direction option" where
  "move_direction MDBX_NEXT = Some Right"
| "move_direction MDBX_NEXT_NODUP = Some Right"
| "move_direction MDBX_PREV = Some Left"
| "move_direction MDBX_PREV_NODUP = Some Left"
| "move_direction _ = None"

lemma cursor_get_op_moves:
  "move_direction op = Some d \<Longrightarrow> cursor_get_op E op key data T mc =
     (case d of Right \<Rightarrow> mdbx_cursor_next E (table_dups E) op key data T mc
      | Left \<Rightarrow> mdbx_cursor_prev E (table_dups E) op key data T mc)"
  by (cases op) (auto simp: cursor_get_op_def)

lemma word_keep: "x AND y = 0 \<Longrightarrow> x AND NOT y = (x :: 'a::len word)"
  by (metis and.commute bit.compl_unique bit.conj_cancel_right bit.conj_disj_distrib bit.disj_cancel_right bit.conj_one_right or.left_neutral)

lemma clear_flag_id: "cu_flags mc AND f = 0 \<Longrightarrow> clear_flag f mc = mc"
  by (simp add: clear_flag_def word_keep)

context page_reader
begin

text \<open>The checks of \<open>mdbx_cursor_get\<close>, and the flag \<open>C_DEL\<close>, which is not set.\<close>

lemma cursor_get_result:
  assumes "like T" "cu_signature mc = MDBX_MC_LIVE"
    and "cursor_get_op E op key data T mc = Some (rc, T', mc', key', data')" "cu_flags mc' AND C_DEL = 0"
  shows "mdbx_cursor_get E op key data T mc = Some (rc, T', mc', key', data')"
  using assms unblocked [OF assms(1)]
  by (simp add: mdbx_cursor_get_def check_signature_def check_txn_def txn_unblocked_def clear_flag_id)

lemma arrives_get:
  assumes "like T" "cu_signature mc = MDBX_MC_LIVE" "arrives h t mc key data p (cursor_get_op E op key data T mc)"
  shows "arrives h t mc key data p (mdbx_cursor_get E op key data T mc)"
proof -
  obtain T' mc' key' data' where r: "cursor_get_op E op key data T mc = Some (0, T', mc', key', data')" "cursor_ok h t mc'"
    using assms(3) unfolding arrives_def by blast
  have "mdbx_cursor_get E op key data T mc = Some (0, T', mc', key', data')"
    by (rule cursor_get_result [OF assms(1,2) r(1)]) (use r(2) in \<open>simp add: cursor_ok_def plain_def\<close>)
  then show ?thesis using assms(3) r(1) by simp
qed

lemma misses_get:
  assumes "like T" "cu_signature mc = MDBX_MC_LIVE" "misses h t mc key data (cursor_get_op E op key data T mc)"
  shows "misses h t mc key data (mdbx_cursor_get E op key data T mc)"
proof -
  obtain rc T' mc' key' data' where r: "cursor_get_op E op key data T mc = Some (rc, T', mc', key', data')" "cursor_ok h t mc'"
    using assms(3) unfolding misses_def by blast
  have "mdbx_cursor_get E op key data T mc = Some (rc, T', mc', key', data')"
    by (rule cursor_get_result [OF assms(1,2) r(1)]) (use r(2) in \<open>simp add: cursor_ok_def plain_def\<close>)
  then show ?thesis using assms(3) r(1) by simp
qed

lemma get_moves:
  assumes ok: "tree_ok (env_mem E) at h t" "h < CURSOR_STACK" "cursor_ok h t mc" "like T"
    and "cu_signature mc = MDBX_MC_LIVE" "move_direction op = Some d"
    and p: "p \<in> set (positions (env_mem E) h t)" "at_item t p mc" "flag_set C_INITIALIZED mc"
    and eof: "flag_set C_EOF mc \<longrightarrow> adjacent (env_mem E) Right t p = None"
  shows "case adjacent (env_mem E) d t p of
      None \<Rightarrow> misses h t mc key data (mdbx_cursor_get E op key data T mc)
    | Some p' \<Rightarrow> arrives h t mc key data p' (mdbx_cursor_get E op key data T mc)"
proof -
  have "case adjacent (env_mem E) d t p of
      None \<Rightarrow> misses h t mc key data (cursor_get_op E op key data T mc)
    | Some p' \<Rightarrow> arrives h t mc key data p' (cursor_get_op E op key data T mc)"
  proof (cases d)
    case Left
    show ?thesis unfolding cursor_get_op_moves [OF assms(6)] Left direction.case by (rule cursor_prev_moves [OF ok p])
  next
    case Right
    show ?thesis unfolding cursor_get_op_moves [OF assms(6)] Right direction.case by (rule cursor_next_moves [OF ok p eof])
  qed
  then show ?thesis
    by (cases "adjacent (env_mem E) d t p")
      (simp_all add: arrives_get [OF assms(4,5)] misses_get [OF assms(4,5)])
qed

lemma get_fresh:
  assumes ok: "tree_ok (env_mem E) at h t" "h < CURSOR_STACK" "cursor_ok h t mc" "like T"
    and "cu_signature mc = MDBX_MC_LIVE" "move_direction op = Some d" "\<not> flag_set C_INITIALIZED mc"
  shows "arrives h t mc key data (case d of Right \<Rightarrow> hd (positions (env_mem E) h t) | Left \<Rightarrow> last (positions (env_mem E) h t))
      (mdbx_cursor_get E op key data T mc)"
  using fresh_next_arrives [OF ok assms(7)] fresh_prev_arrives [OF ok assms(7)]
  by (intro arrives_get [OF assms(4,5)]) (cases d; simp add: cursor_get_op_moves [OF assms(6)])

text \<open>A scan goes on through the rest of a list of positions.\<close>

lemma scan_step:
  assumes "arrives h t mc (Some k) (Some d) p (mdbx_cursor_get E op (Some null_val) (Some null_val) T mc)"
    and "\<And>T' mc'. like T' \<Longrightarrow> cursor_ok h t mc' \<Longrightarrow> same_table mc mc' \<Longrightarrow> flag_set C_INITIALIZED mc' \<Longrightarrow> at_item t p mc' \<Longrightarrow>
        (flag_set C_EOF mc' \<longrightarrow> adjacent (env_mem E) Right t p = None) \<Longrightarrow> scan E op n T' mc' = Some (map (entry_of (env_mem E) at t) ps, rc)"
  shows "scan E op (Suc n) T mc = Some (map (entry_of (env_mem E) at t) (p # ps), rc)"
proof -
  obtain T' mc' where r: "mdbx_cursor_get E op (Some null_val) (Some null_val) T mc =
      Some (0, T', mc', Some (item_key_of (env_mem E) t p), Some (item_value_of (env_mem E) at t p))"
    "like T'" "cursor_ok h t mc'" "same_table mc mc'" "flag_set C_INITIALIZED mc'" "at_item t p mc'"
    "flag_set C_EOF mc' \<longrightarrow> adjacent (env_mem E) Right t p = None"
    using assms(1) unfolding arrives_def by auto
  then show ?thesis using assms(2) [OF r(2-)] by (simp add: entry_of_def)
qed

lemma scan_rest:
  assumes "tree_ok (env_mem E) at h t" "h < CURSOR_STACK" "move_direction op = Some d"
  shows "successively (\<lambda>p p'. adjacent (env_mem E) d t p = Some p') (p # ps) \<Longrightarrow>
    adjacent (env_mem E) d t (last (p # ps)) = None \<Longrightarrow> set (p # ps) \<subseteq> set (positions (env_mem E) h t) \<Longrightarrow>
    cursor_ok h t mc \<Longrightarrow> like T \<Longrightarrow> cu_signature mc = MDBX_MC_LIVE \<Longrightarrow> flag_set C_INITIALIZED mc \<Longrightarrow> at_item t p mc \<Longrightarrow>
    (flag_set C_EOF mc \<longrightarrow> adjacent (env_mem E) Right t p = None) \<Longrightarrow> length ps < n \<Longrightarrow>
    scan E op n T mc = Some (map (entry_of (env_mem E) at t) ps, error_code MDBX_NOTFOUND)"
proof (induction ps arbitrary: p T mc n)
  case Nil
  then obtain k where n: "n = Suc k" by (cases n) auto
  have "misses h t mc (Some null_val) (Some null_val) (mdbx_cursor_get E op (Some null_val) (Some null_val) T mc)"
    using get_moves [OF assms(1,2) Nil.prems(4-6) assms(3) _ Nil.prems(8,7,9)] Nil.prems(2,3) by simp
  then show ?case by (auto simp: n misses_def error_code.simps)
next
  case (Cons p' ps)
  then obtain k where n: "n = Suc k" by (cases n) auto
  have next_p: "adjacent (env_mem E) d t p = Some p'" using Cons.prems(1) by simp
  have "arrives h t mc (Some null_val) (Some null_val) p' (mdbx_cursor_get E op (Some null_val) (Some null_val) T mc)"
    using get_moves [OF assms(1,2) Cons.prems(4-6) assms(3) _ Cons.prems(8,7,9)] next_p Cons.prems(3) by simp
  then show ?case unfolding n
  proof (rule scan_step)
    fix T' mc'
    assume "like T'" "cursor_ok h t mc'" "same_table mc mc'" "flag_set C_INITIALIZED mc'" "at_item t p' mc'"
      "flag_set C_EOF mc' \<longrightarrow> adjacent (env_mem E) Right t p' = None"
    then show "scan E op k T' mc' = Some (map (entry_of (env_mem E) at t) ps, error_code MDBX_NOTFOUND)"
      using Cons.prems n by (intro Cons.IH) (simp_all add: same_table_def)
  qed
qed

lemma scan_all:
  assumes ok: "tree_ok (env_mem E) at h t" "h < CURSOR_STACK" "cursor_ok h t mc" "like T"
    and "cu_signature mc = MDBX_MC_LIVE" "move_direction op = Some d" "\<not> flag_set C_INITIALIZED mc"
    and n: "length (positions (env_mem E) h t) < n"
  shows "scan E op n T mc =
    Some ((case d of Right \<Rightarrow> entries (env_mem E) at h t | Left \<Rightarrow> rev (entries (env_mem E) at h t)), error_code MDBX_NOTFOUND)"
proof -
  let ?m = "env_mem E" and ?ps = "positions (env_mem E) h t"
  define qs where "qs = (case d of Right \<Rightarrow> ?ps | Left \<Rightarrow> rev ?ps)"
  have ne: "?ps \<noteq> []" by (rule level_nonempty [OF ok(1)]) simp
  have adj: "successively (neighbours ?m t) ?ps" "adjacent ?m Right t (last ?ps) = None" "adjacent ?m Left t (hd ?ps) = None"
    using level_adjacent [OF ok(1), of "Suc h"] by simp_all
  have succ: "successively (\<lambda>p p'. adjacent ?m d t p = Some p') qs" "adjacent ?m d t (last qs) = None"
    using adj ne by (cases d; auto simp: qs_def neighbours_def last_rev elim!: successively_mono)+
  obtain p ps where qs: "qs = p # ps" using ne by (cases d; cases qs) (auto simp: qs_def)
  have hd: "(case d of Right \<Rightarrow> hd ?ps | Left \<Rightarrow> last ?ps) = p"
    using qs ne by (cases d) (auto simp: qs_def hd_rev [symmetric])
  have len: "length ps < n - 1" "set (p # ps) \<subseteq> set ?ps" "n = Suc (n - 1)"
    using arg_cong [OF qs, of length] arg_cong [OF qs, of set] n by (cases d; simp add: qs_def; fail)+
  have "scan E op (Suc (n - 1)) T mc = Some (map (entry_of ?m at t) (p # ps), error_code MDBX_NOTFOUND)"
  proof (rule scan_step [OF get_fresh [OF ok assms(5-7), of "Some null_val" "Some null_val", unfolded hd]])
    fix T' mc'
    assume "like T'" "cursor_ok h t mc'" "same_table mc mc'" "flag_set C_INITIALIZED mc'" "at_item t p mc'"
      "flag_set C_EOF mc' \<longrightarrow> adjacent ?m Right t p = None"
    then show "scan E op (n - 1) T' mc' = Some (map (entry_of ?m at t) ps, error_code MDBX_NOTFOUND)"
      using succ assms(5) len unfolding qs
      by (intro scan_rest [OF ok(1,2) assms(6)]) (simp_all add: same_table_def)
  qed
  then show ?thesis using len(3) unfolding qs [symmetric] by (cases d) (simp_all add: qs_def entries_def rev_map)
qed

end

end
