(* ===== verification/Tree_Lookup.thy ===== *)
theory Tree_Lookup
  imports Tree_Scan
begin

text \<open>
  Looking up keys in an ordered tree: the way from the root leads to the leaf that may hold the key,
  and \<open>mdbx_cursor_set\<close> finds the first item that is not below it.
\<close>

subsection \<open>Ordered trees\<close>

fun tree_keys :: "mem \<Rightarrow> tree \<Rightarrow> u8 list list" where
  "tree_keys m (Leaf a) = page_keys m a"
| "tree_keys m (Node a ts) = concat (map (tree_keys m) ts)"

text \<open>With the keys of the branch pages; the first of a page is not looked at.\<close>

fun all_keys :: "mem \<Rightarrow> tree \<Rightarrow> u8 list list" where
  "all_keys m (Leaf a) = page_keys m a"
| "all_keys m (Node a ts) = drop 1 (page_keys m a) @ concat (map (all_keys m) ts)"

text \<open>Key \<open>i\<close> of a branch page is not above the keys of child \<open>i\<close> and above those of the children before it.\<close>

definition separates :: "comparator \<Rightarrow> mem \<Rightarrow> nat \<Rightarrow> tree list \<Rightarrow> nat \<Rightarrow> bool" where
  "separates cmp m a ts i \<longleftrightarrow>
     (i \<noteq> 0 \<longrightarrow> list_all (\<lambda>k. cmp_order cmp (page_keys m a ! i) k \<le> 0) (tree_keys m (ts ! i))) \<and>
     (Suc i < length ts \<longrightarrow> list_all (\<lambda>k. cmp_order cmp k (page_keys m a ! Suc i) < 0) (tree_keys m (ts ! i)))"

fun tree_sorted :: "comparator \<Rightarrow> mem \<Rightarrow> tree \<Rightarrow> bool" where
  "tree_sorted cmp m (Leaf a) \<longleftrightarrow> sorted_keys cmp (page_keys m a)"
| "tree_sorted cmp m (Node a ts) \<longleftrightarrow>
     sorted_keys cmp (drop 1 (page_keys m a)) \<and> list_all (separates cmp m a ts) [0..<length ts] \<and>
     list_all (tree_sorted cmp m) ts"

lemma tree_sorted_node:
  assumes "tree_ok m at (Suc h) t" "tree_sorted cmp m t" "j < width m t"
  shows "tree_sorted cmp m (child t j)"
    "j \<noteq> 0 \<Longrightarrow> k \<in> set (tree_keys m (child t j)) \<Longrightarrow> cmp_order cmp (page_keys m (page_of t) ! j) k \<le> 0"
    "Suc j < width m t \<Longrightarrow> k \<in> set (tree_keys m (child t j)) \<Longrightarrow> cmp_order cmp k (page_keys m (page_of t) ! Suc j) < 0"
    "set (tree_keys m (child t j)) \<subseteq> set (tree_keys m t)" "set (all_keys m (child t j)) \<subseteq> set (all_keys m t)"
    "sorted_keys cmp (drop 1 (page_keys m (page_of t)))" "set (drop 1 (page_keys m (page_of t))) \<subseteq> set (all_keys m t)"
proof -
  obtain a ts where t: "t = Node a ts" using assms(1) by (cases t) auto
  have j: "j < length ts" and w: "width m t = length ts" using assms(1,3) by (simp_all add: t branch_ok_def width_def)
  then have jn: "ts ! j \<in> set ts" by simp
  have sep: "separates cmp m a ts j" using assms(2) j by (simp add: t list_all_iff)
  show "tree_sorted cmp m (child t j)" using assms(2) jn by (simp add: t list_all_iff)
  show "cmp_order cmp (page_keys m (page_of t) ! j) k \<le> 0" if "j \<noteq> 0" "k \<in> set (tree_keys m (child t j))"
    using sep that by (simp add: separates_def t list_all_iff)
  show "cmp_order cmp k (page_keys m (page_of t) ! Suc j) < 0" if "Suc j < width m t" "k \<in> set (tree_keys m (child t j))"
    using sep that by (simp add: separates_def t list_all_iff w [unfolded t])
  show "set (tree_keys m (child t j)) \<subseteq> set (tree_keys m t)" "set (all_keys m (child t j)) \<subseteq> set (all_keys m t)"
    using jn by (auto simp: t)
  show "sorted_keys cmp (drop 1 (page_keys m (page_of t)))" "set (drop 1 (page_keys m (page_of t))) \<subseteq> set (all_keys m t)"
    using assms(2) by (simp_all add: t)
qed

lemma tree_keys_all: "set (tree_keys m t) \<subseteq> set (all_keys m t)"
  by (induction t) auto

lemma keys_admitted_subset: "keys_admitted cmp (k # ks) \<Longrightarrow> set ks' \<subseteq> set ks \<Longrightarrow> keys_admitted cmp (k # ks')"
  unfolding keys_admitted_def by (auto simp: list_all_iff subset_iff split: comparator.splits)

lemma subtree_sorted:
  assumes "tree_ok m at h t" "tree_sorted cmp m t"
  shows "q \<in> set (level m t l) \<Longrightarrow> l \<le> h \<Longrightarrow> tree_sorted cmp m (subtree t q) \<and>
    set (tree_keys m (subtree t q)) \<subseteq> set (tree_keys m t) \<and> set (all_keys m (subtree t q)) \<subseteq> set (all_keys m t)"
proof (induction l arbitrary: q)
  case (Suc l)
  from Suc.prems(1) obtain r j where q: "q = r @ [j]" "r \<in> set (level m t l)" "j < width m (subtree t r)"
    by (rule level_SucE)
  have IH: "tree_sorted cmp m (subtree t r)" "set (tree_keys m (subtree t r)) \<subseteq> set (tree_keys m t)"
    "set (all_keys m (subtree t r)) \<subseteq> set (all_keys m t)" using Suc.IH [OF q(2)] Suc.prems(2) by simp_all
  have "tree_ok m at (Suc (h - Suc l)) (subtree t r)"
    using subtree_ok [OF assms(1) q(2)] Suc.prems(2) by (metis Suc_diff_Suc Suc_le_lessD less_imp_le)
  from tree_sorted_node [OF this IH(1) q(3)] show ?case using IH(2,3) by (auto simp: q(1))
qed (use assms in simp)

text \<open>The keys of the leaves are those of the positions.\<close>

lemma concat_map_concat: "concat (map f (concat xss)) = concat (map (\<lambda>xs. concat (map f xs)) xss)"
  by (induction xss) simp_all

lemma level_Cons: "level m t (Suc l) = concat (map (\<lambda>j. map (Cons j) (level m (child t j) l)) [0..<width m t])"
proof (induction l)
  case 0
  then show ?case by (simp add: level.simps(2) map_eq_conv concat_map_singleton)
next
  case (Suc l)
  let ?F = "\<lambda>t q. map (\<lambda>j. q @ [j]) [0..<width m (subtree t q)]"
  have "level m t (Suc (Suc l)) = concat (map (?F t) (concat (map (\<lambda>j. map (Cons j) (level m (child t j) l)) [0..<width m t])))"
    unfolding level.simps(2) [of m t "Suc l"] Suc ..
  also have "\<dots> = concat (map (\<lambda>j. concat (map (?F t) (map (Cons j) (level m (child t j) l)))) [0..<width m t])"
    unfolding concat_map_concat map_map o_def ..
  also have "\<dots> = concat (map (\<lambda>j. map (Cons j) (level m (child t j) (Suc l))) [0..<width m t])"
    unfolding level.simps(2) [of m _ l] map_concat map_map o_def by simp
  finally show ?case .
qed

lemma leaf_page_keys:
  assumes "\<not> IS_LEAF2 m a"
  shows "map (\<lambda>i. val_bytes m (get_key m (page_node m a i))) [0..<page_numkeys m a] = page_keys m a"
  by (rule nth_equalityI) (use assms in \<open>simp_all add: node_key_bytes\<close>)

lemma tree_keys_positions:
  "tree_ok m at h t \<Longrightarrow> tree_keys m t = map (\<lambda>p. val_bytes m (item_key_of m t p)) (positions m h t)"
proof (induction h arbitrary: t)
  case 0
  then obtain a where t: "t = Leaf a" "leaf_ok m at a" by (cases t) auto
  have "\<not> IS_LEAF2 m a" using t(2) by (simp add: leaf_ok_def)
  from leaf_page_keys [OF this] show ?case
    by (simp add: t level.simps(2) item_key_of_def item_node_of_def width_def o_def)
next
  case (Suc h)
  then obtain a ts where t: "t = Node a ts" by (cases t) auto
  have w: "width m t = length ts" and ok: "\<And>j. j < length ts \<Longrightarrow> tree_ok m at h (ts ! j)"
    using Suc.prems by (auto simp: t width_def branch_ok_def list_all_length)
  have key: "item_key_of m t (j # p) = item_key_of m (child t j) p" if "p \<in> set (positions m h (child t j))" for j p
  proof -
    have "p \<noteq> []" using level_length [OF that] by auto
    then show ?thesis by (simp add: item_key_of_def item_node_of_def)
  qed
  have "map (\<lambda>p. val_bytes m (item_key_of m t p)) (positions m (Suc h) t) =
      concat (map (\<lambda>j. map (\<lambda>p. val_bytes m (item_key_of m (child t j) p)) (positions m h (child t j))) [0..<length ts])"
    by (subst level_Cons) (simp add: map_concat o_def w key cong: map_cong)
  also have "\<dots> = concat (map (\<lambda>j. tree_keys m (ts ! j)) [0..<length ts])"
    by (intro arg_cong [of _ _ concat] map_cong refl) (simp add: t Suc.IH [OF ok])
  also have "map (\<lambda>j. tree_keys m (ts ! j)) [0..<length ts] = map (tree_keys m) ts"
    by (rule nth_equalityI) simp_all
  also have "concat (map (tree_keys m) ts) = tree_keys m t" by (simp add: t)
  finally show ?case ..
qed

text \<open>The keys of the whole table ascend.\<close>

lemma sorted_wrt_concat:
  "sorted_wrt (\<lambda>xs ys. \<forall>x \<in> set xs. \<forall>y \<in> set ys. P x y) xss \<Longrightarrow> \<forall>xs \<in> set xss. sorted_wrt P xs \<Longrightarrow> sorted_wrt P (concat xss)"
  by (induction xss) (auto simp: sorted_wrt_append)

lemma tree_keys_sorted:
  "tree_ok m at h t \<Longrightarrow> tree_sorted cmp m t \<Longrightarrow> sorted_keys cmp (tree_keys m t)"
proof (induction h arbitrary: t)
  case 0
  then show ?case by (cases t) auto
next
  case (Suc h)
  note order = cmp_order_key_order [of cmp]
  obtain a ts where t: "t = Node a ts" using Suc.prems(1) by (cases t) auto
  have w: "width m t = length ts" "length (page_keys m a) = length ts"
    using Suc.prems(1) by (simp_all add: t width_def branch_ok_def)
  note node = tree_sorted_node [OF Suc.prems]
  have "sorted_keys cmp (tree_keys m (ts ! j))" if "j < length ts" for j
    using Suc.IH [OF tree_ok_node(6) [OF Suc.prems(1)] node(1)] that w(1) by (simp add: t)
  then have parts: "\<forall>ks \<in> set (map (tree_keys m) ts). sorted_wrt (\<lambda>a b. cmp_order cmp a b < 0) ks"
    by (auto simp: sorted_keys_def in_set_conv_nth)
  have "cmp_order cmp x y < 0" if "i < j" "j < length ts" "x \<in> set (tree_keys m (ts ! i))" "y \<in> set (tree_keys m (ts ! j))" for i j x y
  proof -
    have x: "cmp_order cmp x (page_keys m a ! Suc i) < 0" using node(3) [of i x] that w(1) by (simp add: t)
    have y: "cmp_order cmp (page_keys m a ! j) y \<le> 0" using node(2) [of j y] that w(1) by (simp add: t)
    have "cmp_order cmp (page_keys m a ! Suc i) (page_keys m a ! j) \<le> 0"
    proof (cases "Suc i = j")
      case False
      have "sorted_wrt (\<lambda>a b. cmp_order cmp a b < 0) (drop 1 (page_keys m a))"
        using node(6) [of i] that w(1) by (simp add: t sorted_keys_def)
      moreover have "i < j - 1" "j - 1 < length ts - 1" using False that(1,2) by linarith+
      ultimately show ?thesis using sorted_wrt_nth_less [of "\<lambda>a b. cmp_order cmp a b < 0" "drop 1 (page_keys m a)" i "j - 1"] that(1,2) w(2) by simp
    qed (simp add: key_order.ord_refl [OF order])
    then have "cmp_order cmp x (page_keys m a ! j) < 0" by (rule key_order.ord_less_trans [OF order x])
    then show ?thesis using key_order.ord_less_trans [OF order _ y] by blast
  qed
  then have "sorted_wrt (\<lambda>xs ys. \<forall>x \<in> set xs. \<forall>y \<in> set ys. cmp_order cmp x y < 0) (map (tree_keys m) ts)"
    by (auto simp: sorted_wrt_iff_nth_less)
  from sorted_wrt_concat [OF this parts] show ?case by (simp add: t sorted_keys_def)
qed

text \<open>The position a lookup goes to: the first item not below the key, which an exact lookup must find equal.\<close>

definition position_key :: "mem \<Rightarrow> tree \<Rightarrow> nat list \<Rightarrow> u8 list" where
  "position_key m t p = val_bytes m (item_key_of m t p)"

definition lower_bound :: "comparator \<Rightarrow> mem \<Rightarrow> nat \<Rightarrow> tree \<Rightarrow> u8 list \<Rightarrow> nat list option" where
  "lower_bound cmp m h t k = List.find (\<lambda>p. cmp_order cmp k (position_key m t p) \<le> 0) (positions m h t)"

definition sought :: "comparator \<Rightarrow> mem \<Rightarrow> nat \<Rightarrow> tree \<Rightarrow> u8 list \<Rightarrow> cursor_op \<Rightarrow> nat list option" where
  "sought cmp m h t k op =
     (case lower_bound cmp m h t k of
        None \<Rightarrow> None
      | Some p \<Rightarrow> if op = MDBX_SET_RANGE \<or> position_key m t p = k then Some p else None)"

lemma find_skip: "(\<And>x. x \<in> set xs \<Longrightarrow> \<not> P x) \<Longrightarrow> List.find P (xs @ ys) = List.find P ys"
  by (induction xs) auto

lemma lower_bound_split:
  assumes "positions m h t = A @ B" "\<And>p. p \<in> set A \<Longrightarrow> 0 < cmp_order cmp k (position_key m t p)"
  shows "B = [] \<Longrightarrow> lower_bound cmp m h t k = None"
    "B = p # B' \<Longrightarrow> cmp_order cmp k (position_key m t p) \<le> 0 \<Longrightarrow> lower_bound cmp m h t k = Some p"
proof -
  have "lower_bound cmp m h t k = List.find (\<lambda>p. cmp_order cmp k (position_key m t p) \<le> 0) B"
    unfolding lower_bound_def assms(1) by (rule find_skip) (use assms(2) in fastforce)
  then show "B = [] \<Longrightarrow> lower_bound cmp m h t k = None"
    "B = p # B' \<Longrightarrow> cmp_order cmp k (position_key m t p) \<le> 0 \<Longrightarrow> lower_bound cmp m h t k = Some p" by simp_all
qed

text \<open>Positions in the leaf at the end of a path.\<close>

lemma positions_split:
  assumes "level m t h = us @ q # vs"
  defines "f \<equiv> \<lambda>q. map (\<lambda>j. q @ [j]) [0..<width m (subtree t q)]"
  shows "positions m h t = concat (map f us) @ f q @ concat (map f vs)"
  by (simp add: level.simps(2) assms f_def)

lemma position_key_leaf:
  assumes "tree_ok m at h t" "q \<in> set (level m t h)" "i < width m (subtree t q)"
  shows "position_key m t (q @ [i]) = page_keys m (page_of (subtree t q)) ! i"
    "position_key m t (q @ [i]) \<in> set (tree_keys m (subtree t q))"
proof -
  have leaf: "tree_ok m at 0 (subtree t q)" using subtree_ok [OF assms(1,2)] by simp
  show "position_key m t (q @ [i]) = page_keys m (page_of (subtree t q)) ! i"
    using node_key_bytes [OF _ tree_ok_leaf(3) [OF leaf], of i] assms(3)
    by (simp add: position_key_def item_key_of_def item_node_of_def width_def)
  moreover obtain a where "subtree t q = Leaf a" using leaf by (cases "subtree t q") auto
  ultimately show "position_key m t (q @ [i]) \<in> set (tree_keys m (subtree t q))"
    using assms(3) by (simp add: width_def)
qed

lemma position_keys_sorted:
  assumes "tree_ok m at h t" "tree_sorted cmp m t" "positions m h t = A @ p # B"
  shows "\<And>r. r \<in> set A \<Longrightarrow> cmp_order cmp (position_key m t r) (position_key m t p) < 0"
    "\<And>r. r \<in> set B \<Longrightarrow> cmp_order cmp (position_key m t p) (position_key m t r) < 0"
proof -
  have "sorted_wrt (\<lambda>a b. cmp_order cmp a b < 0) (map (position_key m t) (positions m h t))"
    using tree_keys_sorted [OF assms(1,2)] unfolding tree_keys_positions [OF assms(1)] sorted_keys_def position_key_def .
  then show "\<And>r. r \<in> set A \<Longrightarrow> cmp_order cmp (position_key m t r) (position_key m t p) < 0"
      "\<And>r. r \<in> set B \<Longrightarrow> cmp_order cmp (position_key m t p) (position_key m t r) < 0"
    unfolding assms(3) by (auto simp: sorted_wrt_append)
qed

lemma lower_bound_equal:
  assumes "tree_ok m at h t" "tree_sorted cmp m t" "p \<in> set (positions m h t)" "cmp_order cmp k (position_key m t p) = 0"
  shows "lower_bound cmp m h t k = Some p"
proof -
  note order = cmp_order_key_order [of cmp]
  obtain A B where split: "positions m h t = A @ p # B" using assms(3) by (meson split_list)
  have "0 < cmp_order cmp k (position_key m t r)" if "r \<in> set A" for r
    using key_order.ord_less_trans [OF order position_keys_sorted(1) [OF assms(1,2) split that], of k] assms(4)
      key_order.ord_flip [OF order, of k] by simp
  from lower_bound_split(2) [OF split this refl] show ?thesis using assms(4) by simp
qed

subsection \<open>The way to the leaf\<close>

text \<open>All keys left of the path are below the key, all right of it above.\<close>

definition brackets :: "mem \<Rightarrow> comparator \<Rightarrow> u8 list \<Rightarrow> tree \<Rightarrow> nat list \<Rightarrow> bool" where
  "brackets m cmp k t q \<longleftrightarrow>
     (\<exists>us vs. level m t (length q) = us @ q # vs \<and>
        (\<forall>r \<in> set us. \<forall>x \<in> set (tree_keys m (subtree t r)). 0 < cmp_order cmp k x) \<and>
        (\<forall>r \<in> set vs. \<forall>x \<in> set (tree_keys m (subtree t r)). cmp_order cmp k x < 0))"

lemma brackets_Nil: "brackets m cmp k t []"
  unfolding brackets_def by (intro exI [of _ "[]"]) simp

lemma brackets_child:
  assumes "brackets m cmp k t q" "j < width m (subtree t q)"
    and sub: "\<And>r i. r \<in> set (level m t (length q)) \<Longrightarrow> i < width m (subtree t r) \<Longrightarrow>
        set (tree_keys m (child (subtree t r) i)) \<subseteq> set (tree_keys m (subtree t r))"
    and below: "\<And>i x. i < j \<Longrightarrow> x \<in> set (tree_keys m (child (subtree t q) i)) \<Longrightarrow> 0 < cmp_order cmp k x"
    and above: "\<And>i x. j < i \<Longrightarrow> i < width m (subtree t q) \<Longrightarrow> x \<in> set (tree_keys m (child (subtree t q) i)) \<Longrightarrow> cmp_order cmp k x < 0"
  shows "brackets m cmp k t (q @ [j])"
proof -
  obtain us vs where lev: "level m t (length q) = us @ q # vs"
    and us: "\<forall>r \<in> set us. \<forall>x \<in> set (tree_keys m (subtree t r)). 0 < cmp_order cmp k x"
    and vs: "\<forall>r \<in> set vs. \<forall>x \<in> set (tree_keys m (subtree t r)). cmp_order cmp k x < 0"
    using assms(1) unfolding brackets_def by blast
  let ?f = "\<lambda>q. map (\<lambda>j. q @ [j]) [0..<width m (subtree t q)]"
  have split: "[0..<width m (subtree t q)] = [0..<j] @ j # [Suc j..<width m (subtree t q)]"
    using upt_add_eq_append [of 0 j "width m (subtree t q) - j"] assms(2) by (simp add: upt_conv_Cons)
  have "level m t (length (q @ [j])) =
      (concat (map ?f us) @ map (\<lambda>i. q @ [i]) [0..<j]) @ (q @ [j]) # (map (\<lambda>i. q @ [i]) [Suc j..<width m (subtree t q)] @ concat (map ?f vs))"
    by (simp add: level.simps(2) lev split)
  moreover have "0 < cmp_order cmp k x" if "r \<in> set (concat (map ?f us) @ map (\<lambda>i. q @ [i]) [0..<j])" "x \<in> set (tree_keys m (subtree t r))" for r x
  proof -
    have "(\<exists>r' \<in> set us. \<exists>i < width m (subtree t r'). r = r' @ [i]) \<or> (\<exists>i < j. r = q @ [i])" using that(1) by auto
    then consider r' i where "r = r' @ [i]" "r' \<in> set us" "i < width m (subtree t r')" | i where "r = q @ [i]" "i < j" by blast
    then show ?thesis
    proof cases
      case 1
      then have "x \<in> set (tree_keys m (subtree t r'))" using sub [of r' i] lev that(2) by auto
      then show ?thesis using us 1(2) by blast
    next
      case 2
      then show ?thesis using below [of i x] that(2) by simp
    qed
  qed
  moreover have "cmp_order cmp k x < 0"
    if "r \<in> set (map (\<lambda>i. q @ [i]) [Suc j..<width m (subtree t q)] @ concat (map ?f vs))" "x \<in> set (tree_keys m (subtree t r))" for r x
  proof -
    have "(\<exists>r' \<in> set vs. \<exists>i < width m (subtree t r'). r = r' @ [i]) \<or> (\<exists>i < width m (subtree t q). j < i \<and> r = q @ [i])"
      using that(1) by auto
    then consider r' i where "r = r' @ [i]" "r' \<in> set vs" "i < width m (subtree t r')"
      | i where "r = q @ [i]" "j < i" "i < width m (subtree t q)" by blast
    then show ?thesis
    proof cases
      case 1
      then have "x \<in> set (tree_keys m (subtree t r'))" using sub [of r' i] lev that(2) by auto
      then show ?thesis using vs 1(2) by blast
    next
      case 2
      then show ?thesis using above [of i x] that(2) by simp
    qed
  qed
  ultimately show ?thesis unfolding brackets_def by blast
qed

context page_reader
begin

lemma search_top_finds:
  assumes "on_page t q mc" "dbx_cmp (cu_dbx mc) = Some cmp" "\<not> IS_LEAF2 (env_mem E) (page_of (subtree t q))"
    and "first_key (env_mem E) (page_of (subtree t q)) = l" "l < width (env_mem E) (subtree t q)"
    and "keys_admitted cmp (val_bytes (env_mem E) key # drop l (page_keys (env_mem E) (page_of (subtree t q))))"
    and "sorted_keys cmp (drop l (page_keys (env_mem E) (page_of (subtree t q))))"
  obtains exact p where "search_top E key T mc = Some (exact, if p < width (env_mem E) (subtree t q)
        then Some (page_node (env_mem E) (page_of (subtree t q)) p) else None, set_top_ki (of_nat p) mc)"
    "l \<le> p" "p \<le> width (env_mem E) (subtree t q)"
    "\<forall>j. l \<le> j \<longrightarrow> j < p \<longrightarrow> 0 < cmp_order cmp (val_bytes (env_mem E) key) (page_keys (env_mem E) (page_of (subtree t q)) ! j)"
    "exact \<longleftrightarrow> p < width (env_mem E) (subtree t q) \<and> page_keys (env_mem E) (page_of (subtree t q)) ! p = val_bytes (env_mem E) key"
    "\<forall>j. p \<le> j \<longrightarrow> j < width (env_mem E) (subtree t q) \<longrightarrow> (exact \<longrightarrow> j \<noteq> p) \<longrightarrow>
      cmp_order cmp (val_bytes (env_mem E) key) (page_keys (env_mem E) (page_of (subtree t q)) ! j) < 0"
proof -
  let ?tc = "top_view mc T" and ?m = "env_mem E" and ?a = "page_of (subtree t q)"
  have page: "mc_page ?tc = ?a" by (simp add: top_view_def on_page_fields(5) [OF assms(1)])
  have w: "width ?m (subtree t q) = page_numkeys ?m ?a" by (simp add: width_def)
  obtain exact node p where r: "mdbx_node_search (ce_unaligned_ok E) cmp ?m key ?tc = Some (exact, node, ?tc\<lparr>mc_ki := of_nat p\<rparr>)"
      "l \<le> p" "p \<le> page_numkeys ?m ?a" "node = (if p < page_numkeys ?m ?a then Some (page_node ?m ?a p) else None)"
      "\<forall>j. l \<le> j \<longrightarrow> j < p \<longrightarrow> 0 < cmp_order cmp (val_bytes ?m key) (page_keys ?m ?a ! j)"
      "exact \<longleftrightarrow> p < page_numkeys ?m ?a \<and> page_keys ?m ?a ! p = val_bytes ?m key"
      "\<forall>j. p \<le> j \<longrightarrow> j < page_numkeys ?m ?a \<longrightarrow> (exact \<longrightarrow> j \<noteq> p) \<longrightarrow> cmp_order cmp (val_bytes ?m key) (page_keys ?m ?a ! j) < 0"
    using node_search_lower_bound [of cmp ?m key ?tc "ce_unaligned_ok E", unfolded page assms(4) if_not_P [OF assms(3)],
        OF assms(6,7) assms(5) [unfolded w]]
    by (elim exE conjE) (rule that)
  have "search_top E key T mc = Some (exact, node, set_top_ki (of_nat p) mc)"
    using assms(2) r(1) by (simp add: search_top_def)
  then show ?thesis using r(2-) by (intro that [of exact p]) (simp_all add: w)
qed

lemma child_index_finds:
  assumes on: "on_page t q mc" "dbx_cmp (cu_dbx mc) = Some cmp"
    and node: "tree_ok (env_mem E) at (Suc n) (subtree t q)" "tree_sorted cmp (env_mem E) (subtree t q)"
    and adm: "keys_admitted cmp (val_bytes (env_mem E) key # all_keys (env_mem E) (subtree t q))"
  obtains j p where "child_index E (Some key) T mc = Some (int j, set_top_ki (of_nat p) mc)" "j < width (env_mem E) (subtree t q)"
    "\<forall>i x. i < j \<longrightarrow> x \<in> set (tree_keys (env_mem E) (child (subtree t q) i)) \<longrightarrow> 0 < cmp_order cmp (val_bytes (env_mem E) key) x"
    "\<forall>i x. j < i \<longrightarrow> i < width (env_mem E) (subtree t q) \<longrightarrow> x \<in> set (tree_keys (env_mem E) (child (subtree t q) i)) \<longrightarrow>
       cmp_order cmp (val_bytes (env_mem E) key) x < 0"
proof -
  let ?m = "env_mem E" and ?s = "subtree t q"
  let ?a = "page_of ?s" and ?K = "val_bytes (env_mem E) key"
  let ?ks = "page_keys ?m ?a" and ?w = "width ?m ?s"
  note order = cmp_order_key_order [of cmp]
  have w: "2 \<le> ?w" using tree_ok_node(3) [OF node(1)] .
  have sorted: "sorted_keys cmp (drop 1 ?ks)" "set (drop 1 ?ks) \<subseteq> set (all_keys ?m ?s)"
    using tree_sorted_node(6,7) [OF node, of 0] w by simp_all
  have "mp_flags ?m ?a AND P_BRANCH = 1"
    using tree_ok_node(1) [OF node(1)] by (auto simp: IS_BRANCH_def P_BRANCH_def and_one_eq odd_iff_mod_2_eq_one split: if_splits)
  then have first: "first_key ?m ?a = 1" by (simp add: first_key_def)
  have lt: "1 < width ?m ?s" using w by simp
  obtain exact p where s: "search_top E key T mc = Some (exact, if p < ?w then Some (page_node ?m ?a p) else None, set_top_ki (of_nat p) mc)"
      "1 \<le> p" "p \<le> ?w" "\<forall>j. 1 \<le> j \<longrightarrow> j < p \<longrightarrow> 0 < cmp_order cmp ?K (?ks ! j)"
      "exact \<longleftrightarrow> p < ?w \<and> ?ks ! p = ?K" "\<forall>j. p \<le> j \<longrightarrow> j < ?w \<longrightarrow> (exact \<longrightarrow> j \<noteq> p) \<longrightarrow> cmp_order cmp ?K (?ks ! j) < 0"
    by (rule search_top_finds [where T = T, OF on tree_ok_node(2) [OF node(1)] first lt keys_admitted_subset [OF adm sorted(2)] sorted(1)])
  define j where "j = (if exact then p else p - 1)"
  have j: "j < ?w" using s(2,3,5) by (auto simp: j_def)
  have "child_index E (Some key) T mc = Some (int j, set_top_ki (of_nat p) mc)"
  proof -
    have "unat (of_nat p :: u16) = p" by (rule index_word [OF s(3)])
    moreover have "page_numkeys ?m ?a = ?w" by (simp add: width_def)
    ultimately show ?thesis using s(2,3,5) by (auto simp: child_index_def s(1) j_def on_page_fields(5) [OF on(1)])
  qed
  moreover have "0 < cmp_order cmp ?K x" if "i < j" "x \<in> set (tree_keys ?m (child ?s i))" for i x
  proof -
    have "cmp_order cmp x (?ks ! Suc i) < 0" using tree_sorted_node(3) [OF node, of i x] that j by simp
    moreover have "Suc i < p \<or> exact \<and> Suc i = p" using that(1) by (auto simp: j_def split: if_splits)
    then have "0 \<le> cmp_order cmp ?K (?ks ! Suc i)"
      using s(4) [rule_format, of "Suc i"] s(5) key_order.ord_refl [OF order, of ?K] by auto
    ultimately have "cmp_order cmp x ?K < 0"
      using key_order.ord_less_trans [OF order, of x "?ks ! Suc i" ?K] key_order.ord_flip(3) [OF order, of ?K "?ks ! Suc i"] by simp
    then show ?thesis using key_order.ord_flip(1) [OF order] by simp
  qed
  moreover have "cmp_order cmp ?K x < 0" if "j < i" "i < ?w" "x \<in> set (tree_keys ?m (child ?s i))" for i x
  proof -
    have "cmp_order cmp (?ks ! i) x \<le> 0" using tree_sorted_node(2) [OF node that(2) _ that(3)] that(1) by simp
    moreover have "cmp_order cmp ?K (?ks ! i) < 0" using s(6) [rule_format, of i] that(1,2) by (auto simp: j_def split: if_splits)
    ultimately show ?thesis by (rule key_order.ord_less_trans [OF order, rotated])
  qed
  ultimately show ?thesis using j that by blast
qed

lemma search_down_key:
  assumes "tree_ok (env_mem E) at h t" "h < CURSOR_STACK" "tree_sorted cmp (env_mem E) t"
    and adm: "keys_admitted cmp (val_bytes (env_mem E) key # all_keys (env_mem E) t)"
  shows "q \<in> set (level (env_mem E) t l) \<Longrightarrow> l \<le> h \<Longrightarrow> on_page t q mc \<Longrightarrow> like T \<Longrightarrow> dbx_cmp (cu_dbx mc) = Some cmp \<Longrightarrow>
    brackets (env_mem E) cmp (val_bytes (env_mem E) key) t q \<Longrightarrow>
    \<exists>T' mc' q'. search_down E (Some key) 0 T mc = Some (0, T', mc') \<and> like T' \<and> q' \<in> set (level (env_mem E) t h) \<and>
      on_page t q' mc' \<and> same_but_place mc mc' \<and> brackets (env_mem E) cmp (val_bytes (env_mem E) key) t q'"
proof (induction "h - l" arbitrary: l q mc T)
  case 0
  then have "tree_ok (env_mem E) at 0 (subtree t q)" using subtree_ok [OF assms(1), of q h] by simp
  then have "search_down E (Some key) 0 T mc = Some (0, T, mc)"
    using tree_ok_leaf(2) by (simp add: search_down_step [OF 0(4)])
  then show ?case using 0 by auto
next
  case (Suc n)
  let ?m = "env_mem E" and ?K = "val_bytes (env_mem E) key"
  have lh: "l < h" using Suc.hyps(2) by simp
  have node: "tree_ok ?m at (Suc (h - Suc l)) (subtree t q)"
    using subtree_ok [OF assms(1) Suc.prems(1)] lh by (metis Suc_diff_Suc less_imp_le)
  have sub: "tree_sorted cmp ?m (subtree t q)" "set (all_keys ?m (subtree t q)) \<subseteq> set (all_keys ?m t)"
    using subtree_sorted [OF assms(1,3) Suc.prems(1,2)] by simp_all
  obtain j p where ci: "child_index E (Some key) T mc = Some (int j, set_top_ki (of_nat p) mc)" "j < width ?m (subtree t q)"
      "\<forall>i x. i < j \<longrightarrow> x \<in> set (tree_keys ?m (child (subtree t q) i)) \<longrightarrow> 0 < cmp_order cmp ?K x"
      "\<forall>i x. j < i \<longrightarrow> i < width ?m (subtree t q) \<longrightarrow> x \<in> set (tree_keys ?m (child (subtree t q) i)) \<longrightarrow> cmp_order cmp ?K x < 0"
    by (rule child_index_finds [where T = T, OF Suc.prems(3,5) node sub(1) keys_admitted_subset [OF adm sub(2)]])
  obtain T' mc' where s: "like T'" "on_page t (q @ [j]) mc'" "same_but_place mc mc'"
      "descend E (Some key) 0 (page_of (subtree t q)) (int j) T (set_top_ki (of_nat p) mc) = search_down E (Some key) 0 T' mc'"
    by (rule step_down [OF assms(1,2) Suc.prems(1) lh _ Suc.prems(4) ci(2) refl, of "set_top_ki (of_nat p) mc" mc])
      (use Suc.prems(3) in simp_all)
  have code: "search_down E (Some key) 0 T mc = search_down E (Some key) 0 T' mc'"
    using tree_ok_node(1) [OF node] s(4) by (simp add: search_down_step [OF Suc.prems(3)] ci(1))
  have br: "brackets ?m cmp ?K t (q @ [j])"
  proof (rule brackets_child [OF Suc.prems(6) ci(2) _ ci(3,4) [rule_format]])
    fix r i assume "r \<in> set (level ?m t (length q))" "i < width ?m (subtree t r)"
    then have r: "r \<in> set (level ?m t l)" "i < width ?m (subtree t r)" using level_length [OF Suc.prems(1)] by simp_all
    have "tree_ok ?m at (Suc (h - Suc l)) (subtree t r)"
      using subtree_ok [OF assms(1) r(1)] lh by (metis Suc_diff_Suc less_imp_le)
    then show "set (tree_keys ?m (child (subtree t r) i)) \<subseteq> set (tree_keys ?m (subtree t r))"
      using tree_sorted_node(4) [OF _ conjunct1 [OF subtree_sorted [OF assms(1,3) r(1) Suc.prems(2)]] r(2)] by blast
  qed
  have q': "q @ [j] \<in> set (level ?m t (Suc l))" using Suc.prems(1) ci(2) by (simp add: level_snoc)
  have "dbx_cmp (cu_dbx mc') = Some cmp" using same_but_place_fields(3) [OF s(3)] Suc.prems(5) by simp
  then have "\<exists>T'' mc'' q'. search_down E (Some key) 0 T' mc' = Some (0, T'', mc'') \<and> like T'' \<and> q' \<in> set (level ?m t h) \<and>
      on_page t q' mc'' \<and> same_but_place mc' mc'' \<and> brackets ?m cmp ?K t q'"
    using lh Suc.hyps(2) br by (intro Suc.hyps(1) [OF _ q' _ s(2,1)]) simp_all
  then show ?case unfolding code using same_but_place_trans [OF s(3)] by blast
qed

end

end
