(* ===== verification/Tree_Set.thy ===== *)
theory Tree_Set
  imports Tree_Lookup
begin

text \<open>
  \<open>mdbx_cursor_set\<close> on an ordered tree: from any position of the cursor it comes to the first item that
  is not below the key, with and without the short cuts inside the current page.
\<close>

subsection \<open>From a leaf to the lower bound\<close>

lemma leaf_tree_keys:
  assumes "tree_ok m at h t" "q \<in> set (level m t h)" "x \<in> set (tree_keys m (subtree t q))"
  obtains i where "i < width m (subtree t q)" "x = position_key m t (q @ [i])"
proof -
  obtain a where a: "subtree t q = Leaf a" using subtree_ok [OF assms(1,2)] by (cases "subtree t q") auto
  then obtain i where "i < page_numkeys m a" "x = page_keys m a ! i" using assms(3) by (auto simp: in_set_conv_nth)
  then show ?thesis using that [of i] position_key_leaf(1) [OF assms(1,2), of i] a by (simp add: width_def)
qed

text \<open>The place where a search in the leaf ended: a position in it, or the first one of the next leaf.\<close>

definition landing :: "mem \<Rightarrow> tree \<Rightarrow> nat list \<Rightarrow> nat \<Rightarrow> nat list option" where
  "landing m t q p =
     (if p < width m (subtree t q) then Some (q @ [p]) else map_option (\<lambda>q'. q' @ [0]) (adjacent m Right t q))"

lemma leaf_lookup:
  assumes ok: "tree_ok m at h t" and q: "q \<in> set (level m t h)" and br: "brackets m cmp k t q"
    and p: "p \<le> width m (subtree t q)" "\<forall>j < p. 0 < cmp_order cmp k (position_key m t (q @ [j]))"
    and le: "p < width m (subtree t q) \<Longrightarrow> cmp_order cmp k (position_key m t (q @ [p])) \<le> 0"
  shows "lower_bound cmp m h t k = landing m t q p"
    "p = width m (subtree t q) \<Longrightarrow> landing m t q p = Some p' \<Longrightarrow> cmp_order cmp k (position_key m t p') < 0"
proof -
  let ?f = "\<lambda>q. map (\<lambda>j. q @ [j]) [0..<width m (subtree t q)]"
  have len: "length q = h" by (rule level_length [OF q])
  obtain us vs where lev: "level m t h = us @ q # vs"
      and us: "\<forall>r \<in> set us. \<forall>x \<in> set (tree_keys m (subtree t r)). 0 < cmp_order cmp k x"
      and vs: "\<forall>r \<in> set vs. \<forall>x \<in> set (tree_keys m (subtree t r)). cmp_order cmp k x < 0"
    using br unfolding brackets_def len by blast
  have split: "?f q = map (\<lambda>j. q @ [j]) [0..<p] @ map (\<lambda>j. q @ [j]) [p..<width m (subtree t q)]"
    using upt_add_eq_append [of 0 p "width m (subtree t q) - p"] p(1) by (simp flip: map_append)
  have pos: "positions m h t = (concat (map ?f us) @ map (\<lambda>j. q @ [j]) [0..<p]) @
      (map (\<lambda>j. q @ [j]) [p..<width m (subtree t q)] @ concat (map ?f vs))"
    unfolding positions_split [OF lev] split by simp
  have below: "0 < cmp_order cmp k (position_key m t r)" if "r \<in> set (concat (map ?f us) @ map (\<lambda>j. q @ [j]) [0..<p])" for r
  proof -
    have "(\<exists>r' \<in> set us. \<exists>i < width m (subtree t r'). r = r' @ [i]) \<or> (\<exists>i < p. r = q @ [i])" using that by auto
    then consider r' i where "r = r' @ [i]" "r' \<in> set us" "i < width m (subtree t r')" | i where "r = q @ [i]" "i < p" by blast
    then show ?thesis
    proof cases
      case 1
      then have "r' \<in> set (level m t h)" using lev by simp
      from position_key_leaf(2) [OF ok this 1(3)] show ?thesis using us 1 by blast
    qed (use p(2) in blast)
  qed
  have next_leaf: "adjacent m Right t q = (case vs of [] \<Rightarrow> None | q' # _ \<Rightarrow> Some q')"
    using level_adjacent [OF ok, of h] by (auto simp: lev successively_append_iff neighbours_def split: list.split)
  have first: "0 < width m (subtree t q')" "cmp_order cmp k (position_key m t (q' @ [0])) < 0" if "vs = q' # vs'" for q' vs'
  proof -
    have q': "q' \<in> set (level m t h)" using lev that by simp
    show "0 < width m (subtree t q')" using tree_ok_nonempty [OF subtree_ok [OF ok q']] by simp
    from position_key_leaf(2) [OF ok q' this] show "cmp_order cmp k (position_key m t (q' @ [0])) < 0" using vs that by simp
  qed
  show "lower_bound cmp m h t k = landing m t q p"
  proof (cases "p < width m (subtree t q)")
    case True
    show ?thesis
      by (rule trans [OF lower_bound_split(2) [OF pos below _ le [OF True]]])
        (use True in \<open>simp_all add: landing_def upt_conv_Cons\<close>)
  next
    case False
    show ?thesis
    proof (cases vs)
      case Nil
      show ?thesis by (rule trans [OF lower_bound_split(1) [OF pos below]]) (use False Nil next_leaf in \<open>simp_all add: landing_def\<close>)
    next
      case (Cons q' vs')
      have "?f q' = (q' @ [0]) # map (\<lambda>j. q' @ [j]) [1..<width m (subtree t q')]"
        using first(1) [OF Cons] by (simp add: upt_conv_Cons)
      then show ?thesis using first [OF Cons] False Cons next_leaf
        by (intro trans [OF lower_bound_split(2) [OF pos below, where p = "q' @ [0]"]]) (simp_all add: landing_def)
    qed
  qed
  show "cmp_order cmp k (position_key m t p') < 0" if "p = width m (subtree t q)" "landing m t q p = Some p'"
    using that next_leaf first(2) by (auto simp: landing_def split: list.splits)
qed

text \<open>Which leaf can hold the key.\<close>

lemma leaf_order:
  assumes ok: "tree_ok m at h t" "tree_sorted cmp m t" and lev: "level m t h = us @ q # vs" and i: "i < width m (subtree t q)"
  shows "r \<in> set us \<Longrightarrow> x \<in> set (tree_keys m (subtree t r)) \<Longrightarrow> cmp_order cmp x (position_key m t (q @ [i])) < 0"
    "r \<in> set vs \<Longrightarrow> x \<in> set (tree_keys m (subtree t r)) \<Longrightarrow> cmp_order cmp (position_key m t (q @ [i])) x < 0"
    "j < i \<Longrightarrow> cmp_order cmp (position_key m t (q @ [j])) (position_key m t (q @ [i])) < 0"
proof -
  let ?f = "\<lambda>q. map (\<lambda>j. q @ [j]) [0..<width m (subtree t q)]"
  have "[0..<width m (subtree t q)] = [0..<i] @ i # [Suc i..<width m (subtree t q)]"
    using upt_add_eq_append [of 0 i "width m (subtree t q) - i"] i by (simp add: upt_conv_Cons)
  then have "positions m h t = (concat (map ?f us) @ map (\<lambda>j. q @ [j]) [0..<i]) @ (q @ [i]) #
      (map (\<lambda>j. q @ [j]) [Suc i..<width m (subtree t q)] @ concat (map ?f vs))"
    unfolding positions_split [OF lev] by simp
  note sorted = position_keys_sorted [OF ok this]
  have leaf: "\<exists>j < width m (subtree t r). x = position_key m t (r @ [j])"
    if "r \<in> set us \<union> set vs" "x \<in> set (tree_keys m (subtree t r))" for r x
    using leaf_tree_keys [OF ok(1) _ that(2)] that(1) lev by (metis UnE Un_iff list.set_intros(2) set_append)
  show "cmp_order cmp x (position_key m t (q @ [i])) < 0" if "r \<in> set us" "x \<in> set (tree_keys m (subtree t r))"
    using leaf [of r x] that by (fastforce intro!: sorted(1))
  show "cmp_order cmp (position_key m t (q @ [i])) x < 0" if "r \<in> set vs" "x \<in> set (tree_keys m (subtree t r))"
    using leaf [of r x] that by (fastforce intro!: sorted(2))
  show "cmp_order cmp (position_key m t (q @ [j])) (position_key m t (q @ [i])) < 0" if "j < i"
    by (rule sorted(1)) (use that in auto)
qed

lemma brackets_inside:
  assumes ok: "tree_ok m at h t" "tree_sorted cmp m t" "q \<in> set (level m t h)"
    and lo: "i < width m (subtree t q)" "0 \<le> cmp_order cmp k (position_key m t (q @ [i]))"
    and hi: "adjacent m Right t q = None \<or>
      (\<exists>j < width m (subtree t q). cmp_order cmp k (position_key m t (q @ [j])) \<le> 0)"
  shows "brackets m cmp k t q"
proof -
  note order = cmp_order_key_order [of cmp]
  obtain us vs where lev: "level m t h = us @ q # vs" using ok(3) by (meson split_list)
  note sorted = leaf_order [OF ok(1,2) lev]
  have us: "0 < cmp_order cmp k x" if "r \<in> set us" "x \<in> set (tree_keys m (subtree t r))" for r x
    using key_order.ord_less_trans [OF order sorted(1) [OF lo(1) that]] lo(2) key_order.ord_flip [OF order, of k] by blast
  have vs: "cmp_order cmp k x < 0" if r: "r \<in> set vs" "x \<in> set (tree_keys m (subtree t r))" for r x
    using hi
  proof
    assume "adjacent m Right t q = None"
    then have "vs = []"
      using level_adjacent [OF ok(1), of h] by (cases vs) (auto simp: lev successively_append_iff neighbours_def)
    then show ?thesis using r by simp
  next
    assume "\<exists>j < width m (subtree t q). cmp_order cmp k (position_key m t (q @ [j])) \<le> 0"
    then show ?thesis using key_order.ord_le_less_trans [OF order] sorted(2) [OF _ r] by blast
  qed
  show ?thesis using lev us vs unfolding brackets_def level_length [OF ok(3)] by blast
qed

text \<open>No page to the right on any level above.\<close>

lemma adjacent_none:
  "(\<And>l. l < length q \<Longrightarrow> outside Right (width m (subtree t (take l q))) (q ! l)) \<Longrightarrow> adjacent m Right t q = None"
proof (induction q rule: rev_induct)
  case (snoc j q)
  have "adjacent m Right t q = None"
    using snoc.prems [of l for l] by (intro snoc.IH) (metis butlast_snoc length_append_singleton less_SucI nth_append take_butlast)
  moreover have "outside Right (width m (subtree t q)) j" using snoc.prems [of "length q"] by simp
  ultimately show ?case by (simp add: adjacent_snoc)
qed simp

lemma siblings_word:
  assumes "j < w" "w < 32768"
  shows "(ucast (of_nat j :: u16) :: u32) < of_nat w - 1 \<longleftrightarrow> j + 1 < w"
proof -
  obtain v where v: "w = Suc v" using assms(1) by (cases w) auto
  have j: "(ucast (of_nat j :: u16) :: u32) = of_nat j"
    using assms by (simp add: word_unat_eq_iff unat_ucast_lt unat_of_nat_lt)
  show ?thesis using assms by (simp add: v j word_less_nat_alt unat_of_nat_lt)
qed

lemma no_right_siblings:
  assumes "tree_ok (env_mem E) at h t" "q \<in> set (level (env_mem E) t h)" "on_page t q mc" "\<not> right_siblings E mc"
  shows "adjacent (env_mem E) Right t q = None"
proof (rule adjacent_none)
  fix l assume l: "l < length q"
  let ?w = "width (env_mem E) (subtree t (take l q))"
  have f: "cu_pg mc l = page_of (subtree t (take l q))" "cu_ki mc l = of_nat (q ! l)"
    using on_page_fields(3) [OF assms(3)] l by (simp_all add: follows_def)
  have "\<not> (ucast (cu_ki mc l) :: u32) < of_nat (page_numkeys (env_mem E) (cu_pg mc l)) - 1"
    using assms(4) l unfolding right_siblings_def on_page_fields(2) [OF assms(3)] by (meson lessThan_iff)
  then have "\<not> (ucast (of_nat (q ! l) :: u16) :: u32) < of_nat ?w - 1" unfolding f width_def .
  moreover have "q ! l < ?w"
    using level_nth_width [OF assms(2)] l level_length [OF assms(2)] by simp
  ultimately show "outside Right ?w (q ! l)" using siblings_word [OF _ width_less] by simp
qed

text \<open>
  Keys of the sizes the table takes; integer keys are aligned to their size, so that they are not copied.
\<close>

definition key_fits :: "table_db \<Rightarrow> table_dbx \<Rightarrow> mdbx_val \<Rightarrow> bool" where
  "key_fits db dbx key \<longleftrightarrow>
     dbx_klen_min dbx \<le> iov_len key \<and> iov_len key \<le> dbx_klen_max dbx \<and>
     (db_flags db AND ucast MDBX_INTEGERKEY \<noteq> 0 \<longrightarrow>
        (iov_len key = 4 \<or> iov_len key = 8) \<and> iov_base key mod unat (iov_len key) = 0)"

subsection \<open>The search and the item found\<close>

context page_reader
begin

lemma leaf_search:
  assumes ok: "tree_ok (env_mem E) at h t" "tree_sorted cmp (env_mem E) t"
    and adm: "keys_admitted cmp (val_bytes (env_mem E) key # all_keys (env_mem E) t)"
    and mc: "dbx_cmp (cu_dbx mc) = Some cmp" "q \<in> set (level (env_mem E) t h)" "on_page t q mc"
    and br: "brackets (env_mem E) cmp (val_bytes (env_mem E) key) t q"
  obtains exact p where "search_top E key T mc = Some (exact, if p < width (env_mem E) (subtree t q)
        then Some (page_node (env_mem E) (page_of (subtree t q)) p) else None, set_top_ki (of_nat p) mc)"
    "p \<le> width (env_mem E) (subtree t q)"
    "exact \<longleftrightarrow> p < width (env_mem E) (subtree t q) \<and> position_key (env_mem E) t (q @ [p]) = val_bytes (env_mem E) key"
    "lower_bound cmp (env_mem E) h t (val_bytes (env_mem E) key) = landing (env_mem E) t q p"
    "\<forall>p'. p = width (env_mem E) (subtree t q) \<longrightarrow> landing (env_mem E) t q p = Some p' \<longrightarrow>
      position_key (env_mem E) t p' \<noteq> val_bytes (env_mem E) key"
proof -
  let ?m = "env_mem E" and ?s = "subtree t q" and ?K = "val_bytes (env_mem E) key"
  note order = cmp_order_key_order [of cmp]
  note leaf = leaf_at [OF ok(1) mc(2)]
  obtain a where a: "?s = Leaf a" using subtree_ok [OF ok(1) mc(2)] by (cases ?s) auto
  have first: "first_key ?m (page_of ?s) = 0" using leaf(3) by (simp add: first_key_def IS_BRANCH_def unat_eq_zero)
  have sub: "sorted_keys cmp (page_keys ?m (page_of ?s))" "set (page_keys ?m (page_of ?s)) \<subseteq> set (all_keys ?m t)"
    using subtree_sorted [OF ok mc(2)] by (simp_all add: a)
  have sub0: "keys_admitted cmp (?K # drop 0 (page_keys ?m (page_of ?s)))" "sorted_keys cmp (drop 0 (page_keys ?m (page_of ?s)))"
    using sub keys_admitted_subset [OF adm] by simp_all
  obtain exact p where s: "search_top E key T mc = Some (exact, if p < width ?m ?s then Some (page_node ?m (page_of ?s) p) else None,
        set_top_ki (of_nat p) mc)"
      "p \<le> width ?m ?s" "\<forall>j. 0 \<le> j \<longrightarrow> j < p \<longrightarrow> 0 < cmp_order cmp ?K (page_keys ?m (page_of ?s) ! j)"
      "exact \<longleftrightarrow> p < width ?m ?s \<and> page_keys ?m (page_of ?s) ! p = ?K"
      "\<forall>j. p \<le> j \<longrightarrow> j < width ?m ?s \<longrightarrow> (exact \<longrightarrow> j \<noteq> p) \<longrightarrow> cmp_order cmp ?K (page_keys ?m (page_of ?s) ! j) < 0"
    by (rule search_top_finds [where T = T, OF mc(3,1) leaf(2) first leaf(5) sub0])
  note key = position_key_leaf(1) [OF ok(1) mc(2)]
  have lo: "\<forall>j < p. 0 < cmp_order cmp ?K (position_key ?m t (q @ [j]))" using s(2,3) key by simp
  have "cmp_order cmp ?K (position_key ?m t (q @ [p])) \<le> 0" if "p < width ?m ?s"
  proof (cases exact)
    case True
    then show ?thesis using s(4) key [OF that] by (simp add: key_order.ord_refl [OF order])
  qed (use s(5) key [OF that] that in \<open>simp add: less_imp_le\<close>)
  note bound = leaf_lookup [OF ok(1) mc(2) br s(2) lo this]
  have "position_key ?m t p' \<noteq> ?K" if "p = width ?m ?s" "landing ?m t q p = Some p'" for p'
    using bound(2) [OF _ that] key_order.ord_refl [OF order, of ?K] that(1) by fastforce
  then show ?thesis using s(1,2,4) bound(1) key [of p] by (intro that [of exact p]) auto
qed

definition finds :: "comparator \<Rightarrow> nat \<Rightarrow> tree \<Rightarrow> cursor_op \<Rightarrow> mdbx_val \<Rightarrow> 'x cursor \<Rightarrow>
    (bool \<times> int \<times> nat \<times> page_txn \<times> 'x cursor) option \<Rightarrow> bool" where
  "finds cmp h t op key mc r \<longleftrightarrow>
     (\<exists>rc exact node T' mc'. r = Some (exact, rc, node, T', mc') \<and> like T' \<and> on_leaf (env_mem E) h t mc' \<and> same_table mc mc' \<and>
        (cu_flags mc' = cu_flags mc \<or> cu_flags mc' = cu_flags mc OR C_EOF) \<and>
        (case sought cmp (env_mem E) h t (val_bytes (env_mem E) key) op of
           None \<Rightarrow> \<not> exact \<and> rc = error_code MDBX_NOTFOUND
         | Some p \<Rightarrow> (exact \<longleftrightarrow> position_key (env_mem E) t p = val_bytes (env_mem E) key) \<and> rc = 0 \<and>
             node = item_node_of (env_mem E) t p \<and> at_item t p mc' \<and> p \<in> set (positions (env_mem E) h t)))"

lemma search_item_finds:
  assumes ok: "tree_ok (env_mem E) at h t" "h < CURSOR_STACK" "tree_sorted cmp (env_mem E) t" "like T"
    and adm: "keys_admitted cmp (val_bytes (env_mem E) key # all_keys (env_mem E) t)"
    and mc: "dbx_cmp (cu_dbx mc) = Some cmp" "q \<in> set (level (env_mem E) t h)" "on_page t q mc"
    and br: "brackets (env_mem E) cmp (val_bytes (env_mem E) key) t q"
  shows "finds cmp h t op key mc (search_item E op key T mc)"
proof -
  let ?m = "env_mem E" and ?s = "subtree t q" and ?K = "val_bytes (env_mem E) key"
  note leaf = leaf_at [OF ok(1) mc(2)]
  obtain exact p where s: "search_top E key T mc = Some (exact, if p < width ?m ?s then Some (page_node ?m (page_of ?s) p) else None,
        set_top_ki (of_nat p) mc)" "p \<le> width ?m ?s" "exact \<longleftrightarrow> p < width ?m ?s \<and> position_key ?m t (q @ [p]) = ?K"
      "lower_bound cmp ?m h t ?K = landing ?m t q p"
      "\<forall>p'. p = width ?m ?s \<longrightarrow> landing ?m t q p = Some p' \<longrightarrow> position_key ?m t p' \<noteq> ?K"
    by (rule leaf_search [where T = T, OF ok(1,3) adm mc br])
  let ?mc = "set_top_ki (of_nat p) mc"
  have ki: "unat (top_ki ?mc) = p" using index_word [OF s(2)] by simp
  have on: "on_leaf ?m h t ?mc" using mc(2,3) s(2) ki by (auto simp: on_leaf_def intro!: bexI [of _ q])
  show ?thesis
  proof (cases "p < width ?m ?s \<and> (exact \<or> op = MDBX_SET_RANGE)")
    case True
    have "at_item t (q @ [p]) ?mc" using mc(3) by (simp add: at_item_snoc)
    moreover have "q @ [p] \<in> set (positions ?m h t)" using mc(2) True by (simp add: level_snoc)
    moreover have "sought cmp ?m h t ?K op = Some (q @ [p])" using True s(3,4) by (auto simp: sought_def landing_def)
    moreover have "search_item E op key T mc = Some (exact, 0, page_node ?m (page_of ?s) p, T, ?mc)"
      using True s(1) by (cases exact) (simp_all add: search_item_def)
    ultimately show ?thesis using ok(4) on True s(3) by (simp add: finds_def item_node_of_def)
  next
    case False
    then have inexact: "\<not> exact" using s(3) by blast
    show ?thesis
    proof (cases "op = MDBX_SET_RANGE")
      case False
      have "sought cmp ?m h t ?K op = None"
        using False inexact s(2-5) by (auto simp: sought_def landing_def split: option.splits)
      then show ?thesis using False inexact s(1) ok(4) on by (auto simp: finds_def search_item_def)
    next
      case True
      then have p: "p = width ?m ?s" using False s(2) by simp
      then have land: "sought cmp ?m h t ?K op = map_option (\<lambda>q'. q' @ [0]) (adjacent ?m Right t q)"
        using True s(4) by (simp add: sought_def landing_def split: option.splits)
      have code: "search_item E op key T mc = do {
          (rc, T, mc) \<leftarrow> mdbx_cursor_sibling E Right T ?mc;
          Some (if rc \<noteq> 0 then (False, rc, 0, T, set_flag C_EOF mc) else (False, 0, item_node E mc 0, T, mc))
        }" using True p inexact s(1) by (simp add: search_item_def)
      have "on_page t q ?mc" using mc(3) by simp
      note sib = sibling_moves [OF ok(1,2) mc(2) order_refl this ok(4), of Right]
      show ?thesis
      proof (cases "adjacent ?m Right t q")
        case None
        then have "mdbx_cursor_sibling E Right T ?mc = Some (error_code MDBX_NOTFOUND, T, ?mc)" using sib by simp
        then show ?thesis using None land ok(4) on unfolding code by (auto simp: finds_def error_code.simps)
      next
        case (Some q')
        have q': "q' \<in> set (level ?m t h)" by (rule adjacent_in_level [OF ok(1) _ mc(2) Some]) simp
        note leaf' = leaf_at [OF ok(1) q']
        obtain T' mc' where m: "mdbx_cursor_sibling E Right T ?mc = Some (0, T', mc')" "like T'" "on_page t q' mc'"
            "top_ki mc' = of_nat 0" "same_but_place ?mc mc'" using sib Some by auto
        have "item_node E mc' 0 = item_node_of ?m t (q' @ [0])"
          using leaf'(2) by (simp add: item_node_def item_node_of_def on_page_fields(5) [OF m(3)])
        moreover have "at_item t (q' @ [0]) mc'" using m(3,4) by (simp add: at_item_snoc)
        moreover have "q' @ [0] \<in> set (positions ?m h t)" using q' leaf'(5) by (simp add: level_snoc)
        moreover have "on_leaf ?m h t mc'" using q' m(3,4) by (auto simp: on_leaf_def intro!: bexI [of _ q'])
        moreover have "same_table mc mc'" "cu_flags mc' = cu_flags mc"
          using m(5) by (simp_all add: same_but_place_def same_table_def)
        moreover have "position_key ?m t (q' @ [0]) \<noteq> ?K"
          using s(5) p Some by (simp add: landing_def)
        ultimately show ?thesis using Some land m(1,2) unfolding code by (auto simp: finds_def)
      qed
    qed
  qed
qed

text \<open>The comparison with an item of the current page.\<close>

lemma compare_item_order:
  assumes ok: "tree_ok (env_mem E) at h t" "tree_sorted cmp (env_mem E) t"
    and adm: "keys_admitted cmp (val_bytes (env_mem E) key # all_keys (env_mem E) t)"
    and mc: "dbx_cmp (cu_dbx mc) = Some cmp" "q \<in> set (level (env_mem E) t h)" "on_page t q mc" "i < width (env_mem E) (subtree t q)"
  obtains r where "compare_item E key mc i = Some r"
    "sgn r = sgn (cmp_order cmp (val_bytes (env_mem E) key) (position_key (env_mem E) t (q @ [i])))"
    "r = 0 \<longleftrightarrow> position_key (env_mem E) t (q @ [i]) = val_bytes (env_mem E) key"
proof -
  let ?m = "env_mem E" and ?K = "val_bytes (env_mem E) key"
  note leaf = leaf_at [OF ok(1) mc(2)]
  have item: "item_key E mc i = item_key_of ?m t (q @ [i])"
    using leaf(2) by (simp add: item_key_def item_key_of_def item_node_of_def on_page_fields(5) [OF mc(3)])
  have "position_key ?m t (q @ [i]) \<in> set (tree_keys ?m (subtree t q))" by (rule position_key_leaf(2) [OF ok(1) mc(2,4)])
  then have mem: "position_key ?m t (q @ [i]) \<in> set (all_keys ?m t)"
    using subtree_sorted [OF ok mc(2)] tree_keys_all by blast
  then obtain r where r: "compare_item E key mc i = Some r" "sgn r = sgn (cmp_order cmp ?K (position_key ?m t (q @ [i])))"
    using cmp_with_key [OF adm, of "item_key_of ?m t (q @ [i])" cmp "ce_unaligned_ok E"] mc(1)
    by (auto simp: compare_item_def item position_key_def)
  moreover have "r = 0 \<longleftrightarrow> cmp_order cmp ?K (position_key ?m t (q @ [i])) = 0" using r(2) by (metis sgn_eq_0_iff)
  ultimately show ?thesis using that cmp_order_equal [OF adm mem] by blast
qed

text \<open>Where the short cuts lead.\<close>

definition routed :: "comparator \<Rightarrow> nat \<Rightarrow> tree \<Rightarrow> cursor_op \<Rightarrow> mdbx_val \<Rightarrow> set_route \<Rightarrow> 'x cursor \<Rightarrow> bool" where
  "routed cmp h t op key route mc \<longleftrightarrow>
     (case route of
        Search_tree \<Rightarrow> True
      | Search_node \<Rightarrow> \<exists>q \<in> set (level (env_mem E) t h). on_page t q mc \<and> brackets (env_mem E) cmp (val_bytes (env_mem E) key) t q
      | Not_found \<Rightarrow> sought cmp (env_mem E) h t (val_bytes (env_mem E) key) op = None
      | Got_node exact node \<Rightarrow> (\<exists>p \<in> set (positions (env_mem E) h t).
          sought cmp (env_mem E) h t (val_bytes (env_mem E) key) op = Some p \<and> at_item t p mc \<and>
          node = item_node_of (env_mem E) t p \<and> (exact \<longleftrightarrow> position_key (env_mem E) t p = val_bytes (env_mem E) key)))"

definition routes :: "comparator \<Rightarrow> nat \<Rightarrow> tree \<Rightarrow> cursor_op \<Rightarrow> mdbx_val \<Rightarrow> 'x cursor \<Rightarrow> (set_route \<times> 'x cursor) option \<Rightarrow> bool" where
  "routes cmp h t op key mc r \<longleftrightarrow>
     (\<exists>route mc'. r = Some (route, mc') \<and> routed cmp h t op key route mc' \<and> on_leaf (env_mem E) h t mc' \<and> same_table mc mc' \<and>
        (\<exists>f. f AND (C_INITIALIZED OR C_DEL) = 0 \<and> (cu_flags mc' = cu_flags mc OR f \<or> cu_flags mc' = cu_flags mc AND NOT f)))"

lemma routesI:
  assumes "r = Some (route, mc')" "routed cmp h t op key route mc'" "on_leaf (env_mem E) h t mc'"
    and "mc' = set_top_ki i mc \<or> mc' = set_flag C_EOF (set_top_ki i mc) \<or> mc' = clear_flag C_EOF mc \<or> mc' = mc"
  shows "routes cmp h t op key mc r"
proof -
  have "C_EOF AND (C_INITIALIZED OR C_DEL) = 0" by (simp add: C_EOF_def C_INITIALIZED_def C_DEL_def)
  moreover have "same_table mc mc'" using assms(4) by auto
  moreover have "cu_flags mc' = cu_flags mc \<or> cu_flags mc' = cu_flags mc OR C_EOF \<or> cu_flags mc' = cu_flags mc AND NOT C_EOF"
    using assms(4) by auto
  ultimately show ?thesis unfolding routes_def using assms(1-3)
    by (intro exI [of _ route] exI [of _ mc'] conjI) (auto intro: exI [of _ 0])
qed

lemma routed_item:
  assumes ok: "tree_ok (env_mem E) at h t" "tree_sorted cmp (env_mem E) t"
    and q: "q \<in> set (level (env_mem E) t h)" "i < width (env_mem E) (subtree t q)" "on_page t q mc" "top_ki mc = of_nat i"
    and key: "position_key (env_mem E) t (q @ [i]) = val_bytes (env_mem E) key"
  shows "routed cmp h t op key (Got_node True (item_node E mc i)) mc"
proof -
  let ?m = "env_mem E" and ?p = "q @ [i]"
  have p: "?p \<in> set (positions ?m h t)" using q by (simp add: level_snoc)
  have "lower_bound cmp ?m h t (val_bytes ?m key) = Some ?p"
    by (rule lower_bound_equal [OF ok p]) (simp add: key key_order.ord_refl [OF cmp_order_key_order])
  then have "sought cmp ?m h t (val_bytes ?m key) op = Some ?p" by (simp add: sought_def key)
  moreover have "item_node E mc i = item_node_of ?m t ?p"
    using leaf_at(2) [OF ok(1) q(1)] by (simp add: item_node_def item_node_of_def on_page_fields(5) [OF q(3)])
  ultimately show ?thesis using p q key by (auto simp: routed_def at_item_snoc intro!: bexI [of _ ?p])
qed

lemma further_routes:
  assumes ok: "tree_ok (env_mem E) at h t" "tree_sorted cmp (env_mem E) t"
    and mc: "q \<in> set (level (env_mem E) t h)" "on_page t q mc" "on_leaf (env_mem E) h t mc"
    and last: "0 < cmp_order cmp (val_bytes (env_mem E) key) (position_key (env_mem E) t (q @ [width (env_mem E) (subtree t q) - 1]))"
  shows "routes cmp h t op key mc (Some (if right_siblings E mc then (Search_tree, mc)
      else (Not_found, set_flag C_EOF (set_top_ki (of_nat (width (env_mem E) (subtree t q))) mc))))"
proof (cases "right_siblings E mc")
  case True
  then show ?thesis using mc(3) by (intro routesI [where route = Search_tree and mc' = mc]) (simp_all add: routed_def)
next
  case False
  let ?m = "env_mem E" and ?w = "width (env_mem E) (subtree t q)" and ?K = "val_bytes (env_mem E) key"
  note order = cmp_order_key_order [of cmp]
  have w: "?w - 1 < ?w" using leaf_at(5) [OF ok(1) mc(1)] by simp
  have adj: "adjacent ?m Right t q = None" by (rule no_right_siblings [OF ok(1) mc(1,2) False])
  obtain us vs where lev: "level ?m t h = us @ q # vs" using mc(1) by (meson split_list)
  have "0 < cmp_order cmp ?K (position_key ?m t (q @ [j]))" if "j < ?w" for j
  proof (cases "j = ?w - 1")
    case False
    then have "cmp_order cmp (position_key ?m t (q @ [j])) (position_key ?m t (q @ [?w - 1])) < 0"
      using that by (intro leaf_order(3) [OF ok lev w]) simp
    then show ?thesis
      using key_order.ord_less_trans [OF order, of "position_key ?m t (q @ [j])" _ ?K] last
        key_order.ord_flip [OF order, of ?K] by (meson less_imp_le)
  qed (use last in simp)
  moreover have "brackets ?m cmp ?K t q" using last adj by (intro brackets_inside [OF ok mc(1) w]) simp_all
  ultimately have "lower_bound cmp ?m h t ?K = landing ?m t q ?w" by (intro leaf_lookup(1) [OF ok(1) mc(1)]) simp_all
  then have none: "sought cmp ?m h t ?K op = None" by (simp add: sought_def landing_def adj)
  have "unat (of_nat ?w :: u16) = ?w" by (rule index_word [OF order_refl])
  then have "on_leaf ?m h t (set_flag C_EOF (set_top_ki (of_nat ?w) mc))"
    using mc(1,2) by (auto simp: on_leaf_def intro!: bexI [of _ q])
  then show ?thesis using none False
    by (intro routesI [where route = Not_found and mc' = "set_flag C_EOF (set_top_ki (of_nat ?w) mc)" and i = "of_nat ?w"])
      (simp_all add: routed_def)
qed

lemma shortcut_routes:
  assumes ok: "tree_ok (env_mem E) at h t" "tree_sorted cmp (env_mem E) t"
    and adm: "keys_admitted cmp (val_bytes (env_mem E) key # all_keys (env_mem E) t)"
    and mc: "dbx_cmp (cu_dbx mc) = Some cmp" "on_leaf (env_mem E) h t mc"
  shows "routes cmp h t op key mc (set_shortcut E op key mc)"
proof -
  let ?m = "env_mem E" and ?K = "val_bytes (env_mem E) key"
  note order = cmp_order_key_order [of cmp]
  obtain q where q: "q \<in> set (level ?m t h)" "on_page t q mc" "unat (top_ki mc) \<le> width ?m (subtree t q)"
    using mc(2) by (auto simp: on_leaf_def)
  define w where "w = width ?m (subtree t q)"
  have w: "0 < w" using leaf_at(5) [OF ok(1) q(1)] by (simp add: w_def)
  have num: "page_numkeys ?m (top_page mc) = w" by (simp add: on_page_fields(5) [OF q(2)] w_def width_def)
  have on: "on_leaf ?m h t (set_top_ki (of_nat i) mc)" if "i < w" for i
    using q(1,2) that index_word [of i ?m "subtree t q"] by (auto simp: on_leaf_def w_def intro!: bexI [of _ q])
  have item: "routes cmp h t op key mc (Some (Got_node True (item_node E mc i), mc'))"
    if "i < w" "position_key ?m t (q @ [i]) = ?K" "mc' = set_top_ki (of_nat i) mc \<or> mc' = mc \<and> top_ki mc = of_nat i" for i mc'
  proof (rule routesI [OF refl, where i = "of_nat i"])
    have mc': "on_page t q mc'" "top_ki mc' = of_nat i" using that(3) q(2) by auto
    have "item_node E mc i = item_node E mc' i" using that(3) by (auto simp: item_node_def)
    then show "routed cmp h t op key (Got_node True (item_node E mc i)) mc'"
      using routed_item [OF ok q(1) _ mc' that(2)] that(1) by (simp add: w_def)
    show "on_leaf ?m h t mc'" using that(3) on [OF that(1)] mc(2) by auto
    show "mc' = set_top_ki (of_nat i) mc \<or> mc' = set_flag C_EOF (set_top_ki (of_nat i) mc) \<or> mc' = clear_flag C_EOF mc \<or> mc' = mc"
      using that(3) by blast
  qed
  have cmp: "\<exists>r. compare_item E key mc i = Some r \<and> sgn r = sgn (cmp_order cmp ?K (position_key ?m t (q @ [i]))) \<and>
      (r = 0 \<longleftrightarrow> position_key ?m t (q @ [i]) = ?K)" if "i < w" for i
    using compare_item_order [OF ok adm mc(1) q(1,2) that [unfolded w_def]] by metis
  obtain r0 where r0: "compare_item E key mc 0 = Some r0" "sgn r0 = sgn (cmp_order cmp ?K (position_key ?m t (q @ [0])))"
      "r0 = 0 \<longleftrightarrow> position_key ?m t (q @ [0]) = ?K" using cmp [OF w] by blast
  obtain r1 where r1: "compare_item E key mc (w - 1) = Some r1" "sgn r1 = sgn (cmp_order cmp ?K (position_key ?m t (q @ [w - 1])))"
      "r1 = 0 \<longleftrightarrow> position_key ?m t (q @ [w - 1]) = ?K" using cmp [of "w - 1"] w by fastforce
  have sgn: "0 < r0 \<longleftrightarrow> 0 < cmp_order cmp ?K (position_key ?m t (q @ [0]))"
    "r1 < 0 \<longleftrightarrow> cmp_order cmp ?K (position_key ?m t (q @ [w - 1])) < 0"
    "0 < r1 \<longleftrightarrow> 0 < cmp_order cmp ?K (position_key ?m t (q @ [w - 1]))"
    using r0(2) r1(2) by (simp_all add: sgn_if split: if_splits)
  have further: "routes cmp h t op key mc (Some (if right_siblings E mc then (Search_tree, mc)
      else (Not_found, set_flag C_EOF (set_top_ki (of_nat w) mc))))" if "0 < cmp_order cmp ?K (position_key ?m t (q @ [w - 1]))"
    unfolding w_def by (rule further_routes [OF ok q(1,2) mc(2) that [unfolded w_def]])
  have inside: "routes cmp h t op key mc (Some (Search_node, clear_flag C_EOF mc))" if "0 < r0" "r1 < 0"
  proof -
    have "brackets ?m cmp ?K t q"
      using sgn that w by (intro brackets_inside [OF ok q(1), of 0]) (auto simp: w_def intro!: exI [of _ "w - 1"])
    then show ?thesis using q(1,2) mc(2)
      by (intro routesI [where route = Search_node and mc' = "clear_flag C_EOF mc"]) (auto simp: routed_def)
  qed
  have code: "set_shortcut E op key mc =
      (if r0 = 0 then Some (Got_node True (item_node E mc 0), set_top_ki 0 mc)
       else if r0 > 0
       then (if w > 1
             then (if r1 = 0 then Some (Got_node True (item_node E mc (w - 1)), set_top_ki (of_nat (w - 1)) mc)
                   else if r1 < 0
                   then (if unat (top_ki mc) < w
                         then do {
                           cmp \<leftarrow> compare_item E key mc (unat (top_ki mc));
                           Some (if cmp = 0 then (Got_node True (item_node E mc (unat (top_ki mc))), mc) else (Search_node, clear_flag C_EOF mc))
                         }
                         else Some (Search_node, clear_flag C_EOF mc))
                   else Some (if right_siblings E mc then (Search_tree, mc) else (Not_found, set_flag C_EOF (set_top_ki (of_nat w) mc))))
             else Some (if right_siblings E mc then (Search_tree, mc) else (Not_found, set_flag C_EOF (set_top_ki (of_nat w) mc))))
       else Some (if cu_top mc = 0
                  then (if op = MDBX_SET_RANGE then Got_node False (item_node E mc 0) else Not_found, set_top_ki 0 mc)
                  else (Search_tree, mc)))"
    unfolding set_shortcut_def num Let_def using w r0(1) r1(1) by (simp del: One_nat_def)
  consider (eq0) "r0 = 0" | (low) "r0 < 0" | (one) "0 < r0" "w = 1" | (eq1) "0 < r0" "1 < w" "r1 = 0"
    | (high) "0 < r0" "1 < w" "0 < r1" | (mid) "0 < r0" "1 < w" "r1 < 0" using w by linarith
  then show ?thesis
  proof cases
    case eq0
    then show ?thesis unfolding code using item [of 0] w r0(3) by simp
  next
    case one
    then show ?thesis unfolding code using further sgn(1) by simp
  next
    case eq1
    then show ?thesis unfolding code using item [of "w - 1"] r1(3) by simp
  next
    case high
    then show ?thesis unfolding code using further sgn(3) by simp
  next
    case low
    show ?thesis
    proof (cases "cu_top mc = 0")
      case False
      then show ?thesis unfolding code using low mc(2)
        by (intro routesI [where route = Search_tree and mc' = mc]) (simp_all add: routed_def)
    next
      case True
      then have qN: "q = []" "h = 0" using on_page_fields(2) [OF q(2)] level_length [OF q(1)] by simp_all
      have neg: "cmp_order cmp ?K (position_key ?m t [0]) < 0"
        using low r0(2) by (simp add: qN sgn_if split: if_splits)
      have ne: "position_key ?m t [0] \<noteq> ?K" using low r0(3) by (simp add: qN)
      have "lower_bound cmp ?m h t ?K = landing ?m t [] 0"
        using neg q(1) by (intro leaf_lookup(1) [OF ok(1)]) (simp_all add: qN brackets_Nil)
      then have lb: "lower_bound cmp ?m h t ?K = Some [0]" using w by (simp add: landing_def w_def qN)
      have "[0] \<in> set (positions ?m h t)" using level_snoc [of "[]" 0 ?m t 0] w by (simp add: w_def qN)
      moreover have "at_item t [0] (set_top_ki 0 mc)" using q(2) at_item_snoc [of t "[]" 0 "set_top_ki 0 mc"] by (simp add: qN)
      moreover have "item_node E mc 0 = item_node_of ?m t [0]"
        using leaf_at(2) [OF ok(1) q(1)] by (simp add: item_node_def item_node_of_def on_page_fields(5) [OF q(2)] qN)
      ultimately have "routed cmp h t op key (if op = MDBX_SET_RANGE then Got_node False (item_node E mc 0) else Not_found) (set_top_ki 0 mc)"
        using lb ne by (auto simp: routed_def sought_def)
      then show ?thesis unfolding code using low True on [of 0] w
        by (intro routesI [where route = "if op = MDBX_SET_RANGE then Got_node False (item_node E mc 0) else Not_found"
              and mc' = "set_top_ki 0 mc" and i = 0]) simp_all
    qed
  next
    case mid
    show ?thesis
    proof (cases "unat (top_ki mc) < w")
      case False
      then show ?thesis unfolding code using mid inside by simp
    next
      case True
      obtain r where r: "compare_item E key mc (unat (top_ki mc)) = Some r"
          "r = 0 \<longleftrightarrow> position_key ?m t (q @ [unat (top_ki mc)]) = ?K" using cmp [OF True] by blast
      show ?thesis unfolding code using mid True r inside item [OF True, of mc] by simp
    qed
  qed
qed

subsection \<open>\<open>mdbx_cursor_set\<close>\<close>

text \<open>The item found, with its key for the operations that return it.\<close>

definition lands :: "nat \<Rightarrow> tree \<Rightarrow> cursor_op \<Rightarrow> 'x cursor \<Rightarrow> mdbx_val \<Rightarrow> mdbx_val option \<Rightarrow> bool \<Rightarrow> nat list \<Rightarrow>
    (bool \<times> int \<times> page_txn \<times> 'x cursor \<times> mdbx_val \<times> mdbx_val option) option \<Rightarrow> bool" where
  "lands h t op mc key data exact p r \<longleftrightarrow>
     (\<exists>T' mc'. r = Some (exact, 0, T', mc', if op = MDBX_SET then key else item_key_of (env_mem E) t p,
                         map_option (\<lambda>_. item_value_of (env_mem E) at t p) data) \<and>
        like T' \<and> cursor_ok h t mc' \<and> same_table mc mc' \<and> flag_set C_INITIALIZED mc' \<and> at_item t p mc' \<and> \<not> flag_set C_EOF mc')"

definition fails :: "nat \<Rightarrow> tree \<Rightarrow> 'x cursor \<Rightarrow> mdbx_val \<Rightarrow> mdbx_val option \<Rightarrow>
    (bool \<times> int \<times> page_txn \<times> 'x cursor \<times> mdbx_val \<times> mdbx_val option) option \<Rightarrow> bool" where
  "fails h t mc key data r \<longleftrightarrow>
     (\<exists>T' mc'. r = Some (False, error_code MDBX_NOTFOUND, T', mc', key, data) \<and> like T' \<and> cursor_ok h t mc' \<and> same_table mc mc')"

lemma got_node_lands:
  assumes ok: "tree_ok (env_mem E) at h t" "cursor_ok h t mc" "like T" and op: "op \<in> {MDBX_SET, MDBX_SET_KEY, MDBX_SET_RANGE}"
    and p: "p \<in> set (positions (env_mem E) h t)" "at_item t p mc1" "node = item_node_of (env_mem E) t p"
    and mc: "same_table mc mc1" "cu_flags mc1 AND C_DEL = 0"
  shows "lands h t op mc key data exact p (got_node E S op exact node key data T mc1)"
proof -
  let ?m = "env_mem E" and ?mc = "clear_flag C_EOF (set_flag C_INITIALIZED mc1)"
  obtain q i where q: "p = q @ [i]" "q \<in> set (level ?m t h)" "i < width ?m (subtree t q)" "on_page t q mc1" "top_ki mc1 = of_nat i"
    by (rule at_itemD [OF p(1,2)])
  note leaf = leaf_at [OF ok(1) q(2)]
  have node: "node = page_node ?m (page_of (subtree t q)) i" using p(3) by (simp add: q(1) item_node_of_def)
  have item: "item_ok ?m at (page_of (subtree t q)) node" unfolding node by (rule leaf(4) [OF q(3)])
  have on: "on_leaf ?m h t ?mc"
    using q(2-5) index_word [OF less_imp_le [OF q(3)]] by (auto simp: on_leaf_def intro!: bexI [of _ q])
  have ok': "cursor_ok h t ?mc" by (rule cursor_okI [OF ok(2) _ _ on]) (use mc in \<open>simp_all add: word_flag_cases\<close>)
  have at: "at_item t p ?mc" using q(4,5) by (simp add: q(1) at_item_snoc)
  have fl: "flag_set C_INITIALIZED ?mc" "\<not> flag_set C_EOF ?mc" by (simp_all add: word_flag_cases)
  have st: "same_table mc ?mc" using mc(1) by simp
  have key: "get_key ?m (item_node_of ?m t p) = item_key_of ?m t p" by (simp add: item_key_of_def)
  obtain T' where T': "mdbx_node_read E node (pp_txnid4chk E (page_of (subtree t q))) T = Some (0, T', node_value ?m at node)" "like T'"
    by (rule node_read_item [OF item ok(3)])
  have "got_node E S op exact node key data T mc1 =
      Some (exact, 0, if data = None then T else T', ?mc, if op = MDBX_SET then key else item_key_of ?m t p,
            map_option (\<lambda>_. item_value_of ?m at t p) data)"
    using leaf(2) item op T'(1) p(3)
    by (cases data) (auto simp: got_node_def Let_def key on_page_fields(5) [OF q(4)] item_ok_def item_value_of_def)
  then show ?thesis using ok(3) T'(2) ok' at fl st by (auto simp: lands_def)
qed

text \<open>The search from the root.\<close>

lemma tree_search_finds:
  assumes ok: "tree_ok (env_mem E) at h t" "h < CURSOR_STACK" "tree_sorted cmp (env_mem E) t" "like T"
    and adm: "keys_admitted cmp (val_bytes (env_mem E) key # all_keys (env_mem E) t)"
    and mc: "dbx_cmp (cu_dbx mc) = Some cmp" "rooted t mc" "fresh_root t mc"
  obtains T' mc' q where "mdbx_page_search E (Some key) 0 T mc = Some (0, T', clear_flag C_EOF (set_flag C_INITIALIZED mc'))"
    "like T'" "q \<in> set (level (env_mem E) t h)" "on_page t q mc'" "same_but_place mc mc'"
    "brackets (env_mem E) cmp (val_bytes (env_mem E) key) t q"
proof (rule page_search_down [where Q = "brackets (env_mem E) cmp (val_bytes (env_mem E) key) t", OF ok(1) mc(2,3) ok(4)])
  fix T' and mc' :: "'a cursor"
  assume "like T'" "on_page t [] mc'" "same_but_place mc mc'"
  moreover from this have "dbx_cmp (cu_dbx mc') = Some cmp" using mc(1) same_but_place_fields(3) by metis
  ultimately show "\<exists>T'' mc'' q. search_down E (Some key) 0 T' mc' = Some (0, T'', mc'') \<and> like T'' \<and>
      q \<in> set (level (env_mem E) t h) \<and> on_page t q mc'' \<and> same_but_place mc' mc'' \<and>
      brackets (env_mem E) cmp (val_bytes (env_mem E) key) t q"
    using search_down_key [OF ok(1-3) adm, of "[]" 0 mc' T'] brackets_Nil by auto
qed (use that in simp_all)

lemma found_lands:
  assumes ok: "tree_ok (env_mem E) at h t" "cursor_ok h t mc" and op: "op \<in> {MDBX_SET, MDBX_SET_KEY, MDBX_SET_RANGE}"
    and mc: "same_table mc mc1" "cu_flags mc1 AND C_DEL = 0" and r: "finds cmp h t op key mc1 r"
  shows "case sought cmp (env_mem E) h t (val_bytes (env_mem E) key) op of
      None \<Rightarrow> fails h t mc key0 data (do { (exact, rc, node, T, mc) \<leftarrow> r;
        if rc \<noteq> 0 then Some (exact, rc, T, mc, key0, data) else got_node E S op exact node key0 data T mc })
    | Some p \<Rightarrow> lands h t op mc key0 data (position_key (env_mem E) t p = val_bytes (env_mem E) key) p
        (do { (exact, rc, node, T, mc) \<leftarrow> r;
        if rc \<noteq> 0 then Some (exact, rc, T, mc, key0, data) else got_node E S op exact node key0 data T mc })"
proof -
  let ?m = "env_mem E" and ?K = "val_bytes (env_mem E) key"
  obtain rc exact node T' mc' where f: "r = Some (exact, rc, node, T', mc')" "like T'" "on_leaf ?m h t mc'" "same_table mc1 mc'"
      "cu_flags mc' = cu_flags mc1 \<or> cu_flags mc' = cu_flags mc1 OR C_EOF"
      "case sought cmp ?m h t ?K op of None \<Rightarrow> \<not> exact \<and> rc = error_code MDBX_NOTFOUND
       | Some p \<Rightarrow> (exact \<longleftrightarrow> position_key ?m t p = ?K) \<and> rc = 0 \<and>
           node = item_node_of ?m t p \<and> at_item t p mc' \<and> p \<in> set (positions ?m h t)"
    using r unfolding finds_def by blast
  have st: "same_table mc mc'" by (rule same_table_trans [OF mc(1) f(4)])
  have del: "cu_flags mc' AND C_DEL = 0" using f(5) mc(2) by (auto simp: word_flag_cases)
  show ?thesis
  proof (cases "sought cmp ?m h t ?K op")
    case None
    then have "\<not> exact" "rc = error_code MDBX_NOTFOUND" using f(6) by simp_all
    then show ?thesis using None f(1,2) st cursor_okI [OF ok(2) st del f(3)]
      by (simp add: fails_def error_code.simps)
  next
    case (Some p)
    then have p: "exact \<longleftrightarrow> position_key ?m t p = ?K" "rc = 0" "node = item_node_of ?m t p" "at_item t p mc'"
      "p \<in> set (positions ?m h t)" using f(6) by simp_all
    have "lands h t op mc key0 data exact p (got_node E S op exact node key0 data T' mc')"
      by (rule got_node_lands [OF ok f(2) op p(5,4,3) st del])
    then show ?thesis using Some f(1) p(1,2) by simp
  qed
qed

lemma cursor_set_finds:
  assumes ok: "tree_ok (env_mem E) at h t" "h < CURSOR_STACK" "tree_sorted cmp (env_mem E) t" "like T"
    and adm: "keys_admitted cmp (val_bytes (env_mem E) key # all_keys (env_mem E) t)"
    and mc: "dbx_cmp (cu_dbx mc) = Some cmp" "cursor_ok h t mc" "key_fits (cu_db mc) (cu_dbx mc) key"
    and op: "op \<in> {MDBX_SET, MDBX_SET_KEY, MDBX_SET_RANGE}"
  shows "case sought cmp (env_mem E) h t (val_bytes (env_mem E) key) op of
      None \<Rightarrow> fails h t mc key data (mdbx_cursor_set E S op key data T mc)
    | Some p \<Rightarrow> lands h t op mc key data (position_key (env_mem E) t p = val_bytes (env_mem E) key) p
        (mdbx_cursor_set E S op key data T mc)"
proof -
  let ?m = "env_mem E" and ?K = "val_bytes (env_mem E) key"
  have plain: "cu_xcursor mc = None" "cu_flags mc AND C_DEL = 0" using mc(2) by (simp_all add: cursor_ok_def plain_def)
  define run where "run route mc = do {
      (exact, rc, node, T, mc) \<leftarrow>
        (case route of
           Got_node exact node \<Rightarrow> Some (exact, 0, node, T, mc)
         | Not_found \<Rightarrow> Some (False, error_code MDBX_NOTFOUND, 0, T, mc)
         | Search_node \<Rightarrow> search_item E op key T mc
         | Search_tree \<Rightarrow> do {
             (rc, T, mc) \<leftarrow> mdbx_page_search E (Some key) 0 T mc;
             if rc \<noteq> 0 then Some (False, rc, 0, T, mc) else search_item E op key T mc
           });
      if rc \<noteq> 0 then Some (exact, rc, T, mc, key, data) else got_node E S op exact node key data T mc
    }" for route and mc :: "'a cursor"
  have E: "E\<lparr>rd_mem := rd_mem E\<rparr> = E" by simp
  have size: "\<not> (iov_len key < dbx_klen_min (cu_dbx mc) \<or> iov_len key > dbx_klen_max (cu_dbx mc))"
    using mc(3) by (auto simp: key_fits_def)
  have aligned: "(if db_flags (cu_db mc) AND ucast MDBX_INTEGERKEY \<noteq> 0 then align_value (ce_keybuf E) key (env_mem E)
      else Some (env_mem E, key)) = Some (env_mem E, key)"
    using mc(3) by (auto simp: key_fits_def align_value_def)
  have code: "mdbx_cursor_set E S op key data T mc = do {
      (route, mc) \<leftarrow> (if flag_set C_INITIALIZED mc then set_shortcut E op key mc
                     else Some (Search_tree, mc\<lparr>cu_pg := (cu_pg mc)(0 := 0)\<rparr>));
      run route mc
    }"
    unfolding mdbx_cursor_set_def if_not_P [OF size] aligned option.case prod.case Let_def E clear_dup_plain [OF plain(1)] run_def ..
  have goal: "case sought cmp ?m h t ?K op of None \<Rightarrow> fails h t mc key data (run route mc1)
      | Some p \<Rightarrow> lands h t op mc key data (position_key ?m t p = ?K) p (run route mc1)"
    if st: "same_table mc mc1" and del: "cu_flags mc1 AND C_DEL = 0" and ok1: "cursor_ok h t mc1"
      and route: "routed cmp h t op key route mc1" "route \<noteq> Search_tree \<Longrightarrow> on_leaf ?m h t mc1" for route and mc1 :: "'a cursor"
  proof -
    have dbx: "dbx_cmp (cu_dbx mc1) = Some cmp" using st mc(1) by (simp add: same_table_def)
    note fin = found_lands [OF ok(1) mc(2) op]
    show ?thesis
    proof (cases route)
      case Search_tree
      obtain T' mc' q where s: "mdbx_page_search E (Some key) 0 T mc1 = Some (0, T', clear_flag C_EOF (set_flag C_INITIALIZED mc'))"
          "like T'" "q \<in> set (level ?m t h)" "on_page t q mc'" "same_but_place mc1 mc'" "brackets ?m cmp ?K t q"
        by (rule tree_search_finds [OF ok adm dbx]) (use ok1 in \<open>auto simp: cursor_ok_def\<close>)
      let ?mc = "clear_flag C_EOF (set_flag C_INITIALIZED mc')"
      have found: "finds cmp h t op key ?mc (search_item E op key T' ?mc)"
        using dbx s(4) same_but_place_fields(3) [OF s(5)] by (intro search_item_finds [OF ok(1-3) s(2) adm _ s(3) _ s(6)]) simp_all
      have st': "same_table mc ?mc" using same_table_trans [OF st same_but_place_table [OF s(5)]] by simp
      have del': "cu_flags ?mc AND C_DEL = 0" using del same_but_place_fields(1) [OF s(5)] by (simp add: word_flag_cases)
      have code1: "run route mc1 = do {
          (exact, rc, node, T, mc) \<leftarrow> search_item E op key T' ?mc;
          if rc \<noteq> 0 then Some (exact, rc, T, mc, key, data) else got_node E S op exact node key data T mc }"
        by (simp add: run_def Search_tree s(1))
      show ?thesis unfolding code1 by (rule fin [OF st' del' found])
    next
      case Search_node
      then obtain q where q: "q \<in> set (level ?m t h)" "on_page t q mc1" "brackets ?m cmp ?K t q" using route(1) by (auto simp: routed_def)
      have "finds cmp h t op key mc1 (search_item E op key T mc1)" by (rule search_item_finds [OF ok adm dbx q])
      then show ?thesis unfolding Search_node run_def set_route.case by (rule fin [OF st del])
    next
      case Not_found
      have "finds cmp h t op key mc1 (Some (False, error_code MDBX_NOTFOUND, 0, T, mc1))"
        using route ok(4) by (auto simp: routed_def finds_def Not_found)
      then show ?thesis unfolding Not_found run_def set_route.case by (rule fin [OF st del])
    next
      case (Got_node exact node)
      have "finds cmp h t op key mc1 (Some (exact, 0, node, T, mc1))"
        using route ok(4) by (auto simp: routed_def finds_def Got_node)
      then show ?thesis unfolding Got_node run_def set_route.case by (rule fin [OF st del])
    qed
  qed
  show ?thesis
  proof (cases "flag_set C_INITIALIZED mc")
    case False
    let ?mc = "mc\<lparr>cu_pg := (cu_pg mc)(0 := 0)\<rparr>"
    have "cursor_ok h t ?mc" using mc(2) False rooted_cong [of ?mc mc t]
      by (simp add: cursor_ok_def plain_def fresh_root_def flag_set_def)
    moreover have code0: "mdbx_cursor_set E S op key data T mc = run Search_tree ?mc" using False by (simp add: code)
    moreover have "same_table mc ?mc" "cu_flags ?mc AND C_DEL = 0" "routed cmp h t op key Search_tree ?mc"
      using plain(2) by (simp_all add: same_table_def routed_def)
    ultimately show ?thesis unfolding code0 by (intro goal) simp_all
  next
    case True
    then have "on_leaf ?m h t mc" using mc(2) by (simp add: cursor_ok_def)
    from shortcut_routes [OF ok(1,3) adm mc(1) this, of op] obtain route mc1 f where
      r: "set_shortcut E op key mc = Some (route, mc1)" "routed cmp h t op key route mc1" "on_leaf ?m h t mc1" "same_table mc mc1"
        "f AND (C_INITIALIZED OR C_DEL) = 0" "cu_flags mc1 = cu_flags mc OR f \<or> cu_flags mc1 = cu_flags mc AND NOT f"
      unfolding routes_def by blast
    have fd: "f AND C_DEL = 0" using r(5) by (simp add: bit.conj_disj_distrib or_eq_0_iff)
    have del: "cu_flags mc1 AND C_DEL = 0" using r(6)
    proof
      assume "cu_flags mc1 = cu_flags mc AND NOT f"
      then have "cu_flags mc1 AND C_DEL = (cu_flags mc AND C_DEL) AND NOT f" by (simp only: ac_simps)
      then show ?thesis using plain(2) by simp
    qed (use fd plain(2) in \<open>simp add: word_flag_cases\<close>)
    have "cursor_ok h t mc1" by (rule cursor_okI [OF mc(2) r(4) del r(3)])
    moreover have code1: "mdbx_cursor_set E S op key data T mc = run route mc1" using True r(1) by (simp add: code)
    ultimately show ?thesis unfolding code1 by (intro goal [OF r(4) del _ r(2,3)])
  qed
qed

end

end
