(* ===== verification/Table_Reads.thy ===== *)
theory Table_Reads
  imports Tree_Set
begin

text \<open>
  What the calls of the library give that read a table without duplicates: cursors stay fit for use,
  a scan gives the entries in the order of their keys, and the lookups decide which keys the table holds.
\<close>

subsection \<open>Cursors stay fit for use\<close>

definition given_key :: "mem \<Rightarrow> cursor_op \<Rightarrow> mdbx_val \<Rightarrow> tree \<Rightarrow> nat list \<Rightarrow> mdbx_val" where
  "given_key m op key t p = (if op = MDBX_SET then key else item_key_of m t p)"

context page_reader
begin

text \<open>The call comes back with an item or an error that is no failure, and the cursor can be used again.\<close>

definition settles :: "nat \<Rightarrow> tree \<Rightarrow> 'x cursor \<Rightarrow> 'x moved option \<Rightarrow> bool" where
  "settles h t mc r \<longleftrightarrow>
     (\<exists>rc T' mc' key data. r = Some (rc, T', mc', key, data) \<and>
        rc \<in> {0, error_code MDBX_NOTFOUND, error_code MDBX_ENODATA} \<and> like T' \<and> cursor_ok h t mc' \<and> same_table mc mc' \<and>
        (rc = 0 \<longrightarrow> flag_set C_INITIALIZED mc' \<and> (\<exists>p \<in> set (positions (env_mem E) h t). at_item t p mc')))"

lemma arrives_settles: "arrives h t mc key data p r \<Longrightarrow> p \<in> set (positions (env_mem E) h t) \<Longrightarrow> settles h t mc r"
  unfolding arrives_def settles_def by blast

lemma misses_settles: "misses h t mc key data r \<Longrightarrow> settles h t mc r"
  unfolding misses_def settles_def by (elim exE conjE) (simp add: error_code.simps)

lemma moved_settles:
  assumes "case adjacent (env_mem E) d t p of None \<Rightarrow> misses h t mc key data r | Some p' \<Rightarrow> arrives h t mc key data p' r"
    and "tree_ok (env_mem E) at h t" "p \<in> set (positions (env_mem E) h t)"
  shows "settles h t mc r"
proof (cases "adjacent (env_mem E) d t p")
  case None
  then show ?thesis using assms(1) misses_settles by simp
next
  case (Some p')
  then have "p' \<in> set (positions (env_mem E) h t)" using adjacent_in_level [OF assms(2) _ assms(3)] by simp
  then show ?thesis using assms(1) Some arrives_settles by simp
qed

lemma first_last_settle:
  assumes ok: "tree_ok (env_mem E) at h t" "h < CURSOR_STACK" "cursor_ok h t mc" "like T"
  shows "settles h t mc (mdbx_cursor_first E S key data T mc)" "settles h t mc (mdbx_cursor_last E S key data T mc)"
    "\<not> flag_set C_INITIALIZED mc \<Longrightarrow> settles h t mc (mdbx_cursor_prev E S op key data T mc)"
  using cursor_first_arrives [OF ok, of key data S] cursor_last_arrives [OF ok, of key data S]
    fresh_prev_arrives [OF ok, of key data S op] level_nonempty [OF ok(1), of "Suc h"] by (auto elim!: arrives_settles)

lemma next_settles:
  assumes ok: "tree_ok (env_mem E) at h t" "h < CURSOR_STACK" "cursor_ok h t mc" "like T"
  shows "settles h t mc (mdbx_cursor_next E S op key data T mc)"
proof -
  let ?m = "env_mem E" and ?mc = "clear_flag C_EOF mc"
  have x: "\<not> flag_set C_DEL mc" "db_flags (cu_db mc) AND ucast MDBX_DUPSORT = 0" "cu_flags mc AND C_DEL = 0"
    using ok(3) by (simp_all add: cursor_ok_def plain_def flag_set_def)
  consider (fresh) "\<not> flag_set C_INITIALIZED mc"
    | (eof) "flag_set C_INITIALIZED mc" "flag_set C_EOF mc \<and> unat (top_ki mc) + 1 \<ge> page_numkeys ?m (top_page mc)"
    | (move) "flag_set C_INITIALIZED mc" "\<not> (flag_set C_EOF mc \<and> unat (top_ki mc) + 1 \<ge> page_numkeys ?m (top_page mc))" by blast
  then show ?thesis
  proof cases
    case fresh
    then show ?thesis using x(1) first_last_settle(1) [OF ok] by (simp add: mdbx_cursor_next_def)
  next
    case eof
    then have "mdbx_cursor_next E S op key data T mc = Some (error_code MDBX_NOTFOUND, T, mc, key, data)"
      using x(1) by (simp add: mdbx_cursor_next_def)
    then show ?thesis using ok(3,4) by (simp add: settles_def error_code.simps)
  next
    case move
    then have "on_leaf ?m h t mc" using ok(3) by (simp add: cursor_ok_def)
    then obtain q where q: "q \<in> set (level ?m t h)" "on_page t q mc" "unat (top_ki mc) \<le> width ?m (subtree t q)"
      by (auto simp: on_leaf_def)
    have here: "here t q (unat (top_ki mc)) \<in> set (positions ?m h t)"
      using q(1) leaf_at(5) [OF ok(1) q(1)] by (simp add: here_def level_snoc)
    have "case adjacent ?m Right t (here t q (unat (top_ki mc))) of
        None \<Rightarrow> misses h t mc key data (next_item E S key data T ?mc)
      | Some p \<Rightarrow> arrives h t mc key data p (next_item E S key data T ?mc)"
      by (rule next_item_moves [OF ok q(1)]) (use q x move(1) in \<open>simp_all add: flag_eval\<close>)
    from moved_settles [OF this ok(1) here] show ?thesis
      using x(1,2) move by (auto simp: mdbx_cursor_next_def Let_def)
  qed
qed

lemma prev_settles:
  assumes ok: "tree_ok (env_mem E) at h t" "h < CURSOR_STACK" "cursor_ok h t mc" "like T"
  shows "settles h t mc (mdbx_cursor_prev E S op key data T mc)"
proof (cases "flag_set C_INITIALIZED mc")
  case False
  then show ?thesis by (rule first_last_settle(3) [OF ok])
next
  case True
  let ?m = "env_mem E"
  have x: "\<not> flag_set C_DEL mc" "db_flags (cu_db mc) AND ucast MDBX_DUPSORT = 0" "cu_flags mc AND C_DEL = 0"
    using ok(3) by (simp_all add: cursor_ok_def plain_def flag_set_def)
  have "on_leaf ?m h t mc" using ok(3) True by (simp add: cursor_ok_def)
  then obtain q where q: "q \<in> set (level ?m t h)" "on_page t q mc" "unat (top_ki mc) \<le> width ?m (subtree t q)"
    by (auto simp: on_leaf_def)
  have code: "mdbx_cursor_prev E S op key data T mc = prev_item E S key data T mc"
    using x(1,2) True by (simp add: mdbx_cursor_prev_def)
  have r: "case adjacent ?m Left t (q @ [unat (top_ki mc)]) of
      None \<Rightarrow> misses h t mc key data (mdbx_cursor_prev E S op key data T mc)
    | Some p \<Rightarrow> arrives h t mc key data p (mdbx_cursor_prev E S op key data T mc)"
    unfolding code by (rule prev_item_moves [OF ok q(1,2) _ x(3) True _ q(3)]) simp_all
  show ?thesis
  proof (cases "adjacent ?m Left t (q @ [unat (top_ki mc)])")
    case None
    then show ?thesis using r misses_settles by simp
  next
    case (Some p)
    have "p \<in> set (positions ?m h t)"
    proof (cases "unat (top_ki mc) = 0")
      case True
      have w: "0 < width ?m (subtree t q)" by (rule leaf_at(5) [OF ok(1) q(1)])
      then have "adjacent ?m Left t (q @ [0]) = Some p" using Some True by simp
      then show ?thesis using adjacent_in_level [OF ok(1) order_refl, of "q @ [0]" Left p] q(1) w by (simp add: level_snoc)
    next
      case False
      then have "p = q @ [unat (top_ki mc) - 1]" using Some by (simp add: adjacent_snoc)
      then show ?thesis using False q(1,3) by (simp add: level_snoc)
    qed
    then show ?thesis using r Some arrives_settles by simp
  qed
qed

lemma current_settles:
  assumes ok: "tree_ok (env_mem E) at h t" "h < CURSOR_STACK" "cursor_ok h t mc" "like T"
  shows "settles h t mc (get_current E S key data T mc)"
proof (cases "flag_set C_INITIALIZED mc")
  case False
  then show ?thesis using ok(3,4) by (simp add: get_current_def Let_def settles_def error_code.simps)
next
  case True
  let ?m = "env_mem E"
  have "on_leaf ?m h t mc" using ok(3) True by (simp add: cursor_ok_def)
  then obtain q where q: "q \<in> set (level ?m t h)" "on_page t q mc" "unat (top_ki mc) \<le> width ?m (subtree t q)"
    by (auto simp: on_leaf_def)
  note leaf = leaf_at [OF ok(1) q(1)]
  have num: "page_numkeys ?m (top_page mc) = width ?m (subtree t q)" by (simp add: on_page_fields(5) [OF q(2)] width_def)
  have word: "of_nat (unat (top_ki mc)) = top_ki mc" by simp
  show ?thesis
  proof (cases "unat (top_ki mc) < width ?m (subtree t q)")
    case False
    then have "width ?m (subtree t q) = unat (top_ki mc)" using q(3) by simp
    then have "get_current E S key data T mc = Some (error_code MDBX_NOTFOUND, T, set_flag C_EOF mc, key, data)"
      using True num by (simp add: get_current_def Let_def set_top_ki_id)
    moreover have "cursor_ok h t (set_flag C_EOF mc)"
      using ok(3) \<open>on_leaf ?m h t mc\<close> by (intro cursor_okI [OF ok(3)]) (simp_all add: cursor_ok_def plain_def word_flag_cases)
    ultimately show ?thesis using ok(4) by (simp add: settles_def error_code.simps)
  next
    case inside: True
    let ?p = "q @ [unat (top_ki mc)]" and ?node = "page_node ?m (page_of (subtree t q)) (unat (top_ki mc))"
    have p: "?p \<in> set (positions ?m h t)" "at_item t ?p mc" using q(1,2) inside by (simp_all add: level_snoc at_item_snoc)
    note item = leaf(4) [OF inside]
    then have dups: "\<not> has_dups ?m ?node" by (simp add: item_ok_def)
    obtain T' where T': "mdbx_node_read E ?node (pp_txnid4chk E (page_of (subtree t q))) T = Some (0, T', node_value ?m at ?node)"
      "like T'" by (rule node_read_item [OF item ok(4)])
    have "get_current E S key data T mc = Some (0, if data = None then T else T', mc, get_key_optional ?m ?node key,
        map_option (\<lambda>_. node_value ?m at ?node) data)"
      using True inside num leaf(2) dups T'(1)
      by (cases data) (simp_all add: get_current_def Let_def on_page_fields(5) [OF q(2)])
    then show ?thesis using p True ok(3,4) T'(2) unfolding settles_def by (auto simp: error_code.simps)
  qed
qed

subsection \<open>\<open>mdbx_cursor_get\<close> with a key\<close>

lemma get_sets:
  assumes ok: "tree_ok (env_mem E) at h t" "h < CURSOR_STACK" "tree_sorted cmp (env_mem E) t" "like T"
    and adm: "keys_admitted cmp (val_bytes (env_mem E) key # all_keys (env_mem E) t)"
    and mc: "dbx_cmp (cu_dbx mc) = Some cmp" "cursor_ok h t mc" "key_fits (cu_db mc) (cu_dbx mc) key" "cu_signature mc = MDBX_MC_LIVE"
    and op: "op \<in> {MDBX_SET, MDBX_SET_KEY, MDBX_SET_RANGE}"
  shows "\<exists>rc T' mc' key' data'. mdbx_cursor_get E op (Some key) data T mc = Some (rc, T', mc', Some key', data') \<and>
      like T' \<and> cursor_ok h t mc' \<and> same_table mc mc' \<and>
      (case sought cmp (env_mem E) h t (val_bytes (env_mem E) key) op of
         None \<Rightarrow> rc = error_code MDBX_NOTFOUND \<and> key' = key \<and> data' = data
       | Some p \<Rightarrow> rc = 0 \<and> key' = given_key (env_mem E) op key t p \<and> data' = map_option (\<lambda>_. item_value_of (env_mem E) at t p) data \<and>
           p \<in> set (positions (env_mem E) h t) \<and> flag_set C_INITIALIZED mc' \<and> at_item t p mc')"
proof -
  let ?m = "env_mem E"
  have set: "cursor_get_op E op (Some key) data T mc =
      map_option (\<lambda>(exact, rc, T, mc, k, data). (rc, T, mc, Some k, data)) (mdbx_cursor_set E (table_dups E) op key data T mc)"
    using op by (auto simp: cursor_get_op_def)
  note found = cursor_set_finds [OF ok adm mc(1-3) op, of data "table_dups E"]
  have result: "mdbx_cursor_get E op (Some key) data T mc = Some (rc, T', mc', Some k, data')"
    if "mdbx_cursor_set E (table_dups E) op key data T mc = Some (exact, rc, T', mc', k, data')" "cursor_ok h t mc'"
    for exact rc T' mc' k data'
    by (rule cursor_get_result [OF ok(4) mc(4)]) (use that in \<open>simp_all add: set cursor_ok_def plain_def\<close>)
  show ?thesis
  proof (cases "sought cmp ?m h t (val_bytes ?m key) op")
    case None
    then obtain T' mc' where r: "mdbx_cursor_set E (table_dups E) op key data T mc = Some (False, error_code MDBX_NOTFOUND, T', mc', key, data)"
        "like T'" "cursor_ok h t mc'" "same_table mc mc'" using found by (auto simp: fails_def)
    from result [OF r(1,3)] show ?thesis using r None by auto
  next
    case (Some p)
    then have "lands h t op mc key data (position_key ?m t p = val_bytes ?m key) p (mdbx_cursor_set E (table_dups E) op key data T mc)"
      using found by simp
    then obtain exact T' mc' where r: "mdbx_cursor_set E (table_dups E) op key data T mc =
          Some (exact, 0, T', mc', given_key ?m op key t p, map_option (\<lambda>_. item_value_of ?m at t p) data)"
        "like T'" "cursor_ok h t mc'" "same_table mc mc'" "flag_set C_INITIALIZED mc'" "at_item t p mc'"
      by (auto simp: lands_def given_key_def)
    have "p \<in> set (positions ?m h t)"
      using Some unfolding sought_def lower_bound_def by (auto simp: find_Some_iff split: option.splits if_splits)
    then show ?thesis using result [OF r(1,3)] r Some by auto
  qed
qed

end

subsection \<open>Entries and lookups\<close>

lemma find_map: "List.find P (map f xs) = map_option f (List.find (P \<circ> f) xs)"
  by (induction xs) auto

lemma entry_key: "fst (entry_of m at t p) = position_key m t p"
  by (simp add: entry_of_def position_key_def)

lemma entries_sorted:
  assumes "tree_ok m at h t" "tree_sorted cmp m t"
  shows "sorted_keys cmp (map fst (entries m at h t))"
  using tree_keys_sorted [OF assms] unfolding tree_keys_positions [OF assms(1)] entries_def map_map o_def entry_key position_key_def .

lemma sought_range: "map_option (entry_of m at t) (sought cmp m h t k MDBX_SET_RANGE) =
    List.find (\<lambda>(k', d). cmp_order cmp k k' \<le> 0) (entries m at h t)"
proof -
  have "(\<lambda>(k', d). cmp_order cmp k k' \<le> 0) \<circ> entry_of m at t = (\<lambda>p. cmp_order cmp k (position_key m t p) \<le> 0)"
    using entry_key [of m at t] by (auto simp: fun_eq_iff split_beta)
  moreover have "sought cmp m h t k MDBX_SET_RANGE = lower_bound cmp m h t k" by (simp add: sought_def split: option.split)
  ultimately show ?thesis by (simp add: entries_def find_map lower_bound_def)
qed

lemma sought_exact:
  assumes ok: "tree_ok m at h t" "tree_sorted cmp m t" and op: "op \<noteq> MDBX_SET_RANGE"
  shows "map_of (entries m at h t) k = map_option (\<lambda>p. val_bytes m (item_value_of m at t p)) (sought cmp m h t k op)"
proof (cases "map_of (entries m at h t) k")
  case None
  have "position_key m t p \<noteq> k" if "p \<in> set (positions m h t)" for p
  proof -
    have "fst (entry_of m at t p) \<in> fst ` set (entries m at h t)" using that by (simp add: entries_def)
    then show ?thesis using None unfolding entry_key by (auto simp: map_of_eq_None_iff)
  qed
  moreover have "p \<in> set (positions m h t)" if "lower_bound cmp m h t k = Some p" for p
    using that unfolding lower_bound_def by (auto simp: find_Some_iff)
  ultimately show ?thesis using None op by (auto simp: sought_def split: option.split)
next
  case (Some d)
  then obtain p where p: "p \<in> set (positions m h t)" "position_key m t p = k" "val_bytes m (item_value_of m at t p) = d"
    by (auto simp: entries_def entry_of_def position_key_def dest!: map_of_SomeD)
  have "lower_bound cmp m h t k = Some p"
    by (rule lower_bound_equal [OF ok p(1)]) (simp add: p(2) key_order.ord_refl [OF cmp_order_key_order])
  then show ?thesis using Some p by (simp add: sought_def)
qed

subsection \<open>Tables and cursors of a transaction\<close>

text \<open>The transaction can read the tree, whose root is the one in the record of the cursor's table.\<close>

definition readable :: "cursor_env \<Rightarrow> page_txn \<Rightarrow> nat \<Rightarrow> tree \<Rightarrow> bool" where
  "readable E T h t \<longleftrightarrow> txn_wf T \<and> txn_unblocked T \<and> h < CURSOR_STACK \<and> tree_ok (env_mem E) (pages E T) h t"

definition table_root :: "cursor_env \<Rightarrow> page_txn \<Rightarrow> tree \<Rightarrow> 'x cursor \<Rightarrow> bool" where
  "table_root E T t mc \<longleftrightarrow>
     pages E T (db_root (cu_db mc)) = Some (page_of t) \<and> tx_dbistate T (cu_dbi mc) AND DBI_STALE = 0 \<and>
     mp_txnid (env_mem E) (page_of t) \<le> root_txnid T mc"

definition table_entries :: "cursor_env \<Rightarrow> page_txn \<Rightarrow> nat \<Rightarrow> tree \<Rightarrow> (u8 list \<times> u8 list) list" where
  "table_entries E T h t = entries (env_mem E) (pages E T) h t"

text \<open>A cursor that is fit for use: without a place, or on a leaf, possibly behind its last item.\<close>

definition fit :: "cursor_env \<Rightarrow> page_txn \<Rightarrow> nat \<Rightarrow> tree \<Rightarrow> table_cursor \<Rightarrow> bool" where
  "fit E T h t mc \<longleftrightarrow>
     readable E T h t \<and> table_root E T t mc \<and> cu_signature mc = MDBX_MC_LIVE \<and> plain mc \<and>
     (cu_pg mc 0 = 0 \<or> cu_pg mc 0 = page_of t) \<and> (flag_set C_INITIALIZED mc \<longrightarrow> on_leaf (env_mem E) h t mc)"

text \<open>The table is ordered by its comparator, which the key fits.\<close>

definition ordered_for :: "cursor_env \<Rightarrow> tree \<Rightarrow> mdbx_val \<Rightarrow> table_dbx \<Rightarrow> comparator \<Rightarrow> bool" where
  "ordered_for E t key dbx cmp \<longleftrightarrow>
     dbx_cmp dbx = Some cmp \<and> tree_sorted cmp (env_mem E) t \<and>
     keys_admitted cmp (val_bytes (env_mem E) key # all_keys (env_mem E) t)"

lemma fit_iff:
  "fit E T h t mc \<longleftrightarrow> readable E T h t \<and> reads T T \<and> txn_reader.cursor_ok E T h t mc \<and> cu_signature mc = MDBX_MC_LIVE"
  by (auto simp: fit_def txn_reader.cursor_ok_def txn_reader.rooted_def table_root_def txn_reader.fresh_root_def reads_def readable_def)

lemma fit_after:
  assumes "fit E T h t mc" "reads T T'" "txn_reader.cursor_ok E T h t mc'" "same_table mc mc'"
  shows "fit E T' h t mc'"
proof -
  have like: "txn_like T T'" "txn_wf T" "txn_unblocked T" using assms(2) by (simp_all add: reads_def)
  then have T': "txn_wf T'" "txn_unblocked T'" "pages E T' = pages E T" "same_ids T T'"
    using txn_like_wf [OF like(2,1)] txn_like_fields(1) [OF like(1)] by (simp_all add: txn_unblocked_def pages_like txn_like_ids)
  moreover have "root_txnid T' mc' = root_txnid T mc'"
    using T'(4) by (simp add: root_txnid_def same_ids_def split: option.split)
  ultimately show ?thesis using assms(1,3,4)
    by (auto simp: fit_def readable_def table_root_def txn_reader.cursor_ok_def txn_reader.rooted_def txn_reader.fresh_root_def
        same_table_def same_ids_def)
qed

text \<open>The operations of \<open>mdbx_cursor_get\<close> for tables without duplicates.\<close>

definition move_ops :: "cursor_op set" where
  "move_ops = {MDBX_FIRST, MDBX_LAST, MDBX_NEXT, MDBX_NEXT_NODUP, MDBX_PREV, MDBX_PREV_NODUP, MDBX_GET_CURRENT}"

definition set_ops :: "cursor_op set" where "set_ops = {MDBX_SET, MDBX_SET_KEY, MDBX_SET_RANGE}"

lemma move_settles:
  assumes "fit E T h t mc" "op \<in> move_ops"
  shows "txn_reader.settles E T h t mc (mdbx_cursor_get E op key data T mc)"
proof -
  have ok: "tree_ok (env_mem E) (pages E T) h t" "h < CURSOR_STACK" "txn_reader.cursor_ok E T h t mc" "reads T T"
    "cu_signature mc = MDBX_MC_LIVE" using assms(1) by (simp_all add: fit_iff readable_def)
  have op: "txn_reader.settles E T h t mc (cursor_get_op E op key data T mc)"
    using assms(2) txn_reader.first_last_settle(1,2) [OF ok(1-4)] txn_reader.next_settles [OF ok(1-4)]
      txn_reader.prev_settles [OF ok(1-4)] txn_reader.current_settles [OF ok(1-4)]
    by (auto simp: move_ops_def cursor_get_op_def)
  then obtain rc T' mc' key' data' where r: "cursor_get_op E op key data T mc = Some (rc, T', mc', key', data')"
      "txn_reader.cursor_ok E T h t mc'"
    unfolding txn_reader.settles_def by blast
  have "mdbx_cursor_get E op key data T mc = Some (rc, T', mc', key', data')"
    by (rule txn_reader.cursor_get_result [OF ok(4,5) r(1)]) (use r(2) in \<open>simp add: txn_reader.cursor_ok_def plain_def\<close>)
  then show ?thesis using op r(1) by simp
qed

text \<open>What \<open>mdbx_cursor_get\<close> gives for a key.\<close>

definition set_found :: "cursor_env \<Rightarrow> (pgno_t \<Rightarrow> nat option) \<Rightarrow> nat \<Rightarrow> tree \<Rightarrow> comparator \<Rightarrow> cursor_op \<Rightarrow> mdbx_val \<Rightarrow>
    mdbx_val option \<Rightarrow> int \<Rightarrow> table_cursor \<Rightarrow> mdbx_val \<Rightarrow> mdbx_val option \<Rightarrow> bool" where
  "set_found E at h t cmp op key data rc mc' key' data' \<longleftrightarrow>
     (case sought cmp (env_mem E) h t (val_bytes (env_mem E) key) op of
        None \<Rightarrow> rc = error_code MDBX_NOTFOUND \<and> key' = key \<and> data' = data
      | Some p \<Rightarrow> rc = 0 \<and> key' = given_key (env_mem E) op key t p \<and> data' = map_option (\<lambda>_. item_value_of (env_mem E) at t p) data \<and>
          p \<in> set (positions (env_mem E) h t) \<and> flag_set C_INITIALIZED mc' \<and> at_item t p mc')"

lemma set_result:
  assumes "fit E T h t mc" "ordered_for E t key (cu_dbx mc) cmp" "key_fits (cu_db mc) (cu_dbx mc) key" "op \<in> set_ops"
  obtains rc T' mc' key' data' where "mdbx_cursor_get E op (Some key) data T mc = Some (rc, T', mc', Some key', data')"
    "fit E T' h t mc'" "set_found E (pages E T) h t cmp op key data rc mc' key' data'"
proof -
  have ok: "tree_ok (env_mem E) (pages E T) h t" "h < CURSOR_STACK" "tree_sorted cmp (env_mem E) t" "reads T T"
    "keys_admitted cmp (val_bytes (env_mem E) key # all_keys (env_mem E) t)" "dbx_cmp (cu_dbx mc) = Some cmp"
    "txn_reader.cursor_ok E T h t mc" "cu_signature mc = MDBX_MC_LIVE"
    using assms(1,2) by (simp_all add: fit_iff readable_def ordered_for_def)
  show ?thesis
    using txn_reader.get_sets [OF ok(1-7) assms(3) ok(8) assms(4) [unfolded set_ops_def], of data] that fit_after [OF assms(1)]
    unfolding set_found_def by blast
qed

text \<open>The temporary cursor of a lookup.\<close>

definition usable_handle :: "cursor_env \<Rightarrow> page_txn \<Rightarrow> u32 \<Rightarrow> table_handle \<Rightarrow> tree \<Rightarrow> bool" where
  "usable_handle E T dbi th t \<longleftrightarrow>
     th_valid th \<and> \<not> th_changed th \<and> db_flags (th_db th) AND ucast MDBX_DUPSORT = 0 \<and> dbx_klen_max (th_dbx th) \<noteq> 0 \<and>
     pages E T (db_root (th_db th)) = Some (page_of t) \<and> tx_dbistate T dbi AND DBI_STALE = 0 \<and>
     mp_txnid (env_mem E) (page_of t) \<le>
       (case dirty_front dbi (tx_chain T) of
          Some front \<Rightarrow> front
        | None \<Rightarrow> if db_mod_txnid (th_db th) \<noteq> 0 then db_mod_txnid (th_db th) else tx_txnid T)"

definition new_cursor :: "u32 \<Rightarrow> table_handle \<Rightarrow> table_cursor \<Rightarrow> table_cursor" where
  "new_cursor dbi th raw =
     raw\<lparr>cu_signature := MDBX_MC_LIVE, cu_dbi := dbi, cu_db := th_db th, cu_dbx := th_dbx th, cu_snum := 0, cu_top := 0,
         cu_pg := (cu_pg raw)(0 := 0), cu_ki := (cu_ki raw)(0 := 0), cu_flags := 0, cu_xcursor := None\<rparr>"

lemma new_cursor_fit:
  assumes "readable E T h t" "usable_handle E T dbi th t"
  shows "fit E T h t (new_cursor dbi th raw)"
  using assms
  by (cases "dirty_front dbi (tx_chain T)")
    (simp_all add: fit_def usable_handle_def new_cursor_def table_root_def root_txnid_def plain_def flag_set_def
      split: if_splits)

lemma get_new_cursor:
  assumes "readable E T h t" "usable_handle E T dbi th t"
  shows "mdbx_get E dbi th raw inner (Some key) (Some data) T =
    map_option (\<lambda>(exact, rc, T, mc, k, data). (rc, T, data))
      (mdbx_cursor_set E (table_dups E) MDBX_SET key (Some data) T (new_cursor dbi th raw))"
proof -
  have "mdbx_cursor_init E dbi th raw inner T = Some (0, T, new_cursor dbi th raw)"
    using assms(2) by (simp add: mdbx_cursor_init_def mdbx_couple_init_def usable_handle_def new_cursor_def)
  moreover have "check_txn MDBX_TXN_BLOCKED T = 0" using assms(1) by (simp add: readable_def txn_unblocked_def check_txn_def)
  ultimately show ?thesis using assms(2)
    by (simp add: mdbx_get_def with_cursor_def usable_handle_def option.map_comp o_def case_prod_unfold)
qed

end
