(* ===== verification/Demo_Table.thy ===== *)
theory Demo_Table
  imports Table_Reads
begin

text \<open>
  A small table in memory: a branch page and two leaves, with the entries \<open>61\<close> to \<open>62\<close>, \<open>62\<close> to \<open>63\<close>
  and \<open>63\<close> to \<open>64\<close>, read by a read-only transaction.
\<close>

subsection \<open>The pages\<close>

text \<open>Pages of 256 bytes: page 3 at 768 is the root, pages 4 and 5 are the leaves.\<close>

definition demo_root_page :: "u8 list" where
  "demo_root_page = [1, 0, 0, 0, 0, 0, 0, 0, 0, 0, 1, 0, 4, 0, 218, 0, 3, 0, 0, 0, 228, 0, 218, 0]"

definition demo_left_page :: "u8 list" where
  "demo_left_page = [1, 0, 0, 0, 0, 0, 0, 0, 0, 0, 2, 0, 4, 0, 216, 0, 4, 0, 0, 0, 226, 0, 216, 0]"

definition demo_right_page :: "u8 list" where
  "demo_right_page = [1, 0, 0, 0, 0, 0, 0, 0, 0, 0, 2, 0, 2, 0, 226, 0, 5, 0, 0, 0, 226, 0]"

definition demo_table :: mem where
  "demo_table =
     wr_bytes (wr_bytes (wr_bytes (wr_bytes (wr_bytes (wr_bytes (wr_bytes (wr_bytes (\<lambda>a. 0)
       768 demo_root_page) 1016 [4, 0, 0, 0, 0, 0, 0, 0]) 1006 [5, 0, 0, 0, 0, 0, 1, 0, 0x63, 0])
       1024 demo_left_page) 1270 [1, 0, 0, 0, 0, 0, 1, 0, 0x61, 0x62]) 1260 [1, 0, 0, 0, 0, 0, 1, 0, 0x62, 0x63])
       1280 demo_right_page) 1526 [1, 0, 0, 0, 0, 0, 1, 0, 0x63, 0x64]"

lemmas demo_table_defs = demo_table_def demo_root_page_def demo_left_page_def demo_right_page_def

lemma demo_table_headers:
  "mp_flags demo_table 768 = 1" "mp_lower demo_table 768 = 4" "mp_upper demo_table 768 = 218" "mp_pgno demo_table 768 = 3"
  "mp_ptrs demo_table 768 0 = 228" "mp_ptrs demo_table 768 (Suc 0) = 218" "mp_txnid demo_table 768 = 1"
  "mp_flags demo_table 1024 = 2" "mp_lower demo_table 1024 = 4" "mp_upper demo_table 1024 = 216" "mp_pgno demo_table 1024 = 4"
  "mp_ptrs demo_table 1024 0 = 226" "mp_ptrs demo_table 1024 (Suc 0) = 216" "mp_txnid demo_table 1024 = 1"
  "mp_flags demo_table 1280 = 2" "mp_lower demo_table 1280 = 2" "mp_upper demo_table 1280 = 226" "mp_pgno demo_table 1280 = 5"
  "mp_ptrs demo_table 1280 0 = 226" "mp_txnid demo_table 1280 = 1"
  by (simp_all add: page_field_defs mp_txnid_def demo_table_defs ld16_def ld32_def ld64_def rd_bytes_def wr_bytes_def PAGEHDRSZ_def upt_rec)

lemma demo_table_nodes:
  "ld32 demo_table 1016 = 4" "ld16 demo_table 1022 = 0" "ld32 demo_table 1006 = 5" "ld16 demo_table 1012 = 1"
  "rd_bytes demo_table 1014 1 = [0x63]"
  "ld32 demo_table 1270 = 1" "ld8 demo_table 1274 = 0" "ld16 demo_table 1276 = 1" "rd_bytes demo_table 1278 1 = [0x61]"
  "rd_bytes demo_table 1279 1 = [0x62]"
  "ld32 demo_table 1260 = 1" "ld8 demo_table 1264 = 0" "ld16 demo_table 1266 = 1" "rd_bytes demo_table 1268 1 = [0x62]"
  "rd_bytes demo_table 1269 1 = [0x63]"
  "ld32 demo_table 1526 = 1" "ld8 demo_table 1530 = 0" "ld16 demo_table 1532 = 1" "rd_bytes demo_table 1534 1 = [0x63]"
  "rd_bytes demo_table 1535 1 = [0x64]"
  by (simp_all add: demo_table_defs ld8_def ld16_def ld32_def rd_bytes_def wr_bytes_def upt_rec)

subsection \<open>The tree and those who read it\<close>

definition demo_tree :: tree where "demo_tree = Node 768 [Leaf 1024, Leaf 1280]"

definition demo_reader :: cursor_env where
  "demo_reader = \<lparr>rd_env = demo_env\<lparr>me_psize := 256, me_psize2log := 8\<rparr>, rd_map = 0, rd_mem = demo_table,
     ce_unaligned_ok = True, ce_keybuf = 8192, ce_databuf = 8208, ce_fetch = (\<lambda>m dbi db T. None)\<rparr>"

definition demo_rtxn :: page_txn where
  "demo_rtxn = \<lparr>tx_flags = MDBX_TXN_RDONLY, tx_next_pgno = 6, tx_txnid = 1, tx_front = 1, tx_dirtylru = 0,
     tx_chain = [\<lparr>sp_flags = MDBX_TXN_RDONLY, sp_front = 1, sp_dbistate = (\<lambda>dbi. 0), sp_spill_pages = None,
                  sp_dirtylist = demo_dpl\<rparr>]\<rparr>"

definition demo_db :: table_db where
  "demo_db = \<lparr>db_flags = 0, db_depth = 2, db_xsize = 0, db_root = 3, db_branch_pages = 1, db_leaf_pages = 2,
     db_overflow_pages = 0, db_seq = 0, db_entries = 3, db_mod_txnid = 1\<rparr>"

definition demo_dbx :: table_dbx where
  "demo_dbx = \<lparr>dbx_name = null_val, dbx_cmp = Some Cmp_lexical, dbx_dcmp = Some Cmp_lexical, dbx_klen_min = 0,
     dbx_klen_max = 100, dbx_vlen_min = 0, dbx_vlen_max = 100\<rparr>"

definition demo_fresh :: table_cursor where
  "demo_fresh = \<lparr>cu_signature = MDBX_MC_LIVE, cu_dbi = 2, cu_db = demo_db, cu_dbx = demo_dbx, cu_flags = 0, cu_snum = 0,
     cu_top = 0, cu_pg = (\<lambda>i. 0), cu_ki = (\<lambda>i. 0), cu_xcursor = None\<rparr>"

definition demo_inner :: dup_cursor where
  "demo_inner = \<lparr>cu_signature = 0, cu_dbi = 0, cu_db = demo_db, cu_dbx = demo_dbx, cu_flags = 0, cu_snum = 0,
     cu_top = 0, cu_pg = (\<lambda>i. 0), cu_ki = (\<lambda>i. 0), cu_xcursor = None\<rparr>"

lemma demo_reader_fields [simp]:
  "env_mem demo_reader = demo_table" "rd_map demo_reader = 0" "me_psize (rd_env demo_reader) = 256"
  "me_psize2log (rd_env demo_reader) = 8"
  by (simp_all add: demo_reader_def)

lemma demo_txn_page:
  "txn_page demo_reader demo_rtxn p = unat (push_bit 8 (ucast p :: u64))" "txn_wf demo_rtxn" "txn_unblocked demo_rtxn"
  "tx_next_pgno demo_rtxn = 6"
  by (simp_all add: txn_page_def keeps_dirty_list_def demo_rtxn_def MDBX_TXN_RDONLY_def MDBX_WRITEMAP_def pgno2page_def
      pgno2bytes_def txn_wf_def txn_unblocked_def MDBX_TXN_BLOCKED_def MDBX_TXN_FINISHED_def MDBX_TXN_ERROR_def MDBX_TXN_HAS_CHILD_def)

lemma demo_pages:
  "pages demo_reader demo_rtxn 3 = Some 768" "pages demo_reader demo_rtxn 4 = Some 1024" "pages demo_reader demo_rtxn 5 = Some 1280"
  by (simp_all add: pages_def demo_txn_page valid_pgno_def MIN_PAGENO_def MAX_PAGENO_def page_header_ok_def
      demo_table_headers P_ILL_BITS_def P_BRANCH_def P_LEAF_def P_LEAF2_def P_OVERFLOW_def P_SPILLED_def PAGEHDRSZ_def Let_def)

lemma demo_page_nodes:
  "page_numkeys demo_table 768 = 2" "page_numkeys demo_table 1024 = 2" "page_numkeys demo_table 1280 = 1"
  "page_node demo_table 768 0 = 1016" "page_node demo_table 768 (Suc 0) = 1006" "page_node demo_table 1024 0 = 1270"
  "page_node demo_table 1024 (Suc 0) = 1260" "page_node demo_table 1280 0 = 1526"
  by (simp_all add: page_numkeys_def page_node_def demo_table_headers PAGEHDRSZ_def)

lemma demo_page_kinds:
  "IS_BRANCH demo_table 768" "\<not> IS_LEAF demo_table 768" "\<not> IS_LEAF2 demo_table 768"
  "\<not> IS_BRANCH demo_table 1024" "IS_LEAF demo_table 1024" "\<not> IS_LEAF2 demo_table 1024"
  "\<not> IS_BRANCH demo_table 1280" "IS_LEAF demo_table 1280" "\<not> IS_LEAF2 demo_table 1280"
  by (simp_all add: IS_BRANCH_def IS_LEAF_def IS_LEAF2_def demo_table_headers P_BRANCH_def P_LEAF_def P_LEAF2_def)

lemma demo_items:
  "node_flags demo_table 1270 = 0" "node_flags demo_table 1260 = 0" "node_flags demo_table 1526 = 0"
  "node_pgno demo_table 1016 = 4" "node_pgno demo_table 1006 = 5"
  "node_ks demo_table 1270 = 1" "node_ks demo_table 1260 = 1" "node_ks demo_table 1526 = 1" "node_ks demo_table 1016 = 0" "node_ks demo_table 1006 = 1"
  "node_ds demo_table 1270 = 1" "node_ds demo_table 1260 = 1" "node_ds demo_table 1526 = 1"
  by (simp_all add: node_flags_def node_pgno_def node_ks_def node_ds_def unaligned_peek_eq demo_table_nodes)

lemma upt2: "[0..<2] = [0, Suc 0]"
  by (simp add: upt_rec)

lemma upt1: "[0..<1] = [0]"
  by simp

lemma demo_tree_ok: "tree_ok demo_table (pages demo_reader demo_rtxn) 1 demo_tree"
  by (simp add: demo_tree_def branch_ok_def leaf_ok_def demo_page_kinds demo_page_nodes demo_items demo_pages demo_table_headers
      item_ok_def has_dups_def F_DUPDATA_def F_BIGDATA_def upt2)

lemma demo_readable: "readable demo_reader demo_rtxn 1 demo_tree"
  using demo_tree_ok by (simp add: readable_def demo_txn_page CURSOR_STACK_def)

lemma demo_fit: "fit demo_reader demo_rtxn 1 demo_tree demo_fresh"
proof -
  have "tx_dbistate demo_rtxn 2 = 0" "dirty_front 2 (tx_chain demo_rtxn) = None"
    by (simp_all add: tx_dbistate_def demo_rtxn_def)
  then show ?thesis using demo_readable
    by (simp add: fit_def table_root_def demo_fresh_def demo_db_def demo_pages plain_def flag_set_def
        root_txnid_def demo_table_headers demo_tree_def)
qed

lemma demo_keys:
  "page_keys demo_table 768 = [[], [0x63]]" "page_keys demo_table 1024 = [[0x61], [0x62]]" "page_keys demo_table 1280 = [[0x63]]"
proof -
  have keys: "page_keys demo_table a = map (\<lambda>i. tn_key (node_at demo_table (IS_LEAF demo_table a) (page_node demo_table a i))) [0..<page_numkeys demo_table a]"
    if "\<not> IS_LEAF2 demo_table a" for a
    using that by (intro nth_equalityI) (simp_all add: page_keys_def page_nodes_nth)
  show "page_keys demo_table 768 = [[], [0x63]]" "page_keys demo_table 1024 = [[0x61], [0x62]]" "page_keys demo_table 1280 = [[0x63]]"
    by (simp_all add: keys demo_page_kinds demo_page_nodes node_at_def demo_items demo_table_nodes upt1 upt2 rd_bytes_def [of _ _ 0] del: One_nat_def)
qed

lemma demo_ordered: "ordered_for demo_reader demo_tree key demo_dbx Cmp_lexical"
proof -
  have "tree_sorted Cmp_lexical demo_table demo_tree"
    by (simp add: demo_tree_def demo_keys sorted_keys_def separates_def upt2)
  then show ?thesis by (simp add: ordered_for_def demo_dbx_def keys_admitted_def)
qed

lemma demo_positions: "positions demo_table 1 demo_tree = [[0, 0], [0, 1], [1, 0]]"
  by (simp add: level.simps(2) demo_tree_def width_def demo_page_nodes upt2)

lemma demo_entries:
  "table_entries demo_reader demo_rtxn 1 demo_tree = [([0x61], [0x62]), ([0x62], [0x63]), ([0x63], [0x64])]"
  unfolding table_entries_def entries_def demo_reader_fields demo_positions
  by (simp add: entry_of_def item_key_of_def item_value_of_def item_node_of_def demo_tree_def demo_page_nodes get_key_def val_bytes_def
      node_value_def demo_items F_BIGDATA_def node_key_def node_data_def NODESIZE_def demo_table_nodes demo_table_nodes [unfolded One_nat_def])

end
