(* ===== verification/Reading_Laws.thy ===== *)
theory Reading_Laws
  imports Demo_Table
begin

text \<open>
  The laws of the calls that read a table without duplicates, through the interpretation
  \<open>txn_reader\<close> of the interface that the cursors rely on.
\<close>

subsection \<open>Neighbours\<close>

lemma adjacent_Some_neighbours:
  assumes "tree_ok m at h t" "l \<le> Suc h" "p \<in> set (level m t l)" "adjacent m Right t p = Some p'"
  shows "adjacent m Left t p' = Some p"
proof -
  obtain us vs where lev: "level m t l = us @ p # vs" using assms(3) by (meson split_list)
  show ?thesis using level_adjacent [OF assms(1,2)] assms(4)
    by (cases vs) (auto simp: lev successively_append_iff neighbours_def)
qed

lemma adjacent_None_iff:
  "adjacent m d t q = None \<longleftrightarrow> (\<forall>l < length q. outside d (width m (subtree t (take l q))) (q ! l))"
proof (induction q rule: rev_induct)
  case (snoc j q)
  have "(\<forall>l < length (q @ [j]). outside d (width m (subtree t (take l (q @ [j])))) ((q @ [j]) ! l)) \<longleftrightarrow>
      (\<forall>l < length q. outside d (width m (subtree t (take l q))) (q ! l)) \<and> outside d (width m (subtree t q)) j"
    by (auto simp: less_Suc_eq nth_append)
  then show ?case using snoc by (simp add: adjacent_snoc)
qed simp

lemma end_of_level:
  assumes "tree_ok m at h t" "l \<le> Suc h" "p \<in> set (level m t l)"
  shows "adjacent m Right t p = None \<longleftrightarrow> p = last (level m t l)" "adjacent m Left t p = None \<longleftrightarrow> p = hd (level m t l)"
proof -
  obtain us vs where lev: "level m t l = us @ p # vs" using assms(3) by (meson split_list)
  note adj = level_adjacent [OF assms(1,2)]
  show "adjacent m Right t p = None \<longleftrightarrow> p = last (level m t l)"
  proof (cases vs)
    case (Cons q vs')
    then have "adjacent m Right t p = Some q" using adj by (auto simp: lev successively_append_iff neighbours_def)
    moreover from this have "p \<noteq> last (level m t l)" using adj by auto
    ultimately show ?thesis by simp
  qed (use adj lev in simp)
  show "adjacent m Left t p = None \<longleftrightarrow> p = hd (level m t l)"
  proof (cases us rule: rev_cases)
    case (snoc us' q)
    then have "adjacent m Left t p = Some q" using adj by (auto simp: lev successively_append_iff neighbours_def)
    moreover from this have "p \<noteq> hd (level m t l)" using adj by auto
    ultimately show ?thesis by simp
  qed (use adj lev in simp)
qed

subsection \<open>Scans\<close>

text \<open>
  C2: Reading a table with a new cursor by \<open>MDBX_NEXT\<close> gives all its entries once, in the order of the
  leaves, and then \<open>MDBX_NOTFOUND\<close>; \<open>MDBX_PREV\<close> gives them in reverse order.
\<close>

theorem scan_gives_all_entries:
  assumes "fit E T h t mc" "\<not> flag_set C_INITIALIZED mc" "move_direction op = Some d" "length (table_entries E T h t) < n"
  shows "scan E op n T mc =
    Some (case d of Right \<Rightarrow> table_entries E T h t | Left \<Rightarrow> rev (table_entries E T h t), error_code MDBX_NOTFOUND)"
  unfolding table_entries_def
  by (rule txn_reader.scan_all) (use assms in \<open>simp_all add: fit_iff readable_def table_entries_def entries_def\<close>)

theorem scan_gives_all_entries_witness:
  "scan demo_reader MDBX_PREV 4 demo_rtxn demo_fresh =
     Some ([([0x63], [0x64]), ([0x62], [0x63]), ([0x61], [0x62])], error_code MDBX_NOTFOUND)"
  using scan_gives_all_entries [OF demo_fit, of MDBX_PREV Left 4] unfolding demo_entries
  by (simp add: demo_fresh_def flag_set_def)

subsection \<open>Lookups\<close>

text \<open>
  C3: \<open>mdbx_cursor_get\<close> with \<open>MDBX_SET_RANGE\<close> finds the first entry whose key is not below the given
  one, in the order of the table's comparator, wherever the cursor stands, and reports
  \<open>MDBX_NOTFOUND\<close> when there is none; the cursor stays fit for use.
\<close>

theorem set_range_finds_lower_bound:
  assumes "fit E T h t mc" "ordered_for E t key (cu_dbx mc) cmp" "key_fits (cu_db mc) (cu_dbx mc) key"
  shows "\<exists>rc T' mc' k v. mdbx_cursor_get E MDBX_SET_RANGE (Some key) (Some data) T mc = Some (rc, T', mc', Some k, Some v) \<and>
     fit E T' h t mc' \<and>
     (case List.find (\<lambda>(k', d). cmp_order cmp (val_bytes (env_mem E) key) k' \<le> 0) (table_entries E T h t) of
        None \<Rightarrow> rc = error_code MDBX_NOTFOUND \<and> k = key \<and> v = data
      | Some e \<Rightarrow> rc = 0 \<and> (val_bytes (env_mem E) k, val_bytes (env_mem E) v) = e)"
proof -
  let ?s = "sought cmp (env_mem E) h t (val_bytes (env_mem E) key) MDBX_SET_RANGE"
  obtain rc T' mc' key' data' where r: "mdbx_cursor_get E MDBX_SET_RANGE (Some key) (Some data) T mc = Some (rc, T', mc', Some key', data')"
      "fit E T' h t mc'" and found: "set_found E (pages E T) h t cmp MDBX_SET_RANGE key (Some data) rc mc' key' data'"
    by (rule set_result [OF assms, of MDBX_SET_RANGE "Some data"]) (simp add: set_ops_def)
  have entries: "List.find (\<lambda>(k', d). cmp_order cmp (val_bytes (env_mem E) key) k' \<le> 0) (table_entries E T h t) =
      map_option (entry_of (env_mem E) (pages E T) t) ?s"
    unfolding table_entries_def by (rule sought_range [symmetric])
  show ?thesis
  proof (cases ?s)
    case None
    then show ?thesis using r found unfolding entries by (simp add: set_found_def)
  next
    case (Some p)
    then show ?thesis using r found unfolding entries by (simp add: set_found_def entry_of_def given_key_def)
  qed
qed

theorem set_range_finds_lower_bound_witness:
  "\<exists>T' mc' k v. mdbx_cursor_get demo_reader MDBX_SET_RANGE (Some \<lparr>iov_base = 1013, iov_len = 2\<rparr>) (Some null_val) demo_rtxn demo_fresh =
     Some (0, T', mc', Some k, Some v) \<and> val_bytes demo_table k = [0x61] \<and> val_bytes demo_table v = [0x62]"
proof -
  let ?key = "\<lparr>iov_base = 1013, iov_len = 2\<rparr>"
  have bytes: "val_bytes demo_table ?key = [0, 0x63]"
    by (simp add: val_bytes_def rd_bytes_def demo_table_defs wr_bytes_def upt_rec)
  have "key_fits (cu_db demo_fresh) (cu_dbx demo_fresh) ?key" "cu_dbx demo_fresh = demo_dbx"
    by (simp_all add: key_fits_def demo_fresh_def demo_db_def demo_dbx_def)
  then show ?thesis
    using set_range_finds_lower_bound [OF demo_fit, of ?key Cmp_lexical null_val] demo_ordered [of ?key]
    unfolding demo_entries demo_reader_fields bytes by auto
qed

text \<open>
  C1: \<open>mdbx_get\<close> decides whether the table holds a key: it returns the value of the key's entry, or
  \<open>MDBX_NOTFOUND\<close> and leaves \<open>*data\<close> alone when no entry has the key.
\<close>

theorem get_decides_membership:
  assumes "readable E T h t" "usable_handle E T dbi th t" "ordered_for E t key (th_dbx th) cmp"
    and "key_fits (th_db th) (th_dbx th) key"
  shows "case map_of (table_entries E T h t) (val_bytes (env_mem E) key) of
       None \<Rightarrow> \<exists>T'. mdbx_get E dbi th raw inner (Some key) (Some data) T = Some (error_code MDBX_NOTFOUND, T', Some data)
     | Some d \<Rightarrow> \<exists>T' v. mdbx_get E dbi th raw inner (Some key) (Some data) T = Some (0, T', Some v) \<and> val_bytes (env_mem E) v = d"
proof -
  let ?s = "sought cmp (env_mem E) h t (val_bytes (env_mem E) key) MDBX_SET" and ?mc = "new_cursor dbi th raw"
  have fit: "fit E T h t ?mc" using assms(1,2) by (rule new_cursor_fit)
  have get: "mdbx_get E dbi th raw inner (Some key) (Some data) T =
      map_option (\<lambda>(exact, rc, T, mc, k, data). (rc, T, data)) (mdbx_cursor_set E (table_dups E) MDBX_SET key (Some data) T ?mc)"
    by (rule get_new_cursor [OF assms(1,2)])
  have entries: "map_of (table_entries E T h t) (val_bytes (env_mem E) key) =
      map_option (\<lambda>p. val_bytes (env_mem E) (item_value_of (env_mem E) (pages E T) t p)) ?s"
    unfolding table_entries_def using assms(1,3) by (intro sought_exact) (simp_all add: readable_def ordered_for_def)
  have "case ?s of None \<Rightarrow> txn_reader.fails E T h t ?mc key (Some data) (mdbx_cursor_set E (table_dups E) MDBX_SET key (Some data) T ?mc)
      | Some p \<Rightarrow> txn_reader.lands E T h t MDBX_SET ?mc key (Some data) (position_key (env_mem E) t p = val_bytes (env_mem E) key) p
          (mdbx_cursor_set E (table_dups E) MDBX_SET key (Some data) T ?mc)"
    using fit assms(3,4) by (intro txn_reader.cursor_set_finds) (simp_all add: fit_iff readable_def ordered_for_def new_cursor_def)
  then show ?thesis unfolding entries
    by (cases ?s) (auto simp: get txn_reader.fails_def txn_reader.lands_def)
qed

theorem get_decides_membership_witness:
  "\<exists>T' v. mdbx_get demo_reader 2 \<lparr>th_db = demo_db, th_dbx = demo_dbx, th_changed = False, th_valid = True\<rparr> demo_fresh demo_inner
     (Some \<lparr>iov_base = 1268, iov_len = 1\<rparr>) (Some null_val) demo_rtxn = Some (0, T', Some v) \<and> val_bytes demo_table v = [0x63]"
proof -
  let ?key = "\<lparr>iov_base = 1268, iov_len = 1\<rparr>"
  let ?th = "\<lparr>th_db = demo_db, th_dbx = demo_dbx, th_changed = False, th_valid = True\<rparr>"
  have bytes: "val_bytes demo_table ?key = [0x62]" by (simp add: val_bytes_def demo_table_nodes [unfolded One_nat_def])
  have "dirty_front 2 (tx_chain demo_rtxn) = None" "tx_dbistate demo_rtxn 2 = 0" by (simp_all add: demo_rtxn_def tx_dbistate_def)
  then have th: "usable_handle demo_reader demo_rtxn 2 ?th demo_tree"
    by (simp add: usable_handle_def demo_db_def demo_dbx_def demo_pages demo_tree_def demo_table_headers)
  have "key_fits demo_db demo_dbx ?key" by (simp add: key_fits_def demo_db_def demo_dbx_def)
  then show ?thesis
    using get_decides_membership [OF demo_readable th, of ?key Cmp_lexical demo_fresh demo_inner null_val] demo_ordered [of ?key]
    unfolding demo_entries demo_reader_fields bytes by simp
qed

subsection \<open>Cursors\<close>

text \<open>
  C4: In a table without duplicates every call of \<open>mdbx_cursor_get\<close> that moves the cursor or sets it to
  a key comes back, with an item, \<open>MDBX_NOTFOUND\<close> or \<open>MDBX_ENODATA\<close>, and leaves a cursor that is fit
  for every such call; the transaction can still read the table.
\<close>

theorem cursor_calls_keep_fit:
  assumes "fit E T h t mc"
    and "op \<in> move_ops \<or>
      op \<in> set_ops \<and> (\<exists>k cmp. key = Some k \<and> ordered_for E t k (cu_dbx mc) cmp \<and> key_fits (cu_db mc) (cu_dbx mc) k)"
  shows "\<exists>rc T' mc' key' data'. mdbx_cursor_get E op key data T mc = Some (rc, T', mc', key', data') \<and>
     rc \<in> {error_code MDBX_SUCCESS, error_code MDBX_NOTFOUND, error_code MDBX_ENODATA} \<and> fit E T' h t mc'"
  using assms(2)
proof
  assume "op \<in> move_ops"
  from move_settles [OF assms(1) this, of key data] fit_after [OF assms(1)] show ?thesis
    unfolding txn_reader.settles_def by (auto simp: error_code.simps)
next
  assume "op \<in> set_ops \<and> (\<exists>k cmp. key = Some k \<and> ordered_for E t k (cu_dbx mc) cmp \<and> key_fits (cu_db mc) (cu_dbx mc) k)"
  then obtain k cmp where op: "op \<in> set_ops" and k: "key = Some k" "ordered_for E t k (cu_dbx mc) cmp" "key_fits (cu_db mc) (cu_dbx mc) k" by blast
  obtain rc T' mc' key' data' where r: "mdbx_cursor_get E op (Some k) data T mc = Some (rc, T', mc', Some key', data')"
    "fit E T' h t mc'" "set_found E (pages E T) h t cmp op k data rc mc' key' data'"
    by (rule set_result [OF assms(1) k(2,3) op])
  have "rc = 0 \<or> rc = error_code MDBX_NOTFOUND" using r(3) by (auto simp: set_found_def split: option.splits)
  then show ?thesis using r(1,2) k(1) by (auto simp: error_code.simps)
qed

theorem cursor_calls_keep_fit_witness:
  "\<exists>rc T' mc' key' data'. mdbx_cursor_get demo_reader MDBX_LAST None None demo_rtxn demo_fresh = Some (rc, T', mc', key', data') \<and>
     fit demo_reader T' 1 demo_tree mc'"
  using cursor_calls_keep_fit [OF demo_fit, of MDBX_LAST None None] by (auto simp: move_ops_def)

text \<open>
  C12: \<open>MDBX_PREV\<close> undoes \<open>MDBX_NEXT\<close>: from an item that is not the last, the two calls bring the cursor
  back to the item, with its key and its value.
\<close>

theorem prev_undoes_next:
  assumes "fit E T h t mc" "p \<in> set (positions (env_mem E) h t)" "p \<noteq> last (positions (env_mem E) h t)"
    and "at_item t p mc" "flag_set C_INITIALIZED mc" "\<not> flag_set C_EOF mc"
  shows "\<exists>T1 mc1 k v T2 mc2 k' v'. mdbx_cursor_get E MDBX_NEXT (Some key) (Some data) T mc = Some (0, T1, mc1, Some k, Some v) \<and>
     mdbx_cursor_get E MDBX_PREV (Some k) (Some v) T1 mc1 = Some (0, T2, mc2, Some k', Some v') \<and>
     at_item t p mc2 \<and> (val_bytes (env_mem E) k', val_bytes (env_mem E) v') = entry_of (env_mem E) (pages E T) t p"
proof -
  have ok: "tree_ok (env_mem E) (pages E T) h t" "h < CURSOR_STACK" "txn_reader.cursor_ok E T h t mc" "reads T T"
    "cu_signature mc = MDBX_MC_LIVE" using assms(1) by (simp_all add: fit_iff readable_def)
  obtain p' where p': "adjacent (env_mem E) Right t p = Some p'"
    using end_of_level(1) [OF ok(1) order_refl assms(2)] assms(3) by auto
  have left: "adjacent (env_mem E) Left t p' = Some p" by (rule adjacent_Some_neighbours [OF ok(1) order_refl assms(2) p'])
  have mem: "p' \<in> set (positions (env_mem E) h t)" by (rule adjacent_in_level [OF ok(1) order_refl assms(2) p'])
  have "txn_reader.arrives E T h t mc (Some key) (Some data) p' (mdbx_cursor_get E MDBX_NEXT (Some key) (Some data) T mc)"
    using txn_reader.get_moves [OF ok, of MDBX_NEXT Right p "Some key" "Some data"] assms(2,4-6) p' by simp
  then obtain T1 mc1 where r1: "mdbx_cursor_get E MDBX_NEXT (Some key) (Some data) T mc =
        Some (0, T1, mc1, Some (item_key_of (env_mem E) t p'), Some (item_value_of (env_mem E) (pages E T) t p'))"
      "reads T T1" "txn_reader.cursor_ok E T h t mc1" "same_table mc mc1" "flag_set C_INITIALIZED mc1" "at_item t p' mc1"
      "flag_set C_EOF mc1 \<longrightarrow> adjacent (env_mem E) Right t p' = None"
    by (auto simp: txn_reader.arrives_def)
  have "cu_signature mc1 = MDBX_MC_LIVE" using r1(4) ok(5) by (simp add: same_table_def)
  from txn_reader.get_moves [OF ok(1,2) r1(3,2) this, of MDBX_PREV Left p' "Some (item_key_of (env_mem E) t p')"
      "Some (item_value_of (env_mem E) (pages E T) t p')"] mem r1(5-7) left
  have "txn_reader.arrives E T h t mc1 (Some (item_key_of (env_mem E) t p')) (Some (item_value_of (env_mem E) (pages E T) t p')) p
      (mdbx_cursor_get E MDBX_PREV (Some (item_key_of (env_mem E) t p')) (Some (item_value_of (env_mem E) (pages E T) t p')) T1 mc1)"
    by simp
  then obtain T2 mc2 where "mdbx_cursor_get E MDBX_PREV (Some (item_key_of (env_mem E) t p'))
        (Some (item_value_of (env_mem E) (pages E T) t p')) T1 mc1 =
        Some (0, T2, mc2, Some (item_key_of (env_mem E) t p), Some (item_value_of (env_mem E) (pages E T) t p))" "at_item t p mc2"
    by (auto simp: txn_reader.arrives_def)
  then show ?thesis using r1(1) by (auto simp: entry_of_def)
qed

definition demo_at_second :: table_cursor where
  "demo_at_second = demo_fresh\<lparr>cu_flags := C_INITIALIZED, cu_snum := 2, cu_top := 1, cu_pg := (\<lambda>i. 0)(0 := 768, 1 := 1024),
     cu_ki := (\<lambda>i. 0)(0 := 0, 1 := 1)\<rparr>"

lemma demo_at_second_fit:
  "fit demo_reader demo_rtxn 1 demo_tree demo_at_second" "at_item demo_tree [0, 1] demo_at_second"
  "flag_set C_INITIALIZED demo_at_second" "\<not> flag_set C_EOF demo_at_second"
proof -
  have on: "on_page demo_tree [0] demo_at_second"
    by (simp add: on_page_def demo_at_second_def follows_def demo_tree_def)
  then show "at_item demo_tree [0, 1] demo_at_second" by (simp add: at_item_def demo_at_second_def)
  have "[0] \<in> set (level demo_table demo_tree 1)"
    by (simp add: level.simps(2) demo_tree_def width_def demo_page_nodes)
  then have "on_leaf demo_table 1 demo_tree demo_at_second"
    using on by (auto simp: on_leaf_def width_def demo_tree_def demo_page_nodes demo_at_second_def intro!: bexI [of _ "[0]"])
  then show "fit demo_reader demo_rtxn 1 demo_tree demo_at_second"
    using demo_fit
    by (cases "dirty_front (cu_dbi demo_fresh) (tx_chain demo_rtxn)")
      (simp_all add: fit_def demo_at_second_def table_root_def plain_def root_txnid_def demo_tree_def split: if_splits)
  show "flag_set C_INITIALIZED demo_at_second" "\<not> flag_set C_EOF demo_at_second"
    by (simp_all add: demo_at_second_def flag_set_def)
qed

theorem prev_undoes_next_witness:
  "\<exists>T1 mc1 k v T2 mc2 k' v'. mdbx_cursor_get demo_reader MDBX_NEXT (Some null_val) (Some null_val) demo_rtxn demo_at_second =
       Some (0, T1, mc1, Some k, Some v) \<and>
     mdbx_cursor_get demo_reader MDBX_PREV (Some k) (Some v) T1 mc1 = Some (0, T2, mc2, Some k', Some v') \<and>
     at_item demo_tree [0, 1] mc2"
  using prev_undoes_next [OF demo_at_second_fit(1), of "[0, 1]" null_val null_val] demo_at_second_fit demo_positions by auto

text \<open>
  C13: For a cursor on an item of a well-formed table without duplicates, \<open>mdbx_cursor_on_first\<close> and
  \<open>mdbx_cursor_on_last\<close> tell whether the item is the first and whether it is the last of the table.
  (The two calls look only at the cursor's own stack of pages: in a table with duplicates, which the
  theorem does not cover, they answer for the key, whichever of its values the cursor is on.)
\<close>

theorem ends_of_table_are_told:
  assumes "fit E T h t mc" "p \<in> set (positions (env_mem E) h t)" "at_item t p mc" "flag_set C_INITIALIZED mc"
  shows "mdbx_cursor_on_first mc = error_code (if p = hd (positions (env_mem E) h t) then MDBX_RESULT_TRUE else MDBX_SUCCESS) \<and>
     mdbx_cursor_on_last (env_mem E) mc = error_code (if p = last (positions (env_mem E) h t) then MDBX_RESULT_TRUE else MDBX_SUCCESS)"
proof -
  let ?m = "env_mem E"
  have ok: "tree_ok ?m (pages E T) h t" and sig: "check_signature mc = 0"
    using assms(1) by (simp_all add: fit_iff readable_def check_signature_def)
  obtain q i where q: "p = q @ [i]" "q \<in> set (level ?m t h)" "i < width ?m (subtree t q)" "on_page t q mc" "top_ki mc = of_nat i"
    by (rule txn_reader.at_itemD [OF assms(2,3)])
  have len: "length p = Suc h" "cu_snum mc = Suc h" using level_length [OF q(2)] on_page_fields(1) [OF q(4)] by (simp_all add: q(1))
  have place: "cu_ki mc l = of_nat (p ! l) \<and> page_numkeys ?m (cu_pg mc l) = width ?m (subtree t (take l p)) \<and>
      p ! l < width ?m (subtree t (take l p))" if "l < Suc h" for l
    using that level_nth_width [OF assms(2) that] on_page_fields(2,3,5) [OF q(4)] level_length [OF q(2)] q(5)
    by (cases "l = h") (simp_all add: q(1) follows_def width_def nth_append)
  have index: "unat (of_nat (p ! l) :: u16) = p ! l" if "l < Suc h" for l
    using place [OF that] index_word [of "p ! l" ?m "subtree t (take l p)"] by simp
  have "(\<exists>l \<in> {..<cu_snum mc}. cu_ki mc l \<noteq> 0) \<longleftrightarrow> p \<noteq> hd (positions ?m h t)"
  proof -
    have "cu_ki mc l = 0 \<longleftrightarrow> p ! l = 0" if "l < Suc h" for l
      using place [OF that] index [OF that] by (metis unat_eq_zero of_nat_0)
    then have "(\<exists>l \<in> {..<cu_snum mc}. cu_ki mc l \<noteq> 0) \<longleftrightarrow> adjacent ?m Left t p \<noteq> None"
      unfolding adjacent_None_iff by (simp add: len) blast
    then show ?thesis using end_of_level(2) [OF ok order_refl assms(2)] by simp
  qed
  moreover have "(\<exists>l \<in> {..<cu_snum mc}. (ucast (cu_ki mc l) :: u32) < of_nat (page_numkeys ?m (cu_pg mc l)) - 1) \<longleftrightarrow>
      p \<noteq> last (positions ?m h t)"
  proof -
    have "(ucast (cu_ki mc l) :: u32) < of_nat (page_numkeys ?m (cu_pg mc l)) - 1 \<longleftrightarrow> p ! l + 1 < width ?m (subtree t (take l p))"
      if "l < Suc h" for l
      using place [OF that] siblings_word [OF _ width_less, of "p ! l" ?m "subtree t (take l p)"] by simp
    then have "(\<exists>l \<in> {..<cu_snum mc}. (ucast (cu_ki mc l) :: u32) < of_nat (page_numkeys ?m (cu_pg mc l)) - 1) \<longleftrightarrow>
        adjacent ?m Right t p \<noteq> None"
      unfolding adjacent_None_iff by (auto simp: len not_le)
    then show ?thesis using end_of_level(1) [OF ok order_refl assms(2)] by simp
  qed
  ultimately show ?thesis using assms(4) sig by (simp add: mdbx_cursor_on_first_def mdbx_cursor_on_last_def)
qed

theorem ends_of_table_are_told_witness:
  "mdbx_cursor_on_first demo_at_second = error_code MDBX_SUCCESS \<and> mdbx_cursor_on_last demo_table demo_at_second = error_code MDBX_SUCCESS"
  using ends_of_table_are_told [OF demo_at_second_fit(1) _ demo_at_second_fit(2,3)] demo_positions by simp

end
