(* ===== verification/Spec2Isabelle.thy ===== *)
theory Spec2Isabelle
  imports Page_List Result_Codes Ordered_Binary Compression Key_Conversion Env_Options Dirty_List Writer Page_Search Worker_Waits Write_Protocol Env_Txn Env_Registry Reading_Laws
begin

text \<open>
  A verification development for lmdbx-js: the storage engine libmdbx that the repository
  carries in \<open>dependencies/libmdbx/mdbx.c\<close>, and the native binding in \<open>src/\<close> that connects it to
  the JavaScript of \<open>write.js\<close> and \<open>read.js\<close>.

  \<^bold>\<open>The program.\<close>  libmdbx keeps tables of key/value entries as B+trees of pages in a memory-mapped
  file.  A transaction reads a page through its dirty list, that of a parent, or the map; a cursor
  is a stack of pages with an index in each; a page is a header, an array of offsets and the nodes
  at its end.  The binding runs writes in batches: JavaScript lays instructions out in a shared
  buffer, a writer thread performs them inside one transaction, answers in the flag word of each
  instruction, and gives way to synchronous transactions of the JavaScript thread by a handshake
  with a mutex and a condition variable.  Values may be compressed with LZ4 and may carry a version.

  \<^bold>\<open>How the theories correspond to the code.\<close>  A C struct is a record with the code's field
  names, an enumeration a datatype, an integer of fixed width a word of that width, memory a
  function from addresses to bytes with little-endian loads and stores, a block of cells a list
  whose accesses out of range are \<^const>\<open>None\<close>.  A result \<^const>\<open>None\<close> of an operation always means that
  the code would read or write where it must not, trip an assertion, or loop for ever; that this
  does not happen is part of the properties.  Operations carry the names of the code; names that
  begin with \<open>demo_\<close> or end in \<open>_witness\<close> belong to the instances that the properties are applied to.

  \<^item> Foundations, \<open>mdbx.c\<close>.  \<open>Prelude\<close>: word types, checked reads and writes of blocks, strict weak
    orders, sorted segments.  \<open>Int_Utils\<close>: saturating page arithmetic, powers of two, page counts
    packed into 16 bits.  \<open>Byte_Memory\<close>: \<open>unaligned_peek_*\<close>, \<open>unaligned_poke_*\<close>.  \<open>Result_Codes\<close>:
    \<open>MDBX_error_t\<close>, \<open>mdbx_strerror\<close> and its relatives.  \<open>Ieee_Double\<close>: doubles as bit patterns.
  \<^item> Sorting and searching, the macros \<open>SORT_IMPL\<close>, \<open>RADIXSORT_IMPL\<close>, \<open>SEARCH_IMPL\<close>: \<open>Sort_Network\<close>,
    \<open>Quicksort\<close>, \<open>Radix_Sort\<close>, \<open>Bin_Search\<close>.
  \<^item> Lists of pages.  \<open>Page_List\<close>: \<open>MDBX_PNL\<close> (\<open>mdbx_pnl_*\<close>).  \<open>Page_Table\<close>: the contract of a table
    of pages.  \<open>Dirty_List\<close>: \<open>MDBX_dpl\<close> (\<open>mdbx_dpl_*\<close>), which refines it.
  \<^item> Limits and environment.  \<open>Environment\<close>: \<open>mdbx_limits_*\<close>, the size functions, the record of the
    environment.  \<open>Env_Options\<close>: \<open>mdbx_env_create\<close>, \<open>mdbx_setup_pagesize\<close>, \<open>mdbx_env_set_option\<close>,
    \<open>mdbx_env_get_option\<close>.
  \<^item> Pages of a tree.  \<open>Tree_Page\<close>: \<open>MDBX_page\<close>, \<open>MDBX_node\<close>, \<open>mdbx_node_add_branch\<close>, \<open>_add_leaf\<close>,
    \<open>_add_leaf2\<close>, \<open>mdbx_node_del\<close>, \<open>mdbx_node_shrink\<close>, \<open>mdbx_page_new\<close>.  \<open>Page_Nodes\<close>: a page as a
    list of nodes.  \<open>Comparators\<close>: \<open>cmp_*\<close>, \<open>get_default_keycmp\<close>.  \<open>Page_Search\<close>:
    \<open>mdbx_node_search\<close>.
  \<^item> Reading.  \<open>Page_Access\<close>: \<open>mdbx_page_get_ex\<close>.  \<open>Tree_Cursor\<close>: the cursor and its stack,
    \<open>mdbx_page_search_root\<close>, \<open>mdbx_page_search\<close>, \<open>mdbx_cursor_sibling\<close>, \<open>mdbx_node_read\<close>, duplicates'
    inner cursor.  \<open>Cursor_Ops\<close>: \<open>mdbx_cursor_first\<close>, \<open>_last\<close>, \<open>_next\<close>, \<open>_prev\<close>, \<open>_set\<close>.
    \<open>Table_Get\<close>: \<open>mdbx_cursor_get\<close> with all its operations, \<open>mdbx_get\<close> and its variants,
    \<open>mdbx_fetch_sdb\<close>, \<open>mdbx_setup_dbx\<close>, \<open>mdbx_cursor_on_first\<close>, \<open>_on_last\<close>, \<open>_eof\<close>.  The proofs are
    in \<open>Page_Versions\<close> (pages of a transaction), \<open>Tree_Walk\<close> (trees of pages, descent, siblings),
    \<open>Tree_Moves\<close>, \<open>Tree_Scan\<close>, \<open>Tree_Lookup\<close>, \<open>Tree_Set\<close>, \<open>Table_Reads\<close>, on a table written out in
    \<open>Demo_Table\<close>, and end in \<open>Reading_Laws\<close>.
  \<^item> Keys and values.  \<open>Key_Conversion\<close>: \<open>mdbx_key_from_*\<close> and back.  \<open>Ordered_Binary\<close>:
    \<open>src/ordered-binary.cpp\<close>.  \<open>Binding_Types\<close> and \<open>Compression\<close>: \<open>src/lmdbx-js.h\<close>,
    \<open>src/compression.cpp\<close>, \<open>getVersionAndUncompress\<close> of \<open>src/misc.cpp\<close>.
  \<^item> Writing from JavaScript.  \<open>Write_Worker\<close>: the state of the writer thread, \<open>WaitForCallbacks\<close>,
    \<open>AcquireTxn\<close>, \<open>UnlockTxn\<close>.  \<open>Worker_Waits\<close>: when a wait comes back.
    \<open>Write_Instructions\<close>: \<open>DoWrites\<close> and \<open>Write\<close> of \<open>src/writer.cpp\<close>.  \<open>Write_Batch\<close>: the operations
    that a batch stands for, their layout by \<open>write.js\<close>, the refinement.  \<open>Writer\<close>: the properties.
    \<open>Write_Protocol\<close>: the writer thread, the JavaScript thread and the compression threads
    (\<open>compressInstruction\<close>) as a step relation.  \<open>Env_Txn\<close>: \<open>beginTxn\<close>, \<open>commitTxn\<close>,
    \<open>abortTxn\<close> of \<open>src/env.cpp\<close> under \<open>transactionSync\<close> of \<open>write.js\<close>.  \<open>Env_Registry\<close>: the
    environments that the threads of a process share.

  \<^bold>\<open>What the lemmas show.\<close>  From the bottom up: the sorts sort and stay inside their arrays and
  their fixed stack; the binary search finds the partition point; page lists and the dirty list
  keep their order and refine sets and finite maps; node operations refine insertion into and
  removal from a list of nodes and keep the layout of the page; the comparators are total orders;
  searching a page finds the lower bound, and searching then inserting keeps the order.  For
  reading, a page number leads to the latest version of the page in the chain of transactions; a
  cursor whose stack is a path of the tree stands on one entry of the table, and the moves are the
  successor and the predecessor of that entry; setting a cursor finds the entry of a key, the
  shortcuts within the present leaf included.  Together they give the laws of \<open>Reading_Laws\<close>:
  \<open>mdbx_get\<close> decides membership, a scan gives every entry once and in order, \<open>MDBX_SET_RANGE\<close>
  finds the lower bound from wherever the cursor stands, every such call keeps the cursor fit for
  the next.  For writing, the interpreter performs the batch that was laid out, the transaction
  around it commits it, a wait for a flag word comes back exactly when it should, the handshake
  keeps the transaction exclusive and lets an interrupting one through, nested synchronous
  transactions are atomic, compressed values are read back, and a value that does not fit the buffer
  is reported with the length that its header announces.

  \<^bold>\<open>Where the laws of writing stop.\<close>  The theorems about batches (\<open>Writer\<close>) are about complete
  batches that nobody interferes with while they run, in tables without duplicates, with values that
  are small enough and compressed already if they are to be, and without puts conditional on a
  version: there the code stores the old record (\<open>versioned_put_stores_old_record\<close>).  The handshake
  rests on a proviso about wake-ups, the record \<open>hazards\<close> of \<open>Write_Protocol\<close>: no wait ends without a
  signal, and no compression thread signals after the writer has left the wait for its value.  The
  code does not ensure it, and \<open>spurious_wakeup_breaks_exclusion\<close> and \<open>late_signal_breaks_exclusion\<close>
  show two write transactions at once without it.  That the engine does not fail is needed for an
  interrupting transaction to get its turn (\<open>failed_commit_blocks_javascript\<close>) and for nested
  transactions to be atomic (\<open>Env_Txn\<close> has the counterexamples), not for exclusion.

  \<^bold>\<open>Interfaces.\<close>  \<open>strict_weak_cmp\<close> (\<open>Prelude\<close>) is what a sort needs of its comparison, interpreted
  for page numbers and dirty pages.  \<open>key_order\<close> (\<open>Comparators\<close>) is what searching needs of a
  comparator, interpreted for each one of the library.  \<open>page_table\<close> (\<open>Page_Table\<close>) is a table of
  pages by number; \<open>page_allocator\<close> (\<open>Dirty_List\<close>) states what the allocator promises, and the
  dirty list satisfies \<open>page_table\<close> under it (a sublocale).  \<open>page_reader\<close> (\<open>Tree_Walk\<close>) is what the
  cursors need of page access: reading a page that the transaction can reach gives its address and
  keeps the others; it is interpreted on \<open>mdbx_page_get_ex\<close> with the latest versions of \<open>Page_Versions\<close>.

  \<^bold>\<open>Loops and bounds.\<close>  Structural and measured recursion throughout, with these exceptions.
  The descent of a tree is a \<open>partial_function\<close>; it returns because a tree of depth at most
  \<open>CURSOR_STACK\<close> is traversed one level at a time.  A scan takes fuel: one more step than the table
  has entries reaches the end, and the properties are stated for any fuel above that.  The writer's
  timed wait is a \<open>partial_function\<close> on the stream of what other threads do; a wait without a time
  limit comes back when \<open>signalled\<close> says so and is \<^const>\<open>None\<close> otherwise (\<open>cond_wait\<close>); a property
  says exactly when \<open>WaitForCallbacks\<close> comes back.  The quick sort has the code's stack of 32 segments, proved to be enough for any
  32-bit length.  Arithmetic is that of the code's widths; where a result needs room (page numbers
  below \<open>MAX_PAGENO\<close>, keys shorter than 2 GiB) the hypothesis says so.

  \<^bold>\<open>Parameters.\<close>  The allocator of the C library, \<open>strerror\<close>, \<open>memcmp\<close> (by its documented order), the
  LZ4 codec (by the round trip it documents), the page allocator of \<open>mdbx_page_new\<close>, the comparator
  an application installs, the process id and the clock.  For the binding, the calls of libmdbx are
  parameters with their documented contracts; what the JavaScript thread does while the writer waits
  is an arbitrary stream.

  \<^bold>\<open>Not modelled.\<close>
  \<^item> Writing through cursors (\<open>mdbx_cursor_put\<close>, \<open>_del\<close>, touching, splitting and rebalancing of pages),
    the page allocator with the reclaiming of freed pages, spilling: they change pages through
    several structures at once and rest on the allocator; of them the page level
    (\<open>Tree_Page\<close>), the dirty list and the page lists are here.
  \<^item> The beginning and the end of engine transactions, the reader table, the commit with its meta
    pages, opening and recovery of a data file, geometry.
  \<^item> Tables with duplicates: their operations are modelled, with the inner cursor, but the laws of
    reading are proved for tables without duplicates.
  \<^item> The operating system layer (files, maps, locks, shared memory), logging and assertions.
  \<^item> The command line tools, which are programs around the same library with their own amalgamated
    copies of its declarations; the C++ interface, a wrapper.
  \<^item> The vendored LZ4 and xxHash sources and the headers of V8.
  \<^item> The parts of the binding that only convert between JavaScript objects and C values: \<open>cursor.cpp\<close>,
    \<open>dbi.cpp\<close>, \<open>txn.cpp\<close>, the exports of \<open>misc.cpp\<close> and \<open>lmdbx-js.cpp\<close>.
\<close>

end
